(* ===== verification/Prelude.thy ===== *)
theory Prelude
  imports Main "HOL-Library.Word"
begin

text \<open>
  What the components share: computations that carry a state and may throw
  (the shape of a C++ method that mutates an object and raises exceptions, whose
  mutations before the exception stay), and generic facts on lists, words and
  index scans.  The collection \<open>eff_simps\<close> unfolds a computation.
\<close>

unbundle bit_operations_syntax

named_theorems eff_simps "unfolding of state and exception computations"
named_theorems step_simps "unfolding of one step of a component"

section \<open>Computations with state and exceptions\<close>

text \<open>
  A method is a function of the state it finds to the value or the exception it
  ends with, together with the state it leaves.  An exception keeps the state.
\<close>

type_synonym ('s, 'e, 'a) eff = "'s \<Rightarrow> ('e + 'a) \<times> 's"

definition eret :: "'a \<Rightarrow> ('s, 'e, 'a) eff" where
  "eret x s = (Inr x, s)"

definition ethrow :: "'e \<Rightarrow> ('s, 'e, 'a) eff" where
  "ethrow e s = (Inl e, s)"

definition ebind :: "('s, 'e, 'a) eff \<Rightarrow> ('a \<Rightarrow> ('s, 'e, 'b) eff) \<Rightarrow> ('s, 'e, 'b) eff" where
  "ebind m f s = (case m s of (Inl e, s') \<Rightarrow> (Inl e, s') | (Inr x, s') \<Rightarrow> f x s')"

definition ethen :: "('s, 'e, 'a) eff \<Rightarrow> ('s, 'e, 'b) eff \<Rightarrow> ('s, 'e, 'b) eff" where
  "ethen m n = ebind m (\<lambda>_. n)"

definition eget :: "('s \<Rightarrow> 'a) \<Rightarrow> ('s, 'e, 'a) eff" where
  "eget f s = (Inr (f s), s)"

definition emod :: "('s \<Rightarrow> 's) \<Rightarrow> ('s, 'e, unit) eff" where
  "emod f s = (Inr (), f s)"

text \<open>A method of a part of the state, run inside the whole.\<close>

definition ezoom :: "('s \<Rightarrow> 't) \<Rightarrow> ('t \<Rightarrow> 's \<Rightarrow> 's) \<Rightarrow> ('t, 'e, 'a) eff \<Rightarrow> ('s, 'e, 'a) eff" where
  "ezoom sel put m s = (case m (sel s) of (r, t) \<Rightarrow> (r, put t s))"

lemmas eff_defs = eret_def ethrow_def ebind_def ethen_def eget_def emod_def ezoom_def
declare eret_def [eff_simps] ethrow_def [eff_simps] ebind_def [eff_simps] ethen_def [eff_simps]
  eget_def [eff_simps] emod_def [eff_simps] ezoom_def [eff_simps]

lemma ebind_assoc: "ebind (ebind m f) g = ebind m (\<lambda>x. ebind (f x) g)"
  by (rule ext) (auto simp: ebind_def split: prod.splits sum.splits)

lemma ebind_eret [simp]: "ebind (eret x) f = f x" and ebind_eret_right [simp]: "ebind m eret = m"
  by (rule ext; auto simp: ebind_def eret_def split: prod.splits sum.splits)+

lemma ebind_ethrow [simp]: "ebind (ethrow e) f = ethrow e"
  by (rule ext) (auto simp: ebind_def ethrow_def)

text \<open>A computation that throws and leaves the state alone.\<close>

definition aborts :: "('s, 'e, 'a) eff \<Rightarrow> 's \<Rightarrow> bool" where
  "aborts m s \<longleftrightarrow> (\<exists>e. m s = (Inl e, s))"

lemma aborts_bind [intro]: "aborts m s \<Longrightarrow> aborts (ebind m f) s"
  by (auto simp: aborts_def ebind_def)

lemma aborts_then [intro]: "aborts m s \<Longrightarrow> aborts (ethen m n) s"
  by (auto simp: ethen_def)

lemma aborts_get [simp]: "aborts (ebind (eget f) m) s = aborts (m (f s)) s"
  by (simp add: aborts_def ebind_def eget_def)

text \<open>A computation that keeps a predicate of the state, however it ends.\<close>

definition keeps :: "('s \<Rightarrow> bool) \<Rightarrow> ('s, 'e, 'a) eff \<Rightarrow> bool" where
  "keeps P m \<longleftrightarrow> (\<forall>s. P s \<longrightarrow> P (snd (m s)))"

lemma keepsI: "(\<And>s. P s \<Longrightarrow> P (snd (m s))) \<Longrightarrow> keeps P m"
  by (simp add: keeps_def)

lemma keepsD: "keeps P m \<Longrightarrow> P s \<Longrightarrow> P (snd (m s))"
  by (simp add: keeps_def)

lemma keeps_bind [intro]: "keeps P m \<Longrightarrow> (\<And>x. keeps P (f x)) \<Longrightarrow> keeps P (ebind m f)"
proof (rule keepsI)
  fix s assume m: "keeps P m" and f: "\<And>x. keeps P (f x)" and s: "P s"
  from keepsD [OF m s] show "P (snd (ebind m f s))"
    by (cases "m s"; cases "fst (m s)") (auto simp: ebind_def intro: keepsD [OF f])
qed

lemma keeps_then [intro]: "keeps P m \<Longrightarrow> keeps P n \<Longrightarrow> keeps P (ethen m n)"
  unfolding ethen_def by (rule keeps_bind)

lemma keeps_ret [intro, simp]: "keeps P (eret x)" "keeps P (eget f)" "keeps P (ethrow e)"
  by (simp_all add: keeps_def eret_def eget_def ethrow_def)

section \<open>Reachable states\<close>

inductive reachable :: "('s \<Rightarrow> bool) \<Rightarrow> ('s \<Rightarrow> 's \<Rightarrow> bool) \<Rightarrow> 's \<Rightarrow> bool" for init step where
  start: "init s \<Longrightarrow> reachable init step s"
| nextstep: "reachable init step s \<Longrightarrow> step s s' \<Longrightarrow> reachable init step s'"

text \<open>What a component with a step relation promises its clients: an invariant.\<close>

locale invariant_of =
  fixes init :: "'s \<Rightarrow> bool" and step :: "'s \<Rightarrow> 's \<Rightarrow> bool" and inv :: "'s \<Rightarrow> bool"
  assumes inv_init: "init s \<Longrightarrow> inv s"
    and inv_step: "inv s \<Longrightarrow> step s s' \<Longrightarrow> inv s'"
begin

lemma holds: "reachable init step s \<Longrightarrow> inv s"
  by (induction rule: reachable.induct) (auto intro: inv_init inv_step)

end

section \<open>Index scans over a list\<close>

text \<open>
  \<open>scan p s i\<close> is the loop \<open>while (i < size && p(s[i])) ++i;\<close> that the sources
  use in many places: the first index from \<open>i\<close> on where \<open>p\<close> fails.
\<close>

function scan :: "('a \<Rightarrow> bool) \<Rightarrow> 'a list \<Rightarrow> nat \<Rightarrow> nat" where
  "scan p s i = (if i < length s \<and> p (s ! i) then scan p s (i + 1) else i)"
  by auto
termination by (relation "measure (\<lambda>(p, s, i). length s - i)") auto

declare scan.simps [simp del]

lemma scan_drop: "scan p s i = i + length (takeWhile p (drop i s))"
proof (induction p s i rule: scan.induct)
  case (1 p s i)
  show ?case
  proof (cases "i < length s \<and> p (s ! i)")
    case True
    then have "drop i s = s ! i # drop (i + 1) s" by (simp add: Cons_nth_drop_Suc)
    with True 1 show ?thesis by (subst scan.simps) simp
  next
    case False
    then have "takeWhile p (drop i s) = []"
      by (cases "drop i s") (auto simp: drop_eq_Nil2 nth_via_drop dest: nth_via_drop
          intro: ccontr simp: not_less)
    with False show ?thesis by (subst scan.simps) auto
  qed
qed

lemma scan_ge [simp]: "i \<le> scan p s i"
  by (simp add: scan_drop)

lemma scan_le: "i \<le> length s \<Longrightarrow> scan p s i \<le> length s"
  using length_takeWhile_le [of p "drop i s"] by (simp add: scan_drop)

lemma scan_slice: "take (scan p s i - i) (drop i s) = takeWhile p (drop i s)"
  by (simp add: scan_drop takeWhile_eq_take [symmetric])

lemma scan_rest: "drop (scan p s i) s = dropWhile p (drop i s)"
  by (simp add: scan_drop dropWhile_eq_drop add.commute)

lemma scan_progress: "i < length s \<Longrightarrow> p (s ! i) \<Longrightarrow> i < scan p s i"
  by (subst scan.simps) (simp add: less_le_trans [OF _ scan_ge])

lemma length_takeWhile_lt: "\<exists>x \<in> set xs. \<not> P x \<Longrightarrow> length (takeWhile P xs) < length xs"
  by (induction xs) auto

section \<open>Decimal text of integers (\<open>std::to_string\<close>)\<close>

definition digit_char :: "nat \<Rightarrow> char" where
  "digit_char d = char_of (48 + d)"

fun nat_to_string :: "nat \<Rightarrow> string" where
  "nat_to_string n = (if n < 10 then [digit_char n]
     else nat_to_string (n div 10) @ [digit_char (n mod 10)])"

declare nat_to_string.simps [simp del]

definition int_to_string :: "int \<Rightarrow> string" where
  "int_to_string i = (if i < 0 then CHR ''-'' # nat_to_string (nat (- i)) else nat_to_string (nat i))"

lemma nat_to_string_nonempty [simp]: "nat_to_string n \<noteq> []"
  by (subst nat_to_string.simps) simp

lemma nat_to_string_length: "n < 10 ^ Suc k \<Longrightarrow> length (nat_to_string n) \<le> Suc k"
proof (induction k arbitrary: n)
  case 0
  then show ?case by (subst nat_to_string.simps) simp
next
  case (Suc k)
  have "length (nat_to_string (n div 10)) \<le> Suc k" by (rule Suc.IH) (use Suc.prems in simp)
  then show ?case by (subst nat_to_string.simps) simp
qed

section \<open>Results\<close>

text \<open>Fallible functions without state return a sum: \<open>Inl\<close> the error.\<close>

definition is_ok :: "'e + 'a \<Rightarrow> bool" where
  "is_ok r = (case r of Inl _ \<Rightarrow> False | Inr _ \<Rightarrow> True)"

lemma is_ok_simps [simp]: "is_ok (Inr x)" "\<not> is_ok (Inl e)"
  by (simp_all add: is_ok_def)

end
