(* ===== verification/JsonContext.thy ===== *)
theory JsonContext
  imports Prelude
begin

text \<open>
  The token stack of the JSON writer (\<open>json_writer_context.cpp\<close>): every
  writer holds a token, only the holder of the token on top of the stack may
  write, and strings are escaped in runs.  The stream is the text written to it so far.
  The interface the writers use is the locale \<open>nested_stream\<close>, interpreted
  on the context at the end of this theory.
\<close>

section \<open>State and operations\<close>

datatype json_writer_error =
    Context_closed | Invalid_context | Context_empty | Single_root | Open_failed
  | Null_context \<comment> \<open>dereference of an empty \<open>shared_ptr\<close>: undefined behaviour in C++\<close>

type_synonym token_t = "16 word"

record json_writer_context =
  jc_closed :: bool
  jc_ostream :: string
  jc_stack :: "token_t list" \<comment> \<open>the top first\<close>
  jc_next :: token_t
  jc_escape_solidus :: bool

definition json_writer_context_new :: "string \<Rightarrow> json_writer_context" where
  "json_writer_context_new os = \<lparr>jc_closed = False, jc_ostream = os, jc_stack = [],
     jc_next = 0, jc_escape_solidus = True\<rparr>"

definition register_context :: "token_t \<Rightarrow> (json_writer_context, json_writer_error, token_t) eff" where
  "register_context token c =
     (if jc_closed c then (Inl Context_closed, c)
      else if jc_stack c \<noteq> [] \<and> token \<noteq> hd (jc_stack c) then (Inl Invalid_context, c)
      else let nxt = jc_next c; c = c\<lparr>jc_next := jc_next c + 1\<rparr>
           in (Inr nxt, c\<lparr>jc_stack := nxt # jc_stack c\<rparr>))"

definition unregister_context :: "token_t \<Rightarrow> (json_writer_context, json_writer_error, unit) eff" where
  "unregister_context token c =
     (if jc_closed c then (Inr (), c)
      else if jc_stack c = [] then (Inl Context_empty, c)
      else if token \<noteq> hd (jc_stack c) then (Inl Invalid_context, c)
      else (Inr (), c\<lparr>jc_stack := tl (jc_stack c)\<rparr>))"

definition context_write :: "token_t \<Rightarrow> string \<Rightarrow> (json_writer_context, json_writer_error, bool) eff" where
  "context_write token text c =
     (if jc_closed c then (Inr False, c)
      else if jc_stack c = [] then (Inl Invalid_context, c)
      else if token \<noteq> hd (jc_stack c) then (Inl Invalid_context, c)
      else (Inr True, c\<lparr>jc_ostream := jc_ostream c @ text\<rparr>))"

definition context_close :: "json_writer_context \<Rightarrow> json_writer_context" where
  "context_close c = c\<lparr>jc_closed := True\<rparr>"

section \<open>Escaping\<close>

definition is_json_escape_char :: "bool \<Rightarrow> char \<Rightarrow> char" where
  "is_json_escape_char escape_solidus ch =
     (if ch = CHR 0x22 then CHR 0x22
      else if ch = CHR 0x5C then CHR 0x5C
      else if ch = CHR 0x2F then (if escape_solidus then CHR 0x2F else CHR 0x00)
      else if ch = CHR 0x08 then CHR 0x62
      else if ch = CHR 0x0C then CHR 0x66
      else if ch = CHR 0x0A then CHR 0x6E
      else if ch = CHR 0x0D then CHR 0x72
      else if ch = CHR 0x09 then CHR 0x74
      else CHR 0x00)"

function json_escape_loop :: "bool \<Rightarrow> string \<Rightarrow> nat \<Rightarrow> string \<Rightarrow> string" where
  "json_escape_loop sol str i result =
     (if i < length str then
        let escape_char = is_json_escape_char sol (str ! i) in
        if escape_char \<noteq> CHR 0x00 then
          json_escape_loop sol str (i + 1) (result @ [CHR 0x5C, escape_char])
        else
          let j = scan (\<lambda>c. is_json_escape_char sol c = CHR 0x00) str i in
          json_escape_loop sol str j (result @ take (j - i) (drop i str))
      else result)"
  by auto
termination
proof (relation "measure (\<lambda>(sol, str, i, result). length str - i)", goal_cases)
  case (3 sol str i result e j)
  then have "i < j" by (simp add: scan_progress)
  with 3 show ?case by simp
qed simp_all

declare json_escape_loop.simps [simp del]

definition json_escape_string :: "bool \<Rightarrow> string \<Rightarrow> string" where
  "json_escape_string sol str = json_escape_loop sol str 0 []"

text \<open>The reference: each character on its own.\<close>

definition escape1 :: "bool \<Rightarrow> char \<Rightarrow> string" where
  "escape1 sol c = (let e = is_json_escape_char sol c in if e = CHR 0x00 then [c] else [CHR 0x5C, e])"

lemma escape_run:
  "\<forall>c \<in> set xs. is_json_escape_char sol c = CHR 0x00 \<Longrightarrow> concat (map (escape1 sol) xs) = xs"
  by (induction xs) (simp_all add: escape1_def)

lemma json_escape_loop_concat:
  "json_escape_loop sol str i result = result @ concat (map (escape1 sol) (drop i str))"
proof (induction sol str i result rule: json_escape_loop.induct)
  case (1 sol str i result)
  define p where "p = (\<lambda>c. is_json_escape_char sol c = CHR 0x00)"
  show ?case
  proof (cases "i < length str")
    case False
    then show ?thesis by (subst json_escape_loop.simps) simp
  next
    case i: True
    then have d: "drop i str = str ! i # drop (i + 1) str" by (simp add: Cons_nth_drop_Suc)
    show ?thesis
    proof (cases "p (str ! i)")
      case False
      then have "escape1 sol (str ! i) = [CHR 0x5C, is_json_escape_char sol (str ! i)]"
        by (simp add: escape1_def p_def)
      with False i 1(1) d show ?thesis
        by (subst json_escape_loop.simps) (simp add: p_def Let_def)
    next
      case True
      let ?j = "scan p str i"
      have "concat (map (escape1 sol) (drop i str)) =
            takeWhile p (drop i str) @ concat (map (escape1 sol) (drop ?j str))"
        using escape_run [of "takeWhile p (drop i str)" sol]
        by (subst takeWhile_dropWhile_id [of p "drop i str", symmetric])
          (auto simp only: map_append concat_append scan_rest p_def dest: set_takeWhileD)
      with i True 1(2) show ?thesis
        by (subst json_escape_loop.simps) (simp add: p_def Let_def scan_slice)
    qed
  qed
qed

lemma json_escape_string_concat: "json_escape_string sol str = concat (map (escape1 sol) str)"
  by (simp add: json_escape_string_def json_escape_loop_concat)

text \<open>A reader of the escapes the writer produces.\<close>

definition unescape_char :: "char \<Rightarrow> char" where
  "unescape_char e =
     (if e = CHR 0x62 then CHR 0x08 else if e = CHR 0x66 then CHR 0x0C
      else if e = CHR 0x6E then CHR 0x0A else if e = CHR 0x72 then CHR 0x0D
      else if e = CHR 0x74 then CHR 0x09 else e)"

fun json_unescape :: "string \<Rightarrow> string" where
  "json_unescape [] = []"
| "json_unescape [c] = [c]"
| "json_unescape (c # e # cs) =
     (if c = CHR 0x5C then unescape_char e # json_unescape cs else c # json_unescape (e # cs))"

lemma json_unescape_escape1 [simp]:
  "json_unescape (escape1 sol c @ cs) = c # json_unescape cs"
  by (cases cs; auto simp: escape1_def is_json_escape_char_def unescape_char_def Let_def)

section \<open>The interface the writers use\<close>

text \<open>
  What a writer relies on: while the stream is live and the writer holds the
  token on top, writing appends, entering pushes a token and leaving pops it.
  \<open>runs g tok P x keep Q m\<close> says that a method \<open>m\<close>, run by the holder of
  the top token on a stream with setting \<open>g\<close>, succeeds, appends exactly \<open>x\<close>,
  leaves the stack as it was (or without the holder's token, when \<open>keep\<close> is
  false) and takes the holder from \<open>P\<close> to \<open>Q\<close>.
\<close>

locale nested_stream =
  fixes live :: "'c \<Rightarrow> bool"
    and stk :: "'c \<Rightarrow> 't list"
    and out :: "'c \<Rightarrow> string"
    and cfg :: "'c \<Rightarrow> bool"
    and enter :: "'t \<Rightarrow> ('c, 'e, 't) eff"
    and leave :: "'t \<Rightarrow> ('c, 'e, unit) eff"
    and emit :: "'t \<Rightarrow> string \<Rightarrow> ('c, 'e, bool) eff"
  assumes emit_top: "live c \<Longrightarrow> stk c = t # ts \<Longrightarrow>
      \<exists>c'. emit t x c = (Inr True, c') \<and> live c' \<and> stk c' = t # ts \<and> out c' = out c @ x \<and> cfg c' = cfg c"
    and enter_top: "live c \<Longrightarrow> stk c = t # ts \<Longrightarrow>
      \<exists>u c'. enter t c = (Inr u, c') \<and> live c' \<and> stk c' = u # t # ts \<and> out c' = out c \<and> cfg c' = cfg c"
    and leave_top: "live c \<Longrightarrow> stk c = t # ts \<Longrightarrow>
      \<exists>c'. leave t c = (Inr (), c') \<and> live c' \<and> stk c' = ts \<and> out c' = out c \<and> cfg c' = cfg c"
    and emit_other: "live c \<Longrightarrow> stk c = u # ts \<Longrightarrow> t \<noteq> u \<Longrightarrow> \<exists>e. emit t x c = (Inl e, c)"
    and enter_other: "live c \<Longrightarrow> stk c = u # ts \<Longrightarrow> t \<noteq> u \<Longrightarrow> \<exists>e. enter t c = (Inl e, c)"
    and leave_other: "live c \<Longrightarrow> stk c = u # ts \<Longrightarrow> t \<noteq> u \<Longrightarrow> \<exists>e. leave t c = (Inl e, c)"
begin

definition runs :: "bool \<Rightarrow> ('w \<Rightarrow> 't) \<Rightarrow> ('w \<Rightarrow> bool) \<Rightarrow> string \<Rightarrow> bool \<Rightarrow> ('w \<Rightarrow> bool) \<Rightarrow>
    ('c \<times> 'w, 'e, 'a) eff \<Rightarrow> bool" where
  "runs g tok P x keep Q m \<longleftrightarrow> (\<forall>c ts w. live c \<and> stk c = tok w # ts \<and> cfg c = g \<and> P w \<longrightarrow>
     (\<exists>v c' w'. m (c, w) = (Inr v, (c', w')) \<and> live c' \<and> stk c' = (if keep then tok w # ts else ts) \<and>
        out c' = out c @ x \<and> cfg c' = g \<and> Q w' \<and> tok w' = tok w))"

lemma runsI:
  assumes "\<And>c ts w. live c \<Longrightarrow> stk c = tok w # ts \<Longrightarrow> cfg c = g \<Longrightarrow> P w \<Longrightarrow>
     \<exists>v c' w'. m (c, w) = (Inr v, (c', w')) \<and> live c' \<and> stk c' = (if keep then tok w # ts else ts) \<and>
        out c' = out c @ x \<and> cfg c' = g \<and> Q w' \<and> tok w' = tok w"
  shows "runs g tok P x keep Q m"
  unfolding runs_def using assms by blast

lemma runsE:
  assumes "runs g tok P x keep Q m" "live c" "stk c = tok w # ts" "cfg c = g" "P w"
  obtains v c' w' where "m (c, w) = (Inr v, (c', w'))" "live c'"
    "stk c' = (if keep then tok w # ts else ts)" "out c' = out c @ x" "cfg c' = g" "Q w'" "tok w' = tok w"
  using assms unfolding runs_def by blast

lemma runs_ret: "(\<And>w. P w \<Longrightarrow> Q w) \<Longrightarrow> runs g tok P [] True Q (eret v)"
  by (rule runsI) (simp add: eret_def)

lemma runs_bind:
  assumes m: "runs g tok P x True Q m" and f: "\<And>v. runs g tok Q y keep R (f v)"
  shows "runs g tok P (x @ y) keep R (ebind m f)"
proof (rule runsI)
  fix c ts w assume "live c" "stk c = tok w # ts" "cfg c = g" "P w"
  with m obtain v c1 w1 where 1: "m (c, w) = (Inr v, (c1, w1))" "live c1" "stk c1 = tok w1 # ts"
      "out c1 = out c @ x" "cfg c1 = g" "Q w1" "tok w1 = tok w"
    by (elim runsE) auto
  with f [of v] obtain v2 c2 w2 where "f v (c1, w1) = (Inr v2, (c2, w2))" "live c2"
      "stk c2 = (if keep then tok w1 # ts else ts)" "out c2 = out c1 @ y" "cfg c2 = g" "R w2" "tok w2 = tok w1"
    by (elim runsE)
  with 1 show "\<exists>v c' w'. ebind m f (c, w) = (Inr v, (c', w')) \<and> live c' \<and>
      stk c' = (if keep then tok w # ts else ts) \<and> out c' = out c @ (x @ y) \<and> cfg c' = g \<and> R w' \<and> tok w' = tok w"
    by (simp add: ebind_def)
qed

lemma runs_then:
  "runs g tok P x True Q m \<Longrightarrow> runs g tok Q y keep R n \<Longrightarrow> runs g tok P (x @ y) keep R (ethen m n)"
  unfolding ethen_def by (rule runs_bind)

lemma runs_get:
  assumes "\<And>w. P w \<Longrightarrow> f w = v" "runs g tok P x keep Q (m v)"
  shows "runs g tok P x keep Q (ebind (eget (f \<circ> snd)) m)"
  using assms(2) by (auto intro!: runsI elim!: runsE simp: ebind_def eget_def assms(1))

lemma runs_pre: "runs g tok P x keep Q m \<Longrightarrow> (\<And>w. P' w \<Longrightarrow> P w) \<Longrightarrow> runs g tok P' x keep Q m"
  unfolding runs_def by blast

text \<open>A nested scope: the token the holder enters with is worked with and left again.\<close>

lemma runs_scope:
  assumes body: "\<And>u. runs g tok P x False Q (body u)"
    and new: "\<And>u. P (mk u) \<and> tok (mk u) = u"
    and m: "\<And>c w. R w \<Longrightarrow> m (c, w) = (case enter (tok w) c of
        (Inl e, c') \<Rightarrow> (Inl e, (c', w))
      | (Inr u, c') \<Rightarrow> (case body u (c', mk u) of (r, (c2, _)) \<Rightarrow> (r, (c2, w))))"
  shows "runs g tok R x True R m"
proof (rule runsI)
  fix c ts w assume c: "live c" "stk c = tok w # ts" "cfg c = g" "R w"
  then obtain u c1 where 1: "enter (tok w) c = (Inr u, c1)" "live c1" "stk c1 = u # tok w # ts"
      "out c1 = out c" "cfg c1 = g"
    using enter_top by metis
  with new [of u] body [of u] obtain v c2 w2 where "body u (c1, mk u) = (Inr v, (c2, w2))" "live c2"
      "stk c2 = tok w # ts" "out c2 = out c1 @ x" "cfg c2 = g"
    by (elim runsE [where c = c1 and w = "mk u"]) auto
  with 1 c m [of w c] show "\<exists>v c' w'. m (c, w) = (Inr v, (c', w')) \<and> live c' \<and>
      stk c' = (if True then tok w # ts else ts) \<and> out c' = out c @ x \<and> cfg c' = g \<and> R w' \<and> tok w' = tok w"
    by simp
qed

end

lemmas context_op_defs = register_context_def unregister_context_def context_write_def context_close_def

interpretation jctx: nested_stream "\<lambda>c. \<not> jc_closed c" jc_stack jc_ostream jc_escape_solidus
    register_context unregister_context context_write
  by unfold_locales (auto simp: context_op_defs Let_def)

section \<open>Properties of the context\<close>

text \<open>The run-batching loop of json_escape_string is equivalent to escaping each character on
  its own, so the escaped text of a string that is split anywhere is the concatenation of the
  escaped parts, and undoing the escapes gives the input back for every string and setting.\<close>

theorem json_escape_roundtrip:
  "json_escape_string sol (s @ t) = json_escape_string sol s @ json_escape_string sol t \<and>
   json_escape_string sol s = concat (map (escape1 sol) s) \<and>
   json_unescape (json_escape_string sol s) = s"
proof -
  have "json_unescape (concat (map (escape1 sol) s)) = s" by (induction s) simp_all
  then show ?thesis by (simp add: json_escape_string_concat)
qed

end
