(* ===== verification/JsonWriter.thy ===== *)
theory JsonWriter
  imports JsonContext
begin

text \<open>
  The writers of the JSON library (\<open>json_writer_object.cpp\<close>, \<open>json_writer_array.cpp\<close>).  A
  method runs on the pair of the shared context and the writer it is called on.  The second part is
  the reference: a JSON value as a tree, its text, and a client that writes a tree with the methods.
\<close>

section \<open>Object and array writers\<close>

record json_writer_element =
  jw_token :: token_t
  jw_context :: bool \<comment> \<open>the shared pointer is not empty\<close>
  jw_has_element :: bool

type_synonym 'a jmethod =
  "(json_writer_context \<times> json_writer_element, json_writer_error, 'a) eff"

definition on_context :: "(token_t \<Rightarrow> (json_writer_context, json_writer_error, 'a) eff) \<Rightarrow> 'a jmethod" where
  "on_context m = (\<lambda>(c, w).
     if jw_context w then (case m (jw_token w) c of (r, c') \<Rightarrow> (r, (c', w)))
     else (Inl Null_context, (c, w)))"

definition w_write :: "string \<Rightarrow> bool jmethod" where
  "w_write x = on_context (\<lambda>t. context_write t x)"

definition w_escape :: "string \<Rightarrow> string jmethod" where
  "w_escape x = on_context (\<lambda>t. eget (\<lambda>c. json_escape_string (jc_escape_solidus c) x))"

definition set_has_element :: "unit jmethod" where
  "set_has_element = emod (\<lambda>(c, w). (c, w\<lparr>jw_has_element := True\<rparr>))"

definition reset_context :: "unit jmethod" where
  "reset_context = emod (\<lambda>(c, w). (c, w\<lparr>jw_context := False\<rparr>))"

definition json_writer_object_new ::
  "token_t \<Rightarrow> (json_writer_context, json_writer_error, json_writer_element) eff" where
  "json_writer_object_new t = ethen (context_write t ''{'')
     (eret \<lparr>jw_token = t, jw_context = True, jw_has_element = False\<rparr>)"

definition json_writer_array_new ::
  "token_t \<Rightarrow> (json_writer_context, json_writer_error, json_writer_element) eff" where
  "json_writer_array_new t = ethen (context_write t ''['')
     (eret \<lparr>jw_token = t, jw_context = True, jw_has_element = False\<rparr>)"

text \<open>The values that \<open>write_value\<close> is overloaded on; a floating point value is
  the text that \<open>std::to_string\<close> gives for it.\<close>

datatype jvalue =
    JCstr "string option" | JStr string | JInt int | JFloat string | JBool bool | JNull

subsection \<open>json\_writer\_object\<close>

definition jo_write_new_field :: "string \<Rightarrow> bool jmethod" where
  "jo_write_new_field key =
     ethen (ebind (eget (jw_has_element \<circ> snd)) (\<lambda>has_element.
       if has_element then ethen (w_write '', \"'') (eret ())
       else ethen (w_write '' \"'') set_has_element))
     (ethen (ebind (w_escape key) w_write) (w_write ''\": ''))"

definition jo_write_object :: "string \<Rightarrow> json_writer_element jmethod" where
  "jo_write_object key = ethen (jo_write_new_field key)
     (ebind (on_context register_context) (\<lambda>t. on_context (\<lambda>_. json_writer_object_new t)))"

definition jo_write_array :: "string \<Rightarrow> json_writer_element jmethod" where
  "jo_write_array key = ethen (jo_write_new_field key)
     (ebind (on_context register_context) (\<lambda>t. on_context (\<lambda>_. json_writer_array_new t)))"

definition jo_write_null :: "string \<Rightarrow> bool jmethod" where
  "jo_write_null key = ethen (jo_write_new_field key) (w_write ''null'')"

definition jo_write_value_unquoted :: "string \<Rightarrow> string \<Rightarrow> bool jmethod" where
  "jo_write_value_unquoted key value = ethen (jo_write_new_field key) (w_write value)"

definition jo_write_value_quoted :: "string \<Rightarrow> string \<Rightarrow> bool jmethod" where
  "jo_write_value_quoted key value = ethen (jo_write_new_field key)
     (ethen (w_write ''\"'') (ethen (ebind (w_escape value) w_write) (w_write ''\"'')))"

fun jo_write_value :: "string \<Rightarrow> jvalue \<Rightarrow> bool jmethod" where
  "jo_write_value key (JCstr None) = jo_write_null key"
| "jo_write_value key (JCstr (Some value)) = jo_write_value_quoted key value"
| "jo_write_value key (JStr value) = jo_write_value_quoted key value"
| "jo_write_value key (JInt value) = jo_write_value_unquoted key (int_to_string value)"
| "jo_write_value key (JFloat text) = jo_write_value_quoted key text"
| "jo_write_value key (JBool value) = ethen (jo_write_new_field key)
     (if value then w_write ''true'' else w_write ''false'')"
| "jo_write_value key JNull = jo_write_null key"

definition jo_close :: "unit jmethod" where
  "jo_close = ethen (ebind (eget (jw_context \<circ> snd)) (\<lambda>context.
       if context then ethen (w_write '' }'') (on_context unregister_context) else eret ()))
     reset_context"

subsection \<open>json\_writer\_array\<close>

definition ja_write_new_field :: "unit jmethod" where
  "ja_write_new_field = ebind (eget (jw_has_element \<circ> snd)) (\<lambda>has_element.
     if has_element then ethen (w_write '', '') (eret ())
     else ethen (w_write '' '') set_has_element)"

definition ja_write_object :: "json_writer_element jmethod" where
  "ja_write_object = ethen ja_write_new_field
     (ebind (on_context register_context) (\<lambda>t. on_context (\<lambda>_. json_writer_object_new t)))"

definition ja_write_array :: "json_writer_element jmethod" where
  "ja_write_array = ethen ja_write_new_field
     (ebind (on_context register_context) (\<lambda>t. on_context (\<lambda>_. json_writer_array_new t)))"

definition ja_write_null :: "bool jmethod" where
  "ja_write_null = ethen ja_write_new_field (w_write ''null'')"

definition ja_write_value_unquoted :: "string \<Rightarrow> bool jmethod" where
  "ja_write_value_unquoted value = ethen ja_write_new_field (w_write value)"

definition ja_write_value_quoted :: "string \<Rightarrow> bool jmethod" where
  "ja_write_value_quoted value = ethen ja_write_new_field
     (ethen (w_write ''\"'') (ethen (ebind (w_escape value) w_write) (w_write ''\"'')))"

fun ja_write_value :: "jvalue \<Rightarrow> bool jmethod" where
  "ja_write_value (JCstr None) = ja_write_null"
| "ja_write_value (JCstr (Some value)) = ja_write_value_quoted value"
| "ja_write_value (JStr value) = ja_write_value_quoted value"
| "ja_write_value (JInt value) = ja_write_value_unquoted (int_to_string value)"
| "ja_write_value (JFloat text) = ja_write_value_quoted text"
| "ja_write_value (JBool value) = ethen ja_write_new_field
     (if value then w_write ''true'' else w_write ''false'')"
| "ja_write_value JNull = ja_write_null"

definition ja_close :: "unit jmethod" where
  "ja_close = ethen (ebind (eget (jw_context \<circ> snd)) (\<lambda>context.
       if context then ethen (w_write '' ]'') (on_context unregister_context) else eret ()))
     reset_context"

section \<open>The text a document stands for\<close>

text \<open>The specification: a JSON tree and the text the writer lays it out as.\<close>

datatype json = Leaf jvalue | Obj "(string \<times> json) list" | Arr "json list"

definition quoted :: "bool \<Rightarrow> string \<Rightarrow> string" where
  "quoted g x = ''\"'' @ json_escape_string g x @ ''\"''"

fun render_value :: "bool \<Rightarrow> jvalue \<Rightarrow> string" where
  "render_value g (JCstr None) = ''null''"
| "render_value g (JCstr (Some x)) = quoted g x"
| "render_value g (JStr x) = quoted g x"
| "render_value g (JInt i) = int_to_string i"
| "render_value g (JFloat x) = quoted g x"
| "render_value g (JBool b) = (if b then ''true'' else ''false'')"
| "render_value g JNull = ''null''"

fun separated :: "string list \<Rightarrow> string" where
  "separated [] = []"
| "separated (x # xs) = '' '' @ x @ concat (map (\<lambda>y. '', '' @ y) xs)"

lemma separated_snoc:
  "separated (xs @ [x]) = separated xs @ (if xs = [] then '' '' else '', '') @ x"
  by (cases xs) simp_all

fun render :: "bool \<Rightarrow> json \<Rightarrow> string" where
  "render g (Leaf v) = render_value g v"
| "render g (Obj fs) = ''{'' @ separated (map (\<lambda>(k, j). quoted g k @ '': '' @ render g j) fs) @ '' }''"
| "render g (Arr js) = ''['' @ separated (map (render g) js) @ '' ]''"

section \<open>A client that writes a tree\<close>

text \<open>The client calls the methods the way the library is used: a nested element
  is worked with while its parent waits, and closed before the parent goes on.\<close>

definition with_child :: "json_writer_element jmethod \<Rightarrow> unit jmethod \<Rightarrow> unit jmethod" where
  "with_child mk body = ebind mk (\<lambda>child. \<lambda>(c, w).
     case body (c, child) of (r, (c', _)) \<Rightarrow> (r, (c', w)))"

fun write_fields :: "(string \<times> json) list \<Rightarrow> unit jmethod"
  and write_items :: "json list \<Rightarrow> unit jmethod" where
  "write_fields [] = eret ()"
| "write_fields ((k, Leaf v) # fs) = ethen (jo_write_value k v) (write_fields fs)"
| "write_fields ((k, Obj gs) # fs) = ethen
     (with_child (jo_write_object k) (ethen (write_fields gs) jo_close)) (write_fields fs)"
| "write_fields ((k, Arr js) # fs) = ethen
     (with_child (jo_write_array k) (ethen (write_items js) ja_close)) (write_fields fs)"
| "write_items [] = eret ()"
| "write_items (Leaf v # js) = ethen (ja_write_value v) (write_items js)"
| "write_items (Obj gs # js) = ethen
     (with_child ja_write_object (ethen (write_fields gs) jo_close)) (write_items js)"
| "write_items (Arr ks # js) = ethen
     (with_child ja_write_array (ethen (write_items ks) ja_close)) (write_items js)"

subsection \<open>What each method writes\<close>

definition has_el :: "bool \<Rightarrow> json_writer_element \<Rightarrow> bool" where
  "has_el h w \<longleftrightarrow> jw_context w \<and> jw_has_element w = h"

abbreviation mruns :: "bool \<Rightarrow> (json_writer_element \<Rightarrow> bool) \<Rightarrow> string \<Rightarrow>
    (json_writer_element \<Rightarrow> bool) \<Rightarrow> 'a jmethod \<Rightarrow> bool" where
  "mruns g P x Q m \<equiv> jctx.runs g jw_token P x True Q m"

definition sep :: "bool \<Rightarrow> string" where
  "sep h = (if h then '', '' else '' '')"

lemma runs_write [intro]: "mruns g (has_el h) x (has_el h) (w_write x)"
  by (rule jctx.runsI)
    (auto simp: w_write_def on_context_def context_write_def has_el_def intro!: exI [of _ True])

lemma runs_set_has_element: "mruns g (has_el h) [] (has_el True) set_has_element"
  by (rule jctx.runsI) (simp add: set_has_element_def emod_def has_el_def)

lemma runs_escape_write:
  "mruns g (has_el h) (json_escape_string g x) (has_el h) (ebind (w_escape x) w_write)"
  by (rule jctx.runsI)
    (auto simp: w_write_def w_escape_def on_context_def context_write_def has_el_def ebind_def eget_def
      intro!: exI [of _ True])

lemma runs_eret: "mruns g P [] P (eret v)"
  by (rule jctx.runs_ret)

lemma runs_jo_new_field:
  "mruns g (has_el h) (sep h @ quoted g k @ '': '') (has_el True) (jo_write_new_field k)"
proof -
  have a: "mruns g (has_el h) (if h then '', \"'' else '' \"'') (has_el True)
     (ebind (eget (jw_has_element \<circ> snd)) (\<lambda>has_element.
       if has_element then ethen (w_write '', \"'') (eret ())
       else ethen (w_write '' \"'') set_has_element))"
  proof (rule jctx.runs_get [where v = h])
    show "\<And>w. has_el h w \<Longrightarrow> jw_has_element w = h" by (simp add: has_el_def)
    show "mruns g (has_el h) (if h then '', \"'' else '' \"'') (has_el True)
      (if h then ethen (w_write '', \"'') (eret ()) else ethen (w_write '' \"'') set_has_element)"
      using jctx.runs_then [OF runs_write [of g h "'', \"''"] runs_eret [of g "has_el h" "()"]]
        jctx.runs_then [OF runs_write [of g h "'' \"''"] runs_set_has_element]
      by (cases h) simp_all
  qed
  have "(if h then '', \"'' else '' \"'') @ (json_escape_string g k @ ''\": '')
      = sep h @ quoted g k @ '': ''"
    by (simp add: sep_def quoted_def)
  then show ?thesis
    using jctx.runs_then [OF a jctx.runs_then [OF runs_escape_write [of g True k] runs_write [of g True "''\": ''"]]]
    unfolding jo_write_new_field_def by (simp only:)
qed

lemma runs_ja_new_field: "mruns g (has_el h) (sep h) (has_el True) ja_write_new_field"
  unfolding ja_write_new_field_def
proof (rule jctx.runs_get [where v = h])
  show "\<And>w. has_el h w \<Longrightarrow> jw_has_element w = h" by (simp add: has_el_def)
  show "mruns g (has_el h) (sep h) (has_el True)
    (if h then ethen (w_write '', '') (eret ()) else ethen (w_write '' '') set_has_element)"
    using jctx.runs_then [OF runs_write [of g h "'', ''"] runs_eret [of g "has_el h" "()"]]
      jctx.runs_then [OF runs_write [of g h "'' ''"] runs_set_has_element]
    by (cases h) (simp_all add: sep_def)
qed

lemma runs_quoted:
  "mruns g (has_el True) (quoted g x) (has_el True)
    (ethen (w_write ''\"'') (ethen (ebind (w_escape x) w_write) (w_write ''\"'')))"
  unfolding quoted_def
  by (rule jctx.runs_then [OF runs_write jctx.runs_then [OF runs_escape_write runs_write]])

lemma runs_field:
  assumes "mruns g (has_el True) y (has_el True) m"
  shows "mruns g (has_el h) (sep h @ quoted g k @ '': '' @ y) (has_el True) (ethen (jo_write_new_field k) m)"
  using jctx.runs_then [OF runs_jo_new_field assms, of h k] by simp

lemma runs_item:
  assumes "mruns g (has_el True) y (has_el True) m"
  shows "mruns g (has_el h) (sep h @ y) (has_el True) (ethen ja_write_new_field m)"
  using jctx.runs_then [OF runs_ja_new_field assms, of h] by simp

lemmas value_op_defs = jo_write_null_def jo_write_value_unquoted_def jo_write_value_quoted_def
  ja_write_null_def ja_write_value_unquoted_def ja_write_value_quoted_def

lemma runs_jo_value:
  "mruns g (has_el h) (sep h @ quoted g k @ '': '' @ render_value g v) (has_el True) (jo_write_value k v)"
  by (cases "(k, v)" rule: jo_write_value.cases)
    (auto simp only: jo_write_value.simps render_value.simps value_op_defs prod.inject
      intro!: runs_field runs_write runs_quoted split: if_splits)

lemma runs_ja_value:
  "mruns g (has_el h) (sep h @ render_value g v) (has_el True) (ja_write_value v)"
  by (cases v rule: ja_write_value.cases)
    (auto simp only: ja_write_value.simps render_value.simps value_op_defs
      intro!: runs_item runs_write runs_quoted split: if_splits)

subsection \<open>Closing and nesting\<close>

lemma closes_object: "jctx.runs g jw_token (has_el h) '' }'' False (\<lambda>_. True) jo_close"
  by (rule jctx.runsI) (auto simp: jo_close_def reset_context_def w_write_def on_context_def
      context_op_defs has_el_def eff_defs)

lemma closes_array: "jctx.runs g jw_token (has_el h) '' ]'' False (\<lambda>_. True) ja_close"
  by (rule jctx.runsI) (auto simp: ja_close_def reset_context_def w_write_def on_context_def
      context_op_defs has_el_def eff_defs)

abbreviation fresh_element :: "token_t \<Rightarrow> json_writer_element" where
  "fresh_element t \<equiv> \<lparr>jw_token = t, jw_context = True, jw_has_element = False\<rparr>"

definition enter_then :: "(token_t \<Rightarrow> (json_writer_context, json_writer_error, json_writer_element) eff) \<Rightarrow>
    json_writer_element jmethod" where
  "enter_then new = ebind (on_context register_context) (\<lambda>t. on_context (\<lambda>_. new t))"

definition opens_with :: "string \<Rightarrow> (token_t \<Rightarrow> (json_writer_context, json_writer_error, json_writer_element) eff) \<Rightarrow> bool" where
  "opens_with b new \<longleftrightarrow> (\<forall>t. new t = ethen (context_write t b) (eret (fresh_element t)))"

lemma opens_with_new [simp]: "opens_with ''{'' json_writer_object_new" "opens_with ''['' json_writer_array_new"
  by (simp_all add: opens_with_def json_writer_object_new_def json_writer_array_new_def)

lemma runs_child:
  assumes op: "opens_with b new"
    and body: "mruns g (has_el False) x (has_el h') body"
    and close: "jctx.runs g jw_token (has_el h') y False (\<lambda>_. True) close"
  shows "mruns g (has_el h) (b @ x @ y) (has_el h) (with_child (enter_then new) (ethen body close))"
proof (rule jctx.runs_scope [where mk = fresh_element and P = "has_el False"
      and body = "\<lambda>u. ethen (w_write b) (ethen body close)" and Q = "\<lambda>_. True"])
  show "\<And>u. jctx.runs g jw_token (has_el False) (b @ x @ y) False (\<lambda>_. True)
      (ethen (w_write b) (ethen body close))"
    by (rule jctx.runs_then [OF runs_write jctx.runs_then [OF body close]])
  show "\<And>u. has_el False (fresh_element u) \<and> jw_token (fresh_element u) = u"
    by (simp add: has_el_def)
  fix c w assume w: "has_el h w"
  have new: "new t = ethen (context_write t b) (eret (fresh_element t))" for t
    using op by (simp add: opens_with_def)
  show "with_child (enter_then new) (ethen body close) (c, w) =
      (case register_context (jw_token w) c of (Inl e, c') \<Rightarrow> (Inl e, (c', w))
       | (Inr u, c') \<Rightarrow> (case ethen (w_write b) (ethen body close) (c', fresh_element u) of
            (r, (c2, _)) \<Rightarrow> (r, (c2, w))))"
    using w by (simp add: with_child_def enter_then_def new has_el_def on_context_def w_write_def
        eff_defs split: prod.splits sum.splits)
qed

lemma with_child_ethen: "with_child (ethen m n) body = ethen m (with_child n body)"
  by (simp add: with_child_def ethen_def ebind_assoc)

lemmas child_defs = jo_write_object_def jo_write_array_def ja_write_object_def ja_write_array_def

fun sep_tail :: "bool \<Rightarrow> string list \<Rightarrow> string" where
  "sep_tail h [] = []"
| "sep_tail h (x # xs) = sep h @ x @ sep_tail True xs"

lemma sep_tail_separated: "sep_tail False xs = separated xs"
proof -
  have "sep_tail True ys = concat (map (\<lambda>y. '', '' @ y) ys)" for ys
    by (induction ys) (simp_all add: sep_def)
  then show ?thesis by (cases xs) (simp_all add: sep_def cong: map_cong)
qed

definition field_text :: "bool \<Rightarrow> string \<times> json \<Rightarrow> string" where
  "field_text g = (\<lambda>(k, j). quoted g k @ '': '' @ render g j)"

lemma runs_sep_tail:
  assumes "mruns g (has_el h) (sep h @ x) (has_el True) m"
    and "mruns g (has_el True) (sep_tail True xs) (has_el (True \<or> b)) n"
    and "b'"
  shows "mruns g (has_el h) (sep_tail h (x # xs)) (has_el (h \<or> b')) (ethen m n)"
  using jctx.runs_then [OF assms(1)] assms(2,3) by simp

lemma runs_object_child:
  assumes "mruns g (has_el False) (sep_tail False (map (field_text g) gs)) (has_el (False \<or> gs \<noteq> [])) (write_fields gs)"
  shows "mruns g (has_el h) (render g (Obj gs)) (has_el h)
    (with_child (enter_then json_writer_object_new) (ethen (write_fields gs) jo_close))"
  using runs_child [OF opens_with_new(1) assms closes_object]
  by (simp add: sep_tail_separated field_text_def [abs_def])

lemma runs_array_child:
  assumes "mruns g (has_el False) (sep_tail False (map (render g) js)) (has_el (False \<or> js \<noteq> [])) (write_items js)"
  shows "mruns g (has_el h) (render g (Arr js)) (has_el h)
    (with_child (enter_then json_writer_array_new) (ethen (write_items js) ja_close))"
  using runs_child [OF opens_with_new(2) assms closes_array] by (simp add: sep_tail_separated)

lemma runs_field_child:
  assumes "mruns g (has_el True) (render g j) (has_el True) (with_child (enter_then new) body)"
  shows "mruns g (has_el h) (sep h @ field_text g (k, j)) (has_el True)
    (with_child (ethen (jo_write_new_field k) (enter_then new)) body)"
  using runs_field [OF assms, of h k] by (simp add: with_child_ethen field_text_def)

lemma runs_item_child:
  assumes "mruns g (has_el True) (render g j) (has_el True) (with_child (enter_then new) body)"
  shows "mruns g (has_el h) (sep h @ render g j) (has_el True)
    (with_child (ethen ja_write_new_field (enter_then new)) body)"
  using runs_item [OF assms, of h] by (simp add: with_child_ethen)

lemma runs_tree:
  shows runs_fields: "mruns g (has_el h) (sep_tail h (map (field_text g) fs)) (has_el (h \<or> fs \<noteq> [])) (write_fields fs)"
    and runs_items: "mruns g (has_el h) (sep_tail h (map (render g) js)) (has_el (h \<or> js \<noteq> [])) (write_items js)"
proof (induction fs and js arbitrary: h and h rule: write_fields_write_items.induct)
  case (2 k v fs)
  show ?case unfolding write_fields.simps list.map
    by (rule runs_sep_tail [OF _ 2 [of True]]) (simp_all only: runs_jo_value field_text_def
        prod.case render.simps list.distinct simp_thms)
next
  case (3 k gs fs)
  show ?case unfolding write_fields.simps list.map child_defs enter_then_def [symmetric]
    by (rule runs_sep_tail [OF runs_field_child [OF runs_object_child [OF 3(1)]] 3(2)]) simp
next
  case (4 k js fs)
  show ?case unfolding write_fields.simps list.map child_defs enter_then_def [symmetric]
    by (rule runs_sep_tail [OF runs_field_child [OF runs_array_child [OF 4(1)]] 4(2)]) simp
next
  case (6 v js)
  show ?case unfolding write_items.simps list.map
    by (rule runs_sep_tail [OF _ 6 [of True]]) (simp_all add: runs_ja_value)
next
  case (7 gs js)
  show ?case unfolding write_items.simps list.map child_defs enter_then_def [symmetric]
    by (rule runs_sep_tail [OF runs_item_child [OF runs_object_child [OF 7(1)]] 7(2)]) simp
next
  case (8 ks js)
  show ?case unfolding write_items.simps list.map child_defs enter_then_def [symmetric]
    by (rule runs_sep_tail [OF runs_item_child [OF runs_array_child [OF 8(1)]] 8(2)]) simp
qed (simp_all add: runs_eret)

end
