(* ===== verification/JsonSystem.thy ===== *)
theory JsonSystem
  imports JsonWriter "HOL-Library.Sublist"
begin

text \<open>
  The root writer (\<open>json_writer.cpp\<close>): its constructors, \<open>write_object\<close>, \<open>write_array\<close>,
  \<open>close\<close> and \<open>config\<close>, and a client that writes a whole document with them.  What any other use of
  the library writes is the subject of \<open>JsonClient\<close>.
\<close>

section \<open>The root writer\<close>

record json_writer =
  jr_token :: token_t
  jr_root_populated :: bool
  jr_config :: bool

type_synonym 'a jroot_method = "(json_writer_context \<times> json_writer, json_writer_error, 'a) eff"

definition json_writer_new :: "string \<Rightarrow> json_writer_error + (json_writer_context \<times> json_writer)" where
  "json_writer_new os = (case register_context 0 (json_writer_context_new os) of
     (Inl e, _) \<Rightarrow> Inl e
   | (Inr t, c) \<Rightarrow> Inr (c, \<lparr>jr_token = t, jr_root_populated = False, jr_config = True\<rparr>))"

text \<open>The constructors from a file name: the file was opened for writing, or was not.\<close>

definition json_writer_new_file :: "bool \<Rightarrow> json_writer_error + (json_writer_context \<times> json_writer)" where
  "json_writer_new_file good = (if \<not> good then Inl Open_failed else json_writer_new [])"

definition jr_write_element ::
  "(token_t \<Rightarrow> (json_writer_context, json_writer_error, json_writer_element) eff) \<Rightarrow>
   json_writer_element jroot_method" where
  "jr_write_element new = (\<lambda>(c, r).
     if jr_root_populated r then (Inl Single_root, (c, r))
     else let c = c\<lparr>jc_escape_solidus := jr_config r\<rparr>; r = r\<lparr>jr_root_populated := True\<rparr> in
       (case ebind (register_context (jr_token r)) new c of (res, c') \<Rightarrow> (res, (c', r))))"

definition jr_write_object :: "json_writer_element jroot_method" where
  "jr_write_object = jr_write_element json_writer_object_new"

definition jr_write_array :: "json_writer_element jroot_method" where
  "jr_write_array = jr_write_element json_writer_array_new"

definition jr_close :: "unit jroot_method" where
  "jr_close = emod (\<lambda>(c, r). (context_close c, r))"

definition jr_set_config :: "bool \<Rightarrow> unit jroot_method" where
  "jr_set_config b = emod (\<lambda>(c, r). (c, r\<lparr>jr_config := b\<rparr>))"

section \<open>Writing one document\<close>

text \<open>The client of \<open>write_fields\<close> and \<open>write_items\<close>, from the constructor
  to the close of the root.\<close>

definition with_root_child :: "json_writer_element jroot_method \<Rightarrow> unit jmethod \<Rightarrow> unit jroot_method" where
  "with_root_child mk body s = (case mk s of
     (Inl e, s') \<Rightarrow> (Inl e, s')
   | (Inr w, (c, r)) \<Rightarrow> (case body (c, w) of (res, (c', _)) \<Rightarrow> (res, (c', r))))"

definition write_root :: "json \<Rightarrow> unit jroot_method" where
  "write_root j = (case j of
     Obj fs \<Rightarrow> with_root_child jr_write_object (ethen (write_fields fs) jo_close)
   | Arr js \<Rightarrow> with_root_child jr_write_array (ethen (write_items js) ja_close)
   | Leaf _ \<Rightarrow> eret ())"

definition write_document :: "bool \<Rightarrow> json \<Rightarrow> string \<Rightarrow> json_writer_error + (bool \<times> string)" where
  "write_document g j os = (case json_writer_new os of Inl e \<Rightarrow> Inl e | Inr s \<Rightarrow>
     (case ethen (jr_set_config g) (ethen (write_root j) jr_close) s of
       (Inl e, _) \<Rightarrow> Inl e
     | (Inr _, (c, r)) \<Rightarrow> Inr (jc_closed c, jc_ostream c)))"

lemma with_root_child_result:
  assumes new: "opens_with b new"
    and body: "mruns g (has_el False) x (has_el h') body"
    and close: "jctx.runs g jw_token (has_el h') y False (\<lambda>_. True) close"
    and c: "\<not> jc_closed c" "jc_stack c = [jr_token r]" and r: "\<not> jr_root_populated r" "jr_config r = g"
  shows "\<exists>c' r'. with_root_child (jr_write_element new) (ethen body close) (c, r) = (Inr (), (c', r')) \<and>
    jc_ostream c' = jc_ostream c @ b @ x @ y"
proof -
  have new: "\<And>t. new t = ethen (context_write t b) (eret (fresh_element t))"
    using new by (simp add: opens_with_def)
  let ?u = "jc_next c"
  let ?c1 = "c\<lparr>jc_escape_solidus := g, jc_next := jc_next c + 1, jc_stack := [?u, jr_token r],
     jc_ostream := jc_ostream c @ b\<rparr>"
  have 1: "jr_write_element new (c, r) = (Inr (fresh_element ?u), (?c1, r\<lparr>jr_root_populated := True\<rparr>))"
    using c r by (simp add: jr_write_element_def new eff_defs context_op_defs Let_def)
  have "jctx.runs g jw_token (has_el False) (x @ y) False (\<lambda>_. True) (ethen body close)"
    by (rule jctx.runs_then [OF body close])
  then obtain v c' w where "ethen body close (?c1, fresh_element ?u) = (Inr v, (c', w))"
      "jc_ostream c' = jc_ostream ?c1 @ x @ y"
    by (rule jctx.runsE [where c = ?c1 and w = "fresh_element ?u" and ts = "[jr_token r]"])
      (use c in \<open>simp_all add: has_el_def\<close>)
  with 1 show ?thesis by (simp add: with_root_child_def)
qed

lemma write_document_result:
  assumes "\<And>c r. \<not> jc_closed c \<Longrightarrow> jc_stack c = [jr_token r] \<Longrightarrow> \<not> jr_root_populated r \<Longrightarrow> jr_config r = g \<Longrightarrow>
    \<exists>c' r'. write_root j (c, r) = (Inr (), (c', r')) \<and> jc_ostream c' = jc_ostream c @ x"
  shows "write_document g j os = Inr (True, os @ x)"
proof -
  let ?c = "\<lparr>jc_closed = False, jc_ostream = os, jc_stack = [0], jc_next = 1, jc_escape_solidus = True\<rparr>"
  let ?r = "\<lparr>jr_token = 0, jr_root_populated = False, jr_config = g\<rparr>"
  obtain c' r' where "write_root j (?c, ?r) = (Inr (), (c', r'))" "jc_ostream c' = os @ x"
    using assms [of ?c ?r] by auto
  then show ?thesis
    by (simp add: write_document_def json_writer_new_def json_writer_context_new_def register_context_def
        jr_set_config_def jr_close_def context_close_def ebind_def ethen_def emod_def)
qed

lemma write_document_text:
  "write_document g (Obj fs) os = Inr (True, os @ render g (Obj fs)) \<and>
   write_document g (Arr js) os = Inr (True, os @ render g (Arr js))"
proof (intro conjI write_document_result)
  fix c :: json_writer_context and r :: json_writer
  assume "\<not> jc_closed c" "jc_stack c = [jr_token r]" "\<not> jr_root_populated r" "jr_config r = g"
  note * = this
  show "\<exists>c' r'. write_root (Obj fs) (c, r) = (Inr (), (c', r')) \<and>
      jc_ostream c' = jc_ostream c @ render g (Obj fs)"
    using with_root_child_result [OF opens_with_new(1) runs_fields [of g False fs] closes_object *]
    by (simp add: write_root_def jr_write_object_def sep_tail_separated field_text_def [abs_def])
  show "\<exists>c' r'. write_root (Arr js) (c, r) = (Inr (), (c', r')) \<and>
      jc_ostream c' = jc_ostream c @ render g (Arr js)"
    using with_root_child_result [OF opens_with_new(2) runs_items [of g False js] closes_array *]
    by (simp add: write_root_def jr_write_array_def sep_tail_separated)
qed

text \<open>C20: Writing any tree through the library gives exactly its JSON text: from the constructor on
  a stream, through nested object and array writers of any depth and width, to the close of the
  root, no call throws, and the stream receives the rendering of the tree after what it held.\<close>

theorem write_document_renders:
  "write_document g (Obj fs) os = Inr (True, os @ render g (Obj fs)) \<and>
   write_document g (Arr js) os = Inr (True, os @ render g (Arr js))"
  by (rule write_document_text)

end
