(* ===== verification/JsonClient.thy ===== *)
theory JsonClient
  imports JsonSystem
begin

text \<open>
  Every client of the JSON library at once: \<open>jstep\<close> is one call of the public
  interface on the root or on any writer the client holds, in any order, with the
  exceptions caught and the client going on.  \<open>jsys_ok\<close> is the invariant of the
  reachable states: the stack of tokens is the chain of open writers, and the
  stream holds the text of a chain of unfinished elements.
\<close>

section \<open>The library as a client sees it\<close>

datatype jkind = Object_writer | Array_writer

record jsys =
  js_context :: json_writer_context
  js_root :: json_writer
  js_objs :: "(jkind \<times> json_writer_element) list"

datatype jop =
    Root_object | Root_array | Root_close | Root_config bool
  | New_object nat string | New_array nat string | Value nat string jvalue | Close nat

definition elem_object :: "jkind \<Rightarrow> string \<Rightarrow> json_writer_element jmethod" where
  "elem_object k key = (case k of Object_writer \<Rightarrow> jo_write_object key | Array_writer \<Rightarrow> ja_write_object)"

definition elem_array :: "jkind \<Rightarrow> string \<Rightarrow> json_writer_element jmethod" where
  "elem_array k key = (case k of Object_writer \<Rightarrow> jo_write_array key | Array_writer \<Rightarrow> ja_write_array)"

definition elem_value :: "jkind \<Rightarrow> string \<Rightarrow> jvalue \<Rightarrow> bool jmethod" where
  "elem_value k key v = (case k of Object_writer \<Rightarrow> jo_write_value key v | Array_writer \<Rightarrow> ja_write_value v)"

definition elem_close :: "jkind \<Rightarrow> unit jmethod" where
  "elem_close k = (case k of Object_writer \<Rightarrow> jo_close | Array_writer \<Rightarrow> ja_close)"

definition on_elem :: "nat \<Rightarrow> (jkind \<Rightarrow> 'a jmethod) \<Rightarrow> jsys \<Rightarrow> (json_writer_error + 'a) \<times> jsys" where
  "on_elem i m s = (case js_objs s ! i of (k, w) \<Rightarrow> case m k (js_context s, w) of
     (r, (c', w')) \<Rightarrow> (r, s\<lparr>js_context := c', js_objs := (js_objs s)[i := (k, w')]\<rparr>))"

definition on_root :: "'a jroot_method \<Rightarrow> jsys \<Rightarrow> (json_writer_error + 'a) \<times> jsys" where
  "on_root m s = (case m (js_context s, js_root s) of
     (r, (c', r')) \<Rightarrow> (r, s\<lparr>js_context := c', js_root := r'\<rparr>))"

definition keep_child :: "jkind \<Rightarrow> (json_writer_error + json_writer_element) \<times> jsys \<Rightarrow> jsys" where
  "keep_child k = (\<lambda>(r, s). case r of Inl _ \<Rightarrow> s | Inr w \<Rightarrow> s\<lparr>js_objs := js_objs s @ [(k, w)]\<rparr>)"

text \<open>A call on a writer the client does not hold is not a call.\<close>

fun jstep :: "jop \<Rightarrow> jsys \<Rightarrow> jsys" where
  "jstep Root_object s = keep_child Object_writer (on_root jr_write_object s)"
| "jstep Root_array s = keep_child Array_writer (on_root jr_write_array s)"
| "jstep Root_close s = snd (on_root jr_close s)"
| "jstep (Root_config b) s = snd (on_root (jr_set_config b) s)"
| "jstep (New_object i key) s = (if i < length (js_objs s)
     then keep_child Object_writer (on_elem i (\<lambda>k. elem_object k key) s) else s)"
| "jstep (New_array i key) s = (if i < length (js_objs s)
     then keep_child Array_writer (on_elem i (\<lambda>k. elem_array k key) s) else s)"
| "jstep (Value i key v) s = (if i < length (js_objs s)
     then snd (on_elem i (\<lambda>k. elem_value k key v) s) else s)"
| "jstep (Close i) s = (if i < length (js_objs s) then snd (on_elem i elem_close s) else s)"

definition jrun :: "jop list \<Rightarrow> jsys \<Rightarrow> jsys" where
  "jrun ops s = fold jstep ops s"

definition jsys_new :: "string \<Rightarrow> jsys" where
  "jsys_new os = \<lparr>js_context = \<lparr>jc_closed = False, jc_ostream = os, jc_stack = [0], jc_next = 1,
       jc_escape_solidus = True\<rparr>,
     js_root = \<lparr>jr_token = 0, jr_root_populated = False, jr_config = True\<rparr>, js_objs = []\<rparr>"

lemma jsys_new_constructor:
  "json_writer_new os = Inr (js_context (jsys_new os), js_root (jsys_new os))"
  by (simp add: json_writer_new_def json_writer_context_new_def register_context_def jsys_new_def)

section \<open>What a call does, by who holds the top token\<close>

definition lead :: "bool \<Rightarrow> jkind \<Rightarrow> string \<Rightarrow> string" where
  "lead g k key = (case k of Object_writer \<Rightarrow> quoted g key @ '': '' | Array_writer \<Rightarrow> [])"

definition bra :: "jkind \<Rightarrow> string" where
  "bra k = (case k of Object_writer \<Rightarrow> ''{'' | Array_writer \<Rightarrow> ''['')"

definition ket :: "jkind \<Rightarrow> string" where
  "ket k = (case k of Object_writer \<Rightarrow> '' }'' | Array_writer \<Rightarrow> '' ]'')"

definition at_top :: "json_writer_context \<Rightarrow> json_writer_element \<Rightarrow> bool" where
  "at_top c w \<longleftrightarrow> \<not> jc_closed c \<and> jw_context w \<and> jc_stack c \<noteq> [] \<and> hd (jc_stack c) = jw_token w"

definition not_top :: "json_writer_context \<Rightarrow> json_writer_element \<Rightarrow> bool" where
  "not_top c w \<longleftrightarrow> \<not> jc_closed c \<and> \<not> (jw_context w \<and> hd (jc_stack c) = jw_token w) \<and> jc_stack c \<noteq> []"

abbreviation wrote :: "json_writer_context \<Rightarrow> string \<Rightarrow> json_writer_context" where
  "wrote c x \<equiv> c\<lparr>jc_ostream := jc_ostream c @ x\<rparr>"

lemma w_write_cases [simp]:
  "at_top c w \<Longrightarrow> w_write x (c, w) = (Inr True, (wrote c x, w))"
  "not_top c w \<Longrightarrow> aborts (w_write x) (c, w)"
  by (auto simp: at_top_def not_top_def w_write_def on_context_def context_write_def aborts_def)

lemma w_escape_top [simp]:
  "at_top c w \<Longrightarrow> w_escape x (c, w) = (Inr (json_escape_string (jc_escape_solidus c) x), (c, w))"
  by (simp add: at_top_def w_escape_def on_context_def eget_def)

lemma set_has_element_eq [simp]:
  "set_has_element (c, w) = (Inr (), (c, w\<lparr>jw_has_element := True\<rparr>))"
  by (simp add: set_has_element_def emod_def)

lemma at_top_keep [simp]:
  "at_top (wrote c x) w = at_top c w" "at_top c (w\<lparr>jw_has_element := b\<rparr>) = at_top c w"
  by (simp_all add: at_top_def)

lemma has_element_id [simp]: "jw_has_element w \<Longrightarrow> w\<lparr>jw_has_element := True\<rparr> = w"
  by simp

lemmas top_simps = ebind_def ethen_def eget_def eret_def sep_def quoted_def lead_def

lemma jo_new_field_top:
  "at_top c w \<Longrightarrow> jo_write_new_field key (c, w) = (Inr True,
     (wrote c (sep (jw_has_element w) @ lead (jc_escape_solidus c) Object_writer key), w\<lparr>jw_has_element := True\<rparr>))"
  by (simp add: jo_write_new_field_def top_simps)

lemma ja_new_field_top:
  "at_top c w \<Longrightarrow> ja_write_new_field (c, w) = (Inr (),
     (wrote c (sep (jw_has_element w) @ lead (jc_escape_solidus c) Array_writer key), w\<lparr>jw_has_element := True\<rparr>))"
  by (simp add: ja_write_new_field_def top_simps)

lemma new_field_aborts [intro]:
  "not_top c w \<Longrightarrow> aborts (jo_write_new_field key) (c, w)" "not_top c w \<Longrightarrow> aborts ja_write_new_field (c, w)"
  unfolding jo_write_new_field_def ja_write_new_field_def
  by (rule aborts_then, simp_all) (auto intro!: aborts_then)

lemma elem_value_top:
  "at_top c w \<Longrightarrow> elem_value k key v (c, w) = (Inr True,
     (wrote c (sep (jw_has_element w) @ lead (jc_escape_solidus c) k key @ render_value (jc_escape_solidus c) v),
      w\<lparr>jw_has_element := True\<rparr>))"
  by (cases k; cases v rule: ja_write_value.cases; simp only: elem_value_def jkind.case jo_write_value.simps
      ja_write_value.simps value_op_defs ethen_def [of "jo_write_new_field key"] ethen_def [of ja_write_new_field]
      ebind_def [of "jo_write_new_field key"] ebind_def [of ja_write_new_field]
      jo_new_field_top ja_new_field_top [where key = key])
    (simp_all add: top_simps)

lemma elem_value_aborts: "not_top c w \<Longrightarrow> aborts (elem_value k key v) (c, w)"
  by (cases k; cases v rule: ja_write_value.cases; auto simp: elem_value_def value_op_defs)

text \<open>The context after an element of kind \<open>k\<close> was opened in the element \<open>w\<close>.\<close>

definition opened_ctx :: "json_writer_context \<Rightarrow> string \<Rightarrow> json_writer_context" where
  "opened_ctx c x = c\<lparr>jc_ostream := jc_ostream c @ x, jc_stack := jc_next c # jc_stack c, jc_next := jc_next c + 1\<rparr>"

definition elem_child :: "jkind \<Rightarrow> jkind \<Rightarrow> string \<Rightarrow> json_writer_element jmethod" where
  "elem_child k' k key = (case k' of Object_writer \<Rightarrow> elem_object k key | Array_writer \<Rightarrow> elem_array k key)"

definition element_new :: "jkind \<Rightarrow> token_t \<Rightarrow> (json_writer_context, json_writer_error, json_writer_element) eff" where
  "element_new k = (case k of Object_writer \<Rightarrow> json_writer_object_new | Array_writer \<Rightarrow> json_writer_array_new)"

lemma elem_child_alt:
  "elem_child k' k key = (case k of Object_writer \<Rightarrow> ethen (jo_write_new_field key) (enter_then (element_new k'))
     | Array_writer \<Rightarrow> ethen ja_write_new_field (enter_then (element_new k')))"
  by (simp add: elem_child_def elem_object_def elem_array_def child_defs element_new_def enter_then_def
      split: jkind.split)

lemma register_new_top:
  "\<not> jc_closed c \<Longrightarrow> jc_stack c \<noteq> [] \<Longrightarrow> hd (jc_stack c) = t \<Longrightarrow>
   ebind (register_context t) (element_new k) c = (Inr (fresh_element (jc_next c)), opened_ctx c (bra k))"
  by (cases k) (simp_all add: element_new_def json_writer_object_new_def json_writer_array_new_def eff_defs
      context_op_defs Let_def opened_ctx_def bra_def)

lemma enter_then_top:
  "at_top c w \<Longrightarrow> enter_then (element_new k) (c, w) = (Inr (fresh_element (jc_next c)), (opened_ctx c (bra k), w))"
  using register_new_top [of c "jw_token w" k]
  by (auto simp: enter_then_def ebind_def on_context_def at_top_def split: prod.splits sum.splits)

lemma elem_child_top:
  "at_top c w \<Longrightarrow> elem_child k' k key (c, w) = (Inr (fresh_element (jc_next c)),
     (opened_ctx c (sep (jw_has_element w) @ lead (jc_escape_solidus c) k key @ bra k'),
      w\<lparr>jw_has_element := True\<rparr>))"
  by (cases k; simp add: elem_child_alt ethen_def ebind_def jo_new_field_top
      ja_new_field_top [where key = key] enter_then_top; simp add: opened_ctx_def)

lemma elem_child_aborts: "not_top c w \<Longrightarrow> aborts (elem_child k' k key) (c, w)"
  by (cases k) (auto simp: elem_child_alt)

lemma elem_close_top:
  "at_top c w \<Longrightarrow> elem_close k (c, w) = (Inr (),
     (wrote (c\<lparr>jc_stack := tl (jc_stack c)\<rparr>) (ket k), w\<lparr>jw_context := False\<rparr>))"
  by (cases k; simp add: elem_close_def jo_close_def ja_close_def top_simps reset_context_def emod_def;
      simp add: on_context_def unregister_context_def at_top_def ket_def emod_def)

lemma elem_close_null:
  "\<not> jw_context w \<Longrightarrow> elem_close k (c, w) = (Inr (), (c, w\<lparr>jw_context := False\<rparr>))"
  by (cases k) (simp_all add: elem_close_def jo_close_def ja_close_def top_simps reset_context_def emod_def)

lemma elem_close_aborts: "not_top c w \<Longrightarrow> jw_context w \<Longrightarrow> aborts (elem_close k) (c, w)"
  by (cases k) (auto simp: elem_close_def jo_close_def ja_close_def intro!: aborts_then)

section \<open>Unfinished documents\<close>

text \<open>A frame is an open element: what it holds so far, and the key it has in its parent.\<close>

record jframe =
  fr_kind :: jkind
  fr_done :: "(string \<times> json) list"
  fr_key :: string

definition fr_add :: "string \<Rightarrow> json \<Rightarrow> jframe \<Rightarrow> jframe" where
  "fr_add key j f = f\<lparr>fr_done := fr_done f @ [(key, j)]\<rparr>"

definition fr_node :: "jframe \<Rightarrow> json" where
  "fr_node f = (case fr_kind f of Object_writer \<Rightarrow> Obj (fr_done f) | Array_writer \<Rightarrow> Arr (map snd (fr_done f)))"

definition item_text :: "bool \<Rightarrow> jkind \<Rightarrow> string \<times> json \<Rightarrow> string" where
  "item_text g k = (\<lambda>(key, j). lead g k key @ render g j)"

definition frame_text :: "bool \<Rightarrow> jframe \<Rightarrow> string" where
  "frame_text g f = bra (fr_kind f) @ separated (map (item_text g (fr_kind f)) (fr_done f))"

fun chain_text :: "bool \<Rightarrow> jframe list \<Rightarrow> string" where
  "chain_text g [] = []"
| "chain_text g [f] = frame_text g f"
| "chain_text g (f # p # fs) = chain_text g (p # fs) @
     sep (fr_done p \<noteq> []) @ lead g (fr_kind p) (fr_key f) @ frame_text g f"

fun finish :: "jframe list \<Rightarrow> json" where
  "finish [] = Leaf JNull"
| "finish [f] = fr_node f"
| "finish (f # p # fs) = finish (fr_add (fr_key f) (fr_node f) p # fs)"

lemma render_node: "render g (fr_node f) = frame_text g f @ ket (fr_kind f)"
  by (cases "fr_kind f")
    (simp_all add: fr_node_def frame_text_def item_text_def lead_def bra_def ket_def comp_def case_prod_unfold)

lemma frame_text_add:
  "frame_text g (fr_add key j f) = frame_text g f @ sep (fr_done f \<noteq> []) @ lead g (fr_kind f) key @ render g j"
  by (simp add: frame_text_def fr_add_def separated_snoc sep_def item_text_def)

lemma chain_text_add:
  "chain_text g (fr_add key j f # fs) =
   chain_text g (f # fs) @ sep (fr_done f \<noteq> []) @ lead g (fr_kind f) key @ render g j"
  by (cases fs) (simp_all add: frame_text_add, simp add: fr_add_def)

lemma chain_text_close:
  "chain_text g (fr_add (fr_key f) (fr_node f) p # fs) = chain_text g (f # p # fs) @ ket (fr_kind f)"
  by (simp add: chain_text_add render_node)

lemma chain_text_prefix: "fs \<noteq> [] \<Longrightarrow> prefix (chain_text g fs) (render g (finish fs))"
proof (induction fs rule: finish.induct)
  case (3 f p fs)
  have "prefix (chain_text g (f # p # fs)) (chain_text g (fr_add (fr_key f) (fr_node f) p # fs))"
    by (simp add: chain_text_close)
  with 3 show ?case by (metis finish.simps(3) list.distinct(1) prefix_order.trans)
qed (simp_all add: render_node)

definition container :: "json \<Rightarrow> bool" where
  "container j = (case j of Leaf _ \<Rightarrow> False | _ \<Rightarrow> True)"

lemma container_node [simp]: "container (fr_node f)"
  by (simp add: container_def fr_node_def split: jkind.split)

lemma container_finish [simp]: "fs \<noteq> [] \<Longrightarrow> container (finish fs)"
  by (induction fs rule: finish.induct) simp_all

text \<open>What a stream that held \<open>os\<close> may hold later: the beginning of a JSON text behind it.\<close>

definition json_beginning :: "string \<Rightarrow> string \<Rightarrow> bool" where
  "json_beginning os x \<longleftrightarrow> (\<exists>g j. container j \<and> prefix x (os @ render g j))"

section \<open>The invariant\<close>

abbreviation elem :: "jsys \<Rightarrow> nat \<Rightarrow> json_writer_element" where
  "elem s i \<equiv> snd (js_objs s ! i)"

definition out_ok :: "string \<Rightarrow> (nat \<times> jframe) list \<Rightarrow> jsys \<Rightarrow> bool" where
  "out_ok os zs s \<longleftrightarrow>
     (let c = js_context s; g = jc_escape_solidus c; populated = jr_root_populated (js_root s) in
      if zs \<noteq> [] then populated \<and> jc_ostream c = os @ chain_text g (map snd zs)
      else if populated then \<exists>j. container j \<and> jc_ostream c = os @ render g j
      else jc_ostream c = os)"

definition held_ok :: "(nat \<times> jframe) list \<Rightarrow> jsys \<Rightarrow> bool" where
  "held_ok zs s \<longleftrightarrow>
     (\<forall>z \<in> set zs. fst z < length (js_objs s) \<and> fst (js_objs s ! fst z) = fr_kind (snd z)) \<and>
     (\<forall>i < length (js_objs s). jw_context (elem s i) \<longleftrightarrow> i \<in> fst ` set zs) \<and>
     (\<forall>z \<in> set (tl zs). jw_has_element (elem s (fst z))) \<and>
     (zs \<noteq> [] \<longrightarrow> jw_has_element (elem s (fst (hd zs))) = (fr_done (snd (hd zs)) \<noteq> []))"

definition toks :: "jsys \<Rightarrow> (nat \<times> jframe) list \<Rightarrow> token_t list" where
  "toks s zs = map (\<lambda>z. jw_token (elem s (fst z))) zs @ [0]"

definition stack_ok :: "nat \<Rightarrow> (nat \<times> jframe) list \<Rightarrow> jsys \<Rightarrow> bool" where
  "stack_ok n zs s \<longleftrightarrow>
     (let c = js_context s in \<not> jc_closed c \<and> jr_token (js_root s) = 0 \<and> jc_next c = of_nat n \<and>
      jc_stack c = toks s zs \<and> distinct (toks s zs) \<and> (\<forall>t \<in> set (toks s zs). unat t < n))"

definition jsys_ok :: "nat \<Rightarrow> string \<Rightarrow> jsys \<Rightarrow> bool" where
  "jsys_ok k os s \<longleftrightarrow>
     (jc_closed (js_context s) \<and> json_beginning os (jc_ostream (js_context s))) \<or>
     (\<exists>n zs. n \<le> k \<and> stack_ok n zs s \<and> held_ok zs s \<and> out_ok os zs s)"

lemma out_ok_beginning: "out_ok os zs s \<Longrightarrow> json_beginning os (jc_ostream (js_context s))"
proof -
  assume ok: "out_ok os zs s"
  have p: "prefix os (os @ render g (Obj []))" for g by simp
  show ?thesis
  proof (cases "zs = []")
    case False
    with ok chain_text_prefix [of "map snd zs" "jc_escape_solidus (js_context s)"]
    show ?thesis unfolding json_beginning_def out_ok_def Let_def
      by (metis container_finish list.map_disc_iff same_prefix_prefix)
  next
    case True
    have "container (Obj [])" by (simp add: container_def)
    with True ok p show ?thesis unfolding json_beginning_def out_ok_def Let_def
      by (metis prefix_order.refl)
  qed
qed

lemma jsys_ok_beginning: "jsys_ok k os s \<Longrightarrow> json_beginning os (jc_ostream (js_context s))"
  by (auto simp: jsys_ok_def dest: out_ok_beginning)

lemma jsys_ok_new: "jsys_ok 1 os (jsys_new os)"
  unfolding jsys_ok_def
  by (rule disjI2, rule exI [of _ 1], rule exI [of _ "[]"])
    (simp add: jsys_new_def stack_ok_def toks_def held_ok_def out_ok_def)

lemma jsys_ok_mono: "jsys_ok k os s \<Longrightarrow> k \<le> k' \<Longrightarrow> jsys_ok k' os s"
  unfolding jsys_ok_def using le_trans by blast

lemma stack_top:
  "stack_ok n zs s \<Longrightarrow> held_ok zs s \<Longrightarrow> zs = (i, f) # zs' \<Longrightarrow> at_top (js_context s) (elem s i)"
  by (simp add: stack_ok_def toks_def held_ok_def at_top_def Let_def)

lemma stack_not_top:
  assumes "stack_ok n zs s" "held_ok zs s" "i < length (js_objs s)" "\<not> (\<exists>f zs'. zs = (i, f) # zs')"
  shows "not_top (js_context s) (elem s i)"
proof -
  have "jw_context (elem s i) \<Longrightarrow> hd (jc_stack (js_context s)) \<noteq> jw_token (elem s i)"
  proof -
    assume "jw_context (elem s i)"
    then obtain f where f: "(i, f) \<in> set zs" using assms(2,3) by (fastforce simp: held_ok_def)
    then obtain z zs' where z: "zs = z # zs'" by (cases zs) auto
    with f assms(4) have zs: "zs = z # zs'" "(i, f) \<in> set zs'" by auto
    then have "jw_token (elem s i) \<in> (\<lambda>z. jw_token (elem s (fst z))) ` set zs'" by force
    moreover have st: "jc_stack (js_context s) = toks s (z # zs')" "distinct (toks s (z # zs'))"
      using assms(1) unfolding stack_ok_def Let_def zs(1) by blast+
    moreover have "jw_token (elem s (fst z)) \<notin> (\<lambda>z. jw_token (elem s (fst z))) ` set zs'"
      and "hd (jc_stack (js_context s)) = jw_token (elem s (fst z))"
      using st(2) unfolding st(1) toks_def by simp_all
    ultimately show ?thesis by metis
  qed
  then show ?thesis using assms(1) by (auto simp: not_top_def stack_ok_def toks_def Let_def)
qed

lemma stack_distinct:
  "stack_ok n ((i, f) # zs) s \<Longrightarrow> z \<in> set zs \<Longrightarrow> fst z \<noteq> i"
  by (auto simp: stack_ok_def toks_def Let_def)

lemma on_elem_aborts:
  assumes "\<And>k. aborts (m k) (js_context s, elem s i)" "i < length (js_objs s)"
  shows "aborts (on_elem i m) s"
proof -
  obtain k w where kw: "js_objs s ! i = (k, w)" by (cases "js_objs s ! i")
  moreover obtain e where "m k (js_context s, w) = (Inl e, (js_context s, w))"
    using assms(1) [of k] kw by (auto simp: aborts_def)
  moreover have "(js_objs s)[i := (k, w)] = js_objs s" using kw assms(2) by (metis list_update_id)
  ultimately show ?thesis by (simp add: on_elem_def aborts_def)
qed

text \<open>The calls that change the stream.\<close>

abbreviation ok3 :: "nat \<Rightarrow> string \<Rightarrow> (nat \<times> jframe) list \<Rightarrow> jsys \<Rightarrow> bool" where
  "ok3 n os zs s \<equiv> stack_ok n zs s \<and> held_ok zs s \<and> out_ok os zs s"

lemma ok3_top:
  assumes "ok3 n os ((i, f) # zs) s"
  shows "at_top (js_context s) (elem s i)" "i < length (js_objs s)"
    "js_objs s ! i = (fr_kind f, elem s i)" "jw_has_element (elem s i) = (fr_done f \<noteq> [])"
    "\<And>z. z \<in> set zs \<Longrightarrow> fst z \<noteq> i" "\<And>z. z \<in> set zs \<Longrightarrow> i \<noteq> fst z"
proof -
  have st: "stack_ok n ((i, f) # zs) s" and h: "held_ok ((i, f) # zs) s" using assms by blast+
  show "at_top (js_context s) (elem s i)" by (rule stack_top [OF st h refl])
  show "i < length (js_objs s)" "js_objs s ! i = (fr_kind f, elem s i)"
    "jw_has_element (elem s i) = (fr_done f \<noteq> [])"
    using h by (simp_all add: held_ok_def prod_eq_iff)
  show "\<And>z. z \<in> set zs \<Longrightarrow> fst z \<noteq> i" "\<And>z. z \<in> set zs \<Longrightarrow> i \<noteq> fst z"
    using stack_distinct [OF st] by metis+
qed

lemma step_value:
  assumes ok: "ok3 n os ((i, f) # zs) s"
  shows "ok3 n os ((i, fr_add key (Leaf v) f) # zs) (snd (on_elem i (\<lambda>k. elem_value k key v) s))"
    (is "ok3 n os (?z # zs) ?s")
proof -
  let ?c = "js_context s" and ?w = "elem s i"
  note top = ok3_top [OF ok]
  have h: "held_ok ((i, f) # zs) s" using ok by blast
  have s': "?s = s\<lparr>js_context := wrote ?c (sep (fr_done f \<noteq> []) @ lead (jc_escape_solidus ?c) (fr_kind f) key @
         render_value (jc_escape_solidus ?c) v),
       js_objs := (js_objs s)[i := (fr_kind f, ?w\<lparr>jw_has_element := True\<rparr>)]\<rparr>"
    unfolding on_elem_def by (subst top(3)) (simp add: elem_value_top [OF top(1)] top(4))
  have "toks ?s (?z # zs) = toks s ((i, f) # zs)"
    unfolding s' by (simp add: toks_def top(2,6))
  then have "stack_ok n (?z # zs) ?s"
    using ok unfolding s' by (simp add: stack_ok_def Let_def)
  moreover have "held_ok (?z # zs) ?s"
    using h top(2,6) unfolding s' held_ok_def by (simp add: fr_add_def nth_list_update)
  moreover have "out_ok os (?z # zs) ?s"
    using ok unfolding s' by (simp add: out_ok_def Let_def chain_text_add)
  ultimately show ?thesis by blast
qed

lemma step_child:
  assumes ok: "ok3 n os ((i, f) # zs) s" and n: "n < 65536"
  shows "ok3 (n + 1) os ((length (js_objs s), \<lparr>fr_kind = k', fr_done = [], fr_key = key\<rparr>) # (i, f) # zs)
    (keep_child k' (on_elem i (\<lambda>k. elem_child k' k key) s))"
    (is "ok3 _ os (?z # _ # zs) ?s")
proof -
  let ?c = "js_context s" and ?w = "elem s i"
  note top = ok3_top [OF ok]
  have h: "held_ok ((i, f) # zs) s" using ok by blast
  have s': "?s = s\<lparr>js_context := opened_ctx ?c (sep (fr_done f \<noteq> []) @
         lead (jc_escape_solidus ?c) (fr_kind f) key @ bra k'),
       js_objs := (js_objs s)[i := (fr_kind f, ?w\<lparr>jw_has_element := True\<rparr>)] @ [(k', fresh_element (jc_next ?c))]\<rparr>"
    unfolding on_elem_def keep_child_def by (subst top(3)) (simp add: elem_child_top [OF top(1)] top(4))
  have u: "unat (of_nat n :: token_t) = n" using n by (simp add: unat_of_nat)
  have l: "\<And>z. z \<in> set zs \<Longrightarrow> fst z < length (js_objs s)"
    using ok by (auto simp: held_ok_def)
  have c: "jc_next ?c = of_nat n" "\<forall>t \<in> set (toks s ((i, f) # zs)). unat t < n"
    using ok by (simp_all add: stack_ok_def Let_def)
  have t: "toks ?s (?z # (i, f) # zs) = of_nat n # toks s ((i, f) # zs)"
    unfolding s' c(1) [symmetric] by (simp add: toks_def top(2,6) nth_append l)
  have "of_nat n \<notin> set (toks s ((i, f) # zs))" using c(2) u by auto
  with ok c u have "stack_ok (n + 1) (?z # (i, f) # zs) ?s"
    unfolding stack_ok_def t Let_def unfolding s' by (auto simp: opened_ctx_def less_Suc_eq)
  moreover have "held_ok (?z # (i, f) # zs) ?s"
    using h top(2,6) unfolding s' held_ok_def by (simp add: nth_list_update nth_append less_Suc_eq)
  moreover have "out_ok os (?z # (i, f) # zs) ?s"
    using ok unfolding s' by (simp add: out_ok_def Let_def opened_ctx_def frame_text_def)
  ultimately show ?thesis by blast
qed

definition close_chain :: "(nat \<times> jframe) list \<Rightarrow> (nat \<times> jframe) list" where
  "close_chain zs = (case zs of (_, f) # (i, p) # zs' \<Rightarrow> (i, fr_add (fr_key f) (fr_node f) p) # zs' | _ \<Rightarrow> [])"

lemma step_close:
  assumes ok: "ok3 n os ((i, f) # zs) s"
  shows "ok3 n os (close_chain ((i, f) # zs)) (snd (on_elem i elem_close s))" (is "ok3 n os ?zs ?s")
proof -
  let ?c = "js_context s" and ?w = "elem s i"
  note top = ok3_top [OF ok]
  have h: "held_ok ((i, f) # zs) s" using ok by blast
  have s': "?s = s\<lparr>js_context := wrote (?c\<lparr>jc_stack := tl (jc_stack ?c)\<rparr>) (ket (fr_kind f)),
       js_objs := (js_objs s)[i := (fr_kind f, ?w\<lparr>jw_context := False\<rparr>)]\<rparr>"
    unfolding on_elem_def by (subst top(3)) (simp add: elem_close_top [OF top(1)])
  have fst_zs: "map fst ?zs = map fst zs"
    by (simp add: close_chain_def split: list.splits prod.splits)
  have "toks ?s ?zs = map (\<lambda>j. jw_token (elem ?s j)) (map fst zs) @ [0]"
    unfolding fst_zs [symmetric] by (simp add: toks_def)
  also have "\<dots> = toks s zs" unfolding s' toks_def by (simp add: top(6))
  finally have t: "toks ?s ?zs = toks s zs" .
  have "toks s ((i, f) # zs) = jw_token ?w # toks s zs" by (simp add: toks_def)
  with ok have "stack_ok n ?zs ?s"
    unfolding stack_ok_def t Let_def unfolding s' by simp
  moreover have "held_ok ?zs ?s"
  proof (cases zs)
    case Nil
    then show ?thesis using h top(2) unfolding s' held_ok_def
      by (simp add: close_chain_def nth_list_update)
  next
    case (Cons z zs')
    obtain j p where z: "z = (j, p)" by (cases z)
    have "i \<noteq> j" using top(6) [of z] Cons z by simp
    then show ?thesis using h top(2,6) unfolding s' held_ok_def Cons z
      by (auto simp: close_chain_def fr_add_def nth_list_update)
  qed
  moreover have "out_ok os ?zs ?s"
  proof (cases zs)
    case Nil
    then show ?thesis using ok unfolding s'
      by (auto simp: out_ok_def Let_def close_chain_def render_node [symmetric] intro: exI [of _ "fr_node f"])
  next
    case (Cons z zs')
    then show ?thesis using ok unfolding s'
      by (cases z) (simp add: out_ok_def Let_def close_chain_def chain_text_close)
  qed
  ultimately show ?thesis by blast
qed

text \<open>The first element.\<close>

lemma jr_write_eq: "jr_write_object = jr_write_element (element_new Object_writer)"
    "jr_write_array = jr_write_element (element_new Array_writer)"
  by (simp_all add: jr_write_object_def jr_write_array_def element_new_def)

lemma root_populated_again:
  "jr_root_populated (js_root s) \<Longrightarrow> keep_child k (on_root (jr_write_element new) s) = s"
  by (simp add: on_root_def jr_write_element_def keep_child_def)

lemma step_root:
  assumes ok: "ok3 n os zs s" and n: "n < 65536" and p: "\<not> jr_root_populated (js_root s)"
  shows "ok3 (n + 1) os [(length (js_objs s), \<lparr>fr_kind = k, fr_done = [], fr_key = []\<rparr>)]
    (keep_child k (on_root (jr_write_element (element_new k)) s))" (is "ok3 _ os [?z] ?s")
proof -
  let ?c = "js_context s"
  have zs: "zs = []" using ok p by (simp add: out_ok_def Let_def split: if_splits)
  have c: "\<not> jc_closed ?c" "jc_stack ?c = [0]" "jr_token (js_root s) = 0" "jc_next ?c = of_nat n" "0 < n"
    using ok by (auto simp: stack_ok_def toks_def zs Let_def)
  have s': "?s = s\<lparr>js_context := opened_ctx (?c\<lparr>jc_escape_solidus := jr_config (js_root s)\<rparr>) (bra k),
      js_root := (js_root s)\<lparr>jr_root_populated := True\<rparr>,
      js_objs := js_objs s @ [(k, fresh_element (jc_next ?c))]\<rparr>"
    using p c register_new_top [of "?c\<lparr>jc_escape_solidus := jr_config (js_root s)\<rparr>" 0 k]
    by (simp add: on_root_def jr_write_element_def keep_child_def Let_def)
  have u: "unat (of_nat n :: token_t) = n" using n by (simp add: unat_of_nat)
  have "(of_nat n :: token_t) \<noteq> 0" using u c(5) by (metis less_irrefl unat_0)
  then have "stack_ok (n + 1) [?z] ?s"
    using c u unfolding s' by (simp add: stack_ok_def toks_def Let_def opened_ctx_def)
  moreover have "held_ok [?z] ?s"
    using ok unfolding s' by (auto simp: held_ok_def zs nth_append less_Suc_eq)
  moreover have "out_ok os [?z] ?s"
    using ok p unfolding s' by (simp add: out_ok_def zs Let_def opened_ctx_def frame_text_def)
  ultimately show ?thesis by blast
qed

text \<open>After the root is closed no call reaches the stream.\<close>

definition frozen :: "string \<Rightarrow> json_writer_context \<times> 'w \<Rightarrow> bool" where
  "frozen x = (\<lambda>(c, w). jc_closed c \<and> jc_ostream c = x)"

lemma frozen_prims [intro, simp]:
  "keeps (frozen x) (w_write y)" "keeps (frozen x) (w_escape y)" "keeps (frozen x) set_has_element"
  "keeps (frozen x) reset_context" "keeps (frozen x) (on_context register_context)"
  "keeps (frozen x) (on_context unregister_context)"
  "keeps (frozen x) (on_context (\<lambda>_. element_new k t))"
  by (auto intro!: keepsI simp: frozen_def w_write_def w_escape_def set_has_element_def reset_context_def
      on_context_def context_op_defs element_new_def json_writer_object_new_def json_writer_array_new_def
      eff_defs split: prod.splits jkind.splits if_splits)

lemma frozen_new_field [intro, simp]:
  "keeps (frozen x) (jo_write_new_field key)" "keeps (frozen x) ja_write_new_field"
  by (auto simp: jo_write_new_field_def ja_write_new_field_def intro!: keeps_then keeps_bind)

lemma frozen_elem:
  "keeps (frozen x) (elem_value k key v)" "keeps (frozen x) (elem_child k' k key)" "keeps (frozen x) (elem_close k)"
proof -
  show "keeps (frozen x) (elem_value k key v)"
    by (cases k; cases v rule: ja_write_value.cases)
      (auto simp: elem_value_def value_op_defs intro!: keeps_then keeps_bind)
  show "keeps (frozen x) (elem_child k' k key)"
    by (cases k) (auto simp: elem_child_alt enter_then_def intro!: keeps_then keeps_bind)
  show "keeps (frozen x) (elem_close k)"
    by (cases k) (auto simp: elem_close_def jo_close_def ja_close_def intro!: keeps_then keeps_bind)
qed

lemma frozen_on_elem:
  assumes "\<And>k. keeps (frozen (jc_ostream (js_context s))) (m k)" "jc_closed (js_context s)"
  shows "jc_closed (js_context (snd (on_elem i m s))) \<and>
    jc_ostream (js_context (snd (on_elem i m s))) = jc_ostream (js_context s)"
proof -
  obtain k w where "js_objs s ! i = (k, w)" by (cases "js_objs s ! i")
  with keepsD [OF assms(1) [of k], of "(js_context s, w)"] assms(2) show ?thesis
    by (cases "m k (js_context s, w)") (auto simp: on_elem_def frozen_def)
qed

text \<open>Every call keeps the invariant, and registers at most one token.\<close>

lemma step_closed:
  assumes "jc_closed (js_context s)"
  shows "jc_closed (js_context (jstep a s)) \<and> jc_ostream (js_context (jstep a s)) = jc_ostream (js_context s)"
proof -
  have kc: "js_context (keep_child k rs) = js_context (snd rs)" for k and rs :: "_ \<times> jsys"
    by (cases rs) (simp add: keep_child_def split: sum.splits)
  have ch: "elem_object k key = elem_child Object_writer k key" "elem_array k key = elem_child Array_writer k key" for k key
    by (simp_all add: elem_child_def)
  show ?thesis
    using assms by (cases a)
      (auto simp: kc ch frozen_on_elem frozen_elem on_root_def jr_write_eq jr_write_element_def jr_close_def
        jr_set_config_def emod_def ebind_def context_op_defs Let_def)
qed

lemma held_cases:
  assumes ok: "ok3 n os zs s" and i: "i < length (js_objs s)"
  obtains f zs' where "zs = (i, f) # zs'" | "not_top (js_context s) (elem s i)"
  using stack_not_top [OF _ _ i] ok by blast

lemma keep_child_aborts: "aborts m s \<Longrightarrow> keep_child k (m s) = s"
  by (auto simp: aborts_def keep_child_def)

lemma snd_aborts: "aborts m s \<Longrightarrow> snd (m s) = s"
  by (auto simp: aborts_def)

lemma step_ok3:
  assumes ok: "ok3 n os zs s" and n: "n < 65536"
  shows "jsys_ok (n + 1) os (jstep a s)"
proof -
  have same: "jsys_ok (n + 1) os s" using ok unfolding jsys_ok_def by (meson le_add1)
  have one: "ok3 (n + 1) os ys t \<Longrightarrow> jsys_ok (n + 1) os t" and
    keep: "ok3 n os ys t \<Longrightarrow> jsys_ok (n + 1) os t" for ys t
    unfolding jsys_ok_def by (meson le_add1 le_refl)+
  have root: "jsys_ok (n + 1) os (keep_child k (on_root (jr_write_element (element_new k)) s))" for k
    using one [OF step_root [OF ok n]] root_populated_again [of s] same by metis
  have child: "jsys_ok (n + 1) os (keep_child k' (on_elem i (\<lambda>k. elem_child k' k key) s))"
    if "i < length (js_objs s)" for i k' key
    using ok that
  proof (cases rule: held_cases)
    case (1 f zs')
    then show ?thesis using one [OF step_child [OF ok [unfolded 1] n]] by blast
  next
    case 2
    then have "aborts (on_elem i (\<lambda>k. elem_child k' k key)) s"
      using that by (intro on_elem_aborts elem_child_aborts)
    then show ?thesis using same by (simp add: keep_child_aborts)
  qed
  show ?thesis
  proof (cases a)
    case Root_close
    then show ?thesis using ok out_ok_beginning
      by (auto simp: jsys_ok_def on_root_def jr_close_def emod_def context_close_def)
  next
    case (Root_config b)
    have "ok3 n os zs (jstep a s)"
      using ok by (simp add: Root_config on_root_def jr_set_config_def emod_def stack_ok_def held_ok_def
          out_ok_def toks_def)
    then show ?thesis by (rule keep)
  next
    case (New_object i key)
    then show ?thesis using child [of i Object_writer key] same by (simp add: elem_child_def)
  next
    case (New_array i key)
    then show ?thesis using child [of i Array_writer key] same by (simp add: elem_child_def)
  next
    case (Value i key v)
    show ?thesis
    proof (cases "i < length (js_objs s)")
      case True
      with ok show ?thesis
      proof (cases rule: held_cases)
        case (1 f zs')
        then show ?thesis using keep [OF step_value [OF ok [unfolded 1]]] True Value by simp
      next
        case 2
        then show ?thesis using snd_aborts [OF on_elem_aborts [OF elem_value_aborts]] True Value same by simp
      qed
    qed (use same in \<open>simp add: Value\<close>)
  next
    case (Close i)
    show ?thesis
    proof (cases "i < length (js_objs s)")
      case True
      with ok show ?thesis
      proof (cases rule: held_cases)
        case (1 f zs')
        then show ?thesis using keep [OF step_close [OF ok [unfolded 1]]] True Close by simp
      next
        case 2
        show ?thesis
        proof (cases "jw_context (elem s i)")
          case c: True
          then show ?thesis
            using snd_aborts [OF on_elem_aborts [OF elem_close_aborts [OF 2 c]]] True Close same by simp
        next
          case False
          obtain k w where kw: "js_objs s ! i = (k, w)" by (cases "js_objs s ! i")
          then have "js_objs s = (js_objs s)[i := (k, w\<lparr>jw_context := False\<rparr>)]"
            using False by (metis (mono_tags) json_writer_element.surjective json_writer_element.update_convs(2)
                list_update_id snd_conv)
          then show ?thesis using same kw False True Close by (simp add: on_elem_def elem_close_null)
        qed
      qed
    qed (use same in \<open>simp add: Close\<close>)
  qed (simp_all only: jstep.simps jr_write_eq root)
qed

lemma step_ok: "jsys_ok k os s \<Longrightarrow> k < 65536 \<Longrightarrow> jsys_ok (k + 1) os (jstep a s)"
  unfolding jsys_ok_def [of k]
proof (elim disjE exE)
  assume "jc_closed (js_context s) \<and> json_beginning os (jc_ostream (js_context s))"
  then show "jsys_ok (k + 1) os (jstep a s)" using step_closed [of s a] by (simp add: jsys_ok_def)
next
  fix n zs assume "n \<le> k \<and> stack_ok n zs s \<and> held_ok zs s \<and> out_ok os zs s" "k < 65536"
  then show "jsys_ok (k + 1) os (jstep a s)"
    using jsys_ok_mono [OF step_ok3 [of n zs s os a], of "k + 1"] by simp
qed

lemma run_ok: "jsys_ok k os s \<Longrightarrow> k + length ops \<le> 65536 \<Longrightarrow> jsys_ok (k + length ops) os (jrun ops s)"
proof (induction ops arbitrary: k s)
  case (Cons a ops)
  then show ?case using step_ok [of k os s a] Cons.IH [of "k + 1" "jstep a s"] by (simp add: jrun_def)
qed (simp add: jrun_def)

section \<open>Properties of the library\<close>

text \<open>C22: Whatever a client does with fewer than 65536 calls, in any order, on any writer it holds,
  with exceptions caught and misuse included, the stream holds the beginning of a JSON text: a
  writer that is not the innermost open one, is closed, or belongs to a closed root never gets a
  character into the stream.\<close>

theorem client_output_is_json_beginning:
  assumes "length ops < 65536"
  shows "json_beginning os (jc_ostream (js_context (jrun ops (jsys_new os))))"
  using run_ok [OF jsys_ok_new, of ops os] assms by (intro jsys_ok_beginning [of "1 + length ops"]) simp

theorem client_output_is_json_beginning_witness:
  "json_beginning [] (jc_ostream (js_context (jrun
     [Root_object, New_array 0 ''a'', Value 0 ''b'' (JInt 1), Value 1 [] (JBool True), Close 0, Root_array]
     (jsys_new []))))"
  by (rule client_output_is_json_beginning) simp

text \<open>The bound is not slack: tokens are 16 bits wide, and reusing them lets a parent write into an open child.\<close>

definition after_children :: "nat \<Rightarrow> jsys \<Rightarrow> bool" where
  "after_children n s \<longleftrightarrow> \<not> jc_closed (js_context s) \<and> jc_stack (js_context s) = [1, 0] \<and>
     jc_next (js_context s) = of_nat (n + 2) \<and> length (js_objs s) = n + 1 \<and>
     fst (js_objs s ! 0) = Array_writer \<and> jw_context (elem s 0) \<and> jw_token (elem s 0) = 1"

fun children :: "nat \<Rightarrow> jop list" where
  "children 0 = [Root_array]"
| "children (Suc n) = children n @ [New_array 0 [], Close (Suc n)]"

lemma new_child_of_0:
  assumes "after_children n s"
  shows "jstep (New_array 0 key) s = s\<lparr>js_context := opened_ctx (js_context s)
      (sep (jw_has_element (elem s 0)) @ lead (jc_escape_solidus (js_context s)) Array_writer key @ ''[''),
    js_objs := (js_objs s)[0 := (Array_writer, (elem s 0)\<lparr>jw_has_element := True\<rparr>)] @
      [(Array_writer, fresh_element (of_nat (n + 2)))]\<rparr>"
proof -
  obtain w where w: "js_objs s ! 0 = (Array_writer, w)" using assms
    by (metis after_children_def prod.collapse)
  have t: "at_top (js_context s) w" using assms w by (simp add: after_children_def at_top_def)
  have "elem_array Array_writer key = elem_child Array_writer Array_writer key" by (simp add: elem_child_def)
  then show ?thesis using assms w elem_child_top [OF t, of Array_writer Array_writer key]
    by (simp add: on_elem_def keep_child_def after_children_def bra_def)
qed

lemma after_children_run: "after_children n (jrun (children n) (jsys_new os))"
proof (induction n)
  case 0
  show ?case
    by (simp add: jrun_def on_root_def jr_write_array_def jr_write_element_def register_context_def jsys_new_def
        json_writer_array_new_def eff_defs context_write_def keep_child_def after_children_def)
next
  case (Suc n)
  let ?s = "jrun (children n) (jsys_new os)"
  let ?t = "jstep (New_array 0 []) ?s"
  note t = new_child_of_0 [OF Suc, of "[]"]
  have l: "length (js_objs ?s) = Suc n" using Suc by (simp add: after_children_def)
  have c: "js_objs ?t ! Suc n = (Array_writer, fresh_element (of_nat (n + 2)))"
    unfolding t by (simp add: nth_append l)
  have top: "at_top (js_context ?t) (fresh_element (of_nat (n + 2)))"
    using Suc unfolding t by (simp add: at_top_def opened_ctx_def after_children_def)
  have "after_children (Suc n) (jstep (Close (Suc n)) ?t)"
    using Suc c elem_close_top [OF top, of Array_writer] unfolding t
    by (simp add: on_elem_def after_children_def opened_ctx_def nth_append)
  then show ?case by (simp add: jrun_def)
qed

text \<open>With 65535 children already written and closed in order, the next child receives the token
  of its parent: both are then accepted as the innermost writer, so the check that a parent does
  not write while its child is open no longer holds.\<close>

theorem token_wraparound_defeats_check:
  "let s = jrun (children 65535 @ [New_array 0 []]) (jsys_new os); c = js_context s in
   jc_stack c = [1, 1, 0] \<and> at_top c (elem s 0) \<and> at_top c (elem s 65536) \<and>
   fst (elem_value Array_writer [] JNull (c, elem s 0)) = Inr True"
proof -
  let ?s0 = "jrun (children 65535) (jsys_new os)"
  have ok: "after_children 65535 ?s0" by (rule after_children_run)
  have w: "of_nat (65535 + 2) = (1 :: token_t)" by simp
  have s: "jrun (children 65535 @ [New_array 0 []]) (jsys_new os) = jstep (New_array 0 []) ?s0"
    by (simp add: jrun_def del: children.simps)
  let ?s = "jstep (New_array 0 []) ?s0"
  note t = new_child_of_0 [OF ok, of "[]"]
  have c: "jc_stack (js_context ?s) = [1, 1, 0]" and top0: "at_top (js_context ?s) (elem ?s 0)"
    and top1: "at_top (js_context ?s) (elem ?s 65536)"
    using ok w unfolding t by (simp_all add: opened_ctx_def after_children_def at_top_def nth_append del: jstep.simps)
  show ?thesis unfolding s Let_def using c top0 top1 elem_value_top [OF top0, of Array_writer "[]" JNull]
    by (simp del: jstep.simps)
qed

end
