(* ===== verification/Strings.thy ===== *)
theory Strings
  imports Prelude
begin

text \<open>
  The string helpers of \<open>libubench\<close> (\<open>string.h\<close>, \<open>string.cpp\<close>,
  \<open>string_strlcpy.cpp\<close>): integer parsing on top of \<open>std::from_chars\<close>,
  splitting at commas, hexadecimal conversion and \<open>strlcpy\<close> on memory.
\<close>

section \<open>Integers\<close>

datatype errc = Invalid_argument | Result_out_of_range

definition is_digit :: "char \<Rightarrow> bool" where
  "is_digit c \<longleftrightarrow> 48 \<le> (of_char c :: nat) \<and> of_char c \<le> (57 :: nat)"

definition digit_val :: "char \<Rightarrow> nat" where
  "digit_val c = of_char c - 48"

definition dec_value :: "string \<Rightarrow> nat" where
  "dec_value ds = foldl (\<lambda>v d. v * 10 + digit_val d) 0 ds"

definition int_lo :: "bool \<Rightarrow> nat \<Rightarrow> int" where
  "int_lo sg bits = (if sg then - (2 ^ (bits - 1)) else 0)"

definition int_hi :: "bool \<Rightarrow> nat \<Rightarrow> int" where
  "int_hi sg bits = (if sg then 2 ^ (bits - 1) - 1 else 2 ^ bits - 1)"

text \<open>\<open>std::from_chars\<close> in base 10 for an integer type of the standard library: the
  position it stops at, the error code, and the value (0 on an error).\<close>

definition from_chars :: "bool \<Rightarrow> nat \<Rightarrow> string \<Rightarrow> nat \<times> errc option \<times> int" where
  "from_chars sg bits s =
     (let neg = sg \<and> s \<noteq> [] \<and> hd s = CHR ''-''; i = (if neg then 1 else 0); j = scan is_digit s i in
      if j = i then (0, Some Invalid_argument, 0)
      else let n = int (dec_value (take (j - i) (drop i s))); v = (if neg then - n else n) in
        if int_lo sg bits \<le> v \<and> v \<le> int_hi sg bits then (j, None, v) else (j, Some Result_out_of_range, 0))"

definition parse_int :: "bool \<Rightarrow> nat \<Rightarrow> string \<Rightarrow> int option" where
  "parse_int sg bits arg = (case from_chars sg bits arg of (ptr, ec, value) \<Rightarrow>
     if ec \<noteq> None then None else if ptr \<noteq> length arg then None else Some value)"

lemma is_digit_char: "d < 10 \<Longrightarrow> is_digit (digit_char d)" and digit_val_char: "d < 10 \<Longrightarrow> digit_val (digit_char d) = d"
  by (simp_all add: is_digit_def digit_val_def digit_char_def)

lemma dec_value_snoc: "dec_value (ds @ [d]) = dec_value ds * 10 + digit_val d"
  by (simp add: dec_value_def)

lemma dec_value_nat_to_string [simp]: "dec_value (nat_to_string n) = n"
proof (induction n rule: nat_to_string.induct)
  case (1 n)
  show ?case
  proof (cases "n < 10")
    case True
    then show ?thesis by (subst nat_to_string.simps) (simp add: dec_value_def digit_val_char)
  next
    case False
    with 1 show ?thesis by (subst nat_to_string.simps) (simp add: dec_value_snoc digit_val_char)
  qed
qed

lemma nat_to_string_digits: "\<forall>c \<in> set (nat_to_string n). is_digit c"
proof (induction n rule: nat_to_string.induct)
  case (1 n)
  then show ?case by (subst nat_to_string.simps) (auto simp: is_digit_char)
qed

lemma scan_all: "\<forall>c \<in> set (drop i s). p c \<Longrightarrow> i \<le> length s \<Longrightarrow> scan p s i = length s"
  by (simp add: scan_drop takeWhile_eq_all_conv [THEN iffD2])

lemma nat_to_string_hd: "hd (nat_to_string n) \<noteq> CHR ''-''"
proof -
  have "is_digit (hd (nat_to_string n))" using nat_to_string_digits [of n] by simp
  then show ?thesis by (auto simp: is_digit_def)
qed

lemma parse_int_digits:
  assumes "ds \<noteq> []" "\<forall>c \<in> set ds. is_digit c"
  shows "parse_int sg bits ds = (if int (dec_value ds) \<le> int_hi sg bits then Some (int (dec_value ds)) else None)"
proof -
  have h: "hd ds \<noteq> CHR ''-''" using assms by (cases ds) (auto simp: is_digit_def)
  have lo: "int_lo sg bits \<le> int n" for n
    by (rule order_trans [of _ 0]) (simp_all add: int_lo_def)
  have "scan is_digit ds 0 = length ds" using assms by (intro scan_all) simp_all
  with h lo assms show ?thesis by (simp add: parse_int_def from_chars_def Let_def)
qed

lemma parse_int_neg_digits:
  assumes "ds \<noteq> []" "\<forall>c \<in> set ds. is_digit c"
  shows "parse_int sg bits (CHR ''-'' # ds) =
    (if sg \<and> - int (dec_value ds) \<ge> int_lo True bits then Some (- int (dec_value ds)) else None)"
proof (cases sg)
  case True
  have hi: "- int n \<le> int_hi True bits" for n
    by (rule order_trans [of _ 0]) (simp_all add: int_hi_def)
  have "scan is_digit (CHR ''-'' # ds) 1 = Suc (length ds)"
    using assms by (subst scan_all) simp_all
  with True hi assms show ?thesis by (simp add: parse_int_def from_chars_def Let_def)
next
  case False
  have "scan is_digit (CHR ''-'' # ds) 0 = 0" by (subst scan.simps) (simp add: is_digit_def)
  with False show ?thesis by (simp add: parse_int_def from_chars_def Let_def)
qed

lemma parse_int_decimal:
  "parse_int sg bits (int_to_string v) = (if int_lo sg bits \<le> v \<and> v \<le> int_hi sg bits then Some v else None)"
proof (cases "v < 0")
  case True
  have "\<not> sg \<Longrightarrow> int_lo sg bits = 0" by (simp add: int_lo_def)
  moreover have "sg \<Longrightarrow> v \<le> int_hi sg bits"
  proof -
    have "0 \<le> int_hi True bits" by (simp add: int_hi_def)
    then show "sg \<Longrightarrow> v \<le> int_hi sg bits" using True by simp
  qed
  ultimately show ?thesis
    using True parse_int_neg_digits [OF nat_to_string_nonempty nat_to_string_digits, of sg bits "nat (- v)"]
    by (cases sg) (simp_all add: int_to_string_def)
next
  case False
  have "int_lo sg bits \<le> 0" by (simp add: int_lo_def)
  then have "int_lo sg bits \<le> v" using False by linarith
  then show ?thesis
    using False parse_int_digits [OF nat_to_string_nonempty nat_to_string_digits, of sg bits "nat v"]
    by (simp add: int_to_string_def)
qed

text \<open>parse_int reads back exactly the decimal text of every value of its type and refuses the
  text of every value outside the type, for signed and unsigned types of every width.\<close>

theorem parse_int_roundtrip:
  "parse_int sg bits (int_to_string v) = (if int_lo sg bits \<le> v \<and> v \<le> int_hi sg bits then Some v else None)"
  by (rule parse_int_decimal)

section \<open>Splitting at commas\<close>

text \<open>\<open>find_first_of(',', sz)\<close>: the index of the next comma, or none.\<close>

definition find_comma :: "string \<Rightarrow> nat \<Rightarrow> nat option" where
  "find_comma arg sz = (let i = scan (\<lambda>c. c \<noteq> CHR '','') arg sz in if i < length arg then Some i else None)"

definition substr :: "nat \<Rightarrow> nat \<Rightarrow> string \<Rightarrow> string" where
  "substr pos n s = take n (drop pos s)"

lemma find_comma_SomeD: "find_comma arg sz = Some i \<Longrightarrow> sz \<le> i \<and> i < length arg"
  by (auto simp: find_comma_def Let_def split: if_splits)

function split_loop :: "string \<Rightarrow> nat \<Rightarrow> nat \<Rightarrow> string list \<Rightarrow> string list" where
  "split_loop arg fields sz out =
     (if fields = 0 \<or> length out < fields - 1 then
        case find_comma arg sz of
          None \<Rightarrow> out @ [drop sz arg]
        | Some nxt \<Rightarrow> split_loop arg fields (nxt + 1) (out @ [substr sz (nxt - sz) arg])
      else out @ [drop sz arg])"
  by auto
termination
  by (relation "measure (\<lambda>(arg, fields, sz, out). Suc (length arg) - sz)") (auto dest!: find_comma_SomeD)

declare split_loop.simps [simp del]

definition split_args :: "string \<Rightarrow> nat \<Rightarrow> string list" where
  "split_args arg fields = split_loop arg fields 0 []"

function split_int_loop :: "bool \<Rightarrow> nat \<Rightarrow> string \<Rightarrow> nat \<Rightarrow> int list \<Rightarrow> int list" where
  "split_int_loop sg bits arg sz out =
     (case find_comma arg sz of
        None \<Rightarrow> (case parse_int sg bits (drop sz arg) of None \<Rightarrow> [] | Some v \<Rightarrow> out @ [v])
      | Some nxt \<Rightarrow> (case parse_int sg bits (substr sz (nxt - sz) arg) of None \<Rightarrow> []
          | Some v \<Rightarrow> split_int_loop sg bits arg (nxt + 1) (out @ [v])))"
  by auto
termination
  by (relation "measure (\<lambda>(sg, bits, arg, sz, out). Suc (length arg) - sz)") (auto dest!: find_comma_SomeD)

declare split_int_loop.simps [simp del]

definition split_args_int :: "bool \<Rightarrow> nat \<Rightarrow> string \<Rightarrow> int list" where
  "split_args_int sg bits arg = split_int_loop sg bits arg 0 []"

text \<open>The reference: cut off the text before each comma, at most \<open>n\<close> times.\<close>

fun join_commas :: "string list \<Rightarrow> string" where
  "join_commas [] = []"
| "join_commas [x] = x"
| "join_commas (x # y # xs) = x @ CHR '','' # join_commas (y # xs)"

function pieces :: "nat option \<Rightarrow> string \<Rightarrow> string list" where
  "pieces n s = (if n = Some 0 \<or> CHR '','' \<notin> set s then [s]
     else takeWhile (\<lambda>c. c \<noteq> CHR '','') s #
       pieces (map_option (\<lambda>k. k - 1) n) (tl (dropWhile (\<lambda>c. c \<noteq> CHR '','') s)))"
  by auto
termination
proof (relation "measure (length \<circ> snd)", simp, goal_cases)
  case (1 n s)
  then have "dropWhile (\<lambda>c. c \<noteq> CHR '','') s \<noteq> []" by auto
  moreover have "length (dropWhile (\<lambda>c. c \<noteq> CHR '','') s) \<le> length s" by (rule length_dropWhile_le)
  ultimately show ?case by (auto simp: less_le_trans [OF _ length_dropWhile_le] intro: less_le_trans)
qed

declare pieces.simps [simp del]

lemma find_comma_drop:
  assumes "sz \<le> length arg"
  shows "find_comma arg sz = (if CHR '','' \<in> set (drop sz arg)
     then Some (sz + length (takeWhile (\<lambda>c. c \<noteq> CHR '','') (drop sz arg))) else None)"
proof (cases "CHR '','' \<in> set (drop sz arg)")
  case True
  then have "length (takeWhile (\<lambda>c. c \<noteq> CHR '','') (drop sz arg)) < length (drop sz arg)"
    by (intro length_takeWhile_lt) auto
  with True show ?thesis by (simp add: find_comma_def scan_drop Let_def less_diff_conv2 add.commute)
next
  case False
  with assms have "scan (\<lambda>c. c \<noteq> CHR '','') arg sz = length arg" by (intro scan_all) auto
  with False show ?thesis by (simp add: find_comma_def)
qed

lemma comma_cut:
  assumes "sz \<le> length arg" "CHR '','' \<in> set (drop sz arg)"
  defines "n \<equiv> length (takeWhile (\<lambda>c. c \<noteq> CHR '','') (drop sz arg))"
  shows "substr sz n arg = takeWhile (\<lambda>c. c \<noteq> CHR '','') (drop sz arg)"
    and "drop (Suc (sz + n)) arg = tl (dropWhile (\<lambda>c. c \<noteq> CHR '','') (drop sz arg))"
    and "sz + n < length arg"
proof -
  show "substr sz n arg = takeWhile (\<lambda>c. c \<noteq> CHR '','') (drop sz arg)"
    by (simp add: substr_def n_def takeWhile_eq_take [symmetric])
  show "drop (Suc (sz + n)) arg = tl (dropWhile (\<lambda>c. c \<noteq> CHR '','') (drop sz arg))"
    by (simp add: n_def dropWhile_eq_drop tl_drop add.commute drop_Suc)
  have "n < length (drop sz arg)"
    unfolding n_def using assms(2) by (intro length_takeWhile_lt) auto
  then show "sz + n < length arg" by simp
qed

lemma split_loop_pieces:
  "sz \<le> length arg \<Longrightarrow> (fields = 0 \<or> length out < fields) \<Longrightarrow>
   split_loop arg fields sz out =
     out @ pieces (if fields = 0 then None else Some (fields - 1 - length out)) (drop sz arg)"
proof (induction arg fields sz out rule: split_loop.induct)
  case (1 arg fields sz out)
  show ?case
  proof (cases "(fields = 0 \<or> length out < fields - 1) \<and> CHR '','' \<in> set (drop sz arg)")
    case False
    with 1(2,3) show ?thesis
      by (subst split_loop.simps, subst pieces.simps) (auto simp: find_comma_drop)
  next
    case True
    note cut = comma_cut [OF 1(2)]
    show ?thesis
      using True 1(2,3) 1(1) [OF _ find_comma_drop [OF 1(2), simplified True, simplified]] cut
      by (subst split_loop.simps, subst pieces.simps) (auto simp: find_comma_drop)
  qed
qed

lemma split_args_pieces: "split_args arg fields = pieces (if fields = 0 then None else Some (fields - 1)) arg"
  by (simp add: split_args_def split_loop_pieces)

lemma pieces_nonempty [simp]: "pieces n s \<noteq> []"
  by (subst pieces.simps) simp

lemma join_pieces: "join_commas (pieces n s) = s"
proof (induction n s rule: pieces.induct)
  case (1 n s)
  show ?case
  proof (cases "n = Some 0 \<or> CHR '','' \<notin> set s")
    case True
    then show ?thesis by (subst pieces.simps) simp
  next
    case False
    let ?P = "\<lambda>c. c \<noteq> CHR '',''"
    from False have d: "dropWhile ?P s \<noteq> []" by auto
    then have "hd (dropWhile ?P s) = CHR '',''" using hd_dropWhile [of ?P s] by simp
    with d have "s = takeWhile ?P s @ CHR '','' # tl (dropWhile ?P s)"
      by (metis list.collapse takeWhile_dropWhile_id)
    moreover have "join_commas (x # pieces m t) = x @ CHR '','' # join_commas (pieces m t)" for x m t
      by (cases "pieces m t") simp_all
    ultimately show ?thesis using False 1 by (subst pieces.simps) simp
  qed
qed

lemma count_comma_cut:
  "CHR '','' \<in> set s \<Longrightarrow>
   count_list s (CHR '','') = Suc (count_list (tl (dropWhile (\<lambda>c. c \<noteq> CHR '','') s)) (CHR '',''))"
  by (induction s) auto

lemma pieces_length:
  "length (pieces n s) = (let c = count_list s (CHR '','') in case n of None \<Rightarrow> c + 1 | Some k \<Rightarrow> min k c + 1)"
proof (induction n s rule: pieces.induct)
  case (1 n s)
  show ?case
  proof (cases "n = Some 0 \<or> CHR '','' \<notin> set s")
    case True
    then show ?thesis by (subst pieces.simps) (auto simp: Let_def count_list_0_iff split: option.split)
  next
    case False
    with 1 show ?thesis
      by (subst pieces.simps) (cases n; auto simp: Let_def count_comma_cut)
  qed
qed

lemma pieces_no_comma: "x \<in> set (butlast (pieces n s)) \<Longrightarrow> CHR '','' \<notin> set x"
proof (induction n s rule: pieces.induct)
  case (1 n s)
  show ?case
  proof (cases "n = Some 0 \<or> CHR '','' \<notin> set s")
    case True
    with 1(2) show ?thesis by (subst (asm) pieces.simps) simp
  next
    case False
    then have "pieces n s = takeWhile (\<lambda>c. c \<noteq> CHR '','') s #
        pieces (map_option (\<lambda>k. k - 1) n) (tl (dropWhile (\<lambda>c. c \<noteq> CHR '','') s))"
      by (subst pieces.simps) simp
    with 1(2) 1(1) [OF False] show ?thesis by (auto dest: set_takeWhileD)
  qed
qed

lemma pieces_last: "n = None \<Longrightarrow> CHR '','' \<notin> set (last (pieces n s))"
proof (induction n s rule: pieces.induct)
  case (1 n s)
  then show ?case by (subst pieces.simps) auto
qed

text \<open>split_args cuts an argument at its commas without losing a character: joining the fields
  gives the argument back, there is one field more than commas (or at most \<open>fields\<close> when a limit
  is given), no field but the last holds a comma, and without a limit none does.\<close>

theorem split_args_spec:
  "join_commas (split_args arg fields) = arg \<and>
   length (split_args arg fields) = (let n = count_list arg (CHR '','') + 1 in
     if fields = 0 then n else min fields n) \<and>
   CHR '','' \<notin> set (concat (butlast (split_args arg fields))) \<and>
   CHR '','' \<notin> set (last (split_args arg 0))"
  using pieces_last [OF refl, of arg]
  by (auto simp: split_args_pieces join_pieces pieces_length Let_def dest: pieces_no_comma)

text \<open>The integer version is the parsing of every field, and nothing when one field is not an integer.\<close>

lemma split_int_loop_pieces:
  "sz \<le> length arg \<Longrightarrow> split_int_loop sg bits arg sz out =
     (let vs = map (parse_int sg bits) (pieces None (drop sz arg)) in
      if None \<in> set vs then [] else out @ map the vs)"
proof (induction sg bits arg sz out rule: split_int_loop.induct)
  case (1 sg bits arg sz out)
  show ?case
  proof (cases "CHR '','' \<in> set (drop sz arg)")
    case False
    with 1(2) show ?thesis
      by (subst split_int_loop.simps, subst pieces.simps)
        (auto simp: find_comma_drop Let_def split: option.split)
  next
    case True
    note cut = comma_cut [OF 1(2) True]
    show ?thesis
      using True 1(2) 1(1) cut
      by (subst split_int_loop.simps, subst pieces.simps)
        (auto simp: find_comma_drop Let_def split: option.split)
  qed
qed

text \<open>split_args_int is the parse of each comma separated field: a list of as many values as
  fields when every field is an integer of the type, and the empty list otherwise.\<close>

theorem split_args_int_spec:
  "split_args_int sg bits arg =
     (let vs = map (parse_int sg bits) (split_args arg 0) in if None \<in> set vs then [] else map the vs)"
  by (simp add: split_args_int_def split_int_loop_pieces split_args_pieces)

section \<open>Hexadecimal digits\<close>

definition hexval_table :: "8 word list" where
  "hexval_table = replicate 48 0xFF @ [0, 1, 2, 3, 4, 5, 6, 7, 8, 9] @ replicate 7 0xFF @
     [0x0A, 0x0B, 0x0C, 0x0D, 0x0E, 0x0F] @ replicate 26 0xFF @
     [0x0A, 0x0B, 0x0C, 0x0D, 0x0E, 0x0F] @ replicate 153 0xFF"

definition hexval :: "char \<Rightarrow> 8 word" where
  "hexval c = hexval_table ! of_char c"

text \<open>The loop over the characters from \<open>first\<close> to \<open>last\<close>, with the number read so far; reading
  with no character left would be outside the range, and is None.\<close>

fun hex_loop :: "nat \<Rightarrow> string \<Rightarrow> 'a::len word \<Rightarrow> (nat \<times> errc option \<times> 'a word) option" where
  "hex_loop pos [] uvalue = None"
| "hex_loop pos (c # cs) uvalue =
     (let v = hexval c in
      if v = 0xFF then Some (pos, Some Invalid_argument, uvalue)
      else let u = push_bit 4 uvalue OR ucast v in
        if cs \<noteq> [] then hex_loop (pos + 1) cs u else Some (pos + 1, None, u))"

definition from_chars_hex :: "string \<Rightarrow> (nat \<times> errc option \<times> 'a::len word) option" where
  "from_chars_hex s = hex_loop 0 s 0"

text \<open>The reference: the value of the digits as a number of any size.\<close>

definition hex_digit :: "char \<Rightarrow> nat option" where
  "hex_digit c = (if is_digit c then Some (of_char c - 48)
     else if 65 \<le> (of_char c :: nat) \<and> of_char c \<le> (70 :: nat) then Some (of_char c - 55)
     else if 97 \<le> (of_char c :: nat) \<and> of_char c \<le> (102 :: nat) then Some (of_char c - 87) else None)"

definition hex_value :: "string \<Rightarrow> nat" where
  "hex_value s = foldl (\<lambda>v c. v * 16 + the (hex_digit c)) 0 s"

definition is_hex :: "char \<Rightarrow> bool" where
  "is_hex c \<longleftrightarrow> hex_digit c \<noteq> None"

lemma hexval_table_eq:
  "hexval_table = map (\<lambda>n. if 48 \<le> n \<and> n \<le> 57 then of_nat (n - 48)
      else if 65 \<le> n \<and> n \<le> 70 then of_nat (n - 55) else if 97 \<le> n \<and> n \<le> 102 then of_nat (n - 87) else 0xFF)
      [0..<256]"
  by code_simp

lemma hexval_digit: "hexval c = (case hex_digit c of None \<Rightarrow> 0xFF | Some d \<Rightarrow> of_nat d)"
  by (simp add: hexval_def hexval_table_eq hex_digit_def is_digit_def)

lemma hex_digit_less: "hex_digit c = Some d \<Longrightarrow> d < 16"
  by (auto simp: hex_digit_def is_digit_def split: if_splits)

lemma hexval_invalid: "hexval c = 0xFF \<longleftrightarrow> \<not> is_hex c"
proof (cases "hex_digit c")
  case (Some d)
  then have "unat (of_nat d :: 8 word) = d" using hex_digit_less [of c d] by (simp add: unat_of_nat)
  moreover have "unat (0xFF :: 8 word) = 255" by simp
  ultimately have "(of_nat d :: 8 word) \<noteq> 0xFF" using hex_digit_less [OF Some] by auto
  then show ?thesis by (simp add: hexval_digit Some is_hex_def)
qed (simp add: hexval_digit is_hex_def)

lemma hex_step:
  assumes "d < 16"
  shows "push_bit 4 (of_nat n :: 'a::len word) OR ucast (of_nat d :: 8 word) = of_nat (n * 16 + d)"
proof -
  have d: "take_bit 4 d = d" "take_bit 8 d = d" using assms by (simp_all add: take_bit_nat_eq_self)
  have u: "ucast (of_nat d :: 8 word) = (of_nat d :: 'a word)" by (simp add: unsigned_of_nat d)
  have "push_bit 4 (of_nat n :: 'a word) AND of_nat d = 0"
  proof (rule bit_eqI)
    fix i show "bit (push_bit 4 (of_nat n :: 'a word) AND of_nat d) i = bit (0 :: 'a word) i"
      using arg_cong [OF d(1), of "\<lambda>x. bit x i"]
      by (auto simp: bit_and_iff bit_push_bit_iff bit_of_nat_iff bit_take_bit_iff)
  qed
  then have "push_bit 4 (of_nat n :: 'a word) OR of_nat d = push_bit 4 (of_nat n) + of_nat d"
    using word_plus_and_or [of "push_bit 4 (of_nat n :: 'a word)" "of_nat d"] by simp
  then show ?thesis by (simp add: u push_bit_eq_mult)
qed

lemma hex_loop_spec:
  "cs \<noteq> [] \<Longrightarrow> hex_loop pos cs (of_nat n :: 'a::len word) =
     (let ds = takeWhile is_hex cs in
      Some (pos + length ds, if length ds = length cs then None else Some Invalid_argument,
        of_nat (foldl (\<lambda>v c. v * 16 + the (hex_digit c)) n ds)))"
proof (induction cs arbitrary: pos n)
  case (Cons c cs)
  show ?case
  proof (cases "is_hex c")
    case False
    then show ?thesis by (simp add: hexval_invalid Let_def)
  next
    case True
    then obtain d where d: "hex_digit c = Some d" by (auto simp: is_hex_def)
    have "push_bit 4 (of_nat n :: 'a word) OR ucast (hexval c) = of_nat (n * 16 + d)"
      using hex_step [OF hex_digit_less [OF d]] d by (simp add: hexval_digit)
    then show ?thesis using True Cons.IH [of "pos + 1" "n * 16 + d"] d
      by (cases "cs = []") (simp_all add: hexval_invalid Let_def)
  qed
qed simp

text \<open>from_chars_hex reads the longest run of hexadecimal digits at the start, whatever its
  length, and its value is the number they spell modulo the width of the type; it reports an
  invalid argument exactly when it stops before the end of the range.\<close>

theorem from_chars_hex_spec:
  assumes "s \<noteq> []"
  shows "from_chars_hex s = (let ds = takeWhile is_hex s in
    Some (length ds, if ds = s then None else Some Invalid_argument, of_nat (hex_value ds) :: 'a::len word))"
proof -
  have "takeWhile is_hex s = s \<longleftrightarrow> length (takeWhile is_hex s) = length s"
    by (metis append_eq_conv_conj take_all_iff takeWhile_eq_take order_refl)
  then show ?thesis
    using hex_loop_spec [OF assms, of 0 0, where 'a = 'a]
    by (simp add: from_chars_hex_def hex_value_def Let_def)
qed

theorem from_chars_hex_witness:
  "from_chars_hex ''7ffe12 rw'' = Some (6, Some Invalid_argument, 0xfe12 :: 16 word)"
  using from_chars_hex_spec [of "''7ffe12 rw''", where 'a = 16]
  by (simp add: is_hex_def hex_digit_def is_digit_def hex_value_def)

section \<open>strlcpy\<close>

text \<open>
  The memory at \<open>dst\<close> and at \<open>src\<close> as lists of characters; None is an access
  outside of them.  The copy loop advances both pointers together and returns
  the memory, the offset of the pointers and what is left of \<open>n\<close>.
\<close>

fun copy_loop :: "string \<Rightarrow> string \<Rightarrow> nat \<Rightarrow> nat \<Rightarrow> (string \<times> nat \<times> nat) option" where
  "copy_loop dst src i 0 = Some (dst, i, 0)"
| "copy_loop dst src i (Suc n) =
     (if n > 0 then
        if i < length src \<and> i < length dst then
          if src ! i = CHR 0x00 then Some (dst[i := CHR 0x00], i + 1, n)
          else copy_loop (dst[i := src ! i]) src (i + 1) n
        else None
      else Some (dst, i, 0))"

text \<open>\<open>while (*s++);\<close>: the number of characters it passes.\<close>

fun skip_to_nul :: "string \<Rightarrow> nat option" where
  "skip_to_nul [] = None"
| "skip_to_nul (c # cs) = (if c = CHR 0x00 then Some 1 else map_option Suc (skip_to_nul cs))"

definition strlcpy :: "string \<Rightarrow> string \<Rightarrow> nat \<Rightarrow> (string \<times> nat) option" where
  "strlcpy dst src siz =
     (case copy_loop dst src 0 siz of None \<Rightarrow> None
      | Some (dst, i, n) \<Rightarrow>
         if n = 0 then
           if siz \<noteq> 0 \<and> i \<ge> length dst then None
           else let dst = (if siz \<noteq> 0 then dst[i := CHR 0x00] else dst) in
             (case skip_to_nul (drop i src) of None \<Rightarrow> None | Some k \<Rightarrow> Some (dst, i + k - 1))
         else Some (dst, i - 1))"

lemma skip_to_nul_string: "CHR 0x00 \<notin> set cs \<Longrightarrow> skip_to_nul (cs @ CHR 0x00 # rest) = Some (length cs + 1)"
  by (induction cs) auto

lemma copy_loop_string:
  "CHR 0x00 \<notin> set cs \<Longrightarrow> i + n < length dst \<Longrightarrow> length pre = i \<Longrightarrow>
   copy_loop dst (pre @ cs @ CHR 0x00 # rest) i (Suc n) =
     (if length cs < n then Some (take i dst @ cs @ CHR 0x00 # drop (i + length cs + 1) dst, i + length cs + 1, n - length cs)
      else Some (take i dst @ take n cs @ drop (i + n) dst, i + n, 0))"
proof (induction n arbitrary: dst cs i pre)
  case (Suc n)
  show ?case
  proof (cases cs)
    case Nil
    with Suc.prems show ?thesis
      by (simp add: nth_append upd_conv_take_nth_drop)
  next
    case (Cons c cs')
    have "copy_loop (dst[i := c]) ((pre @ [c]) @ cs' @ CHR 0x00 # rest) (i + 1) (Suc n) =
      (if length cs' < n then Some (take (i + 1) (dst[i := c]) @ cs' @ CHR 0x00 # drop (i + 1 + length cs' + 1) (dst[i := c]),
          i + 1 + length cs' + 1, n - length cs')
       else Some (take (i + 1) (dst[i := c]) @ take n cs' @ drop (i + 1 + n) (dst[i := c]), i + 1 + n, 0))"
      using Suc.prems Cons by (intro Suc.IH) simp_all
    moreover have "take (i + 1) (dst[i := c]) = take i dst @ [c]"
      using Suc.prems by (simp add: take_Suc_conv_app_nth)
    ultimately show ?thesis using Suc.prems Cons
      by (subst copy_loop.simps(2)) (auto simp: nth_append simp del: copy_loop.simps)
  qed
qed simp

lemma strlcpy_string:
  assumes "CHR 0x00 \<notin> set cs" "siz \<le> length dst"
  shows "strlcpy dst (cs @ CHR 0x00 # rest) siz =
    Some (if siz = 0 then dst
      else take (siz - 1) cs @ CHR 0x00 # drop (min (length cs) (siz - 1) + 1) dst, length cs)"
proof (cases siz)
  case 0
  then show ?thesis using assms by (simp add: strlcpy_def skip_to_nul_string)
next
  case (Suc n)
  have c: "copy_loop dst (cs @ CHR 0x00 # rest) 0 siz =
     (if length cs < n then Some (cs @ CHR 0x00 # drop (length cs + 1) dst, length cs + 1, n - length cs)
      else Some (take n cs @ drop n dst, n, 0))"
    using copy_loop_string [of cs 0 n dst "[]" rest] assms Suc by simp
  show ?thesis
  proof (cases "length cs < n")
    case True
    then show ?thesis using c Suc by (simp add: strlcpy_def)
  next
    case False
    have "drop n (cs @ CHR 0x00 # rest) = drop n cs @ CHR 0x00 # rest" using False by simp
    moreover have "CHR 0x00 \<notin> set (drop n cs)" using assms(1) by (meson in_set_dropD)
    ultimately have k: "skip_to_nul (drop n (cs @ CHR 0x00 # rest)) = Some (length cs - n + 1)"
      using skip_to_nul_string [of "drop n cs" rest] False by simp
    have u: "(take n cs @ drop n dst)[n := CHR 0x00] = take n cs @ CHR 0x00 # drop (Suc n) dst"
      using False assms Suc by (simp add: list_update_append Cons_nth_drop_Suc [symmetric])
    show ?thesis using c k u False Suc assms by (simp add: strlcpy_def)
  qed
qed

text \<open>On a NUL-terminated source and a destination of at least \<open>size\<close> bytes strlcpy touches
  no byte outside of the two, writes at most \<open>size\<close> bytes, always terminates the copy unless
  \<open>size\<close> is 0, copies the longest prefix that fits, and returns the length of the source.\<close>

theorem strlcpy_spec:
  assumes "CHR 0x00 \<notin> set cs" "siz \<le> length dst"
  shows "strlcpy dst (cs @ CHR 0x00 # rest) siz =
    Some (if siz = 0 then dst
      else take (siz - 1) cs @ CHR 0x00 # drop (min (length cs) (siz - 1) + 1) dst, length cs)"
  using assms by (rule strlcpy_string)

theorem strlcpy_witness:
  "strlcpy ''......'' (''abc'' @ CHR 0x00 # ''junk'') 3 = Some (''ab'' @ CHR 0x00 # ''...'', 3)"
  using strlcpy_spec [of "''abc''" 3 "''......''" "''junk''"] by simp

section \<open>perror\<close>

definition perror :: "(int \<Rightarrow> string) \<Rightarrow> int \<Rightarrow> string" where
  "perror strerror err = (if err = 0 then [] else strerror err @ '' ('' @ int_to_string err @ '')'')"

end
