(* ===== verification/Options.thy ===== *)
theory Options
  imports Prelude
begin

text \<open>
  The command line parser of \<open>libubench\<close> (\<open>options.h\<close>, \<open>options.cpp\<close>): the
  option string is read into a map, and the arguments are parsed in one pass
  into options, errors and what is left for the program.  \<open>std::isalnum\<close> is
  taken in the C locale.  A \<open>string_view\<close> is its text.
\<close>

section \<open>The option string\<close>

datatype option_arg = Not_defined | Single_opt | Arg_required

type_synonym option_map = "char \<Rightarrow> option_arg"

definition is_alnum :: "char \<Rightarrow> bool" where
  "is_alnum c \<longleftrightarrow> (let n = of_char c :: nat in
     48 \<le> n \<and> n \<le> 57 \<or> 65 \<le> n \<and> n \<le> 90 \<or> 97 \<le> n \<and> n \<le> 122)"

definition is_valid_opt :: "char \<Rightarrow> bool" where
  "is_valid_opt optarg \<longleftrightarrow> (if optarg = CHR ''?'' then True else is_alnum optarg)"

datatype options_error = Invalid_option_string

definition str_char :: "string \<Rightarrow> nat \<Rightarrow> char" where
  "str_char opt index = (if index \<ge> length opt then CHR 0x00 else opt ! index)"

function build_map_loop :: "string \<Rightarrow> nat \<Rightarrow> option_map \<Rightarrow> options_error + option_map" where
  "build_map_loop options pos m =
     (if pos < length options \<and> options ! pos \<noteq> CHR 0x00 then
        let optchar = options ! pos in
        if is_valid_opt optchar then
          let nxt = (if pos + 1 < length options then options ! (pos + 1) else CHR 0x00) in
          if nxt = CHR 0x00 \<or> nxt \<noteq> CHR '':'' then
            build_map_loop options (pos + 1) (m(optchar := Single_opt))
          else build_map_loop options (pos + 2) (m(optchar := Arg_required))
        else Inl Invalid_option_string
      else Inr m)"
  by auto
termination by (relation "measure (\<lambda>(options, pos, m). length options - pos)") auto

declare build_map_loop.simps [simp del]

definition build_option_map :: "string \<Rightarrow> options_error + option_map" where
  "build_option_map options = build_map_loop options 0 (\<lambda>_. Not_defined)"

section \<open>Parsed options\<close>

record opt =
  get_option :: char
  argument :: "string option"

datatype option_error_kind = Unexpected | Missing

record option_error =
  err_option :: char
  err_kind :: option_error_kind

type_synonym option_type = "option_error + opt"

abbreviation unexpected_opt :: "char \<Rightarrow> option_type" where
  "unexpected_opt c \<equiv> Inl \<lparr>err_option = c, err_kind = Unexpected\<rparr>"

abbreviation missing_arg :: "char \<Rightarrow> option_type" where
  "missing_arg c \<equiv> Inl \<lparr>err_option = c, err_kind = Missing\<rparr>"

abbreviation plain_opt :: "char \<Rightarrow> option_type" where
  "plain_opt c \<equiv> Inr \<lparr>get_option = c, argument = None\<rparr>"

abbreviation arg_opt :: "char \<Rightarrow> string \<Rightarrow> option_type" where
  "arg_opt c a \<equiv> Inr \<lparr>get_option = c, argument = Some a\<rparr>"

text \<open>The inner loop over the characters of one argument: \<open>rest\<close> are the
  arguments behind it, one of which an option may take as its operand.\<close>

function parse_cluster :: "option_map \<Rightarrow> string \<Rightarrow> nat \<Rightarrow> string list \<Rightarrow> option_type list \<Rightarrow>
    option_type list \<times> string list" where
  "parse_cluster m arg char_pos rest out =
     (let optchar = str_char arg char_pos in
      if optchar = CHR 0x00 then (out, rest)
      else if is_valid_opt optchar then
        (case m optchar of
           Not_defined \<Rightarrow> parse_cluster m arg (char_pos + 1) rest (out @ [unexpected_opt optchar])
         | Single_opt \<Rightarrow> parse_cluster m arg (char_pos + 1) rest (out @ [plain_opt optchar])
         | Arg_required \<Rightarrow>
             if char_pos + 1 < length arg then (out @ [arg_opt optchar (drop (char_pos + 1) arg)], rest)
             else (case rest of
                 [] \<Rightarrow> (out @ [missing_arg optchar], rest)
               | a # rest' \<Rightarrow> parse_cluster m arg (char_pos + 1) rest' (out @ [arg_opt optchar a])))
      else parse_cluster m arg (char_pos + 1) rest (out @ [unexpected_opt optchar]))"
  by auto
termination
  by (relation "measure (\<lambda>(m, arg, char_pos, rest, out). length arg - char_pos)")
    (auto simp: str_char_def split: if_splits)

declare parse_cluster.simps [simp del]

lemma parse_cluster_rest: "length (snd (parse_cluster m arg char_pos rest out)) \<le> length rest"
proof (induction m arg char_pos rest out rule: parse_cluster.induct)
  case (1 m arg char_pos rest out)
  then show ?case
    by (subst parse_cluster.simps) (auto simp: Let_def split: option_arg.split list.split intro: le_SucI)
qed

function parse_args :: "option_map \<Rightarrow> string list \<Rightarrow> option_type list \<Rightarrow> option_type list \<times> string list" where
  "parse_args m [] out = (out, [])"
| "parse_args m (arg # rest) out =
     (if length arg > 0 \<and> arg ! 0 = CHR ''-'' then
        if length arg = 1 then (out, arg # rest)
        else if length arg = 2 \<and> arg ! 1 = CHR ''-'' then (out, rest)
        else let (out', rest') = parse_cluster m arg 1 rest out in parse_args m rest' out'
      else (out, arg # rest))"
  by pat_completeness auto
termination
proof (relation "measure (\<lambda>(m, args, out). length args)", simp, goal_cases)
  case (1 m arg rest out p out' rest')
  have "rest' = snd (parse_cluster m arg 1 rest out)" using 1(4,5) by (metis snd_conv)
  then show ?case using parse_cluster_rest [of m arg 1 rest out] by (simp add: le_imp_less_Suc)
qed

declare parse_args.simps(2) [simp del]

definition parse_options :: "string list \<Rightarrow> string \<Rightarrow> options_error + (option_type list \<times> string list)" where
  "parse_options args options = (case build_option_map options of
     Inl e \<Rightarrow> Inl e | Inr m \<Rightarrow> Inr (parse_args m args []))"

section \<open>The options object\<close>

record options =
  o_prog_name :: string
  o_args :: "option_type list"
  o_user_args :: "string list"
  o_options :: string
  o_local_prog_name :: string
  o_local_args :: "string list"

definition options_empty :: "string \<Rightarrow> options" where
  "options_empty opts = \<lparr>o_prog_name = [], o_args = [], o_user_args = [], o_options = opts,
     o_local_prog_name = [], o_local_args = []\<rparr>"

definition with_parse :: "string list \<Rightarrow> options \<Rightarrow> options_error + options" where
  "with_parse args o1 = (case parse_options args (o_options o1) of
     Inl e \<Rightarrow> Inl e | Inr (out, user) \<Rightarrow> Inr (o1\<lparr>o_args := out, o_user_args := user\<rparr>))"

text \<open>From \<open>main\<close>: the elements of \<open>argv\<close> may be null pointers.\<close>

definition options_main :: "string option list \<Rightarrow> string \<Rightarrow> options_error + options" where
  "options_main argv opts =
     (let null = case_option [] id in
      if argv = [] then Inr (options_empty opts)
      else let o1 = (options_empty opts)\<lparr>o_prog_name := null (hd argv)\<rparr> in
        if length argv = 1 then Inr o1 else with_parse (map null (tl argv)) o1)"

definition options_owning :: "string \<Rightarrow> string list \<Rightarrow> string \<Rightarrow> options_error + options" where
  "options_owning prog argv opts = with_parse argv ((options_empty opts)\<lparr>o_prog_name := prog,
     o_local_prog_name := prog, o_local_args := argv\<rparr>)"

definition options_views :: "string \<Rightarrow> string list \<Rightarrow> string \<Rightarrow> options_error + options" where
  "options_views prog argv opts = with_parse argv ((options_empty opts)\<lparr>o_prog_name := prog\<rparr>)"

definition options_copy :: "options \<Rightarrow> options_error + options" where
  "options_copy other =
     (let o1 = options_empty [];
          o2 = (if o_local_prog_name other = [] then o1\<lparr>o_prog_name := o_prog_name other\<rparr>
                else o1\<lparr>o_local_prog_name := o_local_prog_name other, o_prog_name := o_local_prog_name other\<rparr>);
          o3 = o2\<lparr>o_options := o_options other\<rparr> in
      if o_local_args other = [] then Inr (o3\<lparr>o_args := o_args other, o_user_args := o_user_args other\<rparr>)
      else with_parse (o_local_args other) (o3\<lparr>o_local_args := o_local_args other\<rparr>))"

definition print_error :: "option_error \<Rightarrow> string" where
  "print_error err = (case err_kind err of
     Missing \<Rightarrow> ''Error: Option -'' @ [err_option err] @ '' requires an operand''
   | Unexpected \<Rightarrow> ''Error: Unknown option -'' @ [err_option err])"

section \<open>What the parser accepts and produces\<close>

lemma valid_opt_char: "is_valid_opt c \<Longrightarrow> c \<noteq> CHR 0x00 \<and> c \<noteq> CHR '':'' \<and> c \<noteq> CHR ''-''"
  by (auto simp: is_valid_opt_def is_alnum_def Let_def split: if_splits)

text \<open>A result is sound for an option map when it respects what the map says of the character.\<close>

definition sound_result :: "option_map \<Rightarrow> option_type \<Rightarrow> bool" where
  "sound_result m r = (case r of
     Inr o1 \<Rightarrow> is_valid_opt (get_option o1) \<and>
       m (get_option o1) = (if argument o1 = None then Single_opt else Arg_required)
   | Inl e \<Rightarrow> (case err_kind e of
       Unexpected \<Rightarrow> \<not> (is_valid_opt (err_option e) \<and> m (err_option e) \<noteq> Not_defined)
     | Missing \<Rightarrow> is_valid_opt (err_option e) \<and> m (err_option e) = Arg_required))"

text \<open>From \<open>(out, rest)\<close> to \<open>(out', rest')\<close>: sound results are appended, arguments are used up
  from the front, and an operand is missing only when there is no argument left.\<close>

definition adds :: "option_map \<Rightarrow> option_type list \<times> string list \<Rightarrow> option_type list \<times> string list \<Rightarrow> bool" where
  "adds m s s' \<longleftrightarrow> (\<exists>new used. fst s' = fst s @ new \<and> snd s = used @ snd s' \<and>
     (\<forall>r \<in> set new. sound_result m r) \<and> ((\<exists>c. missing_arg c \<in> set new) \<longrightarrow> snd s' = []))"

lemma adds_refl [simp]: "adds m s s"
  by (simp add: adds_def)

lemma adds_trans: "adds m s s1 \<Longrightarrow> adds m s1 s2 \<Longrightarrow> adds m s s2"
  unfolding adds_def by (elim exE conjE, rule_tac x = "new @ newa" in exI, rule_tac x = "used @ useda" in exI) auto

lemma adds_one: "sound_result m r \<Longrightarrow> ((\<exists>c. r = missing_arg c) \<longrightarrow> rest = []) \<Longrightarrow> adds m (out, used @ rest) (out @ [r], rest)"
  unfolding adds_def by (rule exI [of _ "[r]"], rule exI [of _ used]) auto

lemma adds_step: "adds m (out @ [r], rest) s \<Longrightarrow> sound_result m r \<Longrightarrow> (\<forall>c. r \<noteq> missing_arg c) \<Longrightarrow> adds m (out, used @ rest) s"
  by (rule adds_trans [OF adds_one]) auto

lemma parse_cluster_sound: "adds m (out, rest) (parse_cluster m arg pos rest out)"
proof (induction m arg pos rest out rule: parse_cluster.induct)
  case (1 m arg pos rest out)
  let ?c = "str_char arg pos"
  consider "?c = CHR 0x00" | "?c \<noteq> CHR 0x00" "is_valid_opt ?c" "m ?c = Not_defined"
    | "?c \<noteq> CHR 0x00" "is_valid_opt ?c" "m ?c = Single_opt"
    | "?c \<noteq> CHR 0x00" "is_valid_opt ?c" "m ?c = Arg_required"
    | "?c \<noteq> CHR 0x00" "\<not> is_valid_opt ?c"
    by (cases "m ?c") blast+
  then show ?case
  proof cases
    case 1
    then show ?thesis by (subst parse_cluster.simps) simp
  next
    case 2
    then show ?thesis using adds_step [OF "1.IH"(1) [OF refl 2], of "[]"]
      by (subst parse_cluster.simps) (simp add: Let_def sound_result_def)
  next
    case 3
    then show ?thesis using adds_step [OF "1.IH"(2) [OF refl 3], of "[]"]
      by (subst parse_cluster.simps) (simp add: Let_def sound_result_def)
  next
    case 4
    have 5: "adds m (out, rest) (parse_cluster m arg (pos + 1) rest' (out @ [arg_opt ?c a]))"
      if "\<not> pos + 1 < length arg" "rest = a # rest'" for a rest'
      using adds_step [OF "1.IH"(3) [OF refl 4 that], of "[a]"] that 4 by (simp add: sound_result_def)
    show ?thesis
      using 4 5 adds_one [of m _ rest out "[]"]
      by (subst parse_cluster.simps) (auto simp: Let_def sound_result_def split: list.split)
  next
    case 5
    then show ?thesis using adds_step [OF "1.IH"(4) [OF refl 5], of "[]"]
      by (subst parse_cluster.simps) (simp add: Let_def sound_result_def)
  qed
qed

lemma adds_used: "adds m (out, rest) s \<Longrightarrow> adds m (out, used @ rest) s"
  unfolding adds_def by (elim exE conjE, rule_tac x = new in exI, rule_tac x = "used @ useda" in exI) auto

lemma parse_args_sound: "adds m (out, args) (parse_args m args out)"
proof (induction m args out rule: parse_args.induct)
  case (2 m arg rest out)
  obtain out' rest' where p: "parse_cluster m arg 1 rest out = (out', rest')"
    by (cases "parse_cluster m arg 1 rest out")
  have "adds m (out, [arg] @ rest) (out', rest')"
    using adds_used [OF parse_cluster_sound [of m out rest arg 1], of "[arg]"] p by simp
  then show ?case
    using 2 p adds_trans [of m "(out, arg # rest)" "(out', rest')"] adds_used [of m out rest "(out, rest)" "[arg]"]
    by (subst parse_args.simps) (auto simp: p)
qed simp

text \<open>Whatever the arguments are, every option that is reported is in the option string with the
  arity it is reported with, every error names a character that is not an option or whose operand
  is missing, a missing operand is reported only at the very end, and the program's own arguments
  are a suffix of the command line, so none is lost or reordered.\<close>

theorem parse_options_sound:
  assumes "parse_options args opts = Inr (out, user)"
  shows "\<exists>m. build_option_map opts = Inr m \<and> (\<forall>r \<in> set out. sound_result m r) \<and>
    ((\<exists>c. missing_arg c \<in> set out) \<longrightarrow> user = []) \<and> (\<exists>used. args = used @ user)"
proof -
  obtain m where m: "build_option_map opts = Inr m" and p: "parse_args m args [] = (out, user)"
    using assms by (auto simp: parse_options_def split: sum.splits)
  with parse_args_sound [of m "[]" args] show ?thesis by (auto simp: adds_def)
qed

theorem parse_options_sound_witness:
  "\<exists>m. build_option_map ''ab:'' = Inr m \<and>
    (\<forall>r \<in> {plain_opt CHR ''a'', unexpected_opt CHR ''x'', missing_arg CHR ''b''}. sound_result m r)"
  using parse_options_sound [of "[''-ax'', ''-b'']" "''ab:''"
      "[plain_opt CHR ''a'', unexpected_opt CHR ''x'', missing_arg CHR ''b'']" "[]"]
  by (simp add: parse_options_def build_option_map_def build_map_loop.simps is_valid_opt_def is_alnum_def
      parse_args.simps parse_cluster.simps str_char_def)

section \<open>Command lines that mean what they say\<close>

text \<open>How options are written: a word is some options without operand and possibly
  one with an operand, behind it in the same argument or in the next one.\<close>

datatype oword = OWord "char list" "(char \<times> string \<times> bool) option"

fun word_args :: "oword \<Rightarrow> string list" where
  "word_args (OWord cs None) = [CHR ''-'' # cs]"
| "word_args (OWord cs (Some (c, a, joined))) =
     (if joined \<and> a \<noteq> [] then [CHR ''-'' # cs @ c # a] else [CHR ''-'' # cs @ [c], a])"

fun word_opts :: "oword \<Rightarrow> option_type list" where
  "word_opts (OWord cs None) = map plain_opt cs"
| "word_opts (OWord cs (Some (c, a, joined))) = map plain_opt cs @ [arg_opt c a]"

fun word_ok :: "option_map \<Rightarrow> oword \<Rightarrow> bool" where
  "word_ok m (OWord cs oa) \<longleftrightarrow> (cs \<noteq> [] \<or> oa \<noteq> None) \<and>
     (\<forall>c \<in> set cs. is_valid_opt c \<and> m c = Single_opt) \<and>
     (\<forall>c a j. oa = Some (c, a, j) \<longrightarrow> is_valid_opt c \<and> m c = Arg_required)"

lemma parse_cluster_plain:
  "\<forall>c \<in> set cs. is_valid_opt c \<and> m c = Single_opt \<Longrightarrow>
   parse_cluster m (pre @ cs @ post) (length pre) rest out =
   parse_cluster m (pre @ cs @ post) (length pre + length cs) rest (out @ map plain_opt cs)"
proof (induction cs arbitrary: pre out)
  case (Cons c cs)
  then have c: "str_char (pre @ (c # cs) @ post) (length pre) = c" "is_valid_opt c" "m c = Single_opt"
    by (simp_all add: str_char_def nth_append)
  have "parse_cluster m (pre @ (c # cs) @ post) (length pre) rest out =
      parse_cluster m ((pre @ [c]) @ cs @ post) (length (pre @ [c])) rest (out @ [plain_opt c])"
    by (subst parse_cluster.simps) (use c valid_opt_char [OF c(2)] in simp)
  also have "\<dots> = parse_cluster m ((pre @ [c]) @ cs @ post) (length (pre @ [c]) + length cs) rest
      ((out @ [plain_opt c]) @ map plain_opt cs)"
    using Cons.prems by (intro Cons.IH) simp
  finally show ?case by simp
qed simp

lemma parse_cluster_end: "parse_cluster m arg (length arg) rest out = (out, rest)"
  by (subst parse_cluster.simps) (simp add: str_char_def)

lemma parse_word:
  assumes "word_ok m w"
  shows "parse_args m (word_args w @ rest) out = parse_args m rest (out @ word_opts w)"
proof (cases w)
  case (OWord cs oa)
  have plain: "parse_cluster m (CHR ''-'' # cs @ post) 1 r out =
      parse_cluster m (CHR ''-'' # cs @ post) (1 + length cs) r (out @ map plain_opt cs)" for post r
    using parse_cluster_plain [of cs m "''-''" post r out] assms OWord by simp
  have dash: "\<forall>c \<in> set cs. c \<noteq> CHR ''-''" using assms OWord valid_opt_char by auto
  show ?thesis
  proof (cases oa)
    case None
    then have "cs \<noteq> []" "cs ! 0 \<noteq> CHR ''-''" using assms OWord dash by (auto simp: hd_conv_nth [symmetric])
    moreover have "parse_cluster m (CHR ''-'' # cs) 1 rest out = (out @ map plain_opt cs, rest)"
      using plain [of "[]" rest] parse_cluster_end [of m "CHR ''-'' # cs"] by simp
    ultimately show ?thesis by (simp add: OWord None parse_args.simps(2))
  next
    case (Some caj)
    obtain c a j where caj: "caj = (c, a, j)" by (cases caj)
    have c: "is_valid_opt c" "m c = Arg_required" using assms OWord Some caj by auto
    note nc = valid_opt_char [OF c(1)]
    have nd: "(cs @ c # post) ! 0 \<noteq> CHR ''-''" for post
      using nc dash by (cases cs) auto
    have at: "str_char (CHR ''-'' # cs @ c # post) (1 + length cs) = c" for post
      by (simp add: str_char_def nth_append)
    show ?thesis
    proof (cases "j \<and> a \<noteq> []")
      case True
      have "parse_cluster m (CHR ''-'' # cs @ c # a) 1 rest out = (out @ map plain_opt cs @ [arg_opt c a], rest)"
        unfolding plain by (subst parse_cluster.simps) (use at [of a] c nc True in simp)
      then show ?thesis using nd [of a] True by (simp add: OWord Some caj parse_args.simps(2))
    next
      case False
      have "parse_cluster m (CHR ''-'' # cs @ [c]) 1 (a # rest) out =
          parse_cluster m (CHR ''-'' # cs @ [c]) (length (CHR ''-'' # cs @ [c])) rest (out @ map plain_opt cs @ [arg_opt c a])"
        unfolding plain by (subst parse_cluster.simps) (use at [of "[]"] c nc in simp)
      then have "parse_cluster m (CHR ''-'' # cs @ [c]) 1 (a # rest) out = (out @ map plain_opt cs @ [arg_opt c a], rest)"
        unfolding parse_cluster_end .
      moreover have "word_args w = [CHR ''-'' # cs @ [c], a]" using False by (auto simp: OWord Some caj)
      ultimately show ?thesis using nd [of "[]"] by (simp add: OWord Some caj parse_args.simps(2))
    qed
  qed
qed

lemma parse_words:
  "\<forall>w \<in> set ws. word_ok m w \<Longrightarrow>
   parse_args m (concat (map word_args ws) @ rest) out = parse_args m rest (out @ concat (map word_opts ws))"
  by (induction ws arbitrary: out) (simp_all add: parse_word)

text \<open>The end of the options: \<open>--\<close>, or arguments that do not start with a dash, or a dash alone.\<close>

definition plain_end :: "string list \<Rightarrow> bool" where
  "plain_end user \<longleftrightarrow> (case user of [] \<Rightarrow> True | a # _ \<Rightarrow> a = [] \<or> hd a \<noteq> CHR ''-'' \<or> a = ''-'')"

lemma parse_end: "parse_args m (''--'' # user) out = (out, user)" "plain_end user \<Longrightarrow> parse_args m user out = (out, user)"
  by (auto simp: parse_args.simps(2) plain_end_def hd_conv_nth split: list.splits)

fun optstring :: "(char \<times> bool) list \<Rightarrow> string" where
  "optstring [] = []"
| "optstring ((c, needs) # cs) = (if needs then [c, CHR '':''] else [c]) @ optstring cs"

definition opt_map_of :: "(char \<times> bool) list \<Rightarrow> option_map \<Rightarrow> option_map" where
  "opt_map_of cs m = foldl (\<lambda>m (c, needs). m(c := if needs then Arg_required else Single_opt)) m cs"

lemma build_map_optstring:
  "\<forall>c \<in> fst ` set cs. is_valid_opt c \<Longrightarrow>
   build_map_loop (pre @ optstring cs) (length pre) m = Inr (opt_map_of cs m)"
proof (induction cs arbitrary: pre m)
  case Nil
  then show ?case by (subst build_map_loop.simps) (simp add: opt_map_of_def)
next
  case (Cons cn cs)
  obtain c needs where cn: "cn = (c, needs)" by (cases cn)
  have c: "is_valid_opt c" using Cons.prems cn by simp
  note nc = valid_opt_char [OF c]
  show ?case
  proof (cases needs)
    case True
    have "build_map_loop (pre @ optstring (cn # cs)) (length pre) m =
        build_map_loop ((pre @ [c, CHR '':'']) @ optstring cs) (length (pre @ [c, CHR '':''])) (m(c := Arg_required))"
      by (subst build_map_loop.simps) (use c nc True cn in \<open>simp add: nth_append\<close>)
    also have "\<dots> = Inr (opt_map_of cs (m(c := Arg_required)))"
      by (rule Cons.IH) (use Cons.prems in simp)
    finally show ?thesis using True cn by (simp add: opt_map_of_def)
  next
    case False
    have "(optstring cs ! 0) \<noteq> CHR '':''" if "optstring cs \<noteq> []"
      using that Cons.prems by (cases cs) (auto dest: valid_opt_char split: if_splits)
    then have "build_map_loop (pre @ optstring (cn # cs)) (length pre) m =
        build_map_loop ((pre @ [c]) @ optstring cs) (length (pre @ [c])) (m(c := Single_opt))"
      by (subst build_map_loop.simps) (use c nc False cn in \<open>auto simp add: nth_append\<close>)
    also have "\<dots> = Inr (opt_map_of cs (m(c := Single_opt)))"
      by (rule Cons.IH) (use Cons.prems in simp)
    finally show ?thesis using False cn by (simp add: opt_map_of_def)
  qed
qed

text \<open>C40: Options round trip: for an option string that lists characters with and without operand,
  a command line spelled with any grouping of options into words, operands joined or separate, and
  ended by two dashes or by the first plain argument, is parsed into exactly those options, in
  their order, and exactly the user's arguments.\<close>

theorem parse_options_roundtrip:
  assumes "\<forall>c \<in> fst ` set cs. is_valid_opt c"
    and "\<forall>w \<in> set ws. word_ok (opt_map_of cs (\<lambda>_. Not_defined)) w"
  shows "parse_options (concat (map word_args ws) @ ''--'' # user) (optstring cs) =
      Inr (concat (map word_opts ws), user) \<and>
    (plain_end user \<longrightarrow> parse_options (concat (map word_args ws) @ user) (optstring cs) =
      Inr (concat (map word_opts ws), user))"
  using build_map_optstring [OF assms(1), of "[]" "\<lambda>_. Not_defined"] parse_words [OF assms(2)] parse_end
  by (simp_all add: parse_options_def build_option_map_def)

theorem parse_options_roundtrip_witness:
  "parse_options [''-vn'', ''10'', ''-ofile'', ''--'', ''-x''] ''vn:o:'' =
     Inr ([plain_opt CHR ''v'', arg_opt CHR ''n'' ''10'', arg_opt CHR ''o'' ''file''], [''-x''])"
  using parse_options_roundtrip [of "[(CHR ''v'', False), (CHR ''n'', True), (CHR ''o'', True)]"
      "[OWord ''v'' (Some (CHR ''n'', ''10'', False)), OWord [] (Some (CHR ''o'', ''file'', True))]" "[''-x'']"]
  by (simp add: is_valid_opt_def is_alnum_def opt_map_of_def)

lemma options_copy_parsed:
  assumes "with_parse args o1 = Inr o2" "o_args o1 = []" "o_user_args o1 = []"
    and "o_local_prog_name o1 = [] \<or> o_local_prog_name o1 = o_prog_name o1"
    and "o_local_args o1 = [] \<or> o_local_args o1 = args"
  shows "options_copy o2 = Inr o2"
  using assms by (cases o1)
    (auto simp: options_copy_def with_parse_def options_empty_def Let_def split: sum.splits)

text \<open>Copying an options object that a constructor built gives an object with the same program
  name, options, errors and arguments, although the copy of an owning object parses again.\<close>

theorem options_copy_same:
  "(options_owning prog argv opts = Inr o1 \<longrightarrow> options_copy o1 = Inr o1) \<and>
   (options_views prog argv opts = Inr o2 \<longrightarrow> options_copy o2 = Inr o2) \<and>
   (options_main av opts = Inr o3 \<longrightarrow> options_copy o3 = Inr o3)"
proof (intro conjI impI)
  assume "options_owning prog argv opts = Inr o1"
  then show "options_copy o1 = Inr o1"
    unfolding options_owning_def by (rule options_copy_parsed) (simp_all add: options_empty_def)
next
  assume "options_views prog argv opts = Inr o2"
  then show "options_copy o2 = Inr o2"
    unfolding options_views_def by (rule options_copy_parsed) (simp_all add: options_empty_def)
next
  assume main: "options_main av opts = Inr o3"
  show "options_copy o3 = Inr o3"
  proof (cases "av = [] \<or> length av = 1")
    case True
    with main show ?thesis
      by (auto simp: options_main_def Let_def options_empty_def options_copy_def split: if_splits)
  next
    case False
    with main have "with_parse (map (case_option [] id) (tl av))
        ((options_empty opts)\<lparr>o_prog_name := case_option [] id (hd av)\<rparr>) = Inr o3"
      by (simp add: options_main_def Let_def)
    then show ?thesis by (rule options_copy_parsed) (simp_all add: options_empty_def)
  qed
qed

theorem options_copy_same_witness:
  "options_copy \<lparr>o_prog_name = ''p'', o_args = [plain_opt CHR ''v''], o_user_args = [''x''], o_options = ''v'',
     o_local_prog_name = ''p'', o_local_args = [''-v'', ''x'']\<rparr> =
   Inr \<lparr>o_prog_name = ''p'', o_args = [plain_opt CHR ''v''], o_user_args = [''x''], o_options = ''v'',
     o_local_prog_name = ''p'', o_local_args = [''-v'', ''x'']\<rparr>"
proof -
  have "options_owning ''p'' [''-v'', ''x''] ''v'' = Inr \<lparr>o_prog_name = ''p'', o_args = [plain_opt CHR ''v''],
     o_user_args = [''x''], o_options = ''v'', o_local_prog_name = ''p'', o_local_args = [''-v'', ''x'']\<rparr>"
    by (simp add: options_owning_def with_parse_def options_empty_def parse_options_def build_option_map_def
        build_map_loop.simps is_valid_opt_def is_alnum_def parse_args.simps parse_cluster.simps str_char_def)
  then show ?thesis using options_copy_same by blast
qed

end
