(* ===== verification/Rcu.thy ===== *)
theory Rcu
  imports Prelude "HOL-Library.Multiset"
begin

text \<open>
  The read-copy-update pointer of \<open>libubench\<close> (\<open>atomics/rcu.h\<close>), one step
  per atomic operation, so that every interleaving of readers, of the writer
  that holds the mutex and of the holders of \<open>rcu_ptr\<close> is a sequence of steps.
  Readers in the middle of \<open>read()\<close> and the handles are anonymous, so they are
  kept in multisets.  Objects are numbered; \<open>freed\<close> are the deleted ones and
  \<open>dying\<close> those whose last handle is about to delete them.  A run in which a
  32-bit counter wraps is left out (the guards below \<open>max_count\<close>): it takes
  \<open>2\<^sup>32\<close> handles of one object.
\<close>

section \<open>State\<close>

text \<open>Where a reader is in \<open>read()\<close>.\<close>

datatype rpc =
    R_Begin               \<comment> \<open>before the load of the index\<close>
  | R_Index nat           \<comment> \<open>the index is loaded\<close>
  | R_Count nat nat       \<comment> \<open>and the count of that slot\<close>
  | R_Taken nat           \<comment> \<open>the exchange succeeded, before the load of the pointer\<close>

text \<open>Where the writer is in \<open>update()\<close>, with the new object until the slot has it.\<close>

datatype wpc =
    W_Idle
  | W_Scan nat nat nat    \<comment> \<open>object, \<open>i_start\<close>, \<open>i\<close>: looking for a free slot\<close>
  | W_Found nat nat nat   \<comment> \<open>slot \<open>i\<close> has count 0\<close>
  | W_Counted nat nat nat \<comment> \<open>its count is 1, its pointer is still the old one\<close>
  | W_Pointer nat nat     \<comment> \<open>its pointer is set\<close>
  | W_Indexed nat         \<comment> \<open>the index is moved, before the decrement at \<open>i_start\<close>\<close>
  | W_Last nat            \<comment> \<open>the count went to 0, before the delete\<close>

record rcu =
  r_index :: nat
  r_count :: "nat \<Rightarrow> nat"
  r_ptr :: "nat \<Rightarrow> nat"
  r_readers :: "rpc multiset"
  r_handles :: "(nat \<times> nat) multiset" \<comment> \<open>slot of the count and object\<close>
  r_writer :: wpc
  r_made :: "nat set"
  r_dying :: "nat multiset"
  r_freed :: "nat set"

definition max_count :: nat where
  "max_count = 2 ^ 32 - 1"

definition rcu_init :: "rcu \<Rightarrow> bool" where
  "rcu_init s \<longleftrightarrow> (\<exists>p. s = \<lparr>r_index = 0, r_count = (\<lambda>_. 0)(0 := 1), r_ptr = (\<lambda>_. 0)(0 := p),
     r_readers = {#}, r_handles = {#}, r_writer = W_Idle, r_made = {p}, r_dying = {#}, r_freed = {}\<rparr>)"

section \<open>Steps\<close>

text \<open>The window in which a slot has count 1 and the pointer of its previous object.\<close>

definition in_window :: "rcu \<Rightarrow> nat \<Rightarrow> bool" where
  "in_window s i \<longleftrightarrow> (\<exists>p i0. r_writer s = W_Counted p i0 i)"

inductive reader_step :: "rcu \<Rightarrow> rcu \<Rightarrow> bool" where
  begin_read: "reader_step s (s\<lparr>r_readers := add_mset R_Begin (r_readers s)\<rparr>)"
| load_index: "r_readers s = add_mset R_Begin rs \<Longrightarrow>
    reader_step s (s\<lparr>r_readers := add_mset (R_Index (r_index s)) rs\<rparr>)"
| load_count: "r_readers s = add_mset (R_Index i) rs \<Longrightarrow>
    reader_step s (s\<lparr>r_readers := add_mset (R_Count i (r_count s i)) rs\<rparr>)"
| retry: "r_readers s = add_mset (R_Count i c) rs \<Longrightarrow> c = 0 \<or> c \<noteq> r_count s i \<Longrightarrow>
    reader_step s (s\<lparr>r_readers := add_mset R_Begin rs\<rparr>)"
| exchange: "r_readers s = add_mset (R_Count i c) rs \<Longrightarrow> c \<noteq> 0 \<Longrightarrow> c = r_count s i \<Longrightarrow> c < max_count \<Longrightarrow>
    reader_step s (s\<lparr>r_readers := add_mset (R_Taken i) rs, r_count := (r_count s)(i := c + 1)\<rparr>)"
| load_ptr: "r_readers s = add_mset (R_Taken i) rs \<Longrightarrow>
    reader_step s (s\<lparr>r_readers := rs, r_handles := add_mset (i, r_ptr s i) (r_handles s)\<rparr>)"

text \<open>Copying and freeing an \<open>rcu_ptr\<close>; assignment, move and swap are made of
  these, and a handle without a count is not affected by them.\<close>

inductive handle_step :: "rcu \<Rightarrow> rcu \<Rightarrow> bool" where
  copy: "r_handles s = add_mset (i, p) hs \<Longrightarrow> r_count s i < max_count \<Longrightarrow>
    handle_step s (s\<lparr>r_handles := add_mset (i, p) (r_handles s), r_count := (r_count s)(i := r_count s i + 1)\<rparr>)"
| free: "r_handles s = add_mset (i, p) hs \<Longrightarrow> r_count s i > 1 \<Longrightarrow>
    handle_step s (s\<lparr>r_handles := hs, r_count := (r_count s)(i := r_count s i - 1)\<rparr>)"
| free_last: "r_handles s = add_mset (i, p) hs \<Longrightarrow> r_count s i = 1 \<Longrightarrow>
    handle_step s (s\<lparr>r_handles := hs, r_count := (r_count s)(i := 0), r_dying := add_mset p (r_dying s)\<rparr>)"
| delete: "r_dying s = add_mset p ds \<Longrightarrow>
    handle_step s (s\<lparr>r_dying := ds, r_freed := insert p (r_freed s)\<rparr>)"

inductive writer_step :: "nat \<Rightarrow> rcu \<Rightarrow> rcu \<Rightarrow> bool" for n where
  lock: "r_writer s = W_Idle \<Longrightarrow> p \<notin> r_made s \<Longrightarrow>
    writer_step n s (s\<lparr>r_writer := W_Scan p (r_index s) (r_index s), r_made := insert p (r_made s)\<rparr>)"
| no_slot: "r_writer s = W_Scan p i0 i \<Longrightarrow> (i + 1) mod n = i0 \<Longrightarrow>
    writer_step n s (s\<lparr>r_writer := W_Idle\<rparr>)"
| busy: "r_writer s = W_Scan p i0 i \<Longrightarrow> j = (i + 1) mod n \<Longrightarrow> j \<noteq> i0 \<Longrightarrow> r_count s j \<noteq> 0 \<Longrightarrow>
    writer_step n s (s\<lparr>r_writer := W_Scan p i0 j\<rparr>)"
| found: "r_writer s = W_Scan p i0 i \<Longrightarrow> j = (i + 1) mod n \<Longrightarrow> j \<noteq> i0 \<Longrightarrow> r_count s j = 0 \<Longrightarrow>
    writer_step n s (s\<lparr>r_writer := W_Found p i0 j\<rparr>)"
| store_count: "r_writer s = W_Found p i0 i \<Longrightarrow>
    writer_step n s (s\<lparr>r_writer := W_Counted p i0 i, r_count := (r_count s)(i := 1)\<rparr>)"
| store_ptr: "r_writer s = W_Counted p i0 i \<Longrightarrow>
    writer_step n s (s\<lparr>r_writer := W_Pointer i0 i, r_ptr := (r_ptr s)(i := p)\<rparr>)"
| store_index: "r_writer s = W_Pointer i0 i \<Longrightarrow>
    writer_step n s (s\<lparr>r_writer := W_Indexed i0, r_index := i\<rparr>)"
| release: "r_writer s = W_Indexed i0 \<Longrightarrow> r_count s i0 > 1 \<Longrightarrow>
    writer_step n s (s\<lparr>r_writer := W_Idle, r_count := (r_count s)(i0 := r_count s i0 - 1)\<rparr>)"
| release_last: "r_writer s = W_Indexed i0 \<Longrightarrow> r_count s i0 = 1 \<Longrightarrow>
    writer_step n s (s\<lparr>r_writer := W_Last i0, r_count := (r_count s)(i0 := 0)\<rparr>)"
| delete_last: "r_writer s = W_Last i0 \<Longrightarrow>
    writer_step n s (s\<lparr>r_writer := W_Idle, r_freed := insert (r_ptr s i0) (r_freed s)\<rparr>)"

inductive_cases reader_stepE: "reader_step s t"
inductive_cases handle_stepE: "handle_step s t"
inductive_cases writer_stepE: "writer_step n s t"

definition rcu_step :: "nat \<Rightarrow> rcu \<Rightarrow> rcu \<Rightarrow> bool" where
  "rcu_step n s t \<longleftrightarrow> reader_step s t \<or> handle_step s t \<or> writer_step n s t"

text \<open>The same, except that no reader's exchange succeeds on a slot inside the window.\<close>

definition rcu_step_outside :: "nat \<Rightarrow> rcu \<Rightarrow> rcu \<Rightarrow> bool" where
  "rcu_step_outside n s t \<longleftrightarrow> rcu_step n s t \<and>
     (\<forall>i. in_window s i \<longrightarrow> count (r_readers t) (R_Taken i) \<le> count (r_readers s) (R_Taken i))"

section \<open>The reference counts\<close>

text \<open>Who a count stands for: the owner's current slot, the writer's slot, readers
  that have taken the count, and the handles.\<close>

definition owned :: "rcu \<Rightarrow> nat \<Rightarrow> nat" where
  "owned s i = (if i = r_index s then 1 else 0) +
     (case r_writer s of W_Counted _ _ j \<Rightarrow> if i = j then 1 else 0
      | W_Pointer _ j \<Rightarrow> if i = j then 1 else 0
      | W_Indexed j \<Rightarrow> if i = j then 1 else 0 | _ \<Rightarrow> 0)"

definition handles_on :: "(nat \<times> nat) multiset \<Rightarrow> nat \<Rightarrow> nat" where
  "handles_on hs i = size (filter_mset (\<lambda>h. fst h = i) hs)"

definition held :: "rcu \<Rightarrow> nat \<Rightarrow> nat" where
  "held s i = count (r_readers s) (R_Taken i) + handles_on (r_handles s) i"

lemma handles_on_simps [simp]:
  "handles_on {#} i = 0" "handles_on (add_mset h hs) i = (if fst h = i then 1 else 0) + handles_on hs i"
  by (simp_all add: handles_on_def)

lemma handles_on_pos: "(i, p) \<in># hs \<Longrightarrow> 0 < handles_on hs i"
  by (auto simp: handles_on_def dest!: multi_member_split)

definition writer_ok :: "rcu \<Rightarrow> bool" where
  "writer_ok s \<longleftrightarrow> (case r_writer s of
     W_Idle \<Rightarrow> True
   | W_Scan p i0 i \<Rightarrow> i0 = r_index s
   | W_Found p i0 i \<Rightarrow> i0 = r_index s \<and> i \<noteq> i0 \<and> r_count s i = 0
   | W_Counted p i0 i \<Rightarrow> i0 = r_index s \<and> i \<noteq> i0
   | W_Pointer i0 i \<Rightarrow> i0 = r_index s \<and> i \<noteq> i0
   | W_Indexed i0 \<Rightarrow> i0 \<noteq> r_index s
   | W_Last i0 \<Rightarrow> i0 \<noteq> r_index s \<and> r_count s i0 = 0)"

definition counts_ok :: "rcu \<Rightarrow> bool" where
  "counts_ok s \<longleftrightarrow> writer_ok s \<and> (\<forall>i. r_count s i = owned s i + held s i)"

lemma counts_init: "rcu_init s \<Longrightarrow> counts_ok s"
  by (auto simp: rcu_init_def counts_ok_def writer_ok_def owned_def held_def)

lemma counts_okD: "counts_ok s \<Longrightarrow> r_count s i = owned s i + held s i" "counts_ok s \<Longrightarrow> writer_ok s"
  by (simp_all add: counts_ok_def)

text \<open>A step of a reader or a holder moves a count and what it stands for together.\<close>

lemma counts_balance:
  assumes ok: "counts_ok s" and w: "r_writer t = r_writer s" "r_index t = r_index s"
    and bal: "\<And>j. r_count t j + held s j = r_count s j + held t j"
    and zero: "\<And>j. r_count s j = 0 \<Longrightarrow> r_count t j = 0"
  shows "counts_ok t"
proof -
  have "owned t j = owned s j" for j by (simp add: owned_def w)
  then have "r_count t j = owned t j + held t j" for j
    using bal [of j] counts_okD(1) [OF ok, of j] by simp
  moreover have "writer_ok t"
    using counts_okD(2) [OF ok] zero by (auto simp: writer_ok_def w split: wpc.splits)
  ultimately show ?thesis by (simp add: counts_ok_def)
qed

lemma counts_reader: "counts_ok s \<Longrightarrow> reader_step s t \<Longrightarrow> counts_ok t"
  by (erule counts_balance; erule reader_stepE) (auto simp: held_def)

lemma counts_handle: "counts_ok s \<Longrightarrow> handle_step s t \<Longrightarrow> counts_ok t"
proof (rule counts_balance [of s])
  assume ok: "counts_ok s" and st: "handle_step s t"
  show "r_count s j = 0 \<Longrightarrow> r_count t j = 0" for j
    using st counts_okD(1) [OF ok, of j] by (cases rule: handle_step.cases) (auto simp: held_def)
qed (auto elim!: handle_stepE simp: held_def)

lemma counts_writer: "counts_ok s \<Longrightarrow> writer_step n s t \<Longrightarrow> counts_ok t"
  by (erule writer_stepE) (auto simp: counts_ok_def writer_ok_def owned_def held_def split: if_splits)

section \<open>Memory\<close>

text \<open>Slots whose pointer must be an object that is not deleted.\<close>

definition live :: "rcu \<Rightarrow> nat \<Rightarrow> bool" where
  "live s i \<longleftrightarrow> (0 < r_count s i \<and> \<not> in_window s i) \<or> r_writer s = W_Last i"

fun new_object :: "wpc \<Rightarrow> nat option" where
  "new_object (W_Scan p _ _) = Some p"
| "new_object (W_Found p _ _) = Some p"
| "new_object (W_Counted p _ _) = Some p"
| "new_object _ = None"

text \<open>An object is fine when it was made and neither deleted nor about to be.\<close>

definition fine :: "rcu \<Rightarrow> nat \<Rightarrow> bool" where
  "fine s p \<longleftrightarrow> p \<in> r_made s \<and> p \<notin> r_freed s \<and> p \<notin># r_dying s"

definition mem_ok :: "rcu \<Rightarrow> bool" where
  "mem_ok s \<longleftrightarrow>
     (\<forall>i. live s i \<longrightarrow> fine s (r_ptr s i)) \<and>
     (\<forall>i j. live s i \<longrightarrow> live s j \<longrightarrow> r_ptr s i = r_ptr s j \<longrightarrow> i = j) \<and>
     (\<forall>i p. (i, p) \<in># r_handles s \<longrightarrow> r_ptr s i = p) \<and>
     (\<forall>p. p \<in># r_dying s \<longrightarrow> p \<in> r_made s \<and> p \<notin> r_freed s \<and> count (r_dying s) p = 1) \<and>
     r_freed s \<subseteq> r_made s \<and>
     (\<forall>p. new_object (r_writer s) = Some p \<longrightarrow> fine s p \<and> (\<forall>i. live s i \<longrightarrow> r_ptr s i \<noteq> p)) \<and>
     (\<forall>i. in_window s i \<longrightarrow> held s i = 0)"

lemma mem_okD:
  assumes "mem_ok s"
  shows "live s i \<Longrightarrow> fine s (r_ptr s i)"
    and "live s i \<Longrightarrow> live s j \<Longrightarrow> r_ptr s i = r_ptr s j \<Longrightarrow> i = j"
    and "(i, p) \<in># r_handles s \<Longrightarrow> r_ptr s i = p"
    and "p \<in># r_dying s \<Longrightarrow> p \<in> r_made s \<and> p \<notin> r_freed s \<and> count (r_dying s) p = 1"
    and "r_freed s \<subseteq> r_made s"
    and "new_object (r_writer s) = Some p \<Longrightarrow> fine s p \<and> (\<forall>i. live s i \<longrightarrow> r_ptr s i \<noteq> p)"
    and "in_window s i \<Longrightarrow> held s i = 0"
  using assms unfolding mem_ok_def by blast+

lemma mem_okI:
  assumes "\<And>i. live s i \<Longrightarrow> fine s (r_ptr s i)"
    and "\<And>i j. live s i \<Longrightarrow> live s j \<Longrightarrow> r_ptr s i = r_ptr s j \<Longrightarrow> i = j"
    and "\<And>i p. (i, p) \<in># r_handles s \<Longrightarrow> r_ptr s i = p"
    and "\<And>p. p \<in># r_dying s \<Longrightarrow> p \<in> r_made s \<and> p \<notin> r_freed s \<and> count (r_dying s) p = 1"
    and "r_freed s \<subseteq> r_made s"
    and "\<And>p. new_object (r_writer s) = Some p \<Longrightarrow> fine s p \<and> (\<forall>i. live s i \<longrightarrow> r_ptr s i \<noteq> p)"
    and "\<And>i. in_window s i \<Longrightarrow> held s i = 0"
  shows "mem_ok s"
  unfolding mem_ok_def using assms by blast

text \<open>A step that keeps the live slots, the pointers, the writer and the objects.\<close>

lemma mem_keep:
  assumes ok: "mem_ok s" and eq: "r_ptr t = r_ptr s" "r_writer t = r_writer s" "r_made t = r_made s"
      "r_dying t = r_dying s" "r_freed t = r_freed s"
    and c: "\<And>i. 0 < r_count t i \<Longrightarrow> 0 < r_count s i"
    and h: "\<And>i p. (i, p) \<in># r_handles t \<Longrightarrow> r_ptr s i = p"
    and w: "\<And>i. in_window s i \<Longrightarrow> held t i = 0"
  shows "mem_ok t"
proof -
  have l: "live t i \<Longrightarrow> live s i" for i using c eq by (auto simp: live_def in_window_def)
  have f: "fine t p = fine s p" for p by (simp add: fine_def eq)
  have wi: "in_window t i = in_window s i" for i by (simp add: in_window_def eq)
  show ?thesis unfolding mem_ok_def f wi
    using mem_okD [OF ok] l h w by (simp add: eq)
qed

lemma mem_reader:
  assumes "counts_ok s" "mem_ok s" "reader_step s t"
    and "\<forall>i. in_window s i \<longrightarrow> count (r_readers t) (R_Taken i) \<le> count (r_readers s) (R_Taken i)"
  shows "mem_ok t"
  using assms(3)
proof (cases rule: reader_step.cases)
  case (exchange i c rs)
  with assms(4) have "\<not> in_window s i" by auto
  then show ?thesis using exchange mem_okD [OF assms(2)]
    by (intro mem_keep [OF assms(2)]) (auto simp: held_def split: if_splits)
next
  case (load_ptr i rs)
  then have "held s i \<noteq> 0" by (simp add: held_def)
  with mem_okD(7) [OF assms(2)] have "\<not> in_window s i" by metis
  moreover have "held t j = held s j" for j using load_ptr by (simp add: held_def)
  ultimately show ?thesis using load_ptr mem_okD(3,7) [OF assms(2)]
    by (intro mem_keep [OF assms(2)]) (auto split: if_splits)
qed (use mem_okD [OF assms(2)] in \<open>auto intro!: mem_keep [OF assms(2)] simp: held_def\<close>)

lemma window_free: "mem_ok s \<Longrightarrow> (i, p) \<in># r_handles s \<Longrightarrow> \<not> in_window s i"
  using mem_okD(7) [of s i] handles_on_pos [of i p "r_handles s"] by (auto simp: held_def)

lemma handle_live:
  assumes "counts_ok s" "mem_ok s" "(i, p) \<in># r_handles s"
  shows "live s i \<and> r_ptr s i = p"
proof -
  have "0 < r_count s i"
    using counts_okD(1) [OF assms(1), of i] handles_on_pos [OF assms(3)] by (simp add: held_def)
  then show ?thesis using window_free [OF assms(2,3)] mem_okD(3) [OF assms(2,3)] by (simp add: live_def)
qed

lemma mem_handle:
  assumes c: "counts_ok s" and m: "mem_ok s" and "handle_step s t"
  shows "mem_ok t"
  using assms(3)
proof (cases rule: handle_step.cases)
  case (copy i p hs)
  then have i: "(i, p) \<in># r_handles s" by simp
  have "\<not> in_window s i" by (rule window_free [OF m i])
  then show ?thesis using copy mem_okD(3,7) [OF m] counts_okD(1) [OF c, of i]
    by (intro mem_keep [OF m]) (auto simp: held_def split: if_splits)
next
  case (free i p hs)
  then have i: "(i, p) \<in># r_handles s" by simp
  have "\<not> in_window s i" by (rule window_free [OF m i])
  then show ?thesis using free mem_okD(3,7) [OF m]
    by (intro mem_keep [OF m]) (auto simp: held_def split: if_splits)
next
  case (free_last i p hs)
  then have i: "(i, p) \<in># r_handles s" by simp
  have w: "\<not> in_window s i" by (rule window_free [OF m i])
  have li: "live s i" "r_ptr s i = p" using handle_live [OF c m i] by blast+
  have wl: "r_writer s \<noteq> W_Last i"
    using counts_okD(2) [OF c] free_last by (auto simp: writer_ok_def)
  have l: "live t j \<Longrightarrow> live s j \<and> j \<noteq> i" for j
    using free_last wl by (auto simp: live_def in_window_def split: if_splits)
  have pf: "fine s p" using mem_okD(1) [OF m li(1)] li(2) by simp
  have f: "fine t q = (fine s q \<and> q \<noteq> p)" for q using free_last by (auto simp: fine_def)
  have wi: "in_window t j = in_window s j" for j using free_last by (simp add: in_window_def)
  have h: "held t j = (if j = i then held s j - 1 else held s j)" for j using free_last by (simp add: held_def)
  have ne: "live t j \<Longrightarrow> r_ptr s j \<noteq> p" for j using l mem_okD(2) [OF m _ li(1)] li(2) by metis
  have t: "r_ptr t = r_ptr s" "r_writer t = r_writer s" "r_made t = r_made s" "r_freed t = r_freed s"
      "r_dying t = add_mset p (r_dying s)" "\<And>x. x \<in># r_handles t \<Longrightarrow> x \<in># r_handles s"
    using free_last by simp_all
  show ?thesis
  proof (rule mem_okI)
    show "live t j \<Longrightarrow> fine t (r_ptr t j)" for j using mem_okD(1) [OF m] l ne f t(1) by simp
    show "live t j \<Longrightarrow> live t k \<Longrightarrow> r_ptr t j = r_ptr t k \<Longrightarrow> j = k" for j k
      using mem_okD(2) [OF m] l t(1) by simp
    show "(j, q) \<in># r_handles t \<Longrightarrow> r_ptr t j = q" for j q using mem_okD(3) [OF m] t by simp
    show "q \<in># r_dying t \<Longrightarrow> q \<in> r_made t \<and> q \<notin> r_freed t \<and> count (r_dying t) q = 1" for q
      using mem_okD(4) [OF m, of q] pf by (auto simp: t fine_def count_eq_zero_iff)
    show "r_freed t \<subseteq> r_made t" using mem_okD(5) [OF m] by (simp add: t)
    show "new_object (r_writer t) = Some q \<Longrightarrow> fine t q \<and> (\<forall>j. live t j \<longrightarrow> r_ptr t j \<noteq> q)" for q
      using mem_okD(6) [OF m, of q] l li f by (auto simp: t)
    show "in_window t j \<Longrightarrow> held t j = 0" for j using mem_okD(7) [OF m, of j] wi h w by auto
  qed
next
  case (delete p ds)
  have p: "p \<in> r_made s" "p \<notin> r_freed s" "count ds p = 0"
    using mem_okD(4) [OF m, of p] delete by simp_all
  have f: "fine t q = fine s q" if "q \<noteq> p" for q using delete that by (auto simp: fine_def)
  have np: "fine s q \<Longrightarrow> q \<noteq> p" for q using delete by (auto simp: fine_def)
  have wi: "in_window t j = in_window s j" and l: "live t j = live s j" and h: "held t j = held s j" for j
    using delete by (simp_all add: in_window_def live_def held_def)
  have t: "r_ptr t = r_ptr s" "r_writer t = r_writer s" "r_made t = r_made s" "r_freed t = insert p (r_freed s)"
      "r_handles t = r_handles s" "r_dying t = ds" "r_dying s = add_mset p ds"
    using delete by simp_all
  show ?thesis
  proof (rule mem_okI)
    show "live t j \<Longrightarrow> fine t (r_ptr t j)" for j using mem_okD(1) [OF m, of j] l np f by (simp add: t)
    show "live t j \<Longrightarrow> live t k \<Longrightarrow> r_ptr t j = r_ptr t k \<Longrightarrow> j = k" for j k
      using mem_okD(2) [OF m] l t(1) by simp
    show "(j, q) \<in># r_handles t \<Longrightarrow> r_ptr t j = q" for j q using mem_okD(3) [OF m] t by simp
    show "q \<in># r_dying t \<Longrightarrow> q \<in> r_made t \<and> q \<notin> r_freed t \<and> count (r_dying t) q = 1" for q
      using mem_okD(4) [OF m, of q] p by (cases "q = p") (auto simp: t count_eq_zero_iff)
    show "r_freed t \<subseteq> r_made t" using mem_okD(5) [OF m] p by (simp add: t)
    show "new_object (r_writer t) = Some q \<Longrightarrow> fine t q \<and> (\<forall>j. live t j \<longrightarrow> r_ptr t j \<noteq> q)" for q
      using mem_okD(6) [OF m, of q] l np f by (auto simp: t)
    show "in_window t j \<Longrightarrow> held t j = 0" for j using mem_okD(7) [OF m, of j] wi h by simp
  qed
qed

lemma mem_writer:
  assumes c: "counts_ok s" and m: "mem_ok s" and "writer_step n s t"
  shows "mem_ok t"
proof -
  note M = mem_okD [OF m]
  note C = counts_okD [OF c]
  have zero: "r_count s i = 0 \<Longrightarrow> (i, p) \<notin># r_handles s \<and> held s i = 0" for i p
    using C(1) [of i] handles_on_pos [of i p "r_handles s"] by (auto simp: held_def)
  show ?thesis
    using assms(3)
  proof (cases rule: writer_step.cases)
    case (lock p)
    have np: "fine s q \<Longrightarrow> q \<noteq> p" for q using lock by (auto simp: fine_def)
    have l: "live t j = live s j" and f: "fine s q \<Longrightarrow> fine t q" for j q
      using lock by (auto simp: live_def in_window_def fine_def)
    show ?thesis
    proof (rule mem_okI)
      show "new_object (r_writer t) = Some q \<Longrightarrow> fine t q \<and> (\<forall>j. live t j \<longrightarrow> r_ptr t j \<noteq> q)" for q
        using M(1,4,5) l np lock by (auto simp: fine_def)
    qed (use lock M l f in \<open>auto simp: in_window_def\<close>)
  next
    case (no_slot p i0 i)
    then have "live t = live s" "fine t = fine s" by (auto simp: live_def in_window_def fine_def fun_eq_iff)
    with no_slot M show ?thesis by (intro mem_okI) (auto simp: in_window_def)
  next
    case (busy p i0 i j)
    then have "live t = live s" "fine t = fine s" by (auto simp: live_def in_window_def fine_def fun_eq_iff)
    with busy M show ?thesis by (intro mem_okI) (auto simp: in_window_def)
  next
    case (found p i0 i j)
    then have "live t = live s" "fine t = fine s" by (auto simp: live_def in_window_def fine_def fun_eq_iff)
    with found M show ?thesis by (intro mem_okI) (auto simp: in_window_def)
  next
    case (store_count p i0 i)
    then have c0: "r_count s i = 0" using C(2) by (simp add: writer_ok_def)
    have "live t = live s" "fine t = fine s"
      using store_count c0 by (auto simp: live_def in_window_def fine_def fun_eq_iff)
    moreover have "held t i = 0" using zero [OF c0] store_count by (simp add: held_def)
    ultimately show ?thesis using store_count M by (intro mem_okI) (auto simp: in_window_def)
  next
    case (store_ptr p i0 i)
    then have w: "in_window s i" by (auto simp: in_window_def)
    then have h: "held s i = 0" by (rule M(7))
    have nh: "(i, q) \<notin># r_handles s" for q using h handles_on_pos [of i q "r_handles s"] by (auto simp: held_def)
    have l: "live t j \<Longrightarrow> j \<noteq> i \<Longrightarrow> live s j" for j
      using store_ptr by (auto simp: live_def in_window_def)
    have p: "fine s p" "live s j \<Longrightarrow> r_ptr s j \<noteq> p" for j using M(6) [of p] store_ptr by auto
    have f: "fine t = fine s" using store_ptr by (auto simp: fine_def fun_eq_iff)
    show ?thesis
    proof (rule mem_okI)
      show "live t j \<Longrightarrow> fine t (r_ptr t j)" for j
        using M(1) [of j] l [of j] p f store_ptr by (cases "j = i") auto
      show "live t j \<Longrightarrow> live t k \<Longrightarrow> r_ptr t j = r_ptr t k \<Longrightarrow> j = k" for j k
        using M(2) [of j k] l [of j] l [of k] p(2) store_ptr by (auto split: if_splits)
    qed (use store_ptr M nh in \<open>auto simp: in_window_def\<close>)
  next
    case (store_index i0 i)
    then have "live t = live s" "fine t = fine s" by (auto simp: live_def in_window_def fine_def fun_eq_iff)
    with store_index M show ?thesis by (intro mem_okI) (auto simp: in_window_def)
  next
    case (release i0)
    then have "live t = live s" "fine t = fine s" by (auto simp: live_def in_window_def fine_def fun_eq_iff)
    with release M show ?thesis by (intro mem_okI) (auto simp: in_window_def)
  next
    case (release_last i0)
    then have "live t = live s" "fine t = fine s"
      by (auto simp: live_def in_window_def fine_def fun_eq_iff)
    with release_last M show ?thesis by (intro mem_okI) (auto simp: in_window_def)
  next
    case (delete_last i0)
    then have i0: "live s i0" "r_count s i0 = 0" using C(2) by (simp_all add: live_def writer_ok_def)
    have l: "live t j \<Longrightarrow> live s j \<and> j \<noteq> i0" for j
      using delete_last i0 by (auto simp: live_def in_window_def)
    have ne: "live t j \<Longrightarrow> r_ptr s j \<noteq> r_ptr s i0" for j using l M(2) [OF _ i0(1)] by metis
    have f: "fine s q \<Longrightarrow> q \<noteq> r_ptr s i0 \<Longrightarrow> fine t q" for q using delete_last by (simp add: fine_def)
    have p: "fine s (r_ptr s i0)" by (rule M(1) [OF i0(1)])
    show ?thesis
    proof (rule mem_okI)
      show "live t j \<Longrightarrow> fine t (r_ptr t j)" for j using M(1) l ne f delete_last by simp
      show "live t j \<Longrightarrow> live t k \<Longrightarrow> r_ptr t j = r_ptr t k \<Longrightarrow> j = k" for j k
        using M(2) l delete_last by simp
      show "q \<in># r_dying t \<Longrightarrow> q \<in> r_made t \<and> q \<notin> r_freed t \<and> count (r_dying t) q = 1" for q
        using M(4) [of q] p delete_last by (auto simp: fine_def)
      show "r_freed t \<subseteq> r_made t" using M(5) p delete_last by (simp add: fine_def)
    qed (use delete_last M in \<open>auto simp: in_window_def\<close>)
  qed
qed

lemma mem_init: "rcu_init s \<Longrightarrow> mem_ok s"
  by (auto simp: rcu_init_def mem_ok_def live_def fine_def in_window_def split: if_splits)

definition rcu_ok :: "rcu \<Rightarrow> bool" where
  "rcu_ok s \<longleftrightarrow> counts_ok s \<and> mem_ok s"

interpretation rcu_counts: invariant_of rcu_init "rcu_step n" counts_ok for n
  by unfold_locales (auto simp: rcu_step_def intro: counts_init counts_reader counts_handle counts_writer)

interpretation rcu_safe: invariant_of rcu_init "rcu_step_outside n" rcu_ok for n
proof unfold_locales
  show "rcu_init s \<Longrightarrow> rcu_ok s" for s by (simp add: rcu_ok_def counts_init mem_init)
  fix s t assume ok: "rcu_ok s" and st: "rcu_step_outside n s t"
  then have c: "counts_ok s" and m: "mem_ok s" by (simp_all add: rcu_ok_def)
  from st c m show "rcu_ok t"
    by (auto simp: rcu_ok_def rcu_step_outside_def rcu_step_def
        intro: counts_reader counts_handle counts_writer mem_reader mem_handle mem_writer)
qed

section \<open>The destructor\<close>

text \<open>Whether \<open>~rcu\<close> ends without an abort: the current slot goes to 0 and all slots are 0.\<close>

definition rcu_destroy :: "nat \<Rightarrow> rcu \<Rightarrow> bool" where
  "rcu_destroy n s =
     (let old_count = r_count s (r_index s); count' = (r_count s)(r_index s := old_count - 1) in
      if old_count = 1 then list_all (\<lambda>i. count' i = 0) [0..<n] else False)"

section \<open>Properties\<close>

text \<open>A run on two slots: the reader has loaded index 0 and count 1 when two updates come by, the
  second of which uses slot 0 again; then the reader's exchange succeeds on the new count.\<close>

definition run_state :: "nat \<Rightarrow> nat \<Rightarrow> nat \<Rightarrow> nat \<Rightarrow> rpc multiset \<Rightarrow> (nat \<times> nat) multiset \<Rightarrow> wpc \<Rightarrow> nat set \<Rightarrow> nat set \<Rightarrow> rcu" where
  "run_state ix c0 c1 p1 rs hs w made freed = \<lparr>r_index = ix, r_count = (\<lambda>_. 0)(0 := c0, 1 := c1),
     r_ptr = (\<lambda>_. 0)(1 := p1), r_readers = rs, r_handles = hs, r_writer = w, r_made = made,
     r_dying = {#}, r_freed = freed\<rparr>"

lemma run_state_simps [simp]:
  "r_index (run_state ix c0 c1 p1 rs hs w made freed) = ix"
  "r_count (run_state ix c0 c1 p1 rs hs w made freed) = (\<lambda>_. 0)(0 := c0, 1 := c1)"
  "r_ptr (run_state ix c0 c1 p1 rs hs w made freed) = (\<lambda>_. 0)(1 := p1)"
  "r_readers (run_state ix c0 c1 p1 rs hs w made freed) = rs"
  "r_handles (run_state ix c0 c1 p1 rs hs w made freed) = hs"
  "r_writer (run_state ix c0 c1 p1 rs hs w made freed) = w"
  "r_made (run_state ix c0 c1 p1 rs hs w made freed) = made"
  "r_dying (run_state ix c0 c1 p1 rs hs w made freed) = {#}"
  "r_freed (run_state ix c0 c1 p1 rs hs w made freed) = freed"
  by (simp_all add: run_state_def)

abbreviation run_reach :: "rcu \<Rightarrow> bool" where
  "run_reach \<equiv> reachable rcu_init (rcu_step 2)"

lemma run_step: "run_reach s \<Longrightarrow> rcu_step 2 s t \<Longrightarrow> t = t' \<Longrightarrow> run_reach t'"
  by (auto intro: nextstep)

lemma run_start: "run_reach (run_state 0 1 0 0 {#} {#} W_Idle {0} {})"
  by (rule start) (auto simp: rcu_init_def run_state_def fun_eq_iff)

lemma run_read: "run_reach (run_state 0 1 0 0 {#R_Count 0 1#} {#} W_Idle {0} {})"
proof -
  have 1: "run_reach (run_state 0 1 0 0 {#R_Begin#} {#} W_Idle {0} {})"
    by (rule run_step [OF run_start], unfold rcu_step_def, rule disjI1, rule begin_read)
      (simp add: run_state_def)
  have 2: "run_reach (run_state 0 1 0 0 {#R_Index 0#} {#} W_Idle {0} {})"
    by (rule run_step [OF 1], unfold rcu_step_def, rule disjI1, rule load_index [of _ "{#}"]) (simp_all add: run_state_def)
  show ?thesis
    by (rule run_step [OF 2], unfold rcu_step_def, rule disjI1, rule load_count [of _ 0 "{#}"])
      (simp_all add: run_state_def)
qed

text \<open>The writer's part of the run, from any state of the readers.\<close>

lemma run_write:
  assumes "run_reach s" "writer_step 2 s t" "t = t'"
  shows "run_reach t'"
  using assms by (auto simp: rcu_step_def intro: run_step)

lemma run_update: "run_reach (run_state 1 0 1 1 {#R_Count 0 1#} {#} W_Idle {1, 0} {0})"
proof -
  have 1: "run_reach (run_state 0 1 0 0 {#R_Count 0 1#} {#} (W_Scan 1 0 0) {1, 0} {})"
    by (rule run_write [OF run_read lock [of _ 1]]) (simp_all add: run_state_def)
  have 2: "run_reach (run_state 0 1 0 0 {#R_Count 0 1#} {#} (W_Found 1 0 1) {1, 0} {})"
    by (rule run_write [OF 1 found [of _ 1 0 0 1]]) (simp_all add: run_state_def)
  have 3: "run_reach (run_state 0 1 1 0 {#R_Count 0 1#} {#} (W_Counted 1 0 1) {1, 0} {})"
    by (rule run_write [OF 2 store_count [of _ 1 0 1]]) (simp_all add: run_state_def)
  have 4: "run_reach (run_state 0 1 1 1 {#R_Count 0 1#} {#} (W_Pointer 0 1) {1, 0} {})"
    by (rule run_write [OF 3 store_ptr [of _ 1 0 1]]) (simp_all add: run_state_def)
  have 5: "run_reach (run_state 1 1 1 1 {#R_Count 0 1#} {#} (W_Indexed 0) {1, 0} {})"
    by (rule run_write [OF 4 store_index [of _ 0 1]]) (simp_all add: run_state_def)
  have 6: "run_reach (run_state 1 0 1 1 {#R_Count 0 1#} {#} (W_Last 0) {1, 0} {})"
    by (rule run_write [OF 5 release_last [of _ 0]]) (simp_all add: run_state_def fun_eq_iff)
  show ?thesis
    by (rule run_write [OF 6 delete_last [of _ 0]]) (simp_all add: run_state_def fun_eq_iff)
qed

lemma run_window: "run_reach (run_state 1 1 1 1 {#R_Count 0 1#} {#} (W_Counted 2 1 0) {2, 1, 0} {0})"
proof -
  have 1: "run_reach (run_state 1 0 1 1 {#R_Count 0 1#} {#} (W_Scan 2 1 1) {2, 1, 0} {0})"
    by (rule run_write [OF run_update lock [of _ 2]]) (simp_all add: run_state_def)
  have 2: "run_reach (run_state 1 0 1 1 {#R_Count 0 1#} {#} (W_Found 2 1 0) {2, 1, 0} {0})"
    by (rule run_write [OF 1 found [of _ 2 1 1 0]]) (simp_all add: run_state_def)
  show ?thesis
    by (rule run_write [OF 2 store_count [of _ 2 1 0]]) (simp_all add: run_state_def fun_eq_iff)
qed

lemma run_taken: "run_reach (run_state 1 2 1 1 {#} {#(0, 0)#} (W_Counted 2 1 0) {2, 1, 0} {0})"
proof -
  have 1: "run_reach (run_state 1 2 1 1 {#R_Taken 0#} {#} (W_Counted 2 1 0) {2, 1, 0} {0})"
    by (rule run_step [OF run_window], unfold rcu_step_def, rule disjI1, rule exchange [of _ 0 1 "{#}"])
      (simp_all add: run_state_def max_count_def fun_eq_iff)
  show ?thesis
    by (rule run_step [OF 1], unfold rcu_step_def, rule disjI1, rule load_ptr [of _ 0 "{#}"])
      (simp_all add: run_state_def)
qed

text \<open>C2: In every interleaving of readers, handles and updates each reference count is exactly the
  number of its holders: the owner, the update in progress, the readers that have taken it and the
  handles.  So no count is decremented below zero, by a handle or by an update.\<close>

theorem rcu_counts_exact:
  assumes "reachable rcu_init (rcu_step n) s"
  shows "(\<forall>i. r_count s i = owned s i + held s i) \<and>
    (\<forall>i p. (i, p) \<in># r_handles s \<longrightarrow> 0 < r_count s i) \<and>
    (\<forall>i. r_writer s = W_Indexed i \<longrightarrow> 0 < r_count s i)"
proof -
  have c: "counts_ok s" by (rule rcu_counts.holds [OF assms])
  then have "(i, p) \<in># r_handles s \<Longrightarrow> 0 < r_count s i" for i p
    using counts_okD(1) [OF c, of i] handles_on_pos [of i p "r_handles s"] by (simp add: held_def)
  moreover have "r_writer s = W_Indexed i \<Longrightarrow> 0 < r_count s i" for i
    using counts_okD(1) [OF c, of i] by (simp add: owned_def)
  ultimately show ?thesis using c by (auto simp: counts_ok_def)
qed

theorem rcu_counts_exact_witness:
  "held (run_state 1 2 1 1 {#} {#(0, 0)#} (W_Counted 2 1 0) {2, 1, 0} {0}) 0 = 1"
  using rcu_counts_exact [OF run_taken, THEN conjunct1, THEN spec, of 0] by (simp add: owned_def)

text \<open>C1: As long as no reader's exchange falls between the two stores of an update that reuse its slot,
  no handle ever refers to an object that is deleted or about to be, the current object is alive,
  and no object is deleted twice.\<close>

theorem rcu_no_use_after_free:
  assumes "reachable rcu_init (rcu_step_outside n) s"
  shows "(\<forall>i p. (i, p) \<in># r_handles s \<longrightarrow> r_ptr s i = p \<and> p \<notin> r_freed s \<and> p \<notin># r_dying s) \<and>
    r_ptr s (r_index s) \<notin> r_freed s \<and>
    (\<forall>p. p \<in># r_dying s \<longrightarrow> p \<notin> r_freed s \<and> count (r_dying s) p = 1) \<and>
    (\<forall>i. r_writer s = W_Last i \<longrightarrow> r_ptr s i \<notin> r_freed s \<and> r_ptr s i \<notin># r_dying s)"
proof -
  have ok: "rcu_ok s" by (rule rcu_safe.holds [OF assms])
  then have c: "counts_ok s" and m: "mem_ok s" by (simp_all add: rcu_ok_def)
  have fine: "fine s p" if "(i, p) \<in># r_handles s" for i p
    using handle_live [OF c m that] mem_okD(1) [OF m, of i] by simp
  have "live s (r_index s)"
    using counts_okD(1) [OF c, of "r_index s"] counts_okD(2) [OF c]
    by (auto simp: live_def owned_def in_window_def writer_ok_def split: wpc.splits)
  then have "fine s (r_ptr s (r_index s))" by (rule mem_okD(1) [OF m])
  moreover have "r_writer s = W_Last i \<Longrightarrow> fine s (r_ptr s i)" for i
    by (rule mem_okD(1) [OF m]) (simp add: live_def)
  ultimately show ?thesis
    using fine mem_okD(3,4) [OF m] by (simp add: fine_def)
qed

theorem rcu_no_use_after_free_witness:
  "\<exists>s. reachable rcu_init (rcu_step_outside 2) s \<and> r_readers s = {#R_Begin#} \<and> r_ptr s (r_index s) \<notin> r_freed s"
proof -
  let ?s = "run_state 0 1 0 0 {#R_Begin#} {#} W_Idle {0} {}"
  have "reachable rcu_init (rcu_step_outside 2) (run_state 0 1 0 0 {#} {#} W_Idle {0} {})"
    by (rule start) (auto simp: rcu_init_def run_state_def fun_eq_iff)
  moreover have "reader_step (run_state 0 1 0 0 {#} {#} W_Idle {0} {}) ?s"
    using begin_read [of "run_state 0 1 0 0 {#} {#} W_Idle {0} {}"] by (simp add: run_state_def)
  then have "rcu_step_outside 2 (run_state 0 1 0 0 {#} {#} W_Idle {0} {}) ?s"
    by (simp add: rcu_step_outside_def rcu_step_def in_window_def)
  ultimately have r: "reachable rcu_init (rcu_step_outside 2) ?s" by (rule nextstep)
  show ?thesis using rcu_no_use_after_free [OF r] r by (intro exI [of _ ?s]) simp
qed

text \<open>C3: The restriction is needed: update stores the new count before the new pointer, and a reader
  whose exchange falls in between is handed the pointer of the object that the previous owner of the
  slot has already deleted.\<close>

theorem rcu_window_use_after_free:
  "\<exists>s i p. reachable rcu_init (rcu_step 2) s \<and> (i, p) \<in># r_handles s \<and> p \<in> r_freed s"
  by (rule exI, rule exI [of _ 0], rule exI [of _ 0], rule conjI [OF run_taken]) simp

text \<open>When every handle is gone, no read is running and no update is in progress, the destructor
  finds all counts released and does not abort, after any history whatever.\<close>

theorem rcu_destroy_quiescent:
  assumes "reachable rcu_init (rcu_step n) s" "r_readers s = {#}" "r_handles s = {#}" "r_writer s = W_Idle"
  shows "rcu_destroy n s"
proof -
  have "r_count s i = (if i = r_index s then 1 else 0)" for i
    using counts_okD(1) [OF rcu_counts.holds [OF assms(1)], of i] assms by (simp add: owned_def held_def)
  then show ?thesis by (simp add: rcu_destroy_def list_all_iff)
qed

theorem rcu_destroy_quiescent_witness: "rcu_destroy 2 (run_state 0 1 0 0 {#} {#} W_Idle {0} {})"
  by (rule rcu_destroy_quiescent [OF run_start]) simp_all

end
