(* ===== verification/StrIntern.thy ===== *)
theory StrIntern
  imports Prelude Complex_Main
begin

text \<open>
  String interning: the hash sets of \<open>str_intern.cpp\<close> (the library), of
  \<open>intern_fixedset.cpp\<close> and \<open>intern_varset.cpp\<close>, and the linear list of
  \<open>intern_forward_list.cpp\<close> (its benchmark).  A string is returned as the
  address of the list node that holds it, which is its position in the order of
  interning, since the nodes are never moved or freed.  The hash function
  is a parameter; \<open>float\<close> values are rationals and \<open>rnd\<close> is the rounding of
  the float format.  What all tables promise is the locale \<open>intern_table\<close>.
\<close>

type_synonym size_t = "64 word"
type_synonym addr = nat
type_synonym hash = "string \<Rightarrow> size_t"

section \<open>bit\_ceil\<close>

definition bit_ceil :: "size_t \<Rightarrow> size_t" where
  "bit_ceil v =
     (let v = v - 1;
          v = v OR drop_bit 1 v;
          v = v OR drop_bit 2 v;
          v = v OR drop_bit 4 v;
          v = v OR drop_bit 8 v;
          v = v OR drop_bit 16 v;
          v = v OR drop_bit 32 v
      in v + 1)"

text \<open>\<open>smeared m v x\<close>: each bit of \<open>x\<close> tells whether \<open>v\<close> has a bit among the next \<open>m\<close>.\<close>

definition smeared :: "nat \<Rightarrow> size_t \<Rightarrow> size_t \<Rightarrow> bool" where
  "smeared m v x \<longleftrightarrow> (\<forall>i. bit x i \<longleftrightarrow> (\<exists>k < m. bit v (i + k)))"

lemma smeared_step: "smeared m v x \<Longrightarrow> smeared (2 * m) v (x OR drop_bit m x)"
proof -
  assume s: "smeared m v x"
  have "(\<exists>k < 2 * m. bit v (i + k)) \<longleftrightarrow> (\<exists>k < m. bit v (i + k)) \<or> (\<exists>k < m. bit v (i + m + k))" for i
  proof
    assume "\<exists>k < 2 * m. bit v (i + k)"
    then obtain k where k: "k < 2 * m" "bit v (i + k)" by blast
    show "(\<exists>k < m. bit v (i + k)) \<or> (\<exists>k < m. bit v (i + m + k))"
    proof (cases "k < m")
      case False
      with k have "k - m < m" "bit v (i + m + (k - m))" by auto
      then show ?thesis by blast
    qed (use k in blast)
  next
    assume "(\<exists>k < m. bit v (i + k)) \<or> (\<exists>k < m. bit v (i + m + k))"
    then show "\<exists>k < 2 * m. bit v (i + k)"
    proof
      assume "\<exists>k < m. bit v (i + m + k)"
      then obtain k where "k < m" "bit v (i + m + k)" by blast
      then show ?thesis by (intro exI [of _ "m + k"]) (simp add: add.assoc)
    next
      assume "\<exists>k < m. bit v (i + k)"
      then obtain k where "k < m" "bit v (i + k)" by blast
      then show ?thesis by (intro exI [of _ k]) simp
    qed
  qed
  with s show ?thesis by (simp add: smeared_def bit_or_iff bit_drop_bit_eq add.commute)
qed

lemma smear_mask:
  assumes "smeared 64 v x" "v \<noteq> 0"
  shows "\<exists>n. n < 64 \<and> x = mask (Suc n) \<and> bit v n \<and> (\<forall>j > n. \<not> bit v j)"
proof -
  define n where "n = Max {j. bit v j}"
  have fin: "finite {j. bit v j}"
    by (rule finite_subset [of _ "{..<64}"]) (auto dest: bit_imp_le_length)
  have ne: "{j. bit v j} \<noteq> {}" using assms(2) by (auto simp: bit_eq_iff)
  have n: "bit v n" using Max_in [OF fin ne] by (simp add: n_def)
  have top: "\<not> bit v j" if "j > n" for j using Max_ge [OF fin, of j] that unfolding n_def by (metis mem_Collect_eq not_le)
  have n64: "n < 64" using n bit_imp_le_length by fastforce
  have "x = mask (Suc n)"
  proof (rule bit_eqI)
    fix i
    have "(\<exists>k < 64. bit v (i + k)) \<longleftrightarrow> i \<le> n"
    proof
      assume "\<exists>k < 64. bit v (i + k)"
      then show "i \<le> n" using top by (metis le_add1 leI le_trans nat_less_le)
    next
      assume "i \<le> n"
      then show "\<exists>k < 64. bit v (i + k)" using n n64 by (intro exI [of _ "n - i"]) auto
    qed
    with assms(1) n64 show "bit x i = bit (mask (Suc n) :: size_t) i"
      by (auto simp: smeared_def bit_mask_iff)
  qed
  with n n64 top show ?thesis by blast
qed

lemma bit_ceil_mask:
  assumes "v \<noteq> 1"
  shows "\<exists>n. n < 64 \<and> bit_ceil v = mask (Suc n) + 1 \<and> bit (v - 1) n \<and> (\<forall>j > n. \<not> bit (v - 1) j)"
proof -
  have "smeared 1 (v - 1) (v - 1)" by (simp add: smeared_def)
  note s1 = smeared_step [OF this]
  note s2 = smeared_step [OF s1]
  note s3 = smeared_step [OF s2]
  note s4 = smeared_step [OF s3]
  note s5 = smeared_step [OF s4]
  note s6 = smeared_step [OF s5]
  from smear_mask [OF s6 [simplified]] assms show ?thesis
    by (auto simp: bit_ceil_def Let_def)
qed

lemma top_bit_bounds:
  fixes w :: size_t
  assumes "bit w n" "\<forall>j > n. \<not> bit w j"
  shows "2 ^ n \<le> unat w" "unat w < 2 ^ Suc n"
proof -
  have b: "bit (unat w) n" using assms(1) by (simp add: bit_simps)
  show "2 ^ n \<le> unat w"
    using b by (metis bit_iff_odd div_less even_zero linorder_not_le)
  have "take_bit (Suc n) (unat w) = unat w"
  proof (rule bit_eqI)
    fix i show "bit (take_bit (Suc n) (unat w)) i = bit (unat w) i"
      using assms(2) by (cases "i \<le> n") (simp_all add: bit_take_bit_iff bit_simps)
  qed
  then show "unat w < 2 ^ Suc n" by (metis take_bit_nat_less_exp)
qed

text \<open>bit_ceil gives the least power of two that is not below its argument, for every argument
  from 1 to 2 to the 63; for 0 and for larger arguments it gives 0.\<close>

theorem bit_ceil_spec:
  "(0 < v \<and> unat v \<le> 2 ^ 63 \<longrightarrow>
     (\<exists>n. unat (bit_ceil v) = 2 ^ n \<and> unat v \<le> 2 ^ n \<and> (\<forall>m. unat v \<le> 2 ^ m \<longrightarrow> n \<le> m))) \<and>
   (v = 0 \<or> unat v > 2 ^ 63 \<longrightarrow> bit_ceil v = 0)"
proof (cases "v = 1")
  case True
  then show ?thesis by (auto simp: bit_ceil_def intro!: exI [of _ 0])
next
  case False
  then obtain n where n: "n < 64" "bit_ceil v = mask (Suc n) + 1" "bit (v - 1) n" "\<forall>j > n. \<not> bit (v - 1) j"
    using bit_ceil_mask by blast
  note b = top_bit_bounds [OF n(3,4)]
  have p: "bit_ceil v = 2 ^ Suc n" by (simp add: n(2) mask_eq_decr_exp)
  show ?thesis
  proof (cases "v = 0")
    case True
    have "n = 63"
    proof (rule ccontr)
      assume "n \<noteq> 63"
      with n(1,4) have "\<not> bit (v - 1) 63" by simp
      then show False using True by simp
    qed
    then show ?thesis using p True by simp
  next
    case v0: False
    then have u: "unat (v - 1) = unat v - 1" "0 < unat v" by (simp_all add: unat_minus_one unat_gt_0)
    show ?thesis
    proof (cases "n = 63")
      case True
      then have "unat v > 2 ^ 63" "bit_ceil v = 0" using b(1) u p by simp_all
      then show ?thesis using v0 by simp
    next
      case False
      with n(1) have n62: "Suc n \<le> 63" by simp
      then have "(2 :: nat) ^ Suc n \<le> 2 ^ 63" by (intro power_increasing) simp_all
      moreover have le: "unat v \<le> 2 ^ Suc n" "2 ^ n < unat v" using b u by simp_all
      ultimately have small: "unat v \<le> 2 ^ 63" using le_trans by blast
      have "(2 :: nat) ^ Suc n < 2 ^ 64" using n62 by (intro power_strict_increasing) simp_all
      then have "unat (of_nat (2 ^ Suc n) :: size_t) = 2 ^ Suc n" by (simp add: unat_of_nat del: of_nat_power power_Suc)
      then have "unat (2 ^ Suc n :: size_t) = 2 ^ Suc n" by (simp only: of_nat_power of_nat_numeral)
      moreover have "Suc n \<le> m" if "unat v \<le> 2 ^ m" for m
      proof -
        have "(2 :: nat) ^ n < 2 ^ m" using le(2) that by (rule less_le_trans)
        then show ?thesis by simp
      qed
      ultimately show ?thesis using p le(1) small v0 by (intro conjI impI exI [of _ "Suc n"]) auto
    qed
  qed
qed

theorem bit_ceil_witness: "\<exists>n. unat (bit_ceil 4097) = 2 ^ n \<and> 4097 \<le> (2 :: nat) ^ n"
  using bit_ceil_spec [of 4097] by auto

section \<open>The contract of an intern table\<close>

fun intern_all :: "(string \<Rightarrow> 't \<Rightarrow> addr \<times> 't) \<Rightarrow> string list \<Rightarrow> 't \<Rightarrow> addr list \<times> 't" where
  "intern_all intern [] t = ([], t)"
| "intern_all intern (w # ws) t =
     (case intern w t of (a, t') \<Rightarrow> case intern_all intern ws t' of (as, t'') \<Rightarrow> (a # as, t''))"

text \<open>
  \<open>room k t\<close>: the table is in order and can take \<open>k\<close> more strings.  Interning
  gives the address of the string, keeps every other address, and no two
  addresses hold the same string.
\<close>

locale intern_table =
  fixes room :: "nat \<Rightarrow> 't \<Rightarrow> bool"
    and intern :: "string \<Rightarrow> 't \<Rightarrow> addr \<times> 't"
    and content :: "'t \<Rightarrow> addr \<Rightarrow> string option"
  assumes intern_room: "room (Suc k) t \<Longrightarrow> intern s t = (a, t') \<Longrightarrow> room k t'"
    and intern_text: "room (Suc k) t \<Longrightarrow> intern s t = (a, t') \<Longrightarrow> content t' = (content t)(a \<mapsto> s)"
    and intern_old: "room (Suc k) t \<Longrightarrow> intern s t = (a, t') \<Longrightarrow> content t a = None \<or> content t a = Some s"
    and text_inj: "room k t \<Longrightarrow> content t a = Some s \<Longrightarrow> content t b = Some s \<Longrightarrow> a = b"
begin

lemma intern_keeps:
  "room (Suc k) t \<Longrightarrow> intern s t = (a, t') \<Longrightarrow> content t b = Some x \<Longrightarrow> content t' b = Some x"
  using intern_text intern_old by fastforce

lemma intern_all_ok:
  "room (k + length ws) t \<Longrightarrow> intern_all intern ws t = (as, t') \<Longrightarrow>
   room k t' \<and> map (content t') as = map Some ws \<and>
   (\<forall>b x. content t b = Some x \<longrightarrow> content t' b = Some x) \<and>
   ran (content t') = ran (content t) \<union> set ws"
proof (induction ws arbitrary: t as)
  case (Cons w ws)
  then obtain a t1 as' where s: "intern w t = (a, t1)" "intern_all intern ws t1 = (as', t')" "as = a # as'"
    by (auto split: prod.splits)
  have r: "room (Suc (k + length ws)) t" using Cons.prems by simp
  have IH: "room k t' \<and> map (content t') as' = map Some ws \<and>
     (\<forall>b x. content t1 b = Some x \<longrightarrow> content t' b = Some x) \<and> ran (content t') = ran (content t1) \<union> set ws"
    using Cons.IH [OF intern_room [OF r s(1)] s(2)] .
  have "content t1 a = Some w" using intern_text [OF r s(1)] by simp
  moreover have "ran (content t1) = insert w (ran (content t))"
    using intern_old [OF r s(1)]
  proof
    assume "content t a = None"
    then show ?thesis using intern_text [OF r s(1)] by simp
  next
    assume old: "content t a = Some w"
    then have "content t1 = content t" using intern_text [OF r s(1)] by (simp add: fun_upd_idem)
    then show ?thesis using old by (auto simp: ran_def)
  qed
  ultimately show ?case using IH intern_keeps [OF r s(1)] s(3) by auto
qed simp

text \<open>Equal strings get equal addresses and different strings different ones, however far apart.\<close>

lemma intern_all_same:
  assumes "room (k + length ws) t" "intern_all intern ws t = (as, t')" "i < length ws" "j < length ws"
  shows "as ! i = as ! j \<longleftrightarrow> ws ! i = ws ! j"
proof -
  have r: "room k t'" and m: "map (content t') as = map Some ws"
    using intern_all_ok [OF assms(1,2)] by simp_all
  then have l: "length as = length ws" by (metis length_map)
  have "content t' (as ! n) = Some (ws ! n)" if "n < length ws" for n
    using arg_cong [OF m, of "\<lambda>l. l ! n"] that l by simp
  then show ?thesis using text_inj [OF r] assms(3,4) by (metis option.inject)
qed

end

section \<open>The hash tables\<close>

record string_hash_block =
  b_hash :: size_t
  b_interned :: addr

text \<open>The node at address \<open>a\<close> of \<open>strings_\<close> is \<open>hc_strings ! a\<close>; a bucket lists its
  blocks in the order of the \<open>forward_list\<close>.\<close>

record hash_core =
  hc_interned :: size_t
  hc_set :: "string_hash_block list list"
  hc_strings :: "string list"
  hc_mask :: size_t

definition core_new :: "size_t \<Rightarrow> hash_core" where
  "core_new buckets = \<lparr>hc_interned = 0, hc_set = replicate (unat buckets) [], hc_strings = [],
     hc_mask = buckets - 1\<rparr>"

definition bucket :: "size_t \<Rightarrow> size_t \<Rightarrow> nat" where
  "bucket msk h = unat (h AND msk)"

fun find_block :: "string list \<Rightarrow> size_t \<Rightarrow> string \<Rightarrow> string_hash_block list \<Rightarrow> addr option" where
  "find_block strings h str [] = None"
| "find_block strings h str (b # bs) =
     (if b_hash b = h \<and> str = strings ! b_interned b then Some (b_interned b)
      else find_block strings h str bs)"

definition find_interned :: "size_t \<Rightarrow> string \<Rightarrow> 'a hash_core_scheme \<Rightarrow> addr option" where
  "find_interned h str t = find_block (hc_strings t) h str (hc_set t ! bucket (hc_mask t) h)"

definition add_interned :: "size_t \<Rightarrow> string \<Rightarrow> 'a hash_core_scheme \<Rightarrow> addr \<times> 'a hash_core_scheme" where
  "add_interned h str t =
     (let i = bucket (hc_mask t) h; a = length (hc_strings t) in
      (a, t\<lparr>hc_interned := hc_interned t + 1, hc_strings := hc_strings t @ [str],
            hc_set := (hc_set t)[i := \<lparr>b_hash = h, b_interned = a\<rparr> # hc_set t ! i]\<rparr>))"

datatype intern_error = Buckets_not_power_of_2 | Max_less_than_buckets | Max_not_power_of_2 | Load_too_small

subsection \<open>intern\_fixed\_set\<close>

definition fixed_set_new :: "size_t \<Rightarrow> intern_error + hash_core" where
  "fixed_set_new buckets = (if buckets AND (buckets - 1) \<noteq> 0 then Inl Buckets_not_power_of_2
     else Inr (core_new buckets))"

definition fixed_set_intern :: "hash \<Rightarrow> string \<Rightarrow> hash_core \<Rightarrow> addr \<times> hash_core" where
  "fixed_set_intern svh str t = (let h = svh str in
     case find_interned h str t of Some a \<Rightarrow> (a, t) | None \<Rightarrow> add_interned h str t)"

subsection \<open>str\_intern\<close>

record interned = hash_core +
  si_max_buckets :: size_t
  si_max_load_factor :: rat
  si_rehash_count :: size_t

definition interned_new :: "size_t \<Rightarrow> size_t \<Rightarrow> interned" where
  "interned_new buckets max_buckets = hash_core.extend (core_new buckets)
     \<lparr>si_max_buckets = max_buckets, si_max_load_factor = 1,
      si_rehash_count = (if buckets = max_buckets then 0 else buckets)\<rparr>"

definition str_intern_new :: "size_t \<Rightarrow> size_t \<Rightarrow> intern_error + interned" where
  "str_intern_new buckets max_buckets =
     (if buckets = 0 \<or> buckets AND (buckets - 1) \<noteq> 0 then Inl Buckets_not_power_of_2
      else if max_buckets < buckets then Inl Max_less_than_buckets
      else if max_buckets AND (buckets - 1) \<noteq> 0 then Inl Max_not_power_of_2
      else Inr (interned_new buckets max_buckets))"

text \<open>\<open>static_cast<float>\<close> of an integer and the float operations round.\<close>

definition next_size :: "(rat \<Rightarrow> rat) \<Rightarrow> interned \<Rightarrow> size_t" where
  "next_size rnd t =
     (let f = rnd (rnd (of_nat (unat (hc_interned t + 1))) / si_max_load_factor t);
          new_buckets = of_int \<lceil>f\<rceil> in
      if new_buckets \<ge> si_max_buckets t then si_max_buckets t else bit_ceil new_buckets)"

definition rehash_block :: "size_t \<Rightarrow> string_hash_block \<Rightarrow> string_hash_block list list \<Rightarrow> string_hash_block list list" where
  "rehash_block msk b ns = (let i = bucket msk (b_hash b) in ns[i := b # ns ! i])"

definition rehash :: "(rat \<Rightarrow> rat) \<Rightarrow> size_t \<Rightarrow> interned \<Rightarrow> interned" where
  "rehash rnd new_buckets t =
     (let msk = new_buckets - 1;
          new_set = fold (rehash_block msk) (concat (hc_set t)) (replicate (unat new_buckets) []) in
      t\<lparr>hc_mask := msk, hc_set := new_set,
        si_rehash_count := (if new_buckets = si_max_buckets t then 0
          else of_int \<lfloor>rnd (rnd (of_nat (unat new_buckets)) * si_max_load_factor t)\<rfloor>)\<rparr>)"

definition str_intern_intern :: "(rat \<Rightarrow> rat) \<Rightarrow> hash \<Rightarrow> string \<Rightarrow> interned \<Rightarrow> addr \<times> interned" where
  "str_intern_intern rnd svh str t = (let h = svh str in
     case find_interned h str t of Some a \<Rightarrow> (a, t)
     | None \<Rightarrow>
         let t = (if si_rehash_count t \<noteq> 0 \<and> hc_interned t \<ge> si_rehash_count t
                  then rehash rnd (next_size rnd t) t else t)
         in add_interned h str t)"

definition interned_max_load_factor :: "(rat \<Rightarrow> rat) \<Rightarrow> rat \<Rightarrow> interned \<Rightarrow> interned" where
  "interned_max_load_factor rnd ml t =
     (let buckets = of_nat (length (hc_set t)); f = rnd (rnd (of_nat (length (hc_set t))) * ml) in
      t\<lparr>si_max_load_factor := ml,
        si_rehash_count := (if si_max_buckets t = buckets then 0
          else if f \<ge> 2 ^ 64 then 0 else max (of_int \<lceil>f\<rceil>) buckets)\<rparr>)"

definition str_intern_max_load_factor :: "(rat \<Rightarrow> rat) \<Rightarrow> rat \<Rightarrow> interned \<Rightarrow> intern_error + interned" where
  "str_intern_max_load_factor rnd ml t =
     (if ml \<le> 1 / 100 then Inl Load_too_small else Inr (interned_max_load_factor rnd ml t))"

definition str_intern_size :: "'a hash_core_scheme \<Rightarrow> 32 word" where
  "str_intern_size t = ucast (hc_interned t)"

definition bucket_count :: "'a hash_core_scheme \<Rightarrow> size_t" where
  "bucket_count t = of_nat (length (hc_set t))"

subsection \<open>intern\_var\_set\<close>

text \<open>The benchmark's set differs from the library's in how it rounds: \<open>static_cast<std::size_t>(f)\<close>
  truncates.  Its tables have the same fields and it moves the blocks in the same way.\<close>

definition var_set_next_size :: "(rat \<Rightarrow> rat) \<Rightarrow> interned \<Rightarrow> size_t" where
  "var_set_next_size rnd t =
     (let f = rnd (rnd (of_nat (unat (hc_interned t))) / si_max_load_factor t);
          new_buckets = of_int \<lfloor>f\<rfloor> in
      if new_buckets \<ge> si_max_buckets t then si_max_buckets t
      else if new_buckets \<le> of_nat (length (hc_set t)) then bit_ceil (push_bit 1 new_buckets)
      else bit_ceil new_buckets)"

definition var_set_rehash :: "(rat \<Rightarrow> rat) \<Rightarrow> size_t \<Rightarrow> interned \<Rightarrow> interned" where
  "var_set_rehash rnd new_buckets t =
     (let msk = new_buckets - 1;
          new_set = fold (rehash_block msk) (concat (hc_set t)) (replicate (unat new_buckets) []) in
      t\<lparr>hc_mask := msk, hc_set := new_set,
        si_rehash_count := (if new_buckets = si_max_buckets t then 0
          else of_int \<lfloor>rnd (rnd (of_nat (unat new_buckets)) * si_max_load_factor t)\<rfloor>)\<rparr>)"

lemma var_set_rehash_eq: "var_set_rehash = rehash"
  by (intro ext) (simp add: var_set_rehash_def rehash_def)

definition var_set_intern :: "(rat \<Rightarrow> rat) \<Rightarrow> hash \<Rightarrow> string \<Rightarrow> interned \<Rightarrow> addr \<times> interned" where
  "var_set_intern rnd svh str t = (let h = svh str in
     case find_interned h str t of Some a \<Rightarrow> (a, t)
     | None \<Rightarrow>
         let t = (if si_rehash_count t \<noteq> 0 \<and> hc_interned t \<ge> si_rehash_count t
                  then var_set_rehash rnd (var_set_next_size rnd t) t else t)
         in add_interned h str t)"

definition var_set_max_load_factor :: "(rat \<Rightarrow> rat) \<Rightarrow> rat \<Rightarrow> interned \<Rightarrow> interned" where
  "var_set_max_load_factor rnd ml t =
     (let buckets = of_nat (length (hc_set t)); f = rnd (rnd (of_nat (length (hc_set t))) * ml) in
      t\<lparr>si_max_load_factor := ml,
        si_rehash_count := (if si_max_buckets t = buckets then 0
          else if f \<ge> 2 ^ 64 then 0 else of_int \<lfloor>f\<rfloor>)\<rparr>)"

definition intern_var_set_new :: "size_t \<Rightarrow> size_t \<Rightarrow> intern_error + interned" where
  "intern_var_set_new buckets max_buckets =
     (if buckets = 0 \<or> buckets AND (buckets - 1) \<noteq> 0 then Inl Buckets_not_power_of_2
      else if max_buckets < buckets then Inl Max_less_than_buckets
      else if max_buckets AND (buckets - 1) \<noteq> 0 then Inl Max_not_power_of_2
      else Inr (hash_core.extend (core_new buckets)
        \<lparr>si_max_buckets = max_buckets, si_max_load_factor = 1, si_rehash_count = (if buckets = max_buckets then 0 else buckets)\<rparr>))"

definition intern_var_set_max_load_factor :: "(rat \<Rightarrow> rat) \<Rightarrow> rat \<Rightarrow> interned \<Rightarrow> intern_error + interned" where
  "intern_var_set_max_load_factor rnd ml t =
     (if ml \<le> 1 / 100 then Inl Load_too_small else Inr (var_set_max_load_factor rnd ml t))"

subsection \<open>intern\_forward\_list\<close>

text \<open>The nodes, the last one interned first; the address of a node is the number of nodes behind it.\<close>

fun flist_find :: "string \<Rightarrow> string list \<Rightarrow> addr option" where
  "flist_find str [] = None"
| "flist_find str (s # ss) = (if s = str then Some (length ss) else flist_find str ss)"

definition flist_intern :: "string \<Rightarrow> (32 word \<times> string list) \<Rightarrow> addr \<times> (32 word \<times> string list)" where
  "flist_intern str = (\<lambda>(n, ss). case flist_find str ss of Some a \<Rightarrow> (a, (n, ss))
     | None \<Rightarrow> (length ss, (n + 1, str # ss)))"

section \<open>The tables keep the contract\<close>

definition content :: "'a hash_core_scheme \<Rightarrow> addr \<Rightarrow> string option" where
  "content t a = (if a < length (hc_strings t) then Some (hc_strings t ! a) else None)"

text \<open>Every block is right about the string it stands for, and every string is in its bucket.\<close>

definition blocks_ok :: "hash \<Rightarrow> string list \<Rightarrow> string_hash_block list \<Rightarrow> bool" where
  "blocks_ok svh strings bs \<longleftrightarrow>
     (\<forall>b \<in> set bs. b_interned b < length strings \<and> b_hash b = svh (strings ! b_interned b))"

definition core_ok :: "hash \<Rightarrow> 'a hash_core_scheme \<Rightarrow> bool" where
  "core_ok svh t \<longleftrightarrow> hc_set t \<noteq> [] \<and> length (hc_set t) < 2 ^ 64 \<and>
     hc_mask t = of_nat (length (hc_set t)) - 1 \<and> distinct (hc_strings t) \<and>
     hc_interned t = of_nat (length (hc_strings t)) \<and>
     blocks_ok svh (hc_strings t) (concat (hc_set t)) \<and>
     (\<forall>a < length (hc_strings t). \<lparr>b_hash = svh (hc_strings t ! a), b_interned = a\<rparr> \<in>
        set (hc_set t ! bucket (hc_mask t) (svh (hc_strings t ! a))))"

lemma bucket_less: "0 < n \<Longrightarrow> n < 2 ^ 64 \<Longrightarrow> bucket (of_nat n - 1) h < n"
proof -
  assume n: "0 < n" "n < 2 ^ 64"
  then have u: "unat (of_nat n :: size_t) = n" by (simp add: unat_of_nat)
  then have "(of_nat n :: size_t) \<noteq> 0" using n by (metis not_less0 unat_0)
  then have "unat (of_nat n - 1 :: size_t) = n - 1" using u by (simp add: unat_minus_one)
  moreover have "h AND (of_nat n - 1) \<le> of_nat n - 1" by (rule word_and_le1)
  then have "unat (h AND (of_nat n - 1)) \<le> unat (of_nat n - 1 :: size_t)" by (simp add: word_le_nat_alt)
  ultimately show ?thesis using n(1) by (simp add: bucket_def)
qed

lemma core_bucket: "core_ok svh t \<Longrightarrow> bucket (hc_mask t) h < length (hc_set t)"
  unfolding core_ok_def by (metis bucket_less length_greater_0_conv)

lemma find_block_Some:
  "find_block strings h str bs = Some a \<Longrightarrow> \<exists>b \<in> set bs. b_hash b = h \<and> b_interned b = a \<and> strings ! a = str"
  by (induction bs) (auto split: if_splits)

lemma find_block_None:
  "find_block strings h str bs = None \<Longrightarrow> b \<in> set bs \<Longrightarrow> b_hash b = h \<Longrightarrow> strings ! b_interned b \<noteq> str"
  by (induction bs) (auto split: if_splits)

lemma find_interned_iff:
  assumes ok: "core_ok svh t"
  shows "find_interned (svh str) str t = Some a \<longleftrightarrow> content t a = Some str"
proof -
  have some: "content t a = Some str" if f: "find_interned (svh str) str t = Some a" for a
  proof -
    obtain b where b: "b \<in> set (hc_set t ! bucket (hc_mask t) (svh str))" "b_interned b = a" "hc_strings t ! a = str"
      using find_block_Some f unfolding find_interned_def by metis
    then have "b \<in> set (concat (hc_set t))" using core_bucket [OF ok] by (auto intro: nth_mem)
    then show ?thesis using ok b by (auto simp: core_ok_def blocks_ok_def content_def)
  qed
  show ?thesis
  proof (cases "find_interned (svh str) str t")
    case None
    have "content t a \<noteq> Some str"
    proof
      assume "content t a = Some str"
      then have "a < length (hc_strings t)" "hc_strings t ! a = str" by (auto simp: content_def split: if_splits)
      with ok have "\<lparr>b_hash = svh str, b_interned = a\<rparr> \<in> set (hc_set t ! bucket (hc_mask t) (svh str))"
        by (auto simp: core_ok_def)
      with find_block_None [OF None [unfolded find_interned_def] this] \<open>hc_strings t ! a = str\<close> show False by simp
    qed
    with None show ?thesis by simp
  next
    case (Some a')
    then have a': "content t a' = Some str" by (rule some)
    have "content t a = Some str \<Longrightarrow> a = a'"
      using ok a' by (auto simp: content_def core_ok_def nth_eq_iff_index_eq split: if_splits)
    with Some a' show ?thesis by auto
  qed
qed

lemma add_interned_ok:
  assumes ok: "core_ok svh t" and new: "str \<notin> set (hc_strings t)" and r: "add_interned (svh str) str t = (a, t')"
  shows "core_ok svh t' \<and> a = length (hc_strings t) \<and> hc_strings t' = hc_strings t @ [str]"
proof -
  let ?i = "bucket (hc_mask t) (svh str)" and ?n = "length (hc_strings t)"
  let ?b = "\<lparr>b_hash = svh str, b_interned = ?n\<rparr>"
  have i: "?i < length (hc_set t)" by (rule core_bucket [OF ok])
  have t': "t' = t\<lparr>hc_interned := hc_interned t + 1, hc_strings := hc_strings t @ [str],
      hc_set := (hc_set t)[?i := ?b # hc_set t ! ?i]\<rparr>" and a: "a = ?n"
    using r by (auto simp: add_interned_def Let_def)
  have "set (concat (hc_set t')) \<subseteq> insert ?b (set (concat (hc_set t)))"
    using i by (auto simp: t' dest!: set_update_subset_insert [THEN subsetD] intro: nth_mem)
  moreover have "blocks_ok svh (hc_strings t @ [str]) (?b # concat (hc_set t))"
  proof -
    have "blocks_ok svh (hc_strings t) (concat (hc_set t))" using ok by (simp add: core_ok_def)
    then show ?thesis unfolding blocks_ok_def by (simp add: nth_append less_SucI)
  qed
  ultimately have "blocks_ok svh (hc_strings t') (concat (hc_set t'))"
    by (auto simp: blocks_ok_def t')
  moreover have "\<lparr>b_hash = svh (hc_strings t' ! x), b_interned = x\<rparr> \<in>
      set (hc_set t' ! bucket (hc_mask t') (svh (hc_strings t' ! x)))" if x: "x < length (hc_strings t')" for x
  proof (cases "x = ?n")
    case True
    then show ?thesis using i by (simp add: t')
  next
    case False
    with x have x: "x < ?n" by (simp add: t')
    then have "\<lparr>b_hash = svh (hc_strings t ! x), b_interned = x\<rparr> \<in>
        set (hc_set t ! bucket (hc_mask t) (svh (hc_strings t ! x)))"
      using ok unfolding core_ok_def by blast
    then show ?thesis using x i by (auto simp: t' nth_append nth_list_update)
  qed
  ultimately have "core_ok svh t'"
    using ok new by (auto simp: core_ok_def t')
  then show ?thesis by (simp add: t' a)
qed

lemma content_add: "hc_strings t' = hc_strings t @ [str] \<Longrightarrow> content t' = (content t)(length (hc_strings t) \<mapsto> str)"
  by (auto simp: content_def fun_eq_iff nth_append)

lemma content_None: "content t (length (hc_strings t)) = None"
  by (simp add: content_def)

lemma content_inj: "core_ok svh t \<Longrightarrow> content t a = Some s \<Longrightarrow> content t b = Some s \<Longrightarrow> a = b"
  by (auto simp: core_ok_def content_def nth_eq_iff_index_eq split: if_splits)

lemma not_found: "core_ok svh t \<Longrightarrow> find_interned (svh str) str t = None \<Longrightarrow> str \<notin> set (hc_strings t)"
  using find_interned_iff [of svh t str] by (metis content_def in_set_conv_nth option.distinct(1))

lemma unat_size_t: "unat (w :: size_t) < 2 ^ 64"
  by (rule order_less_le_trans [OF unsigned_less]) simp

lemma core_ok_new: "0 < buckets \<Longrightarrow> core_ok svh (core_new buckets)"
  using unat_size_t [of buckets]
  by (simp add: core_ok_def core_new_def blocks_ok_def unat_gt_0 word_gt_0_no)

lemma fixed_set_step:
  assumes ok: "core_ok svh t" and r: "fixed_set_intern svh str t = (a, t')"
  shows "core_ok svh t' \<and> content t' = (content t)(a \<mapsto> str) \<and> (content t a = None \<or> content t a = Some str)"
proof (cases "find_interned (svh str) str t")
  case None
  then have "add_interned (svh str) str t = (a, t')" using r by (simp add: fixed_set_intern_def Let_def)
  from add_interned_ok [OF ok not_found [OF ok None] this] show ?thesis
    by (simp add: content_add content_None)
next
  case (Some b)
  then have "content t b = Some str" using find_interned_iff [OF ok] by blast
  then show ?thesis using Some r ok by (auto simp: fixed_set_intern_def Let_def)
qed

interpretation fixed: intern_table "\<lambda>_. core_ok svh" "fixed_set_intern svh" content for svh
  by unfold_locales (auto dest: fixed_set_step intro: content_inj)

text \<open>Rehashing moves every block into its new bucket.\<close>

lemma fold_rehash_length [simp]: "length (fold (rehash_block msk) bs ns) = length ns"
  by (induction bs arbitrary: ns) (simp_all add: rehash_block_def Let_def)

lemma fold_rehash_set:
  "(\<And>h. bucket msk h < length ns) \<Longrightarrow> i < length ns \<Longrightarrow>
   set (fold (rehash_block msk) bs ns ! i) = {b \<in> set bs. bucket msk (b_hash b) = i} \<union> set (ns ! i)"
proof (induction bs arbitrary: ns)
  case (Cons b bs)
  have "set (fold (rehash_block msk) bs (rehash_block msk b ns) ! i) =
      {x \<in> set bs. bucket msk (b_hash x) = i} \<union> set (rehash_block msk b ns ! i)"
    using Cons.prems by (intro Cons.IH) (simp_all add: rehash_block_def Let_def)
  moreover have "set (rehash_block msk b ns ! i) = (if bucket msk (b_hash b) = i then {b} else {}) \<union> set (ns ! i)"
    using Cons.prems by (auto simp: rehash_block_def Let_def nth_list_update)
  ultimately show ?case by auto
qed simp

lemma rehash_ok:
  assumes ok: "core_ok svh t" and n: "nb \<noteq> 0"
  shows "core_ok svh (rehash rnd nb t)"
proof -
  let ?bs = "concat (hc_set t)" and ?ns = "replicate (unat nb) ([] :: string_hash_block list)"
  let ?new = "fold (rehash_block (nb - 1)) ?bs ?ns"
  have u: "0 < unat nb" "unat nb < 2 ^ 64" using n unat_size_t [of nb] by (simp_all add: unat_gt_0)
  have b: "bucket (nb - 1) h < length ?ns" for h
    using bucket_less [OF u, of h] by simp
  have set_new: "set (?new ! i) = {b \<in> set ?bs. bucket (nb - 1) (b_hash b) = i}" if "i < unat nb" for i
    using fold_rehash_set [of "nb - 1" ?ns i ?bs] b that by simp
  have "set (concat ?new) \<subseteq> set ?bs"
  proof
    fix x assume "x \<in> set (concat ?new)"
    then obtain ys where "ys \<in> set ?new" "x \<in> set ys" by auto
    then obtain i where "i < unat nb" "x \<in> set (?new ! i)"
      by (metis fold_rehash_length in_set_conv_nth length_replicate)
    with set_new show "x \<in> set ?bs" by blast
  qed
  then have "blocks_ok svh (hc_strings t) (concat ?new)"
    using ok unfolding core_ok_def blocks_ok_def by blast
  moreover have "\<lparr>b_hash = svh (hc_strings t ! a), b_interned = a\<rparr> \<in> set (?new ! bucket (nb - 1) (svh (hc_strings t ! a)))"
    if a: "a < length (hc_strings t)" for a
  proof -
    let ?h = "svh (hc_strings t ! a)"
    have "\<lparr>b_hash = ?h, b_interned = a\<rparr> \<in> set (hc_set t ! bucket (hc_mask t) ?h)"
      using ok a unfolding core_ok_def by blast
    then have "\<lparr>b_hash = ?h, b_interned = a\<rparr> \<in> set ?bs" using core_bucket [OF ok, of ?h] by (auto intro: nth_mem)
    then show ?thesis using set_new b [of ?h] by simp
  qed
  moreover have "?new \<noteq> []" using u by (metis fold_rehash_length length_replicate list.size(3) less_irrefl)
  ultimately show ?thesis using ok u
    by (simp add: rehash_def Let_def core_ok_def)
qed

lemma rehash_strings [simp]: "hc_strings (rehash rnd nb t) = hc_strings t" "hc_interned (rehash rnd nb t) = hc_interned t"
    "si_max_load_factor (rehash rnd nb t) = si_max_load_factor t" "si_max_buckets (rehash rnd nb t) = si_max_buckets t"
  by (simp_all add: rehash_def Let_def)

text \<open>All that is used of the float format: rounding a positive number keeps it within a factor of two.\<close>

definition float_rounding :: "(rat \<Rightarrow> rat) \<Rightarrow> bool" where
  "float_rounding rnd \<longleftrightarrow> (\<forall>x. 0 < x \<longrightarrow> x / 2 \<le> rnd x \<and> rnd x \<le> 2 * x)"

lemma unat_small: "n < 2 ^ 54 \<Longrightarrow> unat (of_nat n :: size_t) = n"
  by (simp add: unat_of_nat)

lemma next_size_pos:
  assumes r: "float_rounding rnd" and ml: "1 / 100 < si_max_load_factor t" and m: "si_max_buckets t \<noteq> 0"
    and i: "hc_interned t = of_nat n" "n + 1 < 2 ^ 54"
  shows "next_size rnd t \<noteq> 0"
proof -
  have "hc_interned t + 1 = of_nat (n + 1)" by (simp add: i(1))
  then have u: "unat (hc_interned t + 1) = n + 1" using i(2) by (simp only: unat_small)
  have R: "x / 2 \<le> rnd x" "rnd x \<le> 2 * x" if "0 < x" for x
    using r that by (simp_all add: float_rounding_def)
  define N where "N = (of_nat (n + 1) :: rat)"
  define g where "g = rnd N"
  define q where "q = g / si_max_load_factor t"
  define f where "f = rnd q"
  have n1: "0 < N" by (simp add: N_def)
  have g0: "0 < g" using R(1) [OF n1] half_gt_zero [OF n1] unfolding g_def by (rule less_le_trans [rotated])
  have g: "g \<le> 2 * N" unfolding g_def by (rule R(2) [OF n1])
  have q0: "0 < q" unfolding q_def using g0 ml by (intro divide_pos_pos) (auto intro: less_trans [of _ "1 / 100"])
  have "g * 1 \<le> g * (100 * si_max_load_factor t)"
    using g0 ml by (intro mult_left_mono) simp_all
  then have q: "q \<le> 100 * g" unfolding q_def using ml less_trans [of 0 "1 / 100" "si_max_load_factor t"]
    by (simp add: pos_divide_le_eq mult.assoc mult.left_commute)
  have f0: "0 < f" using R(1) [OF q0] half_gt_zero [OF q0] unfolding f_def by (rule less_le_trans [rotated])
  have "f \<le> 2 * q" unfolding f_def by (rule R(2) [OF q0])
  with q g have f1: "f \<le> 400 * N" by linarith
  have "N < of_nat (2 ^ 54)" using i(2) unfolding N_def by (simp only: of_nat_less_iff)
  with f1 have f2: "f < 2 ^ 63" by simp
  have c: "0 < \<lceil>f\<rceil>" "\<lceil>f\<rceil> \<le> 2 ^ 63" using f0 f2 by (simp_all add: zero_less_ceiling ceiling_le_iff)
  let ?nb = "of_int \<lceil>f\<rceil> :: size_t"
  have "uint ?nb = \<lceil>f\<rceil> mod 2 ^ 64" by (simp add: uint_word_of_int)
  also have "\<dots> = \<lceil>f\<rceil>" using c by (simp add: mod_pos_pos_trivial)
  finally have ui: "uint ?nb = \<lceil>f\<rceil>" .
  then have nz: "0 < ?nb" using c(1) by (simp add: word_less_def)
  have "unat ?nb \<le> 2 ^ 63" using ui c by (simp add: unat_eq_nat_uint nat_le_iff)
  with nz bit_ceil_spec [of ?nb] obtain k where "unat (bit_ceil ?nb) = 2 ^ k" by blast
  then have "bit_ceil ?nb \<noteq> 0" by (metis power_not_zero unat_0 zero_neq_numeral)
  with m show ?thesis using u by (simp add: next_size_def Let_def f_def g_def q_def N_def)
qed

definition str_intern_room :: "hash \<Rightarrow> nat \<Rightarrow> interned \<Rightarrow> bool" where
  "str_intern_room svh k t \<longleftrightarrow> core_ok svh t \<and> 1 / 100 < si_max_load_factor t \<and> si_max_buckets t \<noteq> 0 \<and>
     length (hc_strings t) + k < 2 ^ 54"

lemma add_interned_more:
  "add_interned h str t = (a, t') \<Longrightarrow> si_max_load_factor t' = si_max_load_factor t \<and> si_max_buckets t' = si_max_buckets t"
  by (auto simp: add_interned_def Let_def)

lemma str_intern_step:
  assumes r: "float_rounding rnd" and ok: "str_intern_room svh (Suc k) t"
    and s: "str_intern_intern rnd svh str t = (a, t')"
  shows "str_intern_room svh k t' \<and> content t' = (content t)(a \<mapsto> str) \<and>
    (content t a = None \<or> content t a = Some str)"
proof -
  have c: "core_ok svh t" and ml: "1 / 100 < si_max_load_factor t" and m: "si_max_buckets t \<noteq> 0"
    and l: "length (hc_strings t) + Suc k < 2 ^ 54"
    using ok by (simp_all add: str_intern_room_def)
  show ?thesis
  proof (cases "find_interned (svh str) str t")
    case (Some b)
    then have "content t b = Some str" using find_interned_iff [OF c] by blast
    then show ?thesis using Some s ok by (auto simp: str_intern_intern_def Let_def str_intern_room_def)
  next
    case None
    define u where "u = (if si_rehash_count t \<noteq> 0 \<and> hc_interned t \<ge> si_rehash_count t
      then rehash rnd (next_size rnd t) t else t)"
    have i: "hc_interned t = of_nat (length (hc_strings t))" using c by (simp add: core_ok_def)
    have "next_size rnd t \<noteq> 0" by (rule next_size_pos [OF r ml m i]) (use l in simp)
    then have u: "core_ok svh u" by (simp add: u_def c rehash_ok)
    have us: "hc_strings u = hc_strings t" "si_max_load_factor u = si_max_load_factor t" "si_max_buckets u = si_max_buckets t"
      by (simp_all add: u_def)
    have a: "add_interned (svh str) str u = (a, t')"
      using s None by (simp add: str_intern_intern_def Let_def u_def)
    have "str \<notin> set (hc_strings u)" unfolding us by (rule not_found [OF c None])
    from add_interned_ok [OF u this a] add_interned_more [OF a] show ?thesis
      using ml m l by (simp add: us str_intern_room_def content_add [of t' t] content_None)
  qed
qed

text \<open>The library's table, for a hash function and a rounding: the table is empty of room when the rounding is not one.\<close>

interpretation str_table: intern_table "\<lambda>k t. float_rounding rnd \<and> str_intern_room svh k t"
    "str_intern_intern rnd svh" content for rnd svh
proof unfold_locales
  show "float_rounding rnd \<and> str_intern_room svh k t \<Longrightarrow> content t a = Some s \<Longrightarrow> content t b = Some s \<Longrightarrow> a = b"
    for k t a s b by (auto simp: str_intern_room_def intro: content_inj)
qed (use str_intern_step in blast)+

lemma str_intern_new_room:
  assumes "str_intern_new buckets max_buckets = Inr t" "k < 2 ^ 54"
  shows "str_intern_room svh k t \<and> content t = Map.empty"
proof -
  have b: "0 < buckets" "max_buckets \<noteq> 0" and t: "t = interned_new buckets max_buckets"
    using assms(1) by (auto simp: str_intern_new_def word_gt_0_no word_neq_0_conv split: if_splits)
  have "core_ok svh t = core_ok svh (core_new buckets)"
    by (simp add: t interned_new_def core_ok_def core_new_def hash_core.defs)
  then show ?thesis using b core_ok_new [of buckets svh] assms(2)
    by (simp add: str_intern_room_def t interned_new_def core_new_def hash_core.defs content_def fun_eq_iff)
qed

text \<open>C27: Interning any words with the library's table, whatever the hash function, the initial and
  the maximum number of buckets, and however often it rehashes: every returned reference holds
  its word afterwards, two words get the same reference exactly when they are equal, and the table
  holds each different word once.\<close>

theorem str_intern_words:
  assumes "float_rounding rnd" "str_intern_new buckets max_buckets = Inr t" "length ws < 2 ^ 54"
    and "intern_all (str_intern_intern rnd svh) ws t = (as, t')"
  shows "map (content t') as = map Some ws \<and>
    (\<forall>i < length ws. \<forall>j < length ws. as ! i = as ! j \<longleftrightarrow> ws ! i = ws ! j) \<and>
    set (hc_strings t') = set ws \<and> distinct (hc_strings t')"
proof -
  have r: "float_rounding rnd \<and> str_intern_room svh (0 + length ws) t" and e: "content t = Map.empty"
    using str_intern_new_room [OF assms(2,3)] assms(1) by simp_all
  note all = str_table.intern_all_ok [OF r assms(4)]
  have ok: "str_intern_room svh 0 t'" and m: "map (content t') as = map Some ws" and w: "ran (content t') = set ws"
    using all e by simp_all
  have h: "ran (content t') = set (hc_strings t')"
    by (auto simp: ran_def content_def in_set_conv_nth split: if_splits)
  have d: "distinct (hc_strings t')" using ok by (simp add: str_intern_room_def core_ok_def)
  have same: "\<forall>i < length ws. \<forall>j < length ws. as ! i = as ! j \<longleftrightarrow> ws ! i = ws ! j"
    using str_table.intern_all_same [OF r assms(4)] by blast
  from m same w d show ?thesis unfolding h by blast
qed

lemma str_intern_words_witness:
  "\<exists>as t'. intern_all (str_intern_intern id (\<lambda>_. 3)) [''a'', ''b'', ''a''] (interned_new 1 4) = (as, t')
     \<and> map (content t') as = [Some ''a'', Some ''b'', Some ''a''] \<and> distinct (hc_strings t')"
proof -
  obtain as t' where i: "intern_all (str_intern_intern id (\<lambda>_. 3)) [''a'', ''b'', ''a''] (interned_new 1 4) = (as, t')"
    by (cases "intern_all (str_intern_intern id (\<lambda>_. 3)) [''a'', ''b'', ''a''] (interned_new 1 4)")
  have f: "float_rounding id" by (simp add: float_rounding_def)
  have n: "str_intern_new 1 4 = Inr (interned_new 1 4)" by (simp add: str_intern_new_def)
  have l: "length [''a'', ''b'', ''a''] < 2 ^ 54" by simp
  from str_intern_words [OF f n l i] i show ?thesis by simp
qed


section \<open>Construction and the load factor\<close>

lemma unat_power2_64: "n < 64 \<Longrightarrow> unat (2 ^ n :: size_t) = 2 ^ n"
proof -
  assume n: "n < 64"
  have "unat (2 ^ n :: size_t) = unat (of_nat (2 ^ n) :: size_t)" by simp
  also have "\<dots> = 2 ^ n" unfolding unat_of_nat
    using n power_strict_increasing [of n 64 "2 :: nat"] by simp
  finally show ?thesis .
qed

lemma word_power2_iff:
  fixes b :: size_t
  shows "b \<noteq> 0 \<and> b AND (b - 1) = 0 \<longleftrightarrow> (\<exists>n < 64. b = 2 ^ n)"
proof
  assume b: "b \<noteq> 0 \<and> b AND (b - 1) = 0"
  define n where "n = Max {j. bit b j}"
  have fin: "finite {j. bit b j}"
    by (rule finite_subset [of _ "{..<64}"]) (auto dest: bit_imp_le_length)
  have ne: "{j. bit b j} \<noteq> {}" using b by (auto simp: bit_eq_iff)
  have bn: "bit b n" using Max_in [OF fin ne] by (simp add: n_def)
  have top: "\<forall>j > n. \<not> bit b j" using Max_ge [OF fin] unfolding n_def by (metis mem_Collect_eq not_le)
  have n64: "n < 64" using bn bit_imp_le_length by fastforce
  have "b = 2 ^ n"
  proof (rule ccontr)
    assume neq: "b \<noteq> 2 ^ n"
    have le: "2 ^ n \<le> unat b" and lt: "unat b < 2 ^ Suc n" by (rule top_bit_bounds [OF bn top])+
    have u: "unat (2 ^ n :: size_t) = 2 ^ n" using n64 by (simp add: unat_power2_64)
    have "unat b \<noteq> 2 ^ n" using neq u by (metis word_unat_eq_iff)
    with le have gt: "2 ^ n < unat b" by simp
    have um: "unat (b - 1) = unat b - 1" using b by (simp add: unat_minus_one)
    have "unat (b - 1) div 2 ^ n = 1"
      using gt lt um by (intro div_nat_eqI) simp_all
    then have "bit (unat (b - 1)) n" by (simp add: bit_iff_odd)
    then have "bit (b - 1) n" by (simp add: bit_simps)
    with bn have "bit (b AND (b - 1)) n" by (simp add: bit_and_iff)
    then show False by (simp add: b)
  qed
  then show "\<exists>n < 64. b = 2 ^ n" using n64 by blast
next
  assume "\<exists>n < 64. b = 2 ^ n"
  then obtain n where n: "n < 64" "b = 2 ^ n" by blast
  then have "unat b = 2 ^ n" by (simp add: unat_power2_64)
  then have "b \<noteq> 0" by auto
  moreover have "b AND (b - 1) = 0"
    unfolding n(2) by (rule bit_eqI) (auto simp: bit_and_iff bit_exp_iff mask_eq_exp_minus_1 [symmetric] bit_mask_iff)
  ultimately show "b \<noteq> 0 \<and> b AND (b - 1) = 0" by blast
qed

lemma power2_divides_iff:
  fixes m :: size_t
  assumes "n < 64"
  shows "m AND (2 ^ n - 1) = 0 \<longleftrightarrow> 2 ^ n dvd unat m"
  by (simp add: mask_eq_exp_minus_1 [symmetric] and_mask_dvd_nat)

text \<open>The constructor accepts the numbers of buckets exactly when the first one is a power of two
  that divides the second one, which is not zero: \<open>max_buckets\<close> itself does not need to be a power of
  two, although the message of the last check says so.\<close>

theorem str_intern_new_accepts:
  "is_ok (str_intern_new buckets max_buckets) \<longleftrightarrow>
     (\<exists>n < 64. unat buckets = 2 ^ n) \<and> unat buckets dvd unat max_buckets \<and> max_buckets \<noteq> 0"
proof (cases "\<exists>n < 64. buckets = 2 ^ n")
  case True
  then obtain n where n: "n < 64" "buckets = 2 ^ n" by blast
  have u: "unat buckets = 2 ^ n" using n by (simp add: unat_power2_64)
  have b: "buckets \<noteq> 0" "buckets AND (buckets - 1) = 0" using True word_power2_iff by blast+
  have d: "max_buckets AND (buckets - 1) = 0 \<longleftrightarrow> 2 ^ n dvd unat max_buckets"
    using power2_divides_iff [OF n(1)] n(2) by simp
  have "\<not> max_buckets < buckets" if "2 ^ n dvd unat max_buckets" "max_buckets \<noteq> 0"
    using that u by (simp add: word_less_nat_alt unat_gt_0 dvd_imp_le not_less)
  moreover have "max_buckets \<noteq> 0" if "\<not> max_buckets < buckets" using that b by (auto simp: word_gt_0)
  ultimately have "is_ok (str_intern_new buckets max_buckets) \<longleftrightarrow> 2 ^ n dvd unat max_buckets \<and> max_buckets \<noteq> 0"
    using b d by (auto simp: str_intern_new_def is_ok_def)
  then show ?thesis using u n(1) by auto
next
  case False
  then have "buckets = 0 \<or> buckets AND (buckets - 1) \<noteq> 0" using word_power2_iff by blast
  then have "\<not> is_ok (str_intern_new buckets max_buckets)" by (simp add: str_intern_new_def)
  moreover have "\<not> (\<exists>n < 64. unat buckets = 2 ^ n)"
  proof
    assume "\<exists>n < 64. unat buckets = 2 ^ n"
    then obtain n where "n < 64" "unat buckets = unat (2 ^ n :: size_t)" using unat_power2_64 by metis
    then show False using False by (metis word_unat_eq_iff)
  qed
  ultimately show ?thesis by blast
qed

text \<open>Lowering the maximum load factor does not make the table grow: whatever factor is accepted, as long as
  there are fewer words than buckets the next new word is put into the buckets that are there.\<close>

theorem str_intern_lower_load_factor:
  assumes "str_intern_max_load_factor rnd ml t = Inr t'" "hc_interned t < bucket_count t"
    and "str_intern_intern rnd svh str t' = (a, t'')"
  shows "hc_mask t'' = hc_mask t \<and> length (hc_set t'') = length (hc_set t)"
proof -
  define c where "c = si_rehash_count t'"
  have t': "t' = t\<lparr>si_max_load_factor := ml, si_rehash_count := c\<rparr>"
    using assms(1) unfolding c_def
    by (auto simp: str_intern_max_load_factor_def interned_max_load_factor_def Let_def split: if_splits)
  have c: "c = 0 \<or> bucket_count t \<le> c"
    using assms(1) unfolding c_def
    by (auto simp: str_intern_max_load_factor_def interned_max_load_factor_def Let_def bucket_count_def split: if_splits)
  have "\<not> (si_rehash_count t' \<noteq> 0 \<and> hc_interned t' \<ge> si_rehash_count t')"
    using c assms(2) by (auto simp: t')
  then show ?thesis using assms(3)
    by (auto simp: str_intern_intern_def Let_def add_interned_def t' split: option.splits)
qed

lemma str_intern_lower_load_factor_witness:
  "hc_mask (snd (str_intern_intern id (\<lambda>_. 3) ''a'' (interned_max_load_factor id (1 / 2) (interned_new 4 16)))) = 3
   \<and> length (hc_set (snd (str_intern_intern id (\<lambda>_. 3) ''a'' (interned_max_load_factor id (1 / 2) (interned_new 4 16))))) = 4"
proof -
  have m: "str_intern_max_load_factor id (1 / 2) (interned_new 4 16)
      = Inr (interned_max_load_factor id (1 / 2) (interned_new 4 16))"
    by (simp add: str_intern_max_load_factor_def)
  have i: "hc_interned (interned_new 4 16) < bucket_count (interned_new 4 16)"
    by (simp add: interned_new_def core_new_def hash_core.defs bucket_count_def)
  show ?thesis
    using str_intern_lower_load_factor [OF m i surjective_pairing, of "\<lambda>_. 3" "''a''"]
    by (simp add: interned_new_def core_new_def hash_core.defs)
qed

text \<open>The benchmark's set with one bucket and a load factor of one and a half computes zero as the next number of
  buckets when its second word arrives, because the quotient truncates to zero and \<open>bit_ceil(0)\<close> is zero: the table
  is replaced by an empty one, and the bucket of the word is out of its range.\<close>

theorem var_set_grows_to_zero:
  "let t = snd (var_set_intern id (\<lambda>_. 3) ''a'' (var_set_max_load_factor id (3 / 2) (interned_new 1 4)))
   in si_rehash_count t \<noteq> 0 \<and> hc_interned t \<ge> si_rehash_count t \<and> var_set_next_size id t = 0
      \<and> hc_set (var_set_rehash id (var_set_next_size id t) t) = []"
proof -
  have f: "\<lfloor>3 / 2 :: rat\<rfloor> = 1" "\<lfloor>2 / 3 :: rat\<rfloor> = 0" by (simp_all add: floor_eq_iff)
  let ?t = "snd (var_set_intern id (\<lambda>_. 3) ''a'' (var_set_max_load_factor id (3 / 2) (interned_new 1 4)))"
  have t: "?t = \<lparr>hc_interned = 1, hc_set = [[\<lparr>b_hash = 3, b_interned = 0\<rparr>]], hc_strings = [''a''], hc_mask = 0,
      si_max_buckets = 4, si_max_load_factor = 3 / 2, si_rehash_count = 1\<rparr>"
    by (simp add: var_set_intern_def var_set_max_load_factor_def interned_new_def core_new_def hash_core.defs
        find_interned_def add_interned_def bucket_def Let_def f)
  have n: "var_set_next_size id ?t = 0"
    unfolding t by (simp add: var_set_next_size_def Let_def f bit_ceil_def)
  show ?thesis unfolding Let_def n unfolding t by (simp add: var_set_rehash_def rehash_block_def Let_def)
qed

text \<open>With a load factor of at most one, and a rounding that does not round what is at least one below one, the number of
  buckets never becomes zero, so the benchmark's set keeps the contract as well.\<close>

definition float_rounding_ones :: "(rat \<Rightarrow> rat) \<Rightarrow> bool" where
  "float_rounding_ones rnd \<longleftrightarrow> float_rounding rnd \<and> (\<forall>x. 1 \<le> x \<longrightarrow> 1 \<le> rnd x)"

definition var_set_room :: "hash \<Rightarrow> nat \<Rightarrow> interned \<Rightarrow> bool" where
  "var_set_room svh k t \<longleftrightarrow> str_intern_room svh k t \<and> si_max_load_factor t \<le> 1 \<and> si_max_buckets t \<le> 2 ^ 62"

lemma float_rounding_bounds:
  assumes "float_rounding rnd" "0 < x"
  shows "0 < rnd x" "rnd x \<le> 2 * x"
proof -
  have "x / 2 \<le> rnd x" "rnd x \<le> 2 * x" using assms by (simp_all add: float_rounding_def)
  then show "0 < rnd x" "rnd x \<le> 2 * x" using half_gt_zero [OF assms(2)] by linarith+
qed

lemma bit_ceil_pos: "0 < v \<Longrightarrow> unat v \<le> 2 ^ 63 \<Longrightarrow> bit_ceil v \<noteq> 0"
proof -
  assume "0 < v" "unat v \<le> 2 ^ 63"
  then obtain k where "unat (bit_ceil v) = 2 ^ k" using bit_ceil_spec [of v] by blast
  then show "bit_ceil v \<noteq> 0" by (metis power_not_zero unat_0 zero_neq_numeral)
qed

lemma var_set_next_size_pos:
  assumes r: "float_rounding_ones rnd" and ml: "1 / 100 < si_max_load_factor t" "si_max_load_factor t \<le> 1"
    and m: "si_max_buckets t \<noteq> 0" "si_max_buckets t \<le> 2 ^ 62" and i: "hc_interned t = of_nat n" "0 < n" "n < 2 ^ 54"
  shows "var_set_next_size rnd t \<noteq> 0"
proof -
  define g where "g = rnd (of_nat n)"
  define q where "q = g / si_max_load_factor t"
  define f where "f = rnd q"
  have u: "unat (hc_interned t) = n" using i by (simp add: unat_small)
  have R: "float_rounding rnd" "\<And>x. 1 \<le> x \<Longrightarrow> 1 \<le> rnd x" using r by (simp_all add: float_rounding_ones_def)
  have n1: "(1 :: rat) \<le> of_nat n" using i(2) by simp
  have g: "1 \<le> g" "g \<le> 2 * of_nat n" unfolding g_def using R(2) [OF n1] float_rounding_bounds [OF R(1), of "of_nat n"] i(2) by simp_all
  have p: "0 < si_max_load_factor t" using ml by (rule_tac less_trans [of 0 "1 / 100"]) simp_all
  have q: "1 \<le> q" unfolding q_def using g ml p by (simp add: le_divide_eq)
  have "g * 1 \<le> g * (100 * si_max_load_factor t)" using g(1) ml(1) by (intro mult_left_mono) simp_all
  then have "q \<le> 100 * g" unfolding q_def using p by (simp add: pos_divide_le_eq mult.assoc mult.left_commute)
  moreover have f1: "1 \<le> f" "f \<le> 2 * q" unfolding f_def using R(2) [OF q] float_rounding_bounds [OF R(1), of q] q by simp_all
  ultimately have f2: "f \<le> 400 * of_nat n" using g(2) by linarith
  have "(of_nat n :: rat) < of_nat (2 ^ 54)" using i(3) by (simp only: of_nat_less_iff)
  with f2 have "f < 2 ^ 63" by simp
  then have c: "1 \<le> \<lfloor>f\<rfloor>" "\<lfloor>f\<rfloor> < 2 ^ 63" using f1 by (simp_all add: le_floor_iff floor_less_iff)
  let ?nb = "of_int \<lfloor>f\<rfloor> :: size_t"
  have "uint ?nb = \<lfloor>f\<rfloor> mod 2 ^ 64" by (simp add: uint_word_of_int)
  also have "\<dots> = \<lfloor>f\<rfloor>" using c by (simp add: mod_pos_pos_trivial)
  finally have ui: "uint ?nb = \<lfloor>f\<rfloor>" .
  have nz: "0 < ?nb" using ui c(1) by (simp add: word_less_def)
  have le: "unat ?nb \<le> 2 ^ 63" using ui c by (simp add: unat_eq_nat_uint nat_le_iff)
  have "bit_ceil (push_bit 1 ?nb) \<noteq> 0" if "\<not> ?nb \<ge> si_max_buckets t"
  proof (rule bit_ceil_pos)
    have "unat ?nb < 2 ^ 62" using that m(2) by (simp add: word_less_nat_alt word_le_nat_alt)
    then have d: "unat (push_bit 1 ?nb) = 2 * unat ?nb" by (simp add: push_bit_eq_mult unat_word_ariths)
    then show "unat (push_bit 1 ?nb) \<le> 2 ^ 63" using \<open>unat ?nb < 2 ^ 62\<close> by simp
    show "0 < push_bit 1 ?nb" using d nz by (simp add: word_less_nat_alt)
  qed
  then show ?thesis using bit_ceil_pos [OF nz le] m(1) u
    by (auto simp: var_set_next_size_def Let_def f_def g_def q_def)
qed

lemma var_set_step:
  assumes r: "float_rounding_ones rnd" and ok: "var_set_room svh (Suc k) t"
    and s: "var_set_intern rnd svh str t = (a, t')"
  shows "var_set_room svh k t' \<and> content t' = (content t)(a \<mapsto> str) \<and>
    (content t a = None \<or> content t a = Some str)"
proof -
  have c: "core_ok svh t" and ml: "1 / 100 < si_max_load_factor t" "si_max_load_factor t \<le> 1"
    and m: "si_max_buckets t \<noteq> 0" "si_max_buckets t \<le> 2 ^ 62" and l: "length (hc_strings t) + Suc k < 2 ^ 54"
    using ok by (simp_all add: var_set_room_def str_intern_room_def)
  show ?thesis
  proof (cases "find_interned (svh str) str t")
    case (Some b)
    then have "content t b = Some str" using find_interned_iff [OF c] by blast
    then show ?thesis using Some s ok by (auto simp: var_set_intern_def Let_def var_set_room_def str_intern_room_def)
  next
    case None
    define u where "u = (if si_rehash_count t \<noteq> 0 \<and> hc_interned t \<ge> si_rehash_count t
      then rehash rnd (var_set_next_size rnd t) t else t)"
    have i: "hc_interned t = of_nat (length (hc_strings t))" using c by (simp add: core_ok_def)
    have "var_set_next_size rnd t \<noteq> 0" if "si_rehash_count t \<noteq> 0" "hc_interned t \<ge> si_rehash_count t"
    proof (rule var_set_next_size_pos [OF r ml m i])
      show "0 < length (hc_strings t)" using that i by (cases "hc_strings t") simp_all
    qed (use l in simp)
    then have u: "core_ok svh u" by (simp add: u_def c rehash_ok)
    have us: "hc_strings u = hc_strings t" "si_max_load_factor u = si_max_load_factor t" "si_max_buckets u = si_max_buckets t"
      by (simp_all add: u_def)
    have a: "add_interned (svh str) str u = (a, t')"
      using s None unfolding u_def var_set_rehash_eq [symmetric] by (simp add: var_set_intern_def Let_def)
    have "str \<notin> set (hc_strings u)" unfolding us by (rule not_found [OF c None])
    from add_interned_ok [OF u this a] add_interned_more [OF a] show ?thesis
      using ml m l by (simp add: us var_set_room_def str_intern_room_def content_add [of t' t] content_None)
  qed
qed

interpretation var_table: intern_table "\<lambda>k t. float_rounding_ones rnd \<and> var_set_room svh k t"
    "var_set_intern rnd svh" content for rnd svh
proof unfold_locales
  show "float_rounding_ones rnd \<and> var_set_room svh k t \<Longrightarrow> content t a = Some s \<Longrightarrow> content t b = Some s \<Longrightarrow> a = b"
    for k t a s b by (auto simp: var_set_room_def str_intern_room_def intro: content_inj)
qed (use var_set_step in blast)+

lemma var_set_new_eq: "intern_var_set_new = str_intern_new"
  by (intro ext) (simp add: intern_var_set_new_def str_intern_new_def interned_new_def)

text \<open>The library's table and the benchmark's set identify the same words, although they grow to different sizes.\<close>

theorem var_set_agrees_with_str_intern:
  assumes "float_rounding_ones rnd" "intern_var_set_new buckets max_buckets = Inr t" "max_buckets \<le> 2 ^ 62" "length ws < 2 ^ 54"
    and "intern_all (var_set_intern rnd svh) ws t = (as, t1)" "intern_all (str_intern_intern rnd svh) ws t = (bs, t2)"
    and "i < length ws" "j < length ws"
  shows "(as ! i = as ! j \<longleftrightarrow> bs ! i = bs ! j) \<and> map (content t1) as = map (content t2) bs"
proof -
  have room: "str_intern_room svh (0 + length ws) t"
    using str_intern_new_room [OF _ assms(4)] assms(2) by (simp add: var_set_new_eq)
  have ml: "si_max_load_factor t = 1" "si_max_buckets t = max_buckets"
    using assms(2) by (auto simp: intern_var_set_new_def hash_core.defs split: if_splits)
  have v: "float_rounding_ones rnd \<and> var_set_room svh (0 + length ws) t"
    using room ml assms(1,3) by (simp add: var_set_room_def)
  have s: "float_rounding rnd \<and> str_intern_room svh (0 + length ws) t"
    using room assms(1) by (simp add: float_rounding_ones_def)
  show ?thesis
    using var_table.intern_all_same [OF v assms(5,7,8)] str_table.intern_all_same [OF s assms(6,7,8)]
      var_table.intern_all_ok [OF v assms(5)] str_table.intern_all_ok [OF s assms(6)] by simp
qed

theorem var_set_agrees_with_str_intern_witness:
  "\<exists>as t1 bs t2. intern_all (var_set_intern id (\<lambda>_. 3)) [''a'', ''b'', ''a''] (interned_new 1 4) = (as, t1)
     \<and> intern_all (str_intern_intern id (\<lambda>_. 3)) [''a'', ''b'', ''a''] (interned_new 1 4) = (bs, t2)
     \<and> map (content t1) as = map (content t2) bs"
proof -
  obtain as t1 where a: "intern_all (var_set_intern id (\<lambda>_. 3)) [''a'', ''b'', ''a''] (interned_new 1 4) = (as, t1)"
    by (rule prod.exhaust)
  obtain bs t2 where b: "intern_all (str_intern_intern id (\<lambda>_. 3)) [''a'', ''b'', ''a''] (interned_new 1 4) = (bs, t2)"
    by (rule prod.exhaust)
  have f: "float_rounding_ones id" by (simp add: float_rounding_ones_def float_rounding_def)
  have n: "intern_var_set_new 1 4 = Inr (interned_new 1 4)" by (simp add: var_set_new_eq str_intern_new_def)
  have l: "length [''a'', ''b'', ''a''] < 2 ^ 54" "(4 :: size_t) \<le> 2 ^ 62" by simp_all
  show ?thesis using var_set_agrees_with_str_intern [OF f n l(2,1) a b, of 0 1] a b by simp
qed

section \<open>The linear list keeps the contract as well\<close>

text \<open>The node at address \<open>a\<close> has \<open>a\<close> nodes behind it.\<close>

definition flist_content :: "32 word \<times> string list \<Rightarrow> addr \<Rightarrow> string option" where
  "flist_content t a = (if a < length (snd t) then Some (rev (snd t) ! a) else None)"

lemma flist_find_Some: "flist_find str ss = Some a \<Longrightarrow> a < length ss \<and> rev ss ! a = str"
  by (induction ss) (auto simp: nth_append split: if_splits)

lemma flist_find_None: "flist_find str ss = None \<longleftrightarrow> str \<notin> set ss"
  by (induction ss) auto

lemma flist_intern_step:
  assumes d: "distinct (snd t)" and i: "flist_intern str t = (a, t')"
  shows "distinct (snd t') \<and> flist_content t' = (flist_content t)(a \<mapsto> str) \<and>
    (flist_content t a = None \<or> flist_content t a = Some str)"
proof (cases "flist_find str (snd t)")
  case None
  then have t: "a = length (snd t)" "snd t' = str # snd t"
    using i by (auto simp: flist_intern_def split: prod.splits)
  moreover have "str \<notin> set (snd t)" using None by (simp add: flist_find_None)
  ultimately show ?thesis using d by (auto simp: flist_content_def fun_eq_iff nth_append)
next
  case (Some b)
  then have "a = b" "t' = t" using i by (auto simp: flist_intern_def split: prod.splits)
  then show ?thesis using flist_find_Some [OF Some] d by (auto simp: flist_content_def fun_eq_iff)
qed

lemma flist_content_inj:
  "distinct (snd t) \<Longrightarrow> flist_content t a = Some s \<Longrightarrow> flist_content t b = Some s \<Longrightarrow> a = b"
  using nth_eq_iff_index_eq [of "rev (snd t)" a b] by (auto simp: flist_content_def split: if_splits)

interpretation linear: intern_table "\<lambda>_ t. distinct (snd t)" flist_intern flist_content
  by unfold_locales (auto dest: flist_intern_step intro: flist_content_inj)

text \<open>The benchmark's hash set and its linear list identify the same words: after interning the same sequence with
  both, two words have the same reference in the one exactly when they have in the other, that is when they are equal.\<close>

theorem fixed_set_agrees_with_list:
  assumes "fixed_set_new buckets = Inr t" "buckets \<noteq> 0"
    and "intern_all (fixed_set_intern svh) ws t = (as, t')"
    and "intern_all flist_intern ws (0, []) = (bs, l')"
    and "i < length ws" "j < length ws"
  shows "(as ! i = as ! j \<longleftrightarrow> bs ! i = bs ! j) \<and> (bs ! i = bs ! j \<longleftrightarrow> ws ! i = ws ! j)"
proof -
  have ok: "core_ok svh t" using assms(1,2) core_ok_new [of buckets svh]
    by (auto simp: fixed_set_new_def word_neq_0_conv split: if_splits)
  have d: "distinct (snd (0, []))" by simp
  show ?thesis
    using fixed.intern_all_same [OF ok assms(3,5,6)] linear.intern_all_same [OF d assms(4,5,6)] by simp
qed

lemma fixed_set_agrees_with_list_witness:
  "\<exists>as t' bs l'. intern_all (fixed_set_intern (\<lambda>_. 3)) [''a'', ''b''] (core_new 2) = (as, t')
     \<and> intern_all flist_intern [''a'', ''b''] (0, []) = (bs, l') \<and> as ! 0 \<noteq> as ! 1 \<and> bs ! 0 \<noteq> bs ! 1"
proof -
  obtain as t' where a: "intern_all (fixed_set_intern (\<lambda>_. 3)) [''a'', ''b''] (core_new 2) = (as, t')"
    by (rule prod.exhaust)
  obtain bs l' where b: "intern_all flist_intern [''a'', ''b''] (0, []) = (bs, l')"
    by (rule prod.exhaust)
  have n: "fixed_set_new 2 = Inr (core_new 2)" "(2 :: size_t) \<noteq> 0" by (simp_all add: fixed_set_new_def)
  show ?thesis using fixed_set_agrees_with_list [OF n a b, of 0 1] a b by simp
qed

end
