(* ===== verification/Inet.thy ===== *)
theory Inet
  imports Prelude
begin

text \<open>
  Bytes on the wire: the helpers that \<open>l2_eth_udp_pkt.cpp\<close> and
  \<open>bpf_l2_udp_packet.cpp\<close> both have to read and write integers in a buffer, the
  loops that sum 16-bit words and fold the carries, and the Internet checksum they
  compute, stated on the bytes alone (\<open>oc_sum\<close>, \<open>checksum_ok\<close>).  A \<open>memcpy\<close> of an
  integer stores its bytes in the order of the hosts QNX runs on, the low byte first.
\<close>

type_synonym byte = "8 word"

section \<open>Reading and writing integers\<close>

definition read_uint16_t_be :: "byte list \<Rightarrow> nat \<Rightarrow> 16 word" where
  "read_uint16_t_be data offset = push_bit 8 (ucast (data ! offset)) OR ucast (data ! (offset + 1))"

definition write_uint16_t_be :: "byte list \<Rightarrow> nat \<Rightarrow> 16 word \<Rightarrow> byte list" where
  "write_uint16_t_be data offset value =
     (let data = data[offset := ucast (drop_bit 8 value AND 0xFF)]
      in data[offset + 1 := ucast (value AND 0xFF)])"

definition memcpy_to :: "byte list \<Rightarrow> nat \<Rightarrow> byte list \<Rightarrow> byte list" where
  "memcpy_to data offset bytes = take offset data @ bytes @ drop (offset + length bytes) data"

definition write_uint16_t :: "byte list \<Rightarrow> nat \<Rightarrow> 16 word \<Rightarrow> byte list" where
  "write_uint16_t data offset value = memcpy_to data offset [ucast value, ucast (drop_bit 8 value)]"

definition write_uint32_t :: "byte list \<Rightarrow> nat \<Rightarrow> 32 word \<Rightarrow> byte list" where
  "write_uint32_t data offset value = memcpy_to data offset
     [ucast value, ucast (drop_bit 8 value), ucast (drop_bit 16 value), ucast (drop_bit 24 value)]"

text \<open>The value of two bytes in network order.\<close>

definition be16 :: "byte \<Rightarrow> byte \<Rightarrow> nat" where
  "be16 a b = 256 * unat a + unat b"

definition hi :: "16 word \<Rightarrow> byte" where "hi v = ucast (drop_bit 8 v)"
definition lo :: "16 word \<Rightarrow> byte" where "lo v = ucast v"

lemma write_uint16_t_be_eq:
  "write_uint16_t_be data offset v = data[offset := hi v, offset + 1 := lo v]"
proof -
  have mask8: "(0xFF :: 16 word) = mask 8" by (simp add: mask_numeral)
  have "(ucast (drop_bit 8 v AND 0xFF) :: byte) = hi v" "(ucast (v AND 0xFF) :: byte) = lo v"
    unfolding mask8 by (auto simp: hi_def lo_def bit_eq_iff bit_simps)
  then show ?thesis by (simp add: write_uint16_t_be_def Let_def)
qed

lemma unat_hi: "unat (hi v) = unat v div 256" and unat_lo: "unat (lo v) = unat v mod 256"
proof -
  have v: "unat v < 65536" using unsigned_less [of v] by simp
  show "unat (lo v) = unat v mod 256"
    by (simp add: lo_def unsigned_ucast_eq take_bit_eq_mod)
  have "unat v div 256 < 256" using v by (simp add: less_mult_imp_div_less)
  moreover have "unat (hi v) = take_bit 8 (unat (drop_bit 8 v))" by (simp add: hi_def unsigned_ucast_eq)
  moreover have "unat (drop_bit 8 v) = unat v div 256" by (simp add: drop_bit_eq_div unat_div_distrib)
  ultimately show "unat (hi v) = unat v div 256" by (simp only: take_bit_eq_mod) (simp add: unat_div_distrib)
qed

lemma be16_hi_lo [simp]: "be16 (hi v) (lo v) = unat v"
  by (simp add: be16_def unat_hi unat_lo)

lemma unat_byte: "unat (b :: byte) < 256"
  using unsigned_less [of b] by simp

lemma be16_le: "be16 a b \<le> 65535"
  using unat_byte [of a] unat_byte [of b] by (simp add: be16_def)

lemma unat_read_uint16_t_be: "unat (read_uint16_t_be d i) = be16 (d ! i) (d ! (i + 1))"
proof -
  let ?a = "d ! i" and ?b = "d ! (i + 1)"
  have "push_bit 8 (ucast ?a :: 16 word) OR ucast ?b = push_bit 8 (ucast ?a) + ucast ?b"
    by (rule disjunctive_add_eq_or [symmetric]) (auto simp: bit_eq_iff bit_simps dest: bit_imp_le_length)
  also have "\<dots> = of_nat (be16 ?a ?b)"
    by (simp add: push_bit_eq_mult be16_def mult.commute)
  finally show ?thesis using be16_le [of ?a ?b]
    by (simp add: read_uint16_t_be_def unat_of_nat)
qed

section \<open>The sum of the words\<close>

text \<open>The ones' complement sum before the carries are folded, an odd last byte padded with zero.\<close>

fun oc_sum :: "byte list \<Rightarrow> nat" where
  "oc_sum [] = 0"
| "oc_sum [a] = be16 a 0"
| "oc_sum (a # b # bs) = be16 a b + oc_sum bs"

lemma oc_sum_append: "even (length xs) \<Longrightarrow> oc_sum (xs @ ys) = oc_sum xs + oc_sum ys"
  by (induction xs rule: oc_sum.induct) simp_all

lemma oc_sum_le: "2 * oc_sum bs \<le> 65535 * Suc (length bs)"
proof (induction bs rule: oc_sum.induct)
  case (2 a)
  then show ?case using be16_le [of a 0] by simp
next
  case (3 a b bs)
  then show ?case using be16_le [of a b] by simp
qed simp

text \<open>\<open>for (w = 0; w < n; ++w) cs += read_uint16_t_be(data, offset + w * 2)\<close>\<close>

fun add_words :: "byte list \<Rightarrow> nat \<Rightarrow> nat \<Rightarrow> 32 word \<Rightarrow> 32 word" where
  "add_words data offset 0 cs = cs"
| "add_words data offset (Suc n) cs =
     add_words data (offset + 2) n (cs + ucast (read_uint16_t_be data offset))"

lemma unat_add_word:
  fixes cs :: "32 word" and w :: "16 word"
  assumes "unat cs + unat w < 2 ^ 32"
  shows "unat (cs + ucast w) = unat cs + unat w"
  using assms by (simp add: unat_plus_if' unsigned_ucast_eq take_bit_eq_mod)

lemma unat_add_words:
  "offset + 2 * n \<le> length data \<Longrightarrow> unat cs + 65535 * n < 2 ^ 32 \<Longrightarrow>
   unat (add_words data offset n cs) = unat cs + oc_sum (take (2 * n) (drop offset data))"
proof (induction n arbitrary: offset cs)
  case (Suc n)
  let ?w = "read_uint16_t_be data offset"
  have w: "unat ?w \<le> 65535" using be16_le by (simp add: unat_read_uint16_t_be)
  have c: "unat (cs + ucast ?w) = unat cs + unat ?w"
    using w Suc.prems(2) by (intro unat_add_word) simp
  have d: "drop offset data = data ! offset # data ! (offset + 1) # drop (offset + 2) data"
    using Suc.prems(1) by (simp add: Cons_nth_drop_Suc)
  have "unat (add_words data (offset + 2) n (cs + ucast ?w))
      = unat (cs + ucast ?w) + oc_sum (take (2 * n) (drop (offset + 2) data))"
    by (rule Suc.IH) (use Suc.prems w c in simp_all)
  then show ?case using c by (simp add: d unat_read_uint16_t_be)
qed simp

section \<open>Folding the carries\<close>

lemma unat_fold_step: "unat ((cs AND 0xFFFF) + drop_bit 16 cs :: 32 word) = unat cs mod 65536 + unat cs div 65536"
proof -
  have c: "unat cs < 2 ^ 32" using unsigned_less [of cs] by simp
  have "cs AND 0xFFFF = take_bit 16 cs" by (simp add: take_bit_eq_mask mask_numeral)
  then have a: "unat (cs AND 0xFFFF) = unat cs mod 65536" by (simp add: take_bit_eq_mod unat_mod_distrib)
  have d: "unat (drop_bit 16 cs) = unat cs div 65536" by (simp add: drop_bit_eq_div unat_div_distrib)
  have "unat cs div 65536 < 65536" using c by (simp add: less_mult_imp_div_less)
  then show ?thesis by (simp add: unat_plus_if' a d)
qed

function fold_cs :: "32 word \<Rightarrow> 32 word" where
  "fold_cs cs = (if cs > 0xFFFF then fold_cs ((cs AND 0xFFFF) + drop_bit 16 cs) else cs)"
  by auto
termination
proof (relation "measure unat")
  fix cs :: "32 word" assume "cs > 0xFFFF"
  then have "65535 < unat cs" by (simp add: word_less_nat_alt)
  moreover have "unat cs = 65536 * (unat cs div 65536) + unat cs mod 65536" by simp
  ultimately have "unat cs mod 65536 + unat cs div 65536 < unat cs" by linarith
  then show "((cs AND 0xFFFF) + drop_bit 16 cs, cs) \<in> measure unat" by (simp add: unat_fold_step)
qed simp

declare fold_cs.simps [simp del]

lemma fold_cs_spec:
  "unat (fold_cs cs) \<le> 65535 \<and> unat (fold_cs cs) mod 65535 = unat cs mod 65535 \<and> (unat (fold_cs cs) = 0 \<longleftrightarrow> unat cs = 0)"
proof (induction cs rule: fold_cs.induct)
  case (1 cs)
  show ?case
  proof (cases "cs > 0xFFFF")
    case True
    let ?c = "(cs AND 0xFFFF) + drop_bit 16 cs"
    have e: "fold_cs cs = fold_cs ?c" using True by (subst fold_cs.simps) simp
    have s: "unat cs = 65536 * (unat cs div 65536) + unat cs mod 65536" by simp
    then have "unat cs = 65535 * (unat cs div 65536) + unat ?c"
      unfolding unat_fold_step by linarith
    then have m: "unat cs mod 65535 = unat ?c mod 65535" by (metis mod_mult_self4)
    have "65535 < unat cs" using True by (simp add: word_less_nat_alt)
    then have "unat ?c \<noteq> 0" "unat cs \<noteq> 0" unfolding unat_fold_step using s by linarith+
    with 1 [OF True] m show ?thesis unfolding e by metis
  next
    case False
    then have "unat cs \<le> 65535" by (simp add: word_less_nat_alt)
    moreover have "fold_cs cs = cs" using False by (subst fold_cs.simps) simp
    ultimately show ?thesis by simp
  qed
qed

lemma unat_not16: "unat (cs :: 32 word) \<le> 65535 \<Longrightarrow> unat (ucast (NOT cs) :: 16 word) = 65535 - unat cs"
proof -
  assume c: "unat cs \<le> 65535"
  have n: "(ucast (NOT cs) :: 16 word) = NOT (ucast cs)" by (auto simp: bit_eq_iff bit_simps)
  have u: "unat (ucast cs :: 16 word) = unat cs" using c by (simp add: unsigned_ucast_eq take_bit_eq_mod)
  have "NOT (ucast cs) = (- 1 :: 16 word) - ucast cs" by (simp add: not_eq_complement)
  moreover have "unat ((- 1 :: 16 word) - ucast cs) = unat (- 1 :: 16 word) - unat (ucast cs :: 16 word)"
    by (rule unat_sub) simp
  moreover have "unat (- 1 :: 16 word) = 65535" by (simp add: unsigned_minus_1_eq_mask mask_numeral)
  ultimately show ?thesis using u by (simp add: n)
qed

section \<open>The Internet checksum\<close>

text \<open>What a receiver checks: the ones' complement sum over everything, checksum included, is all ones.\<close>

definition checksum_ok :: "byte list \<Rightarrow> bool" where
  "checksum_ok bs \<longleftrightarrow> oc_sum bs \<noteq> 0 \<and> oc_sum bs mod 65535 = 0"

lemma complement_sum:
  assumes "f \<le> 65535" "f mod 65535 = s mod 65535"
  shows "(s + (65535 - f)) mod 65535 = (0 :: nat)"
proof -
  have "(s + (65535 - f)) mod 65535 = (f + (65535 - f)) mod 65535"
    using assms(2) by (metis mod_add_left_eq)
  then show ?thesis using assms(1) by simp
qed


section \<open>What a receiver does\<close>

text \<open>The reference for the senders: an Ethernet frame with an optional VLAN tag, an IPv4 packet without
  options, and a UDP segment, each accepted only with the right lengths and checksums
  (RFC 791, RFC 768).\<close>

record ipv4_rx =
  rx_id :: nat
  rx_mf :: bool
  rx_offset :: nat
  rx_ttl :: byte
  rx_src :: "byte list"
  rx_dst :: "byte list"
  rx_data :: "byte list"

definition ipv4_receive :: "byte list \<Rightarrow> ipv4_rx option" where
  "ipv4_receive ip =
     (let total = be16 (ip ! 2) (ip ! 3); fl = be16 (ip ! 6) (ip ! 7) in
      if length ip < 20 \<or> ip ! 0 \<noteq> 0x45 \<or> total < 20 \<or> length ip \<noteq> total \<or> ip ! 9 \<noteq> 17
         \<or> \<not> checksum_ok (take 20 ip) then None
      else Some \<lparr>rx_id = be16 (ip ! 4) (ip ! 5), rx_mf = odd (fl div 8192), rx_offset = 8 * (fl mod 8192),
        rx_ttl = ip ! 8, rx_src = take 4 (drop 12 ip), rx_dst = take 4 (drop 16 ip), rx_data = drop 20 ip\<rparr>)"

record udp_rx =
  rx_sport :: "byte list"
  rx_dport :: "byte list"
  rx_payload :: "byte list"

definition udp_receive :: "byte list \<Rightarrow> byte list \<Rightarrow> byte list \<Rightarrow> udp_rx option" where
  "udp_receive src dst seg =
     (if length seg < 8 \<or> be16 (seg ! 4) (seg ! 5) \<noteq> length seg
         \<or> (be16 (seg ! 6) (seg ! 7) \<noteq> 0 \<and> \<not> checksum_ok (src @ dst @ [0, 17, seg ! 4, seg ! 5] @ seg)) then None
      else Some \<lparr>rx_sport = take 2 seg, rx_dport = take 2 (drop 2 seg), rx_payload = drop 8 seg\<rparr>)"

record frame_rx =
  rx_dst_mac :: "byte list"
  rx_src_mac :: "byte list"
  rx_vlan :: "nat option"
  rx_ip :: ipv4_rx

definition frame_receive :: "byte list \<Rightarrow> frame_rx option" where
  "frame_receive f =
     (let tagged = be16 (f ! 12) (f ! 13) = 0x8100; off = (if tagged then 16 else 12) in
      if length f < off + 2 \<or> be16 (f ! off) (f ! (off + 1)) \<noteq> 0x0800 then None
      else case ipv4_receive (drop (off + 2) f) of None \<Rightarrow> None
      | Some ip \<Rightarrow> Some \<lparr>rx_dst_mac = take 6 f, rx_src_mac = take 6 (drop 6 f),
          rx_vlan = (if tagged then Some (be16 (f ! 14) (f ! 15)) else None), rx_ip = ip\<rparr>)"

section \<open>Headers as bytes\<close>

type_synonym in_addr = "32 word"

record sockaddr_in =
  sin_family :: int
  sin_port :: "16 word"
  sin_addr :: in_addr

definition addr_bytes :: "in_addr \<Rightarrow> byte list" where
  "addr_bytes a = [ucast a, ucast (drop_bit 8 a), ucast (drop_bit 16 a), ucast (drop_bit 24 a)]"

definition port_bytes :: "16 word \<Rightarrow> byte list" where
  "port_bytes p = [lo p, hi p]"

definition ipv4_bytes :: "16 word \<Rightarrow> 16 word \<Rightarrow> 16 word \<Rightarrow> byte \<Rightarrow> 16 word \<Rightarrow> in_addr \<Rightarrow> in_addr \<Rightarrow> byte list" where
  "ipv4_bytes len ident flags ttl cs src dst =
     [0x45, 0, hi len, lo len, hi ident, lo ident, hi flags, lo flags, ttl, 17, hi cs, lo cs] @ addr_bytes src @ addr_bytes dst"

definition udp_bytes :: "16 word \<Rightarrow> 16 word \<Rightarrow> 16 word \<Rightarrow> 16 word \<Rightarrow> byte list" where
  "udp_bytes sport dport len cs = port_bytes sport @ port_bytes dport @ [hi len, lo len, hi cs, lo cs]"

lemma header_lengths [simp]:
  "length (addr_bytes a) = 4" "length (port_bytes p) = 2"
  "length (ipv4_bytes len ident fl ttl cs src dst) = 20" "length (udp_bytes sp dp len cs) = 8"
  by (simp_all add: addr_bytes_def port_bytes_def ipv4_bytes_def udp_bytes_def)

lemma hi_lo_0 [simp]: "hi 0 = 0" "lo 0 = 0" by (simp_all add: hi_def lo_def)

lemma hi_lo_protos [simp]: "hi 0x8100 = 0x81" "lo 0x8100 = 0" "hi 0x0800 = 8" "lo 0x0800 = 0"
  by (simp_all add: hi_def lo_def drop_bit_eq_div)

lemma be16_0 [simp]: "be16 0 0 = 0" by (simp add: be16_def)

text \<open>The header with the checksum that makes its sum all ones is accepted.\<close>

lemma ipv4_sum: "oc_sum (ipv4_bytes len ident fl ttl cs src dst) = oc_sum (ipv4_bytes len ident fl ttl 0 src dst) + unat cs"
  by (simp add: ipv4_bytes_def)

lemma ipv4_sum_pos: "0 < oc_sum (ipv4_bytes len ident fl ttl cs src dst)"
  by (simp add: ipv4_bytes_def be16_def)

lemma ipv4_sum_le: "oc_sum (ipv4_bytes len ident fl ttl cs src dst) < 688133"
  using oc_sum_le [of "ipv4_bytes len ident fl ttl cs src dst"] by simp

lemma checksum_ok_complement:
  assumes c: "unat c = s" "0 < s" and s: "s + unat (ucast (NOT (fold_cs c)) :: 16 word) = oc_sum bs"
  shows "checksum_ok bs"
proof -
  have f: "unat (fold_cs c) \<le> 65535" "unat (fold_cs c) mod 65535 = s mod 65535"
    using fold_cs_spec [of c] c by auto
  have "oc_sum bs = s + (65535 - unat (fold_cs c))" using s unat_not16 [OF f(1)] by simp
  then show ?thesis using complement_sum [OF f] c(2) by (simp add: checksum_ok_def)
qed

lemma ipv4_receive_ok:
  assumes "checksum_ok (ipv4_bytes len ident fl ttl cs src dst)" "unat len = 20 + length data"
  shows "ipv4_receive (ipv4_bytes len ident fl ttl cs src dst @ data) =
    Some \<lparr>rx_id = unat ident, rx_mf = odd (unat fl div 8192), rx_offset = 8 * (unat fl mod 8192), rx_ttl = ttl,
      rx_src = addr_bytes src, rx_dst = addr_bytes dst, rx_data = data\<rparr>"
proof -
  let ?h = "ipv4_bytes len ident fl ttl cs src dst"
  have h: "take 20 (?h @ data) = ?h" "drop 20 (?h @ data) = data" by simp_all
  have n: "(?h @ data) ! k = ?h ! k" if "k < 20" for k using that by (simp add: nth_append)
  have t: "take 4 (drop 12 (?h @ data)) = addr_bytes src" "take 4 (drop 16 (?h @ data)) = addr_bytes dst"
    by (simp_all add: ipv4_bytes_def addr_bytes_def)
  have f: "?h ! 0 = 0x45" "?h ! 2 = hi len" "?h ! 3 = lo len" "?h ! 4 = hi ident" "?h ! 5 = lo ident" "?h ! 6 = hi fl"
      "?h ! 7 = lo fl" "?h ! 8 = ttl" "?h ! 9 = 17"
    by (simp_all add: ipv4_bytes_def)
  show ?thesis using assms unfolding ipv4_receive_def Let_def h t by (simp add: n f)
qed

lemma udp_receive_ok:
  assumes "checksum_ok (addr_bytes src @ addr_bytes dst @ [0, 17, hi len, lo len] @ udp_bytes sp dp len cs @ data)"
    and "unat len = 8 + length data"
  shows "udp_receive (addr_bytes src) (addr_bytes dst) (udp_bytes sp dp len cs @ data) =
    Some \<lparr>rx_sport = port_bytes sp, rx_dport = port_bytes dp, rx_payload = data\<rparr>"
proof -
  let ?u = "udp_bytes sp dp len cs"
  have f: "(?u @ data) ! 4 = hi len" "(?u @ data) ! 5 = lo len" "take 2 (?u @ data) = port_bytes sp"
      "take 2 (drop 2 (?u @ data)) = port_bytes dp" "drop 8 (?u @ data) = data"
    by (simp_all add: udp_bytes_def port_bytes_def)
  show ?thesis using assms unfolding udp_receive_def f by simp
qed

section \<open>The writes on a buffer\<close>

lemma write16_append [simp]:
  "write_uint16_t_be (xs @ ys) (length xs + k) v = xs @ write_uint16_t_be ys k v"
  by (simp add: write_uint16_t_be_eq list_update_append)

lemma memcpy_append [simp]: "memcpy_to (xs @ ys) (length xs + k) bs = xs @ memcpy_to ys k bs"
  by (simp add: memcpy_to_def)

lemma write_native_append [simp]:
  "write_uint16_t (xs @ ys) (length xs + k) v = xs @ write_uint16_t ys k v"
  "write_uint32_t (xs @ ys) (length xs + k) a = xs @ write_uint32_t ys k a"
  by (simp_all add: write_uint16_t_def write_uint32_t_def)

lemma read16_append [simp]: "read_uint16_t_be (xs @ ys) (length xs + k) = read_uint16_t_be ys k"
  by (simp add: read_uint16_t_be_def nth_append)

lemma add_words_append [simp]: "add_words (xs @ ys) (length xs + k) n cs = add_words ys k n cs"
proof (induction n arbitrary: k cs)
  case (Suc n)
  have "length xs + k + 2 = length xs + (k + 2)" by simp
  then show ?case by (simp only: add_words.simps read16_append Suc)
qed simp

lemma write_lengths [simp]:
  "length (write_uint16_t_be xs k v) = length xs"
  "k + length bs \<le> length xs \<Longrightarrow> length (memcpy_to xs k bs) = length xs"
  by (simp_all add: write_uint16_t_be_eq memcpy_to_def)

lemma as_map: "\<exists>f. xs = map f [0..<length xs]"
  by (metis map_nth)


section \<open>Offsets of the fields, and the sum of a UDP segment\<close>

abbreviation (input) "ETH_DST_MAC \<equiv> 0 :: nat"
abbreviation (input) "ETH_SRC_MAC \<equiv> 6 :: nat"
abbreviation (input) "ETH_PROTO \<equiv> 12 :: nat"
abbreviation (input) "IPV4HDR_VER_IHL \<equiv> 0 :: nat"
abbreviation (input) "IPV4HDR_TOS \<equiv> 1 :: nat"
abbreviation (input) "IPV4HDR_LEN \<equiv> 2 :: nat"
abbreviation (input) "IPV4HDR_ID \<equiv> 4 :: nat"
abbreviation (input) "IPV4HDR_FLAGS \<equiv> 6 :: nat"
abbreviation (input) "IPV4HDR_TTL \<equiv> 8 :: nat"
abbreviation (input) "IPV4HDR_PROTO \<equiv> 9 :: nat"
abbreviation (input) "IPV4HDR_CHECKSUM \<equiv> 10 :: nat"
abbreviation (input) "IPV4HDR_SRC_IP \<equiv> 12 :: nat"
abbreviation (input) "IPV4HDR_DST_IP \<equiv> 16 :: nat"
abbreviation (input) "UDP_SRC_PORT \<equiv> 0 :: nat"
abbreviation (input) "UDP_DEST_PORT \<equiv> 2 :: nat"
abbreviation (input) "UDP_LEN \<equiv> 4 :: nat"
abbreviation (input) "UDP_CHECKSUM \<equiv> 6 :: nat"

lemma unat_word16: "unat (w :: 16 word) \<le> 65535"
proof -
  have "unat w < 2 ^ 16" using unsigned_less [of w, where ?'a = nat] by simp
  then show ?thesis by simp
qed

lemma unat_ucast_up:
  "unat (ucast (w :: 16 word) :: 32 word) = unat w" "unat (ucast (b :: byte) :: 32 word) = unat b"
  using unat_word16 [of w] unat_byte [of b] by (simp_all add: unsigned_ucast_eq take_bit_eq_mod)

text \<open>The six words of the pseudo header do not overflow.\<close>

lemma pseudo_sum:
  fixes a b c d l :: "16 word" and p :: byte
  shows "unat (ucast a + ucast b + ucast c + ucast d + ucast p + ucast l :: 32 word)
    = unat a + unat b + unat c + unat d + unat p + unat l"
proof -
  note le = unat_word16 [of a] unat_word16 [of b] unat_word16 [of c] unat_word16 [of d] unat_word16 [of l] unat_byte [of p]
  have 1: "unat (ucast a + ucast b :: 32 word) = unat a + unat b"
    using le by (simp add: unat_plus_if' unat_ucast_up)
  have 2: "unat (ucast a + ucast b + ucast c :: 32 word) = unat a + unat b + unat c"
    using le 1 by (simp add: unat_plus_if' [of _ "ucast c"] unat_ucast_up)
  have 3: "unat (ucast a + ucast b + ucast c + ucast d :: 32 word) = unat a + unat b + unat c + unat d"
    using le 2 by (simp add: unat_plus_if' [of _ "ucast d"] unat_ucast_up)
  have 4: "unat (ucast a + ucast b + ucast c + ucast d + ucast p :: 32 word) = unat a + unat b + unat c + unat d + unat p"
    using le 3 by (simp add: unat_plus_if' [of _ "ucast p"] unat_ucast_up)
  show ?thesis
    using le 4 by (simp add: unat_plus_if' [of _ "ucast l"] unat_ucast_up)
qed

definition pseudo_header :: "in_addr \<Rightarrow> in_addr \<Rightarrow> 16 word \<Rightarrow> byte list" where
  "pseudo_header src dst len = addr_bytes src @ addr_bytes dst @ [0, 17, hi len, lo len]"

lemma even_pseudo: "even (length (pseudo_header src dst len))" "length (pseudo_header src dst len) = 12"
  by (simp_all add: pseudo_header_def)

text \<open>The sum of the pseudo header, read from the IPv4 header at \<open>offset\<close>.\<close>

lemma pseudo_sum_header:
  assumes h: "hdr = e @ ipv4_bytes L ident fl ttl c src dst @ u" and o: "offset = length e"
  shows "unat (ucast (read_uint16_t_be hdr (offset + IPV4HDR_SRC_IP)) + ucast (read_uint16_t_be hdr (offset + IPV4HDR_SRC_IP + 2))
      + ucast (read_uint16_t_be hdr (offset + IPV4HDR_DST_IP)) + ucast (read_uint16_t_be hdr (offset + IPV4HDR_DST_IP + 2))
      + ucast (hdr ! (offset + IPV4HDR_PROTO)) + ucast len :: 32 word)
    = oc_sum (pseudo_header src dst len)"
proof -
  have a: "offset + IPV4HDR_SRC_IP + 2 = length e + 14" "offset + IPV4HDR_DST_IP + 2 = length e + 18"
    "offset + IPV4HDR_SRC_IP = length e + 12" "offset + IPV4HDR_DST_IP = length e + 16"
    "offset + IPV4HDR_PROTO = length e + 9" using o by simp_all
  show ?thesis
    unfolding a(1,2) unfolding a(3-) h pseudo_sum unfolding read16_append nth_append_length_plus unfolding unat_read_uint16_t_be
    by (simp add: ipv4_bytes_def addr_bytes_def pseudo_header_def be16_def unat_hi unat_lo)
qed

lemma oc_sum_halves:
  "oc_sum bs = oc_sum (take (2 * (length bs div 2)) bs) + (if odd (length bs) then be16 (bs ! (length bs - 1)) 0 else 0)"
proof (induction bs rule: oc_sum.induct)
  case (3 a b bs)
  then show ?case by (cases bs) auto
qed simp_all

text \<open>The whole sum: pseudo header, UDP header and payload, an odd last byte padded.\<close>

lemma udp_sum:
  assumes c0: "unat c0 = oc_sum ps" "length ps = 12"
    and c1: "c1 = add_words (p @ u @ q) (length p) 4 c0" "length u = 8"
    and c2: "c2 = add_words data 0 (length data div 2) c1"
    and c3: "c3 = (if odd (length data) then c2 + push_bit 8 (ucast (data ! (length data - 1))) else c2)"
    and n: "length data < 65536"
  shows "unat c3 = oc_sum (ps @ u @ data)"
proof -
  have ps: "oc_sum ps \<le> 425977" using oc_sum_le [of ps] c0(2) by simp
  have "add_words (p @ u @ q) (length p) 4 c0 = add_words (u @ q) 0 4 c0"
    using add_words_append [of p "u @ q" 0] by simp
  moreover have "unat (add_words (u @ q) 0 4 c0) = unat c0 + oc_sum (take (2 * 4) (drop 0 (u @ q)))"
    by (rule unat_add_words) (use ps c0 c1 in simp_all)
  ultimately have c1: "unat c1 = oc_sum ps + oc_sum u" using c0 c1 by simp
  have u: "oc_sum u \<le> 294907" using oc_sum_le [of u] \<open>length u = 8\<close> by simp
  have "unat c2 = unat c1 + oc_sum (take (2 * (length data div 2)) (drop 0 data))"
    unfolding c2 by (rule unat_add_words) (use ps u n c1 in simp_all)
  then have c2: "unat c2 = oc_sum ps + oc_sum u + oc_sum (take (2 * (length data div 2)) data)" using c1 by simp
  have d: "2 * oc_sum (take (2 * (length data div 2)) data) \<le> 4294901760"
    using oc_sum_le [of "take (2 * (length data div 2)) data"] n by simp
  have b: "unat (push_bit 8 (ucast (data ! (length data - 1))) :: 32 word) = be16 (data ! (length data - 1)) 0"
    using unat_byte [of "data ! (length data - 1)"]
    by (simp add: push_bit_eq_mult unat_mult_lem [THEN iffD1] unat_ucast_up be16_def)
  have "unat c3 = unat c2 + (if odd (length data) then be16 (data ! (length data - 1)) 0 else 0)"
  proof (cases "odd (length data)")
    case True
    have "unat c2 + be16 (data ! (length data - 1)) 0 < 4294967296"
      using ps u d c2 be16_le [of "data ! (length data - 1)" 0] by linarith
    then show ?thesis using True b c3 by (simp add: unat_plus_if')
  qed (simp add: c3)
  then have "unat c3 = oc_sum ps + (oc_sum u + oc_sum data)" using c2 oc_sum_halves [of data] by simp
  then show ?thesis using c0(2) \<open>length u = 8\<close> by (simp add: oc_sum_append)
qed

lemma udp_sum_checksum:
  "oc_sum (ps @ udp_bytes sp dp len cs @ data) = oc_sum (ps @ udp_bytes sp dp len 0 @ data) + unat cs" if "even (length ps)"
  using that by (simp add: oc_sum_append udp_bytes_def port_bytes_def)

text \<open>The checksum of the segment, sent as all ones when it would be zero.\<close>

lemma udp_checksum_ok:
  assumes c: "unat c = oc_sum (pseudo_header src dst len @ udp_bytes sp dp len 0 @ data)"
    and r: "r = (if fold_cs c = 0xFFFF then ucast (fold_cs c) else ucast (NOT (fold_cs c)))"
  shows "checksum_ok (pseudo_header src dst len @ udp_bytes sp dp len r @ data)"
proof -
  let ?s = "oc_sum (pseudo_header src dst len @ udp_bytes sp dp len 0 @ data)"
  have "17 \<le> oc_sum (pseudo_header src dst len)"
    by (simp add: pseudo_header_def addr_bytes_def be16_def)
  then have pos: "0 < ?s" using even_pseudo [of src dst len] by (simp add: oc_sum_append)
  have f: "unat (fold_cs c) \<le> 65535" "unat (fold_cs c) mod 65535 = ?s mod 65535"
    using fold_cs_spec [of c] c by auto
  note sum = udp_sum_checksum [OF even_pseudo(1), of src dst len sp dp len r data]
  show ?thesis
  proof (cases "fold_cs c = 0xFFFF")
    case True
    then have "?s mod 65535 = 0" "unat r = 65535" using f r by (simp_all add: unsigned_ucast_eq take_bit_eq_mod)
    then show ?thesis unfolding checksum_ok_def sum using pos by (simp add: mod_add_eq [symmetric, of _ 65535])
  next
    case False
    then have "unat r = unat (ucast (NOT (fold_cs c)) :: 16 word)" using r by simp
    then show ?thesis using checksum_ok_complement [OF c pos] sum by simp
  qed
qed

lemma ipv4_checksum_ok:
  assumes "h = e @ ipv4_bytes len ident fl ttl 0 src dst @ u"
  shows "checksum_ok (ipv4_bytes len ident fl ttl (ucast (NOT (fold_cs (add_words h (length e) 10 0)))) src dst)"
    (is "checksum_ok (ipv4_bytes _ _ _ _ ?r _ _)")
proof -
  let ?i = "ipv4_bytes len ident fl ttl 0 src dst" and ?c = "add_words h (length e) 10 0"
  have "?c = add_words (?i @ u) 0 10 0" using add_words_append [of e "?i @ u" 0] assms by simp
  moreover have "unat (add_words (?i @ u) 0 10 0) = unat (0 :: 32 word) + oc_sum (take (2 * 10) (drop 0 (?i @ u)))"
    by (rule unat_add_words) simp_all
  ultimately have c: "unat ?c = oc_sum ?i" by simp
  show ?thesis
    by (rule checksum_ok_complement [OF c ipv4_sum_pos]) (use ipv4_sum [of len ident fl ttl ?r src dst] in simp)
qed

section \<open>Ethernet\<close>

datatype ether_addr = Ether_addr byte byte byte byte byte byte

fun ether_addr_octet :: "ether_addr \<Rightarrow> byte list" where
  "ether_addr_octet (Ether_addr a b c d e f) = [a, b, c, d, e, f]"

lemma ether_addr_octet_length [simp]: "length (ether_addr_octet m) = 6"
  by (cases m) simp

definition eth_plain :: "ether_addr \<Rightarrow> ether_addr \<Rightarrow> byte list" where
  "eth_plain d s = ether_addr_octet d @ ether_addr_octet s @ [8, 0]"

lemma eth_plain_length [simp]: "length (eth_plain d s) = 14"
  by (simp add: eth_plain_def)

lemma frame_receive_plain:
  assumes "ipv4_receive x = Some ip"
  shows "frame_receive (eth_plain d s @ x) = Some \<lparr>rx_dst_mac = ether_addr_octet d, rx_src_mac = ether_addr_octet s,
    rx_vlan = None, rx_ip = ip\<rparr>"
proof -
  have "be16 8 0 = 0x0800" by (simp add: be16_def)
  then show ?thesis
    by (cases d; cases s) (simp add: frame_receive_def eth_plain_def assms Let_def)
qed

end
