(* ===== verification/UdpLoadPacket.thy ===== *)
theory UdpLoadPacket
  imports Inet
begin

text \<open>
  The Ethernet, IPv4 and UDP header that \<open>tools/udp_load/l2_eth_udp_pkt.cpp\<close> builds
  for its raw sockets: the object's fields, the two checksums and \<open>build_pkt_hdr\<close>.  The
  reference is the receiver of \<open>Inet\<close>.
\<close>

record l2_eth_udp_pkt =
  pkt_reset :: bool
  dst_mac :: ether_addr
  src_mac :: ether_addr
  vlan_id :: "16 word"
  fragmentation_id :: "16 word"
  pkt_ttl :: byte
  dst_ip :: in_addr
  src_ip :: in_addr
  dst_port :: "16 word"
  src_port :: "16 word"
  pkt_hdr :: "byte list"
  pkt_data :: "byte list"

definition l2_eth_udp_pkt_new :: l2_eth_udp_pkt where
  "l2_eth_udp_pkt_new = \<lparr>pkt_reset = True, dst_mac = Ether_addr 0 0 0 0 0 0, src_mac = Ether_addr 0 0 0 0 0 0,
     vlan_id = 65535, fragmentation_id = 0, pkt_ttl = 1, dst_ip = 0, src_ip = 0, dst_port = 0, src_port = 0,
     pkt_hdr = [], pkt_data = []\<rparr>"

definition reset_pkt :: "l2_eth_udp_pkt \<Rightarrow> l2_eth_udp_pkt" where
  "reset_pkt p = p\<lparr>pkt_reset := True\<rparr>"

section \<open>Checksums\<close>

definition calc_ipv4_cs :: "byte list \<Rightarrow> nat \<Rightarrow> 16 word" where
  "calc_ipv4_cs hdr offset =
     (let hsize = push_bit 2 (ucast (hdr ! (offset + IPV4HDR_VER_IHL) AND 0x0f)) :: 32 word;
          cs = add_words hdr offset (unat (hsize div 2)) 0;
          cs = fold_cs cs
      in ucast (NOT cs))"

definition calc_udp_cs :: "byte list \<Rightarrow> nat \<Rightarrow> byte list \<Rightarrow> 16 word" where
  "calc_udp_cs hdr offset payload =
     (let ipv4_size = unat (push_bit 2 (ucast (hdr ! (offset + IPV4HDR_VER_IHL) AND 0x0f)) :: 16 word);
          udp_len = ucast (read_uint16_t_be hdr (offset + ipv4_size + UDP_LEN)) :: 32 word;
          cs = ucast (read_uint16_t_be hdr (offset + IPV4HDR_SRC_IP));
          cs = cs + ucast (read_uint16_t_be hdr (offset + IPV4HDR_SRC_IP + 2));
          cs = cs + ucast (read_uint16_t_be hdr (offset + IPV4HDR_DST_IP));
          cs = cs + ucast (read_uint16_t_be hdr (offset + IPV4HDR_DST_IP + 2));
          cs = cs + ucast (hdr ! (offset + IPV4HDR_PROTO));
          cs = cs + udp_len;
          cs = add_words hdr (offset + ipv4_size) 4 cs;
          cs = add_words payload 0 (unat ((udp_len - 8) div 2)) cs;
          cs = (if udp_len mod 2 = 1 then cs + push_bit 8 (ucast (payload ! unat (udp_len - 8 - 1))) else cs);
          cs = fold_cs cs
      in if cs = 0xFFFF then ucast cs else ucast (NOT cs))"

section \<open>build\_pkt\_hdr\<close>

definition resize_bytes :: "nat \<Rightarrow> byte list \<Rightarrow> byte list" where
  "resize_bytes n xs = take n xs @ replicate (n - length xs) 0"

definition has_vlan :: "l2_eth_udp_pkt \<Rightarrow> bool" where
  "has_vlan p \<longleftrightarrow> vlan_id p < 4096"

definition write_eth_hdr :: "l2_eth_udp_pkt \<Rightarrow> byte list \<times> nat" where
  "write_eth_hdr p =
     (let pkt_hdr_size = 42 + (if has_vlan p then 4 else 0);
          h = resize_bytes pkt_hdr_size (pkt_hdr p);
          h = memcpy_to h ETH_DST_MAC (ether_addr_octet (dst_mac p));
          h = memcpy_to h ETH_SRC_MAC (ether_addr_octet (src_mac p));
          ipv4_offset = 12;
          (h, ipv4_offset) = (if has_vlan p
            then (write_uint16_t_be (write_uint16_t_be h ETH_PROTO 0x8100) (ETH_PROTO + 2) (vlan_id p), ipv4_offset + 4)
            else (h, ipv4_offset))
      in (write_uint16_t_be h ipv4_offset 0x0800, ipv4_offset + 2))"

definition write_ipv4_hdr :: "l2_eth_udp_pkt \<Rightarrow> nat \<Rightarrow> byte list \<Rightarrow> byte list" where
  "write_ipv4_hdr p off h =
     (let h = h[off + IPV4HDR_VER_IHL := 0x45];
          h = h[off + IPV4HDR_TOS := 0];
          h = write_uint16_t_be h (off + IPV4HDR_LEN) (of_nat (length (pkt_data p) + 28));
          h = write_uint16_t_be h (off + IPV4HDR_ID) (fragmentation_id p);
          h = write_uint16_t_be h (off + IPV4HDR_FLAGS) 0;
          h = h[off + IPV4HDR_TTL := pkt_ttl p];
          h = h[off + IPV4HDR_PROTO := 17];
          h = write_uint16_t_be h (off + IPV4HDR_CHECKSUM) 0;
          h = write_uint32_t h (off + IPV4HDR_SRC_IP) (src_ip p)
      in write_uint32_t h (off + IPV4HDR_DST_IP) (dst_ip p))"

definition write_udp_hdr :: "l2_eth_udp_pkt \<Rightarrow> nat \<Rightarrow> byte list \<Rightarrow> byte list" where
  "write_udp_hdr p off h =
     (let h = write_uint16_t h (off + UDP_SRC_PORT) (src_port p);
          h = write_uint16_t h (off + UDP_DEST_PORT) (dst_port p);
          h = write_uint16_t_be h (off + UDP_LEN) (of_nat (length (pkt_data p) + 8))
      in write_uint16_t_be h (off + UDP_CHECKSUM) 0)"

definition build_pkt_hdr :: "l2_eth_udp_pkt \<Rightarrow> byte list \<times> l2_eth_udp_pkt" where
  "build_pkt_hdr p =
     (if pkt_reset p then
        let (h, ipv4_offset) = write_eth_hdr p;
            h = write_ipv4_hdr p ipv4_offset h;
            udp_offset = ipv4_offset + 20;
            h = write_udp_hdr p udp_offset h;
            h = write_uint16_t_be h (ipv4_offset + IPV4HDR_CHECKSUM) (calc_ipv4_cs h ipv4_offset);
            h = write_uint16_t_be h (udp_offset + UDP_CHECKSUM) (calc_udp_cs h ipv4_offset (pkt_data p));
            p = p\<lparr>fragmentation_id := fragmentation_id p + 1, pkt_hdr := h, pkt_reset := False\<rparr>
        in (pkt_hdr p, p)
      else (pkt_hdr p, p))"

section \<open>The bytes it writes\<close>

definition eth_bytes :: "l2_eth_udp_pkt \<Rightarrow> byte list" where
  "eth_bytes p = ether_addr_octet (dst_mac p) @ ether_addr_octet (src_mac p) @
     (if has_vlan p then [0x81, 0, hi (vlan_id p), lo (vlan_id p)] else []) @ [8, 0]"

lemma write_eth_hdr_eq:
  "\<exists>r. length r = 28 \<and> write_eth_hdr p = (eth_bytes p @ r, length (eth_bytes p))"
proof -
  obtain d0 d1 d2 d3 d4 d5 where d: "dst_mac p = Ether_addr d0 d1 d2 d3 d4 d5" by (cases "dst_mac p")
  obtain s0 s1 s2 s3 s4 s5 where s: "src_mac p = Ether_addr s0 s1 s2 s3 s4 s5" by (cases "src_mac p")
  define n where "n = (if has_vlan p then 46 else 42 :: nat)"
  have len: "length (resize_bytes n (pkt_hdr p)) = n" by (simp add: resize_bytes_def)
  obtain f where f: "resize_bytes n (pkt_hdr p) = map f [0..<n]" using as_map len by metis
  show ?thesis
  proof (cases "has_vlan p")
    case True
    then have "[0..<n] = [0..<18] @ [18..<46]" by (simp add: n_def upt_add_eq_append [of 0 18 28, simplified])
    then have "resize_bytes n (pkt_hdr p) = map f [0..<18] @ map f [18..<46]" by (simp add: f)
    moreover have "map f [0..<18] = [f 0, f (Suc 0), f 2, f 3, f 4, f 5, f 6, f 7, f 8, f 9, f 10, f 11, f 12, f 13, f 14, f 15, f 16, f 17]"
      by (simp add: upt_conv_Cons eval_nat_numeral)
    moreover define q where "q = map f [18..<46]"
    ultimately have r: "resize_bytes 46 (pkt_hdr p) = [f 0, f (Suc 0), f 2, f 3, f 4, f 5, f 6, f 7, f 8, f 9, f 10, f 11, f 12, f 13, f 14, f 15, f 16, f 17] @ q"
      using True by (simp add: n_def)
    have "write_eth_hdr p = (eth_bytes p @ q, length (eth_bytes p))"
      using True unfolding write_eth_hdr_def
      by (simp add: r d s memcpy_to_def write_uint16_t_be_eq eth_bytes_def Let_def)
    then show ?thesis by (intro exI [of _ q]) (simp add: q_def)
  next
    case False
    then have "[0..<n] = [0..<14] @ [14..<42]" by (simp add: n_def upt_add_eq_append [of 0 14 28, simplified])
    then have "resize_bytes n (pkt_hdr p) = map f [0..<14] @ map f [14..<42]" by (simp add: f)
    moreover have "map f [0..<14] = [f 0, f (Suc 0), f 2, f 3, f 4, f 5, f 6, f 7, f 8, f 9, f 10, f 11, f 12, f 13]"
      by (simp add: upt_conv_Cons eval_nat_numeral)
    moreover define q where "q = map f [14..<42]"
    ultimately have r: "resize_bytes 42 (pkt_hdr p) = [f 0, f (Suc 0), f 2, f 3, f 4, f 5, f 6, f 7, f 8, f 9, f 10, f 11, f 12, f 13] @ q"
      using False by (simp add: n_def)
    have "write_eth_hdr p = (eth_bytes p @ q, length (eth_bytes p))"
      using False unfolding write_eth_hdr_def
      by (simp add: r d s memcpy_to_def write_uint16_t_be_eq eth_bytes_def Let_def)
    then show ?thesis by (intro exI [of _ q]) (simp add: q_def)
  qed
qed

text \<open>The fields behind the Ethernet header, both checksums still zero.\<close>

lemma write_headers_eq:
  assumes "length r = 28"
  shows "write_udp_hdr p (length e + 20) (write_ipv4_hdr p (length e) (e @ r)) =
    e @ ipv4_bytes (of_nat (length (pkt_data p) + 28)) (fragmentation_id p) 0 (pkt_ttl p) 0 (src_ip p) (dst_ip p)
      @ udp_bytes (src_port p) (dst_port p) (of_nat (length (pkt_data p) + 8)) 0"
proof -
  obtain f where "r = map f [0..<28]" using as_map [of r] assms by metis
  then have r: "r = [f 0, f (Suc 0), f 2, f 3, f 4, f 5, f 6, f 7, f 8, f 9, f 10, f 11, f 12, f 13, f 14, f 15, f 16, f 17, f 18, f 19, f 20, f 21, f 22, f 23, f 24, f 25, f 26, f 27]"
    by (simp add: upt_conv_Cons eval_nat_numeral)
  have i: "write_ipv4_hdr p (length e) (e @ r) = e @
      ipv4_bytes (of_nat (length (pkt_data p) + 28)) (fragmentation_id p) 0 (pkt_ttl p) 0 (src_ip p) (dst_ip p) @ drop 20 r"
    unfolding write_ipv4_hdr_def Let_def
    by (simp add: write_uint16_t_be_eq write_uint32_t_def list_update_append memcpy_to_def ipv4_bytes_def addr_bytes_def r)
  have e: "length e + 20 = length (e @ ipv4_bytes (of_nat (length (pkt_data p) + 28)) (fragmentation_id p) 0 (pkt_ttl p) 0 (src_ip p) (dst_ip p))"
    by simp
  show ?thesis
    unfolding i append_assoc [symmetric] e write_udp_hdr_def Let_def write16_append write_native_append
    by (simp add: write_uint16_t_be_eq write_uint16_t_def memcpy_to_def udp_bytes_def port_bytes_def r lo_def hi_def)
qed

lemma ihl_20: "push_bit 2 (ucast ((0x45 :: byte) AND 0x0f)) = (20 :: 32 word)"
    "push_bit 2 (ucast ((0x45 :: byte) AND 0x0f)) = (20 :: 16 word)"
  by (simp_all add: push_bit_eq_mult)

lemma calc_ipv4_cs_ok:
  assumes h: "h = e @ ipv4_bytes len ident fl ttl 0 src dst @ u"
  shows "checksum_ok (ipv4_bytes len ident fl ttl (calc_ipv4_cs h (length e)) src dst)"
proof -
  have v: "h ! (length e + IPV4HDR_VER_IHL) = 0x45" using h by (simp add: ipv4_bytes_def)
  have "calc_ipv4_cs h (length e) = ucast (NOT (fold_cs (add_words h (length e) 10 0)))"
    unfolding calc_ipv4_cs_def Let_def v ihl_20 by simp
  then show ?thesis using ipv4_checksum_ok [OF h] by simp
qed

lemma calc_udp_cs_ok:
  assumes h: "h = e @ ipv4_bytes L ident fl ttl ic src dst @ udp_bytes sp dp len 0"
    and n: "length data + 8 < 65536" and len: "len = of_nat (length data + 8)"
  shows "checksum_ok (pseudo_header src dst len @ udp_bytes sp dp len (calc_udp_cs h (length e) data) @ data)"
proof -
  let ?o = "length e"
  have v: "h ! (?o + IPV4HDR_VER_IHL) = 0x45" using h by (simp add: ipv4_bytes_def)
  have ul: "unat len = length data + 8" unfolding len unat_of_nat using n by simp
  have h': "h = (e @ ipv4_bytes L ident fl ttl ic src dst) @ udp_bytes sp dp len 0" by (simp add: h)
  have off: "?o + 20 + k = length (e @ ipv4_bytes L ident fl ttl ic src dst) + k" for k by simp
  have "unat (read_uint16_t_be h (?o + 20 + UDP_LEN)) = unat len"
    unfolding off unfolding h' read16_append unat_read_uint16_t_be by (simp add: udp_bytes_def port_bytes_def)
  then have r: "read_uint16_t_be h (?o + 20 + UDP_LEN) = len" by (simp add: word_unat_eq_iff)
  let ?l = "ucast len :: 32 word"
  have "(8 :: 32 word) \<le> ?l" using ul by (simp add: word_le_nat_alt unat_ucast_up)
  then have l8: "unat (?l - 8) = length data" using ul by (simp add: unat_sub unat_ucast_up)
  have half: "unat ((?l - 8) div 2) = length data div 2" by (simp add: unat_div_distrib l8)
  have odd: "?l mod 2 = 1 \<longleftrightarrow> odd (length data)"
  proof -
    have "unat (?l mod 2) = (length data + 8) mod 2" by (simp add: unat_mod_distrib ul unat_ucast_up)
    then show ?thesis by (metis even_add even_numeral odd_iff_mod_2_eq_one unat_1 word_unat_eq_iff)
  qed
  have last: "unat (?l - 8 - 1) = length data - 1" if "odd (length data)"
  proof -
    from that have "0 < length data" by (cases data) auto
    then have "(1 :: 32 word) \<le> ?l - 8" using l8 by (simp add: word_le_nat_alt Suc_leI)
    then have "unat (?l - 8 - 1) = unat (?l - 8) - unat (1 :: 32 word)" by (rule unat_sub)
    then show ?thesis unfolding l8 by simp
  qed
  define c0 where "c0 = ucast (read_uint16_t_be h (?o + IPV4HDR_SRC_IP)) + ucast (read_uint16_t_be h (?o + IPV4HDR_SRC_IP + 2))
      + ucast (read_uint16_t_be h (?o + IPV4HDR_DST_IP)) + ucast (read_uint16_t_be h (?o + IPV4HDR_DST_IP + 2))
      + ucast (h ! (?o + IPV4HDR_PROTO)) + ?l"
  define c1 where "c1 = add_words h (?o + 20) 4 c0"
  define c2 where "c2 = add_words data 0 (length data div 2) c1"
  define c3 where "c3 = (if odd (length data) then c2 + push_bit 8 (ucast (data ! (length data - 1))) else c2)"
  have c0: "unat c0 = oc_sum (pseudo_header src dst len)"
    unfolding c0_def by (rule pseudo_sum_header [OF h refl])
  have c1: "c1 = add_words ((e @ ipv4_bytes L ident fl ttl ic src dst) @ udp_bytes sp dp len 0 @ [])
      (length (e @ ipv4_bytes L ident fl ttl ic src dst)) 4 c0"
    by (simp add: c1_def h)
  have c3: "unat c3 = oc_sum (pseudo_header src dst len @ udp_bytes sp dp len 0 @ data)"
    by (rule udp_sum [OF c0 even_pseudo(2) c1 _ c2_def c3_def]) (use n in simp_all)
  have "calc_udp_cs h ?o data = (if fold_cs c3 = 0xFFFF then ucast (fold_cs c3) else ucast (NOT (fold_cs c3)))"
    unfolding calc_udp_cs_def Let_def v ihl_20 c3_def c2_def c1_def c0_def
    using r half odd last by simp
  from udp_checksum_ok [OF c3 this] show ?thesis .
qed

lemma build_pkt_hdr_eq:
  assumes "pkt_reset p" "length (pkt_data p) + 28 < 65536" "build_pkt_hdr p = (h, p')"
  shows "\<exists>ic uc. h = eth_bytes p @ ipv4_bytes (of_nat (length (pkt_data p) + 28)) (fragmentation_id p) 0 (pkt_ttl p) ic (src_ip p) (dst_ip p)
        @ udp_bytes (src_port p) (dst_port p) (of_nat (length (pkt_data p) + 8)) uc \<and>
     checksum_ok (ipv4_bytes (of_nat (length (pkt_data p) + 28)) (fragmentation_id p) 0 (pkt_ttl p) ic (src_ip p) (dst_ip p)) \<and>
     checksum_ok (pseudo_header (src_ip p) (dst_ip p) (of_nat (length (pkt_data p) + 8))
       @ udp_bytes (src_port p) (dst_port p) (of_nat (length (pkt_data p) + 8)) uc @ pkt_data p) \<and>
     p' = p\<lparr>fragmentation_id := fragmentation_id p + 1, pkt_hdr := h, pkt_reset := False\<rparr>"
proof -
  let ?e = "eth_bytes p" and ?L = "of_nat (length (pkt_data p) + 28) :: 16 word"
  let ?U = "of_nat (length (pkt_data p) + 8) :: 16 word"
  let ?i = "\<lambda>c. ipv4_bytes ?L (fragmentation_id p) 0 (pkt_ttl p) c (src_ip p) (dst_ip p)"
  let ?u = "udp_bytes (src_port p) (dst_port p) ?U"
  obtain r where r: "length r = 28" "write_eth_hdr p = (?e @ r, length ?e)" using write_eth_hdr_eq by blast
  define h0 where "h0 = ?e @ ?i 0 @ ?u 0"
  define ic where "ic = calc_ipv4_cs h0 (length ?e)"
  define h1 where "h1 = write_uint16_t_be h0 (length ?e + IPV4HDR_CHECKSUM) ic"
  define uc where "uc = calc_udp_cs h1 (length ?e) (pkt_data p)"
  have h1: "h1 = ?e @ ?i ic @ ?u 0"
    unfolding h1_def h0_def write16_append
    by (simp add: write_uint16_t_be_eq list_update_append ipv4_bytes_def)
  have e: "length ?e + 20 = length (?e @ ?i ic)" by simp
  define h2 where "h2 = write_uint16_t_be h1 (length ?e + 20 + UDP_CHECKSUM) uc"
  have "build_pkt_hdr p = (pkt_hdr (p\<lparr>fragmentation_id := fragmentation_id p + 1, pkt_hdr := h2, pkt_reset := False\<rparr>),
      p\<lparr>fragmentation_id := fragmentation_id p + 1, pkt_hdr := h2, pkt_reset := False\<rparr>)"
    by (simp only: build_pkt_hdr_def assms(1) if_True r(2) Let_def prod.case write_headers_eq [OF r(1)]
        h0_def [symmetric] ic_def [symmetric] h1_def [symmetric] uc_def [symmetric] h2_def [symmetric])
  then have h: "h = h2" and p': "p' = p\<lparr>fragmentation_id := fragmentation_id p + 1, pkt_hdr := h, pkt_reset := False\<rparr>"
    using assms(3) by simp_all
  have "h = ?e @ ?i ic @ ?u uc"
    unfolding h h2_def h1 append_assoc [symmetric] e write16_append
    by (simp add: write_uint16_t_be_eq udp_bytes_def port_bytes_def)
  moreover have "checksum_ok (?i ic)"
    unfolding ic_def by (rule calc_ipv4_cs_ok [OF h0_def])
  moreover have "checksum_ok (pseudo_header (src_ip p) (dst_ip p) ?U @ ?u uc @ pkt_data p)"
    unfolding uc_def by (rule calc_udp_cs_ok [OF h1 _ refl]) (use assms(2) in simp)
  ultimately show ?thesis using p' by blast
qed

lemma frame_receive_eth:
  assumes "ipv4_receive x = Some ip"
  shows "frame_receive (eth_bytes p @ x) = Some \<lparr>rx_dst_mac = ether_addr_octet (dst_mac p),
    rx_src_mac = ether_addr_octet (src_mac p), rx_vlan = (if vlan_id p < 4096 then Some (unat (vlan_id p)) else None), rx_ip = ip\<rparr>"
proof -
  obtain d0 d1 d2 d3 d4 d5 where d: "dst_mac p = Ether_addr d0 d1 d2 d3 d4 d5" by (cases "dst_mac p")
  obtain s0 s1 s2 s3 s4 s5 where s: "src_mac p = Ether_addr s0 s1 s2 s3 s4 s5" by (cases "src_mac p")
  have v: "be16 0x81 0 = 0x8100" "be16 8 0 = 0x0800" by (simp_all add: be16_def)
  show ?thesis
    by (simp add: frame_receive_def eth_bytes_def d s v assms has_vlan_def Let_def)
qed

lemma build_pkt_hdr_roundtrip_facts:
  assumes "pkt_reset p" "length (pkt_data p) \<le> 65507" "build_pkt_hdr p = (h, p')"
  shows "\<exists>ip. frame_receive (h @ pkt_data p) = Some \<lparr>rx_dst_mac = ether_addr_octet (dst_mac p),
        rx_src_mac = ether_addr_octet (src_mac p), rx_vlan = (if vlan_id p < 4096 then Some (unat (vlan_id p)) else None), rx_ip = ip\<rparr> \<and>
     rx_id ip = unat (fragmentation_id p) \<and> \<not> rx_mf ip \<and> rx_offset ip = 0 \<and> rx_ttl ip = pkt_ttl p \<and>
     rx_src ip = addr_bytes (src_ip p) \<and> rx_dst ip = addr_bytes (dst_ip p) \<and>
     udp_receive (rx_src ip) (rx_dst ip) (rx_data ip) = Some \<lparr>rx_sport = port_bytes (src_port p),
        rx_dport = port_bytes (dst_port p), rx_payload = pkt_data p\<rparr> \<and>
     fragmentation_id p' = fragmentation_id p + 1 \<and> build_pkt_hdr p' = (h, p')"
proof -
  let ?e = "eth_bytes p" and ?L = "of_nat (length (pkt_data p) + 28) :: 16 word"
  let ?U = "of_nat (length (pkt_data p) + 8) :: 16 word"
  let ?i = "\<lambda>c. ipv4_bytes ?L (fragmentation_id p) 0 (pkt_ttl p) c (src_ip p) (dst_ip p)"
  let ?u = "udp_bytes (src_port p) (dst_port p) ?U"
  have n: "length (pkt_data p) + 28 < 65536" using assms(2) by simp
  obtain ic uc where h: "h = ?e @ ?i ic @ ?u uc" and ic: "checksum_ok (?i ic)"
    and uc: "checksum_ok (pseudo_header (src_ip p) (dst_ip p) ?U @ ?u uc @ pkt_data p)"
    and p': "p' = p\<lparr>fragmentation_id := fragmentation_id p + 1, pkt_hdr := h, pkt_reset := False\<rparr>"
    using build_pkt_hdr_eq [OF assms(1) n assms(3)] by blast
  have L: "unat ?L = 20 + length (?u uc @ pkt_data p)" unfolding unat_of_nat using n by simp
  have U: "unat ?U = 8 + length (pkt_data p)" unfolding unat_of_nat using n by simp
  let ?x = "?i ic @ ?u uc @ pkt_data p"
  note ip = ipv4_receive_ok [OF ic L]
  note f = frame_receive_eth [OF ip, of p]
  have "udp_receive (addr_bytes (src_ip p)) (addr_bytes (dst_ip p)) (?u uc @ pkt_data p) = Some \<lparr>rx_sport = port_bytes (src_port p),
        rx_dport = port_bytes (dst_port p), rx_payload = pkt_data p\<rparr>"
    by (rule udp_receive_ok [OF _ U]) (use uc in \<open>simp add: pseudo_header_def\<close>)
  moreover have "build_pkt_hdr p' = (h, p')" by (simp add: build_pkt_hdr_def p')
  ultimately show ?thesis using f by (simp add: h p')
qed

text \<open>C5: The header that \<open>build_pkt_hdr\<close> builds, sent in front of the payload, is a frame that a
  receiver accepts: the lengths and both checksums are right, and every field comes back as it was set,
  whatever the previous contents of the header buffer.  The fragmentation id counts up for the next one.\<close>

theorem build_pkt_hdr_roundtrip:
  assumes "pkt_reset p" "length (pkt_data p) \<le> 65507" "build_pkt_hdr p = (h, p')"
  shows "\<exists>ip. frame_receive (h @ pkt_data p) = Some \<lparr>rx_dst_mac = ether_addr_octet (dst_mac p),
        rx_src_mac = ether_addr_octet (src_mac p), rx_vlan = (if vlan_id p < 4096 then Some (unat (vlan_id p)) else None), rx_ip = ip\<rparr> \<and>
     rx_id ip = unat (fragmentation_id p) \<and> \<not> rx_mf ip \<and> rx_offset ip = 0 \<and> rx_ttl ip = pkt_ttl p \<and>
     rx_src ip = addr_bytes (src_ip p) \<and> rx_dst ip = addr_bytes (dst_ip p) \<and>
     udp_receive (rx_src ip) (rx_dst ip) (rx_data ip) = Some \<lparr>rx_sport = port_bytes (src_port p),
        rx_dport = port_bytes (dst_port p), rx_payload = pkt_data p\<rparr> \<and>
     fragmentation_id p' = fragmentation_id p + 1 \<and> build_pkt_hdr p' = (h, p')"
  by (rule build_pkt_hdr_roundtrip_facts [OF assms])

lemma build_pkt_hdr_roundtrip_witness:
  "\<exists>h p'. build_pkt_hdr (l2_eth_udp_pkt_new\<lparr>vlan_id := 5, pkt_data := [1, 2, 3]\<rparr>) = (h, p') \<and>
     frame_receive (h @ [1, 2, 3]) \<noteq> None \<and> fragmentation_id p' = 1"
proof -
  let ?p = "l2_eth_udp_pkt_new\<lparr>vlan_id := 5, pkt_data := [1, 2, 3]\<rparr>"
  obtain h p' where b: "build_pkt_hdr ?p = (h, p')" by (rule prod.exhaust)
  have r: "pkt_reset ?p" "length (pkt_data ?p) \<le> 65507" by (simp_all add: l2_eth_udp_pkt_new_def)
  from build_pkt_hdr_roundtrip [OF r b] b show ?thesis by (auto simp: l2_eth_udp_pkt_new_def)
qed

end
