(* ===== verification/Flags.thy ===== *)
theory Flags
  imports Prelude
begin

text \<open>
  The bit flags of \<open>ubench/flags.h\<close>: a mask of an enumeration's underlying type.  The
  operators make the flags a Boolean algebra, so that the library's lattice lemmas apply to them.
\<close>

text \<open>For the 32-bit enumerations of the repository.\<close>

datatype flags = Flags (flag_mask: "32 word")

section \<open>The operators of the class\<close>

definition flags_none :: "flags" where
  "flags_none = Flags 0"

definition flags_of_bit :: "32 word \<Rightarrow> flags" where
  "flags_of_bit b = Flags b"

definition flags_not :: "flags \<Rightarrow> bool" where
  "flags_not f \<longleftrightarrow> flag_mask f = 0"

definition flags_and :: "flags \<Rightarrow> flags \<Rightarrow> flags" where
  "flags_and f g = Flags (flag_mask f AND flag_mask g)"

definition flags_or :: "flags \<Rightarrow> flags \<Rightarrow> flags" where
  "flags_or f g = Flags (flag_mask f OR flag_mask g)"

definition flags_xor :: "flags \<Rightarrow> flags \<Rightarrow> flags" where
  "flags_xor f g = Flags (flag_mask f XOR flag_mask g)"

definition flags_compl :: "flags \<Rightarrow> flags" where
  "flags_compl f = Flags (flag_mask f XOR -1)"

definition flags_eq :: "flags \<Rightarrow> flags \<Rightarrow> bool" where
  "flags_eq f g \<longleftrightarrow> flag_mask f = flag_mask g"

definition flags_bool :: "flags \<Rightarrow> bool" where
  "flags_bool f \<longleftrightarrow> \<not> (flag_mask f = 0)"

text \<open>The assignments return the changed object.\<close>

definition flags_or_assign :: "flags \<Rightarrow> flags \<Rightarrow> flags" where
  "flags_or_assign f g = Flags (flag_mask f OR flag_mask g)"

definition flags_and_assign :: "flags \<Rightarrow> flags \<Rightarrow> flags" where
  "flags_and_assign f g = Flags (flag_mask f AND flag_mask g)"

definition flags_xor_assign :: "flags \<Rightarrow> flags \<Rightarrow> flags" where
  "flags_xor_assign f g = Flags (flag_mask f XOR flag_mask g)"

definition flags_or_bit :: "flags \<Rightarrow> 32 word \<Rightarrow> flags" where
  "flags_or_bit f b = Flags (flag_mask f OR b)"

definition flags_and_bit :: "flags \<Rightarrow> 32 word \<Rightarrow> flags" where
  "flags_and_bit f b = Flags (flag_mask f AND b)"

definition flags_xor_bit :: "flags \<Rightarrow> 32 word \<Rightarrow> flags" where
  "flags_xor_bit f b = Flags (flag_mask f XOR b)"

lemmas flags_defs = flags_none_def flags_of_bit_def flags_not_def flags_and_def flags_or_def flags_xor_def
  flags_compl_def flags_eq_def flags_bool_def flags_or_assign_def flags_and_assign_def flags_xor_assign_def
  flags_or_bit_def flags_and_bit_def flags_xor_bit_def

section \<open>A Boolean algebra\<close>

instantiation flags :: boolean_algebra
begin

definition inf_flags :: "flags \<Rightarrow> flags \<Rightarrow> flags" where "inf_flags = flags_and"
definition sup_flags :: "flags \<Rightarrow> flags \<Rightarrow> flags" where "sup_flags = flags_or"
definition uminus_flags :: "flags \<Rightarrow> flags" where "uminus_flags = flags_compl"
definition minus_flags :: "flags \<Rightarrow> flags \<Rightarrow> flags" where "minus_flags f g = flags_and f (flags_compl g)"
definition bot_flags :: "flags" where "bot_flags = flags_none"
definition top_flags :: "flags" where "top_flags = flags_compl flags_none"
definition less_eq_flags :: "flags \<Rightarrow> flags \<Rightarrow> bool" where "less_eq_flags f g \<longleftrightarrow> flags_eq (flags_and f g) f"
definition less_flags :: "flags \<Rightarrow> flags \<Rightarrow> bool" where "less_flags f g \<longleftrightarrow> f \<le> g \<and> \<not> g \<le> (f :: flags)"

instance
proof
  fix x y z :: "flags"
  note defs = less_eq_flags_def less_flags_def inf_flags_def sup_flags_def uminus_flags_def minus_flags_def
    bot_flags_def top_flags_def flags_defs
  show "x \<le> x" "x < y \<longleftrightarrow> x \<le> y \<and> \<not> y \<le> x" by (simp_all add: defs)
  show "x \<le> y \<Longrightarrow> y \<le> z \<Longrightarrow> x \<le> z" by (auto simp: defs bit_eq_iff bit_simps)
  show "x \<le> y \<Longrightarrow> y \<le> x \<Longrightarrow> x = y" by (cases x; cases y) (simp add: defs and.commute)
  show "inf x y \<le> x" "inf x y \<le> y" "x \<le> sup x y" "y \<le> sup x y" "bot \<le> x" "x \<le> top"
    by (auto simp: defs bit_eq_iff bit_simps)
  show "x \<le> y \<Longrightarrow> x \<le> z \<Longrightarrow> x \<le> inf y z" "y \<le> x \<Longrightarrow> z \<le> x \<Longrightarrow> sup y z \<le> x"
    by (auto simp: defs bit_eq_iff bit_simps)
  show "sup x (inf y z) = inf (sup x y) (sup x z)" by (auto simp: defs bit_eq_iff bit_simps)
  show "inf x (- x) = bot" "sup x (- x) = top" "x - y = inf x (- y)"
    by (auto simp: defs bit_eq_iff bit_simps)
qed

end

text \<open>\<open>f ^ g\<close> holds the flags of exactly one of them, and an assignment is its operator.\<close>

lemma flags_xor_lattice: "flags_xor f g = sup (f - g) (g - f)"
  by (auto simp: sup_flags_def minus_flags_def flags_defs bit_eq_iff bit_simps)

end
