(* ===== verification/Net.thy ===== *)
theory Net
  imports Inet Flags Strings
begin

text \<open>
  Addresses and network interfaces of \<open>libunet\<close> (\<open>net.h\<close>, \<open>net_common.cpp\<close>,
  \<open>net_query_getifaddrs.cpp\<close>).  What the system answers (the list of
  \<open>getifaddrs\<close>, the \<open>ioctl\<close> queries, \<open>inet_pton\<close> and \<open>inet_ntop\<close>, the
  values of the \<open>IFF_\<close> constants) are parameters.  A \<open>std::map\<close> is a map.
\<close>

abbreviation (input) "AF_INET \<equiv> 2 :: int"

section \<open>Addresses\<close>

text \<open>\<open>ntohl\<close> and \<open>htons\<close> on hosts that store the low byte first.\<close>

definition ntohl :: "32 word \<Rightarrow> 32 word" where
  "ntohl w = push_bit 24 (take_bit 8 w) OR push_bit 16 (take_bit 8 (drop_bit 8 w))
     OR push_bit 8 (take_bit 8 (drop_bit 16 w)) OR take_bit 8 (drop_bit 24 w)"

definition htons :: "16 word \<Rightarrow> 16 word" where
  "htons w = push_bit 8 (take_bit 8 w) OR take_bit 8 (drop_bit 8 w)"

definition is_multicast :: "in_addr \<Rightarrow> bool" where
  "is_multicast a \<longleftrightarrow> ntohl a AND 0xF0000000 = 0xE0000000"

definition get_ether_multicast :: "in_addr \<Rightarrow> ether_addr option" where
  "get_ether_multicast a =
     (if \<not> is_multicast a then None
      else let ipv4addr = ntohl a in
        Some (Ether_addr 0x01 0x00 0x5E (ucast (drop_bit 16 ipv4addr AND 0x7F))
          (ucast (drop_bit 8 ipv4addr AND 0xFF)) (ucast (ipv4addr AND 0xFF))))"

definition ether_addr_eq :: "ether_addr \<Rightarrow> ether_addr \<Rightarrow> bool" where
  "ether_addr_eq a b \<longleftrightarrow> ether_addr_octet a = ether_addr_octet b"

text \<open>\<open>snprintf\<close> into a buffer of \<open>n\<close> bytes, the string resized to the length it returns.\<close>

definition snprintf_string :: "nat \<Rightarrow> string \<Rightarrow> string" where
  "snprintf_string n s = take (n - 1) s @ replicate (length s - (n - 1)) (CHR 0x00)"

definition hex_digit :: "nat \<Rightarrow> char" where
  "hex_digit d = (if d < 10 then char_of (48 + d) else char_of (87 + d))"

definition hex2 :: "byte \<Rightarrow> string" where
  "hex2 b = [hex_digit (unat b div 16), hex_digit (unat b mod 16)]"

definition ether_ntos :: "ether_addr \<Rightarrow> string" where
  "ether_ntos a = snprintf_string 18 (concat (map (\<lambda>b. hex2 b @ '':'') (butlast (ether_addr_octet a))) @ hex2 (last (ether_addr_octet a)))"

definition inet_ntos :: "(in_addr \<Rightarrow> string option) \<Rightarrow> sockaddr_in \<Rightarrow> string" where
  "inet_ntos inet_ntop a =
     (if sin_family a \<noteq> AF_INET then []
      else case inet_ntop (sin_addr a) of None \<Rightarrow> []
      | Some paddr \<Rightarrow> snprintf_string 22 (paddr @ '':'' @ nat_to_string (unat (htons (sin_port a)))))"

text \<open>\<open>find_last_of\<close> for one character.\<close>

definition find_last_of :: "char \<Rightarrow> string \<Rightarrow> nat option" where
  "find_last_of c s = (if c \<in> set s then Some (length s - 1 - length (takeWhile (\<lambda>x. x \<noteq> c) (rev s))) else None)"

definition parse_sockaddr :: "(string \<Rightarrow> in_addr option) \<Rightarrow> string \<Rightarrow> sockaddr_in \<Rightarrow> bool \<times> sockaddr_in" where
  "parse_sockaddr inet_pton arg addr =
     (case find_last_of (CHR '':'') arg of
        Some port_sep \<Rightarrow>
          if (of_nat (length arg) :: 64 word) < of_nat port_sep - 1 then (False, addr)
          else (case parse_int False 16 (drop (port_sep + 1) arg) of
              None \<Rightarrow> (False, addr)
            | Some port \<Rightarrow>
                let addr = addr\<lparr>sin_port := htons (of_int port)\<rparr> in
                case inet_pton (take port_sep arg) of
                  None \<Rightarrow> (False, addr)
                | Some a \<Rightarrow> (True, addr\<lparr>sin_addr := a, sin_family := AF_INET\<rparr>))
      | None \<Rightarrow>
          let addr = addr\<lparr>sin_port := 0\<rparr> in
          case inet_pton arg of
            None \<Rightarrow> (False, addr)
          | Some a \<Rightarrow> (True, addr\<lparr>sin_addr := a, sin_family := AF_INET\<rparr>))"

section \<open>Interfaces\<close>

record if_ipv4 =
  ip_addr :: in_addr
  ip_baddr :: "in_addr option"
  ip_daddr :: "in_addr option"
  ip_nmask :: "in_addr option"

definition if_ipv4_new :: "in_addr \<Rightarrow> if_ipv4" where
  "if_ipv4_new a = \<lparr>ip_addr = a, ip_baddr = None, ip_daddr = None, ip_nmask = None\<rparr>"

definition is_some :: "'a option \<Rightarrow> bool" where
  "is_some x = (case x of None \<Rightarrow> False | Some _ \<Rightarrow> True)"

lemma is_some_iff [simp]: "is_some x \<longleftrightarrow> x \<noteq> None" by (simp add: is_some_def split: option.splits)

definition if_ipv4_eq :: "if_ipv4 \<Rightarrow> if_ipv4 \<Rightarrow> bool" where
  "if_ipv4_eq a b =
     (if ip_addr a \<noteq> ip_addr b then False
      else if (is_some (ip_baddr a) \<and> \<not> is_some (ip_baddr b)) \<or> (\<not> is_some (ip_baddr a) \<and> is_some (ip_baddr b)) then False
      else if (is_some (ip_daddr a) \<and> \<not> is_some (ip_daddr b)) \<or> (\<not> is_some (ip_daddr a) \<and> is_some (ip_daddr b)) then False
      else if (is_some (ip_nmask a) \<and> \<not> is_some (ip_nmask b)) \<or> (\<not> is_some (ip_nmask a) \<and> is_some (ip_nmask b)) then False
      else if is_some (ip_baddr a) \<and> the (ip_baddr a) \<noteq> the (ip_baddr b) then False
      else if is_some (ip_daddr a) \<and> the (ip_daddr a) \<noteq> the (ip_daddr b) then False
      else if is_some (ip_nmask a) \<and> the (ip_nmask a) \<noteq> the (ip_nmask b) then False
      else True)"

record if_vlan =
  vl_parent :: string
  vl_id :: "16 word"

record interface =
  if_name :: string
  if_alias :: "string option"
  if_hwaddr :: "ether_addr option"
  if_vlan_of :: "if_vlan option"
  if_mtu :: "32 word option"
  if_inet :: "if_ipv4 list"
  if_flagbits :: "32 word"

definition interface_new :: "string \<Rightarrow> interface" where
  "interface_new name = \<lparr>if_name = name, if_alias = None, if_hwaddr = None, if_vlan_of = None, if_mtu = None,
     if_inet = [], if_flagbits = 0\<rparr>"

definition set_vlan :: "if_vlan option \<Rightarrow> interface \<Rightarrow> bool \<times> interface" where
  "set_vlan vlan i = (case vlan of None \<Rightarrow> (True, i\<lparr>if_vlan_of := None\<rparr>)
     | Some v \<Rightarrow> if vl_id v > 4095 then (False, i) else (True, i\<lparr>if_vlan_of := Some v\<rparr>))"

text \<open>\<open>status()\<close>, for the values that the system gives its \<open>IFF_\<close> constants.\<close>

datatype if_flag = UP | BROADCAST | LOOPBACK | POINTOPOINT | RUNNING | NOARP | MULTICAST | LOWER_UP

definition if_flags :: "if_flag \<Rightarrow> 32 word" where
  "if_flags f = (case f of UP \<Rightarrow> 0x0001 | BROADCAST \<Rightarrow> 0x0002 | LOOPBACK \<Rightarrow> 0x0008 | POINTOPOINT \<Rightarrow> 0x0010
     | RUNNING \<Rightarrow> 0x0040 | NOARP \<Rightarrow> 0x0080 | MULTICAST \<Rightarrow> 0x1000 | LOWER_UP \<Rightarrow> 0x10000)"

definition interface_status :: "(if_flag \<Rightarrow> 32 word) \<Rightarrow> interface \<Rightarrow> flags" where
  "interface_status IFF i =
     (let f = flags_none;
          f = (if if_flagbits i AND IFF UP \<noteq> 0 then flags_or_bit f (if_flags UP) else f);
          f = (if if_flagbits i AND IFF BROADCAST \<noteq> 0 then flags_or_bit f (if_flags BROADCAST) else f);
          f = (if if_flagbits i AND IFF LOOPBACK \<noteq> 0 then flags_or_bit f (if_flags LOOPBACK) else f);
          f = (if if_flagbits i AND IFF POINTOPOINT \<noteq> 0 then flags_or_bit f (if_flags POINTOPOINT) else f);
          f = (if if_flagbits i AND IFF RUNNING \<noteq> 0 then flags_or_bit f (if_flags RUNNING) else f);
          f = (if if_flagbits i AND IFF NOARP \<noteq> 0 then flags_or_bit f (if_flags NOARP) else f);
          f = (if if_flagbits i AND IFF MULTICAST \<noteq> 0 then flags_or_bit f (if_flags MULTICAST) else f);
          f = (if if_flagbits i AND IFF LOWER_UP \<noteq> 0 then flags_or_bit f (if_flags LOWER_UP) else f)
      in f)"

section \<open>The list of getifaddrs\<close>

datatype sa_addr = Sa_inet in_addr | Sa_link_ether ether_addr | Sa_other

record ifaddrs =
  ifa_name :: string
  ifa_flags :: "32 word"
  ifa_addr :: "sa_addr option"
  ifa_netmask :: "(int \<times> in_addr) option"
  ifa_broadaddr :: "(int \<times> in_addr) option"
  ifa_dstaddr :: "(int \<times> in_addr) option"

definition sa_inet_or_unspec :: "(int \<times> in_addr) option \<Rightarrow> in_addr option" where
  "sa_inet_or_unspec sa = (case sa of None \<Rightarrow> None | Some (family, a) \<Rightarrow> if family = 0 \<or> family = AF_INET then Some a else None)"

definition ipv4_entry :: "(if_flag \<Rightarrow> 32 word) \<Rightarrow> ifaddrs \<Rightarrow> in_addr \<Rightarrow> if_ipv4" where
  "ipv4_entry IFF ifa a =
     (let e = if_ipv4_new a;
          e = (case sa_inet_or_unspec (ifa_netmask ifa) of None \<Rightarrow> e | Some m \<Rightarrow> e\<lparr>ip_nmask := Some m\<rparr>);
          e = (if ifa_flags ifa AND IFF BROADCAST \<noteq> 0 then
                 case sa_inet_or_unspec (ifa_broadaddr ifa) of None \<Rightarrow> e | Some b \<Rightarrow> e\<lparr>ip_baddr := Some b\<rparr> else e);
          e = (if ifa_flags ifa AND IFF POINTOPOINT \<noteq> 0 then
                 case sa_inet_or_unspec (ifa_dstaddr ifa) of None \<Rightarrow> e | Some d \<Rightarrow> e\<lparr>ip_daddr := Some d\<rparr> else e)
      in e)"

definition add_ifaddr :: "(if_flag \<Rightarrow> 32 word) \<Rightarrow> ifaddrs \<Rightarrow> (string \<rightharpoonup> interface) \<Rightarrow> (string \<rightharpoonup> interface)" where
  "add_ifaddr IFF ifa ifs =
     (let name = ifa_name ifa;
          i = (case ifs name of None \<Rightarrow> interface_new name | Some i \<Rightarrow> i) in
      case ifa_addr ifa of None \<Rightarrow> ifs(name \<mapsto> i)
      | Some sa \<Rightarrow>
          let i = i\<lparr>if_flagbits := ifa_flags ifa\<rparr> in
          ifs(name \<mapsto> (case sa of
              Sa_inet a \<Rightarrow> if \<exists>ip \<in> set (if_inet i). ip_addr ip = a then i else i\<lparr>if_inet := if_inet i @ [ipv4_entry IFF ifa a]\<rparr>
            | Sa_link_ether m \<Rightarrow> if if_hwaddr i = None then i\<lparr>if_hwaddr := Some m\<rparr> else i
            | Sa_other \<Rightarrow> i)))"

definition query_getifaddrs :: "(if_flag \<Rightarrow> 32 word) \<Rightarrow> ifaddrs list \<Rightarrow> (string \<rightharpoonup> interface) \<Rightarrow> (string \<rightharpoonup> interface)" where
  "query_getifaddrs IFF = fold (add_ifaddr IFF)"

section \<open>What they do\<close>

text \<open>Two entries compare equal exactly when they are equal.\<close>

lemma if_ipv4_eq_iff: "if_ipv4_eq a b \<longleftrightarrow> a = b"
  by (cases a; cases b) (auto simp: if_ipv4_eq_def)

lemma ether_addr_eq_iff: "ether_addr_eq a b \<longleftrightarrow> a = b"
  by (cases a; cases b) (simp add: ether_addr_eq_def)

text \<open>The status has the bit of every flag that the system's flags have.\<close>

lemma interface_status_eq:
  "interface_status IFF i = Flags (fold (\<lambda>f m. m OR (if if_flagbits i AND IFF f \<noteq> 0 then if_flags f else 0))
     [UP, BROADCAST, LOOPBACK, POINTOPOINT, RUNNING, NOARP, MULTICAST, LOWER_UP] 0)"
  by (simp add: interface_status_def flags_none_def flags_or_bit_def Let_def del: word_neq_0_conv)

definition flag_bit :: "if_flag \<Rightarrow> nat" where
  "flag_bit f = (case f of UP \<Rightarrow> 0 | BROADCAST \<Rightarrow> 1 | LOOPBACK \<Rightarrow> 3 | POINTOPOINT \<Rightarrow> 4
     | RUNNING \<Rightarrow> 6 | NOARP \<Rightarrow> 7 | MULTICAST \<Rightarrow> 12 | LOWER_UP \<Rightarrow> 16)"

lemma if_flags_power: "if_flags f = 2 ^ flag_bit f"
  by (cases f) (simp_all add: if_flags_def flag_bit_def)

lemma interface_status_bit:
  "bit (flag_mask (interface_status IFF i)) (flag_bit f) \<longleftrightarrow> if_flagbits i AND IFF f \<noteq> 0"
proof -
  have b: "bit (if c then 2 ^ flag_bit g else 0 :: 32 word) (flag_bit f) \<longleftrightarrow> c \<and> f = g" for c g
    by (cases f; cases g) (simp_all add: bit_exp_iff flag_bit_def)
  show ?thesis
    unfolding interface_status_eq if_flags_power
    by (simp add: bit_or_iff b del: word_neq_0_conv) (cases f; simp)
qed

subsection \<open>Interfaces of the system\<close>

text \<open>The addresses of the interface \<open>n\<close> in the list, and its Ethernet addresses, in order.\<close>

definition inet_of :: "string \<Rightarrow> ifaddrs list \<Rightarrow> in_addr list" where
  "inet_of n l = concat (map (\<lambda>x. case ifa_addr x of Some (Sa_inet a) \<Rightarrow> [a] | _ \<Rightarrow> []) (filter (\<lambda>x. ifa_name x = n) l))"

definition ether_of :: "string \<Rightarrow> ifaddrs list \<Rightarrow> ether_addr list" where
  "ether_of n l = concat (map (\<lambda>x. case ifa_addr x of Some (Sa_link_ether m) \<Rightarrow> [m] | _ \<Rightarrow> []) (filter (\<lambda>x. ifa_name x = n) l))"

definition getifaddrs_inv :: "ifaddrs list \<Rightarrow> (string \<rightharpoonup> interface) \<Rightarrow> bool" where
  "getifaddrs_inv l ifs \<longleftrightarrow> dom ifs = ifa_name ` set l \<and>
     (\<forall>n i. ifs n = Some i \<longrightarrow> if_name i = n \<and> distinct (map ip_addr (if_inet i)) \<and>
        set (map ip_addr (if_inet i)) = set (inet_of n l) \<and>
        if_hwaddr i = (case ether_of n l of [] \<Rightarrow> None | m # _ \<Rightarrow> Some m))"

lemma ipv4_entry_addr [simp]: "ip_addr (ipv4_entry IFF ifa a) = a"
  by (simp add: ipv4_entry_def if_ipv4_new_def Let_def split: option.splits)

lemma of_snoc:
  "inet_of n (l @ [x]) = inet_of n l @ (if ifa_name x = n then case ifa_addr x of Some (Sa_inet a) \<Rightarrow> [a] | _ \<Rightarrow> [] else [])"
  "ether_of n (l @ [x]) = ether_of n l @ (if ifa_name x = n then case ifa_addr x of Some (Sa_link_ether m) \<Rightarrow> [m] | _ \<Rightarrow> [] else [])"
  by (simp_all add: inet_of_def ether_of_def)

lemma add_ifaddr_inv:
  assumes "getifaddrs_inv l ifs"
  shows "getifaddrs_inv (l @ [x]) (add_ifaddr IFF x ifs)"
proof -
  let ?n = "ifa_name x"
  define i where "i = (case ifs ?n of None \<Rightarrow> interface_new ?n | Some i \<Rightarrow> i)"
  have i: "if_name i = ?n \<and> distinct (map ip_addr (if_inet i)) \<and> set (map ip_addr (if_inet i)) = set (inet_of ?n l) \<and>
      if_hwaddr i = (case ether_of ?n l of [] \<Rightarrow> None | m # _ \<Rightarrow> Some m)"
  proof (cases "ifs ?n")
    case None
    then have "?n \<notin> ifa_name ` set l" using assms by (auto simp: getifaddrs_inv_def)
    then have "filter (\<lambda>x. ifa_name x = ?n) l = []" unfolding filter_empty_conv by (metis image_eqI)
    then show ?thesis using None by (simp add: i_def interface_new_def inet_of_def ether_of_def)
  next
    case (Some j)
    then show ?thesis using assms by (simp add: i_def getifaddrs_inv_def)
  qed
  have other: "inet_of m (l @ [x]) = inet_of m l \<and> ether_of m (l @ [x]) = ether_of m l" if "m \<noteq> ?n" for m
    using that by (simp add: of_snoc)
  obtain j where j: "add_ifaddr IFF x ifs = ifs(?n \<mapsto> j)" "if_name j = ?n" "distinct (map ip_addr (if_inet j))"
      "set (map ip_addr (if_inet j)) = set (inet_of ?n (l @ [x]))"
      "if_hwaddr j = (case ether_of ?n (l @ [x]) of [] \<Rightarrow> None | m # _ \<Rightarrow> Some m)"
  proof (cases "ifa_addr x")
    case None
    show thesis by (rule that [of i]) (use i None in \<open>simp_all add: add_ifaddr_def Let_def i_def [symmetric] of_snoc\<close>)
  next
    case (Some sa)
    show thesis
    proof (cases sa)
      case (Sa_inet a)
      have e: "(\<exists>ip \<in> set (if_inet i). ip_addr ip = a) \<longleftrightarrow> a \<in> set (inet_of ?n l)"
      proof -
        have "a \<in> set (map ip_addr (if_inet i)) \<longleftrightarrow> a \<in> set (inet_of ?n l)" using i by simp
        then show ?thesis by auto
      qed
      have n: "inet_of ?n (l @ [x]) = inet_of ?n l @ [a]" "ether_of ?n (l @ [x]) = ether_of ?n l"
        by (simp_all add: of_snoc Some Sa_inet)
      show thesis
      proof (cases "a \<in> set (inet_of ?n l)")
        case True
        show thesis by (rule that [of "i\<lparr>if_flagbits := ifa_flags x\<rparr>"])
          (use i e True Some Sa_inet n in \<open>simp_all add: add_ifaddr_def Let_def i_def [symmetric] insert_absorb\<close>)
      next
        case False
        then have "a \<notin> ip_addr ` set (if_inet i)" using i by simp
        then show thesis by (intro that [of "i\<lparr>if_flagbits := ifa_flags x, if_inet := if_inet i @ [ipv4_entry IFF x a]\<rparr>"])
          (use i e False Some Sa_inet n in \<open>simp_all add: add_ifaddr_def Let_def i_def [symmetric]\<close>)
      qed
    next
      case (Sa_link_ether m)
      show thesis
        by (rule that [of "if if_hwaddr i = None then i\<lparr>if_flagbits := ifa_flags x, if_hwaddr := Some m\<rparr> else i\<lparr>if_flagbits := ifa_flags x\<rparr>"])
          (use i Some Sa_link_ether in \<open>auto simp: add_ifaddr_def Let_def i_def [symmetric] of_snoc split: list.splits\<close>)
    next
      case Sa_other
      show thesis by (rule that [of "i\<lparr>if_flagbits := ifa_flags x\<rparr>"])
          (use i Some Sa_other in \<open>simp_all add: add_ifaddr_def Let_def i_def [symmetric] of_snoc\<close>)
    qed
  qed
  show ?thesis
    unfolding getifaddrs_inv_def
  proof (intro conjI allI impI)
    show "dom (add_ifaddr IFF x ifs) = ifa_name ` set (l @ [x])"
      using assms by (auto simp: j(1) getifaddrs_inv_def)
    fix m k assume "add_ifaddr IFF x ifs m = Some k"
    then have mk: "(if m = ?n then Some j else ifs m) = Some k" by (simp add: j(1) split: if_splits)
    show "if_name k = m" "distinct (map ip_addr (if_inet k))" "set (map ip_addr (if_inet k)) = set (inet_of m (l @ [x]))"
      "if_hwaddr k = (case ether_of m (l @ [x]) of [] \<Rightarrow> None | m # _ \<Rightarrow> Some m)"
      using mk j assms other [of m] by (auto simp: getifaddrs_inv_def split: if_splits)
  qed
qed

lemma query_getifaddrs_inv: "getifaddrs_inv l (query_getifaddrs IFF l Map.empty)"
proof (induction l rule: rev_induct)
  case Nil
  show ?case by (simp add: query_getifaddrs_def getifaddrs_inv_def)
next
  case (snoc x l)
  then show ?case using add_ifaddr_inv by (simp add: query_getifaddrs_def)
qed

text \<open>Reading the list of the system gives one interface for each name, with each of its IPv4 addresses exactly once and the
  first of its Ethernet addresses, in whatever order the entries of different interfaces are mixed.\<close>

theorem query_getifaddrs_complete: "getifaddrs_inv l (query_getifaddrs IFF l Map.empty)"
  by (rule query_getifaddrs_inv)

subsection \<open>Addresses as text\<close>

lemma htons_htons [simp]: "htons (htons w) = w"
  by (auto simp: htons_def bit_eq_iff bit_simps)

lemma find_last_of_last:
  assumes "c \<notin> set b"
  shows "find_last_of c (a @ c # b) = Some (length a)"
proof -
  have "takeWhile (\<lambda>x. x \<noteq> c) (rev b @ c # rev a) = rev b @ takeWhile (\<lambda>x. x \<noteq> c) (c # rev a)"
    using assms by (intro takeWhile_append2) auto
  then show ?thesis by (simp add: find_last_of_def)
qed

lemma nat_to_string_digits_len: "n < 100000 \<Longrightarrow> length (nat_to_string n) \<le> 5"
  using nat_to_string_length [of n 4] by simp

lemma colon_not_digit: "c \<in> set (nat_to_string n) \<Longrightarrow> c \<noteq> CHR '':''"
proof -
  assume "c \<in> set (nat_to_string n)"
  then have "is_digit c" using nat_to_string_digits [of n] by (auto simp: list_all_iff)
  then show ?thesis by (auto simp: is_digit_def)
qed

text \<open>An IPv4 socket address printed by \<open>inet_ntos\<close> is read back by \<open>parse_sockaddr\<close>, address and port,
  whatever the variable held before; it relies on the system's \<open>inet_pton\<close> reading back what
  \<open>inet_ntop\<close> prints, and on that text fitting \<open>INET_ADDRSTRLEN\<close> and having no colon.\<close>

theorem parse_sockaddr_roundtrip:
  assumes "inet_ntop (sin_addr a) = Some t" "inet_pton t = Some (sin_addr a)" "t \<noteq> []" "length t \<le> 15" "CHR '':'' \<notin> set t"
    and "sin_family a = AF_INET"
  shows "parse_sockaddr inet_pton (inet_ntos inet_ntop a) old = (True, a)"
proof -
  define p where "p = unat (htons (sin_port a))"
  have p: "p < 65536" unfolding p_def using unat_word16 [of "htons (sin_port a)"] by simp
  then have l: "length (nat_to_string p) \<le> 5" by (intro nat_to_string_digits_len) simp
  then have n: "inet_ntos inet_ntop a = t @ CHR '':'' # nat_to_string p"
    using assms by (simp add: inet_ntos_def snprintf_string_def p_def)
  have f: "find_last_of (CHR '':'') (t @ CHR '':'' # nat_to_string p) = Some (length t)"
    by (rule find_last_of_last) (use colon_not_digit in blast)
  have "parse_int False 16 (int_to_string (int p)) = Some (int p)"
    using parse_int_decimal [of False 16 "int p"] p by (simp add: int_lo_def int_hi_def)
  then have i: "parse_int False 16 (nat_to_string p) = Some (int p)" by (simp add: int_to_string_def)
  have w: "htons (of_int (int p)) = sin_port a" by (simp add: p_def)
  have s: "\<not> (of_nat (length (t @ CHR '':'' # nat_to_string p)) :: 64 word) < of_nat (length t) - 1"
  proof -
    have t: "1 \<le> length t" "unat (of_nat (length t) :: 64 word) = length t"
      using assms(3,4) unfolding unat_of_nat by (simp_all add: Suc_le_eq)
    then have "unat (of_nat (length t) - 1 :: 64 word) = length t - 1" by (subst unat_sub) (simp_all add: word_le_nat_alt)
    moreover have "unat (of_nat (length (t @ CHR '':'' # nat_to_string p)) :: 64 word) = length t + 1 + length (nat_to_string p)"
      unfolding unat_of_nat using assms(4) l by simp
    ultimately show ?thesis by (simp only: word_less_nat_alt)
  qed
  show ?thesis
    unfolding n parse_sockaddr_def f using i w assms(2,6) s
    by (cases a) (auto simp: Let_def)
qed

lemma parse_sockaddr_roundtrip_witness:
  "parse_sockaddr (\<lambda>s. map_option of_int (parse_int False 32 s)) (inet_ntos (\<lambda>a. Some (nat_to_string (unat a)))
      \<lparr>sin_family = AF_INET, sin_port = htons 80, sin_addr = 9\<rparr>) \<lparr>sin_family = 0, sin_port = 0, sin_addr = 0\<rparr>
    = (True, \<lparr>sin_family = AF_INET, sin_port = htons 80, sin_addr = 9\<rparr>)"
proof -
  have n: "nat_to_string 9 = [CHR ''9'']" by code_simp
  have "parse_int False 32 (int_to_string 9) = Some 9" by (simp add: parse_int_decimal int_lo_def int_hi_def)
  then have "parse_int False 32 (nat_to_string 9) = Some 9" by (simp add: int_to_string_def)
  then have i: "map_option of_int (parse_int False 32 (nat_to_string 9)) = Some (9 :: in_addr)" by simp
  show ?thesis by (rule parse_sockaddr_roundtrip [where t = "nat_to_string 9"]) (simp_all add: i, simp_all add: n)
qed

subsection \<open>Multicast\<close>

text \<open>The Ethernet address keeps the low 23 bits of the group (RFC 1112).\<close>

lemma ucast_byte_inj: "ucast (x :: 32 word) = (ucast y :: byte) \<longleftrightarrow> take_bit 8 x = take_bit 8 y"
proof
  assume e: "ucast x = (ucast y :: byte)"
  have "bit x j = bit y j" if "j < 8" for j
    using arg_cong [OF e, of "\<lambda>w. bit w j"] that by (simp add: bit_simps)
  then show "take_bit 8 x = take_bit 8 y" by (intro bit_eqI) (auto simp: bit_simps)
next
  assume e: "take_bit 8 x = take_bit 8 y"
  have "bit x j = bit y j" if "j < 8" for j
    using arg_cong [OF e, of "\<lambda>w. bit w j"] that by (simp add: bit_simps)
  then show "ucast x = (ucast y :: byte)" by (intro bit_eqI) (auto simp: bit_simps)
qed

lemma get_ether_multicast_iff:
  assumes "get_ether_multicast a = Some m" "get_ether_multicast b = Some n"
  shows "m = n \<longleftrightarrow> take_bit 23 (ntohl a) = take_bit 23 (ntohl b)"
proof -
  define x where "x = ntohl a"
  define y where "y = ntohl b"
  have k: "(0x7F :: 32 word) = mask 7" "(0xFF :: 32 word) = mask 8" by (simp_all add: mask_numeral)
  have "m = n \<longleftrightarrow> take_bit 8 (drop_bit 16 x AND mask 7) = take_bit 8 (drop_bit 16 y AND mask 7)
     \<and> take_bit 8 (drop_bit 8 x AND mask 8) = take_bit 8 (drop_bit 8 y AND mask 8)
     \<and> take_bit 8 (x AND mask 8) = take_bit 8 (y AND mask 8)"
    using assms by (auto simp: get_ether_multicast_def Let_def ucast_byte_inj k x_def [symmetric] y_def [symmetric] split: if_splits)
  also have "\<dots> \<longleftrightarrow> take_bit 23 x = take_bit 23 y"
  proof
    assume l: "take_bit 8 (drop_bit 16 x AND mask 7) = take_bit 8 (drop_bit 16 y AND mask 7)
     \<and> take_bit 8 (drop_bit 8 x AND mask 8) = take_bit 8 (drop_bit 8 y AND mask 8)
     \<and> take_bit 8 (x AND mask 8) = take_bit 8 (y AND mask 8)"
    have h: "bit x (16 + j) = bit y (16 + j)" if "j < 7" for j
      using arg_cong [OF conjunct1 [OF l], of "\<lambda>w. bit w j"] that by (simp add: bit_simps)
    have mid: "bit x (8 + j) = bit y (8 + j)" if "j < 8" for j
      using arg_cong [OF conjunct1 [OF conjunct2 [OF l]], of "\<lambda>w. bit w j"] that by (simp add: bit_simps)
    have lo: "bit x j = bit y j" if "j < 8" for j
      using arg_cong [OF conjunct2 [OF conjunct2 [OF l]], of "\<lambda>w. bit w j"] that by (simp add: bit_simps)
    show "take_bit 23 x = take_bit 23 y"
    proof (rule bit_eqI)
      fix j :: nat
      consider "j < 8" | "8 \<le> j" "j < 16" | "16 \<le> j" "j < 23" | "23 \<le> j" by linarith
      then show "bit (take_bit 23 x) j = bit (take_bit 23 y) j"
      proof cases
        case 2
        then show ?thesis using mid [of "j - 8"] by (simp add: bit_simps)
      next
        case 3
        then show ?thesis using h [of "j - 16"] by (simp add: bit_simps)
      qed (simp_all add: lo bit_simps)
    qed
  next
    assume e: "take_bit 23 x = take_bit 23 y"
    have "bit x j = bit y j" if "j < 23" for j
      using arg_cong [OF e, of "\<lambda>w. bit w j"] that by (simp add: bit_simps)
    then show "take_bit 8 (drop_bit 16 x AND mask 7) = take_bit 8 (drop_bit 16 y AND mask 7)
     \<and> take_bit 8 (drop_bit 8 x AND mask 8) = take_bit 8 (drop_bit 8 y AND mask 8)
     \<and> take_bit 8 (x AND mask 8) = take_bit 8 (y AND mask 8)"
      by (auto simp: bit_eq_iff bit_simps)
  qed
  finally show ?thesis by (simp add: x_def y_def)
qed

end
