(* ===== verification/ToolOptions.thy ===== *)
theory ToolOptions
  imports Options Strings Net
begin

text \<open>
  The options of the tools (\<open>make_options\<close> in each \<open>options.cpp\<close>) on top of the command
  line parser.  Each tool walks over the parsed options with a handler that changes the tool's options
  or stops.  The handlers take the operand of an option without asking whether there is one; that
  this is safe is the contract of the locale, which each tool's handler satisfies for its option string.
\<close>

section \<open>Walking over the options\<close>

text \<open>How a tool stops without options: it returns an exit code; it takes the operand of an option
  that has none; or the constructor of the parser throws out of the \<open>noexcept\<close> function.\<close>

datatype stop = Exit int | No_operand | Terminated

definition operand :: "opt \<Rightarrow> (string \<Rightarrow> stop + 'o) \<Rightarrow> stop + 'o" where
  "operand o1 f = (case argument o1 of None \<Rightarrow> Inl No_operand | Some a \<Rightarrow> f a)"

fun each_option :: "(opt \<Rightarrow> 'o \<Rightarrow> stop + 'o) \<Rightarrow> (option_error \<Rightarrow> 'o \<Rightarrow> stop + 'o) \<Rightarrow> option_type list \<Rightarrow> 'o \<Rightarrow> stop + 'o" where
  "each_option h he [] s = Inr s"
| "each_option h he (r # rs) s =
     (case (case r of Inr o1 \<Rightarrow> h o1 s | Inl e \<Rightarrow> he e s) of Inl stop \<Rightarrow> Inl stop | Inr s \<Rightarrow> each_option h he rs s)"

text \<open>The common frame of \<open>make_options\<close>: \<open>argv\<close> with the program's name first.\<close>

definition walk_options :: "string \<Rightarrow> (opt \<Rightarrow> 'o \<Rightarrow> stop + 'o) \<Rightarrow> (option_error \<Rightarrow> 'o \<Rightarrow> stop + 'o) \<Rightarrow>
    (options \<Rightarrow> 'o \<Rightarrow> stop + 'r) \<Rightarrow> string option list \<Rightarrow> 'o \<Rightarrow> stop + 'r" where
  "walk_options optstr h he fin argv s = (case options_main argv optstr of
       Inl e \<Rightarrow> Inl Terminated
     | Inr opts \<Rightarrow> (case each_option h he (o_args opts) s of Inl stop \<Rightarrow> Inl stop | Inr s \<Rightarrow> fin opts s))"

definition exits_or :: "('o \<Rightarrow> bool) \<Rightarrow> stop + 'o \<Rightarrow> bool" where
  "exits_or P r = (case r of Inl (Exit _) \<Rightarrow> True | Inl No_operand \<Rightarrow> False | Inl Terminated \<Rightarrow> False | Inr s \<Rightarrow> P s)"

lemma exits_or_simps [simp]:
  "exits_or P (Inl (Exit e))" "\<not> exits_or P (Inl No_operand)" "\<not> exits_or P (Inl Terminated)" "exits_or P (Inr s) \<longleftrightarrow> P s"
  by (simp_all add: exits_or_def)

lemma exits_or_if [simp]: "exits_or P (if b then x else y) \<longleftrightarrow> (if b then exits_or P x else exits_or P y)"
  by simp

lemma exits_or_option [simp]: "exits_or P (case v of None \<Rightarrow> x | Some a \<Rightarrow> f a) \<longleftrightarrow> (case v of None \<Rightarrow> exits_or P x | Some a \<Rightarrow> exits_or P (f a))"
  by (simp split: option.split)

lemma exits_or_prod [simp]: "exits_or P (case v of (a, b) \<Rightarrow> g a b) \<longleftrightarrow> (case v of (a, b) \<Rightarrow> exits_or P (g a b))"
  by (simp split: prod.split)

lemma exits_orE: "exits_or P r \<Longrightarrow> (\<And>e. r = Inl (Exit e) \<Longrightarrow> Q) \<Longrightarrow> (\<And>s. r = Inr s \<Longrightarrow> P s \<Longrightarrow> Q) \<Longrightarrow> Q"
  by (auto simp: exits_or_def split: sum.splits stop.splits)

lemma walk_options_sound:
  assumes "options_main argv optstr = Inr opts" "build_option_map optstr = Inr m"
  shows "\<forall>r \<in> set (o_args opts). sound_result m r"
proof -
  let ?n = "case_option [] id"
  from assms(1) consider "o_args opts = []" | "opts \<in> set []" |
    out user where "parse_options (map ?n (tl argv)) optstr = Inr (out, user)" "o_args opts = out"
    by (auto simp: options_main_def Let_def with_parse_def options_empty_def split: if_splits sum.splits prod.splits)
  then show ?thesis
  proof cases
    case 3
    then have "parse_args m (map ?n (tl argv)) [] = (out, user)" using assms(2) by (simp add: parse_options_def)
    then show ?thesis using parse_args_sound [of m "[]" "map ?n (tl argv)"] 3(2) by (auto simp: adds_def)
  qed simp_all
qed

lemma options_main_ok: "build_option_map optstr = Inr m \<Longrightarrow> \<exists>opts. options_main argv optstr = Inr opts"
  by (auto simp: options_main_def with_parse_def parse_options_def Let_def options_empty_def split: prod.splits)

text \<open>The contract of a handler: on options that the parser can give for the option string it keeps an
  invariant of the tool's options and stops only with an exit code.\<close>

locale option_handler =
  fixes optstr :: string and m :: option_map
    and h :: "opt \<Rightarrow> 'o \<Rightarrow> stop + 'o" and he :: "option_error \<Rightarrow> 'o \<Rightarrow> stop + 'o" and inv :: "'o \<Rightarrow> bool"
  assumes optstr: "build_option_map optstr = Inr m"
    and h: "sound_result m (Inr o1) \<Longrightarrow> inv s \<Longrightarrow> exits_or inv (h o1 s)"
    and he: "inv s \<Longrightarrow> exits_or inv (he e s)"
begin

lemma each_option_keeps: "\<forall>r \<in> set rs. sound_result m r \<Longrightarrow> inv s \<Longrightarrow> exits_or inv (each_option h he rs s)"
proof (induction rs arbitrary: s)
  case (Cons r rs)
  have "exits_or inv (case r of Inr o1 \<Rightarrow> h o1 s | Inl e \<Rightarrow> he e s)"
    using Cons.prems h he by (auto split: sum.splits)
  then show ?case by (rule exits_orE) (use Cons in auto)
qed simp

lemma walk_keeps:
  assumes "inv s" "\<And>opts s. inv s \<Longrightarrow> exits_or P (fin opts s)"
  shows "exits_or P (walk_options optstr h he fin argv s)"
proof -
  obtain opts where o: "options_main argv optstr = Inr opts" using options_main_ok [OF optstr] by blast
  from each_option_keeps [OF walk_options_sound [OF o optstr] assms(1)] show ?thesis
    by (rule exits_orE) (use assms(2) in \<open>auto simp: walk_options_def o\<close>)
qed

end

text \<open>What is known of an operand.\<close>

lemma sound_operand: "sound_result m (Inr o1) \<Longrightarrow> m (get_option o1) = Arg_required \<Longrightarrow> \<exists>a. argument o1 = Some a"
  by (auto simp: sound_result_def split: if_splits)

lemmas build_map_simps = build_option_map_def build_map_loop.simps is_valid_opt_def is_alnum_def

lemma parse_int_range: "parse_int sg bits arg = Some n \<Longrightarrow> int_lo sg bits \<le> n \<and> n \<le> int_hi sg bits"
  by (auto simp: parse_int_def from_chars_def Let_def split: if_splits)

lemma uint_parsed: "parse_int False LENGTH('a) arg = Some n \<Longrightarrow> uint (of_int n :: 'a::len word) = n"
  using parse_int_range [of False "LENGTH('a)" arg n] by (simp add: int_lo_def int_hi_def uint_word_of_int take_bit_int_eq_self)

lemmas uint_parsed16 = uint_parsed [where 'a = 16, simplified]
lemmas uint_parsed32 = uint_parsed [where 'a = 32, simplified]

text \<open>An address that was read is an IPv4 address.\<close>

lemma parse_sockaddr_family: "parse_sockaddr inet_pton arg a = (ok, a') \<Longrightarrow> ok \<Longrightarrow> sin_family a' = AF_INET"
  by (auto simp: parse_sockaddr_def Let_def split: option.splits if_splits)

section \<open>udp\_load\<close>

datatype send_mode = Mode_sendto | Mode_sendmmsg | Mode_bpf | Mode_bpfmm

record load_options =
  lo_mode :: send_mode
  lo_idle :: bool
  lo_source :: sockaddr_in
  lo_dest :: sockaddr_in
  lo_slots :: "16 word"
  lo_width :: "16 word"
  lo_size :: "16 word"
  lo_packets :: "32 word"
  lo_duration :: "32 word"
  lo_threads :: "16 word"

definition sockaddr_zero :: sockaddr_in where
  "sockaddr_zero = \<lparr>sin_family = 0, sin_port = 0, sin_addr = 0\<rparr>"

definition load_options_new :: load_options where
  "load_options_new = \<lparr>lo_mode = Mode_sendto, lo_idle = False, lo_source = sockaddr_zero, lo_dest = sockaddr_zero,
     lo_slots = 20, lo_width = 5, lo_size = 1472, lo_packets = 1000, lo_duration = 30000, lo_threads = 1\<rparr>"

definition load_mode :: "string \<Rightarrow> send_mode option" where
  "load_mode arg = (if arg = ''sendto'' then Some Mode_sendto else if arg = ''sendmmsg'' then Some Mode_sendmmsg
     else if arg = ''bpf'' then Some Mode_bpf else if arg = ''bpfmm'' then Some Mode_bpfmm else None)"

text \<open>\<open>supported\<close> is what the talkers of the platform say of themselves.\<close>

definition load_handler :: "(send_mode \<Rightarrow> bool) \<Rightarrow> (string \<Rightarrow> in_addr option) \<Rightarrow> opt \<Rightarrow> load_options \<Rightarrow> stop + load_options" where
  "load_handler supported inet_pton o1 s =
     (let c = get_option o1 in
      if c = CHR ''n'' then operand o1 (\<lambda>arg. case parse_int False 16 arg of None \<Rightarrow> Inl (Exit 1)
        | Some n \<Rightarrow> if n < 1 then Inl (Exit 1) else Inr (s\<lparr>lo_slots := of_int n\<rparr>))
      else if c = CHR ''m'' then operand o1 (\<lambda>arg. case parse_int False 16 arg of None \<Rightarrow> Inl (Exit 1)
        | Some n \<Rightarrow> if n < 1 then Inl (Exit 1) else Inr (s\<lparr>lo_width := of_int n\<rparr>))
      else if c = CHR ''p'' then operand o1 (\<lambda>arg. case parse_int False 32 arg of None \<Rightarrow> Inl (Exit 1)
        | Some p \<Rightarrow> if p < 1 then Inl (Exit 1) else Inr (s\<lparr>lo_packets := of_int p\<rparr>))
      else if c = CHR ''s'' then operand o1 (\<lambda>arg. case parse_int False 16 arg of None \<Rightarrow> Inl (Exit 1)
        | Some n \<Rightarrow> Inr (s\<lparr>lo_size := of_int n\<rparr>))
      else if c = CHR ''d'' then operand o1 (\<lambda>arg. case parse_int False 32 arg of None \<Rightarrow> Inl (Exit 1)
        | Some t \<Rightarrow> if t < 1000 then Inl (Exit 1) else Inr (s\<lparr>lo_duration := of_int t\<rparr>))
      else if c = CHR ''B'' then operand o1 (\<lambda>arg. case load_mode arg of None \<Rightarrow> Inl (Exit 1)
        | Some md \<Rightarrow> if \<not> supported md then Inl (Exit 1) else Inr (s\<lparr>lo_mode := md\<rparr>))
      else if c = CHR ''T'' then operand o1 (\<lambda>arg. case parse_int False 16 arg of None \<Rightarrow> Inl (Exit 1)
        | Some t \<Rightarrow> if t < 1 \<or> t > 255 then Inl (Exit 1) else Inr (s\<lparr>lo_threads := of_int t\<rparr>))
      else if c = CHR ''S'' then operand o1 (\<lambda>arg. case parse_sockaddr inet_pton arg (lo_source s) of
          (ok, a) \<Rightarrow> if \<not> ok then Inl (Exit 1) else Inr (s\<lparr>lo_source := a\<rparr>))
      else if c = CHR ''D'' then operand o1 (\<lambda>arg. case parse_sockaddr inet_pton arg (lo_dest s) of
          (ok, a) \<Rightarrow> if \<not> ok then Inl (Exit 1) else Inr (s\<lparr>lo_dest := a\<rparr>))
      else if c = CHR ''I'' then Inr (s\<lparr>lo_idle := True\<rparr>)
      else if c = CHR ''?'' then Inl (Exit 0)
      else Inl (Exit 1))"

definition load_finish :: "options \<Rightarrow> load_options \<Rightarrow> stop + load_options" where
  "load_finish opts s = (if sin_addr (lo_source s) = 0 then Inl (Exit 1) else if sin_addr (lo_dest s) = 0 then Inl (Exit 1) else Inr s)"

definition load_make_options :: "(send_mode \<Rightarrow> bool) \<Rightarrow> (string \<Rightarrow> in_addr option) \<Rightarrow> string option list \<Rightarrow> stop + load_options" where
  "load_make_options supported inet_pton argv =
     walk_options ''n:m:p:s:d:B:T:S:D:I?'' (load_handler supported inet_pton) (\<lambda>_ _. Inl (Exit 1)) load_finish argv load_options_new"

definition load_map :: option_map where
  "load_map = (\<lambda>c. if c \<in> set ''nmpsdBTSD'' then Arg_required else if c \<in> set ''I?'' then Single_opt else Not_defined)"

lemma load_optstring: "build_option_map ''n:m:p:s:d:B:T:S:D:I?'' = Inr load_map"
  by (rule trans, simp add: build_map_simps) (auto simp: load_map_def fun_eq_iff)

definition load_ranges :: "load_options \<Rightarrow> bool" where
  "load_ranges s \<longleftrightarrow> 1 \<le> lo_slots s \<and> 1 \<le> lo_width s \<and> 1 \<le> lo_packets s \<and> 1000 \<le> lo_duration s \<and>
     1 \<le> lo_threads s \<and> lo_threads s \<le> 255 \<and>
     (sin_addr (lo_source s) \<noteq> 0 \<longrightarrow> sin_family (lo_source s) = AF_INET) \<and> (sin_addr (lo_dest s) \<noteq> 0 \<longrightarrow> sin_family (lo_dest s) = AF_INET)"

interpretation load: option_handler "''n:m:p:s:d:B:T:S:D:I?''" load_map "load_handler supported inet_pton" "\<lambda>_ _. Inl (Exit 1)" load_ranges
  for supported inet_pton
proof unfold_locales
  show "build_option_map ''n:m:p:s:d:B:T:S:D:I?'' = Inr load_map" by (rule load_optstring)
  show "exits_or load_ranges (load_handler supported inet_pton o1 s)" if r: "sound_result load_map (Inr o1)" and s: "load_ranges s" for o1 s
  proof (cases "argument o1")
    case None
    then have "get_option o1 \<in> set ''I?''" using r by (auto simp: sound_result_def load_map_def split: if_splits)
    then show ?thesis using s by (auto simp: load_handler_def load_ranges_def)
  next
    case (Some a)
    then have "get_option o1 \<in> set ''nmpsdBTSD''" using r by (auto simp: sound_result_def load_map_def split: if_splits)
    then show ?thesis using s Some
      by (auto simp: load_handler_def operand_def load_ranges_def word_le_def uint_parsed16 uint_parsed32
          split: option.splits prod.splits if_splits dest: parse_sockaddr_family)
  qed
qed simp


text \<open>Whatever the command line is, the options of \<open>udp_load\<close> are in the ranges the messages state and both
  addresses are given; or the tool exits with a code.  No operand is taken that is not there and no error of
  the parser leaves the function, which is \<open>noexcept\<close>.\<close>

theorem load_options_ranges:
  "exits_or (\<lambda>s. load_ranges s \<and> sin_addr (lo_source s) \<noteq> 0 \<and> sin_addr (lo_dest s) \<noteq> 0) (load_make_options supported inet_pton argv)"
  unfolding load_make_options_def
  by (rule load.walk_keeps) (simp_all add: load_ranges_def load_options_new_def sockaddr_zero_def load_finish_def)

section \<open>Tools that collect errors\<close>

text \<open>The other frame of \<open>make_options\<close>: an option never stops the walk, it sets \<open>err\<close> or \<open>help\<close>, and the end
  looks at them.\<close>

record 'o parsing =
  ps_help :: bool
  ps_err :: int
  ps_opts :: 'o

definition parsing_new :: "'o \<Rightarrow> 'o parsing" where
  "parsing_new o1 = \<lparr>ps_help = False, ps_err = 0, ps_opts = o1\<rparr>"

definition failed :: "'o parsing \<Rightarrow> stop + 'o parsing" where
  "failed s = Inr (s\<lparr>ps_err := 1\<rparr>)"

definition changed :: "('o \<Rightarrow> 'o) \<Rightarrow> 'o parsing \<Rightarrow> stop + 'o parsing" where
  "changed f s = Inr (s\<lparr>ps_opts := f (ps_opts s)\<rparr>)"

definition helped :: "'o parsing \<Rightarrow> stop + 'o parsing" where
  "helped s = Inr (s\<lparr>ps_help := True\<rparr>)"

definition parsing_finish :: "'o parsing \<Rightarrow> stop + 'o" where
  "parsing_finish s = (if ps_err s \<noteq> 0 \<or> ps_help s then Inl (Exit (ps_err s)) else Inr (ps_opts s))"

text \<open>What a collecting handler keeps: as long as no error is seen the options satisfy \<open>P\<close>, and \<open>err\<close> is 0 or 1.\<close>

definition unless_err :: "('o \<Rightarrow> bool) \<Rightarrow> 'o parsing \<Rightarrow> bool" where
  "unless_err P s \<longleftrightarrow> (ps_err s = 1 \<or> ps_err s = 0 \<and> P (ps_opts s))"

lemma failed_keeps [simp]: "exits_or (unless_err P) (failed s)"
  by (simp add: failed_def unless_err_def)

lemma helped_keeps [simp]: "unless_err P s \<Longrightarrow> exits_or (unless_err P) (helped s)"
  by (simp add: helped_def unless_err_def)

lemma changed_keeps: "unless_err P s \<Longrightarrow> (P (ps_opts s) \<Longrightarrow> P (f (ps_opts s))) \<Longrightarrow> exits_or (unless_err P) (changed f s)"
  by (auto simp: changed_def unless_err_def)

lemma unless_err_new [simp]: "unless_err P (parsing_new o1) \<longleftrightarrow> P o1"
  by (simp add: unless_err_def parsing_new_def)

lemma parsing_finish_keeps: "unless_err P s \<Longrightarrow> exits_or P (parsing_finish s)"
  by (auto simp: parsing_finish_def unless_err_def)

text \<open>The contract of a collecting handler gives the one of a handler.\<close>

locale collecting_handler =
  fixes optstr :: string and m :: option_map and h :: "opt \<Rightarrow> 'o parsing \<Rightarrow> stop + 'o parsing" and P :: "'o \<Rightarrow> bool"
  assumes map_ok: "build_option_map optstr = Inr m"
    and single: "argument o1 = None \<Longrightarrow> m (get_option o1) = Single_opt \<Longrightarrow> unless_err P s \<Longrightarrow> exits_or (unless_err P) (h o1 s)"
    and with_operand: "argument o1 = Some a \<Longrightarrow> m (get_option o1) = Arg_required \<Longrightarrow> unless_err P s \<Longrightarrow> exits_or (unless_err P) (h o1 s)"

sublocale collecting_handler \<subseteq> option_handler optstr m h "\<lambda>_. failed" "unless_err P"
proof unfold_locales
  show "exits_or (unless_err P) (h o1 s)" if "sound_result m (Inr o1)" "unless_err P s" for o1 s
    using that single with_operand by (cases "argument o1") (auto simp: sound_result_def)
qed (simp_all add: map_ok)

context collecting_handler
begin

lemma collected:
  assumes "P o1" "\<And>opts s. unless_err P s \<Longrightarrow> exits_or Q (fin opts s)"
  shows "exits_or Q (walk_options optstr h (\<lambda>_. failed) fin argv (parsing_new o1))"
  by (rule walk_keeps) (use assms in simp_all)

end

subsection \<open>lshmem\<close>

record shm_options =
  so_verbosity :: int
  so_pids :: "int list"
  so_phys_mem :: bool
  so_shared_mem :: bool
  so_read :: bool
  so_tymem :: bool

definition shm_options_new :: shm_options where
  "shm_options_new = \<lparr>so_verbosity = 0, so_pids = [], so_phys_mem = False, so_shared_mem = False, so_read = False, so_tymem = False\<rparr>"

definition shm_handler :: "opt \<Rightarrow> shm_options parsing \<Rightarrow> stop + shm_options parsing" where
  "shm_handler o1 s =
     (let c = get_option o1 in
      if c = CHR ''v'' then changed (\<lambda>o1. o1\<lparr>so_verbosity := so_verbosity o1 + 1\<rparr>) s
      else if c = CHR ''p'' then operand o1 (\<lambda>arg.
        let pids = split_args_int False 32 arg; s = s\<lparr>ps_opts := (ps_opts s)\<lparr>so_pids := pids\<rparr>\<rparr> in
        if pids = [] then failed s else Inr s)
      else if c = CHR ''m'' then changed (\<lambda>o1. o1\<lparr>so_phys_mem := True\<rparr>) s
      else if c = CHR ''s'' then changed (\<lambda>o1. o1\<lparr>so_shared_mem := True\<rparr>) s
      else if c = CHR ''r'' then changed (\<lambda>o1. o1\<lparr>so_read := True\<rparr>) s
      else if c = CHR ''t'' then changed (\<lambda>o1. o1\<lparr>so_tymem := True\<rparr>) s
      else if c = CHR ''?'' then helped s
      else failed s)"

definition shm_finish :: "options \<Rightarrow> shm_options parsing \<Rightarrow> stop + shm_options" where
  "shm_finish opts s = (case parsing_finish s of Inl stop \<Rightarrow> Inl stop
     | Inr o1 \<Rightarrow> Inr (if \<not> so_phys_mem o1 \<and> \<not> so_shared_mem o1 \<and> \<not> so_tymem o1 then o1\<lparr>so_shared_mem := True\<rparr> else o1))"

definition shm_make_options :: "string option list \<Rightarrow> stop + shm_options" where
  "shm_make_options argv = walk_options ''mp:rstv?'' shm_handler (\<lambda>_. failed) shm_finish argv (parsing_new shm_options_new)"

definition shm_map :: option_map where
  "shm_map = (\<lambda>c. if c = CHR ''p'' then Arg_required else if c \<in> set ''mrstv?'' then Single_opt else Not_defined)"

lemma shm_optstring: "build_option_map ''mp:rstv?'' = Inr shm_map"
  by (rule trans, simp add: build_map_simps) (auto simp: shm_map_def fun_eq_iff)


definition pids_ok :: "int list \<Rightarrow> bool" where
  "pids_ok pids \<longleftrightarrow> (\<forall>p \<in> set pids. 0 \<le> p \<and> p < 2 ^ 32)"

lemma split_int_loop_range: "\<forall>v \<in> set out. int_lo sg bits \<le> v \<and> v \<le> int_hi sg bits \<Longrightarrow>
    \<forall>v \<in> set (split_int_loop sg bits arg sz out). int_lo sg bits \<le> v \<and> v \<le> int_hi sg bits"
proof (induction sg bits arg sz out rule: split_int_loop.induct)
  case (1 sg bits arg sz out)
  show ?case
  proof (cases "find_comma arg sz")
    case None
    then show ?thesis using 1(2)
      by (subst split_int_loop.simps) (auto dest: parse_int_range [OF sym] split: option.split)
  next
    case (Some nxt)
    have "\<forall>v \<in> set (split_int_loop sg bits arg (nxt + 1) (out @ [v])). int_lo sg bits \<le> v \<and> v \<le> int_hi sg bits"
      if "parse_int sg bits (substr sz (nxt - sz) arg) = Some v" for v
      by (rule 1(1) [OF Some that]) (use 1(2) parse_int_range [OF that] in simp)
    with Some show ?thesis
      by (cases "parse_int sg bits (substr sz (nxt - sz) arg)") (simp_all add: split_int_loop.simps [of sg bits arg sz])
  qed
qed

lemma split_args_int_ok: "pids_ok (split_args_int False 32 arg)"
  using split_int_loop_range [of "[]" False 32 arg 0] by (auto simp: pids_ok_def split_args_int_def int_lo_def int_hi_def)

interpretation shm: collecting_handler "''mp:rstv?''" shm_map shm_handler "\<lambda>o1. pids_ok (so_pids o1)"
proof unfold_locales
  show "build_option_map ''mp:rstv?'' = Inr shm_map" by (rule shm_optstring)
qed (auto simp: shm_map_def shm_handler_def operand_def Let_def split_args_int_ok failed_def unless_err_def changed_def helped_def split: if_splits)

lemma shm_options_ok: "exits_or (\<lambda>o1. pids_ok (so_pids o1) \<and> (so_phys_mem o1 \<or> so_shared_mem o1 \<or> so_tymem o1)) (shm_make_options argv)"
  unfolding shm_make_options_def
  by (rule shm.collected)
    (auto simp: shm_options_new_def pids_ok_def shm_finish_def parsing_finish_def unless_err_def)


subsection \<open>lsqf\<close>

record qf_options =
  qo_show_sidechannels :: bool
  qo_show_dead :: bool
  qo_show_self :: bool
  qo_verbosity :: int
  qo_pids :: "int list"

definition qf_options_new :: qf_options where
  "qf_options_new = \<lparr>qo_show_sidechannels = False, qo_show_dead = False, qo_show_self = False, qo_verbosity = 0, qo_pids = []\<rparr>"

definition qf_handler :: "opt \<Rightarrow> qf_options parsing \<Rightarrow> stop + qf_options parsing" where
  "qf_handler o1 s =
     (let c = get_option o1 in
      if c = CHR ''c'' then changed (\<lambda>o1. o1\<lparr>qo_show_sidechannels := True\<rparr>) s
      else if c = CHR ''d'' then changed (\<lambda>o1. o1\<lparr>qo_show_dead := True\<rparr>) s
      else if c = CHR ''s'' then changed (\<lambda>o1. o1\<lparr>qo_show_self := True\<rparr>) s
      else if c = CHR ''p'' then operand o1 (\<lambda>arg.
        let pids = split_args_int False 32 arg; s = s\<lparr>ps_opts := (ps_opts s)\<lparr>qo_pids := pids\<rparr>\<rparr> in
        if pids = [] then failed s else Inr s)
      else if c = CHR ''v'' then changed (\<lambda>o1. o1\<lparr>qo_verbosity := qo_verbosity o1 + 1\<rparr>) s
      else if c = CHR ''?'' then helped s
      else failed s)"

definition qf_make_options :: "string option list \<Rightarrow> stop + qf_options" where
  "qf_make_options argv = walk_options ''cdp:sv?'' qf_handler (\<lambda>_. failed) (\<lambda>opts. parsing_finish) argv (parsing_new qf_options_new)"

definition qf_map :: option_map where
  "qf_map = (\<lambda>c. if c = CHR ''p'' then Arg_required else if c \<in> set ''cdsv?'' then Single_opt else Not_defined)"

lemma qf_optstring: "build_option_map ''cdp:sv?'' = Inr qf_map"
  by (rule trans, simp add: build_map_simps) (auto simp: qf_map_def fun_eq_iff)

interpretation qf: collecting_handler "''cdp:sv?''" qf_map qf_handler "\<lambda>o1. pids_ok (qo_pids o1)"
proof unfold_locales
  show "build_option_map ''cdp:sv?'' = Inr qf_map" by (rule qf_optstring)
qed (auto simp: qf_map_def qf_handler_def operand_def Let_def split_args_int_ok failed_def unless_err_def changed_def helped_def split: if_splits)

lemma qf_options_ok: "exits_or (\<lambda>o1. pids_ok (qo_pids o1)) (qf_make_options argv)"
  unfolding qf_make_options_def by (rule qf.collected) (simp_all add: qf_options_new_def pids_ok_def parsing_finish_keeps)

subsection \<open>qnx\_statvfs and cacheline\<close>

definition statvfs_handler :: "opt \<Rightarrow> string parsing \<Rightarrow> stop + string parsing" where
  "statvfs_handler o1 s = (if get_option o1 = CHR ''?'' then helped s else failed s)"

definition statvfs_finish :: "options \<Rightarrow> string parsing \<Rightarrow> stop + string" where
  "statvfs_finish opts s = parsing_finish
     (if length (o_user_args opts) \<noteq> 1 then s\<lparr>ps_err := 1\<rparr> else s\<lparr>ps_opts := o_user_args opts ! 0\<rparr>)"

definition statvfs_make_options :: "string option list \<Rightarrow> stop + string" where
  "statvfs_make_options argv = walk_options ''?'' statvfs_handler (\<lambda>_. failed) statvfs_finish argv (parsing_new [])"

definition statvfs_map :: option_map where
  "statvfs_map = (\<lambda>c. if c = CHR ''?'' then Single_opt else Not_defined)"

lemma statvfs_optstring: "build_option_map ''?'' = Inr statvfs_map"
  by (rule trans, simp add: build_map_simps) (auto simp: statvfs_map_def fun_eq_iff)

interpretation statvfs: collecting_handler "''?''" statvfs_map statvfs_handler "\<lambda>_. True"
  by unfold_locales (simp_all add: statvfs_optstring statvfs_handler_def)

lemma statvfs_exits: "exits_or (\<lambda>_. True) (statvfs_make_options argv)"
  unfolding statvfs_make_options_def
  by (rule statvfs.collected) (auto simp: statvfs_finish_def parsing_finish_def)

definition cacheline_handler :: "opt \<Rightarrow> 32 word parsing \<Rightarrow> stop + 32 word parsing" where
  "cacheline_handler o1 s =
     (if get_option o1 = CHR ''b'' then operand o1 (\<lambda>arg. case parse_int False 32 arg of
          None \<Rightarrow> failed s
        | Some n \<Rightarrow> let s = s\<lparr>ps_opts := of_int n\<rparr> in if ps_opts s < 1 \<or> ps_opts s > 512 then failed s else Inr s)
      else if get_option o1 = CHR ''?'' then helped s else failed s)"

definition cacheline_make_options :: "string option list \<Rightarrow> stop + 32 word" where
  "cacheline_make_options argv = walk_options ''b:?'' cacheline_handler (\<lambda>_. failed) (\<lambda>opts. parsing_finish) argv (parsing_new 256)"

definition cacheline_map :: option_map where
  "cacheline_map = (\<lambda>c. if c = CHR ''b'' then Arg_required else if c = CHR ''?'' then Single_opt else Not_defined)"

lemma cacheline_optstring: "build_option_map ''b:?'' = Inr cacheline_map"
  by (rule trans, simp add: build_map_simps) (auto simp: cacheline_map_def fun_eq_iff)

lemma one_le_word: "1 \<le> w \<longleftrightarrow> w \<noteq> (0::'a::len word)"
  by (simp add: word_le_nat_alt Suc_le_eq unat_gt_0)

interpretation cacheline: collecting_handler "''b:?''" cacheline_map cacheline_handler "\<lambda>b. 1 \<le> b \<and> b \<le> 512"
  by unfold_locales (auto simp: cacheline_optstring cacheline_handler_def cacheline_map_def operand_def Let_def failed_def
      unless_err_def helped_def not_less one_le_word split: if_splits option.splits)

lemma cacheline_options_ok: "exits_or (\<lambda>b. 1 \<le> b \<and> b \<le> 512) (cacheline_make_options argv)"
  unfolding cacheline_make_options_def by (rule cacheline.collected) (simp_all add: parsing_finish_keeps)


section \<open>sdd\<close>

abbreviation htonl :: "32 word \<Rightarrow> 32 word" where
  "htonl \<equiv> ntohl"

definition default_port :: "16 word" where "default_port = 52599"
definition default_dest :: in_addr where "default_dest = 0xEFFF2A63"

record iface_option =
  io_addr :: sockaddr_in
  io_iface :: string

text \<open>An address with an optional port, or else the name of an interface.\<close>

definition parse_iface :: "(string \<Rightarrow> in_addr option) \<Rightarrow> string \<Rightarrow> iface_option option" where
  "parse_iface inet_pton arg =
     (let port_sep = find_last_of (CHR '':'') arg;
          addrs = (case port_sep of
            Some port_sep \<Rightarrow>
              if (of_nat (length arg) :: 64 word) < of_nat port_sep - 1 then None
              else map_option (\<lambda>port. (htons (of_int port), take port_sep arg)) (parse_int False 16 (drop (port_sep + 1) arg))
          | None \<Rightarrow> Some (0, arg)) in
      case addrs of None \<Rightarrow> None
      | Some (port, addrstr) \<Rightarrow>
          let result = \<lparr>io_addr = \<lparr>sin_family = AF_INET, sin_port = port, sin_addr = 0\<rparr>, io_iface = []\<rparr> in
          (case inet_pton addrstr of
             Some a \<Rightarrow> Some (result\<lparr>io_addr := (io_addr result)\<lparr>sin_addr := a\<rparr>\<rparr>)
           | None \<Rightarrow> Some (result\<lparr>io_iface := addrstr\<rparr>)))"

record sdd_options =
  do_source :: sockaddr_in
  do_dest :: sockaddr_in
  do_source_iface :: string
  do_interval :: "64 word"

definition sdd_options_new :: sdd_options where
  "sdd_options_new = \<lparr>do_source = sockaddr_zero, do_dest = sockaddr_zero, do_source_iface = [], do_interval = 1000\<rparr>"

definition sdd_handler :: "(string \<Rightarrow> in_addr option) \<Rightarrow> opt \<Rightarrow> sdd_options \<Rightarrow> stop + sdd_options" where
  "sdd_handler inet_pton o1 s =
     (let c = get_option o1 in
      if c = CHR ''n'' then operand o1 (\<lambda>arg. case parse_int False 32 arg of None \<Rightarrow> Inl (Exit 1)
        | Some n \<Rightarrow> let w = of_int n :: 32 word in
            if w < 1 \<or> w > 86400 then Inl (Exit 1) else Inr (s\<lparr>do_interval := ucast (w * 1000)\<rparr>))
      else if c = CHR ''S'' then operand o1 (\<lambda>arg. case parse_iface inet_pton arg of
          Some source \<Rightarrow> Inr (s\<lparr>do_source := io_addr source, do_source_iface := io_iface source\<rparr>)
        | None \<Rightarrow> Inl (Exit 1))
      else if c = CHR ''D'' then operand o1 (\<lambda>arg. case parse_sockaddr inet_pton arg (do_dest s) of
          (ok, a) \<Rightarrow> if \<not> ok then Inl (Exit 1) else Inr (s\<lparr>do_dest := a\<rparr>))
      else if c = CHR ''?'' then Inl (Exit 0)
      else Inl (Exit 1))"

definition sdd_finish :: "options \<Rightarrow> sdd_options \<Rightarrow> stop + sdd_options" where
  "sdd_finish opts s =
     (let s = (if sin_family (do_source s) \<noteq> AF_INET
               then s\<lparr>do_source := \<lparr>sin_family = AF_INET, sin_port = htons default_port, sin_addr = 0\<rparr>\<rparr> else s);
          s = (if sin_family (do_dest s) \<noteq> AF_INET
               then s\<lparr>do_dest := \<lparr>sin_family = AF_INET, sin_port = htons default_port, sin_addr = htonl default_dest\<rparr>\<rparr> else s);
          s = (if sin_port (do_source s) = 0 then s\<lparr>do_source := (do_source s)\<lparr>sin_port := htons default_port\<rparr>\<rparr> else s);
          s = (if sin_addr (do_dest s) = 0 then s\<lparr>do_dest := (do_dest s)\<lparr>sin_addr := htonl default_dest\<rparr>\<rparr> else s);
          s = (if sin_port (do_dest s) = 0 then s\<lparr>do_dest := (do_dest s)\<lparr>sin_port := htons default_port\<rparr>\<rparr> else s) in
      Inr s)"

definition sdd_make_options :: "(string \<Rightarrow> in_addr option) \<Rightarrow> string option list \<Rightarrow> stop + sdd_options" where
  "sdd_make_options inet_pton argv =
     walk_options ''n:S:D:?'' (sdd_handler inet_pton) (\<lambda>_ _. Inl (Exit 1)) sdd_finish argv sdd_options_new"

definition sdd_map :: option_map where
  "sdd_map = (\<lambda>c. if c \<in> set ''nSD'' then Arg_required else if c = CHR ''?'' then Single_opt else Not_defined)"

lemma sdd_optstring: "build_option_map ''n:S:D:?'' = Inr sdd_map"
  by (rule trans, simp add: build_map_simps) (auto simp: sdd_map_def fun_eq_iff)

definition sdd_ranges :: "sdd_options \<Rightarrow> bool" where
  "sdd_ranges s \<longleftrightarrow> 1000 \<le> do_interval s \<and> do_interval s \<le> 86400000"

lemma interval_range:
  assumes "\<not> (w < 1 \<or> w > (86400 :: 32 word))"
  shows "1000 \<le> (ucast (w * 1000) :: 64 word) \<and> (ucast (w * 1000) :: 64 word) \<le> 86400000"
proof -
  have w: "1 \<le> unat w" "unat w \<le> 86400" using assms by (auto simp: not_less one_le_word word_le_nat_alt unat_gt_0 Suc_le_eq)
  then have "unat w * 1000 < 2 ^ 32" by simp
  then have "unat (w * 1000) = unat w * 1000" by (simp add: unat_word_ariths)
  moreover have "unat (ucast v :: 64 word) = unat v" for v :: "32 word"
    using unsigned_less [of v, where 'a = nat] by (simp add: unsigned_ucast_eq take_bit_eq_mod)
  ultimately show ?thesis using w by (simp add: word_le_nat_alt)
qed

interpretation sdd: option_handler "''n:S:D:?''" sdd_map "sdd_handler inet_pton" "\<lambda>_ _. Inl (Exit 1)" sdd_ranges for inet_pton
proof unfold_locales
  show "build_option_map ''n:S:D:?'' = Inr sdd_map" by (rule sdd_optstring)
  show "exits_or sdd_ranges (sdd_handler inet_pton o1 s)" if "sound_result sdd_map (Inr o1)" "sdd_ranges s" for o1 s
    using that interval_range
    by (auto simp: sdd_handler_def sdd_ranges_def operand_def Let_def sound_result_def sdd_map_def
        split: if_splits option.splits prod.splits)
qed simp


lemma default_addresses: "htons default_port \<noteq> 0" "htonl default_dest \<noteq> 0" "is_multicast (htonl default_dest)"
  by code_simp+

text \<open>The addresses that \<open>sdd\<close> works with.\<close>

definition sdd_addresses :: "sdd_options \<Rightarrow> bool" where
  "sdd_addresses s \<longleftrightarrow> sin_family (do_source s) = AF_INET \<and> sin_port (do_source s) \<noteq> 0 \<and>
     sin_family (do_dest s) = AF_INET \<and> sin_port (do_dest s) \<noteq> 0 \<and> sin_addr (do_dest s) \<noteq> 0"

lemma sdd_finish_addresses: "sdd_ranges s \<Longrightarrow> exits_or (\<lambda>s. sdd_ranges s \<and> sdd_addresses s) (sdd_finish opts s)"
  using default_addresses by (simp add: sdd_finish_def Let_def sdd_addresses_def sdd_ranges_def)

text \<open>Whatever the command line is, \<open>sdd\<close> exits with a code or has a source and a destination that are IPv4
  addresses with a port, a destination that is not the null address, and an interval of a second to a day in
  milliseconds, computed without wrap-around.\<close>

theorem sdd_options_complete:
  "exits_or (\<lambda>s. sdd_ranges s \<and> sdd_addresses s) (sdd_make_options inet_pton argv)"
  unfolding sdd_make_options_def
  by (rule sdd.walk_keeps [OF _ sdd_finish_addresses]) (simp_all add: sdd_ranges_def sdd_options_new_def)

section \<open>bpf\_udp4\<close>

definition bpf4_parse_sockaddr :: "(string \<Rightarrow> in_addr option) \<Rightarrow> string \<Rightarrow> sockaddr_in \<Rightarrow> bool \<times> sockaddr_in" where
  "bpf4_parse_sockaddr inet_pton arg addr =
     (let addrs = (case find_last_of (CHR '':'') arg of
            Some port_sep \<Rightarrow>
              if (of_nat (length arg) :: 64 word) < of_nat port_sep - 1 then (addr, None)
              else (case parse_int False 16 (drop (port_sep + 1) arg) of
                  None \<Rightarrow> (addr, None)
                | Some port \<Rightarrow> (addr\<lparr>sin_port := htons (of_int port)\<rparr>, inet_pton (take port_sep arg)))
          | None \<Rightarrow> (addr\<lparr>sin_port := 0\<rparr>, inet_pton arg)) in
      case addrs of (addr, None) \<Rightarrow> (False, addr)
      | (addr, Some a) \<Rightarrow> (True, addr\<lparr>sin_addr := a, sin_family := AF_INET\<rparr>))"

lemma bpf4_parse_sockaddr_eq: "bpf4_parse_sockaddr inet_pton arg a = parse_sockaddr inet_pton arg a"
  by (simp add: bpf4_parse_sockaddr_def parse_sockaddr_def Let_def split: option.splits)

record bpf4_options =
  bo_mode :: send_mode
  bo_source :: sockaddr_in
  bo_dest :: sockaddr_in
  bo_size :: "16 word"

definition bpf4_options_new :: bpf4_options where
  "bpf4_options_new = \<lparr>bo_mode = Mode_sendto, bo_source = sockaddr_zero, bo_dest = sockaddr_zero, bo_size = 1472\<rparr>"

definition bpf4_handler :: "(string \<Rightarrow> in_addr option) \<Rightarrow> opt \<Rightarrow> bpf4_options parsing \<Rightarrow> stop + bpf4_options parsing" where
  "bpf4_handler inet_pton o1 s =
     (let c = get_option o1 in
      if c = CHR ''B'' then operand o1 (\<lambda>arg.
        if arg = ''sendto'' then changed (\<lambda>o1. o1\<lparr>bo_mode := Mode_sendto\<rparr>) s
        else if arg = ''bpf'' then changed (\<lambda>o1. o1\<lparr>bo_mode := Mode_bpf\<rparr>) s
        else Inl (Exit 1))
      else if c = CHR ''s'' then operand o1 (\<lambda>arg. case parse_int False 16 arg of None \<Rightarrow> Inl (Exit 1)
        | Some n \<Rightarrow> if n > 65527 then Inl (Exit 1) else changed (\<lambda>o1. o1\<lparr>bo_size := of_int n\<rparr>) s)
      else if c = CHR ''S'' then operand o1 (\<lambda>arg. case bpf4_parse_sockaddr inet_pton arg (bo_source (ps_opts s)) of
          (ok, a) \<Rightarrow> if \<not> ok then Inl (Exit 1) else changed (\<lambda>o1. o1\<lparr>bo_source := a\<rparr>) s)
      else if c = CHR ''D'' then operand o1 (\<lambda>arg. case bpf4_parse_sockaddr inet_pton arg (bo_dest (ps_opts s)) of
          (ok, a) \<Rightarrow> if \<not> ok then Inl (Exit 1) else changed (\<lambda>o1. o1\<lparr>bo_dest := a\<rparr>) s)
      else if c = CHR ''?'' then helped s
      else failed s)"

definition bpf4_finish :: "options \<Rightarrow> bpf4_options parsing \<Rightarrow> stop + bpf4_options" where
  "bpf4_finish opts s = (case parsing_finish s of Inl stop \<Rightarrow> Inl stop
     | Inr o1 \<Rightarrow> if sin_addr (bo_source o1) = 0 then Inl (Exit 1)
         else if sin_addr (bo_dest o1) = 0 then Inl (Exit 1) else Inr o1)"

definition bpf4_make_options :: "(string \<Rightarrow> in_addr option) \<Rightarrow> string option list \<Rightarrow> stop + bpf4_options" where
  "bpf4_make_options inet_pton argv =
     walk_options ''s:S:D:B:?'' (bpf4_handler inet_pton) (\<lambda>_. failed) bpf4_finish argv (parsing_new bpf4_options_new)"

definition bpf4_map :: option_map where
  "bpf4_map = (\<lambda>c. if c \<in> set ''sSDB'' then Arg_required else if c = CHR ''?'' then Single_opt else Not_defined)"

lemma bpf4_optstring: "build_option_map ''s:S:D:B:?'' = Inr bpf4_map"
  by (rule trans, simp add: build_map_simps) (auto simp: bpf4_map_def fun_eq_iff)

lemma size16_ok: "parse_int False 16 arg = Some n \<Longrightarrow> n \<le> 65527 \<Longrightarrow> unat (word_of_int n :: 16 word) \<le> 65527"
  using uint_parsed16 [of arg n] unfolding unat_eq_nat_uint by simp

interpretation bpf4: collecting_handler "''s:S:D:B:?''" bpf4_map "bpf4_handler inet_pton"
  "\<lambda>o1. bo_mode o1 \<in> {Mode_sendto, Mode_bpf} \<and> unat (bo_size o1) \<le> 65527" for inet_pton
proof unfold_locales
  show "build_option_map ''s:S:D:B:?'' = Inr bpf4_map" by (rule bpf4_optstring)
qed (auto simp: bpf4_handler_def bpf4_map_def operand_def Let_def changed_def unless_err_def
    size16_ok split: option.splits prod.splits if_splits)

lemma bpf4_options_ok:
  "exits_or (\<lambda>o1. bo_mode o1 \<in> {Mode_sendto, Mode_bpf} \<and> unat (bo_size o1) \<le> 65527 \<and>
     sin_addr (bo_source o1) \<noteq> 0 \<and> sin_addr (bo_dest o1) \<noteq> 0) (bpf4_make_options inet_pton argv)"
  unfolding bpf4_make_options_def
  by (rule bpf4.collected) (auto simp: bpf4_options_new_def bpf4_finish_def parsing_finish_def unless_err_def)


section \<open>Runs\<close>

abbreviation one_addr :: "string \<Rightarrow> in_addr option" where
  "one_addr \<equiv> (\<lambda>s. if s = ''10.0.0.1'' then Some 0x0100000A else None)"

lemma load_options_run:
  "load_make_options (\<lambda>_. True) one_addr [Some ''udp_load'', Some ''-S10.0.0.1:7'', Some ''-IBbpf'', Some ''-D'', Some ''10.0.0.1'', Some ''-n3''] =
     Inr (load_options_new\<lparr>lo_mode := Mode_bpf, lo_idle := True, lo_source := \<lparr>sin_family = AF_INET, sin_port = 0x700, sin_addr = 0x0100000A\<rparr>,
       lo_dest := \<lparr>sin_family = AF_INET, sin_port = 0, sin_addr = 0x0100000A\<rparr>, lo_slots := 3\<rparr>)"
  by code_simp

lemma load_size_zero_accepted:
  "case load_make_options (\<lambda>_. True) one_addr [Some ''udp_load'', Some ''-S10.0.0.1'', Some ''-D10.0.0.1'', Some ''-s0''] of
     Inr s \<Rightarrow> lo_size s = 0 | _ \<Rightarrow> False"
  by code_simp

lemma sdd_options_run:
  "sdd_make_options one_addr [Some ''sdd'', Some ''-n'', Some ''60'', Some ''-Seth0:1''] =
     Inr \<lparr>do_source = \<lparr>sin_family = AF_INET, sin_port = 0x100, sin_addr = 0\<rparr>,
       do_dest = \<lparr>sin_family = AF_INET, sin_port = htons default_port, sin_addr = htonl default_dest\<rparr>,
       do_source_iface = ''eth0'', do_interval = 60000\<rparr>"
  by code_simp

end
