(* ===== verification/Interleaving.thy ===== *)
theory Interleaving
  imports Prelude
begin

text \<open>
  Threads that wait by polling.  A step function says what a thread does next in a state; a thread that
  polls a value that is not there yet leaves the state as it is.  A schedule names the thread of each step,
  and it is fair when no thread is left out for ever.  The locale gives the progress of such programs from
  three facts of one step.
\<close>

fun exec :: "('t \<Rightarrow> 's \<Rightarrow> 's) \<Rightarrow> (nat \<Rightarrow> 't) \<Rightarrow> 's \<Rightarrow> nat \<Rightarrow> 's" where
  "exec step sched s 0 = s"
| "exec step sched s (Suc n) = step (sched n) (exec step sched s n)"

definition fair :: "(nat \<Rightarrow> 't) \<Rightarrow> bool" where
  "fair sched \<longleftrightarrow> (\<forall>t n. \<exists>m \<ge> n. sched m = t)"

lemma fair_later: "fair sched \<Longrightarrow> \<exists>m \<ge> n. sched m = t"
  by (simp add: fair_def)

locale polling =
  fixes step :: "'t \<Rightarrow> 's \<Rightarrow> 's" and inv :: "'s \<Rightarrow> bool" and finished :: "'s \<Rightarrow> bool" and left :: "'s \<Rightarrow> nat"
  assumes keeps: "inv s \<Longrightarrow> inv (step t s)"
    and less: "inv s \<Longrightarrow> step t s = s \<or> left (step t s) < left s"
    and progress: "inv s \<Longrightarrow> \<not> finished s \<Longrightarrow> \<exists>t. step t s \<noteq> s"
    and stable: "inv s \<Longrightarrow> finished s \<Longrightarrow> step t s = s"
begin

lemma exec_inv: "inv s \<Longrightarrow> inv (exec step sched s n)"
  by (induction n) (simp_all add: keeps)

lemma exec_unchanged:
  assumes "\<forall>k. n \<le> k \<and> k < n + d \<longrightarrow> step (sched k) (exec step sched s n) = exec step sched s n"
  shows "exec step sched s (n + d) = exec step sched s n"
  using assms by (induction d) simp_all

lemma next_change:
  assumes "inv s" "fair sched" "\<not> finished (exec step sched s n)"
  shows "\<exists>m > n. left (exec step sched s m) < left (exec step sched s n)"
proof -
  let ?s = "exec step sched s n"
  have inv: "inv ?s" using assms(1) by (rule exec_inv)
  obtain t where t: "step t ?s \<noteq> ?s" using progress [OF inv assms(3)] by blast
  obtain m where m: "n \<le> m" "sched m = t" using fair_later [OF assms(2)] by blast
  let ?c = "\<lambda>k. n \<le> k \<and> step (sched k) ?s \<noteq> ?s"
  define k where "k = (LEAST k. ?c k)"
  have k: "?c k" unfolding k_def by (rule LeastI [of ?c m]) (use m t in simp)
  have before: "step (sched j) ?s = ?s" if "n \<le> j \<and> j < n + (k - n)" for j
    using not_less_Least [of j ?c] that k by (auto simp: k_def)
  have eq: "exec step sched s k = ?s" using exec_unchanged [of n "k - n" sched s] before k by simp
  then have "left (exec step sched s (Suc k)) < left ?s" using less [OF inv, of "sched k"] k by simp
  then show ?thesis using k by (intro exI [of _ "Suc k"]) simp
qed

lemma finishes:
  assumes "inv s" "fair sched"
  shows "\<exists>n. finished (exec step sched s n)"
proof -
  have "\<exists>m. finished (exec step sched s m)" if "left (exec step sched s n) = l" for n l
    using that
  proof (induction l arbitrary: n rule: less_induct)
    case (less l)
    show ?case
    proof (cases "finished (exec step sched s n)")
      case False
      from next_change [OF assms False] less show ?thesis by blast
    qed blast
  qed
  then show ?thesis by blast
qed

lemma stays: "inv s \<Longrightarrow> finished (exec step sched s n) \<Longrightarrow> exec step sched s (n + d) = exec step sched s n"
  by (rule exec_unchanged) (simp add: stable exec_inv)

lemma finishes_for_ever:
  assumes "inv s" "fair sched"
  shows "\<exists>n. \<forall>m \<ge> n. finished (exec step sched s m) \<and> inv (exec step sched s m)"
proof -
  obtain n where n: "finished (exec step sched s n)" using finishes [OF assms] by blast
  have "finished (exec step sched s m) \<and> inv (exec step sched s m)" if "n \<le> m" for m
    using stays [OF assms(1) n, of "m - n"] n that exec_inv [OF assms(1)] by simp
  then show ?thesis by blast
qed

lemma polls_only: "inv s \<Longrightarrow> (\<And>t. step t s = s) \<Longrightarrow> exec step sched s n = s"
  using exec_unchanged [of 0 n sched s] by simp

end

section \<open>Runs of a step relation\<close>

text \<open>
  An infinite run, which may also stand still, of a relation whose steps are not determined.  An action, a part
  of the steps, is weakly fair in a run when it is taken if it stays possible; the rule is that of Lamport for what such
  an action brings about.
\<close>

definition is_run :: "('s \<Rightarrow> bool) \<Rightarrow> ('s \<Rightarrow> 's \<Rightarrow> bool) \<Rightarrow> (nat \<Rightarrow> 's) \<Rightarrow> bool" where
  "is_run init step run \<longleftrightarrow> init (run 0) \<and> (\<forall>n. run (Suc n) = run n \<or> step (run n) (run (Suc n)))"

definition weakly_fair :: "('s \<Rightarrow> 's \<Rightarrow> bool) \<Rightarrow> (nat \<Rightarrow> 's) \<Rightarrow> bool" where
  "weakly_fair act run \<longleftrightarrow> (\<forall>n. (\<forall>m \<ge> n. \<exists>s'. act (run m) s') \<longrightarrow> (\<exists>m \<ge> n. act (run m) (run (Suc m))))"

lemma run_reachable: "is_run init step run \<Longrightarrow> reachable init step (run n)"
proof (induction n)
  case 0
  then show ?case by (simp add: is_run_def start)
next
  case (Suc n)
  then show ?case by (metis is_run_def nextstep)
qed

lemma leads_to:
  assumes fair: "weakly_fair act run" and now: "P (run n)"
    and keep: "\<And>m. n \<le> m \<Longrightarrow> P (run m) \<Longrightarrow> P (run (Suc m)) \<or> Q (run (Suc m))"
    and possible: "\<And>m. n \<le> m \<Longrightarrow> P (run m) \<Longrightarrow> \<exists>s'. act (run m) s'"
    and effect: "\<And>m. n \<le> m \<Longrightarrow> P (run m) \<Longrightarrow> act (run m) (run (Suc m)) \<Longrightarrow> Q (run (Suc m))"
  shows "\<exists>m \<ge> n. Q (run m)"
proof (rule ccontr)
  assume no: "\<not> (\<exists>m \<ge> n. Q (run m))"
  have P: "P (run (n + d))" for d
  proof (induction d)
    case (Suc d)
    from keep [OF _ Suc] no show ?case by (metis add_Suc_right le_add1)
  qed (simp add: now)
  then have "\<forall>m \<ge> n. P (run m)" by (metis le_add_diff_inverse)
  with fair possible obtain m where "m \<ge> n" "act (run m) (run (Suc m))" unfolding weakly_fair_def by blast
  with effect \<open>\<forall>m \<ge> n. P (run m)\<close> no show False by (metis le_Suc_eq)
qed

text \<open>A list of steps as a run that stands still at its end.\<close>

definition list_run :: "'s list \<Rightarrow> nat \<Rightarrow> 's" where
  "list_run l n = l ! min n (length l - 1)"

lemma list_run_is_run:
  assumes "l \<noteq> []" "init (hd l)" "successively step l"
  shows "is_run init step (list_run l)"
proof -
  have "list_run l (Suc n) = list_run l n \<or> step (list_run l n) (list_run l (Suc n))" for n
  proof (cases "Suc n < length l")
    case True
    then have "min n (length l - 1) = n" "min (Suc n) (length l - 1) = Suc n" by simp_all
    then show ?thesis using assms(3) True unfolding list_run_def successively_conv_nth by auto
  next
    case False
    then have "min n (length l - 1) = length l - 1" "min (Suc n) (length l - 1) = length l - 1" by simp_all
    then show ?thesis by (simp add: list_run_def)
  qed
  moreover have "list_run l 0 = hd l" using assms(1) by (simp add: list_run_def hd_conv_nth)
  ultimately show ?thesis using assms(2) by (simp add: is_run_def)
qed

lemma list_run_fair: "l \<noteq> [] \<Longrightarrow> (\<And>s'. \<not> act (last l) s') \<Longrightarrow> weakly_fair act (list_run l)"
  unfolding weakly_fair_def list_run_def
  by (metis last_conv_nth le_add2 min.absorb2 add.commute)

end
