(* ===== verification/CoreLatency.thy ===== *)
theory CoreLatency
  imports ToolOptions Interleaving "HOL-Library.Multiset"
begin

text \<open>
  The tool \<open>core_latency\<close>: its options, the statistics over the samples (\<open>statistics.cpp\<close>), and
  the two benchmarks, in which two threads pass a value to and fro: by compare and exchange
  of one flag (\<open>core_benchmark.cpp\<close>, \<open>cas_default\<close>) and by reading and writing a pair of variables
  (\<open>corerw_benchmark.cpp\<close>).  A step is one atomic access.  The counters of the loops are numbers: each is
  below a limit that is a machine word.  The assembler variants of the compare and exchange, the pinning of the threads
  and the clock are not modelled; the duration of a sample is an input.
\<close>

section \<open>Statistics\<close>

record statistics =
  st_set :: "32 word multiset"
  st_sum :: "64 word"

definition statistics_new :: statistics where
  "statistics_new = \<lparr>st_set = {#}, st_sum = 0\<rparr>"

definition stats_insert :: "32 word \<Rightarrow> statistics \<Rightarrow> statistics" where
  "stats_insert v s = s\<lparr>st_set := add_mset v (st_set s), st_sum := st_sum s + ucast v\<rparr>"

definition stats_clear :: "statistics \<Rightarrow> statistics" where
  "stats_clear s = s\<lparr>st_set := {#}, st_sum := 0\<rparr>"

text \<open>The order in which the iterators of the multiset go.\<close>

abbreviation stats_list :: "statistics \<Rightarrow> 32 word list" where
  "stats_list s \<equiv> sorted_list_of_multiset (st_set s)"

definition stats_min :: "statistics \<Rightarrow> 32 word" where
  "stats_min s = (if stats_list s = [] then 0 else hd (stats_list s))"

definition stats_max :: "statistics \<Rightarrow> 32 word" where
  "stats_max s = (if stats_list s = [] then 0 else last (stats_list s))"

definition stats_size :: "statistics \<Rightarrow> nat" where
  "stats_size s = length (stats_list s)"

definition stats_median :: "statistics \<Rightarrow> 32 word" where
  "stats_median s = (let xs = stats_list s; len = length xs in
     if xs = [] then 0
     else if len mod 2 = 1 then xs ! (len div 2)
     else (xs ! (len div 2 - 1) + xs ! (len div 2 - 1 + 1)) div 2)"

definition stats_average :: "statistics \<Rightarrow> 32 word" where
  "stats_average s = (if stats_list s = [] then 0 else ucast (st_sum s div of_nat (stats_size s)))"

definition stats_of :: "32 word list \<Rightarrow> statistics" where
  "stats_of vs = foldl (\<lambda>s v. stats_insert v s) statistics_new vs"

lemma stats_of_append: "stats_of (vs @ [v]) = stats_insert v (stats_of vs)"
  by (simp add: stats_of_def)

lemma stats_of_set: "st_set (stats_of vs) = mset vs"
  by (induction vs rule: rev_induct) (simp_all add: stats_of_append stats_insert_def, simp add: stats_of_def statistics_new_def)

lemma stats_of_list: "stats_list (stats_of vs) = sort vs"
  by (simp add: stats_of_set)

lemma sum_unat_bound: "sum_list (map unat (vs :: 32 word list)) \<le> length vs * (2 ^ 32 - 1)"
proof (induction vs)
  case (Cons v vs)
  have "unat v \<le> 2 ^ 32 - 1" using unsigned_less [of v, where 'a = nat] by simp
  with Cons show ?case by simp
qed simp

lemma unat_ucast64: "unat (ucast v :: 64 word) = unat (v :: 32 word)"
  using unsigned_less [of v, where 'a = nat] by (simp add: unsigned_ucast_eq take_bit_eq_mod)

lemma stats_of_sum: "length vs < 2 ^ 32 \<Longrightarrow> unat (st_sum (stats_of vs)) = sum_list (map unat vs)"
proof (induction vs rule: rev_induct)
  case (snoc v vs)
  have "sum_list (map unat (vs @ [v])) \<le> length (vs @ [v]) * (2 ^ 32 - 1)" by (rule sum_unat_bound)
  also have "\<dots> \<le> (2 ^ 32 - 1) * (2 ^ 32 - 1)" using snoc(2) by (intro mult_right_mono) simp_all
  finally have "unat (st_sum (stats_of vs)) + unat v < 2 ^ 64" using snoc by simp
  then show ?case using snoc by (simp add: stats_of_append stats_insert_def unat_plus_if' unat_ucast64)
qed (simp add: stats_of_def statistics_new_def)


lemma sum_between:
  assumes "\<forall>v \<in> set vs. low \<le> v \<and> v \<le> (up :: nat)"
  shows "length vs * low \<le> sum_list vs \<and> sum_list vs \<le> length vs * up"
  using assms by (induction vs) auto

lemma sort_ends:
  assumes "vs \<noteq> []" "v \<in> set vs"
  shows "hd (sort vs) \<le> v \<and> v \<le> last (sort vs)"
proof -
  have "sorted (sort vs)" "v \<in> set (sort vs)" using assms by simp_all
  then obtain k where k: "k < length (sort vs)" "sort vs ! k = v" by (metis in_set_conv_nth)
  then have "sort vs ! 0 \<le> sort vs ! k" "sort vs ! k \<le> sort vs ! (length vs - 1)"
    using sorted_nth_mono [of "sort vs"] by auto
  moreover have "sort vs \<noteq> []" using assms(1) by (metis length_0_conv length_sort)
  ultimately show ?thesis using k by (simp add: hd_conv_nth last_conv_nth)
qed

lemma average_between:
  assumes "vs \<noteq> []" "length vs < 2 ^ 32" "\<forall>v \<in> set vs. low \<le> unat v \<and> unat v \<le> up" "up < 2 ^ 32"
  shows "low \<le> unat (stats_average (stats_of vs)) \<and> unat (stats_average (stats_of vs)) \<le> up"
proof -
  let ?S = "sum_list (map unat vs)" and ?n = "length vs"
  have n0: "0 < ?n" using assms(1) by simp
  have b: "?n * low \<le> ?S" "?S \<le> ?n * up" using sum_between [of "map unat vs" low up] assms(3) by auto
  have low: "low \<le> ?S div ?n" using div_le_mono [OF b(1), of ?n] n0 by simp
  have up: "?S div ?n \<le> up" using div_le_mono [OF b(2), of ?n] n0 by simp
  have "unat (of_nat ?n :: 64 word) = ?n" using assms(2) by (simp add: unat_of_nat)
  then have d: "unat (st_sum (stats_of vs) div of_nat ?n) = ?S div ?n"
    using stats_of_sum [OF assms(2)] by (simp add: unat_div_distrib)
  have ne: "sort vs \<noteq> []" using assms(1) by (metis length_0_conv length_sort)
  have "unat (stats_average (stats_of vs)) = (?S div ?n) mod 2 ^ 32"
    using ne by (simp add: stats_average_def stats_size_def stats_of_list unsigned_ucast_eq take_bit_eq_mod d)
  also have "\<dots> = ?S div ?n" using up assms(4) by simp
  finally show ?thesis using low up by simp
qed

lemma median_between:
  assumes "vs \<noteq> []" "\<forall>v \<in> set vs. low \<le> v \<and> v \<le> (up :: 32 word)" "unat up < 2 ^ 31"
  shows "low \<le> stats_median (stats_of vs) \<and> stats_median (stats_of vs) \<le> up"
proof -
  have ne: "sort vs \<noteq> []" using assms(1) by (metis length_0_conv length_sort)
  have el: "low \<le> sort vs ! k \<and> sort vs ! k \<le> up" if "k < length vs" for k
    using assms(2) nth_mem [of k "sort vs"] that by simp
  have n0: "0 < length vs" using assms(1) by simp
  show ?thesis
  proof (cases "length vs mod 2 = 1")
    case True
    then show ?thesis using ne el [of "length vs div 2"] n0 by (simp add: stats_median_def stats_of_list Let_def)
  next
    case False
    let ?a = "sort vs ! (length vs div 2 - 1)" and ?b = "sort vs ! (length vs div 2 - 1 + 1)"
    have k: "length vs div 2 - 1 < length vs" "length vs div 2 - 1 + 1 < length vs" using n0 False by presburger+
    have a: "unat low \<le> unat ?a" "unat ?a \<le> unat up" "unat low \<le> unat ?b" "unat ?b \<le> unat up"
      using el [OF k(1)] el [OF k(2)] by (simp_all add: word_le_nat_alt)
    then have "unat (?a + ?b) = unat ?a + unat ?b" using assms(3) by (simp add: unat_plus_if')
    then have "unat ((?a + ?b) div 2) = (unat ?a + unat ?b) div 2" by (simp add: unat_div_distrib)
    moreover have "unat low \<le> (unat ?a + unat ?b) div 2" "(unat ?a + unat ?b) div 2 \<le> unat up" using a by linarith+
    ultimately show ?thesis using ne False by (simp add: stats_median_def stats_of_list Let_def word_le_nat_alt)
  qed
qed

text \<open>The statistics of up to 2 ^ 32 samples: the least and the greatest are those of the samples, the average lies
  between them (the sum does not wrap at 64 bits), and so does the median if the samples are below 2 ^ 31.\<close>

theorem statistics_bounds:
  assumes "vs \<noteq> []" "length vs < 2 ^ 32"
  shows "stats_min (stats_of vs) = Min (set vs) \<and> stats_max (stats_of vs) = Max (set vs) \<and> stats_size (stats_of vs) = length vs \<and>
    stats_min (stats_of vs) \<le> stats_average (stats_of vs) \<and> stats_average (stats_of vs) \<le> stats_max (stats_of vs) \<and>
    (unat (stats_max (stats_of vs)) < 2 ^ 31 \<longrightarrow>
      stats_min (stats_of vs) \<le> stats_median (stats_of vs) \<and> stats_median (stats_of vs) \<le> stats_max (stats_of vs))"
proof -
  have ne: "sort vs \<noteq> []" using assms(1) by (metis length_0_conv length_sort)
  have mem: "hd (sort vs) \<in> set vs" "last (sort vs) \<in> set vs" using ne hd_in_set last_in_set by (metis set_sort)+
  have mn: "stats_min (stats_of vs) = hd (sort vs)" "stats_max (stats_of vs) = last (sort vs)"
    using ne by (simp_all add: stats_min_def stats_max_def stats_of_list)
  have all: "\<forall>v \<in> set vs. hd (sort vs) \<le> v \<and> v \<le> last (sort vs)" using sort_ends [OF assms(1)] by blast
  have "Min (set vs) = hd (sort vs)" "Max (set vs) = last (sort vs)"
    using mem all by (auto intro!: Min_eqI Max_eqI)
  moreover have "unat (last (sort vs)) < 2 ^ 32" using unsigned_less [of "last (sort vs)", where 'a = nat] by simp
  with average_between [OF assms, of "unat (hd (sort vs))" "unat (last (sort vs))"] all
  have "hd (sort vs) \<le> stats_average (stats_of vs) \<and> stats_average (stats_of vs) \<le> last (sort vs)"
    by (simp add: word_le_nat_alt)
  moreover note median_between [OF assms(1) all]
  ultimately show ?thesis by (simp add: mn stats_size_def stats_of_list)
qed

lemma statistics_bounds_witness: "stats_max (stats_of [5, 3, 9, 4]) = 9 \<and> stats_average (stats_of [5, 3, 9, 4]) = 5 \<and> stats_median (stats_of [5, 3, 9, 4]) = 4"
proof -
  have "set [5, 3, 9, 4 :: 32 word] = {5, 3, 9, 4}" by simp
  then have "stats_max (stats_of [5, 3, 9, 4]) = Max {5, 3, 9, 4}" using statistics_bounds [of "[5, 3, 9, 4]"] by simp
  moreover have "Max {5, 3, 9, 4 :: 32 word} = 9" by simp
  moreover have "stats_average (stats_of [5, 3, 9, 4]) = 5" "stats_median (stats_of [5, 3, 9, 4]) = 4" by code_simp+
  ultimately show ?thesis by simp
qed

text \<open>The median of two equal large samples is below both: the sum of the middle ones wraps at 32 bits.\<close>

lemma median_wraps: "stats_median (stats_of [0xFFFFFFFF, 0xFFFFFFFF]) = 0x7FFFFFFF"
  by code_simp


section \<open>Options\<close>

datatype cas_type = Cas_cpp | Cas_x86 | Cas_x86_64 | Cas_arm64 | Cas_arm64_lse

text \<open>What the code is compiled for; the flag says whether the compiler has the LSE instructions.\<close>

datatype platform = I386 | X86_64 | Aarch64 bool | Other_platform

definition cas_supported :: "platform \<Rightarrow> string \<Rightarrow> cas_type option" where
  "cas_supported pf =
     (let m = [''default'' \<mapsto> Cas_cpp] in
      case pf of I386 \<Rightarrow> m(''cas'' \<mapsto> Cas_x86)
      | X86_64 \<Rightarrow> m(''cas'' \<mapsto> Cas_x86_64)
      | Aarch64 lse \<Rightarrow> (if lse then m(''llsc'' \<mapsto> Cas_arm64, ''lse'' \<mapsto> Cas_arm64_lse) else m(''llsc'' \<mapsto> Cas_arm64))
      | Other_platform \<Rightarrow> m)"

definition cas_mode :: "platform \<Rightarrow> string \<Rightarrow> cas_type option" where
  "cas_mode pf benchmark = (case cas_supported pf benchmark of None \<Rightarrow> None | Some t \<Rightarrow> Some t)"

datatype core_mode = Mode_readwrite | Mode_cas

record core_options =
  co_benchmark_name :: string
  co_mode :: core_mode
  co_samples :: "32 word"
  co_iters :: "32 word"

text \<open>\<open>core_mode\<close> is value-initialised; both its values are set before the options are returned.\<close>

definition core_options_new :: core_options where
  "core_options_new = \<lparr>co_benchmark_name = [], co_mode = Mode_readwrite, co_samples = 500, co_iters = 4000\<rparr>"

definition core_handler :: "opt \<Rightarrow> core_options parsing \<Rightarrow> stop + core_options parsing" where
  "core_handler o1 s =
     (let c = get_option o1 in
      if c = CHR ''s'' then operand o1 (\<lambda>arg. case parse_int False 32 arg of
          Some n \<Rightarrow> let s = s\<lparr>ps_opts := (ps_opts s)\<lparr>co_samples := of_int n\<rparr>\<rparr> in
            if co_samples (ps_opts s) < 1 \<or> co_samples (ps_opts s) > 60000 then failed s else Inr s
        | None \<Rightarrow> failed s)
      else if c = CHR ''i'' then operand o1 (\<lambda>arg. case parse_int False 32 arg of
          Some n \<Rightarrow> let s = s\<lparr>ps_opts := (ps_opts s)\<lparr>co_iters := of_int n\<rparr>\<rparr> in
            if co_iters (ps_opts s) < 1 \<or> co_iters (ps_opts s) > 60000 then failed s else Inr s
        | None \<Rightarrow> failed s)
      else if c = CHR ''b'' then operand o1 (\<lambda>arg. changed (\<lambda>o1. o1\<lparr>co_benchmark_name := arg\<rparr>) s)
      else if c = CHR ''?'' then helped s
      else failed s)"

definition core_finish :: "platform \<Rightarrow> options \<Rightarrow> core_options parsing \<Rightarrow> stop + core_options" where
  "core_finish pf opts s =
     (let nm = co_benchmark_name (ps_opts s) in
      if nm = ''readwrite'' then parsing_finish (s\<lparr>ps_opts := (ps_opts s)\<lparr>co_mode := Mode_readwrite\<rparr>\<rparr>)
      else let cm = cas_mode pf nm; s = s\<lparr>ps_opts := (ps_opts s)\<lparr>co_mode := Mode_cas\<rparr>\<rparr> in
        parsing_finish (if cm = None then s\<lparr>ps_err := 1\<rparr> else s))"

definition core_make_options :: "platform \<Rightarrow> string option list \<Rightarrow> stop + core_options" where
  "core_make_options pf argv = walk_options ''s:i:b:?'' core_handler (\<lambda>_. failed) (core_finish pf) argv (parsing_new core_options_new)"

definition core_map :: option_map where
  "core_map = (\<lambda>c. if c \<in> set ''sib'' then Arg_required else if c = CHR ''?'' then Single_opt else Not_defined)"

lemma core_optstring: "build_option_map ''s:i:b:?'' = Inr core_map"
  by (rule trans, simp add: build_map_simps) (auto simp: core_map_def fun_eq_iff)

definition core_ranges :: "core_options \<Rightarrow> bool" where
  "core_ranges s \<longleftrightarrow> 1 \<le> co_samples s \<and> co_samples s \<le> 60000 \<and> 1 \<le> co_iters s \<and> co_iters s \<le> 60000"

definition core_mode_ok :: "platform \<Rightarrow> core_options \<Rightarrow> bool" where
  "core_mode_ok pf s \<longleftrightarrow> (case co_mode s of Mode_readwrite \<Rightarrow> co_benchmark_name s = ''readwrite''
     | Mode_cas \<Rightarrow> cas_mode pf (co_benchmark_name s) \<noteq> None)"

interpretation core: collecting_handler "''s:i:b:?''" core_map core_handler core_ranges
  by unfold_locales (auto simp: core_optstring core_handler_def core_map_def operand_def Let_def failed_def changed_def
      unless_err_def helped_def not_less one_le_word core_ranges_def split: if_splits option.splits)

lemma core_options_ok: "exits_or (\<lambda>s. core_ranges s \<and> core_mode_ok pf s) (core_make_options pf argv)"
  unfolding core_make_options_def
proof (rule core.collected)
  show "exits_or (\<lambda>s. core_ranges s \<and> core_mode_ok pf s) (core_finish pf opts s)" if "unless_err core_ranges s" for opts s
    using that by (auto simp: core_finish_def Let_def parsing_finish_def unless_err_def core_ranges_def core_mode_ok_def)
qed (simp add: core_ranges_def core_options_new_def)

lemma core_make_optionsD: "core_make_options pf argv = Inr s \<Longrightarrow> core_ranges s \<and> core_mode_ok pf s"
  using core_options_ok [of pf argv] by simp

text \<open>Asking for help is answered with an error code: without a benchmark's name the type is unknown.\<close>

lemma core_help_fails: "core_make_options X86_64 [Some ''core_latency'', Some ''-?''] = Inl (Exit 1)"
  by code_simp

lemma core_options_run: "core_make_options X86_64 [Some ''core_latency'', Some ''-bcas'', Some ''-i'', Some ''7''] =
    Inr \<lparr>co_benchmark_name = ''cas'', co_mode = Mode_cas, co_samples = 500, co_iters = 7\<rparr>"
  by code_simp


section \<open>Compare and exchange\<close>

record bench =
  b_iterations :: "32 word"
  b_samples :: "32 word"

datatype side = Ping | Pong

definition bench_size :: "bench \<Rightarrow> nat" where
  "bench_size b = unat (b_samples b) * unat (b_iterations b)"

abbreviation PING :: "32 word" where "PING \<equiv> 0"
abbreviation PONG :: "32 word" where "PONG \<equiv> 1"

text \<open>\<open>init\<close> sets the flag and says whether the processor can run the variant; the title names it.\<close>

definition cas_init :: "bool \<Rightarrow> cas_type \<Rightarrow> bool \<times> 32 word" where
  "cas_init has_arm64_lse ctype = (\<not> (ctype = Cas_arm64_lse \<and> \<not> has_arm64_lse), PING)"

definition rw_init :: "bool \<times> 32 word \<times> 32 word" where
  "rw_init = (True, PING, PING)"

definition cas_name :: "cas_type \<Rightarrow> string" where
  "cas_name ctype = (case ctype of Cas_cpp \<Rightarrow> ''CAS (CPP)'' | Cas_x86 \<Rightarrow> ''CAS_x86'' | Cas_x86_64 \<Rightarrow> ''CAS_x86_64''
     | Cas_arm64 \<Rightarrow> ''CAS_arm64'' | Cas_arm64_lse \<Rightarrow> ''CAS_arm64_lse'')"

text \<open>One turn of \<open>cas_default\<close>: \<open>compare_exchange_strong\<close> succeeds or the loop tries again.\<close>

definition cas_once :: "32 word \<Rightarrow> 32 word \<Rightarrow> 32 word \<Rightarrow> 32 word option" where
  "cas_once compare swap flag = (if flag = compare then Some swap else None)"

record cas_state =
  cs_flag :: "32 word"
  cs_ping :: nat
  cs_sample :: nat
  cs_pong :: nat
  cs_stats :: statistics

text \<open>\<open>l\<close> is computed in \<open>std::size_t\<close>, \<open>dur\<close> is the duration of each sample.\<close>

definition cas_start :: "32 word \<Rightarrow> cas_state" where
  "cas_start flag = \<lparr>cs_flag = flag, cs_ping = 0, cs_sample = 0, cs_pong = 0, cs_stats = statistics_new\<rparr>"

fun cas_step :: "bench \<Rightarrow> (nat \<Rightarrow> 32 word) \<Rightarrow> side \<Rightarrow> cas_state \<Rightarrow> cas_state" where
  "cas_step b dur Ping s =
     (let l = unat (ucast (b_iterations b) * ucast (b_samples b) :: 64 word) in
      if cs_ping s < l then
        (case cas_once PING PONG (cs_flag s) of None \<Rightarrow> s | Some f \<Rightarrow> s\<lparr>cs_flag := f, cs_ping := cs_ping s + 1\<rparr>)
      else s)"
| "cas_step b dur Pong s =
     (if cs_sample s < unat (b_samples b) then
        if cs_pong s < unat (b_iterations b) then
          (case cas_once PONG PING (cs_flag s) of None \<Rightarrow> s | Some f \<Rightarrow> s\<lparr>cs_flag := f, cs_pong := cs_pong s + 1\<rparr>)
        else s\<lparr>cs_stats := stats_insert (dur (cs_sample s)) (cs_stats s), cs_sample := cs_sample s + 1, cs_pong := 0\<rparr>
      else s)"

definition cas_finished :: "bench \<Rightarrow> cas_state \<Rightarrow> bool" where
  "cas_finished b s \<longleftrightarrow> bench_size b \<le> cs_ping s \<and> unat (b_samples b) \<le> cs_sample s"

text \<open>What both threads have done: the one that waits for the other is at most one turn ahead.\<close>

definition cas_turns :: "bench \<Rightarrow> cas_state \<Rightarrow> nat" where
  "cas_turns b s = cs_sample s * unat (b_iterations b) + cs_pong s"

definition cas_inv :: "bench \<Rightarrow> (nat \<Rightarrow> 32 word) \<Rightarrow> cas_state \<Rightarrow> bool" where
  "cas_inv b dur s \<longleftrightarrow> cs_sample s \<le> unat (b_samples b) \<and> cs_pong s \<le> unat (b_iterations b) \<and>
     (cs_sample s = unat (b_samples b) \<longrightarrow> cs_pong s = 0) \<and> cs_ping s \<le> bench_size b \<and>
     (cs_flag s = PING \<and> cs_ping s = cas_turns b s \<or> cs_flag s = PONG \<and> cs_ping s = cas_turns b s + 1) \<and>
     cs_stats s = stats_of (map dur [0 ..< cs_sample s])"

definition cas_left :: "bench \<Rightarrow> cas_state \<Rightarrow> nat" where
  "cas_left b s = (bench_size b - cs_ping s) + (bench_size b - cas_turns b s) + (unat (b_samples b) - cs_sample s)"

lemma cas_limit: "unat (ucast (b_iterations b) * ucast (b_samples b) :: 64 word) = bench_size b"
proof -
  have "unat (b_iterations b) \<le> 2 ^ 32 - 1" "unat (b_samples b) \<le> 2 ^ 32 - 1"
    using unsigned_less [of "b_iterations b", where 'a = nat] unsigned_less [of "b_samples b", where 'a = nat] by simp_all
  then have "unat (b_iterations b) * unat (b_samples b) \<le> (2 ^ 32 - 1) * (2 ^ 32 - 1)" by (rule mult_le_mono)
  then have "unat (b_iterations b) * unat (b_samples b) < 2 ^ 64" by simp
  then show ?thesis by (simp add: unat_word_ariths unat_ucast64 bench_size_def mult.commute)
qed

lemma turns_left:
  assumes "i < n" "j \<le> (k :: nat)"
  shows "i * k + j \<le> n * k"
proof -
  have "i * k + j \<le> Suc i * k" using assms(2) by simp
  also have "\<dots> \<le> n * k" using assms(1) by (intro mult_right_mono) simp_all
  finally show ?thesis .
qed

lemma cas_turns_le: "cas_inv b dur s \<Longrightarrow> cas_turns b s \<le> bench_size b"
  using turns_left [of "cs_sample s" "unat (b_samples b)" "cs_pong s" "unat (b_iterations b)"]
  by (cases "cs_sample s = unat (b_samples b)") (auto simp: cas_inv_def cas_turns_def bench_size_def)

lemma cas_turns_less:
  "cas_inv b dur s \<Longrightarrow> cs_sample s < unat (b_samples b) \<Longrightarrow> cs_pong s < unat (b_iterations b) \<Longrightarrow> cas_turns b s < bench_size b"
  using turns_left [of "cs_sample s" "unat (b_samples b)" "Suc (cs_pong s)" "unat (b_iterations b)"]
  by (simp add: cas_turns_def bench_size_def)

lemma stats_of_upt: "stats_insert (dur n) (stats_of (map dur [0 ..< n])) = stats_of (map dur [0 ..< Suc n])"
  by (simp add: stats_of_append)


text \<open>The four things that can happen in a step, and nothing else.\<close>

lemma cas_step_cases:
  "cas_step b dur t s = s \<or>
   t = Ping \<and> cs_ping s < bench_size b \<and> cs_flag s = PING \<and> cas_step b dur t s = s\<lparr>cs_flag := PONG, cs_ping := cs_ping s + 1\<rparr> \<or>
   t = Pong \<and> cs_sample s < unat (b_samples b) \<and> cs_pong s < unat (b_iterations b) \<and> cs_flag s = PONG \<and>
     cas_step b dur t s = s\<lparr>cs_flag := PING, cs_pong := cs_pong s + 1\<rparr> \<or>
   t = Pong \<and> cs_sample s < unat (b_samples b) \<and> unat (b_iterations b) \<le> cs_pong s \<and>
     cas_step b dur t s = s\<lparr>cs_stats := stats_insert (dur (cs_sample s)) (cs_stats s), cs_sample := cs_sample s + 1, cs_pong := 0\<rparr>"
  by (cases t) (auto simp: cas_limit cas_once_def)

lemma cas_step_keeps: "cas_inv b dur s \<Longrightarrow> cas_inv b dur (cas_step b dur t s)"
  using cas_step_cases [of b dur t s]
  by (elim disjE conjE) (auto simp: cas_inv_def cas_turns_def stats_of_upt simp del: upt_Suc)

lemma cas_step_less:
  assumes inv: "cas_inv b dur s"
  shows "cas_step b dur t s = s \<or> cas_left b (cas_step b dur t s) < cas_left b s"
  using cas_step_cases [of b dur t s]
proof (elim disjE conjE)
  assume "cs_sample s < unat (b_samples b)" "cs_pong s < unat (b_iterations b)"
    and st: "cas_step b dur t s = s\<lparr>cs_flag := PING, cs_pong := cs_pong s + 1\<rparr>"
  then have "cas_turns b s < bench_size b" using inv cas_turns_less by blast
  moreover have "cas_turns b (s\<lparr>cs_flag := PING, cs_pong := cs_pong s + 1\<rparr>) = cas_turns b s + 1" by (simp add: cas_turns_def)
  ultimately show ?thesis unfolding st cas_left_def by simp linarith
next
  assume s: "cs_sample s < unat (b_samples b)" "unat (b_iterations b) \<le> cs_pong s"
    and st: "cas_step b dur t s = s\<lparr>cs_stats := stats_insert (dur (cs_sample s)) (cs_stats s), cs_sample := cs_sample s + 1, cs_pong := 0\<rparr>"
  have "cas_turns b (cas_step b dur t s) = cas_turns b s" using s inv by (simp add: st cas_turns_def cas_inv_def)
  then show ?thesis using s unfolding st cas_left_def by simp linarith
next
  assume s: "cs_ping s < bench_size b"
    and st: "cas_step b dur t s = s\<lparr>cs_flag := PONG, cs_ping := cs_ping s + 1\<rparr>"
  have "cas_turns b (cas_step b dur t s) = cas_turns b s" by (simp add: st cas_turns_def)
  then show ?thesis using s unfolding st cas_left_def by simp linarith
qed simp

lemma cas_step_progress:
  assumes inv: "cas_inv b dur s" and nf: "\<not> cas_finished b s"
  shows "\<exists>t. cas_step b dur t s \<noteq> s"
proof (cases "cs_flag s = PING \<and> cs_ping s < bench_size b")
  case True
  then have "cs_flag (cas_step b dur Ping s) \<noteq> cs_flag s" by (simp add: cas_limit cas_once_def)
  then show ?thesis by metis
next
  case False
  have "cs_sample s < unat (b_samples b)"
  proof (rule ccontr)
    assume "\<not> cs_sample s < unat (b_samples b)"
    then have e: "cs_sample s = unat (b_samples b)" using inv by (simp add: cas_inv_def)
    then have "cas_turns b s = bench_size b" using inv by (simp add: cas_inv_def cas_turns_def bench_size_def)
    then have "cs_ping s = bench_size b" using inv by (auto simp: cas_inv_def)
    then show False using nf e by (simp add: cas_finished_def)
  qed
  moreover have "cs_flag s = PONG" if "cs_pong s < unat (b_iterations b)"
    using cas_turns_less [OF inv calculation that] False inv by (auto simp: cas_inv_def)
  ultimately have "cs_pong (cas_step b dur Pong s) > cs_pong s \<or> cs_sample (cas_step b dur Pong s) > cs_sample s"
    by (auto simp: cas_once_def)
  then show ?thesis by (metis less_irrefl)
qed

lemma cas_step_stable: "cas_finished b s \<Longrightarrow> cas_step b dur t s = s"
  using cas_step_cases [of b dur t s] by (auto simp: cas_finished_def)

interpretation cas: polling "cas_step b dur" "cas_inv b dur" "cas_finished b" "cas_left b" for b dur
  by unfold_locales (simp_all add: cas_step_keeps cas_step_less cas_step_progress cas_step_stable)

lemma cas_start_inv: "cas_inv b dur (cas_start PING)"
  by (auto simp: cas_inv_def cas_start_def cas_turns_def stats_of_def)

lemma cas_finished_state:
  "cas_inv b dur s \<Longrightarrow> cas_finished b s \<Longrightarrow> cs_flag s = PING \<and> cs_stats s = stats_of (map dur [0 ..< unat (b_samples b)])"
  by (auto simp: cas_inv_def cas_finished_def cas_turns_def bench_size_def)

definition bench_of :: "core_options \<Rightarrow> bench" where
  "bench_of s = \<lparr>b_iterations = co_iters s, b_samples = co_samples s\<rparr>"

text \<open>\<open>run\<close> on cores that exist and differ; the value it returns is the time of one way of a turn.\<close>

definition run_accepts :: "32 word \<Rightarrow> 32 word \<Rightarrow> 32 word \<Rightarrow> bool" where
  "run_accepts thread_count ping_core pong_core \<longleftrightarrow>
     \<not> (ping_core \<ge> thread_count \<or> pong_core \<ge> thread_count \<or> ping_core = pong_core)"

definition run_result :: "bench \<Rightarrow> statistics \<Rightarrow> 32 word" where
  "run_result b st = stats_median st div b_iterations b div 2"


text \<open>On any schedule that leaves out neither thread a run of the compare and exchange benchmark ends, with one
  duration in the statistics for each sample and with the flag as it was at the start, so that the next pair of cores can run.\<close>

theorem cas_run_returns:
  assumes "fair sched"
  shows "\<exists>n. \<forall>m \<ge> n. let s = exec (cas_step b dur) sched (cas_start PING) m in
    cas_finished b s \<and> cs_flag s = PING \<and> cs_stats s = stats_of (map dur [0 ..< unat (b_samples b)])"
  using cas.finishes_for_ever [OF cas_start_inv assms] cas_finished_state by (simp add: Let_def) blast

definition in_turn :: "nat \<Rightarrow> side" where
  "in_turn n = (if even n then Ping else Pong)"

lemma fair_in_turn: "fair in_turn"
  unfolding fair_def
proof (intro allI)
  fix t :: side and n :: nat
  show "\<exists>m \<ge> n. in_turn m = t"
    by (cases t) (auto simp: in_turn_def intro: exI [of _ "2 * n"] exI [of _ "2 * n + 1"])
qed

lemma cas_run_returns_witness:
  "\<exists>n. \<forall>m \<ge> n. let s = exec (cas_step \<lparr>b_iterations = 2, b_samples = 3\<rparr> of_nat) in_turn (cas_start PING) m in
    cas_finished \<lparr>b_iterations = 2, b_samples = 3\<rparr> s \<and> cs_flag s = PING \<and> cs_stats s = stats_of [0, 1, 2]"
proof -
  have "map of_nat [0 ..< unat (b_samples \<lparr>b_iterations = 2, b_samples = 3\<rparr>)] = [0, 1, 2 :: 32 word]" by (simp add: upt_rec)
  then show ?thesis using cas_run_returns [OF fair_in_turn, of "\<lparr>b_iterations = 2, b_samples = 3\<rparr>" of_nat] by simp
qed

section \<open>Reading and writing\<close>

definition not_word :: "32 word \<Rightarrow> 32 word" where
  "not_word v = (if v = 0 then 1 else 0)"

text \<open>Each thread has its value \<open>v\<close>, its counters, and whether the value it waited for was read.\<close>

record rw_state =
  rw_ping :: "32 word"
  rw_pong :: "32 word"
  pong_v :: "32 word"
  pong_i :: nat
  pong_read :: bool
  ping_v :: "32 word"
  ping_i :: nat
  ping_j :: nat
  ping_read :: bool
  rw_stats :: statistics

definition rw_start :: "32 word \<Rightarrow> 32 word \<Rightarrow> rw_state" where
  "rw_start ping pong = \<lparr>rw_ping = ping, rw_pong = pong, pong_v = PING, pong_i = 0, pong_read = False,
     ping_v = PONG, ping_i = 0, ping_j = 0, ping_read = False, rw_stats = statistics_new\<rparr>"

fun rw_step :: "bench \<Rightarrow> (nat \<Rightarrow> 32 word) \<Rightarrow> side \<Rightarrow> rw_state \<Rightarrow> rw_state" where
  "rw_step b dur Pong s =
     (if pong_i s < unat (b_iterations b * b_samples b) then
        if \<not> pong_read s then (if rw_ping s \<noteq> pong_v s then s else s\<lparr>pong_read := True\<rparr>)
        else s\<lparr>rw_pong := not_word (pong_v s), pong_v := not_word (pong_v s), pong_i := pong_i s + 1, pong_read := False\<rparr>
      else s)"
| "rw_step b dur Ping s =
     (if ping_i s < unat (b_samples b) then
        if ping_j s < unat (b_iterations b) then
          if \<not> ping_read s then (if rw_pong s \<noteq> ping_v s then s else s\<lparr>ping_read := True\<rparr>)
          else s\<lparr>rw_ping := ping_v s, ping_v := not_word (ping_v s), ping_j := ping_j s + 1, ping_read := False\<rparr>
        else s\<lparr>rw_stats := stats_insert (dur (ping_i s)) (rw_stats s), ping_i := ping_i s + 1, ping_j := 0\<rparr>
      else s)"

definition rw_finished :: "bench \<Rightarrow> rw_state \<Rightarrow> bool" where
  "rw_finished b s \<longleftrightarrow> unat (b_iterations b * b_samples b) \<le> pong_i s \<and> unat (b_samples b) \<le> ping_i s"

text \<open>The number of turns as the code computes it is the right one if the product does not wrap.\<close>

definition bench_fits :: "bench \<Rightarrow> bool" where
  "bench_fits b \<longleftrightarrow> bench_size b < 2 ^ 32"

lemma rw_limit: "bench_fits b \<Longrightarrow> unat (b_iterations b * b_samples b) = bench_size b"
  by (simp add: bench_fits_def bench_size_def unat_word_ariths mult.commute)

lemma core_ranges_fit: "core_ranges s \<Longrightarrow> bench_fits (bench_of s)"
proof -
  assume "core_ranges s"
  then have "unat (co_samples s) \<le> 60000" "unat (co_iters s) \<le> 60000" by (simp_all add: core_ranges_def word_le_nat_alt)
  then have "unat (co_samples s) * unat (co_iters s) \<le> 60000 * 60000" by (rule mult_le_mono)
  then show ?thesis by (simp add: bench_fits_def bench_size_def bench_of_def)
qed

definition parity :: "nat \<Rightarrow> 32 word" where
  "parity n = (if even n then PING else PONG)"

lemma parity_simps [simp]: "not_word (parity n) = parity (Suc n)" "parity 0 = PING" "parity (Suc 0) = PONG" "parity (Suc (Suc n)) = parity n"
  by (simp_all add: parity_def not_word_def)

lemma parity_close:
  "m \<le> n \<Longrightarrow> n \<le> Suc m \<Longrightarrow> parity m = parity n \<longleftrightarrow> m = n"
  "m \<le> n \<Longrightarrow> n \<le> Suc m \<Longrightarrow> parity n = parity (Suc m) \<longleftrightarrow> n = Suc m"
  by (auto simp: parity_def le_Suc_eq split: if_splits)

definition rw_turns :: "bench \<Rightarrow> rw_state \<Rightarrow> nat" where
  "rw_turns b s = ping_i s * unat (b_iterations b) + ping_j s"

text \<open>\<open>pong\<close> is at most one turn ahead, and a thread that has read its value is the one whose turn it is.\<close>

definition rw_inv :: "bench \<Rightarrow> (nat \<Rightarrow> 32 word) \<Rightarrow> rw_state \<Rightarrow> bool" where
  "rw_inv b dur s \<longleftrightarrow> (let P = rw_turns b s; Q = pong_i s in
     ping_i s \<le> unat (b_samples b) \<and> ping_j s \<le> unat (b_iterations b) \<and> (ping_i s = unat (b_samples b) \<longrightarrow> ping_j s = 0) \<and>
     Q \<le> bench_size b \<and> P \<le> Q \<and> Q \<le> P + 1 \<and>
     rw_ping s = parity P \<and> rw_pong s = parity Q \<and> ping_v s = parity (Suc P) \<and> pong_v s = parity Q \<and>
     (pong_read s \<longrightarrow> Q \<le> P \<and> Q < bench_size b) \<and>
     (ping_read s \<longrightarrow> P < Q \<and> ping_i s < unat (b_samples b) \<and> ping_j s < unat (b_iterations b)) \<and>
     rw_stats s = stats_of (map dur [0 ..< ping_i s]))"

definition rw_left :: "bench \<Rightarrow> rw_state \<Rightarrow> nat" where
  "rw_left b s = (2 * (bench_size b - pong_i s) - (if pong_read s then 1 else 0)) +
     (2 * (bench_size b - rw_turns b s) - (if ping_read s then 1 else 0)) + (unat (b_samples b) - ping_i s)"


lemma rw_step_cases:
  assumes "bench_fits b"
  shows "rw_step b dur t s = s \<or>
   t = Pong \<and> pong_i s < bench_size b \<and> \<not> pong_read s \<and> rw_ping s = pong_v s \<and> rw_step b dur t s = s\<lparr>pong_read := True\<rparr> \<or>
   t = Pong \<and> pong_i s < bench_size b \<and> pong_read s \<and>
     rw_step b dur t s = s\<lparr>rw_pong := not_word (pong_v s), pong_v := not_word (pong_v s), pong_i := pong_i s + 1, pong_read := False\<rparr> \<or>
   t = Ping \<and> ping_i s < unat (b_samples b) \<and> ping_j s < unat (b_iterations b) \<and> \<not> ping_read s \<and> rw_pong s = ping_v s \<and>
     rw_step b dur t s = s\<lparr>ping_read := True\<rparr> \<or>
   t = Ping \<and> ping_i s < unat (b_samples b) \<and> ping_j s < unat (b_iterations b) \<and> ping_read s \<and>
     rw_step b dur t s = s\<lparr>rw_ping := ping_v s, ping_v := not_word (ping_v s), ping_j := ping_j s + 1, ping_read := False\<rparr> \<or>
   t = Ping \<and> ping_i s < unat (b_samples b) \<and> unat (b_iterations b) \<le> ping_j s \<and>
     rw_step b dur t s = s\<lparr>rw_stats := stats_insert (dur (ping_i s)) (rw_stats s), ping_i := ping_i s + 1, ping_j := 0\<rparr>"
  using rw_limit [OF assms] by (cases t) auto

lemma rw_turns_simps [simp]:
  "rw_turns b (s\<lparr>pong_read := r\<rparr>) = rw_turns b s" "rw_turns b (s\<lparr>ping_read := r\<rparr>) = rw_turns b s"
  "rw_turns b (s\<lparr>rw_pong := x, pong_v := y, pong_i := i, pong_read := r\<rparr>) = rw_turns b s"
  "rw_turns b (s\<lparr>rw_ping := x, ping_v := y, ping_j := Suc (ping_j s), ping_read := r\<rparr>) = Suc (rw_turns b s)"
  "rw_turns b (s\<lparr>rw_pong := x, pong_v := y, pong_i := i\<rparr>) = rw_turns b s"
  "rw_turns b (s\<lparr>rw_ping := x, ping_v := y, ping_j := Suc (ping_j s)\<rparr>) = Suc (rw_turns b s)"
  by (simp_all add: rw_turns_def)

lemma rw_turns_sample: "rw_inv b dur s \<Longrightarrow> unat (b_iterations b) \<le> ping_j s \<Longrightarrow>
    rw_turns b (s\<lparr>rw_stats := x, ping_i := Suc (ping_i s), ping_j := 0\<rparr>) = rw_turns b s"
  by (simp add: rw_turns_def rw_inv_def Let_def)

text \<open>Who may read: the values compared are equal exactly when the number of turns is right.\<close>

lemma rw_inv_reads:
  assumes "rw_inv b dur s"
  shows "rw_ping s = pong_v s \<longleftrightarrow> pong_i s \<le> rw_turns b s" "rw_pong s = ping_v s \<longleftrightarrow> rw_turns b s < pong_i s"
proof -
  have "rw_turns b s \<le> pong_i s" "pong_i s \<le> Suc (rw_turns b s)" "rw_ping s = parity (rw_turns b s)" "rw_pong s = parity (pong_i s)"
    "ping_v s = parity (Suc (rw_turns b s))" "pong_v s = parity (pong_i s)"
    using assms by (simp_all add: rw_inv_def Let_def)
  then show "rw_ping s = pong_v s \<longleftrightarrow> pong_i s \<le> rw_turns b s" "rw_pong s = ping_v s \<longleftrightarrow> rw_turns b s < pong_i s"
    using parity_close by (metis le_antisym, metis le_antisym not_less_eq_eq le_refl not_le)
qed

lemma rw_step_keeps:
  assumes "bench_fits b" and inv: "rw_inv b dur s"
  shows "rw_inv b dur (rw_step b dur t s)"
  using rw_step_cases [OF assms(1), of dur t s]
proof (elim disjE conjE)
  assume "unat (b_iterations b) \<le> ping_j s" "ping_i s < unat (b_samples b)"
    "rw_step b dur t s = s\<lparr>rw_stats := stats_insert (dur (ping_i s)) (rw_stats s), ping_i := ping_i s + 1, ping_j := 0\<rparr>"
  with inv rw_turns_sample [OF inv] show ?thesis
    by (simp add: rw_inv_def Let_def stats_of_upt del: upt_Suc)
next
  assume "pong_i s < bench_size b" "rw_ping s = pong_v s" and st: "rw_step b dur t s = s\<lparr>pong_read := True\<rparr>"
  then have "pong_i s < bench_size b" "pong_i s \<le> rw_turns b s" using rw_inv_reads [OF inv] by simp_all
  with inv show ?thesis by (simp add: rw_inv_def Let_def st)
next
  assume "rw_pong s = ping_v s" and i: "ping_i s < unat (b_samples b)" "ping_j s < unat (b_iterations b)"
    and st: "rw_step b dur t s = s\<lparr>ping_read := True\<rparr>"
  then have "rw_turns b s < pong_i s" using rw_inv_reads [OF inv] by simp
  with inv i show ?thesis by (simp add: rw_inv_def Let_def st)
qed (use inv in \<open>simp_all add: rw_inv_def Let_def\<close>)

lemma rw_turns_less:
  "ping_i s < unat (b_samples b) \<Longrightarrow> ping_j s < unat (b_iterations b) \<Longrightarrow> rw_turns b s < bench_size b"
  using turns_left [of "ping_i s" "unat (b_samples b)" "Suc (ping_j s)" "unat (b_iterations b)"]
  by (simp add: rw_turns_def bench_size_def)

lemma rw_step_less:
  assumes "bench_fits b" and inv: "rw_inv b dur s"
  shows "rw_step b dur t s = s \<or> rw_left b (rw_step b dur t s) < rw_left b s"
  using rw_step_cases [OF assms(1), of dur t s]
proof (elim disjE conjE)
  assume s: "unat (b_iterations b) \<le> ping_j s" "ping_i s < unat (b_samples b)"
    and st: "rw_step b dur t s = s\<lparr>rw_stats := stats_insert (dur (ping_i s)) (rw_stats s), ping_i := ping_i s + 1, ping_j := 0\<rparr>"
  have f: "rw_turns b (rw_step b dur t s) = rw_turns b s" "pong_i (rw_step b dur t s) = pong_i s" "pong_read (rw_step b dur t s) = pong_read s"
    "ping_read (rw_step b dur t s) = ping_read s" "ping_i (rw_step b dur t s) = Suc (ping_i s)"
    using rw_turns_sample [OF inv s(1)] by (simp_all add: st)
  define k where "k = (2 * (bench_size b - pong_i s) - (if pong_read s then 1 else 0)) +
      (2 * (bench_size b - rw_turns b s) - (if ping_read s then 1 else 0))"
  have "rw_left b (rw_step b dur t s) = k + (unat (b_samples b) - Suc (ping_i s))" "rw_left b s = k + (unat (b_samples b) - ping_i s)"
    unfolding rw_left_def k_def by (simp_all only: f)
  then show ?thesis using s(2) by linarith
next
  assume s: "ping_i s < unat (b_samples b)" "ping_j s < unat (b_iterations b)" "ping_read s"
    and st: "rw_step b dur t s = s\<lparr>rw_ping := ping_v s, ping_v := not_word (ping_v s), ping_j := ping_j s + 1, ping_read := False\<rparr>"
  have "rw_turns b (rw_step b dur t s) = Suc (rw_turns b s)" by (simp add: st)
  then have "rw_left b (rw_step b dur t s) = (2 * (bench_size b - pong_i s) - (if pong_read s then 1 else 0)) +
      2 * (bench_size b - Suc (rw_turns b s)) + (unat (b_samples b) - ping_i s)" unfolding rw_left_def by (simp add: st)
  moreover have "rw_left b s = (2 * (bench_size b - pong_i s) - (if pong_read s then 1 else 0)) +
      (2 * (bench_size b - rw_turns b s) - 1) + (unat (b_samples b) - ping_i s)" using s(3) by (simp add: rw_left_def)
  moreover have "2 * (bench_size b - Suc (rw_turns b s)) < 2 * (bench_size b - rw_turns b s) - 1" using rw_turns_less [OF s(1,2)] by simp
  ultimately show ?thesis by linarith
next
  assume s: "ping_i s < unat (b_samples b)" "ping_j s < unat (b_iterations b)" "\<not> ping_read s"
    and st: "rw_step b dur t s = s\<lparr>ping_read := True\<rparr>"
  show ?thesis using rw_turns_less [OF s(1,2)] s(3) unfolding st rw_left_def by simp
next
  assume s: "pong_i s < bench_size b" "pong_read s"
    and st: "rw_step b dur t s = s\<lparr>rw_pong := not_word (pong_v s), pong_v := not_word (pong_v s), pong_i := pong_i s + 1, pong_read := False\<rparr>"
  define k where "k = (2 * (bench_size b - rw_turns b s) - (if ping_read s then 1 else 0)) + (unat (b_samples b) - ping_i s)"
  have "rw_left b (rw_step b dur t s) = 2 * (bench_size b - Suc (pong_i s)) + k" "rw_left b s = (2 * (bench_size b - pong_i s) - 1) + k"
    unfolding rw_left_def k_def using s(2) by (simp_all add: st)
  moreover have "2 * (bench_size b - Suc (pong_i s)) < 2 * (bench_size b - pong_i s) - 1" using s(1) by simp
  ultimately show ?thesis by linarith
qed (simp_all add: rw_left_def)

lemma rw_step_progress:
  assumes "bench_fits b" and inv: "rw_inv b dur s" and nf: "\<not> rw_finished b s"
  shows "\<exists>t. rw_step b dur t s \<noteq> s"
proof (cases "rw_turns b s = pong_i s \<and> pong_i s < bench_size b")
  case True
  then have "rw_ping s = pong_v s" using inv by (simp add: rw_inv_def Let_def)
  then have "pong_read (rw_step b dur Pong s) \<noteq> pong_read s" using True rw_limit [OF assms(1)] by simp
  then show ?thesis by metis
next
  case False
  have i: "ping_i s < unat (b_samples b)"
  proof (rule ccontr)
    assume "\<not> ping_i s < unat (b_samples b)"
    then have e: "ping_i s = unat (b_samples b)" using inv by (simp add: rw_inv_def Let_def)
    then have "rw_turns b s = bench_size b" using inv by (simp add: rw_inv_def Let_def rw_turns_def bench_size_def)
    then have "pong_i s = bench_size b" using inv by (simp add: rw_inv_def Let_def)
    then show False using nf e rw_limit [OF assms(1)] by (simp add: rw_finished_def)
  qed
  show ?thesis
  proof (cases "ping_j s < unat (b_iterations b)")
    case True
    have "rw_turns b s \<noteq> pong_i s" using rw_turns_less [OF i True] False by simp
    then have "rw_pong s = ping_v s" using inv by (auto simp: rw_inv_def Let_def le_Suc_eq)
    then have "ping_read (rw_step b dur Ping s) \<noteq> ping_read s" using i True by simp
    then show ?thesis by metis
  next
    case False
    then have "ping_i (rw_step b dur Ping s) \<noteq> ping_i s" using i by simp
    then show ?thesis by metis
  qed
qed

lemma rw_step_stable: "rw_finished b s \<Longrightarrow> rw_step b dur t s = s"
  by (cases t) (simp_all add: rw_finished_def)

interpretation rw: polling "rw_step b dur" "\<lambda>s. bench_fits b \<and> rw_inv b dur s" "rw_finished b" "rw_left b" for b dur
  by unfold_locales (simp_all add: rw_step_keeps rw_step_less rw_step_progress rw_step_stable)

lemma rw_start_inv: "rw_inv b dur (rw_start PING PING)"
  by (simp add: rw_inv_def rw_start_def rw_turns_def Let_def stats_of_def parity_def)

lemma rw_finished_state:
  assumes "bench_fits b" "rw_inv b dur s" "rw_finished b s"
  shows "rw_ping s = parity (bench_size b) \<and> rw_pong s = parity (bench_size b) \<and> rw_stats s = stats_of (map dur [0 ..< unat (b_samples b)])"
proof -
  have "ping_i s = unat (b_samples b)" "pong_i s = bench_size b" using assms rw_limit [OF assms(1)] by (auto simp: rw_inv_def Let_def rw_finished_def)
  moreover have "rw_turns b s = bench_size b" using calculation assms(2) by (simp add: rw_inv_def Let_def rw_turns_def bench_size_def)
  ultimately show ?thesis using assms(2) by (simp add: rw_inv_def Let_def)
qed


text \<open>C25: With options from the command line, the product of samples and iterations does not wrap at 32 bits, and on any
  schedule that leaves out neither thread the first run of the read and write benchmark ends, with one duration in the
  statistics for each sample.  Both variables end as \<open>PING\<close> or as \<open>PONG\<close>, as the number of turns is even or odd.\<close>

theorem rw_run_returns:
  assumes "core_make_options pf argv = Inr s" "fair sched"
  shows "\<exists>n. \<forall>m \<ge> n. let t = exec (rw_step (bench_of s) dur) sched (rw_start PING PING) m in
    rw_finished (bench_of s) t \<and> rw_ping t = parity (bench_size (bench_of s)) \<and> rw_pong t = parity (bench_size (bench_of s)) \<and>
    rw_stats t = stats_of (map dur [0 ..< unat (co_samples s)])"
proof -
  have fits: "bench_fits (bench_of s)" using core_make_optionsD [OF assms(1)] core_ranges_fit by blast
  then have "bench_fits (bench_of s) \<and> rw_inv (bench_of s) dur (rw_start PING PING)" by (simp add: rw_start_inv)
  from rw.finishes_for_ever [OF this assms(2)] show ?thesis
    using rw_finished_state [OF fits] by (auto simp: Let_def bench_of_def)
qed

lemma rw_options: "core_make_options X86_64 [Some ''core_latency'', Some ''-breadwrite'', Some ''-i3'', Some ''-s3''] =
    Inr \<lparr>co_benchmark_name = ''readwrite'', co_mode = Mode_readwrite, co_samples = 3, co_iters = 3\<rparr>"
  by code_simp

lemma rw_run_returns_witness:
  "\<exists>n. \<forall>m \<ge> n. let t = exec (rw_step \<lparr>b_iterations = 3, b_samples = 3\<rparr> of_nat) in_turn (rw_start PING PING) m in
    rw_finished \<lparr>b_iterations = 3, b_samples = 3\<rparr> t \<and> rw_ping t = PONG \<and> rw_pong t = PONG \<and>
    rw_stats t = stats_of (map of_nat [0 ..< 3])"
proof -
  have "parity (bench_size \<lparr>b_iterations = 3, b_samples = 3\<rparr>) = PONG" by (simp add: parity_def bench_size_def)
  then show ?thesis using rw_run_returns [OF rw_options fair_in_turn, of of_nat] by (simp add: bench_of_def)
qed

text \<open>A run that starts with both variables at \<open>PONG\<close>: \<open>pong\<close> waits for a value that \<open>ping\<close> does not write.\<close>

definition rw_stuck :: "rw_state \<Rightarrow> bool" where
  "rw_stuck s \<longleftrightarrow> rw_ping s = PONG \<and> rw_pong s = PONG \<and> pong_i s = 0 \<and> \<not> pong_read s \<and> pong_v s = PING \<and>
     (ping_read s \<longrightarrow> ping_v s = PONG)"

lemma rw_stuck_step: "rw_stuck s \<Longrightarrow> rw_stuck (rw_step b dur t s)"
  by (cases t) (auto simp: rw_stuck_def)

lemma rw_stuck_exec: "rw_stuck s \<Longrightarrow> rw_stuck (exec (rw_step b dur) sched s n)"
  by (induction n) (simp_all add: rw_stuck_step)

lemma rw_start_stuck: "rw_stuck (rw_start PONG PONG)"
  by (simp add: rw_stuck_def rw_start_def)

lemma odd_fits: "bench_fits b \<Longrightarrow> odd (bench_size b) \<Longrightarrow> rw_stuck s \<Longrightarrow> \<not> rw_finished b s"
  by (auto simp: rw_finished_def rw_limit rw_stuck_def intro: Nat.gr0I)

text \<open>If samples and iterations are both odd, the first run ends but leaves the variables such that the second one, for
  the next pair of cores, never ends, on no schedule: \<open>init\<close> is called before the first run only.\<close>

theorem rw_second_run_stuck:
  assumes "core_make_options pf argv = Inr s" "odd (unat (co_samples s))" "odd (unat (co_iters s))" "fair sched"
  shows "\<exists>n. rw_finished (bench_of s) (exec (rw_step (bench_of s) dur) sched (rw_start PING PING) n) \<and>
    (\<forall>sched' dur' m. \<not> rw_finished (bench_of s) (exec (rw_step (bench_of s) dur') sched'
      (rw_start (rw_ping (exec (rw_step (bench_of s) dur) sched (rw_start PING PING) n))
        (rw_pong (exec (rw_step (bench_of s) dur) sched (rw_start PING PING) n))) m))"
proof -
  have fits: "bench_fits (bench_of s)" using core_make_optionsD [OF assms(1)] core_ranges_fit by blast
  have odd: "odd (bench_size (bench_of s))" using assms(2,3) by (simp add: bench_size_def bench_of_def)
  have "bench_fits (bench_of s) \<and> rw_inv (bench_of s) dur (rw_start PING PING)" using fits by (simp add: rw_start_inv)
  from rw.finishes_for_ever [OF this assms(4)] obtain n where
    n: "rw_finished (bench_of s) (exec (rw_step (bench_of s) dur) sched (rw_start PING PING) n)"
      "rw_inv (bench_of s) dur (exec (rw_step (bench_of s) dur) sched (rw_start PING PING) n)" by blast
  then have "rw_ping (exec (rw_step (bench_of s) dur) sched (rw_start PING PING) n) = PONG"
    "rw_pong (exec (rw_step (bench_of s) dur) sched (rw_start PING PING) n) = PONG"
    using rw_finished_state [OF fits] odd by (simp_all add: parity_def)
  then show ?thesis using n(1) odd_fits [OF fits odd rw_stuck_exec [OF rw_start_stuck]] by (intro exI [of _ n]) simp
qed

lemma rw_second_run_stuck_witness:
  "\<exists>n. let b = \<lparr>b_iterations = 3, b_samples = 3\<rparr>; t = exec (rw_step b of_nat) in_turn (rw_start PING PING) n in
    rw_finished b t \<and> (\<forall>sched' dur' m. \<not> rw_finished b (exec (rw_step b dur') sched' (rw_start (rw_ping t) (rw_pong t)) m))"
  using rw_second_run_stuck [OF rw_options _ _ fair_in_turn, of of_nat] by (simp add: bench_of_def Let_def)

lemma core_pairs_accepted:
  "p < unat n \<Longrightarrow> q < unat n \<Longrightarrow> p \<noteq> q \<Longrightarrow> run_accepts n (of_nat p) (of_nat q)"
proof -
  assume a: "p < unat n" "q < unat n" "p \<noteq> q"
  then have "unat (of_nat p :: 32 word) = p" "unat (of_nat q :: 32 word) = q"
    using unsigned_less [of n, where 'a = nat] by (simp_all add: unat_of_nat)
  then show ?thesis using a by (auto simp: run_accepts_def word_le_nat_alt not_le)
qed

end
