(* ===== verification/NetQuery.thy ===== *)
theory NetQuery
  imports Net
begin

text \<open>
  The interfaces of the system (\<open>query_net_interfaces\<close>, \<open>net_common.cpp\<close>): the list of \<open>getifaddrs\<close>
  completed by the requests of \<open>net_query_ioctls.cpp\<close>, \<open>net_query_gethwaddr.cpp\<close>, \<open>net_query_getalias.cpp\<close>,
  \<open>net_query_vlan_bsd.cpp\<close> and \<open>net_query_vlan_linux.cpp\<close>; and the names of the host (\<open>gethostname\<close>, the two
  variants of \<open>getdomainname\<close>).  What \<open>ioctl\<close>, \<open>gethostent\<close>, \<open>getaddrinfo\<close> and \<open>getnameinfo\<close> answer is an
  argument.
\<close>

section \<open>Requests\<close>

type_synonym errno = int

abbreviation (input) "EBADF \<equiv> 9 :: int"
abbreviation (input) "ENOTSUP \<equiv> 95 :: int"
abbreviation (input) "ENOSYS \<equiv> 38 :: int"

definition IFNAMSIZ :: nat where "IFNAMSIZ = 16"

text \<open>The C string in the array \<open>ifr_name\<close>, which is zero before the copy.\<close>

definition ifr_name :: "string \<Rightarrow> string" where
  "ifr_name interface = (case strlcpy (replicate IFNAMSIZ (CHR 0x00)) (interface @ [CHR 0x00]) IFNAMSIZ of
     None \<Rightarrow> [] | Some (name, _) \<Rightarrow> takeWhile (\<lambda>c. c \<noteq> CHR 0x00) name)"

text \<open>\<open>sock\<close> says whether there is a socket, \<open>ioctl\<close> is the answer to the request for a name.\<close>

definition query_friendly_name :: "(string \<Rightarrow> errno + string) \<Rightarrow> bool \<Rightarrow> string \<Rightarrow> errno + string" where
  "query_friendly_name ioctl sock interface = (if \<not> sock then Inl EBADF
     else case ioctl (ifr_name interface) of Inl e \<Rightarrow> Inl e | Inr name \<Rightarrow> Inr (takeWhile (\<lambda>c. c \<noteq> CHR 0x00) name))"

definition ARPHRD_ETHER :: "16 word" where "ARPHRD_ETHER = 1"

text \<open>The request answers the family of the address and its bytes; \<open>typed\<close> says whether the platform tells the family.\<close>

definition query_hw_addr :: "bool \<Rightarrow> (string \<Rightarrow> errno + 16 word \<times> ether_addr) \<Rightarrow> bool \<Rightarrow> string \<Rightarrow> errno + ether_addr" where
  "query_hw_addr typed ioctl sock interface = (if \<not> sock then Inl EBADF
     else case ioctl (ifr_name interface) of Inl e \<Rightarrow> Inl e
     | Inr (family, native_hw_addr) \<Rightarrow>
         if typed \<and> family \<noteq> ARPHRD_ETHER then Inl ENOTSUP
         else if list_all (\<lambda>b. b = 0) (ether_addr_octet native_hw_addr) then Inl ENOTSUP
         else Inr native_hw_addr)"

definition query_flags :: "bool \<Rightarrow> (string \<Rightarrow> errno + 16 word \<times> 16 word) \<Rightarrow> bool \<Rightarrow> string \<Rightarrow> errno + 32 word" where
  "query_flags have_high ioctl sock interface = (if \<not> sock then Inl EBADF
     else case ioctl (ifr_name interface) of Inl e \<Rightarrow> Inl e
     | Inr (flags, high) \<Rightarrow> Inr (if have_high then ucast flags OR push_bit 16 (ucast high) else ucast flags))"

definition query_mtu :: "(string \<Rightarrow> errno + 32 word) \<Rightarrow> bool \<Rightarrow> string \<Rightarrow> errno + 32 word" where
  "query_mtu ioctl sock interface = (if \<not> sock then Inl EBADF else ioctl (ifr_name interface))"

definition query_vlan_bsd :: "(string \<Rightarrow> errno + string \<times> 16 word) \<Rightarrow> bool \<Rightarrow> string \<Rightarrow> errno + if_vlan" where
  "query_vlan_bsd ioctl sock interface = (if \<not> sock then Inl EBADF
     else case ioctl (ifr_name interface) of Inl e \<Rightarrow> Inl e
     | Inr (parent, tag) \<Rightarrow> Inr \<lparr>vl_parent = parent, vl_id = tag\<rparr>)"

text \<open>On Linux two requests, for the name of the device below and for the number.\<close>

definition query_vlan_linux :: "(string \<Rightarrow> errno + string) \<Rightarrow> (string \<Rightarrow> errno + 16 word) \<Rightarrow> bool \<Rightarrow> string \<Rightarrow> errno + if_vlan" where
  "query_vlan_linux realdev vid sock interface = (if \<not> sock then Inl EBADF
     else case realdev (take 23 interface) of Inl e \<Rightarrow> Inl e
     | Inr parent \<Rightarrow> (case vid (take 23 interface) of Inl e \<Rightarrow> Inl e | Inr i \<Rightarrow> Inr \<lparr>vl_parent = parent, vl_id = i\<rparr>))"


section \<open>All interfaces\<close>

text \<open>What the platform has, and its requests on the socket.\<close>

record net_system =
  have_getifaddrs :: bool
  have_frndlynam :: bool
  have_hwaddr :: bool
  have_vlan :: bool
  have_ioctl_flags :: bool
  friendly_name_of :: "bool \<Rightarrow> string \<Rightarrow> errno + string"
  hw_addr_of :: "bool \<Rightarrow> string \<Rightarrow> errno + ether_addr"
  vlan_of :: "bool \<Rightarrow> string \<Rightarrow> errno + if_vlan"
  mtu_of :: "bool \<Rightarrow> string \<Rightarrow> errno + 32 word"
  flags_of :: "bool \<Rightarrow> string \<Rightarrow> errno + 32 word"

type_synonym interfaces = "string \<rightharpoonup> interface"

definition fill_alias :: "net_system \<Rightarrow> string \<Rightarrow> interface \<Rightarrow> interface" where
  "fill_alias sys name i = (if have_frndlynam sys
     then case friendly_name_of sys True name of Inr a \<Rightarrow> i\<lparr>if_alias := Some a\<rparr> | Inl _ \<Rightarrow> i else i)"

definition fill_hw_addr :: "net_system \<Rightarrow> string \<Rightarrow> interface \<Rightarrow> interface" where
  "fill_hw_addr sys name i = (if have_hwaddr sys \<and> if_hwaddr i = None
     then case hw_addr_of sys True name of Inr m \<Rightarrow> i\<lparr>if_hwaddr := Some m\<rparr> | Inl _ \<Rightarrow> i else i)"

text \<open>A VLAN without an Ethernet address has the one of its parent, if the system cannot be asked for it.  The parent is looked
  up in the map, in which the interface itself is being changed.\<close>

definition fill_vlan :: "net_system \<Rightarrow> interfaces \<Rightarrow> string \<Rightarrow> interface \<Rightarrow> interface" where
  "fill_vlan sys ifs name i = (if have_vlan sys then
       (case vlan_of sys True name of Inl _ \<Rightarrow> i
        | Inr v \<Rightarrow>
           let i = snd (set_vlan (Some v) i) in
           if \<not> have_hwaddr sys \<and> if_hwaddr i = None then
             (case (ifs(name \<mapsto> i)) (vl_parent v) of None \<Rightarrow> i
              | Some parent \<Rightarrow> if if_hwaddr parent \<noteq> None then i\<lparr>if_hwaddr := if_hwaddr parent\<rparr> else i)
           else i)
     else i)"

definition fill_mtu :: "net_system \<Rightarrow> string \<Rightarrow> interface \<Rightarrow> interface" where
  "fill_mtu sys name i = (case mtu_of sys True name of Inr m \<Rightarrow> i\<lparr>if_mtu := Some m\<rparr> | Inl _ \<Rightarrow> i)"

definition fill_flags :: "net_system \<Rightarrow> string \<Rightarrow> interface \<Rightarrow> interface" where
  "fill_flags sys name i = (if have_ioctl_flags sys
     then case flags_of sys True name of Inr f \<Rightarrow> i\<lparr>if_flagbits := f\<rparr> | Inl _ \<Rightarrow> i else i)"

definition fill_interface :: "net_system \<Rightarrow> string option \<Rightarrow> string \<Rightarrow> interfaces \<Rightarrow> interfaces" where
  "fill_interface sys query name ifs = (case ifs name of None \<Rightarrow> ifs
     | Some i \<Rightarrow> if query = None \<or> query = Some name then
         ifs(name \<mapsto> fill_flags sys name (fill_mtu sys name (fill_vlan sys ifs name (fill_hw_addr sys name (fill_alias sys name i)))))
       else ifs)"

text \<open>\<open>names\<close> are the keys of the map in its order, \<open>sock\<close> says whether the socket could be opened.\<close>

definition query_net_interfaces_filter :: "net_system \<Rightarrow> (if_flag \<Rightarrow> 32 word) \<Rightarrow> ifaddrs list \<Rightarrow> string list \<Rightarrow> bool \<Rightarrow> string option \<Rightarrow> interfaces" where
  "query_net_interfaces_filter sys IFF l names sock query =
     (if have_getifaddrs sys then
        let ifs = query_getifaddrs IFF l Map.empty in
        if sock then fold (fill_interface sys query) names ifs else ifs
      else Map.empty)"

definition query_net_interfaces :: "net_system \<Rightarrow> (if_flag \<Rightarrow> 32 word) \<Rightarrow> ifaddrs list \<Rightarrow> string list \<Rightarrow> bool \<Rightarrow> interfaces" where
  "query_net_interfaces sys IFF l names sock = query_net_interfaces_filter sys IFF l names sock None"

definition query_net_interface :: "net_system \<Rightarrow> (if_flag \<Rightarrow> 32 word) \<Rightarrow> ifaddrs list \<Rightarrow> string list \<Rightarrow> bool \<Rightarrow> string \<Rightarrow> interface option" where
  "query_net_interface sys IFF l names sock name =
     (case query_net_interfaces_filter sys IFF l names sock (Some name) name of None \<Rightarrow> None | Some intf \<Rightarrow> Some intf)"

section \<open>Names of the host\<close>

text \<open>\<open>name\<close> is the array of 255 bytes that the system filled, or None when the call failed.\<close>

definition host_length :: "string \<Rightarrow> nat" where
  "host_length hostname = length (takeWhile (\<lambda>c. \<not> (c = CHR ''.'' \<or> c = CHR 0x00)) hostname)"

definition gethostname :: "string option \<Rightarrow> string option" where
  "gethostname name = (case name of None \<Rightarrow> None | Some hostname \<Rightarrow> Some (take (host_length hostname) hostname))"

text \<open>\<open>h_name\<close> of each entry of the host data base, as a C string or a null pointer.\<close>

fun domain_loop :: "string \<Rightarrow> string option list \<Rightarrow> string option" where
  "domain_loop hostname [] = None"
| "domain_loop hostname (h # hs) = (case h of
       Some h_name \<Rightarrow>
         if take (length hostname) h_name = hostname \<and> length hostname < length h_name \<and> h_name ! length hostname = CHR ''.''
         then Some (drop (length hostname + 1) h_name)
         else domain_loop hostname hs
     | None \<Rightarrow> domain_loop hostname hs)"

definition getdomainname_hostent :: "string option \<Rightarrow> string option list \<Rightarrow> string option" where
  "getdomainname_hostent name hosts = (case gethostname name of None \<Rightarrow> None | Some hostname \<Rightarrow> domain_loop hostname hosts)"

text \<open>\<open>getaddrinfo\<close> answers the addresses of a name, \<open>getnameinfo\<close> the name of each, where it has one.\<close>

fun first_name :: "string option list \<Rightarrow> string option" where
  "first_name [] = None"
| "first_name (n # ns) = (case n of Some resolved \<Rightarrow> Some (takeWhile (\<lambda>c. c \<noteq> CHR 0x00) resolved) | None \<Rightarrow> first_name ns)"

definition getdomainname_nameinfo :: "(string \<Rightarrow> string option list option) \<Rightarrow> string option \<Rightarrow> string option" where
  "getdomainname_nameinfo resolve name = (case gethostname name of None \<Rightarrow> None
     | Some hostname \<Rightarrow> (case resolve hostname of None \<Rightarrow> None | Some names \<Rightarrow> first_name names))"


section \<open>What is known of an interface\<close>

definition base_ok :: "ifaddrs list \<Rightarrow> string \<Rightarrow> interface \<Rightarrow> bool" where
  "base_ok l n i \<longleftrightarrow> if_name i = n \<and> set (map ip_addr (if_inet i)) = set (inet_of n l) \<and>
     (ether_of n l \<noteq> [] \<longrightarrow> if_hwaddr i = Some (hd (ether_of n l)))"

definition listed_ok :: "ifaddrs list \<Rightarrow> string \<Rightarrow> interface \<Rightarrow> bool" where
  "listed_ok l n i \<longleftrightarrow> if_mtu i = None \<and> if_vlan_of i = None \<and> (ether_of n l = [] \<longrightarrow> if_hwaddr i = None)"

definition right_of :: "'e + 'a \<Rightarrow> 'a option" where
  "right_of r = (case r of Inl _ \<Rightarrow> None | Inr x \<Rightarrow> Some x)"

text \<open>The number of a VLAN is kept when it is one of IEEE 802.1q.\<close>

definition filled_ok :: "net_system \<Rightarrow> ifaddrs list \<Rightarrow> string \<Rightarrow> interface \<Rightarrow> bool" where
  "filled_ok sys l n i \<longleftrightarrow>
     if_mtu i = right_of (mtu_of sys True n) \<and>
     if_vlan_of i = (if have_vlan sys then case vlan_of sys True n of Inr v \<Rightarrow> if vl_id v \<le> 4095 then Some v else None | Inl _ \<Rightarrow> None else None) \<and>
     (have_hwaddr sys \<and> ether_of n l = [] \<longrightarrow> if_hwaddr i = right_of (hw_addr_of sys True n)) \<and>
     (\<forall>v. \<not> have_hwaddr sys \<and> have_vlan sys \<and> ether_of n l = [] \<and> vlan_of sys True n = Inr v \<and> vl_parent v \<noteq> n \<and> ether_of (vl_parent v) l \<noteq> [] \<longrightarrow>
        if_hwaddr i = Some (hd (ether_of (vl_parent v) l)))"

lemma fill_simps [simp]:
  "if_name (fill_alias sys n i) = if_name i" "if_inet (fill_alias sys n i) = if_inet i" "if_hwaddr (fill_alias sys n i) = if_hwaddr i"
  "if_mtu (fill_alias sys n i) = if_mtu i" "if_vlan_of (fill_alias sys n i) = if_vlan_of i"
  "if_name (fill_hw_addr sys n i) = if_name i" "if_inet (fill_hw_addr sys n i) = if_inet i"
  "if_mtu (fill_hw_addr sys n i) = if_mtu i" "if_vlan_of (fill_hw_addr sys n i) = if_vlan_of i"
  "if_name (fill_mtu sys n i) = if_name i" "if_inet (fill_mtu sys n i) = if_inet i" "if_hwaddr (fill_mtu sys n i) = if_hwaddr i"
  "if_vlan_of (fill_mtu sys n i) = if_vlan_of i"
  "if_name (fill_flags sys n i) = if_name i" "if_inet (fill_flags sys n i) = if_inet i" "if_hwaddr (fill_flags sys n i) = if_hwaddr i"
  "if_mtu (fill_flags sys n i) = if_mtu i" "if_vlan_of (fill_flags sys n i) = if_vlan_of i"
  by (simp_all add: fill_alias_def fill_hw_addr_def fill_mtu_def fill_flags_def split: sum.splits)

lemma set_vlan_simps [simp]:
  "if_name (snd (set_vlan v i)) = if_name i" "if_inet (snd (set_vlan v i)) = if_inet i" "if_hwaddr (snd (set_vlan v i)) = if_hwaddr i"
  "if_mtu (snd (set_vlan v i)) = if_mtu i"
  by (simp_all add: set_vlan_def split: option.splits)

lemma fill_vlan_simps [simp]:
  "if_name (fill_vlan sys ifs n i) = if_name i" "if_inet (fill_vlan sys ifs n i) = if_inet i" "if_mtu (fill_vlan sys ifs n i) = if_mtu i"
  by (simp_all add: fill_vlan_def Let_def split: sum.splits option.splits)

lemma fill_vlan_keeps_hw: "if_hwaddr i = Some m \<Longrightarrow> if_hwaddr (fill_vlan sys ifs n i) = Some m"
  by (simp add: fill_vlan_def Let_def split: sum.splits option.splits)

lemma fill_hw_addr_hw: "if_hwaddr (fill_hw_addr sys n i) =
    (if have_hwaddr sys \<and> if_hwaddr i = None then right_of (hw_addr_of sys True n) else if_hwaddr i)"
  by (simp add: fill_hw_addr_def right_of_def split: sum.splits)

lemma fill_vlan_vlan: "if_vlan_of i = None \<Longrightarrow> if_vlan_of (fill_vlan sys ifs n i) =
    (if have_vlan sys then case vlan_of sys True n of Inr v \<Rightarrow> if vl_id v \<le> 4095 then Some v else None | Inl _ \<Rightarrow> None else None)"
  by (auto simp: fill_vlan_def set_vlan_def Let_def split: sum.splits option.splits)

lemma fill_mtu_mtu: "if_mtu i = None \<Longrightarrow> if_mtu (fill_mtu sys n i) = right_of (mtu_of sys True n)"
  by (simp add: fill_mtu_def right_of_def split: sum.splits)

lemma fill_vlan_asked: "have_hwaddr sys \<Longrightarrow> if_hwaddr (fill_vlan sys ifs n i) = if_hwaddr i"
  by (simp add: fill_vlan_def Let_def split: sum.splits)

lemma fill_vlan_parent:
  assumes "\<not> have_hwaddr sys" "have_vlan sys" "if_hwaddr i = None" "vlan_of sys True n = Inr v" "vl_parent v \<noteq> n"
    "ifs (vl_parent v) = Some p" "if_hwaddr p = Some m"
  shows "if_hwaddr (fill_vlan sys ifs n i) = Some m"
  using assms by (simp add: fill_vlan_def Let_def)


definition filling :: "net_system \<Rightarrow> ifaddrs list \<Rightarrow> string set \<Rightarrow> interfaces \<Rightarrow> bool" where
  "filling sys l filled ifs \<longleftrightarrow> dom ifs = ifa_name ` set l \<and>
     (\<forall>n i. ifs n = Some i \<longrightarrow> base_ok l n i \<and> (if n \<in> filled then filled_ok sys l n i else listed_ok l n i))"

lemma ether_of_dom: "ether_of n l \<noteq> [] \<Longrightarrow> n \<in> ifa_name ` set l"
  by (force simp: ether_of_def filter_empty_conv)

lemma filling_dom: "filling sys l filled ifs \<Longrightarrow> n \<in> ifa_name ` set l \<Longrightarrow> \<exists>i. ifs n = Some i"
  unfolding filling_def by (metis domD)

lemma filled_interface:
  assumes "filling sys l filled ifs" "ifs n = Some i" "n \<notin> filled"
  defines "j \<equiv> fill_flags sys n (fill_mtu sys n (fill_vlan sys ifs n (fill_hw_addr sys n (fill_alias sys n i))))"
  shows "base_ok l n j \<and> filled_ok sys l n j"
proof -
  let ?h = "fill_hw_addr sys n (fill_alias sys n i)"
  from assms(1-3) have b: "base_ok l n i" and e: "listed_ok l n i" by (auto simp: filling_def)
  have hw: "if_hwaddr ?h = Some (hd (ether_of n l))" if "ether_of n l \<noteq> []" using that b by (simp add: base_ok_def fill_hw_addr_hw)
  have base: "base_ok l n j" using b fill_vlan_keeps_hw [OF hw] by (simp add: base_ok_def j_def)
  have asked: "if_hwaddr j = right_of (hw_addr_of sys True n)" if "have_hwaddr sys" "ether_of n l = []"
    using that e by (simp add: j_def fill_vlan_asked fill_hw_addr_hw listed_ok_def)
  have parent: "if_hwaddr j = Some (hd (ether_of (vl_parent v) l))"
    if v: "\<not> have_hwaddr sys" "have_vlan sys" "ether_of n l = []" "vlan_of sys True n = Inr v" "vl_parent v \<noteq> n" "ether_of (vl_parent v) l \<noteq> []" for v
  proof -
    obtain p where p: "ifs (vl_parent v) = Some p" using filling_dom [OF assms(1) ether_of_dom [OF v(6)]] by blast
    then have "if_hwaddr p = Some (hd (ether_of (vl_parent v) l))" using assms(1) v(6) by (simp add: filling_def base_ok_def)
    moreover have "if_hwaddr ?h = None" using v(1,3) e by (simp add: fill_hw_addr_hw listed_ok_def)
    ultimately show ?thesis using fill_vlan_parent [of sys ?h n v ifs p] v p by (simp add: j_def)
  qed
  have "if_mtu j = right_of (mtu_of sys True n)" using e by (simp add: j_def fill_mtu_mtu listed_ok_def)
  moreover have "if_vlan_of j = (if have_vlan sys then case vlan_of sys True n of Inr v \<Rightarrow> if vl_id v \<le> 4095 then Some v else None | Inl _ \<Rightarrow> None else None)"
    using e by (simp add: j_def fill_vlan_vlan listed_ok_def)
  ultimately show ?thesis using base asked parent by (simp add: filled_ok_def)
qed

lemma fill_interface_filling:
  assumes "filling sys l filled ifs" "n \<notin> filled" "n \<in> ifa_name ` set l"
  shows "filling sys l (insert n filled) (fill_interface sys None n ifs)"
proof -
  obtain i where i: "ifs n = Some i" using filling_dom [OF assms(1,3)] by blast
  from filled_interface [OF assms(1) i assms(2)] show ?thesis
    using assms(1,3) by (auto simp: fill_interface_def i filling_def)
qed

lemma fold_filling:
  "filling sys l filled ifs \<Longrightarrow> distinct names \<Longrightarrow> set names \<inter> filled = {} \<Longrightarrow> set names \<subseteq> ifa_name ` set l \<Longrightarrow>
   filling sys l (filled \<union> set names) (fold (fill_interface sys None) names ifs)"
proof (induction names arbitrary: filled ifs)
  case (Cons n names)
  have "filling sys l (insert n filled) (fill_interface sys None n ifs)"
    by (rule fill_interface_filling) (use Cons.prems in auto)
  from Cons.IH [OF this] Cons.prems show ?case by auto
qed simp

definition not_asked :: "interface \<Rightarrow> bool" where
  "not_asked i \<longleftrightarrow> if_mtu i = None \<and> if_vlan_of i = None"

lemma add_ifaddr_listed:
  assumes "\<forall>n i. ifs n = Some i \<longrightarrow> not_asked i"
  shows "\<forall>n i. add_ifaddr IFF x ifs n = Some i \<longrightarrow> not_asked i"
proof -
  define k where "k = (case ifs (ifa_name x) of None \<Rightarrow> interface_new (ifa_name x) | Some i \<Rightarrow> i)"
  have "not_asked k" using assms by (simp add: k_def not_asked_def interface_new_def split: option.split)
  then have "\<exists>j. add_ifaddr IFF x ifs = ifs(ifa_name x \<mapsto> j) \<and> not_asked j"
    by (auto simp: add_ifaddr_def Let_def k_def [symmetric] not_asked_def split: option.split sa_addr.split)
  then show ?thesis using assms by (auto split: if_splits)
qed

lemma query_getifaddrs_listed: "\<forall>n i. query_getifaddrs IFF l Map.empty n = Some i \<longrightarrow> not_asked i"
proof (induction l rule: rev_induct)
  case (snoc x l)
  then show ?case using add_ifaddr_listed [of "query_getifaddrs IFF l Map.empty" IFF x] by (simp add: query_getifaddrs_def)
qed (simp add: query_getifaddrs_def)

lemma query_getifaddrs_filling: "filling sys l {} (query_getifaddrs IFF l Map.empty)"
  using query_getifaddrs_inv [of l IFF] query_getifaddrs_listed [of IFF l]
  by (auto simp: filling_def getifaddrs_inv_def base_ok_def listed_ok_def not_asked_def neq_Nil_conv)

text \<open>The interfaces that the system lists are returned, each with its IPv4 addresses and the Ethernet address that the
  list has for it; completed by the MTU, by the VLAN if its number is valid, and, where the list has no Ethernet
  address, by the one that the system answers or, where it cannot be asked, by the one of the VLAN's parent.  This does not
  depend on the order in which the interfaces are completed.\<close>

theorem query_net_interfaces_filled:
  assumes "have_getifaddrs sys" "distinct names" "set names = ifa_name ` set l"
  shows "dom (query_net_interfaces sys IFF l names True) = ifa_name ` set l \<and>
    (\<forall>n i. query_net_interfaces sys IFF l names True n = Some i \<longrightarrow> base_ok l n i \<and> filled_ok sys l n i)"
proof -
  have "filling sys l (set names) (query_net_interfaces sys IFF l names True)"
    using fold_filling [OF query_getifaddrs_filling [of sys l IFF] assms(2)] assms(1,3)
    by (simp add: query_net_interfaces_def query_net_interfaces_filter_def)
  then show ?thesis using assms(3) unfolding filling_def by (metis domI)
qed


text \<open>A system with a VLAN that has no address of its own.\<close>

definition vlan_system :: net_system where
  "vlan_system = \<lparr>have_getifaddrs = True, have_frndlynam = False, have_hwaddr = False, have_vlan = True, have_ioctl_flags = False,
     friendly_name_of = (\<lambda>_ _. Inl ENOSYS), hw_addr_of = (\<lambda>_ _. Inl ENOSYS),
     vlan_of = query_vlan_bsd (\<lambda>n. if n = ''vlan5'' then Inr (''en0'', 5) else Inl ENOTSUP),
     mtu_of = query_mtu (\<lambda>n. Inr 1500), flags_of = (\<lambda>_ _. Inl ENOSYS)\<rparr>"

definition vlan_list :: "ifaddrs list" where
  "vlan_list = [\<lparr>ifa_name = ''vlan5'', ifa_flags = 1, ifa_addr = Some (Sa_inet 0x0100000A), ifa_netmask = None, ifa_broadaddr = None, ifa_dstaddr = None\<rparr>,
     \<lparr>ifa_name = ''en0'', ifa_flags = 1, ifa_addr = Some (Sa_link_ether (Ether_addr 2 0 0 0 0 1)), ifa_netmask = None, ifa_broadaddr = None, ifa_dstaddr = None\<rparr>]"

lemma query_net_interfaces_filled_witness:
  "dom (query_net_interfaces vlan_system if_flags vlan_list [''en0'', ''vlan5''] True) = {''vlan5'', ''en0''} \<and>
   map_option if_hwaddr (query_net_interfaces vlan_system if_flags vlan_list [''en0'', ''vlan5''] True ''vlan5'') = Some (Some (Ether_addr 2 0 0 0 0 1)) \<and>
   map_option if_mtu (query_net_interfaces vlan_system if_flags vlan_list [''en0'', ''vlan5''] True ''vlan5'') = Some (Some 1500)"
proof -
  let ?q = "query_net_interfaces vlan_system if_flags vlan_list [''en0'', ''vlan5''] True"
  have n0: "ifa_name ` set vlan_list = {''vlan5'', ''en0''}" by (simp add: vlan_list_def)
  then have n1: "set [''en0'', ''vlan5''] = ifa_name ` set vlan_list" by auto
  have n2: "have_getifaddrs vlan_system" "distinct [''en0'', ''vlan5'']" by (simp_all add: vlan_system_def)
  note f = query_net_interfaces_filled [OF n2 n1, of if_flags]
  have q: "dom ?q = {''vlan5'', ''en0''}" using conjunct1 [OF f] unfolding n0 .
  have q2: "filled_ok vlan_system vlan_list n i" if "?q n = Some i" for n i
    by (rule conjunct2 [OF mp [OF spec [OF spec [OF conjunct2 [OF f]]] that]])
  from q have "''vlan5'' \<in> dom ?q" by simp
  then obtain i where i: "?q ''vlan5'' = Some i" by blast
  have n: "ifr_name ''vlan5'' = ''vlan5''" by code_simp
  from q2 [OF i] have "if_hwaddr i = Some (Ether_addr 2 0 0 0 0 1)" "if_mtu i = Some 1500"
    by (simp_all add: filled_ok_def vlan_system_def vlan_list_def query_vlan_bsd_def query_mtu_def ether_of_def right_of_def n)
  with q i show ?thesis by simp
qed

text \<open>The domain that the host data base gives is what follows the host's name and a dot in the first entry that has it; what
  the name service gives is the whole name.\<close>

lemma getdomainname_hostent_spec:
  "getdomainname_hostent name hosts = Some d \<Longrightarrow> \<exists>hostname. gethostname name = Some hostname \<and> Some (hostname @ CHR ''.'' # d) \<in> set hosts"
proof -
  have loop: "domain_loop h hosts = Some d \<Longrightarrow> Some (h @ CHR ''.'' # d) \<in> set hosts" for h
  proof (induction h hosts rule: domain_loop.induct)
    case (2 h x hs)
    show ?case
    proof (cases x)
      case None
      then show ?thesis using 2 by simp
    next
      case (Some y)
      show ?thesis
      proof (cases "take (length h) y = h \<and> length h < length y \<and> y ! length h = CHR ''.''")
        case True
        then have "h @ CHR ''.'' # drop (length h + 1) y = y" using id_take_nth_drop [of "length h" y] by simp
        then show ?thesis using 2(3) True Some by simp
      next
        case False
        with 2(3) have "domain_loop h hs = Some d" unfolding Some domain_loop.simps option.case by (metis (no_types))
        then show ?thesis using 2(2) [OF Some False] by simp
      qed
    qed
  qed simp
  assume "getdomainname_hostent name hosts = Some d"
  then show ?thesis using loop by (auto simp: getdomainname_hostent_def split: option.splits)
qed

lemma getdomainname_differs:
  "getdomainname_hostent (Some ''h.example.org'') [Some ''h.example.org''] = Some ''example.org''"
  "getdomainname_nameinfo (\<lambda>h. Some [Some (h @ ''.example.org'')]) (Some ''h.example.org'') = Some ''h.example.org''"
  by code_simp+

end
