(* ===== verification/UdpSocket.thy ===== *)
theory UdpSocket
  imports Net
begin

text \<open>
  The UDP socket of \<open>libunet\<close> (\<open>udp.cpp\<close>) and the file descriptor it owns
  (\<open>ubench/file.h\<close>).  The system is a function of the calls made so far and the next call;
  every call is recorded with its result, so that what an object owns can be read off the record.
  A successful \<open>getsockopt\<close> results in the value that it stores, the other calls in what they return.
  A scope that leaves with an error closes the descriptor it holds.
\<close>

section \<open>System calls\<close>

datatype sockopt = SO_SNDBUF | IP_MULTICAST_LOOP | IP_MULTICAST_IF | IP_MULTICAST_TTL | SO_REUSEADDR | SO_REUSEPORT | IP_OPTIONS

datatype syscall =
    Sys_socket
  | Sys_getsockopt int sockopt
  | Sys_setsockopt int sockopt int
  | Sys_bind int sockaddr_in
  | Sys_connect int sockaddr_in
  | Sys_send int "byte list"
  | Sys_sendto int sockaddr_in "byte list"
  | Sys_close int

type_synonym errno = int
type_synonym trace = "(syscall \<times> (errno + int)) list"
type_synonym os = "trace \<Rightarrow> syscall \<Rightarrow> errno + int"
type_synonym 'a sys = "(trace, errno, 'a) eff"

abbreviation (input) "EINVAL \<equiv> 22 :: int"
abbreviation (input) "ENOTSUP \<equiv> 95 :: int"

definition syscall :: "os \<Rightarrow> syscall \<Rightarrow> int sys" where
  "syscall os c tr = (os tr c, tr @ [(c, os tr c)])"

section \<open>fdesc\<close>

definition fdesc_close :: "os \<Rightarrow> int \<Rightarrow> trace \<Rightarrow> bool \<times> int \<times> trace" where
  "fdesc_close os fd tr =
     (let is_opened = fd \<noteq> -1; tr = (if is_opened then snd (syscall os (Sys_close fd) tr) else tr)
      in (is_opened, -1, tr))"

text \<open>\<open>*this = std::move(other)\<close>: the two descriptors afterwards.\<close>

definition fdesc_move_assign :: "os \<Rightarrow> int \<Rightarrow> int \<Rightarrow> trace \<Rightarrow> int \<times> int \<times> trace" where
  "fdesc_move_assign os fd other tr =
     (case (if fd \<noteq> other then (case fdesc_close os fd tr of (_, _, tr) \<Rightarrow> (other, tr)) else (fd, tr)) of
        (fd, tr) \<Rightarrow> (fd, -1, tr))"

definition fdesc_assign_int :: "os \<Rightarrow> int \<Rightarrow> int \<Rightarrow> trace \<Rightarrow> int \<times> trace" where
  "fdesc_assign_int os fd new tr = (case fdesc_close os fd tr of (_, _, tr) \<Rightarrow> (new, tr))"

definition fdesc_reset :: "int \<Rightarrow> int \<times> int" where
  "fdesc_reset fd = (let fd = -1 in (fd, fd))"

text \<open>A local \<open>fdesc\<close> that is moved out at the end of \<open>m\<close>: it is closed when \<open>m\<close> leaves early.\<close>

definition scoped_fd :: "os \<Rightarrow> int \<Rightarrow> 'a sys \<Rightarrow> 'a sys" where
  "scoped_fd os fd m tr = (case m tr of
       (Inl e, tr) \<Rightarrow> (Inl e, snd (snd (fdesc_close os fd tr)))
     | (Inr x, tr) \<Rightarrow> (Inr x, tr))"

section \<open>The calls behind the class\<close>

definition is_valid_sockaddr :: "sockaddr_in \<Rightarrow> bool" where
  "is_valid_sockaddr a \<longleftrightarrow> sin_family a = AF_INET \<and> sin_addr a \<noteq> -1 \<and> sin_addr a \<noteq> 0"

definition is_valid_bind_addr :: "sockaddr_in \<Rightarrow> bool" where
  "is_valid_bind_addr a \<longleftrightarrow> sin_family a = AF_INET \<and> sin_addr a \<noteq> -1"

definition sys_set :: "os \<Rightarrow> int \<Rightarrow> sockopt \<Rightarrow> int \<Rightarrow> unit sys" where
  "sys_set os fd opt v = ebind (syscall os (Sys_setsockopt fd opt v)) (\<lambda>_. eret ())"

definition internal_set_sendbuf :: "os \<Rightarrow> int \<Rightarrow> int \<Rightarrow> unit sys" where
  "internal_set_sendbuf os fd buf = (if buf \<le> 0 then ethrow EINVAL else sys_set os fd SO_SNDBUF buf)"

definition internal_set_multicast_loopback :: "os \<Rightarrow> int \<Rightarrow> bool \<Rightarrow> unit sys" where
  "internal_set_multicast_loopback os fd enable = sys_set os fd IP_MULTICAST_LOOP (if enable then 1 else 0)"

definition internal_multicast_register_interface :: "os \<Rightarrow> int \<Rightarrow> in_addr \<Rightarrow> unit sys" where
  "internal_multicast_register_interface os fd local =
     (if local = -1 then ethrow EINVAL else sys_set os fd IP_MULTICAST_IF (uint local))"

definition internal_set_multicast_ttl :: "os \<Rightarrow> int \<Rightarrow> 8 word \<Rightarrow> unit sys" where
  "internal_set_multicast_ttl os fd ttl = (if ttl \<le> 0 then ethrow EINVAL else sys_set os fd IP_MULTICAST_TTL (uint ttl))"

definition internal_set_reuse_addr :: "os \<Rightarrow> int \<Rightarrow> bool \<Rightarrow> unit sys" where
  "internal_set_reuse_addr os fd enable = sys_set os fd SO_REUSEADDR (if enable then 1 else 0)"

definition internal_set_reuse_port :: "os \<Rightarrow> int \<Rightarrow> bool \<Rightarrow> unit sys" where
  "internal_set_reuse_port os fd enable = sys_set os fd SO_REUSEPORT (if enable then 1 else 0)"

definition internal_get :: "os \<Rightarrow> int \<Rightarrow> sockopt \<Rightarrow> int sys" where
  "internal_get os fd opt = syscall os (Sys_getsockopt fd opt)"

definition internal_get_bool :: "os \<Rightarrow> int \<Rightarrow> sockopt \<Rightarrow> bool sys" where
  "internal_get_bool os fd opt = ebind (syscall os (Sys_getsockopt fd opt)) (\<lambda>v. eret (v \<noteq> 0))"

definition internal_ipv4hdr_length :: "os \<Rightarrow> int \<Rightarrow> int sys" where
  "internal_ipv4hdr_length os fd tr = (case syscall os (Sys_getsockopt fd IP_OPTIONS) tr of
       (Inl _, tr) \<Rightarrow> (Inr 20, tr) | (Inr options_len, tr) \<Rightarrow> (Inr (20 + options_len), tr))"

definition internal_bind :: "os \<Rightarrow> int \<Rightarrow> sockaddr_in \<Rightarrow> unit sys" where
  "internal_bind os fd a = ebind (syscall os (Sys_bind fd a)) (\<lambda>_. eret ())"

definition internal_connect :: "os \<Rightarrow> int \<Rightarrow> sockaddr_in \<Rightarrow> unit sys" where
  "internal_connect os fd a = ebind (syscall os (Sys_connect fd a)) (\<lambda>_. eret ())"

section \<open>The class\<close>

record udp =
  u_socket :: int
  u_reuse_port :: bool
  u_reuse_addr :: bool

definition udp_new :: udp where
  "udp_new = \<lparr>u_socket = -1, u_reuse_port = False, u_reuse_addr = False\<rparr>"

text \<open>Which options the platform has.\<close>

record platform =
  have_reuseaddr :: bool
  have_reuseport :: bool

type_synonym 'a udp_m = "(udp \<times> trace, errno, 'a) eff"

definition on_socket :: "(int \<Rightarrow> 'a sys) \<Rightarrow> 'a udp_m" where
  "on_socket m = ebind (eget (\<lambda>s. u_socket (fst s)))
     (\<lambda>fd. if fd = -1 then ethrow EINVAL else ezoom snd (\<lambda>t s. (fst s, t)) (m fd))"

definition get_sendbuf :: "os \<Rightarrow> int udp_m" where
  "get_sendbuf os = on_socket (\<lambda>fd. internal_get os fd SO_SNDBUF)"

definition set_sendbuf :: "os \<Rightarrow> int \<Rightarrow> unit udp_m" where
  "set_sendbuf os buf = on_socket (\<lambda>fd. if buf \<le> 0 then ethrow EINVAL else internal_set_sendbuf os fd buf)"

definition get_multicast_loopback :: "os \<Rightarrow> bool udp_m" where
  "get_multicast_loopback os = on_socket (\<lambda>fd. internal_get_bool os fd IP_MULTICAST_LOOP)"

definition set_multicast_loopback :: "os \<Rightarrow> bool \<Rightarrow> unit udp_m" where
  "set_multicast_loopback os enable = on_socket (\<lambda>fd. internal_set_multicast_loopback os fd enable)"

definition multicast_register_interface_in_addr :: "os \<Rightarrow> in_addr \<Rightarrow> unit udp_m" where
  "multicast_register_interface_in_addr os local = on_socket (\<lambda>fd. internal_multicast_register_interface os fd local)"

definition multicast_register_interface :: "os \<Rightarrow> sockaddr_in \<Rightarrow> unit udp_m" where
  "multicast_register_interface os local =
     on_socket (\<lambda>fd. if \<not> is_valid_bind_addr local then ethrow EINVAL else internal_multicast_register_interface os fd (sin_addr local))"

definition get_multicast_ttl :: "os \<Rightarrow> int udp_m" where
  "get_multicast_ttl os = on_socket (\<lambda>fd. internal_get os fd IP_MULTICAST_TTL)"

definition set_multicast_ttl :: "os \<Rightarrow> 8 word \<Rightarrow> unit udp_m" where
  "set_multicast_ttl os ttl = on_socket (\<lambda>fd. internal_set_multicast_ttl os fd ttl)"

definition get_reuse_addr :: "platform \<Rightarrow> os \<Rightarrow> bool udp_m" where
  "get_reuse_addr pf os s =
     (if \<not> have_reuseaddr pf then (Inl ENOTSUP, s)
      else if u_socket (fst s) \<noteq> -1 then on_socket (\<lambda>fd. internal_get_bool os fd SO_REUSEADDR) s
      else (Inr (u_reuse_addr (fst s)), s))"

definition set_reuse_addr :: "platform \<Rightarrow> bool \<Rightarrow> unit udp_m" where
  "set_reuse_addr pf enable s =
     (if \<not> have_reuseaddr pf then (Inl ENOTSUP, s)
      else if u_socket (fst s) \<noteq> -1 then (Inl EINVAL, s)
      else (Inr (), ((fst s)\<lparr>u_reuse_addr := enable\<rparr>, snd s)))"

definition get_reuse_port :: "platform \<Rightarrow> os \<Rightarrow> bool udp_m" where
  "get_reuse_port pf os s =
     (if \<not> have_reuseport pf then (Inl ENOTSUP, s)
      else if u_socket (fst s) \<noteq> -1 then on_socket (\<lambda>fd. internal_get_bool os fd SO_REUSEPORT) s
      else (Inr (u_reuse_port (fst s)), s))"

definition set_reuse_port :: "platform \<Rightarrow> bool \<Rightarrow> unit udp_m" where
  "set_reuse_port pf enable s =
     (if \<not> have_reuseport pf then (Inl ENOTSUP, s)
      else if u_socket (fst s) \<noteq> -1 then (Inl EINVAL, s)
      else (Inr (), ((fst s)\<lparr>u_reuse_port := enable\<rparr>, snd s)))"

definition ipv4hdr_length :: "os \<Rightarrow> int udp_m" where
  "ipv4hdr_length os = on_socket (\<lambda>fd. internal_ipv4hdr_length os fd)"

text \<open>The descriptor that the body of \<open>open\<close> ends with is moved into the object.\<close>

definition take_socket :: "int sys \<Rightarrow> unit udp_m" where
  "take_socket m s = (case m (snd s) of
       (Inl e, tr) \<Rightarrow> (Inl e, (fst s, tr))
     | (Inr fd, tr) \<Rightarrow> (Inr (), ((fst s)\<lparr>u_socket := fd\<rparr>, tr)))"

definition udp_open :: "platform \<Rightarrow> os \<Rightarrow> sockaddr_in \<Rightarrow> unit udp_m" where
  "udp_open pf os bnd s =
     (if u_socket (fst s) \<noteq> -1 then (Inl EINVAL, s)
      else if \<not> is_valid_bind_addr bnd then (Inl EINVAL, s)
      else take_socket (ebind (syscall os Sys_socket) (\<lambda>fd. scoped_fd os fd
         (ethen (if have_reuseaddr pf \<and> u_reuse_addr (fst s) then internal_set_reuse_addr os fd (u_reuse_addr (fst s)) else eret ())
         (ethen (if have_reuseport pf \<and> u_reuse_port (fst s) then internal_set_reuse_port os fd (u_reuse_port (fst s)) else eret ())
         (ethen (internal_bind os fd bnd) (eret fd)))))) s)"

definition udp_open_dest :: "os \<Rightarrow> sockaddr_in \<Rightarrow> sockaddr_in \<Rightarrow> unit udp_m" where
  "udp_open_dest os bnd dest s =
     (if u_socket (fst s) \<noteq> -1 then (Inl EINVAL, s)
      else if \<not> is_valid_bind_addr bnd then (Inl EINVAL, s)
      else if \<not> is_valid_sockaddr dest then (Inl EINVAL, s)
      else take_socket (ebind (syscall os Sys_socket) (\<lambda>fd. scoped_fd os fd
         (ethen (internal_bind os fd bnd)
         (ethen (internal_connect os fd dest)
         (ethen (if is_multicast (sin_addr dest) then internal_multicast_register_interface os fd (sin_addr bnd) else eret ())
           (eret fd)))))) s)"

definition udp_close :: "os \<Rightarrow> unit udp_m" where
  "udp_close os s = (case fdesc_close os (u_socket (fst s)) (snd s) of
     (_, fd, tr) \<Rightarrow> (Inr (), ((fst s)\<lparr>u_socket := fd\<rparr>, tr)))"

definition udp_send :: "os \<Rightarrow> byte list \<Rightarrow> int udp_m" where
  "udp_send os payload = on_socket (\<lambda>fd. syscall os (Sys_send fd payload))"

definition udp_send_dest :: "os \<Rightarrow> sockaddr_in \<Rightarrow> byte list \<Rightarrow> int udp_m" where
  "udp_send_dest os dest payload = on_socket (\<lambda>fd. if \<not> is_valid_sockaddr dest then ethrow EINVAL
     else syscall os (Sys_sendto fd dest payload))"

section \<open>What is open\<close>

text \<open>The descriptors that a trace leaves open, and whether every call was made on an open one.\<close>

fun live_step :: "syscall \<times> (errno + int) \<Rightarrow> int set \<Rightarrow> int set" where
  "live_step (Sys_socket, Inr fd) L = insert fd L"
| "live_step (Sys_close fd, _) L = L - {fd}"
| "live_step _ L = L"

definition live :: "trace \<Rightarrow> int set" where
  "live tr = fold live_step tr {}"

fun fd_of :: "syscall \<Rightarrow> int option" where
  "fd_of Sys_socket = None"
| "fd_of (Sys_getsockopt fd _) = Some fd"
| "fd_of (Sys_setsockopt fd _ _) = Some fd"
| "fd_of (Sys_bind fd _) = Some fd"
| "fd_of (Sys_connect fd _) = Some fd"
| "fd_of (Sys_send fd _) = Some fd"
| "fd_of (Sys_sendto fd _ _) = Some fd"
| "fd_of (Sys_close fd) = Some fd"

definition uses_ok :: "trace \<Rightarrow> bool" where
  "uses_ok tr \<longleftrightarrow> (\<forall>i < length tr. \<forall>fd. fd_of (fst (tr ! i)) = Some fd \<longrightarrow> fd \<in> live (take i tr))"

definition owned :: "int set \<Rightarrow> trace \<Rightarrow> bool" where
  "owned L tr \<longleftrightarrow> uses_ok tr \<and> live tr = L"

lemma live_snoc [simp]: "live (tr @ [x]) = live_step x (live tr)"
  by (simp add: live_def)

lemma uses_ok_snoc [simp]:
  "uses_ok (tr @ [(c, r)]) \<longleftrightarrow> uses_ok tr \<and> (\<forall>fd. fd_of c = Some fd \<longrightarrow> fd \<in> live tr)"
  by (auto simp: uses_ok_def less_Suc_eq nth_append)

lemma owned_nil [simp]: "owned L [] \<longleftrightarrow> L = {}"
  by (auto simp: owned_def uses_ok_def live_def)

lemma keeps_syscall [intro]:
  assumes "fd_of c = Some fd" "fd \<in> L" "\<And>fd. c \<noteq> Sys_close fd"
  shows "keeps (owned L) (syscall os c)"
  using assms by (cases c; intro keepsI) (auto simp: owned_def syscall_def)

lemma owned_close:
  assumes "owned L tr" "fd = -1 \<or> fd \<in> L"
  shows "owned (L - {x. x = fd \<and> fd \<noteq> -1}) (snd (snd (fdesc_close os fd tr)))"
  using assms by (auto simp: owned_def fdesc_close_def syscall_def Let_def)

text \<open>What the system promises: a new descriptor is valid and not already open.\<close>

definition os_fresh :: "os \<Rightarrow> bool" where
  "os_fresh os \<longleftrightarrow> (\<forall>tr fd. os tr Sys_socket = Inr fd \<longrightarrow> fd \<noteq> -1 \<and> fd \<notin> live tr)"

section \<open>The object owns what is open\<close>

definition udp_owns :: "udp \<times> trace \<Rightarrow> bool" where
  "udp_owns s \<longleftrightarrow> owned (if u_socket (fst s) = -1 then {} else {u_socket (fst s)}) (snd s)"

lemma keeps_on_socket [intro]:
  assumes "\<And>fd. keeps (owned {fd}) (m fd)"
  shows "keeps udp_owns (on_socket m)"
proof (rule keepsI)
  fix s assume s: "udp_owns s"
  show "udp_owns (snd (on_socket m s))"
  proof (cases "u_socket (fst s) = -1")
    case True
    then show ?thesis using s by (simp add: on_socket_def eff_defs)
  next
    case False
    with s keepsD [OF assms [of "u_socket (fst s)"], of "snd s"]
    show ?thesis by (auto simp: on_socket_def eff_defs udp_owns_def split: prod.splits)
  qed
qed

lemma keeps_sys_set [intro]: "fd \<in> L \<Longrightarrow> keeps (owned L) (sys_set os fd opt v)"
  unfolding sys_set_def by (intro keeps_bind keeps_syscall keeps_ret) auto

lemmas internal_defs = internal_set_sendbuf_def internal_set_multicast_loopback_def internal_multicast_register_interface_def
  internal_set_multicast_ttl_def internal_set_reuse_addr_def internal_set_reuse_port_def internal_get_def internal_get_bool_def
  internal_bind_def internal_connect_def

lemma keeps_internal [intro, simp]:
  assumes "fd \<in> L"
  shows "keeps (owned L) (internal_set_sendbuf os fd b)" "keeps (owned L) (internal_set_multicast_loopback os fd e)"
    "keeps (owned L) (internal_multicast_register_interface os fd a)" "keeps (owned L) (internal_set_multicast_ttl os fd t)"
    "keeps (owned L) (internal_set_reuse_addr os fd e)" "keeps (owned L) (internal_set_reuse_port os fd e)"
    "keeps (owned L) (internal_get os fd opt)" "keeps (owned L) (internal_get_bool os fd opt)"
    "keeps (owned L) (internal_bind os fd sa)" "keeps (owned L) (internal_connect os fd sa)"
  using assms unfolding internal_defs by (auto intro!: keeps_bind)

lemma keeps_ipv4hdr_length [intro, simp]:
  assumes "fd \<in> L" shows "keeps (owned L) (internal_ipv4hdr_length os fd)"
proof (rule keepsI)
  fix tr assume "owned L tr"
  then have "owned L (snd (syscall os (Sys_getsockopt fd IP_OPTIONS) tr))"
    by (rule keepsD [OF keeps_syscall, rotated 3]) (use assms in auto)
  then show "owned L (snd (internal_ipv4hdr_length os fd tr))"
    by (auto simp: internal_ipv4hdr_length_def split: prod.splits sum.splits)
qed

text \<open>Opening: the new descriptor is handed over, or closed again.\<close>

lemma scoped_fd_owned:
  assumes "keeps (owned {fd}) m" "owned {fd} tr" "fd \<noteq> -1"
  shows "case scoped_fd os fd (ethen m (eret fd)) tr of (Inl e, tr') \<Rightarrow> owned {} tr' | (Inr fd', tr') \<Rightarrow> fd' = fd \<and> owned {fd} tr'"
proof -
  obtain r tr' where m: "m tr = (r, tr')" by (cases "m tr")
  from keepsD [OF assms(1,2)] m have "owned {fd} tr'" by simp
  moreover from owned_close [OF this, of fd os] assms(3) have "owned {} (snd (snd (fdesc_close os fd tr')))" by simp
  ultimately show ?thesis by (cases r) (auto simp: scoped_fd_def eff_defs m)
qed

lemma take_socket_owns:
  assumes "os_fresh os" "\<And>fd. keeps (owned {fd}) (m fd)" "udp_owns s" "u_socket (fst s) = -1"
  shows "udp_owns (snd (take_socket (ebind (syscall os Sys_socket) (\<lambda>fd. scoped_fd os fd (ethen (m fd) (eret fd)))) s))"
proof (cases "os (snd s) Sys_socket")
  case (Inl e)
  with assms(3,4) show ?thesis by (auto simp: take_socket_def eff_defs syscall_def udp_owns_def owned_def)
next
  case (Inr fd)
  with assms(1) have fd: "fd \<noteq> -1" by (auto simp: os_fresh_def)
  from assms(3,4) have o: "owned {fd} (snd s @ [(Sys_socket, Inr fd)])" by (auto simp: udp_owns_def owned_def)
  from scoped_fd_owned [OF assms(2) this fd, of os] Inr fd assms(4) show ?thesis
    by (auto simp: take_socket_def ebind_def syscall_def udp_owns_def split: prod.splits sum.splits)
qed

lemma ethen_assoc: "ethen (ethen m n) k = ethen m (ethen n k)"
  by (simp add: ethen_def ebind_assoc)

lemma udp_open_owns: "os_fresh os \<Longrightarrow> keeps udp_owns (udp_open pf os bnd)"
  by (rule keepsI) (auto simp: udp_open_def ethen_assoc [symmetric] intro!: take_socket_owns keeps_then)

lemma udp_open_dest_owns: "os_fresh os \<Longrightarrow> keeps udp_owns (udp_open_dest os bnd dest)"
  by (rule keepsI) (auto simp: udp_open_dest_def ethen_assoc [symmetric] intro!: take_socket_owns keeps_then)

lemma udp_close_owns: "keeps udp_owns (udp_close os)"
proof (rule keepsI)
  fix s assume "udp_owns s"
  then have "owned {} (snd (snd (fdesc_close os (u_socket (fst s)) (snd s))))"
    using owned_close [of _ "snd s" "u_socket (fst s)" os] by (fastforce simp: udp_owns_def split: if_splits)
  then show "udp_owns (snd (udp_close os s))"
    by (auto simp: udp_close_def udp_owns_def fdesc_close_def Let_def)
qed

text \<open>The methods, and the runs of an object from its construction.\<close>

datatype udp_op = Get_sendbuf | Set_sendbuf int | Get_multicast_loopback | Set_multicast_loopback bool
  | Multicast_register_interface_in_addr in_addr | Multicast_register_interface sockaddr_in | Get_multicast_ttl | Set_multicast_ttl "8 word"
  | Get_reuse_addr | Set_reuse_addr bool | Get_reuse_port | Set_reuse_port bool | Ipv4hdr_length
  | Open sockaddr_in | Open_dest sockaddr_in sockaddr_in | Close | Send "byte list" | Send_dest sockaddr_in "byte list"

fun udp_call :: "platform \<Rightarrow> os \<Rightarrow> udp_op \<Rightarrow> udp \<times> trace \<Rightarrow> udp \<times> trace" where
  "udp_call pf os Get_sendbuf s = snd (get_sendbuf os s)"
| "udp_call pf os (Set_sendbuf n) s = snd (set_sendbuf os n s)"
| "udp_call pf os Get_multicast_loopback s = snd (get_multicast_loopback os s)"
| "udp_call pf os (Set_multicast_loopback b) s = snd (set_multicast_loopback os b s)"
| "udp_call pf os (Multicast_register_interface_in_addr a) s = snd (multicast_register_interface_in_addr os a s)"
| "udp_call pf os (Multicast_register_interface a) s = snd (multicast_register_interface os a s)"
| "udp_call pf os Get_multicast_ttl s = snd (get_multicast_ttl os s)"
| "udp_call pf os (Set_multicast_ttl t) s = snd (set_multicast_ttl os t s)"
| "udp_call pf os Get_reuse_addr s = snd (get_reuse_addr pf os s)"
| "udp_call pf os (Set_reuse_addr b) s = snd (set_reuse_addr pf b s)"
| "udp_call pf os Get_reuse_port s = snd (get_reuse_port pf os s)"
| "udp_call pf os (Set_reuse_port b) s = snd (set_reuse_port pf b s)"
| "udp_call pf os Ipv4hdr_length s = snd (ipv4hdr_length os s)"
| "udp_call pf os (Open a) s = snd (udp_open pf os a s)"
| "udp_call pf os (Open_dest a d) s = snd (udp_open_dest os a d s)"
| "udp_call pf os Close s = snd (udp_close os s)"
| "udp_call pf os (Send p) s = snd (udp_send os p s)"
| "udp_call pf os (Send_dest d p) s = snd (udp_send_dest os d p s)"

inductive udp_step :: "platform \<Rightarrow> os \<Rightarrow> udp \<times> trace \<Rightarrow> udp \<times> trace \<Rightarrow> bool" for pf os where
  "udp_step pf os s (udp_call pf os op s)"

inductive_cases udp_stepE: "udp_step pf os s s'"

definition udp_init :: "udp \<times> trace \<Rightarrow> bool" where
  "udp_init s \<longleftrightarrow> s = (udp_new, [])"

lemma udp_call_owns:
  assumes "os_fresh os" "udp_owns s"
  shows "udp_owns (udp_call pf os op s)"
proof (cases op)
  case (Set_sendbuf n)
  have "keeps udp_owns (set_sendbuf os n)" unfolding set_sendbuf_def by (rule keeps_on_socket) simp
  from keepsD [OF this assms(2)] show ?thesis by (simp add: Set_sendbuf)
next
  case (Open a)
  from keepsD [OF udp_open_owns assms(2)] assms(1) show ?thesis by (simp add: Open)
next
  case (Open_dest a d)
  from keepsD [OF udp_open_dest_owns assms(2)] assms(1) show ?thesis by (simp add: Open_dest)
next
  case (Set_reuse_addr b)
  with assms(2) show ?thesis by (auto simp: set_reuse_addr_def udp_owns_def)
next
  case (Set_reuse_port b)
  with assms(2) show ?thesis by (auto simp: set_reuse_port_def udp_owns_def)
next
  case (Send_dest d p)
  have "keeps udp_owns (udp_send_dest os d p)" unfolding udp_send_dest_def by (rule keeps_on_socket) auto
  from keepsD [OF this assms(2)] show ?thesis by (simp add: Send_dest)
next
  case Close
  from keepsD [OF udp_close_owns assms(2)] show ?thesis by (simp add: Close)
qed (use assms(2) in \<open>auto simp: get_sendbuf_def get_multicast_loopback_def set_multicast_loopback_def multicast_register_interface_def multicast_register_interface_in_addr_def
    get_multicast_ttl_def set_multicast_ttl_def get_reuse_addr_def get_reuse_port_def ipv4hdr_length_def udp_send_def
    intro!: keepsD [OF keeps_on_socket]\<close>)

interpretation udp_object: invariant_of udp_init "udp_step pf os" "\<lambda>s. os_fresh os \<longrightarrow> udp_owns s" for pf os
proof (unfold_locales)
  show "os_fresh os \<longrightarrow> udp_owns s" if "udp_init s" for s
    using that by (simp add: udp_init_def udp_owns_def udp_new_def)
  show "os_fresh os \<longrightarrow> udp_owns s'" if "os_fresh os \<longrightarrow> udp_owns s" "udp_step pf os s s'" for s s'
    using that(2) by cases (use that(1) in \<open>auto intro: udp_call_owns\<close>)
qed

text \<open>C14: In every run of a \<open>udp\<close> object every call to the system is made on a descriptor that is open, nothing but the
  object's socket is open between the methods, however they ended, and closing the object leaves nothing open.\<close>

theorem udp_no_descriptor_leak:
  assumes "os_fresh os" "reachable udp_init (udp_step pf os) (u, tr)"
  shows "uses_ok tr \<and> live tr = (if u_socket u = -1 then {} else {u_socket u}) \<and>
    live (snd (snd (udp_close os (u, tr)))) = {} \<and> u_socket (fst (snd (udp_close os (u, tr)))) = -1"
proof -
  from udp_object.holds [OF assms(2)] assms(1) have o: "udp_owns (u, tr)" by blast
  from keepsD [OF udp_close_owns this, of os] have "udp_owns (snd (udp_close os (u, tr)))" .
  with o show ?thesis
    by (auto simp: udp_owns_def owned_def udp_close_def fdesc_close_def Let_def split: if_splits)
qed

definition one_socket_os :: os where
  "one_socket_os tr c = (case c of Sys_socket \<Rightarrow> if live tr = {} then Inr 3 else Inl 24 | Sys_bind _ _ \<Rightarrow> Inl 98 | _ \<Rightarrow> Inr 0)"

lemma one_socket_fresh: "os_fresh one_socket_os"
  by (auto simp: os_fresh_def one_socket_os_def split: if_splits)

definition loopback_addr :: sockaddr_in where
  "loopback_addr = \<lparr>sin_family = AF_INET, sin_port = 0, sin_addr = 0x0100007F\<rparr>"

definition all_options :: platform where
  "all_options = \<lparr>have_reuseaddr = True, have_reuseport = True\<rparr>"

lemma udp_no_descriptor_leak_witness:
  "reachable udp_init (udp_step all_options one_socket_os) (udp_call all_options one_socket_os (Open loopback_addr) (udp_new, [])) \<and>
   live (snd (udp_call all_options one_socket_os (Open loopback_addr) (udp_new, []))) = {}"
proof -
  let ?s = "udp_call all_options one_socket_os (Open loopback_addr) (udp_new, [])"
  have r: "reachable udp_init (udp_step all_options one_socket_os) ?s"
    by (rule nextstep [OF start]) (simp add: udp_init_def, rule udp_step.intros)
  have "u_socket (fst ?s) = -1"
    by (simp add: udp_open_def loopback_addr_def is_valid_bind_addr_def take_socket_def eff_defs syscall_def udp_new_def
        scoped_fd_def internal_bind_def one_socket_os_def live_def split: prod.splits sum.splits)
  with r udp_no_descriptor_leak [OF one_socket_fresh, of all_options "fst ?s" "snd ?s"] show ?thesis by simp
qed

text \<open>Opening succeeds only with the reuse options set before the address is bound, and leaves the socket bound in the
  object; any error leaves the object as it was.\<close>

theorem udp_open_sequence:
  "case udp_open pf os bnd (u, tr) of
     (Inl e, (u', tr')) \<Rightarrow> u' = u
   | (Inr x, (u', tr')) \<Rightarrow> \<exists>fd. u' = u\<lparr>u_socket := fd\<rparr> \<and> map fst tr' = map fst tr @ [Sys_socket] @
       (if have_reuseaddr pf \<and> u_reuse_addr u then [Sys_setsockopt fd SO_REUSEADDR 1] else []) @
       (if have_reuseport pf \<and> u_reuse_port u then [Sys_setsockopt fd SO_REUSEPORT 1] else []) @ [Sys_bind fd bnd]"
  by (auto simp: udp_open_def take_socket_def eff_defs syscall_def scoped_fd_def internal_defs sys_set_def
      split: prod.splits sum.splits if_splits)

text \<open>Opening with a destination binds, connects and for a multicast destination selects the interface, but never sets the
  reuse options of the object; any error leaves the object as it was.\<close>

theorem udp_open_dest_sequence:
  "case udp_open_dest os bnd dest (u, tr) of
     (Inl e, (u', tr')) \<Rightarrow> u' = u
   | (Inr x, (u', tr')) \<Rightarrow> \<exists>fd. u' = u\<lparr>u_socket := fd\<rparr> \<and> map fst tr' = map fst tr @ [Sys_socket, Sys_bind fd bnd, Sys_connect fd dest] @
       (if is_multicast (sin_addr dest) then [Sys_setsockopt fd IP_MULTICAST_IF (uint (sin_addr bnd))] else [])"
  by (auto simp: udp_open_dest_def take_socket_def eff_defs syscall_def scoped_fd_def internal_defs sys_set_def
      split: prod.splits sum.splits if_splits)

end
