(* ===== verification/SddPayload.thy ===== *)
theory SddPayload
  imports NetQuery UdpSocket JsonSystem ToolOptions
begin

text \<open>
  The tool \<open>sdd\<close> (\<open>payload.cpp\<close>): a list of sockets, one for each address of an active
  interface, that is brought up to date by the queries, and the JSON text that is sent on each of
  them.  The system is the one of \<open>UdpSocket\<close>.
\<close>

section \<open>Sockets\<close>

record iface_ctx =
  ic_src :: sockaddr_in
  ic_mtu :: "32 word"
  ic_ipv4hdr :: "32 word"
  ic_udp :: udp
  ic_active :: bool

record payload =
  pl_sockets :: "iface_ctx list"
  pl_dest :: sockaddr_in

abbreviation (input) "EEXIST \<equiv> 17 :: int"
abbreviation (input) "ESRCH \<equiv> 3 :: int"

text \<open>The constructor; None is the exception.\<close>

definition payload_new :: "sockaddr_in \<Rightarrow> payload option" where
  "payload_new dest = (if \<not> is_multicast (sin_addr dest) then None else Some \<lparr>pl_sockets = [], pl_dest = dest\<rparr>)"

definition same_src :: "sockaddr_in \<Rightarrow> iface_ctx \<Rightarrow> bool" where
  "same_src a s \<longleftrightarrow> sin_addr (ic_src s) = sin_addr a \<and> sin_port (ic_src s) = sin_port a"

text \<open>The search marks the socket that it finds.\<close>

fun mark_active :: "sockaddr_in \<Rightarrow> iface_ctx list \<Rightarrow> iface_ctx list option" where
  "mark_active a [] = None"
| "mark_active a (s # ss) = (if same_src a s then Some (s\<lparr>ic_active := True\<rparr> # ss) else map_option ((#) s) (mark_active a ss))"

text \<open>The new socket, on which the multicast time to live is set; it is destroyed when this fails.\<close>

definition open_iface :: "os \<Rightarrow> sockaddr_in \<Rightarrow> sockaddr_in \<Rightarrow> 32 word \<Rightarrow> iface_ctx sys" where
  "open_iface os bnd dest mtu tr =
     (case udp_open_dest os bnd dest (udp_new, tr) of
        (Inl e, s) \<Rightarrow> (Inl e, snd (snd (udp_close os s)))
      | (Inr _, s) \<Rightarrow> (case set_multicast_ttl os 1 s of
          (Inl e, s) \<Rightarrow> (Inl e, snd (snd (udp_close os s)))
        | (Inr _, s) \<Rightarrow>
            (case (if mtu \<noteq> 0 then (case ipv4hdr_length os s of (Inr h, s) \<Rightarrow> (of_int h, s) | (Inl _, s) \<Rightarrow> (0, s)) else (0, s)) of
               (hdr, s) \<Rightarrow> (Inr \<lparr>ic_src = bnd, ic_mtu = mtu, ic_ipv4hdr = hdr, ic_udp = fst s, ic_active = True\<rparr>, snd s))))"

type_synonym 'a payload_m = "(payload \<times> trace, errno, 'a) eff"

definition payload_open :: "os \<Rightarrow> sockaddr_in \<Rightarrow> 32 word \<Rightarrow> unit payload_m" where
  "payload_open os bnd mtu = (\<lambda>(p, tr).
     if sin_addr bnd = 0 \<or> sin_addr bnd = -1 then (Inl EINVAL, (p, tr))
     else (case mark_active bnd (pl_sockets p) of
        Some ss \<Rightarrow> (Inl EEXIST, (p\<lparr>pl_sockets := ss\<rparr>, tr))
      | None \<Rightarrow> (case open_iface os bnd (pl_dest p) mtu tr of
          (Inl e, tr) \<Rightarrow> (Inl e, (p, tr))
        | (Inr s, tr) \<Rightarrow> (Inr (), (p\<lparr>pl_sockets := pl_sockets p @ [s]\<rparr>, tr)))))"

definition close_ctx :: "os \<Rightarrow> iface_ctx \<Rightarrow> trace \<Rightarrow> trace" where
  "close_ctx os s tr = snd (snd (udp_close os (ic_udp s, tr)))"

text \<open>Erasing an element moves the ones behind it forward.\<close>

fun close_first :: "os \<Rightarrow> sockaddr_in \<Rightarrow> iface_ctx list \<Rightarrow> trace \<Rightarrow> (iface_ctx list \<times> trace) option" where
  "close_first os a [] tr = None"
| "close_first os a (s # ss) tr = (if same_src a s then Some (ss, close_ctx os s tr)
     else map_option (\<lambda>(ss, tr). (s # ss, tr)) (close_first os a ss tr))"

definition payload_close :: "os \<Rightarrow> sockaddr_in \<Rightarrow> unit payload_m" where
  "payload_close os bnd = (\<lambda>(p, tr). case close_first os bnd (pl_sockets p) tr of
     None \<Rightarrow> (Inl ESRCH, (p, tr)) | Some (ss, tr) \<Rightarrow> (Inr (), (p\<lparr>pl_sockets := ss\<rparr>, tr)))"

definition set_inactive :: "payload \<Rightarrow> payload" where
  "set_inactive p = p\<lparr>pl_sockets := map (\<lambda>s. s\<lparr>ic_active := False\<rparr>) (pl_sockets p)\<rparr>"

fun close_inactive_loop :: "os \<Rightarrow> iface_ctx list \<Rightarrow> trace \<Rightarrow> iface_ctx list \<times> trace" where
  "close_inactive_loop os [] tr = ([], tr)"
| "close_inactive_loop os (s # ss) tr =
     (if \<not> ic_active s then close_inactive_loop os ss (close_ctx os s tr)
      else (case close_inactive_loop os ss tr of (ss, tr) \<Rightarrow> (s # ss, tr)))"

definition close_inactive :: "os \<Rightarrow> payload \<times> trace \<Rightarrow> payload \<times> trace" where
  "close_inactive os = (\<lambda>(p, tr). case close_inactive_loop os (pl_sockets p) tr of (ss, tr) \<Rightarrow> (p\<lparr>pl_sockets := ss\<rparr>, tr))"

section \<open>Queries\<close>

definition iface_ready :: flags where
  "iface_ready = flags_or_bit (flags_or_bit (flags_of_bit (if_flags MULTICAST)) (if_flags UP)) (if_flags RUNNING)"

definition iface_mask :: flags where
  "iface_mask = flags_or_bit iface_ready (if_flags LOOPBACK)"

definition is_up :: "flags \<Rightarrow> bool" where
  "is_up f \<longleftrightarrow> flags_eq (flags_and f iface_mask) iface_ready"


text \<open>\<open>IFF\<close> gives the system's values of the flags.\<close>

definition iface_mtu :: "interface \<Rightarrow> 32 word" where
  "iface_mtu intf = (case if_mtu intf of None \<Rightarrow> 0 | Some m \<Rightarrow> m)"

definition open_addresses :: "os \<Rightarrow> (if_flag \<Rightarrow> 32 word) \<Rightarrow> 16 word \<Rightarrow> interface \<Rightarrow> payload \<times> trace \<Rightarrow> payload \<times> trace" where
  "open_addresses os IFF srcport intf s =
     (if is_up (interface_status IFF intf)
      then fold (\<lambda>ipv4 s. snd (payload_open os \<lparr>sin_family = AF_INET, sin_port = srcport, sin_addr = ip_addr ipv4\<rparr> (iface_mtu intf) s)) (if_inet intf) s
      else s)"

text \<open>The three queries: all interfaces of the map in its order, the one that was asked for, or the one that has the address.\<close>

definition query_finish :: "os \<Rightarrow> payload \<times> trace \<Rightarrow> bool \<times> payload \<times> trace" where
  "query_finish os s = (let s = close_inactive os s in (pl_sockets (fst s) \<noteq> [], s))"

definition payload_query_all :: "os \<Rightarrow> (if_flag \<Rightarrow> 32 word) \<Rightarrow> (string \<times> interface) list \<Rightarrow> 16 word \<Rightarrow> payload \<times> trace \<Rightarrow> bool \<times> payload \<times> trace" where
  "payload_query_all os IFF interfaces srcport = (\<lambda>(p, tr).
     query_finish os (fold (\<lambda>(name, intf) s. open_addresses os IFF srcport intf s) interfaces (set_inactive p, tr)))"

definition payload_query_iface :: "os \<Rightarrow> (if_flag \<Rightarrow> 32 word) \<Rightarrow> interface option \<Rightarrow> 16 word \<Rightarrow> payload \<times> trace \<Rightarrow> bool \<times> payload \<times> trace" where
  "payload_query_iface os IFF pintf srcport = (\<lambda>(p, tr).
     query_finish os (case pintf of Some intf \<Rightarrow> open_addresses os IFF srcport intf (set_inactive p, tr) | None \<Rightarrow> (set_inactive p, tr)))"

fun open_found :: "os \<Rightarrow> (if_flag \<Rightarrow> 32 word) \<Rightarrow> sockaddr_in \<Rightarrow> (string \<times> interface) list \<Rightarrow> payload \<times> trace \<Rightarrow> payload \<times> trace" where
  "open_found os IFF iface [] s = s"
| "open_found os IFF iface ((name, intf) # rest) s =
     (if is_up (interface_status IFF intf) \<and> (\<exists>ipv4 \<in> set (if_inet intf). sin_addr iface = ip_addr ipv4)
      then snd (payload_open os iface (iface_mtu intf) s)
      else open_found os IFF iface rest s)"

definition payload_query_addr :: "os \<Rightarrow> (if_flag \<Rightarrow> 32 word) \<Rightarrow> (string \<times> interface) list \<Rightarrow> sockaddr_in \<Rightarrow> payload \<times> trace \<Rightarrow> bool \<times> payload \<times> trace" where
  "payload_query_addr os IFF interfaces iface = (\<lambda>(p, tr). query_finish os (open_found os IFF iface interfaces (set_inactive p, tr)))"

section \<open>The text\<close>

definition inet_ntos_addr :: "(in_addr \<Rightarrow> string option) \<Rightarrow> in_addr \<Rightarrow> string" where
  "inet_ntos_addr inet_ntop a = (case inet_ntop a of None \<Rightarrow> [] | Some paddr \<Rightarrow> paddr)"

text \<open>The loop over the bits of the mask, from the highest.\<close>

function count_bits :: "32 word \<Rightarrow> 32 word \<Rightarrow> int \<Rightarrow> int" where
  "count_bits n bit1 bitcount = (if n AND bit1 \<noteq> 0 \<and> bit1 \<noteq> 0 then count_bits n (drop_bit 1 bit1) (bitcount + 1) else bitcount)"
  by auto
termination
proof (relation "measure (\<lambda>(n, bit1, bitcount). unat bit1)", simp, goal_cases)
  case (1 n bit1 bitcount)
  then have "0 < unat bit1" by (simp add: unat_gt_0)
  then show ?case by (simp add: drop_bit_eq_div unat_div_distrib)
qed

declare count_bits.simps [simp del]

definition ipv4_to_string :: "(in_addr \<Rightarrow> string option) \<Rightarrow> if_ipv4 \<Rightarrow> string" where
  "ipv4_to_string inet_ntop addr =
     (let netmask = (case ip_nmask addr of None \<Rightarrow> -1 | Some m \<Rightarrow> count_bits (ntohl m) 0x80000000 0);
          ipv4 = inet_ntos_addr inet_ntop (ip_addr addr) in
      if netmask \<noteq> -1 then ipv4 @ ''/'' @ int_to_string netmask else ipv4)"

text \<open>The overload of \<open>write_value\<close> for what \<open>to_string\<close> makes a text of is the one of \<open>JFloat\<close>.\<close>

abbreviation JText :: "string \<Rightarrow> jvalue" where "JText \<equiv> JFloat"

definition when_some :: "'a option \<Rightarrow> ('a \<Rightarrow> 'b jmethod) \<Rightarrow> unit jmethod" where
  "when_some x f = (case x of None \<Rightarrow> eret () | Some y \<Rightarrow> ethen (f y) (eret ()))"

definition for_each :: "'a list \<Rightarrow> ('a \<Rightarrow> 'b jmethod) \<Rightarrow> unit jmethod" where
  "for_each xs f = foldr (\<lambda>x m. ethen (f x) m) xs (eret ())"

definition create_net_iface :: "(in_addr \<Rightarrow> string option) \<Rightarrow> interface \<Rightarrow> unit jmethod" where
  "create_net_iface inet_ntop iface =
     ethen (when_some (if_vlan_of iface) (\<lambda>v. jo_write_value ''vlan'' (JInt (uint (vl_id v)))))
    (ethen (when_some (if_hwaddr iface) (\<lambda>m. jo_write_value ''mac'' (JText (ether_ntos m))))
    (ethen (when_some (if_mtu iface) (\<lambda>m. jo_write_value ''mtu'' (JInt (uint m))))
    (with_child (jo_write_array ''ipv4'')
       (ethen (for_each (if_inet iface) (\<lambda>ipv4. ja_write_value (JText (ipv4_to_string inet_ntop ipv4)))) ja_close))))"

definition is_active :: "flags \<Rightarrow> bool" where
  "is_active f \<longleftrightarrow> (let active = flags_or_bit (flags_of_bit (if_flags UP)) (if_flags RUNNING) in flags_eq (flags_and f active) active)"

definition create_net_block :: "(in_addr \<Rightarrow> string option) \<Rightarrow> (if_flag \<Rightarrow> 32 word) \<Rightarrow> string option \<Rightarrow> string option \<Rightarrow>
    (string \<times> interface) list \<Rightarrow> unit jmethod" where
  "create_net_block inet_ntop IFF hostname domainname interfaces =
     ethen (when_some hostname (\<lambda>h. jo_write_value ''host'' (JStr h)))
    (ethen (when_some domainname (\<lambda>d. jo_write_value ''domain'' (JStr d)))
    (with_child (jo_write_object ''interfaces'')
       (ethen (for_each interfaces (\<lambda>(name, iface).
          if is_active (interface_status IFF iface)
          then with_child (jo_write_object name) (ethen (create_net_iface inet_ntop iface) jo_close)
          else eret ())) jo_close)))"

definition generate :: "(in_addr \<Rightarrow> string option) \<Rightarrow> (if_flag \<Rightarrow> 32 word) \<Rightarrow> string option \<Rightarrow> string option \<Rightarrow>
    (string \<times> interface) list \<Rightarrow> json_writer_error + string" where
  "generate inet_ntop IFF hostname domainname interfaces =
     (case json_writer_new [] of Inl e \<Rightarrow> Inl e | Inr s \<Rightarrow>
       (case ethen (jr_set_config False) (ethen (with_root_child jr_write_object
           (ethen (create_net_block inet_ntop IFF hostname domainname interfaces) jo_close)) jr_close) s of
          (Inl e, _) \<Rightarrow> Inl e
        | (Inr _, (c, r)) \<Rightarrow> Inr (jc_ostream c)))"

section \<open>Sending\<close>

text \<open>The length is compared with what is left of the MTU, an unsigned difference.\<close>

definition payload_fits :: "nat \<Rightarrow> iface_ctx \<Rightarrow> bool" where
  "payload_fits len ctx \<longleftrightarrow> ic_mtu ctx = 0 \<or> len < unat (ic_mtu ctx - ic_ipv4hdr ctx - 8)"

text \<open>\<open>errno0\<close> is the error of the last call that failed before.\<close>

fun send_loop :: "os \<Rightarrow> int \<Rightarrow> byte list \<Rightarrow> iface_ctx list \<Rightarrow> int \<Rightarrow> trace \<Rightarrow> int \<times> trace" where
  "send_loop os errno0 p [] e tr = (e, tr)"
| "send_loop os errno0 p (ctx # ctxs) e tr =
     (if payload_fits (length p) ctx then
        (case udp_send os p (ic_udp ctx, tr) of
           (Inl err, s) \<Rightarrow>
             (let errno1 = (if u_socket (ic_udp ctx) = -1 then errno0 else err) in
              send_loop os errno1 p ctxs (if e = 0 then errno1 else e) (snd s))
         | (Inr _, s) \<Rightarrow> send_loop os errno0 p ctxs e (snd s))
      else send_loop os errno0 p ctxs e tr)"

definition payload_send :: "os \<Rightarrow> int \<Rightarrow> string \<Rightarrow> unit payload_m" where
  "payload_send os errno0 text1 = (\<lambda>(p, tr).
     case send_loop os errno0 (map of_char text1) (pl_sockets p) 0 tr of
       (e, tr) \<Rightarrow> (if e \<noteq> 0 then Inl e else Inr (), (p, tr)))"


section \<open>The text is the tree of the interfaces\<close>

definition opt_field :: "string \<Rightarrow> jvalue option \<Rightarrow> (string \<times> json) list" where
  "opt_field k v = (case v of None \<Rightarrow> [] | Some x \<Rightarrow> [(k, Leaf x)])"

definition iface_fields :: "(in_addr \<Rightarrow> string option) \<Rightarrow> interface \<Rightarrow> (string \<times> json) list" where
  "iface_fields inet_ntop i =
     opt_field ''vlan'' (map_option (\<lambda>v. JInt (uint (vl_id v))) (if_vlan_of i)) @
     opt_field ''mac'' (map_option (\<lambda>m. JText (ether_ntos m)) (if_hwaddr i)) @
     opt_field ''mtu'' (map_option (\<lambda>m. JInt (uint m)) (if_mtu i)) @
     [(''ipv4'', Arr (map (\<lambda>a. Leaf (JText (ipv4_to_string inet_ntop a))) (if_inet i)))]"

definition active_interfaces :: "(if_flag \<Rightarrow> 32 word) \<Rightarrow> (string \<times> interface) list \<Rightarrow> (string \<times> interface) list" where
  "active_interfaces IFF interfaces = filter (\<lambda>(name, i). if_flagbits i AND IFF UP \<noteq> 0 \<and> if_flagbits i AND IFF RUNNING \<noteq> 0) interfaces"

definition payload_tree :: "(in_addr \<Rightarrow> string option) \<Rightarrow> (if_flag \<Rightarrow> 32 word) \<Rightarrow> string option \<Rightarrow> string option \<Rightarrow>
    (string \<times> interface) list \<Rightarrow> json" where
  "payload_tree inet_ntop IFF hostname domainname interfaces = Obj
     (opt_field ''host'' (map_option JStr hostname) @ opt_field ''domain'' (map_option JStr domainname) @
      [(''interfaces'', Obj (map (\<lambda>(name, i). (name, Obj (iface_fields inet_ntop i))) (active_interfaces IFF interfaces)))])"

lemma write_fields_append: "write_fields (fs @ gs) = ethen (write_fields fs) (write_fields gs)"
proof (induction fs)
  case (Cons f fs)
  then show ?case by (cases f; cases "snd f") (auto simp: ethen_assoc)
qed (simp add: ethen_def)

lemma when_some_field: "when_some x (\<lambda>y. jo_write_value k (f y)) = write_fields (opt_field k (map_option f x))"
  by (cases x) (simp_all add: when_some_def opt_field_def)

lemma for_each_items: "for_each xs (\<lambda>x. ja_write_value (f x)) = write_items (map (\<lambda>x. Leaf (f x)) xs)"
  by (induction xs) (simp_all add: for_each_def)

lemma ethen_eret_unit: "ethen m (eret ()) = m" for m :: "unit jmethod"
  by (auto simp: ethen_def ebind_def eret_def fun_eq_iff split: prod.splits sum.splits)

lemma create_net_iface_fields: "create_net_iface inet_ntop i = write_fields (iface_fields inet_ntop i)"
  unfolding create_net_iface_def iface_fields_def
  by (simp only: when_some_field for_each_items write_fields_append write_fields.simps ethen_eret_unit)

lemma for_each_fields:
  "for_each xs (\<lambda>(name, i). if P i then with_child (jo_write_object name) (ethen (create_net_iface t i) jo_close) else eret ()) =
     write_fields (map (\<lambda>(name, i). (name, Obj (iface_fields t i))) (filter (\<lambda>(name, i). P i) xs))"
  by (induction xs) (auto simp: for_each_def create_net_iface_fields ethen_def)

lemma mask_eq_iff: "w AND m = m \<longleftrightarrow> (\<forall>n. bit m n \<longrightarrow> bit w n)" for w m :: "32 word"
proof
  show "\<forall>n. bit m n \<longrightarrow> bit w n" if "w AND m = m" using that by (metis bit_and_iff)
qed (auto simp: bit_eq_iff bit_and_iff)

lemma bit_if_flags: "bit (if_flags f) n \<longleftrightarrow> n = flag_bit f"
  unfolding if_flags_power bit_exp_iff by (cases f) (auto simp: flag_bit_def)

lemma is_active_iff: "is_active (interface_status IFF i) \<longleftrightarrow> if_flagbits i AND IFF UP \<noteq> 0 \<and> if_flagbits i AND IFF RUNNING \<noteq> 0"
  using interface_status_bit [of IFF i UP] interface_status_bit [of IFF i RUNNING]
  by (auto simp: is_active_def flags_of_bit_def flags_or_bit_def flags_and_def flags_eq_def mask_eq_iff bit_or_iff bit_if_flags Let_def
      simp del: word_neq_0_conv)

lemma create_net_block_fields:
  "create_net_block t IFF h d ifs = write_fields
     (opt_field ''host'' (map_option JStr h) @ opt_field ''domain'' (map_option JStr d) @
      [(''interfaces'', Obj (map (\<lambda>(name, i). (name, Obj (iface_fields t i))) (active_interfaces IFF ifs)))])"
  unfolding create_net_block_def active_interfaces_def for_each_fields is_active_iff
  by (simp only: when_some_field write_fields_append write_fields.simps ethen_eret_unit)

text \<open>C21: The text that \<open>sdd\<close> sends is the JSON text of the tree of the names of the host and of the interfaces that are up and
  running, each with its VLAN, Ethernet address and MTU, where it has them, and all its addresses; no call of the
  writers fails.\<close>

theorem generate_renders:
  "generate inet_ntop IFF hostname domainname interfaces = Inr (render False (payload_tree inet_ntop IFF hostname domainname interfaces))"
proof -
  let ?fs = "opt_field ''host'' (map_option JStr hostname) @ opt_field ''domain'' (map_option JStr domainname) @
      [(''interfaces'', Obj (map (\<lambda>(name, i). (name, Obj (iface_fields inet_ntop i))) (active_interfaces IFF interfaces)))]"
  have "write_document False (Obj ?fs) [] = Inr (True, render False (Obj ?fs))" using write_document_text [of False ?fs "[]"] by simp
  then show ?thesis
    unfolding generate_def payload_tree_def create_net_block_fields write_document_def write_root_def json.case
    by (auto split: sum.splits prod.splits)
qed


section \<open>The sockets own what is open\<close>

text \<open>One socket beside the descriptors \<open>L\<close> that others own.\<close>

lemma owned_close_one: "owned (insert fd L) tr \<Longrightarrow> fd \<notin> L \<Longrightarrow> fd \<noteq> -1 \<Longrightarrow> owned L (snd (snd (fdesc_close os fd tr)))"
  using owned_close [of "insert fd L" tr fd os] by simp

lemma scoped_fd_frame:
  assumes "keeps (owned (insert fd L)) m" "owned (insert fd L) tr" "fd \<notin> L" "fd \<noteq> -1"
  shows "case scoped_fd os fd (ethen m (eret fd)) tr of (Inl e, tr') \<Rightarrow> owned L tr' | (Inr fd', tr') \<Rightarrow> fd' = fd \<and> owned (insert fd L) tr'"
proof -
  obtain r tr' where m: "m tr = (r, tr')" by (cases "m tr")
  from keepsD [OF assms(1,2)] m have "owned (insert fd L) tr'" by simp
  with owned_close_one [OF this assms(3,4), of os] show ?thesis
    by (cases r) (auto simp: scoped_fd_def eff_defs m)
qed

lemma udp_open_dest_frame:
  assumes "os_fresh os" "owned L tr"
  shows "case udp_open_dest os bnd dest (udp_new, tr) of
      (Inl e, (u, tr')) \<Rightarrow> u = udp_new \<and> owned L tr'
    | (Inr _, (u, tr')) \<Rightarrow> u_socket u \<noteq> -1 \<and> u_socket u \<notin> L \<and> owned (insert (u_socket u) L) tr'"
proof -
  define m where "m = (\<lambda>fd. ethen (internal_bind os fd bnd) (ethen (internal_connect os fd dest)
     (if is_multicast (sin_addr dest) then internal_multicast_register_interface os fd (sin_addr bnd) else eret ())))"
  have m: "keeps (owned (insert fd L)) (m fd)" for fd unfolding m_def by (auto intro!: keeps_then)
  have o: "udp_open_dest os bnd dest (udp_new, tr) =
     (if \<not> is_valid_bind_addr bnd then (Inl EINVAL, (udp_new, tr)) else if \<not> is_valid_sockaddr dest then (Inl EINVAL, (udp_new, tr))
      else take_socket (ebind (syscall os Sys_socket) (\<lambda>fd. scoped_fd os fd (ethen (m fd) (eret fd)))) (udp_new, tr))"
    by (simp add: udp_open_dest_def udp_new_def m_def ethen_assoc)
  show ?thesis
  proof (cases "os tr Sys_socket")
    case (Inl e)
    with assms(2) show ?thesis unfolding o by (auto simp: take_socket_def eff_defs syscall_def owned_def)
  next
    case (Inr fd)
    with assms have fd: "fd \<noteq> -1" "fd \<notin> L" by (auto simp: os_fresh_def owned_def)
    from assms(2) have "owned (insert fd L) (tr @ [(Sys_socket, Inr fd)])" by (auto simp: owned_def)
    from scoped_fd_frame [OF m this fd(2,1), of os] Inr fd assms(2) show ?thesis
      unfolding o by (auto simp: take_socket_def ebind_def syscall_def split: prod.splits sum.splits)
  qed
qed

lemma on_socket_frame:
  assumes "u_socket u \<noteq> -1 \<Longrightarrow> keeps (owned L) (m (u_socket u))" "owned L tr"
  shows "fst (snd (on_socket m (u, tr))) = u \<and> owned L (snd (snd (on_socket m (u, tr))))"
proof (cases "u_socket u = -1")
  case True
  then show ?thesis using assms(2) by (simp add: on_socket_def eff_defs)
next
  case False
  from keepsD [OF assms(1) [OF False] assms(2)] False show ?thesis
    by (auto simp: on_socket_def eff_defs split: prod.splits)
qed

abbreviation ic_fd :: "iface_ctx \<Rightarrow> int" where
  "ic_fd s \<equiv> u_socket (ic_udp s)"

lemma udp_close_frame: "owned (insert (u_socket u) L) tr \<Longrightarrow> u_socket u \<notin> L \<Longrightarrow> u_socket u \<noteq> -1 \<Longrightarrow> owned L (snd (snd (udp_close os (u, tr))))"
  using owned_close_one [of "u_socket u" L tr os] by (simp add: udp_close_def fdesc_close_def Let_def)

lemma udp_close_new: "snd (snd (udp_close os (udp_new, tr))) = tr"
  by (simp add: udp_close_def udp_new_def fdesc_close_def)

lemma open_iface_frame:
  assumes "os_fresh os" "owned L tr"
  shows "case open_iface os bnd dest mtu tr of
      (Inl e, tr') \<Rightarrow> owned L tr'
    | (Inr s, tr') \<Rightarrow> ic_fd s \<noteq> -1 \<and> ic_fd s \<notin> L \<and> owned (insert (ic_fd s) L) tr' \<and> ic_src s = bnd \<and> ic_active s"
proof -
  obtain r u tr1 where 1: "udp_open_dest os bnd dest (udp_new, tr) = (r, (u, tr1))" by (metis prod.collapse)
  note f1 = udp_open_dest_frame [OF assms, of bnd dest, unfolded 1]
  show ?thesis
  proof (cases r)
    case (Inl e)
    then show ?thesis using f1 by (simp add: open_iface_def 1 udp_close_new)
  next
    case (Inr x)
    with f1 have u: "u_socket u \<noteq> -1" "u_socket u \<notin> L" "owned (insert (u_socket u) L) tr1" by simp_all
    obtain r2 u2 tr2 where 2: "set_multicast_ttl os 1 (u, tr1) = (r2, (u2, tr2))" by (metis prod.collapse)
    have f2: "u2 = u" "owned (insert (u_socket u) L) tr2"
      using on_socket_frame [of u "insert (u_socket u) L" "\<lambda>fd. internal_set_multicast_ttl os fd 1", OF _ u(3)] 2
      by (auto simp: set_multicast_ttl_def)
    obtain r3 u3 tr3 where 3: "ipv4hdr_length os (u, tr2) = (r3, (u3, tr3))" by (metis prod.collapse)
    have f3: "u3 = u" "owned (insert (u_socket u) L) tr3"
      using on_socket_frame [of u "insert (u_socket u) L" "\<lambda>fd. internal_ipv4hdr_length os fd", OF _ f2(2)] 3
      by (auto simp: ipv4hdr_length_def)
    show ?thesis
    proof (cases r2)
      case (Inl e)
      then show ?thesis using udp_close_frame [OF f2(2) u(2,1), of os] f2(1) by (simp add: open_iface_def 1 2 Inr)
    next
      case (Inr y)
      then show ?thesis using u f2 f3 \<open>r = Inr x\<close> by (cases r3) (simp_all add: open_iface_def 1 2 3)
    qed
  qed
qed


definition src_key :: "sockaddr_in \<Rightarrow> in_addr \<times> 16 word" where
  "src_key a = (sin_addr a, sin_port a)"

definition good_addr :: "in_addr \<Rightarrow> bool" where
  "good_addr a \<longleftrightarrow> a \<noteq> 0 \<and> a \<noteq> -1"

definition keys :: "iface_ctx list \<Rightarrow> (in_addr \<times> 16 word) list" where
  "keys ss = map (\<lambda>s. src_key (ic_src s)) ss"

lemma keys_simps [simp]: "keys [] = []" "keys (s # ss) = src_key (ic_src s) # keys ss" "keys (ss @ ts) = keys ss @ keys ts"
  by (simp_all add: keys_def)

lemma same_src_key: "same_src a s \<longleftrightarrow> src_key (ic_src s) = src_key a"
  by (simp add: same_src_def src_key_def)

text \<open>Each socket in the list is open, no two are the same, and nothing else is open.\<close>

definition sockets_ok :: "iface_ctx list \<Rightarrow> trace \<Rightarrow> bool" where
  "sockets_ok ss tr \<longleftrightarrow> owned (set (map ic_fd ss)) tr \<and> distinct (map ic_fd ss) \<and> -1 \<notin> set (map ic_fd ss) \<and>
     distinct (keys ss) \<and> (\<forall>k \<in> set (keys ss). good_addr (fst k))"

definition payload_owns :: "payload \<times> trace \<Rightarrow> bool" where
  "payload_owns s \<longleftrightarrow> sockets_ok (pl_sockets (fst s)) (snd s)"

lemma mark_active_None: "mark_active a ss = None \<longleftrightarrow> src_key a \<notin> set (keys ss)"
  by (induction ss) (auto simp: same_src_key)

text \<open>Marking changes nothing but the mark of the socket with the address.\<close>

lemma mark_active_Some:
  "mark_active a ss = Some ss' \<Longrightarrow> distinct (keys ss) \<Longrightarrow>
   src_key a \<in> set (keys ss) \<and> ss' = map (\<lambda>s. if src_key (ic_src s) = src_key a then s\<lparr>ic_active := True\<rparr> else s) ss"
proof (induction ss arbitrary: ss')
  case (Cons s ss)
  show ?case
  proof (cases "same_src a s")
    case True
    then have "src_key a \<notin> set (keys ss)" using Cons.prems(2) by (simp add: same_src_key)
    then have "map (\<lambda>s. if src_key (ic_src s) = src_key a then s\<lparr>ic_active := True\<rparr> else s) ss = ss"
      by (intro map_idI) (force simp: keys_def)
    then show ?thesis using True Cons.prems(1) by (simp add: same_src_key)
  next
    case False
    then obtain ts where "mark_active a ss = Some ts" "ss' = s # ts" using Cons.prems(1) by auto
    then show ?thesis using Cons.IH [of ts] Cons.prems(2) False by (simp add: same_src_key)
  qed
qed simp

definition remark :: "(iface_ctx \<Rightarrow> bool) \<Rightarrow> iface_ctx list \<Rightarrow> iface_ctx list" where
  "remark f ss = map (\<lambda>s. s\<lparr>ic_active := f s\<rparr>) ss"

lemma remark_simps [simp]: "map ic_fd (remark f ss) = map ic_fd ss" "keys (remark f ss) = keys ss" "remark f ss = [] \<longleftrightarrow> ss = []"
  by (simp_all add: remark_def keys_def comp_def)

lemma sockets_ok_remark [simp]: "sockets_ok (remark f ss) tr \<longleftrightarrow> sockets_ok ss tr"
  unfolding sockets_ok_def remark_simps ..

lemma mark_active_remark:
  assumes "mark_active a ss = Some ss'" "distinct (keys ss)"
  shows "ss' = remark (\<lambda>s. ic_active s \<or> src_key (ic_src s) = src_key a) ss"
  using mark_active_Some [OF assms] by (simp add: remark_def)

lemma set_inactive_remark: "pl_sockets (set_inactive p) = remark (\<lambda>_. False) (pl_sockets p)" "pl_dest (set_inactive p) = pl_dest p"
  by (simp_all add: set_inactive_def remark_def)

text \<open>What \<open>open\<close> does to the list: an address that is there is marked; otherwise a socket for it is added, or nothing is
  changed.\<close>

lemma payload_open_cases:
  assumes "os_fresh os" "payload_owns (p, tr)"
  obtains e tr' where "payload_open os bnd mtu (p, tr) = (Inl e, (p, tr'))" "payload_owns (p, tr')"
      "src_key bnd \<notin> set (keys (pl_sockets p)) \<or> \<not> good_addr (sin_addr bnd)"
  | "payload_open os bnd mtu (p, tr) = (Inl EEXIST, (p\<lparr>pl_sockets := remark (\<lambda>s. ic_active s \<or> src_key (ic_src s) = src_key bnd) (pl_sockets p)\<rparr>, tr))"
      "src_key bnd \<in> set (keys (pl_sockets p))" "good_addr (sin_addr bnd)"
  | s tr' where "payload_open os bnd mtu (p, tr) = (Inr (), (p\<lparr>pl_sockets := pl_sockets p @ [s]\<rparr>, tr'))"
      "payload_owns (p\<lparr>pl_sockets := pl_sockets p @ [s]\<rparr>, tr')" "ic_src s = bnd" "ic_active s"
      "src_key bnd \<notin> set (keys (pl_sockets p))" "good_addr (sin_addr bnd)"
proof (cases "good_addr (sin_addr bnd)")
  case False
  then show thesis using assms(2) by (intro that(1)) (auto simp: payload_open_def good_addr_def)
next
  case good: True
  then have o: "payload_open os bnd mtu (p, tr) = (case mark_active bnd (pl_sockets p) of
        Some ss \<Rightarrow> (Inl EEXIST, (p\<lparr>pl_sockets := ss\<rparr>, tr))
      | None \<Rightarrow> (case open_iface os bnd (pl_dest p) mtu tr of
          (Inl e, tr) \<Rightarrow> (Inl e, (p, tr))
        | (Inr s, tr) \<Rightarrow> (Inr (), (p\<lparr>pl_sockets := pl_sockets p @ [s]\<rparr>, tr))))"
    by (simp add: payload_open_def good_addr_def)
  show thesis
  proof (cases "mark_active bnd (pl_sockets p)")
    case (Some ss)
    have d: "distinct (keys (pl_sockets p))" using assms(2) by (simp add: payload_owns_def sockets_ok_def)
    show thesis by (rule that(2)) (use o Some good mark_active_remark [OF Some d] mark_active_Some [OF Some d] in auto)
  next
    case None
    then have new: "src_key bnd \<notin> set (keys (pl_sockets p))" by (simp add: mark_active_None)
    let ?ss = "pl_sockets p"
    have ow: "owned (set (map ic_fd ?ss)) tr" using assms(2) by (simp add: payload_owns_def sockets_ok_def)
    obtain r tr' where r: "open_iface os bnd (pl_dest p) mtu tr = (r, tr')" by (metis prod.collapse)
    note f = open_iface_frame [OF assms(1) ow, of bnd "pl_dest p" mtu, unfolded r]
    show thesis
    proof (cases r)
      case (Inl e)
      then show thesis using f assms(2) new
        by (intro that(1) [of e tr']) (simp_all add: o None r payload_owns_def sockets_ok_def)
    next
      case (Inr s)
      then have "ic_fd s \<noteq> -1" "ic_fd s \<notin> set (map ic_fd ?ss)" "owned (insert (ic_fd s) (set (map ic_fd ?ss))) tr'" "ic_src s = bnd" "ic_active s"
        using f by simp_all
      then show thesis using Inr assms(2) new good
        by (intro that(3) [of s tr']) (auto simp: o None r payload_owns_def sockets_ok_def src_key_def)
    qed
  qed
qed


lemma close_ctx_frame:
  "owned (insert (ic_fd s) L) tr \<Longrightarrow> ic_fd s \<notin> L \<Longrightarrow> ic_fd s \<noteq> -1 \<Longrightarrow> owned L (close_ctx os s tr)"
  unfolding close_ctx_def by (rule udp_close_frame)

lemma close_inactive_loop_spec:
  assumes "owned (L \<union> set (map ic_fd ss)) tr" "distinct (map ic_fd ss)" "L \<inter> set (map ic_fd ss) = {}" "-1 \<notin> set (map ic_fd ss)"
  shows "\<exists>tr'. close_inactive_loop os ss tr = (filter ic_active ss, tr') \<and> owned (L \<union> set (map ic_fd (filter ic_active ss))) tr'"
  using assms
proof (induction ss arbitrary: L tr)
  case (Cons s ss)
  show ?case
  proof (cases "ic_active s")
    case True
    have "\<exists>tr'. close_inactive_loop os ss tr = (filter ic_active ss, tr') \<and> owned (insert (ic_fd s) L \<union> set (map ic_fd (filter ic_active ss))) tr'"
      by (rule Cons.IH) (use Cons.prems in auto)
    then show ?thesis using True by auto
  next
    case False
    have "owned (insert (ic_fd s) (L \<union> set (map ic_fd ss))) tr" using Cons.prems(1) by simp
    then have "owned (L \<union> set (map ic_fd ss)) (close_ctx os s tr)" by (rule close_ctx_frame) (use Cons.prems in auto)
    then have "\<exists>tr'. close_inactive_loop os ss (close_ctx os s tr) = (filter ic_active ss, tr') \<and> owned (L \<union> set (map ic_fd (filter ic_active ss))) tr'"
      by (rule Cons.IH) (use Cons.prems in auto)
    then show ?thesis using False by auto
  qed
qed simp

lemma distinct_map_filter: "distinct (map f xs) \<Longrightarrow> distinct (map f (filter P xs))"
  by (simp add: distinct_map inj_on_def)

lemma close_inactive_spec:
  assumes "payload_owns (p, tr)"
  shows "\<exists>tr'. close_inactive os (p, tr) = (p\<lparr>pl_sockets := filter ic_active (pl_sockets p)\<rparr>, tr') \<and>
    payload_owns (p\<lparr>pl_sockets := filter ic_active (pl_sockets p)\<rparr>, tr')"
proof -
  let ?ss = "pl_sockets p"
  have a: "owned (set (map ic_fd ?ss)) tr" "distinct (map ic_fd ?ss)" "-1 \<notin> set (map ic_fd ?ss)"
    "distinct (keys ?ss)" "\<forall>k \<in> set (keys ?ss). good_addr (fst k)"
    using assms by (simp_all add: payload_owns_def sockets_ok_def)
  obtain tr' where c: "close_inactive_loop os ?ss tr = (filter ic_active ?ss, tr')" "owned (set (map ic_fd (filter ic_active ?ss))) tr'"
    using close_inactive_loop_spec [of "{}" ?ss tr os] a by auto
  have "distinct (map ic_fd (filter ic_active ?ss))" "distinct (keys (filter ic_active ?ss))"
    using a(2,4) unfolding keys_def by (intro distinct_map_filter, simp)+
  then have "sockets_ok (filter ic_active ?ss) tr'" using c(2) a by (auto simp: sockets_ok_def keys_def)
  then show ?thesis using c(1) by (simp add: close_inactive_def payload_owns_def)
qed

lemma close_first_spec:
  assumes "owned (L \<union> set (map ic_fd ss)) tr" "distinct (map ic_fd ss)" "L \<inter> set (map ic_fd ss) = {}" "-1 \<notin> set (map ic_fd ss)"
  shows "case close_first os a ss tr of None \<Rightarrow> src_key a \<notin> set (keys ss)
    | Some (ss', tr') \<Rightarrow> (\<exists>xs s ys. ss = xs @ s # ys \<and> ss' = xs @ ys \<and> src_key (ic_src s) = src_key a) \<and> owned (L \<union> set (map ic_fd ss')) tr'"
  using assms
proof (induction ss arbitrary: L tr)
  case (Cons s ss)
  show ?case
  proof (cases "same_src a s")
    case True
    have "owned (insert (ic_fd s) (L \<union> set (map ic_fd ss))) tr" using Cons.prems(1) by simp
    then have "owned (L \<union> set (map ic_fd ss)) (close_ctx os s tr)" by (rule close_ctx_frame) (use Cons.prems in auto)
    then show ?thesis using True by (auto simp: same_src_key intro: exI [of _ "[]"])
  next
    case False
    have ih: "case close_first os a ss tr of None \<Rightarrow> src_key a \<notin> set (keys ss)
      | Some (ss', tr') \<Rightarrow> (\<exists>xs t ys. ss = xs @ t # ys \<and> ss' = xs @ ys \<and> src_key (ic_src t) = src_key a) \<and>
          owned (insert (ic_fd s) L \<union> set (map ic_fd ss')) tr'"
      by (rule Cons.IH) (use Cons.prems in auto)
    show ?thesis
    proof (cases "close_first os a ss tr")
      case None
      then show ?thesis using ih False by (simp add: same_src_key)
    next
      case (Some r)
      obtain ss' tr' where r: "r = (ss', tr')" by (cases r)
      from ih have "\<exists>xs t ys. ss = xs @ t # ys \<and> ss' = xs @ ys \<and> src_key (ic_src t) = src_key a"
        and o: "owned (insert (ic_fd s) L \<union> set (map ic_fd ss')) tr'" by (simp_all add: Some r)
      then obtain xs t ys where "s # ss = (s # xs) @ t # ys \<and> s # ss' = (s # xs) @ ys \<and> src_key (ic_src t) = src_key a" by auto
      then have "\<exists>xs t ys. s # ss = xs @ t # ys \<and> s # ss' = xs @ ys \<and> src_key (ic_src t) = src_key a" by blast
      then show ?thesis using False Some r o by simp
    qed
  qed
qed simp

lemma payload_close_owns:
  assumes "payload_owns (p, tr)"
  shows "payload_owns (snd (payload_close os bnd (p, tr)))"
proof -
  have a: "owned (set (map ic_fd (pl_sockets p))) tr" "distinct (map ic_fd (pl_sockets p))" "-1 \<notin> set (map ic_fd (pl_sockets p))"
    using assms by (simp_all add: payload_owns_def sockets_ok_def)
  from close_first_spec [of "{}" "pl_sockets p" tr bnd os] a assms show ?thesis
    by (auto simp: payload_close_def payload_owns_def sockets_ok_def split: option.splits prod.splits)
qed

lemma payload_open_owns: "os_fresh os \<Longrightarrow> payload_owns s \<Longrightarrow> payload_owns (snd (payload_open os bnd mtu s))"
  by (cases s) (auto elim!: payload_open_cases [of os _ _ bnd mtu] simp: payload_owns_def)


section \<open>A query brings the list up to date\<close>

text \<open>Every query asks for some addresses, with the MTU of the interface of each.\<close>

type_synonym requests = "(sockaddr_in \<times> 32 word) list"

definition open_list :: "os \<Rightarrow> requests \<Rightarrow> payload \<times> trace \<Rightarrow> payload \<times> trace" where
  "open_list os reqs s = fold (\<lambda>(a, mtu) s. snd (payload_open os a mtu s)) reqs s"

definition iface_requests :: "(if_flag \<Rightarrow> 32 word) \<Rightarrow> 16 word \<Rightarrow> interface \<Rightarrow> requests" where
  "iface_requests IFF srcport intf = (if is_up (interface_status IFF intf)
     then map (\<lambda>ipv4. (\<lparr>sin_family = AF_INET, sin_port = srcport, sin_addr = ip_addr ipv4\<rparr>, iface_mtu intf)) (if_inet intf) else [])"

definition all_requests :: "(if_flag \<Rightarrow> 32 word) \<Rightarrow> 16 word \<Rightarrow> (string \<times> interface) list \<Rightarrow> requests" where
  "all_requests IFF srcport interfaces = concat (map (\<lambda>(name, intf). iface_requests IFF srcport intf) interfaces)"

fun addr_requests :: "(if_flag \<Rightarrow> 32 word) \<Rightarrow> sockaddr_in \<Rightarrow> (string \<times> interface) list \<Rightarrow> requests" where
  "addr_requests IFF iface [] = []"
| "addr_requests IFF iface ((name, intf) # rest) =
     (if is_up (interface_status IFF intf) \<and> sin_addr iface \<in> set (map ip_addr (if_inet intf)) then [(iface, iface_mtu intf)]
      else addr_requests IFF iface rest)"

lemma open_addresses_list: "open_addresses os IFF srcport intf s = open_list os (iface_requests IFF srcport intf) s"
  by (simp add: open_addresses_def open_list_def iface_requests_def fold_map comp_def)

lemma open_list_append: "open_list os (r1 @ r2) s = open_list os r2 (open_list os r1 s)"
  by (simp add: open_list_def)

lemma open_all_list: "fold (\<lambda>(name, intf) s. open_addresses os IFF srcport intf s) interfaces s = open_list os (all_requests IFF srcport interfaces) s"
  by (induction interfaces arbitrary: s) (auto simp: all_requests_def open_addresses_list open_list_append, simp add: open_list_def)

lemma open_found_list: "open_found os IFF iface interfaces s = open_list os (addr_requests IFF iface interfaces) s"
  by (induction os IFF iface interfaces s rule: open_found.induct) (auto simp: open_list_def)

definition req_keys :: "requests \<Rightarrow> (in_addr \<times> 16 word) set" where
  "req_keys reqs = (\<lambda>(a, mtu). src_key a) ` set reqs"

text \<open>While the requests \<open>W\<close> are opened: the list begins with the sockets that were there, what was added was asked for, and
  active is what was asked for.\<close>

definition opening_to :: "iface_ctx list \<Rightarrow> (in_addr \<times> 16 word) set \<Rightarrow> payload \<times> trace \<Rightarrow> bool" where
  "opening_to ss0 W s \<longleftrightarrow> payload_owns s \<and> (\<exists>new. keys (pl_sockets (fst s)) = keys ss0 @ new \<and> set new \<subseteq> W) \<and>
     (\<forall>c \<in> set (pl_sockets (fst s)). ic_active c \<longleftrightarrow> src_key (ic_src c) \<in> W)"

lemma opening_to_more:
  assumes "os_fresh os" "opening_to ss0 W (p, tr)"
  shows "opening_to ss0 (insert (src_key a) W) (snd (payload_open os a mtu (p, tr)))"
proof -
  have own: "payload_owns (p, tr)" using assms(2) by (simp add: opening_to_def)
  obtain new where new: "keys (pl_sockets p) = keys ss0 @ new" "set new \<subseteq> W" using assms(2) by (auto simp: opening_to_def)
  have act: "ic_active c \<longleftrightarrow> src_key (ic_src c) \<in> W" if "c \<in> set (pl_sockets p)" for c using assms(2) that by (simp add: opening_to_def)
  have mem: "src_key (ic_src c) \<in> set (keys (pl_sockets p))" if "c \<in> set (pl_sockets p)" for c using that by (simp add: keys_def)
  have good: "good_addr (fst (src_key (ic_src c)))" if "c \<in> set (pl_sockets p)" for c using own mem [OF that] by (simp add: payload_owns_def sockets_ok_def)
  from assms(1) own show ?thesis
  proof (cases rule: payload_open_cases [of os p tr a mtu])
    case (1 e tr')
    have "src_key (ic_src c) \<noteq> src_key a" if "c \<in> set (pl_sockets p)" for c
      using 1(3) mem [OF that] good [OF that] by (auto simp: src_key_def)
    then show ?thesis using 1 new act by (auto simp: opening_to_def)
  next
    case 2
    have "payload_owns (p\<lparr>pl_sockets := remark (\<lambda>s. ic_active s \<or> src_key (ic_src s) = src_key a) (pl_sockets p)\<rparr>, tr)"
      using own by (simp add: payload_owns_def)
    moreover have "ic_active c \<longleftrightarrow> src_key (ic_src c) \<in> insert (src_key a) W"
      if "c \<in> set (remark (\<lambda>s. ic_active s \<or> src_key (ic_src s) = src_key a) (pl_sockets p))" for c
      using that act by (auto simp: remark_def)
    ultimately show ?thesis using 2 new by (auto simp: opening_to_def)
  next
    case (3 s tr')
    have "keys (pl_sockets p @ [s]) = keys ss0 @ (new @ [src_key a])" using 3(3) new(1) by simp
    moreover have "ic_active c \<longleftrightarrow> src_key (ic_src c) \<in> insert (src_key a) W" if "c \<in> set (pl_sockets p @ [s])" for c
    proof (cases "c \<in> set (pl_sockets p)")
      case True
      then have "src_key (ic_src c) \<noteq> src_key a" using mem [OF True] 3(5) by auto
      then show ?thesis using act [OF True] by simp
    next
      case False
      then show ?thesis using that 3(3,4) by simp
    qed
    ultimately show ?thesis using 3(1,2) new(2) unfolding opening_to_def
      by (auto intro!: exI [of _ "new @ [src_key a]"])
  qed
qed

lemma open_list_opening:
  "os_fresh os \<Longrightarrow> opening_to ss0 W s \<Longrightarrow> opening_to ss0 (req_keys reqs \<union> W) (open_list os reqs s)"
proof (induction reqs arbitrary: W s)
  case (Cons r reqs)
  obtain a mtu p tr where r: "r = (a, mtu)" "s = (p, tr)" by (cases r; cases s)
  have "opening_to ss0 (insert (src_key a) W) (snd (payload_open os a mtu (p, tr)))"
    using opening_to_more Cons.prems r by blast
  from Cons.IH [OF Cons.prems(1) this] show ?case by (simp add: r open_list_def req_keys_def)
qed (simp add: open_list_def req_keys_def)

lemma set_inactive_opening: "payload_owns (p, tr) \<Longrightarrow> opening_to (pl_sockets p) {} (set_inactive p, tr)"
  by (auto simp: opening_to_def payload_owns_def set_inactive_remark, auto simp: remark_def)

lemma keys_filter: "keys (filter (\<lambda>s. src_key (ic_src s) \<in> W) ss) = filter (\<lambda>k. k \<in> W) (keys ss)"
  by (simp add: keys_def filter_map comp_def)

text \<open>What a query leaves: of the sockets that were there those that were asked for, in their order, and behind them new ones
  that were asked for.\<close>

definition up_to_date :: "(in_addr \<times> 16 word) set \<Rightarrow> payload \<Rightarrow> bool \<times> payload \<times> trace \<Rightarrow> bool" where
  "up_to_date W p r \<longleftrightarrow> (case r of (any, (p', tr')) \<Rightarrow> payload_owns (p', tr') \<and> (any \<longleftrightarrow> keys (pl_sockets p') \<noteq> []) \<and>
     (\<exists>new. keys (pl_sockets p') = filter (\<lambda>k. k \<in> W) (keys (pl_sockets p)) @ new \<and> set new \<subseteq> W))"

lemma query_up_to_date:
  assumes "os_fresh os" "payload_owns (p, tr)"
  shows "up_to_date (req_keys reqs) p (query_finish os (open_list os reqs (set_inactive p, tr)))"
proof -
  obtain p1 tr1 where 1: "open_list os reqs (set_inactive p, tr) = (p1, tr1)" by (metis prod.collapse)
  have op: "opening_to (pl_sockets p) (req_keys reqs) (p1, tr1)"
    using open_list_opening [OF assms(1) set_inactive_opening [OF assms(2)], of reqs] by (simp add: 1)
  then have own: "payload_owns (p1, tr1)" by (simp add: opening_to_def)
  obtain new where new: "keys (pl_sockets p1) = keys (pl_sockets p) @ new" "set new \<subseteq> req_keys reqs" using op by (auto simp: opening_to_def)
  let ?p2 = "p1\<lparr>pl_sockets := filter ic_active (pl_sockets p1)\<rparr>"
  obtain tr2 where 2: "close_inactive os (p1, tr1) = (?p2, tr2)" "payload_owns (?p2, tr2)" using close_inactive_spec [OF own] by blast
  have "filter ic_active (pl_sockets p1) = filter (\<lambda>s. src_key (ic_src s) \<in> req_keys reqs) (pl_sockets p1)"
    using op by (intro filter_cong) (auto simp: opening_to_def)
  then have k: "keys (pl_sockets ?p2) = filter (\<lambda>k. k \<in> req_keys reqs) (keys (pl_sockets p)) @ filter (\<lambda>k. k \<in> req_keys reqs) new"
    by (simp add: keys_filter new(1))
  have "keys (pl_sockets ?p2) \<noteq> [] \<longleftrightarrow> pl_sockets ?p2 \<noteq> []" by (simp add: keys_def)
  with 2 k show ?thesis unfolding up_to_date_def query_finish_def 1 Let_def by auto
qed


text \<open>An interface is used when it is up and running and has multicast, and is not the loopback.\<close>

definition usable :: "(if_flag \<Rightarrow> 32 word) \<Rightarrow> interface \<Rightarrow> bool" where
  "usable IFF i \<longleftrightarrow> if_flagbits i AND IFF MULTICAST \<noteq> 0 \<and> if_flagbits i AND IFF UP \<noteq> 0 \<and> if_flagbits i AND IFF RUNNING \<noteq> 0 \<and>
     if_flagbits i AND IFF LOOPBACK = 0"

lemma bit_iface_ready: "bit (flag_mask iface_ready) n \<longleftrightarrow> n = flag_bit MULTICAST \<or> n = flag_bit UP \<or> n = flag_bit RUNNING"
  by (auto simp: iface_ready_def flags_or_bit_def flags_of_bit_def bit_or_iff bit_if_flags)

lemma bit_iface_mask: "bit (flag_mask iface_mask) n \<longleftrightarrow> bit (flag_mask iface_ready) n \<or> n = flag_bit LOOPBACK"
  by (auto simp: iface_mask_def flags_or_bit_def bit_or_iff bit_if_flags)

lemma and_eq_iff: "w AND m = r \<longleftrightarrow> (\<forall>n. bit w n \<and> bit m n \<longleftrightarrow> bit r n)" for w m r :: "32 word"
proof
  show "\<forall>n. bit w n \<and> bit m n \<longleftrightarrow> bit r n" if "w AND m = r" using that by (metis bit_and_iff)
qed (auto simp: bit_eq_iff bit_and_iff)

lemma four_bits: "(\<forall>n. f n \<and> ((n = 12 \<or> n = 0 \<or> n = 6) \<or> n = 3) \<longleftrightarrow> n = 12 \<or> n = 0 \<or> n = 6) \<longleftrightarrow> f 12 \<and> f 0 \<and> f 6 \<and> \<not> f (3 :: nat)" (is "?l = ?r")
proof
  assume l: ?l
  show ?r using spec [OF l, of 12] spec [OF l, of 0] spec [OF l, of 6] spec [OF l, of 3] by simp
qed auto

lemma is_up_iff: "is_up (interface_status IFF i) \<longleftrightarrow> usable IFF i"
proof -
  have "is_up (interface_status IFF i) \<longleftrightarrow> (\<forall>n. bit (flag_mask (interface_status IFF i)) n \<and> bit (flag_mask iface_mask) n \<longleftrightarrow> bit (flag_mask iface_ready) n)"
    by (simp add: is_up_def flags_eq_def flags_and_def and_eq_iff)
  also have "\<dots> \<longleftrightarrow> bit (flag_mask (interface_status IFF i)) (flag_bit MULTICAST) \<and> bit (flag_mask (interface_status IFF i)) (flag_bit UP) \<and>
      bit (flag_mask (interface_status IFF i)) (flag_bit RUNNING) \<and> \<not> bit (flag_mask (interface_status IFF i)) (flag_bit LOOPBACK)"
    unfolding bit_iface_mask bit_iface_ready flag_bit_def if_flag.case by (rule four_bits)
  finally show ?thesis unfolding interface_status_bit usable_def by blast
qed

definition wanted :: "(if_flag \<Rightarrow> 32 word) \<Rightarrow> 16 word \<Rightarrow> interface set \<Rightarrow> (in_addr \<times> 16 word) set" where
  "wanted IFF srcport intfs = {(a, srcport) | a i. i \<in> intfs \<and> usable IFF i \<and> a \<in> ip_addr ` set (if_inet i)}"

lemma iface_requests_keys: "req_keys (iface_requests IFF srcport i) = wanted IFF srcport {i}"
  by (auto simp: iface_requests_def is_up_iff req_keys_def wanted_def src_key_def image_image)

lemma wanted_insert: "wanted IFF srcport (insert i A) = wanted IFF srcport {i} \<union> wanted IFF srcport A"
  unfolding wanted_def by blast

lemma all_requests_keys: "req_keys (all_requests IFF srcport ifs) = wanted IFF srcport (snd ` set ifs)"
proof (induction ifs)
  case (Cons x ifs)
  have "req_keys (all_requests IFF srcport (x # ifs)) = req_keys (iface_requests IFF srcport (snd x)) \<union> req_keys (all_requests IFF srcport ifs)"
    by (cases x) (simp add: all_requests_def req_keys_def image_Un)
  then show ?case unfolding Cons.IH iface_requests_keys by (simp only: list.set image_insert wanted_insert [of _ _ "snd x" "snd ` set ifs"])
qed (simp add: all_requests_def req_keys_def wanted_def)

lemma addr_requests_keys: "req_keys (addr_requests IFF iface ifs) =
    (if \<exists>i \<in> snd ` set ifs. usable IFF i \<and> sin_addr iface \<in> ip_addr ` set (if_inet i) then {src_key iface} else {})"
proof (induction IFF iface ifs rule: addr_requests.induct)
  case (2 IFF iface name intf rest)
  then show ?case
    by (cases "usable IFF intf \<and> sin_addr iface \<in> ip_addr ` set (if_inet intf)") (simp_all add: is_up_iff, simp_all add: req_keys_def)
qed (simp add: req_keys_def)

text \<open>C16: A query over all interfaces, over one, or for one address keeps of the sockets exactly those whose address is still one
  of a usable interface, in their order, closes the others, and adds only sockets for such addresses; it never opens an
  address twice, and says whether there is a socket.\<close>

theorem payload_query_up_to_date:
  assumes "os_fresh os" "payload_owns (p, tr)"
  shows "up_to_date (wanted IFF srcport (snd ` set interfaces)) p (payload_query_all os IFF interfaces srcport (p, tr)) \<and>
    up_to_date (wanted IFF srcport (set_option pintf)) p (payload_query_iface os IFF pintf srcport (p, tr)) \<and>
    up_to_date (if \<exists>i \<in> snd ` set interfaces. usable IFF i \<and> sin_addr iface \<in> ip_addr ` set (if_inet i) then {src_key iface} else {}) p
      (payload_query_addr os IFF interfaces iface (p, tr))"
proof (intro conjI)
  note q = query_up_to_date [OF assms]
  show "up_to_date (wanted IFF srcport (snd ` set interfaces)) p (payload_query_all os IFF interfaces srcport (p, tr))"
    using q [of "all_requests IFF srcport interfaces"] by (simp add: payload_query_all_def open_all_list all_requests_keys)
  show "up_to_date (wanted IFF srcport (set_option pintf)) p (payload_query_iface os IFF pintf srcport (p, tr))"
  proof (cases pintf)
    case None
    then show ?thesis using q [of "[]"] by (simp add: payload_query_iface_def open_list_def req_keys_def wanted_def)
  next
    case (Some intf)
    then show ?thesis using q [of "iface_requests IFF srcport intf"] by (simp add: payload_query_iface_def open_addresses_list iface_requests_keys)
  qed
  show "up_to_date (if \<exists>i \<in> snd ` set interfaces. usable IFF i \<and> sin_addr iface \<in> ip_addr ` set (if_inet i) then {src_key iface} else {}) p
      (payload_query_addr os IFF interfaces iface (p, tr))"
    using q [of "addr_requests IFF iface interfaces"] by (simp only: payload_query_addr_def open_found_list addr_requests_keys prod.case)
qed


subsection \<open>When no call fails\<close>

definition never_fails :: "os \<Rightarrow> bool" where
  "never_fails os \<longleftrightarrow> (\<forall>tr c. \<exists>r. os tr c = Inr r)"














text \<open>A system that numbers the descriptors and refuses nothing, and one interface.\<close>

definition one_socket_more :: os where
  "one_socket_more tr c = (case c of Sys_socket \<Rightarrow> Inr (Max (insert 2 (live tr)) + 1) | _ \<Rightarrow> Inr 0)"

lemma finite_live: "finite (live tr)"
proof (induction tr rule: rev_induct)
  case (snoc x tr)
  have "finite (live_step y L)" if "finite L" for y L using that by (cases "(y, L)" rule: live_step.cases) simp_all
  then show ?case using snoc by simp
qed (simp add: live_def)

lemma one_socket_more_ok: "os_fresh one_socket_more" "never_fails one_socket_more"
proof -
  have "Max (insert 2 (live tr)) + 1 \<noteq> -1 \<and> Max (insert 2 (live tr)) + 1 \<notin> live tr" for tr
  proof -
    have "x \<le> Max (insert 2 (live tr))" if "x \<in> insert 2 (live tr)" for x using finite_live that by (intro Max_ge) simp_all
    from this [of 2] this [of "Max (insert 2 (live tr)) + 1"] show ?thesis by auto
  qed
  then show "os_fresh one_socket_more" by (simp add: os_fresh_def one_socket_more_def)
  have "\<exists>r. one_socket_more tr c = Inr r" for tr c by (cases c) (simp_all add: one_socket_more_def)
  then show "never_fails one_socket_more" by (simp add: never_fails_def)
qed


definition sdd_dest :: sockaddr_in where
  "sdd_dest = \<lparr>sin_family = AF_INET, sin_port = htons default_port, sin_addr = htonl default_dest\<rparr>"

definition addr7 :: "in_addr \<Rightarrow> sockaddr_in" where
  "addr7 a = \<lparr>sin_family = AF_INET, sin_port = 7, sin_addr = a\<rparr>"

definition ctx7 :: "in_addr \<Rightarrow> int \<Rightarrow> iface_ctx" where
  "ctx7 a fd = \<lparr>ic_src = addr7 a, ic_mtu = 1500, ic_ipv4hdr = 20, ic_udp = udp_new\<lparr>u_socket := fd\<rparr>, ic_active = True\<rparr>"

definition en0 :: interface where
  "en0 = (interface_new ''en0'')\<lparr>if_inet := [if_ipv4_new 0x0100000A], if_flagbits := 0x1041\<rparr>"

definition two_sockets :: "payload \<times> trace" where
  "two_sockets = (\<lparr>pl_sockets = [ctx7 0x0200000A 3, ctx7 0x0100000A 4], pl_dest = sdd_dest\<rparr>, [(Sys_socket, Inr 3), (Sys_socket, Inr 4)])"

lemma en0_wanted: "wanted if_flags 7 {en0} = {(0x0100000A, 7)}"
proof -
  have "usable if_flags en0" by (simp add: usable_def en0_def if_flags_def)
  then show ?thesis by (auto simp: wanted_def en0_def interface_new_def if_ipv4_new_def)
qed

lemma two_sockets_own: "payload_owns two_sockets"
  by (auto simp: two_sockets_def payload_owns_def sockets_ok_def owned_def uses_ok_def live_def ctx7_def addr7_def udp_new_def src_key_def good_addr_def
      less_Suc_eq)

lemma payload_query_up_to_date_witness:
  "keys (pl_sockets (fst (snd (payload_query_all one_socket_more if_flags [(''en0'', en0)] 7 two_sockets)))) = [(0x0100000A, 7)]"
proof -
  obtain p tr where s: "two_sockets = (p, tr)" by (cases two_sockets)
  then have k: "keys (pl_sockets p) = [(0x0200000A, 7), (0x0100000A, 7)]"
    by (auto simp: two_sockets_def ctx7_def addr7_def src_key_def)
  obtain any p' tr' where r: "payload_query_all one_socket_more if_flags [(''en0'', en0)] 7 two_sockets = (any, (p', tr'))" by (metis prod.collapse)
  have "up_to_date (wanted if_flags 7 {en0}) p (any, (p', tr'))"
    using payload_query_up_to_date [OF one_socket_more_ok(1), of p tr if_flags 7 "[(''en0'', en0)]" None "addr7 0"] two_sockets_own
    unfolding s [symmetric] r by simp
  then obtain new where n: "keys (pl_sockets p') = [(0x0100000A, 7)] @ new" "set new \<subseteq> {(0x0100000A, 7)}" "distinct (keys (pl_sockets p'))"
    by (auto simp: up_to_date_def en0_wanted k payload_owns_def sockets_ok_def)
  then have "new = []" by (cases new) auto
  then show ?thesis using n(1) by (simp add: r)
qed



section \<open>What is sent\<close>

text \<open>The error of the first call of a trace that failed.\<close>

fun first_error :: "trace \<Rightarrow> int" where
  "first_error [] = 0"
| "first_error ((c, Inl e) # tr) = (if e \<noteq> 0 then e else first_error tr)"
| "first_error ((c, Inr _) # tr) = first_error tr"

lemma udp_send_open: "u_socket u \<noteq> -1 \<Longrightarrow>
    udp_send os p (u, tr) = (os tr (Sys_send (u_socket u) p), (u, tr @ [(Sys_send (u_socket u) p, os tr (Sys_send (u_socket u) p))]))"
  by (simp add: udp_send_def on_socket_def eff_defs syscall_def)

lemma send_loop_spec:
  assumes "\<forall>c \<in> set ctxs. ic_fd c \<noteq> -1"
  shows "\<exists>new. send_loop os errno0 p ctxs e tr = (if e = 0 then first_error new else e, tr @ new) \<and>
    map fst new = map (\<lambda>c. Sys_send (ic_fd c) p) (filter (payload_fits (length p)) ctxs)"
  using assms
proof (induction ctxs arbitrary: errno0 e tr)
  case (Cons c ctxs)
  have fd: "ic_fd c \<noteq> -1" and rest: "\<forall>c \<in> set ctxs. ic_fd c \<noteq> -1" using Cons.prems by simp_all
  let ?c = "Sys_send (ic_fd c) p"
  show ?case
  proof (cases "payload_fits (length p) c")
    case False
    then show ?thesis using Cons.IH [OF rest, of errno0 e tr] by simp
  next
    case True
    show ?thesis
    proof (cases "os tr ?c")
      case (Inl err)
      obtain new where "send_loop os err p ctxs (if e = 0 then err else e) (tr @ [(?c, Inl err)]) =
          (if (if e = 0 then err else e) = 0 then first_error new else if e = 0 then err else e, (tr @ [(?c, Inl err)]) @ new)"
        "map fst new = map (\<lambda>c. Sys_send (ic_fd c) p) (filter (payload_fits (length p)) ctxs)"
        using Cons.IH [OF rest] by blast
      then show ?thesis using True Inl fd by (intro exI [of _ "(?c, Inl err) # new"]) (auto simp: udp_send_open)
    next
      case (Inr n)
      obtain new where "send_loop os errno0 p ctxs e (tr @ [(?c, Inr n)]) = (if e = 0 then first_error new else e, (tr @ [(?c, Inr n)]) @ new)"
        "map fst new = map (\<lambda>c. Sys_send (ic_fd c) p) (filter (payload_fits (length p)) ctxs)"
        using Cons.IH [OF rest] by blast
      then show ?thesis using True Inr fd by (intro exI [of _ "(?c, Inr n) # new"]) (auto simp: udp_send_open)
    qed
  qed
qed simp

lemma payload_send_calls:
  assumes "payload_owns (p, tr)"
  shows "\<exists>new. payload_send os errno0 t (p, tr) = (if first_error new \<noteq> 0 then Inl (first_error new) else Inr (), (p, tr @ new)) \<and>
    map fst new = map (\<lambda>c. Sys_send (ic_fd c) (map of_char t)) (filter (payload_fits (length t)) (pl_sockets p))"
proof -
  have "-1 \<notin> ic_fd ` set (pl_sockets p)" using assms by (simp add: payload_owns_def sockets_ok_def)
  then have "\<forall>c \<in> set (pl_sockets p). ic_fd c \<noteq> -1" by (metis imageI)
  from send_loop_spec [OF this, of os errno0 "map of_char t" 0 tr] show ?thesis by (auto simp: payload_send_def)
qed

text \<open>Sending gives the text once to each socket whose MTU it fits, in their order and whatever the calls before it
  returned, and reports the first error.\<close>

theorem payload_send_once_each:
  assumes "payload_owns (p, tr)"
  shows "\<exists>new. payload_send os errno0 t (p, tr) = (if first_error new \<noteq> 0 then Inl (first_error new) else Inr (), (p, tr @ new)) \<and>
    map fst new = map (\<lambda>c. Sys_send (ic_fd c) (map of_char t)) (filter (payload_fits (length t)) (pl_sockets p))"
  using assms by (rule payload_send_calls)

lemma payload_send_once_each_witness:
  "map fst (snd (snd (payload_send one_socket_more 0 ''hi'' two_sockets))) = [Sys_socket, Sys_socket, Sys_send 3 [104, 105], Sys_send 4 [104, 105]]"
proof -
  obtain p tr where s: "two_sockets = (p, tr)" by (cases two_sockets)
  from payload_send_once_each [of p tr one_socket_more 0 "''hi''"] two_sockets_own show ?thesis
    unfolding s [symmetric] using s by (auto simp: two_sockets_def payload_fits_def ctx7_def udp_new_def)
qed

text \<open>The bound on the length: a text that fills the packet exactly is not sent, and below 28 bytes of MTU every text is.\<close>

lemma payload_fits_bound: "unat (ic_ipv4hdr c) + 8 \<le> unat (ic_mtu c) \<Longrightarrow> ic_mtu c \<noteq> 0 \<Longrightarrow>
    payload_fits len c \<longleftrightarrow> len + unat (ic_ipv4hdr c) + 8 < unat (ic_mtu c)"
proof -
  assume a: "unat (ic_ipv4hdr c) + 8 \<le> unat (ic_mtu c)" "ic_mtu c \<noteq> 0"
  have "unat (ic_mtu c - ic_ipv4hdr c) = unat (ic_mtu c) - unat (ic_ipv4hdr c)" using a by (intro unat_sub) (simp add: word_le_nat_alt)
  moreover from this have "unat (ic_mtu c - ic_ipv4hdr c - 8) = unat (ic_mtu c - ic_ipv4hdr c) - 8" using a by (subst unat_sub) (simp_all add: word_le_nat_alt)
  ultimately show ?thesis using a by (auto simp: payload_fits_def)
qed

lemma payload_fits_wraps: "payload_fits 65000 \<lparr>ic_src = addr7 0, ic_mtu = 20, ic_ipv4hdr = 20, ic_udp = udp_new, ic_active = True\<rparr>"
  by (simp add: payload_fits_def)

section \<open>The whole object\<close>

datatype payload_op = P_open sockaddr_in "32 word" | P_close sockaddr_in | P_query_all "(string \<times> interface) list" "16 word"
  | P_query_iface "interface option" "16 word" | P_query_addr "(string \<times> interface) list" sockaddr_in | P_send int string

fun payload_call :: "(if_flag \<Rightarrow> 32 word) \<Rightarrow> os \<Rightarrow> payload_op \<Rightarrow> payload \<times> trace \<Rightarrow> payload \<times> trace" where
  "payload_call IFF os (P_open a mtu) s = snd (payload_open os a mtu s)"
| "payload_call IFF os (P_close a) s = snd (payload_close os a s)"
| "payload_call IFF os (P_query_all ifs port) s = snd (payload_query_all os IFF ifs port s)"
| "payload_call IFF os (P_query_iface i port) s = snd (payload_query_iface os IFF i port s)"
| "payload_call IFF os (P_query_addr ifs a) s = snd (payload_query_addr os IFF ifs a s)"
| "payload_call IFF os (P_send errno0 t) s = snd (payload_send os errno0 t s)"

inductive payload_step :: "(if_flag \<Rightarrow> 32 word) \<Rightarrow> os \<Rightarrow> payload \<times> trace \<Rightarrow> payload \<times> trace \<Rightarrow> bool" for IFF os where
  "payload_step IFF os s (payload_call IFF os op s)"

inductive_cases payload_stepE: "payload_step IFF os s s'"

definition payload_init :: "payload \<times> trace \<Rightarrow> bool" where
  "payload_init s \<longleftrightarrow> (\<exists>dest. payload_new dest = Some (fst s)) \<and> snd s = []"

lemma payload_call_owns:
  assumes "os_fresh os" "payload_owns s"
  shows "payload_owns (payload_call IFF os op s)"
proof -
  obtain p tr where s: "s = (p, tr)" by (cases s)
  have q: "payload_owns (snd (query_finish os (open_list os reqs (set_inactive p, tr))))" for reqs
    using query_up_to_date [OF assms(1), of p tr reqs] assms(2) by (auto simp: s up_to_date_def split: prod.splits)
  show ?thesis
  proof (cases op)
    case (P_open a mtu)
    then show ?thesis using payload_open_owns assms by simp
  next
    case (P_close a)
    then show ?thesis using payload_close_owns assms by (simp add: s)
  next
    case (P_query_all ifs port)
    then show ?thesis using q by (simp add: s payload_query_all_def open_all_list)
  next
    case (P_query_iface i port)
    have n: "open_list os [] (set_inactive p, tr) = (set_inactive p, tr)" by (simp add: open_list_def)
    show ?thesis using q [of "[]", unfolded n] q P_query_iface by (cases i) (simp_all add: s payload_query_iface_def open_addresses_list)
  next
    case (P_query_addr ifs a)
    then show ?thesis using q by (simp add: s payload_query_addr_def open_found_list)
  next
    case (P_send errno0 t)
    obtain new where n: "snd (payload_send os errno0 t (p, tr)) = (p, tr @ new)"
      "map fst new = map (\<lambda>c. Sys_send (ic_fd c) (map of_char t)) (filter (payload_fits (length t)) (pl_sockets p))"
      using payload_send_calls [of p tr os errno0 t] assms(2) by (auto simp: s)
    have "owned L (tr @ new)" if "owned L tr" "\<forall>x \<in> set (map fst new). \<exists>fd \<in> L. \<exists>d. x = Sys_send fd d" for L
      using that by (induction new rule: rev_induct) (fastforce simp: owned_def append_assoc [symmetric] simp del: append_assoc)+
    then have "payload_owns (p, tr @ new)" using assms(2) n(2) by (auto simp: s payload_owns_def sockets_ok_def)
    then show ?thesis using n(1) by (simp add: P_send s)
  qed
qed

interpretation payload_object: invariant_of payload_init "payload_step IFF os" "\<lambda>s. os_fresh os \<longrightarrow> payload_owns s" for IFF os
proof (unfold_locales)
  show "os_fresh os \<longrightarrow> payload_owns s" if "payload_init s" for s
    using that by (cases s) (auto simp: payload_init_def payload_new_def payload_owns_def sockets_ok_def split: if_splits)
  show "os_fresh os \<longrightarrow> payload_owns s'" if "os_fresh os \<longrightarrow> payload_owns s" "payload_step IFF os s s'" for s s'
    using that(2) by cases (use that(1) in \<open>auto intro: payload_call_owns\<close>)
qed

text \<open>C15: In every run of a \<open>payload\<close> every call goes to a descriptor that is open, what is open is exactly the sockets of
  the list, each once and for an address of its own, however the openings and the queries end.\<close>

theorem payload_no_descriptor_leak:
  assumes "os_fresh os" "reachable payload_init (payload_step IFF os) (p, tr)"
  shows "uses_ok tr \<and> live tr = set (map ic_fd (pl_sockets p)) \<and> distinct (map ic_fd (pl_sockets p)) \<and> distinct (keys (pl_sockets p))"
proof -
  from payload_object.holds [OF assms(2)] assms(1) have "payload_owns (p, tr)" by blast
  then show ?thesis by (simp add: payload_owns_def sockets_ok_def owned_def)
qed


lemma payload_no_descriptor_leak_witness:
  "\<exists>p tr. snd (payload_open one_socket_more (addr7 0x0100000A) 0 (\<lparr>pl_sockets = [], pl_dest = sdd_dest\<rparr>, [])) = (p, tr) \<and> live tr = set (map ic_fd (pl_sockets p))"
proof -
  let ?s0 = "(\<lparr>pl_sockets = [], pl_dest = sdd_dest\<rparr>, [])"
  have "payload_new sdd_dest = Some \<lparr>pl_sockets = [], pl_dest = sdd_dest\<rparr>"
    using default_addresses(3) by (simp add: payload_new_def sdd_dest_def)
  then have "payload_init ?s0" unfolding payload_init_def by auto
  then have r: "reachable payload_init (payload_step if_flags one_socket_more) (payload_call if_flags one_socket_more (P_open (addr7 0x0100000A) 0) ?s0)"
    by (rule nextstep [OF start]) (rule payload_step.intros)
  obtain p tr where s: "payload_call if_flags one_socket_more (P_open (addr7 0x0100000A) 0) ?s0 = (p, tr)" by (metis prod.collapse)
  from payload_no_descriptor_leak [OF one_socket_more_ok(1) r [unfolded s]] s show ?thesis by auto
qed

text \<open>The prefix of a network mask is the number of its leading ones.\<close>

lemma count_bits_step: "count_bits n b c = (if n AND b \<noteq> 0 \<and> b \<noteq> 0 then count_bits n (drop_bit 1 b) (c + 1) else c)"
  by (rule count_bits.simps)

lemma count_bits_ones: "k \<le> 31 \<Longrightarrow> (\<forall>i < j. bit n (k - i)) \<Longrightarrow> j \<le> k + 1 \<Longrightarrow> (j = k + 1 \<or> \<not> bit n (k - j)) \<Longrightarrow>
    count_bits n (2 ^ k) c = c + int j"
proof (induction j arbitrary: k c)
  case 0
  then have "\<not> bit n k" by simp
  then have "n AND 2 ^ k = 0" by (intro bit_word_eqI) (auto simp: bit_and_iff bit_exp_iff)
  then show ?case by (subst count_bits_step) simp
next
  case (Suc j)
  have b: "bit n k" using Suc.prems(2) by force
  have "bit (n AND 2 ^ k) k" using b Suc.prems(1) by (simp add: bit_and_iff bit_exp_iff)
  then have nz: "n AND 2 ^ k \<noteq> 0" by auto
  have nz2: "(2 :: 32 word) ^ k \<noteq> 0" using Suc.prems(1) by simp
  show ?case
  proof (cases k)
    case 0
    then have "drop_bit 1 ((2 :: 32 word) ^ k) = 0" by simp
    moreover have "count_bits n 0 (c + 1) = c + 1" by (subst count_bits_step) simp
    ultimately show ?thesis using nz nz2 Suc.prems(3) 0 by (subst count_bits_step) simp
  next
    case (Suc k')
    have "bit (drop_bit 1 ((2 :: 32 word) ^ k)) i \<longleftrightarrow> bit ((2 :: 32 word) ^ k') i" for i
      unfolding bit_drop_bit_eq bit_exp_iff comp_def using Suc Suc.prems(1) by auto
    then have d: "drop_bit 1 ((2 :: 32 word) ^ k) = 2 ^ k'" by (intro bit_word_eqI) simp
    have "\<forall>i < j. bit n (k' - i)" using Suc.prems(2) Suc by (metis Suc_less_eq diff_Suc_Suc)
    then have "count_bits n (2 ^ k') (c + 1) = (c + 1) + int j"
      by (rule Suc.IH [rotated]) (use Suc.prems Suc in auto)
    then show ?thesis using nz nz2 d by (subst count_bits_step) simp
  qed
qed


lemma ipv4_prefix:
  assumes "ip_nmask a = Some m" "j \<le> 32" "\<forall>i < j. bit (ntohl m) (31 - i)" "j = 32 \<or> \<not> bit (ntohl m) (31 - j)"
  shows "ipv4_to_string inet_ntop a = inet_ntos_addr inet_ntop (ip_addr a) @ ''/'' @ int_to_string (int j)"
proof -
  have "count_bits (ntohl m) (2 ^ 31) 0 = 0 + int j" by (rule count_bits_ones) (use assms in auto)
  then show ?thesis using assms(1) by (simp add: ipv4_to_string_def)
qed

lemma ipv4_prefix_24: "ipv4_to_string (\<lambda>_. Some ''10.0.0.1'') \<lparr>ip_addr = 0x0100000A, ip_baddr = None, ip_daddr = None, ip_nmask = Some 0x00FFFFFF\<rparr> = ''10.0.0.1/24''"
proof -
  have "ntohl 0x00FFFFFF = 0xFFFFFF00" by code_simp
  moreover have "\<forall>i < 24. bit (0xFFFFFF00 :: 32 word) (31 - i)" by code_simp
  moreover have "\<not> bit (0xFFFFFF00 :: 32 word) (31 - 24)" by code_simp
  moreover have "int_to_string 24 = ''24''" by code_simp
  ultimately show ?thesis using ipv4_prefix [of "\<lparr>ip_addr = 0x0100000A, ip_baddr = None, ip_daddr = None, ip_nmask = Some 0x00FFFFFF\<rparr>" "0x00FFFFFF" 24 "\<lambda>_. Some ''10.0.0.1''"]
    by (simp add: inet_ntos_addr_def)
qed


section \<open>The program\<close>

text \<open>Which query each round of \<open>main\<close> makes; \<open>one_iface\<close> is \<open>query_net_interface\<close>.\<close>

definition sdd_query :: "os \<Rightarrow> (if_flag \<Rightarrow> 32 word) \<Rightarrow> (string \<times> interface) list \<Rightarrow> (string \<Rightarrow> interface option) \<Rightarrow> sdd_options \<Rightarrow>
    payload \<times> trace \<Rightarrow> bool \<times> payload \<times> trace" where
  "sdd_query os IFF interfaces one_iface opts s =
     (if sin_addr (do_source opts) \<noteq> 0 then payload_query_addr os IFF interfaces (do_source opts) s
      else if do_source_iface opts = [] then payload_query_all os IFF interfaces (sin_port (do_source opts)) s
      else payload_query_iface os IFF (one_iface (do_source_iface opts)) (sin_port (do_source opts)) s)"

text \<open>The destination may be unicast, says the help; the constructor throws and \<open>main\<close> does not catch.\<close>

lemma sdd_unicast_throws:
  "case sdd_make_options one_addr [Some ''sdd'', Some ''-D10.0.0.1''] of Inr s \<Rightarrow> payload_new (do_dest s) = None | Inl _ \<Rightarrow> False"
  by code_simp

lemma sdd_default_accepted: "case sdd_make_options one_addr [Some ''sdd''] of Inr s \<Rightarrow> payload_new (do_dest s) \<noteq> None | Inl _ \<Rightarrow> False"
  by code_simp

end
