(* ===== verification/BpfSocket.thy ===== *)
theory BpfSocket
  imports Inet
begin

text \<open>
  The raw UDP socket of \<open>poc/bpf_udp4\<close>: the packet header that is kept between
  datagrams and rewritten for each packet or fragment (\<open>bpf_l2_udp_packet.cpp\<close>), and the loop
  of \<open>bpf_socket::send\<close> that writes them.  \<open>writev\<close> is a parameter: what the k-th call
  returns, nothing or an \<open>errno\<close>.  The loop is a partial function, so that a loop that does not
  end has no value.
\<close>

record l2_udp_packet =
  l2_hdr :: "byte list"
  l2_fragmentation_id :: "16 word"

record packet_view =
  view_data :: "byte list"
  view_hdr_size :: nat
  view_payload_len :: nat

abbreviation (input) "IPV4_OFFSET \<equiv> 14 :: nat"
abbreviation (input) "UDP_OFFSET \<equiv> 34 :: nat"

section \<open>The packet\<close>

definition l2_udp_packet_new :: l2_udp_packet where
  "l2_udp_packet_new =
     (let hdr = replicate 42 0;
          hdr = write_uint16_t_be hdr ETH_PROTO 0x0800;
          hdr = hdr[IPV4_OFFSET + IPV4HDR_VER_IHL := 0x40 OR 5];
          hdr = hdr[IPV4_OFFSET + IPV4HDR_TOS := 0];
          hdr = hdr[IPV4_OFFSET + IPV4HDR_TTL := 1];
          hdr = hdr[IPV4_OFFSET + IPV4HDR_PROTO := 17]
      in \<lparr>l2_hdr = hdr, l2_fragmentation_id = 0\<rparr>)"

definition write_src_mac :: "ether_addr \<Rightarrow> l2_udp_packet \<Rightarrow> l2_udp_packet" where
  "write_src_mac mac p = p\<lparr>l2_hdr := memcpy_to (l2_hdr p) ETH_SRC_MAC (ether_addr_octet mac)\<rparr>"

definition write_dest_mac :: "ether_addr \<Rightarrow> l2_udp_packet \<Rightarrow> l2_udp_packet" where
  "write_dest_mac mac p = p\<lparr>l2_hdr := memcpy_to (l2_hdr p) ETH_DST_MAC (ether_addr_octet mac)\<rparr>"

definition write_src_ip :: "sockaddr_in \<Rightarrow> l2_udp_packet \<Rightarrow> l2_udp_packet" where
  "write_src_ip src p =
     (let hdr = write_uint32_t (l2_hdr p) (IPV4_OFFSET + IPV4HDR_SRC_IP) (sin_addr src)
      in p\<lparr>l2_hdr := write_uint16_t hdr (UDP_OFFSET + UDP_SRC_PORT) (sin_port src)\<rparr>)"

definition write_dest_ip :: "sockaddr_in \<Rightarrow> l2_udp_packet \<Rightarrow> l2_udp_packet" where
  "write_dest_ip dest p =
     (let hdr = write_uint32_t (l2_hdr p) (IPV4_OFFSET + IPV4HDR_DST_IP) (sin_addr dest)
      in p\<lparr>l2_hdr := write_uint16_t hdr (UDP_OFFSET + UDP_DEST_PORT) (sin_port dest)\<rparr>)"

definition increment_fragment_id :: "l2_udp_packet \<Rightarrow> l2_udp_packet" where
  "increment_fragment_id p = p\<lparr>l2_fragmentation_id := l2_fragmentation_id p + 1\<rparr>"

definition bpf_calc_ipv4_cs :: "byte list \<Rightarrow> nat \<Rightarrow> 16 word" where
  "bpf_calc_ipv4_cs hdr offset = ucast (NOT (fold_cs (add_words hdr offset (20 div 2) 0)))"

definition calc_udp4_cs :: "byte list \<Rightarrow> nat \<Rightarrow> byte list \<Rightarrow> 16 word" where
  "calc_udp4_cs hdr offset payload =
     (let udp_len = ucast (of_nat (length payload) :: 16 word) + 8 :: 32 word;
          cs = ucast (read_uint16_t_be hdr (offset + IPV4HDR_SRC_IP));
          cs = cs + ucast (read_uint16_t_be hdr (offset + IPV4HDR_SRC_IP + 2));
          cs = cs + ucast (read_uint16_t_be hdr (offset + IPV4HDR_DST_IP));
          cs = cs + ucast (read_uint16_t_be hdr (offset + IPV4HDR_DST_IP + 2));
          cs = cs + ucast (hdr ! (offset + IPV4HDR_PROTO));
          cs = cs + udp_len;
          cs = add_words hdr (offset + 20) 4 cs;
          cs = add_words payload 0 (length payload div 2) cs;
          cs = (if udp_len mod 2 = 1 then cs + push_bit 8 (ucast (payload ! (length payload - 1))) else cs);
          cs = fold_cs cs
      in if cs = 0xFFFF then ucast cs else ucast (NOT cs))"

text \<open>The two checksums that both versions of \<open>get_header\<close> end with.\<close>

definition put_ipv4_cs :: "byte list \<Rightarrow> byte list" where
  "put_ipv4_cs hdr =
     (let hdr = write_uint16_t_be hdr (IPV4_OFFSET + IPV4HDR_CHECKSUM) 0
      in write_uint16_t_be hdr (IPV4_OFFSET + IPV4HDR_CHECKSUM) (bpf_calc_ipv4_cs hdr IPV4_OFFSET))"

definition put_udp_len_cs :: "byte list \<Rightarrow> byte list \<Rightarrow> byte list" where
  "put_udp_len_cs payload hdr =
     (let hdr = write_uint16_t_be hdr (UDP_OFFSET + UDP_LEN) (of_nat (length payload) + 8);
          hdr = write_uint16_t_be hdr (UDP_OFFSET + UDP_CHECKSUM) 0
      in write_uint16_t_be hdr (UDP_OFFSET + UDP_CHECKSUM) (calc_udp4_cs hdr IPV4_OFFSET payload))"

definition get_header :: "byte list \<Rightarrow> l2_udp_packet \<Rightarrow> packet_view \<times> l2_udp_packet" where
  "get_header udp_payload p =
     (let hdr = write_uint16_t_be (l2_hdr p) (IPV4_OFFSET + IPV4HDR_LEN) (of_nat (length udp_payload + 20 + 8));
          hdr = write_uint16_t_be hdr (IPV4_OFFSET + IPV4HDR_ID) (l2_fragmentation_id p);
          hdr = write_uint16_t_be hdr (IPV4_OFFSET + IPV4HDR_FLAGS) 0;
          hdr = put_ipv4_cs hdr;
          hdr = put_udp_len_cs udp_payload hdr
      in (\<lparr>view_data = hdr, view_hdr_size = length hdr, view_payload_len = length udp_payload\<rparr>, p\<lparr>l2_hdr := hdr\<rparr>))"

definition first_fragment :: "byte list \<Rightarrow> 16 word \<Rightarrow> l2_udp_packet \<Rightarrow> packet_view \<times> l2_udp_packet" where
  "first_fragment udp_payload mtu p =
     (let len = ucast ((ucast mtu - 20 - 8) AND NOT 7 :: 64 word) :: 16 word;
          hdr = write_uint16_t_be (l2_hdr p) (IPV4_OFFSET + IPV4HDR_LEN) (len + 20 + 8);
          hdr = write_uint16_t_be hdr (IPV4_OFFSET + IPV4HDR_ID) (l2_fragmentation_id p);
          flags = 0x2000;
          hdr = write_uint16_t_be hdr (IPV4_OFFSET + IPV4HDR_FLAGS) flags;
          hdr = put_ipv4_cs hdr;
          hdr = put_udp_len_cs udp_payload hdr
      in (\<lparr>view_data = hdr, view_hdr_size = length hdr, view_payload_len = unat len\<rparr>, p\<lparr>l2_hdr := hdr\<rparr>))"

definition get_fragment_header :: "byte list \<Rightarrow> 64 word \<Rightarrow> 16 word \<Rightarrow> l2_udp_packet \<Rightarrow> packet_view \<times> l2_udp_packet" where
  "get_fragment_header udp_payload offset mtu p =
     (if offset = 0 then first_fragment udp_payload mtu p
      else
        let max_len = ucast ((ucast mtu - 20) AND NOT 7 :: 64 word) :: 16 word;
            rest = of_nat (length udp_payload) - offset;
            (len, flags) = (if rest > ucast max_len then (max_len, 0x2000) else (ucast rest :: 16 word, 0));
            hdr = write_uint16_t_be (l2_hdr p) (IPV4_OFFSET + IPV4HDR_LEN) (len + 20);
            flags = flags OR ucast (drop_bit 3 (offset + 8));
            hdr = write_uint16_t_be hdr (IPV4_OFFSET + IPV4HDR_FLAGS) flags;
            hdr = put_ipv4_cs hdr
        in (\<lparr>view_data = hdr, view_hdr_size = IPV4_OFFSET + 20, view_payload_len = unat len\<rparr>, p\<lparr>l2_hdr := hdr\<rparr>))"

section \<open>Sending\<close>

text \<open>The two buffers of a \<open>writev\<close>: the header, and the payload from the offset on.\<close>

definition iov :: "packet_view \<Rightarrow> byte list \<Rightarrow> nat \<Rightarrow> byte list" where
  "iov v data offset = take (view_hdr_size v) (view_data v) @ take (view_payload_len v) (drop offset data)"

type_synonym send_result = "(int + unit) \<times> byte list list \<times> l2_udp_packet"

partial_function (option) send_fragments ::
    "(nat \<Rightarrow> int option) \<Rightarrow> 32 word \<Rightarrow> byte list \<Rightarrow> 64 word \<Rightarrow> byte list list \<Rightarrow> l2_udp_packet \<Rightarrow> send_result option" where
  "send_fragments writev mtu data offset sent p =
     (if offset < of_nat (length data) then
        case get_fragment_header data offset (ucast mtu) p of (v, p) \<Rightarrow>
          case writev (length sent) of Some errno \<Rightarrow> Some (Inl errno, sent, p)
          | None \<Rightarrow> send_fragments writev mtu data (offset + of_nat (view_payload_len v))
              (sent @ [iov v data (unat offset)]) p
      else Some (Inr (), sent, p))"

definition send :: "(nat \<Rightarrow> int option) \<Rightarrow> bool \<Rightarrow> 32 word \<Rightarrow> byte list \<Rightarrow> l2_udp_packet \<Rightarrow> send_result option" where
  "send writev sock mtu data p =
     (if \<not> sock then Some (Inl 22, [], p)
      else if of_nat (length data) \<le> (ucast (mtu - 28) :: 64 word) then
        case get_header data p of (v, p) \<Rightarrow>
          case writev 0 of Some errno \<Rightarrow> Some (Inl errno, [], p)
          | None \<Rightarrow> Some (Inr (), [iov v data 0], p)
      else send_fragments writev mtu data 0 [] p)"

section \<open>The header keeps its shape\<close>

text \<open>Ethernet, IPv4 and UDP headers of one flow; the fields that change from packet to packet are arguments.\<close>

definition flow_hdr :: "ether_addr \<Rightarrow> ether_addr \<Rightarrow> sockaddr_in \<Rightarrow> sockaddr_in \<Rightarrow>
    16 word \<Rightarrow> 16 word \<Rightarrow> 16 word \<Rightarrow> 16 word \<Rightarrow> 16 word \<Rightarrow> 16 word \<Rightarrow> byte list" where
  "flow_hdr d s src dst L ident fl ic U uc = eth_plain d s @
     ipv4_bytes L ident fl 1 ic (sin_addr src) (sin_addr dst) @ udp_bytes (sin_port src) (sin_port dst) U uc"

lemma flow_hdr_writes:
  "write_uint16_t_be (flow_hdr d s src dst L ident fl ic U uc) (IPV4_OFFSET + IPV4HDR_LEN) v = flow_hdr d s src dst v ident fl ic U uc"
  "write_uint16_t_be (flow_hdr d s src dst L ident fl ic U uc) (IPV4_OFFSET + IPV4HDR_ID) v = flow_hdr d s src dst L v fl ic U uc"
  "write_uint16_t_be (flow_hdr d s src dst L ident fl ic U uc) (IPV4_OFFSET + IPV4HDR_FLAGS) v = flow_hdr d s src dst L ident v ic U uc"
  "write_uint16_t_be (flow_hdr d s src dst L ident fl ic U uc) (IPV4_OFFSET + IPV4HDR_CHECKSUM) v = flow_hdr d s src dst L ident fl v U uc"
  "write_uint16_t_be (flow_hdr d s src dst L ident fl ic U uc) (UDP_OFFSET + UDP_LEN) v = flow_hdr d s src dst L ident fl ic v uc"
  "write_uint16_t_be (flow_hdr d s src dst L ident fl ic U uc) (UDP_OFFSET + UDP_CHECKSUM) v = flow_hdr d s src dst L ident fl ic U v"
  by (simp_all add: flow_hdr_def write_uint16_t_be_eq list_update_append ipv4_bytes_def udp_bytes_def addr_bytes_def port_bytes_def)

lemma flow_hdr_length [simp]: "length (flow_hdr d s src dst L ident fl ic U uc) = 42"
  by (simp add: flow_hdr_def)

lemma put_ipv4_cs_ok:
  "\<exists>ic'. put_ipv4_cs (flow_hdr d s src dst L ident fl ic U uc) = flow_hdr d s src dst L ident fl ic' U uc \<and>
     checksum_ok (ipv4_bytes L ident fl 1 ic' (sin_addr src) (sin_addr dst))"
proof -
  have h: "flow_hdr d s src dst L ident fl 0 U uc = eth_plain d s @
      ipv4_bytes L ident fl 1 0 (sin_addr src) (sin_addr dst) @ udp_bytes (sin_port src) (sin_port dst) U uc"
    by (simp add: flow_hdr_def)
  show ?thesis
    using ipv4_checksum_ok [OF h]
    unfolding put_ipv4_cs_def Let_def flow_hdr_writes bpf_calc_ipv4_cs_def by auto
qed

lemma put_udp_len_cs_ok:
  assumes n: "length data + 8 < 65536"
  shows "\<exists>uc'. put_udp_len_cs data (flow_hdr d s src dst L ident fl ic U uc)
      = flow_hdr d s src dst L ident fl ic (of_nat (length data + 8)) uc' \<and>
     checksum_ok (pseudo_header (sin_addr src) (sin_addr dst) (of_nat (length data + 8)) @
       udp_bytes (sin_port src) (sin_port dst) (of_nat (length data + 8)) uc' @ data)"
proof -
  define len where "len = (of_nat (length data + 8) :: 16 word)"
  define h where "h = flow_hdr d s src dst L ident fl ic len 0"
  let ?i = "ipv4_bytes L ident fl 1 ic (sin_addr src) (sin_addr dst)"
  let ?u = "udp_bytes (sin_port src) (sin_port dst) len"
  have h': "h = eth_plain d s @ ?i @ ?u 0" by (simp add: h_def flow_hdr_def)
  have ul: "unat len = length data + 8" unfolding len_def unat_of_nat using n by simp
  have l: "ucast (of_nat (length data) :: 16 word) + 8 = (ucast len :: 32 word)"
  proof -
    have "unat (of_nat (length data) :: 16 word) = length data" unfolding unat_of_nat using n by simp
    then have "unat (ucast (of_nat (length data) :: 16 word) + 8 :: 32 word) = length data + 8"
      using n by (simp add: unat_plus_if' unat_ucast_up)
    then show ?thesis by (simp add: word_unat_eq_iff ul unat_ucast_up)
  qed
  have odd: "(ucast len :: 32 word) mod 2 = 1 \<longleftrightarrow> odd (length data)"
  proof -
    have "unat (ucast len mod 2 :: 32 word) = (length data + 8) mod 2" by (simp add: unat_mod_distrib ul unat_ucast_up)
    then show ?thesis by (metis even_add even_numeral odd_iff_mod_2_eq_one unat_1 word_unat_eq_iff)
  qed
  let ?o = "length (eth_plain d s)"
  define c0 where "c0 = ucast (read_uint16_t_be h (?o + IPV4HDR_SRC_IP)) + ucast (read_uint16_t_be h (?o + IPV4HDR_SRC_IP + 2))
      + ucast (read_uint16_t_be h (?o + IPV4HDR_DST_IP)) + ucast (read_uint16_t_be h (?o + IPV4HDR_DST_IP + 2))
      + ucast (h ! (?o + IPV4HDR_PROTO)) + (ucast len :: 32 word)"
  define c1 where "c1 = add_words h (?o + 20) 4 c0"
  define c2 where "c2 = add_words data 0 (length data div 2) c1"
  define c3 where "c3 = (if odd (length data) then c2 + push_bit 8 (ucast (data ! (length data - 1))) else c2)"
  have c0: "unat c0 = oc_sum (pseudo_header (sin_addr src) (sin_addr dst) len)"
    unfolding c0_def by (rule pseudo_sum_header [OF h' refl])
  have c1: "c1 = add_words ((eth_plain d s @ ?i) @ ?u 0 @ []) (length (eth_plain d s @ ?i)) 4 c0"
    by (simp add: c1_def h')
  have c3: "unat c3 = oc_sum (pseudo_header (sin_addr src) (sin_addr dst) len @ ?u 0 @ data)"
    by (rule udp_sum [OF c0 even_pseudo(2) c1 _ c2_def c3_def]) (use n in simp_all)
  have "calc_udp4_cs h IPV4_OFFSET data = (if fold_cs c3 = 0xFFFF then ucast (fold_cs c3) else ucast (NOT (fold_cs c3)))"
    unfolding calc_udp4_cs_def Let_def l odd c3_def c2_def c1_def c0_def eth_plain_length by simp
  from udp_checksum_ok [OF c3 this]
  have "checksum_ok (pseudo_header (sin_addr src) (sin_addr dst) len @ ?u (calc_udp4_cs h IPV4_OFFSET data) @ data)" .
  moreover have "put_udp_len_cs data (flow_hdr d s src dst L ident fl ic U uc)
      = flow_hdr d s src dst L ident fl ic len (calc_udp4_cs h IPV4_OFFSET data)"
  proof -
    have "of_nat (length data) + 8 = len" by (simp add: len_def)
    then show ?thesis unfolding put_udp_len_cs_def Let_def flow_hdr_writes by (simp add: h_def flow_hdr_writes)
  qed
  ultimately show ?thesis unfolding len_def by blast
qed

text \<open>What the constructor of the socket leaves.\<close>

lemma socket_packet:
  "l2_hdr (write_src_ip src (write_src_mac s (write_dest_ip dst (write_dest_mac d l2_udp_packet_new))))
     = flow_hdr d s src dst 0 0 0 0 0 0"
proof -
  obtain d0 d1 d2 d3 d4 d5 where d: "d = Ether_addr d0 d1 d2 d3 d4 d5" by (cases d)
  obtain s0 s1 s2 s3 s4 s5 where s: "s = Ether_addr s0 s1 s2 s3 s4 s5" by (cases s)
  have r: "replicate 42 (0 :: byte) = [0, 0, 0, 0, 0, 0, 0, 0, 0, 0, 0, 0, 0, 0, 0, 0, 0, 0, 0, 0, 0, 0, 0, 0, 0, 0, 0, 0, 0, 0, 0, 0, 0, 0, 0, 0, 0, 0, 0, 0, 0, 0]"
    by (simp add: eval_nat_numeral)
  have n: "l2_hdr l2_udp_packet_new = [0, 0, 0, 0, 0, 0, 0, 0, 0, 0, 0, 0, 8, 0, 0x45, 0, 0, 0, 0, 0, 0, 0, 1, 17, 0, 0, 0, 0, 0, 0, 0, 0, 0, 0, 0, 0, 0, 0, 0, 0, 0, 0]"
    unfolding l2_udp_packet_new_def r by (simp add: write_uint16_t_be_eq)
  show ?thesis
    by (simp add: write_src_ip_def write_src_mac_def write_dest_ip_def write_dest_mac_def n Let_def d s memcpy_to_def
        write_uint32_t_def write_uint16_t_def flow_hdr_def eth_plain_def ipv4_bytes_def udp_bytes_def addr_bytes_def
        port_bytes_def hi_def lo_def)
qed

section \<open>Arithmetic of the fragment fields\<close>

lemma and_not_7: "unat (x AND NOT 7 :: 64 word) = 8 * (unat x div 8)"
proof -
  have m: "(7 :: 64 word) = mask 3" by (simp add: mask_numeral)
  have "x = (x AND mask 3) OR (x AND NOT (mask 3))" by (auto simp: bit_eq_iff bit_simps)
  also have "\<dots> = (x AND mask 3) + (x AND NOT (mask 3))"
    by (rule disjunctive_add_eq_or [symmetric]) (auto simp: bit_eq_iff bit_simps)
  finally have "x AND NOT 7 = x - (x AND mask 3)" unfolding m by (metis add_diff_cancel_left')
  moreover have "unat (x - (x AND mask 3)) = unat x - unat (x AND mask 3)"
    by (rule unat_sub) (rule word_and_le2)
  moreover have "unat (x AND mask 3) = unat x mod 8"
    by (simp add: take_bit_eq_mask [symmetric] unsigned_take_bit_eq) (simp add: take_bit_eq_mod)
  ultimately show ?thesis by (simp add: minus_mod_eq_mult_div)
qed

lemma unat_ucast_64: "unat (ucast (w :: 16 word) :: 64 word) = unat w" "unat (ucast (m :: 32 word) :: 64 word) = unat m"
  using unsigned_less [of w, where ?'a = nat] unsigned_less [of m, where ?'a = nat]
  by (simp_all add: unsigned_ucast_eq take_bit_eq_mod)

text \<open>The greatest payload of a packet, a multiple of eight.\<close>

lemma max_len_value:
  fixes c :: "64 word"
  assumes "unat c \<le> unat m"
  shows "unat (ucast ((ucast (m :: 16 word) - c) AND NOT 7 :: 64 word) :: 16 word) = 8 * ((unat m - unat c) div 8)"
proof -
  have "c \<le> ucast m" using assms by (simp add: word_le_nat_alt unat_ucast_64)
  then have "unat (ucast m - c) = unat m - unat c" by (simp add: unat_sub unat_ucast_64)
  then have u: "unat ((ucast m - c) AND NOT 7) = 8 * ((unat m - unat c) div 8)" unfolding and_not_7 by simp
  also have "\<dots> \<le> unat m" by simp
  finally have "unat ((ucast m - c) AND NOT 7) < 2 ^ 16" using unat_word16 [of m] by simp
  then show ?thesis using u by (simp add: unsigned_ucast_eq take_bit_eq_mod)
qed

lemma mtu_16: "unat (mtu :: 32 word) < 65536 \<Longrightarrow> unat (ucast mtu :: 16 word) = unat mtu"
  by (simp add: unsigned_ucast_eq take_bit_eq_mod)

text \<open>More-fragments bit and offset share a word.\<close>

lemma flags_or:
  fixes v :: "16 word"
  assumes "unat v < 8192"
  shows "unat (0x2000 OR v) = 8192 + unat v"
proof -
  have v: "v = take_bit 13 v"
    using assms by (simp add: word_unat_eq_iff unsigned_take_bit_eq) (simp add: take_bit_eq_mod)
  have b: "\<not> bit v n" if "13 \<le> n" for n
    using that by (subst v) (simp add: bit_take_bit_iff)
  have p: "(0x2000 :: 16 word) = push_bit 13 1" by (simp add: push_bit_eq_mult)
  have bp: "bit (0x2000 :: 16 word) n \<longleftrightarrow> n = 13" for n
    unfolding p bit_push_bit_iff bit_1_iff by auto
  have "0x2000 OR v = 0x2000 + v"
    by (rule disjunctive_add_eq_or [symmetric]) (rule bit_eqI, use b bp in \<open>auto simp only: bit_and_iff bit_0_eq\<close>)
  then show ?thesis using assms by (simp add: unat_plus_if')
qed

section \<open>Every fragment is accepted\<close>

text \<open>A frame of the flow, and the IPv4 packet a receiver sees in it.\<close>

definition frame_carries :: "ether_addr \<Rightarrow> ether_addr \<Rightarrow> sockaddr_in \<Rightarrow> sockaddr_in \<Rightarrow> 16 word \<Rightarrow> byte list \<Rightarrow> ipv4_rx \<Rightarrow> bool" where
  "frame_carries d s src dst ident f ip \<longleftrightarrow>
     frame_receive f = Some \<lparr>rx_dst_mac = ether_addr_octet d, rx_src_mac = ether_addr_octet s, rx_vlan = None, rx_ip = ip\<rparr> \<and>
     rx_id ip = unat ident \<and> rx_src ip = addr_bytes (sin_addr src) \<and> rx_dst ip = addr_bytes (sin_addr dst)"

text \<open>Fragments in order, each at the position where the one before ends, the last one without the bit.\<close>

fun reassemble :: "nat \<Rightarrow> ipv4_rx list \<Rightarrow> byte list option" where
  "reassemble pos [] = None"
| "reassemble pos (x # xs) =
     (if rx_offset x \<noteq> pos then None
      else if rx_mf x then map_option (\<lambda>r. rx_data x @ r) (reassemble (pos + length (rx_data x)) xs)
      else if xs = [] then Some (rx_data x) else None)"

lemma frame_carriesI:
  assumes "checksum_ok (ipv4_bytes L ident fl 1 ic (sin_addr src) (sin_addr dst))" "unat L = 20 + length data"
  shows "frame_carries d s src dst ident (eth_plain d s @ ipv4_bytes L ident fl 1 ic (sin_addr src) (sin_addr dst) @ data)
    \<lparr>rx_id = unat ident, rx_mf = odd (unat fl div 8192), rx_offset = 8 * (unat fl mod 8192), rx_ttl = 1,
      rx_src = addr_bytes (sin_addr src), rx_dst = addr_bytes (sin_addr dst), rx_data = data\<rparr>"
  using frame_receive_plain [OF ipv4_receive_ok [OF assms]] by (simp add: frame_carries_def)

definition flow :: "ether_addr \<Rightarrow> ether_addr \<Rightarrow> sockaddr_in \<Rightarrow> sockaddr_in \<Rightarrow> 16 word \<Rightarrow> l2_udp_packet \<Rightarrow> bool" where
  "flow d s src dst ident p \<longleftrightarrow> (\<exists>L fl ic U uc. l2_hdr p = flow_hdr d s src dst L ident fl ic U uc) \<and> l2_fragmentation_id p = ident"

lemma fragment_step:
  fixes mtu :: "32 word"
  assumes f: "flow d s src dst ident p" and M: "36 \<le> unat mtu" "unat mtu < 65536"
    and n: "0 < unat offset" "unat offset < length data" "unat offset mod 8 = 0" "length data \<le> 65507"
    and g: "get_fragment_header data offset (ucast mtu) p = (v, p')"
  shows "flow d s src dst ident p' \<and>
    view_payload_len v = min (length data - unat offset) (8 * ((unat mtu - 20) div 8)) \<and>
    length (iov v data (unat offset)) = 34 + view_payload_len v \<and>
    (\<exists>ip. frame_carries d s src dst ident (iov v data (unat offset)) ip \<and> rx_offset ip = unat offset + 8 \<and>
      rx_mf ip = (8 * ((unat mtu - 20) div 8) < length data - unat offset) \<and>
      rx_data ip = take (view_payload_len v) (drop (unat offset) data))"
proof -
  let ?ml = "8 * ((unat mtu - 20) div 8)" and ?rest = "length data - unat offset"
  define max_len where "max_len = (ucast ((ucast (ucast mtu :: 16 word) - 20) AND NOT 7 :: 64 word) :: 16 word)"
  define rest where "rest = of_nat (length data) - offset"
  have len64: "unat (of_nat (length data) :: 64 word) = length data" unfolding unat_of_nat using n(4) by simp
  have ml: "unat max_len = ?ml"
    unfolding max_len_def using M by (subst max_len_value) (simp_all add: mtu_16)
  have r: "unat rest = ?rest"
    unfolding rest_def using n len64 by (subst unat_sub) (simp_all add: word_le_nat_alt)
  define len where "len = (if rest > ucast max_len then max_len else ucast rest)"
  define fl0 where "fl0 = (if rest > ucast max_len then 0x2000 else 0 :: 16 word)"
  define fl where "fl = fl0 OR ucast (drop_bit 3 (offset + 8))"
  have more: "rest > ucast max_len \<longleftrightarrow> ?ml < ?rest" by (simp add: word_less_nat_alt r ml unat_ucast_64)
  have len: "unat len = min ?rest ?ml"
  proof (cases "?ml < ?rest")
    case False
    then have "unat rest < 2 ^ 16" using r n(4) by simp
    then have "unat (ucast rest :: 16 word) = ?rest" using r by (simp add: unsigned_ucast_eq take_bit_eq_mod)
    then show ?thesis using False more by (simp add: len_def)
  qed (use more ml in \<open>simp add: len_def\<close>)
  have pos: "unat (ucast (drop_bit 3 (offset + 8)) :: 16 word) = (unat offset + 8) div 8"
  proof -
    have "unat (offset + 8) = unat offset + 8" using n by (simp add: unat_plus_if')
    then have "unat (drop_bit 3 (offset + 8)) = (unat offset + 8) div 8"
      by (simp add: unat_drop_bit_eq drop_bit_eq_div unat_div_distrib)
    moreover have "(unat offset + 8) div 8 < 65536" using n by simp
    ultimately show ?thesis by (simp add: unsigned_ucast_eq take_bit_eq_mod)
  qed
  have small: "(unat offset + 8) div 8 < 8192" using n by (simp add: less_mult_imp_div_less)
  have fl: "unat fl = (if ?ml < ?rest then 8192 else 0) + (unat offset + 8) div 8"
    using flags_or [of "ucast (drop_bit 3 (offset + 8))"] pos small more by (simp add: fl_def fl0_def)
  have flv: "odd (unat fl div 8192) = (?ml < ?rest)" "8 * (unat fl mod 8192) = unat offset + 8"
  proof -
    define q where "q = (unat offset + 8) div 8"
    have q: "q < 8192" "8 * q = unat offset + 8" using small n(3) by (auto simp: q_def)
    then have "(8192 + q) div 8192 = 1" "(8192 + q) mod 8192 = q" "q div 8192 = 0" "q mod 8192 = q" by simp_all
    then show "odd (unat fl div 8192) = (?ml < ?rest)" "8 * (unat fl mod 8192) = unat offset + 8"
      using q(2) unfolding fl q_def [symmetric] by (cases "?ml < ?rest"; simp)+
  qed
  obtain L fl' ic U uc where hdr: "l2_hdr p = flow_hdr d s src dst L ident fl' ic U uc" and fi: "l2_fragmentation_id p = ident"
    using f unfolding flow_def by blast
  obtain ic' where ic': "put_ipv4_cs (flow_hdr d s src dst (len + 20) ident fl ic U uc) = flow_hdr d s src dst (len + 20) ident fl ic' U uc"
    "checksum_ok (ipv4_bytes (len + 20) ident fl 1 ic' (sin_addr src) (sin_addr dst))"
    using put_ipv4_cs_ok by blast
  let ?h = "flow_hdr d s src dst (len + 20) ident fl ic' U uc"
  have "offset \<noteq> 0" using n by auto
  then have vp: "v = \<lparr>view_data = ?h, view_hdr_size = 34, view_payload_len = unat len\<rparr>" "p' = p\<lparr>l2_hdr := ?h\<rparr>"
  proof -
    have pr: "(if rest > ucast max_len then (max_len, 0x2000) else (ucast rest, 0)) = (len, fl0)"
      by (simp add: len_def fl0_def)
    have "get_fragment_header data offset (ucast mtu) p
        = (\<lparr>view_data = ?h, view_hdr_size = IPV4_OFFSET + 20, view_payload_len = unat len\<rparr>, p\<lparr>l2_hdr := ?h\<rparr>)"
      unfolding get_fragment_header_def if_not_P [OF \<open>offset \<noteq> 0\<close>] Let_def max_len_def [symmetric] rest_def [symmetric]
        pr prod.case hdr flow_hdr_writes fl_def [symmetric] ic'(1) ..
    then show "v = \<lparr>view_data = ?h, view_hdr_size = 34, view_payload_len = unat len\<rparr>" "p' = p\<lparr>l2_hdr := ?h\<rparr>"
      using g by simp_all
  qed
  have d: "length (take (unat len) (drop (unat offset) data)) = unat len" using len by simp
  have i: "iov v data (unat offset) = eth_plain d s @ ipv4_bytes (len + 20) ident fl 1 ic' (sin_addr src) (sin_addr dst)
      @ take (unat len) (drop (unat offset) data)"
    by (simp add: iov_def vp flow_hdr_def)
  have "unat (len + 20) = 20 + length (take (unat len) (drop (unat offset) data))"
    unfolding d using len M by (simp add: unat_plus_if')
  note c = frame_carriesI [OF ic'(2) this, of d s, folded i, unfolded flv]
  have "flow d s src dst ident p'" using fi by (simp add: flow_def vp(2)) blast
  moreover have "length (iov v data (unat offset)) = 34 + unat len" unfolding i using d by simp
  moreover have "view_payload_len v = unat len" by (simp add: vp(1))
  moreover have "\<exists>ip. frame_carries d s src dst ident (iov v data (unat offset)) ip \<and> rx_offset ip = unat offset + 8 \<and>
      rx_mf ip = (?ml < ?rest) \<and> rx_data ip = take (unat len) (drop (unat offset) data)"
    by (rule exI, rule conjI, rule c) simp
  ultimately show ?thesis using len by simp
qed

lemma flow_hdr_frame:
  "take 34 (flow_hdr d s src dst L ident fl ic U uc) = eth_plain d s @ ipv4_bytes L ident fl 1 ic (sin_addr src) (sin_addr dst)"
  "take 42 (flow_hdr d s src dst L ident fl ic U uc) @ x = eth_plain d s @ ipv4_bytes L ident fl 1 ic (sin_addr src) (sin_addr dst)
     @ (udp_bytes (sin_port src) (sin_port dst) U uc @ x)"
  by (simp_all add: flow_hdr_def)

text \<open>The UDP segment that a datagram has to become.\<close>

definition segment_ok :: "sockaddr_in \<Rightarrow> sockaddr_in \<Rightarrow> byte list \<Rightarrow> byte list \<Rightarrow> bool" where
  "segment_ok src dst data seg \<longleftrightarrow> udp_receive (addr_bytes (sin_addr src)) (addr_bytes (sin_addr dst)) seg
     = Some \<lparr>rx_sport = port_bytes (sin_port src), rx_dport = port_bytes (sin_port dst), rx_payload = data\<rparr>"

lemma segment_okI:
  assumes "checksum_ok (pseudo_header (sin_addr src) (sin_addr dst) (of_nat (length data + 8)) @
       udp_bytes (sin_port src) (sin_port dst) (of_nat (length data + 8)) uc @ data)" "length data \<le> 65507"
  shows "segment_ok src dst data (udp_bytes (sin_port src) (sin_port dst) (of_nat (length data + 8)) uc @ data)"
proof -
  have U: "unat (of_nat (length data + 8) :: 16 word) = 8 + length data" unfolding unat_of_nat using assms(2) by simp
  show ?thesis unfolding segment_ok_def
    by (rule udp_receive_ok [OF _ U]) (use assms(1) in \<open>simp add: pseudo_header_def\<close>)
qed

text \<open>The first packet, whole or the first fragment: \<open>n\<close> bytes of payload with the flags \<open>fl\<close>.\<close>

lemma first_packet:
  assumes f: "flow d s src dst ident p" and len: "length data \<le> 65507" "n \<le> length data" "unat L = n + 28"
    and h: "h = put_udp_len_cs data (put_ipv4_cs (write_uint16_t_be (write_uint16_t_be (write_uint16_t_be (l2_hdr p)
        (IPV4_OFFSET + IPV4HDR_LEN) L) (IPV4_OFFSET + IPV4HDR_ID) (l2_fragmentation_id p)) (IPV4_OFFSET + IPV4HDR_FLAGS) fl))"
  shows "length h = 42 \<and> flow d s src dst ident (p\<lparr>l2_hdr := h\<rparr>) \<and>
    (\<exists>ip. frame_carries d s src dst ident (take 42 h @ take n data) ip \<and> rx_mf ip = odd (unat fl div 8192) \<and>
      rx_offset ip = 8 * (unat fl mod 8192) \<and>
      (\<exists>u. length u = 8 \<and> rx_data ip = u @ take n data \<and> segment_ok src dst data (u @ data)))"
proof -
  obtain L' fl' ic' U uc' where hdr: "l2_hdr p = flow_hdr d s src dst L' ident fl' ic' U uc'" and fi: "l2_fragmentation_id p = ident"
    using f unfolding flow_def by blast
  obtain ic where ic: "put_ipv4_cs (flow_hdr d s src dst L ident fl ic' U uc') = flow_hdr d s src dst L ident fl ic U uc'"
    "checksum_ok (ipv4_bytes L ident fl 1 ic (sin_addr src) (sin_addr dst))"
    using put_ipv4_cs_ok by blast
  let ?U = "of_nat (length data + 8) :: 16 word"
  have n8: "length data + 8 < 65536" using len(1) by simp
  obtain uc where uc: "put_udp_len_cs data (flow_hdr d s src dst L ident fl ic U uc') = flow_hdr d s src dst L ident fl ic ?U uc"
    "checksum_ok (pseudo_header (sin_addr src) (sin_addr dst) ?U @ udp_bytes (sin_port src) (sin_port dst) ?U uc @ data)"
    using put_udp_len_cs_ok [OF n8] by blast
  have h: "h = flow_hdr d s src dst L ident fl ic ?U uc"
    unfolding h hdr fi flow_hdr_writes ic(1) uc(1) ..
  let ?u = "udp_bytes (sin_port src) (sin_port dst) ?U uc"
  have "unat L = 20 + length (?u @ take n data)" using len by simp
  from frame_carriesI [OF ic(2) this, of d s]
  have "frame_carries d s src dst ident (take 42 h @ take n data)
    \<lparr>rx_id = unat ident, rx_mf = odd (unat fl div 8192), rx_offset = 8 * (unat fl mod 8192), rx_ttl = 1,
      rx_src = addr_bytes (sin_addr src), rx_dst = addr_bytes (sin_addr dst), rx_data = ?u @ take n data\<rparr>"
    unfolding h flow_hdr_frame(2) .
  moreover have "segment_ok src dst data (?u @ data)" by (rule segment_okI [OF uc(2) len(1)])
  moreover have "flow d s src dst ident (p\<lparr>l2_hdr := h\<rparr>)" unfolding flow_def h using fi by simp blast
  moreover have "length h = 42" by (simp add: h)
  ultimately show ?thesis by (intro conjI exI [of _ "\<lparr>rx_id = unat ident, rx_mf = odd (unat fl div 8192),
      rx_offset = 8 * (unat fl mod 8192), rx_ttl = 1, rx_src = addr_bytes (sin_addr src), rx_dst = addr_bytes (sin_addr dst),
      rx_data = ?u @ take n data\<rparr>"] exI [of _ ?u]) simp_all
qed

section \<open>The loop delivers the datagram\<close>

definition delivered :: "ether_addr \<Rightarrow> ether_addr \<Rightarrow> sockaddr_in \<Rightarrow> sockaddr_in \<Rightarrow> 16 word \<Rightarrow> nat \<Rightarrow> byte list list \<Rightarrow> ipv4_rx list \<Rightarrow> bool" where
  "delivered d s src dst ident mtu fs ips \<longleftrightarrow>
     list_all2 (\<lambda>f ip. frame_carries d s src dst ident f ip \<and> length f \<le> 14 + mtu) fs ips"

lemma send_fragments_rest:
  fixes mtu :: "32 word"
  assumes M: "36 \<le> unat mtu" "unat mtu < 65536" and len: "length data \<le> 65507"
  shows "flow d s src dst ident p \<Longrightarrow> 0 < unat offset \<Longrightarrow> unat offset < length data \<Longrightarrow> unat offset mod 8 = 0 \<Longrightarrow>
    \<exists>fs ips p'. send_fragments (\<lambda>_. None) mtu data offset sent p = Some (Inr (), sent @ fs, p') \<and>
      delivered d s src dst ident (unat mtu) fs ips \<and> reassemble (unat offset + 8) ips = Some (drop (unat offset) data) \<and>
      flow d s src dst ident p'"
proof (induction "length data - unat offset" arbitrary: offset sent p rule: less_induct)
  case less
  let ?ml = "8 * ((unat mtu - 20) div 8)" and ?n = "unat offset"
  obtain v p1 where g: "get_fragment_header data offset (ucast mtu) p = (v, p1)" by (rule prod.exhaust)
  note st = fragment_step [OF less.prems(1) M less.prems(2-4) len g]
  let ?k = "min (length data - ?n) ?ml"
  have v: "view_payload_len v = ?k" and p1: "flow d s src dst ident p1" using st by blast+
  obtain ip where ip: "frame_carries d s src dst ident (iov v data ?n) ip" "rx_offset ip = ?n + 8"
      "rx_mf ip = (?ml < length data - ?n)" "rx_data ip = take ?k (drop ?n data)"
    using st v by auto
  have lf: "length (iov v data ?n) \<le> 14 + unat mtu"
  proof -
    have "?ml \<le> unat mtu - 20" by simp
    then have "?k + 20 \<le> unat mtu" using M by linarith
    then show ?thesis using st v by simp
  qed
  have len64: "unat (of_nat (length data) :: 64 word) = length data" unfolding unat_of_nat using len by simp
  have lt: "offset < of_nat (length data)" using less.prems(3) by (simp add: word_less_nat_alt len64)
  let ?o = "offset + of_nat (view_payload_len v)"
  have "unat (of_nat ?k :: 64 word) = ?k" unfolding unat_of_nat using len by simp
  moreover have "?n + ?k < 18446744073709551616" using less.prems(3) len by linarith
  ultimately have o: "unat ?o = ?n + ?k" unfolding v by (simp add: unat_plus_if')
  have step: "send_fragments (\<lambda>_. None) mtu data offset sent p = send_fragments (\<lambda>_. None) mtu data ?o (sent @ [iov v data ?n]) p1"
    by (subst send_fragments.simps) (simp add: lt g)
  show ?case
  proof (cases "?ml < length data - ?n")
    case True
    have m: "8 \<le> ?ml" using M by simp
    then have oo: "unat ?o = ?n + ?ml" using o True by simp
    have dec: "length data - unat ?o < length data - ?n" using oo m True by linarith
    have pos: "0 < unat ?o" "unat ?o < length data" "unat ?o mod 8 = 0" using oo m True less.prems by auto
    have "\<exists>fs ips p'. send_fragments (\<lambda>_. None) mtu data ?o (sent @ [iov v data ?n]) p1 = Some (Inr (), (sent @ [iov v data ?n]) @ fs, p') \<and>
      delivered d s src dst ident (unat mtu) fs ips \<and> reassemble (unat ?o + 8) ips = Some (drop (unat ?o) data) \<and>
      flow d s src dst ident p'"
      by (rule less.hyps [OF dec p1 pos])
    then obtain fs ips p' where IH: "send_fragments (\<lambda>_. None) mtu data ?o (sent @ [iov v data ?n]) p1 = Some (Inr (), sent @ iov v data ?n # fs, p')"
      "delivered d s src dst ident (unat mtu) fs ips" "reassemble (unat ?o + 8) ips = Some (drop (unat ?o) data)"
      "flow d s src dst ident p'" by auto
    have dd: "take ?k (drop ?n data) @ drop (unat ?o) data = drop ?n data"
    proof -
      have "drop (unat ?o) data = drop ?k (drop ?n data)" unfolding o drop_drop by (simp only: add.commute)
      then show ?thesis by (simp only: append_take_drop_id)
    qed
    have "length (rx_data ip) = ?k" using ip by simp
    then have e: "?n + 8 + length (rx_data ip) = unat ?o + 8" using o by linarith
    have mf: "rx_mf ip" using ip(3) True by blast
    have "reassemble (?n + 8) (ip # ips) = Some (rx_data ip @ drop (unat ?o) data)"
      by (simp only: reassemble.simps ip(2) e mf IH(3)) simp
    then have "reassemble (?n + 8) (ip # ips) = Some (drop ?n data)" unfolding ip(4) dd .
    moreover have "delivered d s src dst ident (unat mtu) (iov v data ?n # fs) (ip # ips)"
      using IH(2) ip(1) lf by (simp add: delivered_def)
    ultimately show ?thesis using IH(1,4) step by metis
  next
    case False
    then have "unat ?o = length data" using o less.prems(3) by simp
    then have "send_fragments (\<lambda>_. None) mtu data ?o (sent @ [iov v data ?n]) p1 = Some (Inr (), sent @ [iov v data ?n], p1)"
      by (subst send_fragments.simps) (simp add: word_less_nat_alt len64)
    moreover have "reassemble (?n + 8) [ip] = Some (drop ?n data)" using ip False by simp
    moreover have "delivered d s src dst ident (unat mtu) [iov v data ?n] [ip]" using ip(1) lf by (simp add: delivered_def)
    ultimately show ?thesis using step p1 by metis
  qed
qed

lemma frame_size: "length h = 42 \<Longrightarrow> n \<le> length data \<Longrightarrow> length (take 42 h @ take n data) = 42 + n"
  by simp

lemma send_whole:
  fixes mtu :: "32 word"
  assumes f: "flow d s src dst ident p" and M: "28 \<le> unat mtu" and n: "length data \<le> unat mtu - 28" "length data \<le> 65507"
  shows "\<exists>fs ips p' seg. send (\<lambda>_. None) True mtu data p = Some (Inr (), fs, p') \<and>
    delivered d s src dst ident (unat mtu) fs ips \<and> reassemble 0 ips = Some seg \<and> segment_ok src dst data seg \<and>
    flow d s src dst ident p'"
proof -
  obtain v p1 where g: "get_header data p = (v, p1)" by (rule prod.exhaust)
  let ?h = "view_data v"
  have h: "?h = put_udp_len_cs data (put_ipv4_cs (write_uint16_t_be (write_uint16_t_be (write_uint16_t_be (l2_hdr p)
        (IPV4_OFFSET + IPV4HDR_LEN) (of_nat (length data + 20 + 8))) (IPV4_OFFSET + IPV4HDR_ID) (l2_fragmentation_id p))
        (IPV4_OFFSET + IPV4HDR_FLAGS) 0))"
    and v: "view_hdr_size v = length ?h" "view_payload_len v = length data" and p1: "p1 = p\<lparr>l2_hdr := ?h\<rparr>"
    using g unfolding get_header_def Let_def by auto
  have L: "unat (of_nat (length data + 20 + 8) :: 16 word) = length data + 28" unfolding unat_of_nat using n by simp
  note fp = first_packet [OF f n(2) order_refl L h]
  have i: "iov v data 0 = take 42 ?h @ take (length data) data" using fp v by (simp add: iov_def)
  obtain ip u where ip: "frame_carries d s src dst ident (iov v data 0) ip" "\<not> rx_mf ip" "rx_offset ip = 0"
      "rx_data ip = u @ data" "segment_ok src dst data (u @ data)"
    using fp unfolding i by auto
  have lf: "length (iov v data 0) \<le> 14 + unat mtu"
    unfolding i using frame_size [of ?h "length data" data] fp n M by simp
  have "unat (mtu - 28) = unat mtu - 28" using M by (simp add: unat_sub word_le_nat_alt)
  moreover have "unat (of_nat (length data) :: 64 word) = length data" unfolding unat_of_nat using n(2) by simp
  ultimately have "of_nat (length data) \<le> (ucast (mtu - 28) :: 64 word)"
    using n(1) by (simp add: word_le_nat_alt unat_ucast_64)
  then have "send (\<lambda>_. None) True mtu data p = Some (Inr (), [iov v data 0], p1)" by (simp add: send_def g)
  moreover have "delivered d s src dst ident (unat mtu) [iov v data 0] [ip]" using ip lf by (simp add: delivered_def)
  moreover have "reassemble 0 [ip] = Some (u @ data)" using ip by simp
  moreover have "flow d s src dst ident p1" using fp by (simp add: p1)
  ultimately show ?thesis using ip(5) by blast
qed

lemma send_in_fragments:
  fixes mtu :: "32 word"
  assumes f: "flow d s src dst ident p" and M: "36 \<le> unat mtu" "unat mtu < 65536"
    and n: "unat mtu - 28 < length data" "length data \<le> 65507"
  shows "\<exists>fs ips p' seg. send (\<lambda>_. None) True mtu data p = Some (Inr (), fs, p') \<and>
    delivered d s src dst ident (unat mtu) fs ips \<and> reassemble 0 ips = Some seg \<and> segment_ok src dst data seg \<and>
    flow d s src dst ident p'"
proof -
  let ?n = "8 * ((unat mtu - 28) div 8)"
  define len where "len = (ucast ((ucast (ucast mtu :: 16 word) - 20 - 8) AND NOT 7 :: 64 word) :: 16 word)"
  have "(ucast (ucast mtu :: 16 word) - 20 - 8 :: 64 word) = ucast (ucast mtu :: 16 word) - 28" by simp
  then have len: "unat len = ?n" unfolding len_def using M by (simp only:) (subst max_len_value, simp_all add: mtu_16)
  have nl: "8 \<le> ?n" "?n \<le> unat mtu - 28" "?n \<le> length data" "?n < length data" "?n \<le> 65507"
  proof -
    have k: "8 \<le> unat mtu - 28" using M by linarith
    show 8: "8 \<le> ?n" using div_le_mono [OF k, of 8] by simp
    show le: "?n \<le> unat mtu - 28" by simp
    then show lt: "?n < length data" using n(1) by linarith
    then show "?n \<le> length data" "?n \<le> 65507" using n(2) by linarith+
  qed
  obtain v p1 where g: "get_fragment_header data 0 (ucast mtu) p = (v, p1)" by (rule prod.exhaust)
  let ?h = "view_data v"
  have "get_fragment_header data 0 (ucast mtu) p = first_fragment data (ucast mtu) p" by (simp add: get_fragment_header_def)
  then have g1: "first_fragment data (ucast mtu) p = (v, p1)" using g by simp
  have h: "?h = put_udp_len_cs data (put_ipv4_cs (write_uint16_t_be (write_uint16_t_be (write_uint16_t_be (l2_hdr p)
        (IPV4_OFFSET + IPV4HDR_LEN) (len + 20 + 8)) (IPV4_OFFSET + IPV4HDR_ID) (l2_fragmentation_id p))
        (IPV4_OFFSET + IPV4HDR_FLAGS) 0x2000))"
    and v: "view_hdr_size v = length ?h" "view_payload_len v = unat len" and p1: "p1 = p\<lparr>l2_hdr := ?h\<rparr>"
    using g1 unfolding first_fragment_def Let_def len_def [symmetric] by auto
  have L: "unat (len + 20 + 8) = ?n + 28" using len nl by (simp add: unat_plus_if')
  note fp = first_packet [OF f n(2) nl(3) L h]
  have i: "iov v data 0 = take 42 ?h @ take ?n data" using fp v len by (simp add: iov_def)
  have fl: "odd (unat (0x2000 :: 16 word) div 8192)" "8 * (unat (0x2000 :: 16 word) mod 8192) = 0" by simp_all
  obtain ip u where ip: "frame_carries d s src dst ident (iov v data 0) ip" "rx_mf ip" "rx_offset ip = 0"
      "length u = 8" "rx_data ip = u @ take ?n data" "segment_ok src dst data (u @ data)"
    using fp unfolding i fl(2) using fl(1) by blast
  have lf: "length (iov v data 0) \<le> 14 + unat mtu"
    unfolding i using frame_size [OF _ nl(3)] fp nl M by simp
  have len64: "unat (of_nat (length data) :: 64 word) = length data" unfolding unat_of_nat using n(2) by simp
  have off: "unat (of_nat ?n :: 64 word) = ?n" unfolding unat_of_nat using nl(5) by simp
  have vp: "of_nat (view_payload_len v) = (of_nat ?n :: 64 word)" using v len by simp
  have "flow d s src dst ident p1" using fp p1 by simp
  from send_fragments_rest [OF M n(2) this, of "of_nat ?n" "[iov v data 0]", unfolded off] nl
  obtain fs ips p' where r: "send_fragments (\<lambda>_. None) mtu data (of_nat ?n) [iov v data 0] p1 = Some (Inr (), [iov v data 0] @ fs, p')"
    "delivered d s src dst ident (unat mtu) fs ips" "reassemble (?n + 8) ips = Some (drop ?n data)" "flow d s src dst ident p'"
    by auto
  have "send_fragments (\<lambda>_. None) mtu data 0 [] p = Some (Inr (), iov v data 0 # fs, p')"
  proof -
    have "0 < length data" using nl(4) by linarith
    then have "(0 :: 64 word) < of_nat (length data)" by (simp only: word_less_nat_alt len64) simp
    then show ?thesis using r(1) by (subst send_fragments.simps) (simp add: g vp)
  qed
  moreover have "send (\<lambda>_. None) True mtu data p = send_fragments (\<lambda>_. None) mtu data 0 [] p"
  proof -
    have "unat (mtu - 28) = unat mtu - 28" using M by (simp add: unat_sub word_le_nat_alt)
    then have "\<not> of_nat (length data) \<le> (ucast (mtu - 28) :: 64 word)"
      using n(1) by (simp add: word_le_nat_alt unat_ucast_64 len64)
    then show ?thesis by (simp add: send_def)
  qed
  moreover have "delivered d s src dst ident (unat mtu) (iov v data 0 # fs) (ip # ips)"
    using ip(1) lf r(2) by (simp add: delivered_def)
  moreover have "reassemble 0 (ip # ips) = Some (u @ data)"
  proof -
    have "0 + length (rx_data ip) = ?n + 8" using ip(4,5) nl(3) by simp
    then have "reassemble 0 (ip # ips) = Some (rx_data ip @ drop ?n data)"
      using ip(2,3) r(3) by simp
    then show ?thesis unfolding ip(5) by simp
  qed
  ultimately show ?thesis using ip(6) r(4) by metis
qed

text \<open>When every \<open>writev\<close> succeeds, \<open>send\<close> ends, and what it wrote is accepted by a receiver: every frame fits the
  MTU, has correct lengths and IPv4 checksum and the flow's addresses, the fragments are contiguous and
  reassemble to one UDP segment whose checksum is right and whose payload is the data.  All datagrams carry the same
  identification, since the id is never counted up.\<close>

theorem send_delivers:
  fixes mtu :: "32 word"
  assumes "flow d s src dst ident p" "36 \<le> unat mtu" "unat mtu < 65536" "length data \<le> 65507"
  shows "\<exists>fs ips p' seg. send (\<lambda>_. None) True mtu data p = Some (Inr (), fs, p') \<and>
    delivered d s src dst ident (unat mtu) fs ips \<and> reassemble 0 ips = Some seg \<and> segment_ok src dst data seg \<and>
    flow d s src dst ident p'"
proof (cases "length data \<le> unat mtu - 28")
  case True
  then show ?thesis using assms by (intro send_whole) simp_all
next
  case False
  then show ?thesis using assms by (intro send_in_fragments) simp_all
qed

lemma send_delivers_witness:
  "\<exists>fs p'. send (\<lambda>_. None) True 36 (replicate 30 7) (write_src_ip \<lparr>sin_family = 2, sin_port = 2, sin_addr = 1\<rparr> (write_src_mac (Ether_addr 0 0 0 0 0 1)
     (write_dest_ip \<lparr>sin_family = 2, sin_port = 4, sin_addr = 3\<rparr> (write_dest_mac (Ether_addr 1 0 0 0 0 1) l2_udp_packet_new)))) = Some (Inr (), fs, p') \<and> fs \<noteq> []"
proof -
  let ?p = "write_src_ip \<lparr>sin_family = 2, sin_port = 2, sin_addr = 1\<rparr> (write_src_mac (Ether_addr 0 0 0 0 0 1)
     (write_dest_ip \<lparr>sin_family = 2, sin_port = 4, sin_addr = 3\<rparr> (write_dest_mac (Ether_addr 1 0 0 0 0 1) l2_udp_packet_new)))"
  have "l2_fragmentation_id ?p = 0"
    by (simp add: write_src_ip_def write_src_mac_def write_dest_ip_def write_dest_mac_def l2_udp_packet_new_def Let_def)
  then have f: "flow (Ether_addr 1 0 0 0 0 1) (Ether_addr 0 0 0 0 0 1) \<lparr>sin_family = 2, sin_port = 2, sin_addr = 1\<rparr> \<lparr>sin_family = 2, sin_port = 4, sin_addr = 3\<rparr> 0 ?p"
    using socket_packet unfolding flow_def by blast
  have m: "36 \<le> unat (36 :: 32 word)" "unat (36 :: 32 word) < 65536" "length (replicate 30 (7 :: byte)) \<le> 65507" by simp_all
  from send_delivers [OF f m] show ?thesis by (auto simp: delivered_def list_all2_Nil)
qed

text \<open>With an MTU of 28 to 35 the first fragment has room for no payload, the offset stays zero, and the loop
  never ends: whatever is sent before, there is no result.\<close>

theorem send_fragments_stuck:
  fixes mtu :: "32 word"
  assumes "28 \<le> unat mtu" "unat mtu < 36" "0 < length data" "length data \<le> 65507"
  shows "send_fragments (\<lambda>_. None) mtu data 0 sent p = None"
proof -
  have stuck: "view_payload_len (fst (get_fragment_header data 0 (ucast mtu) p)) = 0" for p
  proof -
    have m: "unat (ucast mtu :: 16 word) = unat mtu" using assms(2) by (intro mtu_16) simp
    have "(ucast (ucast mtu :: 16 word) - 20 - 8 :: 64 word) = ucast (ucast mtu :: 16 word) - 28" by simp
    moreover have "unat (ucast ((ucast (ucast mtu :: 16 word) - 28) AND NOT 7 :: 64 word) :: 16 word) = 0"
      using assms(1,2) by (subst max_len_value) (simp_all only: m, simp_all)
    ultimately show ?thesis by (simp only: get_fragment_header_def first_fragment_def Let_def if_True simp_thms fst_conv packet_view.simps)
  qed
  have "\<not> (w = (\<lambda>_. None) \<and> m = mtu \<and> dt = data \<and> off = 0)"
    if "send_fragments w m dt off se q = Some r" for w m dt off se q r
  proof (rule send_fragments.raw_induct [where P = "\<lambda>w m dt off se q r. \<not> (w = (\<lambda>_. None) \<and> m = mtu \<and> dt = data \<and> off = 0)", OF _ that])
    fix sf :: "(nat \<Rightarrow> int option) \<Rightarrow> 32 word \<Rightarrow> byte list \<Rightarrow> 64 word \<Rightarrow> byte list list \<Rightarrow> l2_udp_packet \<Rightarrow> send_result option"
    fix w m dt off se q r
    assume IH: "\<And>w m dt off se q r. sf w m dt off se q = Some r \<Longrightarrow> \<not> (w = (\<lambda>_. None) \<and> m = mtu \<and> dt = data \<and> off = 0)"
    assume b: "(if off < of_nat (length dt) then
        case get_fragment_header dt off (ucast m) q of (v, q) \<Rightarrow>
          case w (length se) of Some errno \<Rightarrow> Some (Inl errno, se, q)
          | None \<Rightarrow> sf w m dt (off + of_nat (view_payload_len v)) (se @ [iov v dt (unat off)]) q
      else Some (Inr (), se, q)) = Some r"
    show "\<not> (w = (\<lambda>_. None) \<and> m = mtu \<and> dt = data \<and> off = 0)"
    proof
      assume e: "w = (\<lambda>_. None) \<and> m = mtu \<and> dt = data \<and> off = 0"
      have "unat (of_nat (length data) :: 64 word) = length data" unfolding unat_of_nat using assms(4) by simp
      then have lt: "(0 :: 64 word) < of_nat (length data)" using assms(3) by (simp only: word_less_nat_alt) simp
      obtain v q' where g: "get_fragment_header data 0 (ucast mtu) q = (v, q')" by (rule prod.exhaust)
      then have "view_payload_len v = 0" using stuck [of q] by simp
      then have "sf (\<lambda>_. None) mtu data 0 (se @ [iov v data 0]) q' = Some r"
        using b lt by (simp add: e g)
      then show False using IH by blast
    qed
  qed
  then show ?thesis by (metis option.exhaust)
qed

lemma send_fragments_stuck_witness: "send_fragments (\<lambda>_. None) 30 [1, 2, 3] 0 [] l2_udp_packet_new = None"
  by (rule send_fragments_stuck) simp_all

end
