(* ===== verification/UdpTalker.thy ===== *)
theory UdpTalker
  imports UdpLoadPacket "HOL-Library.Signed_Division"
begin

text \<open>
  The traffic shaping of \<open>tools/udp_load\<close> (\<open>udp_talker.cpp\<close>), the split of the packets
  over the threads (\<open>udp_load.cpp\<close>), the back-off \<open>delay\<close>, and two of the senders.  What a
  pass of the sending loop meets, how many packets the network took and how many milliseconds have
  passed, is given by a list, one entry for each pass.  The sleep of \<open>delay\<close> may not
  return, so it is an option.
\<close>

section \<open>Shaping parameters\<close>

record talker =
  t_slots :: "16 word"
  t_width :: "16 word"
  t_size :: "16 word"
  t_packets :: "32 word"
  t_init :: bool

definition talker_new :: talker where
  "talker_new = \<lparr>t_slots = 0, t_width = 0, t_size = 0, t_packets = 0, t_init = False\<rparr>"

definition set_shaping :: "16 word \<Rightarrow> 16 word \<Rightarrow> 32 word \<Rightarrow> 16 word \<Rightarrow> talker \<Rightarrow> bool \<times> talker" where
  "set_shaping slots width packets pkt_size t =
     (if slots < 1 then (False, t)
      else if width < 1 then (False, t)
      else if packets < 1 then (False, t)
      else if pkt_size < 1 then (False, t)
      else (True, t\<lparr>t_slots := slots, t_width := width, t_packets := packets, t_size := pkt_size\<rparr>))"

text \<open>\<open>init_packets\<close> is the virtual method of the sender; here its result.\<close>

definition talker_init :: "bool \<Rightarrow> talker \<Rightarrow> bool \<times> talker" where
  "talker_init init_packets t =
     (if t_init t then (True, t)
      else if t_slots t = 0 \<or> t_width t = 0 \<or> t_size t = 0 \<or> t_packets t = 0 then (False, t)
      else if \<not> init_packets then (False, t)
      else (True, t\<lparr>t_init := True\<rparr>))"

text \<open>The packets of thread \<open>i\<close>.\<close>

definition packets_thread :: "32 word \<Rightarrow> 16 word \<Rightarrow> nat \<Rightarrow> 32 word" where
  "packets_thread packets threads i =
     (of_nat (i + 1) * packets) div ucast threads - (of_nat i * packets) div ucast threads"

definition total_packets :: "32 word \<Rightarrow> 16 word \<Rightarrow> 32 word" where
  "total_packets packets threads = max packets (ucast threads)"

section \<open>The sending loop\<close>

record run_state =
  rs_r :: "32 word"
  rs_s :: "32 word"
  rs_window :: "32 word"
  rs_total :: "32 word"
  rs_expected :: "32 word"
  rs_resend :: bool

definition run_start :: run_state where
  "run_start = \<lparr>rs_r = 0, rs_s = 0, rs_window = 0, rs_total = 0, rs_expected = 0, rs_resend = False\<rparr>"

text \<open>The start of the outer loop, skipped when the pass repeats within the slot.\<close>

definition expected_by_slot :: "talker \<Rightarrow> 32 word \<Rightarrow> 32 word" where
  "expected_by_slot t s =
     (if s < ucast (t_slots t) then (t_packets t * (s + 1)) div ucast (t_slots t) else t_packets t)"

text \<open>\<open>packets * (r + n) / slots - packets * r / slots\<close>\<close>

definition group :: "talker \<Rightarrow> 32 word \<Rightarrow> 32 word \<Rightarrow> 32 word" where
  "group t r n = (t_packets t * (r + n)) div ucast (t_slots t) - (t_packets t * r) div ucast (t_slots t)"

definition use_credits :: "talker \<Rightarrow> 32 word \<Rightarrow> run_state \<Rightarrow> run_state" where
  "use_credits t sp st =
     (let slots = ucast (t_slots t); s = rs_s st in
      if s \<ge> slots \<and> rs_window st \<ge> t_packets t then
        let sp = (if sp < slots - 1 then slots - 1 else sp);
            slots_missed = s - sp;
            credits = group t (rs_r st) slots_missed
        in st\<lparr>rs_window := (if rs_window st > credits then rs_window st - credits else 0)\<rparr>
      else st)"

text \<open>One pass of the inner loop: \<open>send\<close> is what \<open>send_packets\<close> returns for the count it gets,
  \<open>elapsed\<close> the time after it.\<close>

definition talker_pass :: "talker \<Rightarrow> ((16 word \<Rightarrow> 16 word) \<times> int) \<Rightarrow> run_state \<Rightarrow> run_state" where
  "talker_pass t = (\<lambda>(send, elapsed) st.
     let expected = (if rs_resend st then rs_expected st else expected_by_slot t (rs_s st));
         remaining = expected - rs_window st;
         send_max = group t (rs_r st) 1;
         packet_send = (if remaining > send_max then send_max else remaining);
         sent = ucast (send (ucast packet_send));
         st = st\<lparr>rs_expected := expected, rs_window := rs_window st + sent, rs_total := rs_total st + sent,
                 rs_r := rs_r st + 1\<rparr>;
         sf = of_int (elapsed sdiv uint (t_width t));
         sp = rs_s st
     in if sf \<le> rs_s st then
          if expected > rs_window st then st\<lparr>rs_resend := True\<rparr>
          else use_credits t sp (st\<lparr>rs_s := rs_s st + 1, rs_resend := False\<rparr>)
        else use_credits t sp (st\<lparr>rs_s := sf, rs_resend := False\<rparr>))"

definition sleep_before_slot :: "talker \<Rightarrow> int \<Rightarrow> run_state \<Rightarrow> int option" where
  "sleep_before_slot t elapsed st =
     (let W = uint (rs_s st * ucast (t_width t)) - elapsed in if W \<ge> 4 then Some W else None)"

record udp_results =
  packets_sent :: "32 word"
  packets_expected :: "32 word"

fun run_loop :: "talker \<Rightarrow> int \<Rightarrow> ((16 word \<Rightarrow> 16 word) \<times> int) list \<Rightarrow> run_state \<Rightarrow> run_state option" where
  "run_loop t expected_time [] st = None"
| "run_loop t expected_time (e # es) st =
     (let st = talker_pass t e st in
      if rs_resend st \<or> snd e < expected_time then run_loop t expected_time es st else Some st)"

definition talker_run :: "talker \<Rightarrow> bool \<Rightarrow> int \<Rightarrow> ((16 word \<Rightarrow> 16 word) \<times> int) list \<Rightarrow> udp_results option" where
  "talker_run t init_packets duration es =
     (if duration < 0 then None
      else case talker_init init_packets t of (ok, t) \<Rightarrow>
        if \<not> ok then None
        else let expected_time = max duration (uint (t_slots t) * uint (t_width t)) in
          case run_loop t expected_time es run_start of None \<Rightarrow> None
          | Some st \<Rightarrow> Some \<lparr>packets_sent = rs_total st, packets_expected = (t_packets t * rs_s st) div ucast (t_slots t)\<rparr>)"

section \<open>Arithmetic without wrap-around\<close>

lemma unat_mult_small: "unat (a :: 32 word) * unat b < 2 ^ 32 \<Longrightarrow> unat (a * b) = unat a * unat b"
  by (simp add: unat_mult_lem [THEN iffD1])

lemma unat_div_slots: "unat ((a :: 32 word) div ucast (s :: 16 word)) = unat a div unat s"
  by (simp add: unat_div_distrib unat_ucast_up)

text \<open>The number of packets that are due after \<open>k\<close> groups.\<close>

definition due :: "talker \<Rightarrow> nat \<Rightarrow> nat" where
  "due t k = unat (t_packets t) * k div unat (t_slots t)"

lemma due_mono: "j \<le> k \<Longrightarrow> due t j \<le> due t k"
  by (simp add: due_def div_le_mono)

lemma due_0 [simp]: "due t 0 = 0"
  by (simp add: due_def)

lemma due_slots: "t_slots t \<noteq> 0 \<Longrightarrow> due t (unat (t_slots t)) = unat (t_packets t)"
  by (simp add: due_def unat_eq_zero)

lemma due_add_slots: "t_slots t \<noteq> 0 \<Longrightarrow> due t (unat (t_slots t) + k) = unat (t_packets t) + due t k"
proof -
  assume "t_slots t \<noteq> 0"
  then have s: "unat (t_slots t) \<noteq> 0" by (simp add: unat_eq_zero)
  have "unat (t_packets t) * (unat (t_slots t) + k) = unat (t_packets t) * k + unat (t_packets t) * unat (t_slots t)"
    by (simp add: distrib_left add.commute)
  then show ?thesis unfolding due_def using s by simp
qed

lemma unat_suc: "unat (k :: 32 word) + 1 < 2 ^ 32 \<Longrightarrow> unat (k + 1) = unat k + 1"
  by (simp add: unat_plus_if')

lemma group_due:
  assumes p: "t_packets t \<noteq> 0" and w: "unat (t_packets t) * (unat r + unat n) < 2 ^ 32"
  shows "unat (group t r n) = due t (unat r + unat n) - due t (unat r)"
proof -
  have p0: "0 < unat (t_packets t)" using p by (simp add: unat_gt_0)
  then have "1 * (unat r + unat n) \<le> unat (t_packets t) * (unat r + unat n)" by (intro mult_le_mono1) simp
  from le_less_trans [OF this w] have "unat r + unat n < 4294967296" by simp
  then have rn: "unat (r + n) = unat r + unat n" by (simp add: unat_plus_if')
  have m1: "unat (t_packets t * (r + n)) = unat (t_packets t) * (unat r + unat n)"
    using w rn by (subst unat_mult_small) simp_all
  have "unat (t_packets t) * unat r \<le> unat (t_packets t) * (unat r + unat n)" by simp
  then have m2: "unat (t_packets t * r) = unat (t_packets t) * unat r"
    using w by (subst unat_mult_small) linarith+
  have "due t (unat r) \<le> due t (unat r + unat n)" by (rule due_mono) simp
  then have "(t_packets t * r) div ucast (t_slots t) \<le> (t_packets t * (r + n)) div ucast (t_slots t)"
    by (simp add: word_le_nat_alt unat_div_slots m1 m2 due_def)
  then show ?thesis by (simp add: group_def unat_sub unat_div_slots m1 m2 due_def)
qed

lemma expected_by_slot_due:
  assumes "t_packets t \<noteq> 0" "t_slots t \<noteq> 0" "unat (t_packets t) * unat (t_slots t) < 2 ^ 32"
  shows "unat (expected_by_slot t s) = min (due t (unat s + 1)) (unat (t_packets t))"
proof (cases "s < ucast (t_slots t)")
  case True
  then have lt: "unat s < unat (t_slots t)" by (simp add: word_less_nat_alt unat_ucast_up)
  then have s1: "unat (s + 1) = unat s + 1" using unat_word16 [of "t_slots t"] by (intro unat_suc) simp
  have le: "unat (t_packets t) * (unat s + 1) \<le> unat (t_packets t) * unat (t_slots t)" using lt by (intro mult_le_mono2) simp
  then have "unat (t_packets t * (s + 1)) = unat (t_packets t) * (unat s + 1)"
    using assms(3) s1 by (subst unat_mult_small) simp_all
  then have "unat (expected_by_slot t s) = due t (unat s + 1)"
    using True by (simp add: expected_by_slot_def unat_div_slots due_def)
  moreover have "due t (unat s + 1) \<le> unat (t_packets t)"
    using due_mono [of "unat s + 1" "unat (t_slots t)" t] lt due_slots [OF assms(2)] by simp
  ultimately show ?thesis by simp
next
  case False
  then have "unat (t_slots t) \<le> unat s" by (simp add: word_less_nat_alt unat_ucast_up not_less)
  then have "unat (t_packets t) \<le> due t (unat s + 1)"
    using due_mono [of "unat (t_slots t)" "unat s + 1" t] due_slots [OF assms(2)] by simp
  then show ?thesis using False by (simp add: expected_by_slot_def)
qed

section \<open>Never more than the slot allows\<close>

lemma min_due_mono: "j \<le> k \<Longrightarrow> min (due t j) m \<le> min (due t k) m"
  using due_mono [of j k t] by simp

text \<open>What is sent is at most what is left of the slot, and the counter cannot wrap below zero.\<close>

definition pass_ok :: "talker \<Rightarrow> run_state \<Rightarrow> bool" where
  "pass_ok t st \<longleftrightarrow> rs_window st \<le> expected_by_slot t (rs_s st) \<and>
     (rs_resend st \<longrightarrow> rs_expected st = expected_by_slot t (rs_s st))"

definition shaped :: "talker \<Rightarrow> bool" where
  "shaped t \<longleftrightarrow> t_packets t \<noteq> 0 \<and> t_slots t \<noteq> 0 \<and> t_width t \<noteq> 0 \<and> unat (t_packets t) * unat (t_slots t) < 2 ^ 32"

lemma expected_mono:
  assumes "shaped t" "s \<le> s'"
  shows "expected_by_slot t s \<le> expected_by_slot t s'"
proof -
  have e: "unat (expected_by_slot t x) = min (due t (unat x + 1)) (unat (t_packets t))" for x
    using assms(1) by (intro expected_by_slot_due) (simp_all add: shaped_def)
  have "unat s + 1 \<le> unat s' + 1" using assms(2) by (simp add: word_le_nat_alt)
  then show ?thesis unfolding word_le_nat_alt e by (rule min_due_mono)
qed

lemma use_credits_window:
  "rs_window (use_credits t sp st) \<le> rs_window st" "rs_s (use_credits t sp st) = rs_s st"
  "rs_resend (use_credits t sp st) = rs_resend st" "rs_total (use_credits t sp st) = rs_total st"
  "rs_r (use_credits t sp st) = rs_r st" "rs_expected (use_credits t sp st) = rs_expected st"
  by (auto simp: use_credits_def Let_def word_sub_le)

lemma talker_pass_ok:
  assumes t: "shaped t" and ok: "pass_ok t st" and send: "\<And>c. send c \<le> c" and s: "rs_s st + 1 \<noteq> 0"
  shows "pass_ok t (talker_pass t (send, el) st) \<and>
    rs_s (talker_pass t (send, el) st) \<in> {rs_s st, rs_s st + 1, of_int (el sdiv uint (t_width t))} \<and>
    rs_s st \<le> rs_s (talker_pass t (send, el) st)"
proof -
  let ?e = "expected_by_slot t (rs_s st)" and ?sf = "of_int (el sdiv uint (t_width t)) :: 32 word"
  have e: "(if rs_resend st then rs_expected st else ?e) = ?e" using ok by (simp add: pass_ok_def)
  define ps where "ps = (if ?e - rs_window st > group t (rs_r st) 1 then group t (rs_r st) 1 else ?e - rs_window st)"
  define sent where "sent = (ucast (send (ucast ps)) :: 32 word)"
  have "unat sent = unat (send (ucast ps))" by (simp add: sent_def unat_ucast_up)
  also have "\<dots> \<le> unat (ucast ps :: 16 word)" using send by (simp add: word_le_nat_alt)
  also have "\<dots> \<le> unat ps" by (simp add: unsigned_ucast_eq take_bit_eq_mod)
  also have "\<dots> \<le> unat (?e - rs_window st)" by (auto simp: ps_def word_less_nat_alt)
  also have "\<dots> = unat ?e - unat (rs_window st)" using ok by (intro unat_sub) (simp add: pass_ok_def)
  finally have "unat sent \<le> unat ?e - unat (rs_window st)" .
  moreover have "unat (rs_window st) \<le> unat ?e" using ok by (simp add: pass_ok_def word_le_nat_alt)
  ultimately have sum: "unat (rs_window st) + unat sent \<le> unat ?e" by linarith
  then have "unat (rs_window st + sent) = unat (rs_window st) + unat sent"
    using unsigned_less [of ?e, where ?'a = nat] by (intro unat_add_lem [THEN iffD1]) simp
  then have w: "rs_window st + sent \<le> ?e" using sum by (simp add: word_le_nat_alt)
  have s1: "rs_s st \<le> rs_s st + 1" using unatSuc [of "rs_s st"] s by (simp add: word_le_nat_alt add.commute)
  define st1 where "st1 = st\<lparr>rs_expected := ?e, rs_window := rs_window st + sent, rs_total := rs_total st + sent,
      rs_r := rs_r st + 1\<rparr>"
  have p: "talker_pass t (send, el) st = (if ?sf \<le> rs_s st then
          if ?e > rs_window st1 then st1\<lparr>rs_resend := True\<rparr>
          else use_credits t (rs_s st) (st1\<lparr>rs_s := rs_s st + 1, rs_resend := False\<rparr>)
        else use_credits t (rs_s st) (st1\<lparr>rs_s := ?sf, rs_resend := False\<rparr>))"
    unfolding talker_pass_def prod.case Let_def e ps_def [symmetric] sent_def [symmetric] st1_def by simp
  have c: "pass_ok t (use_credits t (rs_s st) (st1\<lparr>rs_s := x, rs_resend := False\<rparr>))" if "rs_s st \<le> x" for x
  proof -
    let ?st2 = "st1\<lparr>rs_s := x, rs_resend := False\<rparr>"
    have "rs_window (use_credits t (rs_s st) ?st2) \<le> rs_window ?st2" by (rule use_credits_window(1))
    also have "\<dots> \<le> ?e" using w by (simp add: st1_def)
    also have "\<dots> \<le> expected_by_slot t x" by (rule expected_mono [OF t that])
    finally show ?thesis by (simp add: pass_ok_def use_credits_window)
  qed
  show ?thesis unfolding p using c s1 w
    by (auto simp: use_credits_window st1_def pass_ok_def)
qed

definition env_ok :: "(16 word \<Rightarrow> 16 word) \<times> int \<Rightarrow> bool" where
  "env_ok e \<longleftrightarrow> (\<forall>c. fst e c \<le> c) \<and> 0 \<le> snd e \<and> snd e < 2 ^ 31"

lemma slot_of_time:
  assumes "t_width t \<noteq> 0" "0 \<le> el" "el < 2 ^ 31"
  shows "unat (of_int (el sdiv uint (t_width t)) :: 32 word) = nat (el div uint (t_width t))"
    "nat (el div uint (t_width t)) < 2 ^ 31"
proof -
  have w: "0 < uint (t_width t)" using assms(1) by (simp add: word_neq_0_conv [symmetric] uint_0_iff less_le)
  have q: "el sdiv uint (t_width t) = el div uint (t_width t)" using assms w by (cases "el = 0") (simp_all add: signed_divide_int_def)
  have "0 \<le> el div uint (t_width t)" using assms(2) w by (simp add: pos_imp_zdiv_nonneg_iff)
  moreover have "el div uint (t_width t) \<le> el" using zdiv_mono2 [of el 1 "uint (t_width t)"] assms(2) w by simp
  ultimately show "unat (of_int (el sdiv uint (t_width t)) :: 32 word) = nat (el div uint (t_width t))"
    "nat (el div uint (t_width t)) < 2 ^ 31"
    unfolding q using assms(3) by (simp_all add: unat_eq_nat_uint uint_word_of_int)
qed

lemma talker_passes_ok:
  assumes t: "shaped t"
  shows "pass_ok t st \<Longrightarrow> unat (rs_s st) \<le> 2 ^ 31 + n \<Longrightarrow> n + length es < 2 ^ 31 - 1 \<Longrightarrow> list_all env_ok es \<Longrightarrow>
    pass_ok t (fold (talker_pass t) es st)"
proof (induction es arbitrary: st n)
  case (Cons e es)
  obtain send el where e: "e = (send, el)" by (rule prod.exhaust)
  have env: "\<And>c. send c \<le> c" "0 \<le> el" "el < 2 ^ 31" using Cons.prems(4) by (simp_all add: e env_ok_def)
  have s1: "unat (rs_s st + 1) = unat (rs_s st) + 1" using Cons.prems(2,3) by (intro unat_suc) simp
  then have "rs_s st + 1 \<noteq> 0" by auto
  note p = talker_pass_ok [OF t Cons.prems(1) env(1) this, of el]
  have w: "t_width t \<noteq> 0" using t by (simp add: shaped_def)
  have "unat (rs_s (talker_pass t (send, el) st)) \<le> 2 ^ 31 + (n + 1)"
    using p s1 Cons.prems(2) slot_of_time [OF w env(2,3)] by auto
  then show ?case using p Cons.prems(3,4) by (auto simp: e intro: Cons.IH [where n = "n + 1"])
qed simp

text \<open>C7: Whatever the network takes and however the passes are timed, the packets counted in the window never exceed
  the packets due by the end of the slot, which are at most those of the whole window.  In particular the
  number of packets still to send never wraps around.\<close>

theorem talker_never_oversends:
  assumes "shaped t" "list_all env_ok es" "length es < 2 ^ 31 - 1"
  shows "rs_window (fold (talker_pass t) es run_start) \<le> expected_by_slot t (rs_s (fold (talker_pass t) es run_start)) \<and>
    expected_by_slot t (rs_s (fold (talker_pass t) es run_start)) \<le> t_packets t"
proof
  have "pass_ok t (fold (talker_pass t) es run_start)"
    by (rule talker_passes_ok [OF assms(1), where n = 0]) (use assms in \<open>simp_all add: pass_ok_def run_start_def\<close>)
  then show "rs_window (fold (talker_pass t) es run_start) \<le> expected_by_slot t (rs_s (fold (talker_pass t) es run_start))"
    by (simp add: pass_ok_def)
  show "expected_by_slot t (rs_s (fold (talker_pass t) es run_start)) \<le> t_packets t"
    unfolding word_le_nat_alt using assms(1) by (subst expected_by_slot_due) (simp_all add: shaped_def)
qed

lemma talker_never_oversends_witness:
  "rs_window (fold (talker_pass \<lparr>t_slots = 4, t_width = 5, t_size = 1, t_packets = 10, t_init = True\<rparr>) [(\<lambda>c. c, 1), (\<lambda>c. 0, 9)] run_start) \<le> 10"
proof -
  let ?t = "\<lparr>t_slots = 4, t_width = 5, t_size = 1, t_packets = 10, t_init = True\<rparr>"
  have "shaped ?t" "list_all env_ok [(\<lambda>c. c, 1), (\<lambda>c. 0, 9)]" "length [(\<lambda>c :: 16 word. c, 1 :: int), (\<lambda>c. 0, 9)] < 2 ^ 31 - 1"
    by (simp_all add: shaped_def env_ok_def)
  from talker_never_oversends [OF this] show ?thesis by (auto intro: order_trans)
qed

section \<open>A run in time sends what is due\<close>

text \<open>After \<open>k\<close> passes, each one in its slot and taken in full by the network.\<close>

definition on_time :: "talker \<Rightarrow> nat \<Rightarrow> (16 word \<Rightarrow> 16 word) \<times> int \<Rightarrow> bool" where
  "on_time t j e \<longleftrightarrow> (\<forall>c. fst e c = c) \<and> 0 \<le> snd e \<and> snd e < (int j + 1) * uint (t_width t)"

definition in_step :: "talker \<Rightarrow> nat \<Rightarrow> run_state \<Rightarrow> bool" where
  "in_step t k st \<longleftrightarrow> \<not> rs_resend st \<and> unat (rs_r st) = k \<and> unat (rs_s st) = k \<and> unat (rs_total st) = due t k \<and>
     unat (rs_window st) = (if k < unat (t_slots t) then due t k else unat (t_packets t) - (due t (k + 1) - due t k))"

lemma due_diff_le: "t_slots t \<noteq> 0 \<Longrightarrow> due t (k + 1) - due t k \<le> unat (t_packets t)"
proof -
  assume s: "t_slots t \<noteq> 0"
  then have "1 \<le> unat (t_slots t)" by (simp add: Suc_le_eq unat_gt_0)
  then have "due t (k + 1) \<le> due t (unat (t_slots t) + k)" by (intro due_mono) simp
  then show ?thesis using due_add_slots [OF s, of k] by simp
qed

lemma pass_in_step:
  assumes t: "shaped t" and k: "in_step t k st" and e: "on_time t k e"
    and w: "unat (t_packets t) * (k + 2) < 2 ^ 32" and g: "due t (k + 1) - due t k < 65536"
  shows "in_step t (k + 1) (talker_pass t e st)"
proof -
  obtain send el where es: "e = (send, el)" by (rule prod.exhaust)
  have tp: "t_packets t \<noteq> 0" "t_slots t \<noteq> 0" "t_width t \<noteq> 0" "unat (t_packets t) * unat (t_slots t) < 2 ^ 32"
    using t by (simp_all add: shaped_def)
  have p1: "1 \<le> unat (t_packets t)" using tp(1) by (simp add: Suc_le_eq unat_gt_0)
  then have "1 * (k + 2) \<le> unat (t_packets t) * (k + 2)" by (intro mult_le_mono1)
  from le_less_trans [OF this w] have k32: "k + 2 < 2 ^ 32" by simp
  have w1: "unat (t_packets t) * (k + 1) < 2 ^ 32"
  proof -
    have "unat (t_packets t) * (k + 1) \<le> unat (t_packets t) * (k + 2)" by (intro mult_le_mono2) simp
    then show ?thesis using w by (rule le_less_trans)
  qed
  have st: "\<not> rs_resend st" "unat (rs_r st) = k" "unat (rs_s st) = k" "unat (rs_total st) = due t k"
    "unat (rs_window st) = (if k < unat (t_slots t) then due t k else unat (t_packets t) - (due t (k + 1) - due t k))"
    using k by (simp_all add: in_step_def)
  let ?e = "expected_by_slot t (rs_s st)" and ?d = "due t (k + 1) - due t k"
  have dk: "due t k \<le> due t (k + 1)" by (rule due_mono) simp
  have dp: "?d \<le> unat (t_packets t)" by (rule due_diff_le [OF tp(2)])
  have ex: "unat ?e = min (due t (k + 1)) (unat (t_packets t))"
    using expected_by_slot_due [OF tp(1,2,4)] st(3) by simp
  have early: "due t (k + 1) \<le> unat (t_packets t)" if "k < unat (t_slots t)"
    using due_mono [of "k + 1" "unat (t_slots t)" t] that due_slots [OF tp(2)] by simp
  have late: "unat (t_packets t) \<le> due t (k + 1)" if "unat (t_slots t) \<le> k + 1"
    using due_mono [OF that, of t] due_slots [OF tp(2)] by simp
  have we: "unat (rs_window st) \<le> unat ?e" "unat ?e - unat (rs_window st) = ?d"
    unfolding ex st(5) using early late dk dp by auto
  have rem: "unat (?e - rs_window st) = ?d" using we by (simp add: unat_sub word_le_nat_alt)
  have grp: "unat (group t (rs_r st) 1) = ?d"
    using group_due [OF tp(1), of "rs_r st" 1] w1 st(2) by simp
  have eq: "?e - rs_window st = group t (rs_r st) 1" using rem grp by (metis word_unat_eq_iff)
  define ps where "ps = group t (rs_r st) 1"
  have "unat (ucast ps :: 16 word) = ?d" using grp g by (simp add: ps_def unsigned_ucast_eq take_bit_eq_mod)
  then have sent: "unat (ucast (send (ucast ps)) :: 32 word) = ?d" using e by (simp add: es on_time_def unat_ucast_up)
  then have sn: "ucast (send (ucast ps)) = ps" using grp by (simp add: word_unat_eq_iff ps_def)
  define st1 where "st1 = st\<lparr>rs_expected := ?e, rs_window := ?e, rs_total := rs_total st + ps, rs_r := rs_r st + 1, rs_s := rs_s st + 1, rs_resend := False\<rparr>"
  have we1: "rs_window st + ps = ?e" using eq by (simp add: ps_def [symmetric]) (metis add.commute diff_add_cancel)
  have sf: "of_int (el sdiv uint (t_width t)) \<le> rs_s st"
  proof -
    have w0: "0 < uint (t_width t)" using tp(3) by (simp add: less_le uint_0_iff)
    have el: "0 \<le> el" "el < (int k + 1) * uint (t_width t)" using e by (simp_all add: es on_time_def)
    then have q: "el sdiv uint (t_width t) = el div uint (t_width t)" using w0 tp(3) by (cases "el = 0") (simp_all add: signed_divide_int_def)
    have "el div uint (t_width t) < int k + 1" 
    proof (rule ccontr)
      assume "\<not> el div uint (t_width t) < int k + 1"
      then have "(int k + 1) * uint (t_width t) \<le> (el div uint (t_width t)) * uint (t_width t)"
        using w0 by (intro mult_right_mono) simp_all
      also have "\<dots> \<le> el" using w0 by (simp add: minus_mod_eq_div_mult [symmetric])
      finally show False using el(2) by simp
    qed
    moreover have "0 \<le> el div uint (t_width t)" using el(1) w0 by (simp add: pos_imp_zdiv_nonneg_iff)
    ultimately have "unat (of_int (el sdiv uint (t_width t)) :: 32 word) \<le> k"
      unfolding q using k32 by (simp add: unat_eq_nat_uint uint_word_of_int nat_le_iff)
    then show ?thesis by (simp add: word_le_nat_alt st(3))
  qed
  have pass: "talker_pass t e st = use_credits t (rs_s st) st1"
    unfolding talker_pass_def es prod.case Let_def using st(1) sf
    by (simp add: eq ps_def [symmetric] sn we1 st1_def)
  have tot: "unat (rs_total st + ps) = due t (k + 1)"
  proof -
    have "due t (k + 1) \<le> unat (t_packets t) * (k + 1)" by (simp add: due_def)
    then have "due t k + ?d < 2 ^ 32" using w1 dk by linarith
    then show ?thesis using st(4) grp dk by (subst unat_add_lem [THEN iffD1]) (simp_all add: ps_def)
  qed
  have r1: "unat (rs_r st + 1) = k + 1" "unat (rs_s st + 1) = k + 1" using k32 st(2,3) by (simp_all add: unat_suc)
  show ?thesis
  proof (cases "unat (t_slots t) \<le> k + 1")
    case False
    then have "\<not> rs_s st1 \<ge> ucast (t_slots t)" using r1 by (simp add: st1_def word_le_nat_alt unat_ucast_up)
    then have "use_credits t (rs_s st) st1 = st1" by (simp add: use_credits_def Let_def)
    moreover have "unat ?e = due t (k + 1)" using ex early False by simp
    ultimately show ?thesis unfolding pass using False r1 tot by (simp add: in_step_def st1_def)
  next
    case True
    have pk: "unat ?e = unat (t_packets t)" using ex late [OF True] by simp
    then have pe: "?e = t_packets t" by (simp add: word_unat_eq_iff)
    have sl: "rs_s st1 \<ge> ucast (t_slots t)" using r1 True by (simp add: st1_def word_le_nat_alt unat_ucast_up)
    have "(1 :: 32 word) \<le> ucast (t_slots t)" using tp(2) by (simp add: word_le_nat_alt unat_ucast_up Suc_le_eq unat_gt_0)
    then have "unat (ucast (t_slots t) - 1 :: 32 word) = unat (t_slots t) - 1" by (simp add: unat_sub unat_ucast_up)
    then have sp: "\<not> rs_s st < ucast (t_slots t) - 1" using True st(3) by (simp add: word_less_nat_alt)
    have missed: "rs_s st1 - rs_s st = 1" by (simp add: st1_def)
    let ?c = "group t (rs_r st1) 1"
    have c: "unat ?c = due t (k + 2) - due t (k + 1)"
      using group_due [OF tp(1), of "rs_r st1" 1] w r1 by (simp add: st1_def)
    have "use_credits t (rs_s st) st1 = st1\<lparr>rs_window := (if t_packets t > ?c then t_packets t - ?c else 0)\<rparr>"
      unfolding use_credits_def Let_def using sl sp by (simp add: missed) (simp add: st1_def pe)
    moreover have "unat (if t_packets t > ?c then t_packets t - ?c else 0) = unat (t_packets t) - (due t (k + 2) - due t (k + 1))"
      using c by (auto simp: word_less_nat_alt unat_sub word_le_nat_alt)
    ultimately show ?thesis unfolding pass using True r1 tot by (simp add: in_step_def st1_def)
  qed
qed

lemma run_in_step:
  "shaped t \<Longrightarrow> in_step t k st \<Longrightarrow> \<forall>i < length es. on_time t (k + i) (es ! i) \<Longrightarrow>
   unat (t_packets t) * (k + length es + 1) < 2 ^ 32 \<Longrightarrow> \<forall>i < length es. due t (k + i + 1) - due t (k + i) < 65536 \<Longrightarrow>
   es \<noteq> [] \<Longrightarrow> \<forall>i < length es. snd (es ! i) < T \<longleftrightarrow> i + 1 < length es \<Longrightarrow>
   \<exists>st'. run_loop t T es st = Some st' \<and> in_step t (k + length es) st'"
proof (induction es arbitrary: k st)
  case (Cons e es)
  have le: "unat (t_packets t) * (k + 2) \<le> unat (t_packets t) * (k + length (e # es) + 1)" by (intro mult_le_mono2) simp
  have p: "in_step t (k + 1) (talker_pass t e st)"
    by (rule pass_in_step [OF Cons.prems(1,2)])
      (use Cons.prems(3,5) le_less_trans [OF le Cons.prems(4)] in \<open>auto dest!: spec [of _ 0]\<close>)
  have resend: "\<not> rs_resend (talker_pass t e st)" using p by (simp add: in_step_def)
  show ?case
  proof (cases "es = []")
    case True
    then have "\<not> snd e < T" using Cons.prems(7) by auto
    then show ?thesis using p resend True by simp
  next
    case False
    then have T: "snd e < T" using Cons.prems(7) by (auto dest!: spec [of _ 0])
    have "\<exists>st'. run_loop t T es (talker_pass t e st) = Some st' \<and> in_step t (k + 1 + length es) st'"
    proof (rule Cons.IH [OF Cons.prems(1) p _ _ _ False])
      show "\<forall>i < length es. on_time t (k + 1 + i) (es ! i)" 
        using Cons.prems(3) [rule_format, of "Suc _"] by simp
      show "unat (t_packets t) * (k + 1 + length es + 1) < 2 ^ 32" using Cons.prems(4) by simp
      show "\<forall>i < length es. due t (k + 1 + i + 1) - due t (k + 1 + i) < 65536"
        using Cons.prems(5) [rule_format, of "Suc _"] by simp
      show "\<forall>i < length es. snd (es ! i) < T \<longleftrightarrow> i + 1 < length es" 
        using Cons.prems(7) [rule_format, of "Suc _"] by simp
    qed
    then show ?thesis using T by (simp add: Let_def)
  qed
qed simp

text \<open>When the network takes every packet and every pass ends within its slot, the run of \<open>n\<close> slots sends exactly
  what it reports as expected, the share \<open>packets * n / slots\<close> of the rate that was asked for, rounded down,
  for any number of windows.\<close>

theorem talker_run_sends_due:
  assumes "set_shaping slots width packets pkt_size talker_new = (True, t)"
    and "unat packets * unat slots < 2 ^ 32" "unat packets * (length es + 1) < 2 ^ 32"
    and "\<forall>i < length es. on_time t i (es ! i) \<and> due t (i + 1) - due t i < 65536"
    and "\<forall>i < length es. snd (es ! i) < max duration (uint slots * uint width) \<longleftrightarrow> i + 1 < length es" "es \<noteq> []" "0 \<le> duration"
  shows "\<exists>n. talker_run t True duration es = Some \<lparr>packets_sent = n, packets_expected = n\<rparr> \<and>
    unat n = unat packets * length es div unat slots"
proof -
  have t: "t = \<lparr>t_slots = slots, t_width = width, t_size = pkt_size, t_packets = packets, t_init = False\<rparr>"
    and nz: "slots \<noteq> 0" "width \<noteq> 0" "packets \<noteq> 0" "pkt_size \<noteq> 0"
    using assms(1) by (auto simp: set_shaping_def talker_new_def split: if_splits)
  let ?t = "t\<lparr>t_init := True\<rparr>"
  have same: "due ?t = due t" "on_time ?t = on_time t" by (simp_all add: due_def on_time_def fun_eq_iff)
  have sh: "shaped ?t" using assms(2) nz by (simp add: shaped_def t)
  have "in_step ?t 0 run_start" using nz by (simp add: in_step_def run_start_def t unat_gt_0)
  from run_in_step [OF sh this, of es "max duration (uint slots * uint width)"] assms(3-6)
  obtain st where st: "run_loop ?t (max duration (uint slots * uint width)) es run_start = Some st" "in_step ?t (length es) st"
    unfolding same by (auto simp: t)
  have "unat (rs_s st) = length es" "unat (rs_total st) = due t (length es)" using st(2) same by (simp_all add: in_step_def)
  moreover have "unat packets * length es < 2 ^ 32"
  proof -
    have "unat packets * length es \<le> unat packets * (length es + 1)" by (intro mult_le_mono2) simp
    then show ?thesis using assms(3) by (rule le_less_trans)
  qed
  ultimately have "unat ((packets * rs_s st) div ucast slots) = due t (length es)"
    by (simp add: unat_div_slots unat_mult_small due_def t)
  then have "(packets * rs_s st) div ucast slots = rs_total st"
    using \<open>unat (rs_total st) = due t (length es)\<close> by (simp add: word_unat_eq_iff)
  moreover have "talker_init True t = (True, ?t)" using nz by (simp add: talker_init_def t)
  ultimately have "talker_run t True duration es = Some \<lparr>packets_sent = rs_total st, packets_expected = rs_total st\<rparr>"
    using st(1) assms(7) by (simp add: talker_run_def t)
  then show ?thesis using \<open>unat (rs_total st) = due t (length es)\<close> by (auto simp: due_def t)
qed

lemma talker_run_sends_due_witness:
  "\<exists>n. talker_run \<lparr>t_slots = 2, t_width = 5, t_size = 100, t_packets = 7, t_init = False\<rparr> True 0 [(\<lambda>c. c, 4), (\<lambda>c. c, 9), (\<lambda>c. c, 14)]
     = Some \<lparr>packets_sent = n, packets_expected = n\<rparr> \<and> unat n = 10"
proof -
  let ?t = "\<lparr>t_slots = 2, t_width = 5, t_size = 100, t_packets = 7, t_init = False\<rparr>"
  let ?es = "[(\<lambda>c. c, 4), (\<lambda>c. c, 9), (\<lambda>c. c, 14)] :: ((16 word \<Rightarrow> 16 word) \<times> int) list"
  have 1: "set_shaping 2 5 7 100 talker_new = (True, ?t)" by (simp add: set_shaping_def talker_new_def)
  have 2: "unat (7 :: 32 word) * unat (2 :: 16 word) < 2 ^ 32" "unat (7 :: 32 word) * (length ?es + 1) < 2 ^ 32" by simp_all
  have 3: "\<forall>i < length ?es. on_time ?t i (?es ! i) \<and> due ?t (i + 1) - due ?t i < 65536"
    by (simp add: less_Suc_eq numeral_3_eq_3 all_conj_distrib on_time_def due_def)
  have 4: "\<forall>i < length ?es. snd (?es ! i) < max 0 (uint (2 :: 16 word) * uint (5 :: 16 word)) \<longleftrightarrow> i + 1 < length ?es"
    by (simp add: less_Suc_eq numeral_3_eq_3 all_conj_distrib)
  from talker_run_sends_due [OF 1 2 3 4] show ?thesis by simp
qed

section \<open>The split over the threads\<close>

lemma unat_packets_thread:
  assumes "threads \<noteq> 0" "unat packets * unat threads < 2 ^ 32" "i < unat threads"
  shows "unat (packets_thread packets threads i) =
    unat packets * (i + 1) div unat threads - unat packets * i div unat threads"
proof -
  have t: "unat threads \<le> 65535" by (rule unat_word16)
  have u: "unat (of_nat j :: 32 word) = j" if "j \<le> unat threads" for j
    unfolding unat_of_nat using that t by simp
  have m: "unat (of_nat j * packets) = unat packets * j" if "j \<le> unat threads" for j
  proof -
    have "unat packets * j \<le> unat packets * unat threads" using that by (rule mult_le_mono2)
    from le_less_trans [OF this assms(2)] have "unat (of_nat j :: 32 word) * unat packets < 2 ^ 32"
      unfolding u [OF that] mult.commute [of j] .
    then show ?thesis using u [OF that] by (simp only: unat_mult_small mult.commute)
  qed
  have a: "unat ((of_nat (i + 1) * packets) div ucast threads) = unat packets * (i + 1) div unat threads"
    unfolding unat_div_slots using m [of "i + 1"] assms(3) by simp
  have b: "unat ((of_nat i * packets) div ucast threads) = unat packets * i div unat threads"
    unfolding unat_div_slots using m [of i] assms(3) by simp
  have "unat packets * i div unat threads \<le> unat packets * (i + 1) div unat threads"
    by (intro div_le_mono mult_le_mono2) simp
  then have "(of_nat i * packets) div ucast threads \<le> (of_nat (i + 1) * packets) div ucast threads"
    unfolding word_le_nat_alt a b .
  from unat_sub [OF this] show ?thesis unfolding packets_thread_def a b .
qed

lemma sum_diff_mono: "mono f \<Longrightarrow> (\<Sum>i < n. f (Suc i) - f i) = f n - (f 0 :: nat)"
proof (induction n)
  case (Suc n)
  have le: "f 0 \<le> f n" "f n \<le> f (Suc n)" by (rule monoD [OF Suc.prems]; simp)+
  have "(\<Sum>i < Suc n. f (Suc i) - f i) = (f n - f 0) + (f (Suc n) - f n)" using Suc by simp
  with le show ?case by linarith
qed simp

text \<open>The packets are split over the threads without losing one, and no thread is left without a packet.\<close>

theorem packets_thread_split:
  assumes "threads \<noteq> 0" "unat (total_packets packets threads) * unat threads < 2 ^ 32"
  shows "(\<Sum>i < unat threads. unat (packets_thread (total_packets packets threads) threads i)) = unat (total_packets packets threads) \<and>
    (\<forall>i < unat threads. 1 \<le> packets_thread (total_packets packets threads) threads i)"
proof -
  let ?p = "unat (total_packets packets threads)" and ?t = "unat threads"
  define f where "f = (\<lambda>i. ?p * i div ?t)"
  have t0: "0 < ?t" using assms(1) by (simp add: unat_gt_0)
  have pt: "unat (packets_thread (total_packets packets threads) threads i) = f (Suc i) - f i" if "i < ?t" for i
    using unat_packets_thread [OF assms that] by (simp add: f_def)
  have mono: "mono f" by (auto simp: f_def mono_def intro!: div_le_mono)
  have "(\<Sum>i < ?t. unat (packets_thread (total_packets packets threads) threads i)) = (\<Sum>i < ?t. f (Suc i) - f i)"
    by (rule sum.cong) (simp_all add: pt)
  also have "\<dots> = ?p" unfolding sum_diff_mono [OF mono] using t0 by (simp add: f_def)
  finally have sum: "(\<Sum>i < ?t. unat (packets_thread (total_packets packets threads) threads i)) = ?p" .
  have ge: "?t \<le> ?p" by (simp add: total_packets_def max_def word_le_nat_alt unat_ucast_up)
  have "1 \<le> packets_thread (total_packets packets threads) threads i" if i: "i < ?t" for i
  proof -
    have "?p * i + ?t \<le> ?p * Suc i" using ge by simp
    then have "(?p * i + ?t) div ?t \<le> f (Suc i)" unfolding f_def by (rule div_le_mono)
    moreover have "(?p * i + ?t) div ?t = f i + 1" unfolding f_def by (rule div_add_self2) (use t0 in simp)
    ultimately show ?thesis using pt [OF i] by (simp add: word_le_nat_alt)
  qed
  with sum show ?thesis by blast
qed

lemma packets_thread_split_witness:
  "unat (packets_thread 10 4 0) + unat (packets_thread 10 4 1) + unat (packets_thread 10 4 2) + unat (packets_thread 10 4 3) = 10"
proof -
  have t: "total_packets 10 4 = 10" by (simp add: total_packets_def)
  have "(4 :: 16 word) \<noteq> 0" "unat (total_packets 10 4) * unat (4 :: 16 word) < 2 ^ 32" by (simp_all add: t)
  note r = packets_thread_split [OF this, unfolded t]
  have n: "unat (4 :: 16 word) = Suc (Suc (Suc (Suc 0)))" by simp
  from r have "(\<Sum>i < Suc (Suc (Suc (Suc 0))). unat (packets_thread 10 4 i)) = 10" unfolding n by simp
  then show ?thesis by (simp add: numeral_2_eq_2 numeral_3_eq_3)
qed

section \<open>Backing off when the network is full\<close>

text \<open>One call of \<open>clock_nanosleep\<close>: its result, \<open>errno\<close>, and the remaining time if it stores one.
  The k-th call is \<open>clk k\<close>.  \<open>EINTR\<close> is 4.\<close>

record nanosleep_result =
  ns_r :: int
  ns_errno :: int
  ns_remaining :: "(int \<times> int) option"

definition duration_to_timespec :: "int \<Rightarrow> int \<times> int" where
  "duration_to_timespec dur = (let secs = dur sdiv 1000000000; nsecs = dur - secs * 1000000000 in (secs, nsecs))"

partial_function (option) sleep_loop :: "(nat \<Rightarrow> int \<times> int \<Rightarrow> nanosleep_result) \<Rightarrow> nat \<Rightarrow> int \<times> int \<Rightarrow> int \<times> int \<Rightarrow> bool option" where
  "sleep_loop clk k ts rm =
     (let r = clk k ts; rm = (case ns_remaining r of Some x \<Rightarrow> x | None \<Rightarrow> rm) in
      if ns_r r = -1 \<and> ns_errno r \<noteq> 4 then Some False
      else let ts = (if ns_r r = -1 then rm else ts) in
        if fst rm > 0 \<or> snd rm > 0 then sleep_loop clk (k + 1) ts rm else Some True)"

definition delay :: "(nat \<Rightarrow> int \<times> int \<Rightarrow> nanosleep_result) \<Rightarrow> int \<Rightarrow> nat \<Rightarrow> (bool \<times> nat) option" where
  "delay clk ns delay_count =
     (if delay_count > 5 then Some (False, delay_count)
      else map_option (\<lambda>r. (r, delay_count + 1)) (sleep_loop clk 0 (duration_to_timespec ns) (0, 0)))"

text \<open>The sleep of \<open>delay\<close> does not return once it has been interrupted: the remaining time of the interrupted call
  stays in the variable that the loop tests, since a call that succeeds does not store one.\<close>

theorem delay_stuck_after_interrupt:
  assumes "\<And>ts. ns_remaining (clk 0 ts) = Some rm" "0 < fst rm \<or> 0 < snd rm"
    and "\<And>ts. ns_r (clk 0 ts) = -1 \<Longrightarrow> ns_errno (clk 0 ts) = 4"
    and "\<And>k ts. 0 < k \<Longrightarrow> ns_r (clk k ts) = 0 \<and> ns_remaining (clk k ts) = None" and "delay_count \<le> 5"
  shows "delay clk ns delay_count = None"
proof -
  have "\<not> (c = clk \<and> 0 < k \<and> (0 < fst rm' \<or> 0 < snd rm'))" if "sleep_loop c k ts rm' = Some r" for c k ts rm' r
  proof (rule sleep_loop.raw_induct [where P = "\<lambda>c k ts rm' r. \<not> (c = clk \<and> 0 < k \<and> (0 < fst rm' \<or> 0 < snd rm'))", OF _ that])
    fix sl :: "(nat \<Rightarrow> int \<times> int \<Rightarrow> nanosleep_result) \<Rightarrow> nat \<Rightarrow> int \<times> int \<Rightarrow> int \<times> int \<Rightarrow> bool option"
    fix c k ts rm' r
    assume IH: "\<And>c k ts rm' r. sl c k ts rm' = Some r \<Longrightarrow> \<not> (c = clk \<and> 0 < k \<and> (0 < fst rm' \<or> 0 < snd rm'))"
    assume b: "(let r = c k ts; rm = (case ns_remaining r of Some x \<Rightarrow> x | None \<Rightarrow> rm') in
      if ns_r r = -1 \<and> ns_errno r \<noteq> 4 then Some False
      else let ts = (if ns_r r = -1 then rm else ts) in
        if fst rm > 0 \<or> snd rm > 0 then sl c (k + 1) ts rm else Some True) = Some r"
    show "\<not> (c = clk \<and> 0 < k \<and> (0 < fst rm' \<or> 0 < snd rm'))"
    proof
      assume e: "c = clk \<and> 0 < k \<and> (0 < fst rm' \<or> 0 < snd rm')"
      then have "sl clk (k + 1) ts rm' = Some r" using b assms(4) [of k ts] by (auto simp: Let_def)
      then show False using IH e by blast
    qed
  qed
  then have "sleep_loop clk 1 ts rm = None" for ts using assms(2) by (metis not_None_eq zero_less_one)
  then have "sleep_loop clk 0 (duration_to_timespec ns) (0, 0) = None"
    using assms(1-3) by (subst sleep_loop.simps) (simp add: Let_def)
  then show ?thesis using assms(5) by (simp add: delay_def)
qed

lemma delay_stuck_after_interrupt_witness:
  "delay (\<lambda>k ts. if k = 0 then \<lparr>ns_r = -1, ns_errno = 4, ns_remaining = Some (0, 500)\<rparr> else \<lparr>ns_r = 0, ns_errno = 0, ns_remaining = None\<rparr>) 750000 0 = None"
  by (rule delay_stuck_after_interrupt [where rm = "(0, 500)"]) simp_all

section \<open>Sending single packets\<close>

text \<open>\<open>os n\<close> is what the n-th system call returns: nothing, or its \<open>errno\<close>; \<open>ENOBUFS\<close> is 105.  The
  state is the number of system calls made and \<open>delay_count_\<close>; \<open>wait\<close> is \<open>delay(750us)\<close> for a count.\<close>

lemma delay_Some: "delay clk ns dc = Some (True, dc') \<Longrightarrow> dc \<le> 5 \<and> dc' = dc + 1"
  by (auto simp: delay_def split: if_splits)

function send_one :: "(nat \<Rightarrow> int option) \<Rightarrow> (nat \<Rightarrow> nat \<Rightarrow> int \<times> int \<Rightarrow> nanosleep_result) \<Rightarrow> nat \<Rightarrow> nat \<Rightarrow> (bool \<times> nat \<times> nat) option" where
  "send_one os clk n dc =
     (case os n of None \<Rightarrow> Some (True, n + 1, dc)
      | Some errno \<Rightarrow>
          if errno = 105 then
            (case delay (clk n) 750000 dc of None \<Rightarrow> None
             | Some (ok, dc') \<Rightarrow> if ok then send_one os clk (n + 1) dc' else Some (False, n + 1, dc'))
          else Some (False, n + 1, dc))"
  by pat_completeness auto
termination
  by (relation "measure (\<lambda>(os, clk, n, dc). 6 - dc)") (auto dest!: delay_Some)

declare send_one.simps [simp del]

function sendto_loop :: "(nat \<Rightarrow> int option) \<Rightarrow> (nat \<Rightarrow> nat \<Rightarrow> int \<times> int \<Rightarrow> nanosleep_result) \<Rightarrow> 16 word \<Rightarrow> 16 word \<Rightarrow> 16 word \<Rightarrow> nat \<Rightarrow> nat
    \<Rightarrow> (16 word \<times> nat \<times> nat) option" where
  "sendto_loop os clk count i sent n dc =
     (if i < count then
        case send_one os clk n dc of None \<Rightarrow> None
        | Some (ok, n, dc) \<Rightarrow> if ok then sendto_loop os clk count (i + 1) (sent + 1) n dc else Some (sent, n, dc)
      else Some (sent, n, dc))"
  by pat_completeness auto
termination
proof (relation "measure (\<lambda>(os, clk, count, i, sent, n, dc). unat count - unat i)")
  fix count i :: "16 word"
  assume "i < count"
  then have "unat i < unat count" "unat (i + 1) = unat i + 1"
    using unat_word16 [of count] by (simp_all add: word_less_nat_alt unat_plus_if')
  then have lt: "unat count - unat (i + 1) < unat count - unat i" by linarith
  from lt show "((os, clk, count, i + 1, sent', n', dc'), os, clk, count, i, sent, n, dc)
      \<in> measure (\<lambda>(os, clk, count, i, sent, n, dc). unat count - unat i)"
    for os clk sent sent' n n' dc dc'
    by simp
qed simp

declare sendto_loop.simps [simp del]

definition sendto_packets :: "bool \<Rightarrow> (nat \<Rightarrow> int option) \<Rightarrow> (nat \<Rightarrow> nat \<Rightarrow> int \<times> int \<Rightarrow> nanosleep_result) \<Rightarrow> 16 word \<Rightarrow> nat
    \<Rightarrow> (16 word \<times> nat \<times> nat) option" where
  "sendto_packets udp os clk count dc = (if \<not> udp then Some (0, 0, dc) else sendto_loop os clk count 0 0 0 dc)"

text \<open>The calls from \<open>n\<close> on that succeeded.\<close>

definition taken :: "(nat \<Rightarrow> int option) \<Rightarrow> nat \<Rightarrow> nat \<Rightarrow> nat" where
  "taken os n n' = length (filter (\<lambda>k. os k = None) [n..<n'])"

lemma taken_step: "n < n' \<Longrightarrow> taken os n n' = (if os n = None then 1 else 0) + taken os (n + 1) n'"
  by (simp add: taken_def upt_conv_Cons)

lemma taken_append: "n \<le> m \<Longrightarrow> m \<le> n' \<Longrightarrow> taken os n n' = taken os n m + taken os m n'"
proof -
  assume "n \<le> m" "m \<le> n'"
  then obtain d where "n' = m + d" using le_Suc_ex by blast
  then show ?thesis using upt_add_eq_append [OF \<open>n \<le> m\<close>, of d] by (simp add: taken_def)
qed

lemma taken_same [simp]: "taken os n n = 0"
  by (simp add: taken_def)

lemma send_one_calls:
  "send_one os clk n dc = Some (ok, n', dc') \<Longrightarrow> dc \<le> 6 \<Longrightarrow>
   dc \<le> dc' \<and> dc' \<le> 6 \<and> n < n' \<and> n' + dc \<le> n + dc' + 1 \<and> taken os n n' = (if ok then 1 else 0)"
proof (induction os clk n dc rule: send_one.induct)
  case (1 os clk n dc)
  show ?case
  proof (cases "os n")
    case None
    then show ?thesis using "1.prems" by (auto simp: send_one.simps [of os clk n] taken_step)
  next
    case (Some errno)
    show ?thesis
    proof (cases "errno = 105")
      case False
      then show ?thesis using "1.prems" Some by (auto simp: send_one.simps [of os clk n] taken_step)
    next
      case True
      then obtain okd dcd where d: "delay (clk n) 750000 dc = Some (okd, dcd)"
        using "1.prems"(1) Some by (auto simp: send_one.simps [of os clk n] split: option.splits)
      have dd: "dcd = dc \<or> dc \<le> 5 \<and> dcd = dc + 1" using d by (auto simp: delay_def split: if_splits)
      show ?thesis
      proof (cases okd)
        case ok: True
        then have l: "dc \<le> 5" "dcd = dc + 1" using delay_Some d by auto
        have "send_one os clk (n + 1) dcd = Some (ok, n', dc')" using "1.prems"(1) Some True d ok by (simp add: send_one.simps [of os clk n])
        from "1.IH" [OF Some True d refl ok this] l Some show ?thesis by (auto simp: taken_step [of n n'])
      next
        case False
        then show ?thesis using "1.prems" Some True d dd by (auto simp: send_one.simps [of os clk n] taken_step)
      qed
    qed
  qed
qed

lemma sendto_loop_calls:
  "sendto_loop os clk count i sent n dc = Some (sent', n', dc') \<Longrightarrow> dc \<le> 6 \<Longrightarrow> i \<le> count \<Longrightarrow> sent = i \<Longrightarrow>
   unat sent \<le> unat sent' \<and> sent' \<le> count \<and> dc \<le> dc' \<and> dc' \<le> 6 \<and> n \<le> n' \<and>
   n' + unat sent + dc \<le> n + unat sent' + dc' + 1 \<and> unat sent + taken os n n' = unat sent'"
proof (induction os clk count i sent n dc rule: sendto_loop.induct)
  case (1 os clk count i sent n dc)
  show ?case
  proof (cases "i < count")
    case False
    have "(sent', n', dc') = (sent, n, dc)" using "1.prems"(1) False by (subst (asm) sendto_loop.simps) simp
    then show ?thesis using "1.prems" by simp
  next
    case True
    then obtain ok n1 d1 where o: "send_one os clk n dc = Some (ok, n1, d1)"
      using "1.prems"(1) by (auto simp: sendto_loop.simps [of os clk count i] split: option.splits)
    note c = send_one_calls [OF o "1.prems"(2)]
    show ?thesis
    proof (cases ok)
      case False
      have "(sent', n', dc') = (sent, n1, d1)" using "1.prems"(1) True False o by (subst (asm) sendto_loop.simps) simp
      then show ?thesis using "1.prems" c False by auto
    next
      case ok: True
      have i1: "unat (i + 1) = unat i + 1" "i + 1 \<le> count"
        using True unat_word16 [of count] by (simp_all add: word_less_nat_alt word_le_nat_alt unat_plus_if')
      have rec: "sendto_loop os clk count (i + 1) (sent + 1) n1 d1 = Some (sent', n', dc')"
        using "1.prems"(1) True o ok by (subst (asm) sendto_loop.simps) simp
      have "sent + 1 = i + 1" using "1.prems"(4) by simp
      from "1.IH" [OF True o refl refl ok rec _ i1(2) this] c
      have IH: "unat (sent + 1) \<le> unat sent'" "sent' \<le> count" "d1 \<le> dc'" "dc' \<le> 6" "n1 \<le> n'"
        "n' + unat (sent + 1) + d1 \<le> n1 + unat sent' + dc' + 1" "unat (sent + 1) + taken os n1 n' = unat sent'" by blast+
      have s1: "unat (sent + 1) = unat sent + 1" using i1 "1.prems"(4) by simp
      have "taken os n n' = 1 + taken os n1 n'" using taken_append [of n n1 n' os] c ok IH(5) by simp
      then show ?thesis using IH c s1 by auto
    qed
  qed
qed

text \<open>Sending returns the number of packets that the network took, at most those asked for, with at most one call more
  than that for each time it backed off, which happens at most six times in a slot.\<close>

theorem sendto_counts_packets:
  assumes "sendto_packets True os clk count dc = Some (sent, n, dc')" "dc \<le> 6"
  shows "sent \<le> count \<and> unat sent = length (filter (\<lambda>k. os k = None) [0..<n]) \<and> dc \<le> dc' \<and> dc' \<le> 6 \<and>
    n \<le> unat sent + (dc' - dc) + 1"
  using sendto_loop_calls [of os clk count 0 0 0 dc sent n dc'] assms by (auto simp: sendto_packets_def taken_def)

lemma sendto_counts_packets_witness:
  "sendto_packets True (\<lambda>n. if n = 1 then Some 105 else None) (\<lambda>n k ts. \<lparr>ns_r = 0, ns_errno = 0, ns_remaining = None\<rparr>) 2 0 = Some (2, 3, 1)
   \<and> unat (2 :: 16 word) = length (filter (\<lambda>k. (if k = 1 then Some (105 :: int) else None) = None) [0..<3])"
proof -
  have l: "sleep_loop (\<lambda>k ts. \<lparr>ns_r = 0, ns_errno = 0, ns_remaining = None\<rparr>) 0 ts (0, 0) = Some True" for ts
    by (subst sleep_loop.simps) simp
  have "sendto_packets True (\<lambda>n. if n = 1 then Some 105 else None) (\<lambda>n k ts. \<lparr>ns_r = 0, ns_errno = 0, ns_remaining = None\<rparr>) 2 0 = Some (2, 3, 1)"
    by (simp add: sendto_packets_def sendto_loop.simps send_one.simps delay_def l)
  from sendto_counts_packets [OF this zero_le] this show ?thesis by blast
qed

section \<open>Sending raw frames\<close>

text \<open>Each frame gets a header of its own; the frames written so far are kept.\<close>

function bpf_loop :: "(nat \<Rightarrow> int option) \<Rightarrow> (nat \<Rightarrow> nat \<Rightarrow> int \<times> int \<Rightarrow> nanosleep_result) \<Rightarrow> 16 word \<Rightarrow> 16 word \<Rightarrow> byte list list \<Rightarrow> l2_eth_udp_pkt \<Rightarrow> nat \<Rightarrow> nat
    \<Rightarrow> (byte list list \<times> l2_eth_udp_pkt \<times> nat) option" where
  "bpf_loop os clk count i frames p n dc =
     (if i < count then
        (let (h, p) = build_pkt_hdr (reset_pkt p); (h, p) = build_pkt_hdr p in
         case send_one os clk n dc of None \<Rightarrow> None
         | Some (ok, n, dc) \<Rightarrow> if ok then bpf_loop os clk count (i + 1) (frames @ [h @ pkt_data p]) p n dc else Some (frames, p, dc))
      else Some (frames, p, dc))"
  by pat_completeness auto
termination
proof (relation "measure (\<lambda>(os, clk, count, i, frames, p, n, dc). unat count - unat i)")
  fix count i :: "16 word"
  assume "i < count"
  then have "unat i < unat count" "unat (i + 1) = unat i + 1"
    using unat_word16 [of count] by (simp_all add: word_less_nat_alt unat_plus_if')
  then have lt: "unat count - unat (i + 1) < unat count - unat i" by linarith
  from lt show "((os, clk, count, i + 1, fr', p', n', dc'), os, clk, count, i, fr, p, n, dc)
      \<in> measure (\<lambda>(os, clk, count, i, frames, p, n, dc). unat count - unat i)"
    for os clk fr fr' p p' n n' dc dc'
    by simp
qed simp

declare bpf_loop.simps [simp del]

definition bpf_send_packets :: "bool \<Rightarrow> (nat \<Rightarrow> int option) \<Rightarrow> (nat \<Rightarrow> nat \<Rightarrow> int \<times> int \<Rightarrow> nanosleep_result) \<Rightarrow> 16 word
    \<Rightarrow> l2_eth_udp_pkt \<Rightarrow> nat \<Rightarrow> (byte list list \<times> l2_eth_udp_pkt \<times> nat) option" where
  "bpf_send_packets socket os clk count p dc =
     (if \<not> socket then Some ([], p, dc) else bpf_loop os clk count 0 [] p 0 dc)"

text \<open>The frame a receiver sees for a packet, with an identification of its own.\<close>

definition frame_of :: "l2_eth_udp_pkt \<Rightarrow> 16 word \<Rightarrow> byte list \<Rightarrow> bool" where
  "frame_of p ident f \<longleftrightarrow> (\<exists>ip. frame_receive f = Some \<lparr>rx_dst_mac = ether_addr_octet (dst_mac p),
        rx_src_mac = ether_addr_octet (src_mac p), rx_vlan = (if vlan_id p < 4096 then Some (unat (vlan_id p)) else None), rx_ip = ip\<rparr> \<and>
     rx_id ip = unat ident \<and> \<not> rx_mf ip \<and> rx_offset ip = 0 \<and> rx_ttl ip = pkt_ttl p \<and>
     rx_src ip = addr_bytes (src_ip p) \<and> rx_dst ip = addr_bytes (dst_ip p) \<and>
     udp_receive (rx_src ip) (rx_dst ip) (rx_data ip) = Some \<lparr>rx_sport = port_bytes (src_port p),
        rx_dport = port_bytes (dst_port p), rx_payload = pkt_data p\<rparr>)"

definition same_flow :: "l2_eth_udp_pkt \<Rightarrow> l2_eth_udp_pkt \<Rightarrow> bool" where
  "same_flow p q \<longleftrightarrow> q = p\<lparr>fragmentation_id := fragmentation_id q, pkt_hdr := pkt_hdr q, pkt_reset := pkt_reset q\<rparr>"

lemma same_flow_fields:
  assumes "same_flow p q"
  shows "frame_of q = frame_of p" "pkt_data q = pkt_data p" "same_flow p (q\<lparr>fragmentation_id := i, pkt_hdr := h, pkt_reset := r\<rparr>)"
proof -
  obtain i' h' r' where "q = p\<lparr>fragmentation_id := i', pkt_hdr := h', pkt_reset := r'\<rparr>" using assms by (auto simp: same_flow_def)
  then show "frame_of q = frame_of p" "pkt_data q = pkt_data p" "same_flow p (q\<lparr>fragmentation_id := i, pkt_hdr := h, pkt_reset := r\<rparr>)"
    by (simp_all add: frame_of_def fun_eq_iff same_flow_def)
qed

lemma bpf_loop_frames:
  "bpf_loop os clk count i frames q n dc = Some (frames', q', dc') \<Longrightarrow> length (pkt_data p) \<le> 65507 \<Longrightarrow> same_flow p q \<Longrightarrow> i \<le> count \<Longrightarrow>
   \<exists>new. frames' = frames @ new \<and> unat i + length new \<le> unat count \<and>
     (\<forall>j < length new. frame_of p (fragmentation_id q + of_nat j) (new ! j))"
proof (induction os clk count i frames q n dc rule: bpf_loop.induct)
  case (1 os clk count i frames q n dc)
  show ?case
  proof (cases "i < count")
    case False
    have "frames' = frames" using "1.prems"(1) False by (subst (asm) bpf_loop.simps) simp
    then show ?thesis using "1.prems"(4) by (simp add: word_le_nat_alt)
  next
    case True
    obtain h q1 where b: "build_pkt_hdr (reset_pkt q) = (h, q1)" by (rule prod.exhaust)
    have "q\<lparr>fragmentation_id := fragmentation_id q, pkt_hdr := pkt_hdr q, pkt_reset := True\<rparr> = reset_pkt q"
      by (simp add: reset_pkt_def)
    then have rq: "same_flow p (reset_pkt q)"
      using same_flow_fields(3) [OF "1.prems"(3), of True "pkt_hdr q" "fragmentation_id q"] by (simp only:)
    have d: "pkt_data (reset_pkt q) = pkt_data p" "fragmentation_id (reset_pkt q) = fragmentation_id q"
      using same_flow_fields(2) [OF "1.prems"(3)] by (simp_all add: reset_pkt_def)
    have r: "pkt_reset (reset_pkt q)" "length (pkt_data (reset_pkt q)) \<le> 65507" "length (pkt_data (reset_pkt q)) + 28 < 65536"
      using "1.prems"(2) d by (simp_all add: reset_pkt_def)
    note rt = build_pkt_hdr_roundtrip_facts [OF r(1,2) b]
    have b2: "build_pkt_hdr q1 = (h, q1)" using rt by blast
    have q1: "same_flow p q1" "fragmentation_id q1 = fragmentation_id q + 1"
      using build_pkt_hdr_eq [OF r(1,3) b] same_flow_fields(3) [OF rq] d by auto
    have f: "frame_of p (fragmentation_id q) (h @ pkt_data q1)"
    proof -
      have "frame_of (reset_pkt q) (fragmentation_id q) (h @ pkt_data (reset_pkt q))"
        unfolding frame_of_def using rt d(2) by metis
      then show ?thesis using same_flow_fields(1) [OF rq] same_flow_fields(2) [OF q1(1)] d(1) by simp
    qed
    obtain ok n1 d1 where o: "send_one os clk n dc = Some (ok, n1, d1)"
      using "1.prems"(1) True b b2 by (subst (asm) bpf_loop.simps) (auto split: option.splits)
    show ?thesis
    proof (cases ok)
      case False
      have "frames' = frames" using "1.prems"(1) True b b2 o False by (subst (asm) bpf_loop.simps) simp
      then show ?thesis using "1.prems"(4) by (simp add: word_le_nat_alt)
    next
      case ok: True
      have i1: "unat (i + 1) = unat i + 1" "i + 1 \<le> count"
        using True unat_word16 [of count] by (simp_all add: word_less_nat_alt word_le_nat_alt unat_plus_if')
      have rec: "bpf_loop os clk count (i + 1) (frames @ [h @ pkt_data q1]) q1 n1 d1 = Some (frames', q', dc')"
        using "1.prems"(1) True b b2 o ok by (subst (asm) bpf_loop.simps) simp
      obtain new where new: "frames' = (frames @ [h @ pkt_data q1]) @ new" "unat (i + 1) + length new \<le> unat count"
          "\<forall>j < length new. frame_of p (fragmentation_id q1 + of_nat j) (new ! j)"
        using "1.IH" [OF True b [symmetric] refl b2 [symmetric] refl o refl refl ok rec "1.prems"(2) q1(1) i1(2)] by blast
      have "frame_of p (fragmentation_id q + of_nat j) (((h @ pkt_data q1) # new) ! j)" if "j < Suc (length new)" for j
        using that f new(3) q1(2) by (cases j) (simp_all add: add.assoc)
      then show ?thesis using new(1,2) i1 by (intro exI [of _ "(h @ pkt_data q1) # new"]) simp
    qed
  qed
qed

lemma bpf_loop_all:
  "bpf_loop os clk count i frames q n dc = Some (frames', q', dc') \<Longrightarrow> (\<And>n. os n = None) \<Longrightarrow> i \<le> count \<Longrightarrow>
   length frames' = length frames + (unat count - unat i)"
proof (induction os clk count i frames q n dc rule: bpf_loop.induct)
  case (1 os clk count i frames q n dc)
  show ?case
  proof (cases "i < count")
    case False
    have "i = count" using False "1.prems"(3) by simp
    moreover have "frames' = frames" using "1.prems"(1) False by (subst (asm) bpf_loop.simps) simp
    ultimately show ?thesis by simp
  next
    case True
    obtain h q1 where b: "build_pkt_hdr (reset_pkt q) = (h, q1)" by (rule prod.exhaust)
    obtain h2 q2 where b2: "build_pkt_hdr q1 = (h2, q2)" by (rule prod.exhaust)
    have o: "send_one os clk n dc = Some (True, n + 1, dc)" using "1.prems"(2) by (simp add: send_one.simps)
    have i1: "unat (i + 1) = unat i + 1" "i + 1 \<le> count" "unat i < unat count"
      using True unat_word16 [of count] by (simp_all add: word_less_nat_alt word_le_nat_alt unat_plus_if')
    have "bpf_loop os clk count (i + 1) (frames @ [h2 @ pkt_data q2]) q2 (n + 1) dc = Some (frames', q', dc')"
      using "1.prems"(1) True b b2 o by (subst (asm) bpf_loop.simps) simp
    from "1.IH" [OF True b [symmetric] refl b2 [symmetric] refl o refl refl TrueI this "1.prems"(2) i1(2)] i1
    show ?thesis by simp
  qed
qed

text \<open>The raw sender writes at most the frames asked for, each one valid with the flow's addresses and payload, and
  numbers them consecutively.\<close>

theorem bpf_frames_numbered:
  assumes "bpf_send_packets socket os clk count p dc = Some (frames, p', dc')" "length (pkt_data p) \<le> 65507"
  shows "length frames \<le> unat count \<and> (\<forall>j < length frames. frame_of p (fragmentation_id p + of_nat j) (frames ! j))"
proof (cases socket)
  case True
  have "same_flow p p" by (simp add: same_flow_def)
  from bpf_loop_frames [OF _ assms(2) this, of os clk count 0 "[]" 0 dc frames p' dc'] True assms(1)
  show ?thesis by (auto simp: bpf_send_packets_def)
qed (use assms in \<open>simp add: bpf_send_packets_def\<close>)

lemma bpf_frames_numbered_witness:
  "\<exists>frames p'. bpf_send_packets True (\<lambda>n. None) (\<lambda>n k ts. \<lparr>ns_r = 0, ns_errno = 0, ns_remaining = None\<rparr>) 1 (l2_eth_udp_pkt_new\<lparr>pkt_data := [9]\<rparr>) 0
     = Some (frames, p', 0) \<and> length frames = 1 \<and> frame_of (l2_eth_udp_pkt_new\<lparr>pkt_data := [9]\<rparr>) 0 (frames ! 0)"
proof -
  let ?p = "l2_eth_udp_pkt_new\<lparr>pkt_data := [9]\<rparr>"
  have s: "send_one (\<lambda>n. None) clk 0 0 = Some (True, 1, 0)" for clk by (simp add: send_one.simps)
  obtain h1 p1 where b1: "build_pkt_hdr (reset_pkt ?p) = (h1, p1)" by (rule prod.exhaust)
  obtain h2 p2 where b2: "build_pkt_hdr p1 = (h2, p2)" by (rule prod.exhaust)
  have b: "bpf_send_packets True (\<lambda>n. None) (\<lambda>n k ts. \<lparr>ns_r = 0, ns_errno = 0, ns_remaining = None\<rparr>) 1 ?p 0 = Some ([h2 @ pkt_data p2], p2, 0)"
    by (simp add: bpf_send_packets_def bpf_loop.simps s b1 b2)
  have "length (pkt_data ?p) \<le> 65507" by simp
  from bpf_frames_numbered [OF b this] b show ?thesis by (auto simp: l2_eth_udp_pkt_new_def)
qed

end
