(* ===== verification/UdpSenders.thy ===== *)
theory UdpSenders
  imports UdpTalker UdpSocket ToolOptions
begin

text \<open>
  The senders of \<open>tools/udp_load\<close> that use a socket (\<open>udp_talker_bsdipv4.cpp\<close>): the socket they set up, over the
  system of \<open>UdpSocket\<close>, the packets they prepare, and the loop over \<open>sendmmsg\<close>.  Where the library has no
  \<open>sendmmsg\<close> the class is the base class, which never starts.
\<close>

section \<open>Sockets\<close>

record bsd_talker =
  bt_udp :: udp
  bt_source :: sockaddr_in
  bt_dest :: sockaddr_in

definition bsd_talker_new :: bsd_talker where
  "bsd_talker_new = \<lparr>bt_udp = udp_new, bt_source = sockaddr_zero, bt_dest = sockaddr_zero\<rparr>"

text \<open>The local socket is destroyed, which closes it, when the setup fails.\<close>

definition bsd_setup :: "platform \<Rightarrow> os \<Rightarrow> sockaddr_in \<Rightarrow> sockaddr_in \<Rightarrow> unit udp_m" where
  "bsd_setup pf os source dest s =
     (let (_, s) = set_reuse_addr pf True s; (_, s) = set_reuse_port pf True s in
      ethen (udp_open pf os source)
        (if is_multicast (sin_addr dest) then
           ethen (set_multicast_loopback os True) (ethen (multicast_register_interface os source) (set_multicast_ttl os 1))
         else eret ()) s)"

definition bsd_init_packets :: "platform \<Rightarrow> os \<Rightarrow> sockaddr_in \<Rightarrow> sockaddr_in \<Rightarrow> bsd_talker \<times> trace \<Rightarrow> bool \<times> bsd_talker \<times> trace" where
  "bsd_init_packets pf os source dest = (\<lambda>(t, tr).
     if u_socket (bt_udp t) \<noteq> -1 then (False, t, tr)
     else case bsd_setup pf os source dest (udp_new, tr) of
         (Inl e, s) \<Rightarrow> (False, t, snd (snd (udp_close os s)))
       | (Inr _, sock, tr) \<Rightarrow> (True, \<lparr>bt_udp = sock, bt_source = source, bt_dest = dest\<rparr>, tr))"

lemma keeps_reuse: "keeps udp_owns (set_reuse_addr pf e)" "keeps udp_owns (set_reuse_port pf e)"
  by (auto intro!: keepsI simp: set_reuse_addr_def set_reuse_port_def udp_owns_def)

lemma bsd_setup_owns:
  assumes "os_fresh os" "udp_owns s"
  shows "udp_owns (snd (bsd_setup pf os source dest s))"
proof -
  have "keeps udp_owns (ethen (udp_open pf os source)
        (if is_multicast (sin_addr dest) then
           ethen (set_multicast_loopback os True) (ethen (multicast_register_interface os source) (set_multicast_ttl os 1))
         else eret ()))"
    using udp_open_owns [OF assms(1)]
    by (auto intro!: keeps_then keeps_on_socket simp: set_multicast_loopback_def multicast_register_interface_def
        set_multicast_ttl_def)
  then show ?thesis
    using keepsD [OF keeps_reuse(2) keepsD [OF keeps_reuse(1) assms(2)]]
    by (auto simp: bsd_setup_def Let_def split_beta intro: keepsD)
qed

lemma udp_open_socket:
  assumes "os_fresh os" "udp_owns s" "udp_open pf os bnd s = (Inr u, s')"
  shows "u_socket (fst s') \<noteq> -1"
proof -
  have "os_fresh os \<Longrightarrow> os (snd s) Sys_socket = Inr fd \<Longrightarrow> fd \<noteq> -1" for fd by (auto simp: os_fresh_def)
  then show ?thesis using assms(1,3)
    by (auto simp: udp_open_def take_socket_def ebind_def syscall_def scoped_fd_def ethen_def eret_def
        split: if_splits prod.splits sum.splits)
qed

lemma on_socket_same: "fst (snd (on_socket m s)) = fst s"
  by (simp add: on_socket_def eff_defs split_beta)

lemma bsd_setup_socket:
  assumes "os_fresh os" "udp_owns s" "u_socket (fst s) = -1" "bsd_setup pf os source dest s = (Inr u, s')"
  shows "u_socket (fst s') \<noteq> -1"
proof -
  let ?s = "snd (set_reuse_port pf True (snd (set_reuse_addr pf True s)))"
  have own: "udp_owns ?s" using keepsD [OF keeps_reuse(2) keepsD [OF keeps_reuse(1) assms(2)]] .
  obtain u1 s1 where o: "udp_open pf os source ?s = (Inr u1, s1)"
    using assms(4) by (cases "udp_open pf os source ?s"; cases "fst (udp_open pf os source ?s)")
      (auto simp: bsd_setup_def Let_def split_beta ethen_def ebind_def)
  have "fst s' = fst s1"
  proof (cases "is_multicast (sin_addr dest)")
    case True
    let ?a = "set_multicast_loopback os True s1"
    let ?b = "multicast_register_interface os source (snd ?a)"
    let ?c = "set_multicast_ttl os 1 (snd ?b)"
    have "fst (snd ?a) = fst s1" "fst (snd ?b) = fst (snd ?a)" "fst (snd ?c) = fst (snd ?b)"
      by (simp_all add: set_multicast_loopback_def multicast_register_interface_def set_multicast_ttl_def on_socket_same)
    then show ?thesis using assms(4) o True
      by (auto simp: bsd_setup_def Let_def split_beta ethen_def ebind_def split: sum.splits prod.splits)
  next
    case False
    then show ?thesis using assms(4) o by (auto simp: bsd_setup_def Let_def split_beta ethen_def ebind_def eret_def)
  qed
  then show ?thesis using udp_open_socket [OF assms(1) own o] by simp
qed

text \<open>Whatever call of the setup fails, the talker owns exactly the socket that is open: one after success, none otherwise.\<close>

theorem bsd_init_owns:
  assumes "os_fresh os" "uses_ok tr" "live tr = {}" "u_socket (bt_udp t) = -1"
    and "bsd_init_packets pf os source dest (t, tr) = (ok, t', tr')"
  shows "uses_ok tr' \<and> live tr' = (if ok then {u_socket (bt_udp t')} else {}) \<and> (if ok then u_socket (bt_udp t') \<noteq> -1 else t' = t)"
proof -
  have new: "udp_owns (udp_new, tr)" using assms(2,3) by (simp add: udp_owns_def owned_def udp_new_def)
  obtain r s where s: "bsd_setup pf os source dest (udp_new, tr) = (r, s)" by (rule prod.exhaust)
  have own: "udp_owns s" using bsd_setup_owns [OF assms(1) new, of pf source dest] s by simp
  show ?thesis
  proof (cases r)
    case (Inl e)
    have "udp_owns (snd (udp_close os s))" using keepsD [OF udp_close_owns own] .
    moreover have "u_socket (fst (snd (udp_close os s))) = -1" by (simp add: udp_close_def fdesc_close_def Let_def)
    ultimately have "owned {} (snd (snd (udp_close os s)))" by (simp add: udp_owns_def)
    then show ?thesis using assms(4,5) s Inl by (auto simp: bsd_init_packets_def owned_def)
  next
    case (Inr u)
    have "u_socket (fst s) \<noteq> -1" using bsd_setup_socket [OF assms(1) new _ s [unfolded Inr]] by (simp add: udp_new_def)
    moreover obtain sock tr1 where "s = (sock, tr1)" by (rule prod.exhaust)
    ultimately show ?thesis using assms(4,5) s Inr own by (auto simp: bsd_init_packets_def udp_owns_def owned_def)
  qed
qed

lemma bsd_init_owns_witness:
  "let (ok, t, tr) = bsd_init_packets all_options one_socket_os loopback_addr loopback_addr (bsd_talker_new, []) in
   live tr = {} \<and> \<not> ok \<and> t = bsd_talker_new"
proof -
  obtain ok t tr where r: "bsd_init_packets all_options one_socket_os loopback_addr loopback_addr (bsd_talker_new, []) = (ok, t, tr)"
    by (cases "bsd_init_packets all_options one_socket_os loopback_addr loopback_addr (bsd_talker_new, [])")
  have "\<not> ok" using r
    by (auto simp: bsd_init_packets_def bsd_setup_def bsd_talker_new_def udp_new_def udp_open_def take_socket_def eff_defs
        all_options_def one_socket_os_def loopback_addr_def is_valid_bind_addr_def set_reuse_addr_def set_reuse_port_def
        syscall_def scoped_fd_def internal_defs sys_set_def live_def Let_def)
  with bsd_init_owns [OF one_socket_fresh _ _ _ r] r show ?thesis
    by (simp add: uses_ok_def live_def bsd_talker_new_def udp_new_def)
qed

section \<open>Sending many packets in one call\<close>

text \<open>The payload of the ith packet starts with \<open>i\<close>; the vectors are kept in \<open>eth_packets_\<close>, so the pointers of
  \<open>msgvec_\<close> stay good.\<close>

abbreviation UIO_MAXIOV :: nat where "UIO_MAXIOV \<equiv> 1024"

definition mmsg_payload :: "16 word \<Rightarrow> nat \<Rightarrow> byte list" where
  "mmsg_payload pkt_size i = map (\<lambda>j. of_nat (i + j)) [0 ..< unat pkt_size]"

definition mmsg_pool :: "16 word \<Rightarrow> byte list list" where
  "mmsg_pool pkt_size = map (mmsg_payload pkt_size) [0 ..< UIO_MAXIOV]"

text \<open>\<open>os n k\<close> is what the nth call of \<open>sendmmsg\<close> gives for \<open>k\<close> messages: the number sent, or the \<open>errno\<close>.  The inner
  loop tries a call again after a pause.\<close>

function send_many :: "(nat \<Rightarrow> nat \<Rightarrow> int + nat) \<Rightarrow> (nat \<Rightarrow> nat \<Rightarrow> int \<times> int \<Rightarrow> nanosleep_result) \<Rightarrow> nat \<Rightarrow> nat \<Rightarrow> nat
    \<Rightarrow> (nat option \<times> nat \<times> nat) option" where
  "send_many os clk k n dc =
     (case os n k of Inr result \<Rightarrow> Some (Some result, n + 1, dc)
      | Inl errno \<Rightarrow>
          if errno = 105 then
            (case delay (clk n) 750000 dc of None \<Rightarrow> None
             | Some (ok, dc') \<Rightarrow> if ok then send_many os clk k (n + 1) dc' else Some (None, n + 1, dc'))
          else Some (None, n + 1, dc))"
  by pat_completeness auto
termination
  by (relation "measure (\<lambda>(os, clk, k, n, dc). 6 - dc)") (auto dest!: delay_Some)

declare send_many.simps [simp del]

text \<open>The packets handed over, the first ones of the pool in each call, are kept.\<close>

partial_function (option) mmsg_loop :: "(nat \<Rightarrow> nat \<Rightarrow> int + nat) \<Rightarrow> (nat \<Rightarrow> nat \<Rightarrow> int \<times> int \<Rightarrow> nanosleep_result) \<Rightarrow> byte list list \<Rightarrow> 16 word
    \<Rightarrow> 16 word \<times> nat \<times> nat \<times> byte list list \<Rightarrow> (16 word \<times> nat \<times> nat \<times> byte list list) option" where
  "mmsg_loop os clk pool count st = (case st of (sent, n, dc, out) \<Rightarrow>
     if sent < count then
       Option.bind (send_many os clk (unat (min (count - sent) (of_nat UIO_MAXIOV))) n dc) (\<lambda>r. case r of
         (None, n, dc) \<Rightarrow> Some (sent, n, dc, out)
       | (Some result, n, dc) \<Rightarrow> mmsg_loop os clk pool count (sent + of_nat result, n, dc, out @ take result pool))
     else Some (sent, n, dc, out))"

definition sendmmsg_packets :: "bool \<Rightarrow> (nat \<Rightarrow> nat \<Rightarrow> int + nat) \<Rightarrow> (nat \<Rightarrow> nat \<Rightarrow> int \<times> int \<Rightarrow> nanosleep_result) \<Rightarrow> byte list list \<Rightarrow> 16 word
    \<Rightarrow> nat \<Rightarrow> (16 word \<times> nat \<times> nat \<times> byte list list) option" where
  "sendmmsg_packets udp os clk pool count dc = (if \<not> udp then Some (0, 0, dc, []) else mmsg_loop os clk pool count (0, 0, dc, []))"

text \<open>What the call promises: at least one message was sent, and no more than asked for.\<close>

definition mmsg_ok :: "(nat \<Rightarrow> nat \<Rightarrow> int + nat) \<Rightarrow> bool" where
  "mmsg_ok os \<longleftrightarrow> (\<forall>n k r. 0 < k \<longrightarrow> os n k = Inr r \<longrightarrow> 0 < r \<and> r \<le> k)"

lemma send_many_result:
  "send_many os clk k n dc = Some (Some r, n', dc') \<Longrightarrow> \<exists>m. os m k = Inr r"
proof (induction os clk k n dc rule: send_many.induct)
  case (1 os clk k n dc)
  show ?case
  proof (cases "os n k")
    case (Inr x)
    then show ?thesis using "1.prems" by (subst (asm) send_many.simps) auto
  next
    case (Inl errno)
    show ?thesis
    proof (cases "errno = 105")
      case False
      then show ?thesis using "1.prems" Inl by (subst (asm) send_many.simps) simp
    next
      case True
      obtain ok d where d: "delay (clk n) 750000 dc = Some (ok, d)"
        using "1.prems" Inl True by (subst (asm) send_many.simps) (auto split: option.splits)
      have ok using "1.prems" Inl True d by (subst (asm) send_many.simps) (auto split: if_splits)
      then have "send_many os clk k (n + 1) d = Some (Some r, n', dc')"
        using "1.prems" Inl True d by (subst (asm) send_many.simps) simp
      then show ?thesis using "1.IH" Inl True d \<open>ok\<close> by blast
    qed
  qed
qed

lemma delay_returns: "(\<And>n ts. ns_remaining (clk n ts) = None) \<Longrightarrow> delay clk ns dc \<noteq> None"
proof -
  assume c: "\<And>n ts. ns_remaining (clk n ts) = None"
  have "sleep_loop clk 0 ts (0, 0) \<noteq> None" for ts by (subst sleep_loop.simps) (auto simp: c Let_def)
  then show ?thesis by (auto simp: delay_def)
qed

lemma send_many_returns: "(\<And>n k ts. ns_remaining (clk n k ts) = None) \<Longrightarrow> send_many os clk k n dc \<noteq> None"
proof (induction os clk k n dc rule: send_many.induct)
  case (1 os clk k n dc)
  have "delay (clk n) 750000 dc \<noteq> None" by (rule delay_returns) (rule "1.prems")
  then show ?case using 1 by (auto simp: send_many.simps [of os clk k n] split: sum.splits option.splits)
qed

text \<open>Counts and the packets handed over, while the call promises what it does.\<close>

lemma chunk_bounds:
  assumes "sent < (count :: 16 word)"
  shows "0 < unat (min (count - sent) (of_nat UIO_MAXIOV))" "unat (min (count - sent) (of_nat UIO_MAXIOV)) \<le> unat count - unat sent"
    "unat (min (count - sent) (of_nat UIO_MAXIOV)) \<le> UIO_MAXIOV"
proof -
  have d: "unat (count - sent) = unat count - unat sent" using assms by (simp add: unat_sub)
  have p: "unat sent < unat count" using assms by (simp add: word_less_nat_alt)
  show "0 < unat (min (count - sent) (of_nat UIO_MAXIOV))" "unat (min (count - sent) (of_nat UIO_MAXIOV)) \<le> unat count - unat sent"
    "unat (min (count - sent) (of_nat UIO_MAXIOV)) \<le> UIO_MAXIOV"
    using d p by (auto simp: min_def word_le_nat_alt)
qed

lemma mmsg_step:
  fixes sent count :: "16 word"
  assumes "sent < count" "mmsg_ok os" "send_many os clk (unat (min (count - sent) (of_nat UIO_MAXIOV))) n dc = Some (Some r, n', dc')"
  shows "0 < r \<and> r \<le> UIO_MAXIOV \<and> unat (sent + of_nat r) = unat sent + r \<and> unat sent + r \<le> unat count"
proof -
  obtain m where "os m (unat (min (count - sent) (of_nat UIO_MAXIOV))) = Inr r" using send_many_result [OF assms(3)] by blast
  then have r: "0 < r" "r \<le> unat (min (count - sent) (of_nat UIO_MAXIOV))"
    using assms(2) chunk_bounds(1) [OF assms(1)] by (auto simp: mmsg_ok_def)
  with chunk_bounds [OF assms(1)] have le: "r \<le> UIO_MAXIOV" "unat sent + r \<le> unat count" by linarith+
  have "unat count < 2 ^ LENGTH(16)" by (rule unsigned_less)
  then have "unat count < 2 ^ 16" by simp
  then have "unat (of_nat r :: 16 word) = r" using le by (simp add: unat_of_nat)
  then have "unat (sent + of_nat r) = unat sent + r"
    using unat_add_lem [of sent "of_nat r"] le \<open>unat count < 2 ^ 16\<close> by simp
  then show ?thesis using r le by simp
qed

lemma mmsg_loop_result:
  assumes ok: "mmsg_ok os" and clk: "\<And>n k ts. ns_remaining (clk n k ts) = None" and pool: "length pool = UIO_MAXIOV"
  shows "unat sent \<le> unat count \<Longrightarrow> length out = unat sent \<Longrightarrow> set out \<subseteq> set pool \<Longrightarrow>
    \<exists>sent' n' dc' out'. mmsg_loop os clk pool count (sent, n, dc, out) = Some (sent', n', dc', out') \<and>
      unat sent' \<le> unat count \<and> length out' = unat sent' \<and> set out' \<subseteq> set pool"
proof (induction "unat count - unat sent" arbitrary: sent n dc out rule: less_induct)
  case less
  show ?case
  proof (cases "sent < count")
    case False
    then show ?thesis using less.prems by (subst mmsg_loop.simps) simp
  next
    case True
    let ?k = "unat (min (count - sent) (of_nat UIO_MAXIOV))"
    obtain r n1 d1 where s: "send_many os clk ?k n dc = Some (r, n1, d1)" using send_many_returns [OF clk] by fast
    show ?thesis
    proof (cases r)
      case None
      then show ?thesis using s True less.prems by (subst mmsg_loop.simps) simp
    next
      case (Some x)
      note step = mmsg_step [OF True ok s [unfolded Some]]
      have "length (take x pool) = x" using step pool by simp
      moreover have "set (take x pool) \<subseteq> set pool" by (rule set_take_subset)
      ultimately have "\<exists>sent' n' dc' out'. mmsg_loop os clk pool count (sent + of_nat x, n1, d1, out @ take x pool) = Some (sent', n', dc', out') \<and>
          unat sent' \<le> unat count \<and> length out' = unat sent' \<and> set out' \<subseteq> set pool"
        using step less.prems by (intro less.hyps) auto
      then show ?thesis using s Some True by (subst mmsg_loop.simps) simp
    qed
  qed
qed

text \<open>When the call sends at least one message each time, sending ends, and returns the number of packets handed over,
  at most those asked for, each one of the pool; a call that sends nothing makes it run for ever.\<close>

theorem sendmmsg_counts:
  assumes "mmsg_ok os" "\<And>n k ts. ns_remaining (clk n k ts) = None"
  shows "\<exists>sent n dc' out. sendmmsg_packets udp os clk (mmsg_pool pkt_size) count dc = Some (sent, n, dc', out) \<and>
    sent \<le> count \<and> length out = unat sent \<and> set out \<subseteq> set (mmsg_pool pkt_size)"
proof -
  have "length (mmsg_pool pkt_size) = UIO_MAXIOV" by (simp add: mmsg_pool_def)
  from mmsg_loop_result [OF assms this, where sent = 0 and count = count and out = "[]" and n = 0 and dc = dc] show ?thesis
    by (auto simp: sendmmsg_packets_def word_le_nat_alt)
qed

lemma sendmmsg_counts_witness:
  "\<exists>sent n dc' out. sendmmsg_packets True (\<lambda>n k. Inr k) (\<lambda>n k ts. \<lparr>ns_r = 0, ns_errno = 0, ns_remaining = None\<rparr>) (mmsg_pool 9) 3 0 =
    Some (sent, n, dc', out) \<and> sent \<le> 3 \<and> length out = unat sent"
  using sendmmsg_counts [of "\<lambda>n k. Inr k" "\<lambda>n k ts. \<lparr>ns_r = 0, ns_errno = 0, ns_remaining = None\<rparr>" True 9 3 0]
  by (auto simp: mmsg_ok_def)

text \<open>A call that sends nothing makes the loop run for ever.\<close>

theorem sendmmsg_zero_hangs:
  assumes "0 < count"
  shows "sendmmsg_packets True (\<lambda>n k. Inr 0) clk pool count dc = None"
proof -
  have "\<not> (\<exists>n dc out. st = (0, n, dc, out) \<and> o1 = (\<lambda>n k. Inr 0) \<and> 0 < c)"
    if "mmsg_loop o1 clk pool c st = Some r" for o1 clk pool c st r
  proof (rule mmsg_loop.raw_induct [where P = "\<lambda>o1 clk pool c st r. \<not> (\<exists>n dc out. st = (0, n, dc, out) \<and> o1 = (\<lambda>n k. Inr 0) \<and> 0 < c)", OF _ that])
    fix f o1 clk pool c st r
    assume IH: "\<And>o1 clk pool c st r. f o1 clk pool c st = Some r \<Longrightarrow> \<not> (\<exists>n dc out. st = (0, n, dc, out) \<and> o1 = (\<lambda>n k. Inr 0) \<and> 0 < c)"
      and b: "(case st of (sent, n, dc, out) \<Rightarrow>
        if sent < c then
          Option.bind (send_many o1 clk (unat (min (c - sent) (of_nat UIO_MAXIOV))) n dc) (\<lambda>r. case r of
            (None, n, dc) \<Rightarrow> Some (sent, n, dc, out)
          | (Some result, n, dc) \<Rightarrow> f o1 clk pool c (sent + of_nat result, n, dc, out @ take result pool))
        else Some (sent, n, dc, out)) = Some r"
    show "\<not> (\<exists>n dc out. st = (0, n, dc, out) \<and> o1 = (\<lambda>n k. Inr 0) \<and> 0 < c)"
    proof
      assume "\<exists>n dc out. st = (0, n, dc, out) \<and> o1 = (\<lambda>n k. Inr 0) \<and> 0 < c"
      then obtain n dc out where e: "st = (0, n, dc, out)" "o1 = (\<lambda>n k. Inr 0)" "0 < c" by blast
      have "send_many (\<lambda>n k. Inr 0) clk k n dc = Some (Some 0, n + 1, dc)" for k by (subst send_many.simps) simp
      then have "f o1 clk pool c (0, n + 1, dc, out) = Some r" using b e by simp
      then show False using IH e by blast
    qed
  qed
  then show ?thesis using assms by (cases "mmsg_loop (\<lambda>n k. Inr 0) clk pool count (0, 0, dc, [])") (auto simp: sendmmsg_packets_def)
qed

lemma sendmmsg_zero_hangs_witness:
  "sendmmsg_packets True (\<lambda>n k. Inr 0) (\<lambda>n k ts. \<lparr>ns_r = 0, ns_errno = 0, ns_remaining = None\<rparr>) [] 3 0 = None"
  by (rule sendmmsg_zero_hangs) simp

end
