(* ===== verification/UdpRaw.thy ===== *)
theory UdpRaw
  imports UdpSenders NetQuery "HOL-Library.Char_ord" "HOL-Library.List_Lexorder"
begin

text \<open>
  The senders of \<open>tools/udp_load\<close> that write frames to a raw device (\<open>udp_talker_bpf.cpp\<close>,
  \<open>udp_talker_bpfmm.cpp\<close>): the search for the interface of the source address, the packet, the device with a record
  of the calls made on it, and the pool of the second sender with the memory its vectors own.  A block of memory has a
  name that is not used again, so that a pointer into a vector that was destroyed is told from a good one.
\<close>

section \<open>The device\<close>

datatype raw_call = Raw_open | Raw_mmwrite int | Raw_setif int string | Raw_hdrcmplt int | Raw_close int

type_synonym raw_trace = "(raw_call \<times> (int + int)) list"
type_synonym raw_os = "raw_trace \<Rightarrow> raw_call \<Rightarrow> int + int"
type_synonym 'a raw = "(raw_trace, int, 'a) eff"

definition raw_call :: "raw_os \<Rightarrow> raw_call \<Rightarrow> int raw" where
  "raw_call os c tr = (os tr c, tr @ [(c, os tr c)])"

text \<open>A local descriptor is closed when the rest leaves early.\<close>

definition raw_scoped :: "raw_os \<Rightarrow> int \<Rightarrow> 'a raw \<Rightarrow> 'a raw" where
  "raw_scoped os fd m tr = (case m tr of
      (Inl e, tr) \<Rightarrow> (Inl e, snd (raw_call os (Raw_close fd) tr)) | (Inr x, tr) \<Rightarrow> (Inr x, tr))"

definition bpf_device :: "raw_os \<Rightarrow> string \<Rightarrow> int raw" where
  "bpf_device os intf = ebind (raw_call os Raw_open) (\<lambda>fd. raw_scoped os fd
     (ethen (raw_call os (Raw_setif fd (ifr_name intf))) (ethen (raw_call os (Raw_hdrcmplt fd)) (eret fd))))"

definition bpfmm_device :: "raw_os \<Rightarrow> string \<Rightarrow> int raw" where
  "bpfmm_device os intf = ebind (raw_call os Raw_open) (\<lambda>fd. raw_scoped os fd
     (ethen (raw_call os (Raw_mmwrite fd)) (ethen (raw_call os (Raw_setif fd (ifr_name intf)))
       (ethen (raw_call os (Raw_hdrcmplt fd)) (eret fd)))))"

section \<open>The packet\<close>

text \<open>The interfaces in the order of the map, that of their names.\<close>

definition in_order :: "interfaces \<Rightarrow> (string \<times> interface) list" where
  "in_order m = map (\<lambda>n. (n, the (m n))) (sorted_list_of_set (dom m))"

definition wanted_flags :: flags where
  "wanted_flags = flags_or_bit (flags_or_bit (flags_of_bit (if_flags MULTICAST)) (if_flags UP)) (if_flags RUNNING)"

text \<open>The \<open>break\<close> leaves the loop over the addresses only, so the search goes on.\<close>

fun source_interface :: "(if_flag \<Rightarrow> 32 word) \<Rightarrow> in_addr \<Rightarrow> 16 word \<Rightarrow> (string \<times> interface) list \<Rightarrow> string \<times> l2_eth_udp_pkt
    \<Rightarrow> bool \<times> string \<times> l2_eth_udp_pkt" where
  "source_interface IFF source pkt_size [] (bpf_intf, p) = (True, bpf_intf, p)"
| "source_interface IFF source pkt_size ((name, intf) # l) (bpf_intf, p) =
     (case if_hwaddr intf of
        Some hw \<Rightarrow>
          if flags_bool (flags_and (interface_status IFF intf) wanted_flags) \<and> source \<in> ip_addr ` set (if_inet intf) then
            (if (case if_mtu intf of None \<Rightarrow> False | Some mtu \<Rightarrow> mtu < ucast pkt_size + 28) then (False, bpf_intf, p)
             else source_interface IFF source pkt_size l (name, p\<lparr>src_mac := hw\<rparr>))
          else source_interface IFF source pkt_size l (bpf_intf, p)
      | None \<Rightarrow> source_interface IFF source pkt_size l (bpf_intf, p))"

definition raw_payload :: "16 word \<Rightarrow> byte list" where
  "raw_payload pkt_size = map of_nat [0 ..< unat pkt_size]"

text \<open>The name of the interface when the packet is ready; the packet is replaced in any case but the first.\<close>

definition raw_prepare :: "(if_flag \<Rightarrow> 32 word) \<Rightarrow> interfaces \<Rightarrow> sockaddr_in \<Rightarrow> sockaddr_in \<Rightarrow> 16 word \<Rightarrow> l2_eth_udp_pkt option
    \<Rightarrow> string option \<times> l2_eth_udp_pkt option" where
  "raw_prepare IFF ifs source dest pkt_size old =
     (if \<not> is_multicast (sin_addr dest) then (None, old)
      else case get_ether_multicast (sin_addr dest) of
          None \<Rightarrow> (None, Some l2_eth_udp_pkt_new)
        | Some mac \<Rightarrow>
            (case source_interface IFF (sin_addr source) pkt_size (in_order ifs) ([], l2_eth_udp_pkt_new\<lparr>dst_mac := mac\<rparr>) of (ok, name, p) \<Rightarrow>
               if \<not> ok \<or> name = [] then (None, Some p)
               else (Some name, Some (p\<lparr>src_ip := sin_addr source, dst_ip := sin_addr dest, src_port := sin_port source,
                 dst_port := sin_port dest, pkt_data := raw_payload pkt_size\<rparr>))))"

section \<open>One frame in a call\<close>

record bpf_talker =
  bp_fd :: int
  bp_pkt :: "l2_eth_udp_pkt option"

definition bpf_talker_new :: bpf_talker where
  "bpf_talker_new = \<lparr>bp_fd = -1, bp_pkt = None\<rparr>"

definition bpf_init_packets :: "(if_flag \<Rightarrow> 32 word) \<Rightarrow> raw_os \<Rightarrow> interfaces \<Rightarrow> sockaddr_in \<Rightarrow> sockaddr_in \<Rightarrow> 16 word
    \<Rightarrow> bpf_talker \<times> raw_trace \<Rightarrow> bool \<times> bpf_talker \<times> raw_trace" where
  "bpf_init_packets IFF os ifs source dest pkt_size = (\<lambda>(t, tr).
     if bp_fd t \<noteq> -1 then (False, t, tr)
     else case raw_prepare IFF ifs source dest pkt_size (bp_pkt t) of
         (None, p) \<Rightarrow> (False, t\<lparr>bp_pkt := p\<rparr>, tr)
       | (Some name, p) \<Rightarrow> (case bpf_device os name tr of
             (Inl e, tr) \<Rightarrow> (False, t\<lparr>bp_pkt := p\<rparr>, tr)
           | (Inr fd, tr) \<Rightarrow> (True, t\<lparr>bp_pkt := p, bp_fd := fd\<rparr>, tr)))"

definition bpf_talker_send :: "(nat \<Rightarrow> int option) \<Rightarrow> (nat \<Rightarrow> nat \<Rightarrow> int \<times> int \<Rightarrow> nanosleep_result) \<Rightarrow> 16 word \<Rightarrow> bpf_talker \<Rightarrow> nat
    \<Rightarrow> (byte list list \<times> bpf_talker \<times> nat) option" where
  "bpf_talker_send os clk count t dc =
     map_option (\<lambda>(frames, p, dc). (frames, t\<lparr>bp_pkt := Some p\<rparr>, dc)) (bpf_send_packets (bp_fd t \<noteq> -1) os clk count (the (bp_pkt t)) dc)"

section \<open>Many frames in a call\<close>

text \<open>\<open>hp_bad\<close> says that something was freed that was not allocated.\<close>

record block_heap =
  hp_next :: nat
  hp_live :: "nat set"
  hp_bad :: bool

definition heap_new :: block_heap where
  "heap_new = \<lparr>hp_next = 0, hp_live = {}, hp_bad = False\<rparr>"

definition heap_alloc :: "block_heap \<Rightarrow> nat \<times> block_heap" where
  "heap_alloc h = (hp_next h, h\<lparr>hp_next := hp_next h + 1, hp_live := insert (hp_next h) (hp_live h)\<rparr>)"

definition heap_free :: "nat option \<Rightarrow> block_heap \<Rightarrow> block_heap" where
  "heap_free p h = (case p of None \<Rightarrow> h
     | Some b \<Rightarrow> if b \<in> hp_live h then h\<lparr>hp_live := hp_live h - {b}\<rparr> else h\<lparr>hp_bad := True\<rparr>)"

text \<open>A copy of a vector has memory of its own, unless it is empty.\<close>

definition copy_vector :: "byte list \<Rightarrow> block_heap \<Rightarrow> nat option \<times> block_heap" where
  "copy_vector v h = (if v = [] then (None, h) else case heap_alloc h of (b, h) \<Rightarrow> (Some b, h))"

type_synonym mm_iovec = "nat option \<times> nat"

abbreviation POOL :: nat where "POOL \<equiv> 341"

lemma pool_is_third: "POOL = UIO_MAXIOV div 3" by simp

text \<open>\<open>whdr\<close> is the size of the header of the device, \<open>align\<close> the rounding of \<open>BPF_WORDALIGN\<close>.  The two local vectors
  are destroyed at the end of the body, the last one first.\<close>

definition pool_entry :: "nat \<Rightarrow> (nat \<Rightarrow> nat) \<Rightarrow> bool \<Rightarrow> l2_eth_udp_pkt \<Rightarrow> nat
    \<Rightarrow> l2_eth_udp_pkt list \<times> mm_iovec list \<times> block_heap \<Rightarrow> l2_eth_udp_pkt list \<times> mm_iovec list \<times> block_heap" where
  "pool_entry whdr align allocated pkt i = (\<lambda>(packets, vec, h).
     let packets = packets[i := reset_pkt pkt]; j = 3 * i;
         (hdr, q) = build_pkt_hdr (packets ! i); packets = packets[i := q];
         (pkt_hdr, h) = copy_vector hdr h;
         (pkt_dat, h) = copy_vector (pkt_data q) h;
         s = length hdr + length (pkt_data q);
         padding = align s - s;
         (b, h) = heap_alloc h;
         h = (if allocated then heap_free (fst (vec ! j)) h else h);
         vec = vec[j := (Some b, whdr + padding)];
         vec = vec[j + 1 := (pkt_hdr, length hdr)];
         vec = vec[j + 2 := (pkt_dat, length (pkt_data q))];
         h = heap_free pkt_dat h;
         h = heap_free pkt_hdr h
     in (packets, vec, h))"

record bpfmm_talker =
  mm_fd :: int
  mm_pkt :: "l2_eth_udp_pkt option"
  mm_packets :: "l2_eth_udp_pkt list"
  mm_vec :: "mm_iovec list"

definition bpfmm_talker_new :: bpfmm_talker where
  "bpfmm_talker_new = \<lparr>mm_fd = -1, mm_pkt = None, mm_packets = [], mm_vec = []\<rparr>"

definition prepare_pool :: "nat \<Rightarrow> (nat \<Rightarrow> nat) \<Rightarrow> l2_eth_udp_pkt \<Rightarrow> bpfmm_talker \<times> block_heap \<Rightarrow> bpfmm_talker \<times> block_heap" where
  "prepare_pool whdr align pkt = (\<lambda>(t, h).
     let allocated = mm_packets t \<noteq> [];
         packets = (if allocated then mm_packets t else replicate POOL l2_eth_udp_pkt_new);
         vec = (if allocated then mm_vec t else replicate (POOL * 3) (None, 0));
         (packets, vec, h) = fold (pool_entry whdr align allocated pkt) [0 ..< POOL] (packets, vec, h)
     in (t\<lparr>mm_packets := packets, mm_vec := vec\<rparr>, h))"

definition bpfmm_init_packets :: "nat \<Rightarrow> (nat \<Rightarrow> nat) \<Rightarrow> (if_flag \<Rightarrow> 32 word) \<Rightarrow> raw_os \<Rightarrow> interfaces \<Rightarrow> sockaddr_in \<Rightarrow> sockaddr_in \<Rightarrow> 16 word
    \<Rightarrow> bpfmm_talker \<times> block_heap \<times> raw_trace \<Rightarrow> bool \<times> bpfmm_talker \<times> block_heap \<times> raw_trace" where
  "bpfmm_init_packets whdr align IFF os ifs source dest pkt_size = (\<lambda>(t, h, tr).
     if mm_fd t \<noteq> -1 then (False, t, h, tr)
     else case raw_prepare IFF ifs source dest pkt_size (mm_pkt t) of
         (None, p) \<Rightarrow> (False, t\<lparr>mm_pkt := p\<rparr>, h, tr)
       | (Some name, p) \<Rightarrow>
           (case prepare_pool whdr align (the p) (t\<lparr>mm_pkt := p\<rparr>, h) of (t, h) \<Rightarrow>
             (case bpfmm_device os name tr of
                (Inl e, tr) \<Rightarrow> (False, t, h, tr)
              | (Inr fd, tr) \<Rightarrow> (True, t\<lparr>mm_fd := fd\<rparr>, h, tr))))"

definition bpfmm_destroy :: "raw_os \<Rightarrow> bpfmm_talker \<times> block_heap \<times> raw_trace \<Rightarrow> block_heap \<times> raw_trace" where
  "bpfmm_destroy os = (\<lambda>(t, h, tr).
     (fold (\<lambda>i. heap_free (fst (mm_vec t ! (3 * i)))) [0 ..< (length (mm_vec t) + 2) div 3] h,
      if mm_fd t \<noteq> -1 then snd (raw_call os (Raw_close (mm_fd t)) tr) else tr))"

lemma mm_step:
  fixes sent count :: "16 word"
  assumes "sent < count"
  shows "unat (sent + min (count - sent) (of_nat POOL)) = unat sent + min (unat count - unat sent) POOL" "unat count - unat (sent + min (count - sent) (of_nat POOL)) < unat count - unat sent"
proof -
  have p: "unat sent < unat count" using assms by (simp add: word_less_nat_alt)
  have d: "unat (count - sent) = unat count - unat sent" using assms by (simp add: unat_sub)
  then have m: "unat (min (count - sent) (of_nat POOL)) = min (unat count - unat sent) POOL"
    by (auto simp: min_def word_le_nat_alt)
  have "unat count < 2 ^ LENGTH(16)" by (rule unsigned_less)
  then have "unat sent + min (unat count - unat sent) POOL < 2 ^ LENGTH(16)" using p by linarith
  then show a: "unat (sent + min (count - sent) (of_nat POOL)) = unat sent + min (unat count - unat sent) POOL"
    unfolding m [symmetric] by (rule unat_add_lem [THEN iffD1])
  show "unat count - unat (sent + min (count - sent) (of_nat POOL)) < unat count - unat sent" unfolding a using p by simp
qed

text \<open>\<open>writev\<close> is a call of \<open>send_one\<close>: it fails or not.\<close>

function mm_loop :: "(nat \<Rightarrow> int option) \<Rightarrow> (nat \<Rightarrow> nat \<Rightarrow> int \<times> int \<Rightarrow> nanosleep_result) \<Rightarrow> 16 word \<Rightarrow> 16 word \<Rightarrow> nat \<Rightarrow> nat
    \<Rightarrow> (16 word \<times> nat \<times> nat) option" where
  "mm_loop os clk count sent n dc =
     (if sent < count then
        let remain = min (count - sent) (of_nat POOL) in
        case send_one os clk n dc of None \<Rightarrow> None
        | Some (ok, n, dc) \<Rightarrow> if ok then mm_loop os clk count (sent + remain) n dc else Some (sent, n, dc)
      else Some (sent, n, dc))"
  by pat_completeness auto

termination
  by (relation "measure (\<lambda>(os, clk, count, sent, n, dc). unat count - unat sent)") (auto simp: mm_step(2) [simplified])

declare mm_loop.simps [simp del]

definition bpfmm_send_packets :: "(nat \<Rightarrow> int option) \<Rightarrow> (nat \<Rightarrow> nat \<Rightarrow> int \<times> int \<Rightarrow> nanosleep_result) \<Rightarrow> 16 word \<Rightarrow> bpfmm_talker \<Rightarrow> nat
    \<Rightarrow> (16 word \<times> nat \<times> nat) option" where
  "bpfmm_send_packets os clk count t dc = (if mm_fd t = -1 then Some (0, 0, dc) else mm_loop os clk count 0 0 dc)"

section \<open>No descriptor is lost\<close>

fun raw_live_step :: "raw_call \<times> (int + int) \<Rightarrow> int set \<Rightarrow> int set" where
  "raw_live_step (Raw_open, Inr fd) L = insert fd L"
| "raw_live_step (Raw_close fd, _) L = L - {fd}"
| "raw_live_step _ L = L"

definition raw_live :: "raw_trace \<Rightarrow> int set" where
  "raw_live tr = fold raw_live_step tr {}"

fun raw_fd_of :: "raw_call \<Rightarrow> int option" where
  "raw_fd_of Raw_open = None"
| "raw_fd_of (Raw_mmwrite fd) = Some fd"
| "raw_fd_of (Raw_setif fd _) = Some fd"
| "raw_fd_of (Raw_hdrcmplt fd) = Some fd"
| "raw_fd_of (Raw_close fd) = Some fd"

definition raw_uses_ok :: "raw_trace \<Rightarrow> bool" where
  "raw_uses_ok tr \<longleftrightarrow> (\<forall>i < length tr. \<forall>fd. raw_fd_of (fst (tr ! i)) = Some fd \<longrightarrow> fd \<in> raw_live (take i tr))"

definition raw_owned :: "int set \<Rightarrow> raw_trace \<Rightarrow> bool" where
  "raw_owned L tr \<longleftrightarrow> raw_uses_ok tr \<and> raw_live tr = L"

definition raw_fresh :: "raw_os \<Rightarrow> bool" where
  "raw_fresh os \<longleftrightarrow> (\<forall>tr fd. os tr Raw_open = Inr fd \<longrightarrow> fd \<noteq> -1 \<and> fd \<notin> raw_live tr)"

lemma raw_live_snoc [simp]: "raw_live (tr @ [x]) = raw_live_step x (raw_live tr)"
  by (simp add: raw_live_def)

lemma raw_uses_ok_snoc [simp]:
  "raw_uses_ok (tr @ [(c, r)]) \<longleftrightarrow> raw_uses_ok tr \<and> (\<forall>fd. raw_fd_of c = Some fd \<longrightarrow> fd \<in> raw_live tr)"
  by (auto simp: raw_uses_ok_def less_Suc_eq nth_append)

definition device_ok :: "(string \<Rightarrow> int raw) \<Rightarrow> bool" where
  "device_ok dev \<longleftrightarrow> (\<forall>name tr. raw_owned {} tr \<longrightarrow>
     (case dev name tr of (Inl e, tr) \<Rightarrow> raw_owned {} tr | (Inr fd, tr) \<Rightarrow> fd \<noteq> -1 \<and> raw_owned {fd} tr))"

lemmas device_defs = raw_scoped_def raw_call_def eff_defs

lemma keeps_raw_call [intro]:
  assumes "raw_fd_of c = Some fd" "fd \<in> L" "\<And>fd. c \<noteq> Raw_close fd"
  shows "keeps (raw_owned L) (raw_call os c)"
  using assms by (cases c; intro keepsI) (auto simp: raw_owned_def raw_call_def)

lemma device_ok_scoped:
  assumes "raw_fresh os" "\<And>name fd. keeps (raw_owned {fd}) (m name fd)"
  shows "device_ok (\<lambda>name. ebind (raw_call os Raw_open) (\<lambda>fd. raw_scoped os fd (ethen (m name fd) (eret fd))))"
  unfolding device_ok_def
proof (intro allI impI)
  fix name tr assume tr: "raw_owned {} tr"
  show "case ebind (raw_call os Raw_open) (\<lambda>fd. raw_scoped os fd (ethen (m name fd) (eret fd))) tr of
      (Inl e, tr) \<Rightarrow> raw_owned {} tr | (Inr fd, tr) \<Rightarrow> fd \<noteq> -1 \<and> raw_owned {fd} tr"
  proof (cases "os tr Raw_open")
    case (Inl e)
    then show ?thesis using tr by (simp add: ebind_def raw_call_def raw_owned_def)
  next
    case (Inr fd)
    define tr1 where "tr1 = tr @ [(Raw_open, Inr fd)]"
    have o: "raw_owned {fd} tr1" "fd \<noteq> -1"
      using tr Inr assms(1) unfolding tr1_def by (auto simp: raw_owned_def raw_fresh_def)
    obtain r tr2 where m: "m name fd tr1 = (r, tr2)" by (rule prod.exhaust)
    have o2: "raw_owned {fd} tr2" using keepsD [OF assms(2) o(1), of name] m by simp
    show ?thesis
    proof (cases r)
      case (Inl e)
      then show ?thesis using \<open>os tr Raw_open = Inr fd\<close> m o2
        by (simp add: device_defs tr1_def [symmetric]) (simp add: raw_owned_def)
    next
      case (Inr x)
      then show ?thesis using \<open>os tr Raw_open = Inr fd\<close> m o2 o(2)
        by (simp add: device_defs tr1_def [symmetric])
    qed
  qed
qed

lemma devices_ok:
  assumes "raw_fresh os"
  shows "device_ok (bpf_device os)" "device_ok (bpfmm_device os)"
proof -
  have "bpf_device os = (\<lambda>name. ebind (raw_call os Raw_open) (\<lambda>fd. raw_scoped os fd
     (ethen (ethen (raw_call os (Raw_setif fd (ifr_name name))) (raw_call os (Raw_hdrcmplt fd))) (eret fd))))"
    by (auto simp: bpf_device_def eff_defs raw_scoped_def fun_eq_iff split: prod.splits sum.splits)
  then show "device_ok (bpf_device os)" by (simp only:) (intro device_ok_scoped assms keeps_then keeps_raw_call; simp)
  have "bpfmm_device os = (\<lambda>name. ebind (raw_call os Raw_open) (\<lambda>fd. raw_scoped os fd
     (ethen (ethen (raw_call os (Raw_mmwrite fd)) (ethen (raw_call os (Raw_setif fd (ifr_name name))) (raw_call os (Raw_hdrcmplt fd)))) (eret fd))))"
    by (auto simp: bpfmm_device_def eff_defs raw_scoped_def fun_eq_iff split: prod.splits sum.splits)
  then show "device_ok (bpfmm_device os)" by (simp only:) (intro device_ok_scoped assms keeps_then keeps_raw_call; simp)
qed

text \<open>Whatever call of the setup fails, the raw sender owns exactly the descriptor that is open: one after success,
  none otherwise.\<close>

theorem bpf_init_owns:
  assumes "raw_fresh os" "raw_owned {} tr" "bp_fd t = -1"
    and "bpf_init_packets IFF os ifs source dest pkt_size (t, tr) = (ok, t', tr')"
  shows "raw_owned (if ok then {bp_fd t'} else {}) tr' \<and> (ok \<longleftrightarrow> bp_fd t' \<noteq> -1)"
proof -
  have d: "case bpf_device os name tr of (Inl e, tr) \<Rightarrow> raw_owned {} tr | (Inr fd, tr) \<Rightarrow> fd \<noteq> -1 \<and> raw_owned {fd} tr" for name
    using devices_ok(1) [OF assms(1), unfolded device_ok_def, rule_format, OF assms(2)] .
  obtain n p where p: "raw_prepare IFF ifs source dest pkt_size (bp_pkt t) = (n, p)" by (rule prod.exhaust)
  show ?thesis
  proof (cases n)
    case None
    then show ?thesis using assms p by (auto simp: bpf_init_packets_def)
  next
    case (Some name)
    then show ?thesis using assms(3,4) p d [of name] by (auto simp: bpf_init_packets_def split: prod.splits sum.splits)
  qed
qed

text \<open>The candidates for the source of a flow: the search takes the last one, when the packet fits all of them.\<close>

definition candidate :: "(if_flag \<Rightarrow> 32 word) \<Rightarrow> in_addr \<Rightarrow> interface \<Rightarrow> bool" where
  "candidate IFF source intf \<longleftrightarrow> if_hwaddr intf \<noteq> None \<and> flags_bool (flags_and (interface_status IFF intf) wanted_flags) \<and>
     source \<in> ip_addr ` set (if_inet intf)"

definition fits :: "16 word \<Rightarrow> interface \<Rightarrow> bool" where
  "fits pkt_size intf \<longleftrightarrow> (case if_mtu intf of None \<Rightarrow> True | Some mtu \<Rightarrow> unat pkt_size + 28 \<le> unat mtu)"

lemma fits_word: "fits pkt_size intf \<longleftrightarrow> \<not> (case if_mtu intf of None \<Rightarrow> False | Some mtu \<Rightarrow> mtu < ucast pkt_size + 28)"
proof -
  have "unat (ucast pkt_size + 28 :: 32 word) = unat pkt_size + 28"
  proof -
    have "unat pkt_size \<le> 65535" by (rule unat_word16)
    then show ?thesis by (subst unat_add_lem [THEN iffD1]) (simp_all add: unat_ucast_up)
  qed
  then show ?thesis by (simp add: fits_def word_less_nat_alt not_less split: option.splits)
qed

lemma source_interface_last:
  "source_interface IFF source pkt_size l (n0, p0) = (True, n, p) \<Longrightarrow>
   (\<forall>c \<in> set l. candidate IFF source (snd c) \<longrightarrow> fits pkt_size (snd c)) \<and>
   (n, p) = (case filter (\<lambda>c. candidate IFF source (snd c)) l of [] \<Rightarrow> (n0, p0)
     | m \<Rightarrow> (fst (last m), p0\<lparr>src_mac := the (if_hwaddr (snd (last m)))\<rparr>))"
proof (induction l arbitrary: n0 p0)
  case (Cons c l)
  obtain name intf where c: "c = (name, intf)" by (rule prod.exhaust)
  show ?case
  proof (cases "candidate IFF source intf")
    case False
    then have "source_interface IFF source pkt_size l (n0, p0) = (True, n, p)"
      using Cons.prems by (auto simp: c candidate_def split: option.splits)
    from Cons.IH [OF this] False show ?thesis by (simp add: c)
  next
    case True
    then obtain hw where hw: "if_hwaddr intf = Some hw" by (auto simp: candidate_def)
    have f: "fits pkt_size intf" and r: "source_interface IFF source pkt_size l (name, p0\<lparr>src_mac := hw\<rparr>) = (True, n, p)"
      using Cons.prems True hw by (auto simp: c candidate_def fits_word split: if_splits)
    from Cons.IH [OF r] f True hw show ?thesis by (auto simp: c split: list.splits)
  qed
qed simp

lemma in_order_set: "finite (dom m) \<Longrightarrow> (n, i) \<in> set (in_order m) \<longleftrightarrow> m n = Some i"
  by (force simp: in_order_def dom_def)

lemma raw_prepare_result:
  assumes "raw_prepare IFF ifs source dest pkt_size old = (Some name, p)" "finite (dom ifs)"
  shows "\<exists>intf hw mac. ifs name = Some intf \<and> candidate IFF (sin_addr source) intf \<and> fits pkt_size intf \<and> if_hwaddr intf = Some hw \<and>
    get_ether_multicast (sin_addr dest) = Some mac \<and>
    p = Some (l2_eth_udp_pkt_new\<lparr>dst_mac := mac, src_mac := hw, src_ip := sin_addr source, dst_ip := sin_addr dest,
      src_port := sin_port source, dst_port := sin_port dest, pkt_data := raw_payload pkt_size\<rparr>)"
proof -
  obtain mac where mac: "get_ether_multicast (sin_addr dest) = Some mac"
    using assms(1) by (auto simp: raw_prepare_def split: if_splits option.splits)
  let ?l = "in_order ifs"
  obtain q where s: "source_interface IFF (sin_addr source) pkt_size ?l ([], l2_eth_udp_pkt_new\<lparr>dst_mac := mac\<rparr>) = (True, name, q)"
    "name \<noteq> []" and p: "p = Some (q\<lparr>src_ip := sin_addr source, dst_ip := sin_addr dest, src_port := sin_port source,
      dst_port := sin_port dest, pkt_data := raw_payload pkt_size\<rparr>)"
    using assms(1) mac by (auto simp: raw_prepare_def split: if_splits prod.splits)
  let ?m = "filter (\<lambda>c. candidate IFF (sin_addr source) (snd c)) ?l"
  note r = source_interface_last [OF s(1)]
  have ne: "?m \<noteq> []" using r s(2) by (auto split: list.splits)
  then have l: "last ?m \<in> set ?m" by (rule last_in_set)
  obtain n intf where n: "last ?m = (n, intf)" by (rule prod.exhaust)
  have nq: "name = n" "q = l2_eth_udp_pkt_new\<lparr>dst_mac := mac, src_mac := the (if_hwaddr intf)\<rparr>"
    using r ne n by (auto split: list.splits)
  have "(n, intf) \<in> set ?l" "candidate IFF (sin_addr source) intf" using l n by auto
  moreover from this have "fits pkt_size intf" using r by force
  moreover obtain hw where "if_hwaddr intf = Some hw" using calculation(2) by (auto simp: candidate_def)
  ultimately show ?thesis using mac p nq in_order_set [OF assms(2)] by auto
qed

text \<open>C11: A sender that was started, with a payload of at most 65507 bytes, writes at most the frames asked for, and all of them
  when no write fails.  A receiver takes each one as a whole datagram from the IP address and port of the source to those
  of the destination, with the hardware address of an interface that has the source address and takes the size, to the
  group address of the destination, with the payload that was prepared; they are numbered in order.\<close>

theorem bpf_talker_frames:
  assumes "bpf_init_packets IFF os ifs source dest pkt_size (t, tr) = (True, t1, tr')" "finite (dom ifs)" "pkt_size \<le> 65507"
    and "bpf_talker_send wr clk count t1 dc = Some (frames, t2, dc')"
  shows "\<exists>name intf hw mac. ifs name = Some intf \<and> candidate IFF (sin_addr source) intf \<and> fits pkt_size intf \<and>
    if_hwaddr intf = Some hw \<and> get_ether_multicast (sin_addr dest) = Some mac \<and> length frames \<le> unat count \<and>
    (\<forall>j < length frames. frame_of (l2_eth_udp_pkt_new\<lparr>dst_mac := mac, src_mac := hw, src_ip := sin_addr source, dst_ip := sin_addr dest,
      src_port := sin_port source, dst_port := sin_port dest, pkt_data := raw_payload pkt_size\<rparr>) (of_nat j) (frames ! j)) \<and>
    (bp_fd t1 \<noteq> -1 \<and> (\<forall>n. wr n = None) \<longrightarrow> length frames = unat count)"
proof -
  obtain name p where p: "raw_prepare IFF ifs source dest pkt_size (bp_pkt t) = (Some name, p)" "bp_pkt t1 = p"
    using assms(1) by (auto simp: bpf_init_packets_def split: if_splits prod.splits option.splits sum.splits)
  from raw_prepare_result [OF p(1) assms(2)] obtain intf hw mac where i: "ifs name = Some intf" "candidate IFF (sin_addr source) intf"
      "fits pkt_size intf" "if_hwaddr intf = Some hw" "get_ether_multicast (sin_addr dest) = Some mac"
    and q: "p = Some (l2_eth_udp_pkt_new\<lparr>dst_mac := mac, src_mac := hw, src_ip := sin_addr source, dst_ip := sin_addr dest,
      src_port := sin_port source, dst_port := sin_port dest, pkt_data := raw_payload pkt_size\<rparr>)" (is "_ = Some ?p")
    by blast
  obtain p' where s: "bpf_send_packets (bp_fd t1 \<noteq> -1) wr clk count ?p dc = Some (frames, p', dc')"
    using assms(4) p(2) q by (auto simp: bpf_talker_send_def)
  have sz: "length (pkt_data ?p) \<le> 65507" using assms(3) by (simp add: raw_payload_def word_le_nat_alt)
  have fl: "same_flow ?p ?p" "fragmentation_id ?p = 0" by (simp_all add: same_flow_def l2_eth_udp_pkt_new_def)
  have "length frames \<le> unat count \<and> (\<forall>j < length frames. frame_of ?p (of_nat j) (frames ! j))"
  proof (cases "bp_fd t1 = -1")
    case True
    then show ?thesis using s by (simp add: bpf_send_packets_def)
  next
    case False
    from bpf_loop_frames [OF _ sz fl(1), of wr clk count 0 "[]" 0 dc frames p' dc'] s False
    show ?thesis unfolding fl(2) by (auto simp: bpf_send_packets_def)
  qed
  moreover have "length frames = unat count" if "bp_fd t1 \<noteq> -1 \<and> (\<forall>n. wr n = None)"
    using bpf_loop_all [of wr clk count 0 "[]" ?p 0 dc frames p' dc'] s that by (simp add: bpf_send_packets_def)
  ultimately show ?thesis using i by blast
qed

section \<open>The memory of the pool\<close>

text \<open>The block of the header of entry \<open>i\<close>, and the pieces of the entry that are read through pointers into vectors.\<close>

abbreviation base_of :: "mm_iovec list \<Rightarrow> nat \<Rightarrow> nat option" where
  "base_of vec k \<equiv> fst (vec ! k)"

definition pool_inv :: "nat \<Rightarrow> nat \<Rightarrow> mm_iovec list \<Rightarrow> block_heap \<Rightarrow> bool" where
  "pool_inv m k vec h \<longleftrightarrow> length vec = POOL * 3 \<and> \<not> hp_bad h \<and> k \<le> POOL \<and>
     (\<exists>f. inj_on f {..<m} \<and> (\<forall>i < m. base_of vec (3 * i) = Some (f i)) \<and> hp_live h = f ` {..<m}) \<and>
     (\<forall>b \<in> hp_live h. b < hp_next h) \<and>
     (\<forall>i < k. base_of vec (3 * i + 1) \<noteq> None) \<and>
     (\<forall>i < k. \<forall>j \<in> {3 * i + 1, 3 * i + 2}. \<forall>b. base_of vec j = Some b \<longrightarrow> b < hp_next h \<and> b \<notin> hp_live h)"

lemma build_after_reset:
  assumes "pkt_reset p" "build_pkt_hdr p = (h, q)" shows "h \<noteq> []"
proof -
  have b: "write_uint16_t_be xs k v = [] \<longleftrightarrow> xs = []" for xs k v by (metis length_0_conv write_lengths(1))
  have "write_udp_hdr p off xs \<noteq> []" for off xs
    by (simp add: write_udp_hdr_def Let_def b write_uint16_t_def memcpy_to_def)
  then show ?thesis using assms by (auto simp: build_pkt_hdr_def Let_def b split: prod.splits)
qed

text \<open>What the two vectors of a body leave behind: nothing that lives.\<close>

lemma copy_free:
  assumes "copy_vector v1 h = (p1, h1)" "copy_vector v2 h1 = (p2, h2)" "heap_alloc h2 = (b, h3)"
    "\<forall>x \<in> hp_live h. x < hp_next h" "\<not> hp_bad h" "old = None \<or> the old \<in> hp_live h"
    "h' = heap_free p1 (heap_free p2 (heap_free old h3))"
  shows "hp_live h' = insert b (hp_live h - set_option old) \<and> b = hp_next h' - 1 \<and> hp_next h \<le> b \<and> b < hp_next h' \<and> \<not> hp_bad h' \<and>
    (\<forall>p \<in> {p1, p2}. \<forall>x. p = Some x \<longrightarrow> hp_next h \<le> x \<and> x < b)"
proof -
  obtain n L where h: "h = \<lparr>hp_next = n, hp_live = L, hp_bad = False\<rparr>" using assms(5) by (cases h) simp
  have nx: "n \<notin> L" "Suc n \<notin> L" "Suc (Suc n) \<notin> L" using assms(4) h by force+
  have old: "old = Some x \<Longrightarrow> x \<in> L \<and> x \<noteq> n \<and> x \<noteq> Suc n \<and> x \<noteq> Suc (Suc n)" for x using assms(6) nx h by auto
  define L' where "L' = L - set_option old"
  have L': "n \<notin> L'" "Suc n \<notin> L'" "Suc (Suc n) \<notin> L'" using nx by (simp_all add: L'_def)
  have f: "hp_live h3 - set_option old = (hp_live h3 - L) \<union> L'" "old = None \<or> the old \<in> hp_live h3" "\<not> hp_bad h3"
    using assms(1-3) nx old by (cases "v1 = []"; cases "v2 = []"; cases old; force simp: copy_vector_def heap_alloc_def h L'_def)+
  have free: "heap_free old h3 = h3\<lparr>hp_live := (hp_live h3 - L) \<union> L'\<rparr>"
    using f by (cases old) (simp_all add: heap_free_def)
  have r: "hp_live h3 - L = insert b (set_option p1 \<union> set_option p2)"
    using assms(1-3) nx by (cases "v1 = []"; cases "v2 = []") (auto simp: copy_vector_def heap_alloc_def h)
  have p: "p1 = None \<or> p1 = Some n" "p2 = None \<or> p1 = None \<and> p2 = Some n \<or> p1 = Some n \<and> p2 = Some (Suc n)"
    "b = n + length (filter (\<lambda>p. p \<noteq> None) [p1, p2])" "hp_next h3 = Suc b"
    using assms(1-3) by (cases "v1 = []"; cases "v2 = []"; simp add: copy_vector_def heap_alloc_def h; force)+
  have "hp_live h' = insert b L' \<and> \<not> hp_bad h' \<and> hp_next h' = Suc b"
    unfolding assms(7) free r using p f(3) L' by (auto simp: heap_free_def)
  then show ?thesis using p by (auto simp: h L'_def)
qed

lemma pool_entry_inv:
  assumes inv: "pool_inv (if allocated then POOL else k) k vec h" and k: "k < POOL"
    and e: "pool_entry whdr align allocated pkt k (packets, vec, h) = (packets', vec', h')" and np: "length packets = POOL"
  shows "pool_inv (if allocated then POOL else Suc k) (Suc k) vec' h' \<and> length packets' = length packets"
proof -
  let ?m = "if allocated then POOL else k" and ?m' = "if allocated then POOL else Suc k"
  obtain f where f: "inj_on f {..<?m}" "\<And>i. i < ?m \<Longrightarrow> base_of vec (3 * i) = Some (f i)" "hp_live h = f ` {..<?m}"
    and len: "length vec = POOL * 3" and bad: "\<not> hp_bad h" and lt: "\<forall>b \<in> hp_live h. b < hp_next h"
    and full: "\<And>i. i < k \<Longrightarrow> base_of vec (3 * i + 1) \<noteq> None" and dang: "\<And>i j b. i < k \<Longrightarrow> j \<in> {3 * i + 1, 3 * i + 2} \<Longrightarrow> base_of vec j = Some b \<Longrightarrow> b < hp_next h \<and> b \<notin> hp_live h"
    using inv unfolding pool_inv_def by blast
  define old where "old = (if allocated then base_of vec (3 * k) else None)"
  let ?ps = "packets[k := reset_pkt pkt]"
  obtain hdr q where b: "build_pkt_hdr (?ps ! k) = (hdr, q)" by (rule prod.exhaust)
  obtain p1 h1 where c1: "copy_vector hdr h = (p1, h1)" by (rule prod.exhaust)
  obtain p2 h2 where c2: "copy_vector (pkt_data q) h1 = (p2, h2)" by (rule prod.exhaust)
  obtain bl h3 where a: "heap_alloc h2 = (bl, h3)" by (rule prod.exhaust)
  have fr: "(if allocated then heap_free (base_of vec (3 * k)) h3 else h3) = heap_free old h3"
    by (simp add: old_def heap_free_def)
  have h': "h' = heap_free p1 (heap_free p2 (heap_free old h3))" and ps: "length packets' = length packets"
    and vec': "\<exists>l1 l2 l3. vec' = vec[3 * k := (Some bl, l1), 3 * k + 1 := (p1, l2), 3 * k + 2 := (p2, l3)]"
    using e by (auto simp: pool_entry_def Let_def b c1 c2 a fr)
  have oldk: "set_option old = (if allocated then {f k} else {})" using f(2) [of k] k by (simp add: old_def)
  have oldl: "old = None \<or> the old \<in> hp_live h" using f(2) [of k] f(3) k by (auto simp: old_def)
  from copy_free [OF c1 c2 a lt bad oldl h']
  have r: "hp_live h' = insert bl (hp_live h - set_option old)" "hp_next h \<le> bl" "bl < hp_next h'" "\<not> hp_bad h'"
    "\<And>x. p1 = Some x \<or> p2 = Some x \<Longrightarrow> hp_next h \<le> x \<and> x < bl" by auto
  let ?f = "f(k := bl)"
  have flt: "f i < hp_next h" if "i < ?m" for i using f(3) lt that by blast
  have "hp_live h - set_option old = f ` ({..<?m'} - {k})"
  proof (cases allocated)
    case True
    then show ?thesis using f(1,3) oldk k by (auto simp: inj_on_def)
  next
    case False
    then show ?thesis using f(3) oldk by (auto simp: lessThan_Suc)
  qed
  then have live: "hp_live h' = ?f ` {..<?m'}" using r(1) k by (auto simp: image_def)
  have inj: "inj_on ?f {..<?m'}"
  proof (rule inj_onI)
    fix i j assume i: "i \<in> {..<?m'}" "j \<in> {..<?m'}" "?f i = ?f j"
    have m: "l < ?m" if "l < ?m'" "l \<noteq> k" for l using that by (auto split: if_splits)
    have nb: "f l \<noteq> bl" if "l < ?m'" "l \<noteq> k" for l using flt [OF m [OF that]] r(2) by linarith
    have i': "i < ?m'" "j < ?m'" using i by simp_all
    show "i = j"
    proof (cases "i = k \<or> j = k")
      case True
      then show ?thesis using i(3) nb [OF i'(1)] nb [OF i'(2)] by (auto split: if_splits)
    next
      case False
      then have "f i = f j" "i < ?m" "j < ?m" using i(3) m [OF i'(1)] m [OF i'(2)] by simp_all
      then show ?thesis using f(1) unfolding inj_on_def by blast
    qed
  qed
  obtain l1 l2 l3 where v: "vec' = vec[3 * k := (Some bl, l1), 3 * k + 1 := (p1, l2), 3 * k + 2 := (p2, l3)]" using vec' by blast
  have vk: "base_of vec' (3 * k) = Some bl" "base_of vec' (3 * k + 1) = p1" "base_of vec' (3 * k + 2) = p2"
    using k len by (simp_all add: v)
  have vo: "vec' ! j = vec ! j" if "j < 3 * k \<or> 3 * k + 2 < j" for j using that by (auto simp: v)
  have base: "base_of vec' (3 * i) = Some (?f i)" if "i < ?m'" for i
  proof (cases "i = k")
    case False
    then have "3 * i < 3 * k \<or> 3 * k + 2 < 3 * i" by linarith
    then show ?thesis using vo [of "3 * i"] f(2) [of i] that False by (auto split: if_splits)
  qed (use vk in simp)
  have nlive: "b < bl \<Longrightarrow> b \<notin> hp_live h \<Longrightarrow> b \<notin> hp_live h'" for b using r(1) by auto
  have d: "b < hp_next h' \<and> b \<notin> hp_live h'" if i: "i < Suc k" "j \<in> {3 * i + 1, 3 * i + 2}" "base_of vec' j = Some b" for i j b
  proof (cases "i = k")
    case True
    then have "p1 = Some b \<or> p2 = Some b" using i vk by auto
    then have "hp_next h \<le> b" "b < bl" using r(5) by blast+
    moreover from this have "b \<notin> hp_live h" using lt by fastforce
    ultimately show ?thesis using nlive r(3) by simp
  next
    case False
    then have "i < k" "vec' ! j = vec ! j" using i by (auto intro!: vo)
    then have "b < hp_next h \<and> b \<notin> hp_live h" using dang i by metis
    then show ?thesis using nlive r(2,3) by simp
  qed
  have "hdr \<noteq> []" by (rule build_after_reset [OF _ b]) (use np k in \<open>simp add: reset_pkt_def\<close>)
  then have "p1 \<noteq> None" using c1 by (auto simp: copy_vector_def split: prod.splits)
  then have full': "base_of vec' (3 * i + 1) \<noteq> None" if "i < Suc k" for i
    using full [of i] vo [of "3 * i + 1"] vk(2) that by (cases "i = k") simp_all
  have "\<forall>b \<in> hp_live h'. b < hp_next h'" using r(1-3) lt by auto
  moreover have "length vec' = POOL * 3" using len by (simp add: v)
  ultimately show ?thesis unfolding pool_inv_def using inj base live r(4) k d full' ps by (intro conjI) (auto intro!: exI [of _ ?f])
qed

lemma pool_fold_inv:
  assumes "pool_inv (if allocated then POOL else 0) 0 vec h" "k \<le> POOL"
    and "fold (pool_entry whdr align allocated pkt) [0 ..< k] (packets, vec, h) = (packets', vec', h')" "length packets = POOL"
  shows "pool_inv (if allocated then POOL else k) k vec' h' \<and> length packets' = length packets"
  using assms(2,3)
proof (induction k arbitrary: packets' vec' h')
  case 0
  then show ?case using assms(1) by simp
next
  case (Suc k)
  obtain ps1 vec1 h1 where f: "fold (pool_entry whdr align allocated pkt) [0 ..< k] (packets, vec, h) = (ps1, vec1, h1)"
    by (metis prod_cases3)
  have e: "pool_entry whdr align allocated pkt k (ps1, vec1, h1) = (packets', vec', h')"
    using Suc.prems(2) f by (simp add: fold_append)
  have k: "k < POOL" using Suc.prems(1) by simp
  have "pool_inv (if allocated then POOL else k) k vec1 h1 \<and> length ps1 = length packets" using Suc.IH [OF _ f] k by simp
  then show ?case using pool_entry_inv [OF _ k e] assms(4) by metis
qed

text \<open>The sender owns the blocks of its headers, each once, and nothing else is left.\<close>

definition mm_owns :: "bpfmm_talker \<Rightarrow> block_heap \<Rightarrow> bool" where
  "mm_owns t h \<longleftrightarrow> (if mm_packets t = [] then mm_vec t = [] \<and> hp_live h = {} \<and> \<not> hp_bad h
     else length (mm_packets t) = POOL \<and> pool_inv POOL POOL (mm_vec t) h)"

lemma prepare_pool_owns:
  assumes "mm_owns t h" "prepare_pool whdr align pkt (t, h) = (t', h')"
  shows "length (mm_packets t') = POOL \<and> pool_inv POOL POOL (mm_vec t') h' \<and> mm_fd t' = mm_fd t \<and> mm_pkt t' = mm_pkt t"
proof -
  let ?a = "mm_packets t \<noteq> []"
  let ?ps = "if ?a then mm_packets t else replicate POOL l2_eth_udp_pkt_new"
    and ?vec = "if ?a then mm_vec t else replicate (POOL * 3) (None, 0)"
  obtain ps vec h1 where f: "fold (pool_entry whdr align ?a pkt) [0 ..< POOL] (?ps, ?vec, h) = (ps, vec, h1)" by (metis prod_cases3)
  have r: "t' = t\<lparr>mm_packets := ps, mm_vec := vec\<rparr>" "h' = h1"
    using assms(2) unfolding prepare_pool_def prod.case Let_def f by simp_all
  have "pool_inv (if ?a then POOL else 0) 0 ?vec h"
    using assms(1) unfolding mm_owns_def by (cases "mm_packets t = []") (auto simp: pool_inv_def)
  moreover have n: "length ?ps = POOL" using assms(1) by (simp add: mm_owns_def)
  ultimately have p: "pool_inv POOL POOL vec h1" "length ps = POOL" using pool_fold_inv [OF _ order_refl f n] by (simp_all split: if_splits)
  then show ?thesis using r by simp
qed

text \<open>Starting the sender, again and again, whatever fails.\<close>

definition mm_starts :: "nat \<Rightarrow> (nat \<Rightarrow> nat) \<Rightarrow> (if_flag \<Rightarrow> 32 word) \<Rightarrow> raw_os \<Rightarrow> (interfaces \<times> sockaddr_in \<times> sockaddr_in \<times> 16 word) list
    \<Rightarrow> bpfmm_talker \<times> block_heap \<times> raw_trace" where
  "mm_starts whdr align IFF os l =
     fold (\<lambda>(ifs, source, dest, pkt_size) s. snd (bpfmm_init_packets whdr align IFF os ifs source dest pkt_size s)) l (bpfmm_talker_new, heap_new, [])"

definition mm_ok :: "bpfmm_talker \<times> block_heap \<times> raw_trace \<Rightarrow> bool" where
  "mm_ok = (\<lambda>(t, h, tr). mm_owns t h \<and> raw_owned (if mm_fd t = -1 then {} else {mm_fd t}) tr \<and> (mm_fd t \<noteq> -1 \<longrightarrow> mm_packets t \<noteq> []))"

lemma bpfmm_init_ok:
  assumes "raw_fresh os" "mm_ok s"
  shows "mm_ok (snd (bpfmm_init_packets whdr align IFF os ifs source dest pkt_size s))"
proof -
  obtain t h tr where s: "s = (t, h, tr)" by (metis prod_cases3)
  obtain n p where p: "raw_prepare IFF ifs source dest pkt_size (mm_pkt t) = (n, p)" by (rule prod.exhaust)
  have o: "mm_owns t h" "raw_owned (if mm_fd t = -1 then {} else {mm_fd t}) tr" using assms(2) by (simp_all add: mm_ok_def s)
  show ?thesis
  proof (cases "mm_fd t = -1 \<and> n \<noteq> None")
    case False
    then show ?thesis using assms(2) p by (auto simp: bpfmm_init_packets_def s mm_ok_def mm_owns_def)
  next
    case True
    then obtain name where n: "n = Some name" by blast
    obtain t1 h1 where pp: "prepare_pool whdr align (the p) (t\<lparr>mm_pkt := p\<rparr>, h) = (t1, h1)" by (rule prod.exhaust)
    have "mm_owns (t\<lparr>mm_pkt := p\<rparr>) h" using o(1) by (simp add: mm_owns_def)
    from prepare_pool_owns [OF this pp] have t1: "length (mm_packets t1) = POOL" "pool_inv POOL POOL (mm_vec t1) h1" "mm_fd t1 = -1"
      using True by simp_all
    have "raw_owned {} tr" using o(2) True by simp
    from devices_ok(2) [OF assms(1), unfolded device_ok_def, rule_format, OF this, of name]
    show ?thesis using True n p pp t1
      by (auto simp: bpfmm_init_packets_def s mm_ok_def mm_owns_def split: prod.splits sum.splits)
  qed
qed

lemma mm_starts_ok: "raw_fresh os \<Longrightarrow> mm_ok (mm_starts whdr align IFF os l)"
proof (induction l rule: rev_induct)
  case Nil
  show ?case by (simp add: mm_starts_def mm_ok_def mm_owns_def bpfmm_talker_new_def heap_new_def raw_owned_def raw_uses_ok_def raw_live_def)
next
  case (snoc x l)
  then show ?case using bpfmm_init_ok [OF snoc.prems snoc.IH [OF snoc.prems]]
    by (cases x) (simp add: mm_starts_def)
qed

lemma free_heads:
  assumes "inj_on f {..<n}" "\<forall>i < n. base i = Some (f i)" "hp_live h = f ` {..<n}" "\<not> hp_bad h" "k \<le> n"
  shows "hp_live (fold (\<lambda>i. heap_free (base i)) [0 ..< k] h) = f ` {k ..< n} \<and> \<not> hp_bad (fold (\<lambda>i. heap_free (base i)) [0 ..< k] h)"
  using assms(5)
proof (induction k)
  case 0
  then show ?case using assms(3,4) by (simp add: atLeast0LessThan)
next
  case (Suc k)
  define h1 where "h1 = fold (\<lambda>i. heap_free (base i)) [0 ..< k] h"
  have ih: "hp_live h1 = f ` {k ..< n}" "\<not> hp_bad h1" using Suc by (simp_all add: h1_def)
  have "f k \<in> f ` {k ..< n}" "base k = Some (f k)" using Suc.prems assms(2) by auto
  moreover have "f ` {k ..< n} - {f k} = f ` {Suc k ..< n}"
  proof -
    have "f x \<noteq> f k" if "x \<in> {Suc k ..< n}" for x using inj_onD [OF assms(1), of x k] that Suc.prems by auto
    moreover have "{k ..< n} = insert k {Suc k ..< n}" using Suc.prems by auto
    ultimately show ?thesis by auto
  qed
  ultimately have "hp_live (heap_free (base k) h1) = f ` {Suc k ..< n} \<and> \<not> hp_bad (heap_free (base k) h1)"
    using ih by (simp add: heap_free_def)
  moreover have "fold (\<lambda>i. heap_free (base i)) [0 ..< Suc k] h = heap_free (base k) h1" by (simp add: h1_def)
  ultimately show ?case by metis
qed

text \<open>C12: However often the sender is started and whatever fails, destroying it frees every block of the pool once, closes
  its descriptor, and frees nothing else.\<close>

theorem bpfmm_frees_all:
  assumes "raw_fresh os" "mm_starts whdr align IFF os l = (t, h, tr)" "bpfmm_destroy os (t, h, tr) = (h', tr')"
  shows "hp_live h' = {} \<and> \<not> hp_bad h' \<and> raw_owned {} tr'"
proof -
  have ok: "mm_owns t h" "raw_owned (if mm_fd t = -1 then {} else {mm_fd t}) tr"
    using mm_starts_ok [OF assms(1), of whdr align IFF l] unfolding assms(2) mm_ok_def by auto
  have "raw_owned {} tr'"
    using assms(3) ok(2) by (cases "mm_fd t = -1") (auto simp: bpfmm_destroy_def raw_owned_def raw_call_def)
  moreover have "hp_live h' = {} \<and> \<not> hp_bad h'"
  proof (cases "mm_packets t = []")
    case True
    then show ?thesis using assms(3) ok(1) by (auto simp: bpfmm_destroy_def mm_owns_def)
  next
    case False
    then have p: "pool_inv POOL POOL (mm_vec t) h" using ok(1) by (simp add: mm_owns_def)
    then obtain f where "inj_on f {..<POOL}" "\<forall>i < POOL. base_of (mm_vec t) (3 * i) = Some (f i)" "hp_live h = f ` {..<POOL}" "\<not> hp_bad h"
      unfolding pool_inv_def by blast
    from free_heads [OF this order_refl] p show ?thesis
      using assms(3) unfolding bpfmm_destroy_def pool_inv_def by auto
  qed
  ultimately show ?thesis by simp
qed

text \<open>C13: A sender that has started reads freed memory: every pointer of the pool to a frame, to its header or its
  payload, is one into a vector that was destroyed; only the headers of the device are good.\<close>

theorem bpfmm_pool_dangles:
  assumes "raw_fresh os" "mm_starts whdr align IFF os l = (t, h, tr)" "mm_fd t \<noteq> -1" "i < POOL"
  shows "(\<exists>b. fst (mm_vec t ! (3 * i)) = Some b \<and> b \<in> hp_live h) \<and>
    (\<exists>b. fst (mm_vec t ! (3 * i + 1)) = Some b \<and> b \<notin> hp_live h) \<and>
    (\<forall>b. fst (mm_vec t ! (3 * i + 2)) = Some b \<longrightarrow> b \<notin> hp_live h)"
proof -
  have "mm_ok (t, h, tr)" using mm_starts_ok [OF assms(1), of whdr align IFF l] unfolding assms(2) .
  then have "pool_inv POOL POOL (mm_vec t) h" using assms(3) by (auto simp: mm_ok_def mm_owns_def split: if_splits)
  then show ?thesis using assms(4) unfolding pool_inv_def by blast
qed

text \<open>A machine with one interface, which is up.\<close>

definition one_interface :: interfaces where
  "one_interface = [''em0'' \<mapsto> (interface_new ''em0'')\<lparr>if_hwaddr := Some (Ether_addr 2 0 0 0 0 1), if_mtu := Some 1500,
     if_inet := [if_ipv4_new 0x0100000A], if_flagbits := 1\<rparr>]"

definition one_raw_os :: raw_os where
  "one_raw_os tr c = (case c of Raw_open \<Rightarrow> if 3 \<in> raw_live tr then Inl 24 else Inr 3 | _ \<Rightarrow> Inr 0)"

abbreviation here :: sockaddr_in where "here \<equiv> \<lparr>sin_family = 2, sin_port = 7, sin_addr = 0x0100000A\<rparr>"
abbreviation group_addr :: sockaddr_in where "group_addr \<equiv> \<lparr>sin_family = 2, sin_port = 7, sin_addr = 0x010000E0\<rparr>"

lemma one_raw_fresh: "raw_fresh one_raw_os"
  by (simp add: raw_fresh_def one_raw_os_def)

lemma one_prepare: "\<exists>p. raw_prepare if_flags one_interface here group_addr 9 old = (Some ''em0'', Some p)"
proof -
  have m: "is_multicast 0x010000E0" by (simp add: is_multicast_def ntohl_def)
  then obtain mac where mac: "get_ether_multicast 0x010000E0 = Some mac" by (auto simp: get_ether_multicast_def Let_def)
  have "flags_bool (flags_and (interface_status if_flags (the (one_interface ''em0''))) wanted_flags)"
    by (simp add: one_interface_def interface_new_def interface_status_def Let_def wanted_flags_def flags_bool_def flags_and_def
        flags_or_bit_def flags_of_bit_def flags_none_def if_flags_def)
  then show ?thesis
    using m mac by (simp add: raw_prepare_def in_order_def one_interface_def interface_new_def if_ipv4_new_def)
qed

lemma one_devices: "raw_live tr = {} \<Longrightarrow> \<exists>tr'. bpf_device one_raw_os name tr = (Inr 3, tr')"
  "raw_live tr = {} \<Longrightarrow> \<exists>tr'. bpfmm_device one_raw_os name tr = (Inr 3, tr')"
  by (simp_all add: bpf_device_def bpfmm_device_def device_defs one_raw_os_def)

lemma raw_live_nil [simp]: "raw_live [] = {}" "raw_owned {} []"
  by (simp_all add: raw_live_def raw_owned_def raw_uses_ok_def)

lemma bpf_init_owns_witness:
  "\<exists>t tr. bpf_init_packets if_flags one_raw_os one_interface here group_addr 9 (bpf_talker_new, []) = (True, t, tr) \<and> raw_owned {3} tr"
proof -
  obtain p where p: "raw_prepare if_flags one_interface here group_addr 9 (bp_pkt bpf_talker_new) = (Some ''em0'', Some p)"
    using one_prepare by blast
  obtain tr where "bpf_device one_raw_os ''em0'' [] = (Inr 3, tr)" using one_devices(1) [of "[]"] by auto
  then have r: "bpf_init_packets if_flags one_raw_os one_interface here group_addr 9 (bpf_talker_new, []) =
      (True, \<lparr>bp_fd = 3, bp_pkt = Some p\<rparr>, tr)" using p by (simp add: bpf_init_packets_def bpf_talker_new_def)
  have "bp_fd bpf_talker_new = -1" by (simp add: bpf_talker_new_def)
  from bpf_init_owns [OF one_raw_fresh raw_live_nil(2) this r] r show ?thesis by simp
qed

lemma bpf_talker_frames_witness:
  "\<exists>t tr frames t2. bpf_init_packets if_flags one_raw_os one_interface here group_addr 9 (bpf_talker_new, []) = (True, t, tr) \<and>
     bpf_talker_send (\<lambda>n. None) (\<lambda>n k ts. \<lparr>ns_r = 0, ns_errno = 0, ns_remaining = None\<rparr>) 2 t 0 = Some (frames, t2, 0) \<and> length frames = 2 \<and>
     (\<exists>p. src_ip p = 0x0100000A \<and> dst_ip p = 0x010000E0 \<and> frame_of p 1 (frames ! 1))"
proof -
  let ?clk = "\<lambda>n k ts. \<lparr>ns_r = 0, ns_errno = 0, ns_remaining = None\<rparr> :: nanosleep_result"
  obtain p where p: "raw_prepare if_flags one_interface here group_addr 9 (bp_pkt bpf_talker_new) = (Some ''em0'', Some p)"
    using one_prepare by blast
  obtain tr where "bpf_device one_raw_os ''em0'' [] = (Inr 3, tr)" using one_devices(1) [of "[]"] by auto
  then have r: "bpf_init_packets if_flags one_raw_os one_interface here group_addr 9 (bpf_talker_new, []) =
      (True, \<lparr>bp_fd = 3, bp_pkt = Some p\<rparr>, tr)" using p by (simp add: bpf_init_packets_def bpf_talker_new_def)
  have o: "send_one (\<lambda>n. None) ?clk n dc = Some (True, n + 1, dc)" for n dc by (simp add: send_one.simps)
  have l: "\<exists>q fs. bpf_loop (\<lambda>n. None) ?clk 2 i frames p n 0 = Some (fs, q, 0)" if "i = 2 \<or> i = 1 \<or> i = 0" for i frames p n
  proof -
    have two: "\<exists>q fs. bpf_loop (\<lambda>n. None) ?clk 2 2 frames p n 0 = Some (fs, q, 0)" for frames p n
      by (subst bpf_loop.simps) simp
    have one: "\<exists>q fs. bpf_loop (\<lambda>n. None) ?clk 2 1 frames p n 0 = Some (fs, q, 0)" for frames p n
      using two by (subst bpf_loop.simps) (simp add: o split_beta)
    have "\<exists>q fs. bpf_loop (\<lambda>n. None) ?clk 2 0 frames p n 0 = Some (fs, q, 0)" for frames p n
      using one by (subst bpf_loop.simps) (simp add: o split_beta)
    with one two that show ?thesis by blast
  qed
  obtain q fs where "bpf_loop (\<lambda>n. None) ?clk 2 0 [] p 0 0 = Some (fs, q, 0)" using l [of 0 "[]" p 0] by blast
  then have s: "bpf_talker_send (\<lambda>n. None) ?clk 2 \<lparr>bp_fd = 3, bp_pkt = Some p\<rparr> 0 = Some (fs, \<lparr>bp_fd = 3, bp_pkt = Some q\<rparr>, 0)"
    by (simp add: bpf_talker_send_def bpf_send_packets_def)
  have f: "finite (dom one_interface)" "(9 :: 16 word) \<le> 65507" by (simp_all add: one_interface_def)
  from bpf_talker_frames [OF r f s] obtain hw mac where c: "length fs = 2"
    "\<forall>j < length fs. frame_of (l2_eth_udp_pkt_new\<lparr>dst_mac := mac, src_mac := hw, src_ip := sin_addr here, dst_ip := sin_addr group_addr,
      src_port := sin_port here, dst_port := sin_port group_addr, pkt_data := raw_payload 9\<rparr>) (of_nat j) (fs ! j)" by auto
  have "frame_of (l2_eth_udp_pkt_new\<lparr>dst_mac := mac, src_mac := hw, src_ip := sin_addr here, dst_ip := sin_addr group_addr,
      src_port := sin_port here, dst_port := sin_port group_addr, pkt_data := raw_payload 9\<rparr>) 1 (fs ! 1)" (is "frame_of ?p 1 _")
    using c(1) c(2) [rule_format, of 1] by simp
  moreover have "src_ip ?p = 0x0100000A" "dst_ip ?p = 0x010000E0" by simp_all
  ultimately show ?thesis using r s c(1) by blast
qed

lemma one_start: "\<exists>t h tr. mm_starts 32 (\<lambda>n. (n + 7) div 8 * 8) if_flags one_raw_os [(one_interface, here, group_addr, 9)] = (t, h, tr) \<and> mm_fd t = 3"
proof -
  obtain p where p: "raw_prepare if_flags one_interface here group_addr 9 (mm_pkt bpfmm_talker_new) = (Some ''em0'', Some p)"
    using one_prepare by blast
  obtain tr where d: "bpfmm_device one_raw_os ''em0'' [] = (Inr 3, tr)" using one_devices(2) [of "[]"] by auto
  obtain t h where "prepare_pool 32 (\<lambda>n. (n + 7) div 8 * 8) p (bpfmm_talker_new\<lparr>mm_pkt := Some p\<rparr>, heap_new) = (t, h)" by (rule prod.exhaust)
  then show ?thesis using p d by (simp add: mm_starts_def bpfmm_init_packets_def bpfmm_talker_new_def)
qed

lemma bpfmm_frees_all_witness:
  "\<exists>t h tr. mm_starts 32 (\<lambda>n. (n + 7) div 8 * 8) if_flags one_raw_os [(one_interface, here, group_addr, 9)] = (t, h, tr) \<and>
     hp_live (fst (bpfmm_destroy one_raw_os (t, h, tr))) = {}"
proof -
  obtain t h tr where s: "mm_starts 32 (\<lambda>n. (n + 7) div 8 * 8) if_flags one_raw_os [(one_interface, here, group_addr, 9)] = (t, h, tr)"
    using one_start by blast
  obtain h' tr' where d: "bpfmm_destroy one_raw_os (t, h, tr) = (h', tr')" by (rule prod.exhaust)
  from bpfmm_frees_all [OF one_raw_fresh s d] s d show ?thesis by auto
qed

lemma bpfmm_pool_dangles_witness:
  "\<exists>t h tr b. mm_starts 32 (\<lambda>n. (n + 7) div 8 * 8) if_flags one_raw_os [(one_interface, here, group_addr, 9)] = (t, h, tr) \<and>
     fst (mm_vec t ! 1) = Some b \<and> b \<notin> hp_live h"
proof -
  obtain t h tr where s: "mm_starts 32 (\<lambda>n. (n + 7) div 8 * 8) if_flags one_raw_os [(one_interface, here, group_addr, 9)] = (t, h, tr)"
    "mm_fd t = 3" using one_start by blast
  have "mm_fd t \<noteq> -1" "0 < POOL" using s(2) by simp_all
  from bpfmm_pool_dangles [OF one_raw_fresh s(1) this] s(1) show ?thesis by auto
qed

section \<open>Counting the frames of many calls\<close>

lemma mm_loop_counts:
  "(\<And>n. os n = None) \<Longrightarrow> unat sent \<le> unat count \<Longrightarrow>
   mm_loop os clk count sent n dc = Some (count, n + (unat count - unat sent + 340) div 341, dc)"
proof (induction os clk count sent n dc rule: mm_loop.induct)
  case (1 os clk count sent n dc)
  show ?case
  proof (cases "sent < count")
    case False
    then have "sent = count" using "1.prems"(2) by (simp add: word_le_nat_alt word_less_nat_alt word_unat_eq_iff)
    then show ?thesis by (subst mm_loop.simps) simp
  next
    case True
    let ?r = "min (count - sent) (of_nat POOL)"
    have s: "send_one os clk n dc = Some (True, n + 1, dc)" using "1.prems"(1) by (simp add: send_one.simps)
    have le: "unat (sent + ?r) \<le> unat count" and lt: "unat sent < unat count"
      using mm_step(1) [OF True] True by (simp_all add: word_less_nat_alt)
    have ih: "mm_loop os clk count (sent + ?r) (n + 1) dc = Some (count, n + 1 + (unat count - unat (sent + ?r) + 340) div 341, dc)"
      by (rule "1.IH" [OF True refl s refl refl TrueI "1.prems"(1) le])
    have "n + 1 + (unat count - unat (sent + ?r) + 340) div 341 = n + (unat count - unat sent + 340) div 341"
      unfolding mm_step(1) [OF True] using lt by (auto simp: min_def)
    then show ?thesis using s True ih by (subst mm_loop.simps) (simp add: Let_def)
  qed
qed

text \<open>A sender that has started and a device that takes every call: the frames asked for are reported as sent, in calls
  of 341 frames each but the last.\<close>

theorem bpfmm_send_all:
  assumes "\<And>n. os n = None" "mm_fd t \<noteq> -1"
  shows "bpfmm_send_packets os clk count t dc = Some (count, (unat count + 340) div 341, dc)"
  using mm_loop_counts [of os 0 count clk 0 dc] assms by (simp add: bpfmm_send_packets_def)

lemma bpfmm_send_all_witness:
  "bpfmm_send_packets (\<lambda>n. None) (\<lambda>n k ts. \<lparr>ns_r = 0, ns_errno = 0, ns_remaining = None\<rparr>) 1000 (bpfmm_talker_new\<lparr>mm_fd := 3\<rparr>) 0 = Some (1000, 3, 0)"
  using bpfmm_send_all [of "\<lambda>n. None" "bpfmm_talker_new\<lparr>mm_fd := 3\<rparr>" "\<lambda>n k ts. \<lparr>ns_r = 0, ns_errno = 0, ns_remaining = None\<rparr>" 1000 0] by simp

text \<open>An interface that is down is taken too: one of the three flags is enough.\<close>

lemma down_interface_taken:
  assumes "if_hwaddr intf = Some hw" "if_mtu intf = None" "if_flagbits intf = if_flags MULTICAST" "source \<in> ip_addr ` set (if_inet intf)"
  shows "source_interface if_flags source pkt_size [(name, intf)] ([], p) = (True, name, p\<lparr>src_mac := hw\<rparr>)"
  using assms by (simp add: interface_status_def Let_def wanted_flags_def flags_bool_def flags_and_def
        flags_or_bit_def flags_of_bit_def flags_none_def if_flags_def)

end
