(* ===== verification/BpfUdp4.thy ===== *)
theory BpfUdp4
  imports BpfSocket UdpRaw
begin

text \<open>
  The program \<open>poc/bpf_udp4\<close>: the two sockets it can send with (\<open>bpf_socket.cpp\<close>, \<open>bsd_socket.cpp\<close>) and its
  \<open>main\<close> (\<open>bpf_udp4.cpp\<close>).  The raw socket uses the device of \<open>UdpRaw\<close>, the other one the system of
  \<open>UdpSocket\<close>; the result of a run is how it ends, the calls on both, and the frames written to the device.
\<close>

section \<open>The raw socket\<close>

record bpf_socket =
  bs_sock :: int
  bs_mtu :: "32 word"
  bs_pkt :: l2_udp_packet

definition bpf_socket_new :: bpf_socket where
  "bpf_socket_new = \<lparr>bs_sock = -1, bs_mtu = 0, bs_pkt = l2_udp_packet_new\<rparr>"

text \<open>The first interface of the map that has the address.\<close>

fun find_ipv4 :: "(if_flag \<Rightarrow> 32 word) \<Rightarrow> in_addr \<Rightarrow> (string \<times> interface) list \<Rightarrow> interface option" where
  "find_ipv4 IFF source [] = None"
| "find_ipv4 IFF source ((ifn, ifd) # ifs) =
     (if if_hwaddr ifd \<noteq> None \<and> flags_bool (flags_and (interface_status IFF ifd) wanted_flags) \<and>
         (\<exists>ipv4addr \<in> set (if_inet ifd). ip_addr ipv4addr = source)
      then Some ifd else find_ipv4 IFF source ifs)"

definition bpf_setintf :: "raw_os \<Rightarrow> int \<Rightarrow> string \<Rightarrow> unit raw" where
  "bpf_setintf os fd name = (if fd < 0 then ethrow EINVAL else ethen (raw_call os (Raw_setif fd (ifr_name name))) (eret ()))"

definition bpf_sethdr :: "raw_os \<Rightarrow> int \<Rightarrow> unit raw" where
  "bpf_sethdr os fd = (if fd < 0 then ethrow EINVAL else ethen (raw_call os (Raw_hdrcmplt fd)) (eret ()))"

definition bpf4_device :: "raw_os \<Rightarrow> string \<Rightarrow> int raw" where
  "bpf4_device os name = ebind (raw_call os Raw_open) (\<lambda>fd. raw_scoped os fd
     (ethen (ethen (bpf_setintf os fd name) (bpf_sethdr os fd)) (eret fd)))"

text \<open>The constructor returns early and leaves what it did up to there.\<close>

definition bpf_socket_init :: "(if_flag \<Rightarrow> 32 word) \<Rightarrow> raw_os \<Rightarrow> interfaces \<Rightarrow> sockaddr_in \<Rightarrow> sockaddr_in \<Rightarrow> raw_trace \<Rightarrow> bpf_socket \<times> raw_trace" where
  "bpf_socket_init IFF os ifs src dest tr =
     (let s = bpf_socket_new in
      if sin_port src = 0 \<or> sin_port dest = 0 then (s, tr)
      else if \<not> is_multicast (sin_addr dest) then (s, tr)
      else case get_ether_multicast (sin_addr dest) of None \<Rightarrow> (s, tr)
      | Some destmac \<Rightarrow>
          let s = s\<lparr>bs_pkt := write_dest_ip dest (write_dest_mac destmac (bs_pkt s))\<rparr> in
          (case find_ipv4 IFF (sin_addr src) (in_order ifs) of None \<Rightarrow> (s, tr)
           | Some srcintf \<Rightarrow> (case if_mtu srcintf of None \<Rightarrow> (s, tr)
             | Some mtu \<Rightarrow> (case if_hwaddr srcintf of None \<Rightarrow> (s, tr)
               | Some mac \<Rightarrow>
                   let s = s\<lparr>bs_mtu := mtu, bs_pkt := write_src_ip src (write_src_mac mac (bs_pkt s))\<rparr> in
                   (case bpf4_device os (if_name srcintf) tr of
                      (Inl e, tr) \<Rightarrow> (s, tr)
                    | (Inr fd, tr) \<Rightarrow> (s\<lparr>bs_sock := fd\<rparr>, tr))))))"

definition bpf_socket_destroy :: "raw_os \<Rightarrow> bpf_socket \<times> raw_trace \<Rightarrow> raw_trace" where
  "bpf_socket_destroy os = (\<lambda>(s, tr). if bs_sock s \<noteq> -1 then snd (raw_call os (Raw_close (bs_sock s)) tr) else tr)"

section \<open>The socket of the system\<close>

text \<open>A platform that has no \<open>SO_REUSEPORT\<close> is tolerated, one without \<open>SO_REUSEADDR\<close> is not.\<close>

definition tolerate :: "int \<Rightarrow> unit udp_m \<Rightarrow> unit udp_m" where
  "tolerate err m s = (case m s of (Inl e, s) \<Rightarrow> (if e = err then Inr () else Inl e, s) | (Inr x, s) \<Rightarrow> (Inr x, s))"

definition bsd_socket_init :: "platform \<Rightarrow> os \<Rightarrow> sockaddr_in \<Rightarrow> sockaddr_in \<Rightarrow> trace \<Rightarrow> udp \<times> trace" where
  "bsd_socket_init pf os src dest tr =
     (case ethen (set_reuse_addr pf True) (ethen (tolerate ENOTSUP (set_reuse_port pf True))
         (ethen (udp_open_dest os src dest) (set_multicast_ttl os 1))) (udp_new, tr) of
        (Inl e, s) \<Rightarrow> (udp_new, snd (snd (udp_close os s)))
      | (Inr _, s) \<Rightarrow> s)"

definition bsd_socket_send :: "os \<Rightarrow> byte list \<Rightarrow> unit udp_m" where
  "bsd_socket_send os data s = (if u_socket (fst s) = -1 then (Inl EINVAL, s) else ethen (udp_send os data) (eret ()) s)"

section \<open>main\<close>

text \<open>The loop over the buffer, \<open>d\<close> wraps.\<close>

fun count_up :: "byte \<Rightarrow> byte list \<Rightarrow> byte list" where
  "count_up d [] = []"
| "count_up d (b # bs) = d # count_up (d + 1) bs"

record bpf4_run =
  br_stop :: stop
  br_udp :: trace
  br_raw :: raw_trace
  br_frames :: "byte list list"

text \<open>\<open>have_biocsetif\<close> is the configuration of the build, \<open>writev\<close> what each write to the device returns.  A failure to send
  does not change the exit code.\<close>

definition bpf4_main :: "bool \<Rightarrow> platform \<Rightarrow> os \<Rightarrow> raw_os \<Rightarrow> (nat \<Rightarrow> int option) \<Rightarrow> (if_flag \<Rightarrow> 32 word) \<Rightarrow> interfaces
    \<Rightarrow> (string \<Rightarrow> in_addr option) \<Rightarrow> string option list \<Rightarrow> bpf4_run option" where
  "bpf4_main have_biocsetif pf os ros writev IFF ifs inet_pton argv =
     (case bpf4_make_options inet_pton argv of
        Inl stop \<Rightarrow> Some \<lparr>br_stop = stop, br_udp = [], br_raw = [], br_frames = []\<rparr>
      | Inr options \<Rightarrow>
          let data = count_up 0 (replicate (unat (bo_size options)) 0) in
          if bo_mode options = Mode_sendto then
            (case bsd_socket_init pf os (bo_source options) (bo_dest options) [] of (udp, tr) \<Rightarrow>
               if u_socket udp = -1 then Some \<lparr>br_stop = Exit 1, br_udp = snd (snd (udp_close os (udp, tr))), br_raw = [], br_frames = []\<rparr>
               else Some \<lparr>br_stop = Exit 0, br_udp = snd (snd (udp_close os (snd (bsd_socket_send os data (udp, tr))))), br_raw = [], br_frames = []\<rparr>)
          else if have_biocsetif \<and> bo_mode options = Mode_bpf then
            (case bpf_socket_init IFF ros ifs (bo_source options) (bo_dest options) [] of (s, tr) \<Rightarrow>
               if bs_sock s = -1 then Some \<lparr>br_stop = Exit 1, br_udp = [], br_raw = bpf_socket_destroy ros (s, tr), br_frames = []\<rparr>
               else map_option (\<lambda>(r, frames, p). \<lparr>br_stop = Exit 0, br_udp = [], br_raw = bpf_socket_destroy ros (s\<lparr>bs_pkt := p\<rparr>, tr), br_frames = frames\<rparr>)
                 (send writev (bs_sock s \<noteq> -1) (bs_mtu s) data (bs_pkt s)))
          else Some \<lparr>br_stop = Exit 1, br_udp = [], br_raw = [], br_frames = []\<rparr>)"

lemma count_up_bytes: "count_up d bs = map (\<lambda>i. d + of_nat i) [0 ..< length bs]"
proof (induction bs arbitrary: d)
  case (Cons b bs)
  have "[0 ..< length (b # bs)] = 0 # map Suc [0 ..< length bs]" by (simp add: upt_conv_Cons map_Suc_upt del: upt_Suc)
  then show ?case by (simp add: Cons.IH add.assoc del: upt_Suc)
qed simp

section \<open>Nothing stays open\<close>

lemma bpf4_device_ok: "raw_fresh os \<Longrightarrow> device_ok (bpf4_device os)"
proof -
  have "keeps (raw_owned {fd}) (ethen (bpf_setintf os fd name) (bpf_sethdr os fd))" for name fd
    unfolding bpf_setintf_def bpf_sethdr_def by (intro keeps_then) (auto intro!: keeps_then)
  then show "raw_fresh os \<Longrightarrow> device_ok (bpf4_device os)"
    using device_ok_scoped [of os "\<lambda>name fd. ethen (bpf_setintf os fd name) (bpf_sethdr os fd)"]
    by (simp add: bpf4_device_def [abs_def])
qed

lemma bpf_socket_init_owns:
  assumes "raw_fresh os" "raw_owned {} tr" "bpf_socket_init IFF os ifs src dest tr = (s, tr')"
  shows "raw_owned (if bs_sock s = -1 then {} else {bs_sock s}) tr'"
proof -
  have d: "case bpf4_device os name tr of (Inl e, tr) \<Rightarrow> raw_owned {} tr | (Inr fd, tr) \<Rightarrow> fd \<noteq> -1 \<and> raw_owned {fd} tr" for name
    using bpf4_device_ok [OF assms(1), unfolded device_ok_def, rule_format, OF assms(2)] .
  have dl: "raw_owned {} t" if "bpf4_device os name tr = (Inl e, t)" for name e t using d [of name] that by simp
  have dr: "fd \<noteq> -1 \<and> raw_owned {fd} t" if "bpf4_device os name tr = (Inr fd, t)" for name fd t using d [of name] that by simp
  show ?thesis using assms(2,3)
    by (auto simp: bpf_socket_init_def Let_def bpf_socket_new_def dest: dl dr split: if_splits option.splits prod.splits sum.splits)
qed

lemma bpf_socket_destroy_owns:
  assumes "raw_owned (if bs_sock s = -1 then {} else {bs_sock s}) tr"
  shows "raw_owned {} (bpf_socket_destroy os (s, tr))"
  using assms by (auto simp: bpf_socket_destroy_def raw_owned_def raw_call_def split: if_splits)

lemma keeps_tolerate: "keeps I m \<Longrightarrow> keeps I (tolerate e m)"
  by (intro keepsI) (auto simp: tolerate_def dest: keepsD split: prod.splits sum.splits)

lemma bsd_socket_init_owns:
  assumes "os_fresh os"
  shows "udp_owns (bsd_socket_init pf os src dest [])"
proof -
  let ?m = "ethen (set_reuse_addr pf True) (ethen (tolerate ENOTSUP (set_reuse_port pf True))
         (ethen (udp_open_dest os src dest) (set_multicast_ttl os 1)))"
  have "keeps udp_owns ?m"
    by (intro keeps_then keeps_reuse keeps_tolerate udp_open_dest_owns assms)
      (auto simp: set_multicast_ttl_def intro!: keeps_on_socket)
  moreover have new: "udp_owns (udp_new, [])" by (simp add: udp_owns_def udp_new_def)
  ultimately have o: "udp_owns (snd (?m (udp_new, [])))" by (rule keepsD)
  obtain r s where m: "?m (udp_new, []) = (r, s)" by (rule prod.exhaust)
  show ?thesis
  proof (cases r)
    case (Inr x)
    then show ?thesis using o by (simp add: bsd_socket_init_def m)
  next
    case (Inl e)
    have "udp_owns (snd (udp_close os s))" using keepsD [OF udp_close_owns, of s os] o m by simp
    moreover have "u_socket (fst (snd (udp_close os s))) = -1" by (simp add: udp_close_def fdesc_close_def Let_def)
    ultimately have "udp_owns (udp_new, snd (snd (udp_close os s)))" by (simp add: udp_owns_def udp_new_def)
    then show ?thesis using Inl by (simp add: bsd_socket_init_def m)
  qed
qed

lemma closed_owns: "udp_owns s \<Longrightarrow> owned {} (snd (snd (udp_close os s)))"
proof -
  assume "udp_owns s"
  from keepsD [OF udp_close_owns this, of os] show "owned {} (snd (snd (udp_close os s)))"
    by (simp add: udp_owns_def udp_close_def fdesc_close_def Let_def)
qed

lemma bsd_socket_send_owns: "keeps udp_owns (bsd_socket_send os data)"
proof (rule keepsI)
  fix s assume s: "udp_owns s"
  have "keeps udp_owns (ethen (udp_send os data) (eret ()))"
    by (intro keeps_then) (auto simp: udp_send_def intro!: keeps_on_socket)
  from keepsD [OF this s] s show "udp_owns (snd (bsd_socket_send os data s))" by (simp add: bsd_socket_send_def)
qed

text \<open>However a run of the program ends, in both modes and whatever the system answers, every call was made on an open
  descriptor and none is left open.\<close>

theorem bpf4_main_closes:
  assumes "os_fresh os" "raw_fresh ros" "bpf4_main have pf os ros writev IFF ifs inet_pton argv = Some run"
  shows "owned {} (br_udp run) \<and> raw_owned {} (br_raw run)"
proof (cases "bpf4_make_options inet_pton argv")
  case (Inl stop)
  then show ?thesis using assms(3) by (auto simp: bpf4_main_def)
next
  case (Inr o1)
  obtain u tr where u: "bsd_socket_init pf os (bo_source o1) (bo_dest o1) [] = (u, tr)" by (rule prod.exhaust)
  obtain s rtr where s: "bpf_socket_init IFF ros ifs (bo_source o1) (bo_dest o1) [] = (s, rtr)" by (rule prod.exhaust)
  have o: "udp_owns (u, tr)" using bsd_socket_init_owns [OF assms(1), of pf "bo_source o1" "bo_dest o1"] u by simp
  note cu = closed_owns [OF o, of os] closed_owns [OF keepsD [OF bsd_socket_send_owns o], of os]
  have "raw_owned (if bs_sock s = -1 then {} else {bs_sock s}) rtr"
    by (rule bpf_socket_init_owns [OF assms(2) _ s]) simp
  then have cs: "raw_owned {} (bpf_socket_destroy ros (s\<lparr>bs_pkt := p\<rparr>, rtr))" for p
    by (intro bpf_socket_destroy_owns) (cases "bs_sock s = -1"; simp)
  have cs0: "raw_owned {} (bpf_socket_destroy ros (s, rtr))" using cs [of "bs_pkt s"] by simp
  show ?thesis using assms(3) cu cs cs0
    by (auto simp: bpf4_main_def Inr Let_def u s split: if_splits)
qed


section \<open>What is sent\<close>

lemma bpf_socket_init_flow:
  assumes "bpf_socket_init IFF os ifs src dest tr = (s, tr')" "bs_sock s \<noteq> -1"
  shows "\<exists>destmac srcintf mac. get_ether_multicast (sin_addr dest) = Some destmac \<and>
    find_ipv4 IFF (sin_addr src) (in_order ifs) = Some srcintf \<and> if_mtu srcintf = Some (bs_mtu s) \<and> if_hwaddr srcintf = Some mac \<and>
    flow destmac mac src dest 0 (bs_pkt s)"
proof -
  have "flow destmac mac src dest 0 (write_src_ip src (write_src_mac mac (write_dest_ip dest (write_dest_mac destmac l2_udp_packet_new))))"
    for destmac mac
  proof -
    have "l2_fragmentation_id (write_src_ip src (write_src_mac mac (write_dest_ip dest (write_dest_mac destmac l2_udp_packet_new)))) = 0"
      by (simp add: write_src_ip_def write_src_mac_def write_dest_ip_def write_dest_mac_def l2_udp_packet_new_def Let_def)
    then show ?thesis using socket_packet unfolding flow_def by blast
  qed
  then show ?thesis using assms
    by (auto simp: bpf_socket_init_def Let_def bpf_socket_new_def split: if_splits option.splits prod.splits sum.splits)
qed

text \<open>C4: In the mode of the raw socket, with at most 65507 bytes asked for, the socket up on an interface with an MTU of 36 to
  65535, and every \<open>writev\<close> a success, the program ends with code 0, and the frames it wrote are accepted at the group
  address of the destination as coming from the interface found for the source: they reassemble to one datagram of the
  size asked for, from the source to the destination, whose bytes count up, and nothing is left open.\<close>

theorem bpf4_main_delivers:
  assumes "raw_fresh ros" "bpf4_make_options inet_pton argv = Inr o1" "bo_mode o1 = Mode_bpf" "unat (bo_size o1) \<le> 65507"
    and "bpf_socket_init IFF ros ifs (bo_source o1) (bo_dest o1) [] = (s, tr)" "bs_sock s \<noteq> -1"
    and "36 \<le> unat (bs_mtu s)" "unat (bs_mtu s) < 65536"
  shows "\<exists>run destmac srcintf mac ips seg.
    bpf4_main True pf os ros (\<lambda>_. None) IFF ifs inet_pton argv = Some run \<and> br_stop run = Exit 0 \<and>
    get_ether_multicast (sin_addr (bo_dest o1)) = Some destmac \<and>
    find_ipv4 IFF (sin_addr (bo_source o1)) (in_order ifs) = Some srcintf \<and> if_hwaddr srcintf = Some mac \<and>
    delivered destmac mac (bo_source o1) (bo_dest o1) 0 (unat (bs_mtu s)) (br_frames run) ips \<and> reassemble 0 ips = Some seg \<and>
    segment_ok (bo_source o1) (bo_dest o1) (map of_nat [0 ..< unat (bo_size o1)]) seg \<and> raw_owned {} (br_raw run)"
proof -
  let ?data = "map of_nat [0 ..< unat (bo_size o1)] :: byte list"
  have d: "count_up 0 (replicate (unat (bo_size o1)) 0) = ?data" by (simp add: count_up_bytes)
  have n: "length ?data \<le> 65507" using assms(4) by simp
  obtain destmac srcintf mac where i: "get_ether_multicast (sin_addr (bo_dest o1)) = Some destmac"
    "find_ipv4 IFF (sin_addr (bo_source o1)) (in_order ifs) = Some srcintf" "if_hwaddr srcintf = Some mac"
    "flow destmac mac (bo_source o1) (bo_dest o1) 0 (bs_pkt s)"
    using bpf_socket_init_flow [OF assms(5,6)] by blast
  obtain fs ips p seg where r: "send (\<lambda>_. None) True (bs_mtu s) ?data (bs_pkt s) = Some (Inr (), fs, p)"
    "delivered destmac mac (bo_source o1) (bo_dest o1) 0 (unat (bs_mtu s)) fs ips" "reassemble 0 ips = Some seg"
    "segment_ok (bo_source o1) (bo_dest o1) ?data seg"
  proof (cases "length ?data \<le> unat (bs_mtu s) - 28")
    case True
    have "28 \<le> unat (bs_mtu s)" using assms(7) by simp
    from send_whole [OF i(4) this True n] show ?thesis using that by blast
  next
    case False
    then have "unat (bs_mtu s) - 28 < length ?data" by simp
    from send_in_fragments [OF i(4) assms(7,8) this n] show ?thesis using that by blast
  qed
  let ?run = "\<lparr>br_stop = Exit 0, br_udp = [], br_raw = bpf_socket_destroy ros (s\<lparr>bs_pkt := p\<rparr>, tr), br_frames = fs\<rparr>"
  have "raw_owned (if bs_sock s = -1 then {} else {bs_sock s}) tr"
    by (rule bpf_socket_init_owns [OF assms(1) _ assms(5)]) simp
  then have "raw_owned {} (br_raw ?run)" using bpf_socket_destroy_owns [of "s\<lparr>bs_pkt := p\<rparr>" tr ros] by (cases "bs_sock s = -1") simp_all
  moreover have "bpf4_main True pf os ros (\<lambda>_. None) IFF ifs inet_pton argv = Some ?run"
    using assms(3,6) r(1) by (simp add: bpf4_main_def assms(2,5) Let_def d)
  ultimately show ?thesis using i r(2-4) by (intro exI [of _ ?run] exI [of _ destmac] exI [of _ srcintf] exI [of _ mac] exI [of _ ips] exI [of _ seg]) simp
qed

text \<open>When the system accepts every call, the other mode sets nothing on the socket but the interface and the time to
  live: opened with a destination, the socket does not get the reuse options asked for.\<close>

theorem bpf4_main_sendto:
  assumes "\<And>tr. os tr Sys_socket = Inr fd" "fd \<noteq> -1" "\<And>tr c. \<exists>n. os tr c = Inr n" "have_reuseaddr pf"
    and "bpf4_make_options inet_pton argv = Inr o1" "bo_mode o1 = Mode_sendto"
    and "is_valid_bind_addr (bo_source o1)" "is_valid_sockaddr (bo_dest o1)"
  shows "\<exists>run. bpf4_main have pf os ros writev IFF ifs inet_pton argv = Some run \<and> br_stop run = Exit 0 \<and>
    map fst (br_udp run) = [Sys_socket, Sys_bind fd (bo_source o1), Sys_connect fd (bo_dest o1)] @
      (if is_multicast (sin_addr (bo_dest o1)) then [Sys_setsockopt fd IP_MULTICAST_IF (uint (sin_addr (bo_source o1)))] else []) @
      [Sys_setsockopt fd IP_MULTICAST_TTL 1, Sys_send fd (map of_nat [0 ..< unat (bo_size o1)]), Sys_close fd]"
proof -
  obtain g where g: "\<And>tr c. os tr c = Inr (g tr c)" using assms(3) by metis
  have sock: "g tr Sys_socket = fd" for tr using g [of tr Sys_socket] assms(1) [of tr] by simp
  have "sin_addr (bo_source o1) \<noteq> -1" using assms(7) by (simp add: is_valid_bind_addr_def)
  then show ?thesis using assms(2,4,6-8)
    by (auto simp: bpf4_main_def assms(5) bsd_socket_init_def set_reuse_addr_def set_reuse_port_def tolerate_def udp_open_dest_def
        set_multicast_ttl_def bsd_socket_send_def udp_send_def on_socket_def take_socket_def scoped_fd_def internal_defs sys_set_def eff_defs
        syscall_def udp_new_def udp_close_def fdesc_close_def Let_def g sock count_up_bytes)
qed


section \<open>A run\<close>

abbreviation udp4_argv :: "string option list" where
  "udp4_argv \<equiv> [Some ''bpf_udp4'', Some ''-S10.0.0.1:7'', Some ''-D224.0.0.1:9'', Some ''-Bbpf'', Some ''-s2000'']"

abbreviation two_addrs :: "string \<Rightarrow> in_addr option" where
  "two_addrs \<equiv> (\<lambda>s. if s = ''10.0.0.1'' then Some 0x0100000A else if s = ''224.0.0.1'' then Some 0x010000E0 else None)"

lemma udp4_options_run:
  "bpf4_make_options two_addrs udp4_argv = Inr \<lparr>bo_mode = Mode_bpf, bo_source = \<lparr>sin_family = AF_INET, sin_port = 0x700, sin_addr = 0x0100000A\<rparr>,
     bo_dest = \<lparr>sin_family = AF_INET, sin_port = 0x900, sin_addr = 0x010000E0\<rparr>, bo_size = 2000\<rparr>"
  by code_simp

lemma udp4_socket_run:
  assumes "sin_addr src = 0x0100000A" "sin_addr dest = 0x010000E0" "sin_port src \<noteq> 0" "sin_port dest \<noteq> 0"
  shows "\<exists>s tr. bpf_socket_init if_flags one_raw_os one_interface src dest [] = (s, tr) \<and> bs_sock s = 3 \<and> bs_mtu s = 1500"
proof -
  have m: "is_multicast 0x010000E0" by (simp add: is_multicast_def ntohl_def)
  then obtain mac where mac: "get_ether_multicast 0x010000E0 = Some mac" by (auto simp: get_ether_multicast_def Let_def)
  have "flags_bool (flags_and (interface_status if_flags (the (one_interface ''em0''))) wanted_flags)"
    by (simp add: one_interface_def interface_new_def interface_status_def Let_def wanted_flags_def flags_bool_def flags_and_def
        flags_or_bit_def flags_of_bit_def flags_none_def if_flags_def)
  then have f: "find_ipv4 if_flags 0x0100000A (in_order one_interface) = Some (the (one_interface ''em0''))"
    by (simp add: in_order_def one_interface_def interface_new_def if_ipv4_new_def)
  have i: "if_mtu (the (one_interface ''em0'')) = Some 1500" "if_hwaddr (the (one_interface ''em0'')) = Some (Ether_addr 2 0 0 0 0 1)"
    by (simp_all add: one_interface_def)
  have "\<exists>tr. bpf4_device one_raw_os name [] = (Inr 3, tr)" for name
    by (simp add: bpf4_device_def bpf_setintf_def bpf_sethdr_def device_defs one_raw_os_def)
  then obtain tr where "bpf4_device one_raw_os (if_name (the (one_interface ''em0''))) [] = (Inr 3, tr)" by blast
  then show ?thesis using assms m mac f i by (simp add: bpf_socket_init_def Let_def)
qed

lemma bpf4_main_delivers_witness:
  "\<exists>run. bpf4_main True all_options one_socket_os one_raw_os (\<lambda>_. None) if_flags one_interface two_addrs udp4_argv = Some run \<and>
     br_stop run = Exit 0 \<and> br_frames run \<noteq> [] \<and> raw_live (br_raw run) = {}"
proof -
  let ?src = "\<lparr>sin_family = AF_INET, sin_port = 0x700, sin_addr = 0x0100000A\<rparr> :: sockaddr_in"
  let ?dest = "\<lparr>sin_family = AF_INET, sin_port = 0x900, sin_addr = 0x010000E0\<rparr> :: sockaddr_in"
  obtain s tr where s: "bpf_socket_init if_flags one_raw_os one_interface ?src ?dest [] = (s, tr)" "bs_sock s = 3" "bs_mtu s = 1500"
    using udp4_socket_run [of ?src ?dest] by auto
  have "bs_sock s \<noteq> -1" "36 \<le> unat (bs_mtu s)" "unat (bs_mtu s) < 65536" using s(2,3) by simp_all
  from bpf4_main_delivers [OF one_raw_fresh udp4_options_run _ _ _ this] s(1)
  show ?thesis by (fastforce simp: raw_owned_def delivered_def list_all2_Nil)
qed

lemma bpf4_main_closes_witness:
  "\<exists>run. bpf4_main True all_options one_socket_os one_raw_os (\<lambda>_. None) if_flags one_interface two_addrs [Some ''bpf_udp4''] = Some run \<and>
     live (br_udp run) = {} \<and> raw_live (br_raw run) = {}"
proof -
  have "bpf4_make_options two_addrs [Some ''bpf_udp4''] = Inl (Exit 1)" by code_simp
  then obtain run where r: "bpf4_main True all_options one_socket_os one_raw_os (\<lambda>_. None) if_flags one_interface two_addrs [Some ''bpf_udp4''] = Some run"
    by (auto simp: bpf4_main_def)
  from bpf4_main_closes [OF one_socket_fresh one_raw_fresh r] r show ?thesis by (auto simp: owned_def raw_owned_def)
qed

lemma bpf4_main_sendto_witness:
  "\<exists>run. bpf4_main True all_options (\<lambda>_ _. Inr 3) one_raw_os (\<lambda>_. None) if_flags one_interface two_addrs
     [Some ''bpf_udp4'', Some ''-S10.0.0.1:7'', Some ''-D224.0.0.1:9'', Some ''-s2''] = Some run \<and> length (br_udp run) = 7"
proof -
  have o: "bpf4_make_options two_addrs [Some ''bpf_udp4'', Some ''-S10.0.0.1:7'', Some ''-D224.0.0.1:9'', Some ''-s2''] =
     Inr \<lparr>bo_mode = Mode_sendto, bo_source = \<lparr>sin_family = AF_INET, sin_port = 0x700, sin_addr = 0x0100000A\<rparr>,
     bo_dest = \<lparr>sin_family = AF_INET, sin_port = 0x900, sin_addr = 0x010000E0\<rparr>, bo_size = 2\<rparr>"
    by code_simp
  have m: "is_multicast 0x010000E0" by (simp add: is_multicast_def ntohl_def)
  have "have_reuseaddr all_options" "(3 :: int) \<noteq> -1" by (simp_all add: all_options_def)
  from bpf4_main_sendto [OF refl this(2) _ this(1) o, of True one_raw_os "\<lambda>_. None" if_flags one_interface]
  obtain run where r: "bpf4_main True all_options (\<lambda>_ _. Inr 3) one_raw_os (\<lambda>_. None) if_flags one_interface two_addrs
     [Some ''bpf_udp4'', Some ''-S10.0.0.1:7'', Some ''-D224.0.0.1:9'', Some ''-s2''] = Some run" "length (map fst (br_udp run)) = 7"
    by (auto simp: is_valid_bind_addr_def is_valid_sockaddr_def m)
  then show ?thesis by auto
qed

end
