(* ===== verification/UdpLoad.thy ===== *)
theory UdpLoad
  imports UdpSenders "HOL-Library.Multiset"
begin

text \<open>
  \<open>main\<close> of \<open>tools/udp_load\<close> (\<open>udp_load.cpp\<close>): the addresses, a talker for every
  thread, the threads, and the totals they add up in atomic counters.  What a thread meets is the list of passes of
  \<open>UdpTalker\<close>, long enough for its run; the times it spends in waiting and sending are not in the results.
\<close>

section \<open>A talker\<close>

text \<open>The two setters are the same but for the field they set.\<close>

definition set_source_addr :: "sockaddr_in \<Rightarrow> sockaddr_in \<Rightarrow> bool \<times> sockaddr_in" where
  "set_source_addr addr source =
     (if sin_family addr \<noteq> AF_INET then (False, source)
      else if sin_port addr = 0 then (False, source)
      else if sin_addr addr = 0 then (False, source)
      else (True, \<lparr>sin_family = AF_INET, sin_port = sin_port addr, sin_addr = sin_addr addr\<rparr>))"

definition set_dest_addr :: "sockaddr_in \<Rightarrow> sockaddr_in \<Rightarrow> bool \<times> sockaddr_in" where
  "set_dest_addr addr dest =
     (if sin_family addr \<noteq> AF_INET then (False, dest)
      else if sin_port addr = 0 then (False, dest)
      else if sin_addr addr = 0 then (False, dest)
      else (True, \<lparr>sin_family = AF_INET, sin_port = sin_port addr, sin_addr = sin_addr addr\<rparr>))"

definition default_addr :: "16 word \<Rightarrow> sockaddr_in \<Rightarrow> sockaddr_in" where
  "default_addr port a = (if sin_port a = 0 then a\<lparr>sin_port := htons port\<rparr> else a)"

definition load_source :: "load_options \<Rightarrow> sockaddr_in" where
  "load_source opts = default_addr 3499 (lo_source opts)"

definition load_dest :: "load_options \<Rightarrow> sockaddr_in" where
  "load_dest opts = default_addr 3500 (lo_dest opts)"

text \<open>One pass of the loop up to the thread.  \<open>init_packets\<close> is what the sender of the thread makes of the addresses
  and the size; the result of \<open>set_shaping\<close> is not looked at.\<close>

definition load_talker :: "load_options \<Rightarrow> (nat \<Rightarrow> sockaddr_in \<Rightarrow> sockaddr_in \<Rightarrow> 16 word \<Rightarrow> bool) \<Rightarrow> nat \<Rightarrow> talker option" where
  "load_talker opts init_packets i =
     (let packets = total_packets (lo_packets opts) (lo_threads opts);
          t = snd (set_shaping (lo_slots opts) (lo_width opts) (packets_thread packets (lo_threads opts) i) (lo_size opts) talker_new);
          (ok_s, source) = set_source_addr (load_source opts) sockaddr_zero;
          (ok_d, dest) = set_dest_addr (load_dest opts) sockaddr_zero
      in if \<not> ok_s then None
         else if \<not> ok_d then None
         else case talker_init (init_packets i source dest (t_size t)) t of (ok, t) \<Rightarrow> if ok then Some t else None)"

section \<open>The threads\<close>

text \<open>Leaving \<open>main\<close> destroys the vector of threads; one that runs and was not joined terminates the program.\<close>

fun load_start :: "(nat \<Rightarrow> talker option) \<Rightarrow> nat \<Rightarrow> nat \<Rightarrow> talker list \<Rightarrow> stop + talker list" where
  "load_start mk i 0 runners = Inr runners"
| "load_start mk i (Suc n) runners =
     (case mk i of
        None \<Rightarrow> Inl (if runners = [] then Exit 1 else Terminated)
      | Some t \<Rightarrow> load_start mk (i + 1) n (runners @ [t]))"

record load_totals =
  tot_sent :: "32 word"
  tot_expected :: "32 word"
  tot_failures :: "32 word"

definition totals_new :: load_totals where
  "totals_new = \<lparr>tot_sent = 0, tot_expected = 0, tot_failures = 0\<rparr>"

text \<open>The end of a thread.\<close>

definition add_result :: "udp_results option \<Rightarrow> load_totals \<Rightarrow> load_totals" where
  "add_result r s = (case r of
      Some r \<Rightarrow> s\<lparr>tot_sent := tot_sent s + packets_sent r, tot_expected := tot_expected s + packets_expected r\<rparr>
    | None \<Rightarrow> s\<lparr>tot_failures := tot_failures s + 1\<rparr>)"

text \<open>\<open>done\<close> is the order in which the threads end, \<open>envs\<close> what each one meets.\<close>

definition load_main :: "load_options \<Rightarrow> (nat \<Rightarrow> sockaddr_in \<Rightarrow> sockaddr_in \<Rightarrow> 16 word \<Rightarrow> bool)
    \<Rightarrow> (nat \<Rightarrow> ((16 word \<Rightarrow> 16 word) \<times> int) list) \<Rightarrow> nat list \<Rightarrow> stop + load_totals" where
  "load_main opts init_packets envs order =
     (case load_start (load_talker opts init_packets) 0 (unat (lo_threads opts)) [] of
        Inl e \<Rightarrow> Inl e
      | Inr runners \<Rightarrow>
          let s = fold (\<lambda>i. add_result (talker_run (runners ! i) True (uint (lo_duration opts)) (envs i))) order totals_new
          in if tot_failures s > 0 then Inl (Exit 2) else Inr s)"

section \<open>Starting\<close>

lemma load_start_result:
  "load_start mk i n runners =
     (if \<forall>k \<in> {i ..< i + n}. mk k \<noteq> None then Inr (runners @ map (\<lambda>k. the (mk k)) [i ..< i + n])
      else Inl (if runners = [] \<and> mk i = None then Exit 1 else Terminated))"
proof (induction n arbitrary: i runners)
  case (Suc n)
  show ?case
  proof (cases "mk i")
    case None
    then show ?thesis by (auto intro!: bexI [of _ i])
  next
    case (Some t)
    have i: "{i ..< i + Suc n} = insert i {i + 1 ..< i + 1 + n}" by auto
    have u: "[i ..< i + Suc n] = i # [i + 1 ..< i + 1 + n]" by (simp add: upt_rec)
    show ?thesis unfolding i u using Some Suc.IH [of "i + 1" "runners @ [t]"] by auto
  qed
qed simp

lemma address_set:
  assumes "sin_family a = AF_INET" "sin_addr a \<noteq> 0" "htons port \<noteq> 0"
  shows "\<exists>b. set_source_addr (default_addr port a) old = (True, b)" "\<exists>b. set_dest_addr (default_addr port a) old = (True, b)"
  using assms by (auto simp: set_source_addr_def set_dest_addr_def default_addr_def)

lemma default_ports: "htons 3499 \<noteq> 0" "htons 3500 \<noteq> 0" by (simp_all add: htons_def)

text \<open>What \<open>load_options\<close> gives, with a size of at least one byte.\<close>

definition load_sane :: "load_options \<Rightarrow> bool" where
  "load_sane opts \<longleftrightarrow> load_ranges opts \<and> sin_addr (lo_source opts) \<noteq> 0 \<and> sin_addr (lo_dest opts) \<noteq> 0 \<and>
     unat (total_packets (lo_packets opts) (lo_threads opts)) * unat (lo_threads opts) < 2 ^ 32"

lemma load_talker_result:
  assumes "load_sane opts" "i < unat (lo_threads opts)"
  shows "load_talker opts init_packets i =
    (if lo_size opts = 0 \<or> \<not> init_packets i (snd (set_source_addr (load_source opts) sockaddr_zero)) (snd (set_dest_addr (load_dest opts) sockaddr_zero)) (lo_size opts)
     then None
     else Some \<lparr>t_slots = lo_slots opts, t_width = lo_width opts, t_size = lo_size opts,
       t_packets = packets_thread (total_packets (lo_packets opts) (lo_threads opts)) (lo_threads opts) i, t_init = True\<rparr>)"
proof -
  have r: "1 \<le> lo_slots opts" "1 \<le> lo_width opts" "sin_family (lo_source opts) = AF_INET" "sin_family (lo_dest opts) = AF_INET"
    "sin_addr (lo_source opts) \<noteq> 0" "sin_addr (lo_dest opts) \<noteq> 0" "1 \<le> lo_threads opts"
    using assms(1) by (simp_all add: load_sane_def load_ranges_def)
  have t: "lo_threads opts \<noteq> 0" using r(7) by auto
  have p: "1 \<le> packets_thread (total_packets (lo_packets opts) (lo_threads opts)) (lo_threads opts) i"
    using packets_thread_split [OF t] assms by (simp add: load_sane_def)
  obtain s where s: "set_source_addr (load_source opts) sockaddr_zero = (True, s)"
    using address_set(1) [OF r(3,5) default_ports(1)] by (auto simp: load_source_def)
  obtain d where d: "set_dest_addr (load_dest opts) sockaddr_zero = (True, d)"
    using address_set(2) [OF r(4,6) default_ports(2)] by (auto simp: load_dest_def)
  have nz: "lo_slots opts \<noteq> 0" "lo_width opts \<noteq> 0" "packets_thread (total_packets (lo_packets opts) (lo_threads opts)) (lo_threads opts) i \<noteq> 0"
    using r(1,2) p by auto
  show ?thesis
  proof (cases "lo_size opts = 0")
    case True
    then show ?thesis using nz s d r by (simp add: load_talker_def set_shaping_def talker_init_def talker_new_def word_less_1)
  next
    case False
    then show ?thesis using nz s d r by (simp add: load_talker_def set_shaping_def talker_init_def talker_new_def word_less_1)
  qed
qed

text \<open>C39: The tool starts when every sender does; otherwise it exits with 1 when the first sender fails, and when a later
  one fails the program is terminated by the threads that run already.\<close>

theorem load_start_outcome:
  fixes opts init_packets
  defines "started \<equiv> \<lambda>i. lo_size opts \<noteq> 0 \<and> init_packets i (snd (set_source_addr (load_source opts) sockaddr_zero))
    (snd (set_dest_addr (load_dest opts) sockaddr_zero)) (lo_size opts)"
  assumes "load_sane opts"
  shows "case load_start (load_talker opts init_packets) 0 (unat (lo_threads opts)) [] of
      Inr runners \<Rightarrow> (\<forall>i < unat (lo_threads opts). started i) \<and> length runners = unat (lo_threads opts)
    | Inl (Exit c) \<Rightarrow> c = 1 \<and> \<not> started 0
    | Inl Terminated \<Rightarrow> started 0 \<and> (\<exists>i < unat (lo_threads opts). \<not> started i)
    | Inl No_operand \<Rightarrow> False"
proof -
  have mk: "load_talker opts init_packets i \<noteq> None \<longleftrightarrow> started i" if "i < unat (lo_threads opts)" for i
    using load_talker_result [OF assms(2) that, of init_packets] by (auto simp: started_def)
  have "1 \<le> lo_threads opts" using assms(2) by (simp add: load_sane_def load_ranges_def)
  then have t: "0 < unat (lo_threads opts)" by (simp add: word_le_nat_alt)
  show ?thesis unfolding load_start_result using mk mk [OF t] by auto
qed

lemma load_start_outcome_witness:
  "load_start (load_talker (load_options_new\<lparr>lo_source := \<lparr>sin_family = 2, sin_port = 0, sin_addr = 1\<rparr>,
       lo_dest := \<lparr>sin_family = 2, sin_port = 0, sin_addr = 1\<rparr>, lo_threads := 2\<rparr>) (\<lambda>i _ _ _. i = 0)) 0 2 [] = Inl Terminated"
proof -
  let ?o = "load_options_new\<lparr>lo_source := \<lparr>sin_family = 2, sin_port = 0, sin_addr = 1\<rparr>,
       lo_dest := \<lparr>sin_family = 2, sin_port = 0, sin_addr = 1\<rparr>, lo_threads := 2\<rparr>"
  let ?r = "load_start (load_talker ?o (\<lambda>i _ _ _. i = 0)) 0 (unat (lo_threads ?o)) []"
  have "load_sane ?o" by (simp add: load_sane_def load_ranges_def load_options_new_def total_packets_def)
  note o = load_start_outcome [OF this, of "\<lambda>i _ _ _. i = 0"]
  have n: "unat (lo_threads ?o) = 2" "lo_size ?o \<noteq> 0" by (simp_all add: load_options_new_def)
  have "?r = Inl Terminated"
  proof (cases ?r)
    case (Inl e)
    then show ?thesis using o n by (cases e) auto
  next
    case (Inr ts)
    then have "\<forall>i < (2 :: nat). i = 0" using o n by simp
    then show ?thesis by (auto dest: spec [where x = "1 :: nat"])
  qed
  then show ?thesis using n by simp
qed

section \<open>The totals\<close>

text \<open>The counters are atomic, so the order in which the threads end does not change the totals.\<close>

lemma totals_any_order:
  assumes "mset order = mset order'"
  shows "fold (\<lambda>i. add_result (r i)) order s = fold (\<lambda>i. add_result (r i)) order' s"
proof -
  have "add_result (r i) \<circ> add_result (r j) = add_result (r j) \<circ> add_result (r i)" for i j
    by (auto simp: add_result_def fun_eq_iff ac_simps split: option.splits)
  then have "fold (\<lambda>i. add_result (r i)) order = fold (\<lambda>i. add_result (r i)) order'"
    by (intro fold_multiset_equiv [OF _ assms])
  then show ?thesis by simp
qed

lemma totals_sum:
  assumes "\<And>i. i < n \<Longrightarrow> r i = Some \<lparr>packets_sent = v i, packets_expected = v i\<rparr>" "(\<Sum>i < n. unat (v i)) < 2 ^ 32"
  shows "\<exists>x. fold (\<lambda>i. add_result (r i)) [0 ..< n] totals_new = \<lparr>tot_sent = x, tot_expected = x, tot_failures = 0\<rparr> \<and>
    unat x = (\<Sum>i < n. unat (v i))"
  using assms
proof (induction n)
  case (Suc n)
  obtain x where x: "fold (\<lambda>i. add_result (r i)) [0 ..< n] totals_new = \<lparr>tot_sent = x, tot_expected = x, tot_failures = 0\<rparr>"
    "unat x = (\<Sum>i < n. unat (v i))" using Suc by auto
  have "unat (x + v n) = (\<Sum>i < Suc n. unat (v i))"
    using unat_add_lem [of x "v n"] x(2) Suc.prems(2) by simp
  moreover have "add_result (r n) \<lparr>tot_sent = x, tot_expected = x, tot_failures = 0\<rparr> = \<lparr>tot_sent = x + v n, tot_expected = x + v n, tot_failures = 0\<rparr>"
    using Suc.prems(1) [of n] by (simp add: add_result_def)
  ultimately show ?case using x(1) by simp
qed (simp add: totals_new_def)

text \<open>A thread with a network that takes everything and passes that end in their slots, for \<open>w\<close> windows.\<close>

lemma due_step: "due t (k + 1) - due t k \<le> unat (t_packets t) div unat (t_slots t) + 1"
proof (cases "unat (t_slots t) = 0")
  case False
  let ?s = "unat (t_slots t)" and ?p = "unat (t_packets t)"
  have "?p * k mod ?s + ?p mod ?s < 2 * ?s" using False mod_less_divisor [of ?s "?p * k"] mod_less_divisor [of ?s ?p] by linarith
  then have "(?p * k mod ?s + ?p mod ?s) div ?s < 2" using False by (simp add: div_less_iff_less_mult)
  moreover have "(?p * (k + 1)) div ?s = ?p * k div ?s + ?p div ?s + (?p * k mod ?s + ?p mod ?s) div ?s"
    using div_add1_eq [of "?p * k" ?p ?s] by (simp add: add.commute)
  ultimately show ?thesis unfolding due_def by linarith
qed (simp add: due_def)

definition window_passes :: "load_options \<Rightarrow> nat \<Rightarrow> ((16 word \<Rightarrow> 16 word) \<times> int) list \<Rightarrow> bool" where
  "window_passes opts w es \<longleftrightarrow> length es = w * unat (lo_slots opts) \<and>
     (\<forall>i < length es. (\<forall>c. fst (es ! i) c = c) \<and> 0 \<le> snd (es ! i) \<and> snd (es ! i) < (int i + 1) * uint (lo_width opts)) \<and>
     (\<forall>i < length es. snd (es ! i) < max (uint (lo_duration opts)) (uint (lo_slots opts) * uint (lo_width opts)) \<longleftrightarrow> i + 1 < length es)"

lemma thread_sends:
  assumes t: "t = \<lparr>t_slots = lo_slots opts, t_width = lo_width opts, t_size = lo_size opts, t_packets = p, t_init = True\<rparr>"
    and nz: "lo_slots opts \<noteq> 0" "lo_width opts \<noteq> 0" "lo_size opts \<noteq> 0" "p \<noteq> 0"
    and es: "window_passes opts w es" "0 < w" and small: "unat p * (w * unat (lo_slots opts) + 1) < 2 ^ 32" "unat p div unat (lo_slots opts) < 65535"
  shows "\<exists>v. talker_run t True (uint (lo_duration opts)) es = Some \<lparr>packets_sent = v, packets_expected = v\<rparr> \<and> unat v = unat p * w"
proof -
  let ?t = "t\<lparr>t_init := False\<rparr>" and ?s = "unat (lo_slots opts)"
  have s0: "0 < ?s" using nz(1) by (simp add: unat_gt_0)
  have len: "length es = w * ?s" using es(1) by (simp add: window_passes_def)
  have 1: "set_shaping (lo_slots opts) (lo_width opts) p (lo_size opts) talker_new = (True, ?t)"
    using nz by (simp add: set_shaping_def talker_new_def t word_less_1)
  have "?s \<le> w * ?s" using es(2) by simp
  then have "unat p * ?s \<le> unat p * (w * ?s + 1)" by (intro mult_le_mono2) linarith
  then have 2: "unat p * ?s < 2 ^ 32" "unat p * (length es + 1) < 2 ^ 32" using small(1) len by simp_all
  have "due ?t (i + 1) - due ?t i < 65536" for i
    using due_step [of ?t i] small(2) by (simp add: t)
  then have 3: "\<forall>i < length es. on_time ?t i (es ! i) \<and> due ?t (i + 1) - due ?t i < 65536"
    using es(1) by (simp add: window_passes_def on_time_def t)
  have 4: "\<forall>i < length es. snd (es ! i) < max (uint (lo_duration opts)) (uint (lo_slots opts) * uint (lo_width opts)) \<longleftrightarrow> i + 1 < length es"
    using es(1) by (simp add: window_passes_def)
  have 5: "es \<noteq> []" using len es(2) s0 by auto
  from talker_run_sends_due [OF 1 2 3 4 5] obtain v where v: "talker_run ?t True (uint (lo_duration opts)) es = Some \<lparr>packets_sent = v, packets_expected = v\<rparr>"
    "unat v = unat p * length es div ?s" by auto
  have "talker_init True ?t = talker_init True t" using nz by (simp add: talker_init_def t)
  then have "talker_run t True (uint (lo_duration opts)) es = talker_run ?t True (uint (lo_duration opts)) es"
    by (simp add: talker_run_def t)
  moreover have "unat p * length es div ?s = unat p * w" using s0 by (simp add: len mult.assoc [symmetric])
  ultimately show ?thesis using v by simp
qed

text \<open>C6: When every sender starts, the network takes everything and the passes end in their slots, a run over \<open>w\<close> windows
  sends, and expects, \<open>packets\<close> packets for each window: the split over the threads and the slots loses none, in
  whatever order the threads end.\<close>

theorem load_main_sends_rate:
  fixes opts
  defines "P \<equiv> total_packets (lo_packets opts) (lo_threads opts)"
  assumes "load_sane opts" "lo_size opts \<noteq> 0" "\<And>i source dest n. init_packets i source dest n"
    and "\<And>i. i < unat (lo_threads opts) \<Longrightarrow> window_passes opts w (envs i)" "0 < w"
    and "unat P * (w * unat (lo_slots opts) + 1) < 2 ^ 32" "unat P div unat (lo_slots opts) < 65535"
    and "mset order = mset [0 ..< unat (lo_threads opts)]"
  shows "\<exists>x. load_main opts init_packets envs order = Inr \<lparr>tot_sent = x, tot_expected = x, tot_failures = 0\<rparr> \<and> unat x = w * unat P"
proof -
  let ?n = "unat (lo_threads opts)" and ?p = "packets_thread P (lo_threads opts)" and ?s = "unat (lo_slots opts)"
  define t where "t i = \<lparr>t_slots = lo_slots opts, t_width = lo_width opts, t_size = lo_size opts, t_packets = ?p i, t_init = True\<rparr>" for i
  have r: "1 \<le> lo_slots opts" "1 \<le> lo_width opts" "1 \<le> lo_threads opts"
    using assms(2) by (simp_all add: load_sane_def load_ranges_def)
  then have nz: "lo_slots opts \<noteq> 0" "lo_width opts \<noteq> 0" "lo_threads opts \<noteq> 0" by auto
  have mk: "load_talker opts init_packets i = Some (t i)" if "i < ?n" for i
    using load_talker_result [OF assms(2) that, of init_packets] assms(3,4) by (simp add: t_def P_def)
  have start: "load_start (load_talker opts init_packets) 0 ?n [] = Inr (map t [0 ..< ?n])"
    unfolding load_start_result using mk by (auto intro!: nth_equalityI)
  have split: "(\<Sum>i < ?n. unat (?p i)) = unat P" "\<And>i. i < ?n \<Longrightarrow> 1 \<le> ?p i"
    using packets_thread_split [OF nz(3), of "lo_packets opts"] assms(2) by (simp_all add: load_sane_def P_def)
  have le: "unat (?p i) \<le> unat P" if "i < ?n" for i
    unfolding split(1) [symmetric] using that by (intro member_le_sum) auto
  have "\<forall>i. i < ?n \<longrightarrow> (\<exists>v. talker_run (t i) True (uint (lo_duration opts)) (envs i) = Some \<lparr>packets_sent = v, packets_expected = v\<rparr> \<and> unat v = unat (?p i) * w)"
  proof (intro allI impI)
    fix i assume i: "i < ?n"
    have p0: "?p i \<noteq> 0" using split(2) [OF i] by auto
    have "unat (?p i) * (w * ?s + 1) < 2 ^ 32" using mult_le_mono1 [OF le [OF i], of "w * ?s + 1"] assms(7) by linarith
    moreover have "unat (?p i) div ?s < 65535" using div_le_mono [OF le [OF i], of ?s] assms(8) by linarith
    ultimately show "\<exists>v. talker_run (t i) True (uint (lo_duration opts)) (envs i) = Some \<lparr>packets_sent = v, packets_expected = v\<rparr> \<and> unat v = unat (?p i) * w"
      by (intro thread_sends [OF t_def nz(1,2) assms(3) p0 assms(5) [OF i] assms(6)])
  qed
  then obtain v where v: "\<And>i. i < ?n \<Longrightarrow> talker_run (t i) True (uint (lo_duration opts)) (envs i) = Some \<lparr>packets_sent = v i, packets_expected = v i\<rparr>"
    "\<And>i. i < ?n \<Longrightarrow> unat (v i) = unat (?p i) * w" by metis
  have sum: "(\<Sum>i < ?n. unat (v i)) = w * unat P"
    using v(2) split(1) by (simp add: sum_distrib_left [symmetric] mult.commute)
  have "w * 1 \<le> w * ?s" using r(1) by (intro mult_le_mono2) (simp add: word_le_nat_alt)
  then have "unat P * w \<le> unat P * (w * ?s + 1)" by (intro mult_le_mono2) linarith
  then have "w * unat P \<le> unat P * (w * ?s + 1)" by (simp only: mult.commute)
  then have lt: "(\<Sum>i < ?n. unat (v i)) < 2 ^ 32" using assms(7) sum by linarith
  let ?r = "\<lambda>i. talker_run (map t [0 ..< ?n] ! i) True (uint (lo_duration opts)) (envs i)"
  have "?r i = Some \<lparr>packets_sent = v i, packets_expected = v i\<rparr>" if "i < ?n" for i using v(1) [OF that] that by simp
  from totals_sum [OF this lt] obtain x where x: "fold (\<lambda>i. add_result (?r i)) [0 ..< ?n] totals_new = \<lparr>tot_sent = x, tot_expected = x, tot_failures = 0\<rparr>"
    "unat x = (\<Sum>i < ?n. unat (v i))" by blast
  have "fold (\<lambda>i. add_result (?r i)) order totals_new = \<lparr>tot_sent = x, tot_expected = x, tot_failures = 0\<rparr>"
    by (rule trans [OF totals_any_order [OF assms(9)] x(1)])
  then show ?thesis unfolding load_main_def start using x(2) sum by simp
qed

lemma all_less_4: "(\<forall>i < (4 :: nat). Q i) \<longleftrightarrow> Q 0 \<and> Q 1 \<and> Q 2 \<and> Q 3"
proof -
  have "i < 4 \<longleftrightarrow> i = 0 \<or> i = 1 \<or> i = 2 \<or> i = 3" for i :: nat by auto
  then show ?thesis by auto
qed

lemma load_main_sends_rate_witness:
  "\<exists>x. load_main (load_options_new\<lparr>lo_source := \<lparr>sin_family = 2, sin_port = 0, sin_addr = 1\<rparr>,
      lo_dest := \<lparr>sin_family = 2, sin_port = 0, sin_addr = 1\<rparr>, lo_slots := 2, lo_duration := 1900, lo_width := 500, lo_threads := 2\<rparr>)
     (\<lambda>_ _ _ _. True) (\<lambda>i. [(\<lambda>c. c, 499), (\<lambda>c. c, 999), (\<lambda>c. c, 1499), (\<lambda>c. c, 1999)]) [1, 0] = Inr x \<and> unat (tot_sent x) = 2000"
proof -
  let ?o = "load_options_new\<lparr>lo_source := \<lparr>sin_family = 2, sin_port = 0, sin_addr = 1\<rparr>,
      lo_dest := \<lparr>sin_family = 2, sin_port = 0, sin_addr = 1\<rparr>, lo_slots := 2, lo_duration := 1900, lo_width := 500, lo_threads := 2\<rparr>"
  let ?es = "[(\<lambda>c. c, 499), (\<lambda>c. c, 999), (\<lambda>c. c, 1499), (\<lambda>c. c, 1999)] :: ((16 word \<Rightarrow> 16 word) \<times> int) list"
  have P: "total_packets (lo_packets ?o) (lo_threads ?o) = 1000" by (simp add: total_packets_def load_options_new_def)
  have sane: "load_sane ?o" by (simp add: load_sane_def load_ranges_def load_options_new_def total_packets_def)
  have w: "window_passes ?o 2 ?es"
  proof -
    have l: "length ?es = 4" by simp
    show ?thesis unfolding window_passes_def l all_less_4 by (simp add: load_options_new_def)
  qed
  have o: "mset [1, 0] = mset [0 ..< unat (lo_threads ?o)]" by (simp add: load_options_new_def upt_rec)
  have s: "lo_size ?o \<noteq> 0" "unat (total_packets (lo_packets ?o) (lo_threads ?o)) * (2 * unat (lo_slots ?o) + 1) < 2 ^ 32"
    "unat (total_packets (lo_packets ?o) (lo_threads ?o)) div unat (lo_slots ?o) < 65535"
    unfolding P by (simp_all add: load_options_new_def)
  from load_main_sends_rate [OF sane s(1) TrueI w _ s(2,3) o] show ?thesis unfolding P by auto
qed

end
