(* ===== verification/PidMapping.thy ===== *)
theory PidMapping
  imports Strings
begin

text \<open>
  The memory map of a process in \<open>tools/lshmem\<close> (\<open>pid_mapping.cpp\<close>): the lines of
  \<open>/proc/<pid>/mappings\<close> are filtered and inserted into a list sorted by physical address, in
  which neighbours with the same attributes are merged.  A \<open>string_view\<close> into the interned
  strings is its text.
\<close>

section \<open>Lines\<close>

record map_line =
  phys_addr :: "64 word"
  phys_len :: "64 word"
  ri_flags :: "32 word"
  ri_prot :: "32 word"
  dev :: "64 word"
  ino :: "64 word"
  object :: string

definition is_same :: "map_line \<Rightarrow> map_line \<Rightarrow> bool" where
  "is_same l1 l2 \<longleftrightarrow> ri_flags l1 = ri_flags l2 \<and> ri_prot l1 = ri_prot l2 \<and>
     dev l1 = dev l2 \<and> ino l1 = ino l2 \<and> object l1 = object l2"

text \<open>\<open>Some\<close> the changed first line when the function returns true.\<close>

definition merge_mapline :: "map_line \<Rightarrow> map_line \<Rightarrow> map_line option" where
  "merge_mapline line merge =
     (if phys_addr line + phys_len line = phys_addr merge \<and> is_same line merge then
        Some (line\<lparr>phys_len := phys_len line + phys_len merge\<rparr>)
      else if phys_addr merge + phys_len merge = phys_addr line \<and> is_same merge line then
        Some (line\<lparr>phys_addr := phys_addr line - phys_len merge, phys_len := phys_len line + phys_len merge\<rparr>)
      else None)"

section \<open>Insertion\<close>

text \<open>The loop over the list: \<open>pre\<close> are the entries before the iterator, so \<open>first\<close> is that it
  is empty, and its last element is \<open>std::prev\<close> of the iterator.\<close>

fun insert_loop :: "map_line \<Rightarrow> map_line list \<Rightarrow> map_line list \<Rightarrow> map_line list" where
  "insert_loop line pre (entry # rest) =
     (if phys_addr line = phys_addr entry then pre @ entry # rest
      else if phys_addr line < phys_addr entry then
        (case merge_mapline entry line of
           Some entry \<Rightarrow>
             if pre \<noteq> [] then (case merge_mapline entry (last pre) of
                 Some entry \<Rightarrow> butlast pre @ entry # rest
               | None \<Rightarrow> pre @ entry # rest)
             else pre @ entry # rest
         | None \<Rightarrow>
             if pre \<noteq> [] then (case merge_mapline (last pre) line of
                 Some prev \<Rightarrow> butlast pre @ prev # entry # rest
               | None \<Rightarrow> pre @ line # entry # rest)
             else pre @ line # entry # rest)
      else insert_loop line (pre @ [entry]) rest)"
| "insert_loop line pre [] =
     (if pre \<noteq> [] then (case merge_mapline (last pre) line of
         Some prev \<Rightarrow> butlast pre @ [prev]
       | None \<Rightarrow> pre @ [line])
      else pre @ [line])"

definition pid_mapping_insert :: "map_line \<Rightarrow> map_line list \<Rightarrow> map_line list" where
  "pid_mapping_insert line m = insert_loop line [] m"

section \<open>The file\<close>

definition columns :: "string list" where
  "columns = [''mi_paddr'', ''mi_pgsize'', ''ri_flags'', ''ri_prot'', ''dev'', ''ino'', ''object_name'']"

text \<open>The inner loop stops at the first column with the name of the field.\<close>

fun match_column :: "string \<Rightarrow> nat \<Rightarrow> string list \<Rightarrow> nat \<Rightarrow> nat \<times> nat list \<Rightarrow> nat \<times> nat list" where
  "match_column field f [] c (found, index) = (found, index)"
| "match_column field f (m # ms) c (found, index) =
     (if field = m then (found + 1, index[c := f]) else match_column field f ms (c + 1) (found, index))"

fun match_fields :: "string list \<Rightarrow> nat \<Rightarrow> string list \<Rightarrow> nat \<times> nat list \<Rightarrow> nat \<times> nat list" where
  "match_fields [] f map_fields st = st"
| "match_fields (x # xs) f map_fields st = match_fields xs (f + 1) map_fields (match_column x f map_fields 0 st)"

definition find_columns :: "string \<Rightarrow> string list \<Rightarrow> nat \<times> nat list" where
  "find_columns headline map_fields =
     (let fields = split_args headline 0 in
      if length fields < length map_fields then (0, [])
      else case match_fields fields 0 map_fields (0, replicate (length map_fields) 0) of
        (found, index) \<Rightarrow> (length fields, if found \<noteq> length map_fields then [] else index))"

text \<open>The value and the flag; the value of an invalid field is not looked at.\<close>

definition get_hex :: "string \<Rightarrow> bool \<Rightarrow> 'a::len word \<times> bool" where
  "get_hex field valid =
     (if \<not> valid then (0, False)
      else if length field < 3 then (0, False)
      else if take 2 field \<noteq> ''0x'' then (0, False)
      else case from_chars_hex (drop 2 field) of
        None \<Rightarrow> (0, False)
      | Some (ptr, ec, value) \<Rightarrow> (value, ec = None \<and> ptr = length (drop 2 field)))"

definition is_mapped :: "64 word \<Rightarrow> bool" where
  "is_mapped ptr \<longleftrightarrow> ptr \<noteq> NOT 0"

text \<open>The constants of the system's headers.\<close>

record mman =
  MAP_SHARED :: "32 word"
  MAP_PRIVATE :: "32 word"
  MAP_ELF :: "32 word"
  MAP_STACK :: "32 word"
  PROT_WRITE :: "32 word"

definition is_shared :: "mman \<Rightarrow> 32 word \<Rightarrow> bool" where
  "is_shared mm flags \<longleftrightarrow> flags AND (MAP_SHARED mm OR MAP_PRIVATE mm OR MAP_ELF mm OR MAP_STACK mm) = MAP_SHARED mm"

definition is_writable :: "mman \<Rightarrow> 32 word \<Rightarrow> bool" where
  "is_writable mm prot \<longleftrightarrow> push_bit 8 prot AND PROT_WRITE mm = PROT_WRITE mm"

definition parse_map_line :: "nat list \<Rightarrow> string list \<Rightarrow> map_line \<times> bool" where
  "parse_map_line col_index fs =
     (let col = (\<lambda>c. fs ! (col_index ! c));
          (paddr, valid) = get_hex (col 0) True;
          (pgsize, valid) = get_hex (col 1) valid;
          (flags, valid) = get_hex (col 2) valid;
          (prot, valid) = get_hex (col 3) valid;
          (d, valid) = get_hex (col 4) valid;
          (i, valid) = get_hex (col 5) valid
      in (\<lparr>phys_addr = paddr, phys_len = pgsize, ri_flags = flags, ri_prot = prot, dev = d, ino = i, object = col 6\<rparr>, valid))"

definition wanted_line :: "mman \<Rightarrow> bool \<Rightarrow> map_line \<Rightarrow> bool" where
  "wanted_line mm read line \<longleftrightarrow> is_mapped (phys_addr line) \<and> is_shared mm (ri_flags line) \<and> (read \<or> is_writable mm (ri_prot line))"

fun load_lines :: "mman \<Rightarrow> bool \<Rightarrow> nat \<Rightarrow> nat list \<Rightarrow> string list \<Rightarrow> map_line list \<Rightarrow> map_line list" where
  "load_lines mm read count col_index [] m = m"
| "load_lines mm read count col_index (line # lines) m =
     (let fs = split_args line count in
      if length fs < count then load_lines mm read count col_index lines m
      else case parse_map_line col_index fs of (map_line, valid) \<Rightarrow>
        load_lines mm read count col_index lines
          (if valid \<and> wanted_line mm read map_line then pid_mapping_insert map_line m else m))"

text \<open>A file that cannot be opened is an error of \<open>open\<close>; otherwise it is the lines that can be
  read, whether the reading ends at the end of the file, and \<open>errno\<close> when it ends.\<close>

type_synonym mapping_file = "int + (string list \<times> bool \<times> int)"

definition load_mapping :: "mman \<Rightarrow> mapping_file \<Rightarrow> bool \<Rightarrow> int + map_line list" where
  "load_mapping mm file read = (case file of Inl err \<Rightarrow> Inl err
     | Inr ([], eof, err) \<Rightarrow> Inl err
     | Inr (headline # lines, eof, err) \<Rightarrow>
         (case find_columns headline columns of (count, col_index) \<Rightarrow>
            if col_index = [] then Inl 22
            else if eof then Inr (load_lines mm read count col_index lines []) else Inl err))"

section \<open>What a map covers\<close>

text \<open>The abstraction: which physical address is covered with which attributes.\<close>

definition st :: "map_line \<Rightarrow> nat" where "st l = unat (phys_addr l)"
definition en :: "map_line \<Rightarrow> nat" where "en l = st l + unat (phys_len l)"
definition attrs :: "map_line \<Rightarrow> 32 word \<times> 32 word \<times> 64 word \<times> 64 word \<times> string" where
  "attrs l = (ri_flags l, ri_prot l, dev l, ino l, object l)"

definition line_ok :: "map_line \<Rightarrow> bool" where
  "line_ok l \<longleftrightarrow> st l < en l \<and> en l < 2 ^ 64"

definition covers :: "map_line list \<Rightarrow> (nat \<times> 32 word \<times> 32 word \<times> 64 word \<times> 64 word \<times> string) set" where
  "covers m = (\<Union>l \<in> set m. {st l..<en l} \<times> {attrs l})"

text \<open>In order, disjoint, and no two neighbours left that could be merged.\<close>

definition before :: "map_line \<Rightarrow> map_line \<Rightarrow> bool" where
  "before a b \<longleftrightarrow> en a < st b \<or> en a = st b \<and> attrs a \<noteq> attrs b"

definition map_ok :: "map_line list \<Rightarrow> bool" where
  "map_ok m \<longleftrightarrow> list_all line_ok m \<and> sorted_wrt before m"

definition apart :: "map_line \<Rightarrow> map_line \<Rightarrow> bool" where
  "apart a b \<longleftrightarrow> en a \<le> st b \<or> en b \<le> st a"

lemma is_same_attrs: "is_same a b \<longleftrightarrow> attrs a = attrs b"
  by (auto simp: is_same_def attrs_def)

lemma line_end: "line_ok a \<Longrightarrow> phys_addr a + phys_len a = phys_addr b \<longleftrightarrow> en a = st b"
  using unat_add_lem [where x = "phys_addr a" and y = "phys_len a"]
  by (auto simp: line_ok_def en_def st_def word_unat_eq_iff)

lemma phys_less: "phys_addr a < phys_addr b \<longleftrightarrow> st a < st b" and phys_eq: "phys_addr a = phys_addr b \<longleftrightarrow> st a = st b"
  by (simp_all add: st_def word_less_nat_alt word_unat_eq_iff)

lemma attrs_update [simp]: "attrs (l\<lparr>phys_addr := x, phys_len := y\<rparr>) = attrs l" "attrs (l\<lparr>phys_len := y\<rparr>) = attrs l" "attrs (l\<lparr>phys_addr := x\<rparr>) = attrs l"
  by (simp_all add: attrs_def)

text \<open>Merging joins two neighbours with the same attributes, and nothing else.\<close>

lemma merge_after:
  assumes "line_ok a" "line_ok b" "en a = st b" "attrs a = attrs b"
  obtains c where "merge_mapline a b = Some c" "st c = st a" "en c = en b" "attrs c = attrs a" "line_ok c"
proof
  let ?c = "a\<lparr>phys_len := phys_len a + phys_len b\<rparr>"
  show "merge_mapline a b = Some ?c" using assms by (simp add: merge_mapline_def line_end is_same_attrs)
  have "unat (phys_len a) + unat (phys_len b) < 2 ^ 64" using assms by (auto simp: line_ok_def en_def st_def)
  then have l: "unat (phys_len a + phys_len b) = unat (phys_len a) + unat (phys_len b)"
    by (subst unat_add_lem [symmetric]) simp
  then show e: "en ?c = en b" using assms(3) by (simp add: en_def st_def)
  show "st ?c = st a" by (simp add: st_def)
  show "attrs ?c = attrs a" by simp
  show "line_ok ?c" using e assms l by (auto simp: line_ok_def st_def en_def)
qed

lemma merge_before:
  assumes "line_ok a" "line_ok b" "en b = st a" "attrs a = attrs b"
  obtains c where "merge_mapline a b = Some c" "st c = st b" "en c = en a" "attrs c = attrs a" "line_ok c"
proof
  let ?c = "a\<lparr>phys_addr := phys_addr a - phys_len b, phys_len := phys_len a + phys_len b\<rparr>"
  have n: "en a \<noteq> st b" using assms by (auto simp: line_ok_def)
  show "merge_mapline a b = Some ?c" using assms n by (simp add: merge_mapline_def line_end is_same_attrs)
  have "unat (phys_len a) + unat (phys_len b) < 2 ^ 64" using assms by (auto simp: line_ok_def en_def st_def)
  then have l: "unat (phys_len a + phys_len b) = unat (phys_len a) + unat (phys_len b)"
    by (subst unat_add_lem [symmetric]) simp
  have "phys_addr a = phys_addr b + phys_len b" using line_end [of b a] assms by simp
  then have s: "st ?c = st b" by (simp add: st_def)
  then show "st ?c = st b" .
  show e: "en ?c = en a" using s l assms(3) by (simp add: en_def)
  show "attrs ?c = attrs a" by simp
  show "line_ok ?c" using e s assms by (auto simp: line_ok_def)
qed

lemma merge_none:
  "line_ok a \<Longrightarrow> line_ok b \<Longrightarrow> merge_mapline a b = None \<longleftrightarrow> \<not> ((en a = st b \<or> en b = st a) \<and> attrs a = attrs b)"
  by (auto simp: merge_mapline_def line_end is_same_attrs)

lemma covers_simps [simp]:
  "covers [] = {}" "covers (l # m) = {st l..<en l} \<times> {attrs l} \<union> covers m" "covers (m @ m') = covers m \<union> covers m'"
  by (auto simp: covers_def)

lemma before_left: "en c = en a \<Longrightarrow> attrs c = attrs a \<Longrightarrow> before c x = before a x"
  and before_right: "st c = st a \<Longrightarrow> attrs c = attrs a \<Longrightarrow> before x c = before x a"
  by (simp_all add: before_def)

lemma before_trans: "before a b \<Longrightarrow> before b c \<Longrightarrow> line_ok b \<Longrightarrow> before a c"
  by (auto simp: before_def line_ok_def)

lemma before_en: "before a b \<Longrightarrow> en a \<le> st b"
  by (auto simp: before_def)

lemma before_far: "before a b \<Longrightarrow> line_ok b \<Longrightarrow> en b \<le> st c \<Longrightarrow> before a c"
  by (auto simp: before_def line_ok_def)

lemma range_join: "st c = st a \<Longrightarrow> en c = en b \<Longrightarrow> en a = st b \<Longrightarrow> line_ok a \<Longrightarrow> line_ok b \<Longrightarrow>
    {st c..<en c} = {st a..<en a} \<union> {st b..<en b}"
  by (auto simp: line_ok_def)

lemma map_ok_append [simp]: "map_ok (m @ m') \<longleftrightarrow> map_ok m \<and> map_ok m' \<and> (\<forall>a \<in> set m. \<forall>b \<in> set m'. before a b)"
  by (auto simp: map_ok_def sorted_wrt_append)

lemma map_ok_simps [simp]: "map_ok []" "map_ok (l # m) \<longleftrightarrow> line_ok l \<and> map_ok m \<and> (\<forall>b \<in> set m. before l b)"
  by (auto simp: map_ok_def)

text \<open>What an insertion between \<open>pre\<close> and \<open>rest\<close> gives.\<close>

definition inserted :: "map_line \<Rightarrow> map_line list \<Rightarrow> map_line list \<Rightarrow> bool" where
  "inserted l m m' \<longleftrightarrow> map_ok m' \<and> covers m' = covers m \<union> covers [l]"

lemma inserted_at_end:
  assumes "map_ok pre" "line_ok l" "\<forall>e \<in> set pre. en e \<le> st l"
  shows "inserted l pre (insert_loop l pre [])"
proof (cases pre rule: rev_cases)
  case Nil
  then show ?thesis using assms by (simp add: inserted_def)
next
  case (snoc p a)
  have a: "line_ok a" "en a \<le> st l" "\<forall>x \<in> set p. before x a" using assms snoc by auto
  have n: "en l \<noteq> st a" using a assms(2) by (auto simp: line_ok_def)
  show ?thesis
  proof (cases "merge_mapline a l")
    case None
    then have "before a l" using a n assms(2) by (auto simp: merge_none before_def)
    then show ?thesis using None snoc assms a by (auto simp: inserted_def intro: before_trans)
  next
    case (Some c)
    then have e: "en a = st l" "attrs a = attrs l" using merge_none [OF a(1) assms(2)] n by auto
    obtain c' where "merge_mapline a l = Some c'" and c: "st c' = st a" "en c' = en l" "attrs c' = attrs a" "line_ok c'"
      using merge_after [OF a(1) assms(2) e] by metis
    with Some have c': "c' = c" by simp
    have "\<forall>x \<in> set p. before x c" using a(3) before_right [OF c(1,3)] by (simp add: c')
    then show ?thesis using Some snoc assms(1) a e c range_join [OF c(1,2) e(1) a(1) assms(2)]
      by (auto simp: inserted_def c')
  qed
qed

lemma inserted_between:
  assumes ok: "map_ok (pre @ e # rest)" and l: "line_ok l" and pre: "\<forall>x \<in> set pre. en x \<le> st l" and le: "en l \<le> st e"
  shows "inserted l (pre @ e # rest) (insert_loop l pre (e # rest))"
proof -
  have e: "line_ok e" "\<forall>x \<in> set rest. before e x" "\<forall>x \<in> set pre. before x e" using ok by auto
  have lt: "phys_addr l \<noteq> phys_addr e" "phys_addr l < phys_addr e"
    using l le by (auto simp: phys_less phys_eq line_ok_def)
  have n: "en e \<noteq> st l" using l e(1) le by (auto simp: line_ok_def)
  have lr: "before l x" if "x \<in> set rest" for x
    using that e le by (auto simp: before_def line_ok_def)
  show ?thesis
  proof (cases "merge_mapline e l")
    case None
    then have le': "before l e" using merge_none [OF e(1) l] n le by (auto simp: before_def)
    show ?thesis
    proof (cases pre rule: rev_cases)
      case Nil
      then show ?thesis using None lt ok l le' lr by (auto simp: inserted_def)
    next
      case (snoc p a)
      have i: "inserted l pre (insert_loop l pre [])" by (rule inserted_at_end) (use ok l pre in auto)
      have s: "insert_loop l pre (e # rest) = insert_loop l pre [] @ e # rest"
        using None lt snoc by (auto split: option.splits)
      have "\<forall>x \<in> set (insert_loop l pre []). \<forall>y \<in> set (e # rest). before x y"
      proof (cases "merge_mapline a l")
        case None
        then show ?thesis using snoc ok le' lr by auto
      next
        case (Some c)
        have a: "line_ok a" "en a \<le> st l" using ok pre snoc by auto
        have "en l \<noteq> st a" using a l by (auto simp: line_ok_def)
        then have ea: "en a = st l" "attrs a = attrs l" using Some merge_none [OF a(1) l] by auto
        obtain c' where "merge_mapline a l = Some c'" and c: "en c' = en l" "attrs c' = attrs a"
          using merge_after [OF a(1) l ea] by metis
        with Some have "c' = c" by simp
        with c ea have "en c = en l" "attrs c = attrs l" by simp_all
        then have "before c y = before l y" for y by (simp add: before_def)
        then show ?thesis using Some snoc ok le' lr by auto
      qed
      then show ?thesis using i ok s by (auto simp: inserted_def)
    qed
  next
    case (Some c)
    then have ee: "en l = st e" "attrs e = attrs l" using merge_none [OF e(1) l] n by auto
    obtain c' where "merge_mapline e l = Some c'" and c: "st c' = st l" "en c' = en e" "attrs c' = attrs e" "line_ok c'"
      using merge_before [OF e(1) l ee] by metis
    with Some have c': "c' = c" by simp
    have cr: "{st c..<en c} = {st l..<en l} \<union> {st e..<en e}"
      using range_join [of c l e] c ee l e(1) by (simp add: c')
    have crest: "\<forall>x \<in> set rest. before c x" using e c before_left [of c e] by (simp add: c')
    show ?thesis
    proof (cases pre rule: rev_cases)
      case Nil
      then show ?thesis using Some lt ok c cr crest ee by (auto simp: inserted_def c')
    next
      case (snoc p a)
      have a: "line_ok a" "en a \<le> st l" "\<forall>x \<in> set p. before x a" "\<forall>x \<in> set p. line_ok x" using ok pre snoc by (auto simp: map_ok_def list_all_iff sorted_wrt_append)
      have na: "en c \<noteq> st a" using a c l by (auto simp: c' line_ok_def)
      show ?thesis
      proof (cases "merge_mapline c a")
        case None
        then have ac: "before a c" using merge_none [of c a] c a na by (auto simp: c' before_def)
        have "before x c" if "x \<in> set p" for x using that a ac before_trans by blast
        then show ?thesis using Some None snoc lt ok c cr crest ee ac by (auto simp: inserted_def c')
      next
        case (Some d)
        then have ca: "en a = st c" "attrs c = attrs a" using merge_none [of c a] c(4) a(1) na by (auto simp: c')
        obtain d' where "merge_mapline c a = Some d'" and d: "st d' = st a" "en d' = en c" "attrs d' = attrs c" "line_ok d'"
          using merge_before [OF c(4) [unfolded c'] a(1) ca] by metis
        with Some have d': "d' = d" by simp
        have dr: "{st d..<en d} = {st a..<en a} \<union> {st c..<en c}"
          using range_join [of d a c] d ca a(1) c(4) by (simp add: d' c')
        have "\<forall>x \<in> set p. before x d" using a ca d before_right [of d a] by (simp add: d')
        moreover have "\<forall>x \<in> set rest. before d x" using crest d before_left [of d c] by (simp add: d')
        ultimately show ?thesis using \<open>merge_mapline e l = Some c\<close> Some snoc lt ok c cr dr d ee ca
          by (auto simp: inserted_def d' c')
      qed
    qed
  qed
qed

lemma insert_loop_ok:
  assumes "map_ok (pre @ m)" "line_ok l" "\<forall>e \<in> set m. apart e l" "\<forall>e \<in> set pre. en e \<le> st l"
  shows "inserted l (pre @ m) (insert_loop l pre m)"
  using assms
proof (induction m arbitrary: pre)
  case Nil
  then show ?case using inserted_at_end [of pre l] by simp
next
  case (Cons e m)
  have e: "line_ok e" using Cons.prems by simp
  consider "en l \<le> st e" | "en e \<le> st l" using Cons.prems by (auto simp: apart_def)
  then show ?case
  proof cases
    case 1
    then show ?thesis using inserted_between [of pre e m l] Cons.prems by auto
  next
    case 2
    then have "\<not> phys_addr l = phys_addr e" "\<not> phys_addr l < phys_addr e"
      using e Cons.prems(2) by (auto simp: phys_less phys_eq line_ok_def)
    then have "insert_loop l pre (e # m) = insert_loop l (pre @ [e]) m" by simp
    moreover have "inserted l ((pre @ [e]) @ m) (insert_loop l (pre @ [e]) m)"
      by (rule Cons.IH) (use Cons.prems 2 in auto)
    ultimately show ?thesis by simp
  qed
qed

lemma pid_mapping_insert_refines_lemma:
  assumes "map_ok m" "line_ok l" "\<forall>e \<in> set m. apart e l"
  shows "map_ok (pid_mapping_insert l m) \<and> covers (pid_mapping_insert l m) = covers m \<union> {st l..<en l} \<times> {attrs l}"
  using insert_loop_ok [of "[]" m l] assms by (simp add: pid_mapping_insert_def inserted_def)

text \<open>C23: Inserting a line that overlaps no entry keeps the map sorted, disjoint and merged as far as possible, and
  adds exactly the addresses of the line with its attributes.\<close>

theorem pid_mapping_insert_refines:
  assumes "map_ok m" "line_ok l" "\<forall>e \<in> set m. apart e l"
  shows "map_ok (pid_mapping_insert l m) \<and> covers (pid_mapping_insert l m) = covers m \<union> {st l..<en l} \<times> {attrs l}"
  using assms by (rule pid_mapping_insert_refines_lemma)

definition page :: "64 word \<Rightarrow> 64 word \<Rightarrow> map_line" where
  "page a n = \<lparr>phys_addr = a, phys_len = n, ri_flags = 1, ri_prot = 0, dev = 1, ino = 1, object = ''/dev/shmem/x''\<rparr>"

lemmas page_simps = page_def st_def en_def line_ok_def attrs_def apart_def before_def is_same_def merge_mapline_def

lemma pid_mapping_insert_refines_witness:
  "covers (pid_mapping_insert (page 0x2000 0x1000) [page 0x1000 0x1000, page 0x3000 0x1000]) =
     {0x1000..<0x4000} \<times> {attrs (page 0 0)}"
proof -
  have "map_ok [page 0x1000 0x1000, page 0x3000 0x1000]" by (simp add: page_simps)
  moreover have "\<forall>e \<in> set [page 0x1000 0x1000, page 0x3000 0x1000]. apart e (page 0x2000 0x1000)" by (simp add: page_simps)
  moreover have "line_ok (page 0x2000 0x1000)" by (simp add: page_simps)
  moreover have "{0x1000..<0x2000::nat} \<union> {0x3000..<0x4000} \<union> {0x2000..<0x3000} = {0x1000..<0x4000}" by auto
  ultimately show ?thesis
    using pid_mapping_insert_refines [of "[page 0x1000 0x1000, page 0x3000 0x1000]" "page 0x2000 0x1000"]
    by (auto simp: page_simps)
qed

text \<open>A page that was merged into an entry and is listed again is not recognised: the map then covers its addresses twice.\<close>

theorem merged_page_inserted_again:
  assumes "line_ok e" "line_ok l" "st e < st l" "en l \<le> en e"
  shows "pid_mapping_insert l [e] = [e, l] \<and> \<not> map_ok (pid_mapping_insert l [e])"
proof -
  have n: "en e \<noteq> st l" "en l \<noteq> st e" using assms by (auto simp: line_ok_def)
  then have "merge_mapline e l = None" using merge_none [OF assms(1,2)] by simp
  then have i: "pid_mapping_insert l [e] = [e, l]" using assms(3)
    by (simp add: pid_mapping_insert_def phys_less phys_eq)
  have "\<not> before e l" using assms n by (auto simp: before_def line_ok_def)
  with i show ?thesis by simp
qed

lemma merged_page_inserted_again_witness:
  "\<not> map_ok (fold pid_mapping_insert [page 0x1000 0x1000, page 0x2000 0x1000, page 0x2000 0x1000] [])"
  using merged_page_inserted_again [of "page 0x1000 0x2000" "page 0x2000 0x1000"]
  by (simp add: pid_mapping_insert_def page_simps)

section \<open>Loading\<close>

text \<open>The lines of the file that are inserted, in order.\<close>

fun accepted :: "mman \<Rightarrow> bool \<Rightarrow> nat \<Rightarrow> nat list \<Rightarrow> string list \<Rightarrow> map_line list" where
  "accepted mm read count col_index [] = []"
| "accepted mm read count col_index (line # lines) =
     (case parse_map_line col_index (split_args line count) of (l, valid) \<Rightarrow>
        (if length (split_args line count) \<ge> count \<and> valid \<and> wanted_line mm read l then [l] else [])
          @ accepted mm read count col_index lines)"

lemma load_lines_fold:
  "load_lines mm read count col_index lines m = fold pid_mapping_insert (accepted mm read count col_index lines) m"
  by (induction lines arbitrary: m) (auto simp: Let_def split: prod.splits)

definition separate :: "map_line list \<Rightarrow> bool" where
  "separate ls \<longleftrightarrow> list_all line_ok ls \<and> sorted_wrt apart ls"

lemma apart_covers: "line_ok l \<Longrightarrow> line_ok e \<Longrightarrow> apart e l \<longleftrightarrow> {st e..<en e} \<inter> {st l..<en l} = {}"
  by (auto simp: apart_def line_ok_def disjoint_iff)

lemma fold_insert_ok:
  assumes "separate ls" "map_ok m" "\<forall>l \<in> set ls. \<forall>e \<in> set m. apart e l"
  shows "map_ok (fold pid_mapping_insert ls m) \<and> covers (fold pid_mapping_insert ls m) = covers m \<union> covers ls"
  using assms
proof (induction ls arbitrary: m)
  case (Cons l ls)
  let ?m = "pid_mapping_insert l m"
  have l: "line_ok l" "\<forall>e \<in> set m. apart e l" using Cons.prems by (auto simp: separate_def)
  from pid_mapping_insert_refines_lemma [OF Cons.prems(2) l]
  have m: "map_ok ?m" "covers ?m = covers m \<union> {st l..<en l} \<times> {attrs l}" by auto
  have "apart e x" if x: "x \<in> set ls" and e: "e \<in> set ?m" for x e
  proof -
    have xo: "line_ok x" and eo: "line_ok e" and lx: "apart l x"
      using Cons.prems(1) m(1) x e by (auto simp: separate_def map_ok_def list_all_iff)
    have "{st e..<en e} \<times> {attrs e} \<subseteq> covers ?m" using e by (auto simp: covers_def)
    then have sub: "{st e..<en e} \<subseteq> (\<Union>a \<in> set m. {st a..<en a}) \<union> {st l..<en l}"
      using m(2) by (auto simp: covers_def)
    have "{st a..<en a} \<inter> {st x..<en x} = {}" if "a = l \<or> a \<in> set m" for a
      using that Cons.prems x lx xo l(1) apart_covers [of x a] by (auto simp: map_ok_def list_all_iff)
    with sub have "{st e..<en e} \<inter> {st x..<en x} = {}" by blast
    then show ?thesis using apart_covers [OF xo eo] by simp
  qed
  then have "map_ok (fold pid_mapping_insert ls ?m) \<and> covers (fold pid_mapping_insert ls ?m) = covers ?m \<union> covers ls"
    using Cons.prems m by (intro Cons.IH) (auto simp: separate_def)
  then show ?case using m by auto
qed simp

text \<open>A mapping file read to its end whose accepted lines do not overlap gives a sorted, disjoint and merged map that
  covers exactly their addresses with their attributes; a file that cannot be read, or whose first line does not
  name the columns, is an error.\<close>

theorem load_mapping_covers:
  assumes "find_columns headline columns = (count, col_index)" "separate (accepted mm read count col_index lines)"
  shows "case load_mapping mm (Inr (headline # lines, eof, err)) read of
      Inl e \<Rightarrow> e = (if col_index = [] then 22 else err) \<and> (col_index = [] \<or> \<not> eof)
    | Inr m \<Rightarrow> eof \<and> map_ok m \<and> covers m = covers (accepted mm read count col_index lines)"
  using fold_insert_ok [OF assms(2), of "[]"] assms(1) by (simp add: load_mapping_def load_lines_fold)

text \<open>The columns: when no field of the first line occurs twice, an index says where each column stands.\<close>

lemma match_column_found:
  "k < length ms \<Longrightarrow> x = ms ! k \<Longrightarrow> distinct ms \<Longrightarrow> match_column x f ms c (found, index) = (found + 1, index[c + k := f])"
  by (induction ms arbitrary: k c) (auto simp: nth_Cons split: nat.splits)

lemma match_column_missing: "x \<notin> set ms \<Longrightarrow> match_column x f ms c (found, index) = (found, index)"
  by (induction ms arbitrary: c) auto

lemma match_fields_spec:
  assumes "distinct xs" "distinct ms" "length index = length ms" "match_fields xs f ms (found, index) = (found', index')"
  shows "found' = found + card (set xs \<inter> set ms) \<and> length index' = length ms \<and>
    (\<forall>k < length ms. (\<forall>i < length xs. xs ! i = ms ! k \<longrightarrow> index' ! k = f + i) \<and> (ms ! k \<notin> set xs \<longrightarrow> index' ! k = index ! k))"
  using assms
proof (induction xs arbitrary: f found index)
  case (Cons x xs)
  obtain fo ix where m: "match_column x f ms 0 (found, index) = (fo, ix)" by (cases "match_column x f ms 0 (found, index)")
  have ix: "length ix = length ms \<and> fo = found + (if x \<in> set ms then 1 else 0) \<and>
      (\<forall>k < length ms. ix ! k = (if ms ! k = x then f else index ! k))"
  proof (cases "x \<in> set ms")
    case True
    then obtain k where k: "k < length ms" "x = ms ! k" by (metis in_set_conv_nth)
    then show ?thesis using m match_column_found [OF k Cons.prems(2), of f 0 found index] Cons.prems(2,3)
      by (auto simp: nth_list_update nth_eq_iff_index_eq)
  next
    case False
    then show ?thesis using m match_column_missing [OF False, of f 0 found index] Cons.prems(3) by auto
  qed
  from Cons.IH [of ix "f + 1" fo] Cons.prems m ix
  have ih: "found' = fo + card (set xs \<inter> set ms)" "length index' = length ms"
    "\<forall>k < length ms. (\<forall>i < length xs. xs ! i = ms ! k \<longrightarrow> index' ! k = f + 1 + i) \<and> (ms ! k \<notin> set xs \<longrightarrow> index' ! k = ix ! k)"
    by auto
  have "card (set (x # xs) \<inter> set ms) = card (set xs \<inter> set ms) + (if x \<in> set ms then 1 else 0)"
    using Cons.prems(1) by (simp add: Int_insert_left)
  moreover have "(\<forall>i < length (x # xs). (x # xs) ! i = ms ! k \<longrightarrow> index' ! k = f + i) \<and> (ms ! k \<notin> set (x # xs) \<longrightarrow> index' ! k = index ! k)"
    if k: "k < length ms" for k
    using ih(3) ix k Cons.prems(1) by (auto simp: less_Suc_eq_0_disj)
  ultimately show ?case using ih ix by auto
qed simp

text \<open>The index that \<open>find_columns\<close> gives for a first line without repeated fields is the position of every
  column, and there is one exactly when every column is named.\<close>

theorem find_columns_spec:
  assumes "find_columns headline ms = (count, index)" "distinct ms" "ms \<noteq> []" "distinct (split_args headline 0)"
  shows "(index \<noteq> [] \<longleftrightarrow> set ms \<subseteq> set (split_args headline 0)) \<and>
    (index \<noteq> [] \<longrightarrow> count = length (split_args headline 0) \<and> length index = length ms \<and>
      (\<forall>k < length ms. index ! k < count \<and> split_args headline 0 ! (index ! k) = ms ! k))"
proof -
  let ?xs = "split_args headline 0"
  obtain fo ix where m: "match_fields ?xs 0 ms (0, replicate (length ms) 0) = (fo, ix)"
    by (cases "match_fields ?xs 0 ms (0, replicate (length ms) 0)")
  have sp: "fo = card (set ?xs \<inter> set ms)" "length ix = length ms"
    "\<forall>k < length ms. \<forall>i < length ?xs. ?xs ! i = ms ! k \<longrightarrow> ix ! k = i"
    using match_fields_spec [OF assms(4,2) _ m] by auto
  have all: "fo = length ms \<longleftrightarrow> set ms \<subseteq> set ?xs"
    using sp(1) assms(2) card_subset_eq [of "set ms" "set ?xs \<inter> set ms"] distinct_card [of ms] by (auto simp: Int_absorb1)
  have short: "length ?xs < length ms \<Longrightarrow> \<not> set ms \<subseteq> set ?xs"
    using assms(2,4) card_mono [of "set ?xs" "set ms"] by (auto simp: distinct_card)
  have "ix ! k < length ?xs \<and> ?xs ! (ix ! k) = ms ! k" if "set ms \<subseteq> set ?xs" "k < length ms" for k
  proof -
    obtain i where "i < length ?xs" "?xs ! i = ms ! k" using \<open>set ms \<subseteq> set ?xs\<close> \<open>k < length ms\<close> by (metis in_set_conv_nth nth_mem subsetD)
    then show ?thesis using sp(3) that(2) by auto
  qed
  then show ?thesis using assms(1,3) m all short sp(2) by (auto simp: find_columns_def Let_def split: if_splits)
qed

lemma find_columns_spec_witness:
  "split_args ''b,x,a'' 0 ! (snd (find_columns ''b,x,a'' [''a'', ''b'']) ! 0) = ''a''"
proof -
  have f: "find_columns ''b,x,a'' [''a'', ''b''] = (3, [2, 0])" and d: "distinct (split_args ''b,x,a'' 0)" by code_simp+
  from find_columns_spec [OF f _ _ d] have "split_args ''b,x,a'' 0 ! ([2, 0] ! 0) = [''a'', ''b''] ! 0" by auto
  then show ?thesis by (simp add: f)
qed

definition qnx_mman :: mman where
  "qnx_mman = \<lparr>MAP_SHARED = 1, MAP_PRIVATE = 2, MAP_ELF = 4, MAP_STACK = 0x1000, PROT_WRITE = 0x200\<rparr>"

lemma load_mapping_covers_witness:
  "\<exists>m. load_mapping qnx_mman (Inr ([''mi_paddr,mi_pgsize,ri_flags,ri_prot,dev,ino,object_name'',
      ''0x3000,0x1000,0x1,0x0,0x1,0x1,/x'', ''0x1000,0x2000,0x1,0x0,0x1,0x1,/x'', ''0x9000,0x1000,0x2,0x0,0x1,0x1,/y''], True, 0)) True = Inr m \<and>
    map_ok m \<and> covers m = {0x1000..<0x4000} \<times> {(1, 0, 1, 1, ''/x'')}"
proof -
  let ?ls = "[''0x3000,0x1000,0x1,0x0,0x1,0x1,/x'', ''0x1000,0x2000,0x1,0x0,0x1,0x1,/x'', ''0x9000,0x1000,0x2,0x0,0x1,0x1,/y'']"
  let ?hd = "''mi_paddr,mi_pgsize,ri_flags,ri_prot,dev,ino,object_name''"
  have f: "find_columns ?hd columns = (7, [0, 1, 2, 3, 4, 5, 6])" by code_simp
  have a: "accepted qnx_mman True 7 [0, 1, 2, 3, 4, 5, 6] ?ls =
      [\<lparr>phys_addr = 0x3000, phys_len = 0x1000, ri_flags = 1, ri_prot = 0, dev = 1, ino = 1, object = ''/x''\<rparr>,
       \<lparr>phys_addr = 0x1000, phys_len = 0x2000, ri_flags = 1, ri_prot = 0, dev = 1, ino = 1, object = ''/x''\<rparr>]"
    by code_simp
  have s: "separate (accepted qnx_mman True 7 [0, 1, 2, 3, 4, 5, 6] ?ls)"
    unfolding a by (simp add: separate_def page_simps)
  have u: "{0x1000..<0x3000::nat} \<union> {0x3000..<0x4000} = {0x1000..<0x4000}" by auto
  define doc :: mapping_file where "doc = Inr (?hd # ?ls, True, 0)"
  note t = load_mapping_covers [OF f s, where eof = True and err = 0, folded doc_def]
  from t obtain m where m: "load_mapping qnx_mman doc True = Inr m" by (cases "load_mapping qnx_mman doc True") simp_all
  with t have c: "map_ok m" "covers m = covers (accepted qnx_mman True 7 [0, 1, 2, 3, 4, 5, 6] ?ls)" by simp_all
  have "covers m = {0x1000..<0x4000} \<times> {(1, 0, 1, 1, ''/x'')}"
    unfolding c(2) a using u by (simp add: page_simps Sigma_Un_distrib1 [symmetric] Un_commute)
  with m c(1) show ?thesis unfolding doc_def by blast
qed

end
