(* ===== verification/AsInfo.thy ===== *)
theory AsInfo
  imports Prelude "HOL-Library.Multiset"
begin

text \<open>
  The typed memory of the system page in \<open>libosqnx\<close> (\<open>asinfo.cpp\<close>): the leaf entries
  sorted by address, and the binary search for the entry of an address.  The search indexes the
  vector with unchecked 64-bit indices; an index behind the end is the result \<open>Out_of_bounds\<close>,
  and a search that does not end is \<open>None\<close>.
\<close>

record asinfo_entry =
  as_start :: "64 word"
  as_end :: "64 word"
  as_name :: string

definition as_size :: "asinfo_entry \<Rightarrow> 64 word" where
  "as_size e = (if as_end e < as_start e then 0 else as_end e - as_start e + 1)"

definition in_range :: "64 word \<Rightarrow> asinfo_entry \<Rightarrow> bool" where
  "in_range offset e \<longleftrightarrow> as_start e \<le> as_end e \<and> offset \<ge> as_start e \<and> offset \<le> as_end e"

section \<open>Reading the system page\<close>

text \<open>The array of the system page, its names looked up.  The kids attribute is a system constant.\<close>

record sys_asinfo =
  sys_start :: "64 word"
  sys_end :: "64 word"
  sys_attr :: "16 word"
  sys_name :: string

text \<open>\<open>std::upper_bound\<close> with the comparison of the source: where \<open>ins\<close> goes.\<close>

definition upper_bound :: "asinfo_entry \<Rightarrow> asinfo_entry list \<Rightarrow> nat" where
  "upper_bound ins m = length (takeWhile (\<lambda>map_entry. \<not> as_start ins < as_start map_entry) m)"

definition insert_at :: "nat \<Rightarrow> 'a \<Rightarrow> 'a list \<Rightarrow> 'a list" where
  "insert_at i x xs = take i xs @ x # drop i xs"

fun asinfo_loop :: "16 word \<Rightarrow> sys_asinfo list \<Rightarrow> asinfo_entry list \<Rightarrow> asinfo_entry list" where
  "asinfo_loop kids [] m = m"
| "asinfo_loop kids (first # rest) m =
     asinfo_loop kids rest
       (if sys_attr first AND kids = 0 then
          let entry = \<lparr>as_start = sys_start first, as_end = sys_end first, as_name = sys_name first\<rparr>
          in insert_at (upper_bound entry m) entry m
        else m)"

text \<open>The map is kept after the first call.\<close>

definition get_asinfo :: "16 word \<Rightarrow> sys_asinfo list \<Rightarrow> asinfo_entry list option \<Rightarrow> asinfo_entry list \<times> asinfo_entry list option" where
  "get_asinfo kids page cache = (case cache of Some m \<Rightarrow> (m, cache)
     | None \<Rightarrow> let m = asinfo_loop kids page [] in (m, Some m))"

section \<open>The search\<close>

datatype tymem = Found string | Missing | Out_of_bounds

definition elem :: "asinfo_entry list \<Rightarrow> 64 word \<Rightarrow> asinfo_entry option" where
  "elem asinfo i = (if unat i < length asinfo then Some (asinfo ! unat i) else None)"

partial_function (option) tymem_loop :: "asinfo_entry list \<Rightarrow> 64 word \<Rightarrow> 64 word \<Rightarrow> 64 word \<Rightarrow> tymem option" where
  "tymem_loop asinfo start lower upper =
     (let mid = (lower + upper) div 2 in
      case elem asinfo mid of None \<Rightarrow> Some Out_of_bounds
      | Some m \<Rightarrow>
          if in_range start m then Some (Found (as_name m))
          else case elem asinfo lower of None \<Rightarrow> Some Out_of_bounds
          | Some l \<Rightarrow>
              if start \<ge> as_start l \<and> start \<le> as_start m + as_size m then tymem_loop asinfo start lower (mid - 1)
              else if start > as_start m then
                (case elem asinfo upper of None \<Rightarrow> Some Out_of_bounds
                 | Some u \<Rightarrow>
                     if start \<le> as_start u + as_size u then tymem_loop asinfo start (mid + 1) upper
                     else Some Missing)
              else Some Missing)"

definition get_tymem_name :: "asinfo_entry list \<Rightarrow> 64 word \<Rightarrow> tymem option" where
  "get_tymem_name asinfo start =
     (if length asinfo = 0 then Some Missing else tymem_loop asinfo start 0 (of_nat (length asinfo) - 1))"

definition get_sysram :: "asinfo_entry list \<Rightarrow> 64 word" where
  "get_sysram asinfo =
     (if length asinfo = 0 then 0
      else foldl (\<lambda>memory entry. if as_name entry = ''sysram'' then memory + as_size entry else memory) 0 asinfo)"

section \<open>The entries are sorted\<close>

definition by_start :: "asinfo_entry list \<Rightarrow> bool" where
  "by_start m \<longleftrightarrow> sorted_wrt (\<lambda>a b. as_start a \<le> as_start b) m"

definition leaf_entries :: "16 word \<Rightarrow> sys_asinfo list \<Rightarrow> asinfo_entry list" where
  "leaf_entries kids page = map (\<lambda>s. \<lparr>as_start = sys_start s, as_end = sys_end s, as_name = sys_name s\<rparr>)
     (filter (\<lambda>s. sys_attr s AND kids = 0) page)"

lemma insert_sorted:
  assumes "by_start m"
  shows "by_start (insert_at (upper_bound e m) e m) \<and> mset (insert_at (upper_bound e m) e m) = add_mset e (mset m)"
proof -
  let ?P = "\<lambda>x. \<not> as_start e < as_start x"
  have m: "insert_at (upper_bound e m) e m = takeWhile ?P m @ e # dropWhile ?P m"
    by (simp add: insert_at_def upper_bound_def takeWhile_eq_take [symmetric] dropWhile_eq_drop [symmetric])
  have s: "sorted_wrt (\<lambda>a b. as_start a \<le> as_start b) (takeWhile ?P m @ dropWhile ?P m)"
    using assms by (simp add: by_start_def)
  have l: "\<forall>x \<in> set (takeWhile ?P m). as_start x \<le> as_start e" by (auto dest: set_takeWhileD)
  have "\<forall>x \<in> set (dropWhile ?P m). as_start e \<le> as_start x"
  proof (cases "dropWhile ?P m")
    case (Cons y ys)
    then have "as_start e < as_start y" using hd_dropWhile [of ?P m] by simp
    then show ?thesis using s Cons by (auto simp: sorted_wrt_append intro: order.strict_implies_order order.trans)
  qed (simp only: list.set Ball_def empty_iff simp_thms)
  then have "by_start (takeWhile ?P m @ e # dropWhile ?P m)"
    using s [unfolded sorted_wrt_append] l by (auto simp: by_start_def sorted_wrt_append)
  moreover have "mset (takeWhile ?P m @ e # dropWhile ?P m) = add_mset e (mset (takeWhile ?P m @ dropWhile ?P m))"
    by (simp only: mset_append mset.simps) simp
  ultimately show ?thesis unfolding m by simp
qed

lemma asinfo_loop_sorted:
  "by_start m \<Longrightarrow> by_start (asinfo_loop kids page m) \<and> mset (asinfo_loop kids page m) = mset m + mset (leaf_entries kids page)"
proof (induction page arbitrary: m)
  case (Cons s page)
  then show ?case
    using insert_sorted [OF Cons.prems, of "\<lparr>as_start = sys_start s, as_end = sys_end s, as_name = sys_name s\<rparr>"]
    by (simp add: leaf_entries_def Let_def)
qed (simp add: leaf_entries_def)

text \<open>The first call gives the leaf entries of the system page sorted by their start, none lost and none added, and
  every later call gives the same map.\<close>

theorem get_asinfo_sorted:
  "case get_asinfo kids page None of (m, cached) \<Rightarrow> by_start m \<and> mset m = mset (leaf_entries kids page) \<and>
     get_asinfo kids page' cached = (m, cached)"
  using asinfo_loop_sorted [of "[]" kids page] by (simp add: get_asinfo_def by_start_def Let_def)

section \<open>What the search finds\<close>

definition regions :: "asinfo_entry list \<Rightarrow> bool" where
  "regions m \<longleftrightarrow> length m < 2 ^ 63 \<and> (\<forall>e \<in> set m. as_start e \<le> as_end e \<and> unat (as_end e) + 1 < 2 ^ 64) \<and>
     sorted_wrt (\<lambda>a b. as_end a < as_start b) m"

text \<open>No entry ends directly before the address.\<close>

definition not_behind :: "asinfo_entry list \<Rightarrow> 64 word \<Rightarrow> bool" where
  "not_behind m start \<longleftrightarrow> (\<forall>e \<in> set m. start \<noteq> as_end e + 1)"

lemma behind_entry:
  assumes "as_start e \<le> as_end e" "unat (as_end e) + 1 < 2 ^ 64"
  shows "start \<le> as_start e + as_size e \<longleftrightarrow> start \<le> as_end e \<or> start = as_end e + 1"
proof -
  have "as_start e + as_size e = as_end e + 1" using assms(1) by (simp add: as_size_def not_less [symmetric])
  moreover have "unat (as_end e + 1) = unat (as_end e) + 1" using assms(2) by (simp add: unat_plus_if')
  ultimately show ?thesis by (auto simp: word_le_nat_alt word_unat_eq_iff)
qed

lemma tymem_loop_ok:
  assumes "regions m" "not_behind m start" "unat lower \<le> unat upper" "unat upper < length m"
    and "\<forall>i < length m. in_range start (m ! i) \<longrightarrow> unat lower \<le> i \<and> i \<le> unat upper"
  shows "\<exists>r. tymem_loop m start lower upper = Some r \<and>
    (r = Missing \<and> (\<forall>e \<in> set m. \<not> in_range start e) \<or> (\<exists>e \<in> set m. in_range start e \<and> r = Found (as_name e)))"
  using assms(3-)
proof (induction "unat upper - unat lower" arbitrary: lower upper rule: less_induct)
  case less
  define mid where "mid = (lower + upper) div 2"
  have len: "length m < 2 ^ 63" using assms(1) by (simp add: regions_def)
  have "unat (lower + upper) = unat lower + unat upper"
    using less.prems len by (subst unat_add_lem [symmetric]) simp
  then have mid: "unat mid = (unat lower + unat upper) div 2" by (simp add: mid_def unat_div_distrib)
  have b: "unat lower \<le> unat mid" "unat mid \<le> unat upper" "unat mid < length m" "unat lower < length m"
    using less.prems mid by linarith+
  let ?M = "m ! unat mid" and ?L = "m ! unat lower" and ?U = "m ! unat upper"
  have sorted: "as_end (m ! i) < as_start (m ! j)" if "i < j" "j < length m" for i j
    using assms(1) that by (auto simp: regions_def sorted_wrt_iff_nth_less)
  have wf: "as_start (m ! i) \<le> as_end (m ! i)" "start \<le> as_start (m ! i) + as_size (m ! i) \<longleftrightarrow> start \<le> as_end (m ! i)"
    if "i < length m" for i
    using assms(1,2) behind_entry [of "m ! i" start] that by (auto simp: regions_def not_behind_def)
  have el: "elem m mid = Some ?M" "elem m lower = Some ?L" "elem m upper = Some ?U"
    using b less.prems by (simp_all add: elem_def)
  consider (here) "in_range start ?M" | (left) "\<not> in_range start ?M" "start \<ge> as_start ?L" "start \<le> as_end ?M"
    | (right) "\<not> in_range start ?M" "\<not> (start \<ge> as_start ?L \<and> start \<le> as_end ?M)" "start > as_start ?M" "start \<le> as_end ?U"
    | (none) "\<not> in_range start ?M" "\<not> (start \<ge> as_start ?L \<and> start \<le> as_end ?M)" "\<not> (start > as_start ?M \<and> start \<le> as_end ?U)"
    by blast
  then show ?case
  proof cases
    case here
    then show ?thesis using el b by (subst tymem_loop.simps) (auto simp: mid_def [symmetric])
  next
    case left
    then have lt: "start < as_start ?M" using wf(1) [OF b(3)] by (auto simp: in_range_def)
    then have "unat mid \<noteq> unat lower" using left(2) by auto
    then have m0: "unat lower < unat mid" using b by simp
    then have m1: "unat (mid - 1) = unat mid - 1" by (subst unat_sub) (auto simp: word_le_nat_alt)
    have "i \<le> unat mid - 1" if "i < length m" "in_range start (m ! i)" for i
    proof (rule ccontr)
      assume "\<not> i \<le> unat mid - 1"
      then consider "i = unat mid" | "unat mid < i" by linarith
      then show False
        using that lt left(1) sorted [of "unat mid" i] wf(1) [OF b(3)] by cases (auto simp: in_range_def)
    qed
    then have "\<exists>r. tymem_loop m start lower (mid - 1) = Some r \<and>
        (r = Missing \<and> (\<forall>e \<in> set m. \<not> in_range start e) \<or> (\<exists>e \<in> set m. in_range start e \<and> r = Found (as_name e)))"
      using less.prems m0 m1 b by (intro less.hyps) auto
    then show ?thesis using el left wf(2) [OF b(3)] by (subst tymem_loop.simps) (simp add: mid_def [symmetric])
  next
    case right
    then have gt: "start > as_end ?M" by (auto simp: in_range_def)
    then have "unat mid \<noteq> unat upper" using right(4) by auto
    then have m0: "unat mid < unat upper" using b by simp
    then have m1: "unat (mid + 1) = unat mid + 1" using less.prems len by (simp add: unat_plus_if')
    have "unat mid + 1 \<le> i" if "i < length m" "in_range start (m ! i)" for i
    proof (rule ccontr)
      assume "\<not> unat mid + 1 \<le> i"
      then consider "i = unat mid" | "i < unat mid" by linarith
      then show False
        using that gt right(1) sorted [of i "unat mid"] b wf(1) [OF b(3)] by cases (auto simp: in_range_def)
    qed
    then have "\<exists>r. tymem_loop m start (mid + 1) upper = Some r \<and>
        (r = Missing \<and> (\<forall>e \<in> set m. \<not> in_range start e) \<or> (\<exists>e \<in> set m. in_range start e \<and> r = Found (as_name e)))"
      using less.prems m0 m1 b by (intro less.hyps) auto
    then show ?thesis using el right wf(2) [OF b(3)] wf(2) [OF less.prems(2)]
      by (subst tymem_loop.simps) (auto simp: mid_def [symmetric])
  next
    case none
    have "\<not> in_range start (m ! i)" if i: "i < length m" for i
    proof
      assume r: "in_range start (m ! i)"
      have iu: "unat lower \<le> i" "i \<le> unat upper" using less.prems(3) i r by auto
      have le: "as_start ?L \<le> start"
        using r sorted [of "unat lower" i] iu i wf(1) [OF b(4)] by (cases "unat lower = i") (auto simp: in_range_def)
      have ue: "start \<le> as_end ?U"
        using r sorted [of i "unat upper"] iu wf(1) [OF less.prems(2)] less.prems(2) by (cases "i = unat upper") (auto simp: in_range_def)
      consider "i = unat mid" | "i < unat mid" | "unat mid < i" by linarith
      then show False
      proof cases
        case 2
        then have "start \<le> as_end ?M" using r sorted [of i "unat mid"] b wf(1) [OF b(3)] by (auto simp: in_range_def)
        with le none show False by simp
      next
        case 3
        then have "start > as_start ?M" using r sorted [of "unat mid" i] i wf(1) [OF b(3)] by (auto simp: in_range_def)
        with ue none show False by simp
      qed (use none r in auto)
    qed
    then have "\<forall>e \<in> set m. \<not> in_range start e" by (auto simp: in_set_conv_nth)
    then show ?thesis using el none wf(2) [OF b(3)] wf(2) [OF less.prems(2)]
      by (subst tymem_loop.simps) (auto simp: mid_def [symmetric])
  qed
qed

text \<open>On sorted, disjoint entries the search ends inside the vector and finds the entry with the address, or that there is
  none, for every address that is not the one directly behind an entry.\<close>

theorem get_tymem_name_finds:
  assumes "regions m" "not_behind m start"
  shows "get_tymem_name m start = Some (case find (in_range start) m of Some e \<Rightarrow> Found (as_name e) | None \<Rightarrow> Missing)"
proof (cases "m = []")
  case False
  then have l: "0 < length m" "length m < 2 ^ 63" using assms(1) by (auto simp: regions_def)
  then have "unat (of_nat (length m) :: 64 word) = length m" by (simp add: unat_of_nat)
  then have u: "unat (of_nat (length m) - 1 :: 64 word) = length m - 1"
    using l by (subst unat_sub) (auto simp: word_le_nat_alt Suc_le_eq)
  have "\<forall>i < length m. in_range start (m ! i) \<longrightarrow> unat (0 :: 64 word) \<le> i \<and> i \<le> unat (of_nat (length m) - 1 :: 64 word)"
    using u by auto
  then have "\<exists>r. tymem_loop m start 0 (of_nat (length m) - 1) = Some r \<and>
      (r = Missing \<and> (\<forall>e \<in> set m. \<not> in_range start e) \<or> (\<exists>e \<in> set m. in_range start e \<and> r = Found (as_name e)))"
    by (intro tymem_loop_ok [OF assms]) (use u l in simp_all)
  then obtain r where r: "tymem_loop m start 0 (of_nat (length m) - 1) = Some r"
    "r = Missing \<and> (\<forall>e \<in> set m. \<not> in_range start e) \<or> (\<exists>e \<in> set m. in_range start e \<and> r = Found (as_name e))" by blast
  have one: "e = e'" if "e \<in> set m" "e' \<in> set m" "in_range start e" "in_range start e'" for e e'
  proof -
    note mem = that
    obtain i j where i: "i < length m" "e = m ! i" and j: "j < length m" "e' = m ! j"
      using mem(1,2) by (auto simp: in_set_conv_nth)
    have "as_end (m ! x) < as_start (m ! y)" if "x < y" "y < length m" for x y
      using assms(1) that by (auto simp: regions_def sorted_wrt_iff_nth_less)
    from this [of i j] this [of j i] have "\<not> i < j" "\<not> j < i"
      using mem(3,4) i j unfolding in_range_def by (meson leD order.trans order_le_less_trans)+
    with i j show ?thesis by simp
  qed
  show ?thesis
  proof (cases "find (in_range start) m")
    case None
    then have "\<forall>e \<in> set m. \<not> in_range start e" by (simp add: find_None_iff)
    then show ?thesis using r False None by (auto simp: get_tymem_name_def)
  next
    case (Some e)
    then have e: "e \<in> set m" "in_range start e" by (auto simp: find_Some_iff)
    with r obtain e' where "e' \<in> set m" "in_range start e'" "r = Found (as_name e')" by auto
    with one [OF e(1) _ e(2)] r(1) Some False show ?thesis by (simp add: get_tymem_name_def)
  qed
qed (simp add: get_tymem_name_def)

text \<open>For an address directly behind the first of two adjacent entries, the start of the second, the search
  runs out of the vector.\<close>

theorem get_tymem_name_adjacent:
  assumes "as_start a \<le> as_end a" "unat (as_end a) + 1 < 2 ^ 64" "as_start b = as_end a + 1"
  shows "get_tymem_name [a, b] (as_start b) = Some Out_of_bounds"
proof -
  have n: "\<not> in_range (as_start b) a" and s: "as_start b \<ge> as_start a" "as_start b \<le> as_start a + as_size a"
    using assms behind_entry [OF assms(1,2), of "as_start b"]
    by (auto simp: in_range_def word_le_nat_alt unat_plus_if')
  have "tymem_loop [a, b] (as_start b) 0 (-1) = Some Out_of_bounds"
    by (subst tymem_loop.simps) (simp add: elem_def Let_def)
  then have "tymem_loop [a, b] (as_start b) 0 1 = Some Out_of_bounds"
    using n s by (subst tymem_loop.simps) (simp add: elem_def Let_def)
  then show ?thesis by (simp add: get_tymem_name_def)
qed

definition ram :: "64 word \<Rightarrow> 64 word \<Rightarrow> string \<Rightarrow> asinfo_entry" where
  "ram a b n = \<lparr>as_start = a, as_end = b, as_name = n\<rparr>"

lemma get_tymem_name_finds_witness:
  "get_tymem_name [ram 0x1000 0x1FFF ''boot'', ram 0x8000 0xFFFF ''sysram''] 0x9000 = Some (Found ''sysram'')"
  using get_tymem_name_finds [of "[ram 0x1000 0x1FFF ''boot'', ram 0x8000 0xFFFF ''sysram'']" "0x9000"]
  by (simp add: regions_def not_behind_def ram_def in_range_def)

lemma get_tymem_name_adjacent_witness:
  "get_tymem_name [ram 0x1000 0x1FFF ''boot'', ram 0x2000 0xFFFF ''sysram''] 0x2000 = Some Out_of_bounds"
  using get_tymem_name_adjacent [of "ram 0x1000 0x1FFF ''boot''" "ram 0x2000 0xFFFF ''sysram''"] by (simp add: ram_def)

end
