(* ===== verification/ShmemMap.thy ===== *)
theory ShmemMap
  imports PidMapping AsInfo
begin

text \<open>
  The memory that two processes share in \<open>tools/lshmem\<close> (\<open>shmem_map.cpp\<close> and the loop of
  \<open>print_shmem\<close> in \<open>lshmem.cpp\<close>): the sorted maps of two processes are walked side by
  side, and the overlaps are added up for each pair of attributes.  A lookup of the typed memory that
  runs out of its vector makes the walk undefined, here \<open>None\<close>.
\<close>

record shmem_entry =
  sh_p1 :: map_line
  sh_p2 :: map_line
  sh_size :: "64 word"
  sh_tymem :: "string set"

text \<open>\<open>shmem_entry{}\<close> and the assignment of the attributes.\<close>

definition line_new :: map_line where
  "line_new = \<lparr>phys_addr = 0, phys_len = 0, ri_flags = 0, ri_prot = 0, dev = 0, ino = 0, object = []\<rparr>"

definition shmem_entry_new :: "map_line \<Rightarrow> map_line \<Rightarrow> shmem_entry" where
  "shmem_entry_new p1 p2 =
     \<lparr>sh_p1 = line_new\<lparr>ri_flags := ri_flags p1, ri_prot := ri_prot p1, dev := dev p1, ino := ino p1, object := object p1\<rparr>,
      sh_p2 = line_new\<lparr>ri_flags := ri_flags p2, ri_prot := ri_prot p2, dev := dev p2, ino := ino p2, object := object p2\<rparr>,
      sh_size = 0, sh_tymem = {}\<rparr>"

definition add_tymem :: "asinfo_entry list \<Rightarrow> 64 word \<Rightarrow> shmem_entry \<Rightarrow> shmem_entry option" where
  "add_tymem asinfo start entry = (case get_tymem_name asinfo start of
       Some (Found name) \<Rightarrow> Some (entry\<lparr>sh_tymem := insert name (sh_tymem entry)\<rparr>)
     | Some Missing \<Rightarrow> Some entry
     | Some Out_of_bounds \<Rightarrow> None
     | None \<Rightarrow> None)"

text \<open>The loop over the entries: the first one with the same attributes, or a new one at the end.\<close>

fun add_overlap :: "asinfo_entry list \<Rightarrow> map_line \<Rightarrow> map_line \<Rightarrow> 64 word \<Rightarrow> 64 word \<Rightarrow> shmem_entry list \<Rightarrow> shmem_entry list option" where
  "add_overlap asinfo p1 p2 ostart olength [] =
     map_option (\<lambda>e. [e]) (add_tymem asinfo ostart ((shmem_entry_new p1 p2)\<lparr>sh_size := olength\<rparr>))"
| "add_overlap asinfo p1 p2 ostart olength (entry # es) =
     (if is_same (sh_p1 entry) p1 \<and> is_same (sh_p2 entry) p2 then
        map_option (\<lambda>e. e # es) (add_tymem asinfo ostart (entry\<lparr>sh_size := sh_size entry + olength\<rparr>))
      else map_option (\<lambda>es. entry # es) (add_overlap asinfo p1 p2 ostart olength es))"

definition compare_and_add :: "asinfo_entry list \<Rightarrow> map_line \<Rightarrow> map_line \<Rightarrow> shmem_entry list \<Rightarrow> shmem_entry list option" where
  "compare_and_add asinfo p1 p2 overlap =
     (let ostart = max (phys_addr p1) (phys_addr p2);
          oend = min (phys_addr p1 + phys_len p1) (phys_addr p2 + phys_len p2)
      in if ostart \<ge> oend then Some overlap
         else add_overlap asinfo p1 p2 ostart (oend - ostart) overlap)"

function overlap_loop :: "asinfo_entry list \<Rightarrow> map_line list \<Rightarrow> map_line list \<Rightarrow> shmem_entry list \<Rightarrow> shmem_entry list option" where
  "overlap_loop asinfo [] m2 overlap = Some overlap"
| "overlap_loop asinfo (i1 # m1) [] overlap = Some overlap"
| "overlap_loop asinfo (i1 # m1) (i2 # m2) overlap =
     Option.bind (compare_and_add asinfo i1 i2 overlap) (\<lambda>overlap.
       if phys_addr i1 + phys_len i1 < phys_addr i2 + phys_len i2 then overlap_loop asinfo m1 (i2 # m2) overlap
       else if phys_addr i1 + phys_len i1 > phys_addr i2 + phys_len i2 then overlap_loop asinfo (i1 # m1) m2 overlap
       else overlap_loop asinfo m1 m2 overlap)"
  by pat_completeness auto
termination by (relation "measure (\<lambda>(_, m1, m2, _). length m1 + length m2)") auto

section \<open>What the overlaps add up to\<close>

text \<open>The addresses that the first map covers with attributes \<open>A\<close> and the second with \<open>B\<close>.\<close>

definition both where
  "both A B m1 m2 = {a. (a, A) \<in> covers m1 \<and> (a, B) \<in> covers m2}"

definition shared_size where
  "shared_size A B overlap = (case find (\<lambda>e. attrs (sh_p1 e) = A \<and> attrs (sh_p2 e) = B) overlap of
     None \<Rightarrow> 0 | Some e \<Rightarrow> unat (sh_size e))"

text \<open>Every lookup that the walk can make is inside the typed memory.\<close>

definition lookups_ok :: "asinfo_entry list \<Rightarrow> map_line list \<Rightarrow> map_line list \<Rightarrow> bool" where
  "lookups_ok asinfo m1 m2 \<longleftrightarrow> (\<forall>p1 \<in> set m1. \<forall>p2 \<in> set m2.
     get_tymem_name asinfo (max (phys_addr p1) (phys_addr p2)) \<notin> {None, Some Out_of_bounds})"

lemma add_tymem_size: "add_tymem asinfo a e = Some e' \<Longrightarrow> sh_size e' = sh_size e \<and> sh_p1 e' = sh_p1 e \<and> sh_p2 e' = sh_p2 e"
  by (auto simp: add_tymem_def split: option.splits tymem.splits)

lemma add_tymem_ok: "get_tymem_name asinfo a \<notin> {None, Some Out_of_bounds} \<Longrightarrow> \<exists>e'. add_tymem asinfo a e = Some e'"
  by (auto simp: add_tymem_def split: option.splits tymem.splits)

lemma attrs_new: "attrs (sh_p1 (shmem_entry_new p1 p2)) = attrs p1" "attrs (sh_p2 (shmem_entry_new p1 p2)) = attrs p2"
  by (simp_all add: shmem_entry_new_def attrs_def)

lemma add_overlap_size:
  assumes "add_overlap asinfo p1 p2 a n es = Some es'"
    and "A = attrs p1 \<and> B = attrs p2 \<longrightarrow> shared_size A B es + unat n < 2 ^ 64"
  shows "shared_size A B es' = shared_size A B es + (if A = attrs p1 \<and> B = attrs p2 then unat n else 0)"
  using assms
proof (induction es arbitrary: es')
  case Nil
  then show ?case using attrs_new [of p1 p2] by (auto simp: shared_size_def dest!: add_tymem_size)
next
  case (Cons e es)
  show ?case
  proof (cases "is_same (sh_p1 e) p1 \<and> is_same (sh_p2 e) p2")
    case True
    then have s: "attrs (sh_p1 e) = attrs p1" "attrs (sh_p2 e) = attrs p2" by (simp_all add: is_same_attrs)
    show ?thesis
    proof (cases "A = attrs p1 \<and> B = attrs p2")
      case True
      then have "unat (sh_size e) + unat n < 2 ^ 64" using Cons.prems(2) s by (simp add: shared_size_def)
      then have "unat (sh_size e + n) = unat (sh_size e) + unat n" by (subst unat_add_lem [symmetric]) simp
      then show ?thesis using True \<open>is_same (sh_p1 e) p1 \<and> is_same (sh_p2 e) p2\<close> s Cons.prems(1)
        by (auto simp: shared_size_def dest!: add_tymem_size)
    next
      case False
      then show ?thesis using True s Cons.prems(1) by (auto simp: shared_size_def dest!: add_tymem_size)
    qed
  next
    case False
    then have n: "\<not> (attrs (sh_p1 e) = attrs p1 \<and> attrs (sh_p2 e) = attrs p2)" by (simp add: is_same_attrs)
    from False Cons.prems(1) obtain es2 where es2: "add_overlap asinfo p1 p2 a n es = Some es2" "es' = e # es2" by auto
    have "A = attrs p1 \<and> B = attrs p2 \<longrightarrow> shared_size A B es + unat n < 2 ^ 64" using Cons.prems(2) n by (auto simp: shared_size_def)
    from Cons.IH [OF es2(1) this] show ?thesis using es2(2) n by (auto simp: shared_size_def)
  qed
qed

lemma add_overlap_ok: "get_tymem_name asinfo a \<notin> {None, Some Out_of_bounds} \<Longrightarrow> \<exists>es'. add_overlap asinfo p1 p2 a n es = Some es'"
proof (induction es)
  case Nil
  then show ?case using add_tymem_ok [OF Nil] by fastforce
next
  case (Cons e es)
  then show ?case using add_tymem_ok [OF Cons.prems, of "e\<lparr>sh_size := sh_size e + n\<rparr>"] by auto
qed

text \<open>One comparison counts the addresses of the overlap.\<close>

definition ov :: "map_line \<Rightarrow> map_line \<Rightarrow> nat" where
  "ov p1 p2 = min (en p1) (en p2) - max (st p1) (st p2)"

lemma line_end_unat: "line_ok l \<Longrightarrow> unat (phys_addr l + phys_len l) = en l"
  using unat_add_lem [where x = "phys_addr l" and y = "phys_len l"] by (simp add: line_ok_def en_def st_def)

lemma compare_and_add_size:
  assumes "line_ok p1" "line_ok p2" "get_tymem_name asinfo (max (phys_addr p1) (phys_addr p2)) \<notin> {None, Some Out_of_bounds}"
    and "A = attrs p1 \<and> B = attrs p2 \<longrightarrow> shared_size A B es + ov p1 p2 < 2 ^ 64"
  shows "\<exists>es'. compare_and_add asinfo p1 p2 es = Some es' \<and>
    shared_size A B es' = shared_size A B es + (if A = attrs p1 \<and> B = attrs p2 then ov p1 p2 else 0)"
proof -
  let ?s = "max (phys_addr p1) (phys_addr p2)" and ?e = "min (phys_addr p1 + phys_len p1) (phys_addr p2 + phys_len p2)"
  have s: "unat ?s = max (st p1) (st p2)" by (simp add: max_def st_def word_le_nat_alt)
  have e: "unat ?e = min (en p1) (en p2)" using assms by (simp add: min_def word_le_nat_alt line_end_unat)
  show ?thesis
  proof (cases "?s \<ge> ?e")
    case True
    then have "ov p1 p2 = 0" using s e by (simp add: ov_def word_le_nat_alt)
    then show ?thesis using True by (auto simp: compare_and_add_def Let_def)
  next
    case False
    then have "?s \<le> ?e" unfolding not_le by (rule order.strict_implies_order)
    from unat_sub [OF this] have l: "unat (?e - ?s) = ov p1 p2" unfolding s e ov_def .
    obtain es' where es': "add_overlap asinfo p1 p2 ?s (?e - ?s) es = Some es'" using add_overlap_ok [OF assms(3)] by blast
    from add_overlap_size [OF es', of A B] assms(4) l
    have "shared_size A B es' = shared_size A B es + (if A = attrs p1 \<and> B = attrs p2 then ov p1 p2 else 0)" by simp
    moreover have "compare_and_add asinfo p1 p2 es = Some es'" using False es' by (simp only: compare_and_add_def Let_def if_False)
    ultimately show ?thesis by blast
  qed
qed

lemma both_Nil: "both A B [] m2 = {}" "both A B m1 [] = {}"
  by (auto simp: both_def)

lemma finite_covers: "finite {a. (a, A) \<in> covers m}"
proof -
  have "{a. (a, A) \<in> covers m} \<subseteq> (\<Union>l \<in> set m. {st l..<en l})" by (auto simp: covers_def)
  then show ?thesis by (rule finite_subset) auto
qed

lemma finite_both: "finite (both A B m1 m2)"
  by (rule finite_subset [OF _ finite_covers [of A m1]]) (auto simp: both_def)

lemma card_overlap: "card ({st p1..<en p1} \<inter> {st p2..<en p2}) = ov p1 p2"
proof -
  have "{st p1..<en p1} \<inter> {st p2..<en p2} = {max (st p1) (st p2)..<min (en p1) (en p2)}" by auto
  then show ?thesis by (simp add: ov_def)
qed

text \<open>A step of the walk splits off the overlap of the two first lines.\<close>

definition pair_overlap where
  "pair_overlap A B p1 p2 = (if A = attrs p1 \<and> B = attrs p2 then {st p1..<en p1} \<inter> {st p2..<en p2} else {})"

lemma both_Cons: "both A B (i1 # m1) (i2 # m2) =
    pair_overlap A B i1 i2 \<union> both A B [i1] m2 \<union> both A B m1 [i2] \<union> both A B m1 m2"
  by (auto simp: both_def pair_overlap_def)

lemma card_pair_overlap: "card (pair_overlap A B p1 p2) = (if A = attrs p1 \<and> B = attrs p2 then ov p1 p2 else 0)"
  by (auto simp: pair_overlap_def card_overlap simp del: Int_atLeastLessThan)

lemma both_empty: "\<forall>a \<in> set m1. \<forall>b \<in> set m2. en a \<le> st b \<or> en b \<le> st a \<Longrightarrow> both A B m1 m2 = {}"
  by (fastforce simp: both_def covers_def)

lemma pair_disjoint_left:
  "\<forall>a \<in> set m1. a = i1 \<or> en i1 \<le> st a \<Longrightarrow> \<forall>b \<in> set m2. en i2 \<le> st b \<Longrightarrow> pair_overlap A B i1 i2 \<inter> both A B m1 m2 = {}"
  by (fastforce simp: both_def covers_def pair_overlap_def split: if_splits)

lemma pair_disjoint_right:
  "\<forall>a \<in> set m1. en i1 \<le> st a \<Longrightarrow> \<forall>b \<in> set m2. b = i2 \<or> en i2 \<le> st b \<Longrightarrow> pair_overlap A B i1 i2 \<inter> both A B m1 m2 = {}"
  by (fastforce simp: both_def covers_def pair_overlap_def split: if_splits)

lemma card_both_step:
  assumes "both A B (i1 # m1) (i2 # m2) = pair_overlap A B i1 i2 \<union> both A B n1 n2" "pair_overlap A B i1 i2 \<inter> both A B n1 n2 = {}"
  shows "card (both A B (i1 # m1) (i2 # m2)) = (if A = attrs i1 \<and> B = attrs i2 then ov i1 i2 else 0) + card (both A B n1 n2)"
proof -
  have "finite (pair_overlap A B i1 i2)" by (simp add: pair_overlap_def)
  then show ?thesis unfolding assms(1) by (simp add: card_Un_disjoint finite_both assms(2) card_pair_overlap)
qed

text \<open>After the comparison, when the walk goes on with \<open>n1\<close> and \<open>n2\<close>.\<close>

lemma overlap_next:
  assumes "both A B (i1 # m1) (i2 # m2) = pair_overlap A B i1 i2 \<union> both A B n1 n2" "pair_overlap A B i1 i2 \<inter> both A B n1 n2 = {}"
    and "shared_size A B es' = shared_size A B es + (if A = attrs i1 \<and> B = attrs i2 then ov i1 i2 else 0)"
    and "shared_size A B es + card (both A B (i1 # m1) (i2 # m2)) < 2 ^ 64"
    and "shared_size A B es' + card (both A B n1 n2) < 2 ^ 64 \<Longrightarrow>
      \<exists>r. overlap_loop asinfo n1 n2 es' = Some r \<and> shared_size A B r = shared_size A B es' + card (both A B n1 n2)"
  shows "\<exists>r. overlap_loop asinfo n1 n2 es' = Some r \<and> shared_size A B r = shared_size A B es + card (both A B (i1 # m1) (i2 # m2))"
proof -
  define d where "d = (if A = attrs i1 \<and> B = attrs i2 then ov i1 i2 else 0)"
  show ?thesis using card_both_step [OF assms(1,2)] assms(3-5) unfolding d_def [symmetric] by (simp add: add.assoc)
qed

lemma overlap_loop_size:
  assumes "map_ok m1" "map_ok m2" "lookups_ok asinfo m1 m2" "shared_size A B es + card (both A B m1 m2) < 2 ^ 64"
  shows "\<exists>r. overlap_loop asinfo m1 m2 es = Some r \<and> shared_size A B r = shared_size A B es + card (both A B m1 m2)"
  using assms
proof (induction asinfo m1 m2 es rule: overlap_loop.induct)
  case (3 asinfo i1 m1 i2 m2 es)
  have l: "line_ok i1" "line_ok i2" and s1: "\<forall>a \<in> set m1. en i1 \<le> st a" and s2: "\<forall>b \<in> set m2. en i2 \<le> st b"
    using "3.prems"(1,2) by (auto intro: before_en)
  have "ov i1 i2 \<le> card (both A B (i1 # m1) (i2 # m2))" if "A = attrs i1 \<and> B = attrs i2"
    unfolding card_overlap [symmetric] by (rule card_mono [OF finite_both]) (use that in \<open>auto simp: both_def\<close>)
  then have "A = attrs i1 \<and> B = attrs i2 \<longrightarrow> shared_size A B es + ov i1 i2 < 2 ^ 64"
    using "3.prems"(4) by linarith
  moreover have "get_tymem_name asinfo (max (phys_addr i1) (phys_addr i2)) \<notin> {None, Some Out_of_bounds}"
    using "3.prems"(3) by (auto simp: lookups_ok_def)
  ultimately obtain es' where es': "compare_and_add asinfo i1 i2 es = Some es'"
    "shared_size A B es' = shared_size A B es + (if A = attrs i1 \<and> B = attrs i2 then ov i1 i2 else 0)"
    using compare_and_add_size [OF l, where A = A and B = B] by blast
  have cmp: "phys_addr i1 + phys_len i1 < phys_addr i2 + phys_len i2 \<longleftrightarrow> en i1 < en i2"
    "phys_addr i1 + phys_len i1 > phys_addr i2 + phys_len i2 \<longleftrightarrow> en i1 > en i2"
    using l by (simp_all add: word_less_nat_alt line_end_unat)
  have lk: "lookups_ok asinfo m1 (i2 # m2)" "lookups_ok asinfo (i1 # m1) m2" "lookups_ok asinfo m1 m2"
    using "3.prems"(3) by (auto simp: lookups_ok_def)
  note ih = "3.IH" [OF es'(1)]
  consider (lt) "en i1 < en i2" | (gt) "en i1 > en i2" | (eq) "en i1 = en i2" by linarith
  then show ?case
  proof cases
    case lt
    have e: "both A B [i1] m2 = {}" by (rule both_empty) (use s2 lt in auto)
    have "\<exists>r. overlap_loop asinfo m1 (i2 # m2) es' = Some r \<and> shared_size A B r = shared_size A B es + card (both A B (i1 # m1) (i2 # m2))"
    proof (rule overlap_next [OF _ _ es'(2) "3.prems"(4)])
      show "both A B (i1 # m1) (i2 # m2) = pair_overlap A B i1 i2 \<union> both A B m1 (i2 # m2)"
        unfolding both_Cons e by (auto simp: both_def)
      show "pair_overlap A B i1 i2 \<inter> both A B m1 (i2 # m2) = {}" by (rule pair_disjoint_right) (use s1 s2 in auto)
    qed (use ih(1) cmp lt "3.prems" lk in auto)
    then show ?thesis using es'(1) cmp lt by simp
  next
    case gt
    have e: "both A B m1 [i2] = {}" by (rule both_empty) (use s1 gt in auto)
    have "\<exists>r. overlap_loop asinfo (i1 # m1) m2 es' = Some r \<and> shared_size A B r = shared_size A B es + card (both A B (i1 # m1) (i2 # m2))"
    proof (rule overlap_next [OF _ _ es'(2) "3.prems"(4)])
      show "both A B (i1 # m1) (i2 # m2) = pair_overlap A B i1 i2 \<union> both A B (i1 # m1) m2"
        unfolding both_Cons e by (auto simp: both_def)
      show "pair_overlap A B i1 i2 \<inter> both A B (i1 # m1) m2 = {}" by (rule pair_disjoint_left) (use s1 s2 in auto)
    qed (use ih(2) cmp gt "3.prems" lk in auto)
    then show ?thesis using es'(1) cmp gt by simp
  next
    case eq
    have e: "both A B [i1] m2 = {}" "both A B m1 [i2] = {}" by (rule both_empty; use s1 s2 eq in auto)+
    have "\<exists>r. overlap_loop asinfo m1 m2 es' = Some r \<and> shared_size A B r = shared_size A B es + card (both A B (i1 # m1) (i2 # m2))"
    proof (rule overlap_next [OF _ _ es'(2) "3.prems"(4)])
      show "both A B (i1 # m1) (i2 # m2) = pair_overlap A B i1 i2 \<union> both A B m1 m2"
        unfolding both_Cons e by auto
      show "pair_overlap A B i1 i2 \<inter> both A B m1 m2 = {}" by (rule pair_disjoint_right) (use s1 s2 in auto)
    qed (use ih(3) cmp eq "3.prems" lk in auto)
    then show ?thesis using es'(1) cmp eq by simp
  qed
qed (simp_all add: both_Nil)

lemma card_both_bound:
  assumes "map_ok m1"
  shows "card (both A B m1 m2) < 2 ^ 64"
proof -
  have "both A B m1 m2 \<subseteq> {..<2 ^ 64 - 1}"
    using assms by (fastforce simp: both_def covers_def map_ok_def list_all_iff line_ok_def)
  from card_mono [OF _ this] have "card (both A B m1 m2) \<le> 2 ^ 64 - 1" by simp
  then show ?thesis by simp
qed

text \<open>The walk over two sorted, disjoint maps ends, and for each pair of attributes the length that it reports is exactly
  the number of addresses that both processes map with them.\<close>

theorem overlap_lengths:
  assumes "map_ok m1" "map_ok m2" "lookups_ok asinfo m1 m2"
  shows "\<exists>r. overlap_loop asinfo m1 m2 [] = Some r \<and> (\<forall>A B. shared_size A B r = card (both A B m1 m2))"
proof -
  have l: "\<exists>r. overlap_loop asinfo m1 m2 [] = Some r \<and> shared_size A B r = card (both A B m1 m2)" for A B
    using overlap_loop_size [OF assms, of A B "[]"] card_both_bound [OF assms(1), of A B m2] by (simp add: shared_size_def)
  then obtain r where r: "overlap_loop asinfo m1 m2 [] = Some r" by blast
  have "shared_size A B r = card (both A B m1 m2)" for A B using l [of A B] r by simp
  with r show ?thesis by blast
qed

lemma overlap_lengths_witness:
  "\<exists>r. overlap_loop [] [page 0x1000 0x2000, page 0x8000 0x1000] [page 0x2000 0x7000] [] = Some r \<and>
    shared_size (attrs (page 0 0)) (attrs (page 0 0)) r = 0x2000"
proof -
  let ?m1 = "[page 0x1000 0x2000, page 0x8000 0x1000]" and ?m2 = "[page 0x2000 0x7000]" and ?A = "attrs (page 0 0)"
  have m: "map_ok ?m1" "map_ok ?m2" by (simp_all add: page_simps)
  have l: "lookups_ok [] ?m1 ?m2" by (simp add: lookups_ok_def get_tymem_name_def)
  have b: "both ?A ?A ?m1 ?m2 = {0x2000..<0x3000} \<union> {0x8000..<0x9000}"
    by (auto simp: both_def page_simps)
  have c: "card ({0x2000..<0x3000::nat} \<union> {0x8000..<0x9000}) = 0x2000" by (subst card_Un_disjoint) auto
  obtain r where r: "overlap_loop [] ?m1 ?m2 [] = Some r" "\<forall>A B. shared_size A B r = card (both A B ?m1 ?m2)"
    using overlap_lengths [OF m l] by blast
  have "shared_size ?A ?A r = 0x2000" using r(2) [rule_format, of ?A ?A] unfolding b c .
  with r(1) show ?thesis by blast
qed

end
