(* ===== verification/Pids.thy ===== *)
theory Pids
  imports Strings
begin

text \<open>
  The names of processes (\<open>osqnx/pids.cpp\<close>): the directory \<open>/proc\<close> gives the processes, and a name that was
  found once is kept until it is dropped.  What the system answers may depend on the questions before; they are
  recorded in the object.
\<close>

record pids =
  pid_names :: "32 word \<rightharpoonup> string"
  pid_asked :: "32 word list"

type_synonym proc_names = "32 word list \<Rightarrow> 32 word \<Rightarrow> int + string"

definition pids_new :: pids where
  "pids_new = \<lparr>pid_names = Map.empty, pid_asked = []\<rparr>"

text \<open>\<open>std::filesystem::path\<close>: the text behind the last slash, if there is one.\<close>

definition get_filename :: "string \<Rightarrow> string" where
  "get_filename path = (let f = rev (takeWhile (\<lambda>c. c \<noteq> CHR ''/'') (rev path)) in if f \<noteq> [] then f else path)"

definition get_name :: "proc_names \<Rightarrow> 32 word \<Rightarrow> bool \<Rightarrow> pids \<Rightarrow> (int + string) \<times> pids" where
  "get_name proc pid short_path p =
     (case pid_names p pid of
        Some name \<Rightarrow> (Inr (if short_path then get_filename name else name), p)
      | None \<Rightarrow>
          (case proc (pid_asked p) pid of
             Inl e \<Rightarrow> (Inl e, p\<lparr>pid_asked := pid_asked p @ [pid]\<rparr>)
           | Inr name \<Rightarrow> (Inr (if short_path then get_filename name else name),
               p\<lparr>pid_asked := pid_asked p @ [pid], pid_names := (pid_names p)(pid \<mapsto> name)\<rparr>)))"

definition drop_pid :: "32 word \<Rightarrow> pids \<Rightarrow> bool \<times> pids" where
  "drop_pid pid p = (pid_names p pid \<noteq> None, p\<lparr>pid_names := (pid_names p)(pid := None)\<rparr>)"

text \<open>An entry of the directory: asking whether it is a directory may throw.\<close>

datatype proc_entry = Directory string | Other string | Throws

definition query_pids :: "proc_entry list option \<Rightarrow> 32 word list" where
  "query_pids entries = (case entries of
      None \<Rightarrow> []
    | Some l \<Rightarrow> List.map_filter (\<lambda>e. case e of
          Directory name \<Rightarrow> map_option of_int (parse_int False 32 name)
        | Other name \<Rightarrow> None
        | Throws \<Rightarrow> None) l)"

text \<open>The processes are those whose number names a directory; other names are passed over.\<close>

lemma query_pids_set:
  assumes "\<And>name. Directory name \<in> set l \<Longrightarrow> parse_int False 32 name = None \<or> (\<exists>p :: 32 word. name = int_to_string (uint p))"
  shows "set (query_pids (Some l)) = {p. Directory (int_to_string (uint p)) \<in> set l}"
proof -
  have r: "parse_int False 32 (int_to_string (uint p)) = Some (uint p)" for p :: "32 word"
    using uint_lt2p [of p] by (simp add: parse_int_roundtrip int_lo_def int_hi_def)
  show ?thesis
  proof (intro set_eqI iffI)
    fix p :: "32 word" assume "p \<in> set (query_pids (Some l))"
    then obtain name v where n: "Directory name \<in> set l" "parse_int False 32 name = Some v" "p = of_int v"
      by (auto simp: query_pids_def map_filter_def split: proc_entry.splits)
    then obtain p' :: "32 word" where p': "name = int_to_string (uint p')" using assms [OF n(1)] by auto
    then have "p = p'" using n(2,3) r [of p'] by (metis option.inject word_of_int_uint)
    then show "p \<in> {p. Directory (int_to_string (uint p)) \<in> set l}" using n(1) p' by simp
  next
    fix p :: "32 word" assume "p \<in> {p. Directory (int_to_string (uint p)) \<in> set l}"
    then show "p \<in> set (query_pids (Some l))"
      by (force simp: query_pids_def map_filter_def r)
  qed
qed

section \<open>A name stays until it is dropped\<close>

datatype pids_call = Get "32 word" bool | Drop "32 word"

text \<open>Some calls after each other, with the answers to the questions for names.\<close>

fun pids_run :: "proc_names \<Rightarrow> pids_call list \<Rightarrow> pids \<Rightarrow> (int + string) list \<times> pids" where
  "pids_run proc [] p = ([], p)"
| "pids_run proc (Get pid short_path # cs) p =
     (let (r, p) = get_name proc pid short_path p; (rs, p) = pids_run proc cs p in (r # rs, p))"
| "pids_run proc (Drop pid # cs) p = pids_run proc cs (snd (drop_pid pid p))"

lemma get_name_keeps:
  "pid_names p pid = Some n \<Longrightarrow> pid_names (snd (get_name proc pid' s p)) pid = Some n"
  by (auto simp: get_name_def split: option.splits sum.splits)

lemma get_name_cached:
  "pid_names p pid = Some n \<Longrightarrow> get_name proc pid s p = (Inr (if s then get_filename n else n), p)"
  by (simp add: get_name_def)

lemma get_name_stores:
  "fst (get_name proc pid False p) = Inr n \<Longrightarrow> pid_names (snd (get_name proc pid False p)) pid = Some n"
  by (auto simp: get_name_def split: option.splits sum.splits)

lemma pids_run_keeps:
  "Drop pid \<notin> set cs \<Longrightarrow> pid_names p pid = Some n \<Longrightarrow> pid_names (snd (pids_run proc cs p)) pid = Some n"
proof (induction proc cs p rule: pids_run.induct)
  case (2 proc pid' s cs p)
  have k: "pid_names (snd (get_name proc pid' s p)) pid = Some n" by (rule get_name_keeps [OF "2.prems"(2)])
  obtain r p1 where g: "get_name proc pid' s p = (r, p1)" by (rule prod.exhaust)
  have "pid_names (snd (pids_run proc cs p1)) pid = Some n" using "2.IH" [OF g [symmetric] refl] "2.prems"(1) k g by simp
  then show ?case using g by (simp add: split_beta)
next
  case (3 proc pid' cs p)
  then show ?case by (auto simp: drop_pid_def)
qed simp

text \<open>The name of a process is the one its first question found, whatever is asked in between and whatever the
  system would answer now, until it is dropped.\<close>

theorem name_kept:
  assumes "get_name proc pid False p = (Inr name, p1)" "Drop pid \<notin> set cs" "pids_run proc cs p1 = (rs, p2)"
  shows "get_name proc2 pid short_path p2 = (Inr (if short_path then get_filename name else name), p2)"
proof -
  have "pid_names p1 pid = Some name" using get_name_stores [of proc pid p name] assms(1) by simp
  from pids_run_keeps [OF assms(2) this, of proc] show ?thesis using assms(3) by (simp add: get_name_cached)
qed

lemma name_kept_witness:
  "\<exists>p1 rs p2. get_name (\<lambda>l pid. Inr ''/bin/sh'') 7 False pids_new = (Inr ''/bin/sh'', p1) \<and>
     pids_run (\<lambda>l pid. Inl 3) [Drop 8, Get 9 True] p1 = (rs, p2) \<and>
     get_name (\<lambda>l pid. Inl 3) 7 True p2 = (Inr ''sh'', p2)"
proof -
  have g: "get_name (\<lambda>l pid. Inr ''/bin/sh'') 7 False pids_new = (Inr ''/bin/sh'', \<lparr>pid_names = [7 \<mapsto> ''/bin/sh''], pid_asked = [7]\<rparr>)"
    by (simp add: get_name_def pids_new_def)
  obtain rs p2 where r: "pids_run (\<lambda>l pid. Inr ''/bin/sh'') [Drop 8, Get 9 True] \<lparr>pid_names = [7 \<mapsto> ''/bin/sh''], pid_asked = [7]\<rparr> = (rs, p2)"
    by (rule prod.exhaust)
  have "Drop 7 \<notin> set [Drop 8, Get 9 True]" by simp
  from name_kept [OF g this r, of "\<lambda>l pid. Inl 3" True] g r show ?thesis
    by (auto simp: get_name_def drop_pid_def get_filename_def)
qed

end
