(* ===== verification/Lshmem.thy ===== *)
theory Lshmem
  imports ShmemMap Pids ToolOptions "HOL-Library.Char_ord" "HOL-Library.List_Lexorder"
begin

text \<open>
  The tool \<open>lshmem\<close> itself (\<open>lshmem.cpp\<close>): the maps of the processes, the tables it prints and
  \<open>main\<close>.  The system is a record of what it gives: the files of \<open>/proc\<close>, the names, the page with the typed
  memory.  The output is one text; a lookup that leaves the typed memory makes it undefined, \<open>None\<close>.
\<close>

section \<open>Text\<close>

fun to_hex :: "nat \<Rightarrow> string" where
  "to_hex n = (if n < 16 then [hex_digit n] else to_hex (n div 16) @ [hex_digit (n mod 16)])"

declare to_hex.simps [simp del]

abbreviation nl :: string where "nl \<equiv> [CHR 0x0A]"

definition hex_word :: "'a::len word \<Rightarrow> string" where
  "hex_word w = to_hex (unat w)"

definition dec_word :: "32 word \<Rightarrow> string" where
  "dec_word w = nat_to_string (unat w)"

text \<open>\<open>std::setfill('0') << std::setw(16)\<close>\<close>

definition hex16 :: "64 word \<Rightarrow> string" where
  "hex16 w = replicate (16 - length (hex_word w)) (CHR ''0'') @ hex_word w"

section \<open>The maps of the processes\<close>

record lshmem_system =
  ls_self :: "32 word"
  ls_files :: "string \<Rightarrow> mapping_file"
  ls_names :: proc_names
  ls_proc :: "proc_entry list option"
  ls_mman :: mman
  ls_kids :: "16 word"
  ls_page :: "sys_asinfo list"

type_synonym shmem = "(32 word \<times> map_line list) list"

definition mapping_file_name :: "32 word \<Rightarrow> string" where
  "mapping_file_name pid = ''/proc/'' @ dec_word pid @ ''/mappings''"

definition print_pid_wanted :: "32 word list \<Rightarrow> 32 word \<Rightarrow> bool" where
  "print_pid_wanted pids pid = (if pids = [] then True else pid \<in> set pids)"

text \<open>\<open>std::map::try_emplace\<close>\<close>

fun try_emplace :: "32 word \<Rightarrow> map_line list \<Rightarrow> shmem \<Rightarrow> shmem" where
  "try_emplace pid m [] = [(pid, m)]"
| "try_emplace pid m ((p, m') # l) =
     (if pid < p then (pid, m) # (p, m') # l else if pid = p then (p, m') # l else (p, m') # try_emplace pid m l)"

definition query_text :: "32 word \<Rightarrow> (int + string) \<Rightarrow> string" where
  "query_text pid name = ''Querying PID: '' @ dec_word pid @ (case name of Inr n \<Rightarrow> '' ('' @ n @ '')... '' | Inl _ \<Rightarrow> ''... '')"

definition get_shmem_pid :: "lshmem_system \<Rightarrow> int \<Rightarrow> bool \<Rightarrow> 32 word \<Rightarrow> pids \<times> string \<times> shmem \<Rightarrow> pids \<times> string \<times> shmem" where
  "get_shmem_pid sys verbosity read pid = (\<lambda>(p, out, shmem).
     if pid = ls_self sys then (p, out, shmem)
     else
       let (pid_name, p) = get_name (ls_names sys) pid False p;
           out = out @ (if verbosity \<noteq> 0 then query_text pid pid_name else [])
       in case load_mapping (ls_mman sys) (ls_files sys (mapping_file_name pid)) read of
            Inl e \<Rightarrow> (p, out, shmem)
          | Inr mapping \<Rightarrow> (p, out @ (if verbosity \<noteq> 0 then ''done.'' @ nl else []), try_emplace pid mapping shmem))"

definition get_shmem :: "lshmem_system \<Rightarrow> int \<Rightarrow> bool \<Rightarrow> 32 word list \<Rightarrow> pids \<times> string \<Rightarrow> pids \<times> string \<times> shmem" where
  "get_shmem sys verbosity read pids = (\<lambda>(p, out). fold (get_shmem_pid sys verbosity read) pids (p, out, []))"

section \<open>The tables\<close>

definition print_tymem :: "asinfo_entry list \<Rightarrow> string" where
  "print_tymem asinfo =
     (if asinfo = [] then []
      else ''Typed Memory (Sorted):'' @ nl @
        concat (map (\<lambda>e. hex16 (as_start e) @ '' - '' @ hex16 (as_end e) @ '': '' @ as_name e @
          (if as_end e + 1 < as_start e then ''  ** WARNING: End is before Start.'' else []) @ nl) asinfo))"

fun print_mem_lines :: "asinfo_entry list \<Rightarrow> map_line list \<Rightarrow> string option" where
  "print_mem_lines asinfo [] = Some []"
| "print_mem_lines asinfo (m # ms) =
     Option.bind (get_tymem_name asinfo (phys_addr m)) (\<lambda>t.
       if t = Out_of_bounds then None
       else map_option (\<lambda>rest. ''  '' @ hex_word (phys_addr m) @ '','' @ hex_word (phys_len m) @ '','' @ hex_word (ri_flags m) @ '','' @
         hex_word (ri_prot m) @ '','' @ hex_word (dev m) @ '','' @ hex_word (ino m) @ '','' @ object m @
         (case t of Found name \<Rightarrow> '','' @ name | _ \<Rightarrow> []) @ nl @ rest) (print_mem_lines asinfo ms))"

definition print_mem_map :: "asinfo_entry list \<Rightarrow> map_line list \<Rightarrow> string option" where
  "print_mem_map asinfo mapping = map_option
     (\<lambda>t. (if mapping = [] then [] else '' Shared Physical Memory Map'' @ nl) @ t) (print_mem_lines asinfo mapping)"

text \<open>The overlaps with each other process, in the order of the map.\<close>

fun pid_overlaps :: "asinfo_entry list \<Rightarrow> 32 word \<Rightarrow> map_line list \<Rightarrow> shmem \<Rightarrow> (32 word \<times> shmem_entry list) list option" where
  "pid_overlaps asinfo pid mapping [] = Some []"
| "pid_overlaps asinfo pid mapping ((pid2, mapping2) # l) =
     (if pid \<noteq> pid2 then
        Option.bind (overlap_loop asinfo mapping mapping2 []) (\<lambda>es. map_option (Cons (pid2, es)) (pid_overlaps asinfo pid mapping l))
      else pid_overlaps asinfo pid mapping l)"

definition tymem_text :: "string set \<Rightarrow> string" where
  "tymem_text names = (if names = {} then []
     else '' tymem='' @ concat (map (\<lambda>(i, name). (if i = 0 then [] else '','') @ name) (List.enumerate 0 (sorted_list_of_set names))))"

text \<open>The attributes of the first process are printed for both.\<close>

definition entry_text :: "32 word \<Rightarrow> shmem_entry \<Rightarrow> string" where
  "entry_text pid2 e =
     (let p1 = hex_word (ri_flags (sh_p1 e)) @ '','' @ hex_word (ri_prot (sh_p1 e)) @ '','' @ hex_word (dev (sh_p1 e)) @ '','' @ hex_word (ino (sh_p1 e))
      in ''  ('' @ p1 @ '') <-> '' @ dec_word pid2 @ '': ('' @ p1 @ '') ['' @ object (sh_p1 e) @
         (if object (sh_p1 e) = object (sh_p2 e) then ''] length='' else '','' @ object (sh_p2 e) @ ''] length='') @
         hex_word (sh_size e) @ tymem_text (sh_tymem e) @ nl)"

definition print_shmem :: "asinfo_entry list \<Rightarrow> shmem \<Rightarrow> 32 word \<Rightarrow> map_line list \<Rightarrow> string option" where
  "print_shmem asinfo shmem pid mapping = map_option
     (\<lambda>rs. let lines = concat (map (\<lambda>(pid2, es). map (entry_text pid2) es) rs)
       in (if lines = [] then [] else '' Overlapping Shared Memory Map'' @ nl) @ concat lines) (pid_overlaps asinfo pid mapping shmem)"

section \<open>main\<close>

definition pid_text :: "32 word \<Rightarrow> (int + string) \<Rightarrow> string" where
  "pid_text pid name = ''PID: '' @ dec_word pid @ (case name of Inr n \<Rightarrow> '' ('' @ n @ '')... '' | Inl _ \<Rightarrow> ''... '') @ nl"

fun print_processes :: "lshmem_system \<Rightarrow> asinfo_entry list \<Rightarrow> shm_options \<Rightarrow> 32 word list \<Rightarrow> shmem \<Rightarrow> shmem \<Rightarrow> pids \<Rightarrow> string option" where
  "print_processes sys asinfo o1 pids shmem [] p = Some []"
| "print_processes sys asinfo o1 pids shmem ((pid, mapping) # l) p =
     (if \<not> print_pid_wanted pids pid then print_processes sys asinfo o1 pids shmem l p
      else case get_name (ls_names sys) pid False p of (name, p) \<Rightarrow>
        Option.bind (if so_phys_mem o1 then print_mem_map asinfo mapping else Some []) (\<lambda>t1.
        Option.bind (if so_shared_mem o1 then print_shmem asinfo shmem pid mapping else Some []) (\<lambda>t2.
        map_option (\<lambda>rest. pid_text pid name @ t1 @ t2 @ rest) (print_processes sys asinfo o1 pids shmem l p))))"

definition lshmem_main :: "lshmem_system \<Rightarrow> string option list \<Rightarrow> stop + string option" where
  "lshmem_main sys argv =
     (case shm_make_options argv of
        Inl e \<Rightarrow> Inl e
      | Inr o1 \<Rightarrow>
          let asinfo = fst (get_asinfo (ls_kids sys) (ls_page sys) None);
              out = (if so_tymem o1 then print_tymem asinfo else [])
          in if \<not> so_phys_mem o1 \<and> \<not> so_shared_mem o1 then Inr (Some out)
             else
               let out = out @ (if so_tymem o1 then nl else []);
                   pids = map of_int (so_pids o1);
                   asked = (if pids = [] \<or> so_shared_mem o1 then query_pids (ls_proc sys) else pids);
                   (p, out, shmem) = get_shmem sys (so_verbosity o1) (so_read o1) asked (pids_new, out)
               in Inr (map_option (\<lambda>t. out @ t) (print_processes sys asinfo o1 pids shmem shmem p)))"

section \<open>What the report rests on\<close>

text \<open>The lines of the file of a process that are accepted, when the file can be read and names its columns.\<close>

definition listed :: "lshmem_system \<Rightarrow> bool \<Rightarrow> 32 word \<Rightarrow> map_line list option" where
  "listed sys read pid = (case ls_files sys (mapping_file_name pid) of
      Inr (headline # lines, eof, err) \<Rightarrow>
        (case find_columns headline columns of (cols, col_index) \<Rightarrow>
          if col_index = [] \<or> \<not> eof then None else Some (accepted (ls_mman sys) read cols col_index lines))
    | _ \<Rightarrow> None)"

lemma load_listed:
  assumes "\<And>ls. listed sys read pid = Some ls \<Longrightarrow> separate ls"
  shows "case load_mapping (ls_mman sys) (ls_files sys (mapping_file_name pid)) read of
    Inl e \<Rightarrow> listed sys read pid = None
  | Inr m \<Rightarrow> \<exists>ls. listed sys read pid = Some ls \<and> map_ok m \<and> covers m = covers ls"
proof (cases "ls_files sys (mapping_file_name pid)")
  case (Inl e)
  then show ?thesis by (simp add: load_mapping_def listed_def)
next
  case (Inr f)
  obtain lines eof err where f: "f = (lines, eof, err)" by (metis prod_cases3)
  show ?thesis
  proof (cases lines)
    case Nil
    then show ?thesis using Inr f by (simp add: load_mapping_def listed_def)
  next
    case (Cons headline body)
    obtain cols ci where c: "find_columns headline columns = (cols, ci)" by (rule prod.exhaust)
    have l: "listed sys read pid = (if ci = [] \<or> \<not> eof then None else Some (accepted (ls_mman sys) read cols ci body))"
      using Inr f Cons c by (simp add: listed_def)
    show ?thesis
    proof (cases "ci = [] \<or> \<not> eof")
      case True
      then show ?thesis using l Inr f Cons c by (auto simp: load_mapping_def)
    next
      case False
      then have "separate (accepted (ls_mman sys) read cols ci body)" using assms l by simp
      from load_mapping_covers [OF c this, where eof = eof and err = err] show ?thesis
        using l False Inr f Cons by (auto split: sum.splits)
    qed
  qed
qed

text \<open>The map: sorted by process, with one entry for each process that could be read.\<close>

definition shmem_ok :: "lshmem_system \<Rightarrow> bool \<Rightarrow> 32 word set \<Rightarrow> shmem \<Rightarrow> bool" where
  "shmem_ok sys read P l \<longleftrightarrow> sorted_wrt (<) (map fst l) \<and> fst ` set l = {p \<in> P. p \<noteq> ls_self sys \<and> listed sys read p \<noteq> None} \<and>
     (\<forall>(p, m) \<in> set l. map_ok m \<and> covers m = covers (the (listed sys read p)))"

lemma try_emplace_keys: "fst ` set (try_emplace pid m l) = insert pid (fst ` set l)"
  by (induction pid m l rule: try_emplace.induct) auto

lemma try_emplace_sorted: "sorted_wrt (<) (map fst l) \<Longrightarrow> sorted_wrt (<) (map fst (try_emplace pid m l))"
proof (induction pid m l rule: try_emplace.induct)
  case (2 pid m p m' l)
  have "set (map fst (try_emplace pid m l)) = insert pid (fst ` set l)" using try_emplace_keys [of pid m l] by simp
  then show ?case using 2 by (auto simp: less_le_not_le)
qed simp

lemma try_emplace_set: "set (try_emplace pid m l) \<subseteq> insert (pid, m) (set l)"
  by (induction pid m l rule: try_emplace.induct) auto

lemma get_shmem_pid_ok:
  assumes sep: "\<And>pid ls. listed sys read pid = Some ls \<Longrightarrow> separate ls" and ok: "shmem_ok sys read P (snd (snd s))"
  shows "shmem_ok sys read (insert pid P) (snd (snd (get_shmem_pid sys verbosity read pid s)))"
proof -
  obtain p out l where s: "s = (p, out, l)" by (metis prod_cases3)
  note load = load_listed [of sys read pid, OF sep [of pid]]
  show ?thesis
  proof (cases "pid = ls_self sys")
    case True
    then show ?thesis using ok by (auto simp: s get_shmem_pid_def shmem_ok_def)
  next
    case False
    show ?thesis
    proof (cases "load_mapping (ls_mman sys) (ls_files sys (mapping_file_name pid)) read")
      case (Inl e)
      then have n: "listed sys read pid = None" using load by simp
      have "snd (snd (get_shmem_pid sys verbosity read pid s)) = l" using False Inl by (simp add: s get_shmem_pid_def split_beta)
      moreover have "{q \<in> insert pid P. q \<noteq> ls_self sys \<and> listed sys read q \<noteq> None} = {q \<in> P. q \<noteq> ls_self sys \<and> listed sys read q \<noteq> None}"
        using n by auto
      ultimately show ?thesis using ok unfolding shmem_ok_def s by simp
    next
      case (Inr m)
      then obtain ls where m: "listed sys read pid = Some ls" "map_ok m" "covers m = covers ls" using load by auto
      have r: "snd (snd (get_shmem_pid sys verbosity read pid s)) = try_emplace pid m l"
        using False Inr by (simp add: s get_shmem_pid_def split_beta)
      have "{q \<in> insert pid P. q \<noteq> ls_self sys \<and> listed sys read q \<noteq> None} =
          insert pid {q \<in> P. q \<noteq> ls_self sys \<and> listed sys read q \<noteq> None}" using m(1) False by auto
      moreover have "map_ok m' \<and> covers m' = covers (the (listed sys read p'))" if "(p', m') \<in> set (try_emplace pid m l)" for p' m'
      proof (cases "(p', m') = (pid, m)")
        case True
        then show ?thesis using m by simp
      next
        case False
        then have "(p', m') \<in> set l" using that try_emplace_set [of pid m l] by blast
        then show ?thesis using ok unfolding s shmem_ok_def by auto
      qed
      then have "\<forall>(p', m') \<in> set (try_emplace pid m l). map_ok m' \<and> covers m' = covers (the (listed sys read p'))" by blast
      ultimately show ?thesis unfolding r using ok
        by (simp add: shmem_ok_def s try_emplace_keys try_emplace_sorted)
    qed
  qed
qed

lemma get_shmem_ok:
  assumes "\<And>pid ls. listed sys read pid = Some ls \<Longrightarrow> separate ls"
  shows "shmem_ok sys read (set pids) (snd (snd (get_shmem sys verbosity read pids (p, out))))"
proof -
  have "shmem_ok sys read P (snd (snd s)) \<Longrightarrow> shmem_ok sys read (P \<union> set pids) (snd (snd (fold (get_shmem_pid sys verbosity read) pids s)))" for P s
  proof (induction pids arbitrary: P s)
    case (Cons pid pids)
    have "shmem_ok sys read (insert pid P) (snd (snd (get_shmem_pid sys verbosity read pid s)))"
      by (rule get_shmem_pid_ok [OF _ Cons.prems]) (use assms in blast)
    from Cons.IH [OF this] show ?case by simp
  qed simp
  from this [of "{}" "(p, out, [])"] show ?thesis by (simp add: get_shmem_def shmem_ok_def)
qed

text \<open>The length of each pair of attributes is the number of addresses that two lists have in common with them.\<close>

definition exact_sizes :: "map_line list \<Rightarrow> map_line list \<Rightarrow> shmem_entry list \<Rightarrow> bool" where
  "exact_sizes m1 m2 es \<longleftrightarrow> (\<forall>A B. shared_size A B es = card (both A B m1 m2))"

lemma pid_overlaps_result:
  assumes "\<And>pid2 m2. (pid2, m2) \<in> set l \<Longrightarrow> map_ok m2 \<and> lookups_ok asinfo m m2" "map_ok m"
  shows "\<exists>rs. pid_overlaps asinfo pid m l = Some rs \<and> map fst rs = filter (\<lambda>p. p \<noteq> pid) (map fst l) \<and>
    (\<forall>(pid2, es) \<in> set rs. \<exists>m2. (pid2, m2) \<in> set l \<and> exact_sizes m m2 es)"
  using assms(1)
proof (induction l)
  case (Cons c l)
  obtain pid2 m2 where c: "c = (pid2, m2)" by (rule prod.exhaust)
  have "\<exists>rs. pid_overlaps asinfo pid m l = Some rs \<and> map fst rs = filter (\<lambda>p. p \<noteq> pid) (map fst l) \<and>
    (\<forall>(pid2, es) \<in> set rs. \<exists>m2. (pid2, m2) \<in> set l \<and> exact_sizes m m2 es)"
    by (rule Cons.IH) (use Cons.prems in \<open>meson list.set_intros(2)\<close>)
  then obtain rs where rs: "pid_overlaps asinfo pid m l = Some rs" "map fst rs = filter (\<lambda>p. p \<noteq> pid) (map fst l)"
    "\<forall>(pid2, es) \<in> set rs. \<exists>m2. (pid2, m2) \<in> set l \<and> exact_sizes m m2 es"
    by blast
  have "map_ok m2" "lookups_ok asinfo m m2" using Cons.prems [of pid2 m2] by (simp_all add: c)
  from overlap_lengths [OF assms(2) this] obtain es where "overlap_loop asinfo m m2 [] = Some es"
    "exact_sizes m m2 es" unfolding exact_sizes_def by blast
  then show ?case using rs by (cases "pid = pid2") (auto simp: c)
qed simp

text \<open>C24: The report is exact: when no accepted line of a file overlaps another of the same file, and the typed memory can be
  searched, the overlaps of a process list every other process that could be read, in the order of their
  numbers, and for each pair of attributes the length is the number of addresses that both files list
  with them.\<close>

theorem lshmem_overlaps_exact:
  assumes "\<And>pid ls. listed sys read pid = Some ls \<Longrightarrow> separate ls" "get_shmem sys verbosity read pids (p, out) = (p', out', shmem)"
    and "\<And>p1 m1 p2 m2. (p1, m1) \<in> set shmem \<Longrightarrow> (p2, m2) \<in> set shmem \<Longrightarrow> lookups_ok asinfo m1 m2" "(pid, m) \<in> set shmem"
  shows "\<exists>rs. pid_overlaps asinfo pid m shmem = Some rs \<and> sorted_wrt (<) (map fst rs) \<and>
    fst ` set rs = {p \<in> set pids. p \<noteq> pid \<and> p \<noteq> ls_self sys \<and> listed sys read p \<noteq> None} \<and>
    (\<forall>(pid2, es) \<in> set rs. exact_sizes (the (listed sys read pid)) (the (listed sys read pid2)) es)"
proof -
  have ok: "shmem_ok sys read (set pids) shmem"
    using get_shmem_ok [of sys read pids verbosity p out] assms(1,2) by (metis snd_conv)
  have same: "exact_sizes m1 m2 es \<longleftrightarrow> exact_sizes l1 l2 es" if "covers m1 = covers l1" "covers m2 = covers l2" for m1 m2 l1 l2 es
    using that by (simp add: exact_sizes_def both_def)
  have c: "map_ok m2 \<and> covers m2 = covers (the (listed sys read p2))" if "(p2, m2) \<in> set shmem" for p2 m2
    using ok that by (auto simp: shmem_ok_def)
  obtain rs where rs: "pid_overlaps asinfo pid m shmem = Some rs" "map fst rs = filter (\<lambda>p. p \<noteq> pid) (map fst shmem)"
    "\<forall>(pid2, es) \<in> set rs. \<exists>m2. (pid2, m2) \<in> set shmem \<and> exact_sizes m m2 es"
    using pid_overlaps_result [of shmem asinfo m pid] assms(3,4) c by blast
  have "sorted_wrt (<) (map fst rs)" unfolding rs(2) using ok by (intro sorted_wrt_filter) (simp add: shmem_ok_def)
  moreover have "fst ` set rs = {p \<in> set pids. p \<noteq> pid \<and> p \<noteq> ls_self sys \<and> listed sys read p \<noteq> None}"
    using arg_cong [OF rs(2), of set] ok by (auto simp: shmem_ok_def)
  moreover have "\<forall>(pid2, es) \<in> set rs. exact_sizes (the (listed sys read pid)) (the (listed sys read pid2)) es"
  proof clarify
    fix pid2 es assume "(pid2, es) \<in> set rs"
    then obtain m2 where m2: "(pid2, m2) \<in> set shmem" "exact_sizes m m2 es" using rs(3) by blast
    then show "exact_sizes (the (listed sys read pid)) (the (listed sys read pid2)) es"
      using same c [OF m2(1)] c [OF assms(4)] by blast
  qed
  ultimately show ?thesis using rs(1) by blast
qed

definition two_processes :: lshmem_system where
  "two_processes = \<lparr>ls_self = 5, ls_files = (\<lambda>f. if f = ''/proc/7/mappings'' \<or> f = ''/proc/8/mappings''
       then Inr ([''mi_paddr,mi_pgsize,ri_flags,ri_prot,dev,ino,object_name'', ''0x1000,0x2000,0x1,0x0,0x1,0x1,/x''], True, 0) else Inl 2),
     ls_names = (\<lambda>_ _. Inl 3), ls_proc = None, ls_mman = qnx_mman, ls_kids = 1, ls_page = []\<rparr>"

abbreviation one_line :: map_line where
  "one_line \<equiv> \<lparr>phys_addr = 0x1000, phys_len = 0x2000, ri_flags = 1, ri_prot = 0, dev = 1, ino = 1, object = ''/x''\<rparr>"

lemma two_processes_listed:
  "listed two_processes True pid = (if mapping_file_name pid \<in> {''/proc/7/mappings'', ''/proc/8/mappings''} then Some [one_line] else None)"
proof -
  have f: "find_columns ''mi_paddr,mi_pgsize,ri_flags,ri_prot,dev,ino,object_name'' columns = (7, [0, 1, 2, 3, 4, 5, 6])" by code_simp
  have a: "accepted qnx_mman True 7 [0, 1, 2, 3, 4, 5, 6] [''0x1000,0x2000,0x1,0x0,0x1,0x1,/x''] = [one_line]" by code_simp
  have "ls_files two_processes (mapping_file_name pid) = (if mapping_file_name pid \<in> {''/proc/7/mappings'', ''/proc/8/mappings''}
      then Inr ([''mi_paddr,mi_pgsize,ri_flags,ri_prot,dev,ino,object_name'', ''0x1000,0x2000,0x1,0x0,0x1,0x1,/x''], True, 0) else Inl 2)"
    by (simp add: two_processes_def)
  moreover have "ls_mman two_processes = qnx_mman" by (simp add: two_processes_def)
  ultimately show ?thesis
    by (cases "mapping_file_name pid \<in> {''/proc/7/mappings'', ''/proc/8/mappings''}")
      (simp_all add: listed_def f a del: accepted.simps One_nat_def insert_iff)
qed

lemma two_names: "mapping_file_name 7 = ''/proc/7/mappings''" "mapping_file_name 8 = ''/proc/8/mappings''"
  by (simp_all add: mapping_file_name_def dec_word_def nat_to_string.simps digit_char_def char_of_def bit_simps)

lemma lshmem_overlaps_exact_witness:
  "\<exists>p out shmem m rs es. get_shmem two_processes 0 True [8, 7, 9] (pids_new, []) = (p, out, shmem) \<and> (7, m) \<in> set shmem \<and>
     pid_overlaps [] 7 m shmem = Some rs \<and> (8, es) \<in> set rs \<and> shared_size (attrs one_line) (attrs one_line) es = 0x2000"
proof -
  obtain p out shmem where g: "get_shmem two_processes 0 True [8, 7, 9] (pids_new, []) = (p, out, shmem)" by (metis prod_cases3)
  have sep: "separate ls" if "listed two_processes True pid = Some ls" for pid ls
    using that by (auto simp: two_processes_listed separate_def line_ok_def st_def en_def split: if_splits)
  have l: "lookups_ok [] m1 m2" for m1 m2 by (simp add: lookups_ok_def get_tymem_name_def)
  have "shmem_ok two_processes True (set [8, 7, 9]) shmem"
    using get_shmem_ok [of two_processes True "[8, 7, 9]" 0 pids_new "[]"] sep g by (metis snd_conv)
  moreover have self: "ls_self two_processes = 5" by (simp add: two_processes_def)
  ultimately have "7 \<in> fst ` set shmem" by (simp add: shmem_ok_def two_processes_listed two_names)
  then obtain m where m: "(7, m) \<in> set shmem" by auto
  have l7: "listed two_processes True 7 = Some [one_line]" "listed two_processes True 8 = Some [one_line]"
    by (simp_all add: two_processes_listed two_names)
  have "\<exists>rs. pid_overlaps [] 7 m shmem = Some rs \<and> sorted_wrt (<) (map fst rs) \<and>
    fst ` set rs = {p \<in> set [8, 7, 9]. p \<noteq> 7 \<and> p \<noteq> ls_self two_processes \<and> listed two_processes True p \<noteq> None} \<and>
    (\<forall>(pid2, es) \<in> set rs. exact_sizes (the (listed two_processes True 7)) (the (listed two_processes True pid2)) es)"
    by (rule lshmem_overlaps_exact [OF _ g l m]) (erule sep)
  then obtain rs where rs: "pid_overlaps [] 7 m shmem = Some rs"
    "fst ` set rs = {p \<in> set [8, 7, 9]. p \<noteq> 7 \<and> p \<noteq> ls_self two_processes \<and> listed two_processes True p \<noteq> None}"
    "\<forall>(pid2, es) \<in> set rs. exact_sizes (the (listed two_processes True 7)) (the (listed two_processes True pid2)) es"
    by blast
  have "8 \<in> fst ` set rs" unfolding rs(2) by (simp add: l7 self)
  then obtain es where es: "(8, es) \<in> set rs" by auto
  then have "exact_sizes [one_line] [one_line] es" using rs(3) l7 by auto
  then have "shared_size (attrs one_line) (attrs one_line) es = card (both (attrs one_line) (attrs one_line) [one_line] [one_line])"
    by (simp only: exact_sizes_def)
  also have "both (attrs one_line) (attrs one_line) [one_line] [one_line] = {0x1000..<0x3000}"
    by (auto simp: both_def covers_def attrs_def st_def en_def)
  finally show ?thesis using g m rs(1) es by auto
qed

end
