(* ===== verification/Lsqf.thy ===== *)
theory Lsqf
  imports Pids ToolOptions UdpSocket
begin

text \<open>
  The tool \<open>lsqf\<close>: the text of a mode (\<open>file.cpp\<close>), and the connections of a process with the
  requests that describe them (\<open>lsqf.cpp\<close>).  The tables of the system are arguments: the connection of a process
  with the least number from a given one on, and the answers to the requests, which may depend on the ones before.  The
  connections the tool makes itself are the calls it leaves in a record.
\<close>

section \<open>The text of a mode\<close>

definition mode_type :: "32 word \<Rightarrow> char" where
  "mode_type m =
     (if m AND 0xF000 = 0x1000 then CHR ''p''
      else if m AND 0xF000 = 0x2000 then CHR ''c''
      else if m AND 0xF000 = 0x4000 then CHR ''d''
      else if m AND 0xF000 = 0x5000 then CHR ''n''
      else if m AND 0xF000 = 0x6000 then CHR ''b''
      else if m AND 0xF000 = 0x8000 then CHR ''-''
      else if m AND 0xF000 = 0xA000 then CHR ''l''
      else if m AND 0xF000 = 0xC000 then CHR ''s''
      else CHR ''?'')"

text \<open>The bits to read, write and execute of one class, and the bit that changes how the last one is shown.\<close>

definition mode_class :: "32 word \<Rightarrow> 32 word \<Rightarrow> 32 word \<Rightarrow> 32 word \<Rightarrow> 32 word \<Rightarrow> char \<Rightarrow> char \<Rightarrow> string" where
  "mode_class m r w x s both alone =
     [if m AND r \<noteq> 0 then CHR ''r'' else CHR ''-'',
      if m AND w \<noteq> 0 then CHR ''w'' else CHR ''-'',
      if m AND (x OR s) = x then CHR ''x''
      else if m AND (x OR s) = x + s then both
      else if m AND (x OR s) = s then alone
      else CHR ''-'']"

definition modestr :: "32 word \<Rightarrow> string" where
  "modestr m = mode_type m # mode_class m 0x100 0x80 0x40 0x800 (CHR ''s'') (CHR ''S'')
     @ mode_class m 0x20 0x10 0x8 0x400 (CHR ''s'') (CHR ''S'')
     @ mode_class m 0x4 0x2 0x1 0x200 (CHR ''t'') (CHR ''T'')"

text \<open>Reading the text back.\<close>

definition read_class :: "char \<Rightarrow> char \<Rightarrow> char \<Rightarrow> bool list" where
  "read_class r w x = [r = CHR ''r'', w = CHR ''w'', x \<in> {CHR ''x'', CHR ''s'', CHR ''t''},
     x \<in> {CHR ''s'', CHR ''S'', CHR ''t'', CHR ''T''}]"

definition class_bits :: "32 word \<Rightarrow> nat \<Rightarrow> nat \<Rightarrow> nat \<Rightarrow> nat \<Rightarrow> bool list" where
  "class_bits m r w x s = [bit m r, bit m w, bit m x, bit m s]"

lemma and_bit: "m AND push_bit n 1 \<noteq> 0 \<longleftrightarrow> bit (m :: 32 word) n"
  by (metis and_exp_eq_0_iff_not_bit push_bit_of_1)

lemma mode_class_bits:
  assumes "b \<in> {CHR ''s'', CHR ''t''}" "a \<in> {CHR ''S'', CHR ''T''}" "x \<noteq> s" "x < 32" "s < 32"
  shows "case mode_class m (push_bit r 1) (push_bit w 1) (push_bit x 1) (push_bit s 1) b a of [c1, c2, c3] \<Rightarrow>
    read_class c1 c2 c3 = class_bits m r w x s | _ \<Rightarrow> False"
proof -
  define X S where XS: "X = (push_bit x 1 :: 32 word)" "S = (push_bit s 1 :: 32 word)"
  have bx: "bit X i \<longleftrightarrow> i = x" "bit S i \<longleftrightarrow> i = s" for i
    using assms(4,5) by (auto simp: XS bit_simps)
  have eq: "A = B \<longleftrightarrow> (\<forall>i. bit A i \<longleftrightarrow> bit B i)" for A B :: "32 word" by (auto intro: bit_eqI)
  have sum: "X + S = X OR S"
    by (rule disjunctive_add) (use bx assms(3) in auto)
  have c: "m AND (X OR S) = X \<longleftrightarrow> bit m x \<and> \<not> bit m s"
    "m AND (X OR S) = X OR S \<longleftrightarrow> bit m x \<and> bit m s"
    "m AND (X OR S) = S \<longleftrightarrow> \<not> bit m x \<and> bit m s"
    unfolding eq bit_and_iff bit_or_iff bx using assms(3) by auto
  show ?thesis unfolding mode_class_def XS [symmetric] sum c and_bit
    using assms(1,2) by (auto simp: read_class_def class_bits_def)
qed

definition mode_types :: "(char \<times> 32 word) list" where
  "mode_types = [(CHR ''p'', 0x1000), (CHR ''c'', 0x2000), (CHR ''d'', 0x4000), (CHR ''n'', 0x5000), (CHR ''b'', 0x6000),
     (CHR ''-'', 0x8000), (CHR ''l'', 0xA000), (CHR ''s'', 0xC000)]"

text \<open>C30: The text has ten characters; the first one names the type, when it is one of the eight, and the others give
  back each permission bit.\<close>

theorem modestr_reads_back:
  "\<exists>t a1 a2 a3 b1 b2 b3 c1 c2 c3. modestr m = [t, a1, a2, a3, b1, b2, b3, c1, c2, c3] \<and>
     (case map_of mode_types t of Some f \<Rightarrow> m AND 0xF000 = f | None \<Rightarrow> t = CHR ''?'' \<and> m AND 0xF000 \<notin> snd ` set mode_types) \<and>
     read_class a1 a2 a3 = class_bits m 8 7 6 11 \<and> read_class b1 b2 b3 = class_bits m 5 4 3 10 \<and> read_class c1 c2 c3 = class_bits m 2 1 0 9"
proof -
  have t: "case map_of mode_types (mode_type m) of Some f \<Rightarrow> m AND 0xF000 = f | None \<Rightarrow> mode_type m = CHR ''?'' \<and> m AND 0xF000 \<notin> snd ` set mode_types"
    unfolding mode_type_def mode_types_def by (simp split: if_splits)
  have c: "\<exists>c1 c2 c3. mode_class m r w x s b a = [c1, c2, c3]" for r w x s b a by (simp add: mode_class_def)
  obtain a1 a2 a3 where a: "mode_class m 0x100 0x80 0x40 0x800 (CHR ''s'') (CHR ''S'') = [a1, a2, a3]" using c by blast
  obtain b1 b2 b3 where b: "mode_class m 0x20 0x10 0x8 0x400 (CHR ''s'') (CHR ''S'') = [b1, b2, b3]" using c by blast
  obtain c1 c2 c3 where c: "mode_class m 0x4 0x2 0x1 0x200 (CHR ''t'') (CHR ''T'') = [c1, c2, c3]" using c by blast
  have "read_class a1 a2 a3 = class_bits m 8 7 6 11" using mode_class_bits [of "CHR ''s''" "CHR ''S''" 6 11 m 8 7] a by simp
  moreover have "read_class b1 b2 b3 = class_bits m 5 4 3 10" using mode_class_bits [of "CHR ''s''" "CHR ''S''" 3 10 m 5 4] b by simp
  moreover have "read_class c1 c2 c3 = class_bits m 2 1 0 9" using mode_class_bits [of "CHR ''t''" "CHR ''T''" 0 9 m 2 1] c by simp
  ultimately show ?thesis using t unfolding modestr_def a b c by (intro exI conjI) simp_all
qed

section \<open>The connections of a process\<close>

record server_info =
  si_pid :: int
  si_scoid :: "32 word"
  si_flags :: "32 word"

record fdinfo =
  fi_mode :: "32 word"
  fi_flags :: "32 word"
  fi_ioflag :: "32 word"

text \<open>The constants of the system.\<close>

record nto =
  SIDE_CHANNEL :: "32 word"
  CONNECTION_SCOID :: "32 word"
  COF_DEAD :: "32 word"
  COF_CLOEXEC :: "32 word"
  IO_FLAG_RD :: "32 word"
  IO_FLAG_WR :: "32 word"
  PATHMGR_PID :: int

text \<open>The calls that make, use and give up a connection.\<close>

datatype qf_call = Attach server_info int | Dup int int | Fdinfo int | Ip_info int | Detach int | Close int

record qf_system =
  qf_attach :: "qf_call list \<Rightarrow> server_info \<Rightarrow> int"
  qf_dup :: "qf_call list \<Rightarrow> int \<Rightarrow> bool"
  qf_fdinfo :: "qf_call list \<Rightarrow> int \<Rightarrow> (fdinfo \<times> string) option"
  qf_ip :: "qf_call list \<Rightarrow> int \<Rightarrow> string option"

record coids =
  show_self :: bool
  show_dead :: bool
  show_side_channel :: bool
  show_full_path :: bool
  self_pid :: int

definition s_issock :: "32 word \<Rightarrow> bool" where
  "s_issock m \<longleftrightarrow> m AND 0xF000 = 0xC000"

text \<open>What is asked of a descriptor: its mode and path, and for a socket its addresses.\<close>

definition ask_fd :: "qf_system \<Rightarrow> int \<Rightarrow> qf_call list \<Rightarrow> (fdinfo \<times> string) option \<times> qf_call list" where
  "ask_fd sys fd tr =
     (case qf_fdinfo sys tr fd of
        None \<Rightarrow> (None, tr @ [Fdinfo fd])
      | Some (i, path) \<Rightarrow>
          let tr = tr @ [Fdinfo fd] in
          if s_issock (fi_mode i) then
            (Some (i, (case qf_ip sys tr fd of Some p \<Rightarrow> p | None \<Rightarrow> path)), tr @ [Ip_info fd])
          else (Some (i, path), tr))"

text \<open>The descriptor of another process is asked through a connection that becomes a duplicate of it.\<close>

definition query_fd :: "qf_system \<Rightarrow> coids \<Rightarrow> int \<Rightarrow> int \<Rightarrow> server_info \<Rightarrow> qf_call list \<Rightarrow> (fdinfo \<times> string) option \<times> qf_call list" where
  "query_fd sys q pid fd sinfo tr =
     (if pid \<noteq> self_pid q then
        let dup_fd = qf_attach sys tr sinfo; tr = tr @ [Attach sinfo dup_fd] in
        if dup_fd \<noteq> -1 then
          let ok = qf_dup sys tr dup_fd; tr = tr @ [Dup dup_fd fd] in
          if \<not> ok then (case fdesc_reset dup_fd of (old, dup_fd) \<Rightarrow>
            (None, if dup_fd \<noteq> -1 then tr @ [Detach old, Close dup_fd] else tr @ [Detach old]))
          else case ask_fd sys dup_fd tr of (i, tr) \<Rightarrow> (i, tr @ [Close dup_fd])
        else (None, tr)
      else ask_fd sys fd tr)"

definition shown :: "nto \<Rightarrow> coids \<Rightarrow> int \<Rightarrow> int \<Rightarrow> server_info \<Rightarrow> bool" where
  "shown nto q pid fd sinfo \<longleftrightarrow>
     \<not> (\<not> show_self q \<and> si_pid sinfo = pid) \<and>
     \<not> (of_int fd AND SIDE_CHANNEL nto \<noteq> 0 \<and> \<not> show_side_channel q) \<and>
     \<not> (si_flags sinfo AND COF_DEAD nto \<noteq> 0 \<and> \<not> show_dead q)"

definition fd_flags :: "nto \<Rightarrow> int \<Rightarrow> server_info \<Rightarrow> string" where
  "fd_flags nto fd sinfo =
     (if of_int fd AND SIDE_CHANNEL nto \<noteq> 0 then ''s'' else []) @
     (if si_flags sinfo AND COF_DEAD nto \<noteq> 0 then ''d'' else []) @
     (if si_flags sinfo AND COF_CLOEXEC nto \<noteq> 0 then ''c'' else [])"

definition io_flags :: "nto \<Rightarrow> server_info \<Rightarrow> fdinfo option \<Rightarrow> string" where
  "io_flags nto sinfo fdinfo = (case fdinfo of None \<Rightarrow> []
     | Some i \<Rightarrow>
         let ioflag = (if si_pid sinfo = PATHMGR_PID nto \<and> fi_mode i = 0 then fi_flags i else fi_ioflag i)
         in [if ioflag AND IO_FLAG_RD nto \<noteq> 0 then CHR ''r'' else CHR ''-'',
             if ioflag AND IO_FLAG_WR nto \<noteq> 0 then CHR ''w'' else CHR ''-''])"

text \<open>\<open>std::left << std::setw(n)\<close>\<close>

definition setw_left :: "nat \<Rightarrow> string \<Rightarrow> string" where
  "setw_left n s = s @ replicate (n - length s) (CHR '' '')"

definition in_parens :: "int \<Rightarrow> string" where
  "in_parens n = ''('' @ int_to_string n @ '')''"

definition proc_text :: "(int + string) \<Rightarrow> int \<Rightarrow> string" where
  "proc_text name pid = (case name of Inr n \<Rightarrow> n @ '' '' @ in_parens pid | Inl _ \<Rightarrow> in_parens pid)"

definition conn_text :: "nto \<Rightarrow> coids \<Rightarrow> int \<Rightarrow> server_info \<Rightarrow> (int + string) \<Rightarrow> string" where
  "conn_text nto q pid sinfo name =
     (case name of Inr n \<Rightarrow> n | Inl _ \<Rightarrow> []) @
     (if show_self q \<and> si_pid sinfo = pid then
        let selffd = si_scoid sinfo AND NOT (CONNECTION_SCOID nto) in
        if selffd AND SIDE_CHANNEL nto \<noteq> 0 then '':'' @ int_to_string (sint (selffd AND NOT (SIDE_CHANNEL nto))) @ ''s''
        else '':'' @ int_to_string (sint selffd)
      else []) @ '' '' @ in_parens (si_pid sinfo)"

text \<open>The state: the names, the calls, and the lines of the output.\<close>

type_synonym qf_state = "pids \<times> qf_call list \<times> string list"

definition print_fd :: "proc_names \<Rightarrow> nto \<Rightarrow> qf_system \<Rightarrow> coids \<Rightarrow> int \<Rightarrow> int \<Rightarrow> server_info \<Rightarrow> qf_state \<Rightarrow> qf_state" where
  "print_fd proc nto sys q pid fd sinfo = (\<lambda>(p, tr, out).
     if \<not> shown nto q pid fd sinfo then (p, tr, out)
     else
       let is_side_channel = of_int fd AND SIDE_CHANNEL nto \<noteq> 0;
           is_dead = si_flags sinfo AND COF_DEAD nto \<noteq> 0;
           (info, tr) = (if \<not> is_dead \<and> \<not> is_side_channel then query_fd sys q pid fd sinfo tr else (None, tr));
           flags = fd_flags nto fd sinfo @ io_flags nto sinfo (map_option fst info);
           (procpid, p) = get_name proc (of_int pid) (\<not> show_full_path q) p;
           fdc = int_to_string (sint (of_int fd AND NOT (SIDE_CHANNEL nto) :: 32 word)) @ flags;
           (rsrcpid, p) = get_name proc (of_int (si_pid sinfo)) (\<not> show_full_path q) p;
           line = setw_left 25 (proc_text procpid pid) @ '' '' @ setw_left 10 fdc @ '' '' @
             setw_left 25 (conn_text nto q pid sinfo rsrcpid) @ '' '' @
             (case info of None \<Rightarrow> [] | Some (i, path) \<Rightarrow> setw_left 10 (modestr (fi_mode i)) @ '' '' @ path)
       in (p, tr, out @ [line]))"

text \<open>\<open>server_info pid fd\<close> is the connection of the process with the least number from \<open>fd\<close> on, or none.\<close>

partial_function (option) print_loop :: "proc_names \<Rightarrow> nto \<Rightarrow> qf_system \<Rightarrow> (int \<Rightarrow> int \<Rightarrow> (int \<times> server_info) option) \<Rightarrow> coids
    \<Rightarrow> int \<times> int \<times> qf_state \<Rightarrow> qf_state option" where
  "print_loop proc nto sys server q s = (case s of (pid, fd, st) \<Rightarrow>
     (case server pid fd of
        None \<Rightarrow> Some st
      | Some (fd, sinfo) \<Rightarrow> print_loop proc nto sys server q (pid, fd + 1, print_fd proc nto sys q pid fd sinfo st)))"

definition print_pid :: "proc_names \<Rightarrow> nto \<Rightarrow> qf_system \<Rightarrow> (int \<Rightarrow> int \<Rightarrow> (int \<times> server_info) option) \<Rightarrow> coids \<Rightarrow> int \<Rightarrow> qf_state \<Rightarrow> qf_state option" where
  "print_pid proc nto sys server q pid st = print_loop proc nto sys server q (pid, 0, st)"

fun print_pids :: "proc_names \<Rightarrow> nto \<Rightarrow> qf_system \<Rightarrow> (int \<Rightarrow> int \<Rightarrow> (int \<times> server_info) option) \<Rightarrow> coids \<Rightarrow> int list \<Rightarrow> qf_state \<Rightarrow> qf_state option" where
  "print_pids proc nto sys server q [] st = Some st"
| "print_pids proc nto sys server q (pid # pids) st = Option.bind (print_pid proc nto sys server q pid st) (print_pids proc nto sys server q pids)"

definition lsqf_coids :: "qf_options \<Rightarrow> int \<Rightarrow> coids" where
  "lsqf_coids o1 self = \<lparr>show_self = qo_show_self o1, show_dead = qo_show_dead o1, show_side_channel = qo_show_sidechannels o1,
     show_full_path = (qo_verbosity o1 \<ge> 1), self_pid = self\<rparr>"

text \<open>The lines behind the two of the header.  A process that is asked for is converted to \<open>int\<close>.\<close>

definition lsqf_main :: "proc_names \<Rightarrow> nto \<Rightarrow> qf_system \<Rightarrow> (int \<Rightarrow> int \<Rightarrow> (int \<times> server_info) option) \<Rightarrow> int \<Rightarrow> proc_entry list option
    \<Rightarrow> string option list \<Rightarrow> stop + (qf_call list \<times> string list) option" where
  "lsqf_main proc nto sys server self entries argv =
     (case qf_make_options argv of
        Inl e \<Rightarrow> Inl e
      | Inr o1 \<Rightarrow>
          let pids = (if qo_pids o1 = [] then map uint (query_pids entries) else qo_pids o1)
          in Inr (map_option snd (print_pids proc nto sys server (lsqf_coids o1 self)
               (map (\<lambda>pid. sint (of_int pid :: 32 word)) pids) (pids_new, [], []))))"

section \<open>Every connection once\<close>

text \<open>The table of a process: connections with increasing numbers.\<close>

definition table_ok :: "(int \<times> server_info) list \<Rightarrow> bool" where
  "table_ok l \<longleftrightarrow> sorted_wrt (<) (map fst l) \<and> (\<forall>c \<in> set l. 0 \<le> fst c)"

definition least_from :: "(int \<times> server_info) list \<Rightarrow> int \<Rightarrow> (int \<times> server_info) option" where
  "least_from l fd = find (\<lambda>c. fd \<le> fst c) l"

lemma find_append: "find Q (xs @ ys) = (case find Q xs of Some x \<Rightarrow> Some x | None \<Rightarrow> find Q ys)"
  by (induction xs) simp_all

lemma least_from_split:
  assumes "sorted_wrt (<) (map fst (pre @ c # suf))" "\<forall>d \<in> set pre. fst d < fd" "fd \<le> fst c"
  shows "least_from (pre @ c # suf) fd = Some c" "\<forall>d \<in> set (pre @ [c]). fst d < fst c + 1" "\<forall>d \<in> set suf. fst c + 1 \<le> fst d"
proof -
  have "find (\<lambda>c. fd \<le> fst c) pre = None" using assms(2) by (auto simp: find_None_iff)
  then show "least_from (pre @ c # suf) fd = Some c" using assms(3) by (simp add: least_from_def find_append)
  show "\<forall>d \<in> set (pre @ [c]). fst d < fst c + 1" using assms(1) by (auto simp: sorted_wrt_append)
  show "\<forall>d \<in> set suf. fst c + 1 \<le> fst d" using assms(1) by (auto simp: sorted_wrt_append)
qed

lemma print_loop_table:
  assumes "\<And>fd. server pid fd = least_from (pre @ suf) fd" "sorted_wrt (<) (map fst (pre @ suf))"
    "\<forall>d \<in> set pre. fst d < fd" "\<forall>d \<in> set suf. fd \<le> fst d"
  shows "print_loop proc nto sys server q (pid, fd, st) = Some (fold (\<lambda>(fd, sinfo). print_fd proc nto sys q pid fd sinfo) suf st)"
  using assms
proof (induction suf arbitrary: pre fd st)
  case Nil
  have "server pid fd = None" using Nil by (auto simp: least_from_def find_None_iff)
  then show ?case by (subst print_loop.simps) simp
next
  case (Cons c suf)
  obtain k sinfo where c: "c = (k, sinfo)" by (rule prod.exhaust)
  have le: "fd \<le> fst c" using Cons.prems(4) by simp
  note split = least_from_split [OF Cons.prems(2,3) le]
  have "print_loop proc nto sys server q (pid, k + 1, print_fd proc nto sys q pid k sinfo st) =
      Some (fold (\<lambda>(fd, sinfo). print_fd proc nto sys q pid fd sinfo) suf (print_fd proc nto sys q pid k sinfo st))"
    using Cons.prems(1,2) split(2,3) by (intro Cons.IH [of "pre @ [c]"]) (simp_all add: c)
  moreover have "server pid fd = Some (k, sinfo)" using Cons.prems(1) split(1) c by simp
  ultimately show ?case by (subst print_loop.simps) (simp add: c)
qed

lemma print_pid_table:
  assumes "\<And>fd. server pid fd = least_from l fd" "table_ok l"
  shows "print_pid proc nto sys server q pid st = Some (fold (\<lambda>(fd, sinfo). print_fd proc nto sys q pid fd sinfo) l st)"
  using print_loop_table [of server pid "[]" l 0] assms by (auto simp: print_pid_def table_ok_def)

text \<open>The line of a connection: its process, its number and its flags.\<close>

definition line_of :: "nto \<Rightarrow> int \<times> int \<times> server_info \<Rightarrow> string \<Rightarrow> bool" where
  "line_of nto = (\<lambda>(pid, fd, sinfo) line. \<exists>name io rest.
     line = setw_left 25 (proc_text name pid) @ '' '' @
       setw_left 10 (int_to_string (sint (of_int fd AND NOT (SIDE_CHANNEL nto) :: 32 word)) @ fd_flags nto fd sinfo @ io) @ '' '' @ rest)"

definition to_show :: "nto \<Rightarrow> coids \<Rightarrow> (int \<Rightarrow> (int \<times> server_info) list) \<Rightarrow> int list \<Rightarrow> (int \<times> int \<times> server_info) list" where
  "to_show nto q tables pids = concat (map (\<lambda>pid. map (Pair pid) (filter (\<lambda>(fd, sinfo). shown nto q pid fd sinfo) (tables pid))) pids)"

lemma print_fd_line:
  "\<exists>lines. snd (snd (print_fd proc nto sys q pid fd sinfo st)) = snd (snd st) @ lines \<and>
     list_all2 (line_of nto) (if shown nto q pid fd sinfo then [(pid, fd, sinfo)] else []) lines"
proof -
  obtain p tr out where st: "st = (p, tr, out)" by (metis prod_cases3)
  show ?thesis
  proof (cases "shown nto q pid fd sinfo")
    case False
    then show ?thesis by (simp add: print_fd_def st)
  next
    case True
    then show ?thesis
      by (auto simp: print_fd_def st line_of_def Let_def split_beta split: option.splits)
  qed
qed

lemma print_fds_lines:
  "\<exists>lines. snd (snd (fold (\<lambda>(fd, sinfo). print_fd proc nto sys q pid fd sinfo) l st)) = snd (snd st) @ lines \<and>
     list_all2 (line_of nto) (map (Pair pid) (filter (\<lambda>(fd, sinfo). shown nto q pid fd sinfo) l)) lines"
proof (induction l arbitrary: st)
  case (Cons c l)
  obtain fd sinfo where c: "c = (fd, sinfo)" by (rule prod.exhaust)
  obtain l1 where l1: "snd (snd (print_fd proc nto sys q pid fd sinfo st)) = snd (snd st) @ l1"
    "list_all2 (line_of nto) (if shown nto q pid fd sinfo then [(pid, fd, sinfo)] else []) l1" using print_fd_line by blast
  obtain l2 where l2: "snd (snd (fold (\<lambda>(fd, sinfo). print_fd proc nto sys q pid fd sinfo) l (print_fd proc nto sys q pid fd sinfo st))) =
      snd (snd (print_fd proc nto sys q pid fd sinfo st)) @ l2"
    "list_all2 (line_of nto) (map (Pair pid) (filter (\<lambda>(fd, sinfo). shown nto q pid fd sinfo) l)) l2" using Cons.IH by blast
  have "list_all2 (line_of nto) (map (Pair pid) (filter (\<lambda>(fd, sinfo). shown nto q pid fd sinfo) (c # l))) (l1 @ l2)"
    using list_all2_appendI [OF l1(2) l2(2)] by (simp add: c split: if_splits)
  then show ?case using l1(1) l2(1) by (simp add: c)
qed simp

text \<open>C28: Whatever the names are and the requests answer, the listing ends, with one line for each connection that the
  options ask for, process by process and in the order of the numbers.\<close>

theorem lsqf_lists_all:
  assumes "\<And>pid fd. server pid fd = least_from (tables pid) fd" "\<And>pid. table_ok (tables pid)"
  shows "\<exists>p tr lines. print_pids proc nto sys server q pids (p0, tr0, []) = Some (p, tr, lines) \<and>
    list_all2 (line_of nto) (to_show nto q tables pids) lines"
proof -
  have "\<exists>p tr lines. print_pids proc nto sys server q pids (p0, tr0, out) = Some (p, tr, out @ lines) \<and>
      list_all2 (line_of nto) (to_show nto q tables pids) lines" for p0 tr0 out
  proof (induction pids arbitrary: p0 tr0 out)
    case Nil
    then show ?case by (simp add: to_show_def)
  next
    case (Cons pid pids)
    let ?st = "fold (\<lambda>(fd, sinfo). print_fd proc nto sys q pid fd sinfo) (tables pid) (p0, tr0, out)"
    obtain l1 where l1: "snd (snd ?st) = out @ l1"
      "list_all2 (line_of nto) (map (Pair pid) (filter (\<lambda>(fd, sinfo). shown nto q pid fd sinfo) (tables pid))) l1"
      using print_fds_lines [of proc nto sys q pid "tables pid" "(p0, tr0, out)"] by auto
    obtain p1 tr1 where st: "?st = (p1, tr1, out @ l1)" using l1(1) by (metis prod.collapse)
    obtain p tr lines where r: "print_pids proc nto sys server q pids (p1, tr1, out @ l1) = Some (p, tr, (out @ l1) @ lines)"
      "list_all2 (line_of nto) (to_show nto q tables pids) lines" using Cons.IH by blast
    have "list_all2 (line_of nto) (to_show nto q tables (pid # pids)) (l1 @ lines)"
      using list_all2_appendI [OF l1(2) r(2)] by (simp add: to_show_def)
    then show ?case using r(1) print_pid_table [OF assms] st by simp
  qed
  from this [of p0 tr0 "[]"] show ?thesis by simp
qed

definition qnx_nto :: nto where
  "qnx_nto = \<lparr>SIDE_CHANNEL = 0x40000000, CONNECTION_SCOID = 0x10000, COF_DEAD = 2, COF_CLOEXEC = 1, IO_FLAG_RD = 1, IO_FLAG_WR = 2, PATHMGR_PID = 1\<rparr>"

definition one_table :: "int \<Rightarrow> (int \<times> server_info) list" where
  "one_table pid = (if pid = 7 then [(0, \<lparr>si_pid = 1, si_scoid = 0, si_flags = 0\<rparr>), (1, \<lparr>si_pid = 9, si_scoid = 0, si_flags = 2\<rparr>)] else [])"

text \<open>The connections that a record of calls leaves open.\<close>

fun qf_step :: "qf_call \<Rightarrow> int set \<Rightarrow> int set" where
  "qf_step (Attach _ d) L = (if d = -1 then L else insert d L)"
| "qf_step (Detach d) L = L - {d}"
| "qf_step (Close d) L = L - {d}"
| "qf_step _ L = L"

definition held :: "qf_call list \<Rightarrow> int set" where
  "held tr = fold qf_step tr {}"

lemma held_snoc [simp]: "held (tr @ [c]) = qf_step c (held tr)"
  by (simp add: held_def)

definition refusing :: qf_system where
  "refusing = \<lparr>qf_attach = (\<lambda>tr _. if 3 \<in> held tr then -1 else 3), qf_dup = (\<lambda>_ _. False), qf_fdinfo = (\<lambda>_ _. None), qf_ip = (\<lambda>_ _. None)\<rparr>"

lemma lsqf_lists_all_witness:
  "\<exists>p tr line. print_pids (\<lambda>_ _. Inl 3) qnx_nto refusing (\<lambda>pid. least_from (one_table pid)) (lsqf_coids qf_options_new 5) [7] (pids_new, [], [])
     = Some (p, tr, [line])"
proof -
  have t: "table_ok (one_table pid)" for pid by (auto simp: table_ok_def one_table_def)
  obtain p tr lines where r: "print_pids (\<lambda>_ _. Inl 3) qnx_nto refusing (\<lambda>pid. least_from (one_table pid)) (lsqf_coids qf_options_new 5) [7] (pids_new, [], [])
     = Some (p, tr, lines)" "list_all2 (line_of qnx_nto) (to_show qnx_nto (lsqf_coids qf_options_new 5) one_table [7]) lines"
    using lsqf_lists_all [of "\<lambda>pid. least_from (one_table pid)" one_table, OF refl t] by blast
  have "to_show qnx_nto (lsqf_coids qf_options_new 5) one_table [7] = [(7, 0, \<lparr>si_pid = 1, si_scoid = 0, si_flags = 0\<rparr>)]"
    by (simp add: to_show_def one_table_def shown_def lsqf_coids_def qf_options_new_def qnx_nto_def)
  then show ?thesis using r by (auto simp: list_all2_Cons1)
qed

section \<open>The connections of the tool\<close>

text \<open>What the system promises of a new connection, and the connections whose duplication failed.\<close>

definition fresh_connection :: "qf_system \<Rightarrow> bool" where
  "fresh_connection sys \<longleftrightarrow> (\<forall>tr s. qf_attach sys tr s \<noteq> -1 \<longrightarrow> qf_attach sys tr s \<notin> held tr)"

definition failed_dups :: "qf_system \<Rightarrow> qf_call list \<Rightarrow> int set" where
  "failed_dups sys tr = {d. \<exists>i fd. i < length tr \<and> tr ! i = Dup d fd \<and> \<not> qf_dup sys (take i tr) d}"

lemma failed_dups_snoc [simp]:
  "failed_dups sys (tr @ [c]) = failed_dups sys tr \<union> (case c of Dup d fd \<Rightarrow> if qf_dup sys tr d then {} else {d} | _ \<Rightarrow> {})"
proof -
  have "d \<in> failed_dups sys (tr @ [c]) \<longleftrightarrow> d \<in> failed_dups sys tr \<or> (\<exists>fd. c = Dup d fd \<and> \<not> qf_dup sys tr d)" for d
    by (auto simp: failed_dups_def nth_append less_Suc_eq)
  then show ?thesis by (auto split: qf_call.splits if_splits)
qed

lemma failed_dups_nil [simp]: "failed_dups sys [] = {}"
  by (simp add: failed_dups_def)

lemma two_calls [simp]:
  "held (tr @ [a, b]) = qf_step b (qf_step a (held tr))"
  "failed_dups sys (tr @ [Attach s d, Dup e fd]) = failed_dups sys tr \<union> (if qf_dup sys (tr @ [Attach s d]) e then {} else {e})"
  using held_snoc [of "tr @ [a]" b] failed_dups_snoc [of sys "tr @ [Attach s d]" "Dup e fd"] by simp_all

definition leaks :: "qf_system \<Rightarrow> qf_call list \<Rightarrow> bool" where
  "leaks sys tr \<longleftrightarrow> held tr = failed_dups sys tr \<and> -1 \<notin> held tr"

lemma ask_fd_calls:
  "\<exists>calls. snd (ask_fd sys fd tr) = tr @ calls \<and> set calls \<subseteq> {Fdinfo fd, Ip_info fd}"
  by (auto simp: ask_fd_def Let_def split: option.splits)

lemma leaks_ask: "set calls \<subseteq> {Fdinfo fd, Ip_info fd} \<Longrightarrow> held (tr @ calls) = held tr \<and> failed_dups sys (tr @ calls) = failed_dups sys tr"
proof (induction calls rule: rev_induct)
  case (snoc c calls)
  then have "held (tr @ calls @ [c]) = held tr \<and> failed_dups sys (tr @ calls @ [c]) = failed_dups sys tr"
    unfolding append_assoc [symmetric] held_snoc failed_dups_snoc by auto
  then show ?case by simp
qed simp

lemma query_fd_leaks:
  assumes "fresh_connection sys" "leaks sys tr"
  shows "leaks sys (snd (query_fd sys q pid fd sinfo tr))"
proof (cases "pid = self_pid q")
  case True
  obtain calls where m: "snd (ask_fd sys fd tr) = tr @ calls" "set calls \<subseteq> {Fdinfo fd, Ip_info fd}" using ask_fd_calls by blast
  have "held tr = failed_dups sys tr" "-1 \<notin> held tr" using assms(2) unfolding leaks_def by blast+
  then show ?thesis using True m(1) leaks_ask [OF m(2), of tr sys] by (simp add: query_fd_def leaks_def)
next
  case other: False
  define d where "d = qf_attach sys tr sinfo"
  define tr1 where "tr1 = tr @ [Attach sinfo d] @ [Dup d fd]"
  have new: "d \<noteq> -1 \<Longrightarrow> d \<notin> held tr" using assms(1) by (simp add: fresh_connection_def d_def)
  have h: "held tr = failed_dups sys tr" "-1 \<notin> held tr" using assms(2) unfolding leaks_def by blast+
  show ?thesis
  proof (cases "d \<noteq> -1 \<and> qf_dup sys (tr @ [Attach sinfo d]) d")
    case True
    obtain calls where m: "snd (ask_fd sys d tr1) = tr1 @ calls" "set calls \<subseteq> {Fdinfo d, Ip_info d}" using ask_fd_calls by blast
    have q: "snd (query_fd sys q pid fd sinfo tr) = (tr1 @ calls) @ [Close d]"
      using True other m(1) by (simp add: query_fd_def Let_def split_beta d_def [symmetric] tr1_def)
    have "held tr1 = insert d (held tr)" "failed_dups sys tr1 = failed_dups sys tr"
      using True by (simp_all add: tr1_def)
    then show ?thesis unfolding q leaks_def held_snoc failed_dups_snoc
      using leaks_ask [OF m(2), of tr1 sys] h new True by auto
  next
    case False
    have q: "snd (query_fd sys q pid fd sinfo tr) = (if d = -1 then tr @ [Attach sinfo d] else (tr1 @ [Detach (-1)]))"
      using False other by (auto simp: query_fd_def Let_def d_def [symmetric] tr1_def fdesc_reset_def)
    have "d \<noteq> -1 \<Longrightarrow> held tr1 = insert d (held tr)" "d \<noteq> -1 \<Longrightarrow> failed_dups sys tr1 = insert d (failed_dups sys tr)"
      using False by (simp_all add: tr1_def)
    then show ?thesis unfolding q leaks_def using h by auto
  qed
qed

lemma print_fd_leaks:
  "fresh_connection sys \<Longrightarrow> leaks sys (fst (snd st)) \<Longrightarrow> leaks sys (fst (snd (print_fd proc nto sys q pid fd sinfo st)))"
  using query_fd_leaks [of sys "fst (snd st)" q pid fd sinfo]
  by (cases st) (auto simp: print_fd_def Let_def split_beta)

text \<open>C29: After a listing the tool holds exactly the connections whose duplication the server refused: the descriptor is
  cleared before it is given up.\<close>

theorem lsqf_leaks_refused:
  assumes "\<And>pid fd. server pid fd = least_from (tables pid) fd" "\<And>pid. table_ok (tables pid)" "fresh_connection sys"
    and "print_pids proc nto sys server q pids (p0, [], out0) = Some (p, tr, out)"
  shows "held tr = failed_dups sys tr"
proof -
  have fds: "leaks sys (fst (snd st)) \<Longrightarrow> leaks sys (fst (snd (fold (\<lambda>(fd, sinfo). print_fd proc nto sys q pid fd sinfo) l st)))" for pid l st
  proof (induction l arbitrary: st)
    case (Cons c l)
    then show ?case using Cons.IH [OF print_fd_leaks [OF assms(3) Cons.prems]] by (simp add: split_beta)
  qed simp
  have "print_pids proc nto sys server q pids st = Some st' \<Longrightarrow> leaks sys (fst (snd st)) \<Longrightarrow> leaks sys (fst (snd st'))" for st st'
  proof (induction pids arbitrary: st)
    case (Cons pid pids)
    then show ?case using Cons.IH [OF _ fds [OF Cons.prems(2), of pid "tables pid"]] by (simp add: print_pid_table [OF assms(1,2)])
  qed simp
  from this [OF assms(4)] show ?thesis by (simp add: leaks_def held_def)
qed

lemma lsqf_leaks_refused_witness:
  "\<exists>p tr out. print_pids (\<lambda>_ _. Inl 3) qnx_nto refusing (\<lambda>pid. least_from (one_table pid)) (lsqf_coids qf_options_new 5) [7] (pids_new, [], [])
     = Some (p, tr, out) \<and> 3 \<in> held tr"
proof -
  have t: "table_ok (one_table pid)" for pid by (auto simp: table_ok_def one_table_def)
  have f: "fresh_connection refusing" by (simp add: fresh_connection_def refusing_def)
  let ?s = "\<lparr>si_pid = 1, si_scoid = 0, si_flags = 0\<rparr>"
  have "\<exists>p out. print_pids (\<lambda>_ _. Inl 3) qnx_nto refusing (\<lambda>pid. least_from (one_table pid)) (lsqf_coids qf_options_new 5) [7] (pids_new, [], [])
     = Some (p, [Attach ?s 3, Dup 3 0, Detach (-1)], out)"
    by (simp add: print_pid_table [of "\<lambda>pid. least_from (one_table pid)" 7 "one_table 7", OF refl t])
      (simp add: one_table_def print_fd_def shown_def lsqf_coids_def qf_options_new_def qnx_nto_def query_fd_def
        refusing_def held_def fdesc_reset_def split_beta Let_def)
  then obtain p out where r: "print_pids (\<lambda>_ _. Inl 3) qnx_nto refusing (\<lambda>pid. least_from (one_table pid)) (lsqf_coids qf_options_new 5) [7] (pids_new, [], [])
     = Some (p, [Attach ?s 3, Dup 3 0, Detach (-1)], out)" by blast
  have "held [Attach ?s 3, Dup 3 0, Detach (-1)] = failed_dups refusing [Attach ?s 3, Dup 3 0, Detach (-1)]"
    by (rule lsqf_leaks_refused [OF refl t f r])
  moreover have "3 \<in> failed_dups refusing [Attach ?s 3, Dup 3 0, Detach (-1)]"
    unfolding failed_dups_def by (rule CollectI, rule exI [of _ 1]) (simp add: refusing_def)
  ultimately show ?thesis using r by blast
qed

end
