(* ===== verification/ResmgrDevice.thy ===== *)
theory ResmgrDevice
  imports Interleaving "HOL-Library.Multiset"
begin

text \<open>
  The resource manager loop of \<open>libosqnx\<close> (\<open>resmgr/device.h\<close>, \<open>device.cpp\<close>).  The
  first part is the setup of \<open>run_internal\<close> and \<open>free\<close> as sequences of calls of the
  system; the second is the loop together with concurrent calls of \<open>exit\<close>, one step for each
  access to the shared variables.  Whether an unblock that finds no blocked thread is remembered for
  the next \<open>dispatch_block\<close> is a parameter.
\<close>

section \<open>Setup and release\<close>

datatype dcall =
    Channel_create int
  | Channel_destroy int
  | Dispatch_create_channel int
  | Resmgr_attach string int
  | Resmgr_detach int
  | Dispatch_context_alloc
  | Dispatch_context_free
  | Dispatch_destroy

text \<open>The result of a call and the \<open>errno\<close> after it; a pointer is 0 when it is null.\<close>

type_synonym dtrace = "(dcall \<times> int \<times> int) list"
type_synonym dos = "dtrace \<Rightarrow> dcall \<Rightarrow> int \<times> int"

definition dcall :: "dos \<Rightarrow> dcall \<Rightarrow> dtrace \<Rightarrow> int \<times> int \<times> dtrace" where
  "dcall os c tr = (case os tr c of (r, err) \<Rightarrow> (r, err, tr @ [(c, r, err)]))"

record config =
  fixed_prio :: bool
  inherit_runmask :: bool
  self :: bool

datatype path_order = Default_order | Before | After

record rsrc =
  rs_path :: string
  rs_order :: path_order

text \<open>The flags of the system.\<close>

record nto_flags =
  NTO_CHF_UNBLOCK :: int
  NTO_CHF_DISCONNECT :: int
  NTO_CHF_FIXED_PRIORITY :: int
  NTO_CHF_INHERIT_RUNMASK :: int
  RESMGR_FLAG_SELF :: int
  RESMGR_FLAG_BEFORE :: int
  RESMGR_FLAG_AFTER :: int

text \<open>The members that the setup works on, with the calls made so far.\<close>

record device =
  dpp :: int
  ctp :: int
  running :: bool
  running_event :: bool
  dv_trace :: dtrace

definition channel_flags :: "nto_flags \<Rightarrow> config \<Rightarrow> int" where
  "channel_flags nf cfg =
     (let flags = NTO_CHF_UNBLOCK nf OR NTO_CHF_DISCONNECT nf;
          flags = (if fixed_prio cfg then flags OR NTO_CHF_FIXED_PRIORITY nf else flags)
      in if inherit_runmask cfg then flags OR NTO_CHF_INHERIT_RUNMASK nf else flags)"

definition attach_flags :: "nto_flags \<Rightarrow> config \<Rightarrow> rsrc \<Rightarrow> int" where
  "attach_flags nf cfg p =
     (let resflags = 0; resflags = (if self cfg then resflags OR RESMGR_FLAG_SELF nf else resflags)
      in case rs_order p of Before \<Rightarrow> resflags OR RESMGR_FLAG_BEFORE nf
         | After \<Rightarrow> resflags OR RESMGR_FLAG_AFTER nf | Default_order \<Rightarrow> resflags)"

definition wait_set :: "device \<Rightarrow> device" where
  "wait_set d = d\<lparr>running_event := True\<rparr>"

definition on_trace :: "dos \<Rightarrow> dcall \<Rightarrow> device \<Rightarrow> int \<times> int \<times> device" where
  "on_trace os c d = (case dcall os c (dv_trace d) of (r, err, tr) \<Rightarrow> (r, err, d\<lparr>dv_trace := tr\<rparr>))"

fun detach_all :: "dos \<Rightarrow> int list \<Rightarrow> device \<Rightarrow> device" where
  "detach_all os [] d = d"
| "detach_all os (i # ids) d = detach_all os ids (snd (snd (on_trace os (Resmgr_detach i) d)))"

text \<open>\<open>free(ids, count)\<close> with the first \<open>count\<close> ids.\<close>

definition device_free :: "dos \<Rightarrow> int list \<Rightarrow> device \<Rightarrow> device" where
  "device_free os ids d =
     (let d = d\<lparr>running := False\<rparr> in
      if dpp d \<noteq> 0 then
        let d = (if ctp d \<noteq> 0 then (snd (snd (on_trace os Dispatch_context_free d)))\<lparr>ctp := 0\<rparr> else d);
            d = detach_all os ids d
        in (snd (snd (on_trace os Dispatch_destroy d)))\<lparr>dpp := 0\<rparr>
      else d)"

text \<open>The loop over the paths: the ids attached, and the \<open>errno\<close> of an attach that failed.\<close>

fun attach_paths :: "nto_flags \<Rightarrow> config \<Rightarrow> dos \<Rightarrow> rsrc list \<Rightarrow> int list \<Rightarrow> device \<Rightarrow> int option \<times> int list \<times> device" where
  "attach_paths nf cfg os [] ids d = (None, ids, d)"
| "attach_paths nf cfg os (p # paths) ids d =
     (case on_trace os (Resmgr_attach (rs_path p) (attach_flags nf cfg p)) d of (r, err, d) \<Rightarrow>
        if r = -1 then (Some err, ids, d) else attach_paths nf cfg os paths (ids @ [r]) d)"

definition ERUNNING :: int where "ERUNNING = 400"
definition EDRVNOTREADY :: int where "EDRVNOTREADY = 401"
definition EDRVNOPATH :: int where "EDRVNOPATH = 402"

text \<open>\<open>run_internal\<close> up to the loop: the error, or the ids to be freed after the loop.\<close>

definition device_setup :: "nto_flags \<Rightarrow> dos \<Rightarrow> config \<Rightarrow> rsrc list \<Rightarrow> device \<Rightarrow> (int + int list) \<times> device" where
  "device_setup nf os cfg paths d =
     (if dpp d \<noteq> 0 then (Inl (- ERUNNING), d)
      else if paths = [] then (Inl (- EDRVNOPATH), wait_set d)
      else case on_trace os (Channel_create (channel_flags nf cfg)) d of (chid, err, d) \<Rightarrow>
        if chid = -1 then (Inl (- err), wait_set d)
        else case on_trace os (Dispatch_create_channel chid) d of (p, err, d) \<Rightarrow>
          let d = d\<lparr>dpp := p\<rparr> in
          if p = 0 then
            (case on_trace os (Channel_destroy chid) d of (_, err, d) \<Rightarrow> (Inl (- err), wait_set d))
          else case attach_paths nf cfg os paths [] d of (failed, ids, d) \<Rightarrow>
            (case failed of Some err \<Rightarrow> (Inl (- err), wait_set (device_free os ids d))
             | None \<Rightarrow>
                case on_trace os Dispatch_context_alloc d of (c, err, d) \<Rightarrow>
                  let d = d\<lparr>ctp := c\<rparr> in
                  if c = 0 then (Inl (- err), wait_set (device_free os ids d))
                  else (Inr ids, wait_set (d\<lparr>running := True\<rparr>))))"

text \<open>\<open>device<TDriver>::run\<close>: what it returns without entering the loop, or the ids for the loop.\<close>

definition device_run :: "nto_flags \<Rightarrow> dos \<Rightarrow> bool \<Rightarrow> int \<Rightarrow> bool \<Rightarrow> config \<Rightarrow> rsrc list \<Rightarrow> device \<Rightarrow> ((int + int) + int list) \<times> device" where
  "device_run nf os exited exit_code driver cfg paths d =
     (if exited then (Inl (Inr exit_code), wait_set d)
      else if \<not> driver then (Inl (Inl (- EDRVNOTREADY)), wait_set d)
      else case device_setup nf os cfg paths d of (Inl e, d) \<Rightarrow> (Inl (Inl e), d) | (Inr ids, d) \<Rightarrow> (Inr ids, d))"

section \<open>What is held\<close>

text \<open>What the calls made so far leave to be released.  A channel belongs to the dispatch handle once
  that is created.\<close>

datatype res = Res_channel int | Res_dispatch | Res_context | Res_path int

fun res_step :: "dcall \<times> int \<times> int \<Rightarrow> res set \<Rightarrow> res set" where
  "res_step (Channel_create _, r, _) R = (if r = -1 then R else insert (Res_channel r) R)"
| "res_step (Channel_destroy c, _, _) R = R - {Res_channel c}"
| "res_step (Dispatch_create_channel c, r, _) R = (if r = 0 then R else insert Res_dispatch (R - {Res_channel c}))"
| "res_step (Resmgr_attach _ _, r, _) R = (if r = -1 then R else insert (Res_path r) R)"
| "res_step (Resmgr_detach i, _, _) R = R - {Res_path i}"
| "res_step (Dispatch_context_alloc, r, _) R = (if r = 0 then R else insert Res_context R)"
| "res_step (Dispatch_context_free, _, _) R = R - {Res_context}"
| "res_step (Dispatch_destroy, _, _) R = R - {Res_dispatch}"

definition held :: "device \<Rightarrow> res set" where
  "held d = fold res_step (dv_trace d) {}"

lemma on_trace_held [simp]:
  "held (snd (snd (on_trace os c d))) = res_step (c, fst (on_trace os c d), fst (snd (on_trace os c d))) (held d)"
  "dpp (snd (snd (on_trace os c d))) = dpp d" "ctp (snd (snd (on_trace os c d))) = ctp d"
  "running (snd (snd (on_trace os c d))) = running d" "running_event (snd (snd (on_trace os c d))) = running_event d"
  by (cases "os (dv_trace d) c"; simp add: on_trace_def dcall_def held_def)+

lemma on_trace_cases:
  obtains r err d1 where "on_trace os c d = (r, err, d1)" "held d1 = res_step (c, r, err) (held d)"
    "dpp d1 = dpp d" "ctp d1 = ctp d" "running d1 = running d"
  using on_trace_held [of os c d] by (cases "on_trace os c d") auto

lemma held_update [simp]:
  "held (d\<lparr>dpp := x\<rparr>) = held d" "held (d\<lparr>ctp := x\<rparr>) = held d" "held (d\<lparr>running := b\<rparr>) = held d" "held (wait_set d) = held d"
  by (simp_all add: held_def wait_set_def)

lemma wait_set_simps [simp]:
  "dpp (wait_set d) = dpp d" "ctp (wait_set d) = ctp d" "running (wait_set d) = running d" "running_event (wait_set d)"
  by (simp_all add: wait_set_def)

lemma detach_all_held [simp]:
  "held (detach_all os ids d) = held d - Res_path ` set ids" "dpp (detach_all os ids d) = dpp d" "ctp (detach_all os ids d) = ctp d"
  "running (detach_all os ids d) = running d"
  by (induction ids arbitrary: d) auto

text \<open>What the members say is held.\<close>

definition owns :: "int list \<Rightarrow> device \<Rightarrow> bool" where
  "owns ids d \<longleftrightarrow> held d = (if dpp d \<noteq> 0 then {Res_dispatch} else {}) \<union> (if ctp d \<noteq> 0 then {Res_context} else {}) \<union> Res_path ` set ids"

definition released :: "device \<Rightarrow> bool" where
  "released d \<longleftrightarrow> held d = {} \<and> dpp d = 0 \<and> ctp d = 0 \<and> \<not> running d"

lemma device_free_releases: "owns ids d \<Longrightarrow> dpp d \<noteq> 0 \<Longrightarrow> released (device_free os ids d)"
  by (auto simp: device_free_def owns_def released_def Let_def)

lemma attach_paths_owns:
  assumes "owns ids d" "attach_paths nf cfg os paths ids d = (failed, ids', d')"
  shows "owns ids' d' \<and> dpp d' = dpp d \<and> ctp d' = ctp d \<and> running d' = running d"
  using assms
proof (induction paths arbitrary: ids d)
  case (Cons p paths)
  obtain r err d1 where o: "on_trace os (Resmgr_attach (rs_path p) (attach_flags nf cfg p)) d = (r, err, d1)"
    and h: "held d1 = res_step (Resmgr_attach (rs_path p) (attach_flags nf cfg p), r, err) (held d)"
    "dpp d1 = dpp d" "ctp d1 = ctp d" "running d1 = running d"
    by (rule on_trace_cases)
  show ?case
  proof (cases "r = -1")
    case True
    then show ?thesis using Cons.prems o h by (auto simp: owns_def)
  next
    case False
    then have "owns (ids @ [r]) d1" using Cons.prems(1) h by (auto simp: owns_def)
    from Cons.IH [OF this] Cons.prems(2) o False h show ?thesis by simp
  qed
qed simp

text \<open>However the setup fails, everything it acquired is released, the members are reset and the waiting threads are woken;
  when it succeeds the release after the loop leaves nothing behind.\<close>

theorem device_setup_releases:
  assumes "released d" "device_setup nf os cfg paths d = (res, d')"
  shows "running_event d' \<and> (case res of
      Inl e \<Rightarrow> released d' | Inr ids \<Rightarrow> running d' \<and> owns ids d' \<and> released (device_free os ids d'))"
proof -
  obtain chid e1 d1 where s1: "on_trace os (Channel_create (channel_flags nf cfg)) d = (chid, e1, d1)"
    by (metis prod_cases3)
  obtain p e2 d2 where s2: "on_trace os (Dispatch_create_channel chid) d1 = (p, e2, d2)" by (metis prod_cases3)
  obtain x e3 d3 where s3: "on_trace os (Channel_destroy chid) (d2\<lparr>dpp := p\<rparr>) = (x, e3, d3)" by (metis prod_cases3)
  obtain failed ids d4 where s4: "attach_paths nf cfg os paths [] (d2\<lparr>dpp := p\<rparr>) = (failed, ids, d4)" by (metis prod_cases3)
  obtain c e5 d5 where s5: "on_trace os Dispatch_context_alloc d4 = (c, e5, d5)" by (metis prod_cases3)
  have d: "held d = {}" "dpp d = 0" "ctp d = 0" "\<not> running d" using assms(1) by (auto simp: released_def)
  have h1: "held d1 = (if chid = -1 then {} else {Res_channel chid})" "dpp d1 = 0" "ctp d1 = 0" "\<not> running d1"
    using on_trace_held [of os "Channel_create (channel_flags nf cfg)" d] s1 d by auto
  have h2: "held d2 = (if p = 0 then held d1 else insert Res_dispatch (held d1 - {Res_channel chid}))" "ctp d2 = 0" "\<not> running d2"
    using on_trace_held [of os "Dispatch_create_channel chid" d1] s2 h1 by auto
  have h3: "held d3 = held d2 - {Res_channel chid}" "dpp d3 = p" "ctp d3 = 0" "\<not> running d3"
    using on_trace_held [of os "Channel_destroy chid" "d2\<lparr>dpp := p\<rparr>"] s3 h2 by auto
  have h4: "owns ids d4 \<and> dpp d4 = p \<and> ctp d4 = 0 \<and> \<not> running d4" if "chid \<noteq> -1" "p \<noteq> 0"
    using attach_paths_owns [OF _ s4] h1 h2 that by (auto simp: owns_def)
  have h5: "owns ids (d5\<lparr>ctp := c\<rparr>) \<and> dpp d5 = p" if "chid \<noteq> -1" "p \<noteq> 0"
    using on_trace_held [of os Dispatch_context_alloc d4] s5 h4 [OF that] that by (auto simp: owns_def)
  show ?thesis
  proof (cases "paths = [] \<or> chid = -1 \<or> p = 0")
    case True
    then show ?thesis using assms(2) d h1 h2 h3 s1 s2 s3
      by (auto simp: device_setup_def released_def Let_def split: if_splits)
  next
    case False
    then have n: "chid \<noteq> -1" "p \<noteq> 0" "paths \<noteq> []" by auto
    have f4: "released (device_free os ids d4)" using device_free_releases h4 [OF n(1,2)] n(2) by auto
    have f5: "released (device_free os ids (d5\<lparr>ctp := c\<rparr>))" using device_free_releases h5 [OF n(1,2)] n(2) by auto
    have o6: "owns ids (wait_set (d5\<lparr>ctp := c, running := True\<rparr>))" using h5 [OF n(1,2)] by (simp add: owns_def)
    have f6: "released (device_free os ids (wait_set (d5\<lparr>ctp := c, running := True\<rparr>)))"
      by (rule device_free_releases [OF o6]) (use h5 [OF n(1,2)] n(2) in simp)
    show ?thesis using assms(2) n d(2) s1 s2 s4 s5 f4 f5 f6 o6
      by (auto simp: device_setup_def Let_def released_def split: if_splits option.splits)
  qed
qed

definition device_new :: device where
  "device_new = \<lparr>dpp = 0, ctp = 0, running = False, running_event = False, dv_trace = []\<rparr>"

definition no_second_path :: dos where
  "no_second_path tr c = (case c of Resmgr_attach p _ \<Rightarrow> if p = ''/dev/b'' then (-1, 13) else (7, 0) | _ \<Rightarrow> (1, 0))"

definition no_flags :: nto_flags where
  "no_flags = \<lparr>NTO_CHF_UNBLOCK = 0, NTO_CHF_DISCONNECT = 0, NTO_CHF_FIXED_PRIORITY = 0, NTO_CHF_INHERIT_RUNMASK = 0,
     RESMGR_FLAG_SELF = 0, RESMGR_FLAG_BEFORE = 0, RESMGR_FLAG_AFTER = 0\<rparr>"

lemma device_setup_releases_witness:
  "\<exists>d'. device_setup no_flags no_second_path \<lparr>fixed_prio = False, inherit_runmask = False, self = False\<rparr>
      [\<lparr>rs_path = ''/dev/a'', rs_order = Default_order\<rparr>, \<lparr>rs_path = ''/dev/b'', rs_order = After\<rparr>] device_new = (Inl (-13), d') \<and> released d'"
proof -
  let ?cfg = "\<lparr>fixed_prio = False, inherit_runmask = False, self = False\<rparr>"
  let ?paths = "[\<lparr>rs_path = ''/dev/a'', rs_order = Default_order\<rparr>, \<lparr>rs_path = ''/dev/b'', rs_order = After\<rparr>]"
  have n: "released device_new" by (simp add: released_def device_new_def held_def)
  obtain res d' where s: "device_setup no_flags no_second_path ?cfg ?paths device_new = (res, d')"
    by (cases "device_setup no_flags no_second_path ?cfg ?paths device_new")
  have "fst (device_setup no_flags no_second_path ?cfg ?paths device_new) = Inl (-13)"
    by (simp add: device_setup_def device_new_def on_trace_def dcall_def no_second_path_def Let_def split: prod.splits)
  with s have "res = Inl (-13)" by simp
  with device_setup_releases [OF n s] s show ?thesis by auto
qed

section \<open>The loop and exit\<close>

text \<open>Where the thread in \<open>run\<close> is: before it looks whether an exit was requested; in the setup;
  with the setup done; about to call \<open>dispatch_block\<close>; blocked in it; with an event to handle; about
  to look at \<open>exit_requested_\<close>; in \<open>free\<close> before \<open>running_\<close> is cleared and before the
  context is freed; returned.\<close>

datatype run_pc = Run_Start | Run_Setup | Run_Ready | Run_Enter | Run_Blocked | Run_Handle | Run_Test | Run_Free | Run_Free_ctx
  | Run_Return int | Run_Failed

text \<open>A call of \<open>exit\<close>: before each of its four steps.\<close>

datatype exit_pc = E_Code int | E_Cas | E_Running | E_Unblock

record dev =
  d_run :: run_pc
  d_exits :: "exit_pc multiset"
  d_running :: bool
  d_requested :: bool
  d_exit_code :: int
  d_ctx :: bool
  d_pulse :: bool
  d_bad :: bool

definition dev_init :: "dev \<Rightarrow> bool" where
  "dev_init s \<longleftrightarrow> d_run s = Run_Start \<and> d_exits s = {#} \<and> \<not> d_running s \<and> \<not> d_requested s \<and> \<not> d_ctx s \<and> \<not> d_pulse s \<and> \<not> d_bad s"

text \<open>\<open>d_ctx\<close> is that the dispatch context exists, \<open>d_pulse\<close> that an unblock waits for the
  thread, \<open>d_bad\<close> that an unblock was called without a context.\<close>

inductive run_step :: "dev \<Rightarrow> dev \<Rightarrow> bool" where
  run_exited: "d_run s = Run_Start \<Longrightarrow> d_requested s \<Longrightarrow> run_step s (s\<lparr>d_run := Run_Return (d_exit_code s)\<rparr>)"
| run_enter: "d_run s = Run_Start \<Longrightarrow> \<not> d_requested s \<Longrightarrow> run_step s (s\<lparr>d_run := Run_Setup\<rparr>)"
| setup_fails: "d_run s = Run_Setup \<Longrightarrow> run_step s (s\<lparr>d_run := Run_Failed\<rparr>)"
| setup_done: "d_run s = Run_Setup \<Longrightarrow> run_step s (s\<lparr>d_run := Run_Ready, d_ctx := True\<rparr>)"
| store_running: "d_run s = Run_Ready \<Longrightarrow> run_step s (s\<lparr>d_run := Run_Enter, d_running := True\<rparr>)"
| block: "d_run s = Run_Enter \<Longrightarrow> run_step s (s\<lparr>d_run := Run_Blocked\<rparr>)"
| unblocked: "d_run s = Run_Blocked \<Longrightarrow> d_pulse s \<Longrightarrow> run_step s (s\<lparr>d_run := Run_Handle, d_pulse := False\<rparr>)"
| message: "d_run s = Run_Blocked \<Longrightarrow> run_step s (s\<lparr>d_run := Run_Handle\<rparr>)"
| interrupted: "d_run s = Run_Blocked \<Longrightarrow> run_step s (s\<lparr>d_run := Run_Test\<rparr>)"
| handled: "d_run s = Run_Handle \<Longrightarrow> run_step s (s\<lparr>d_run := Run_Test\<rparr>)"
| again: "d_run s = Run_Test \<Longrightarrow> \<not> d_requested s \<Longrightarrow> run_step s (s\<lparr>d_run := Run_Enter\<rparr>)"
| leave: "d_run s = Run_Test \<Longrightarrow> d_requested s \<Longrightarrow> run_step s (s\<lparr>d_run := Run_Free\<rparr>)"
| clear_running: "d_run s = Run_Free \<Longrightarrow> run_step s (s\<lparr>d_run := Run_Free_ctx, d_running := False\<rparr>)"
| free_context: "d_run s = Run_Free_ctx \<Longrightarrow> run_step s (s\<lparr>d_run := Run_Return (d_exit_code s), d_ctx := False\<rparr>)"

inductive exit_step :: "bool \<Rightarrow> dev \<Rightarrow> dev \<Rightarrow> bool" for stays where
  exit_call: "exit_step stays s (s\<lparr>d_exits := add_mset (E_Code code) (d_exits s)\<rparr>)"
| set_code: "d_exits s = add_mset (E_Code code) es \<Longrightarrow> exit_step stays s (s\<lparr>d_exits := add_mset E_Cas es, d_exit_code := code\<rparr>)"
| cas_fails: "d_exits s = add_mset E_Cas es \<Longrightarrow> d_requested s \<Longrightarrow> exit_step stays s (s\<lparr>d_exits := es\<rparr>)"
| cas: "d_exits s = add_mset E_Cas es \<Longrightarrow> \<not> d_requested s \<Longrightarrow>
    exit_step stays s (s\<lparr>d_exits := add_mset E_Running es, d_requested := True\<rparr>)"
| not_running: "d_exits s = add_mset E_Running es \<Longrightarrow> \<not> d_running s \<Longrightarrow> exit_step stays s (s\<lparr>d_exits := es\<rparr>)"
| is_running: "d_exits s = add_mset E_Running es \<Longrightarrow> d_running s \<Longrightarrow> exit_step stays s (s\<lparr>d_exits := add_mset E_Unblock es\<rparr>)"
| unblock: "d_exits s = add_mset E_Unblock es \<Longrightarrow> d_ctx s \<Longrightarrow>
    exit_step stays s (s\<lparr>d_exits := es, d_pulse := d_pulse s \<or> stays \<or> d_run s = Run_Blocked\<rparr>)"
| unblock_freed: "d_exits s = add_mset E_Unblock es \<Longrightarrow> \<not> d_ctx s \<Longrightarrow> exit_step stays s (s\<lparr>d_exits := es, d_bad := True\<rparr>)"

inductive dev_step :: "bool \<Rightarrow> dev \<Rightarrow> dev \<Rightarrow> bool" for stays where
  by_run: "run_step s s' \<Longrightarrow> dev_step stays s s'"
| by_exit: "exit_step stays s s' \<Longrightarrow> dev_step stays s s'"

inductive_cases run_stepE: "run_step s s'"
inductive_cases exit_stepE: "exit_step stays s s'"
inductive_cases dev_stepE: "dev_step stays s s'"

lemma dev_by_run: "reachable init (dev_step stays) s \<Longrightarrow> run_step s s' \<Longrightarrow> reachable init (dev_step stays) s'"
  and dev_by_exit: "reachable init (dev_step stays) s \<Longrightarrow> exit_step stays s s' \<Longrightarrow> reachable init (dev_step stays) s'"
  by (erule nextstep, erule by_run, erule nextstep, erule by_exit)

text \<open>The gap between the look at \<open>exit_requested_\<close> and the store of \<open>running_\<close>, and the
  runs in which no exit is requested in it.\<close>

definition in_gap :: "dev \<Rightarrow> bool" where
  "in_gap s \<longleftrightarrow> d_run s = Run_Setup \<or> d_run s = Run_Ready"

inductive dev_step_outside :: "bool \<Rightarrow> dev \<Rightarrow> dev \<Rightarrow> bool" for stays where
  "dev_step stays s s' \<Longrightarrow> (in_gap s \<longrightarrow> d_requested s' = d_requested s) \<Longrightarrow> dev_step_outside stays s s'"

text \<open>A requested exit is on its way to a thread that waits.\<close>

definition exit_comes :: "dev \<Rightarrow> bool" where
  "exit_comes s \<longleftrightarrow>
     (d_running s \<longleftrightarrow> d_run s \<in> {Run_Enter, Run_Blocked, Run_Handle, Run_Test, Run_Free}) \<and>
     (d_running s \<longrightarrow> d_ctx s) \<and> (d_run s = Run_Ready \<longrightarrow> d_ctx s) \<and>
     (in_gap s \<longrightarrow> \<not> d_requested s) \<and>
     (E_Running \<in># d_exits s \<or> E_Unblock \<in># d_exits s \<longrightarrow> d_requested s) \<and>
     (d_requested s \<longrightarrow> d_run s \<in> {Run_Enter, Run_Blocked} \<longrightarrow>
        d_pulse s \<or> E_Running \<in># d_exits s \<or> E_Unblock \<in># d_exits s)"

lemma exit_comes_run: "exit_comes s \<Longrightarrow> run_step s s' \<Longrightarrow> exit_comes s'"
  by (erule run_stepE) (auto simp: exit_comes_def in_gap_def)

lemma exit_comes_exit:
  "exit_comes s \<Longrightarrow> exit_step True s s' \<Longrightarrow> (in_gap s \<longrightarrow> d_requested s' = d_requested s) \<Longrightarrow> exit_comes s'"
  by (erule exit_stepE) (auto simp: exit_comes_def in_gap_def)

interpretation device_exit: invariant_of dev_init "dev_step_outside True" exit_comes
proof unfold_locales
  show "exit_comes s" if "dev_init s" for s using that by (auto simp: dev_init_def exit_comes_def in_gap_def)
  show "exit_comes s'" if "exit_comes s" "dev_step_outside True s s'" for s s'
    using that(2) by cases (use that(1) in \<open>auto elim!: dev_stepE intro: exit_comes_run exit_comes_exit\<close>)
qed

text \<open>What is owed to the threads: the loop takes its own steps, and of a wait the one that an unblock makes possible, since
  messages and signals may never come; a call of \<open>exit\<close> goes on from where it is.\<close>

definition run_own :: "dev \<Rightarrow> dev \<Rightarrow> bool" where
  "run_own s s' \<longleftrightarrow> run_step s s' \<and> (d_run s = Run_Blocked \<longrightarrow> d_pulse s \<and> \<not> d_pulse s')"

definition exit_moves :: "exit_pc \<Rightarrow> dev \<Rightarrow> dev \<Rightarrow> bool" where
  "exit_moves pc s s' \<longleftrightarrow> exit_step True s s' \<and> count (d_exits s') pc < count (d_exits s) pc"

definition dev_fair :: "(nat \<Rightarrow> dev) \<Rightarrow> bool" where
  "dev_fair run \<longleftrightarrow> weakly_fair run_own run \<and> (\<forall>pc. weakly_fair (exit_moves pc) run)"

text \<open>The steps of the loop that are left once an exit is requested.\<close>

fun run_left :: "run_pc \<Rightarrow> nat" where
  "run_left Run_Enter = 6"
| "run_left Run_Blocked = 5"
| "run_left Run_Handle = 4"
| "run_left Run_Test = 3"
| "run_left Run_Free = 2"
| "run_left Run_Free_ctx = 1"
| "run_left Run_Start = 1"
| "run_left _ = 0"

definition run_over :: "run_pc \<Rightarrow> bool" where
  "run_over pc \<longleftrightarrow> (\<exists>code. pc = Run_Return code)"

definition leaving :: "dev \<Rightarrow> bool" where
  "leaving s \<longleftrightarrow> exit_comes s \<and> d_requested s \<and> d_run s \<noteq> Run_Failed"

lemma outside_cases:
  assumes "dev_step_outside True s s'"
  obtains "run_step s s'" | "exit_step True s s'"
  using assms by cases (auto elim: dev_stepE)

lemma exit_keeps:
  assumes "exit_step True s s'"
  shows "d_run s' = d_run s" "d_requested s \<Longrightarrow> d_requested s'" "d_pulse s \<Longrightarrow> d_pulse s'"
    "d_ctx s \<Longrightarrow> E_Unblock \<in># d_exits s \<Longrightarrow> d_pulse s' \<or> E_Unblock \<in># d_exits s'"
    "d_running s \<Longrightarrow> E_Running \<in># d_exits s \<Longrightarrow> E_Unblock \<in># d_exits s' \<or> E_Running \<in># d_exits s' \<or> d_pulse s'"
  using assms by (cases; auto)+

lemma run_step_leaving:
  assumes "run_step s s'" "d_requested s" "\<not> in_gap s" "d_run s \<noteq> Run_Failed"
  shows "d_requested s' \<and> d_run s' \<noteq> Run_Failed \<and> run_left (d_run s') < run_left (d_run s)"
  using assms by cases (auto simp: in_gap_def)

lemma leaving_step:
  assumes "leaving s" "s' = s \<or> dev_step_outside True s s'"
  shows "leaving s' \<and> (d_run s' = d_run s \<or> run_left (d_run s') < run_left (d_run s))"
  using assms(2)
proof
  assume o: "dev_step_outside True s s'"
  have l: "exit_comes s" "d_requested s" "d_run s \<noteq> Run_Failed" "\<not> in_gap s"
    using assms(1) by (auto simp: leaving_def exit_comes_def)
  have "exit_comes s'" using device_exit.inv_step [OF l(1) o] .
  then show ?thesis using outside_cases [OF o] run_step_leaving [OF _ l(2,4,3)] exit_keeps(1,2) [of s s'] l
    by (metis leaving_def)
qed (use assms(1) in simp)

lemma leaving_waits:
  assumes "leaving s" "s' = s \<or> dev_step_outside True s s'" "d_run s = Run_Blocked" "d_run s' = Run_Blocked"
  shows "d_pulse s \<Longrightarrow> d_pulse s'" "E_Unblock \<in># d_exits s \<Longrightarrow> d_pulse s' \<or> E_Unblock \<in># d_exits s'"
    "E_Running \<in># d_exits s \<Longrightarrow> d_pulse s' \<or> E_Unblock \<in># d_exits s' \<or> E_Running \<in># d_exits s'"
proof -
  have l: "d_running s" "d_ctx s" using assms(1,3) by (auto simp: leaving_def exit_comes_def)
  have "\<not> run_step s s'" using assms(3,4) by (auto elim!: run_stepE)
  then have "s' = s \<or> exit_step True s s'" using assms(2) by (auto elim: outside_cases)
  then show "d_pulse s \<Longrightarrow> d_pulse s'" "E_Unblock \<in># d_exits s \<Longrightarrow> d_pulse s' \<or> E_Unblock \<in># d_exits s'"
    "E_Running \<in># d_exits s \<Longrightarrow> d_pulse s' \<or> E_Unblock \<in># d_exits s' \<or> E_Running \<in># d_exits s'"
    using exit_keeps(3-5) [of s s'] l by auto
qed

lemma run_own_left:
  assumes "leaving s" "\<not> run_over (d_run s)" "d_run s \<noteq> Run_Blocked \<or> d_pulse s"
  shows "\<exists>s'. run_own s s'"
proof (cases "d_run s = Run_Blocked")
  case True
  then show ?thesis using assms(3) unblocked [of s] by (auto simp: run_own_def)
next
  case False
  have l: "d_requested s" "\<not> in_gap s" "d_run s \<noteq> Run_Failed" using assms(1) by (auto simp: leaving_def exit_comes_def)
  have "\<exists>s'. run_step s s'"
    using False l assms(2) run_exited [of s] block [of s] handled [of s] leave [of s] clear_running [of s] free_context [of s]
    by (cases "d_run s") (auto simp: in_gap_def run_over_def)
  then show ?thesis using False by (auto simp: run_own_def)
qed

lemma run_own_less: "leaving s \<Longrightarrow> run_own s s' \<Longrightarrow> run_left (d_run s') < run_left (d_run s)"
  using run_step_leaving [of s s'] unfolding leaving_def exit_comes_def run_own_def by blast

lemma exit_moves_unblock:
  "leaving s \<Longrightarrow> d_run s = Run_Blocked \<Longrightarrow> E_Unblock \<in># d_exits s \<Longrightarrow> \<exists>s'. exit_moves E_Unblock s s'"
  "leaving s \<Longrightarrow> d_run s = Run_Blocked \<Longrightarrow> exit_moves E_Unblock s s' \<Longrightarrow> d_run s' = Run_Blocked \<and> d_pulse s'"
proof -
  show "\<exists>s'. exit_moves E_Unblock s s'" if b: "leaving s" "d_run s = Run_Blocked" "E_Unblock \<in># d_exits s"
  proof -
    obtain es where "d_exits s = add_mset E_Unblock es" using b(3) by (metis insert_DiffM)
    moreover have "d_ctx s" using b by (auto simp: leaving_def exit_comes_def)
    ultimately show ?thesis using unblock [of s es True] unfolding exit_moves_def by fastforce
  qed
  show "d_run s' = Run_Blocked \<and> d_pulse s'" if "leaving s" "d_run s = Run_Blocked" "exit_moves E_Unblock s s'"
    using that by (auto simp: exit_moves_def leaving_def exit_comes_def elim!: exit_stepE split: if_splits)
qed

lemma exit_moves_running:
  "leaving s \<Longrightarrow> d_run s = Run_Blocked \<Longrightarrow> E_Running \<in># d_exits s \<Longrightarrow> \<exists>s'. exit_moves E_Running s s'"
  "leaving s \<Longrightarrow> d_run s = Run_Blocked \<Longrightarrow> exit_moves E_Running s s' \<Longrightarrow> d_run s' = Run_Blocked \<and> E_Unblock \<in># d_exits s'"
proof -
  show "\<exists>s'. exit_moves E_Running s s'" if b: "leaving s" "d_run s = Run_Blocked" "E_Running \<in># d_exits s"
  proof -
    obtain es where "d_exits s = add_mset E_Running es" using b(3) by (metis insert_DiffM)
    moreover have "d_running s" using b by (auto simp: leaving_def exit_comes_def)
    ultimately show ?thesis using is_running [of s es True] unfolding exit_moves_def by fastforce
  qed
  show "d_run s' = Run_Blocked \<and> E_Unblock \<in># d_exits s'" if "leaving s" "d_run s = Run_Blocked" "exit_moves E_Running s s'"
    using that by (auto simp: exit_moves_def leaving_def exit_comes_def elim!: exit_stepE split: if_splits)
qed

lemma leaving_moves_on:
  assumes fair: "dev_fair run" and steps: "\<And>m. n \<le> m \<Longrightarrow> leaving (run m) \<and> (run (Suc m) = run m \<or> dev_step_outside True (run m) (run (Suc m)))"
    and now: "\<not> run_over (d_run (run n))"
  shows "\<exists>m \<ge> n. run_left (d_run (run m)) < run_left (d_run (run n))"
proof -
  let ?pc = "d_run (run n)"
  let ?less = "\<lambda>s. run_left (d_run s) < run_left ?pc"
  note step = leaving_step [OF conjunct1 [OF steps] conjunct2 [OF steps]]
    and waits = leaving_waits [OF conjunct1 [OF steps] conjunct2 [OF steps]]
  have own: "\<exists>m \<ge> k. ?less (run m)" if k: "n \<le> k" "d_run (run k) = ?pc" "?pc \<noteq> Run_Blocked \<or> d_pulse (run k)" for k
  proof (rule leads_to [where act = run_own and P = "\<lambda>s. d_run s = ?pc \<and> (?pc \<noteq> Run_Blocked \<or> d_pulse s)"])
    show "weakly_fair run_own run" using fair by (simp add: dev_fair_def)
    show "d_run (run k) = ?pc \<and> (?pc \<noteq> Run_Blocked \<or> d_pulse (run k))" using k by simp
    fix m assume m: "k \<le> m" "d_run (run m) = ?pc \<and> (?pc \<noteq> Run_Blocked \<or> d_pulse (run m))"
    then have n: "n \<le> m" using k(1) by simp
    show "(d_run (run (Suc m)) = ?pc \<and> (?pc \<noteq> Run_Blocked \<or> d_pulse (run (Suc m)))) \<or> ?less (run (Suc m))"
      using step [OF n n] waits(1) [OF n n] m(2) by auto
    show "\<exists>s'. run_own (run m) s'" by (rule run_own_left) (use steps [OF n] m(2) now in auto)
    show "?less (run (Suc m))" if "run_own (run m) (run (Suc m))"
      using run_own_less [OF conjunct1 [OF steps [OF n]] that] m(2) by simp
  qed
  have unblock: "\<exists>m \<ge> k. ?less (run m) \<or> d_run (run m) = ?pc \<and> d_pulse (run m)"
    if k: "n \<le> k" "?pc = Run_Blocked" "d_run (run k) = ?pc" "E_Unblock \<in># d_exits (run k)" for k
  proof (rule leads_to [where act = "exit_moves E_Unblock" and P = "\<lambda>s. d_run s = ?pc \<and> E_Unblock \<in># d_exits s"])
    show "weakly_fair (exit_moves E_Unblock) run" using fair by (simp add: dev_fair_def)
    show "d_run (run k) = ?pc \<and> E_Unblock \<in># d_exits (run k)" using k by simp
    fix m assume m: "k \<le> m" "d_run (run m) = ?pc \<and> E_Unblock \<in># d_exits (run m)"
    then have n: "n \<le> m" using k(1) by simp
    show "(d_run (run (Suc m)) = ?pc \<and> E_Unblock \<in># d_exits (run (Suc m))) \<or> ?less (run (Suc m)) \<or> d_run (run (Suc m)) = ?pc \<and> d_pulse (run (Suc m))"
      using step [OF n n] waits(2) [OF n n] m(2) k(2) by auto
    show "\<exists>s'. exit_moves E_Unblock (run m) s'" using exit_moves_unblock(1) steps [OF n] m(2) k(2) by simp
    show "?less (run (Suc m)) \<or> d_run (run (Suc m)) = ?pc \<and> d_pulse (run (Suc m))" if "exit_moves E_Unblock (run m) (run (Suc m))"
      using exit_moves_unblock(2) [OF _ _ that] steps [OF n] m(2) k(2) by simp
  qed
  have running: "\<exists>m \<ge> n. ?less (run m) \<or> d_run (run m) = ?pc \<and> (d_pulse (run m) \<or> E_Unblock \<in># d_exits (run m))"
    if k: "?pc = Run_Blocked" "E_Running \<in># d_exits (run n)"
  proof (rule leads_to [where act = "exit_moves E_Running" and P = "\<lambda>s. d_run s = ?pc \<and> E_Running \<in># d_exits s"])
    show "weakly_fair (exit_moves E_Running) run" using fair by (simp add: dev_fair_def)
    show "d_run (run n) = ?pc \<and> E_Running \<in># d_exits (run n)" using k by simp
    fix m assume n: "n \<le> m" and m: "d_run (run m) = ?pc \<and> E_Running \<in># d_exits (run m)"
    show "(d_run (run (Suc m)) = ?pc \<and> E_Running \<in># d_exits (run (Suc m))) \<or>
        ?less (run (Suc m)) \<or> d_run (run (Suc m)) = ?pc \<and> (d_pulse (run (Suc m)) \<or> E_Unblock \<in># d_exits (run (Suc m)))"
      using step [OF n n] waits(3) [OF n n] m k(1) by auto
    show "\<exists>s'. exit_moves E_Running (run m) s'" using exit_moves_running(1) steps [OF n] m k(1) by simp
    show "?less (run (Suc m)) \<or> d_run (run (Suc m)) = ?pc \<and> (d_pulse (run (Suc m)) \<or> E_Unblock \<in># d_exits (run (Suc m)))"
      if "exit_moves E_Running (run m) (run (Suc m))"
      using exit_moves_running(2) [OF _ _ that] steps [OF n] m k(1) by simp
  qed
  show ?thesis
  proof (cases "?pc = Run_Blocked")
    case False
    then show ?thesis using own [of n] by simp
  next
    case True
    have woken: ?thesis if "n \<le> k" "d_run (run k) = ?pc" "d_pulse (run k)" for k
      using own [OF that(1,2)] that(1,3) le_trans by blast
    have about: ?thesis if "n \<le> k" "d_run (run k) = ?pc" "E_Unblock \<in># d_exits (run k)" for k
      using unblock [OF that(1) True that(2,3)] woken that(1) le_trans by blast
    from steps [of n] True have "d_pulse (run n) \<or> E_Running \<in># d_exits (run n) \<or> E_Unblock \<in># d_exits (run n)"
      by (auto simp: leaving_def exit_comes_def)
    then show ?thesis using woken [of n] about [of n] running [OF True] woken about by blast
  qed
qed

text \<open>C19: In every fair run in which an unblock is remembered for the next \<open>dispatch_block\<close> and no exit is requested
  between the look at the flag and the store of \<open>running_\<close>, a requested exit ends the loop: also a thread that blocks gets
  out of the wait, although no message comes, and \<open>run\<close> returns, unless its setup had failed.\<close>

theorem exit_ends_run:
  assumes "is_run dev_init (dev_step_outside True) run" "dev_fair run" "d_requested (run n)" "d_run (run n) \<noteq> Run_Failed"
  shows "\<exists>m \<ge> n. \<exists>code. d_run (run m) = Run_Return code \<and> \<not> d_running (run m)"
proof -
  have inv: "exit_comes (run m)" for m using device_exit.holds [OF run_reachable [OF assms(1)]] .
  have nxt: "run (Suc m) = run m \<or> dev_step_outside True (run m) (run (Suc m))" for m using assms(1) by (simp add: is_run_def)
  have l: "leaving (run (n + d))" for d
  proof (induction d)
    case (Suc d)
    from leaving_step [OF this nxt] show ?case by simp
  qed (use assms(3,4) inv in \<open>simp add: leaving_def\<close>)
  have "\<exists>m \<ge> k. run_over (d_run (run m))" if "n \<le> k" for k
    using that
  proof (induction "run_left (d_run (run k))" arbitrary: k rule: less_induct)
    case less
    show ?case
    proof (cases "run_over (d_run (run k))")
      case False
      have "leaving (run m) \<and> (run (Suc m) = run m \<or> dev_step_outside True (run m) (run (Suc m)))" if "k \<le> m" for m
        using l [of "m - n"] nxt that less.prems by simp
      from leaving_moves_on [OF assms(2) this False] obtain m where m: "k \<le> m" "run_left (d_run (run m)) < run_left (d_run (run k))"
        by blast
      from less.hyps [OF m(2)] m(1) less.prems show ?thesis by (meson le_trans)
    qed blast
  qed
  then obtain m code where "n \<le> m" "d_run (run m) = Run_Return code" unfolding run_over_def by blast
  moreover from this have "\<not> d_running (run m)" using inv [of m] by (auto simp: exit_comes_def)
  ultimately show ?thesis by blast
qed

text \<open>An exit that is requested in the gap is lost: the thread blocks with no unblock for it, and no call of
  \<open>exit\<close> is left that would make one.\<close>

theorem exit_lost_in_gap:
  "\<exists>s. reachable dev_init (dev_step stays) s \<and> d_requested s \<and> d_run s = Run_Blocked \<and> \<not> d_pulse s \<and> d_exits s = {#}"
proof -
  define mk where "mk = (\<lambda>pc es rn rq c ctx. \<lparr>d_run = pc, d_exits = es, d_running = rn, d_requested = rq, d_exit_code = c,
     d_ctx = ctx, d_pulse = False, d_bad = False\<rparr>)"
  note run = dev_by_run and exit = dev_by_exit
  have "reachable dev_init (dev_step stays) (mk Run_Start {#} False False 0 False)"
    by (rule start) (simp add: dev_init_def mk_def)
  from run [OF this run_enter] have "reachable dev_init (dev_step stays) (mk Run_Setup {#} False False 0 False)" by (simp add: mk_def)
  from run [OF this setup_done] have "reachable dev_init (dev_step stays) (mk Run_Ready {#} False False 0 True)" by (simp add: mk_def)
  from exit [OF this exit_call [where code = 0]]
  have "reachable dev_init (dev_step stays) (mk Run_Ready {#E_Code 0#} False False 0 True)" by (simp add: mk_def)
  from exit [OF this set_code [where code = 0 and es = "{#}"]]
  have "reachable dev_init (dev_step stays) (mk Run_Ready {#E_Cas#} False False 0 True)" by (simp add: mk_def)
  from exit [OF this cas [where es = "{#}"]]
  have "reachable dev_init (dev_step stays) (mk Run_Ready {#E_Running#} False True 0 True)" by (simp add: mk_def)
  from exit [OF this not_running [where es = "{#}"]]
  have "reachable dev_init (dev_step stays) (mk Run_Ready {#} False True 0 True)" by (simp add: mk_def)
  from run [OF this store_running] have "reachable dev_init (dev_step stays) (mk Run_Enter {#} True True 0 True)" by (simp add: mk_def)
  from run [OF this block] have "reachable dev_init (dev_step stays) (mk Run_Blocked {#} True True 0 True)" by (simp add: mk_def)
  then show ?thesis by (intro exI [of _ "mk Run_Blocked {#} True True 0 True"]) (simp add: mk_def)
qed

text \<open>An exit can unblock a context that is already freed: it has found the loop running, and a client's message makes
  the thread see the request and free the context before the exit goes on.\<close>

theorem exit_unblocks_freed_context:
  "\<exists>s. reachable dev_init (dev_step stays) s \<and> d_bad s"
proof -
  define mk where "mk = (\<lambda>pc es rn rq ctx. \<lparr>d_run = pc, d_exits = es, d_running = rn, d_requested = rq, d_exit_code = 0 :: int,
     d_ctx = ctx, d_pulse = False, d_bad = False\<rparr>)"
  note run = dev_by_run and exit = dev_by_exit
  have "reachable dev_init (dev_step stays) (mk Run_Start {#} False False False)"
    by (rule start) (simp add: dev_init_def mk_def)
  from run [OF this run_enter] have "reachable dev_init (dev_step stays) (mk Run_Setup {#} False False False)" by (simp add: mk_def)
  from run [OF this setup_done] have "reachable dev_init (dev_step stays) (mk Run_Ready {#} False False True)" by (simp add: mk_def)
  from run [OF this store_running] have "reachable dev_init (dev_step stays) (mk Run_Enter {#} True False True)" by (simp add: mk_def)
  from run [OF this block] have "reachable dev_init (dev_step stays) (mk Run_Blocked {#} True False True)" by (simp add: mk_def)
  from exit [OF this exit_call [where code = 0]]
  have "reachable dev_init (dev_step stays) (mk Run_Blocked {#E_Code 0#} True False True)" by (simp add: mk_def)
  from exit [OF this set_code [where code = 0 and es = "{#}"]]
  have "reachable dev_init (dev_step stays) (mk Run_Blocked {#E_Cas#} True False True)" by (simp add: mk_def)
  from exit [OF this cas [where es = "{#}"]]
  have "reachable dev_init (dev_step stays) (mk Run_Blocked {#E_Running#} True True True)" by (simp add: mk_def)
  from exit [OF this is_running [where es = "{#}"]]
  have "reachable dev_init (dev_step stays) (mk Run_Blocked {#E_Unblock#} True True True)" by (simp add: mk_def)
  from run [OF this message] have "reachable dev_init (dev_step stays) (mk Run_Handle {#E_Unblock#} True True True)" by (simp add: mk_def)
  from run [OF this handled] have "reachable dev_init (dev_step stays) (mk Run_Test {#E_Unblock#} True True True)" by (simp add: mk_def)
  from run [OF this leave] have "reachable dev_init (dev_step stays) (mk Run_Free {#E_Unblock#} True True True)" by (simp add: mk_def)
  from run [OF this clear_running] have "reachable dev_init (dev_step stays) (mk Run_Free_ctx {#E_Unblock#} False True True)" by (simp add: mk_def)
  from run [OF this free_context] have "reachable dev_init (dev_step stays) (mk (Run_Return 0) {#E_Unblock#} False True False)" by (simp add: mk_def)
  from exit [OF this unblock_freed [where es = "{#}"]] show ?thesis by (fastforce simp: mk_def)
qed

text \<open>A run in which the thread blocks before the exit is requested.\<close>

definition exit_states :: "dev list" where
  "exit_states =
     (let mk = (\<lambda>pc es rn rq ctx pulse. \<lparr>d_run = pc, d_exits = es, d_running = rn, d_requested = rq, d_exit_code = 0,
            d_ctx = ctx, d_pulse = pulse, d_bad = False\<rparr>)
      in [mk Run_Start {#} False False False False, mk Run_Setup {#} False False False False, mk Run_Ready {#} False False True False,
          mk Run_Enter {#} True False True False, mk Run_Blocked {#} True False True False,
          mk Run_Blocked {#E_Code 0#} True False True False, mk Run_Blocked {#E_Cas#} True False True False,
          mk Run_Blocked {#E_Running#} True True True False, mk Run_Blocked {#E_Unblock#} True True True False,
          mk Run_Blocked {#} True True True True, mk Run_Handle {#} True True True False, mk Run_Test {#} True True True False,
          mk Run_Free {#} True True True False, mk Run_Free_ctx {#} False True True False, mk (Run_Return 0) {#} False True False False])"

lemma run_keeps_requested: "run_step s s' \<Longrightarrow> d_requested s' = d_requested s"
  by (erule run_stepE) simp_all

lemma outside_either: "run_step s s' \<or> exit_step True s s' \<and> \<not> in_gap s \<Longrightarrow> dev_step_outside True s s'"
  using run_keeps_requested [of s s'] dev_step_outside.intros [OF by_run, of s s' True] dev_step_outside.intros [OF by_exit, of True s s'] by blast

lemma exit_states_run: "is_run dev_init (dev_step_outside True) (list_run exit_states)"
proof (rule list_run_is_run)
  show "exit_states \<noteq> []" "dev_init (hd exit_states)" by (simp_all add: exit_states_def dev_init_def)
  show "successively (dev_step_outside True) exit_states"
    unfolding exit_states_def Let_def
    by (simp, intro conjI; rule outside_either, simp add: run_step.simps exit_step.simps in_gap_def)
qed

lemma exit_ends_run_witness:
  "is_run dev_init (dev_step_outside True) (list_run exit_states) \<and> d_run (list_run exit_states 7) = Run_Blocked \<and>
   (\<exists>m \<ge> 7. \<exists>code. d_run (list_run exit_states m) = Run_Return code \<and> \<not> d_running (list_run exit_states m))"
proof -
  have l: "exit_states \<noteq> []" "d_run (last exit_states) = Run_Return 0" "d_exits (last exit_states) = {#}"
    by (simp_all add: exit_states_def)
  have "dev_fair (list_run exit_states)"
    unfolding dev_fair_def by (intro conjI allI list_run_fair) (use l in \<open>auto simp: run_own_def exit_moves_def elim!: run_stepE\<close>)
  moreover have s: "d_requested (list_run exit_states 7)" "d_run (list_run exit_states 7) = Run_Blocked"
    by (simp_all add: exit_states_def list_run_def)
  ultimately show ?thesis using exit_ends_run [OF exit_states_run, of 7] exit_states_run by simp
qed

end
