(* ===== verification/CpuidDump.thy ===== *)
theory CpuidDump
  imports Prelude
begin

text \<open>
  The dump of the CPUID registers, \<open>tools/cpuid-x86/libcpuid\<close>: the request and result
  structures of cpuid.h, \<open>get_cpuid\<close>, \<open>dump_range\<close>, \<open>dump_cpu_generic\<close> and
  \<open>dump_hypervisor\<close> of dump_generic.cpp, the Intel and AMD dumps, and \<open>cpuid_dump\<close>, which
  enables a core and chooses the dump by the brand string.

  The class \<open>cpuidreader\<close> is abstract in the code; here it is a record of its virtual
  functions over the state of the reader.  The dumps call only \<open>cpuid\<close>, so they take that
  function alone.  Their loops may not end, so they are partial functions: \<open>None\<close> is a call
  that never returns.
\<close>

section \<open>Registers, requests and results\<close>

type_synonym cpuidreg = "32 word"

record cpuid_req =
  req_eax :: cpuidreg
  req_ecx :: cpuidreg

record cpuid_res =
  res_eax :: cpuidreg
  res_ebx :: cpuidreg
  res_ecx :: cpuidreg
  res_edx :: cpuidreg

record cpuid_info =
  req :: cpuid_req
  res :: cpuid_res

text \<open>The virtual function \<open>cpuid\<close>: the leaf, the subleaf and the reader it is called on.\<close>

type_synonym 's cpuid_fn = "cpuidreg \<Rightarrow> cpuidreg \<Rightarrow> 's \<Rightarrow> cpuid_res option \<times> 's"

text \<open>The reader's interface; \<open>enable_core\<close> gives an error or a pointer to a context (\<open>None\<close> is
  the null pointer), and \<open>drop_ctx\<close> is the destruction of that context.\<close>

record 's cpuidreader =
  has_cpuid :: "'s \<Rightarrow> bool \<times> 's"
  is_online :: "'s \<Rightarrow> bool"
  cores :: "'s \<Rightarrow> 32 word"
  cpuid :: "'s cpuid_fn"
  enable_core :: "32 word \<Rightarrow> 's \<Rightarrow> (nat + 32 word option) \<times> 's"
  drop_ctx :: "'s \<Rightarrow> 's"

definition mk_info :: "cpuidreg \<Rightarrow> cpuidreg \<Rightarrow> cpuid_res \<Rightarrow> cpuid_info" where
  "mk_info a c r = \<lparr>req = \<lparr>req_eax = a, req_ecx = c\<rparr>, res = r\<rparr>"

lemma mk_info_sel [simp]:
  "req (mk_info a c r) = \<lparr>req_eax = a, req_ecx = c\<rparr>" "res (mk_info a c r) = r"
  "mk_info a c r = mk_info a' c' r' \<longleftrightarrow> a = a' \<and> c = c' \<and> r = r'"
  by (auto simp: mk_info_def)

definition get_cpuid :: "'s cpuid_fn \<Rightarrow> cpuidreg \<Rightarrow> cpuidreg \<Rightarrow> 's \<Rightarrow> cpuid_info option \<times> 's" where
  "get_cpuid rd eax ecx s =
     (case rd eax ecx s of
        (None, s') \<Rightarrow> (None, s')
      | (Some reg, s') \<Rightarrow> (Some \<lparr>req = \<lparr>req_eax = eax, req_ecx = ecx\<rparr>, res = reg\<rparr>, s'))"

section \<open>Ranges of leaves\<close>

partial_function (option) dump_range_loop ::
  "'s cpuid_fn \<Rightarrow> cpuidreg \<Rightarrow> cpuidreg \<Rightarrow> cpuidreg \<Rightarrow> bool \<Rightarrow> cpuid_info list \<Rightarrow> 's
     \<Rightarrow> (bool \<times> cpuid_info list \<times> 's) option" where
  "dump_range_loop rd base leaf maxleaf success registers s =
     (case get_cpuid rd leaf 0 s of
        (None, s') \<Rightarrow> dump_range_loop rd base leaf maxleaf success registers s'
      | (Some result, s') \<Rightarrow>
          let registers' = registers @ [result];
              maxleaf' = (if leaf = base then res_eax (res result) else maxleaf) in
          if leaf = base \<and> maxleaf' AND 0xFFFFFF00 \<noteq> leaf AND 0xFFFFFF00 then Some (True, registers', s')
          else if maxleaf' \<le> leaf then Some (True, registers', s')
          else dump_range_loop rd base (leaf + 1) maxleaf' True registers' s')"

definition dump_range :: "'s cpuid_fn \<Rightarrow> cpuidreg \<Rightarrow> cpuid_info list \<Rightarrow> 's
     \<Rightarrow> (bool \<times> cpuid_info list \<times> 's) option" where
  "dump_range rd base registers s = dump_range_loop rd base base base False registers s"

text \<open>\<open>success && f(...)\<close>: the next part runs only when the parts before it succeeded.\<close>

type_synonym 's dump_part = "cpuid_info list \<Rightarrow> 's \<Rightarrow> (bool \<times> cpuid_info list \<times> 's) option"

definition and_then :: "(bool \<times> cpuid_info list \<times> 's) option \<Rightarrow> 's dump_part
     \<Rightarrow> (bool \<times> cpuid_info list \<times> 's) option" where
  "and_then r f = Option.bind r (\<lambda>(success, registers, s). if success then f registers s else Some (False, registers, s))"

definition dump_result :: "(bool \<times> cpuid_info list \<times> 's) option \<Rightarrow> (cpuid_info list option \<times> 's) option" where
  "dump_result r = map_option (\<lambda>(success, registers, s). (if success then Some registers else None, s)) r"

definition dump_cpu_generic :: "'s cpuid_fn \<Rightarrow> 's \<Rightarrow> (cpuid_info list option \<times> 's) option" where
  "dump_cpu_generic rd s = dump_result
     (and_then (and_then (dump_range rd 0x00000000 [] s) (dump_range rd 0x80000000)) (dump_range rd 0x40000000))"

definition dump_hypervisor :: "'s cpuid_fn \<Rightarrow> 's dump_part" where
  "dump_hypervisor rd registers s =
     (let hyp = (case List.find (\<lambda>regs. req_eax (req regs) = 1) registers of
                   None \<Rightarrow> False
                 | Some regs \<Rightarrow> res_ecx (res regs) AND 0x80000000 \<noteq> 0) in
      if \<not> hyp then Some (True, registers, s) else dump_range rd 0x40000000 registers s)"

section \<open>Loops over the subleaves of a leaf\<close>

text \<open>
  Every such loop has the shape \<open>while (cond) { reg = get_cpuid(...); if (!reg) break;
  registers.push_back(*reg); subleaf++; }\<close>; they differ in the condition, on the subleaf and on
  the register read last.
\<close>

partial_function (option) sub_loop ::
  "'s cpuid_fn \<Rightarrow> cpuidreg \<Rightarrow> (cpuidreg \<Rightarrow> cpuid_info \<Rightarrow> bool) \<Rightarrow> cpuidreg \<Rightarrow> cpuid_info \<Rightarrow> cpuid_info list \<Rightarrow> 's
     \<Rightarrow> (cpuid_info list \<times> 's) option" where
  "sub_loop rd leaf cond subleaf reg registers s =
     (if \<not> cond subleaf reg then Some (registers, s)
      else case get_cpuid rd leaf subleaf s of
             (None, s') \<Rightarrow> Some (registers, s')
           | (Some reg', s') \<Rightarrow> sub_loop rd leaf cond (subleaf + 1) reg' (registers @ [reg']) s')"

text \<open>Leaf 0x0D: every subleaf below 64, kept when it is the first or not all zero.\<close>

definition is_interesting :: "cpuidreg \<Rightarrow> cpuid_info \<Rightarrow> bool" where
  "is_interesting subleaf reg \<longleftrightarrow>
     subleaf < 2 \<or> (res_eax (res reg) \<noteq> 0 \<or> res_ebx (res reg) \<noteq> 0 \<or> res_ecx (res reg) \<noteq> 0 \<or> res_edx (res reg) \<noteq> 0)"

fun xsave_loop :: "'s cpuid_fn \<Rightarrow> cpuidreg \<Rightarrow> nat \<Rightarrow> cpuidreg \<Rightarrow> cpuid_info list \<Rightarrow> 's \<Rightarrow> cpuid_info list \<times> 's" where
  "xsave_loop rd leaf 0 subleaf registers s = (registers, s)"
| "xsave_loop rd leaf (Suc n) subleaf registers s =
     (case get_cpuid rd leaf subleaf s of
        (None, s') \<Rightarrow> xsave_loop rd leaf n (subleaf + 1) registers s'
      | (Some reg, s') \<Rightarrow>
          xsave_loop rd leaf n (subleaf + 1) (if is_interesting subleaf reg then registers @ [reg] else registers) s')"

text \<open>Leaf 0x10: one subleaf for every bit of the mask of resources, from the second on.\<close>

function resid_loop :: "'s cpuid_fn \<Rightarrow> cpuidreg \<Rightarrow> cpuidreg \<Rightarrow> cpuidreg \<Rightarrow> cpuid_info list \<Rightarrow> 's \<Rightarrow> cpuid_info list \<times> 's" where
  "resid_loop rd leaf residbit subleaf registers s =
     (if residbit = 0 then (registers, s)
      else case get_cpuid rd leaf subleaf s of
             (None, s') \<Rightarrow> (registers, s')
           | (Some reg, s') \<Rightarrow> resid_loop rd leaf (drop_bit 1 residbit) (subleaf + 1) (registers @ [reg]) s')"
  by pat_completeness auto
termination
proof (relation "measure (\<lambda>(rd, leaf, residbit, subleaf, registers, s). unat residbit)", goal_cases)
  case (2 rd leaf residbit subleaf registers s x s' a)
  have "0 < unat residbit" using 2(1) by (simp add: unat_gt_0)
  then have "unat residbit div 2 < unat residbit" by simp
  then show ?case by (simp add: drop_bit_eq_div unat_div)
qed simp

declare resid_loop.simps [simp del]

text \<open>AMD leaf 0x80000020: the listed subleaves, up to the first that is not answered.\<close>

fun listed_loop :: "'s cpuid_fn \<Rightarrow> cpuidreg \<Rightarrow> cpuidreg list \<Rightarrow> cpuid_info list \<Rightarrow> 's \<Rightarrow> cpuid_info list \<times> 's" where
  "listed_loop rd leaf [] registers s = (registers, s)"
| "listed_loop rd leaf (subleaf # rest) registers s =
     (case get_cpuid rd leaf subleaf s of
        (None, s') \<Rightarrow> (registers, s')
      | (Some reg, s') \<Rightarrow> listed_loop rd leaf rest (registers @ [reg]) s')"

section \<open>Loops over the leaves\<close>

text \<open>
  The loop the three vendor dumps share: read the leaf, store it, let the \<open>switch\<close> handle it, and
  go on until \<open>maxleaf\<close>.  A leaf that cannot be read is skipped.  The handler may set the local
  variables \<open>v\<close>, the highest leaf and a flag (\<open>sgx\<close> of the Intel dump, none for AMD), and the
  registers.
\<close>

type_synonym ('s, 'x) leaf_handler = "cpuidreg \<Rightarrow> cpuid_info \<Rightarrow> cpuidreg \<times> 'x \<Rightarrow> cpuid_info list \<Rightarrow> 's
     \<Rightarrow> ((cpuidreg \<times> 'x) \<times> cpuid_info list \<times> 's) option"

partial_function (option) leaf_loop ::
  "'s cpuid_fn \<Rightarrow> ('s, 'x) leaf_handler \<Rightarrow> cpuidreg \<Rightarrow> cpuidreg \<times> 'x \<Rightarrow> bool \<Rightarrow> cpuid_info list \<Rightarrow> 's
     \<Rightarrow> (bool \<times> cpuid_info list \<times> 's) option" where
  "leaf_loop rd handle leaf v success registers s =
     (case get_cpuid rd leaf 0 s of
        (None, s') \<Rightarrow>
          if leaf = fst v then Some (success, registers, s')
          else leaf_loop rd handle (leaf + 1) v success registers s'
      | (Some reg, s') \<Rightarrow>
          Option.bind (handle leaf reg v (registers @ [reg]) s') (\<lambda>(v', registers', s'').
            if leaf = fst v' then Some (True, registers', s'')
            else leaf_loop rd handle (leaf + 1) v' True registers' s''))"

declare dump_range_loop.simps [code] sub_loop.simps [code] leaf_loop.simps [code]

definition with_regs :: "cpuidreg \<times> 'x \<Rightarrow> (cpuid_info list \<times> 's) option
     \<Rightarrow> ((cpuidreg \<times> 'x) \<times> cpuid_info list \<times> 's) option" where
  "with_regs v r = map_option (\<lambda>(registers, s). (v, registers, s)) r"

text \<open>The subleaves from 1 up to the number the register reports.\<close>

definition subleaves_loop :: "'s cpuid_fn \<Rightarrow> cpuidreg \<Rightarrow> cpuid_info \<Rightarrow> cpuid_info list \<Rightarrow> 's \<Rightarrow> (cpuid_info list \<times> 's) option" where
  "subleaves_loop rd leaf reg registers s =
     (let subleaves = res_eax (res reg) in sub_loop rd leaf (\<lambda>subleaf _. subleaf \<le> subleaves) 1 reg registers s)"

definition intel_leaf :: "'s cpuid_fn \<Rightarrow> ('s, bool) leaf_handler" where
  "intel_leaf rd leaf reg v registers s =
     (let (maxleaf, sgx) = v in
      if leaf = 0x00 then Some ((res_eax (res reg), sgx), registers, s)
      else if leaf = 0x02 then
        (let subleaves = res_eax (res reg) AND 0xFF in
         with_regs (maxleaf, sgx) (sub_loop rd leaf (\<lambda>subleaf _. subleaf < subleaves) 1 reg registers s))
      else if leaf = 0x07 then
        with_regs (maxleaf, res_ebx (res reg) AND 0x04 \<noteq> 0) (subleaves_loop rd leaf reg registers s)
      else if leaf = 0x0B \<or> leaf = 0x1F then
        with_regs (maxleaf, sgx) (sub_loop rd leaf (\<lambda>_ r. res_ebx (res r) AND 0xFFFF \<noteq> 0) 1 reg registers s)
      else if leaf = 0x0D then with_regs (maxleaf, sgx) (Some (xsave_loop rd leaf 63 1 registers s))
      else if leaf = 0x0F then with_regs (maxleaf, sgx) (Some (listed_loop rd leaf [1] registers s))
      else if leaf = 0x10 then
        with_regs (maxleaf, sgx) (Some (resid_loop rd leaf (drop_bit 1 (res_ebx (res reg))) 1 registers s))
      else if leaf = 0x12 then
        (if sgx then with_regs (maxleaf, sgx)
           (sub_loop rd leaf (\<lambda>subleaf r. subleaf \<le> 2 \<or> (subleaf \<le> 0xFF \<and> res_eax (res r) AND 0xF \<noteq> 0)) 1 reg registers s)
         else Some (v, registers, s))
      else if leaf = 0x14 \<or> leaf = 0x17 \<or> leaf = 0x18 \<or> leaf = 0x20 then
        with_regs (maxleaf, sgx) (subleaves_loop rd leaf reg registers s)
      else Some (v, registers, s))"

definition dump_intel_normal :: "'s cpuid_fn \<Rightarrow> 's dump_part" where
  "dump_intel_normal rd registers s = leaf_loop rd (intel_leaf rd) 0 (0, False) False registers s"

definition dump_cpu_intel :: "'s cpuid_fn \<Rightarrow> 's \<Rightarrow> (cpuid_info list option \<times> 's) option" where
  "dump_cpu_intel rd s = dump_result
     (and_then (and_then (and_then (dump_intel_normal rd [] s)
        (dump_range rd 0x80000000)) (dump_range rd 0x20000000)) (dump_hypervisor rd))"

definition amd_leaf :: "'s cpuid_fn \<Rightarrow> ('s, unit) leaf_handler" where
  "amd_leaf rd leaf reg v registers s =
     (if leaf = 0x00 then Some ((res_eax (res reg), ()), registers, s)
      else if leaf = 0x07 then with_regs v (subleaves_loop rd leaf reg registers s)
      else if leaf = 0x0D then with_regs v (Some (xsave_loop rd leaf 63 1 registers s))
      else Some (v, registers, s))"

definition dump_amd_normal :: "'s cpuid_fn \<Rightarrow> 's dump_part" where
  "dump_amd_normal rd registers s = leaf_loop rd (amd_leaf rd) 0 (0, ()) False registers s"

definition amd_ext_leaf :: "'s cpuid_fn \<Rightarrow> ('s, unit) leaf_handler" where
  "amd_ext_leaf rd leaf reg v registers s =
     (if leaf = 0x80000000 then Some ((res_eax (res reg), ()), registers, s)
      else if leaf = 0x8000001D then
        with_regs v (sub_loop rd leaf (\<lambda>subleaf r. subleaf \<le> 0xFF \<and> res_eax (res r) AND 0x1F \<noteq> 0) 1 reg registers s)
      else if leaf = 0x80000020 then with_regs v (Some (listed_loop rd leaf [1, 2, 3, 5] registers s))
      else if leaf = 0x80000026 then
        with_regs v (sub_loop rd leaf (\<lambda>subleaf r. subleaf \<le> 0xFF \<and> res_ecx (res r) AND 0xFF00 \<noteq> 0) 1 reg registers s)
      else Some (v, registers, s))"

definition dump_amd_extended :: "'s cpuid_fn \<Rightarrow> 's dump_part" where
  "dump_amd_extended rd registers s = leaf_loop rd (amd_ext_leaf rd) 0x80000000 (0x80000000, ()) False registers s"

definition dump_cpu_amd :: "'s cpuid_fn \<Rightarrow> 's \<Rightarrow> (cpuid_info list option \<times> 's) option" where
  "dump_cpu_amd rd s = dump_result
     (and_then (and_then (dump_amd_normal rd [] s) (dump_amd_extended rd)) (dump_hypervisor rd))"

section \<open>The brand and the dump of a core\<close>

definition reg_char :: "cpuidreg \<Rightarrow> nat \<Rightarrow> char" where
  "reg_char w n = char_of (unat (drop_bit n w AND 0xFF))"

definition reg_chars :: "cpuidreg \<Rightarrow> string" where
  "reg_chars w = [reg_char w 0, reg_char w 8, reg_char w 16, reg_char w 24]"

definition get_cpu_brand :: "cpuid_info \<Rightarrow> string" where
  "get_cpu_brand reg =
     (if req_eax (req reg) \<noteq> 0 \<or> req_ecx (req reg) \<noteq> 0 then []
      else takeWhile (\<lambda>c. c \<noteq> CHR 0x00)
        (reg_chars (res_ebx (res reg)) @ reg_chars (res_edx (res reg)) @ reg_chars (res_ecx (res reg))))"

definition dump_by_brand :: "'s cpuid_fn \<Rightarrow> string \<Rightarrow> 's \<Rightarrow> (cpuid_info list option \<times> 's) option" where
  "dump_by_brand rd brand s =
     (if brand = ''GenuineIntel'' then dump_cpu_intel rd s
      else if brand = ''AuthenticAMD'' \<or> brand = ''AMDisbetter!'' then dump_cpu_amd rd s
      else dump_cpu_generic rd s)"

definition dump_enabled :: "'s cpuid_fn \<Rightarrow> 's \<Rightarrow> (cpuid_info list option \<times> 's) option" where
  "dump_enabled rd s =
     (case get_cpuid rd 0 0 s of
        (None, s') \<Rightarrow> Some (None, s')
      | (Some leaf0, s') \<Rightarrow> dump_by_brand rd (get_cpu_brand leaf0) s')"

text \<open>The context lives until the function returns.\<close>

definition cpuid_dump :: "'s cpuidreader \<Rightarrow> 32 word \<Rightarrow> 's \<Rightarrow> (cpuid_info list option \<times> 's) option" where
  "cpuid_dump reader core s =
     (case has_cpuid reader s of
        (False, s') \<Rightarrow> Some (None, s')
      | (True, s') \<Rightarrow>
         (case enable_core reader core s' of
            (Inl e, s'') \<Rightarrow> Some (None, s'')
          | (Inr None, s'') \<Rightarrow> Some (None, s'')
          | (Inr (Some ctx), s'') \<Rightarrow>
              map_option (\<lambda>(r, t). (r, drop_ctx reader t)) (dump_enabled (cpuid reader) s'')))"

section \<open>Readers that answer alike\<close>

text \<open>
  Two readers simulate each other when, from related states, every read gives the same answer
  and leaves related states.  Every part of the dump then gives the same registers on both,
  and returns on one exactly when it returns on the other.
\<close>

locale reader_sim =
  fixes rd1 :: "'s cpuid_fn" and rd2 :: "'t cpuid_fn" and R :: "'s \<Rightarrow> 't \<Rightarrow> bool"
  assumes sim: "R s t \<Longrightarrow> rel_prod (=) R (rd1 a c s) (rd2 a c t)"
begin

lemma flipped: "reader_sim rd2 rd1 (\<lambda>t s. R s t)"
  by standard (use sim in \<open>fastforce simp: rel_prod_sel\<close>)

lemma get_cpuid_sim: "R s t \<Longrightarrow> rel_prod (=) R (get_cpuid rd1 a c s) (get_cpuid rd2 a c t)"
  using sim [of s t a c] by (auto simp: get_cpuid_def split: prod.splits option.splits)

lemma get_cpuid_cases:
  assumes "R s t"
  obtains (none) s' t' where "get_cpuid rd1 a c s = (None, s')" "get_cpuid rd2 a c t = (None, t')" "R s' t'"
    | (some) i s' t' where "get_cpuid rd1 a c s = (Some i, s')" "get_cpuid rd2 a c t = (Some i, t')" "R s' t'"
  using get_cpuid_sim [OF assms, of a c]
  by (cases "get_cpuid rd1 a c s"; cases "get_cpuid rd2 a c t"; cases "fst (get_cpuid rd1 a c s)") auto

end

lemmas get_sim = reader_sim.get_cpuid_cases
lemmas sub_loop_induct = sub_loop.raw_induct [rotated, consumes 1, case_names step]
lemmas leaf_loop_induct = leaf_loop.raw_induct [rotated, consumes 1, case_names step]
lemmas range_loop_induct = dump_range_loop.raw_induct [rotated, consumes 1, case_names step]

lemma sub_loop_half:
  assumes "sub_loop rd1 leaf cond subleaf reg regs s = Some r" "reader_sim rd1 rd2 R" "R s t"
  shows "\<exists>t'. sub_loop rd2 leaf cond subleaf reg regs t = Some (fst r, t') \<and> R (snd r) t'"
  using assms
proof (induction arbitrary: t rule: sub_loop_induct)
  case (step loop rd1 leaf cond subleaf reg regs s r)
  show ?case
  proof (rule get_sim [OF step.prems, of leaf subleaf])
    fix s' t' assume "get_cpuid rd1 leaf subleaf s = (None, s')" "get_cpuid rd2 leaf subleaf t = (None, t')" "R s' t'"
    then show ?thesis using step.hyps step.prems by (subst sub_loop.simps) (auto split: if_splits)
  next
    fix i s' t' assume "get_cpuid rd1 leaf subleaf s = (Some i, s')" "get_cpuid rd2 leaf subleaf t = (Some i, t')" "R s' t'"
    then show ?thesis using step.hyps step.prems step.IH [of rd1 leaf cond "subleaf + 1" i "regs @ [i]" s' r t']
      by (subst sub_loop.simps) (auto split: if_splits)
  qed
qed

lemma range_loop_half:
  assumes "dump_range_loop rd1 base leaf maxleaf ok regs s = Some r" "reader_sim rd1 rd2 R" "R s t"
  shows "\<exists>t'. dump_range_loop rd2 base leaf maxleaf ok regs t = Some (fst r, fst (snd r), t') \<and> R (snd (snd r)) t'"
  using assms
proof (induction arbitrary: t rule: range_loop_induct)
  case (step loop rd1 base leaf maxleaf ok regs s r)
  show ?case
  proof (rule get_sim [OF step.prems, of leaf 0])
    fix s' t' assume "get_cpuid rd1 leaf 0 s = (None, s')" "get_cpuid rd2 leaf 0 t = (None, t')" "R s' t'"
    then show ?thesis using step.hyps step.prems step.IH [of rd1 base leaf maxleaf ok regs s' r t']
      by (subst dump_range_loop.simps) auto
  next
    fix i s' t' assume "get_cpuid rd1 leaf 0 s = (Some i, s')" "get_cpuid rd2 leaf 0 t = (Some i, t')" "R s' t'"
    then show ?thesis using step.hyps step.prems step.IH [of rd1 base "leaf + 1" _ True "regs @ [i]" s' r t']
      by (subst dump_range_loop.simps) (auto simp: Let_def split: if_splits)
  qed
qed

text \<open>A function of the reader's state that respects the simulation.\<close>

abbreviation same_out :: "('s \<Rightarrow> 't \<Rightarrow> bool) \<Rightarrow> ('a \<times> 's) option \<Rightarrow> ('a \<times> 't) option \<Rightarrow> bool" where
  "same_out R \<equiv> rel_option (rel_prod (=) R)"
abbreviation same_out3 :: "('s \<Rightarrow> 't \<Rightarrow> bool) \<Rightarrow> ('a \<times> 'b \<times> 's) option \<Rightarrow> ('a \<times> 'b \<times> 't) option \<Rightarrow> bool" where
  "same_out3 R \<equiv> rel_option (rel_prod (=) (rel_prod (=) R))"
lemma leaf_loop_half:
  assumes "leaf_loop rd1 h1 leaf v ok regs s = Some r" "reader_sim rd1 rd2 R" "R s t"
    "\<forall>leaf reg v regs s t. R s t \<longrightarrow> same_out3 R (h1 leaf reg v regs s) (h2 leaf reg v regs t)"
  shows "\<exists>t'. leaf_loop rd2 h2 leaf v ok regs t = Some (fst r, fst (snd r), t') \<and> R (snd (snd r)) t'"
  using assms
proof (induction arbitrary: t rule: leaf_loop_induct)
  case (step loop rd1 h1 leaf v ok regs s r)
  show ?case
  proof (rule get_sim [OF step.prems(1,2), of leaf 0])
    fix s' t' assume "get_cpuid rd1 leaf 0 s = (None, s')" "get_cpuid rd2 leaf 0 t = (None, t')" "R s' t'"
    then show ?thesis using step.hyps step.prems step.IH [of rd1 h1 "leaf + 1" v ok regs s' r t']
      by (subst leaf_loop.simps) (auto split: if_splits)
  next
    fix i s' t' assume g: "get_cpuid rd1 leaf 0 s = (Some i, s')" "get_cpuid rd2 leaf 0 t = (Some i, t')" "R s' t'"
    show ?thesis
    proof (cases "h1 leaf i v (regs @ [i]) s'")
      case None then show ?thesis using step.hyps g by simp
    next
      case (Some o1)
      obtain v' regs' s'' where o1: "o1 = (v', regs', s'')" by (metis prod.collapse)
      from step.prems(3) g(3) Some o1
      have "same_out3 R (Some (v', regs', s'')) (h2 leaf i v (regs @ [i]) t')" by metis
      then obtain t'' where h2: "h2 leaf i v (regs @ [i]) t' = Some (v', regs', t'')" "R s'' t''"
        by (auto simp: option_rel_Some1)
      show ?thesis
      proof (cases "leaf = fst v'")
        case True then show ?thesis using step.hyps g Some o1 h2 by (subst leaf_loop.simps) auto
      next
        case False
        then have "loop rd1 h1 (leaf + 1) v' True regs' s'' = Some r" using step.hyps g Some o1 by auto
        from step.IH [OF this step.prems(1) h2(2) step.prems(3)] False g h2 show ?thesis
          by (subst leaf_loop.simps) auto
      qed
    qed
  qed
qed


lemma sub_loop_sim:
  assumes "reader_sim rd1 rd2 R" "R s t"
  shows "same_out R (sub_loop rd1 leaf cond subleaf reg regs s) (sub_loop rd2 leaf cond subleaf reg regs t)"
  using sub_loop_half [of rd1 leaf cond subleaf reg regs s _ rd2 R t] assms
    sub_loop_half [of rd2 leaf cond subleaf reg regs t _ rd1 "\<lambda>t s. R s t" s] reader_sim.flipped [OF assms(1)]
  by (cases "sub_loop rd1 leaf cond subleaf reg regs s"; cases "sub_loop rd2 leaf cond subleaf reg regs t")
     (fastforce simp: rel_prod_sel)+

lemma dump_range_sim:
  assumes "reader_sim rd1 rd2 R" "R s t"
  shows "same_out3 R (dump_range rd1 base regs s) (dump_range rd2 base regs t)"
  unfolding dump_range_def
  using range_loop_half [of rd1 base base base False regs s _ rd2 R t] assms
    range_loop_half [of rd2 base base base False regs t _ rd1 "\<lambda>t s. R s t" s] reader_sim.flipped [OF assms(1)]
  by (cases "dump_range_loop rd1 base base base False regs s"; cases "dump_range_loop rd2 base base base False regs t")
     (fastforce simp: rel_prod_sel)+

lemma leaf_loop_sim:
  assumes "reader_sim rd1 rd2 R" "R s t"
    "\<forall>leaf reg v regs s t. R s t \<longrightarrow> same_out3 R (h1 leaf reg v regs s) (h2 leaf reg v regs t)"
  shows "same_out3 R (leaf_loop rd1 h1 leaf v ok regs s) (leaf_loop rd2 h2 leaf v ok regs t)"
proof -
  have "\<forall>leaf reg v regs t s. R s t \<longrightarrow> same_out3 (\<lambda>t s. R s t) (h2 leaf reg v regs t) (h1 leaf reg v regs s)"
  proof (intro allI impI)
    fix leaf reg v regs t s assume "R s t"
    then have "same_out3 R (h1 leaf reg v regs s) (h2 leaf reg v regs t)" using assms(3) by blast
    then show "same_out3 (\<lambda>t s. R s t) (h2 leaf reg v regs t) (h1 leaf reg v regs s)"
      by (cases "h1 leaf reg v regs s"; cases "h2 leaf reg v regs t") (auto simp: rel_prod_sel)
  qed
  then show ?thesis
    using leaf_loop_half [of rd1 h1 leaf v ok regs s _ rd2 R t h2] assms
      leaf_loop_half [of rd2 h2 leaf v ok regs t _ rd1 "\<lambda>t s. R s t" s h1] reader_sim.flipped [OF assms(1)]
    by (cases "leaf_loop rd1 h1 leaf v ok regs s"; cases "leaf_loop rd2 h2 leaf v ok regs t")
       (fastforce simp: rel_prod_sel)+
qed

lemma xsave_loop_sim:
  "reader_sim rd1 rd2 R \<Longrightarrow> R s t \<Longrightarrow>
     rel_prod (=) R (xsave_loop rd1 leaf n subleaf regs s) (xsave_loop rd2 leaf n subleaf regs t)"
proof (induction n arbitrary: subleaf regs s t)
  case (Suc n)
  from Suc.prems show ?case by (rule get_sim [of _ _ _ _ _ leaf subleaf]) (auto intro!: Suc.IH Suc.prems)
qed simp

lemma listed_loop_sim:
  "reader_sim rd1 rd2 R \<Longrightarrow> R s t \<Longrightarrow>
     rel_prod (=) R (listed_loop rd1 leaf ls regs s) (listed_loop rd2 leaf ls regs t)"
proof (induction ls arbitrary: regs s t)
  case (Cons subleaf ls)
  from Cons.prems show ?case by (rule get_sim [of _ _ _ _ _ leaf subleaf]) (auto intro!: Cons.IH Cons.prems)
qed simp

lemma resid_loop_sim:
  "reader_sim rd1 rd2 R \<Longrightarrow> R s t \<Longrightarrow>
     rel_prod (=) R (resid_loop rd1 leaf bits subleaf regs s) (resid_loop rd2 leaf bits subleaf regs t)"
proof (induction rd1 leaf bits subleaf regs s arbitrary: t rule: resid_loop.induct)
  case (1 rd1 leaf bits subleaf regs s)
  from 1(2,3) show ?case
  proof (rule get_sim [of _ _ _ _ _ leaf subleaf])
    fix s' t' assume "get_cpuid rd1 leaf subleaf s = (None, s')" "get_cpuid rd2 leaf subleaf t = (None, t')" "R s' t'"
    then show ?thesis using 1(3) by (subst (1 2) resid_loop.simps) simp
  next
    fix i s' t' assume g: "get_cpuid rd1 leaf subleaf s = (Some i, s')" "get_cpuid rd2 leaf subleaf t = (Some i, t')" "R s' t'"
    then show ?thesis using 1(1) [OF _ g(1) [symmetric] refl 1(2) g(3)] 1(3)
      by (subst (1 2) resid_loop.simps) simp
  qed
qed

lemma with_regs_sim: "same_out R a b \<Longrightarrow> same_out3 R (with_regs v a) (with_regs v b)"
  by (cases a; cases b) (auto simp: with_regs_def)

lemmas loop_sims = sub_loop_sim xsave_loop_sim listed_loop_sim resid_loop_sim with_regs_sim

lemma intel_leaf_sim:
  "reader_sim rd1 rd2 R \<Longrightarrow> R s t \<Longrightarrow> same_out3 R (intel_leaf rd1 leaf reg v regs s) (intel_leaf rd2 leaf reg v regs t)"
  by (auto simp: intel_leaf_def subleaves_loop_def Let_def split: prod.split intro!: loop_sims simp del: listed_loop.simps)

lemma amd_leaf_sim:
  "reader_sim rd1 rd2 R \<Longrightarrow> R s t \<Longrightarrow> same_out3 R (amd_leaf rd1 leaf reg v regs s) (amd_leaf rd2 leaf reg v regs t)"
  "reader_sim rd1 rd2 R \<Longrightarrow> R s t \<Longrightarrow> same_out3 R (amd_ext_leaf rd1 leaf reg v regs s) (amd_ext_leaf rd2 leaf reg v regs t)"
  by (auto simp: amd_leaf_def amd_ext_leaf_def subleaves_loop_def Let_def intro!: loop_sims simp del: listed_loop.simps)

lemma and_then_sim:
  assumes "same_out3 R a b" "\<And>regs s t. R s t \<Longrightarrow> same_out3 R (f regs s) (g regs t)"
  shows "same_out3 R (and_then a f) (and_then b g)"
  using assms by (cases a; cases b) (auto simp: and_then_def)

lemma dump_result_sim: "same_out3 R a b \<Longrightarrow> same_out R (dump_result a) (dump_result b)"
  by (cases a; cases b) (auto simp: dump_result_def)

lemma dump_hypervisor_sim:
  "reader_sim rd1 rd2 R \<Longrightarrow> R s t \<Longrightarrow> same_out3 R (dump_hypervisor rd1 regs s) (dump_hypervisor rd2 regs t)"
  by (auto simp: dump_hypervisor_def Let_def intro: dump_range_sim)

lemma normal_sims:
  assumes "reader_sim rd1 rd2 R" "R s t"
  shows "same_out3 R (dump_intel_normal rd1 regs s) (dump_intel_normal rd2 regs t)"
    and "same_out3 R (dump_amd_normal rd1 regs s) (dump_amd_normal rd2 regs t)"
    and "same_out3 R (dump_amd_extended rd1 regs s) (dump_amd_extended rd2 regs t)"
  unfolding dump_intel_normal_def dump_amd_normal_def dump_amd_extended_def
  using intel_leaf_sim [OF assms(1)] amd_leaf_sim [OF assms(1)] by (blast intro: leaf_loop_sim [OF assms])+

lemma vendor_sims:
  assumes "reader_sim rd1 rd2 R" "R s t"
  shows "same_out R (dump_cpu_intel rd1 s) (dump_cpu_intel rd2 t)"
    and "same_out R (dump_cpu_amd rd1 s) (dump_cpu_amd rd2 t)"
    and "same_out R (dump_cpu_generic rd1 s) (dump_cpu_generic rd2 t)"
  unfolding dump_cpu_intel_def dump_cpu_amd_def dump_cpu_generic_def
  by (intro dump_result_sim and_then_sim normal_sims [OF assms(1)] dump_range_sim [OF assms(1)]
       dump_hypervisor_sim [OF assms(1)] assms(2); assumption)+

text \<open>Two readers that answer alike, and leave the reader in states that answer alike, give the
  same dump.\<close>

lemma dump_enabled_sim:
  assumes "reader_sim rd1 rd2 R" "R s t"
  shows "same_out R (dump_enabled rd1 s) (dump_enabled rd2 t)"
  using assms by (rule get_sim [of _ _ _ _ _ 0 0])
    (auto simp: dump_enabled_def dump_by_brand_def intro!: vendor_sims [OF assms(1)])


section \<open>Readers that answer from a table\<close>

text \<open>The reader whose answers are those of a function; every reader is compared with one.\<close>

definition pure_reader :: "(cpuidreg \<Rightarrow> cpuidreg \<Rightarrow> cpuid_res option) \<Rightarrow> 's cpuid_fn" where
  "pure_reader f eax ecx s = (f eax ecx, s)"

lemma get_pure [simp]: "get_cpuid (pure_reader f) a c s = (map_option (mk_info a c) (f a c), s)"
  by (cases "f a c") (auto simp: get_cpuid_def pure_reader_def mk_info_def)

definition answered :: "(cpuidreg \<Rightarrow> cpuidreg \<Rightarrow> cpuid_res option) \<Rightarrow> cpuidreg \<Rightarrow> bool" where
  "answered f leaf \<longleftrightarrow> f leaf 0 \<noteq> None"

definition leaf_info :: "(cpuidreg \<Rightarrow> cpuidreg \<Rightarrow> cpuid_res option) \<Rightarrow> cpuidreg \<Rightarrow> cpuid_info" where
  "leaf_info f leaf = mk_info leaf 0 (the (f leaf 0))"

definition leaves :: "cpuidreg \<Rightarrow> cpuidreg \<Rightarrow> cpuidreg list" where
  "leaves a b = map word_of_nat [unat a ..< Suc (unat b)]"

lemma unat_next: "a < b \<Longrightarrow> unat (a + 1) = Suc (unat a)" for a b :: cpuidreg
  using unsigned_less [of b, where 'a = nat] by (auto simp: word_less_nat_alt unat_word_ariths)

lemma leaves_single [simp]: "leaves a a = [a]"
  by (simp add: leaves_def)

lemma leaves_step: "a < b \<Longrightarrow> leaves a b = a # leaves (a + 1) b"
proof -
  assume l: "a < b"
  then have "unat (a + 1) = Suc (unat a)"
    by (rule unat_next)
  moreover have "unat a < Suc (unat b)" using l by (simp add: word_less_nat_alt)
  ultimately show ?thesis by (simp add: leaves_def upt_conv_Cons del: upt_Suc)
qed

lemma in_leaves: "leaf \<in> set (leaves a b) \<longleftrightarrow> a \<le> leaf \<and> leaf \<le> b"
proof -
  have "leaf \<in> set (leaves a b) \<longleftrightarrow> (\<exists>n. unat a \<le> n \<and> n \<le> unat b \<and> leaf = word_of_nat n)"
    by (auto simp: leaves_def simp del: upt_Suc)
  also have "\<dots> \<longleftrightarrow> unat a \<le> unat leaf \<and> unat leaf \<le> unat b"
  proof (intro iffI; (elim exE conjE)?)
    fix n assume n: "unat a \<le> n" "n \<le> unat b" "leaf = word_of_nat n"
    then have "unat leaf = n" using unsigned_less [of b, where 'a = nat] by (simp add: unat_of_nat)
    then show "unat a \<le> unat leaf \<and> unat leaf \<le> unat b" using n by simp
  qed (auto intro!: exI [of _ "unat leaf"])
  finally show ?thesis by (simp add: word_le_nat_alt)
qed

section \<open>What a range gives\<close>

lemma range_loop_none:
  assumes "f leaf 0 = None"
  shows "dump_range_loop (pure_reader f) base leaf maxleaf ok regs s = None"
proof -
  have "False" if "dump_range_loop rd base leaf maxleaf ok regs s = Some y" "rd = pure_reader f" for rd y
    using that assms
  proof (induction rule: range_loop_induct)
    case (step loop rd base leaf maxleaf ok regs s y)
    then show ?case using step.IH [of rd base leaf maxleaf ok regs s y] by simp
  qed
  then show ?thesis by (cases "dump_range_loop (pure_reader f) base leaf maxleaf ok regs s") auto
qed

lemma range_loop_spec:
  assumes "base < leaf" "leaf \<le> maxleaf"
  shows "dump_range_loop (pure_reader f) base leaf maxleaf ok regs s =
    (if list_all (answered f) (leaves leaf maxleaf)
     then Some (True, regs @ map (leaf_info f) (leaves leaf maxleaf), s) else None)"
  using assms
proof (induction "unat maxleaf - unat leaf" arbitrary: leaf regs ok)
  case 0
  then have "leaf = maxleaf" by (simp add: word_le_nat_alt word_unat_eq_iff)
  with 0 show ?case
    by (cases "f leaf 0"; subst dump_range_loop.simps)
       (auto simp: range_loop_none answered_def leaf_info_def Let_def)
next
  case (Suc n)
  then have l: "leaf < maxleaf" by (simp add: word_less_nat_alt)
  have u: "unat (leaf + 1) = Suc (unat leaf)" by (rule unat_next [OF l])
  have ne: "leaf \<noteq> base" "\<not> maxleaf \<le> leaf" using Suc.prems l by auto
  have n: "n = unat maxleaf - unat (leaf + 1)" using Suc.hyps(2) u by simp
  have b: "base < leaf + 1" "leaf + 1 \<le> maxleaf" using u l Suc.prems by (simp_all add: word_less_nat_alt word_le_nat_alt)
  show ?case
  proof (cases "f leaf 0")
    case None
    then show ?thesis using l by (simp add: range_loop_none leaves_step answered_def)
  next
    case (Some r)
    have "dump_range_loop (pure_reader f) base leaf maxleaf ok regs s =
        dump_range_loop (pure_reader f) base (leaf + 1) maxleaf True (regs @ [mk_info leaf 0 r]) s"
      using Some ne by (subst dump_range_loop.simps) (simp add: Let_def)
    then show ?thesis using Suc.hyps(1) [OF n b] Some l by (simp add: leaves_step answered_def leaf_info_def)
  qed
qed

lemma dump_range_pure:
  "dump_range (pure_reader f) base regs s =
     (case f base 0 of
        None \<Rightarrow> None
      | Some r \<Rightarrow>
          if res_eax r AND 0xFFFFFF00 \<noteq> base AND 0xFFFFFF00 then Some (True, regs @ [leaf_info f base], s)
          else if list_all (answered f) (leaves base (max base (res_eax r)))
          then Some (True, regs @ map (leaf_info f) (leaves base (max base (res_eax r))), s)
          else None)"
proof (cases "f base 0")
  case None then show ?thesis by (simp add: dump_range_def range_loop_none)
next
  case (Some r)
  show ?thesis
  proof (cases "base < res_eax r")
    case False
    then have "max base (res_eax r) = base" by simp
    moreover have "dump_range_loop (pure_reader f) base base base False regs s = Some (True, regs @ [mk_info base 0 r], s)"
      if "res_eax r AND 0xFFFFFF00 = base AND 0xFFFFFF00"
      using that False Some by (subst dump_range_loop.simps) (simp add: Let_def linorder_not_less)
    moreover have "dump_range_loop (pure_reader f) base base base False regs s = Some (True, regs @ [mk_info base 0 r], s)"
      if "res_eax r AND 0xFFFFFF00 \<noteq> base AND 0xFFFFFF00"
      using that Some by (subst dump_range_loop.simps) (simp add: Let_def)
    ultimately show ?thesis using Some by (simp add: dump_range_def answered_def leaf_info_def)
  next
    case True
    have "unat (base + 1) = Suc (unat base)" by (rule unat_next [OF True])
    then have "base < base + 1" "base + 1 \<le> res_eax r" using True by (simp_all add: word_less_nat_alt word_le_nat_alt)
    note rest = range_loop_spec [of base "base + 1" "res_eax r" f True "regs @ [mk_info base 0 r]" s, OF this]
    have ne: "\<not> res_eax r \<le> base" "max base (res_eax r) = res_eax r" using True by auto
    have "dump_range_loop (pure_reader f) base base base False regs s =
       (if res_eax r AND 0xFFFFFF00 \<noteq> base AND 0xFFFFFF00 then Some (True, regs @ [mk_info base 0 r], s)
        else dump_range_loop (pure_reader f) base (base + 1) (res_eax r) True (regs @ [mk_info base 0 r]) s)"
      using Some ne(1) by (subst dump_range_loop.simps) (simp add: Let_def)
    then show ?thesis using Some
      by (simp add: dump_range_def answered_def leaf_info_def ne(2) leaves_step [OF True] rest)
  qed
qed

section \<open>Every entry is an answer, every leaf is there\<close>

definition valid_info :: "(cpuidreg \<Rightarrow> cpuidreg \<Rightarrow> cpuid_res option) \<Rightarrow> cpuid_info \<Rightarrow> bool" where
  "valid_info f i \<longleftrightarrow> f (req_eax (req i)) (req_ecx (req i)) = Some (res i)"

lemma valid_mk [simp]: "valid_info f (mk_info a c r) \<longleftrightarrow> f a c = Some r"
  by (simp add: valid_info_def)

definition adds :: "(cpuidreg \<Rightarrow> cpuidreg \<Rightarrow> cpuid_res option) \<Rightarrow> cpuid_info list \<Rightarrow> cpuid_info list \<Rightarrow> bool" where
  "adds f regs regs' \<longleftrightarrow> (\<exists>new. regs' = regs @ new \<and> list_all (valid_info f) new)"

lemma more_refl [simp]: "adds f regs regs"
  by (simp add: adds_def)

lemma more_trans: "adds f a b \<Longrightarrow> adds f b c \<Longrightarrow> adds f a c"
  by (auto simp: adds_def)

lemma adds_snoc: "adds f (regs @ [mk_info a c r]) regs' \<Longrightarrow> f a c = Some r \<Longrightarrow> adds f regs regs'"
  by (auto simp: adds_def)

lemma adds_subset: "adds f a b \<Longrightarrow> set a \<subseteq> set b"
  by (auto simp: adds_def)

lemma sub_loop_adds:
  assumes "sub_loop rd leaf cond subleaf reg regs s = Some r" "rd = pure_reader f"
  shows "adds f regs (fst r)"
  using assms
proof (induction rule: sub_loop_induct)
  case (step loop rd leaf cond subleaf reg regs s r)
  show ?case
  proof (cases "cond subleaf reg \<and> f leaf subleaf \<noteq> None")
    case False
    then show ?thesis using step.hyps step.prems by (auto split: if_splits)
  next
    case True
    then obtain a where a: "f leaf subleaf = Some a" by auto
    then have "loop rd leaf cond (subleaf + 1) (mk_info leaf subleaf a) (regs @ [mk_info leaf subleaf a]) s = Some r"
      using step.hyps step.prems True by simp
    from step.IH [OF this step.prems] a show ?thesis by (rule adds_snoc)
  qed
qed

lemma xsave_adds: "adds f regs (fst (xsave_loop (pure_reader f) leaf n subleaf regs s))"
proof (induction n arbitrary: subleaf regs)
  case (Suc n)
  show ?case
    by (cases "f leaf subleaf") (auto intro: Suc.IH adds_snoc [OF Suc.IH])
qed simp

lemma listed_adds: "adds f regs (fst (listed_loop (pure_reader f) leaf ls regs s))"
proof (induction ls arbitrary: regs)
  case (Cons l ls)
  show ?case by (cases "f leaf l") (auto intro: adds_snoc [OF Cons.IH])
qed simp

lemma resid_adds: "rd = pure_reader f \<Longrightarrow> adds f regs (fst (resid_loop rd leaf bits subleaf regs s))"
proof (induction rd leaf bits subleaf regs s rule: resid_loop.induct)
  case (1 rd leaf bits subleaf regs s)
  show ?case
  proof (cases "bits \<noteq> 0 \<and> f leaf subleaf \<noteq> None")
    case False
    then show ?thesis using 1(2) by (subst resid_loop.simps) auto
  next
    case True
    then obtain a where a: "f leaf subleaf = Some a" by auto
    have "adds f (regs @ [mk_info leaf subleaf a])
        (fst (resid_loop rd leaf (drop_bit 1 bits) (subleaf + 1) (regs @ [mk_info leaf subleaf a]) s))"
      using True a 1(2) by (intro 1(1)) auto
    from adds_snoc [OF this a] have "adds f regs (fst (resid_loop rd leaf (drop_bit 1 bits) (subleaf + 1) (regs @ [mk_info leaf subleaf a]) s))" .
    then show ?thesis using True a 1(2) by (subst resid_loop.simps) simp
  qed
qed

text \<open>What a handler may do: add answers, and set the highest leaf at the first leaf only.\<close>

definition good_handler :: "(cpuidreg \<Rightarrow> cpuidreg \<Rightarrow> cpuid_res option) \<Rightarrow> cpuidreg \<Rightarrow> ('s, 'x) leaf_handler \<Rightarrow> bool" where
  "good_handler f base h \<longleftrightarrow> (\<forall>leaf reg v regs s v' regs' s'. h leaf reg v regs s = Some (v', regs', s') \<longrightarrow>
     adds f regs regs' \<and> fst v' = (if leaf = base then res_eax (res reg) else fst v))"

lemma with_regs_Some:
  "with_regs v r = Some (v', regs', s') \<longleftrightarrow> v' = v \<and> r = Some (regs', s')"
  by (auto simp: with_regs_def)

lemma loop_adds:
  "sub_loop (pure_reader f) leaf cond subleaf reg regs s = Some (regs', s') \<Longrightarrow> adds f regs regs'"
  "xsave_loop (pure_reader f) leaf n subleaf regs s = (regs', s') \<Longrightarrow> adds f regs regs'"
  "listed_loop (pure_reader f) leaf ls regs s = (regs', s') \<Longrightarrow> adds f regs regs'"
  "resid_loop (pure_reader f) leaf bits subleaf regs s = (regs', s') \<Longrightarrow> adds f regs regs'"
  using sub_loop_adds [of "pure_reader f" leaf cond subleaf reg regs s "(regs', s')" f]
    xsave_adds [of f regs leaf n subleaf s] listed_adds [of f regs leaf ls s]
    resid_adds [of "pure_reader f" f regs leaf bits subleaf s] by simp_all

lemma good_handlers:
  "good_handler f 0 (intel_leaf (pure_reader f))"
  "good_handler f 0 (amd_leaf (pure_reader f))"
  "good_handler f 0x80000000 (amd_ext_leaf (pure_reader f))"
  by (auto simp: good_handler_def intel_leaf_def amd_leaf_def amd_ext_leaf_def subleaves_loop_def Let_def with_regs_Some
      intro: loop_adds simp del: listed_loop.simps split: if_splits prod.splits)

lemma leaf_loop_adds:
  assumes "leaf_loop rd h leaf v ok regs s = Some r" "rd = pure_reader f" "good_handler f base h"
  shows "adds f regs (fst (snd r)) \<and> (base < leaf \<longrightarrow> leaf \<le> fst v \<longrightarrow>
    (\<forall>l r0. leaf \<le> l \<longrightarrow> l \<le> fst v \<longrightarrow> f l 0 = Some r0 \<longrightarrow> mk_info l 0 r0 \<in> set (fst (snd r))))"
  using assms
proof (induction rule: leaf_loop_induct)
  case (step loop rd h leaf v ok regs s r)
  have next_leaf: "leaf < fst v" "base < leaf + 1" "leaf + 1 \<le> fst v" "\<And>l. leaf \<le> l \<Longrightarrow> l = leaf \<or> leaf + 1 \<le> l"
    if "base < leaf" "leaf \<le> fst v" "leaf \<noteq> fst v"
  proof -
    show l: "leaf < fst v" using that by simp
    note u = unat_next [OF l]
    show "base < leaf + 1" "leaf + 1 \<le> fst v" using u l that by (simp_all add: word_less_nat_alt word_le_nat_alt)
    show "\<And>l. leaf \<le> l \<Longrightarrow> l = leaf \<or> leaf + 1 \<le> l" using u by (auto simp: word_le_nat_alt word_unat_eq_iff)
  qed
  show ?case
  proof (cases "f leaf 0")
    case None
    show ?thesis
    proof (cases "leaf = fst v")
      case True then show ?thesis using None step.hyps step.prems by (auto simp: order_antisym)
    next
      case False
      then have "loop rd h (leaf + 1) v ok regs s = Some r" using None step.hyps step.prems by simp
      from step.IH [OF this step.prems] False None next_leaf show ?thesis by (metis option.distinct(1))
    qed
  next
    case (Some a)
    from step.hyps Some step.prems obtain v' regs' s' where h: "h leaf (mk_info leaf 0 a) v (regs @ [mk_info leaf 0 a]) s = Some (v', regs', s')"
      by (cases "h leaf (mk_info leaf 0 a) v (regs @ [mk_info leaf 0 a]) s") auto
    with step.prems(2) have g0: "adds f (regs @ [mk_info leaf 0 a]) regs' \<and>
        fst v' = (if leaf = base then res_eax (res (mk_info leaf 0 a)) else fst v)"
      unfolding good_handler_def by blast
    then have g: "adds f (regs @ [mk_info leaf 0 a]) regs'" "base < leaf \<Longrightarrow> fst v' = fst v" by auto
    from g(1) Some have ad: "adds f regs regs'" by (rule adds_snoc)
    from adds_subset [OF g(1)] have here: "mk_info leaf 0 a \<in> set regs'" by auto
    show ?thesis
    proof (cases "leaf = fst v'")
      case True
      then have r: "fst (snd r) = regs'" using step.hyps step.prems Some h by auto
      have "mk_info l 0 r0 \<in> set regs'" if "base < leaf" "leaf \<le> l" "l \<le> fst v" "f l 0 = Some r0" for l r0
        using that g(2) True here Some by (metis order_antisym option.inject)
      then show ?thesis using r ad by auto
    next
      case False
      then have "loop rd h (leaf + 1) v' True regs' s' = Some r" using Some step.hyps step.prems h by simp
      note IH = step.IH [OF this step.prems]
      from IH have ad': "adds f regs' (fst (snd r))" by blast
      have "mk_info l 0 r0 \<in> set (fst (snd r))"
        if b: "base < leaf" "leaf \<le> fst v" and l: "leaf \<le> l" "l \<le> fst v" "f l 0 = Some r0" for l r0
      proof -
        have v: "fst v' = fst v" "leaf \<noteq> fst v" using g(2) b(1) False by auto
        note nl = next_leaf [OF b v(2)]
        show ?thesis
        proof (cases "l = leaf")
          case True then show ?thesis using here adds_subset [OF ad'] Some l(3) by auto
        next
          case neq: False
          then have "leaf + 1 \<le> l" using nl(4) [OF l(1)] by blast
          then show ?thesis using IH nl(2,3) l v(1) by simp
        qed
      qed
      then show ?thesis using more_trans [OF ad ad'] by blast
    qed
  qed
qed

lemma leaf_loop_from_base:
  assumes run: "leaf_loop (pure_reader f) h base v ok regs s = Some (b, regs', s')"
    and good: "good_handler f base h" and first: "f base 0 = Some r0"
    and l: "base \<le> l" "l \<le> res_eax r0" "f l 0 = Some r"
  shows "mk_info l 0 r \<in> set regs'"
proof -
  from run first obtain v' regs1 s1 where h: "h base (mk_info base 0 r0) v (regs @ [mk_info base 0 r0]) s = Some (v', regs1, s1)"
    by (cases "h base (mk_info base 0 r0) v (regs @ [mk_info base 0 r0]) s"; subst (asm) leaf_loop.simps) auto
  from good h have "adds f (regs @ [mk_info base 0 r0]) regs1 \<and> fst v' = res_eax (res (mk_info base 0 r0))"
    unfolding good_handler_def by metis
  then have ad: "adds f (regs @ [mk_info base 0 r0]) regs1" and v': "fst v' = res_eax r0" by auto
  have here: "mk_info base 0 r0 \<in> set regs1" using adds_subset [OF ad] by auto
  show ?thesis
  proof (cases "base = res_eax r0")
    case True
    then have "l = base" using l by auto
    then show ?thesis using run first h v' True here l(3) by (subst (asm) leaf_loop.simps) auto
  next
    case False
    then have lt: "base < res_eax r0" using l by auto
    have "leaf_loop (pure_reader f) h (base + 1) v' True regs1 s1 = Some (b, regs', s')"
      using run first h v' False by (subst (asm) leaf_loop.simps) auto
    note rest = leaf_loop_adds [OF this refl good]
    have "base < base + 1" "base + 1 \<le> fst v'" "l = base \<or> base + 1 \<le> l"
      using unat_next [OF lt] lt v' l(1) by (auto simp: word_less_nat_alt word_le_nat_alt word_unat_eq_iff)
    then show ?thesis using rest adds_subset [of f regs1 regs'] here l v' first by auto
  qed
qed

lemma valid_leaf_info: "list_all (answered f) ls \<Longrightarrow> list_all (valid_info f) (map (leaf_info f) ls)"
  by (induction ls) (auto simp: answered_def leaf_info_def)

lemma dump_range_adds: "dump_range (pure_reader f) base regs s = Some (b, regs', s') \<Longrightarrow> adds f regs regs'"
  by (auto simp: dump_range_pure adds_def valid_leaf_info split: option.splits if_splits)
     (auto simp: leaf_info_def)

lemma dump_range_leaf:
  assumes "dump_range (pure_reader f) base regs s = Some (b, regs', s')" "f base 0 = Some r0"
    "res_eax r0 AND 0xFFFFFF00 = base AND 0xFFFFFF00" "base \<le> l" "l \<le> res_eax r0" "f l 0 = Some r"
  shows "mk_info l 0 r \<in> set regs'"
proof -
  have "leaf_info f l \<in> leaf_info f ` set (leaves base (max base (res_eax r0)))"
    using assms(4,5) by (intro imageI) (simp add: in_leaves)
  moreover have "leaf_info f l = mk_info l 0 r" by (simp add: leaf_info_def assms(6))
  ultimately show ?thesis using assms(1,2,3) by (auto simp: dump_range_pure split: if_splits)
qed

lemma dump_hypervisor_adds: "dump_hypervisor (pure_reader f) regs s = Some (b, regs', s') \<Longrightarrow> adds f regs regs'"
  by (auto simp: dump_hypervisor_def Let_def dest: dump_range_adds split: if_splits)

lemma vendor_loop_adds:
  "dump_intel_normal (pure_reader f) regs s = Some (b, regs', s') \<Longrightarrow> adds f regs regs'"
  "dump_amd_normal (pure_reader f) regs s = Some (b, regs', s') \<Longrightarrow> adds f regs regs'"
  "dump_amd_extended (pure_reader f) regs s = Some (b, regs', s') \<Longrightarrow> adds f regs regs'"
  unfolding dump_intel_normal_def dump_amd_normal_def dump_amd_extended_def
  using leaf_loop_adds [OF _ refl good_handlers(1)] leaf_loop_adds [OF _ refl good_handlers(2)]
    leaf_loop_adds [OF _ refl good_handlers(3)] by fastforce+

lemmas part_adds = dump_range_adds dump_hypervisor_adds vendor_loop_adds

text \<open>A run whose registers are answers and include the given entries keeps both through the parts
  that follow it.\<close>

definition out_ok :: "(cpuidreg \<Rightarrow> cpuidreg \<Rightarrow> cpuid_res option) \<Rightarrow> cpuid_info set
     \<Rightarrow> (bool \<times> cpuid_info list \<times> 's) option \<Rightarrow> bool" where
  "out_ok f S r \<longleftrightarrow> (\<forall>b regs s. r = Some (b, regs, s) \<longrightarrow> adds f [] regs \<and> S \<subseteq> set regs)"

lemma out_okI: "(\<And>b regs s. r = Some (b, regs, s) \<Longrightarrow> adds f [] regs \<and> S \<subseteq> set regs) \<Longrightarrow> out_ok f S r"
  by (auto simp: out_ok_def)

lemma and_then_ok:
  assumes a: "out_ok f S a" and g: "\<And>regs s b regs' s'. g regs s = Some (b, regs', s') \<Longrightarrow> adds f regs regs'"
  shows "out_ok f S (and_then a g)"
proof (rule out_okI)
  fix b regs s assume r: "and_then a g = Some (b, regs, s)"
  then obtain b1 regs1 s1 where 1: "a = Some (b1, regs1, s1)" by (cases a) (auto simp: and_then_def)
  have ok: "adds f [] regs1" "S \<subseteq> set regs1" using a 1 by (auto simp: out_ok_def)
  have "adds f regs1 regs" using r 1 g by (cases b1) (auto simp: and_then_def)
  then show "adds f [] regs \<and> S \<subseteq> set regs" using ok more_trans adds_subset by blast
qed

definition first_part :: "'s cpuid_fn \<Rightarrow> string \<Rightarrow> 's \<Rightarrow> (bool \<times> cpuid_info list \<times> 's) option" where
  "first_part rd brand s =
     (if brand = ''GenuineIntel'' then dump_intel_normal rd [] s
      else if brand = ''AuthenticAMD'' \<or> brand = ''AMDisbetter!'' then dump_amd_normal rd [] s
      else dump_range rd 0 [] s)"

lemma dump_result_Some: "dump_result r = Some (Some l, s) \<longleftrightarrow> r = Some (True, l, s)"
  by (auto simp: dump_result_def split: if_splits)

lemma dump_by_brand_ok:
  assumes "dump_by_brand (pure_reader f) brand s = Some (Some l, s')"
    and ok: "out_ok f S (first_part (pure_reader f) brand s)"
  shows "adds f [] l \<and> S \<subseteq> set l"
proof -
  have "\<exists>r. out_ok f S r \<and> dump_by_brand (pure_reader f) brand s = dump_result r"
  proof (cases "brand = ''GenuineIntel''")
    case True
    with ok show ?thesis unfolding dump_by_brand_def dump_cpu_intel_def first_part_def
      by (intro exI conjI) (auto intro!: and_then_ok intro: part_adds)
  next
    case no_intel: False
    show ?thesis
    proof (cases "brand = ''AuthenticAMD'' \<or> brand = ''AMDisbetter!''")
      case True
      with no_intel ok show ?thesis unfolding dump_by_brand_def dump_cpu_amd_def first_part_def
        by (intro exI conjI) (auto intro!: and_then_ok intro: part_adds)
    next
      case False
      with no_intel ok show ?thesis unfolding dump_by_brand_def dump_cpu_generic_def first_part_def
        by (intro exI conjI) (auto intro!: and_then_ok intro: part_adds)
    qed
  qed
  then obtain r where r: "out_ok f S r" "dump_by_brand (pure_reader f) brand s = dump_result r" by blast
  then have "r = Some (True, l, s')" using assms(1) by (metis dump_result_Some)
  then show ?thesis using r(1) by (auto simp: out_ok_def)
qed

lemma small_page: "r \<le> 0xFF \<Longrightarrow> r AND 0xFFFFFF00 = (0 :: cpuidreg)"
proof -
  assume "r \<le> 0xFF"
  then have "unat r < 2 ^ 8" by (simp add: word_le_nat_alt)
  then have r: "take_bit 8 (unat r) = unat r" by (simp add: take_bit_nat_eq_self)
  have "\<exists>m. (0xFFFFFF00 :: cpuidreg) = push_bit 8 m"
    by (intro exI [of _ "0xFFFFFF"]) (simp add: push_bit_eq_mult)
  then obtain m where m: "(0xFFFFFF00 :: cpuidreg) = push_bit 8 m" ..
  show ?thesis
  proof (rule bit_eqI)
    fix i show "bit (r AND 0xFFFFFF00) i = bit (0 :: cpuidreg) i"
      using arg_cong [OF r, of "\<lambda>x. bit x i"]
      unfolding m by (auto simp: bit_and_iff bit_push_bit_iff bit_take_bit_iff bit_unsigned_iff)
  qed
qed

lemma first_part_ok:
  assumes "f 0 0 = Some r0" "S = {}  \<or> res_eax r0 \<le> 0xFF \<and> S = {mk_info l 0 r |l r. l \<le> res_eax r0 \<and> f l 0 = Some r}"
  shows "out_ok f S (first_part (pure_reader f) brand s)"
proof (rule out_okI)
  fix b regs t assume run: "first_part (pure_reader f) brand s = Some (b, regs, t)"
  have "adds f [] regs" using run by (auto simp: first_part_def intro: part_adds split: if_splits)
  moreover have "mk_info l 0 r \<in> set regs" if "res_eax r0 \<le> 0xFF" "l \<le> res_eax r0" "f l 0 = Some r" for l r
  proof -
    have "res_eax r0 AND 0xFFFFFF00 = 0 AND 0xFFFFFF00" using that(1) by (simp add: small_page)
    then show ?thesis using run assms(1) that
        leaf_loop_from_base [of f "intel_leaf (pure_reader f)" 0 "(0, False)" False "[]" s b regs t r0 l r]
        leaf_loop_from_base [of f "amd_leaf (pure_reader f)" 0 "(0, ())" False "[]" s b regs t r0 l r]
        good_handlers(1,2) [of f] dump_range_leaf [of f 0 "[]" s b regs t r0 l r]
      by (auto simp: first_part_def dump_intel_normal_def dump_amd_normal_def split: if_splits)
  qed
  ultimately show "adds f [] regs \<and> S \<subseteq> set regs" using assms(2) by auto
qed

lemma dump_enabled_ok:
  assumes "dump_enabled (pure_reader f) s = Some (Some l, s')" "f 0 0 = Some r0"
    and "S = {} \<or> res_eax r0 \<le> 0xFF \<and> S = {mk_info l 0 r |l r. l \<le> res_eax r0 \<and> f l 0 = Some r}"
  shows "adds f [] l \<and> S \<subseteq> set l"
  using assms by (intro dump_by_brand_ok first_part_ok) (auto simp: dump_enabled_def)

section \<open>When the dumps return\<close>

lemma sub_loop_returns:
  assumes "subleaf \<le> n" "f leaf n = None \<or> (\<forall>r. f leaf n = Some r \<longrightarrow> \<not> cond (n + 1) (mk_info leaf n r))"
  shows "\<exists>regs' s'. sub_loop (pure_reader f) leaf cond subleaf reg regs s = Some (regs', s')"
  using assms(1)
proof (induction "unat n - unat subleaf" arbitrary: subleaf reg regs)
  case 0
  then have "subleaf = n" by (simp add: word_le_nat_alt word_unat_eq_iff)
  then show ?case using assms(2)
    by (cases "f leaf n"; subst sub_loop.simps; subst sub_loop.simps) auto
next
  case (Suc k)
  then have l: "subleaf < n" by (simp add: word_less_nat_alt)
  have "k = unat n - unat (subleaf + 1)" "subleaf + 1 \<le> n"
    using Suc.hyps(2) unat_next [OF l] l by (simp_all add: word_less_nat_alt word_le_nat_alt)
  from Suc.hyps(1) [OF this] show ?case by (cases "f leaf subleaf"; subst sub_loop.simps) auto
qed

text \<open>The tables on which the Intel and AMD loops return: no leaf counts its subleaves with the
  highest number there is, and the topology leaves end.\<close>

definition counts_end :: "(cpuidreg \<Rightarrow> cpuidreg \<Rightarrow> cpuid_res option) \<Rightarrow> cpuidreg \<Rightarrow> bool" where
  "counts_end f leaf \<longleftrightarrow> (\<forall>r. f leaf 0 = Some r \<longrightarrow> res_eax r \<noteq> 0xFFFFFFFF)"

definition topology_ends :: "(cpuidreg \<Rightarrow> cpuidreg \<Rightarrow> cpuid_res option) \<Rightarrow> cpuidreg \<Rightarrow> bool" where
  "topology_ends f leaf \<longleftrightarrow>
     (\<exists>n \<ge> 1. f leaf n = None \<or> (\<forall>r. f leaf n = Some r \<longrightarrow> res_ebx r AND 0xFFFF = 0))"

definition handler_returns :: "(cpuidreg \<Rightarrow> cpuidreg \<Rightarrow> cpuid_res option) \<Rightarrow> ('s, 'x) leaf_handler \<Rightarrow> bool" where
  "handler_returns f h \<longleftrightarrow> (\<forall>leaf r v regs s. f leaf 0 = Some r \<longrightarrow> h leaf (mk_info leaf 0 r) v regs s \<noteq> None)"

lemma bounded_loop_returns:
  assumes "\<And>r. \<not> cond (n + 1) r" "1 \<le> n"
  shows "sub_loop (pure_reader f) leaf cond 1 reg regs s \<noteq> None"
proof -
  have "\<exists>regs' s'. sub_loop (pure_reader f) leaf cond 1 reg regs s = Some (regs', s')"
    using assms by (intro sub_loop_returns) auto
  then show ?thesis by auto
qed

lemma subleaves_returns:
  assumes "res_eax r \<noteq> 0xFFFFFFFF"
  shows "subleaves_loop (pure_reader f) leaf (mk_info leaf 0 r) regs s \<noteq> None"
proof (cases "res_eax r = 0")
  case True
  then show ?thesis by (simp add: subleaves_loop_def, subst sub_loop.simps) simp
next
  case False
  have "res_eax r < 0xFFFFFFFF" using assms unsigned_less [of "res_eax r", where 'a = nat]
    by (simp add: word_less_nat_alt word_unat_eq_iff)
  from unat_next [OF this] have "\<not> res_eax r + 1 \<le> res_eax r" by (simp add: word_le_nat_alt)
  moreover have "1 \<le> res_eax r" using False by (simp add: word_le_nat_alt unat_gt_0 Suc_le_eq)
  ultimately show ?thesis unfolding subleaves_loop_def Let_def
    by (intro bounded_loop_returns [of _ "res_eax r"]) auto
qed

lemma leaf_loop_returns:
  assumes good: "good_handler f base h" and ret: "handler_returns f h"
    and m: "leaf \<noteq> base" "unat (fst v - leaf) < unat (fst v - base)"
  shows "\<exists>r. leaf_loop (pure_reader f) h leaf v ok regs s = Some r"
  using m
proof (induction "unat (fst v - leaf)" arbitrary: leaf v ok regs s)
  case (0 leaf v ok regs s)
  then have "leaf = fst v" by (simp add: unat_eq_0)
  then show ?case
  proof (cases "f leaf 0")
    case (Some a)
    with ret obtain v' regs' s' where h: "h leaf (mk_info leaf 0 a) v (regs @ [mk_info leaf 0 a]) s = Some (v', regs', s')"
      unfolding handler_returns_def by (metis not_Some_eq prod_cases3)
    with good 0 have "fst v' = fst v" unfolding good_handler_def by metis
    then show ?thesis using Some h \<open>leaf = fst v\<close> by (subst leaf_loop.simps) auto
  qed (subst leaf_loop.simps, simp)
next
  case (Suc k leaf v ok regs s)
  have nz: "fst v - leaf \<noteq> 0" using Suc.hyps(2) by auto
  then have ne: "leaf \<noteq> fst v" by auto
  have k: "k = unat (fst v - (leaf + 1))"
    using Suc.hyps(2) unat_minus_one [OF nz] by (simp add: diff_diff_eq)
  then have b: "unat (fst v - (leaf + 1)) < unat (fst v - base)" "leaf + 1 \<noteq> base" using Suc.hyps(2) Suc.prems by auto
  show ?case
  proof (cases "f leaf 0")
    case None
    then show ?thesis using Suc.hyps(1) [OF k b(2) b(1)] ne by (subst leaf_loop.simps) simp
  next
    case (Some a)
    with ret obtain v' regs' s' where h: "h leaf (mk_info leaf 0 a) v (regs @ [mk_info leaf 0 a]) s = Some (v', regs', s')"
      unfolding handler_returns_def by (metis not_Some_eq prod_cases3)
    with good Suc.prems have v': "fst v' = fst v" unfolding good_handler_def by metis
    then show ?thesis using Some h ne Suc.hyps(1) [of v' "leaf + 1"] k b by (subst leaf_loop.simps) simp
  qed
qed

lemma leaf_loop_returns_base:
  assumes good: "good_handler f base h" and ret: "handler_returns f h" and v: "fst v = base"
  shows "leaf_loop (pure_reader f) h base v ok regs s \<noteq> None"
proof (cases "f base 0")
  case None
  then show ?thesis using v by (subst leaf_loop.simps) simp
next
  case (Some a)
  with ret obtain v' regs' s' where h: "h base (mk_info base 0 a) v (regs @ [mk_info base 0 a]) s = Some (v', regs', s')"
    unfolding handler_returns_def by (metis not_Some_eq prod_cases3)
  show ?thesis
  proof (cases "base = fst v'")
    case True then show ?thesis using Some h by (subst leaf_loop.simps) simp
  next
    case False
    then have nz: "fst v' - base \<noteq> 0" by auto
    have "unat (fst v' - (base + 1)) < unat (fst v' - base)"
      using unat_minus_one [OF nz] nz unat_gt_0 [of "fst v' - base"] by (simp add: diff_diff_eq)
    moreover have "base + 1 \<noteq> base" by simp
    ultimately obtain r where "leaf_loop (pure_reader f) h (base + 1) v' True regs' s' = Some r"
      using leaf_loop_returns [OF good ret] by blast
    then show ?thesis using Some h False by (subst leaf_loop.simps) simp
  qed
qed

lemma with_regs_returns [simp]: "with_regs v r = None \<longleftrightarrow> r = None"
  by (simp add: with_regs_def)

lemma topology_returns:
  assumes "topology_ends f leaf"
  shows "sub_loop (pure_reader f) leaf (\<lambda>_ r. res_ebx (res r) AND 0xFFFF \<noteq> 0) 1 reg regs s \<noteq> None"
proof -
  obtain n where "1 \<le> n" "f leaf n = None \<or> (\<forall>r. f leaf n = Some r \<longrightarrow> res_ebx r AND 0xFFFF = 0)"
    using assms unfolding topology_ends_def by blast
  then have "\<exists>regs' s'. sub_loop (pure_reader f) leaf (\<lambda>_ r. res_ebx (res r) AND 0xFFFF \<noteq> 0) 1 reg regs s = Some (regs', s')"
    by (intro sub_loop_returns) auto
  then show ?thesis by auto
qed

lemma amd_handlers_return:
  "counts_end f 7 \<Longrightarrow> handler_returns f (amd_leaf (pure_reader f) :: ('s, unit) leaf_handler)"
  "handler_returns f (amd_ext_leaf (pure_reader f) :: ('s, unit) leaf_handler)"
proof -
  show "handler_returns f (amd_leaf (pure_reader f) :: ('s, unit) leaf_handler)" if c: "counts_end f 7"
    unfolding handler_returns_def
  proof (intro allI impI notI)
    fix leaf r v regs and s :: 's
    assume a: "f leaf 0 = Some r" and n: "amd_leaf (pure_reader f) leaf (mk_info leaf 0 r) v regs s = None"
    then have "leaf = 7" "subleaves_loop (pure_reader f) leaf (mk_info leaf 0 r) regs s = None"
      by (simp_all add: amd_leaf_def split: if_splits)
    then show False using c a subleaves_returns [of r f leaf regs s] by (simp add: counts_end_def)
  qed
  have b: "sub_loop (pure_reader f) l (\<lambda>subleaf r. subleaf \<le> 0xFF \<and> P r) 1 reg regs s \<noteq> None"
    for l P reg regs and s :: 's
    by (rule bounded_loop_returns [of _ "0xFF"]) (simp_all)
  show "handler_returns f (amd_ext_leaf (pure_reader f) :: ('s, unit) leaf_handler)"
    unfolding handler_returns_def
  proof (intro allI impI notI)
    fix leaf r v regs and s :: 's
    assume "amd_ext_leaf (pure_reader f) leaf (mk_info leaf 0 r) v regs s = None"
    then show False by (simp add: amd_ext_leaf_def b split: if_splits)
  qed
qed

definition intel_table :: "(cpuidreg \<Rightarrow> cpuidreg \<Rightarrow> cpuid_res option) \<Rightarrow> bool" where
  "intel_table f \<longleftrightarrow> counts_end f 0x07 \<and> counts_end f 0x14 \<and> counts_end f 0x17 \<and> counts_end f 0x18 \<and>
     counts_end f 0x20 \<and> topology_ends f 0x0B \<and> topology_ends f 0x1F"

lemma intel_handler_returns:
  assumes "intel_table f"
  shows "handler_returns f (intel_leaf (pure_reader f))"
proof -
  have sub: "subleaves_loop (pure_reader f) leaf (mk_info leaf 0 r) regs s \<noteq> None"
    if "leaf \<in> {0x07, 0x14, 0x17, 0x18, 0x20}" "f leaf 0 = Some r" for leaf r and regs and s :: 's
    using that assms by (intro subleaves_returns) (auto simp: intel_table_def counts_end_def)
  have top: "sub_loop (pure_reader f) leaf (\<lambda>_ r. res_ebx (res r) AND 0xFFFF \<noteq> 0) 1 reg regs s \<noteq> None"
    if "leaf \<in> {0x0B, 0x1F}" for leaf reg regs and s :: 's
    using that assms by (intro topology_returns) (auto simp: intel_table_def)
  have desc: "sub_loop (pure_reader f) leaf (\<lambda>subleaf _. subleaf < m AND 0xFF) 1 reg regs s \<noteq> None" for leaf m reg regs and s :: 's
  proof (rule bounded_loop_returns [of _ "0xFF"])
    have "m AND 0xFF \<le> 0xFF" by (rule word_and_le1)
    then show "\<And>r. \<not> (0xFF + 1 :: cpuidreg) < m AND 0xFF" by (simp add: word_le_nat_alt word_less_nat_alt)
  qed simp
  have sgx: "sub_loop (pure_reader f) leaf (\<lambda>subleaf r. subleaf \<le> 2 \<or> (subleaf \<le> 0xFF \<and> P r)) 1 reg regs s \<noteq> None"
    for leaf P reg regs and s :: 's
    by (rule bounded_loop_returns [of _ "0xFF"]) simp_all
  show ?thesis unfolding handler_returns_def
  proof (intro allI impI notI)
    fix leaf r v regs and s :: 's
    assume a: "f leaf 0 = Some r" and n: "intel_leaf (pure_reader f) leaf (mk_info leaf 0 r) v regs s = None"
    from n show False
      using sub [of leaf r regs s] a by (simp add: intel_leaf_def Let_def top desc sgx split: if_splits prod.splits)
  qed
qed

lemma normal_returns:
  "intel_table f \<Longrightarrow> dump_intel_normal (pure_reader f) regs s \<noteq> None"
  "counts_end f 7 \<Longrightarrow> dump_amd_normal (pure_reader f) regs s \<noteq> None"
  "dump_amd_extended (pure_reader f) regs s \<noteq> None"
  unfolding dump_intel_normal_def dump_amd_normal_def dump_amd_extended_def
  using leaf_loop_returns_base good_handlers amd_handlers_return intel_handler_returns by (metis fst_conv)+

lemma leaf_loop_success:
  assumes "leaf_loop rd h leaf v ok regs s = Some r" "ok"
  shows "fst r"
  using assms
proof (induction rule: leaf_loop_induct)
  case (step loop rd h leaf v ok regs s r)
  show ?case
  proof (cases "get_cpuid rd leaf 0 s")
    case (Pair i s')
    show ?thesis
    proof (cases i)
      case None
      then show ?thesis using step.hyps step.IH [of rd h "leaf + 1" v ok regs s' r] step.prems Pair
        by (auto split: if_splits)
    next
      case (Some a)
      with step.hyps Pair obtain v' regs' s'' where h: "h leaf a v (regs @ [a]) s' = Some (v', regs', s'')"
        by (cases "h leaf a v (regs @ [a]) s'") auto
      then show ?thesis using step.hyps step.IH [of rd h "leaf + 1" v' True regs' s'' r] Pair Some
        by (auto split: if_splits)
    qed
  qed
qed

lemma leaf_loop_first_success:
  assumes run: "leaf_loop (pure_reader f) h leaf v ok regs s = Some (b, regs', s')" and r0: "f leaf 0 = Some r0"
  shows b
proof -
  from run r0 obtain v' regs1 s1 where h: "h leaf (mk_info leaf 0 r0) v (regs @ [mk_info leaf 0 r0]) s = Some (v', regs1, s1)"
    by (cases "h leaf (mk_info leaf 0 r0) v (regs @ [mk_info leaf 0 r0]) s"; subst (asm) leaf_loop.simps) auto
  have "leaf_loop (pure_reader f) h leaf v ok regs s =
      (if leaf = fst v' then Some (True, regs1, s1) else leaf_loop (pure_reader f) h (leaf + 1) v' True regs1 s1)"
    using r0 h by (subst leaf_loop.simps) simp
  then show ?thesis using run leaf_loop_success [of "pure_reader f" h "leaf + 1" v' True regs1 s1 "(b, regs', s')"]
    by (auto split: if_splits)
qed

lemma normal_success:
  "dump_intel_normal (pure_reader f) regs s = Some (b, regs', s') \<Longrightarrow> f 0 0 = Some r0 \<Longrightarrow> b"
  "dump_amd_normal (pure_reader f) regs s = Some (b, regs', s') \<Longrightarrow> f 0 0 = Some r0 \<Longrightarrow> b"
  unfolding dump_intel_normal_def dump_amd_normal_def by (erule (1) leaf_loop_first_success)+

definition range_ends :: "(cpuidreg \<Rightarrow> cpuidreg \<Rightarrow> cpuid_res option) \<Rightarrow> cpuidreg \<Rightarrow> bool" where
  "range_ends f base \<longleftrightarrow> (case f base 0 of None \<Rightarrow> False
     | Some r \<Rightarrow> res_eax r AND 0xFFFFFF00 \<noteq> base AND 0xFFFFFF00 \<or>
         list_all (answered f) (leaves base (max base (res_eax r))))"

lemma dump_range_returns:
  "dump_range (pure_reader f) base regs s = None \<longleftrightarrow> \<not> range_ends f base"
  "range_ends f base \<Longrightarrow> \<exists>regs'. dump_range (pure_reader f) base regs s = Some (True, regs', s)"
proof -
  have "(dump_range (pure_reader f) base regs s = None \<longleftrightarrow> \<not> range_ends f base) \<and>
    (range_ends f base \<longrightarrow> (\<exists>regs'. dump_range (pure_reader f) base regs s = Some (True, regs', s)))"
  proof (cases "f base 0")
    case (Some r)
    define P where "P \<longleftrightarrow> res_eax r AND 0xFFFFFF00 \<noteq> base AND 0xFFFFFF00"
    show ?thesis unfolding dump_range_pure range_ends_def Some option.case P_def [symmetric] by simp
  qed (simp add: dump_range_pure range_ends_def)
  then show "dump_range (pure_reader f) base regs s = None \<longleftrightarrow> \<not> range_ends f base"
    "range_ends f base \<Longrightarrow> \<exists>regs'. dump_range (pure_reader f) base regs s = Some (True, regs', s)" by blast+
qed

lemma and_then_None: "and_then r g = None \<longleftrightarrow> r = None \<or> (\<exists>regs s. r = Some (True, regs, s) \<and> g regs s = None)"
  by (cases r) (auto simp: and_then_def split: if_splits)

lemma dump_result_None [simp]: "dump_result r = None \<longleftrightarrow> r = None"
  by (simp add: dump_result_def)

lemma dump_hypervisor_returns: "range_ends f 0x40000000 \<Longrightarrow> dump_hypervisor (pure_reader f) regs s \<noteq> None"
  using dump_range_returns(1) [of f "0x40000000" regs s] by (auto simp: dump_hypervisor_def Let_def)

lemma dump_enabled_brand:
  "f 0 0 = Some r0 \<Longrightarrow> dump_enabled (pure_reader f) s = dump_by_brand (pure_reader f) (get_cpu_brand (mk_info 0 0 r0)) s"
  by (simp add: dump_enabled_def)

lemma dump_cpu_returns:
  assumes "f 0 0 = Some r0" "intel_table f" "range_ends f 0" "range_ends f 0x80000000" "range_ends f 0x20000000" "range_ends f 0x40000000"
  shows "dump_enabled (pure_reader f) s \<noteq> None"
proof
  have c: "counts_end f 7" using assms(2) by (simp add: intel_table_def)
  assume "dump_enabled (pure_reader f) s = None"
  then show False
    unfolding dump_enabled_brand [of f r0, OF assms(1)] dump_by_brand_def dump_cpu_intel_def dump_cpu_amd_def dump_cpu_generic_def
    by (simp add: and_then_None dump_range_returns(1) assms dump_hypervisor_returns [OF assms(6)]
        normal_returns(1) [OF assms(2)] normal_returns(2) [OF c] normal_returns(3) split: if_splits)
qed

lemma intel_dump_hangs:
  assumes "f 0 0 = Some r0" "get_cpu_brand (mk_info 0 0 r0) = ''GenuineIntel''"
    and "\<not> range_ends f 0x80000000 \<or> \<not> range_ends f 0x20000000"
  shows "dump_enabled (pure_reader f) s = None"
proof -
  let ?rd = "pure_reader f"
  have "and_then (and_then (dump_intel_normal ?rd [] s) (dump_range ?rd 0x80000000)) (dump_range ?rd 0x20000000) = None"
  proof (cases "dump_intel_normal ?rd [] s")
    case (Some r)
    obtain b regs t where r: "r = (b, regs, t)" by (cases r) auto
    have b by (rule normal_success(1) [OF Some [unfolded r] assms(1)])
    show ?thesis
    proof (cases "range_ends f 0x80000000")
      case True
      then obtain regs2 where "dump_range ?rd 0x80000000 regs t = Some (True, regs2, t)" using dump_range_returns(2) [of f "0x80000000" regs t] by blast
      moreover have "dump_range ?rd 0x20000000 regs2 t = None" using assms(3) True by (simp add: dump_range_returns(1))
      ultimately show ?thesis using Some r \<open>b\<close> by (simp add: and_then_def)
    next
      case False
      then have "dump_range ?rd 0x80000000 regs t = None" by (simp add: dump_range_returns(1))
      then show ?thesis using Some r \<open>b\<close> by (simp add: and_then_def)
    qed
  qed (simp add: and_then_None)
  then have "dump_cpu_intel ?rd s = None" by (simp add: dump_cpu_intel_def and_then_None)
  then show ?thesis using assms(2) by (simp add: dump_enabled_brand [of f r0, OF assms(1)] dump_by_brand_def)
qed

end
