(* ===== verification/CpuidReader.thy ===== *)
theory CpuidReader
  imports CpuidDump "HOL-Library.AList"
begin

text \<open>
  The readers of \<open>tools/cpuid-x86/libcpuid\<close> that keep state: \<open>cpuid_cache\<close> (the table of one
  core), \<open>cpuidreader_cache\<close> (the tables of all cores, alone or in front of another reader) and
  \<open>cpuidreader_dev\<close> with its file context.  The contract of a reader is the locale
  \<open>cpu_device\<close>; the readers provide it and the dump of a core rests on it.
\<close>

section \<open>The table of one core (cpuid\_cache)\<close>

type_synonym cpuid_cache = "(cpuid_req \<times> cpuid_info) list"

text \<open>\<open>emplace\<close> of the unordered map: no effect when the key is present.\<close>

definition emplace :: "'k \<Rightarrow> 'v \<Rightarrow> ('k \<times> 'v) list \<Rightarrow> ('k \<times> 'v) list \<times> bool" where
  "emplace k v m = (case map_of m k of None \<Rightarrow> (m @ [(k, v)], True) | Some _ \<Rightarrow> (m, False))"

definition cpuid_cache_of :: "cpuid_info list \<Rightarrow> cpuid_cache" where
  "cpuid_cache_of info = foldl (\<lambda>m item. fst (emplace (req item) item m)) [] info"

definition cache_has_cpuid :: "cpuid_cache \<Rightarrow> bool" where
  "cache_has_cpuid m \<longleftrightarrow> m \<noteq> []"

definition cache_cpuid :: "cpuid_cache \<Rightarrow> cpuidreg \<Rightarrow> cpuidreg \<Rightarrow> cpuid_res option" where
  "cache_cpuid m eax ecx =
     (if \<not> cache_has_cpuid m then None
      else case map_of m \<lparr>req_eax = eax, req_ecx = ecx\<rparr> of None \<Rightarrow> None | Some info \<Rightarrow> Some (res info))"

definition update_cache :: "cpuid_info \<Rightarrow> cpuid_cache \<Rightarrow> cpuid_cache \<times> bool" where
  "update_cache info m =
     (case emplace (req info) info m of
        (m', True) \<Rightarrow> (m', True)
      | (m', False) \<Rightarrow> (AList.update (req info) info m', False))"

lemma map_of_emplace: "map_of (fst (emplace k v m)) = (case map_of m k of None \<Rightarrow> (map_of m)(k \<mapsto> v) | Some _ \<Rightarrow> map_of m)"
  by (rule ext) (auto simp: emplace_def map_add_def split: option.splits)

lemma map_of_update_cache: "map_of (fst (update_cache info m)) = (map_of m)(req info \<mapsto> info)"
  by (rule ext) (auto simp: update_cache_def emplace_def update_conv' map_add_def split: option.splits)

lemma cache_cpuid_map: "cache_cpuid m eax ecx = map_option res (map_of m \<lparr>req_eax = eax, req_ecx = ecx\<rparr>)"
  by (auto simp: cache_cpuid_def cache_has_cpuid_def split: option.splits)

lemma cache_cpuid_update:
  "cache_cpuid (fst (update_cache (mk_info a c r) m)) eax ecx =
     (if eax = a \<and> ecx = c then Some r else cache_cpuid m eax ecx)"
  by (auto simp: cache_cpuid_map map_of_update_cache)

lemma update_cache_nonempty: "fst (update_cache info m) \<noteq> []"
  using map_of_update_cache [of info m] by (metis map_of.simps(1) fun_upd_same option.distinct(1))

text \<open>\<open>update_cache\<close> says whether the request is new; the constructor keeps the first value of a request.\<close>

lemma update_cache_new: "snd (update_cache info m) \<longleftrightarrow> map_of m (req info) = None"
  by (auto simp: update_cache_def emplace_def split: option.splits)

lemma cpuid_cache_of_snoc: "cpuid_cache_of (l @ [i]) = fst (emplace (req i) i (cpuid_cache_of l))"
  by (simp add: cpuid_cache_of_def)

lemma find_snoc: "List.find P (xs @ [y]) = (case List.find P xs of None \<Rightarrow> if P y then Some y else None | Some x \<Rightarrow> Some x)"
  by (induction xs) auto

lemma cpuid_cache_of_first:
  "map_of (cpuid_cache_of l) r = List.find (\<lambda>i. req i = r) l"
proof (induction l rule: rev_induct)
  case (snoc i l)
  then show ?case
    by (auto simp: cpuid_cache_of_snoc map_of_emplace find_snoc split: option.splits)
qed (simp add: cpuid_cache_of_def)

section \<open>The tables of all cores (cpuidreader\_cache)\<close>

text \<open>
  The pointer to the reader behind the cache is an argument of the operations; the state holds
  that reader's own state.  The shared pointer to the context is the core and whether the
  caller still holds the context it was given: then the use count is two, else one.
\<close>

record 't reader_cache =
  backing :: 't
  file_cores :: "32 word"
  tables :: "(32 word \<times> cpuid_cache) list"
  cur_ctx :: "(32 word \<times> bool) option"

definition new_reader_cache :: "'t \<Rightarrow> 't reader_cache" where
  "new_reader_cache t = \<lparr>backing = t, file_cores = 0, tables = [], cur_ctx = None\<rparr>"

definition cache_reader_has_cpuid :: "'t cpuidreader option \<Rightarrow> 't reader_cache \<Rightarrow> bool \<times> 't reader_cache" where
  "cache_reader_has_cpuid reader s =
     (case reader of
        Some r \<Rightarrow> (case has_cpuid r (backing s) of (b, t) \<Rightarrow> (b, s\<lparr>backing := t\<rparr>))
      | None \<Rightarrow> if tables s = [] then (False, s) else (list_ex (\<lambda>(core, c). cache_has_cpuid c) (tables s), s))"

definition cache_reader_is_online :: "'t cpuidreader option \<Rightarrow> 't reader_cache \<Rightarrow> bool" where
  "cache_reader_is_online reader s = (case reader of None \<Rightarrow> False | Some r \<Rightarrow> is_online r (backing s))"

definition cache_reader_cores :: "'t cpuidreader option \<Rightarrow> 't reader_cache \<Rightarrow> 32 word" where
  "cache_reader_cores reader s = (case reader of Some r \<Rightarrow> cores r (backing s) | None \<Rightarrow> file_cores s)"

definition set_cores :: "32 word \<Rightarrow> 't reader_cache \<Rightarrow> 't reader_cache" where
  "set_cores n s = s\<lparr>file_cores := n\<rparr>"

definition add_cpuid :: "'t cpuidreader option \<Rightarrow> 32 word \<Rightarrow> cpuidreg \<Rightarrow> cpuidreg \<Rightarrow> cpuid_res
     \<Rightarrow> 't reader_cache \<Rightarrow> bool \<times> 't reader_cache" where
  "add_cpuid reader core eax ecx r s =
     (if cache_reader_cores reader s \<le> core then (False, s)
      else let info = \<lparr>req = \<lparr>req_eax = eax, req_ecx = ecx\<rparr>, res = r\<rparr> in
        case map_of (tables s) core of
          None \<Rightarrow> (case emplace core (fst (update_cache info [])) (tables s) of
                     (m, success) \<Rightarrow> (success, s\<lparr>tables := m\<rparr>))
        | Some m \<Rightarrow> (True, s\<lparr>tables := AList.update core (fst (update_cache info m)) (tables s)\<rparr>))"

definition cached_cpuid :: "32 word \<Rightarrow> cpuidreg \<Rightarrow> cpuidreg \<Rightarrow> 't reader_cache \<Rightarrow> cpuid_res option" where
  "cached_cpuid core eax ecx s =
     (case map_of (tables s) core of Some m \<Rightarrow> cache_cpuid m eax ecx | None \<Rightarrow> None)"

text \<open>The core of a context that is still held; a context nobody holds is freed.\<close>

definition current_core :: "'t reader_cache \<Rightarrow> 32 word \<times> 't reader_cache" where
  "current_core s =
     (case cur_ctx s of
        None \<Rightarrow> (0, s)
      | Some (core, held) \<Rightarrow> if held then (core, s) else (0, s\<lparr>cur_ctx := None\<rparr>))"

definition cache_reader_cpuid :: "'t cpuidreader option \<Rightarrow> 't reader_cache cpuid_fn" where
  "cache_reader_cpuid reader eax ecx s0 =
     (let (core, s) = current_core s0 in
      case cached_cpuid core eax ecx s of
        Some r \<Rightarrow> (Some r, s)
      | None \<Rightarrow>
         (case reader of
            None \<Rightarrow> (None, s)
          | Some rd \<Rightarrow>
              if cores rd (backing s) \<le> core then (None, s)
              else case enable_core rd core (backing s) of
                (Inl e, t) \<Rightarrow> (None, s\<lparr>backing := t\<rparr>)
              | (Inr ctx, t) \<Rightarrow>
                  (case cpuid rd eax ecx t of
                     (None, t') \<Rightarrow> (None, s\<lparr>backing := drop_ctx rd t'\<rparr>)
                   | (Some r, t') \<Rightarrow>
                       (case add_cpuid reader core eax ecx r (s\<lparr>backing := t'\<rparr>) of
                          (added, s') \<Rightarrow> (if added then Some r else None, s'\<lparr>backing := drop_ctx rd (backing s')\<rparr>)))))"

definition EINVAL :: nat where
  "EINVAL = 22"

definition cache_reader_enable_core :: "'t cpuidreader option \<Rightarrow> 32 word \<Rightarrow> 't reader_cache
     \<Rightarrow> (nat + 32 word option) \<times> 't reader_cache" where
  "cache_reader_enable_core reader core s =
     (if cache_reader_cores reader s \<le> core then (Inl EINVAL, s)
      else case cur_ctx s of
        Some (c, True) \<Rightarrow> (Inl EINVAL, s)
      | _ \<Rightarrow> (Inr (Some core), s\<lparr>cur_ctx := Some (core, True)\<rparr>))"

text \<open>The caller destroys the context it was given.\<close>

definition cache_reader_drop_ctx :: "'t reader_cache \<Rightarrow> 't reader_cache" where
  "cache_reader_drop_ctx s = s\<lparr>cur_ctx := map_option (\<lambda>(core, held). (core, False)) (cur_ctx s)\<rparr>"

definition cpuidreader_cache :: "'t cpuidreader option \<Rightarrow> 't reader_cache cpuidreader" where
  "cpuidreader_cache reader =
     \<lparr>has_cpuid = cache_reader_has_cpuid reader, is_online = cache_reader_is_online reader,
      cores = cache_reader_cores reader, cpuid = cache_reader_cpuid reader,
      enable_core = cache_reader_enable_core reader, drop_ctx = cache_reader_drop_ctx\<rparr>"

lemma cpuidreader_cache_sel [simp]:
  "has_cpuid (cpuidreader_cache reader) = cache_reader_has_cpuid reader"
  "cores (cpuidreader_cache reader) = cache_reader_cores reader"
  "cpuid (cpuidreader_cache reader) = cache_reader_cpuid reader"
  "enable_core (cpuidreader_cache reader) = cache_reader_enable_core reader"
  "drop_ctx (cpuidreader_cache reader) = cache_reader_drop_ctx"
  by (simp_all add: cpuidreader_cache_def)

text \<open>What a value stored gives back, and that it changes no other.\<close>

lemma cached_after_add:
  assumes "add_cpuid reader core eax ecx r s = (b, s')"
  shows "cached_cpuid c a e s' = (if b \<and> c = core \<and> a = eax \<and> e = ecx then Some r else cached_cpuid c a e s)"
    and "b \<longleftrightarrow> core < cache_reader_cores reader s"
    and "backing s' = backing s" "file_cores s' = file_cores s" "cur_ctx s' = cur_ctx s"
proof -
  have i: "\<lparr>req = \<lparr>req_eax = eax, req_ecx = ecx\<rparr>, res = r\<rparr> = mk_info eax ecx r" by (simp add: mk_info_def)
  have e: "cache_cpuid [] a e = None" by (simp add: cache_cpuid_map)
  show "cached_cpuid c a e s' = (if b \<and> c = core \<and> a = eax \<and> e = ecx then Some r else cached_cpuid c a e s)"
    using assms unfolding add_cpuid_def Let_def i
    by (cases "map_of (tables s) core")
       (auto simp: cached_cpuid_def cache_cpuid_update update_conv' emplace_def map_add_def e split: if_splits option.splits)
  show "b \<longleftrightarrow> core < cache_reader_cores reader s" "backing s' = backing s" "file_cores s' = file_cores s" "cur_ctx s' = cur_ctx s"
    using assms by (auto simp: add_cpuid_def Let_def emplace_def split: if_splits option.splits prod.splits)
qed

section \<open>The contract of a reader\<close>

text \<open>
  A device: from an idle state any core there is can be enabled; while it is enabled every read
  gives the core's register; dropping the context makes the reader idle again.
\<close>

locale cpu_device =
  fixes reader :: "'s cpuidreader" and idle :: "'s \<Rightarrow> bool" and active :: "32 word \<Rightarrow> 's \<Rightarrow> bool"
    and hw :: "32 word \<Rightarrow> cpuidreg \<Rightarrow> cpuidreg \<Rightarrow> cpuid_res option" and ncores :: "32 word" and present :: bool
  assumes has: "idle s \<Longrightarrow> \<exists>s'. has_cpuid reader s = (present, s') \<and> idle s'"
    and ncores: "idle s \<Longrightarrow> cores reader s = ncores"
    and enable: "idle s \<Longrightarrow> core < ncores \<Longrightarrow> \<exists>s'. enable_core reader core s = (Inr (Some core), s') \<and> active core s'"
    and ncores_active: "active core s \<Longrightarrow> cores reader s = ncores"
    and read: "active core s \<Longrightarrow> \<exists>s'. cpuid reader a c s = (hw core a c, s') \<and> active core s'"
    and drop: "active core s \<Longrightarrow> idle (drop_ctx reader s)"
begin

lemma read_sim: "reader_sim (cpuid reader) (pure_reader (hw core)) (\<lambda>s (t :: unit). active core s)"
proof
  fix s and t :: unit and a c
  assume "active core s"
  then show "rel_prod (=) (\<lambda>s t. active core s) (cpuid reader a c s) (pure_reader (hw core) a c t)"
    using read [of core s a c] by (auto simp: pure_reader_def)
qed

text \<open>The dump of a core is the dump of its table, and leaves the reader idle.\<close>

lemma dump_device:
  assumes "idle s" "core < ncores"
  shows "rel_option (rel_prod (=) (\<lambda>s (t :: unit). idle s)) (cpuid_dump reader core s)
           (if present then dump_enabled (pure_reader (hw core)) () else Some (None, ()))"
proof -
  obtain s1 where 1: "has_cpuid reader s = (present, s1)" "idle s1" using has [OF assms(1)] by blast
  obtain s2 where 2: "enable_core reader core s1 = (Inr (Some core), s2)" "active core s2"
    using enable [OF 1(2) assms(2)] by blast
  have "same_out (\<lambda>s (t :: unit). active core s) (dump_enabled (cpuid reader) s2) (dump_enabled (pure_reader (hw core)) ())"
    using dump_enabled_sim [OF read_sim] 2(2) by blast
  then show ?thesis using 1 2 drop
    by (cases "dump_enabled (cpuid reader) s2"; cases "dump_enabled (pure_reader (hw core)) ()")
       (auto simp: cpuid_dump_def split: bool.splits)
qed

lemma dump_device_result:
  assumes "idle s" "core < ncores"
  shows "map_option fst (cpuid_dump reader core s) =
    (if present then map_option fst (dump_enabled (pure_reader (hw core)) ()) else Some None)"
  using dump_device [OF assms]
  by (cases "cpuid_dump reader core s"; cases "dump_enabled (pure_reader (hw core)) ()") (auto split: if_splits)

text \<open>The cache in front of the device: what it holds is what the device answers.\<close>

definition cached_idle :: "'s reader_cache \<Rightarrow> bool" where
  "cached_idle s \<longleftrightarrow> idle (backing s) \<and> (\<forall>core a c r. cached_cpuid core a c s = Some r \<longrightarrow> hw core a c = Some r) \<and>
     (\<forall>core. cur_ctx s \<noteq> Some (core, True))"

definition cached_active :: "32 word \<Rightarrow> 's reader_cache \<Rightarrow> bool" where
  "cached_active core s \<longleftrightarrow> idle (backing s) \<and> (\<forall>core a c r. cached_cpuid core a c s = Some r \<longrightarrow> hw core a c = Some r) \<and>
     cur_ctx s = Some (core, True) \<and> core < ncores"

lemma new_cache_idle: "idle t \<Longrightarrow> cached_idle (new_reader_cache t)"
  by (simp add: cached_idle_def new_reader_cache_def cached_cpuid_def)

lemma cached_read:
  assumes "cached_active core s"
  shows "\<exists>s'. cache_reader_cpuid (Some reader) a c s = (hw core a c, s') \<and> cached_active core s'"
proof -
  from assms have s: "idle (backing s)" "\<And>k a c r. cached_cpuid k a c s = Some r \<Longrightarrow> hw k a c = Some r"
      "cur_ctx s = Some (core, True)" "core < ncores"
    by (auto simp: cached_active_def)
  have cc: "current_core s = (core, s)" using s(3) by (simp add: current_core_def)
  show ?thesis
  proof (cases "cached_cpuid core a c s")
    case (Some r)
    then have "cache_reader_cpuid (Some reader) a c s = (hw core a c, s)"
      using s(2) [OF Some] by (simp add: cache_reader_cpuid_def cc)
    then show ?thesis using assms by blast
  next
    case None
    obtain t where t: "enable_core reader core (backing s) = (Inr (Some core), t)" "active core t"
      using enable [OF s(1,4)] by blast
    obtain t' where t': "cpuid reader a c t = (hw core a c, t')" "active core t'" using read [OF t(2)] by blast
    have nc: "\<not> ncores \<le> core" using s(4) by simp
    show ?thesis
    proof (cases "hw core a c")
      case hw: None
      have "cache_reader_cpuid (Some reader) a c s = (None, s\<lparr>backing := drop_ctx reader t'\<rparr>)"
        using None t(1) t' hw nc by (simp add: cache_reader_cpuid_def cc ncores [OF s(1)])
      moreover have "cached_active core (s\<lparr>backing := drop_ctx reader t'\<rparr>)"
        using s drop [OF t'(2)] by (simp add: cached_active_def cached_cpuid_def)
      ultimately show ?thesis using hw by simp
    next
      case (Some r)
      obtain b s1 where b: "add_cpuid (Some reader) core a c r (s\<lparr>backing := t'\<rparr>) = (b, s1)" by fastforce
      note add = cached_after_add [OF b]
      have "b" using add(2) s(4) ncores_active [OF t'(2)] by (simp add: cache_reader_cores_def)
      have run: "cache_reader_cpuid (Some reader) a c s = (Some r, s1\<lparr>backing := drop_ctx reader (backing s1)\<rparr>)"
        using None t(1) t' Some nc b \<open>b\<close> by (simp add: cache_reader_cpuid_def cc ncores [OF s(1)])
      have old: "cached_cpuid k x y (s\<lparr>backing := t'\<rparr>) = cached_cpuid k x y s" for k x y
        by (simp add: cached_cpuid_def)
      have new: "cached_cpuid k x y (s1\<lparr>backing := t2\<rparr>) = cached_cpuid k x y s1" for k x y t2
        by (simp add: cached_cpuid_def)
      have "cached_active core (s1\<lparr>backing := drop_ctx reader (backing s1)\<rparr>)"
        using s drop [OF t'(2)] add Some by (auto simp: cached_active_def old new split: if_splits)
      then show ?thesis using run Some by simp
    qed
  qed
qed

lemma caching_device: "cpu_device (cpuidreader_cache (Some reader)) cached_idle cached_active hw ncores present"
proof (unfold_locales, goal_cases)
  case (1 s)
  then obtain t where "has_cpuid reader (backing s) = (present, t)" "idle t" using has unfolding cached_idle_def by blast
  then show ?case using 1 by (auto simp: cache_reader_has_cpuid_def cached_idle_def cached_cpuid_def)
next
  case (2 s)
  then show ?case by (simp add: cache_reader_cores_def cached_idle_def ncores)
next
  case (3 s core)
  then show ?case
    by (auto simp: cache_reader_enable_core_def cache_reader_cores_def cached_idle_def cached_active_def ncores
        cached_cpuid_def split: option.splits prod.splits bool.splits)
next
  case (4 core s)
  then show ?case by (simp add: cache_reader_cores_def cached_active_def ncores)
next
  case (5 core s a c)
  then show ?case using cached_read by simp
next
  case (6 core s)
  then show ?case by (simp add: cache_reader_drop_ctx_def cached_active_def cached_idle_def cached_cpuid_def)
qed

end

text \<open>While a core is enabled, a device and the table of that core answer alike.\<close>

sublocale cpu_device \<subseteq> sim: reader_sim "cpuid reader" "pure_reader (hw core)" "\<lambda>s (t :: unit). active core s" for core
  by (rule read_sim)

section \<open>A reader over tables alone\<close>

definition table_hw :: "(32 word \<times> cpuid_cache) list \<Rightarrow> 32 word \<Rightarrow> cpuidreg \<Rightarrow> cpuidreg \<Rightarrow> cpuid_res option" where
  "table_hw tbl core a c = (case map_of tbl core of Some m \<Rightarrow> cache_cpuid m a c | None \<Rightarrow> None)"

definition table_present :: "(32 word \<times> cpuid_cache) list \<Rightarrow> bool" where
  "table_present tbl \<longleftrightarrow> list_ex (\<lambda>(core, m). cache_has_cpuid m) tbl"

definition file_idle :: "32 word \<Rightarrow> (32 word \<times> cpuid_cache) list \<Rightarrow> 't reader_cache \<Rightarrow> bool" where
  "file_idle n tbl s \<longleftrightarrow> tables s = tbl \<and> file_cores s = n \<and> (\<forall>core. cur_ctx s \<noteq> Some (core, True))"

definition file_active :: "32 word \<Rightarrow> (32 word \<times> cpuid_cache) list \<Rightarrow> 32 word \<Rightarrow> 't reader_cache \<Rightarrow> bool" where
  "file_active n tbl core s \<longleftrightarrow> tables s = tbl \<and> file_cores s = n \<and> cur_ctx s = Some (core, True)"

interpretation tbls: cpu_device "cpuidreader_cache None" "file_idle n tbl" "file_active n tbl" "table_hw tbl" n "table_present tbl"
proof (unfold_locales, goal_cases)
  case (1 s)
  then show ?case
    by (auto simp: cache_reader_has_cpuid_def file_idle_def table_present_def)
next
  case (5 core s a c)
  then show ?case
    by (auto simp: cache_reader_cpuid_def current_core_def file_active_def table_hw_def cached_cpuid_def
        split: option.splits)
qed (auto simp: cache_reader_cores_def file_idle_def file_active_def cache_reader_enable_core_def cache_reader_drop_ctx_def
      split: option.splits prod.splits bool.splits)

section \<open>Readers of a device file (cpuidreader\_dev and cpuidreader\_cpuctl)\<close>

text \<open>
  What the operating system gives is the environment: for a core the error \<open>open\<close> fails with, if
  it fails; for the file of a core and an offset the result of \<open>pread\<close> and the bytes read; for the
  file of a core and a request the outcome of the ioctl; and whether \<open>off_t\<close> has 64 bits.  The
  descriptors of the process are part of the state, with the core whose file each one is.
\<close>

record dev_env =
  open_error :: "32 word \<Rightarrow> nat option"
  pread_at :: "32 word \<Rightarrow> 64 word \<Rightarrow> int \<times> cpuid_res"
  ioctl_cpuid :: "32 word \<Rightarrow> cpuidreg \<Rightarrow> cpuidreg \<Rightarrow> cpuid_res option"
  off_t_64 :: bool

type_synonym fd_table = "(int \<times> 32 word) list"

text \<open>\<open>cpuid_dev_file\<close>: its descriptor, core and error, and the \<open>cpuid_dev\<close> it holds, which is a copy of the
  descriptor that an error turns to -1.\<close>

record cpu_file =
  file_fd :: int
  file_core :: "32 word"
  file_error :: nat
  dev_fd :: int

record dev_reader =
  fds :: fd_table
  dev_ctx :: "(cpu_file \<times> bool) option"

text \<open>The lowest descriptor that is not open.\<close>

definition fresh_fd :: "fd_table \<Rightarrow> int" where
  "fresh_fd l = hd (filter (\<lambda>n. n \<notin> fst ` set l) (map int [0..<Suc (length l)]))"

definition open_cpu_file :: "dev_env \<Rightarrow> 32 word \<Rightarrow> fd_table \<Rightarrow> cpu_file \<times> fd_table" where
  "open_cpu_file env core l =
     (case open_error env core of
        Some e \<Rightarrow> (\<lparr>file_fd = -1, file_core = core, file_error = e, dev_fd = -1\<rparr>, l)
      | None \<Rightarrow> (let fd = fresh_fd l in
          (\<lparr>file_fd = fd, file_core = core, file_error = 0, dev_fd = fd\<rparr>, (fd, core) # l)))"

definition close_cpu_file :: "cpu_file \<Rightarrow> fd_table \<Rightarrow> cpu_file \<times> fd_table" where
  "close_cpu_file f l = (if 0 \<le> file_fd f then (f\<lparr>file_fd := -1\<rparr>, AList.delete (file_fd f) l) else (f, l))"

definition is_open :: "cpu_file \<Rightarrow> bool" where
  "is_open f \<longleftrightarrow> file_fd f \<noteq> -1"

text \<open>The reads of the two kinds of file: the result and the descriptor left in the object.\<close>

type_synonym file_read = "fd_table \<Rightarrow> int \<Rightarrow> cpuidreg \<Rightarrow> cpuidreg \<Rightarrow> cpuid_res option \<times> int"

definition dev_offset :: "cpuidreg \<Rightarrow> cpuidreg \<Rightarrow> 64 word" where
  "dev_offset eax ecx = ucast eax OR push_bit 32 (ucast ecx)"

definition dev_has_cpuid :: "dev_env \<Rightarrow> int \<Rightarrow> bool" where
  "dev_has_cpuid env fd \<longleftrightarrow> off_t_64 env \<and> 0 \<le> fd"

definition dev_cpuid :: "dev_env \<Rightarrow> file_read" where
  "dev_cpuid env l fd eax ecx =
     (if \<not> dev_has_cpuid env fd then (None, fd)
      else case map_of l fd of
        None \<Rightarrow> (None, -1)
      | Some core \<Rightarrow>
          (case pread_at env core (dev_offset eax ecx) of
             (n, r) \<Rightarrow> if n \<le> 0 then (None, -1) else (Some r, fd)))"

definition cpuctl_cpuid :: "dev_env \<Rightarrow> file_read" where
  "cpuctl_cpuid env l fd eax ecx =
     (if \<not> 0 \<le> fd then (None, fd)
      else case map_of l fd of None \<Rightarrow> (None, fd) | Some core \<Rightarrow> (ioctl_cpuid env core eax ecx, fd))"

text \<open>\<open>ctx_ = std::make_shared\<close>: the new file, and the end of the old one when nobody else holds it.\<close>

definition drop_old :: "(cpu_file \<times> bool) option \<Rightarrow> fd_table \<Rightarrow> fd_table" where
  "drop_old c l = (case c of Some (f, False) \<Rightarrow> snd (close_cpu_file f l) | _ \<Rightarrow> l)"

definition set_dev_ctx :: "dev_env \<Rightarrow> 32 word \<Rightarrow> dev_reader \<Rightarrow> dev_reader" where
  "set_dev_ctx env core s =
     (case open_cpu_file env core (fds s) of (f, l) \<Rightarrow> \<lparr>fds = drop_old (dev_ctx s) l, dev_ctx = Some (f, False)\<rparr>)"

text \<open>The context to read from: a new one for core 0 unless there is one that is open and held, or open
  for core 0.\<close>

definition default_ctx :: "dev_env \<Rightarrow> dev_reader \<Rightarrow> dev_reader" where
  "default_ctx env s =
     (case dev_ctx s of
        None \<Rightarrow> set_dev_ctx env 0 s
      | Some (f, held) \<Rightarrow> if \<not> is_open f \<or> (\<not> held \<and> file_core f \<noteq> 0) then set_dev_ctx env 0 s else s)"

definition dev_reader_has_cpuid :: "dev_env \<Rightarrow> dev_reader \<Rightarrow> bool \<times> dev_reader" where
  "dev_reader_has_cpuid env s =
     (let s' = default_ctx env s in
      (case dev_ctx s' of Some (f, _) \<Rightarrow> is_open f | None \<Rightarrow> False, s'))"

definition dev_reader_cpuid :: "file_read \<Rightarrow> dev_env \<Rightarrow> dev_reader cpuid_fn" where
  "dev_reader_cpuid rd env eax ecx s =
     (let s' = default_ctx env s in
      case dev_ctx s' of
        None \<Rightarrow> (None, s')
      | Some (f, held) \<Rightarrow> (case rd (fds s') (dev_fd f) eax ecx of
          (r, fd) \<Rightarrow> (r, s'\<lparr>dev_ctx := Some (f\<lparr>dev_fd := fd\<rparr>, held)\<rparr>)))"

definition dev_reader_enable_core :: "dev_env \<Rightarrow> 32 word \<Rightarrow> dev_reader \<Rightarrow> (nat + 32 word option) \<times> dev_reader" where
  "dev_reader_enable_core env core s =
     (let fresh = (let s' = set_dev_ctx env core s in
            case dev_ctx s' of
              Some (f, _) \<Rightarrow> if is_open f then (Inr (Some core), s'\<lparr>dev_ctx := Some (f, True)\<rparr>) else (Inl (file_error f), s')
            | None \<Rightarrow> (Inl 12, s')) in
      case dev_ctx s of
        Some (f, held) \<Rightarrow>
          if is_open f then
            (if held then (Inl EINVAL, s)
             else if file_core f = core then (Inr (Some core), s\<lparr>dev_ctx := Some (f, True)\<rparr>)
             else fresh)
          else fresh
      | None \<Rightarrow> fresh)"

definition dev_reader_drop_ctx :: "dev_reader \<Rightarrow> dev_reader" where
  "dev_reader_drop_ctx s = s\<lparr>dev_ctx := map_option (\<lambda>(f, held). (f, False)) (dev_ctx s)\<rparr>"

text \<open>The end of the reader object.\<close>

definition dev_reader_destroy :: "dev_reader \<Rightarrow> dev_reader" where
  "dev_reader_destroy s = \<lparr>fds = drop_old (dev_ctx s) (fds s), dev_ctx = None\<rparr>"

definition device_reader :: "file_read \<Rightarrow> dev_env \<Rightarrow> 32 word \<Rightarrow> dev_reader cpuidreader" where
  "device_reader rd env threads =
     \<lparr>has_cpuid = dev_reader_has_cpuid env, is_online = (\<lambda>_. True), cores = (\<lambda>_. threads),
      cpuid = dev_reader_cpuid rd env, enable_core = dev_reader_enable_core env, drop_ctx = dev_reader_drop_ctx\<rparr>"

definition cpuidreader_dev :: "dev_env \<Rightarrow> 32 word \<Rightarrow> dev_reader cpuidreader" where
  "cpuidreader_dev env threads = device_reader (dev_cpuid env) env threads"

definition cpuidreader_cpuctl :: "dev_env \<Rightarrow> 32 word \<Rightarrow> dev_reader cpuidreader" where
  "cpuidreader_cpuctl env threads = device_reader (cpuctl_cpuid env) env threads"

text \<open>The descriptor the reader holds; the others of the process are none of its business.\<close>

definition own_fds :: "(cpu_file \<times> bool) option \<Rightarrow> fd_table" where
  "own_fds c = (case c of Some (f, _) \<Rightarrow> if is_open f then [(file_fd f, file_core f)] else [] | None \<Rightarrow> [])"

definition file_ok :: "cpu_file \<Rightarrow> bool" where
  "file_ok f \<longleftrightarrow> (is_open f \<longrightarrow> 0 \<le> file_fd f) \<and> (is_open f \<or> file_fd f = -1)"

definition dev_inv :: "fd_table \<Rightarrow> dev_reader \<Rightarrow> bool" where
  "dev_inv others s \<longleftrightarrow> fds s = own_fds (dev_ctx s) @ others \<and> distinct (map fst (fds s)) \<and>
     (\<forall>f held. dev_ctx s = Some (f, held) \<longrightarrow> (is_open f \<longrightarrow> 0 \<le> file_fd f) \<and> (held \<longrightarrow> is_open f))"

lemma fresh_fd: "0 \<le> fresh_fd l" "fresh_fd l \<notin> fst ` set l"
proof -
  let ?free = "filter (\<lambda>n. n \<notin> fst ` set l) (map int [0..<Suc (length l)])"
  have "?free \<noteq> []"
  proof
    assume "?free = []"
    then have "int ` {0..<Suc (length l)} \<subseteq> fst ` set l" by (auto simp: filter_empty_conv image_iff simp del: upt_Suc)
    then have "card (int ` {0..<Suc (length l)}) \<le> card (fst ` set l)" by (intro card_mono) auto
    moreover have "card (fst ` set l) \<le> length l" using card_image_le [of "set l" fst] card_length [of l] by simp
    ultimately show False by (simp add: card_image)
  qed
  then have "fresh_fd l \<in> set ?free" unfolding fresh_fd_def by (rule hd_in_set)
  then show "0 \<le> fresh_fd l" "fresh_fd l \<notin> fst ` set l" by (auto simp del: upt_Suc)
qed

definition held_ctx :: "dev_reader \<Rightarrow> bool" where
  "held_ctx s \<longleftrightarrow> (\<exists>f. dev_ctx s = Some (f, True))"

lemma in_fst: "(a, b) \<in> set l \<Longrightarrow> a \<in> fst ` set l"
  by force

lemma delete_own: "a \<notin> fst ` set l \<Longrightarrow> AList.delete a ((a, d) # l) = l"
  "a \<noteq> b \<Longrightarrow> a \<notin> fst ` set l \<Longrightarrow> AList.delete a ((b, c) # (a, d) # l) = (b, c) # l"
  for a b :: int and c d :: "32 word"
  by (simp_all add: delete_notin_dom)

lemma open_cpu_file:
  "open_error env core = None \<Longrightarrow> \<exists>fd. 0 \<le> fd \<and> fd \<notin> fst ` set l \<and>
     open_cpu_file env core l = (\<lparr>file_fd = fd, file_core = core, file_error = 0, dev_fd = fd\<rparr>, (fd, core) # l)"
  "open_error env core = Some e \<Longrightarrow>
     open_cpu_file env core l = (\<lparr>file_fd = -1, file_core = core, file_error = e, dev_fd = -1\<rparr>, l)"
  using fresh_fd [of l] by (auto simp: open_cpu_file_def Let_def)

text \<open>The old file is closed once the new one is open.\<close>

lemma drop_old_after:
  assumes "dev_inv others s" "\<And>f. dev_ctx s \<noteq> Some (f, True)"
  shows "drop_old (dev_ctx s) (fds s) = others"
    and "fd \<notin> fst ` set (fds s) \<Longrightarrow> drop_old (dev_ctx s) ((fd, core) # fds s) = (fd, core) # others"
proof -
  consider (none) "dev_ctx s = None" | (some) f where "dev_ctx s = Some (f, False)" using assms(2) by (cases "dev_ctx s") auto
  then have "drop_old (dev_ctx s) (fds s) = others \<and>
      (fd \<notin> fst ` set (fds s) \<longrightarrow> drop_old (dev_ctx s) ((fd, core) # fds s) = (fd, core) # others)"
  proof cases
    case none then show ?thesis using assms(1) by (simp add: dev_inv_def drop_old_def own_fds_def)
  next
    case (some f)
    show ?thesis
    proof (cases "is_open f")
      case True
      then have "fds s = (file_fd f, file_core f) # others" "file_fd f \<notin> fst ` set others" "0 \<le> file_fd f"
        using assms(1) some by (auto simp: dev_inv_def own_fds_def dest: in_fst)
      then show ?thesis using some by (auto simp: drop_old_def close_cpu_file_def delete_own)
    next
      case False
      then show ?thesis using assms(1) some by (auto simp: dev_inv_def own_fds_def drop_old_def close_cpu_file_def is_open_def)
    qed
  qed
  then show "drop_old (dev_ctx s) (fds s) = others"
    "fd \<notin> fst ` set (fds s) \<Longrightarrow> drop_old (dev_ctx s) ((fd, core) # fds s) = (fd, core) # others" by blast+
qed

lemma set_dev_ctx_inv:
  assumes "dev_inv others s" "\<And>f. dev_ctx s \<noteq> Some (f, True)"
  shows "\<exists>f. set_dev_ctx env core s = \<lparr>fds = own_fds (Some (f, False)) @ others, dev_ctx = Some (f, False)\<rparr> \<and>
     dev_inv others (set_dev_ctx env core s) \<and> file_core f = core \<and> (is_open f \<longrightarrow> dev_fd f = file_fd f) \<and>
     (is_open f \<longleftrightarrow> open_error env core = None)"
proof (cases "open_error env core")
  case None
  then obtain fd where fd: "0 \<le> fd" "fd \<notin> fst ` set (fds s)"
      "open_cpu_file env core (fds s) = (\<lparr>file_fd = fd, file_core = core, file_error = 0, dev_fd = fd\<rparr>, (fd, core) # fds s)"
    using open_cpu_file(1) by metis
  have "fst ` set others \<subseteq> fst ` set (fds s)" "distinct (map fst others)" using assms(1) by (auto simp: dev_inv_def)
  then show ?thesis using None fd drop_old_after(2) [OF assms fd(2)]
    by (auto simp: set_dev_ctx_def dev_inv_def own_fds_def is_open_def)
next
  case (Some e)
  have "distinct (map fst others)" using assms(1) by (auto simp: dev_inv_def)
  then show ?thesis using Some drop_old_after(1) [OF assms] open_cpu_file(2) [OF Some]
    by (auto simp: set_dev_ctx_def dev_inv_def own_fds_def is_open_def)
qed

lemma default_ctx_inv:
  assumes "dev_inv others s"
  shows "dev_inv others (default_ctx env s)" "held_ctx (default_ctx env s) = held_ctx s"
proof -
  have "dev_inv others (default_ctx env s) \<and> held_ctx (default_ctx env s) = held_ctx s"
  proof (cases "\<exists>f. dev_ctx s = Some (f, True)")
    case True
    then show ?thesis using assms by (auto simp: default_ctx_def dev_inv_def)
  next
    case False
    then have n: "\<And>f. dev_ctx s \<noteq> Some (f, True)" by blast
    obtain f where f: "set_dev_ctx env 0 s = \<lparr>fds = own_fds (Some (f, False)) @ others, dev_ctx = Some (f, False)\<rparr>"
        "dev_inv others (set_dev_ctx env 0 s)"
      using set_dev_ctx_inv [OF assms n, of env 0] by blast
    have "default_ctx env s = s \<or> default_ctx env s = set_dev_ctx env 0 s"
      by (auto simp: default_ctx_def split: option.splits)
    then show ?thesis using f assms n by (auto simp: held_ctx_def)
  qed
  then show "dev_inv others (default_ctx env s)" "held_ctx (default_ctx env s) = held_ctx s" by auto
qed

text \<open>The operations of the reader, as its user calls them.\<close>

datatype dev_op = Has_cpuid | Cpuid cpuidreg cpuidreg | Enable_core "32 word" | Drop_ctx

fun dev_step :: "file_read \<Rightarrow> dev_env \<Rightarrow> dev_op \<Rightarrow> dev_reader \<Rightarrow> dev_reader" where
  "dev_step rd env Has_cpuid s = snd (dev_reader_has_cpuid env s)"
| "dev_step rd env (Cpuid a c) s = snd (dev_reader_cpuid rd env a c s)"
| "dev_step rd env (Enable_core core) s = snd (dev_reader_enable_core env core s)"
| "dev_step rd env Drop_ctx s = dev_reader_drop_ctx s"

lemma dev_inv_ctx:
  assumes "dev_inv others s" "dev_ctx s = Some (f, held)" "file_fd f' = file_fd f" "file_core f' = file_core f"
    "held' \<longrightarrow> is_open f"
  shows "dev_inv others (s\<lparr>dev_ctx := Some (f', held')\<rparr>)"
  using assms by (auto simp: dev_inv_def own_fds_def is_open_def dest: in_fst)

lemma dev_inv_step:
  assumes "dev_inv others s"
  shows "dev_inv others (dev_step rd env op s)"
proof (cases op)
  case Has_cpuid
  then show ?thesis using default_ctx_inv(1) [OF assms] by (simp add: dev_reader_has_cpuid_def Let_def)
next
  case (Cpuid a c)
  note d = default_ctx_inv(1) [OF assms, of env]
  show ?thesis
  proof (cases "dev_ctx (default_ctx env s)")
    case (Some p)
    obtain f held where p: "p = (f, held)" by (cases p)
    obtain r fd where r: "rd (fds (default_ctx env s)) (dev_fd f) a c = (r, fd)" by fastforce
    have "held \<longrightarrow> is_open f" using d Some p by (auto simp: dev_inv_def)
    from dev_inv_ctx [OF d Some [unfolded p], of "f\<lparr>dev_fd := fd\<rparr>" held] this
    show ?thesis using Cpuid Some p r by (simp add: dev_reader_cpuid_def Let_def)
  qed (use Cpuid d in \<open>simp add: dev_reader_cpuid_def Let_def\<close>)
next
  case (Enable_core core)
  show ?thesis
  proof (cases "\<exists>f. dev_ctx s = Some (f, True)")
    case True
    then show ?thesis using assms Enable_core by (auto simp: dev_reader_enable_core_def Let_def dev_inv_def)
  next
    case False
    then have n: "\<And>f. dev_ctx s \<noteq> Some (f, True)" by blast
    obtain f where f: "set_dev_ctx env core s = \<lparr>fds = own_fds (Some (f, False)) @ others, dev_ctx = Some (f, False)\<rparr>"
        "dev_inv others (set_dev_ctx env core s)"
      using set_dev_ctx_inv [OF assms n, of env core] by blast
    have "dev_inv others (\<lparr>fds = own_fds (Some (f, False)) @ others, dev_ctx = Some (f, True)\<rparr>)" if "is_open f"
      using dev_inv_ctx [OF f(2), of f False f True] f(1) that by simp
    then show ?thesis using f n Enable_core assms dev_inv_ctx [OF assms, of _ False _ True]
      by (auto simp: dev_reader_enable_core_def Let_def split: option.splits)
  qed
next
  case Drop_ctx
  then show ?thesis using assms by (cases "dev_ctx s") (auto simp: dev_reader_drop_ctx_def dev_inv_def own_fds_def dest: in_fst)
qed

lemma dev_inv_run: "dev_inv others s \<Longrightarrow> dev_inv others (fold (dev_step rd env) ops s)"
  by (induction ops arbitrary: s) (auto intro: dev_inv_step)

lemma dev_inv_new: "distinct (map fst others) \<Longrightarrow> dev_inv others \<lparr>fds = others, dev_ctx = None\<rparr>"
  by (simp add: dev_inv_def own_fds_def)

text \<open>Distinct requests are read at distinct offsets of the file.\<close>

lemma dev_offset_inj: "dev_offset a c = dev_offset a' c' \<longleftrightarrow> a = a' \<and> c = c'"
proof
  assume e: "dev_offset a c = dev_offset a' c'"
  have l: "bit (dev_offset a c) n \<longleftrightarrow> bit a n" if "n < 32" for a c n
    using that by (simp add: dev_offset_def bit_or_iff bit_push_bit_iff bit_unsigned_iff)
  have h: "bit (dev_offset a c) (32 + n) \<longleftrightarrow> bit c n" if "n < 32" for a c n
    using that by (auto simp: dev_offset_def bit_or_iff bit_push_bit_iff bit_unsigned_iff dest: bit_imp_le_length)
  have "a = a'" by (rule bit_word_eqI) (use e l [of _ a c] l [of _ a' c'] in simp)
  moreover have "c = c'" by (rule bit_word_eqI) (use e h [of _ a c] h [of _ a' c'] in simp)
  ultimately show "a = a' \<and> c = c'" ..
qed simp

section \<open>The device file keeps the contract while its reads succeed\<close>

definition dev_works :: "dev_env \<Rightarrow> 32 word \<Rightarrow> bool" where
  "dev_works env threads \<longleftrightarrow> off_t_64 env \<and>
     (\<forall>core < threads. open_error env core = None \<and> (\<forall>off. 0 < fst (pread_at env core off)))"

definition dev_hw :: "dev_env \<Rightarrow> 32 word \<Rightarrow> cpuidreg \<Rightarrow> cpuidreg \<Rightarrow> cpuid_res option" where
  "dev_hw env core a c = Some (snd (pread_at env core (dev_offset a c)))"

definition ctx_ok :: "dev_env \<Rightarrow> dev_reader \<Rightarrow> bool" where
  "ctx_ok env s \<longleftrightarrow> (\<forall>f held. dev_ctx s = Some (f, held) \<longrightarrow> (is_open f \<longrightarrow> dev_fd f = file_fd f) \<and>
     (is_open f \<longleftrightarrow> open_error env (file_core f) = None))"

definition dev_idle :: "dev_env \<Rightarrow> fd_table \<Rightarrow> dev_reader \<Rightarrow> bool" where
  "dev_idle env others s \<longleftrightarrow> dev_inv others s \<and> ctx_ok env s \<and> \<not> held_ctx s"

definition dev_active :: "dev_env \<Rightarrow> 32 word \<Rightarrow> fd_table \<Rightarrow> 32 word \<Rightarrow> dev_reader \<Rightarrow> bool" where
  "dev_active env threads others core s \<longleftrightarrow> dev_inv others s \<and> ctx_ok env s \<and> core < threads \<and>
     (\<exists>f. dev_ctx s = Some (f, True) \<and> file_core f = core)"

lemma dev_has:
  assumes "dev_idle env others s"
  shows "dev_reader_has_cpuid env s = (open_error env 0 = None, default_ctx env s) \<and> dev_idle env others (default_ctx env s)"
proof -
  have n: "\<And>f. dev_ctx s \<noteq> Some (f, True)" and i: "dev_inv others s" using assms by (auto simp: dev_idle_def held_ctx_def)
  obtain f where f: "set_dev_ctx env 0 s = \<lparr>fds = own_fds (Some (f, False)) @ others, dev_ctx = Some (f, False)\<rparr>"
      "file_core f = 0" "is_open f \<longrightarrow> dev_fd f = file_fd f" "is_open f \<longleftrightarrow> open_error env 0 = None"
    by (rule exE [OF set_dev_ctx_inv [OF i n, of env 0]], elim conjE, rule that)
  have ok: "ctx_ok env (set_dev_ctx env 0 s)" using f by (auto simp: ctx_ok_def)
  consider (new) "default_ctx env s = set_dev_ctx env 0 s"
    | (old) g where "default_ctx env s = s" "dev_ctx s = Some (g, False)" "is_open g" "file_core g = 0"
  proof (cases "dev_ctx s")
    case (Some p)
    obtain g held where p: "p = (g, held)" by (cases p)
    then have "dev_ctx s = Some (g, False)" using n [of g] Some by (cases held) simp_all
    then show ?thesis using that by (cases "is_open g \<and> file_core g = 0") (auto simp: default_ctx_def)
  qed (use that in \<open>simp add: default_ctx_def\<close>)
  then show ?thesis
  proof cases
    case new
    then show ?thesis using f ok default_ctx_inv [OF i, of env] assms by (auto simp: dev_reader_has_cpuid_def Let_def dev_idle_def)
  next
    case (old g)
    then show ?thesis using assms by (auto simp: dev_reader_has_cpuid_def Let_def dev_idle_def ctx_ok_def)
  qed
qed

lemma dev_enable:
  assumes s: "dev_idle env others s" and w: "dev_works env threads" "core < threads"
  shows "\<exists>s'. dev_reader_enable_core env core s = (Inr (Some core), s') \<and> dev_active env threads others core s'"
proof -
  have n: "\<And>f. dev_ctx s \<noteq> Some (f, True)" and i: "dev_inv others s" and c: "ctx_ok env s"
    using s by (auto simp: dev_idle_def held_ctx_def)
  have op: "open_error env core = None" using w by (simp add: dev_works_def)
  obtain f where f: "set_dev_ctx env core s = \<lparr>fds = own_fds (Some (f, False)) @ others, dev_ctx = Some (f, False)\<rparr>"
      "dev_inv others (set_dev_ctx env core s)" "file_core f = core" "is_open f" "dev_fd f = file_fd f"
    using set_dev_ctx_inv [OF i n, of env core] op by blast
  let ?new = "set_dev_ctx env core s\<lparr>dev_ctx := Some (f, True)\<rparr>"
  have new: "dev_active env threads others core ?new"
    using dev_inv_ctx [OF f(2), of f False f True] f w(2) op by (auto simp: dev_active_def ctx_ok_def)
  consider (kept) g where "dev_ctx s = Some (g, False)" "is_open g" "file_core g = core"
      "dev_reader_enable_core env core s = (Inr (Some core), s\<lparr>dev_ctx := Some (g, True)\<rparr>)"
    | (fresh) "dev_reader_enable_core env core s = (Inr (Some core), ?new)"
  proof (cases "dev_ctx s")
    case None
    show ?thesis by (rule that(2)) (use None f in \<open>simp add: dev_reader_enable_core_def Let_def\<close>)
  next
    case (Some p)
    obtain g held where p: "p = (g, held)" by (cases p)
    then have g: "dev_ctx s = Some (g, False)" using n [of g] Some by (cases held) simp_all
    show ?thesis
    proof (cases "is_open g \<and> file_core g = core")
      case True
      then show ?thesis by (intro that(1) [of g]) (use g in \<open>simp_all add: dev_reader_enable_core_def Let_def\<close>)
    next
      case False
      then show ?thesis by (intro that(2)) (use g f in \<open>auto simp: dev_reader_enable_core_def Let_def\<close>)
    qed
  qed
  then show ?thesis
  proof cases
    case (kept g)
    have "dev_active env threads others core (s\<lparr>dev_ctx := Some (g, True)\<rparr>)"
      using dev_inv_ctx [OF i kept(1), of g True] kept w(2) c by (auto simp: dev_active_def ctx_ok_def)
    then show ?thesis using kept(4) by blast
  qed (use new in blast)
qed

lemma dev_read:
  assumes s: "dev_active env threads others core s" and w: "dev_works env threads"
  shows "dev_reader_cpuid (dev_cpuid env) env a c s = (dev_hw env core a c, s)"
proof -
  obtain f where f: "dev_ctx s = Some (f, True)" "file_core f = core" "core < threads" "dev_inv others s" "ctx_ok env s"
    using s by (auto simp: dev_active_def)
  then have o: "is_open f" "0 \<le> file_fd f" "dev_fd f = file_fd f" by (auto simp: dev_inv_def ctx_ok_def)
  have m: "map_of (fds s) (file_fd f) = Some core" using f o by (simp add: dev_inv_def own_fds_def)
  have p: "0 < fst (pread_at env core (dev_offset a c))" "off_t_64 env" using w f(3) by (auto simp: dev_works_def)
  then have "dev_cpuid env (fds s) (file_fd f) a c = (dev_hw env core a c, file_fd f)"
    using m o by (cases "pread_at env core (dev_offset a c)") (auto simp: dev_cpuid_def dev_has_cpuid_def dev_hw_def)
  moreover have "default_ctx env s = s" using f o by (simp add: default_ctx_def)
  moreover have "f\<lparr>dev_fd := file_fd f\<rparr> = f" using o(3) by (metis cpu_file.surjective cpu_file.update_convs(4))
  moreover have "s\<lparr>dev_ctx := Some (f, True)\<rparr> = s" using f(1) by (metis dev_reader.surjective dev_reader.update_convs(2))
  ultimately show ?thesis using f o by (simp add: dev_reader_cpuid_def)
qed

lemma dev_device:
  assumes w: "dev_works env threads"
  shows "cpu_device (cpuidreader_dev env threads) (dev_idle env others) (dev_active env threads others) (dev_hw env)
           threads (open_error env 0 = None)"
proof (unfold_locales, goal_cases)
  case (1 s)
  then show ?case using dev_has by (auto simp: cpuidreader_dev_def device_reader_def)
next
  case (3 s core)
  then show ?case using dev_enable [OF _ w] by (simp add: cpuidreader_dev_def device_reader_def)
next
  case (5 core s a c)
  then show ?case using dev_read [OF _ w] by (simp add: cpuidreader_dev_def device_reader_def)
next
  case (6 core s)
  then obtain f where f: "dev_ctx s = Some (f, True)" "dev_inv others s" "ctx_ok env s" by (auto simp: dev_active_def)
  have "dev_reader_drop_ctx s = s\<lparr>dev_ctx := Some (f, False)\<rparr>" using f(1) by (simp add: dev_reader_drop_ctx_def)
  then show ?case using dev_inv_ctx [OF f(2) f(1), of f False] f
    by (auto simp: cpuidreader_dev_def device_reader_def dev_idle_def ctx_ok_def held_ctx_def)
qed (auto simp: cpuidreader_dev_def device_reader_def)

section \<open>The instruction itself (cpuidreader\_native)\<close>

text \<open>
  The environment is the processor and the scheduler: whether the build has the instruction, its
  results on each core, and the error of pinning the thread to a core, if it fails.  The state
  is the core the thread runs on and the affinity that dropping the context restores; reads
  without a context are of the core the thread happens to be on.
\<close>

record native_env =
  have_cpuidx86 :: bool
  cpuid_count :: "32 word \<Rightarrow> cpuidreg \<Rightarrow> cpuidreg \<Rightarrow> cpuid_res"
  pin_error :: "32 word \<Rightarrow> nat option"

definition native_cpuid :: "native_env \<Rightarrow> 32 word cpuid_fn" where
  "native_cpuid env eax ecx running = (if have_cpuidx86 env then Some (cpuid_count env running eax ecx) else None, running)"

definition native_enable_core :: "native_env \<Rightarrow> 32 word \<Rightarrow> 32 word \<Rightarrow> (nat + 32 word option) \<times> 32 word" where
  "native_enable_core env core running =
     (case pin_error env core of Some e \<Rightarrow> (Inl e, running) | None \<Rightarrow> (Inr (Some core), core))"

definition cpuidreader_native :: "native_env \<Rightarrow> 32 word \<Rightarrow> 32 word cpuidreader" where
  "cpuidreader_native env threads =
     \<lparr>has_cpuid = (\<lambda>s. (have_cpuidx86 env, s)), is_online = (\<lambda>_. True), cores = (\<lambda>_. threads),
      cpuid = native_cpuid env, enable_core = native_enable_core env, drop_ctx = (\<lambda>s. s)\<rparr>"

lemma native_device:
  assumes "\<And>core. core < threads \<Longrightarrow> pin_error env core = None"
  shows "cpu_device (cpuidreader_native env threads) (\<lambda>_. True) (\<lambda>core s. s = core)
    (\<lambda>core a c. if have_cpuidx86 env then Some (cpuid_count env core a c) else None) threads (have_cpuidx86 env)"
  by unfold_locales (auto simp: cpuidreader_native_def native_cpuid_def native_enable_core_def assms)

section \<open>Descriptors\<close>

text \<open>C18: Whatever is called on a reader of device files, in any order and whether the files open or their
  reads fail, the process holds the descriptors it held before and at most one more, and none
  more once the context is given back and the reader is destroyed.\<close>

theorem device_no_descriptor_leak:
  assumes "distinct (map fst others)"
  shows "let s = fold (dev_step rd env) ops \<lparr>fds = others, dev_ctx = None\<rparr> in
    length (fds s) \<le> length others + 1 \<and> set others \<subseteq> set (fds s) \<and>
    fds (dev_reader_destroy (dev_reader_drop_ctx s)) = others"
proof -
  let ?s = "fold (dev_step rd env) ops \<lparr>fds = others, dev_ctx = None\<rparr>"
  have i: "dev_inv others ?s" by (rule dev_inv_run [OF dev_inv_new [OF assms]])
  have "dev_inv others (dev_reader_drop_ctx ?s)" using dev_inv_step [OF i, of rd env Drop_ctx] by simp
  moreover have "\<And>f. dev_ctx (dev_reader_drop_ctx ?s) \<noteq> Some (f, True)" by (auto simp: dev_reader_drop_ctx_def)
  ultimately have "fds (dev_reader_destroy (dev_reader_drop_ctx ?s)) = others"
    using drop_old_after(1) by (simp add: dev_reader_destroy_def)
  moreover have "fds ?s = own_fds (dev_ctx ?s) @ others" using i by (simp add: dev_inv_def)
  then have "length (fds ?s) \<le> length others + 1 \<and> set others \<subseteq> set (fds ?s)"
    by (simp add: own_fds_def split: option.splits prod.splits)
  ultimately show ?thesis by (simp add: Let_def)
qed

definition test_env :: dev_env where
  "test_env = \<lparr>open_error = (\<lambda>core. if core < 2 then None else Some 2),
     pread_at = (\<lambda>core off. (16, \<lparr>res_eax = core, res_ebx = ucast off, res_ecx = 0, res_edx = 0\<rparr>)),
     ioctl_cpuid = (\<lambda>core a c. None), off_t_64 = True\<rparr>"

theorem device_no_descriptor_leak_witness:
  "fds (dev_reader_destroy (dev_reader_drop_ctx
     (fold (dev_step (dev_cpuid test_env) test_env) [Enable_core 1, Cpuid 0 0, Has_cpuid, Drop_ctx, Cpuid 0 0, Enable_core 7, Enable_core 1]
       \<lparr>fds = [(0, 9), (1, 9), (2, 9)], dev_ctx = None\<rparr>))) = [(0, 9), (1, 9), (2, 9)]"
  using device_no_descriptor_leak [of "[(0, 9), (1, 9), (2, 9)]" "dev_cpuid test_env" test_env
      "[Enable_core 1, Cpuid 0 0, Has_cpuid, Drop_ctx, Cpuid 0 0, Enable_core 7, Enable_core 1]"]
  by (simp add: Let_def)

text \<open>A run: the reader of core 1, then of core 0 once the context is given back.\<close>

lemma device_run:
  "fst (dev_reader_cpuid (dev_cpuid test_env) test_env 5 0
      (dev_step (dev_cpuid test_env) test_env (Enable_core 1) \<lparr>fds = [(0, 9)], dev_ctx = None\<rparr>)) =
    Some \<lparr>res_eax = 1, res_ebx = 5, res_ecx = 0, res_edx = 0\<rparr>"
  "fst (dev_reader_cpuid (dev_cpuid test_env) test_env 5 0
      (fold (dev_step (dev_cpuid test_env) test_env) [Enable_core 1, Drop_ctx] \<lparr>fds = [(0, 9)], dev_ctx = None\<rparr>)) =
    Some \<lparr>res_eax = 0, res_ebx = 5, res_ecx = 0, res_edx = 0\<rparr>"
  by code_simp+

text \<open>A read that fails ends the file: the descriptor in the object is dropped, the context stays open,
  and later reads under the same context all fail.\<close>

lemma failed_read_sticks:
  assumes "dev_ctx s = Some (f, True)" "is_open f" "dev_fd f < 0"
  shows "dev_reader_cpuid (dev_cpuid env) env a c s = (None, s)"
proof -
  have "default_ctx env s = s" using assms by (simp add: default_ctx_def)
  moreover have "f\<lparr>dev_fd := dev_fd f\<rparr> = f" "s\<lparr>dev_ctx := Some (f, True)\<rparr> = s" using assms(1) by simp_all
  ultimately show ?thesis using assms by (simp add: dev_reader_cpuid_def dev_cpuid_def dev_has_cpuid_def)
qed

end
