(* ===== verification/CpuidXml.thy ===== *)
theory CpuidXml
  imports CpuidReader Strings
begin

text \<open>
  The reader of captured tables, cpuidreader\_xml.cpp: the number fields of the attributes and of the
  text of a register, the walk over the processors and registers, and the constructor that stores
  every entry in the tables of \<open>cpuidreader_cache\<close>.

  libxml2 is not part of the repository.  A document is what its functions report of it: for
  each node whether it is an element, its name, its properties (\<open>xmlGetProp\<close>), the text of its
  children (\<open>xmlNodeListGetString\<close>, where \<open>None\<close> is the null pointer) and its children; the file
  system and the parser are the function from file names to roots.  Reading through the null
  pointer is \<open>None\<close> as the result of the walk.
\<close>

datatype xml_node = Xml_Node (is_element: bool) (node_name: string) (node_props: "(string \<times> string) list")
  (node_text: "string option") (node_children: "xml_node list")

section \<open>Numbers\<close>

definition is_space :: "char \<Rightarrow> bool" where
  "is_space c \<longleftrightarrow> c = CHR '' '' \<or> (9 \<le> (of_char c :: nat) \<and> of_char c \<le> (13 :: nat))"

definition base_digit :: "nat \<Rightarrow> char \<Rightarrow> bool" where
  "base_digit base c \<longleftrightarrow> (case hex_digit c of None \<Rightarrow> False | Some d \<Rightarrow> d < base)"

definition base_value :: "nat \<Rightarrow> string \<Rightarrow> nat" where
  "base_value base ds = foldl (\<lambda>v c. v * base + the (hex_digit c)) 0 ds"

text \<open>\<open>strtoul\<close> on text that starts with a hexadecimal digit: the value of the longest run of digits,
  after a prefix 0x in base 16, and the text left.  A value out of range is reported by the
  number itself, which the caller bounds.\<close>

definition strtoul :: "nat \<Rightarrow> string \<Rightarrow> nat \<times> string" where
  "strtoul base v =
     (let w = (if base = 16 \<and> 3 \<le> length v \<and> hd v = CHR ''0'' \<and> (v ! 1 = CHR ''x'' \<or> v ! 1 = CHR ''X'') \<and> base_digit base (v ! 2)
               then drop 2 v else v) in
      (base_value base (takeWhile (base_digit base) w), dropWhile (base_digit base) w))"

definition xmlCharToInt :: "nat \<Rightarrow> string option \<Rightarrow> (32 word \<times> string) option" where
  "xmlCharToInt base text =
     (case text of
        None \<Rightarrow> None
      | Some t \<Rightarrow>
          if t = [] then None
          else let v = dropWhile is_space t in
            if v = [] \<or> \<not> is_hex (hd v) then None
            else case strtoul base v of
              (result, endptr) \<Rightarrow>
                if result > 0xFFFFFFFF then None
                else if endptr = v then None
                else Some (of_nat result, endptr))"

definition xmlGetPropInt :: "xml_node \<Rightarrow> string \<Rightarrow> nat \<Rightarrow> 32 word option" where
  "xmlGetPropInt n attr base =
     (case xmlCharToInt base (map_of (node_props n) attr) of
        None \<Rightarrow> None
      | Some (result, endptr) \<Rightarrow> if endptr \<noteq> [] then None else Some result)"

text \<open>A field up to a comma or the end, and the text after it.\<close>

definition xmlGetIntField :: "nat \<Rightarrow> string \<Rightarrow> 32 word option \<times> string" where
  "xmlGetIntField base text =
     (let s1 = dropWhile (\<lambda>c. c = CHR '' '') text in
      case xmlCharToInt base (Some s1) of
        None \<Rightarrow> (None, s1)
      | Some (result, s2) \<Rightarrow>
          let s3 = dropWhile (\<lambda>c. c = CHR '' '') s2 in
          if s3 \<noteq> [] \<and> hd s3 \<noteq> CHR '','' then (None, s3)
          else (Some result, if s3 \<noteq> [] then tl s3 else s3))"

section \<open>The walk over the document\<close>

record xmldoc =
  proc_node_id :: "32 word"
  proc_node :: "xml_node list"
  reg_node :: "xml_node list"

fun next_core_from :: "xml_node list \<Rightarrow> xmldoc \<Rightarrow> 32 word option \<times> xmldoc" where
  "next_core_from [] d = (None, d\<lparr>proc_node := []\<rparr>)"
| "next_core_from (n # ns) d =
     (if is_element n \<and> node_name n = ''processor''
      then (Some (proc_node_id d), \<lparr>proc_node_id = proc_node_id d + 1, proc_node = ns, reg_node = node_children n\<rparr>)
      else next_core_from ns d)"

definition next_core :: "xmldoc \<Rightarrow> 32 word option \<times> xmldoc" where
  "next_core d = next_core_from (proc_node d) d"

text \<open>The four output registers of an entry.\<close>

definition read_values :: "string \<Rightarrow> cpuid_res option" where
  "read_values pos =
     (let (veax, p1) = xmlGetIntField 16 pos;
          (vebx, p2) = xmlGetIntField 16 p1;
          (vecx, p3) = xmlGetIntField 16 p2;
          (vedx, p4) = xmlGetIntField 16 p3 in
      case (veax, vebx, vecx, vedx) of
        (Some a, Some b, Some c, Some d) \<Rightarrow>
          if p4 = [] then Some \<lparr>res_eax = a, res_ebx = b, res_ecx = c, res_edx = d\<rparr> else None
      | _ \<Rightarrow> None)"

fun next_entry_from :: "xml_node list \<Rightarrow> (cpuid_info option \<times> xml_node list) option" where
  "next_entry_from [] = Some (None, [])"
| "next_entry_from (n # ns) =
     (if is_element n \<and> node_name n = ''register'' then
        case (xmlGetPropInt n ''eax'' 16, xmlGetPropInt n ''ecx'' 16) of
          (Some eax, Some ecx) \<Rightarrow>
            (case node_text n of
               None \<Rightarrow> None
             | Some key \<Rightarrow>
                 (case read_values key of
                    None \<Rightarrow> next_entry_from ns
                  | Some r \<Rightarrow> Some (Some \<lparr>req = \<lparr>req_eax = eax, req_ecx = ecx\<rparr>, res = r\<rparr>, ns)))
        | _ \<Rightarrow> next_entry_from ns
      else next_entry_from ns)"

definition next_entry :: "xmldoc \<Rightarrow> (cpuid_info option \<times> xmldoc) option" where
  "next_entry d = map_option (\<lambda>(i, ns). (i, d\<lparr>reg_node := ns\<rparr>)) (next_entry_from (reg_node d))"

text \<open>The document is loaded when it parses, has a root, and the root is \<open>cpuid\<close>.\<close>

definition initialise :: "(string \<Rightarrow> xml_node option) \<Rightarrow> string \<Rightarrow> xmldoc option" where
  "initialise xmlReadFile file_name =
     (case xmlReadFile file_name of
        None \<Rightarrow> None
      | Some root \<Rightarrow> if node_name root \<noteq> ''cpuid'' then None
          else Some \<lparr>proc_node_id = 0, proc_node = node_children root, reg_node = []\<rparr>)"

lemma next_entry_from_shorter: "next_entry_from ns = Some (Some i, ns') \<Longrightarrow> length ns' < length ns"
  by (induction ns) (force split: if_splits option.splits)+

lemma next_core_from_shorter: "next_core_from ns d = (Some c, d') \<Longrightarrow> length (proc_node d') < length ns"
  by (induction ns) (force split: if_splits)+

function load_entries :: "32 word \<Rightarrow> xmldoc \<Rightarrow> unit reader_cache \<Rightarrow> (xmldoc \<times> unit reader_cache) option" where
  "load_entries core d s =
     (case next_entry d of
        None \<Rightarrow> None
      | Some (None, d') \<Rightarrow> Some (d', s)
      | Some (Some info, d') \<Rightarrow>
          load_entries core d' (snd (add_cpuid None core (req_eax (req info)) (req_ecx (req info)) (res info) s)))"
  by pat_completeness auto
termination
  by (relation "measure (\<lambda>(core, d, s). length (reg_node d))") (auto simp: next_entry_def dest: next_entry_from_shorter)

declare load_entries.simps [simp del]

lemma next_entry_procs: "next_entry d = Some (i, d') \<Longrightarrow> proc_node d' = proc_node d \<and> proc_node_id d' = proc_node_id d"
  by (auto simp: next_entry_def)

lemma load_entries_procs:
  "load_entries core d s = Some (d', s') \<Longrightarrow> proc_node d' = proc_node d \<and> proc_node_id d' = proc_node_id d"
proof (induction core d s rule: load_entries.induct)
  case (1 core d s)
  show ?case
  proof (cases "next_entry d")
    case None
    with 1(2) show ?thesis by (simp add: load_entries.simps)
  next
    case (Some p)
    obtain i d1 where p: "p = (i, d1)" by (cases p)
    note d1 = next_entry_procs [OF Some [unfolded p]]
    show ?thesis
    proof (cases i)
      case None
      with 1(2) Some p d1 show ?thesis by (simp add: load_entries.simps)
    next
      case (Some info)
      have "load_entries core d1 (snd (add_cpuid None core (req_eax (req info)) (req_ecx (req info)) (res info) s)) = Some (d', s')"
        using 1(2) \<open>next_entry d = Some p\<close> p Some by (simp add: load_entries.simps [of core d])
      from 1(1) [OF _ p [symmetric] Some this] \<open>next_entry d = Some p\<close> d1 show ?thesis by simp
    qed
  qed
qed

function load_cores :: "xmldoc \<Rightarrow> unit reader_cache \<Rightarrow> unit reader_cache option" where
  "load_cores d s =
     (case next_core d of
        (None, d') \<Rightarrow> Some s
      | (Some core, d') \<Rightarrow>
          (case load_entries core d' (set_cores (core + 1) s) of
             None \<Rightarrow> None
           | Some (d'', s') \<Rightarrow> load_cores d'' s'))"
  by pat_completeness auto
termination
  by (relation "measure (\<lambda>(d, s). length (proc_node d))")
     (auto simp: next_core_def dest!: load_entries_procs dest: next_core_from_shorter [OF sym])

declare load_cores.simps [simp del]

definition cpuidreader_xml :: "(string \<Rightarrow> xml_node option) \<Rightarrow> string \<Rightarrow> unit reader_cache option" where
  "cpuidreader_xml xmlReadFile file_name =
     (case initialise xmlReadFile file_name of
        None \<Rightarrow> Some (new_reader_cache ())
      | Some d \<Rightarrow> load_cores d (new_reader_cache ()))"

section \<open>Documents of captured tables\<close>

definition hex_upper :: "nat \<Rightarrow> char" where
  "hex_upper d = (if d < 10 then char_of (48 + d) else char_of (55 + d))"

fun hexn :: "nat \<Rightarrow> nat \<Rightarrow> string" where
  "hexn 0 v = []"
| "hexn (Suc n) v = hexn n (v div 16) @ [hex_upper (v mod 16)]"

definition hex8 :: "32 word \<Rightarrow> string" where
  "hex8 w = hexn 8 (unat w)"

definition reg_text :: "cpuid_res \<Rightarrow> string" where
  "reg_text r = hex8 (res_eax r) @ '','' @ hex8 (res_ebx r) @ '','' @ hex8 (res_ecx r) @ '','' @ hex8 (res_edx r)"

definition reg_xml :: "cpuid_info \<Rightarrow> xml_node" where
  "reg_xml i = Xml_Node True ''register'' [(''eax'', hex8 (req_eax (req i))), (''ecx'', hex8 (req_ecx (req i)))]
     (Some (reg_text (res i))) []"

text \<open>A node that captures the entries of a core: a processor whose elements are the registers,
  with text and comments between them.\<close>

definition captures_core :: "xml_node \<Rightarrow> cpuid_info list \<Rightarrow> bool" where
  "captures_core n infos \<longleftrightarrow> is_element n \<and> node_name n = ''processor'' \<and>
     filter is_element (node_children n) = map reg_xml infos"

definition captures :: "xml_node \<Rightarrow> cpuid_info list list \<Rightarrow> bool" where
  "captures root cs \<longleftrightarrow> node_name root = ''cpuid'' \<and>
     list_all2 captures_core (filter is_element (node_children root)) cs"

lemma hex_upper_digit: "d < 16 \<Longrightarrow> hex_digit (hex_upper d) = Some d"
  by (auto simp: hex_upper_def hex_digit_def is_digit_def)

lemma hexn_digits: "\<forall>c \<in> set (hexn n v). base_digit 16 c \<and> is_hex c"
  by (induction n v rule: hexn.induct) (auto simp: base_digit_def is_hex_def hex_upper_digit)

lemma length_hexn [simp]: "length (hexn n v) = n"
  by (induction n v rule: hexn.induct) auto

lemma hexn_value: "base_value 16 (hexn n v) = v mod 16 ^ n"
proof (induction n v rule: hexn.induct)
  case (2 n v)
  have "base_value 16 (hexn (Suc n) v) = base_value 16 (hexn n (v div 16)) * 16 + v mod 16"
    by (simp add: base_value_def hex_upper_digit)
  also have "\<dots> = v mod 16 ^ Suc n" using 2 mod_mult2_eq [of v 16 "16 ^ n"] by simp
  finally show ?case .
qed (simp add: base_value_def)

lemma length_hex8 [simp]: "length (hex8 w) = 8"
  by (simp add: hex8_def)

lemma hex8_value: "base_value 16 (hex8 w) = unat w"
  using unsigned_less [of w, where 'a = nat] by (simp add: hex8_def hexn_value)

lemma hex_no_space: "is_hex c \<Longrightarrow> \<not> is_space c \<and> c \<noteq> CHR '' '' \<and> c \<noteq> CHR ''x'' \<and> c \<noteq> CHR ''X''"
  by (auto simp: is_hex_def hex_digit_def is_digit_def is_space_def split: if_splits)

lemma hex8_chars: "hex8 w = c # cs \<Longrightarrow> is_hex c \<and> (\<forall>x \<in> set cs. is_hex x \<and> base_digit 16 x) \<and> base_digit 16 c \<and> cs \<noteq> []"
proof -
  assume e: "hex8 w = c # cs"
  have "length (hex8 w) = 8" by (simp add: hex8_def)
  with e have "cs \<noteq> []" by auto
  then show ?thesis using hexn_digits [of 8 "unat w"] e by (auto simp: hex8_def)
qed

lemma xmlCharToInt_hex8:
  assumes "rest = [] \<or> hd rest = CHR '',''"
  shows "xmlCharToInt 16 (Some (hex8 w @ rest)) = Some (w, rest)"
proof -
  obtain c cs where e: "hex8 w = c # cs" using length_hex8 [of w] by (cases "hex8 w") auto
  note c = hex8_chars [OF e] hex_no_space [of c]
  have x: "cs ! 0 \<noteq> CHR ''x''" "cs ! 0 \<noteq> CHR ''X''" using c hex_no_space [of "cs ! 0"] by (auto dest!: nth_mem [of 0 cs])
  have r: "takeWhile (base_digit 16) rest = []" "dropWhile (base_digit 16) rest = rest"
    using assms by (cases rest; auto simp: base_digit_def hex_digit_def is_digit_def)+
  have t: "takeWhile (base_digit 16) (hex8 w @ rest) = hex8 w" "dropWhile (base_digit 16) (hex8 w @ rest) = rest"
    using hexn_digits [of 8 "unat w"] r by (simp_all add: hex8_def takeWhile_append dropWhile_append)
  have n: "(hex8 w @ rest) ! 1 = cs ! 0" using e c by (cases cs) auto
  have "strtoul 16 (hex8 w @ rest) = (unat w, rest)"
    using n x t by (simp add: strtoul_def hex8_value Let_def)
  moreover have "dropWhile is_space (hex8 w @ rest) = hex8 w @ rest" using e c by simp
  moreover have "\<not> unat w > 0xFFFFFFFF" using unsigned_less [of w, where 'a = nat] by simp
  moreover have "hex8 w @ rest \<noteq> rest" using e by (metis append_self_conv2 list.distinct(1))
  ultimately show ?thesis using e c by (simp add: xmlCharToInt_def Let_def del: not_less)
qed

lemma field_hex8:
  "xmlGetIntField 16 (hex8 w) = (Some w, [])"
  "xmlGetIntField 16 (hex8 w @ CHR '','' # rest) = (Some w, rest)"
proof -
  obtain c cs where e: "hex8 w = c # cs" using length_hex8 [of w] by (cases "hex8 w") auto
  note c = hex8_chars [OF e] hex_no_space [of c]
  have d: "dropWhile (\<lambda>c. c = CHR '' '') (hex8 w @ r) = hex8 w @ r" for r using e c by simp
  show "xmlGetIntField 16 (hex8 w) = (Some w, [])"
    using d [of "[]"] xmlCharToInt_hex8 [of "[]" w] by (simp add: xmlGetIntField_def)
  show "xmlGetIntField 16 (hex8 w @ CHR '','' # rest) = (Some w, rest)"
    using d xmlCharToInt_hex8 [of "CHR '','' # rest" w] by (simp add: xmlGetIntField_def)
qed

lemma read_values_reg_text: "read_values (reg_text r) = Some r"
  by (simp add: read_values_def reg_text_def field_hex8)

lemma props_reg_xml:
  "xmlGetPropInt (reg_xml i) ''eax'' 16 = Some (req_eax (req i))"
  "xmlGetPropInt (reg_xml i) ''ecx'' 16 = Some (req_ecx (req i))"
  using xmlCharToInt_hex8 [of "[]"] by (simp_all add: xmlGetPropInt_def reg_xml_def)

text \<open>The values of the last entry for each request.\<close>

definition last_entry :: "cpuid_info list \<Rightarrow> cpuidreg \<Rightarrow> cpuidreg \<Rightarrow> cpuid_res option" where
  "last_entry infos a c = map_of (rev (map (\<lambda>i. (req i, res i)) infos)) \<lparr>req_eax = a, req_ecx = c\<rparr>"

lemma next_entry_captured:
  "filter is_element ns = map reg_xml infos \<Longrightarrow>
   (case infos of
      [] \<Rightarrow> next_entry_from ns = Some (None, [])
    | i # is \<Rightarrow> \<exists>ns'. next_entry_from ns = Some (Some i, ns') \<and> filter is_element ns' = map reg_xml is)"
proof (induction ns)
  case (Cons n ns)
  show ?case
  proof (cases "is_element n")
    case False
    then show ?thesis using Cons by (auto split: list.splits)
  next
    case True
    then obtain i "is" where i: "infos = i # is" "n = reg_xml i" "filter is_element ns = map reg_xml is"
      using Cons.prems by (cases infos) auto
    have "node_text n = Some (reg_text (res i))" "node_name n = ''register''" using i by (simp_all add: reg_xml_def)
    then show ?thesis using i True props_reg_xml [of i] read_values_reg_text [of "res i"] by simp
  qed
qed (auto split: list.splits)

lemma load_entries_captured:
  assumes "filter is_element (reg_node d) = map reg_xml infos" "core < file_cores s"
  shows "\<exists>d' s'. load_entries core d s = Some (d', s') \<and> file_cores s' = file_cores s \<and> cur_ctx s' = cur_ctx s \<and>
    (\<forall>k a c. cached_cpuid k a c s' = (if k = core \<and> last_entry infos a c \<noteq> None then last_entry infos a c else cached_cpuid k a c s))"
  using assms
proof (induction infos arbitrary: d s)
  case Nil
  then have "next_entry d = Some (None, d\<lparr>reg_node := []\<rparr>)"
    using next_entry_captured [OF Nil(1)] by (simp add: next_entry_def)
  then show ?case by (subst load_entries.simps) (simp add: last_entry_def)
next
  case (Cons i "is")
  from next_entry_captured [OF Cons.prems(1)] obtain ns' where
    n: "next_entry_from (reg_node d) = Some (Some i, ns')" "filter is_element ns' = map reg_xml is" by auto
  obtain b s1 where b: "add_cpuid None core (req_eax (req i)) (req_ecx (req i)) (res i) s = (b, s1)" by fastforce
  note add = cached_after_add [OF b]
  have "b" using add(2) Cons.prems(2) by (simp add: cache_reader_cores_def)
  have n1: "next_entry d = Some (Some i, d\<lparr>reg_node := ns'\<rparr>)" using n by (simp add: next_entry_def)
  have "core < file_cores s1" using add(4) Cons.prems(2) by simp
  from Cons.IH [of "d\<lparr>reg_node := ns'\<rparr>" s1] n(2) this obtain d' s' where
    r: "load_entries core (d\<lparr>reg_node := ns'\<rparr>) s1 = Some (d', s')" "file_cores s' = file_cores s1" "cur_ctx s' = cur_ctx s1"
      "\<forall>k a c. cached_cpuid k a c s' = (if k = core \<and> last_entry is a c \<noteq> None then last_entry is a c else cached_cpuid k a c s1)"
    by auto
  have "last_entry (i # is) a c = (if last_entry is a c \<noteq> None then last_entry is a c
      else if req i = \<lparr>req_eax = a, req_ecx = c\<rparr> then Some (res i) else None)" for a c
    by (auto simp: last_entry_def map_add_def split: option.splits)
  moreover have "req i = \<lparr>req_eax = a, req_ecx = c\<rparr> \<longleftrightarrow> a = req_eax (req i) \<and> c = req_ecx (req i)" for a c
    by (cases "req i") auto
  ultimately have "\<forall>k a c. cached_cpuid k a c s' = (if k = core \<and> last_entry (i # is) a c \<noteq> None
      then last_entry (i # is) a c else cached_cpuid k a c s)"
    using r(4) add(1) \<open>b\<close> by auto
  moreover have "load_entries core d s = Some (d', s')" using n1 b r(1) by (subst load_entries.simps) simp
  ultimately show ?case using r add(4,5) by auto
qed

lemma next_core_captured:
  "list_all2 captures_core (filter is_element ns) cs \<Longrightarrow>
   (case cs of
      [] \<Rightarrow> \<exists>d'. next_core_from ns d = (None, d')
    | infos # rest \<Rightarrow> \<exists>d'. next_core_from ns d = (Some (proc_node_id d), d') \<and> proc_node_id d' = proc_node_id d + 1 \<and>
        filter is_element (reg_node d') = map reg_xml infos \<and> list_all2 captures_core (filter is_element (proc_node d')) rest)"
proof (induction ns)
  case (Cons n ns)
  show ?case
  proof (cases "is_element n")
    case False
    then show ?thesis using Cons by (auto split: list.splits)
  next
    case True
    then obtain infos rest where "cs = infos # rest" "captures_core n infos" "list_all2 captures_core (filter is_element ns) rest"
      using Cons.prems by (cases cs) auto
    then show ?thesis by (auto simp: captures_core_def)
  qed
qed (auto split: list.splits)

lemma load_cores_captured:
  assumes "list_all2 captures_core (filter is_element (proc_node d)) cs" "proc_node_id d = of_nat n" "n + length cs < 2 ^ 32"
    and "file_cores s = of_nat n"
    and "\<And>k a c. n \<le> unat k \<Longrightarrow> cached_cpuid k a c s = None"
  shows "\<exists>s'. load_cores d s = Some s' \<and> file_cores s' = of_nat (n + length cs) \<and> cur_ctx s' = cur_ctx s \<and>
    (\<forall>k a c. cached_cpuid k a c s' = (if n \<le> unat k \<and> unat k < n + length cs then last_entry (cs ! (unat k - n)) a c
        else cached_cpuid k a c s))"
  using assms
proof (induction cs arbitrary: d s n rule: list.induct)
  case Nil
  then show ?case using next_core_captured [of "proc_node d" "[]" d]
    by (subst load_cores.simps) (auto simp: next_core_def)
next
  case (Cons infos cs)
  from next_core_captured [OF Cons.prems(1), of d] obtain d1 where
    d1: "next_core d = (Some (of_nat n), d1)" "proc_node_id d1 = of_nat n + 1" "filter is_element (reg_node d1) = map reg_xml infos"
      "list_all2 captures_core (filter is_element (proc_node d1)) cs"
    using Cons.prems(2) by (auto simp: next_core_def)
  have un: "unat (of_nat n :: 32 word) = n" "unat (of_nat (Suc n) :: 32 word) = Suc n"
    using Cons.prems(3) by (simp_all add: unat_of_nat del: of_nat_Suc)
  then have lt: "(of_nat n :: 32 word) < of_nat n + 1" by (simp add: word_less_nat_alt add.commute)
  have sc: "file_cores (set_cores m s) = m" "cur_ctx (set_cores m s) = cur_ctx s"
    "cached_cpuid k a c (set_cores m s) = cached_cpuid k a c s" for m k a c
    by (simp_all add: set_cores_def cached_cpuid_def)
  from lt obtain d2 s2 where l: "load_entries (of_nat n) d1 (set_cores (of_nat n + 1) s) = Some (d2, s2)"
      "file_cores s2 = of_nat n + 1" "cur_ctx s2 = cur_ctx s"
      "\<forall>k a c. cached_cpuid k a c s2 = (if k = of_nat n \<and> last_entry infos a c \<noteq> None then last_entry infos a c else cached_cpuid k a c s)"
    using load_entries_captured [OF d1(3), of "of_nat n" "set_cores (of_nat n + 1) s", unfolded sc, OF lt] by blast
  note p = load_entries_procs [OF l(1)]
  have k: "k = of_nat n \<longleftrightarrow> unat k = n" for k :: "32 word" using un(1) by (auto simp: word_unat_eq_iff)
  have new: "cached_cpuid k a c s2 = None" if "Suc n \<le> unat k" for k a c
    using l(4) Cons.prems(5) [of k a c] that k [of k] by auto
  have "\<exists>s'. load_cores d2 s2 = Some s' \<and> file_cores s' = of_nat (Suc n + length cs) \<and> cur_ctx s' = cur_ctx s2 \<and>
    (\<forall>k a c. cached_cpuid k a c s' = (if Suc n \<le> unat k \<and> unat k < Suc n + length cs then last_entry (cs ! (unat k - Suc n)) a c
        else cached_cpuid k a c s2))"
    using Cons.IH [of d2 "Suc n" s2] d1 p l Cons.prems(3) new by (simp add: add.commute)
  then obtain s' where s': "load_cores d2 s2 = Some s'" "file_cores s' = of_nat (Suc n + length cs)" "cur_ctx s' = cur_ctx s2"
    "\<And>k a c. cached_cpuid k a c s' = (if Suc n \<le> unat k \<and> unat k < Suc n + length cs then last_entry (cs ! (unat k - Suc n)) a c
        else cached_cpuid k a c s2)" by blast
  have "load_cores d s = Some s'" using d1(1) l(1) s'(1) by (subst load_cores.simps) simp
  moreover have "cached_cpuid k a c s' = (if n \<le> unat k \<and> unat k < n + length (infos # cs)
      then last_entry ((infos # cs) ! (unat k - n)) a c else cached_cpuid k a c s)" for k a c
  proof -
    consider "unat k < n" | "unat k = n" | "Suc n \<le> unat k" by linarith
    then show ?thesis
    proof cases
      case 1 then show ?thesis using s'(4) l(4) k [of k] by auto
    next
      case 2
      then have "cached_cpuid k a c s = None" using Cons.prems(5) [of k] by simp
      then show ?thesis using 2 s'(4) [of k] l(4) k [of k] by auto
    next
      case 3
      then have "unat k - n = Suc (unat k - Suc n)" by simp
      then show ?thesis using 3 s'(4) [of k a c] l(4) k [of k] by auto
    qed
  qed
  ultimately show ?case using s' l(3) by auto
qed

text \<open>The reader of a document that captures tables answers with those tables.\<close>

lemma xml_captured:
  assumes "xmlReadFile file_name = Some root" "captures root cs" "length cs < 2 ^ 32"
  shows "\<exists>s. cpuidreader_xml xmlReadFile file_name = Some s \<and> file_cores s = of_nat (length cs) \<and> cur_ctx s = None \<and>
    (\<forall>core a c. table_hw (tables s) core a c = (if unat core < length cs then last_entry (cs ! unat core) a c else None))"
proof -
  let ?d = "\<lparr>proc_node_id = 0, proc_node = node_children root, reg_node = []\<rparr>"
  have i: "initialise xmlReadFile file_name = Some ?d" using assms by (simp add: initialise_def captures_def)
  have t: "table_hw (tables s) core a c = cached_cpuid core a c s" for s :: "unit reader_cache" and core a c
    by (simp add: table_hw_def cached_cpuid_def)
  have n: "cached_cpuid k a c (new_reader_cache ()) = None" for k a c by (simp add: cached_cpuid_def new_reader_cache_def)
  have "\<exists>s'. load_cores ?d (new_reader_cache ()) = Some s' \<and> file_cores s' = of_nat (0 + length cs) \<and>
    cur_ctx s' = cur_ctx (new_reader_cache ()) \<and>
    (\<forall>k a c. cached_cpuid k a c s' = (if 0 \<le> unat k \<and> unat k < 0 + length cs then last_entry (cs ! (unat k - 0)) a c
        else cached_cpuid k a c (new_reader_cache ())))"
    using assms n by (intro load_cores_captured) (simp_all add: captures_def new_reader_cache_def)
  moreover have "cur_ctx (new_reader_cache ()) = None" by (simp add: new_reader_cache_def)
  ultimately obtain s' where s': "load_cores ?d (new_reader_cache ()) = Some s'" "file_cores s' = of_nat (length cs)"
      "cur_ctx s' = None" "\<And>k a c. cached_cpuid k a c s' = (if unat k < length cs then last_entry (cs ! unat k) a c else None)"
    using n by auto
  then show ?thesis using i by (intro exI [of _ s']) (simp add: cpuidreader_xml_def t)
qed

section \<open>The dump of a core of a device\<close>

definition small_cpu :: "(32 word \<times> cpuid_cache) list" where
  "small_cpu = [(0, cpuid_cache_of
     [mk_info 0 0 \<lparr>res_eax = 1, res_ebx = 0x69727943, res_ecx = 0x64616574, res_edx = 0x736e4978\<rparr>,
      mk_info 1 0 \<lparr>res_eax = 5, res_ebx = 6, res_ecx = 7, res_edx = 8\<rparr>,
      mk_info 0x80000000 0 \<lparr>res_eax = 0x80000000, res_ebx = 0, res_ecx = 0, res_edx = 0\<rparr>,
      mk_info 0x40000000 0 \<lparr>res_eax = 0, res_ebx = 0, res_ecx = 0, res_edx = 0\<rparr>,
      mk_info 0x20000000 0 \<lparr>res_eax = 0, res_ebx = 0, res_ecx = 0, res_edx = 0\<rparr>])]"

definition small_reader :: "unit reader_cache" where
  "small_reader = \<lparr>backing = (), file_cores = 1, tables = small_cpu, cur_ctx = None\<rparr>"

lemma small_reader_idle: "file_idle 1 small_cpu small_reader"
  by (simp add: file_idle_def small_reader_def)

lemma small_dump:
  "map_option fst (cpuid_dump (cpuidreader_cache None) 0 small_reader) = Some (Some (butlast (map snd (snd (hd small_cpu)))))"
  by code_simp

text \<open>C8: Whatever the reader, as long as it keeps the contract of a device: when the dump of a core
  returns registers, every entry is the answer of that core's hardware to the request the entry
  names, every basic leaf the core answers is among them, and the reader is idle again, its context
  released.\<close>

theorem cpuid_dump_entries:
  assumes "cpu_device reader idle active hw n present" "idle s" "core < n"
    and "cpuid_dump reader core s = Some (Some l, s')"
  shows "idle s' \<and> (\<forall>i \<in> set l. hw core (req_eax (req i)) (req_ecx (req i)) = Some (res i)) \<and>
    (\<forall>r0 leaf r. hw core 0 0 = Some r0 \<longrightarrow> res_eax r0 \<le> 0xFF \<longrightarrow> leaf \<le> res_eax r0 \<longrightarrow> hw core leaf 0 = Some r \<longrightarrow>
       mk_info leaf 0 r \<in> set l)"
proof -
  have d: "dump_enabled (pure_reader (hw core)) () = Some (Some l, ())" "idle s'"
    using cpu_device.dump_device [OF assms(1,2,3)] assms(4)
    by (cases present; cases "dump_enabled (pure_reader (hw core)) ()"; auto)+
  then obtain r0 where r0: "hw core 0 0 = Some r0" by (cases "hw core 0 0") (auto simp: dump_enabled_def)
  have "list_all (valid_info (hw core)) l"
    using dump_enabled_ok [OF d(1) r0, of "{}"] by (simp add: adds_def)
  moreover have "mk_info leaf 0 r \<in> set l" if "res_eax r0 \<le> 0xFF" "leaf \<le> res_eax r0" "hw core leaf 0 = Some r" for leaf r
    using dump_enabled_ok [OF d(1) r0, of "{mk_info l 0 r |l r. l \<le> res_eax r0 \<and> hw core l 0 = Some r}"] that by auto
  ultimately show ?thesis using d(2) r0 by (auto simp: list_all_iff valid_info_def)
qed

theorem cpuid_dump_entries_witness:
  "\<exists>l s'. cpuid_dump (cpuidreader_cache None) 0 small_reader = Some (Some l, s') \<and> file_idle 1 small_cpu s' \<and>
     mk_info 1 0 \<lparr>res_eax = 5, res_ebx = 6, res_ecx = 7, res_edx = 8\<rparr> \<in> set l"
proof -
  obtain l s' where d: "cpuid_dump (cpuidreader_cache None) 0 small_reader = Some (Some l, s')"
    using small_dump by (cases "cpuid_dump (cpuidreader_cache None) 0 small_reader") auto
  have h: "table_hw small_cpu 0 0 0 = Some \<lparr>res_eax = 1, res_ebx = 0x69727943, res_ecx = 0x64616574, res_edx = 0x736e4978\<rparr>"
    "table_hw small_cpu 0 1 0 = Some \<lparr>res_eax = 5, res_ebx = 6, res_ecx = 7, res_edx = 8\<rparr>"
    by code_simp+
  from cpuid_dump_entries [OF tbls.cpu_device_axioms small_reader_idle _ d] h d show ?thesis by auto
qed

text \<open>C9: A cache in front of a reader does not change the dump: the dump of a core read through a new
  \<open>cpuidreader_cache\<close> gives the registers the reader itself gives, and returns exactly when that
  does.\<close>

theorem caching_dump_same:
  assumes "cpu_device reader idle active hw n present" "idle s" "core < n"
  shows "map_option fst (cpuid_dump (cpuidreader_cache (Some reader)) core (new_reader_cache s)) =
    map_option fst (cpuid_dump reader core s)"
  using cpu_device.dump_device_result [OF assms]
    cpu_device.dump_device_result [OF cpu_device.caching_device [OF assms(1)] cpu_device.new_cache_idle [OF assms(1,2)] assms(3)]
  by simp

theorem caching_dump_same_witness:
  "map_option fst (cpuid_dump (cpuidreader_cache (Some (cpuidreader_cache None))) 0 (new_reader_cache small_reader)) =
     Some (Some (butlast (map snd (snd (hd small_cpu)))))"
  using caching_dump_same [OF tbls.cpu_device_axioms small_reader_idle, of 0] small_dump by simp

text \<open>C26: The dump of a core returns when its table has the shape the loops rely on: the leaves that
  count subleaves do not count all of them, the topology leaves end, and every leaf of the basic,
  extended, coprocessor and hypervisor ranges is answered.\<close>

theorem cpuid_dump_returns:
  assumes "cpu_device reader idle active hw n present" "idle s" "core < n"
    and "intel_table (hw core)" "range_ends (hw core) 0" "range_ends (hw core) 0x80000000"
    and "range_ends (hw core) 0x20000000" "range_ends (hw core) 0x40000000"
  shows "\<exists>r s'. cpuid_dump reader core s = Some (r, s')"
proof -
  obtain r0 where "hw core 0 0 = Some r0" using assms(5) by (cases "hw core 0 0") (auto simp: range_ends_def)
  from dump_cpu_returns [OF this assms(4-8), of "()"] obtain r where "dump_enabled (pure_reader (hw core)) () = Some (r, ())" by auto
  then show ?thesis using cpu_device.dump_device [OF assms(1-3)]
    by (cases "cpuid_dump reader core s"; cases present) auto
qed

theorem cpuid_dump_returns_witness:
  "\<exists>r s'. cpuid_dump (cpuidreader_cache None) 0 small_reader = Some (r, s')"
proof (rule cpuid_dump_returns [OF tbls.cpu_device_axioms small_reader_idle])
  have n: "table_hw small_cpu 0 0x0B 1 = None" "table_hw small_cpu 0 0x1F 1 = None" by code_simp+
  have c: "table_hw small_cpu 0 0x07 0 = None" "table_hw small_cpu 0 0x14 0 = None" "table_hw small_cpu 0 0x17 0 = None"
    "table_hw small_cpu 0 0x18 0 = None" "table_hw small_cpu 0 0x20 0 = None" by code_simp+
  show "intel_table (table_hw small_cpu 0)"
    unfolding intel_table_def counts_end_def topology_ends_def using n c by (auto intro: exI [of _ "1 :: 32 word"])
  have b: "table_hw small_cpu 0 0 0 = Some \<lparr>res_eax = 1, res_ebx = 0x69727943, res_ecx = 0x64616574, res_edx = 0x736e4978\<rparr>"
    "table_hw small_cpu 0 1 0 = Some \<lparr>res_eax = 5, res_ebx = 6, res_ecx = 7, res_edx = 8\<rparr>"
    "table_hw small_cpu 0 0x80000000 0 = Some \<lparr>res_eax = 0x80000000, res_ebx = 0, res_ecx = 0, res_edx = 0\<rparr>"
    "table_hw small_cpu 0 0x20000000 0 = Some \<lparr>res_eax = 0, res_ebx = 0, res_ecx = 0, res_edx = 0\<rparr>"
    "table_hw small_cpu 0 0x40000000 0 = Some \<lparr>res_eax = 0, res_ebx = 0, res_ecx = 0, res_edx = 0\<rparr>"
    by code_simp+
  have l: "leaves 0 1 = [0, 1]" using leaves_step [of 0 1] by simp
  have m: "max (0 :: 32 word) 1 = 1" by code_simp
  show "range_ends (table_hw small_cpu 0) 0" by (simp add: range_ends_def b m l answered_def)
  show "range_ends (table_hw small_cpu 0) 0x80000000" by (simp add: range_ends_def b answered_def)
  show "range_ends (table_hw small_cpu 0) 0x20000000" by (simp add: range_ends_def b answered_def)
  show "range_ends (table_hw small_cpu 0) 0x40000000" by (simp add: range_ends_def b answered_def)
qed simp

section \<open>Captured tables\<close>

definition brand_intel :: "cpuid_res \<Rightarrow> bool" where
  "brand_intel r \<longleftrightarrow> res_ebx r = 0x756e6547 \<and> res_edx r = 0x49656e69 \<and> res_ecx r = 0x6c65746e"

lemma brand_intel: "brand_intel r \<Longrightarrow> get_cpu_brand (mk_info 0 0 r) = ''GenuineIntel''"
proof -
  assume "brand_intel r"
  then have r: "res_ebx r = 0x756e6547" "res_edx r = 0x49656e69" "res_ecx r = 0x6c65746e" by (simp_all add: brand_intel_def)
  have "takeWhile (\<lambda>c. c \<noteq> CHR 0x00) (reg_chars 0x756e6547 @ reg_chars 0x49656e69 @ reg_chars 0x6c65746e) = ''GenuineIntel''"
    by code_simp
  then show ?thesis using r by (simp add: get_cpu_brand_def)
qed

text \<open>The table of a Pentium 4 that the tests of the reader load, Dell\_c840.xml, in the order of its lines.\<close>

definition reg4 :: "cpuidreg \<Rightarrow> cpuidreg \<Rightarrow> cpuidreg \<Rightarrow> cpuidreg \<Rightarrow> cpuidreg \<Rightarrow> cpuidreg \<Rightarrow> cpuid_info" where
  "reg4 l s a b c d = mk_info l s \<lparr>res_eax = a, res_ebx = b, res_ecx = c, res_edx = d\<rparr>"

definition dell_c840 :: "cpuid_info list" where
  "dell_c840 =
     [reg4 0x00000000 0 0x00000002 0x756E6547 0x6C65746E 0x49656E69,
      reg4 0x80000000 0 0x80000004 0x00000000 0x00000000 0x00000000,
      reg4 0x00000001 0 0x00000F24 0x0001080E 0x00000000 0x3FEBF9FF,
      reg4 0x00000002 0 0x665B5001 0x00000000 0x00000000 0x007B7040,
      reg4 0x80000001 0 0x00000000 0x00000000 0x00000000 0x00000000,
      reg4 0x80000002 0 0x20202020 0x49202020 0x6C65746E 0x20295228,
      reg4 0x80000003 0 0x746E6550 0x286D7569 0x34202952 0x626F4D20,
      reg4 0x80000004 0 0x20656C69 0x20555043 0x30382E31 0x007A4847]"

definition dell_c840_xml :: xml_node where
  "dell_c840_xml = Xml_Node True ''cpuid'' [] None
     [Xml_Node False ''text'' [] None [],
      Xml_Node True ''processor'' [] None (Xml_Node False ''text'' [] None [] # map reg_xml dell_c840),
      Xml_Node False ''text'' [] None []]"

lemma dell_c840_captured: "captures dell_c840_xml [dell_c840]"
  by (simp add: captures_def dell_c840_xml_def captures_core_def reg_xml_def dell_c840_def)

text \<open>C10: A document that captures the tables of its processors, with text or comments between the
  elements, is read back: the reader has as many cores as there are processors, and its answer for
  a core and a request is the last entry of that processor for the request.\<close>

theorem xml_roundtrip:
  assumes "xmlReadFile file_name = Some root" "captures root cs" "length cs < 2 ^ 32"
  shows "\<exists>s. cpuidreader_xml xmlReadFile file_name = Some s \<and> cache_reader_cores None s = of_nat (length cs) \<and>
    (\<forall>core a c. table_hw (tables s) core a c = (if unat core < length cs then last_entry (cs ! unat core) a c else None))"
  using xml_captured [of xmlReadFile file_name root cs] assms by (auto simp: cache_reader_cores_def)

theorem xml_roundtrip_witness:
  "\<exists>s. cpuidreader_xml (\<lambda>_. Some dell_c840_xml) ''Dell_c840.xml'' = Some s \<and> cache_reader_cores None s = 1 \<and>
     table_hw (tables s) 0 2 0 = Some \<lparr>res_eax = 0x665B5001, res_ebx = 0, res_ecx = 0, res_edx = 0x007B7040\<rparr>"
proof -
  have "last_entry ([dell_c840] ! unat (0 :: 32 word)) 2 0 =
      Some \<lparr>res_eax = 0x665B5001, res_ebx = 0, res_ecx = 0, res_edx = 0x007B7040\<rparr>"
    by code_simp
  then show ?thesis
    using xml_roundtrip [of "\<lambda>_. Some dell_c840_xml" "''Dell_c840.xml''", OF refl dell_c840_captured] by auto
qed

text \<open>The dump of a captured Intel processor whose table has no leaf 0x20000000, or an unanswered
  leaf in the extended range, never returns: \<open>dump_range\<close> reads the missing leaf again for ever.\<close>

theorem captured_dump_hangs:
  assumes "xmlReadFile file_name = Some root" "captures root cs" "length cs < 2 ^ 32" "unat core < length cs"
    and "last_entry (cs ! unat core) 0 0 = Some r0" "brand_intel r0"
    and "\<not> range_ends (last_entry (cs ! unat core)) 0x80000000 \<or> \<not> range_ends (last_entry (cs ! unat core)) 0x20000000"
  shows "\<exists>s. cpuidreader_xml xmlReadFile file_name = Some s \<and> cpuid_dump (cpuidreader_cache None) core s = None"
proof -
  from xml_captured [of xmlReadFile file_name root cs] assms obtain s where
    s: "cpuidreader_xml xmlReadFile file_name = Some s" "file_cores s = of_nat (length cs)" "cur_ctx s = None"
      "\<And>core a c. table_hw (tables s) core a c = (if unat core < length cs then last_entry (cs ! unat core) a c else None)"
    by blast
  have hw: "table_hw (tables s) core = last_entry (cs ! unat core)" using s(4) assms(4) by (intro ext) simp
  have "core < file_cores s" using assms(3,4) s(2) by (simp add: word_less_nat_alt unat_of_nat)
  moreover have "file_idle (file_cores s) (tables s) s" using s(3) by (simp add: file_idle_def)
  moreover have "table_present (tables s)"
  proof -
    have "table_hw (tables s) core 0 0 \<noteq> None" using assms(5) hw by simp
    then obtain m where "map_of (tables s) core = Some m" "m \<noteq> []"
      by (auto simp: table_hw_def cache_cpuid_def cache_has_cpuid_def split: option.splits if_splits)
    then show ?thesis by (auto simp: table_present_def list_ex_iff cache_has_cpuid_def dest!: map_of_SomeD)
  qed
  moreover have "dump_enabled (pure_reader (table_hw (tables s) core)) () = None"
    using intel_dump_hangs [of "table_hw (tables s) core" r0 "()"] assms(5-7) brand_intel hw by simp
  ultimately have "map_option fst (cpuid_dump (cpuidreader_cache None) core s) = None"
    using tbls.dump_device_result [of "file_cores s" "tables s" s core] by simp
  then show ?thesis using s(1) by simp
qed

theorem captured_dump_hangs_witness:
  "\<exists>s. cpuidreader_xml (\<lambda>_. Some dell_c840_xml) ''Dell_c840.xml'' = Some s \<and>
     cpuid_dump (cpuidreader_cache None) 0 s = None"
proof (rule captured_dump_hangs [OF refl dell_c840_captured])
  show "last_entry ([dell_c840] ! unat (0 :: 32 word)) 0 0 =
    Some \<lparr>res_eax = 2, res_ebx = 0x756E6547, res_ecx = 0x6C65746E, res_edx = 0x49656E69\<rparr>" by code_simp
  have "last_entry ([dell_c840] ! unat (0 :: 32 word)) 0x20000000 0 = None" by code_simp
  then show "\<not> range_ends (last_entry ([dell_c840] ! unat (0 :: 32 word))) 0x80000000 \<or>
    \<not> range_ends (last_entry ([dell_c840] ! unat (0 :: 32 word))) 0x20000000" by (simp add: range_ends_def)
qed (simp_all add: brand_intel_def)

text \<open>A register element without content ends the program: its text is the null pointer.\<close>

lemma empty_register_crashes:
  assumes "is_element n" "node_name n = ''register''" "xmlGetPropInt n ''eax'' 16 = Some a" "xmlGetPropInt n ''ecx'' 16 = Some c"
    and "node_text n = None"
  shows "next_entry_from (n # ns) = None"
  using assms by simp

text \<open>Fields as the tests of the reader write them: blanks around a field, lower case, a missing field, an
  empty field, a value that is too large, a sign, and text after the last field.\<close>

lemma field_runs:
  "xmlGetIntField 16 ''  00000F24 ,1'' = (Some 0xF24, ''1'')"
  "xmlGetIntField 16 ''ff'' = (Some 0xFF, [])"
  "xmlGetIntField 16 ''0x1F,2'' = (Some 0x1F, ''2'')"
  "xmlGetIntField 16 ''100000000,1'' = (None, ''100000000,1'')"
  "xmlGetIntField 16 ''-10'' = (None, ''-10'')"
  "read_values ''1,2,3'' = None"
  "read_values ''1,,3,4'' = None"
  "read_values ''1,2,3,4x'' = None"
  "read_values ''1, 2,3 ,4'' = Some \<lparr>res_eax = 1, res_ebx = 2, res_ecx = 3, res_edx = 4\<rparr>"
  by (simp_all add: read_values_def xmlGetIntField_def xmlCharToInt_def strtoul_def base_value_def base_digit_def hex_digit_def
      is_hex_def is_digit_def is_space_def)

end
