(* ===== verification/MemoryMetrics.thy ===== *)
theory MemoryMetrics
  imports Prelude "HOL-Library.Multiset"
begin

text \<open>
  The replaced allocation operators of the interning benchmark, allocator.cpp under
  \<open>lib/libubench/benchmark/str_intern\<close>: every block gets a header in front of the memory handed
  out that records the size asked for, and the metrics count what is allocated and freed.

  The C allocator is a parameter, a function of the blocks in use, an alignment and a size; the
  heap is the list of the blocks in use with their size and the size the header records.
  Addresses and sizes are 64 bits wide and wrap.
\<close>

section \<open>The metrics\<close>

record mem_metrics =
  total_alloc :: "64 word"
  total_free :: "64 word"
  max_alloc :: "64 word"
  current_alloc :: "64 word"
  allocs :: "64 word"
  frees :: "64 word"

definition no_metrics :: mem_metrics where
  "no_metrics = \<lparr>total_alloc = 0, total_free = 0, max_alloc = 0, current_alloc = 0, allocs = 0, frees = 0\<rparr>"

text \<open>\<open>current_alloc\<close> is signed.\<close>

definition metrics_alloc :: "64 word \<Rightarrow> mem_metrics \<Rightarrow> mem_metrics" where
  "metrics_alloc bytes m =
     (let current = current_alloc m + bytes in
      m\<lparr>allocs := allocs m + 1, total_alloc := total_alloc m + bytes, current_alloc := current,
        max_alloc := if sint current > 0 \<and> current > max_alloc m then current else max_alloc m\<rparr>)"

definition metrics_dealloc :: "64 word \<Rightarrow> mem_metrics \<Rightarrow> mem_metrics" where
  "metrics_dealloc bytes m =
     m\<lparr>frees := frees m + 1, total_free := total_free m + bytes, current_alloc := current_alloc m - bytes\<rparr>"

section \<open>The operators\<close>

record heap_block =
  hb_bytes :: "64 word"
  hb_size :: "64 word"

record heap =
  blocks :: "(64 word \<times> heap_block) list"
  metrics :: mem_metrics

definition reset_alloc :: "heap \<Rightarrow> heap" where
  "reset_alloc h = h\<lparr>metrics := no_metrics\<rparr>"

definition get_stats :: "heap \<Rightarrow> mem_metrics" where
  "get_stats h = metrics h"

text \<open>\<open>sizeof(mem_block)\<close> is 8, \<open>sizeof(std::max_align_t)\<close> is 32.\<close>

definition max_align_size :: "64 word" where
  "max_align_size = 32"

definition sizeof_rounded :: "64 word \<Rightarrow> 64 word" where
  "sizeof_rounded align = (8 + align - 1) AND (NOT align + 1)"

text \<open>The C functions: the blocks in use, the alignment and the bytes.  What \<open>malloc\<close> returns is aligned to
  \<open>alignof(std::max_align_t)\<close>, which is 16.\<close>

definition malloc_align :: "64 word" where
  "malloc_align = 16"

type_synonym c_alloc = "(64 word \<times> heap_block) list \<Rightarrow> 64 word \<Rightarrow> 64 word \<Rightarrow> 64 word option"

datatype new_error = Bad_alloc

text \<open>The header is added to the size without a check.  When the sum wraps the block is shorter than the header, which the
  code writes nevertheless; that write outside is not part of the model.\<close>

definition new_nothrow :: "c_alloc \<Rightarrow> 64 word \<Rightarrow> 64 word \<Rightarrow> 64 word \<Rightarrow> heap \<Rightarrow> 64 word option \<times> heap" where
  "new_nothrow mem al header bytes h =
     (let msize = header + bytes in
      case mem (blocks h) al msize of
        None \<Rightarrow> (None, h)
      | Some p \<Rightarrow> (Some (p + header),
          \<lparr>blocks = (p, \<lparr>hb_bytes = msize, hb_size = bytes\<rparr>) # blocks h, metrics = metrics_alloc bytes (metrics h)\<rparr>))"

definition or_throw :: "64 word option \<times> heap \<Rightarrow> (new_error + 64 word) \<times> heap" where
  "or_throw r = (case r of (None, h) \<Rightarrow> (Inl Bad_alloc, h) | (Some p, h) \<Rightarrow> (Inr p, h))"

text \<open>Deleting reads the header in front of the pointer; where there is none the behaviour is
  undefined (\<open>None\<close>).\<close>

definition delete_block :: "64 word \<Rightarrow> 64 word \<Rightarrow> heap \<Rightarrow> heap option" where
  "delete_block header p h =
     (let rp = p - header in
      case map_of (blocks h) rp of
        None \<Rightarrow> None
      | Some mb \<Rightarrow> Some \<lparr>blocks = filter (\<lambda>b. fst b \<noteq> rp) (blocks h), metrics = metrics_dealloc (hb_size mb) (metrics h)\<rparr>)"

definition op_new_nothrow :: "c_alloc \<Rightarrow> 64 word \<Rightarrow> heap \<Rightarrow> 64 word option \<times> heap" where
  "op_new_nothrow mem bytes h = new_nothrow mem malloc_align (sizeof_rounded max_align_size) bytes h"

definition op_new :: "c_alloc \<Rightarrow> 64 word \<Rightarrow> heap \<Rightarrow> (new_error + 64 word) \<times> heap" where
  "op_new mem bytes h = or_throw (op_new_nothrow mem bytes h)"

definition op_delete :: "64 word \<Rightarrow> heap \<Rightarrow> heap option" where
  "op_delete p h = delete_block (sizeof_rounded max_align_size) p h"

definition op_new_array_nothrow :: "c_alloc \<Rightarrow> 64 word \<Rightarrow> heap \<Rightarrow> 64 word option \<times> heap" where
  "op_new_array_nothrow mem bytes h = new_nothrow mem malloc_align (sizeof_rounded max_align_size) bytes h"

definition op_new_array :: "c_alloc \<Rightarrow> 64 word \<Rightarrow> heap \<Rightarrow> (new_error + 64 word) \<times> heap" where
  "op_new_array mem bytes h = or_throw (op_new_array_nothrow mem bytes h)"

definition op_delete_array :: "64 word \<Rightarrow> heap \<Rightarrow> heap option" where
  "op_delete_array p h = delete_block (sizeof_rounded max_align_size) p h"

definition op_new_aligned_nothrow :: "c_alloc \<Rightarrow> 64 word \<Rightarrow> 64 word \<Rightarrow> heap \<Rightarrow> 64 word option \<times> heap" where
  "op_new_aligned_nothrow mem bytes al h = new_nothrow mem al (sizeof_rounded al) bytes h"

definition op_new_aligned :: "c_alloc \<Rightarrow> 64 word \<Rightarrow> 64 word \<Rightarrow> heap \<Rightarrow> (new_error + 64 word) \<times> heap" where
  "op_new_aligned mem bytes al h = or_throw (op_new_aligned_nothrow mem bytes al h)"

definition op_delete_aligned :: "64 word \<Rightarrow> 64 word \<Rightarrow> heap \<Rightarrow> heap option" where
  "op_delete_aligned p al h = delete_block (sizeof_rounded al) p h"

definition op_new_array_aligned_nothrow :: "c_alloc \<Rightarrow> 64 word \<Rightarrow> 64 word \<Rightarrow> heap \<Rightarrow> 64 word option \<times> heap" where
  "op_new_array_aligned_nothrow mem bytes al h = new_nothrow mem al (sizeof_rounded al) bytes h"

definition op_new_array_aligned :: "c_alloc \<Rightarrow> 64 word \<Rightarrow> 64 word \<Rightarrow> heap \<Rightarrow> (new_error + 64 word) \<times> heap" where
  "op_new_array_aligned mem bytes al h = or_throw (op_new_array_aligned_nothrow mem bytes al h)"

definition op_delete_array_aligned :: "64 word \<Rightarrow> 64 word \<Rightarrow> heap \<Rightarrow> heap option" where
  "op_delete_array_aligned p al h = delete_block (sizeof_rounded al) p h"

section \<open>A client\<close>

text \<open>What the new expressions of a program do: they ask ory in one of four ways, and give back
  memory in the way they got it.  Held are the pieces of memory, with the size asked for; a
  \<open>Delete n\<close> gives back the nth of them.\<close>

datatype new_form = Plain | Array | Aligned "64 word" | Array_aligned "64 word"

datatype mem_call = New new_form "64 word" | Delete nat

definition call_new :: "c_alloc \<Rightarrow> new_form \<Rightarrow> 64 word \<Rightarrow> heap \<Rightarrow> (new_error + 64 word) \<times> heap" where
  "call_new mem f bytes h = (case f of
     Plain \<Rightarrow> op_new mem bytes h
   | Array \<Rightarrow> op_new_array mem bytes h
   | Aligned al \<Rightarrow> op_new_aligned mem bytes al h
   | Array_aligned al \<Rightarrow> op_new_array_aligned mem bytes al h)"

definition call_delete :: "new_form \<Rightarrow> 64 word \<Rightarrow> heap \<Rightarrow> heap option" where
  "call_delete f p h = (case f of
     Plain \<Rightarrow> op_delete p h
   | Array \<Rightarrow> op_delete_array p h
   | Aligned al \<Rightarrow> op_delete_aligned p al h
   | Array_aligned al \<Rightarrow> op_delete_array_aligned p al h)"

type_synonym piece = "new_form \<times> 64 word \<times> 64 word"

fun mem_step :: "c_alloc \<Rightarrow> mem_call \<Rightarrow> piece list \<times> heap \<Rightarrow> (piece list \<times> heap) option" where
  "mem_step mem (New f bytes) (held, h) =
     (case call_new mem f bytes h of
        (Inl e, h') \<Rightarrow> Some (held, h')
      | (Inr p, h') \<Rightarrow> Some ((f, p, bytes) # held, h'))"
| "mem_step mem (Delete n) (held, h) =
     (if n < length held
      then map_option (\<lambda>h'. (take n held @ drop (Suc n) held, h'))
             (call_delete (fst (held ! n)) (fst (snd (held ! n))) h)
      else Some (held, h))"

fun mem_run :: "c_alloc \<Rightarrow> mem_call list \<Rightarrow> piece list \<times> heap \<Rightarrow> (piece list \<times> heap) option" where
  "mem_run mem [] s = Some s"
| "mem_run mem (c # cs) s = Option.bind (mem_step mem c s) (mem_run mem cs)"

definition new_heap :: "piece list \<times> heap" where
  "new_heap = ([], \<lparr>blocks = [], metrics = no_metrics\<rparr>)"

text \<open>What the code relies on: memory handed out is not in use.\<close>

definition fresh_memory :: "c_alloc \<Rightarrow> bool" where
  "fresh_memory mem \<longleftrightarrow> (\<forall>bs al n p. mem bs al n = Some p \<longrightarrow> p \<notin> fst ` set bs)"

section \<open>Blocks and pieces\<close>

definition form_align :: "new_form \<Rightarrow> 64 word" where
  "form_align f = (case f of Aligned al \<Rightarrow> al | Array_aligned al \<Rightarrow> al | _ \<Rightarrow> malloc_align)"

definition form_header :: "new_form \<Rightarrow> 64 word" where
  "form_header f = (case f of Aligned al \<Rightarrow> sizeof_rounded al | Array_aligned al \<Rightarrow> sizeof_rounded al |
     _ \<Rightarrow> sizeof_rounded max_align_size)"

lemmas new_defs = op_new_def op_new_array_def op_new_aligned_def op_new_array_aligned_def op_new_nothrow_def
  op_new_array_nothrow_def op_new_aligned_nothrow_def op_new_array_aligned_nothrow_def or_throw_def

lemma call_new_block: "call_new mem f n h = or_throw (new_nothrow mem (form_align f) (form_header f) n h)"
  by (cases f) (simp_all add: call_new_def form_align_def form_header_def new_defs)

lemma call_delete_block: "call_delete f p h = delete_block (form_header f) p h"
  by (cases f)
     (simp_all add: call_delete_def form_header_def op_delete_def op_delete_array_def op_delete_aligned_def
       op_delete_array_aligned_def)

fun block_of :: "piece \<Rightarrow> 64 word \<times> heap_block" where
  "block_of (f, p, n) = (p - form_header f, \<lparr>hb_bytes = form_header f + n, hb_size = n\<rparr>)"

definition held_ok :: "piece list \<times> heap \<Rightarrow> bool" where
  "held_ok s \<longleftrightarrow> mset (map block_of (fst s)) = mset (blocks (snd s)) \<and> distinct (map fst (blocks (snd s)))"

lemma held_ok_new: "held_ok new_heap"
  by (simp add: held_ok_def new_heap_def)

lemma mset_without:
  "distinct (map fst bs) \<Longrightarrow> (k, b) \<in> set bs \<Longrightarrow> mset bs = add_mset (k, b) (mset (filter (\<lambda>b. fst b \<noteq> k) bs))"
proof (induction bs)
  case (Cons c bs)
  show ?case
  proof (cases "c = (k, b)")
    case True
    then have "filter (\<lambda>b. fst b \<noteq> k) bs = bs" using Cons.prems by (auto simp: filter_id_conv image_iff)
    then show ?thesis using True by simp
  next
    case False
    then have "fst c \<noteq> k" using Cons.prems by (cases c) (auto simp: image_iff)
    then show ?thesis using Cons False by simp
  qed
qed simp

lemma mset_nth:
  assumes "n < length xs"
  shows "mset xs = add_mset (xs ! n) (mset (take n xs @ drop (Suc n) xs))"
proof -
  have "mset xs = mset (take n xs @ xs ! n # drop (Suc n) xs)" using id_take_nth_drop [OF assms] by simp
  then show ?thesis by simp
qed

text \<open>One call: what it does to the pieces, the blocks and the metrics.\<close>

inductive call_effect :: "c_alloc \<Rightarrow> mem_call \<Rightarrow> piece list \<times> heap \<Rightarrow> piece list \<times> heap \<Rightarrow> bool" where
  refused: "call_effect mem c s s"
| given: "mem (blocks h) (form_align f) (form_header f + n) = Some q \<Longrightarrow> q \<notin> fst ` set (blocks h) \<Longrightarrow>
    call_effect mem (New f n) (held, h)
      ((f, q + form_header f, n) # held,
       \<lparr>blocks = (q, \<lparr>hb_bytes = form_header f + n, hb_size = n\<rparr>) # blocks h, metrics = metrics_alloc n (metrics h)\<rparr>)"
| taken_back: "mset held = add_mset (f, p, n) (mset held') \<Longrightarrow> mset (blocks h) = add_mset (block_of (f, p, n)) (mset bs') \<Longrightarrow>
    bs' = filter (\<lambda>b. fst b \<noteq> p - form_header f) (blocks h) \<Longrightarrow>
    call_effect mem (Delete i) (held, h) (held', \<lparr>blocks = bs', metrics = metrics_dealloc n (metrics h)\<rparr>)"

lemma mem_step_effect:
  assumes "fresh_memory mem" "held_ok s"
  shows "\<exists>s'. mem_step mem c s = Some s' \<and> call_effect mem c s s'"
proof (cases c)
  case (New f n)
  obtain held h where s: "s = (held, h)" by fastforce
  show ?thesis
  proof (cases "mem (blocks h) (form_align f) (form_header f + n)")
    case None
    then show ?thesis using refused by (auto simp: New s call_new_block new_nothrow_def or_throw_def Let_def)
  next
    case (Some q)
    then have "q \<notin> fst ` set (blocks h)" using assms(1) by (auto simp: fresh_memory_def)
    from given [of mem h f n q held, OF Some this] show ?thesis using Some
      by (auto simp: New s call_new_block new_nothrow_def or_throw_def Let_def)
  qed
next
  case (Delete i)
  obtain held h where s: "s = (held, h)" by fastforce
  show ?thesis
  proof (cases "i < length held")
    case False
    then show ?thesis using refused by (auto simp: Delete s)
  next
    case True
    obtain f p n where x: "held ! i = (f, p, n)" by (cases "held ! i") auto
    let ?q = "p - form_header f" and ?b = "\<lparr>hb_bytes = form_header f + n, hb_size = n\<rparr>"
    have m: "mset held = add_mset (f, p, n) (mset (take i held @ drop (Suc i) held))"
      using mset_nth [OF True] x by simp
    have d: "distinct (map fst (blocks h))" "mset (blocks h) = image_mset block_of (mset held)"
      using assms(2) by (auto simp: held_ok_def s)
    have "(?q, ?b) \<in># mset (blocks h)" unfolding d(2) m by simp
    then have b: "(?q, ?b) \<in> set (blocks h)" by simp
    have "map_of (blocks h) ?q = Some ?b" using b d(1) by simp
    then have step: "mem_step mem c s = Some (take i held @ drop (Suc i) held,
        \<lparr>blocks = filter (\<lambda>b. fst b \<noteq> ?q) (blocks h), metrics = metrics_dealloc n (metrics h)\<rparr>)"
      using True by (simp add: Delete s x call_delete_block delete_block_def Let_def)
    have "mset (blocks h) = add_mset (block_of (f, p, n)) (mset (filter (\<lambda>b. fst b \<noteq> ?q) (blocks h)))"
      using mset_without [OF d(1) b] by simp
    from taken_back [OF m this refl] step show ?thesis unfolding Delete s by blast
  qed
qed

lemma effect_held_ok:
  assumes "call_effect mem c s s'" "held_ok s"
  shows "held_ok s'"
  using assms(1)
proof cases
  case (taken_back held f p n held' h bs' i)
  have "mset (map block_of held') = mset bs'" using assms(2) taken_back(1-5) by (simp add: held_ok_def)
  moreover have "distinct (map fst bs')" using assms(2) taken_back(2,6) by (simp add: held_ok_def distinct_map_filter)
  ultimately show ?thesis using taken_back(3) by (simp add: held_ok_def)
qed (use assms(2) in \<open>simp_all add: held_ok_def\<close>)

lemma mem_run_append: "mem_run mem (cs @ ds) s = Option.bind (mem_run mem cs s) (mem_run mem ds)"
proof (induction cs arbitrary: s)
  case (Cons c cs)
  then show ?case by (cases "mem_step mem c s") simp_all
qed simp

lemma mem_run_rule:
  assumes "fresh_memory mem" "held_ok s" "I s"
    and "\<And>c s s'. call_effect mem c s s' \<Longrightarrow> held_ok s \<Longrightarrow> I s \<Longrightarrow> c \<in> set cs \<Longrightarrow> I s'"
  shows "\<exists>s'. mem_run mem cs s = Some s' \<and> held_ok s' \<and> I s'"
  using assms(2-4)
proof (induction cs arbitrary: s)
  case (Cons c cs)
  obtain s1 where s1: "mem_step mem c s = Some s1" "call_effect mem c s s1"
    using mem_step_effect [OF assms(1) Cons.prems(1)] by blast
  have "\<exists>s'. mem_run mem cs s1 = Some s' \<and> held_ok s' \<and> I s'"
    by (rule Cons.IH [OF effect_held_ok [OF s1(2) Cons.prems(1)] Cons.prems(3) [OF s1(2) Cons.prems(1,2)]])
       (auto intro: Cons.prems(3))
  then show ?case using s1(1) by simp
qed auto

section \<open>The metrics of a client\<close>

definition held_bytes :: "piece list \<Rightarrow> 64 word" where
  "held_bytes held = (\<Sum>x\<in>#mset held. snd (snd x))"

lemma held_bytes_simps [simp]: "held_bytes [] = 0" "held_bytes ((f, p, n) # held) = n + held_bytes held"
  by (simp_all add: held_bytes_def)

lemma held_bytes_taken: "mset held = add_mset (f, p, n) (mset held') \<Longrightarrow> held_bytes held = n + held_bytes held'"
  by (simp add: held_bytes_def)

lemma taken_length: "mset held = add_mset x (mset held') \<Longrightarrow> length held = Suc (length held')"
  by (metis size_add_mset size_mset)

definition counted :: "piece list \<Rightarrow> piece list \<times> heap \<Rightarrow> bool" where
  "counted held0 s \<longleftrightarrow> (let m = metrics (snd s) in
     current_alloc m + held_bytes held0 = held_bytes (fst s) \<and> total_alloc m = total_free m + current_alloc m \<and>
     allocs m + of_nat (length held0) = frees m + of_nat (length (fst s)))"

lemma effect_counted:
  assumes "call_effect mem c s s'" "counted held0 s"
  shows "counted held0 s'"
  using assms(1)
proof cases
  case refused
  then show ?thesis using assms(2) by simp
next
  case (given h f n q held)
  then show ?thesis using assms(2) by (simp add: counted_def metrics_alloc_def Let_def algebra_simps)
next
  case (taken_back held f p n held' h bs' i)
  then show ?thesis
    using assms(2) held_bytes_taken [OF taken_back(4)] taken_length [OF taken_back(4)]
    by (simp add: counted_def metrics_dealloc_def Let_def algebra_simps)
qed

lemma mem_run_held_ok: "fresh_memory mem \<Longrightarrow> \<exists>s. mem_run mem cs new_heap = Some s \<and> held_ok s"
  using mem_run_rule [of mem new_heap "\<lambda>_. True" cs] held_ok_new by auto

text \<open>C38: Whatever a program does, no delete misses its header, and after a reset of the metrics the bytes
  in use are those asked for since, less those given back, blocks that were already there counted as well.\<close>

theorem metrics_count_pieces:
  assumes "fresh_memory mem" "mem_run mem cs0 new_heap = Some (held0, h0)"
  shows "\<exists>held h. mem_run mem cs (held0, reset_alloc h0) = Some (held, h) \<and>
    current_alloc (get_stats h) = held_bytes held - held_bytes held0 \<and>
    total_alloc (get_stats h) - total_free (get_stats h) = current_alloc (get_stats h) \<and>
    allocs (get_stats h) - frees (get_stats h) = of_nat (length held) - of_nat (length held0)"
proof -
  have ok: "held_ok (held0, reset_alloc h0)"
    using mem_run_held_ok [OF assms(1), of cs0] assms(2) by (simp add: held_ok_def reset_alloc_def)
  have "counted held0 (held0, reset_alloc h0)" by (simp add: counted_def reset_alloc_def no_metrics_def)
  from mem_run_rule [of mem _ "counted held0", OF assms(1) ok this] obtain s where
    "mem_run mem cs (held0, reset_alloc h0) = Some s" "counted held0 s"
    using effect_counted by blast
  then show ?thesis by (cases s) (auto simp: counted_def get_stats_def Let_def algebra_simps)
qed

text \<open>The bytes held, as a number.\<close>

definition held_total :: "piece list \<Rightarrow> nat" where
  "held_total held = (\<Sum>x\<in>#mset held. unat (snd (snd x)))"

lemma held_total_simps [simp]: "held_total [] = 0" "held_total ((f, p, n) # held) = unat n + held_total held"
  by (simp_all add: held_total_def)

lemma held_total_taken: "mset held = add_mset (f, p, n) (mset held') \<Longrightarrow> held_total held = unat n + held_total held'"
  by (simp add: held_total_def)

lemma held_bytes_total: "held_bytes held = of_nat (held_total held)"
  by (induction held) (auto simp: held_bytes_def held_total_def)

lemma metrics_alloc_max:
  assumes "current_alloc m + n = of_nat k" "k < 2 ^ 63"
  shows "unat (max_alloc (metrics_alloc n m)) = max k (unat (max_alloc m))"
proof -
  have u: "unat (of_nat k :: 64 word) = k" using assms(2) by (simp add: unat_of_nat)
  have s: "sint (of_nat k :: 64 word) = int k"
    using assms(2) by (simp add: signed_of_nat signed_take_bit_int_eq_self)
  show ?thesis using assms(1) u s
    by (auto simp: metrics_alloc_def Let_def word_less_nat_alt max_def)
qed

lemma effect_max:
  assumes "call_effect mem c s s'" "held_total (fst s') < 2 ^ 63" "counted [] s"
  shows "unat (max_alloc (metrics (snd s'))) = max (held_total (fst s')) (unat (max_alloc (metrics (snd s)))) \<or>
    held_total (fst s') \<le> held_total (fst s) \<and> max_alloc (metrics (snd s')) = max_alloc (metrics (snd s))"
  using assms(1)
proof cases
  case (given h f n q held)
  have "current_alloc (metrics h) + n = of_nat (held_total ((f, 0, n) # held))"
    using assms(3) given by (simp add: counted_def held_bytes_total Let_def add.commute)
  from metrics_alloc_max [OF this] show ?thesis using given assms(2) by simp
next
  case (taken_back held f p n held' h bs' i)
  then show ?thesis using held_total_taken [OF taken_back(4)] by (simp add: metrics_dealloc_def)
qed simp

lemma mem_run_take_all:
  assumes "fresh_memory mem"
  shows "\<exists>s. mem_run mem cs new_heap = Some s \<and> held_ok s \<and> counted [] s"
proof -
  have "counted [] new_heap" by (simp add: counted_def new_heap_def no_metrics_def)
  from mem_run_rule [of mem _ "counted []", OF assms held_ok_new this] show ?thesis using effect_counted by blast
qed

text \<open>The bytes held after the first \<open>i\<close> calls.\<close>

definition held_after :: "c_alloc \<Rightarrow> mem_call list \<Rightarrow> nat \<Rightarrow> nat" where
  "held_after mem cs i = (case mem_run mem (take i cs) new_heap of Some (held, h) \<Rightarrow> held_total held | None \<Rightarrow> 0)"

lemma held_after_all: "mem_run mem cs new_heap = Some (held, h) \<Longrightarrow> length cs \<le> i \<Longrightarrow> held_after mem cs i = held_total held"
  by (simp add: held_after_def)

lemma held_after_append: "i \<le> length cs \<Longrightarrow> held_after mem (cs @ ds) i = held_after mem cs i"
  by (simp add: held_after_def)

lemma max_alloc_run:
  assumes "fresh_memory mem" "\<forall>i \<le> length cs. held_after mem cs i < 2 ^ 63"
    "mem_run mem cs new_heap = Some (held, h)"
  shows "unat (max_alloc (metrics h)) = Max (held_after mem cs ` {..length cs})"
  using assms(2,3)
proof (induction cs arbitrary: held h rule: rev_induct)
  case Nil
  then show ?case by (auto simp: held_after_def new_heap_def no_metrics_def)
next
  case (snoc c cs)
  obtain s1 where s1: "mem_run mem cs new_heap = Some s1" "held_ok s1" "counted [] s1"
    using mem_run_take_all [OF assms(1)] by blast
  have step: "mem_step mem c s1 = Some (held, h)" using snoc.prems(2) s1(1) by (simp add: mem_run_append bind_eq_Some_conv)
  then have eff: "call_effect mem c s1 (held, h)" using mem_step_effect [OF assms(1) s1(2), of c] by simp
  have "\<forall>i \<le> length cs. held_after mem cs i < 2 ^ 63"
    using snoc.prems(1) by (metis held_after_append le_Suc_eq length_append_singleton)
  then have IH: "unat (max_alloc (metrics (snd s1))) = Max (held_after mem cs ` {..length cs})"
    using snoc.IH s1(1) by (cases s1) simp
  have last: "held_after mem (cs @ [c]) (Suc (length cs)) = held_total held"
    by (rule held_after_all [OF snoc.prems(2)]) simp
  have all: "held_after mem (cs @ [c]) ` {..length (cs @ [c])} = insert (held_total held) (held_after mem cs ` {..length cs})"
    using last by (auto simp: atMost_Suc held_after_append image_iff)
  have before: "held_total (fst s1) \<le> Max (held_after mem cs ` {..length cs})"
    using held_after_all [of mem cs "fst s1" "snd s1" "length cs"] s1(1) by (intro Max_ge) (auto simp: image_iff intro!: bexI [of _ "length cs"])
  have bound: "held_total held < 2 ^ 63" using snoc.prems(1) last by force
  have new: "Max (held_after mem (cs @ [c]) ` {..length (cs @ [c])}) = max (held_total held) (Max (held_after mem cs ` {..length cs}))"
    unfolding all by (rule Max_insert) auto
  show ?case using effect_max [OF eff _ s1(3)] bound IH before unfolding new by (auto simp: max_def)
qed

text \<open>As long as the pieces held together stay below \<open>2\<^sup>63\<close> bytes, \<open>max_alloc\<close> is the most
  that was held at one time.\<close>

theorem max_alloc_is_peak:
  assumes "fresh_memory mem" "\<forall>i \<le> length cs. held_after mem cs i < 2 ^ 63"
  shows "\<exists>held h. mem_run mem cs new_heap = Some (held, h) \<and>
    unat (max_alloc (get_stats h)) = Max (held_after mem cs ` {..length cs})"
proof -
  obtain held h where "mem_run mem cs new_heap = Some (held, h)" using mem_run_held_ok [OF assms(1)] by force
  then show ?thesis using max_alloc_run [OF assms] by (auto simp: get_stats_def)
qed

section \<open>Where the pieces lie\<close>

text \<open>What the C functions promise: memory aligned as asked for, apart from the blocks in use.\<close>

definition apart :: "64 word \<Rightarrow> 64 word \<Rightarrow> 64 word \<Rightarrow> 64 word \<Rightarrow> bool" where
  "apart p n q m \<longleftrightarrow> unat p + unat n \<le> unat q \<or> unat q + unat m \<le> unat p"

definition good_memory :: "c_alloc \<Rightarrow> bool" where
  "good_memory mem \<longleftrightarrow> (\<forall>bs al n p. mem bs al n = Some p \<longrightarrow> unat p + unat n < 2 ^ 64 \<and> unat al dvd unat p \<and>
     (\<forall>(q, b)\<in>set bs. p \<noteq> q \<and> apart p n q (hb_bytes b)))"

lemma good_fresh: "good_memory mem \<Longrightarrow> fresh_memory mem"
  by (force simp: good_memory_def fresh_memory_def)

definition asked_ok :: "new_form \<Rightarrow> 64 word \<Rightarrow> bool" where
  "asked_ok f n \<longleftrightarrow> form_align f \<in> set (map (\<lambda>k. 2 ^ k) [0..<64]) \<and> unat n < 2 ^ 63"

lemma sizeof_rounded_powers: "list_all (\<lambda>k. sizeof_rounded (2 ^ k) = (if k < 3 then 8 else 2 ^ k)) [0..<64]"
  by (simp add: sizeof_rounded_def upt_rec)

lemma unat_power2: "k < 64 \<Longrightarrow> unat (2 ^ k :: 64 word) = 2 ^ k"
proof -
  assume "k < 64"
  then have "(2 :: nat) ^ k < 2 ^ 64" by (intro power_strict_increasing) auto
  moreover have "(2 ^ k :: 64 word) = of_nat (2 ^ k)" by simp
  ultimately show ?thesis using unat_of_nat [of "2 ^ k", where 'a = 64] by simp
qed

lemma header_power:
  assumes "asked_ok f n"
  obtains k j where "form_align f = 2 ^ k" "form_header f = 2 ^ j" "k \<le> j" "3 \<le> j" "j < 64"
proof (cases "f = Plain \<or> f = Array")
  case True
  then have "form_align f = 2 ^ 4" "form_header f = 2 ^ 5"
    by (auto simp: form_align_def form_header_def malloc_align_def max_align_size_def sizeof_rounded_def)
  then show ?thesis by (rule that) auto
next
  case False
  obtain k where k: "k < 64" "form_align f = 2 ^ k" using assms by (auto simp: asked_ok_def)
  have "form_header f = sizeof_rounded (form_align f)"
    using False by (cases f) (auto simp: form_align_def form_header_def)
  also have "\<dots> = (if k < 3 then 8 else 2 ^ k)" using sizeof_rounded_powers k by (simp add: list_all_iff)
  also have "\<dots> = 2 ^ max 3 k" by (simp add: max_def)
  finally show ?thesis using k by (intro that [of k "max 3 k"]) simp_all
qed

lemma asked_header:
  assumes "asked_ok f n"
  shows "8 \<le> unat (form_header f)" "unat (form_align f) dvd unat (form_header f)"
    "unat (form_header f + n) = unat (form_header f) + unat n"
proof -
  obtain k j where kj: "form_align f = 2 ^ k" "form_header f = 2 ^ j" "k \<le> j" "3 \<le> j" "j < 64"
    using header_power [OF assms] .
  then have u: "unat (form_align f) = 2 ^ k" "unat (form_header f) = 2 ^ j" using unat_power2 by auto
  have "(2 :: nat) ^ 3 \<le> 2 ^ j" using kj(4) by (intro power_increasing) auto
  then show "8 \<le> unat (form_header f)" using u by simp
  show "unat (form_align f) dvd unat (form_header f)" unfolding u using kj(3) by (rule le_imp_power_dvd)
  have "(2 :: nat) ^ j \<le> 2 ^ 63" using kj(5) by (intro power_increasing) auto
  then show "unat (form_header f + n) = unat (form_header f) + unat n"
    using assms u by (simp add: asked_ok_def unat_word_ariths)
qed

text \<open>The blocks are apart, and each piece lies behind the header of its block.\<close>

definition laid_out :: "piece list \<times> heap \<Rightarrow> bool" where
  "laid_out s \<longleftrightarrow>
     sorted_wrt (\<lambda>(p, a) (q, b). p \<noteq> q \<and> apart p (hb_bytes a) q (hb_bytes b)) (blocks (snd s)) \<and>
     (\<forall>(f, p, n)\<in>set (fst s). asked_ok f n \<and>
        (let q = p - form_header f in
         unat (form_align f) dvd unat q \<and> unat q + unat (form_header f + n) < 2 ^ 64))"

lemma effect_laid_out:
  assumes "call_effect mem c s s'" "good_memory mem" "laid_out s" "\<And>f n. c = New f n \<Longrightarrow> asked_ok f n"
  shows "laid_out s'"
  using assms(1)
proof cases
  case (given h f n q held)
  have "unat q + unat (form_header f + n) < 2 ^ 64" "unat (form_align f) dvd unat q"
    "\<forall>(r, b)\<in>set (blocks h). q \<noteq> r \<and> apart q (form_header f + n) r (hb_bytes b)"
    using assms(2) given(4) unfolding good_memory_def by blast+
  then show ?thesis using assms(3,4) given by (auto simp: laid_out_def Let_def)
next
  case (taken_back held f p n held' h bs' i)
  have "set held' \<subseteq> set held" using taken_back(4) by (metis set_mset_mset set_mset_add_mset_insert subset_insertI)
  then show ?thesis using assms(3) taken_back
    by (auto simp: laid_out_def sorted_wrt_filter)
qed (use assms(3) in simp)

lemma pieces_laid_out:
  assumes "good_memory mem" "\<forall>f n. New f n \<in> set cs \<longrightarrow> asked_ok f n" "mem_run mem cs new_heap = Some s"
  shows "held_ok s \<and> laid_out s"
proof -
  have "laid_out new_heap" by (simp add: laid_out_def new_heap_def)
  from mem_run_rule [of mem _ laid_out cs, OF good_fresh [OF assms(1)] held_ok_new this] obtain s'
    where "mem_run mem cs new_heap = Some s'" "held_ok s'" "laid_out s'"
    using effect_laid_out [OF _ assms(1)] assms(2) by blast
  then show ?thesis using assms(3) by simp
qed

lemma piece_in_block:
  assumes "laid_out s" "held_ok s" "(f, p, n) \<in> set (fst s)"
  shows "unat (form_align f) dvd unat p" "unat p = unat (p - form_header f) + unat (form_header f)"
    "unat (form_header f + n) = unat (form_header f) + unat n"
proof -
  let ?q = "p - form_header f"
  have a: "asked_ok f n" "unat (form_align f) dvd unat ?q" "unat ?q + unat (form_header f + n) < 2 ^ 64"
    using assms(1,3) by (auto simp: laid_out_def Let_def)
  note h = asked_header [OF a(1)]
  show "unat (form_header f + n) = unat (form_header f) + unat n" by (rule h(3))
  have "unat ?q + unat (form_header f) < 2 ^ 64" 
    using a(3) h(3) by simp
  then have "unat (?q + form_header f) = unat ?q + unat (form_header f)"
    using unat_add_lem [of ?q "form_header f"] by simp
  moreover have "?q + form_header f = p" by simp
  ultimately show "unat p = unat ?q + unat (form_header f)" by simp
  then show "unat (form_align f) dvd unat p" using a(2) h(2) by simp
qed

text \<open>Where the \<open>mem_block\<close> of a piece lies.\<close>

fun header_at :: "piece \<Rightarrow> 64 word" where
  "header_at (f, p, n) = p - form_header f"

lemma pieces_apart_aux:
  assumes "held_ok s" "laid_out s" "i < length (fst s)" "j < length (fst s)" "i \<noteq> j"
    "fst s ! i = (f, p, n)" "fst s ! j = (g, r, m)"
  shows "p \<noteq> r \<and> apart p n r m \<and> apart p n (header_at (g, r, m)) 8"
proof -
  let ?bf = "form_header f" and ?bg = "form_header g"
  have ms: "mset (map block_of (fst s)) = mset (blocks (snd s))" using assms(1) by (simp add: held_ok_def)
  have in1: "(f, p, n) \<in> set (fst s)" "(g, r, m) \<in> set (fst s)" using assms(3,4,6,7) nth_mem by metis+
  have d: "distinct (map fst (map block_of (fst s)))"
    using assms(1) ms by (metis held_ok_def mset_eq_imp_distinct_iff mset_map)
  have ne: "p - ?bf \<noteq> r - ?bg"
    using d assms(3-5) unfolding distinct_conv_nth
    by (metis (no_types) assms(6,7) block_of.simps fst_conv length_map nth_map)
  have blk: "(p - ?bf, \<lparr>hb_bytes = ?bf + n, hb_size = n\<rparr>) \<in> set (blocks (snd s))"
    "(r - ?bg, \<lparr>hb_bytes = ?bg + m, hb_size = m\<rparr>) \<in> set (blocks (snd s))"
    using in1 ms by (metis (no_types) block_of.simps image_eqI list.set_map set_mset_mset)+
  have sw: "sorted_wrt (\<lambda>(p, a) (q, b). p \<noteq> q \<and> apart p (hb_bytes a) q (hb_bytes b)) (blocks (snd s))"
    using assms(2) by (simp add: laid_out_def)
  obtain x y where xy: "x < length (blocks (snd s))" "y < length (blocks (snd s))"
    "blocks (snd s) ! x = (p - ?bf, \<lparr>hb_bytes = ?bf + n, hb_size = n\<rparr>)"
    "blocks (snd s) ! y = (r - ?bg, \<lparr>hb_bytes = ?bg + m, hb_size = m\<rparr>)"
    using blk by (metis in_set_conv_nth)
  then have "x \<noteq> y" using ne by auto
  then have "apart (p - ?bf) (?bf + n) (r - ?bg) (?bg + m)"
    using sw xy sorted_wrt_nth_less [OF sw, of x y] sorted_wrt_nth_less [OF sw, of y x]
    by (cases "x < y") (auto simp: apart_def)
  moreover note a = piece_in_block [OF assms(2,1) in1(1)] and b = piece_in_block [OF assms(2,1) in1(2)]
  moreover have "8 \<le> unat ?bf" "8 \<le> unat ?bg"
    using assms(2) in1 by (auto simp: laid_out_def intro: asked_header)
  ultimately show ?thesis unfolding apart_def by auto
qed

lemma own_header:
  assumes "held_ok s" "laid_out s" "(f, p, n) \<in> set (fst s)"
  shows "apart p n (header_at (f, p, n)) 8"
proof -
  have "8 \<le> unat (form_header f)"
    using assms(2,3) by (auto simp: laid_out_def intro: asked_header)
  then show ?thesis using piece_in_block(2) [OF assms(2,1,3)] by (simp add: apart_def)
qed

text \<open>With a C allocator that keeps its promises, powers of two as alignments and sizes below
  \<open>2\<^sup>63\<close>, each piece of memory is aligned as asked for, and no piece meets another or the header in front of one.\<close>

theorem pieces_aligned_apart:
  assumes "good_memory mem" "\<forall>f n. New f n \<in> set cs \<longrightarrow> asked_ok f n" "mem_run mem cs new_heap = Some (held, h)"
    "i < length held" "held ! i = (f, p, n)"
  shows "unat (form_align f) dvd unat p \<and>
    (\<forall>j < length held. apart p n (header_at (held ! j)) 8 \<and>
       (j \<noteq> i \<longrightarrow> (case held ! j of (g, r, m) \<Rightarrow> p \<noteq> r \<and> apart p n r m)))"
proof -
  note ok = pieces_laid_out [OF assms(1-3)]
  have x: "(f, p, n) \<in> set (fst (held, h))" using assms(4,5) by (metis fst_conv nth_mem)
  have "apart p n (header_at (held ! j)) 8 \<and> (j \<noteq> i \<longrightarrow> p \<noteq> fst (snd (held ! j)) \<and> apart p n (fst (snd (held ! j))) (snd (snd (held ! j))))"
    if j: "j < length held" for j
  proof (cases "j = i")
    case True
    then show ?thesis using own_header [OF _ _ x] ok assms(5) by simp
  next
    case False
    obtain g r m where "held ! j = (g, r, m)" by (cases "held ! j") auto
    then show ?thesis using pieces_apart_aux [of "(held, h)" i j f p n g r m] ok assms(4,5) j False by simp
  qed
  then show ?thesis using piece_in_block(1) [OF _ _ x] ok by (auto simp: split_beta)
qed

section \<open>Where the code does not check\<close>

text \<open>A size close to the greatest one wraps when the header is added: the C function is asked for less
  than the header, the header is written behind its end, and the pointer is handed out as if there
  were \<open>2\<^sup>64 - 8\<close> bytes behind it.\<close>

theorem huge_size_wraps:
  assumes "mem [] malloc_align 24 = Some p"
  shows "call_new mem Plain (- 8) \<lparr>blocks = [], metrics = no_metrics\<rparr> =
    (Inr (p + 32), \<lparr>blocks = [(p, \<lparr>hb_bytes = 24, hb_size = - 8\<rparr>)], metrics = metrics_alloc (- 8) no_metrics\<rparr>)"
  using assms by (simp add: call_new_block form_align_def new_nothrow_def or_throw_def Let_def malloc_align_def max_align_size_def form_header_def sizeof_rounded_def)

text \<open>Deleting a null pointer, which does nothing in C++, reads a header in front of it here.\<close>

theorem delete_null_undefined:
  "- 32 \<notin> fst ` set (blocks h) \<Longrightarrow> op_delete 0 h = None"
proof -
  assume "- 32 \<notin> fst ` set (blocks h)"
  then have "map_of (blocks h) (- 32) = None" by (simp add: map_of_eq_None_iff)
  then show ?thesis by (simp add: op_delete_def delete_block_def malloc_align_def max_align_size_def form_header_def sizeof_rounded_def)
qed

section \<open>A C allocator\<close>

text \<open>A pool of three pages, for the examples.\<close>

definition pool :: "64 word list" where
  "pool = [4096, 8192, 12288]"

definition page_alloc :: c_alloc where
  "page_alloc bs al n =
     (if unat n \<le> 4096 \<and> 4096 mod unat al = 0
      then List.find (\<lambda>p. list_all (\<lambda>(q, b). p \<noteq> q \<and> apart p n q (hb_bytes b)) bs) pool else None)"

lemma page_alloc_good: "good_memory page_alloc"
proof -
  have "unat p + unat n < 2 ^ 64 \<and> unat al dvd unat p"
    if "p \<in> set pool" "unat n \<le> 4096" "4096 mod unat al = 0" for p n al :: "64 word"
  proof -
    have d: "unat al dvd 4096" using that(3) by (simp add: mod_eq_0_iff_dvd)
    have "unat p = 4096 * 1 \<or> unat p = 4096 * 2 \<or> unat p = 4096 * 3" using that(1) by (auto simp: pool_def)
    then have "4096 dvd unat p" "unat p \<le> 12288" by (elim disjE; simp)+
    then show ?thesis using that(2) dvd_trans [OF d] by simp
  qed
  note pages = this
  show ?thesis unfolding good_memory_def
  proof (intro allI impI)
    fix bs al n p
    assume "page_alloc bs al n = Some p"
    then have n: "unat n \<le> 4096" "4096 mod unat al = 0"
      and f: "List.find (\<lambda>p. list_all (\<lambda>(q, b). p \<noteq> q \<and> apart p n q (hb_bytes b)) bs) pool = Some p"
      by (auto simp: page_alloc_def split: if_splits)
    from f obtain i where "i < length pool" "pool ! i = p" "list_all (\<lambda>(q, b). p \<noteq> q \<and> apart p n q (hb_bytes b)) bs"
      by (auto simp: find_Some_iff)
    then show "unat p + unat n < 2 ^ 64 \<and> unat al dvd unat p \<and> (\<forall>(q, b)\<in>set bs. p \<noteq> q \<and> apart p n q (hb_bytes b))"
      using pages [OF _ n] nth_mem unfolding list_all_iff by blast
  qed
qed

definition some_calls :: "mem_call list" where
  "some_calls = [New Plain 100, New (Aligned 64) 10, Delete 1, New Array 0]"

lemmas run_simps = call_new_block call_delete_block new_nothrow_def or_throw_def delete_block_def form_align_def malloc_align_def max_align_size_def form_header_def
  sizeof_rounded_def page_alloc_def pool_def apart_def metrics_alloc_def metrics_dealloc_def no_metrics_def new_heap_def

lemma some_calls_run:
  "mem_run page_alloc some_calls new_heap = Some ([(Array, 4128, 0), (Aligned 64, 8256, 10)],
     \<lparr>blocks = [(4096, \<lparr>hb_bytes = 32, hb_size = 0\<rparr>), (8192, \<lparr>hb_bytes = 74, hb_size = 10\<rparr>)],
       metrics = \<lparr>total_alloc = 110, total_free = 100, max_alloc = 110, current_alloc = 10, allocs = 3, frees = 1\<rparr>\<rparr>)"
  by (simp add: some_calls_def run_simps)

theorem metrics_count_pieces_witness:
  "fresh_memory page_alloc \<and> (\<exists>held h. mem_run page_alloc [Delete 0, New Plain 5]
      ([(Array, 4128, 0), (Aligned 64, 8256, 10)], reset_alloc (snd (the (mem_run page_alloc some_calls new_heap)))) = Some (held, h) \<and>
    current_alloc (get_stats h) = held_bytes held - 10)"
  using metrics_count_pieces [OF good_fresh [OF page_alloc_good] some_calls_run, of "[Delete 0, New Plain 5]"]
    good_fresh [OF page_alloc_good] by (auto simp: some_calls_run)

lemma some_calls_held: "\<forall>i \<le> length some_calls. held_after page_alloc some_calls i \<in> {0, 10, 100, 110}"
proof -
  have "\<forall>i \<in> {0, 1, 2, 3, 4}. held_after page_alloc some_calls i \<in> {0, 10, 100, 110}"
    by (simp add: held_after_def some_calls_def run_simps)
  moreover have "i \<in> {0, 1, 2, 3, 4}" if "i \<le> length some_calls" for i using that by (auto simp: some_calls_def)
  ultimately show ?thesis by blast
qed

theorem max_alloc_is_peak_witness:
  "fresh_memory page_alloc \<and> (\<forall>i \<le> length some_calls. held_after page_alloc some_calls i < 2 ^ 63) \<and>
   Max (held_after page_alloc some_calls ` {..length some_calls}) = 110"
proof -
  have "\<forall>i \<le> length some_calls. held_after page_alloc some_calls i < 2 ^ 63" using some_calls_held by fastforce
  then show ?thesis
    using max_alloc_is_peak [OF good_fresh [OF page_alloc_good], of some_calls] good_fresh [OF page_alloc_good]
    by (auto simp: some_calls_run get_stats_def)
qed

lemma some_calls_asked: "\<forall>f n. New f n \<in> set some_calls \<longrightarrow> asked_ok f n"
  by (auto simp: some_calls_def asked_ok_def form_align_def malloc_align_def max_align_size_def form_header_def upt_rec)

theorem pieces_aligned_apart_witness:
  "good_memory page_alloc \<and> 64 dvd unat (8256 :: 64 word) \<and> apart 8256 10 4128 0 \<and> apart 8256 10 4096 8"
  using pieces_aligned_apart [OF page_alloc_good some_calls_asked some_calls_run, of 1 "Aligned 64" 8256 10] page_alloc_good
  by (auto simp: form_align_def malloc_align_def max_align_size_def form_header_def sizeof_rounded_def)

end
