(* ===== verification/MonotonicResource.thy ===== *)
theory MonotonicResource
  imports MemoryMetrics
begin

text \<open>
  The memory resource of the intern tables, \<open>ext_monotonic_resource\<close> in str\_intern.cpp (and, word
  for word, in intern\_varset\_pmr.cpp): memory is cut from the front of blocks of \<open>N\<close> bytes and never
  given back before the resource is destroyed; large requests go to the operators new.  What the
  operators return in a call is an argument of the call.
\<close>

section \<open>The resource\<close>

record monotonic =
  avail :: "64 word"
  mem_ptr :: "64 word"
  mem_blocks :: "64 word list" \<comment> \<open>\<open>mem_\<close>: where the arrays begin\<close>
  mem_large :: "64 word list"

definition monotonic_new :: "64 word \<Rightarrow> 64 word \<Rightarrow> monotonic" where
  "monotonic_new N b = \<lparr>avail = N, mem_ptr = b, mem_blocks = [b], mem_large = []\<rparr>"

text \<open>\<open>std::align\<close>: the aligned pointer and the space behind it, if the bytes fit.\<close>

definition std_align :: "64 word \<Rightarrow> 64 word \<Rightarrow> 64 word \<Rightarrow> 64 word \<Rightarrow> (64 word \<times> 64 word) option" where
  "std_align al bytes ptr space =
     (let p = (ptr - 1 + al) AND (- al); skipped = p - ptr in
      if skipped > space \<or> space - skipped < bytes then None else Some (p, space - skipped))"

definition get_pointer :: "64 word \<Rightarrow> 64 word \<Rightarrow> monotonic \<Rightarrow> 64 word option \<times> monotonic" where
  "get_pointer bytes al r = (case std_align al bytes (mem_ptr r) (avail r) of
     None \<Rightarrow> (None, r)
   | Some (p, space) \<Rightarrow> (Some p, r\<lparr>avail := space - bytes, mem_ptr := p + bytes\<rparr>))"

text \<open>What the operators new give in a call: the large memory or the block, and whether there is a node for
  the list of the large ones.\<close>

record new_answer =
  got :: "64 word option"
  got_node :: bool

definition do_allocate :: "64 word \<Rightarrow> new_answer \<Rightarrow> 64 word \<Rightarrow> 64 word \<Rightarrow> monotonic \<Rightarrow> (new_error + 64 word) \<times> monotonic" where
  "do_allocate N a bytes al r =
     (if bytes > drop_bit 4 N then
        (case got a of
           None \<Rightarrow> (Inl Bad_alloc, r)
         | Some l \<Rightarrow> if got_node a then (Inr l, r\<lparr>mem_large := l # mem_large r\<rparr>) else (Inl Bad_alloc, r))
      else
        let bytes = (if bytes = 0 then 1 else bytes) in
        case get_pointer bytes al r of
          (Some p, r) \<Rightarrow> (Inr p, r)
        | (None, r) \<Rightarrow>
            let r = r\<lparr>avail := N\<rparr> in
            case got a of
              None \<Rightarrow> (Inl Bad_alloc, r)
            | Some b \<Rightarrow>
                (case get_pointer bytes al (r\<lparr>mem_blocks := b # mem_blocks r, mem_ptr := b\<rparr>) of
                   (Some p, r) \<Rightarrow> (Inr p, r)
                 | (None, r) \<Rightarrow> (Inl Bad_alloc, r)))"

definition do_deallocate :: "64 word \<Rightarrow> 64 word \<Rightarrow> 64 word \<Rightarrow> monotonic \<Rightarrow> monotonic" where
  "do_deallocate p bytes al r = r"

text \<open>The destructor over the operators of \<open>MemoryMetrics\<close>; the arrays are freed by their list.\<close>

fun delete_all :: "64 word list \<Rightarrow> heap \<Rightarrow> heap option" where
  "delete_all [] h = Some h"
| "delete_all (p # ps) h = Option.bind (op_delete_array p h) (delete_all ps)"

definition monotonic_destroy :: "monotonic \<Rightarrow> heap \<Rightarrow> heap option" where
  "monotonic_destroy r h = delete_all (mem_large r) h"

section \<open>Aligning\<close>

definition inside :: "64 word \<Rightarrow> 64 word \<Rightarrow> 64 word \<Rightarrow> 64 word \<Rightarrow> bool" where
  "inside p n q m \<longleftrightarrow> unat q \<le> unat p \<and> unat p + unat n \<le> unat q + unat m"

lemma apart_sym: "apart p n q m \<longleftrightarrow> apart q m p n"
  by (auto simp: apart_def)

lemma apart_inside: "apart q m r k \<Longrightarrow> inside p n q m \<Longrightarrow> apart p n r k"
  by (auto simp: apart_def inside_def)

lemma inside_trans: "inside p n q m \<Longrightarrow> inside q m r k \<Longrightarrow> inside p n r k"
  by (auto simp: inside_def)

lemma std_align_Some:
  assumes "std_align al bytes ptr space = Some (p, space')" "unat ptr + unat space < 2 ^ 64"
  shows "unat p = unat ptr + (unat space - unat space')" "unat space' \<le> unat space" "unat bytes \<le> unat space'"
proof -
  define d where "d = p - ptr"
  from assms(1) have d: "\<not> d > space" "\<not> space' < bytes" "space' = space - d"
    by (auto simp: std_align_def Let_def d_def split: if_splits)
  then have le: "unat d \<le> unat space" by (simp add: word_less_nat_alt)
  then have s: "unat space' = unat space - unat d" using d(3) by (simp add: unat_sub word_le_nat_alt)
  show "unat space' \<le> unat space" using s by simp
  show "unat bytes \<le> unat space'" using d(2) by (simp add: word_less_nat_alt)
  have "unat (ptr + d) = unat ptr + unat d" using unat_add_lem [of ptr d] le assms(2) by simp
  moreover have "ptr + d = p" by (simp add: d_def)
  ultimately show "unat p = unat ptr + (unat space - unat space')" using s le by simp
qed

lemma std_align_aligned:
  assumes "std_align (2 ^ k) bytes ptr space = Some (p, space')"
  shows "2 ^ k dvd unat p"
proof -
  have "p = (ptr - 1 + 2 ^ k) AND NOT (mask k)"
    using assms by (auto simp: std_align_def Let_def minus_exp_eq_not_mask split: if_splits)
  then have "p AND mask k = 0" by (simp add: and.assoc)
  then show ?thesis by (simp add: and_mask_dvd_nat)
qed

lemma std_align_fits:
  assumes "k < 64" "unat bytes + 2 ^ k \<le> unat space + 1"
  shows "std_align (2 ^ k) bytes ptr space \<noteq> None"
proof -
  let ?x = "ptr - 1 + 2 ^ k" let ?d = "(?x AND - (2 ^ k)) - ptr"
  have x: "?x = ptr + mask k" by (simp add: mask_eq_exp_minus_1)
  have "(?x AND mask k) + (?x AND NOT (mask k)) = (?x AND mask k) OR (?x AND NOT (mask k))"
    by (rule disjunctive_add) (auto simp: bit_simps)
  also have "\<dots> = ?x" by (rule bit_eqI) (auto simp: bit_simps)
  finally have "(?x AND mask k) + (?x AND NOT (mask k)) = ?x" .
  then have "?x AND NOT (mask k) = ?x - (?x AND mask k)" by (simp add: eq_diff_eq add.commute)
  then have "?d = mask k - (?x AND mask k)" unfolding x by (simp add: minus_exp_eq_not_mask)
  moreover have "?x AND mask k \<le> mask k" by (rule word_and_le1)
  ultimately have "?d \<le> mask k" by (simp add: word_sub_le)
  then have "unat ?d \<le> unat (mask k :: 64 word)" by (simp add: word_le_nat_alt)
  also have "\<dots> = 2 ^ k - 1"
  proof -
    have "unat (2 ^ k :: 64 word) \<noteq> 0" using unat_power2 [OF assms(1)] by simp
    then have "(2 ^ k :: 64 word) \<noteq> 0" by (metis unat_0)
    then show ?thesis using unat_power2 [OF assms(1)] by (simp add: mask_eq_exp_minus_1 unat_minus_one)
  qed
  finally have d: "unat ?d + 1 \<le> 2 ^ k" using zero_less_power [of "2 :: nat" k] by linarith
  then have le: "unat ?d \<le> unat space" using assms(2) by simp
  have "\<not> ?d > space" using le by (simp add: word_less_nat_alt)
  moreover have "\<not> space - ?d < bytes"
    using le d assms(2) by (simp add: word_less_nat_alt unat_sub word_le_nat_alt)
  ultimately show ?thesis by (simp add: std_align_def Let_def)
qed

section \<open>A client\<close>

record request =
  rq_bytes :: "64 word"
  rq_align :: "64 word"
  rq_answer :: new_answer

text \<open>The resource, the memory it has given away and the memory it has got from the operators, the last
  one first.  A request asks the operators when it is large and when a block is used up.\<close>

type_synonym regions = "(64 word \<times> 64 word) list"

definition given_bytes :: "request \<Rightarrow> 64 word" where
  "given_bytes q = (if rq_bytes q = 0 then 1 else rq_bytes q)"

definition asks_new :: "64 word \<Rightarrow> request \<Rightarrow> monotonic \<Rightarrow> bool" where
  "asks_new N q r \<longleftrightarrow> rq_bytes q > drop_bit 4 N \<or>
     fst (get_pointer (given_bytes q) (rq_align q) r) = None"

definition asked_bytes :: "64 word \<Rightarrow> request \<Rightarrow> 64 word" where
  "asked_bytes N q = (if rq_bytes q > drop_bit 4 N then rq_bytes q else N)"

definition mono_step :: "64 word \<Rightarrow> request \<Rightarrow> monotonic \<times> regions \<times> regions \<Rightarrow> monotonic \<times> regions \<times> regions" where
  "mono_step N q = (\<lambda>(r, given, owned).
     let owned' = (if asks_new N q r then (case got (rq_answer q) of None \<Rightarrow> owned | Some b \<Rightarrow> (b, asked_bytes N q) # owned)
                   else owned) in
     case do_allocate N (rq_answer q) (rq_bytes q) (rq_align q) r of
       (Inl e, r') \<Rightarrow> (r', given, owned')
     | (Inr p, r') \<Rightarrow> (r', (p, given_bytes q) # given, owned'))"

definition mono_run :: "64 word \<Rightarrow> request list \<Rightarrow> 64 word \<Rightarrow> monotonic \<times> regions \<times> regions" where
  "mono_run N qs b = fold (mono_step N) qs (monotonic_new N b, [], [(b, N)])"

text \<open>What the operators promise, and that they do not fail.\<close>

definition new_ok :: "64 word \<Rightarrow> request \<Rightarrow> regions \<Rightarrow> bool" where
  "new_ok N q owned \<longleftrightarrow> (\<exists>b. got (rq_answer q) = Some b \<and> unat b + unat (asked_bytes N q) < 2 ^ 64 \<and>
     (rq_bytes q > drop_bit 4 N \<longrightarrow> unat (rq_align q) dvd unat b) \<and>
     (\<forall>(p, n)\<in>set owned. apart b (asked_bytes N q) p n \<and> b \<noteq> p)) \<and> (\<exists>k < 64. rq_align q = 2 ^ k)"

fun all_new_ok :: "64 word \<Rightarrow> request list \<Rightarrow> monotonic \<times> regions \<times> regions \<Rightarrow> bool" where
  "all_new_ok N [] s = True"
| "all_new_ok N (q # qs) s = (new_ok N q (snd (snd s)) \<and> all_new_ok N qs (mono_step N q s))"

section \<open>What is given away\<close>

text \<open>The invariant: the rest of the newest block is not given away yet, and nothing is given away twice.\<close>

definition mono_ok :: "64 word \<Rightarrow> monotonic \<times> regions \<times> regions \<Rightarrow> bool" where
  "mono_ok N s \<longleftrightarrow> (case s of (r, given, owned) \<Rightarrow>
     (\<exists>b rest. mem_blocks r = b # rest \<and> (b, N) \<in> set owned \<and> inside (mem_ptr r) (avail r) b N) \<and>
     (\<forall>(b, n)\<in>set owned. unat b + unat n < 2 ^ 64) \<and>
     sorted_wrt (\<lambda>(p, n) (q, m). apart p n q m) given \<and>
     (\<forall>(p, n)\<in>set given. 0 < n \<and> apart p n (mem_ptr r) (avail r) \<and> (\<exists>(b, m)\<in>set owned. inside p n b m)))"

lemma get_pointer_ok:
  assumes "get_pointer bytes al r = (Some p, r')" "inside (mem_ptr r) (avail r) b N" "unat b + unat N < 2 ^ 64"
  shows "inside p bytes (mem_ptr r) (avail r)" "inside (mem_ptr r') (avail r') (mem_ptr r) (avail r)"
    "apart p bytes (mem_ptr r') (avail r')" "mem_blocks r' = mem_blocks r"
proof -
  obtain space where a: "std_align al bytes (mem_ptr r) (avail r) = Some (p, space)"
    and r': "r' = r\<lparr>avail := space - bytes, mem_ptr := p + bytes\<rparr>"
    using assms(1) by (auto simp: get_pointer_def split: option.splits)
  have room: "unat (mem_ptr r) + unat (avail r) < 2 ^ 64" using assms(2,3) by (simp add: inside_def)
  note s = std_align_Some [OF a room]
  have "unat p + unat bytes < 2 ^ 64" using s room by linarith
  then have e: "unat (p + bytes) = unat p + unat bytes" using unat_add_lem [of p bytes] by simp
  have f: "unat (space - bytes) = unat space - unat bytes" using s(3) by (simp add: unat_sub word_le_nat_alt)
  show "inside p bytes (mem_ptr r) (avail r)" using s by (auto simp: inside_def)
  show "inside (mem_ptr r') (avail r') (mem_ptr r) (avail r)" using s e f by (auto simp: inside_def r')
  show "apart p bytes (mem_ptr r') (avail r')" using e by (simp add: apart_def r')
  show "mem_blocks r' = mem_blocks r" by (simp add: r')
qed

lemma get_pointer_None: "get_pointer bytes al r = (None, r') \<Longrightarrow> r' = r"
  by (auto simp: get_pointer_def split: option.splits)

lemma get_pointer_aligned: "get_pointer bytes (2 ^ k) r = (Some p, r') \<Longrightarrow> k < 64 \<Longrightarrow> unat (2 ^ k :: 64 word) dvd unat p"
  by (auto simp: get_pointer_def unat_power2 split: option.splits intro: std_align_aligned)

text \<open>A successful cut keeps the invariant.\<close>

lemma cut_ok:
  assumes "mono_ok N (r, given, owned)" "get_pointer n al r = (Some p, r')" "0 < n"
  shows "mono_ok N (r', (p, n) # given, owned)"
proof -
  obtain b rest where b: "mem_blocks r = b # rest" "(b, N) \<in> set owned" "inside (mem_ptr r) (avail r) b N"
    using assms(1) by (auto simp: mono_ok_def)
  have "unat b + unat N < 2 ^ 64" using assms(1) b(2) by (auto simp: mono_ok_def)
  note g = get_pointer_ok [OF assms(2) b(3) this]
  have old: "apart x m (mem_ptr r') (avail r')" "apart p n x m" if "(x, m) \<in> set given" for x m
  proof -
    have "apart x m (mem_ptr r) (avail r)" using assms(1) that by (auto simp: mono_ok_def)
    then show "apart x m (mem_ptr r') (avail r')" "apart p n x m"
      using apart_inside [OF _ g(2)] apart_inside [OF _ g(1)] by (metis apart_sym)+
  qed
  have "inside (mem_ptr r') (avail r') b N" "inside p n b N"
    using inside_trans [OF g(2) b(3)] inside_trans [OF g(1) b(3)] .
  then show ?thesis using assms(1,3) b(1,2) g(3,4) old unfolding mono_ok_def by auto
qed

lemma block_ok:
  assumes "mono_ok N (r, given, owned)" "unat b + unat N < 2 ^ 64" "\<forall>(p, n)\<in>set owned. apart b N p n"
  shows "mono_ok N (r\<lparr>avail := N, mem_blocks := b # mem_blocks r, mem_ptr := b\<rparr>, given, (b, N) # owned)"
proof -
  have "apart p n b N" if "(p, n) \<in> set given" for p n
  proof -
    obtain c m where c: "(c, m) \<in> set owned" "inside p n c m" using assms(1) \<open>(p, n) \<in> set given\<close> by (auto simp: mono_ok_def)
    then have "apart c m b N" using assms(3) by (auto simp: apart_sym)
    then show ?thesis using apart_inside c(2) by blast
  qed
  moreover have "inside b N b N" by (simp add: inside_def)
  ultimately show ?thesis using assms(1,2) unfolding mono_ok_def by auto
qed

lemma large_ok:
  assumes "mono_ok N (r, given, owned)" "unat b + unat n < 2 ^ 64" "\<forall>(p, m)\<in>set owned. apart b n p m" "0 < n"
  shows "mono_ok N (r\<lparr>mem_large := l\<rparr>, (b, n) # given, (b, n) # owned)" "mono_ok N (r, given, (b, n) # owned)"
proof -
  have new: "apart b n x y" if "inside x y p m" "(p, m) \<in> set owned" for p m x y
    using apart_inside [of p m b n x y] assms(3) that by (auto simp: apart_sym)
  have "apart b n (mem_ptr r) (avail r)" using assms(1) new by (auto simp: mono_ok_def)
  moreover have "apart b n p m" if "(p, m) \<in> set given" for p m using assms(1) new that by (fastforce simp: mono_ok_def)
  moreover have "inside b n b n" by (simp add: inside_def)
  ultimately show "mono_ok N (r\<lparr>mem_large := l\<rparr>, (b, n) # given, (b, n) # owned)"
    using assms(1,2,4) unfolding mono_ok_def by auto
  show "mono_ok N (r, given, (b, n) # owned)" using assms(1,2) unfolding mono_ok_def by auto
qed

lemma mono_step_ok:
  assumes "mono_ok N s" "new_ok N q (snd (snd s))"
  shows "mono_ok N (mono_step N q s)"
proof -
  obtain r given owned where s: "s = (r, given, owned)" by (cases s) auto
  obtain b where b: "got (rq_answer q) = Some b" "unat b + unat (asked_bytes N q) < 2 ^ 64"
      "\<forall>(p, n)\<in>set owned. apart b (asked_bytes N q) p n"
    using assms(2) by (fastforce simp: new_ok_def s)
  note ok = assms(1) [unfolded s]
  let ?n = "given_bytes q"
  have n: "0 < ?n" by (auto simp: given_bytes_def word_gt_0)
  show ?thesis
  proof (cases "rq_bytes q > drop_bit 4 N")
    case True
    then have g: "given_bytes q = rq_bytes q" by (auto simp: given_bytes_def)
    have "asked_bytes N q = ?n" using True g by (simp add: asked_bytes_def)
    with b have "unat b + unat ?n < 2 ^ 64" "\<forall>(p, m)\<in>set owned. apart b ?n p m" by simp_all
    note l = large_ok [OF ok this n]
    show ?thesis using True b(1) l g by (simp add: s mono_step_def asks_new_def asked_bytes_def do_allocate_def)
  next
    case False
    then have a: "asked_bytes N q = N" by (simp add: asked_bytes_def)
    have gb: "(if rq_bytes q = 0 then 1 else rq_bytes q) = ?n" by (simp add: given_bytes_def)
    obtain o1 r1 where g: "get_pointer ?n (rq_align q) r = (o1, r1)" by fastforce
    show ?thesis
    proof (cases o1)
      case (Some p)
      then show ?thesis using False g cut_ok [OF ok g [unfolded Some] n]
        by (simp add: s mono_step_def asks_new_def do_allocate_def Let_def gb)
    next
      case None
      let ?r = "r\<lparr>avail := N, mem_blocks := b # mem_blocks r, mem_ptr := b\<rparr>"
      have blk: "mono_ok N (?r, given, (b, N) # owned)" using block_ok [OF ok] b a by simp
      have r1: "r1 = r" using get_pointer_None g None by blast
      obtain o2 r2 where g2: "get_pointer ?n (rq_align q) ?r = (o2, r2)" by fastforce
      show ?thesis
      proof (cases o2)
        case (Some p)
        then show ?thesis using False g g2 None r1 b(1) a cut_ok [OF blk g2 [unfolded Some] n]
          by (simp add: s mono_step_def asks_new_def do_allocate_def Let_def gb)
      next
        case none2: None
        then have "r2 = ?r" using get_pointer_None g2 by blast
        then show ?thesis using False g g2 None none2 r1 b(1) a blk
          by (simp add: s mono_step_def asks_new_def do_allocate_def Let_def gb)
      qed
    qed
  qed
qed

lemma mono_new_ok: "unat b + unat N < 2 ^ 64 \<Longrightarrow> mono_ok N (monotonic_new N b, [], [(b, N)])"
  by (simp add: mono_ok_def monotonic_new_def inside_def)

lemma mono_fold_ok: "mono_ok N s \<Longrightarrow> all_new_ok N qs s \<Longrightarrow> mono_ok N (fold (mono_step N) qs s)"
proof (induction qs arbitrary: s)
  case (Cons q qs)
  then show ?case using mono_step_ok [of N s q] by simp
qed simp

lemma all_new_append: "all_new_ok N (qs @ ps) s \<longleftrightarrow> all_new_ok N qs s \<and> all_new_ok N ps (fold (mono_step N) qs s)"
  by (induction qs arbitrary: s) auto

lemma allocate_aligned:
  assumes "do_allocate N (rq_answer q) (rq_bytes q) (rq_align q) r = (Inr p, r')" "new_ok N q owned"
  shows "unat (rq_align q) dvd unat p"
proof -
  obtain k where k: "k < 64" "rq_align q = 2 ^ k" using assms(2) by (auto simp: new_ok_def)
  have large: "unat (2 ^ k :: 64 word) dvd unat b" if "rq_bytes q > drop_bit 4 N" "got (rq_answer q) = Some b" for b
    using assms(2) that k(2) by (auto simp: new_ok_def)
  show ?thesis using assms(1) k(1) unfolding k(2)
    by (auto simp: do_allocate_def Let_def intro: large get_pointer_aligned split: if_splits option.splits prod.splits)
qed

text \<open>C37: As long as the operators new do not fail, each piece of memory the resource gives away is aligned
  as asked for, lies in memory the resource owns, and meets no piece given away before; its address
  is a new one, for a request of no bytes as well.\<close>

theorem monotonic_gives_new:
  assumes "unat b + unat N < 2 ^ 64" "all_new_ok N (qs @ [q]) (monotonic_new N b, [], [(b, N)])"
    "mono_run N qs b = (r, given, owned)" "do_allocate N (rq_answer q) (rq_bytes q) (rq_align q) r = (Inr p, r')"
  shows "unat (rq_align q) dvd unat p \<and> (\<forall>(x, n)\<in>set given. apart p (given_bytes q) x n \<and> p \<noteq> x) \<and>
    (\<exists>(c, m)\<in>set (snd (snd (mono_run N (qs @ [q]) b))). inside p (given_bytes q) c m)"
proof -
  let ?s = "mono_run N qs b"
  have run: "mono_run N (qs @ [q]) b = mono_step N q ?s" by (simp add: mono_run_def)
  have new: "new_ok N q owned" and ok: "mono_ok N ?s"
    using assms(2,3) mono_fold_ok [OF mono_new_ok [OF assms(1)], of qs]
    by (auto simp: all_new_append mono_run_def)
  obtain owned' where step: "mono_step N q ?s = (r', (p, given_bytes q) # given, owned')"
    using assms(3,4) by (simp add: mono_step_def)
  have ok': "mono_ok N (mono_step N q ?s)" using mono_step_ok [OF ok] new assms(3) by simp
  have sizes: "0 < n" if "(x, n) \<in> set ((p, given_bytes q) # given)" for x n
    using ok' that unfolding step mono_ok_def by auto
  have "apart p (given_bytes q) x n" if "(x, n) \<in> set given" for x n
    using ok' that unfolding step mono_ok_def by auto
  moreover have "p \<noteq> x" if "(x, n) \<in> set given" for x n
    using calculation [OF that] sizes [of x n] sizes [of p "given_bytes q"] that
    by (auto simp: apart_def word_less_nat_alt)
  moreover have "\<exists>(c, m)\<in>set owned'. inside p (given_bytes q) c m"
    using ok' unfolding step mono_ok_def by auto
  ultimately show ?thesis using allocate_aligned [OF assms(4) new] by (auto simp: run step)
qed

text \<open>A request of at most a sixteenth of a block, aligned to at most that, only fails when the
  operators fail.\<close>

theorem monotonic_small_served:
  assumes "got (rq_answer q) = Some b" "rq_bytes q \<le> drop_bit 4 N" "rq_align q = 2 ^ k" "rq_align q \<le> drop_bit 4 N" "k < 64"
  shows "\<exists>p r'. do_allocate N (rq_answer q) (rq_bytes q) (rq_align q) r = (Inr p, r')"
proof -
  let ?n = "if rq_bytes q = 0 then 1 else rq_bytes q"
  have d: "unat (drop_bit 4 N) = unat N div 16" by (simp add: drop_bit_eq_div unat_div)
  have al: "2 ^ k \<le> unat N div 16" using assms(3-5) d unat_power2 [of k] by (simp add: word_le_nat_alt)
  then have "0 < unat N div 16" using zero_less_power [of "2 :: nat" k] by linarith
  then have "unat ?n \<le> unat N div 16" using assms(2) d by (auto simp: word_le_nat_alt)
  then have "unat ?n + 2 ^ k \<le> unat N + 1" using al by linarith
  from std_align_fits [OF assms(5) this] obtain p space where "std_align (2 ^ k) ?n b N = Some (p, space)"
    by fast
  moreover have "\<not> drop_bit 4 N < rq_bytes q" using assms(2) by simp
  ultimately show ?thesis using assms(1,3)
    by (cases "std_align (2 ^ k) ?n (mem_ptr r) (avail r)") (auto simp: do_allocate_def get_pointer_def Let_def)
qed

section \<open>Where the resource goes wrong\<close>

lemma allocate_small_fails:
  assumes "bytes \<noteq> 0" "\<not> drop_bit 4 N < bytes" "got a = None"
  shows "do_allocate N a bytes al r = (case std_align al bytes (mem_ptr r) (avail r) of
    None \<Rightarrow> (Inl Bad_alloc, r\<lparr>avail := N\<rparr>)
  | Some (p, space) \<Rightarrow> (Inr p, r\<lparr>avail := space - bytes, mem_ptr := p + bytes\<rparr>))"
  using assms by (simp add: do_allocate_def get_pointer_def split: option.split)

lemma allocate_small_cut:
  "bytes \<noteq> 0 \<Longrightarrow> \<not> drop_bit 4 N < bytes \<Longrightarrow> std_align al bytes (mem_ptr r) (avail r) = Some (p, space) \<Longrightarrow>
   do_allocate N a bytes al r = (Inr p, r\<lparr>avail := space - bytes, mem_ptr := p + bytes\<rparr>)"
  by (simp add: do_allocate_def get_pointer_def)

text \<open>When a new block cannot be allocated, the exception leaves the resource with the whole size of a block
  as its rest, but with the old pointer: the same request again is served, with memory behind the end of
  the old block.\<close>

theorem failure_overruns_block:
  fixes b :: "64 word"
  assumes "unat (mem_ptr r) + unat (avail r) = unat b + unat N" "unat (mem_ptr r) + unat N < 2 ^ 64"
    "bytes \<noteq> 0" "bytes \<le> drop_bit 4 N" "al = 2 ^ k" "al \<le> drop_bit 4 N" "k < 64"
    "do_allocate N \<lparr>got = None, got_node = nd\<rparr> bytes al r = (Inl Bad_alloc, r')"
  shows "\<exists>p r''. do_allocate N a bytes al r' = (Inr p, r'') \<and> unat b + unat N < unat p + unat bytes"
proof -
  let ?ptr = "mem_ptr r"
  have d: "unat (drop_bit 4 N) = unat N div 16" by (simp add: drop_bit_eq_div unat_div)
  have small: "\<not> drop_bit 4 N < bytes" using assms(4) by simp
  have r': "r' = r\<lparr>avail := N\<rparr>" and none: "std_align al bytes ?ptr (avail r) = None"
    using assms(8) allocate_small_fails [OF assms(3) small, of "\<lparr>got = None, got_node = nd\<rparr>" al r]
    by (auto split: option.splits)
  have al: "2 ^ k \<le> unat N div 16" "unat bytes \<le> unat N div 16"
    using assms(4-7) d unat_power2 [of k] by (simp_all add: word_le_nat_alt)
  then have "unat bytes + 2 ^ k \<le> unat N + 1" by linarith
  from std_align_fits [OF assms(7) this] obtain p space where p: "std_align al bytes ?ptr N = Some (p, space)"
    unfolding assms(5) by fast
  note s = std_align_Some [OF p assms(2)]
  have p2: "p = (?ptr - 1 + al) AND (- al)" "space = N - (p - ?ptr)"
    using p by (auto simp: std_align_def Let_def split: if_splits)
  have "unat b + unat N < unat p + unat bytes"
  proof (cases "p - ?ptr > avail r")
    case True
    then have "unat (avail r) < unat (p - ?ptr)" by (simp add: word_less_nat_alt)
    moreover have "unat (p - ?ptr) = unat p - unat ?ptr" using s by (simp add: unat_sub word_le_nat_alt)
    ultimately show ?thesis using assms(1) by linarith
  next
    case False
    then have "avail r - (p - ?ptr) < bytes" using none unfolding p2(1) by (auto simp: std_align_def Let_def split: if_splits)
    moreover have "unat (p - ?ptr) = unat p - unat ?ptr" using s by (simp add: unat_sub word_le_nat_alt)
    moreover have "unat (p - ?ptr) \<le> unat (avail r)" using False by (simp add: word_less_nat_alt)
    ultimately have "unat (avail r) - (unat p - unat ?ptr) < unat bytes" "unat p - unat ?ptr \<le> unat (avail r)"
      by (simp_all add: word_less_nat_alt unat_sub word_le_nat_alt)
    then show ?thesis using s(1) assms(1) by linarith
  qed
  then show ?thesis using allocate_small_cut [OF assms(3) small, of al r' p space a] p by (auto simp: r')
qed

theorem failure_overruns_block_witness:
  "\<exists>p r'. do_allocate 131072 \<lparr>got = None, got_node = True\<rparr> 100 8
     (snd (do_allocate 131072 \<lparr>got = None, got_node = True\<rparr> 100 8
        \<lparr>avail = 8, mem_ptr = 1179640, mem_blocks = [1048576], mem_large = []\<rparr>)) = (Inr p, r') \<and> 1179648 < unat p + 100"
proof -
  let ?r = "\<lparr>avail = 8, mem_ptr = 1179640, mem_blocks = [1048576], mem_large = []\<rparr>"
  have fail: "do_allocate 131072 \<lparr>got = None, got_node = True\<rparr> 100 8 ?r = (Inl Bad_alloc, ?r\<lparr>avail := 131072\<rparr>)"
    by (simp add: do_allocate_def get_pointer_def std_align_def Let_def drop_bit_eq_div)
  have "8 = (2 :: 64 word) ^ 3" by simp
  from failure_overruns_block [OF _ _ _ _ this _ _ fail, of 1048576 "\<lparr>got = None, got_node = True\<rparr>"]
  have "\<exists>p r''. do_allocate 131072 \<lparr>got = None, got_node = True\<rparr> 100 8 (?r\<lparr>avail := 131072\<rparr>) = (Inr p, r'') \<and>
      unat (1048576 :: 64 word) + unat (131072 :: 64 word) < unat p + unat (100 :: 64 word)"
    by (simp only: drop_bit_eq_div) (simp del: ex_simps)
  then show ?thesis unfolding fail by simp
qed

text \<open>The destructor gives every large piece back with the plain \<open>operator delete[]\<close>, also those that came from
  the aligned \<open>operator new[]\<close>: with the operators of the benchmark the header is then read in the wrong place.\<close>

theorem destroy_misses_aligned:
  assumes "good_memory mem" "asked_ok (Array_aligned al) bytes" "32 < al" "bytes > drop_bit 4 N"
    "op_new_array_aligned mem bytes al h = (Inr p, h')" "do_allocate N \<lparr>got = Some p, got_node = True\<rparr> bytes al r = (Inr p, r')"
  shows "monotonic_destroy r' h' = None"
proof -
  let ?hd = "form_header (Array_aligned al)"
  obtain q where q: "mem (blocks h) al (?hd + bytes) = Some q" and p: "p = q + ?hd"
    and h': "blocks h' = (q, \<lparr>hb_bytes = ?hd + bytes, hb_size = bytes\<rparr>) # blocks h"
    using assms(5) by (auto simp: op_new_array_aligned_def op_new_array_aligned_nothrow_def new_nothrow_def or_throw_def
        form_header_def Let_def split: option.splits)
  note hd = asked_header [OF assms(2)]
  have "unat al dvd unat ?hd" using hd(2) by (simp add: form_align_def)
  then have "unat al \<le> unat ?hd" using hd(1) by (intro dvd_imp_le) auto
  then have big: "32 < unat ?hd" using assms(3) by (simp add: word_less_nat_alt)
  have room: "unat q + unat (?hd + bytes) < 2 ^ 64" using assms(1) q by (auto simp: good_memory_def)
  then have up: "unat p = unat q + unat ?hd" using unat_add_lem [of q ?hd] hd(3) unfolding p by simp
  then have "unat (p - 32) = unat q + unat ?hd - 32" using big by (simp add: unat_sub word_le_nat_alt)
  then have mid: "unat q < unat (p - 32)" "unat (p - 32) < unat q + unat (?hd + bytes)" using big hd(3) by linarith+
  have "p - 32 \<notin> fst ` set (blocks h')"
  proof
    assume "p - 32 \<in> fst ` set (blocks h')"
    then obtain b where b: "(p - 32, b) \<in> set (blocks h)" using mid(1) by (auto simp: h')
    have "\<forall>(x, b)\<in>set (blocks h). apart q (?hd + bytes) x (hb_bytes b)" using assms(1) q by (fastforce simp: good_memory_def)
    with b have "apart q (?hd + bytes) (p - 32) (hb_bytes b)" by auto
    then show False using mid by (simp add: apart_def)
  qed
  then have "map_of (blocks h') (p - 32) = None" by (simp add: map_of_eq_None_iff)
  moreover have "mem_large r' = p # mem_large r" using assms(4,6) by (auto simp: do_allocate_def)
  ultimately show ?thesis
    by (simp add: monotonic_destroy_def op_delete_array_def delete_block_def max_align_size_def sizeof_rounded_def)
qed

theorem destroy_misses_aligned_witness:
  "good_memory page_alloc \<and> monotonic_destroy
     (snd (do_allocate 1024 \<lparr>got = Some 4160, got_node = True\<rparr> 100 64 (monotonic_new 1024 65536)))
     (snd (op_new_array_aligned page_alloc 100 64 \<lparr>blocks = [], metrics = no_metrics\<rparr>)) = None"
proof -
  have a: "asked_ok (Array_aligned 64) 100"
    by (simp add: asked_ok_def form_align_def upt_rec)
  have n: "op_new_array_aligned page_alloc 100 64 \<lparr>blocks = [], metrics = no_metrics\<rparr> =
      (Inr 4160, snd (op_new_array_aligned page_alloc 100 64 \<lparr>blocks = [], metrics = no_metrics\<rparr>))"
    by (simp add: op_new_array_aligned_def op_new_array_aligned_nothrow_def run_simps)
  have d: "do_allocate 1024 \<lparr>got = Some 4160, got_node = True\<rparr> 100 64 (monotonic_new 1024 65536) =
      (Inr 4160, snd (do_allocate 1024 \<lparr>got = Some 4160, got_node = True\<rparr> 100 64 (monotonic_new 1024 65536)))"
    by (simp add: do_allocate_def drop_bit_eq_div)
  show ?thesis using destroy_misses_aligned [OF page_alloc_good a _ _ n d] page_alloc_good
    by (simp add: drop_bit_eq_div)
qed

section \<open>Examples\<close>

definition some_requests :: "request list" where
  "some_requests = [\<lparr>rq_bytes = 10, rq_align = 8, rq_answer = \<lparr>got = Some 8192, got_node = True\<rparr>\<rparr>,
     \<lparr>rq_bytes = 0, rq_align = 1, rq_answer = \<lparr>got = Some 8192, got_node = True\<rparr>\<rparr>,
     \<lparr>rq_bytes = 100, rq_align = 32, rq_answer = \<lparr>got = Some 8192, got_node = True\<rparr>\<rparr>]"

lemmas request_simps = some_requests_def mono_step_def asks_new_def asked_bytes_def given_bytes_def do_allocate_def
  get_pointer_def std_align_def monotonic_new_def drop_bit_eq_div new_ok_def apart_def

lemma power_align: "\<exists>k < 64. 2 ^ k = (8 :: 64 word)" "\<exists>k < 64. 2 ^ k = (1 :: 64 word)" "\<exists>k < 64. 2 ^ k = (32 :: 64 word)"
proof -
  show "\<exists>k < 64. 2 ^ k = (8 :: 64 word)" by (rule exI [of _ 3]) simp
  show "\<exists>k < 64. 2 ^ k = (1 :: 64 word)" by (rule exI [of _ 0]) simp
  show "\<exists>k < 64. 2 ^ k = (32 :: 64 word)" by (rule exI [of _ 5]) simp
qed

theorem monotonic_gives_new_witness:
  "\<exists>p r'. do_allocate 1024 \<lparr>got = Some 8192, got_node = True\<rparr> 100 32 (fst (mono_run 1024 (take 2 some_requests) 4096)) = (Inr p, r') \<and>
     32 dvd unat p \<and> p \<noteq> 4096 \<and> p \<noteq> 4106"
proof -
  let ?q = "some_requests ! 2" and ?s = "mono_run 1024 (take 2 some_requests) 4096"
  have all: "take 2 some_requests @ [?q] = some_requests" by (simp add: some_requests_def)
  have ok: "all_new_ok 1024 (take 2 some_requests @ [?q]) (monotonic_new 1024 4096, [], [(4096, 1024)])"
    unfolding all by (simp add: request_simps power_align)
  have s: "?s = (fst ?s, [(4106, 1), (4096, 10)], snd (snd ?s))"
    by (simp add: mono_run_def request_simps)
  obtain p r' where p: "do_allocate 1024 (rq_answer ?q) (rq_bytes ?q) (rq_align ?q) (fst ?s) = (Inr p, r')"
    by (simp add: mono_run_def request_simps)
  from monotonic_gives_new [OF _ ok s p] have "32 dvd unat p \<and> p \<noteq> 4096 \<and> p \<noteq> 4106"
    by (simp add: some_requests_def)
  then show ?thesis using p by (simp add: some_requests_def)
qed

theorem monotonic_small_served_witness:
  "\<exists>p r'. do_allocate 1024 \<lparr>got = Some 8192, got_node = True\<rparr> 10 8 (monotonic_new 1024 4096) = (Inr p, r')"
proof -
  have "(8 :: 64 word) = 2 ^ 3" by simp
  then show ?thesis
    using monotonic_small_served [of "some_requests ! 0" 8192 1024 3 "monotonic_new 1024 4096"]
    by (simp add: some_requests_def drop_bit_eq_div)
qed

end
