(* ===== verification/Adder.thy ===== *)
theory Adder
  imports ToolOptions Interleaving "HOL-Library.Countable"
begin

text \<open>
  The devctl benchmark (\<open>benchmarks/devctl\<close>): the options of the server and of the client, the request the
  server answers with the length checks of \<open>resmgr/device.h\<close>, and the client's threads, which meet at a counter
  and an event, wait for a second event and then count up with the server's help.  What the system
  answers to \<open>open\<close> and the time a thread takes are parameters; the sizes of the message headers are those
  of the system's.
\<close>

section \<open>Options\<close>

record adder_options =
  ad_count :: "32 word"
  ad_start :: "32 word"
  ad_iterations :: "32 word"
  ad_idle :: bool

definition adder_options_new :: "32 word \<Rightarrow> adder_options" where
  "adder_options_new thread_count = \<lparr>ad_count = thread_count, ad_start = 0, ad_iterations = 2000000, ad_idle = False\<rparr>"

definition adder_handler :: "opt \<Rightarrow> adder_options \<Rightarrow> stop + adder_options" where
  "adder_handler o1 s =
     (let c = get_option o1 in
      if c = CHR ''n'' then operand o1 (\<lambda>arg. case parse_int False 32 arg of None \<Rightarrow> Inl (Exit 1)
        | Some n \<Rightarrow> if n < 1 \<or> n > 128 then Inl (Exit 1) else Inr (s\<lparr>ad_count := of_int n\<rparr>))
      else if c = CHR ''i'' then operand o1 (\<lambda>arg. case parse_int False 32 arg of None \<Rightarrow> Inl (Exit 1)
        | Some i \<Rightarrow> Inr (s\<lparr>ad_start := of_int i\<rparr>))
      else if c = CHR ''S'' then operand o1 (\<lambda>arg. case parse_int False 32 arg of None \<Rightarrow> Inl (Exit 1)
        | Some n \<Rightarrow> if n < 100 then Inl (Exit 1) else Inr (s\<lparr>ad_iterations := of_int n\<rparr>))
      else if c = CHR ''I'' then Inr (s\<lparr>ad_idle := True\<rparr>)
      else if c = CHR ''?'' then Inl (Exit 0)
      else Inl (Exit 1))"

text \<open>Both programs skip the errors of the parser.\<close>

definition adder_finish :: "options \<Rightarrow> adder_options \<Rightarrow> stop + adder_options" where
  "adder_finish opts s = (if ad_start s > - 1 - ad_count s then Inl (Exit 1) else Inr s)"

definition adder_make_options :: "32 word \<Rightarrow> string option list \<Rightarrow> stop + adder_options" where
  "adder_make_options thread_count argv =
     walk_options ''i:n:IS:?'' adder_handler (\<lambda>_. Inr) adder_finish argv (adder_options_new thread_count)"

definition dev_adder_handler :: "opt \<Rightarrow> 32 word \<times> 32 word \<Rightarrow> stop + 32 word \<times> 32 word" where
  "dev_adder_handler o1 = (\<lambda>(count, start).
     let c = get_option o1 in
      if c = CHR ''n'' then operand o1 (\<lambda>arg. case parse_int False 32 arg of None \<Rightarrow> Inl (Exit 1)
        | Some n \<Rightarrow> if n < 1 \<or> n > 128 then Inl (Exit 1) else Inr (of_int n, start))
      else if c = CHR ''i'' then operand o1 (\<lambda>arg. case parse_int False 32 arg of None \<Rightarrow> Inl (Exit 1)
        | Some i \<Rightarrow> Inr (count, of_int i))
      else if c = CHR ''?'' then Inl (Exit 0)
      else Inl (Exit 1))"

definition dev_adder_make_options :: "32 word \<Rightarrow> string option list \<Rightarrow> stop + 32 word \<times> 32 word" where
  "dev_adder_make_options thread_count argv =
     walk_options ''i:n:?'' dev_adder_handler (\<lambda>_. Inr)
       (\<lambda>opts (count, start). if start > - 1 - count then Inl (Exit 1) else Inr (count, start)) argv (thread_count, 0)"

definition adder_map :: option_map where
  "adder_map = (\<lambda>c. if c \<in> set ''inS'' then Arg_required else if c \<in> set ''I?'' then Single_opt else Not_defined)"

definition dev_adder_map :: option_map where
  "dev_adder_map = (\<lambda>c. if c \<in> set ''in'' then Arg_required else if c = CHR ''?'' then Single_opt else Not_defined)"

lemma adder_optstring: "build_option_map ''i:n:IS:?'' = Inr adder_map"
  by (rule trans, simp add: build_map_simps) (auto simp: adder_map_def fun_eq_iff)

lemma dev_adder_optstring: "build_option_map ''i:n:?'' = Inr dev_adder_map"
  by (rule trans, simp add: build_map_simps) (auto simp: dev_adder_map_def fun_eq_iff)

definition count_ok :: "32 word \<Rightarrow> 32 word \<Rightarrow> bool" where
  "count_ok thread_count n \<longleftrightarrow> n = thread_count \<or> 1 \<le> uint n \<and> uint n \<le> 128"

interpretation adder: option_handler "''i:n:IS:?''" adder_map adder_handler "\<lambda>_. Inr"
    "\<lambda>s. count_ok tc (ad_count s) \<and> 100 \<le> uint (ad_iterations s)" for tc
proof unfold_locales
  show "exits_or (\<lambda>s. count_ok tc (ad_count s) \<and> 100 \<le> uint (ad_iterations s)) (adder_handler o1 s)"
    if r: "sound_result adder_map (Inr o1)" and s: "count_ok tc (ad_count s) \<and> 100 \<le> uint (ad_iterations s)" for o1 s
    using s sound_operand [OF r] uint_parsed32
    by (auto simp: adder_handler_def operand_def Let_def count_ok_def adder_map_def not_less split: option.splits)
qed (simp_all add: adder_optstring)

interpretation dev_adder: option_handler "''i:n:?''" dev_adder_map dev_adder_handler "\<lambda>_. Inr" "\<lambda>(n, i). count_ok tc n" for tc
proof unfold_locales
  show "exits_or (\<lambda>(n, i). count_ok tc n) (dev_adder_handler o1 s)"
    if r: "sound_result dev_adder_map (Inr o1)" and s: "case s of (n, i) \<Rightarrow> count_ok tc n" for o1 s
    using s sound_operand [OF r] uint_parsed32
    by (auto simp: dev_adder_handler_def operand_def Let_def count_ok_def dev_adder_map_def not_less split: option.splits)
qed (simp_all add: dev_adder_optstring)

lemma no_overflow: "\<not> i > - 1 - n \<Longrightarrow> uint i + uint (n :: 32 word) < 2 ^ 32"
proof -
  have "uint (- 1 - n) = 2 ^ 32 - 1 - uint n"
  proof -
    have m: "uint (- 1 :: 32 word) = 2 ^ 32 - 1" by (simp add: unsigned_minus_1_eq_mask mask_eq_exp_minus_1)
    have "uint n \<le> uint (- 1 :: 32 word)" using unsigned_less [of n, where 'a = int] unfolding m by simp
    then show ?thesis using uint_sub_lem [of n "- 1"] unfolding m by simp
  qed
  moreover assume "\<not> i > - 1 - n"
  ultimately show ?thesis by (simp add: word_less_def)
qed

text \<open>The options of the client and the server: the numbers of the devices do not overflow.\<close>

theorem adder_options_ranges:
  "exits_or (\<lambda>s. count_ok tc (ad_count s) \<and> 100 \<le> uint (ad_iterations s) \<and> uint (ad_start s) + uint (ad_count s) < 2 ^ 32)
     (adder_make_options tc argv) \<and>
   exits_or (\<lambda>(n, i). count_ok tc n \<and> uint i + uint n < 2 ^ 32) (dev_adder_make_options tc argv)"
proof
  show "exits_or (\<lambda>s. count_ok tc (ad_count s) \<and> 100 \<le> uint (ad_iterations s) \<and> uint (ad_start s) + uint (ad_count s) < 2 ^ 32)
     (adder_make_options tc argv)"
    unfolding adder_make_options_def
    by (rule adder.walk_keeps [of tc]) (use no_overflow in \<open>auto simp: adder_options_new_def count_ok_def adder_finish_def\<close>)
  show "exits_or (\<lambda>(n, i). count_ok tc n \<and> uint i + uint n < 2 ^ 32) (dev_adder_make_options tc argv)"
    unfolding dev_adder_make_options_def
    by (rule dev_adder.walk_keeps [of tc]) (use no_overflow in \<open>auto simp: count_ok_def\<close>)
qed

text \<open>An option that does not exist is no error.\<close>

theorem adder_skips_errors:
  "adder_make_options 4 [Some ''adder'', Some ''-x'', Some ''-n''] = Inr (adder_options_new 4)"
  by code_simp

section \<open>The lengths of messages\<close>

text \<open>What a handler is told of a message: the lengths of what was sent and of what can be replied, and how much of
  the former was read.  The lengths and sizes are 64 bits wide.\<close>

record msg_info =
  srcmsglen :: "64 word"
  dstmsglen :: "64 word"
  msg_offset :: "64 word"

datatype verdict = Ok | Ebadmsg | Einval

datatype direction = Devdir_none | Devdir_from | Devdir_to | Devdir_tofrom

definition iofunc_write_verify_length :: "64 word \<Rightarrow> msg_info \<Rightarrow> 64 word \<Rightarrow> verdict" where
  "iofunc_write_verify_length write_size ctp len =
     (if len > srcmsglen ctp - msg_offset ctp - write_size then Ebadmsg else Ok)"

definition iofunc_read_verify_length :: "msg_info \<Rightarrow> 64 word \<Rightarrow> verdict" where
  "iofunc_read_verify_length ctp len = (if len > dstmsglen ctp then Einval else Ok)"

definition iofunc_devctl_verify_length :: "64 word \<Rightarrow> 64 word \<Rightarrow> 64 word \<Rightarrow> direction \<Rightarrow> msg_info \<Rightarrow> verdict" where
  "iofunc_devctl_verify_length devctl_size reply_size data_size dir ctp =
     (if (dir = Devdir_to \<or> dir = Devdir_tofrom) \<and> srcmsglen ctp < devctl_size + data_size then Ebadmsg
      else if (dir = Devdir_from \<or> dir = Devdir_tofrom) \<and> dstmsglen ctp < reply_size + data_size then Einval
      else Ok)"

text \<open>The check of a write accepts exactly what fits behind the header of a message that holds its header; but
  for a message that ends in its header the difference wraps, and the check accepts more bytes than were sent.\<close>

theorem write_length_checked:
  assumes "unat (msg_offset ctp) \<le> unat (srcmsglen ctp)" "len \<noteq> 0"
  shows "iofunc_write_verify_length write_size ctp len = Ok \<longleftrightarrow>
    unat (msg_offset ctp) + unat write_size + unat len \<le> unat (srcmsglen ctp) \<or>
    unat (srcmsglen ctp) < unat (msg_offset ctp) + unat write_size \<and>
      unat (msg_offset ctp) + unat write_size + unat len \<le> unat (srcmsglen ctp) + 2 ^ 64"
proof -
  let ?d = "srcmsglen ctp - msg_offset ctp"
  have d: "unat ?d = unat (srcmsglen ctp) - unat (msg_offset ctp)" using assms(1) by (simp add: unat_sub word_le_nat_alt)
  have b: "unat w < 2 ^ 64" for w :: "64 word" by (rule order_less_le_trans [OF unsigned_less]) simp
  have s: "unat (?d - write_size) = (if unat write_size \<le> unat ?d then unat ?d - unat write_size
      else unat ?d + 2 ^ 64 - unat write_size)"
    using unat_sub_if' [of ?d write_size] by simp
  show ?thesis using assms(1) d s b [of write_size]
    by (auto simp: iofunc_write_verify_length_def word_less_nat_alt not_less)
qed

theorem write_length_checked_witness:
  "iofunc_write_verify_length 16 \<lparr>srcmsglen = 8, dstmsglen = 0, msg_offset = 0\<rparr> 4096 = Ok"
  using write_length_checked [of "\<lparr>srcmsglen = 8, dstmsglen = 0, msg_offset = 0\<rparr>" 4096 16] by simp

section \<open>The server\<close>

datatype reply = Errno int | Replied "32 word" | Not_handled

abbreviation EINVAL_no :: int where "EINVAL_no \<equiv> 22"
abbreviation EPERM_no :: int where "EPERM_no \<equiv> 1"
abbreviation EBADMSG_no :: int where "EBADMSG_no \<equiv> 77"

fun verdict_no :: "verdict \<Rightarrow> int" where
  "verdict_no Ok = 0"
| "verdict_no Ebadmsg = EBADMSG_no"
| "verdict_no Einval = EINVAL_no"

record devctl_request =
  rcvid :: int
  dcmd_is_add :: bool
  flag_rd :: bool
  flag_wr :: bool
  dev_info :: msg_info
  dev_value :: "32 word"

definition driver_devctl :: "64 word \<Rightarrow> 64 word \<Rightarrow> devctl_request \<Rightarrow> reply" where
  "driver_devctl devctl_size reply_size q =
     (if rcvid q = 0 then Errno EINVAL_no
      else if dcmd_is_add q then
        if \<not> (flag_rd q \<and> flag_wr q) then Errno EPERM_no
        else
          let lr = iofunc_devctl_verify_length devctl_size reply_size 4 Devdir_tofrom (dev_info q) in
          if lr \<noteq> Ok then Errno (verdict_no lr) else Replied (dev_value q + 1)
      else Not_handled)"

text \<open>What \<open>devctl\<close> of the client does with it: the message and the reply hold the number, and the file was opened for
  reading and writing.\<close>

definition devctl_add :: "64 word \<Rightarrow> 64 word \<Rightarrow> 32 word \<Rightarrow> int + 32 word" where
  "devctl_add devctl_size reply_size value =
     (case driver_devctl devctl_size reply_size
        \<lparr>rcvid = 1, dcmd_is_add = True, flag_rd = True, flag_wr = True,
          dev_info = \<lparr>srcmsglen = devctl_size + 4, dstmsglen = reply_size + 4, msg_offset = 0\<rparr>, dev_value = value\<rparr> of
        Errno e \<Rightarrow> Inl e | Replied v \<Rightarrow> Inr v | Not_handled \<Rightarrow> Inl 25)"

lemma devctl_add_counts: "devctl_add ds rs v = Inr (v + 1)"
  by (simp add: devctl_add_def driver_devctl_def iofunc_devctl_verify_length_def Let_def)

section \<open>The threads of the client\<close>

text \<open>A thread on its way through \<open>driver_thread\<close>; the file is open or not.  \<open>T_load\<close> and \<open>T_cas\<close> are the loop of
  \<open>ready()\<close>, \<open>T_set\<close> sets the event in it.\<close>

datatype thread_pc = T_open | T_load bool | T_cas bool "32 word" | T_set bool | T_wait | T_loop "32 word" | T_done int

datatype main_pc = M_wait | M_run | M_join nat | M_done

datatype athread = Main | Driver nat

record adder_state =
  a_ready :: "32 word"
  a_ready_event :: bool
  a_run_event :: bool
  a_main :: main_pc
  a_threads :: "nat \<Rightarrow> thread_pc"
  a_times :: "nat list"
  a_outside :: bool \<comment> \<open>a time was stored outside the vector\<close>
  a_log :: "(nat \<times> 32 word) list" \<comment> \<open>the calls of \<open>devctl\<close>, the last one first\<close>

text \<open>The environment: which paths can be opened, what \<open>devctl\<close> gives on a path for a number, and the time that a
  thread measures.\<close>

record adder_env =
  ae_opens :: "string \<Rightarrow> bool"
  ae_devctl :: "string \<Rightarrow> 32 word \<Rightarrow> int + 32 word"
  ae_time :: "nat \<Rightarrow> nat"

definition adder_start :: "adder_options \<Rightarrow> adder_state" where
  "adder_start o1 = \<lparr>a_ready = 0, a_ready_event = False, a_run_event = False, a_main = M_wait, a_threads = (\<lambda>_. T_open),
     a_times = replicate (unat (ad_count o1)) 0, a_outside = False, a_log = []\<rparr>"

text \<open>\<open>main\<close> gives its ith thread the number \<open>start + i\<close>, and \<open>driver_thread\<close> adds \<open>start\<close> again for the path.\<close>

definition thread_core :: "adder_options \<Rightarrow> nat \<Rightarrow> 32 word" where
  "thread_core o1 i = ad_start o1 + of_nat i"

definition thread_path :: "adder_options \<Rightarrow> nat \<Rightarrow> string" where
  "thread_path o1 i = ''/dev/adder/'' @ nat_to_string (unat (ad_start o1 + thread_core o1 i))"

definition set_thread :: "nat \<Rightarrow> thread_pc \<Rightarrow> adder_state \<Rightarrow> adder_state" where
  "set_thread i pc s = s\<lparr>a_threads := (a_threads s)(i := pc)\<rparr>"

definition after_ready :: "bool \<Rightarrow> thread_pc" where
  "after_ready opened = (if opened then T_wait else T_done 1)"

definition set_time :: "32 word \<Rightarrow> nat \<Rightarrow> adder_state \<Rightarrow> adder_state" where
  "set_time core d s =
     (if unat core < length (a_times s) then s\<lparr>a_times := (a_times s)[unat core := d]\<rparr> else s\<lparr>a_outside := True\<rparr>)"

definition driver_step :: "adder_options \<Rightarrow> adder_env \<Rightarrow> nat \<Rightarrow> adder_state \<Rightarrow> adder_state" where
  "driver_step o1 env i s =
     (case a_threads s i of
        T_open \<Rightarrow> set_thread i (T_load (ae_opens env (thread_path o1 i))) s
      | T_load opened \<Rightarrow> set_thread i (T_cas opened (a_ready s)) s
      | T_cas opened expected \<Rightarrow>
          (if a_ready s = expected then
             set_thread i (if expected + 1 = ad_count o1 then T_set opened else after_ready opened) (s\<lparr>a_ready := expected + 1\<rparr>)
           else set_thread i (T_load opened) s)
      | T_set opened \<Rightarrow> set_thread i (after_ready opened) (s\<lparr>a_ready_event := True\<rparr>)
      | T_wait \<Rightarrow> if a_run_event s then set_thread i (T_loop 0) s else s
      | T_loop v \<Rightarrow>
          (if v < ad_iterations o1 then
             (case ae_devctl env (thread_path o1 i) v of
                Inl r \<Rightarrow> set_thread i (T_done 2) (s\<lparr>a_log := (i, v) # a_log s\<rparr>)
              | Inr v' \<Rightarrow> set_thread i (T_loop v') (s\<lparr>a_log := (i, v) # a_log s\<rparr>))
           else set_thread i (T_done 0) (set_time (thread_core o1 i) (ae_time env i) s))
      | T_done r \<Rightarrow> s)"

definition is_done :: "thread_pc \<Rightarrow> bool" where
  "is_done pc = (case pc of T_done _ \<Rightarrow> True | _ \<Rightarrow> False)"

definition main_step :: "adder_options \<Rightarrow> adder_state \<Rightarrow> adder_state" where
  "main_step o1 s = (case a_main s of
        M_wait \<Rightarrow> if a_ready_event s then s\<lparr>a_main := M_run\<rparr> else s
      | M_run \<Rightarrow> s\<lparr>a_run_event := True, a_main := M_join 0\<rparr>
      | M_join i \<Rightarrow>
          (if i < unat (ad_count o1) then if is_done (a_threads s i) then s\<lparr>a_main := M_join (i + 1)\<rparr> else s
           else s\<lparr>a_main := M_done\<rparr>)
      | M_done \<Rightarrow> s)"

fun adder_step :: "adder_options \<Rightarrow> adder_env \<Rightarrow> athread \<Rightarrow> adder_state \<Rightarrow> adder_state" where
  "adder_step o1 env Main s = main_step o1 s"
| "adder_step o1 env (Driver i) s = (if i < unat (ad_count o1) then driver_step o1 env i s else s)"

definition adder_finished :: "adder_state \<Rightarrow> bool" where
  "adder_finished s \<longleftrightarrow> a_main s = M_done"

text \<open>The invariant.  A thread that has not counted yet is one of the missing ones; whoever counts last sets the
  event.\<close>

definition to_count :: "thread_pc \<Rightarrow> bool" where
  "to_count pc = (case pc of T_open \<Rightarrow> True | T_load _ \<Rightarrow> True | T_cas _ _ \<Rightarrow> True | _ \<Rightarrow> False)"

definition thread_ok :: "adder_options \<Rightarrow> adder_env \<Rightarrow> adder_state \<Rightarrow> nat \<Rightarrow> bool" where
  "thread_ok o1 env s i = (let opens = ae_opens env (thread_path o1 i);
       calls = map snd (filter (\<lambda>c. fst c = i) (rev (a_log s))); upto = (\<lambda>n. map of_nat [0 ..< n]) in
     case a_threads s i of
       T_open \<Rightarrow> calls = []
     | T_load b \<Rightarrow> b = opens \<and> calls = []
     | T_cas b e \<Rightarrow> b = opens \<and> calls = [] \<and> unat e \<le> unat (a_ready s)
     | T_set b \<Rightarrow> b = opens \<and> calls = []
     | T_wait \<Rightarrow> opens \<and> calls = []
     | T_loop v \<Rightarrow> opens \<and> a_run_event s \<and> v \<le> ad_iterations o1 \<and> calls = upto (unat v)
     | T_done r \<Rightarrow> r = (if opens then 0 else 1) \<and> calls = (if opens then upto (unat (ad_iterations o1)) else []))"

definition ready_ok :: "adder_options \<Rightarrow> adder_state \<Rightarrow> bool" where
  "ready_ok o1 s \<longleftrightarrow> (let n = unat (ad_count o1) in
     unat (a_ready s) + (\<Sum>i<n. of_bool (to_count (a_threads s i))) = n \<and>
     (unat (a_ready s) = n \<longrightarrow> a_ready_event s \<or> (\<exists>i<n. \<exists>b. a_threads s i = T_set b)))"

definition main_ok :: "adder_options \<Rightarrow> adder_state \<Rightarrow> bool" where
  "main_ok o1 s \<longleftrightarrow> (let n = unat (ad_count o1) in
     (a_run_event s \<longleftrightarrow> a_main s \<noteq> M_wait \<and> a_main s \<noteq> M_run) \<and>
     (case a_main s of M_join k \<Rightarrow> k \<le> n \<and> (\<forall>i<k. is_done (a_threads s i)) | M_done \<Rightarrow> (\<forall>i<n. is_done (a_threads s i)) | _ \<Rightarrow> True))"

definition times_ok :: "adder_options \<Rightarrow> adder_env \<Rightarrow> adder_state \<Rightarrow> bool" where
  "times_ok o1 env s \<longleftrightarrow> (let n = unat (ad_count o1); core = (\<lambda>i. unat (thread_core o1 i)) in
     length (a_times s) = n \<and>
     (\<forall>i<n. a_threads s i = T_done 0 \<longrightarrow> core i < n \<longrightarrow> a_times s ! core i = ae_time env i) \<and>
     (a_outside s \<longleftrightarrow> (\<exists>i<n. a_threads s i = T_done 0 \<and> n \<le> core i)))"

definition adder_inv :: "adder_options \<Rightarrow> adder_env \<Rightarrow> adder_state \<Rightarrow> bool" where
  "adder_inv o1 env s \<longleftrightarrow> ready_ok o1 s \<and> (\<forall>i < unat (ad_count o1). thread_ok o1 env s i) \<and> main_ok o1 s \<and> times_ok o1 env s"

text \<open>What is left to do.  A thread whose exchange will fail has to load again, so whoever counts pays for the others.\<close>

definition thread_left :: "adder_options \<Rightarrow> 32 word \<Rightarrow> thread_pc \<Rightarrow> nat" where
  "thread_left o1 ready pc = (let k = unat (ad_iterations o1) in case pc of
       T_open \<Rightarrow> k + 8 | T_load _ \<Rightarrow> k + 6 | T_cas _ e \<Rightarrow> if e = ready then k + 5 else k + 7
     | T_set _ \<Rightarrow> k + 4 | T_wait \<Rightarrow> k + 3 | T_loop v \<Rightarrow> k - unat v + 1 | T_done _ \<Rightarrow> 0)"

definition main_left :: "adder_options \<Rightarrow> main_pc \<Rightarrow> nat" where
  "main_left o1 pc = (let n = unat (ad_count o1) in case pc of
       M_wait \<Rightarrow> n + 4 | M_run \<Rightarrow> n + 3 | M_join i \<Rightarrow> n - i + 1 | M_done \<Rightarrow> 0)"

definition adder_left :: "adder_options \<Rightarrow> adder_state \<Rightarrow> nat" where
  "adder_left o1 s = (let n = unat (ad_count o1) in
     main_left o1 (a_main s) + (\<Sum>i<n. thread_left o1 (a_ready s) (a_threads s i)) + 2 * n * (n - unat (a_ready s)))"

lemma sum_upd:
  fixes f :: "'b \<Rightarrow> nat" and n :: nat
  assumes "i < n"
  shows "(\<Sum>j<n. f ((g(i := y)) j)) + f (g i) = (\<Sum>j<n. f (g j)) + f y"
proof -
  have i: "i \<in> {..<n}" "finite {..<n}" using assms by auto
  have "(\<Sum>j\<in>{..<n} - {i}. f ((g(i := y)) j)) = (\<Sum>j\<in>{..<n} - {i}. f (g j))" by (rule sum.cong) auto
  then show ?thesis using sum.remove [OF i(2,1), of "\<lambda>j. f ((g(i := y)) j)"] sum.remove [OF i(2,1), of "\<lambda>j. f (g j)"] by simp
qed

definition wf_options :: "adder_options \<Rightarrow> bool" where
  "wf_options o1 \<longleftrightarrow> 0 < ad_count o1 \<and> unat (ad_start o1) + unat (ad_count o1) < 2 ^ 32"

lemma core_value: "wf_options o1 \<Longrightarrow> i < unat (ad_count o1) \<Longrightarrow> unat (thread_core o1 i) = unat (ad_start o1) + i"
proof -
  assume w: "wf_options o1" "i < unat (ad_count o1)"
  then have lt: "unat (ad_start o1) + i < 2 ^ 32" by (simp add: wf_options_def)
  then have "unat (of_nat i :: 32 word) = i" by (simp add: unat_of_nat)
  then show ?thesis using lt unat_add_lem [of "ad_start o1" "of_nat i"] by (simp add: thread_core_def)
qed

text \<open>One thread goes on: what has to be seen of the new state.\<close>

lemma thread_goes_on:
  assumes inv: "adder_inv o1 env s" and w: "wf_options o1" and i: "i < unat (ad_count o1)"
    and t: "a_threads s' = (a_threads s)(i := pc)" "a_main s' = a_main s" "a_run_event s' = a_run_event s" "\<not> is_done (a_threads s i)"
    and r: "unat (a_ready s') + of_bool (to_count pc) = unat (a_ready s) + of_bool (to_count (a_threads s i))"
      "unat (a_ready s) \<le> unat (a_ready s')"
    and e: "unat (a_ready s') = unat (ad_count o1) \<Longrightarrow> a_ready_event s' \<or> (\<exists>b. pc = T_set b) \<or>
      a_ready s' = a_ready s \<and> a_ready_event s' = a_ready_event s \<and> (\<forall>b. a_threads s i \<noteq> T_set b)"
    and own: "thread_ok o1 env s' i" and log: "\<And>j. j \<noteq> i \<Longrightarrow> filter (\<lambda>c. fst c = j) (a_log s') = filter (\<lambda>c. fst c = j) (a_log s)"
    and times: "pc \<noteq> T_done 0 \<and> a_times s' = a_times s \<and> a_outside s' = a_outside s \<or>
      pc = T_done 0 \<and> a_times s' = a_times (set_time (thread_core o1 i) (ae_time env i) s) \<and>
        a_outside s' = a_outside (set_time (thread_core o1 i) (ae_time env i) s)"
  shows "adder_inv o1 env s'"
proof -
  let ?n = "unat (ad_count o1)"
  have "(\<Sum>j<?n. of_bool (to_count (a_threads s' j))) + of_bool (to_count (a_threads s i)) =
      (\<Sum>j<?n. of_bool (to_count (a_threads s j))) + (of_bool (to_count pc) :: nat)"
    using sum_upd [OF i, of "\<lambda>p. of_bool (to_count p)" "a_threads s" pc] by (simp add: t(1))
  moreover have "unat (a_ready s) + (\<Sum>j<?n. of_bool (to_count (a_threads s j))) = ?n"
    using inv by (simp add: adder_inv_def ready_ok_def Let_def)
  ultimately have "unat (a_ready s') + (\<Sum>j<?n. of_bool (to_count (a_threads s' j))) = ?n" using r(1) by linarith
  moreover have "a_ready_event s' \<or> (\<exists>j<?n. \<exists>b. a_threads s' j = T_set b)" if full: "unat (a_ready s') = ?n"
    using e [OF full]
  proof (elim disjE conjE)
    assume same: "a_ready s' = a_ready s" "a_ready_event s' = a_ready_event s" "\<forall>b. a_threads s i \<noteq> T_set b"
    then have "a_ready_event s \<or> (\<exists>j<?n. \<exists>b. a_threads s j = T_set b)"
      using inv full by (simp add: adder_inv_def ready_ok_def Let_def)
    then show ?thesis using same t(1) by (metis fun_upd_apply)
  qed (use t(1) i in auto)
  ultimately have ready: "ready_ok o1 s'" by (simp add: ready_ok_def Let_def)
  have others: "thread_ok o1 env s' j" if "j < ?n" "j \<noteq> i" for j
  proof -
    have "thread_ok o1 env s j" using inv that by (simp add: adder_inv_def)
    then show ?thesis using that t(1,3) log [OF that(2)] r(2)
      by (auto simp: thread_ok_def rev_filter [symmetric] Let_def split: thread_pc.splits)
  qed
  have "main_ok o1 s" using inv by (simp add: adder_inv_def)
  then have main: "main_ok o1 s'" using t by (auto simp: main_ok_def Let_def split: main_pc.splits)
  have ok: "times_ok o1 env s" using inv by (simp add: adder_inv_def)
  have not0: "a_threads s i \<noteq> T_done 0" using t(4) by (auto simp: is_done_def)
  have "times_ok o1 env s'"
    using times
  proof (elim disjE conjE)
    assume "pc \<noteq> T_done 0" "a_times s' = a_times s" "a_outside s' = a_outside s"
    then show ?thesis using ok not0 by (auto simp: times_ok_def t(1) Let_def)
  next
    assume *: "pc = T_done 0" "a_times s' = a_times (set_time (thread_core o1 i) (ae_time env i) s)"
      "a_outside s' = a_outside (set_time (thread_core o1 i) (ae_time env i) s)"
    have ne: "unat (thread_core o1 j) \<noteq> unat (thread_core o1 i)" if "j < ?n" "j \<noteq> i" for j
      using core_value [OF w] that i by simp
    show ?thesis
    proof (cases "unat (thread_core o1 i) < ?n")
      case True
      then have s': "a_times s' = (a_times s)[unat (thread_core o1 i) := ae_time env i]" "a_outside s' = a_outside s"
        using * ok by (simp_all add: set_time_def times_ok_def Let_def)
      have ex: "(\<exists>j<?n. ((a_threads s)(i := T_done 0)) j = T_done 0 \<and> ?n \<le> unat (thread_core o1 j)) \<longleftrightarrow>
          (\<exists>j<?n. a_threads s j = T_done 0 \<and> ?n \<le> unat (thread_core o1 j))"
        using True not0 by (metis fun_upd_apply not_less)
      have out: "a_outside s \<longleftrightarrow> (\<exists>j<?n. a_threads s j = T_done 0 \<and> ?n \<le> unat (thread_core o1 j))"
        and len: "length (a_times s) = ?n"
        and old: "\<And>j. j < ?n \<Longrightarrow> a_threads s j = T_done 0 \<Longrightarrow> unat (thread_core o1 j) < ?n \<Longrightarrow>
          a_times s ! unat (thread_core o1 j) = ae_time env j"
        using ok by (simp_all add: times_ok_def Let_def)
      show ?thesis unfolding times_ok_def Let_def s' t(1) *(1) ex
        using out len old ne [THEN not_sym] True by (auto simp: nth_list_update)
    next
      case False
      then have s': "a_times s' = a_times s" "a_outside s'" using * ok by (simp_all add: set_time_def times_ok_def Let_def)
      then show ?thesis using ok not0 False i unfolding times_ok_def Let_def t(1) *(1) by auto
    qed
  qed
  then show ?thesis using ready main own others by (metis adder_inv_def)
qed

text \<open>The server counts: what \<open>devctl\<close> gives on every path that can be opened.\<close>

definition counts_up :: "adder_env \<Rightarrow> bool" where
  "counts_up env \<longleftrightarrow> (\<forall>p v. ae_opens env p \<longrightarrow> ae_devctl env p v = Inr (v + 1))"

lemma to_count_ready:
  assumes "ready_ok o1 s" "i < unat (ad_count o1)" "to_count (a_threads s i)"
  shows "unat (a_ready s) < unat (ad_count o1)"
proof -
  have "of_bool (to_count (a_threads s i)) \<le> (\<Sum>j<unat (ad_count o1). of_bool (to_count (a_threads s j)) :: nat)"
    by (rule member_le_sum) (use assms(2) in auto)
  then show ?thesis using assms(1,3) by (simp add: ready_ok_def Let_def)
qed

lemma unat_counted:
  assumes "unat (w :: 32 word) < unat (v :: 32 word)"
  shows "unat (w + 1) = unat w + 1"
proof -
  have "unat v < 2 ^ LENGTH(32)" by (rule unsigned_less)
  then have "unat w < 4294967295" using assms by simp
  then show ?thesis using unat_add_lem [of w 1] by simp
qed

lemma driver_step_keeps:
  assumes inv: "adder_inv o1 env s" and w: "wf_options o1" and i: "i < unat (ad_count o1)" and c: "counts_up env"
  shows "adder_inv o1 env (driver_step o1 env i s)"
proof (cases "a_threads s i")
  case T_open
  then show ?thesis using inv i
    by (intro thread_goes_on [OF inv w i, where pc = "T_load (ae_opens env (thread_path o1 i))"])
       (auto simp: driver_step_def set_thread_def is_done_def to_count_def thread_ok_def adder_inv_def Let_def)
next
  case (T_load b)
  then show ?thesis using inv i
    by (intro thread_goes_on [OF inv w i, where pc = "T_cas b (a_ready s)"])
       (auto simp: driver_step_def set_thread_def is_done_def to_count_def thread_ok_def adder_inv_def Let_def)
next
  case (T_cas b e)
  have own: "thread_ok o1 env s i" using inv i by (simp add: adder_inv_def)
  show ?thesis
  proof (cases "a_ready s = e")
    case False
    then show ?thesis using T_cas inv i
      by (intro thread_goes_on [OF inv w i, where pc = "T_load b"])
         (auto simp: driver_step_def set_thread_def is_done_def to_count_def thread_ok_def adder_inv_def Let_def)
  next
    case True
    have "unat (a_ready s) < unat (ad_count o1)"
      using to_count_ready [of o1 s i] inv i T_cas by (simp add: adder_inv_def to_count_def)
    then have suc: "unat (e + 1) = unat e + 1" using unat_counted True by blast
    have full: "unat (e + 1) = unat (ad_count o1) \<longleftrightarrow> e + 1 = ad_count o1" by (simp add: word_unat_eq_iff)
    show ?thesis using T_cas True own suc full
      by (intro thread_goes_on [OF inv w i, where pc = "if e + 1 = ad_count o1 then T_set b else after_ready b"])
         (auto simp: driver_step_def set_thread_def is_done_def to_count_def thread_ok_def after_ready_def Let_def)
  qed
next
  case (T_set b)
  have own: "thread_ok o1 env s i" using inv i by (simp add: adder_inv_def)
  show ?thesis using T_set own
    by (intro thread_goes_on [OF inv w i, where pc = "after_ready b"])
       (auto simp: driver_step_def set_thread_def is_done_def to_count_def thread_ok_def after_ready_def Let_def)
next
  case T_wait
  have own: "thread_ok o1 env s i" using inv i by (simp add: adder_inv_def)
  show ?thesis
  proof (cases "a_run_event s")
    case False
    then show ?thesis using T_wait inv by (simp add: driver_step_def)
  next
    case True
    then show ?thesis using T_wait own
      by (intro thread_goes_on [OF inv w i, where pc = "T_loop 0"])
         (auto simp: driver_step_def set_thread_def is_done_def to_count_def thread_ok_def Let_def)
  qed
next
  case (T_loop v)
  have own: "thread_ok o1 env s i" using inv i by (simp add: adder_inv_def)
  then have opens: "ae_opens env (thread_path o1 i)" "v \<le> ad_iterations o1" using T_loop by (auto simp: thread_ok_def Let_def)
  show ?thesis
  proof (cases "v < ad_iterations o1")
    case True
    then have suc: "unat (v + 1) = unat v + 1" "v + 1 \<le> ad_iterations o1"
      using unat_counted [of v "ad_iterations o1"] by (auto simp: word_less_nat_alt word_le_nat_alt)
    then show ?thesis using T_loop own opens True c
      by (intro thread_goes_on [OF inv w i, where pc = "T_loop (v + 1)"])
         (auto simp: driver_step_def set_thread_def is_done_def to_count_def thread_ok_def counts_up_def Let_def)
  next
    case False
    then have "v = ad_iterations o1" using opens(2) by simp
    then show ?thesis using T_loop own opens
      by (intro thread_goes_on [OF inv w i, where pc = "T_done 0"])
         (auto simp: driver_step_def set_thread_def set_time_def is_done_def to_count_def thread_ok_def Let_def)
  qed
next
  case (T_done r)
  then show ?thesis using inv by (simp add: driver_step_def)
qed

lemma main_step_keeps:
  assumes "adder_inv o1 env s"
  shows "adder_inv o1 env (main_step o1 s)"
proof -
  have m: "main_ok o1 s" and r: "ready_ok o1 s" and t: "times_ok o1 env s"
    and th: "\<And>i. i < unat (ad_count o1) \<Longrightarrow> thread_ok o1 env s i"
    using assms by (simp_all add: adder_inv_def)
  have same: "a_threads (main_step o1 s) = a_threads s" "a_ready (main_step o1 s) = a_ready s"
    "a_ready_event (main_step o1 s) = a_ready_event s" "a_times (main_step o1 s) = a_times s"
    "a_outside (main_step o1 s) = a_outside s" "a_log (main_step o1 s) = a_log s"
    by (simp_all add: main_step_def split: main_pc.splits)
  have run: "a_run_event s \<Longrightarrow> a_run_event (main_step o1 s)" by (simp add: main_step_def split: main_pc.splits)
  have "main_ok o1 (main_step o1 s)" using m
    by (auto simp: main_step_def main_ok_def Let_def less_Suc_eq split: main_pc.splits)
  moreover have "thread_ok o1 env (main_step o1 s) i" if "i < unat (ad_count o1)" for i
    using th [OF that] run by (auto simp: thread_ok_def same Let_def split: thread_pc.splits)
  ultimately show ?thesis using r t by (simp add: adder_inv_def ready_ok_def times_ok_def same Let_def)
qed

lemma adder_step_keeps:
  assumes "adder_inv o1 env s" "wf_options o1" "counts_up env"
  shows "adder_inv o1 env (adder_step o1 env t s)"
  using assms main_step_keeps driver_step_keeps by (cases t) auto

lemma thread_less:
  assumes "i < unat (ad_count o1)" "a_threads s' = (a_threads s)(i := pc)" "a_main s' = a_main s" "a_ready s' = a_ready s"
    "thread_left o1 (a_ready s) pc < thread_left o1 (a_ready s) (a_threads s i)"
  shows "adder_left o1 s' < adder_left o1 s"
  using sum_upd [OF assms(1), of "thread_left o1 (a_ready s)" "a_threads s" pc] assms(2-5)
  by (simp add: adder_left_def Let_def)

lemma thread_left_ready: "thread_left o1 r' pc \<le> thread_left o1 r pc + 2"
  by (simp add: thread_left_def Let_def split: thread_pc.splits)

lemma count_less:
  assumes "i < unat (ad_count o1)" "a_threads s' = (a_threads s)(i := pc)" "a_main s' = a_main s"
    "unat (a_ready s') = unat (a_ready s) + 1" "unat (a_ready s) < unat (ad_count o1)"
    "thread_left o1 (a_ready s) pc < thread_left o1 (a_ready s) (a_threads s i)"
  shows "adder_left o1 s' < adder_left o1 s"
proof -
  let ?n = "unat (ad_count o1)" and ?W = "thread_left o1"
  have "(\<Sum>j<?n. ?W (a_ready s') (a_threads s' j)) \<le> (\<Sum>j<?n. ?W (a_ready s) (a_threads s' j) + 2)"
    by (rule sum_mono) (rule thread_left_ready)
  also have "\<dots> = (\<Sum>j<?n. ?W (a_ready s) (a_threads s' j)) + 2 * ?n"
    by (simp only: sum.distrib sum_constant card_lessThan mult.commute of_nat_id)
  finally have le: "(\<Sum>j<?n. ?W (a_ready s') (a_threads s' j)) \<le> (\<Sum>j<?n. ?W (a_ready s) (a_threads s' j)) + 2 * ?n" .
  have "(\<Sum>j<?n. ?W (a_ready s) (a_threads s' j)) < (\<Sum>j<?n. ?W (a_ready s) (a_threads s j))"
    using sum_upd [OF assms(1), of "?W (a_ready s)" "a_threads s" pc] assms(2,6) by simp
  moreover have "2 * ?n * (?n - unat (a_ready s)) = 2 * ?n * (?n - unat (a_ready s')) + 2 * ?n"
  proof -
    have "?n - unat (a_ready s) = Suc (?n - unat (a_ready s'))" using assms(4,5) by simp
    then show ?thesis by simp
  qed
  ultimately show ?thesis using le assms(3) by (simp add: adder_left_def Let_def)
qed

lemmas left_simps = driver_step_def set_thread_def set_time_def thread_left_def Let_def

lemma driver_step_less:
  assumes inv: "adder_inv o1 env s" and i: "i < unat (ad_count o1)" and c: "counts_up env"
  shows "driver_step o1 env i s = s \<or> adder_left o1 (driver_step o1 env i s) < adder_left o1 s"
proof (cases "a_threads s i")
  case T_open
  then show ?thesis
    by (intro disjI2 thread_less [OF i, where pc = "T_load (ae_opens env (thread_path o1 i))"]) (simp_all add: left_simps)
next
  case (T_load b)
  then show ?thesis by (intro disjI2 thread_less [OF i, where pc = "T_cas b (a_ready s)"]) (simp_all add: left_simps)
next
  case (T_cas b e)
  show ?thesis
  proof (cases "a_ready s = e")
    case False
    then show ?thesis using T_cas by (intro disjI2 thread_less [OF i, where pc = "T_load b"]) (simp_all add: left_simps)
  next
    case True
    have lt: "unat (a_ready s) < unat (ad_count o1)"
      using to_count_ready [of o1 s i] inv i T_cas by (simp add: adder_inv_def to_count_def)
    then show ?thesis using T_cas True unat_counted [OF lt]
      by (intro disjI2 count_less [OF i, where pc = "if e + 1 = ad_count o1 then T_set b else after_ready b"])
         (simp_all add: left_simps after_ready_def)
  qed
next
  case (T_set b)
  then show ?thesis by (intro disjI2 thread_less [OF i, where pc = "after_ready b"]) (simp_all add: left_simps after_ready_def)
next
  case T_wait
  then show ?thesis
    by (cases "a_run_event s")
       (simp add: driver_step_def, intro disjI2 thread_less [OF i, where pc = "T_loop 0"], simp_all add: left_simps)
next
  case (T_loop v)
  show ?thesis
  proof (cases "v < ad_iterations o1")
    case True
    have opens: "ae_opens env (thread_path o1 i)" using inv i T_loop by (auto simp: adder_inv_def thread_ok_def Let_def)
    have lt: "unat v < unat (ad_iterations o1)" using True by (simp add: word_less_nat_alt)
    show ?thesis using T_loop True opens c lt unat_counted [OF lt]
      by (intro disjI2 thread_less [OF i, where pc = "T_loop (v + 1)"]) (simp_all add: left_simps counts_up_def)
  next
    case False
    then show ?thesis using T_loop by (intro disjI2 thread_less [OF i, where pc = "T_done 0"]) (simp_all add: left_simps)
  qed
next
  case (T_done r)
  then show ?thesis by (simp add: driver_step_def)
qed

lemma main_step_less: "main_step o1 s = s \<or> adder_left o1 (main_step o1 s) < adder_left o1 s"
  by (auto simp: main_step_def adder_left_def main_left_def Let_def split: main_pc.splits)

lemma adder_step_less:
  "adder_inv o1 env s \<Longrightarrow> counts_up env \<Longrightarrow> adder_step o1 env t s = s \<or> adder_left o1 (adder_step o1 env t s) < adder_left o1 s"
  using main_step_less driver_step_less by (cases t) auto

lemma driver_moves:
  assumes "a_threads s i \<noteq> T_wait \<or> a_run_event s" "\<not> is_done (a_threads s i)"
    "\<forall>v. a_threads s i = T_loop v \<longrightarrow> ae_opens env (thread_path o1 i)" "counts_up env"
  shows "a_threads (driver_step o1 env i s) i \<noteq> a_threads s i"
  using assms
  by (auto simp: driver_step_def set_thread_def set_time_def is_done_def after_ready_def counts_up_def split: thread_pc.splits)

lemma adder_step_progress:
  assumes inv: "adder_inv o1 env s" and w: "wf_options o1" and c: "counts_up env" and nf: "\<not> adder_finished s"
  shows "\<exists>t. adder_step o1 env t s \<noteq> s"
proof (cases "\<exists>i < unat (ad_count o1). \<not> is_done (a_threads s i) \<and> (a_threads s i \<noteq> T_wait \<or> a_run_event s)")
  case True
  then obtain i where i: "i < unat (ad_count o1)" "\<not> is_done (a_threads s i)" "a_threads s i \<noteq> T_wait \<or> a_run_event s" by blast
  have "\<forall>v. a_threads s i = T_loop v \<longrightarrow> ae_opens env (thread_path o1 i)"
    using inv i(1) by (auto simp: adder_inv_def thread_ok_def Let_def)
  then have "a_threads (adder_step o1 env (Driver i) s) i \<noteq> a_threads s i" using driver_moves [OF i(3,2) _ c] i(1) by simp
  then show ?thesis by metis
next
  case False
  let ?n = "unat (ad_count o1)"
  have r: "ready_ok o1 s" and m: "main_ok o1 s" using inv by (simp_all add: adder_inv_def)
  have all: "is_done (a_threads s i) \<or> a_threads s i = T_wait \<and> \<not> a_run_event s" if "i < ?n" for i using False that by blast
  have none: "\<not> to_count (a_threads s i)" "\<And>b. a_threads s i \<noteq> T_set b" if "i < ?n" for i
    using all [OF that] by (auto simp: is_done_def to_count_def split: thread_pc.splits)
  have ev: "a_ready_event s"
  proof -
    have "(\<Sum>i<?n. of_bool (to_count (a_threads s i)) :: nat) = 0" using none(1) by simp
    then show ?thesis using r none(2) by (auto simp: ready_ok_def Let_def)
  qed
  have "main_step o1 s \<noteq> s"
  proof (cases "a_main s")
    case (M_join k)
    have "a_run_event s" using m M_join by (simp add: main_ok_def Let_def)
    then have "k < ?n \<Longrightarrow> is_done (a_threads s k)" using all by blast
    then have "a_main (main_step o1 s) \<noteq> a_main s" by (simp add: main_step_def M_join)
    then show ?thesis by metis
  next
    case M_done
    then show ?thesis using nf by (simp add: adder_finished_def)
  next
    case M_wait
    then have "a_main (main_step o1 s) \<noteq> a_main s" using ev by (simp add: main_step_def)
    then show ?thesis by metis
  next
    case M_run
    then have "a_main (main_step o1 s) \<noteq> a_main s" by (simp add: main_step_def)
    then show ?thesis by metis
  qed
  then show ?thesis by (intro exI [of _ Main]) simp
qed

lemma adder_step_stable:
  assumes "adder_inv o1 env s" "adder_finished s"
  shows "adder_step o1 env t s = s"
proof (cases t)
  case Main
  then show ?thesis using assms(2) by (simp add: main_step_def adder_finished_def)
next
  case (Driver i)
  have "is_done (a_threads s i)" if "i < unat (ad_count o1)"
    using assms that by (auto simp: adder_inv_def main_ok_def adder_finished_def Let_def)
  then show ?thesis using Driver by (auto simp: driver_step_def is_done_def split: thread_pc.splits)
qed

interpretation adder_run: polling "adder_step o1 env" "\<lambda>s. wf_options o1 \<and> counts_up env \<and> adder_inv o1 env s"
    adder_finished "adder_left o1" for o1 env
  by unfold_locales (use adder_step_keeps adder_step_less adder_step_progress adder_step_stable in blast)+

lemma adder_start_inv: "wf_options o1 \<Longrightarrow> adder_inv o1 env (adder_start o1)"
  by (auto simp: wf_options_def word_gt_0 unat_gt_0 adder_inv_def adder_start_def ready_ok_def to_count_def thread_ok_def main_ok_def times_ok_def Let_def)

definition server_env :: "64 word \<Rightarrow> 64 word \<Rightarrow> (string \<Rightarrow> bool) \<Rightarrow> (nat \<Rightarrow> nat) \<Rightarrow> adder_env" where
  "server_env devctl_size reply_size opens time =
     \<lparr>ae_opens = opens, ae_devctl = (\<lambda>_. devctl_add devctl_size reply_size), ae_time = time\<rparr>"

lemma server_counts_up: "counts_up (server_env ds rs opens time)"
  by (simp add: counts_up_def server_env_def devctl_add_counts)

text \<open>C36: Client and server together: on any schedule that leaves out no thread the client ends.  Each thread whose device
  can be opened has made exactly the calls from 0 to the number of iterations, each of the others ends with the error
  code and none of them holds up the start; and a time is stored outside the vector exactly when \<open>start\<close> moves a
  thread that ran behind its end.\<close>

theorem adder_run_returns:
  assumes "fair sched" "0 < ad_count o1" "unat (ad_start o1) + unat (ad_count o1) < 2 ^ 32"
  shows "\<exists>n. \<forall>m \<ge> n. let s = exec (adder_step o1 (server_env ds rs opens time)) sched (adder_start o1) m; k = unat (ad_count o1) in
    adder_finished s \<and>
    (\<forall>i < k. a_threads s i = T_done (if opens (thread_path o1 i) then 0 else 1) \<and>
       map snd (filter (\<lambda>c. fst c = i) (rev (a_log s))) =
         (if opens (thread_path o1 i) then map of_nat [0 ..< unat (ad_iterations o1)] else [])) \<and>
    (\<forall>i < k. opens (thread_path o1 i) \<longrightarrow> unat (ad_start o1) + i < k \<longrightarrow> a_times s ! (unat (ad_start o1) + i) = time i) \<and>
    (a_outside s \<longleftrightarrow> (\<exists>i < k. opens (thread_path o1 i) \<and> k \<le> unat (ad_start o1) + i))"
proof -
  let ?env = "server_env ds rs opens time"
  have w: "wf_options o1" using assms(2,3) by (simp add: wf_options_def)
  have end_state: "(\<forall>i < unat (ad_count o1). a_threads s i = T_done (if opens (thread_path o1 i) then 0 else 1) \<and>
       map snd (filter (\<lambda>c. fst c = i) (rev (a_log s))) =
         (if opens (thread_path o1 i) then map of_nat [0 ..< unat (ad_iterations o1)] else []))"
    if "adder_inv o1 ?env s" "adder_finished s" for s
  proof (intro allI impI)
    fix i
    assume i: "i < unat (ad_count o1)"
    have "is_done (a_threads s i)" using that i by (auto simp: adder_inv_def main_ok_def adder_finished_def Let_def)
    moreover have "thread_ok o1 ?env s i" using that(1) i by (simp add: adder_inv_def)
    ultimately show "a_threads s i = T_done (if opens (thread_path o1 i) then 0 else 1) \<and>
       map snd (filter (\<lambda>c. fst c = i) (rev (a_log s))) =
         (if opens (thread_path o1 i) then map of_nat [0 ..< unat (ad_iterations o1)] else [])"
      by (auto simp: is_done_def thread_ok_def server_env_def Let_def split: thread_pc.splits if_splits)
  qed
  have end_times: "(\<forall>i < unat (ad_count o1). opens (thread_path o1 i) \<longrightarrow> unat (ad_start o1) + i < unat (ad_count o1) \<longrightarrow>
        a_times s ! (unat (ad_start o1) + i) = time i) \<and>
      (a_outside s \<longleftrightarrow> (\<exists>i < unat (ad_count o1). opens (thread_path o1 i) \<and> unat (ad_count o1) \<le> unat (ad_start o1) + i))"
    if "adder_inv o1 ?env s" "adder_finished s" for s
  proof -
    have t: "times_ok o1 ?env s" using that(1) by (simp add: adder_inv_def)
    have zero: "a_threads s i = T_done 0 \<longleftrightarrow> opens (thread_path o1 i)" if "i < unat (ad_count o1)" for i
      using end_state [OF \<open>adder_inv o1 ?env s\<close> \<open>adder_finished s\<close>] that by simp
    show ?thesis using t zero core_value [OF w] unfolding times_ok_def Let_def by (simp add: server_env_def) metis
  qed
  obtain n where "\<forall>m \<ge> n. adder_finished (exec (adder_step o1 ?env) sched (adder_start o1) m) \<and>
      adder_inv o1 ?env (exec (adder_step o1 ?env) sched (adder_start o1) m)"
    using adder_run.finishes_for_ever [of o1 ?env "adder_start o1", OF _ assms(1)] w server_counts_up adder_start_inv by blast
  then show ?thesis unfolding Let_def using end_state end_times by blast
qed

definition visit_all :: "nat \<Rightarrow> athread" where
  "visit_all n = (case fst (prod_decode n) of 0 \<Rightarrow> Main | Suc i \<Rightarrow> Driver i)"

lemma fair_visit_all: "fair visit_all"
proof -
  have "\<exists>m \<ge> n. visit_all m = t" for t n
  proof -
    define a where "a = (case t of Main \<Rightarrow> 0 | Driver i \<Rightarrow> Suc i)"
    have "n \<le> prod_encode (a, n)" by (rule le_prod_encode_2)
    moreover have "visit_all (prod_encode (a, n)) = t" by (simp add: visit_all_def a_def split: athread.split)
    ultimately show ?thesis by blast
  qed
  then show ?thesis by (simp add: fair_def)
qed

theorem adder_run_returns_witness:
  "\<exists>n. let s = exec (adder_step \<lparr>ad_count = 2, ad_start = 1, ad_iterations = 100, ad_idle = False\<rparr>
        (server_env 16 16 (\<lambda>_. True) (\<lambda>i. i + 5))) visit_all
      (adder_start \<lparr>ad_count = 2, ad_start = 1, ad_iterations = 100, ad_idle = False\<rparr>) n in
    adder_finished s \<and> a_outside s \<and> a_times s ! 1 = 5"
proof -
  let ?o = "\<lparr>ad_count = 2, ad_start = 1, ad_iterations = 100, ad_idle = False\<rparr>"
  let ?s = "exec (adder_step ?o (server_env 16 16 (\<lambda>_. True) (\<lambda>i. i + 5))) visit_all (adder_start ?o)"
  have "unat (ad_start ?o) + unat (ad_count ?o) < 2 ^ 32" "0 < ad_count ?o" by simp_all
  from adder_run_returns [OF fair_visit_all this(2,1), of 16 16 "\<lambda>_. True" "\<lambda>i. i + 5"]
  have "\<exists>n. \<forall>m \<ge> n. adder_finished (?s m) \<and> a_times (?s m) ! 1 = 5 \<and> (a_outside (?s m) \<longleftrightarrow> (\<exists>i < 2. 2 \<le> Suc i))"
    unfolding Let_def by (elim ex_forward all_forward imp_forward) (simp, simp)
  then obtain n where "adder_finished (?s n) \<and> a_times (?s n) ! 1 = 5 \<and> (a_outside (?s n) \<longleftrightarrow> (\<exists>i < 2. 2 \<le> Suc i))"
    by blast
  moreover have "\<exists>i < 2. 2 \<le> Suc i" by (rule exI [of _ 1]) simp
  ultimately show ?thesis unfolding Let_def by blast
qed

text \<open>The ith thread opens the device numbered \<open>2 start + i\<close>, not \<open>start + i\<close> as the manual says.\<close>

theorem start_counted_twice:
  "thread_path \<lparr>ad_count = 1, ad_start = 4, ad_iterations = 100, ad_idle = False\<rparr> 0 = ''/dev/adder/8''"
  by code_simp

end
