(* ===== verification/SyncEvent.thy ===== *)
theory SyncEvent
  imports Prelude
begin

text \<open>
  The event of \<open>ubench/thread.h\<close> (\<open>sync_event\<close>): a flag, the mutex that guards it and a condition variable.
  Any threads call its methods in any order.  A call is followed through the points where other threads may run:
  taking the mutex, the work under it, giving it back, and for \<open>set\<close> the notification, which comes after that.  A
  thread that waits gives the mutex back and is suspended in one step; it wakes by a notification, for no reason, or at
  the end of its time, and then takes the mutex again.
\<close>

section \<open>Steps\<close>

text \<open>Where a thread is: at rest with the result of the last \<open>wait\<close> or \<open>wait_for\<close>, or in a call.  The argument of the
  states of a wait says whether it has a time limit.\<close>

datatype se_pc = Rest "bool option"
  | Set_lock | Set_flag | Set_unlock | Set_notify
  | Clear_lock | Clear_flag | Clear_unlock
  | Wait_lock bool | Wait_check bool | Wait_blocked bool | Wait_woken bool | Wait_expired | Wait_last | Wait_leave bool

record 't sync_event =
  se_flag :: bool
  se_owner :: "'t option"
  se_pc :: "'t \<Rightarrow> se_pc"

definition sync_event_new :: "'t sync_event" where
  "sync_event_new = \<lparr>se_flag = False, se_owner = None, se_pc = (\<lambda>_. Rest None)\<rparr>"

definition se_goto :: "'t \<Rightarrow> se_pc \<Rightarrow> 't sync_event \<Rightarrow> 't sync_event" where
  "se_goto t pc s = s\<lparr>se_pc := (se_pc s)(t := pc)\<rparr>"

definition se_take :: "'t \<Rightarrow> 't sync_event \<Rightarrow> 't sync_event" where
  "se_take t s = s\<lparr>se_owner := Some t\<rparr>"

definition se_give :: "'t sync_event \<Rightarrow> 't sync_event" where
  "se_give s = s\<lparr>se_owner := None\<rparr>"

text \<open>\<open>notify_all\<close>: every suspended thread wakes.\<close>

definition se_notify_all :: "'t sync_event \<Rightarrow> 't sync_event" where
  "se_notify_all s = s\<lparr>se_pc := (\<lambda>u. case se_pc s u of Wait_blocked timed \<Rightarrow> Wait_woken timed | pc \<Rightarrow> pc)\<rparr>"

text \<open>What a call does once it has begun.\<close>

inductive se_work :: "'t sync_event \<Rightarrow> 't sync_event \<Rightarrow> bool" where
  set_lock: "se_pc s t = Set_lock \<Longrightarrow> se_owner s = None \<Longrightarrow> se_work s (se_goto t Set_flag (se_take t s))"
| set_flag: "se_pc s t = Set_flag \<Longrightarrow> se_work s (se_goto t Set_unlock (s\<lparr>se_flag := True\<rparr>))"
| set_unlock: "se_pc s t = Set_unlock \<Longrightarrow> se_work s (se_goto t Set_notify (se_give s))"
| set_notify: "se_pc s t = Set_notify \<Longrightarrow> se_work s (se_goto t (Rest None) (se_notify_all s))"
| clear_lock: "se_pc s t = Clear_lock \<Longrightarrow> se_owner s = None \<Longrightarrow> se_work s (se_goto t Clear_flag (se_take t s))"
| clear_flag: "se_pc s t = Clear_flag \<Longrightarrow> se_work s (se_goto t Clear_unlock (s\<lparr>se_flag := False\<rparr>))"
| clear_unlock: "se_pc s t = Clear_unlock \<Longrightarrow> se_work s (se_goto t (Rest None) (se_give s))"
| wait_lock: "se_pc s t = Wait_lock timed \<Longrightarrow> se_owner s = None \<Longrightarrow> se_work s (se_goto t (Wait_check timed) (se_take t s))"
| wait_ready: "se_pc s t = Wait_check timed \<Longrightarrow> se_flag s \<Longrightarrow> se_work s (se_goto t (Wait_leave True) s)"
| wait_suspend: "se_pc s t = Wait_check timed \<Longrightarrow> \<not> se_flag s \<Longrightarrow> se_work s (se_goto t (Wait_blocked timed) (se_give s))"
| wait_again: "se_pc s t = Wait_woken timed \<Longrightarrow> se_owner s = None \<Longrightarrow> se_work s (se_goto t (Wait_check timed) (se_take t s))"
| wait_over: "se_pc s t = Wait_expired \<Longrightarrow> se_owner s = None \<Longrightarrow> se_work s (se_goto t Wait_last (se_take t s))"
| wait_last: "se_pc s t = Wait_last \<Longrightarrow> se_work s (se_goto t (Wait_leave (se_flag s)) s)"
| wait_leave: "se_pc s t = Wait_leave r \<Longrightarrow> se_work s (se_goto t (Rest (Some r)) (se_give s))"

text \<open>What comes from outside: the calls, the end of the time, and waking for no reason.\<close>

inductive se_outside :: "'t sync_event \<Rightarrow> 't sync_event \<Rightarrow> bool" where
  call_set: "se_pc s t = Rest r \<Longrightarrow> se_outside s (se_goto t Set_lock s)"
| call_clear: "se_pc s t = Rest r \<Longrightarrow> se_outside s (se_goto t Clear_lock s)"
| call_wait: "se_pc s t = Rest r \<Longrightarrow> se_outside s (se_goto t (Wait_lock False) s)"
| call_wait_for: "se_pc s t = Rest r \<Longrightarrow> se_outside s (se_goto t (Wait_lock True) s)"
| expire: "se_pc s t = Wait_blocked True \<Longrightarrow> se_outside s (se_goto t Wait_expired s)"
| spurious: "se_pc s t = Wait_blocked timed \<Longrightarrow> se_outside s (se_goto t (Wait_woken timed) s)"

definition se_step :: "'t sync_event \<Rightarrow> 't sync_event \<Rightarrow> bool" where
  "se_step s s' \<longleftrightarrow> se_work s s' \<or> se_outside s s'"

definition se_init :: "'t sync_event \<Rightarrow> bool" where
  "se_init s \<longleftrightarrow> s = sync_event_new"

lemmas se_updates = se_goto_def se_take_def se_give_def se_notify_all_def

section \<open>The invariant\<close>

fun holds_mutex :: "se_pc \<Rightarrow> bool" where
  "holds_mutex Set_flag = True"
| "holds_mutex Set_unlock = True"
| "holds_mutex Clear_flag = True"
| "holds_mutex Clear_unlock = True"
| "holds_mutex (Wait_check timed) = True"
| "holds_mutex Wait_last = True"
| "holds_mutex (Wait_leave r) = True"
| "holds_mutex _ = False"

text \<open>The mutex excludes; a thread is suspended while the flag is set only if the notification is still to come; and a
  thread that is about to leave a wait with success has seen the flag, and it is still set.\<close>

definition se_inv :: "'t sync_event \<Rightarrow> bool" where
  "se_inv s \<longleftrightarrow> (\<forall>t. holds_mutex (se_pc s t) \<longleftrightarrow> se_owner s = Some t) \<and>
     (se_flag s \<longrightarrow> (\<forall>t timed. se_pc s t \<noteq> Wait_blocked timed) \<or> (\<exists>u. se_pc s u = Set_unlock \<or> se_pc s u = Set_notify)) \<and>
     (\<forall>t. se_pc s t = Wait_leave True \<longrightarrow> se_flag s) \<and> (\<forall>t. se_pc s t = Set_unlock \<longrightarrow> se_flag s) \<and> (\<forall>t. se_pc s t = Clear_unlock \<longrightarrow> \<not> se_flag s)"

lemma se_notify_pc: "(case pc of Wait_blocked timed \<Rightarrow> Wait_woken timed | pc \<Rightarrow> pc) = x \<longleftrightarrow>
    (case x of Wait_woken timed \<Rightarrow> pc = Wait_woken timed \<or> pc = Wait_blocked timed | Wait_blocked timed \<Rightarrow> False | _ \<Rightarrow> pc = x)"
  by (cases pc; cases x) auto

lemma holds_notify: "holds_mutex (case pc of Wait_blocked timed \<Rightarrow> Wait_woken timed | pc \<Rightarrow> pc) = holds_mutex pc"
  by (cases pc) auto


lemma se_inv_new: "se_init s \<Longrightarrow> se_inv s"
  by (simp add: se_init_def se_inv_def sync_event_new_def)

lemma se_invD:
  assumes "se_inv s"
  shows "holds_mutex (se_pc s t) \<Longrightarrow> se_owner s = Some t" "se_owner s = Some t \<Longrightarrow> holds_mutex (se_pc s t)"
    "se_flag s \<Longrightarrow> se_pc s t = Wait_blocked timed \<Longrightarrow> \<exists>u. se_pc s u = Set_unlock \<or> se_pc s u = Set_notify"
    "se_pc s t = Wait_leave True \<Longrightarrow> se_flag s"
  using assms unfolding se_inv_def by blast+

text \<open>A step that moves one thread: it keeps the invariant when it changes the flag only under the mutex and leaves no
  suspended thread behind without a notification to come.\<close>

lemma se_inv_move:
  assumes inv: "se_inv s" and pc: "se_pc s' = (se_pc s)(t := pc)"
    and own: "holds_mutex pc \<longleftrightarrow> se_owner s' = Some t" "\<And>u. u \<noteq> t \<Longrightarrow> se_owner s' = Some u \<longleftrightarrow> se_owner s = Some u"
    and flag: "se_flag s' = se_flag s \<or> se_owner s = Some t"
    and new: "pc = Wait_leave True \<Longrightarrow> se_flag s'" "pc = Set_unlock \<Longrightarrow> se_flag s'" "pc = Clear_unlock \<Longrightarrow> \<not> se_flag s'"
    and pending: "se_flag s' \<Longrightarrow> (\<forall>timed. pc \<noteq> Wait_blocked timed) \<and>
      (pc = Set_unlock \<or> pc = Set_notify \<or> se_flag s \<and> se_pc s t \<noteq> Set_unlock \<and> se_pc s t \<noteq> Set_notify)"
  shows "se_inv s'"
proof -
  have mutex: "holds_mutex (se_pc s u) \<longleftrightarrow> se_owner s = Some u" for u using inv by (simp add: se_inv_def)
  have same: "se_flag s' = se_flag s" if "u \<noteq> t" "holds_mutex (se_pc s u)" for u
    using flag mutex [of u] that by auto
  have rest: "se_pc s u = Wait_leave True \<Longrightarrow> se_flag s" "se_pc s u = Set_unlock \<Longrightarrow> se_flag s" "se_pc s u = Clear_unlock \<Longrightarrow> \<not> se_flag s" for u
    using inv unfolding se_inv_def by blast+
  have "holds_mutex (se_pc s' u) \<longleftrightarrow> se_owner s' = Some u" for u using pc own mutex by simp
  moreover have "se_pc s' u = Wait_leave True \<Longrightarrow> se_flag s'" for u using pc new(1) same [of u] rest(1) [of u] by (cases "u = t") auto
  moreover have "se_pc s' u = Set_unlock \<Longrightarrow> se_flag s'" for u using pc new(2) same [of u] rest(2) [of u] by (cases "u = t") auto
  moreover have "se_pc s' u = Clear_unlock \<Longrightarrow> \<not> se_flag s'" for u using pc new(3) same [of u] rest(3) [of u] by (cases "u = t") auto
  moreover have "(\<forall>u timed. se_pc s' u \<noteq> Wait_blocked timed) \<or> (\<exists>u. se_pc s' u = Set_unlock \<or> se_pc s' u = Set_notify)" if f: "se_flag s'"
  proof (cases "pc = Set_unlock \<or> pc = Set_notify")
    case False
    then have p: "\<forall>timed. pc \<noteq> Wait_blocked timed" "se_flag s" "se_pc s t \<noteq> Set_unlock" "se_pc s t \<noteq> Set_notify" using pending [OF f] by auto
    then consider "\<forall>u timed. se_pc s u \<noteq> Wait_blocked timed" | u where "se_pc s u = Set_unlock \<or> se_pc s u = Set_notify"
      using inv unfolding se_inv_def by blast
    then show ?thesis
    proof cases
      case 1
      then show ?thesis using pc p(1) by simp
    next
      case (2 u)
      then have "se_pc s' u = se_pc s u" using pc p by auto
      then show ?thesis using 2 by metis
    qed
  qed (use pc in auto)
  ultimately show ?thesis unfolding se_inv_def by blast
qed

lemma se_moves: "se_pc (se_goto t pc s) = (se_pc s)(t := pc)" "se_owner (se_goto t pc s) = se_owner s" "se_flag (se_goto t pc s) = se_flag s"
  "se_pc (se_take t s) = se_pc s" "se_owner (se_take t s) = Some t" "se_flag (se_take t s) = se_flag s"
  "se_pc (se_give s) = se_pc s" "se_owner (se_give s) = None" "se_flag (se_give s) = se_flag s"
  by (simp_all add: se_updates)

lemma se_outside_inv:
  assumes "se_outside s s'" "se_inv s"
  shows "se_inv s'"
proof -
  have mutex: "holds_mutex (se_pc s u) \<longleftrightarrow> se_owner s = Some u" for u using assms(2) by (simp add: se_inv_def)
  from assms(1) show ?thesis
  proof cases
    case (call_set t r)
    then show ?thesis using mutex [of t] by (intro se_inv_move [OF assms(2), where t = t and pc = Set_lock]) (auto simp: se_moves)
  next
    case (call_clear t r)
    then show ?thesis using mutex [of t] by (intro se_inv_move [OF assms(2), where t = t and pc = Clear_lock]) (auto simp: se_moves)
  next
    case (call_wait t r)
    then show ?thesis using mutex [of t] by (intro se_inv_move [OF assms(2), where t = t and pc = "Wait_lock False"]) (auto simp: se_moves)
  next
    case (call_wait_for t r)
    then show ?thesis using mutex [of t] by (intro se_inv_move [OF assms(2), where t = t and pc = "Wait_lock True"]) (auto simp: se_moves)
  next
    case (expire t)
    then show ?thesis using mutex [of t] by (intro se_inv_move [OF assms(2), where t = t and pc = Wait_expired]) (auto simp: se_moves)
  next
    case (spurious t timed)
    then show ?thesis using mutex [of t] by (intro se_inv_move [OF assms(2), where t = t and pc = "Wait_woken timed"]) (auto simp: se_moves)
  qed
qed

lemma se_notify_inv:
  assumes "se_pc s t = Set_notify" "se_inv s"
  shows "se_inv (se_goto t (Rest None) (se_notify_all s))"
proof -
  let ?s = "se_goto t (Rest None) (se_notify_all s)"
  have mutex: "holds_mutex (se_pc s u) \<longleftrightarrow> se_owner s = Some u" for u using assms(2) by (simp add: se_inv_def)
  have "holds_mutex (se_pc ?s u) \<longleftrightarrow> se_owner ?s = Some u" for u
    using assms(1) mutex [of u] mutex [of t] by (simp add: se_updates holds_notify)
  moreover have "se_pc ?s u \<noteq> Wait_blocked timed" for u timed by (simp add: se_updates se_notify_pc)
  moreover have "se_pc ?s u = pc \<Longrightarrow> se_pc s u = pc" if "pc \<in> {Wait_leave True, Set_unlock, Clear_unlock}" for u pc
    using that by (auto simp: se_updates se_notify_pc split: if_splits)
  moreover have "se_flag ?s = se_flag s" by (simp add: se_updates)
  ultimately show ?thesis using assms(2) unfolding se_inv_def by blast
qed

lemma se_work_inv:
  assumes "se_work s s'" "se_inv s"
  shows "se_inv s'"
proof -
  have mutex: "holds_mutex (se_pc s u) \<longleftrightarrow> se_owner s = Some u" for u using assms(2) by (simp add: se_inv_def)
  have seen: "se_pc s u = Set_unlock \<Longrightarrow> se_flag s" "se_pc s u = Wait_leave True \<Longrightarrow> se_flag s" for u
    using assms(2) unfolding se_inv_def by blast+
  from assms(1) show ?thesis
  proof cases
    case (set_notify t)
    then show ?thesis using se_notify_inv [OF _ assms(2)] by simp
  next
    case (set_lock t)
    then show ?thesis using mutex [of t] by (intro se_inv_move [OF assms(2), where t = t and pc = Set_flag]) (auto simp: se_moves)
  next
    case (set_flag t)
    then show ?thesis using mutex [of t] by (intro se_inv_move [OF assms(2), where t = t and pc = Set_unlock]) (auto simp: se_moves)
  next
    case (set_unlock t)
    then show ?thesis using mutex [of t] by (intro se_inv_move [OF assms(2), where t = t and pc = Set_notify]) (auto simp: se_moves)
  next
    case (clear_lock t)
    then show ?thesis using mutex [of t] by (intro se_inv_move [OF assms(2), where t = t and pc = Clear_flag]) (auto simp: se_moves)
  next
    case (clear_flag t)
    then show ?thesis using mutex [of t] by (intro se_inv_move [OF assms(2), where t = t and pc = Clear_unlock]) (auto simp: se_moves)
  next
    case (clear_unlock t)
    then show ?thesis using mutex [of t] by (intro se_inv_move [OF assms(2), where t = t and pc = "Rest None"]) (auto simp: se_moves)
  next
    case (wait_lock t timed)
    then show ?thesis using mutex [of t] by (intro se_inv_move [OF assms(2), where t = t and pc = "Wait_check timed"]) (auto simp: se_moves)
  next
    case (wait_ready t timed)
    then show ?thesis using mutex [of t] by (intro se_inv_move [OF assms(2), where t = t and pc = "Wait_leave True"]) (auto simp: se_moves)
  next
    case (wait_suspend t timed)
    then show ?thesis using mutex [of t] by (intro se_inv_move [OF assms(2), where t = t and pc = "Wait_blocked timed"]) (auto simp: se_moves)
  next
    case (wait_again t timed)
    then show ?thesis using mutex [of t] by (intro se_inv_move [OF assms(2), where t = t and pc = "Wait_check timed"]) (auto simp: se_moves)
  next
    case (wait_over t)
    then show ?thesis using mutex [of t] by (intro se_inv_move [OF assms(2), where t = t and pc = Wait_last]) (auto simp: se_moves)
  next
    case (wait_last t)
    then show ?thesis using mutex [of t] by (intro se_inv_move [OF assms(2), where t = t and pc = "Wait_leave (se_flag s)"]) (auto simp: se_moves)
  next
    case (wait_leave t r)
    then show ?thesis using mutex [of t] by (intro se_inv_move [OF assms(2), where t = t and pc = "Rest (Some r)"]) (auto simp: se_moves)
  qed
qed

interpretation sync_event: invariant_of se_init se_step se_inv
  by unfold_locales (auto simp: se_step_def intro: se_inv_new se_work_inv se_outside_inv)

section \<open>No wait is forgotten\<close>

text \<open>When nothing is left to do but what comes from outside, every thread is at rest, or it is suspended in a wait and
  the flag is not set: no wake-up is lost although \<open>set\<close> notifies after it has given the mutex back, and no thread waits
  for the mutex for ever.\<close>

theorem sync_event_quiescent:
  assumes "reachable se_init se_step s" "\<And>s'. \<not> se_work s s'"
  shows "(\<exists>r. se_pc s t = Rest r) \<or> (\<exists>timed. se_pc s t = Wait_blocked timed) \<and> \<not> se_flag s"
proof -
  have inv: "se_inv s" using sync_event.holds [OF assms(1)] .
  have free: "\<not> holds_mutex (se_pc s u)" for u
  proof
    assume "holds_mutex (se_pc s u)"
    then have "\<exists>s'. se_work s s'"
      using set_flag [of s u] set_unlock [of s u] clear_flag [of s u] clear_unlock [of s u] wait_ready [of s u] wait_suspend [of s u]
        wait_last [of s u] wait_leave [of s u] by (cases "se_pc s u") auto
    with assms(2) show False by blast
  qed
  then have none: "se_owner s = None" using inv by (cases "se_owner s") (auto simp: se_inv_def)
  have pc: "(\<exists>r. se_pc s u = Rest r) \<or> (\<exists>timed. se_pc s u = Wait_blocked timed)" for u
  proof -
    have "\<exists>s'. se_work s s'" if "se_pc s u \<in> {Set_lock, Set_notify, Clear_lock, Wait_expired}"
      using that none set_lock [of s u] set_notify [of s u] clear_lock [of s u] wait_over [of s u] by auto
    moreover have "\<exists>s'. se_work s s'" if "se_pc s u = Wait_lock timed \<or> se_pc s u = Wait_woken timed" for timed
      using that none wait_lock [of s u] wait_again [of s u] by auto
    ultimately show ?thesis using assms(2) free [of u] by (cases "se_pc s u") auto
  qed
  have "\<not> se_flag s" if "se_pc s t = Wait_blocked timed" for timed
  proof
    assume "se_flag s"
    from se_invD(3) [OF inv this that] obtain u where "se_pc s u = Set_unlock \<or> se_pc s u = Set_notify" by blast
    with pc [of u] show False by auto
  qed
  then show ?thesis using pc [of t] by blast
qed

text \<open>A thread that waits for an event that nobody sets.\<close>

lemma sync_event_quiescent_witness:
  "\<exists>s :: unit sync_event. reachable se_init se_step s \<and> (\<forall>s'. \<not> se_work s s') \<and> se_pc s () = Wait_blocked False \<and> \<not> se_flag s"
proof -
  let ?a = "sync_event_new :: unit sync_event"
  let ?b = "se_goto () (Wait_lock False) ?a"
  let ?c = "se_goto () (Wait_check False) (se_take () ?b)"
  let ?d = "se_goto () (Wait_blocked False) (se_give ?c)"
  have "se_outside ?a ?b" by (rule call_wait [where r = None]) (simp add: sync_event_new_def)
  moreover have "se_work ?b ?c" by (rule wait_lock) (simp_all add: se_moves sync_event_new_def)
  moreover have "se_work ?c ?d" by (rule wait_suspend) (simp_all add: se_moves sync_event_new_def)
  ultimately have r: "reachable se_init se_step ?d"
    by (metis nextstep start se_init_def se_step_def)
  have p: "se_pc ?d () = Wait_blocked False" by (simp add: se_moves)
  have n: "\<not> se_work ?d s'" for s'
  proof
    assume "se_work ?d s'"
    then show False by cases (simp_all add: se_moves)
  qed
  from sync_event_quiescent [OF r n, of "()"] p have "\<not> se_flag ?d" by simp
  with r n p show ?thesis by blast
qed

end
