(* ===== verification/Mallopt.thy ===== *)
theory Mallopt
  imports ToolOptions
begin

text \<open>
  The options of malloc\_bench: the list of \<open>-m\<close> (mallopt\_features.cpp), \<open>make_options\<close> (mallopt.cpp)
  and the calls of \<open>mallopt()\<close> that main makes of it (malloc\_bench.cpp).  The values of the names that
  \<open>malloc.h\<close> has are an argument; \<open>parse_mallopt_arg\<close> is compared with cutting the text at its commas.
\<close>

section \<open>One option\<close>

definition mallopt_names :: "string list" where
  "mallopt_names =
    [''M_ARENA_MAX'', ''M_ARENA_TEST'', ''M_MMAP_MAX'', ''M_MMAP_THRESHOLD'', ''M_MXFAST'', ''M_PERTURB'', ''M_TOP_PAD'',
     ''M_TRIM_THRESHOLD'', ''MALLOC_ARENA_CACHE_FREE_NOW'', ''MALLOC_ARENA_CACHE_MAXBLK'', ''MALLOC_ARENA_CACHE_MAXSZ'',
     ''MALLOC_ARENA_SIZE'', ''MALLOC_FREE_CHECK'', ''MALLOC_MAX_ALIGNMENT'', ''MALLOC_MEMORY_HOLD'', ''MALLOC_VERIFY'',
     ''MALLOC_VERIFY_ON'', ''M_GRANULARITY'']"

text \<open>\<open>sys n\<close> is the value of the macro \<open>n\<close> of the system, if it has it (\<open>HAVE_n\<close>).\<close>

definition mallopt_find :: "(string \<Rightarrow> int option) \<Rightarrow> string \<Rightarrow> int option" where
  "mallopt_find sys k = (if k \<in> set mallopt_names then sys k else None)"

definition is_space :: "char \<Rightarrow> bool" where
  "is_space c \<longleftrightarrow> c = CHR '' ''"

text \<open>\<open>find_last_not_of(' ') + 1\<close> among the first \<open>n\<close> characters.\<close>

fun last_not_space :: "string \<Rightarrow> nat \<Rightarrow> nat" where
  "last_not_space s 0 = 0"
| "last_not_space s (Suc n) = (if is_space (s ! n) then last_not_space s n else Suc n)"

definition trim :: "string \<Rightarrow> string" where
  "trim sv = (let sv = drop (min (scan is_space sv 0) (length sv)) sv in take (last_not_space sv (length sv)) sv)"

definition find_equals :: "string \<Rightarrow> nat option" where
  "find_equals s = (let i = scan (\<lambda>c. c \<noteq> CHR ''='') s 0 in if i < length s then Some i else None)"

type_synonym mallopt = "int \<times> int \<times> string"

definition parse_mallopt :: "(string \<Rightarrow> int option) \<Rightarrow> string \<Rightarrow> string + mallopt" where
  "parse_mallopt sys item = (case find_equals item of
     None \<Rightarrow> Inl ''Missing value''
   | Some sep \<Rightarrow>
       if sep = length item - 1 then Inl ''Value not provided''
       else
         let key = trim (substr 0 sep item) in
         if length key = 0 then Inl ''Key name empty''
         else
           let value_str = trim (drop (sep + 1) item) in
           if length value_str = 0 then Inl ''Value empty''
           else case from_chars True 32 value_str of (ptr, ec, value) \<Rightarrow>
             if ec \<noteq> None then Inl ''Value not a number''
             else case mallopt_find sys key of None \<Rightarrow> Inl ''Unknown key'' | Some k \<Rightarrow> Inr (k, value, key))"

section \<open>The list\<close>

text \<open>The length that \<open>substr\<close> is given is \<open>last\<close>, the index of the comma, as in the code.  The result has the
  text that is printed, if any, and the options.\<close>

function mallopt_loop :: "(string \<Rightarrow> int option) \<Rightarrow> string \<Rightarrow> nat \<Rightarrow> mallopt list \<Rightarrow> string option \<times> mallopt list" where
  "mallopt_loop sys arg start out =
     (case find_comma arg start of
        None \<Rightarrow> (let item = drop start arg in case parse_mallopt sys item of
            Inl e \<Rightarrow> (Some (''Invalid option -m'' @ item @ '' ('' @ e @ '')''), [])
          | Inr opt \<Rightarrow> (None, out @ [opt]))
      | Some nxt \<Rightarrow> (let item = substr start nxt arg in case parse_mallopt sys item of
            Inl e \<Rightarrow> (Some (''Invalid option -m'' @ item @ '' ('' @ e @ '')''), [])
          | Inr opt \<Rightarrow> mallopt_loop sys arg (nxt + 1) (out @ [opt])))"
  by auto
termination by (relation "measure (\<lambda>(sys, arg, start, out). Suc (length arg) - start)") (auto dest!: find_comma_SomeD)

declare mallopt_loop.simps [simp del]

definition parse_mallopt_arg :: "(string \<Rightarrow> int option) \<Rightarrow> string \<Rightarrow> string option \<times> mallopt list" where
  "parse_mallopt_arg sys arg = mallopt_loop sys arg 0 []"

text \<open>The reference: each text between the commas is an option.\<close>

definition all_parsed :: "(string + 'a) list \<Rightarrow> 'a list" where
  "all_parsed rs = (if list_all is_ok rs then map projr rs else [])"

definition mallopts_between_commas :: "(string \<Rightarrow> int option) \<Rightarrow> string \<Rightarrow> mallopt list" where
  "mallopts_between_commas sys arg = all_parsed (map (parse_mallopt sys) (pieces None arg))"

section \<open>What an option reads of its text\<close>

lemma take_last_not_space: "n \<le> length s \<Longrightarrow> take (last_not_space s n) s = rev (dropWhile is_space (rev (take n s)))"
  by (induction n) (simp_all add: take_Suc_conv_app_nth)

lemma trim_eq: "trim sv = rev (dropWhile is_space (rev (dropWhile is_space sv)))"
  by (simp add: trim_def Let_def take_last_not_space min_absorb1 scan_le scan_rest)

lemma trim_Nil [simp]: "trim [] = []"
  by (simp add: trim_eq)

lemma trim_prefix: "dropWhile is_space s = trim s @ rev (takeWhile is_space (rev (dropWhile is_space s)))"
  unfolding trim_eq by (metis rev_append rev_rev_ident takeWhile_dropWhile_id)

lemma trim_keeps: "c \<in> set s \<Longrightarrow> \<not> is_space c \<Longrightarrow> c \<in> set (trim s)"
proof -
  have keep: "c \<in> set s \<Longrightarrow> \<not> is_space c \<Longrightarrow> c \<in> set (dropWhile is_space s)" for s
    by (metis UnE set_append set_takeWhileD takeWhile_dropWhile_id)
  show "c \<in> set s \<Longrightarrow> \<not> is_space c \<Longrightarrow> c \<in> set (trim s)"
    unfolding trim_eq using keep [of s] keep [of "rev (dropWhile is_space s)"] by simp
qed

lemma parse_mallopt_between:
  assumes "CHR ''='' \<notin> set k"
  shows "parse_mallopt sys (k @ CHR ''='' # v) =
    (if v = [] then Inl ''Value not provided''
     else if trim k = [] then Inl ''Key name empty''
     else if trim v = [] then Inl ''Value empty''
     else case from_chars True 32 (trim v) of (ptr, ec, value) \<Rightarrow>
       if ec \<noteq> None then Inl ''Value not a number''
       else case mallopt_find sys (trim k) of None \<Rightarrow> Inl ''Unknown key'' | Some i \<Rightarrow> Inr (i, value, trim k))"
proof -
  have "takeWhile (\<lambda>c. c \<noteq> CHR ''='') (k @ CHR ''='' # v) = k"
    using assms by (subst takeWhile_append2) auto
  then have "find_equals (k @ CHR ''='' # v) = Some (length k)"
    by (simp add: find_equals_def scan_drop)
  then show ?thesis by (simp add: parse_mallopt_def substr_def Let_def)
qed

lemma parse_mallopt_missing: "CHR ''='' \<notin> set s \<Longrightarrow> parse_mallopt sys s = Inl ''Missing value''"
proof -
  assume "CHR ''='' \<notin> set s"
  then have "scan (\<lambda>c. c \<noteq> CHR ''='') s 0 = length s" by (intro scan_all) auto
  then show ?thesis by (simp add: parse_mallopt_def find_equals_def)
qed

text \<open>A number ends where its digits end.\<close>

lemma from_chars_append:
  assumes "w \<noteq> []" "z = [] \<or> \<not> is_digit (hd z)"
  shows "from_chars sg bits (w @ z) = from_chars sg bits w"
proof -
  define neg where "neg = (sg \<and> hd w = CHR ''-'')"
  define i where "i = (if neg then 1 else 0 :: nat)"
  have i: "i \<le> length w" using assms(1) by (cases w) (auto simp: i_def)
  have t: "takeWhile is_digit (drop i (w @ z)) = takeWhile is_digit (drop i w)"
    using i assms(2) by (cases z) (auto simp: takeWhile_append takeWhile_eq_all_conv [THEN iffD2])
  then have s: "scan is_digit (w @ z) i = scan is_digit w i" by (simp add: scan_drop)
  have k: "take (scan is_digit w i - i) (drop i (w @ z)) = take (scan is_digit w i - i) (drop i w)"
    using scan_slice [of is_digit "w @ z" i] scan_slice [of is_digit w i] by (simp only: s t)
  have "(sg \<and> w @ z \<noteq> [] \<and> hd (w @ z) = CHR ''-'') = neg" "(sg \<and> w \<noteq> [] \<and> hd w = CHR ''-'') = neg"
    using assms(1) by (simp_all add: neg_def)
  then show ?thesis unfolding from_chars_def by (simp only: i_def [symmetric] Let_def s k)
qed

lemma from_chars_not_number: "from_chars sg bits (c # z) = (0, Some Invalid_argument, 0)" if "\<not> is_digit c" "c \<noteq> CHR ''-''"
proof -
  have "scan is_digit (c # z) 0 = 0" using that by (subst scan.simps) simp
  then show ?thesis using that by (simp add: from_chars_def)
qed

text \<open>A key with a comma is no name of an option.\<close>

lemma comma_no_name: "CHR '','' \<in> set k \<Longrightarrow> mallopt_find sys k = None"
proof -
  have "list_all (\<lambda>n. CHR '','' \<notin> set n) mallopt_names" by code_simp
  then show "CHR '','' \<in> set k \<Longrightarrow> mallopt_find sys k = None"
    by (auto simp: mallopt_find_def list_all_iff)
qed

text \<open>So the text behind the comma does not change what is read before it.\<close>

definition same_result :: "'e + 'a \<Rightarrow> 'e + 'a \<Rightarrow> bool" where
  "same_result r q \<longleftrightarrow> (if is_ok q then r = q else \<not> is_ok r)"

lemma same_result_refl [simp]: "same_result r r"
  by (simp add: same_result_def)

lemma trim_before_comma:
  assumes "CHR '','' \<notin> set v"
  obtains (blank) z where "trim v = []" "trim (v @ CHR '','' # y) = CHR '','' # z"
    | (some) z where "trim v \<noteq> []" "trim (v @ CHR '','' # y) = trim v @ z" "\<not> is_digit (hd z)"
proof (cases "trim v = []")
  case True
  then have "dropWhile is_space v = []"
    using trim_prefix [of v] by (metis (no_types) append_Nil dropWhile_eq_Nil_conv rev_is_Nil_conv set_rev set_takeWhileD takeWhile_eq_all_conv hd_dropWhile list.set_sel(1))
  then have "dropWhile is_space (v @ CHR '','' # y) = CHR '','' # y"
    by (simp add: dropWhile_append is_space_def)
  then have "trim (v @ CHR '','' # y) = CHR '','' # rev (dropWhile is_space (rev y))"
    by (simp add: trim_eq dropWhile_append is_space_def)
  with True blank show thesis by blast
next
  case False
  define b where "b = rev (takeWhile is_space (rev (dropWhile is_space v)))"
  have d: "dropWhile is_space v = trim v @ b" unfolding b_def by (rule trim_prefix)
  have b: "\<forall>c \<in> set b. is_space c" by (auto simp: b_def dest: set_takeWhileD)
  have n: "dropWhile is_space v \<noteq> []" using d False by simp
  then have "dropWhile is_space (v @ CHR '','' # y) = trim v @ b @ CHR '','' # y"
    by (simp add: dropWhile_append d [symmetric] dropWhile_eq_Nil_conv [symmetric] del: dropWhile_eq_Nil_conv)
  then have "trim (v @ CHR '','' # y) = trim v @ b @ CHR '','' # rev (dropWhile is_space (rev y))"
    by (simp add: trim_eq [of "v @ _"] dropWhile_append is_space_def)
  moreover have "\<not> is_digit (hd (b @ CHR '','' # z))" for z
    using b by (cases b) (auto simp: is_space_def is_digit_def)
  ultimately show thesis using False some by blast
qed

lemma parse_mallopt_behind_comma:
  assumes "CHR '','' \<notin> set x"
  shows "same_result (parse_mallopt sys (x @ CHR '','' # y)) (parse_mallopt sys x)"
proof (cases "CHR ''='' \<in> set x")
  case True
  then obtain k v where x: "x = k @ CHR ''='' # v" "CHR ''='' \<notin> set k" by (meson split_list_first)
  then have "CHR '','' \<notin> set v" using assms by simp
  then show ?thesis
  proof (cases rule: trim_before_comma [where y = y])
    case (blank z)
    then show ?thesis using x
      by (cases "v = []") (simp_all add: parse_mallopt_between same_result_def from_chars_not_number is_digit_def)
  next
    case (some z)
    have "v \<noteq> []" using some(1) by auto
    then show ?thesis using x some
      by (simp add: parse_mallopt_between from_chars_append)
  qed
next
  case False
  show ?thesis
  proof (cases "CHR ''='' \<in> set y")
    case True
    then obtain k v where y: "y = k @ CHR ''='' # v" "CHR ''='' \<notin> set k" by (meson split_list_first)
    have "CHR '','' \<in> set (trim (x @ CHR '','' # k))" by (rule trim_keeps) (simp_all add: is_space_def)
    then have "mallopt_find sys (trim (x @ CHR '','' # k)) = None" by (rule comma_no_name)
    moreover have "CHR ''='' \<notin> set (x @ CHR '','' # k)" using False y by simp
    ultimately have "\<not> is_ok (parse_mallopt sys ((x @ CHR '','' # k) @ CHR ''='' # v))"
      by (subst parse_mallopt_between) (simp_all split: prod.split)
    then show ?thesis using False y by (simp add: parse_mallopt_missing same_result_def)
  qed (use False in \<open>simp_all add: parse_mallopt_missing\<close>)
qed

section \<open>The whole text\<close>

lemma mallopt_loop_pieces:
  "start \<le> length arg \<Longrightarrow> snd (mallopt_loop sys arg start out) =
    (let rs = map (parse_mallopt sys) (pieces None (drop start arg)) in if list_all is_ok rs then out @ map projr rs else [])"
proof (induction sys arg start out rule: mallopt_loop.induct)
  case (1 sys arg start out)
  show ?case
  proof (cases "CHR '','' \<in> set (drop start arg)")
    case False
    then show ?thesis using 1(2)
      by (subst mallopt_loop.simps, subst pieces.simps) (simp add: find_comma_drop Let_def split: sum.split)
  next
    case True
    define x where "x = takeWhile (\<lambda>c. c \<noteq> CHR '','') (drop start arg)"
    note cut = comma_cut [OF 1(2) True, folded x_def]
    have f: "find_comma arg start = Some (start + length x)"
      using True by (simp add: find_comma_drop [OF 1(2)] x_def)
    have "drop start arg = x @ dropWhile (\<lambda>c. c \<noteq> CHR '','') (drop start arg)" by (simp add: x_def)
    moreover have "dropWhile (\<lambda>c. c \<noteq> CHR '','') (drop start arg) \<noteq> []" using True by auto
    moreover have "hd (dropWhile (\<lambda>c. c \<noteq> CHR '','') (drop start arg)) = CHR '',''"
      using calculation(2) hd_dropWhile by blast
    ultimately obtain r where r: "drop start arg = x @ CHR '','' # r" by (metis list.collapse)
    have item: "\<exists>y. substr start (start + length x) arg = x @ y \<and> (y = [] \<or> hd y = CHR '','')"
      by (auto simp: substr_def r take_Cons split: nat.split)
    have nc: "CHR '','' \<notin> set x" by (auto simp: x_def dest: set_takeWhileD)
    have same: "same_result (parse_mallopt sys (substr start (start + length x) arg)) (parse_mallopt sys x)"
      using item parse_mallopt_behind_comma [OF nc] by (metis append_Nil2 list.collapse same_result_refl)
    have p: "pieces None (drop start arg) = x # pieces None (drop (Suc (start + length x)) arg)"
      using True by (subst pieces.simps) (simp add: cut x_def [symmetric])
    show ?thesis
    proof (cases "parse_mallopt sys x")
      case (Inl e)
      with same obtain e' where "parse_mallopt sys (substr start (start + length x) arg) = Inl e'"
        by (auto simp: same_result_def is_ok_def split: sum.splits)
      with Inl show ?thesis by (subst mallopt_loop.simps) (simp add: f p Let_def)
    next
      case (Inr opt)
      with same have eq: "parse_mallopt sys (substr start (start + length x) arg) = Inr opt" by (simp add: same_result_def)
      have "Suc (start + length x) \<le> length arg" using cut(3) by simp
      then show ?thesis using 1(1) [OF f refl eq] eq Inr by (subst mallopt_loop.simps) (simp add: f p Let_def)
    qed
  qed
qed

lemma parse_mallopt_arg_pieces: "snd (parse_mallopt_arg sys arg) = all_parsed (map (parse_mallopt sys) (pieces None arg))"
  unfolding parse_mallopt_arg_def by (subst mallopt_loop_pieces) (simp_all add: all_parsed_def Let_def)

text \<open>C31: parse_mallopt_arg accepts exactly the texts in which every option between two commas is one by
  itself, and gives the same parameters, values and names: that the option it passes on runs past its comma,
  as the length given to substr is the index of the comma, shows only in what it prints of a refused one.\<close>

theorem mallopt_arg_between_commas: "snd (parse_mallopt_arg sys arg) = mallopts_between_commas sys arg"
  by (simp add: parse_mallopt_arg_pieces mallopts_between_commas_def)

text \<open>What is accepted, and what a refusal prints.\<close>

abbreviation two_names :: "string \<Rightarrow> int option" where
  "two_names \<equiv> (\<lambda>n. if n = ''M_MXFAST'' then Some 1 else if n = ''M_TOP_PAD'' then Some (- 2) else None)"

lemma mallopt_number_with_rest: "parse_mallopt two_names '' M_TOP_PAD = 64KiB'' = Inr (- 2, 64, ''M_TOP_PAD'')"
  by code_simp

lemma mallopt_prints_past_comma:
  "parse_mallopt_arg two_names ''M_TOP_PAD=1,M_PAD=2,M_MXFAST=3'' = (Some ''Invalid option -mM_PAD=2,M_MXFAST=3 (Unknown key)'', [])"
  by code_simp

section \<open>The options of the benchmark\<close>

record malloc_options =
  ma_mlock_all :: bool
  ma_max :: "32 word"
  ma_mallopts :: "mallopt list"

definition malloc_options_new :: malloc_options where
  "malloc_options_new = \<lparr>ma_mlock_all = False, ma_max = push_bit 30 1, ma_mallopts = []\<rparr>"

text \<open>\<open>hm\<close> and \<open>hl\<close> are \<open>HAVE_MALLOPT\<close> and \<open>HAVE_MLOCKALL\<close>; without \<open>mallopt\<close> the list is the one of mallopt\_none.cpp.\<close>

definition malloc_optstr :: "bool \<Rightarrow> bool \<Rightarrow> string" where
  "malloc_optstr hm hl = (if hm then ''m:'' else []) @ (if hl then ''L'' else []) @ ''M:?''"

definition have_mallopt_arg :: "bool \<Rightarrow> (string \<Rightarrow> int option) \<Rightarrow> string \<Rightarrow> mallopt list" where
  "have_mallopt_arg hm sys arg = (if hm then snd (parse_mallopt_arg sys arg) else [])"

definition malloc_handler :: "bool \<Rightarrow> (string \<Rightarrow> int option) \<Rightarrow> opt \<Rightarrow> malloc_options parsing \<Rightarrow> stop + malloc_options parsing" where
  "malloc_handler hm sys o1 s =
     (if get_option o1 = CHR ''m'' then operand o1 (\<lambda>arg.
        let ms = have_mallopt_arg hm sys arg; s = (if ms = [] then s\<lparr>ps_err := 1\<rparr> else s) in
        Inr (s\<lparr>ps_opts := (ps_opts s)\<lparr>ma_mallopts := ma_mallopts (ps_opts s) @ ms\<rparr>\<rparr>))
      else if get_option o1 = CHR ''L'' then changed (\<lambda>p. p\<lparr>ma_mlock_all := True\<rparr>) s
      else if get_option o1 = CHR ''M'' then operand o1 (\<lambda>arg. case parse_int False 32 arg of
          None \<Rightarrow> failed s
        | Some n \<Rightarrow> changed (\<lambda>p. p\<lparr>ma_max := of_int n\<rparr>) s)
      else if get_option o1 = CHR ''?'' then helped s
      else failed s)"

definition malloc_make_options :: "bool \<Rightarrow> bool \<Rightarrow> (string \<Rightarrow> int option) \<Rightarrow> string option list \<Rightarrow> stop + malloc_options" where
  "malloc_make_options hm hl sys argv = walk_options (malloc_optstr hm hl) (malloc_handler hm sys) (\<lambda>_. failed) (\<lambda>opts. parsing_finish) argv (parsing_new malloc_options_new)"

definition malloc_map :: "bool \<Rightarrow> bool \<Rightarrow> option_map" where
  "malloc_map hm hl = (\<lambda>c. if c = CHR ''m'' \<and> hm \<or> c = CHR ''M'' then Arg_required
     else if c = CHR ''L'' \<and> hl \<or> c = CHR ''?'' then Single_opt else Not_defined)"

lemma malloc_optstring: "build_option_map (malloc_optstr hm hl) = Inr (malloc_map hm hl)"
  by (cases hm; cases hl; unfold malloc_optstr_def; rule trans, simp add: build_map_simps)
    (auto simp: malloc_map_def fun_eq_iff)

definition mallopt_ok :: "(string \<Rightarrow> int option) \<Rightarrow> mallopt \<Rightarrow> bool" where
  "mallopt_ok sys = (\<lambda>(k, v, n). n \<in> set mallopt_names \<and> sys n = Some k \<and> - (2 ^ 31) \<le> v \<and> v < 2 ^ 31)"

lemma parse_mallopt_ok: "parse_mallopt sys item = Inr m \<Longrightarrow> mallopt_ok sys m"
proof -
  have "from_chars True 32 s = (p, None, v) \<Longrightarrow> - (2 ^ 31) \<le> v \<and> v < 2 ^ 31" for s p v
    by (auto simp: from_chars_def Let_def int_lo_def int_hi_def split: if_splits)
  then show "parse_mallopt sys item = Inr m \<Longrightarrow> mallopt_ok sys m"
    by (fastforce simp: parse_mallopt_def mallopt_find_def mallopt_ok_def Let_def split: option.splits if_splits prod.splits)
qed

lemma all_parsed_cases: "x \<in> set (all_parsed rs) \<Longrightarrow> Inr x \<in> set rs"
  by (auto simp: all_parsed_def list_all_iff is_ok_def split: if_splits sum.splits) (metis sum.sel(2) sumE)

lemma parse_mallopt_arg_ok: "\<forall>m \<in> set (snd (parse_mallopt_arg sys arg)). mallopt_ok sys m"
  by (force simp: parse_mallopt_arg_pieces dest!: all_parsed_cases intro: parse_mallopt_ok [OF sym])

interpretation malloc: collecting_handler "malloc_optstr hm hl" "malloc_map hm hl" "malloc_handler hm sys"
    "\<lambda>o1. \<forall>m \<in> set (ma_mallopts o1). mallopt_ok sys m" for hm hl sys
  by unfold_locales (auto simp: malloc_optstring malloc_handler_def malloc_map_def operand_def Let_def have_mallopt_arg_def
      changed_def unless_err_def helped_def failed_def parse_mallopt_arg_ok split: if_splits option.splits)

text \<open>Whatever the command line, the benchmark exits or calls mallopt only with parameters that the system
  has, under the names they have in it, and with values that are read from an integer of 32 bits.\<close>

lemma malloc_options_ok: "exits_or (\<lambda>o1. \<forall>m \<in> set (ma_mallopts o1). mallopt_ok sys m) (malloc_make_options hm hl sys argv)"
  unfolding malloc_make_options_def
  by (rule malloc.collected) (simp_all add: malloc_options_new_def parsing_finish_keeps)

section \<open>The calls of main\<close>

text \<open>The text for the result of one call: \<open>qnx\<close> is \<open>__QNX__\<close>, \<open>arena\<close> the value of \<open>MALLOC_ARENA_SIZE\<close>.\<close>

definition mallopt_text :: "(int \<Rightarrow> string) \<Rightarrow> bool \<Rightarrow> int \<Rightarrow> int \<Rightarrow> int \<Rightarrow> mallopt \<Rightarrow> string option" where
  "mallopt_text strerror qnx arena result errno = (\<lambda>(k, v, n).
     let call = ''mallopt('' @ n @ '', '' @ int_to_string v @ '')'';
         returns = call @ '' returns '' @ int_to_string result @ ''. Continuing.'';
         is_set = call @ '' is set.'' in
     if qnx then
       let result = (if k = arena then 0 else result) in
       if result = - 1 then (if errno \<noteq> 0 then Some (perror strerror errno) else None)
       else if result \<noteq> 0 then Some returns else Some is_set
     else if result \<noteq> 1 then Some returns else Some is_set)"

fun set_mallopts :: "(int \<Rightarrow> string) \<Rightarrow> bool \<Rightarrow> int \<Rightarrow> (nat \<Rightarrow> int \<Rightarrow> int \<Rightarrow> int \<times> int) \<Rightarrow> nat \<Rightarrow> mallopt list \<Rightarrow> string option list" where
  "set_mallopts strerror qnx arena mallopt i [] = []"
| "set_mallopts strerror qnx arena mallopt i ((k, v, n) # ms) = (case mallopt i k v of (result, errno) \<Rightarrow>
     mallopt_text strerror qnx arena result errno (k, v, n) # set_mallopts strerror qnx arena mallopt (i + 1) ms)"

text \<open>main up to the benchmarks: the texts, or the exit code.  \<open>mlockall\<close> is the error of the call, if any.\<close>

definition malloc_main :: "(int \<Rightarrow> string) \<Rightarrow> bool \<Rightarrow> int \<Rightarrow> bool \<Rightarrow> bool \<Rightarrow> (string \<Rightarrow> int option) \<Rightarrow> (nat \<Rightarrow> int \<Rightarrow> int \<Rightarrow> int \<times> int) \<Rightarrow> int option \<Rightarrow>
    string option list \<Rightarrow> stop + string option list" where
  "malloc_main strerror qnx arena hm hl sys mallopt mlockall argv = (case malloc_make_options hm hl sys argv of
     Inl e \<Rightarrow> Inl e
   | Inr o1 \<Rightarrow>
       let locked = (if ma_mlock_all o1 then map_option (\<lambda>_. ()) mlockall else None) in
       if locked \<noteq> None then Inl (Exit 1)
       else Inr ((if ma_mlock_all o1 then [Some ''Memory Locking ENABLED''] else []) @
         (if hm then set_mallopts strerror qnx arena mallopt 0 (ma_mallopts o1) else [])))"

lemma malloc_main_run:
  "malloc_main (\<lambda>_. ''e'') False 0 True True two_names (\<lambda>i k v. (if i = 0 then 1 else 0, 0)) None
     [Some ''malloc_bench'', Some ''-LmM_TOP_PAD = 64KiB,M_MXFAST=2''] =
   Inr [Some ''Memory Locking ENABLED'', Some ''mallopt(M_TOP_PAD, 64) is set.'', Some ''mallopt(M_MXFAST, 2) returns 0. Continuing.'']"
  by code_simp

end
