(* ===== verification/BumpAlloc.thy ===== *)
theory BumpAlloc
  imports Prelude
begin

text \<open>
  The operators new and delete of malloc\_bench (allocator.cpp): memory is cut from the front of a static
  array and never given back.  Addresses and sizes are words of 64 bits and wrap as \<open>size_t\<close> does.
\<close>

section \<open>The operators\<close>

record bump =
  offset :: "64 word"
  printed :: "string list"

definition bump_new :: bump where
  "bump_new = \<lparr>offset = 0, printed = []\<rparr>"

definition localmemsize :: "64 word" where
  "localmemsize = 8 * 1024 * 1024"

definition next_align :: "64 word \<Rightarrow> 64 word \<Rightarrow> 64 word" where
  "next_align off al = (off + al - 1) AND (NOT al + 1)"

text \<open>\<open>mem\<close> is the address of the array, \<open>ndebug\<close> the macro.  A pointer is an address, \<open>None\<close> the null pointer.\<close>

definition alloc :: "bool \<Rightarrow> 64 word \<Rightarrow> 64 word \<Rightarrow> 64 word \<Rightarrow> bump \<Rightarrow> 64 word option \<times> bump" where
  "alloc ndebug mem sz al b =
     (let p = next_align (offset b) al; b = b\<lparr>offset := p + sz\<rparr> in
      if offset b > localmemsize then (None, b\<lparr>printed := printed b @ [''Out of memory'']\<rparr>)
      else
        let b = (if \<not> ndebug \<and> p AND NOT 0xFFFF \<noteq> offset b AND NOT 0xFFFF
          then b\<lparr>printed := printed b @ [''Allocated: '' @ nat_to_string (unat (offset b)) @ '' bytes of a total '' @ nat_to_string (unat localmemsize)]\<rparr>
          else b)
        in (Some (mem + p), b))"

text \<open>\<open>sizeof(std::max_align_t)\<close> where pointers have 64 bits: a \<open>long long\<close> and a \<open>long double\<close> of 16 bytes each.\<close>

definition max_align_bytes :: "64 word" where
  "max_align_bytes = 32"

datatype alloc_call =
    New "64 word" | New_nothrow "64 word" | New_array "64 word" | New_array_nothrow "64 word"
  | New_aligned "64 word" "64 word" | New_aligned_nothrow "64 word" "64 word"
  | New_array_aligned "64 word" "64 word" | New_array_aligned_nothrow "64 word" "64 word"
  | Delete "64 word" \<comment> \<open>all the forms\<close>

datatype alloc_answer = Throws_bad_alloc | Gives "64 word option" | Nothing

definition new_or_throw :: "64 word option \<times> bump \<Rightarrow> alloc_answer \<times> bump" where
  "new_or_throw r = (case r of (p, b) \<Rightarrow> (case p of None \<Rightarrow> (Throws_bad_alloc, b) | Some _ \<Rightarrow> (Gives p, b)))"

definition new_or_null :: "64 word option \<times> bump \<Rightarrow> alloc_answer \<times> bump" where
  "new_or_null r = (case r of (p, b) \<Rightarrow> (Gives p, b))"

fun alloc_step :: "bool \<Rightarrow> 64 word \<Rightarrow> alloc_call \<Rightarrow> bump \<Rightarrow> alloc_answer \<times> bump" where
  "alloc_step nd mem (New_nothrow sz) b = new_or_null (alloc nd mem sz max_align_bytes b)"
| "alloc_step nd mem (New sz) b = new_or_throw (alloc nd mem sz max_align_bytes b)"
| "alloc_step nd mem (New_array_nothrow sz) b = new_or_null (alloc nd mem sz max_align_bytes b)"
| "alloc_step nd mem (New_array sz) b = new_or_throw (alloc nd mem sz max_align_bytes b)"
| "alloc_step nd mem (New_aligned_nothrow sz al) b = new_or_null (alloc nd mem sz al b)"
| "alloc_step nd mem (New_aligned sz al) b = new_or_throw (alloc nd mem sz al b)"
| "alloc_step nd mem (New_array_aligned_nothrow sz al) b = new_or_null (alloc nd mem sz al b)"
| "alloc_step nd mem (New_array_aligned sz al) b = new_or_throw (alloc nd mem sz al b)"
| "alloc_step nd mem (Delete p) b = (Nothing, b)"

definition get_allocated_localmem :: "bump \<Rightarrow> 64 word" where
  "get_allocated_localmem b = offset b"

fun alloc_run :: "bool \<Rightarrow> 64 word \<Rightarrow> alloc_call list \<Rightarrow> bump \<Rightarrow> (alloc_call \<times> alloc_answer) list \<times> bump" where
  "alloc_run nd mem [] b = ([], b)"
| "alloc_run nd mem (c # cs) b = (case alloc_step nd mem c b of (a, b) \<Rightarrow>
     case alloc_run nd mem cs b of (as, b) \<Rightarrow> ((c, a) # as, b))"

section \<open>What a request needs\<close>

fun asks :: "alloc_call \<Rightarrow> (64 word \<times> 64 word) option" where
  "asks (New sz) = Some (sz, max_align_bytes)"
| "asks (New_nothrow sz) = Some (sz, max_align_bytes)"
| "asks (New_array sz) = Some (sz, max_align_bytes)"
| "asks (New_array_nothrow sz) = Some (sz, max_align_bytes)"
| "asks (New_aligned sz al) = Some (sz, al)"
| "asks (New_aligned_nothrow sz al) = Some (sz, al)"
| "asks (New_array_aligned sz al) = Some (sz, al)"
| "asks (New_array_aligned_nothrow sz al) = Some (sz, al)"
| "asks (Delete p) = None"

definition aligned_call :: "alloc_call \<Rightarrow> bool" where
  "aligned_call c = (case asks c of None \<Rightarrow> True | Some (sz, al) \<Rightarrow> al \<in> (\<lambda>k. 2 ^ k) ` {..<64})"

definition need :: "alloc_call \<Rightarrow> nat" where
  "need c = (case asks c of None \<Rightarrow> 0 | Some (sz, al) \<Rightarrow> unat sz + unat al)"

text \<open>The pieces given: address and size.\<close>

fun piece :: "alloc_call \<times> alloc_answer \<Rightarrow> (64 word \<times> 64 word) option" where
  "piece (c, Gives (Some p)) = Some (p, case asks c of None \<Rightarrow> 0 | Some (sz, al) \<Rightarrow> sz)"
| "piece (c, a) = None"

definition given :: "(alloc_call \<times> alloc_answer) list \<Rightarrow> (64 word \<times> 64 word) list" where
  "given as = List.map_filter piece as"

definition before :: "64 word \<times> 64 word \<Rightarrow> 64 word \<times> 64 word \<Rightarrow> bool" where
  "before x y \<longleftrightarrow> unat (fst x) + unat (snd x) \<le> unat (fst y)"

definition inside_mem :: "64 word \<Rightarrow> 64 word \<times> 64 word \<Rightarrow> bool" where
  "inside_mem mem x \<longleftrightarrow> unat mem \<le> unat (fst x) \<and> unat (fst x) + unat (snd x) \<le> unat mem + unat localmemsize"

definition refused :: "alloc_call \<times> alloc_answer \<Rightarrow> bool" where
  "refused = (\<lambda>(c, a). asks c \<noteq> None \<longrightarrow> a = Throws_bad_alloc \<or> a = Gives None)"

section \<open>Alignment\<close>

lemma unat_and_minus: "unat (x AND - (2 ^ k) :: 64 word) = unat x - unat x mod 2 ^ k"
proof -
  have s: "(x AND mask k) + (x AND NOT (mask k)) = x"
  proof -
    have "(x AND mask k) + (x AND NOT (mask k)) = (x AND mask k) OR (x AND NOT (mask k))"
      by (rule disjunctive_add) (auto simp: bit_simps)
    also have "\<dots> = x" by (rule bit_eqI) (auto simp: bit_simps)
    finally show ?thesis .
  qed
  then have "x AND NOT (mask k) = x - (x AND mask k)" by (simp add: eq_diff_eq add.commute)
  moreover have "(x AND mask k) \<le> x" by (rule word_and_le2)
  ultimately have "unat (x AND NOT (mask k)) = unat x - unat (x AND mask k)"
    by (simp add: unat_sub)
  moreover have "unat (x AND mask k) = unat x mod 2 ^ k"
    by (simp flip: take_bit_eq_mask take_bit_eq_mod unsigned_take_bit_eq)
  ultimately show ?thesis by (simp add: minus_exp_eq_not_mask)
qed

lemma next_align_bounds:
  assumes "k < 64" "unat off + 2 ^ k \<le> 2 ^ 64"
  shows "unat off \<le> unat (next_align off (2 ^ k))" "unat (next_align off (2 ^ k)) < unat off + 2 ^ k"
    "2 ^ k dvd unat (next_align off (2 ^ k))"
proof -
  let ?x = "off + 2 ^ k - 1"
  have xm: "?x = off + mask k" by (simp add: mask_eq_exp_minus_1)
  have um: "unat (mask k :: 64 word) = 2 ^ k - 1"
  proof -
    have "uint (mask k :: 64 word) = mask k" using assms(1) by (subst uint_mask_eq) simp
    also have "\<dots> = int (2 ^ k - 1)" by (simp add: mask_eq_exp_minus_1 of_nat_diff)
    finally have "int (unat (mask k :: 64 word)) = int (2 ^ k - 1)" by (simp only: uint_nat)
    then show ?thesis by (simp only: of_nat_eq_iff)
  qed
  have x: "unat ?x = unat off + (2 ^ k - 1)"
    unfolding xm
    using assms(2) zero_less_power [of "2 :: nat" k] unfolding um [symmetric]
    by (intro unat_add_lem [THEN iffD1]) (simp add: um)
  have n: "next_align off (2 ^ k) = ?x AND - (2 ^ k)" by (simp add: next_align_def not_eq_complement)
  have m: "unat ?x - unat ?x mod 2 ^ k + unat ?x mod 2 ^ k = unat ?x" "unat ?x mod 2 ^ k < 2 ^ k" by simp_all
  show "unat off \<le> unat (next_align off (2 ^ k))" "unat (next_align off (2 ^ k)) < unat off + 2 ^ k"
    using m x unfolding n unat_and_minus by linarith+
  show "2 ^ k dvd unat (next_align off (2 ^ k))" unfolding n unat_and_minus by simp
qed

text \<open>A step that does not wrap: where its piece begins, and where the next one may.\<close>

lemma alloc_offset:
  "offset (snd (alloc nd mem sz al b)) = next_align (offset b) al + sz"
  "fst (alloc nd mem sz al b) = (if next_align (offset b) al + sz > localmemsize then None else Some (mem + next_align (offset b) al))"
  by (simp_all add: alloc_def Let_def)

lemma new_or_throw_simps: "snd (new_or_throw r) = snd r" "fst (new_or_throw r) = (if fst r = None then Throws_bad_alloc else Gives (fst r))"
  by (auto simp: new_or_throw_def split: prod.split option.split)

lemma new_or_null_simps: "snd (new_or_null r) = snd r" "fst (new_or_null r) = Gives (fst r)"
  by (simp_all add: new_or_null_def split: prod.split)

lemma alloc_step_asks:
  assumes "asks c = Some (sz, al)"
  shows "offset (snd (alloc_step nd mem c b)) = next_align (offset b) al + sz"
    "piece (c, fst (alloc_step nd mem c b)) =
      (if next_align (offset b) al + sz > localmemsize then None else Some (mem + next_align (offset b) al, sz))"
    "refused (c, fst (alloc_step nd mem c b)) \<longleftrightarrow> next_align (offset b) al + sz > localmemsize"
  using assms by (cases c; simp add: new_or_throw_simps new_or_null_simps alloc_offset refused_def)+

lemma alloc_step_Nothing:
  assumes "asks c = None"
  shows "alloc_step nd mem c b = (Nothing, b)"
  using assms by (cases c) simp_all

definition total_need :: "alloc_call list \<Rightarrow> nat" where
  "total_need cs = sum_list (map need cs)"

definition no_wrap :: "alloc_call list \<Rightarrow> bump \<Rightarrow> bool" where
  "no_wrap cs b \<longleftrightarrow> list_all aligned_call cs \<and> unat (offset b) + total_need cs < 2 ^ 64"

lemma unat_two_power: "k < 64 \<Longrightarrow> unat (2 ^ k :: 64 word) = 2 ^ k"
proof -
  assume "k < 64"
  then have "(2 :: nat) ^ k < 2 ^ 64" by (intro power_strict_increasing) auto
  then have "unat (of_nat (2 ^ k) :: 64 word) = 2 ^ k" by (simp only: unat_of_nat) simp
  then show ?thesis by simp
qed

lemma no_wrap_step:
  assumes "no_wrap (c # cs) b"
  shows "no_wrap cs (snd (alloc_step nd mem c b))" "unat (offset b) \<le> unat (offset (snd (alloc_step nd mem c b)))"
    "asks c = Some (sz, al) \<Longrightarrow> unat (offset b) \<le> unat (next_align (offset b) al) \<and> unat al dvd unat (next_align (offset b) al) \<and>
      unat (offset (snd (alloc_step nd mem c b))) = unat (next_align (offset b) al) + unat sz"
proof -
  have "unat (offset b) \<le> unat (next_align (offset b) al) \<and> unat al dvd unat (next_align (offset b) al) \<and>
      unat (offset (snd (alloc_step nd mem c b))) = unat (next_align (offset b) al) + unat sz \<and>
      unat (next_align (offset b) al) + unat sz \<le> unat (offset b) + need c"
    if a: "asks c = Some (sz, al)" for sz al
  proof -
    obtain k where k: "k < 64" "al = 2 ^ k" using assms a by (auto simp: no_wrap_def aligned_call_def)
    have n: "need c = unat sz + 2 ^ k" using a k by (simp add: need_def unat_two_power)
    then have le: "unat (offset b) + unat sz + 2 ^ k < 2 ^ 64" using assms by (simp add: no_wrap_def total_need_def)
    have o: "unat (offset b) + 2 ^ k \<le> 2 ^ 64" using le by linarith
    note nb = next_align_bounds [OF k(1) o]
    have "unat (next_align (offset b) (2 ^ k) + sz) = unat (next_align (offset b) (2 ^ k)) + unat sz"
      using nb(2) le by (intro unat_add_lem [THEN iffD1]) simp
    then show ?thesis using nb k n by (simp add: alloc_step_asks [OF a] unat_two_power)
  qed
  note all = this
  show "asks c = Some (sz, al) \<Longrightarrow> unat (offset b) \<le> unat (next_align (offset b) al) \<and> unat al dvd unat (next_align (offset b) al) \<and>
      unat (offset (snd (alloc_step nd mem c b))) = unat (next_align (offset b) al) + unat sz"
    using all by blast
  have "unat (offset b) \<le> unat (offset (snd (alloc_step nd mem c b))) \<and> unat (offset (snd (alloc_step nd mem c b))) \<le> unat (offset b) + need c"
  proof (cases "asks c")
    case None
    then show ?thesis by (simp add: alloc_step_Nothing)
  next
    case (Some q)
    then show ?thesis using all by (cases q) fastforce
  qed
  then show "no_wrap cs (snd (alloc_step nd mem c b))" "unat (offset b) \<le> unat (offset (snd (alloc_step nd mem c b)))"
    using assms by (auto simp: no_wrap_def total_need_def)
qed

section \<open>A run of the operators\<close>

definition placed_aligned :: "64 word \<Rightarrow> alloc_call \<times> alloc_answer \<Rightarrow> bool" where
  "placed_aligned mem = (\<lambda>(c, a). case asks c of None \<Rightarrow> True
     | Some (sz, al) \<Rightarrow> (case a of Gives (Some p) \<Rightarrow> unat mem \<le> unat p \<and> unat al dvd unat p - unat mem | _ \<Rightarrow> True))"

lemma given_Cons: "given (x # as) = (case piece x of None \<Rightarrow> given as | Some p \<Rightarrow> p # given as)"
  by (cases "piece x") (auto simp: given_def List.map_filter_def)

lemma given_Nil [simp]: "given [] = []"
  by (simp add: given_def List.map_filter_def)

text \<open>Where a given piece lies.\<close>

lemma alloc_step_given:
  assumes "no_wrap (c # cs) b" "unat mem + unat localmemsize < 2 ^ 64"
    "piece (c, fst (alloc_step nd mem c b)) = Some x"
  shows "inside_mem mem x" "unat mem + unat (offset b) \<le> unat (fst x)"
    "unat (fst x) + unat (snd x) = unat mem + unat (offset (snd (alloc_step nd mem c b)))"
    "placed_aligned mem (c, fst (alloc_step nd mem c b))"
proof -
  have "asks c \<noteq> None" by (rule notI) (use assms(3) in \<open>simp add: alloc_step_Nothing\<close>)
  then obtain sz al where a: "asks c = Some (sz, al)" by (cases "asks c") auto
  let ?p = "next_align (offset b) al"
  note st = alloc_step_asks [OF a, of nd mem b] no_wrap_step(3) [OF assms(1) a, of nd mem]
  have x: "x = (mem + ?p, sz)" and le: "\<not> ?p + sz > localmemsize"
    using assms(3) st(2) by (auto split: if_splits)
  have sum: "unat (?p + sz) = unat ?p + unat sz" using st(1,4) by simp
  then have bound: "unat ?p + unat sz \<le> unat localmemsize" using le by (simp add: word_less_nat_alt)
  then have "unat (mem + ?p) = unat mem + unat ?p"
    using assms(2) by (intro unat_add_lem [THEN iffD1]) simp
  then show "inside_mem mem x" "unat mem + unat (offset b) \<le> unat (fst x)"
    "unat (fst x) + unat (snd x) = unat mem + unat (offset (snd (alloc_step nd mem c b)))"
    and "placed_aligned mem (c, fst (alloc_step nd mem c b))"
    using x bound st(4) a assms(3) by (auto simp: inside_mem_def placed_aligned_def split: alloc_answer.split option.split)
qed

lemma alloc_run_given:
  assumes "unat mem + unat localmemsize < 2 ^ 64"
  shows "no_wrap cs b \<Longrightarrow> sorted_wrt before (given (fst (alloc_run nd mem cs b))) \<and>
    list_all (\<lambda>x. inside_mem mem x \<and> unat mem + unat (offset b) \<le> unat (fst x)) (given (fst (alloc_run nd mem cs b))) \<and>
    list_all (placed_aligned mem) (fst (alloc_run nd mem cs b))"
proof (induction cs arbitrary: b)
  case (Cons c cs)
  let ?b = "snd (alloc_step nd mem c b)" and ?a = "fst (alloc_step nd mem c b)"
  have run: "fst (alloc_run nd mem (c # cs) b) = (c, ?a) # fst (alloc_run nd mem cs ?b)"
    by (simp split: prod.split)
  note st = no_wrap_step [OF Cons.prems, where nd = nd and mem = mem]
  note ih = Cons.IH [OF st(1)]
  have rest: "list_all (\<lambda>x. inside_mem mem x \<and> unat mem + unat (offset b) \<le> unat (fst x)) (given (fst (alloc_run nd mem cs ?b)))"
    using ih st(2) by (auto simp: list_all_iff dest: order_trans)
  show ?case
  proof (cases "piece (c, ?a)")
    case None
    then have "placed_aligned mem (c, ?a)"
      by (auto simp: placed_aligned_def split: option.split alloc_answer.split)
    with None ih rest show ?thesis unfolding run by (simp add: given_Cons)
  next
    case (Some x)
    note gx = alloc_step_given [OF Cons.prems assms Some]
    have "\<forall>y \<in> set (given (fst (alloc_run nd mem cs ?b))). before x y"
      using ih gx(3) by (auto simp: list_all_iff before_def)
    with Some ih rest gx show ?thesis unfolding run by (simp add: given_Cons)
  qed
qed simp

text \<open>C35: Whatever is asked for, with alignments that are powers of two and as long as the sizes and
  alignments asked for add up to less than \<open>2 ^ 64\<close>, the pieces that the operators give lie in the array, each
  behind the one before, and the distance of each to the beginning of the array is a multiple of its
  alignment.\<close>

theorem bump_pieces_apart:
  assumes "list_all aligned_call cs" "total_need cs < 2 ^ 64" "unat mem + unat localmemsize < 2 ^ 64"
  shows "sorted_wrt before (given (fst (alloc_run nd mem cs bump_new))) \<and>
    list_all (inside_mem mem) (given (fst (alloc_run nd mem cs bump_new))) \<and>
    list_all (placed_aligned mem) (fst (alloc_run nd mem cs bump_new))"
proof -
  have "no_wrap cs bump_new" using assms(1,2) by (simp add: no_wrap_def bump_new_def)
  from alloc_run_given [OF assms(3) this, of nd] show ?thesis by (auto simp: list_all_iff)
qed

definition bump_calls :: "alloc_call list" where
  "bump_calls = [New 100, New_array_aligned 8 64, Delete 0x1000, New_nothrow 0x800000, New_nothrow 0]"

lemma bump_calls_run: "fst (alloc_run True 0x1000 bump_calls bump_new) =
    [(New 100, Gives (Some 0x1000)), (New_array_aligned 8 64, Gives (Some 0x1080)), (Delete 0x1000, Nothing),
     (New_nothrow 0x800000, Gives None), (New_nothrow 0, Gives None)]"
  by code_simp

lemma bump_calls_ok: "list_all aligned_call bump_calls" "total_need bump_calls < 2 ^ 64"
proof -
  have "(32 :: 64 word) \<in> (\<lambda>k. 2 ^ k) ` {..<64}" "(64 :: 64 word) \<in> (\<lambda>k. 2 ^ k) ` {..<64}"
    by (rule image_eqI [of _ _ 5], simp_all) (rule image_eqI [of _ _ 6], simp_all)
  then show "list_all aligned_call bump_calls"
    by (simp add: bump_calls_def aligned_call_def max_align_bytes_def)
qed (simp add: bump_calls_def total_need_def need_def max_align_bytes_def)

theorem bump_pieces_apart_witness:
  "sorted_wrt before (given (fst (alloc_run True 0x1000 bump_calls bump_new))) \<and>
   list_all (inside_mem 0x1000) (given (fst (alloc_run True 0x1000 bump_calls bump_new))) \<and>
   list_all (placed_aligned 0x1000) (fst (alloc_run True 0x1000 bump_calls bump_new))"
  by (rule bump_pieces_apart [OF bump_calls_ok]) (simp add: localmemsize_def)

section \<open>After a refusal\<close>

lemma refused_all:
  "no_wrap cs b \<Longrightarrow> offset b > localmemsize \<Longrightarrow> list_all refused (fst (alloc_run nd mem cs b))"
proof (induction cs arbitrary: b)
  case (Cons c cs)
  let ?b = "snd (alloc_step nd mem c b)" and ?a = "fst (alloc_step nd mem c b)"
  have run: "fst (alloc_run nd mem (c # cs) b) = (c, ?a) # fst (alloc_run nd mem cs ?b)"
    by (simp split: prod.split)
  note st = no_wrap_step [OF Cons.prems(1), where nd = nd and mem = mem]
  have over: "offset ?b > localmemsize" using st(2) Cons.prems(2) by (simp add: word_less_nat_alt)
  have "refused (c, ?a)"
  proof (cases "asks c")
    case (Some q)
    then show ?thesis using over alloc_step_asks(1,3) [of c "fst q" "snd q" nd mem b] by simp
  qed (simp add: refused_def)
  with Cons.IH [OF st(1) over] show ?case unfolding run by simp
qed simp

text \<open>The offset moves also for a request that is refused: from then on every request is refused, however
  small, also those for which there was room before.\<close>

theorem bump_refuses_forever:
  assumes "asks c \<noteq> None" "refused (c, fst (alloc_step nd mem c b))" "list_all aligned_call (c # cs)"
    "unat (offset b) + total_need (c # cs) < 2 ^ 64"
  shows "list_all refused (fst (alloc_run nd mem cs (snd (alloc_step nd mem c b))))"
proof (rule refused_all)
  obtain sz al where a: "asks c = Some (sz, al)" using assms(1) by (cases "asks c") auto
  show "no_wrap cs (snd (alloc_step nd mem c b))"
    by (rule no_wrap_step(1)) (use assms(3,4) in \<open>simp add: no_wrap_def\<close>)
  show "offset (snd (alloc_step nd mem c b)) > localmemsize"
    using assms(2) alloc_step_asks(1,3) [OF a, of nd mem b] by simp
qed

theorem bump_refuses_forever_witness:
  "list_all refused (fst (alloc_run True 0x1000 [New_nothrow 0] (snd (alloc_step True 0x1000 (New_nothrow 0x800001) bump_new))))"
proof (rule bump_refuses_forever)
  show "list_all aligned_call [New_nothrow 0x800001, New_nothrow 0]"
    using bump_calls_ok(1) by (simp add: bump_calls_def aligned_call_def)
qed (simp_all add: refused_def new_or_null_def alloc_def next_align_def max_align_bytes_def localmemsize_def bump_new_def total_need_def need_def)

section \<open>What the code does not guard\<close>

text \<open>A request whose size makes the sum wrap is given a piece, and the offset is zero again: the next piece is
  the beginning of the array, which is in use.\<close>

theorem bump_wraps:
  assumes "sz \<le> localmemsize"
  shows "map snd (fst (alloc_run True mem [New (- next_align (offset b) max_align_bytes), New sz] b)) =
    [Gives (Some (mem + next_align (offset b) max_align_bytes)), Gives (Some mem)]"
proof -
  have z: "next_align 0 max_align_bytes = 0" by (simp add: next_align_def max_align_bytes_def)
  show ?thesis using assms by (simp add: alloc_def new_or_throw_def Let_def z)
qed

theorem bump_wraps_witness:
  "map snd (fst (alloc_run True 0x1000 [New (- next_align (offset bump_new) max_align_bytes), New 64] bump_new)) =
    [Gives (Some (0x1000 + next_align (offset bump_new) max_align_bytes)), Gives (Some 0x1000)]"
  by (rule bump_wraps) (simp add: localmemsize_def)

text \<open>Two requests of no bytes are given the same address, and the address is aligned only as far as the array is.\<close>

lemma bump_no_bytes_same: "map snd (fst (alloc_run True 0x1000 [New 0, New 0] bump_new)) = [Gives (Some 0x1000), Gives (Some 0x1000)]"
  by code_simp

lemma bump_array_alignment: "map snd (fst (alloc_run True 0x1008 [New_aligned 64 64] bump_new)) = [Gives (Some 0x1008)]"
  by code_simp

end
