(* ===== verification/ReadBuff.thy ===== *)
theory ReadBuff
  imports Prelude
begin

text \<open>
  The reader of words of the string interning benchmark (readbuff.cpp).  The file is the list of what its
  calls of \<open>read\<close> give; the array has \<open>N\<close> characters (65536 in the code).  Positions and sizes are below
  \<open>2 ^ 64\<close>, and what the code adds to them wraps there.  A call that reads outside of the array has no value.
\<close>

section \<open>The buffer\<close>

datatype read_answer = Data string | Fail int

abbreviation (input) "EINTR \<equiv> 4 :: int"
abbreviation (input) "EBADF \<equiv> 9 :: int"
abbreviation (input) "EAGAIN \<equiv> 11 :: int" \<comment> \<open>and \<open>EWOULDBLOCK\<close>\<close>

definition transient :: "int \<Rightarrow> bool" where
  "transient e \<longleftrightarrow> e = EINTR \<or> e = EAGAIN"

record readbuff =
  rb_pos :: nat
  rb_len :: nat
  rb_buff :: string
  rb_eof :: bool
  rb_errno :: int
  rb_file :: "read_answer list" \<comment> \<open>of the descriptor; a descriptor that is not open answers \<open>EBADF\<close>\<close>

definition readbuff_new :: "nat \<Rightarrow> int + read_answer list \<Rightarrow> readbuff" where
  "readbuff_new N opened = \<lparr>rb_pos = 0, rb_len = 0, rb_buff = replicate N (CHR 0x00), rb_eof = False,
     rb_errno = (case opened of Inl e \<Rightarrow> e | Inr as \<Rightarrow> 0), rb_file = (case opened of Inl e \<Rightarrow> [Fail EBADF] | Inr as \<Rightarrow> as)\<rparr>"

definition wrap64 :: "nat \<Rightarrow> nat" where
  "wrap64 n = n mod 2 ^ 64"

text \<open>\<open>read\<close> gives at most what is asked for and keeps the rest; behind the last answer it gives 0, the end.
  An answer -1 that is not an error of the code is added to both sums as \<open>2 ^ 64 - 1\<close>.\<close>

fun read_loop :: "nat \<Rightarrow> read_answer list \<Rightarrow> nat \<Rightarrow> nat \<Rightarrow> readbuff \<Rightarrow> nat \<times> readbuff" where
  "read_loop N [] pos tr b = (tr, b\<lparr>rb_eof := True, rb_file := []\<rparr>)"
| "read_loop N (Data ds # as) pos tr b =
     (let chunk = take (N - pos) ds; rest = drop (N - pos) ds; left = (if rest = [] then as else Data rest # as) in
      if chunk = [] then (tr, b\<lparr>rb_eof := True, rb_file := left\<rparr>)
      else
        let b = b\<lparr>rb_buff := take pos (rb_buff b) @ chunk @ drop (pos + length chunk) (rb_buff b)\<rparr>;
            pos = pos + length chunk; tr = wrap64 (tr + length chunk) in
        if pos < N then read_loop N as pos tr b else (tr, b\<lparr>rb_file := left\<rparr>))"
| "read_loop N (Fail e # as) pos tr b =
     (if \<not> transient e then (tr, b\<lparr>rb_eof := True, rb_errno := e, rb_file := as\<rparr>)
      else
        let pos = wrap64 (pos + (2 ^ 64 - 1)); tr = wrap64 (tr + (2 ^ 64 - 1)) in
        if pos < N then read_loop N as pos tr b else (tr, b\<lparr>rb_file := as\<rparr>))"

definition read_buff :: "nat \<Rightarrow> nat \<Rightarrow> readbuff \<Rightarrow> nat \<times> readbuff" where
  "read_buff N pos b = (if rb_eof b then (0, b) else read_loop N (rb_file b) pos 0 b)"

section \<open>Words\<close>

definition isspace :: "char \<Rightarrow> bool" where
  "isspace c \<longleftrightarrow> c = CHR '' '' \<or> 9 \<le> (of_char c :: nat) \<and> of_char c \<le> (13 :: nat)"

text \<open>\<open>while (i < len_ && p(buff_[i])) i++\<close>, in the array.\<close>

definition scan_buff :: "nat \<Rightarrow> (char \<Rightarrow> bool) \<Rightarrow> readbuff \<Rightarrow> nat \<Rightarrow> nat option" where
  "scan_buff N p b i = (let q = scan p (take (rb_len b) (rb_buff b)) i in if N \<le> q \<and> q < rb_len b then None else Some q)"

text \<open>How much the file still has to say; each fill of the buffer uses some of it.\<close>

fun weight :: "read_answer list \<Rightarrow> nat" where
  "weight [] = 0"
| "weight (Data ds # as) = Suc (length ds + weight as)"
| "weight (Fail e # as) = Suc (weight as)"

lemma weight_left: "weight (if drop n ds = [] then as else Data (drop n ds) # as) \<le> Suc (length ds + weight as)"
  by simp

lemma read_loop_weight_le: "weight (rb_file (snd (read_loop N as pos tr b))) \<le> weight as"
proof (induction as arbitrary: pos tr b)
  case (Cons a as)
  have le: "weight (rb_file (snd (read_loop N as p t c))) \<le> Suc (n + weight as)" for n p t c
    using Cons.IH [of p t c] by simp
  show ?case using le [of _ _ _ 0] by (cases a) (auto simp: Let_def le)
qed simp

lemma read_loop_weight: "fst (read_loop N as pos tr b) = tr \<or> weight (rb_file (snd (read_loop N as pos tr b))) < weight as"
proof (cases as)
  case (Cons a as')
  have le: "weight (rb_file (snd (read_loop N as' p t c))) < Suc (n + weight as')" for n p t c
    using read_loop_weight_le [of N as' p t c] by simp
  show ?thesis using Cons le [of _ _ _ 0] by (cases a) (auto simp: Let_def le)
qed simp

lemma read_buff_weight: "fst (read_buff N pos b) = 0 \<or> weight (rb_file (snd (read_buff N pos b))) < weight (rb_file b)"
  using read_loop_weight [of N "rb_file b" pos 0 b] by (simp add: read_buff_def)

section \<open>get\_token\<close>

text \<open>The first character that is no space, refilling the buffer as long as there is none.\<close>

function find_word :: "nat \<Rightarrow> readbuff \<Rightarrow> ((int + nat) \<times> readbuff) option" where
  "find_word N b = (case scan_buff N isspace b (rb_pos b) of
     None \<Rightarrow> None
   | Some p \<Rightarrow>
       if p < rb_len b then Some (Inr p, b)
       else
         let rb = read_buff N 0 (b\<lparr>rb_pos := 0\<rparr>); b' = (snd rb)\<lparr>rb_len := fst rb\<rparr> in
         if fst rb = 0 then Some (Inl (rb_errno b'), b') else find_word N b')"
  by auto
termination
proof (relation "measure (\<lambda>(N, b). weight (rb_file b))", simp, goal_cases)
  case (1 N b p rb b')
  then show ?case using read_buff_weight [of N 0 "b\<lparr>rb_pos := 0\<rparr>"] by simp
qed

text \<open>The end of the word: \<open>memmove\<close> and a refill when the buffer ends first and the word is not at its beginning.\<close>

function end_word :: "nat \<Rightarrow> nat \<Rightarrow> nat \<Rightarrow> readbuff \<Rightarrow> ((int + string) \<times> readbuff) option" where
  "end_word N p q0 b = (case scan_buff N (Not \<circ> isspace) b q0 of
     None \<Rightarrow> None
   | Some q \<Rightarrow>
       if p = 0 \<or> q < rb_len b then
         Some (Inr (take (q - p) (drop p (rb_buff b))), b\<lparr>rb_pos := (if q = rb_len b then rb_len b else q + 1)\<rparr>)
       else
         let n = rb_len b - p;
             b = b\<lparr>rb_buff := take n (drop p (rb_buff b)) @ drop n (rb_buff b)\<rparr>;
             rb = read_buff N n b; r = fst rb; b = snd rb in
         if r = 0 then Some (Inr (take n (rb_buff b)), b\<lparr>rb_pos := rb_len b\<rparr>)
         else end_word N 0 n (b\<lparr>rb_len := wrap64 (n + r), rb_pos := p\<rparr>))"
  by auto
termination by (relation "measure (\<lambda>(N, p, q0, b). p)") auto

declare find_word.simps [simp del] end_word.simps [simp del]

definition search_token :: "nat \<Rightarrow> readbuff \<Rightarrow> ((int + string) \<times> readbuff) option" where
  "search_token N b = (case find_word N b of
     None \<Rightarrow> None
   | Some (Inl e, b) \<Rightarrow> Some (Inl e, b)
   | Some (Inr p, b) \<Rightarrow> end_word N p (p + 1) b)"

definition get_token :: "nat \<Rightarrow> readbuff \<Rightarrow> ((int + string) \<times> readbuff) option" where
  "get_token N b =
     (if rb_pos b = rb_len b then
        let rb = read_buff N 0 (b\<lparr>rb_pos := 0\<rparr>); b = (snd rb)\<lparr>rb_len := fst rb\<rparr> in
        if fst rb = 0 then Some (Inl (rb_errno b), b) else search_token N b
      else search_token N b)"

text \<open>The loop of the callers: the words up to the first error, and the error.\<close>

partial_function (option) all_tokens :: "nat \<Rightarrow> readbuff \<Rightarrow> string list \<Rightarrow> (string list \<times> int) option" where
  "all_tokens N b out = (case get_token N b of
     None \<Rightarrow> None
   | Some (Inl e, b) \<Rightarrow> Some (out, e)
   | Some (Inr w, b) \<Rightarrow> all_tokens N b (out @ [w]))"

section \<open>The reference\<close>

text \<open>What a file says until its end or its first error, and the error (0 at the end).\<close>

fun stream :: "read_answer list \<Rightarrow> string" where
  "stream [] = []"
| "stream (Data ds # as) = (if ds = [] then [] else ds @ stream as)"
| "stream (Fail e # as) = []"

fun stop_errno :: "read_answer list \<Rightarrow> int" where
  "stop_errno [] = 0"
| "stop_errno (Data ds # as) = (if ds = [] then 0 else stop_errno as)"
| "stop_errno (Fail e # as) = e"

fun interrupted :: "read_answer list \<Rightarrow> bool" where
  "interrupted [] \<longleftrightarrow> False"
| "interrupted (Data ds # as) \<longleftrightarrow> ds \<noteq> [] \<and> interrupted as"
| "interrupted (Fail e # as) \<longleftrightarrow> transient e"

lemma length_dropWhile_tl: "length (dropWhile p (tl s)) < length s \<or> s = []"
  by (cases s) (auto simp: less_Suc_eq_le length_dropWhile_le)

function words :: "string \<Rightarrow> string list" where
  "words s = (let t = dropWhile isspace s in
     if t = [] then [] else takeWhile (Not \<circ> isspace) t # words (dropWhile (Not \<circ> isspace) t))"
  by auto
termination
proof (relation "measure length", simp, goal_cases)
  case (1 s t)
  then have "\<not> isspace (hd t)" by (metis hd_dropWhile)
  then have "length (dropWhile (Not \<circ> isspace) t) < length t"
    using 1(2) by (cases t) (auto simp: less_Suc_eq_le length_dropWhile_le)
  also have "\<dots> \<le> length s" using 1(1) by (simp add: length_dropWhile_le)
  finally show ?case by simp
qed

declare words.simps [simp del]

section \<open>Filling the buffer\<close>

definition ahead :: "readbuff \<Rightarrow> string" where
  "ahead b = (if rb_eof b then [] else stream (rb_file b))"

definition final_errno :: "readbuff \<Rightarrow> int" where
  "final_errno b = (if rb_eof b then rb_errno b else stop_errno (rb_file b))"

definition calm :: "readbuff \<Rightarrow> bool" where
  "calm b \<longleftrightarrow> rb_eof b \<or> \<not> interrupted (rb_file b) \<and> rb_errno b = 0"

definition filled :: "nat \<Rightarrow> nat \<Rightarrow> string \<Rightarrow> readbuff \<Rightarrow> string" where
  "filled N pos s b = take pos (rb_buff b) @ take (N - pos) s @ drop (pos + length (take (N - pos) s)) (rb_buff b)"

definition reads :: "nat \<Rightarrow> nat \<Rightarrow> nat \<Rightarrow> string \<Rightarrow> int \<Rightarrow> readbuff \<Rightarrow> nat \<times> readbuff \<Rightarrow> bool" where
  "reads N pos tr s e b = (\<lambda>(r, b'). r = tr + length (take (N - pos) s) \<and> rb_buff b' = filled N pos s b \<and>
     ahead b' = drop (N - pos) s \<and> final_errno b' = e \<and> calm b' \<and> (\<not> rb_eof b' \<longrightarrow> r = tr + (N - pos)) \<and>
     rb_pos b' = rb_pos b \<and> rb_len b' = rb_len b)"

lemma filled_filled:
  assumes "pos + length ds < N" "length (rb_buff b) = N"
  shows "filled N (pos + length ds) s (b\<lparr>rb_buff := take pos (rb_buff b) @ ds @ drop (pos + length ds) (rb_buff b)\<rparr>) =
    filled N pos (ds @ s) b"
proof -
  have "length (take pos (rb_buff b)) = pos" "take (N - pos) ds = ds" using assms by simp_all
  then show ?thesis by (simp add: filled_def ac_simps)
qed

lemma read_loop_reads:
  "length (rb_buff b) = N \<Longrightarrow> pos < N \<Longrightarrow> \<not> interrupted as \<Longrightarrow> \<not> rb_eof b \<Longrightarrow> rb_errno b = 0 \<Longrightarrow> tr \<le> pos \<Longrightarrow> N < 2 ^ 64 \<Longrightarrow>
   reads N pos tr (stream as) (stop_errno as) b (read_loop N as pos tr b)"
proof (induction as arbitrary: pos tr b)
  case Nil
  then show ?case by (simp add: reads_def filled_def ahead_def final_errno_def calm_def)
next
  case (Cons a as)
  show ?case
  proof (cases a)
    case (Fail e)
    with Cons.prems show ?thesis by (simp add: reads_def filled_def ahead_def final_errno_def calm_def)
  next
    case (Data ds)
    consider (empty) "ds = []" | (full) "ds \<noteq> []" "N - pos \<le> length ds" | (part) "ds \<noteq> []" "length ds < N - pos" by (meson not_le)
    then show ?thesis
    proof cases
      case empty
      with Data Cons.prems show ?thesis by (simp add: reads_def filled_def ahead_def final_errno_def calm_def)
    next
      case full
      define left where "left = (if drop (N - pos) ds = [] then as else Data (drop (N - pos) ds) # as)"
      have l: "length (take (N - pos) ds) = N - pos" "take (N - pos) ds \<noteq> []" "pos + (N - pos) = N"
        using full Cons.prems(2) by (auto simp: min_def)
      have w: "wrap64 (tr + (N - pos)) = tr + (N - pos)" using Cons.prems(6,7) l(3) unfolding wrap64_def by simp
      have run: "read_loop N (a # as) pos tr b = (tr + (N - pos),
          b\<lparr>rb_buff := take pos (rb_buff b) @ take (N - pos) ds @ drop N (rb_buff b), rb_file := left\<rparr>)"
        unfolding Data read_loop.simps Let_def left_def [symmetric] by (simp only: l w if_False less_irrefl)
      have left: "stream left = drop (N - pos) ds @ stream as" "stop_errno left = stop_errno as" "interrupted left = interrupted as"
        by (auto simp: left_def)
      have st: "take (N - pos) (ds @ stream as) = take (N - pos) ds" "drop (N - pos) (ds @ stream as) = drop (N - pos) ds @ stream as"
        using full(2) by simp_all
      have ni: "\<not> interrupted as" "stream (a # as) = ds @ stream as" "stop_errno (a # as) = stop_errno as"
        using Data full(1) Cons.prems(3) by auto
      show ?thesis unfolding run ni(2,3) reads_def filled_def st
        using l left ni(1) Cons.prems(4,5) by (simp add: ahead_def final_errno_def calm_def)
    next
      case part
      let ?b = "b\<lparr>rb_buff := take pos (rb_buff b) @ ds @ drop (pos + length ds) (rb_buff b)\<rparr>"
      have w: "wrap64 (tr + length ds) = tr + length ds" using part Cons.prems by (simp add: wrap64_def)
      have lt: "pos + length ds < N" using part by linarith
      have "reads N (pos + length ds) (tr + length ds) (stream as) (stop_errno as) ?b
          (read_loop N as (pos + length ds) (tr + length ds) ?b)"
        by (rule Cons.IH) (use part Data Cons.prems lt in auto)
      moreover have "take (N - pos) (ds @ stream as) = ds @ take (N - (pos + length ds)) (stream as)"
        "drop (N - pos) (ds @ stream as) = drop (N - (pos + length ds)) (stream as)"
        using part by (simp_all add: diff_diff_left)
      ultimately show ?thesis
        using part Data w lt Cons.prems(1) filled_filled [OF lt Cons.prems(1), of "stream as"]
        by (auto simp: reads_def Let_def)
    qed
  qed
qed

lemma read_buff_reads:
  assumes "length (rb_buff b) = N" "pos < N" "calm b" "N < 2 ^ 64"
  shows "reads N pos 0 (ahead b) (final_errno b) b (read_buff N pos b)"
proof (cases "rb_eof b")
  case True
  then show ?thesis by (simp add: read_buff_def reads_def filled_def ahead_def final_errno_def calm_def)
next
  case False
  then show ?thesis using read_loop_reads [OF assms(1,2)] assms(3,4)
    by (auto simp: read_buff_def ahead_def final_errno_def calm_def)
qed

section \<open>One token\<close>

definition rb_inv :: "nat \<Rightarrow> readbuff \<Rightarrow> bool" where
  "rb_inv N b \<longleftrightarrow> length (rb_buff b) = N \<and> rb_pos b \<le> rb_len b \<and> rb_len b \<le> N \<and> calm b \<and> (rb_eof b \<or> rb_len b = N \<or> rb_len b = 0)"

definition from_pos :: "nat \<Rightarrow> readbuff \<Rightarrow> string" where
  "from_pos p b = drop p (take (rb_len b) (rb_buff b)) @ ahead b"

definition remaining :: "readbuff \<Rightarrow> string" where
  "remaining b = from_pos (rb_pos b) b"

lemma scan_buff_inv:
  "length (rb_buff b) = N \<Longrightarrow> rb_len b \<le> N \<Longrightarrow> i \<le> rb_len b \<Longrightarrow> scan_buff N p b i = Some (scan p (take (rb_len b) (rb_buff b)) i)"
  using scan_le [of i "take (rb_len b) (rb_buff b)" p] by (simp add: scan_buff_def Let_def min_def split: if_splits)

text \<open>A refill of a buffer that is used up keeps what remains.\<close>

lemma refill:
  assumes "rb_inv N b" "0 < N" "N < 2 ^ 64" "read_buff N 0 (b\<lparr>rb_pos := 0\<rparr>) = (r, b')"
  shows "rb_inv N (b'\<lparr>rb_len := r\<rparr>)" "rb_pos b' = 0" "from_pos 0 (b'\<lparr>rb_len := r\<rparr>) = ahead b"
    "final_errno (b'\<lparr>rb_len := r\<rparr>) = final_errno b" "r = 0 \<Longrightarrow> ahead b = [] \<and> rb_errno b' = final_errno b"
proof -
  have "reads N 0 0 (ahead (b\<lparr>rb_pos := 0\<rparr>)) (final_errno (b\<lparr>rb_pos := 0\<rparr>)) (b\<lparr>rb_pos := 0\<rparr>) (read_buff N 0 (b\<lparr>rb_pos := 0\<rparr>))"
    by (rule read_buff_reads) (use assms(1-3) in \<open>auto simp: rb_inv_def calm_def\<close>)
  then have rd: "r = length (take N (ahead b))" "rb_buff b' = take N (ahead b) @ drop r (rb_buff b)"
      "ahead b' = drop N (ahead b)" "final_errno b' = final_errno b" "calm b'" "\<not> rb_eof b' \<Longrightarrow> r = N" "rb_pos b' = 0"
    unfolding assms(4) by (auto simp: reads_def filled_def ahead_def final_errno_def)
  show "rb_pos b' = 0" by (rule rd)
  show "rb_inv N (b'\<lparr>rb_len := r\<rparr>)"
    using rd assms(1) by (auto simp: rb_inv_def calm_def min_def)
  have "take r (rb_buff b') = take N (ahead b)" by (metis append_eq_conv_conj rd(1,2))
  moreover have "ahead (b'\<lparr>rb_len := r\<rparr>) = ahead b'" by (simp add: ahead_def)
  ultimately show "from_pos 0 (b'\<lparr>rb_len := r\<rparr>) = ahead b" by (simp add: from_pos_def rd(3))
  show "final_errno (b'\<lparr>rb_len := r\<rparr>) = final_errno b" unfolding rd(4) [symmetric] by (simp add: final_errno_def)
  show "ahead b = [] \<and> rb_errno b' = final_errno b" if "r = 0"
  proof -
    have "take N (ahead b) = []" using rd(1) that by (metis length_0_conv)
    moreover have "rb_eof b'" using rd(6) that assms(2) by auto
    ultimately show ?thesis using assms(2) rd(4) by (simp add: final_errno_def [of b'])
  qed
qed

definition finds :: "nat \<Rightarrow> readbuff \<Rightarrow> ((int + nat) \<times> readbuff) option \<Rightarrow> bool" where
  "finds N b r \<longleftrightarrow> (case r of None \<Rightarrow> False
     | Some (Inl e, b') \<Rightarrow> e = final_errno b \<and> dropWhile isspace (remaining b) = []
     | Some (Inr p, b') \<Rightarrow> rb_inv N b' \<and> p < rb_len b' \<and> from_pos p b' = dropWhile isspace (remaining b) \<and> final_errno b' = final_errno b)"

lemma find_word_finds: "rb_inv N b \<Longrightarrow> 0 < N \<Longrightarrow> N < 2 ^ 64 \<Longrightarrow> finds N b (find_word N b)"
proof (induction N b rule: find_word.induct)
  case (1 N b)
  let ?s = "take (rb_len b) (rb_buff b)" and ?p = "scan isspace (take (rb_len b) (rb_buff b)) (rb_pos b)"
  have sc: "scan_buff N isspace b (rb_pos b) = Some ?p"
    by (rule scan_buff_inv) (use "1.prems"(1) in \<open>auto simp: rb_inv_def\<close>)
  have len: "length ?s = rb_len b" using "1.prems"(1) by (simp add: rb_inv_def)
  have rest: "drop ?p ?s = dropWhile isspace (drop (rb_pos b) ?s)" by (rule scan_rest)
  show ?case
  proof (cases "?p < rb_len b")
    case True
    then have "dropWhile isspace (drop (rb_pos b) ?s) \<noteq> []" using len unfolding rest [symmetric] by simp
    then have "from_pos ?p b = dropWhile isspace (remaining b)"
      unfolding from_pos_def remaining_def rest by (simp add: dropWhile_append dropWhile_eq_Nil_conv [symmetric] del: dropWhile_eq_Nil_conv)
    then show ?thesis using True "1.prems"(1) by (subst find_word.simps) (simp add: sc finds_def)
  next
    case False
    then have "dropWhile isspace (drop (rb_pos b) ?s) = []" using len unfolding rest [symmetric] by simp
    then have rem: "dropWhile isspace (remaining b) = dropWhile isspace (ahead b)"
      unfolding from_pos_def remaining_def by (simp add: dropWhile_append dropWhile_eq_Nil_conv [symmetric] del: dropWhile_eq_Nil_conv)
    obtain r b' where rb: "read_buff N 0 (b\<lparr>rb_pos := 0\<rparr>) = (r, b')" by (cases "read_buff N 0 (b\<lparr>rb_pos := 0\<rparr>)")
    note rf = refill [OF "1.prems" rb]
    show ?thesis
    proof (cases "r = 0")
      case True
      then show ?thesis using sc False rb rf(5) rem by (subst find_word.simps) (simp add: finds_def Let_def)
    next
      case nz: False
      have "finds N (b'\<lparr>rb_len := r\<rparr>) (find_word N (b'\<lparr>rb_len := r\<rparr>))"
        using "1.IH" [OF sc False rb [symmetric]] nz "1.prems" rf(1) by (simp add: rb)
      moreover have "remaining (b'\<lparr>rb_len := r\<rparr>) = ahead b" using rf(2,3) by (simp add: remaining_def)
      ultimately have "finds N b (find_word N (b'\<lparr>rb_len := r\<rparr>))"
        using rf(4) rem by (auto simp: finds_def split: option.splits sum.splits)
      then show ?thesis using sc False rb nz by (subst find_word.simps) (simp add: Let_def)
    qed
  qed
qed

lemma scan_from:
  assumes "p \<le> q0" "q0 \<le> length s" "\<forall>c \<in> set (take (q0 - p) (drop p s)). P c"
  shows "scan P s q0 = p + length (takeWhile P (drop p s))"
proof -
  have "drop p s = take (q0 - p) (drop p s) @ drop q0 s" using assms(1) append_take_drop_id [of "q0 - p" "drop p s"] by simp
  then have "takeWhile P (drop p s) = take (q0 - p) (drop p s) @ takeWhile P (drop q0 s)"
    using assms(3) by (metis takeWhile_append2)
  moreover have "length (take (q0 - p) (drop p s)) = q0 - p" using assms(1,2) by simp
  ultimately show ?thesis using assms(1) by (simp add: scan_drop)
qed

lemma words_space: "isspace c \<Longrightarrow> words (c # s) = words s"
  by (subst (1 2) words.simps) simp

lemma words_dropWhile: "words (dropWhile isspace s) = words s"
  by (induction s) (simp_all add: words_space)

abbreviation word_of :: "string \<Rightarrow> string" where
  "word_of \<equiv> takeWhile (Not \<circ> isspace)"

abbreviation behind_word :: "string \<Rightarrow> string" where
  "behind_word \<equiv> dropWhile (Not \<circ> isspace)"

definition ends :: "nat \<Rightarrow> nat \<Rightarrow> readbuff \<Rightarrow> ((int + string) \<times> readbuff) option \<Rightarrow> bool" where
  "ends N p b r \<longleftrightarrow> (\<exists>b'. r = Some (Inr (word_of (from_pos p b)), b') \<and> rb_inv N b' \<and>
     words (remaining b') = words (behind_word (from_pos p b)) \<and> final_errno b' = final_errno b)"

lemma end_word_here:
  assumes "rb_inv N (b\<lparr>rb_pos := 0\<rparr>)" "p < q0" "q0 \<le> rb_len b" "\<forall>c \<in> set (take (q0 - p) (drop p (take (rb_len b) (rb_buff b)))). \<not> isspace c"
    "length (word_of (from_pos p b)) \<le> N" "p = 0 \<or> scan (Not \<circ> isspace) (take (rb_len b) (rb_buff b)) q0 < rb_len b"
  shows "ends N p b (end_word N p q0 b)"
proof -
  let ?s = "take (rb_len b) (rb_buff b)" and ?q = "scan (Not \<circ> isspace) (take (rb_len b) (rb_buff b)) q0"
  have inv: "length (rb_buff b) = N" "rb_len b \<le> N" using assms(1) by (simp_all add: rb_inv_def)
  have len: "length ?s = rb_len b" using inv by simp
  have sc: "scan_buff N (Not \<circ> isspace) b q0 = Some ?q" by (rule scan_buff_inv) (use inv assms in auto)
  have q: "?q = p + length (word_of (drop p ?s))"
    by (rule scan_from) (use assms(2-4) len in auto)
  have qle: "?q \<le> rb_len b" using scan_le [of q0 ?s] assms(3) len by metis
  have tok: "take (?q - p) (drop p (rb_buff b)) = word_of (drop p ?s)"
  proof -
    have "take (?q - p) (drop p (rb_buff b)) = take (?q - p) (drop p ?s)" using qle by (simp add: drop_take min_def)
    also have "\<dots> = word_of (drop p ?s)" unfolding q by (simp add: takeWhile_eq_take [symmetric])
    finally show ?thesis .
  qed
  define b' where "b' = b\<lparr>rb_pos := (if ?q = rb_len b then rb_len b else ?q + 1)\<rparr>"
  have run: "end_word N p q0 b = Some (Inr (word_of (drop p ?s)), b')"
    using assms(6) by (subst end_word.simps) (auto simp: sc tok b'_def)
  have b': "rb_inv N b'" "final_errno b' = final_errno b" "ahead b' = ahead b"
    using assms(1) qle by (auto simp: rb_inv_def b'_def final_errno_def calm_def ahead_def)
  have rest: "behind_word (drop p ?s) = drop ?q ?s" unfolding q by (simp add: dropWhile_eq_drop add.commute)
  have "word_of (from_pos p b) = word_of (drop p ?s) \<and> words (remaining b') = words (behind_word (from_pos p b))"
  proof (cases "?q = rb_len b")
    case True
    then have all: "behind_word (drop p ?s) = []" using rest len by simp
    then have w: "\<forall>c \<in> set (drop p ?s). \<not> isspace c" by (simp add: dropWhile_eq_Nil_conv)
    have "word_of (ahead b) = []"
    proof (cases "rb_eof b")
      case False
      then have "p = 0" "rb_len b = N" using assms True by (auto simp: rb_inv_def)
      then have "length (word_of (from_pos p b)) = N + length (word_of (ahead b))"
        using w len by (simp add: from_pos_def takeWhile_append2)
      then show ?thesis using assms(5) by simp
    qed (simp add: ahead_def)
    then have "behind_word (ahead b) = ahead b" by (metis append_Nil takeWhile_dropWhile_id)
    then show ?thesis using w \<open>word_of (ahead b) = []\<close> True b'(3)
      by (simp add: from_pos_def remaining_def b'_def takeWhile_append2 dropWhile_append2 ahead_def takeWhile_eq_all_conv [THEN iffD2])
  next
    case False
    then have lt: "?q < length ?s" using qle len by simp
    then have "\<not> length ?s \<le> ?q" by (simp only: not_le)
    then have ne: "behind_word (drop p ?s) \<noteq> []" unfolding rest drop_eq_Nil .
    have split: "drop ?q ?s = ?s ! ?q # drop (?q + 1) ?s" using Cons_nth_drop_Suc [OF lt] by (simp only: Suc_eq_plus1)
    then have sp: "isspace (?s ! ?q)" using hd_dropWhile [of "Not \<circ> isspace" "drop p ?s"] ne unfolding rest by simp
    have "\<not> (\<forall>c \<in> set (drop p ?s). \<not> isspace c)" using ne by (simp add: dropWhile_eq_Nil_conv)
    then have "word_of (from_pos p b) = word_of (drop p ?s)" "behind_word (from_pos p b) = drop ?q ?s @ ahead b"
      unfolding from_pos_def by (auto simp: takeWhile_append dropWhile_append rest split)
    moreover have "remaining b' = drop (?q + 1) ?s @ ahead b"
      using False b'(3) by (simp add: remaining_def from_pos_def b'_def ahead_def)
    ultimately show ?thesis using split sp by (simp add: words_space)
  qed
  then show ?thesis using run b' by (simp add: ends_def)
qed

text \<open>When the buffer ends inside the word, the word is moved to its beginning.\<close>

lemma end_word_ends:
  assumes "rb_inv N b" "p < rb_len b" "\<not> isspace (hd (from_pos p b))" "length (word_of (from_pos p b)) \<le> N" "N < 2 ^ 64"
  shows "ends N p b (end_word N p (p + 1) b)"
proof -
  let ?s = "take (rb_len b) (rb_buff b)"
  have inv: "length (rb_buff b) = N" "rb_len b \<le> N" using assms(1) by (simp_all add: rb_inv_def)
  have len: "length ?s = rb_len b" using inv by simp
  have hd: "hd (from_pos p b) = ?s ! p" using assms(2) len by (simp add: from_pos_def hd_append hd_drop_conv_nth)
  then have fst: "\<forall>c \<in> set (take (p + 1 - p) (drop p ?s)). \<not> isspace c"
    using assms(2,3) len by (simp add: take_Suc hd_drop_conv_nth)
  show ?thesis
  proof (cases "p = 0 \<or> scan (Not \<circ> isspace) ?s (p + 1) < rb_len b")
    case True
    have "rb_inv N (b\<lparr>rb_pos := 0\<rparr>)" using assms(1) by (auto simp: rb_inv_def calm_def)
    from end_word_here [OF this _ _ fst assms(4) True] show ?thesis using assms(2) by simp
  next
    case False
    have "scan (Not \<circ> isspace) ?s (p + 1) \<le> rb_len b" using scan_le [of "p + 1" ?s] assms(2) len by simp
    then have q: "scan (Not \<circ> isspace) ?s (p + 1) = rb_len b" using False by simp
    have sc: "scan_buff N (Not \<circ> isspace) b (Suc p) = Some (rb_len b)"
      using scan_buff_inv [OF inv, of "p + 1" "Not \<circ> isspace"] assms(2) q by simp
    have "scan (Not \<circ> isspace) ?s (p + 1) = p + length (word_of (drop p ?s))"
      by (rule scan_from) (use fst assms(2) len in auto)
    then have "p + length (word_of (drop p ?s)) = rb_len b" using q by simp
    then have "length (word_of (drop p ?s)) = length (drop p ?s)" using len by simp
    then have w: "\<forall>c \<in> set (drop p ?s). \<not> isspace c"
      by (metis comp_apply dual_order.refl set_takeWhileD takeWhile_eq_take take_all)
    define n where "n = rb_len b - p"
    define b1 where "b1 = b\<lparr>rb_buff := take n (drop p (rb_buff b)) @ drop n (rb_buff b)\<rparr>"
    obtain r b2 where rb: "read_buff N n b1 = (r, b2)" by (cases "read_buff N n b1")
    have n: "n < N" "0 < n" "length (take n (drop p (rb_buff b))) = n" using assms(2) inv False by (auto simp: n_def)
    have d: "drop p ?s = take n (drop p (rb_buff b))" by (simp add: n_def drop_take)
    have "reads N n 0 (ahead b1) (final_errno b1) b1 (read_buff N n b1)"
      by (rule read_buff_reads) (use n inv assms(1,5) in \<open>auto simp: b1_def rb_inv_def calm_def\<close>)
    moreover have a1: "ahead b1 = ahead b" "final_errno b1 = final_errno b" "rb_len b1 = rb_len b"
      by (simp_all add: b1_def ahead_def final_errno_def)
    ultimately have rd: "r = length (take (N - n) (ahead b))" "rb_buff b2 = filled N n (ahead b) b1"
        "ahead b2 = drop (N - n) (ahead b)" "final_errno b2 = final_errno b" "calm b2" "\<not> rb_eof b2 \<Longrightarrow> r = N - n"
        "rb_len b2 = rb_len b"
      unfolding rb by (auto simp: reads_def)
    have buff2: "rb_buff b2 = drop p ?s @ take (N - n) (ahead b) @ drop (n + r) (rb_buff b1)"
    proof -
      have "rb_buff b1 = take n (drop p (rb_buff b)) @ drop n (rb_buff b)" by (simp add: b1_def)
      then have "take n (rb_buff b1) = drop p ?s" unfolding d by (metis append_eq_conv_conj n(3))
      then show ?thesis unfolding rd(2) filled_def by (simp only: rd(1))
    qed
    have l2: "length (rb_buff b2) = N"
      using n inv rd(1) diff_le_mono [OF inv(2), of p] unfolding buff2 by (auto simp: b1_def d min_def n_def)
    show ?thesis
    proof (cases "r = 0")
      case True
      then have "take (N - n) (ahead b) = []" using rd(1) by (metis length_0_conv)
      then have e: "rb_eof b2" "ahead b = []" using rd(6) True n(1) by auto
      have "end_word N p (p + 1) b = Some (Inr (take n (rb_buff b2)), b2\<lparr>rb_pos := rb_len b2\<rparr>)"
        using False True rb by (subst end_word.simps) (simp add: sc Let_def n_def [symmetric] b1_def [symmetric])
      moreover have "take n (rb_buff b2) = drop p ?s" unfolding buff2 d using n(3) by simp
      moreover have "from_pos p b = drop p ?s" using e by (simp add: from_pos_def)
      ultimately show ?thesis using w e rd l2 inv(2)
        by (auto simp: ends_def rb_inv_def calm_def remaining_def from_pos_def ahead_def final_errno_def
            takeWhile_eq_all_conv [THEN iffD2] dropWhile_eq_Nil_conv [THEN iffD2])
    next
      case nz: False
      define b3 where "b3 = b2\<lparr>rb_len := n + r, rb_pos := p\<rparr>"
      have nr: "n + r \<le> N" "wrap64 (n + r) = n + r" using rd(1) n(1) assms(5) by (auto simp: wrap64_def)
      have run: "end_word N p (p + 1) b = end_word N 0 n b3"
        using False nz rb nr by (subst end_word.simps) (simp add: sc Let_def n_def [symmetric] b1_def [symmetric] b3_def)
      have s3: "take (rb_len b3) (rb_buff b3) = drop p ?s @ take (N - n) (ahead b)"
      proof -
        have "n + r = length (drop p ?s @ take (N - n) (ahead b))" using rd(1) n(3) by (simp only: d length_append)
        moreover have "rb_buff b3 = (drop p ?s @ take (N - n) (ahead b)) @ drop (n + r) (rb_buff b1)" by (simp add: b3_def buff2)
        ultimately have "take (n + r) (rb_buff b3) = drop p ?s @ take (N - n) (ahead b)" by (metis append_eq_conv_conj)
        then show ?thesis by (simp add: b3_def)
      qed
      have "ahead b3 = ahead b2" by (simp add: b3_def ahead_def)
      then have f3: "from_pos 0 b3 = from_pos p b" unfolding from_pos_def drop_0 s3 by (simp add: rd(3))
      have "ends N 0 b3 (end_word N 0 n b3)"
      proof (rule end_word_here)
        show "rb_inv N (b3\<lparr>rb_pos := 0\<rparr>)" 
        proof -
          have "rb_eof b2 \<or> n + r = N" using rd(6) n(1) by (cases "rb_eof b2") simp_all
          then show ?thesis using rd(5) l2 nr(1) by (auto simp: rb_inv_def b3_def calm_def)
        qed
        show "\<forall>c \<in> set (take (n - 0) (drop 0 (take (rb_len b3) (rb_buff b3)))). \<not> isspace c"
          unfolding s3 using w n(3) d by simp
      qed (use n f3 assms(4) in \<open>auto simp: b3_def\<close>)
      moreover have "final_errno b3 = final_errno b" unfolding rd(4) [symmetric] by (simp add: b3_def final_errno_def)
      ultimately show ?thesis unfolding run ends_def f3 by simp
    qed
  qed
qed

section \<open>All tokens\<close>

definition gives :: "readbuff \<Rightarrow> nat \<Rightarrow> ((int + string) \<times> readbuff) option \<Rightarrow> bool" where
  "gives b N r \<longleftrightarrow> (case words (remaining b) of
     [] \<Rightarrow> (\<exists>b'. r = Some (Inl (final_errno b), b'))
   | w # ws \<Rightarrow> (\<exists>b'. r = Some (Inr w, b') \<and> rb_inv N b' \<and> words (remaining b') = ws \<and> final_errno b' = final_errno b))"

definition fit :: "nat \<Rightarrow> string list \<Rightarrow> bool" where
  "fit N ws \<longleftrightarrow> list_all (\<lambda>w. length w \<le> N) ws"

lemma search_token_gives:
  assumes "rb_inv N b" "0 < N" "N < 2 ^ 64" "fit N (words (remaining b))"
  shows "gives b N (search_token N b)"
proof -
  have f: "finds N b (find_word N b)" by (rule find_word_finds [OF assms(1-3)])
  then obtain x b' where x: "find_word N b = Some (x, b')" by (cases "find_word N b") (auto simp: finds_def)
  show ?thesis
  proof (cases x)
    case (Inl e)
    with f x have e: "e = final_errno b" "dropWhile isspace (remaining b) = []" by (simp_all add: finds_def)
    then have "words (remaining b) = []" by (subst words.simps) simp
    with Inl x e(1) show ?thesis by (simp add: search_token_def gives_def)
  next
    case (Inr p)
    let ?t = "from_pos p b'"
    from f x Inr have word: "rb_inv N b'" "p < rb_len b'" "?t = dropWhile isspace (remaining b)" "final_errno b' = final_errno b"
      by (simp_all add: finds_def)
    have "?t \<noteq> []" using word(1,2) by (simp add: from_pos_def rb_inv_def)
    then have ne: "dropWhile isspace (remaining b) \<noteq> []" unfolding word(3) .
    have w: "words (remaining b) = word_of ?t # words (behind_word ?t)"
      unfolding word(3) by (subst words.simps) (simp only: Let_def ne if_False)
    have "\<not> isspace (hd ?t)" using hd_dropWhile [OF ne] unfolding word(3) .
    moreover have "length (word_of ?t) \<le> N" using assms(4) unfolding w by (simp add: fit_def)
    ultimately have "ends N p b' (end_word N p (p + 1) b')"
      by (intro end_word_ends word(1,2) assms(3))
    then obtain c where "end_word N p (p + 1) b' = Some (Inr (word_of ?t), c)" "rb_inv N c"
        "words (remaining c) = words (behind_word ?t)" "final_errno c = final_errno b'"
      unfolding ends_def by blast
    then show ?thesis unfolding gives_def w using x Inr word(4) by (simp add: search_token_def)
  qed
qed

lemma get_token_gives:
  assumes "rb_inv N b" "0 < N" "N < 2 ^ 64" "fit N (words (remaining b))"
  shows "gives b N (get_token N b)"
proof (cases "rb_pos b = rb_len b")
  case False
  then show ?thesis using search_token_gives [OF assms] by (simp add: get_token_def)
next
  case True
  obtain r b' where rb: "read_buff N 0 (b\<lparr>rb_pos := 0\<rparr>) = (r, b')" by (cases "read_buff N 0 (b\<lparr>rb_pos := 0\<rparr>)")
  note rf = refill [OF assms(1-3) rb]
  have a: "remaining b = ahead b" using True assms(1) by (simp add: remaining_def from_pos_def rb_inv_def)
  show ?thesis
  proof (cases "r = 0")
    case r: True
    then have "words (remaining b) = []" using rf(5) a by (subst words.simps) simp
    then show ?thesis using True r rb rf(5) by (simp add: get_token_def gives_def)
  next
    case False
    have rem: "remaining (b'\<lparr>rb_len := r\<rparr>) = remaining b" using rf(2,3) a by (simp add: remaining_def)
    have "gives (b'\<lparr>rb_len := r\<rparr>) N (search_token N (b'\<lparr>rb_len := r\<rparr>))"
      by (rule search_token_gives) (use assms rf(1) rem in auto)
    then have "gives b N (search_token N (b'\<lparr>rb_len := r\<rparr>))" unfolding gives_def rem rf(4) .
    then show ?thesis using True False rb by (simp add: get_token_def Let_def)
  qed
qed

lemma all_tokens_words:
  assumes "0 < N" "N < 2 ^ 64"
  shows "rb_inv N b \<Longrightarrow> fit N (words (remaining b)) \<Longrightarrow>
    all_tokens N b out = Some (out @ words (remaining b), final_errno b)"
proof (induction "words (remaining b)" arbitrary: b out)
  case Nil
  then have "gives b N (get_token N b)" by (intro get_token_gives assms)
  then obtain b' where "get_token N b = Some (Inl (final_errno b), b')" unfolding gives_def Nil(1) [symmetric] by auto
  then show ?case unfolding Nil(1) [symmetric] by (subst all_tokens.simps) simp
next
  case (Cons w ws)
  then have "gives b N (get_token N b)" by (intro get_token_gives assms)
  then obtain b' where b': "get_token N b = Some (Inr w, b')" "rb_inv N b'" "words (remaining b') = ws" "final_errno b' = final_errno b"
    unfolding gives_def Cons(2) [symmetric] by auto
  have "fit N ws" using Cons(4) unfolding Cons(2) [symmetric] by (simp add: fit_def)
  then have "all_tokens N b' (out @ [w]) = Some ((out @ [w]) @ ws, final_errno b')"
    using Cons(1) [of b'] b'(2,3) by simp
  then show ?case using b'(1,4) unfolding Cons(2) [symmetric] by (subst all_tokens.simps) simp
qed

lemma readbuff_new_inv: "\<not> interrupted as \<Longrightarrow> rb_inv N (readbuff_new N (Inr as))"
  by (simp add: readbuff_new_def rb_inv_def calm_def)

text \<open>C33: Unless a call of \<open>read\<close> is interrupted, the reader ends and gives exactly the words of the
  file, up to its end or its first error, in order, wherever the buffer ends inside of a word, and then
  the number of that error, as long as no word is longer than the buffer.\<close>

theorem readbuff_words:
  assumes "0 < N" "N < 2 ^ 64" "\<not> interrupted as" "fit N (words (stream as))"
  shows "all_tokens N (readbuff_new N (Inr as)) [] = Some (words (stream as), stop_errno as)"
proof -
  have "remaining (readbuff_new N (Inr as)) = stream as" "final_errno (readbuff_new N (Inr as)) = stop_errno as"
    by (simp_all add: readbuff_new_def remaining_def from_pos_def ahead_def final_errno_def)
  then show ?thesis using all_tokens_words [OF assms(1,2) readbuff_new_inv [OF assms(3)], of "[]"] assms(4) by simp
qed

theorem readbuff_words_witness:
  "all_tokens 4 (readbuff_new 4 (Inr [Data ''ab'', Data ''c d efg'', Data ''h ij'', Fail 5])) [] = Some ([''abc'', ''d'', ''efgh'', ''ij''], 5)"
proof -
  have w: "words ''abc d efgh ij'' = [''abc'', ''d'', ''efgh'', ''ij'']" by code_simp
  show ?thesis
    using readbuff_words [of 4 "[Data ''ab'', Data ''c d efg'', Data ''h ij'', Fail 5]"] by (simp add: w fit_def transient_def)
qed

section \<open>Interruptions and errors\<close>

text \<open>An interrupted call returns -1, which is added to the position and to the sum like a number of bytes.  When
  it is the first call the buffer is taken to have \<open>2 ^ 64 - 1\<close> characters, and the search for the end of
  the word leaves the array; a later one loses a character.\<close>

theorem interrupted_reads_outside:
  assumes "transient e" "0 < N" "N < 2 ^ 64 - 1"
  shows "get_token N (readbuff_new N (Inr (Fail e # as))) = None"
proof -
  let ?b = "(readbuff_new N (Inr as))\<lparr>rb_len := 2 ^ 64 - 1\<rparr>"
  have rb: "read_buff N 0 ((readbuff_new N (Inr (Fail e # as)))\<lparr>rb_pos := 0\<rparr>) = (2 ^ 64 - 1, readbuff_new N (Inr as))"
    using assms by (simp add: read_buff_def readbuff_new_def wrap64_def)
  have ns: "\<not> isspace (CHR 0x00)" by (simp add: isspace_def)
  have t: "take (rb_len ?b) (rb_buff ?b) = replicate N (CHR 0x00)" using assms(3) by (simp add: readbuff_new_def)
  have s0: "scan isspace (replicate N (CHR 0x00)) 0 = 0" using assms(2) ns by (subst scan.simps) simp
  have "scan (Not \<circ> isspace) (replicate N (CHR 0x00)) 1 = N"
    using assms(2) ns by (simp add: scan_drop takeWhile_eq_all_conv [THEN iffD2])
  then have "scan_buff N (Not \<circ> isspace) ?b 1 = None"
    unfolding scan_buff_def t using assms(3) by (simp add: readbuff_new_def)
  then have e: "end_word N 0 1 ?b = None" by (subst end_word.simps) simp
  have "scan_buff N isspace ?b 0 = Some 0"
    unfolding scan_buff_def t s0 using assms(2) by simp
  then have "find_word N ?b = Some (Inr 0, ?b)" by (subst find_word.simps) (simp add: readbuff_new_def)
  then have "search_token N ?b = None" using e by (simp add: search_token_def)
  then show ?thesis unfolding get_token_def rb by (simp add: readbuff_new_def Let_def)
qed

theorem interrupted_reads_outside_witness: "get_token 8 (readbuff_new 8 (Inr [Fail EINTR, Data ''words''])) = None"
  by (rule interrupted_reads_outside) (simp_all add: transient_def)

lemma interrupted_loses:
  "fst (read_buff 8 0 (readbuff_new 8 (Inr [Data ''abc'', Fail EAGAIN, Data ''def'']))) = 5"
  "take 5 (rb_buff (snd (read_buff 8 0 (readbuff_new 8 (Inr [Data ''abc'', Fail EAGAIN, Data ''def'']))))) = ''abdef''"
  by (simp_all add: read_buff_def readbuff_new_def wrap64_def transient_def Let_def)

text \<open>The reason why the file could not be opened is overwritten by that of the read which follows.\<close>

lemma open_error_lost: "map_option fst (get_token N (readbuff_new N (Inl e))) = Some (Inl EBADF)"
  by (simp add: get_token_def readbuff_new_def read_buff_def transient_def)

end
