(* ===== verification/Table.thy ===== *)
theory Table
  imports Prelude
begin

text \<open>
  The tables that the benchmarks print (measure/print.h, measure/print.cpp): columns and lines are added,
  and the stream operator writes them in the form of Markdown.  Widths are words of 32 bits, as in the code.
\<close>

section \<open>The table\<close>

datatype alignment = Align_left | Align_centre | Align_right

record colprop =
  col_width :: "32 word"
  col_align :: alignment

record table =
  tb_hdr :: "string list"
  tb_rows :: "string list list"
  tb_props :: "colprop list"

definition table_new :: table where
  "table_new = \<lparr>tb_hdr = [], tb_rows = [], tb_props = []\<rparr>"

definition width_of :: "string \<Rightarrow> 32 word" where
  "width_of c = of_nat (length c)"

definition add_column :: "string \<Rightarrow> alignment \<Rightarrow> table \<Rightarrow> bool \<times> table" where
  "add_column col_name al t =
     (if tb_rows t \<noteq> [] then (False, t)
      else (True, t\<lparr>tb_hdr := tb_hdr t @ [col_name], tb_props := tb_props t @ [\<lparr>col_width = width_of col_name, col_align = al\<rparr>]\<rparr>))"

text \<open>\<open>resize\<close> fills with columns of width 0, aligned to the left.  A line has as many cells as there are columns.\<close>

definition update_cols :: "string list \<Rightarrow> colprop list \<Rightarrow> colprop list" where
  "update_cols line ps =
     (if ps = [] then map (\<lambda>cell. \<lparr>col_width = width_of cell, col_align = Align_left\<rparr>) line
      else map2 (\<lambda>cell p. p\<lparr>col_width := max (col_width p) (width_of cell)\<rparr>) line ps)"

definition add_line :: "string list \<Rightarrow> table \<Rightarrow> bool \<times> table" where
  "add_line line t =
     (if tb_props t \<noteq> [] \<and> length line \<noteq> length (tb_props t) then (False, t)
      else (True, t\<lparr>tb_rows := tb_rows t @ [line], tb_props := update_cols line (tb_props t)\<rparr>))"

section \<open>The stream operator\<close>

text \<open>A text in a field of \<open>std::setw(w)\<close>; a width below the length of the text adds nothing.\<close>

definition fill_left :: "char \<Rightarrow> int \<Rightarrow> string \<Rightarrow> string" where
  "fill_left f w s = s @ replicate (nat w - length s) f"

definition fill_right :: "char \<Rightarrow> int \<Rightarrow> string \<Rightarrow> string" where
  "fill_right f w s = replicate (nat w - length s) f @ s"

definition half :: "int \<Rightarrow> int" where
  "half i = (if i < 0 then - (- i div 2) else i div 2)"

definition md_cell :: "string \<Rightarrow> colprop \<Rightarrow> string" where
  "md_cell c p = (case col_align p of
     Align_left \<Rightarrow> fill_left CHR '' '' (sint (col_width p)) c
   | Align_centre \<Rightarrow>
       let w = half (sint (ucast (ucast (col_width p) - of_nat (length c) :: 64 word) :: 32 word)) in
       fill_left CHR '' '' w [] @ fill_left CHR '' '' (sint (col_width p) - w) c
   | Align_right \<Rightarrow> fill_right CHR '' '' (sint (col_width p)) c)"

fun between :: "string list \<Rightarrow> string" where
  "between [] = []"
| "between [x] = x"
| "between (x # y # xs) = x @ '' | '' @ between (y # xs)"

definition md_line :: "string list \<Rightarrow> string" where
  "md_line fs = ''| '' @ between fs @ '' |''"

definition md_print_row :: "string list \<Rightarrow> colprop list \<Rightarrow> string" where
  "md_print_row row ps = md_line (map2 md_cell row ps)"

definition md_rule :: "char \<Rightarrow> colprop \<Rightarrow> string" where
  "md_rule f p = (if f = CHR '' '' then fill_left CHR '' '' (sint (col_width p)) []
     else case col_align p of
       Align_left \<Rightarrow> fill_left f (sint (col_width p)) []
     | Align_centre \<Rightarrow> '':'' @ fill_left f (sint (col_width p - 2)) [] @ '':''
     | Align_right \<Rightarrow> fill_left f (sint (col_width p - 1)) [] @ '':'')"

definition md_print_sep :: "colprop list \<Rightarrow> char \<Rightarrow> string" where
  "md_print_sep ps f = md_line (map (md_rule f) ps)"

abbreviation newline :: char where
  "newline \<equiv> CHR 0x0A"

fun print_rows :: "colprop list \<Rightarrow> bool \<Rightarrow> string list list \<Rightarrow> string" where
  "print_rows ps nl [] = []"
| "print_rows ps nl (r # rs) = (if nl then [newline] else []) @ md_print_row r ps @ print_rows ps True rs"

definition print_table :: "table \<Rightarrow> string" where
  "print_table t =
     (if tb_hdr t \<noteq> [] then md_print_row (tb_hdr t) (tb_props t) @ [newline] @ md_print_sep (tb_props t) CHR ''-'' else []) @
     (if tb_rows t \<noteq> [] then print_rows (tb_props t) (tb_hdr t \<noteq> []) (tb_rows t)
      else if tb_hdr t \<noteq> [] then [newline] @ md_print_sep (tb_props t) CHR '' '' else [])"

section \<open>A client\<close>

datatype table_call = Add_column string alignment | Add_line "string list"

fun table_step :: "table_call \<Rightarrow> table \<Rightarrow> table" where
  "table_step (Add_column c al) t = snd (add_column c al t)"
| "table_step (Add_line l) t = snd (add_line l t)"

definition table_of :: "table_call list \<Rightarrow> table" where
  "table_of cs = fold table_step cs table_new"

fun short_cells :: "table_call \<Rightarrow> bool" where
  "short_cells (Add_column c al) \<longleftrightarrow> length c < 2 ^ 31"
| "short_cells (Add_line l) \<longleftrightarrow> list_all (\<lambda>c. length c < 2 ^ 31) l"

text \<open>A column wide enough for the colons of its rule.\<close>

fun rule_room :: "alignment \<Rightarrow> nat" where
  "rule_room Align_left = 0" | "rule_room Align_centre = 2" | "rule_room Align_right = 1"

definition wide_enough :: "colprop \<Rightarrow> bool" where
  "wide_enough p \<longleftrightarrow> rule_room (col_align p) \<le> unat (col_width p)"

section \<open>The widths cover the cells\<close>

definition covers :: "string list \<Rightarrow> colprop list \<Rightarrow> bool" where
  "covers = list_all2 (\<lambda>c p. length c \<le> unat (col_width p))"

definition table_inv :: "table \<Rightarrow> bool" where
  "table_inv t \<longleftrightarrow> (tb_rows t = [] \<longrightarrow> length (tb_hdr t) = length (tb_props t)) \<and>
     (tb_hdr t \<noteq> [] \<longrightarrow> (\<forall>r \<in> set (tb_hdr t # tb_rows t). covers r (tb_props t))) \<and>
     list_all (\<lambda>p. unat (col_width p) < 2 ^ 31) (tb_props t)"

lemma width_short: "length c < 2 ^ 31 \<Longrightarrow> unat (width_of c) = length c"
  by (simp add: width_of_def unat_of_nat)

lemma unat_max: "unat (max a b) = max (unat a) (unat b)"
  by (simp add: max_def word_le_nat_alt)

lemma covers_update_old:
  assumes "covers r ps" "length line = length ps" "list_all (\<lambda>c. length c < 2 ^ 31) line" "ps \<noteq> []"
  shows "covers r (update_cols line ps)" and "covers line (update_cols line ps)"
  using assms by (auto simp: covers_def update_cols_def list_all2_conv_all_nth list_all_length unat_max width_short)

lemma add_column_inv:
  assumes "table_inv t" "length c < 2 ^ 31"
  shows "table_inv (snd (add_column c al t))"
  using assms by (auto simp: add_column_def table_inv_def covers_def width_short list_all2_appendI)

lemma add_line_inv:
  assumes "table_inv t" "list_all (\<lambda>c. length c < 2 ^ 31) l"
  shows "table_inv (snd (add_line l t))"
proof (cases "tb_props t \<noteq> [] \<and> length l \<noteq> length (tb_props t)")
  case True
  with assms show ?thesis by (simp add: add_line_def)
next
  case False
  let ?ps = "update_cols l (tb_props t)"
  have w: "list_all (\<lambda>p. unat (col_width p) < 2 ^ 31) ?ps"
    using assms by (auto simp: update_cols_def table_inv_def list_all_length unat_max width_short)
  have "covers r ?ps" if "tb_hdr t \<noteq> []" "r \<in> set (tb_hdr t # tb_rows t @ [l])" for r
  proof -
    have c: "covers (tb_hdr t) (tb_props t)" using assms(1) that(1) by (simp add: table_inv_def)
    then have ne: "tb_props t \<noteq> []" using that(1) by (auto simp: covers_def)
    with False have len: "length l = length (tb_props t)" by simp
    from that(2) consider "r = l" | "r \<in> set (tb_hdr t # tb_rows t)" by auto
    then show ?thesis
    proof cases
      case 1
      then show ?thesis using covers_update_old(2) [OF c len assms(2) ne] by simp
    next
      case 2
      then have "covers r (tb_props t)" using assms(1) that(1) by (auto simp: table_inv_def)
      then show ?thesis using covers_update_old(1) [OF _ len assms(2) ne] by simp
    qed
  qed
  with False w show ?thesis by (auto simp: add_line_def table_inv_def)
qed

lemma table_of_inv: "list_all short_cells cs \<Longrightarrow> table_inv (table_of cs)"
proof -
  have "table_inv t \<Longrightarrow> list_all short_cells cs \<Longrightarrow> table_inv (fold table_step cs t)" for t
  proof (induction cs arbitrary: t)
    case (Cons c cs)
    then have "table_inv (table_step c t)" by (cases c) (auto intro: add_column_inv add_line_inv)
    with Cons show ?case by simp
  qed simp
  moreover have "table_inv table_new" by (simp add: table_inv_def table_new_def)
  ultimately show "list_all short_cells cs \<Longrightarrow> table_inv (table_of cs)" by (simp add: table_of_def)
qed

section \<open>The lines\<close>

text \<open>A cell in its field: only spaces around it.\<close>

definition padded :: "nat \<Rightarrow> string \<Rightarrow> string \<Rightarrow> bool" where
  "padded w c f \<longleftrightarrow> length f = w \<and> (\<exists>a b. f = replicate a CHR '' '' @ c @ replicate b CHR '' '')"

lemma sint_short: "unat (w :: 32 word) < 2 ^ 31 \<Longrightarrow> sint w = int (unat w)"
proof -
  assume "unat w < 2 ^ 31"
  then have "int (unat w) < int (2 ^ 31)" by (simp only: of_nat_less_iff)
  then have "uint w < 2 ^ 31" by (simp only: uint_nat of_nat_power of_nat_numeral)
  then have "signed_take_bit 31 (uint w) = uint w"
    using uint_ge_0 [of w] by (intro signed_take_bit_int_eq_self) linarith+
  then show ?thesis by (simp add: sint_uint)
qed

lemma centre_room:
  assumes "n \<le> unat (w :: 32 word)" "unat w < 2 ^ 31"
  shows "sint (ucast (ucast w - of_nat n :: 64 word) :: 32 word) = int (unat w - n)"
proof -
  have "(ucast w :: 64 word) = of_nat (unat w)" by simp
  then have d: "(ucast w - of_nat n :: 64 word) = of_nat (unat w - n)" using assms(1) by (simp add: of_nat_diff)
  have "unat (of_nat (unat w - n) :: 64 word) = unat w - n" using assms(2) by (simp add: unat_of_nat)
  then have "unat (ucast (of_nat (unat w - n) :: 64 word) :: 32 word) = unat w - n"
    using assms(2) by (simp add: unsigned_ucast_eq take_bit_nat_eq_self)
  then show ?thesis using assms(2) unfolding d by (subst sint_short) simp_all
qed

lemma md_cell_padded:
  assumes "length c \<le> unat (col_width p)" "unat (col_width p) < 2 ^ 31"
  shows "padded (unat (col_width p)) c (md_cell c p)"
proof (cases "col_align p")
  case Align_left
  then have "md_cell c p = replicate 0 CHR '' '' @ c @ replicate (unat (col_width p) - length c) CHR '' ''"
    using assms by (simp add: md_cell_def fill_left_def sint_short)
  then show ?thesis using assms(1) unfolding padded_def by (metis (no_types) add_diff_inverse_nat length_append length_replicate not_less self_append_conv2 replicate_0)
next
  case Align_right
  then have "md_cell c p = replicate (unat (col_width p) - length c) CHR '' '' @ c @ replicate 0 CHR '' ''"
    using assms by (simp add: md_cell_def fill_right_def sint_short)
  then show ?thesis using assms(1) unfolding padded_def by fastforce
next
  case Align_centre
  let ?h = "(unat (col_width p) - length c) div 2"
  have "half (int (unat (col_width p) - length c)) = int ?h" by (simp add: half_def zdiv_int)
  then have "md_cell c p = replicate ?h CHR '' '' @ c @ replicate (unat (col_width p) - ?h - length c) CHR '' ''"
    using assms Align_centre by (simp add: md_cell_def fill_left_def sint_short centre_room nat_diff_distrib' Let_def)
  moreover have "?h + (length c + (unat (col_width p) - ?h - length c)) = unat (col_width p)" using assms(1) by linarith
  ultimately show ?thesis unfolding padded_def by fastforce
qed

lemma md_rule_length:
  assumes "f = CHR '' '' \<or> wide_enough p" "unat (col_width p) < 2 ^ 31"
  shows "length (md_rule f p) = unat (col_width p)"
proof -
  have s: "nat (sint (col_width p - of_nat n)) = unat (col_width p) - n" if "n \<le> unat (col_width p)" "n < 2 ^ 32" for n
  proof -
    have "unat (col_width p - of_nat n) = unat (col_width p) - n"
      using that by (simp add: unat_sub word_le_nat_alt unat_of_nat)
    then show ?thesis using assms(2) by (subst sint_short) simp_all
  qed
  show ?thesis
    using assms s [of 1] s [of 2] by (cases "col_align p") (auto simp: md_rule_def fill_left_def sint_short wide_enough_def)
qed

lemma between_length: "fs \<noteq> [] \<Longrightarrow> length (between fs) = sum_list (map length fs) + 3 * (length fs - 1)"
  by (induction fs rule: between.induct) auto

lemma md_line_length: "fs \<noteq> [] \<Longrightarrow> length (md_line fs) = sum_list (map length fs) + 3 * length fs + 1"
  by (cases fs) (auto simp: md_line_def between_length)

definition holds_cells :: "colprop list \<Rightarrow> string list \<Rightarrow> string \<Rightarrow> bool" where
  "holds_cells ps row l \<longleftrightarrow> length row = length ps \<and> (\<exists>fs. l = md_line fs \<and> length fs = length ps \<and>
     (\<forall>i < length ps. padded (unat (col_width (ps ! i))) (row ! i) (fs ! i)))"

definition total_width :: "colprop list \<Rightarrow> nat" where
  "total_width ps = sum_list (map (unat \<circ> col_width) ps) + 3 * length ps + 1"

lemma md_print_row_cells:
  assumes "covers row ps" "list_all (\<lambda>p. unat (col_width p) < 2 ^ 31) ps" "ps \<noteq> []"
  shows "holds_cells ps row (md_print_row row ps)" "length (md_print_row row ps) = total_width ps"
proof -
  let ?fs = "map2 md_cell row ps"
  have len: "length row = length ps" using assms(1) by (simp add: covers_def list_all2_lengthD)
  have pad: "padded (unat (col_width (ps ! i))) (row ! i) (?fs ! i)" if "i < length ps" for i
    using that assms(1,2) len by (simp add: md_cell_padded covers_def list_all2_conv_all_nth list_all_length)
  then show "holds_cells ps row (md_print_row row ps)"
    using len by (auto simp: holds_cells_def md_print_row_def intro!: exI [of _ ?fs])
  have "map length ?fs = map (unat \<circ> col_width) ps"
    by (rule nth_equalityI) (use len pad in \<open>auto simp: padded_def\<close>)
  moreover have "?fs \<noteq> []" using assms(3) len by auto
  ultimately show "length (md_print_row row ps) = total_width ps"
    using len by (simp add: md_print_row_def md_line_length total_width_def)
qed

lemma md_print_sep_length:
  assumes "list_all (\<lambda>p. unat (col_width p) < 2 ^ 31) ps" "ps \<noteq> []" "f = CHR '' '' \<or> list_all wide_enough ps"
  shows "length (md_print_sep ps f) = total_width ps"
proof -
  have "map length (map (md_rule f) ps) = map (unat \<circ> col_width) ps"
    using assms by (auto simp: list_all_iff md_rule_length)
  then show ?thesis using assms(2) md_line_length [of "map (md_rule f) ps"]
    unfolding md_print_sep_def total_width_def by (simp only: map_is_Nil_conv length_map not_False_eq_True)
qed

text \<open>The lines of the text.\<close>

fun join_lines :: "string list \<Rightarrow> string" where
  "join_lines [] = []"
| "join_lines [l] = l"
| "join_lines (l # k # ls) = l @ [newline] @ join_lines (k # ls)"

definition table_lines :: "table \<Rightarrow> string list" where
  "table_lines t = md_print_row (tb_hdr t) (tb_props t) # md_print_sep (tb_props t) CHR ''-'' #
     (if tb_rows t = [] then [md_print_sep (tb_props t) CHR '' ''] else map (\<lambda>r. md_print_row r (tb_props t)) (tb_rows t))"

lemma join_lines_Cons: "ls \<noteq> [] \<Longrightarrow> join_lines (l # ls) = l @ [newline] @ join_lines ls"
  by (cases ls) simp_all

lemma print_rows_lines: "rs \<noteq> [] \<Longrightarrow> print_rows ps True rs = [newline] @ join_lines (map (\<lambda>r. md_print_row r ps) rs)"
proof (induction rs)
  case (Cons r rs)
  then show ?case by (cases "rs = []") (simp_all add: join_lines_Cons)
qed simp

lemma print_table_lines: "tb_hdr t \<noteq> [] \<Longrightarrow> print_table t = join_lines (table_lines t)"
  by (simp add: print_table_def table_lines_def print_rows_lines join_lines_Cons)

text \<open>C34: The text of a table with columns, whatever was added to it, consists of the header, the rule and the
  lines; all have the same length, and in the header and in each line every cell is in its column with nothing
  but spaces around it, as long as a centred column is at least two characters wide and one aligned to the right at
  least one.\<close>

theorem table_aligned:
  assumes "list_all short_cells cs" "tb_hdr (table_of cs) \<noteq> []" "list_all wide_enough (tb_props (table_of cs))"
  shows "print_table (table_of cs) = join_lines (table_lines (table_of cs)) \<and>
    list_all (\<lambda>l. length l = total_width (tb_props (table_of cs))) (table_lines (table_of cs)) \<and>
    list_all2 (holds_cells (tb_props (table_of cs))) (tb_hdr (table_of cs) # tb_rows (table_of cs))
      (hd (table_lines (table_of cs)) # take (length (tb_rows (table_of cs))) (drop 2 (table_lines (table_of cs))))"
proof -
  let ?t = "table_of cs"
  have inv: "table_inv ?t" by (rule table_of_inv [OF assms(1)])
  then have cov: "\<And>r. r \<in> set (tb_hdr ?t # tb_rows ?t) \<Longrightarrow> covers r (tb_props ?t)"
    and short: "list_all (\<lambda>p. unat (col_width p) < 2 ^ 31) (tb_props ?t)" using assms(2) by (auto simp: table_inv_def)
  then have ne: "tb_props ?t \<noteq> []" using assms(2) cov [of "tb_hdr ?t"] by (auto simp: covers_def)
  note row = md_print_row_cells [OF cov short ne]
  have "list_all (\<lambda>l. length l = total_width (tb_props ?t)) (table_lines ?t)"
    using row(2) md_print_sep_length [OF short ne] assms(3) by (auto simp: table_lines_def list_all_iff)
  moreover have "list_all2 (holds_cells (tb_props ?t)) (tb_hdr ?t # tb_rows ?t)
      (hd (table_lines ?t) # take (length (tb_rows ?t)) (drop 2 (table_lines ?t)))"
    using row(1) by (auto simp: table_lines_def list_all2_map2 list_all2_same)
  ultimately show ?thesis using print_table_lines [OF assms(2)] by blast
qed

definition some_table :: "table_call list" where
  "some_table = [Add_column ''Metric'' Align_left, Add_column ''n'' Align_right, Add_line [''Words'', ''12''], Add_line [''x''], Add_column ''late'' Align_left]"

lemma some_table_text: "print_table (table_of some_table) =
    ''| Metric |  n |'' @ [newline] @ ''| ------ | -: |'' @ [newline] @ ''| Words  | 12 |''"
  by code_simp

lemma some_table_lines: "table_lines (table_of some_table) = [''| Metric |  n |'', ''| ------ | -: |'', ''| Words  | 12 |'']"
  by code_simp

theorem table_aligned_witness:
  "length ''| Metric |  n |'' = total_width (tb_props (table_of some_table)) \<and>
   list_all2 (holds_cells (tb_props (table_of some_table))) (tb_hdr (table_of some_table) # tb_rows (table_of some_table))
      (hd (table_lines (table_of some_table)) # take (length (tb_rows (table_of some_table))) (drop 2 (table_lines (table_of some_table))))"
proof -
  have h: "tb_hdr (table_of some_table) \<noteq> []" "list_all wide_enough (tb_props (table_of some_table))" by code_simp+
  have "list_all short_cells some_table" by (simp add: some_table_def)
  note t = table_aligned [OF this h]
  have "length ''| Metric |  n |'' = total_width (tb_props (table_of some_table))"
    using t unfolding some_table_lines list.pred_inject by (elim conjE)
  with t show ?thesis by (elim conjE) (intro conjI)
qed

text \<open>Without the room for its colons a rule is longer than the lines: a column of the width 1 in the centre.\<close>

lemma narrow_rule: "print_table (table_of [Add_column ''n'' Align_centre, Add_line [''1'']]) =
    ''| n |'' @ [newline] @ ''| :: |'' @ [newline] @ ''| 1 |''"
  by code_simp

end
