(* ===== verification/InternBench.thy ===== *)
theory InternBench
  imports StrIntern ReadBuff Table ToolOptions MemoryMetrics
begin

text \<open>
  The string interning benchmark as a program (benchmark/str\_intern: options.cpp, intern\_set.cpp, intern\_none.cpp and
  str\_intern.cpp): its options choose one of eleven tables, the words of the file are interned and a table of numbers
  is printed.  On top of the reader (\<open>ReadBuff\<close>), the tables (\<open>StrIntern\<close>) and the printer (\<open>Table\<close>).  The
  numbers of the allocations and the times are arguments; the numbers of words are what is proved.
\<close>

section \<open>The options\<close>

datatype strintern_impl = Impl_none | Impl_flist | Impl_set | Impl_unordered_set | Impl_fixed_set_128k | Impl_fixed_set_256k
  | Impl_fixed_set_512k | Impl_fixed_set_1m | Impl_var_set | Impl_var_set_pmr | Impl_ubench

definition intern_mode :: "string \<Rightarrow> strintern_impl option" where
  "intern_mode = map_of [(''none'', Impl_none), (''forward_list'', Impl_flist), (''set'', Impl_set),
     (''unordered_set'', Impl_unordered_set), (''fixed_set_128k'', Impl_fixed_set_128k), (''fixed_set_256k'', Impl_fixed_set_256k),
     (''fixed_set_512k'', Impl_fixed_set_512k), (''fixed_set_1m'', Impl_fixed_set_1m), (''var_set'', Impl_var_set),
     (''var_set_pmr'', Impl_var_set_pmr), (''ubench'', Impl_ubench)]"

record bench_options =
  bn_mode :: strintern_impl
  bn_mode_s :: string
  bn_input :: string

definition bench_options_new :: bench_options where
  "bench_options_new = \<lparr>bn_mode = Impl_none, bn_mode_s = [], bn_input = []\<rparr>"

definition bench_handler :: "opt \<Rightarrow> bench_options parsing \<Rightarrow> stop + bench_options parsing" where
  "bench_handler o1 s =
     (if get_option o1 = CHR ''B'' then operand o1 (\<lambda>arg. case intern_mode arg of
          Some m \<Rightarrow> changed (\<lambda>p. p\<lparr>bn_mode := m, bn_mode_s := arg\<rparr>) s
        | None \<Rightarrow> failed s)
      else if get_option o1 = CHR ''?'' then helped s
      else failed s)"

definition bench_finish :: "options \<Rightarrow> bench_options parsing \<Rightarrow> stop + bench_options" where
  "bench_finish opts s =
     (let s = (if length (o_user_args opts) \<noteq> 1 then s\<lparr>ps_err := 1\<rparr>
               else s\<lparr>ps_opts := (ps_opts s)\<lparr>bn_input := o_user_args opts ! 0\<rparr>\<rparr>) in
      case parsing_finish s of
        Inl e \<Rightarrow> Inl e
      | Inr p \<Rightarrow> Inr (if bn_mode_s p = [] then p\<lparr>bn_mode_s := ''none''\<rparr> else p))"

definition bench_make_options :: "string option list \<Rightarrow> stop + bench_options" where
  "bench_make_options argv = walk_options ''B:?'' bench_handler (\<lambda>_. failed) bench_finish argv (parsing_new bench_options_new)"

definition bench_map :: option_map where
  "bench_map = (\<lambda>c. if c = CHR ''B'' then Arg_required else if c = CHR ''?'' then Single_opt else Not_defined)"

lemma bench_optstring: "build_option_map ''B:?'' = Inr bench_map"
  by (rule trans, simp add: build_map_simps) (auto simp: bench_map_def fun_eq_iff)

text \<open>The name that is printed is the one of the table that is used.\<close>

definition mode_named :: "bench_options \<Rightarrow> bool" where
  "mode_named p \<longleftrightarrow> intern_mode (bn_mode_s p) = Some (bn_mode p) \<or> bn_mode_s p = [] \<and> bn_mode p = Impl_none"

interpretation bench: collecting_handler "''B:?''" bench_map bench_handler mode_named
  by unfold_locales (auto simp: bench_optstring bench_handler_def bench_map_def operand_def failed_def changed_def
      unless_err_def helped_def mode_named_def split: if_splits option.splits)

lemma bench_options_named: "exits_or (\<lambda>p. intern_mode (bn_mode_s p) = Some (bn_mode p)) (bench_make_options argv)"
proof -
  have "intern_mode ''none'' = Some Impl_none" "intern_mode [] = None" by (simp_all add: intern_mode_def)
  then show ?thesis unfolding bench_make_options_def
    by (intro bench.collected)
      (auto simp: bench_options_new_def mode_named_def bench_finish_def parsing_finish_def unless_err_def Let_def split: if_splits)
qed

section \<open>The tables of the standard library\<close>

text \<open>\<open>emplace\<close> gives the node of the text, a new one if there is none; the reference is the number of the node in the order
  of insertion.\<close>

definition set_intern :: "string \<Rightarrow> string list \<Rightarrow> addr \<times> string list" where
  "set_intern str ss = (if str \<in> set ss then (length (takeWhile (\<lambda>s. s \<noteq> str) ss), ss) else (length ss, ss @ [str]))"

definition set_size :: "string list \<Rightarrow> 32 word" where
  "set_size ss = of_nat (length ss)"

definition none_intern :: "string \<Rightarrow> unit \<Rightarrow> addr \<times> unit" where
  "none_intern str t = (0, ())"

definition none_size :: "unit \<Rightarrow> 32 word" where
  "none_size t = 0"

definition set_content :: "string list \<Rightarrow> addr \<Rightarrow> string option" where
  "set_content ss a = (if a < length ss then Some (ss ! a) else None)"

text \<open>The contract of a table that counts: its size is the number of texts it holds.\<close>

locale counting_table = intern_table +
  fixes table_size :: "'a \<Rightarrow> 32 word"
  assumes size_ran: "room k t \<Longrightarrow> table_size t = of_nat (card (ran (content t)))"
begin

lemma counts:
  assumes "room (length ws) t" "content t = Map.empty"
  shows "table_size (snd (intern_all intern ws t)) = of_nat (card (set ws))"
proof -
  obtain as t' where i: "intern_all intern ws t = (as, t')" by (rule prod.exhaust)
  have "room 0 t'" "ran (content t') = set ws" using intern_all_ok [of 0 ws t as t'] assms i by simp_all
  then show ?thesis using size_ran i by simp
qed

end

lemma ran_set_content: "ran (set_content ss) = set ss"
  by (auto simp: ran_def set_content_def in_set_conv_nth split: if_splits)

lemma set_intern_step:
  assumes "distinct ss" "set_intern str ss = (a, ss')"
  shows "distinct ss' \<and> set_content ss' = (set_content ss)(a \<mapsto> str) \<and> (set_content ss a = None \<or> set_content ss a = Some str)"
proof (cases "str \<in> set ss")
  case True
  define i where "i = length (takeWhile (\<lambda>s. s \<noteq> str) ss)"
  have lt: "i < length ss" unfolding i_def by (rule length_takeWhile_lt) (use True in auto)
  then have "ss ! i = str" unfolding i_def using nth_length_takeWhile by blast
  then have "set_content ss i = Some str" using lt by (simp add: set_content_def)
  moreover have "a = i" "ss' = ss" using True assms(2) by (auto simp: set_intern_def i_def)
  ultimately show ?thesis using assms(1) by (simp add: fun_upd_idem)
next
  case False
  then show ?thesis using assms by (auto simp: set_intern_def set_content_def fun_eq_iff nth_append)
qed

interpretation std_set: counting_table "\<lambda>_. distinct" set_intern set_content set_size
proof unfold_locales
  show "distinct t \<Longrightarrow> set_content t a = Some s \<Longrightarrow> set_content t b = Some s \<Longrightarrow> a = b" for t a s b
    by (auto simp: set_content_def nth_eq_iff_index_eq split: if_splits)
  show "distinct t \<Longrightarrow> set_size t = of_nat (card (ran (set_content t)))" for t
    by (simp add: set_size_def ran_set_content distinct_card)
qed (auto dest: set_intern_step)

lemma ucast_count: "ucast (of_nat n :: 64 word) = (of_nat n :: 32 word)"
  by (simp only: word_unat_eq_iff) (simp add: unsigned_ucast_eq unat_of_nat take_bit_eq_mod mod_mod_cancel)

lemma content_size:
  assumes "distinct (hc_strings t)" "hc_interned t = of_nat (length (hc_strings t))" "core_ok svh t"
  shows "str_intern_size t = of_nat (card (ran (content t)))"
proof -
  have "ran (content t) = set (hc_strings t)" by (auto simp: ran_def content_def in_set_conv_nth split: if_splits)
  then show ?thesis using assms(1,2) by (simp add: str_intern_size_def distinct_card ucast_count)
qed

lemma core_size: "core_ok svh t \<Longrightarrow> str_intern_size t = of_nat (card (ran (content t)))"
  by (rule content_size) (auto simp: core_ok_def)

interpretation fixed_counts: counting_table "\<lambda>_. core_ok svh" "fixed_set_intern svh" content str_intern_size for svh
  by unfold_locales (rule core_size)

interpretation str_counts: counting_table "\<lambda>k t. float_rounding rnd \<and> str_intern_room svh k t" "str_intern_intern rnd svh" content str_intern_size for rnd svh
  by unfold_locales (auto simp: str_intern_room_def intro: core_size)

interpretation var_counts: counting_table "\<lambda>k t. float_rounding_ones rnd \<and> var_set_room svh k t" "var_set_intern rnd svh" content str_intern_size for rnd svh
  by unfold_locales (auto simp: var_set_room_def str_intern_room_def intro: core_size)

text \<open>The list counts what it adds.\<close>

definition flist_counted :: "nat \<Rightarrow> 32 word \<times> string list \<Rightarrow> bool" where
  "flist_counted k t \<longleftrightarrow> distinct (snd t) \<and> fst t = of_nat (length (snd t))"

lemma flist_keeps_count: "flist_counted j t \<Longrightarrow> flist_intern s t = (a, t') \<Longrightarrow> flist_counted k t'"
  using flist_intern_step [of t s a t']
  by (auto simp: flist_counted_def flist_intern_def split: option.splits prod.splits)

interpretation linear_counts: counting_table flist_counted flist_intern flist_content fst
proof unfold_locales
  show "flist_counted (Suc k) t \<Longrightarrow> flist_intern s t = (a, t') \<Longrightarrow> flist_counted k t'" for k t s a t'
    by (rule flist_keeps_count)
  show "flist_counted k t \<Longrightarrow> fst t = of_nat (card (ran (flist_content t)))" for k t
  proof -
    have "flist_content t = set_content (rev (snd t))"
      by (simp add: fun_eq_iff flist_content_def set_content_def)
    then have "ran (flist_content t) = set (snd t)" by (simp add: ran_set_content)
    then show "flist_counted k t \<Longrightarrow> fst t = of_nat (card (ran (flist_content t)))"
      by (simp add: flist_counted_def distinct_card)
  qed
qed (auto simp: flist_counted_def dest: flist_intern_step intro: flist_content_inj)

section \<open>The run\<close>

partial_function (option) bench_loop :: "nat \<Rightarrow> (string \<Rightarrow> 't \<Rightarrow> addr \<times> 't) \<Rightarrow> readbuff \<Rightarrow> 't \<Rightarrow> 64 word \<Rightarrow> ('t \<times> 64 word) option" where
  "bench_loop N intern b t w = (case get_token N b of
     None \<Rightarrow> None
   | Some (Inl e, b) \<Rightarrow> Some (t, w)
   | Some (Inr token, b) \<Rightarrow> bench_loop N intern b (snd (intern token t)) (w + 1))"

definition bench_with :: "nat \<Rightarrow> (string \<Rightarrow> 't \<Rightarrow> addr \<times> 't) \<Rightarrow> ('t \<Rightarrow> 32 word) \<Rightarrow> readbuff \<Rightarrow> intern_error + 't \<Rightarrow> (intern_error + 64 word \<times> 32 word) option" where
  "bench_with N intern table_size b made = (case made of
     Inl e \<Rightarrow> Some (Inl e)
   | Inr t \<Rightarrow> map_option (\<lambda>(t, w). Inr (w, table_size t)) (bench_loop N intern b t 0))"

text \<open>The words and the interned words; \<open>Inl\<close> is the exception of a constructor.  The growing set with its own memory
  resource is the growing set.\<close>

definition bench_run :: "nat \<Rightarrow> (rat \<Rightarrow> rat) \<Rightarrow> hash \<Rightarrow> readbuff \<Rightarrow> strintern_impl \<Rightarrow> (intern_error + 64 word \<times> 32 word) option" where
  "bench_run N rnd svh b impl = (case impl of
     Impl_none \<Rightarrow> bench_with N none_intern none_size b (Inr ())
   | Impl_flist \<Rightarrow> bench_with N flist_intern fst b (Inr (0, []))
   | Impl_set \<Rightarrow> bench_with N set_intern set_size b (Inr [])
   | Impl_unordered_set \<Rightarrow> bench_with N set_intern set_size b (Inr [])
   | Impl_fixed_set_128k \<Rightarrow> bench_with N (fixed_set_intern svh) str_intern_size b (fixed_set_new 131072)
   | Impl_fixed_set_256k \<Rightarrow> bench_with N (fixed_set_intern svh) str_intern_size b (fixed_set_new 262144)
   | Impl_fixed_set_512k \<Rightarrow> bench_with N (fixed_set_intern svh) str_intern_size b (fixed_set_new 524288)
   | Impl_fixed_set_1m \<Rightarrow> bench_with N (fixed_set_intern svh) str_intern_size b (fixed_set_new 1048576)
   | Impl_var_set \<Rightarrow> bench_with N (var_set_intern rnd svh) str_intern_size b (intern_var_set_new 4096 (push_bit 23 1))
   | Impl_var_set_pmr \<Rightarrow> bench_with N (var_set_intern rnd svh) str_intern_size b (intern_var_set_new 4096 (push_bit 23 1))
   | Impl_ubench \<Rightarrow> bench_with N (str_intern_intern rnd svh) str_intern_size b (str_intern_new 4096 (push_bit 20 1)))"

text \<open>The times, in nanoseconds; the casts truncate.\<close>

record busy_measurement =
  idle_time :: int
  busy_time :: int
  cpu_time :: int
  run_time :: int

record stop_watch =
  start_idle :: int
  start_proc :: int
  start_time :: int

definition to_milliseconds :: "int \<Rightarrow> int" where
  "to_milliseconds n = (if n < 0 then - (- n div 1000000) else n div 1000000)"

definition busy_measure :: "nat \<Rightarrow> stop_watch \<Rightarrow> stop_watch \<Rightarrow> busy_measurement" where
  "busy_measure cores start now =
     (let time_span = start_time now - start_time start; idle_span = start_idle now - start_idle start;
          proc_span = start_proc now - start_proc start in
      \<lparr>idle_time = to_milliseconds idle_span,
       busy_time = (if time_span * int cores > idle_span then to_milliseconds (int cores * time_span - idle_span) else 0),
       cpu_time = to_milliseconds proc_span, run_time = to_milliseconds time_span\<rparr>)"

definition word_text :: "'a::len word \<Rightarrow> string" where
  "word_text w = nat_to_string (unat w)"

definition stats_table :: "string \<Rightarrow> mem_metrics \<Rightarrow> busy_measurement \<Rightarrow> 64 word \<Rightarrow> 32 word \<Rightarrow> table_call list" where
  "stats_table name m stopped ws interned_words =
     [Add_column ''Metric'' Align_left, Add_column name Align_right,
      Add_line [''Words'', word_text ws],
      Add_line [''Interned Words'', word_text (ucast interned_words :: 64 word)],
      Add_line [''Currently Allocated (bytes)'', int_to_string (sint (current_alloc m))],
      Add_line [''Max Allocated Mem (bytes)'', word_text (max_alloc m)],
      Add_line [''Total Allocated Mem (bytes)'', word_text (total_alloc m)],
      Add_line [''Total Freed Mem (bytes)'', word_text (total_free m)],
      Add_line [''Allocation Count'', word_text (allocs m)],
      Add_line [''Free Count'', word_text (frees m)],
      Add_line [''Process Time (ms)'', int_to_string (cpu_time stopped)],
      Add_line [''System Time (ms)'', int_to_string (busy_time stopped)],
      Add_line [''Elapsed Time (ms)'', int_to_string (run_time stopped)]]"

definition print_stats :: "string \<Rightarrow> mem_metrics \<Rightarrow> busy_measurement \<Rightarrow> 64 word \<Rightarrow> 32 word \<Rightarrow> string" where
  "print_stats name m stopped ws interned_words = print_table (table_of (stats_table name m stopped ws interned_words)) @ [newline]"

text \<open>The program: \<open>opened\<close> is what the system gives for a path.\<close>

definition bench_main :: "nat \<Rightarrow> (rat \<Rightarrow> rat) \<Rightarrow> hash \<Rightarrow> (string \<Rightarrow> int + read_answer list) \<Rightarrow> mem_metrics \<Rightarrow> busy_measurement \<Rightarrow>
    string option list \<Rightarrow> (stop + string) option" where
  "bench_main N rnd svh opened m stopped argv = (case bench_make_options argv of
     Inl e \<Rightarrow> Some (Inl e)
   | Inr p \<Rightarrow> (case bench_run N rnd svh (readbuff_new N (opened (bn_input p))) (bn_mode p) of
         None \<Rightarrow> None
       | Some (Inl e) \<Rightarrow> Some (Inl Terminated)
       | Some (Inr (ws, interned_words)) \<Rightarrow> Some (Inr (print_stats (bn_mode_s p) m stopped ws interned_words))))"

section \<open>What is counted\<close>

lemmas all_tokens_induct = all_tokens.raw_induct [rotated, consumes 1, case_names step]

lemma bench_loop_tokens:
  assumes "all_tokens N b out = Some r"
  shows "\<exists>ws. fst r = out @ ws \<and>
    (\<forall>t w. bench_loop N intern b t w = Some (snd (intern_all intern ws t), w + of_nat (length ws)))"
  using assms
proof (induction N b out r rule: all_tokens_induct)
  case (step self N b out r)
  show ?case
  proof (cases "get_token N b")
    case None
    then show ?thesis using step(2) by simp
  next
    case (Some x)
    obtain y b' where x: "x = (y, b')" by (cases x)
    show ?thesis
    proof (cases y)
      case (Inl e)
      then show ?thesis using step(2) Some x
        by (intro exI [of _ "[]"]) (auto simp: bench_loop.simps)
    next
      case (Inr tok)
      then have "self N b' (out @ [tok]) = Some r" using step(2) Some x by simp
      from step(1) [OF this] obtain ws where ws: "fst r = out @ tok # ws"
        "\<And>t w. bench_loop N intern b' t w = Some (snd (intern_all intern ws t), w + of_nat (length ws))" by auto
      have "bench_loop N intern b t w = Some (snd (intern_all intern (tok # ws) t), w + of_nat (length (tok # ws)))" for t w
        using Some x Inr ws(2) by (subst bench_loop.simps) (simp split: prod.split)
      then show ?thesis using ws(1) by blast
    qed
  qed
qed

text \<open>What a table makes of all the words.\<close>

lemma bench_with_words:
  assumes "0 < N" "N < 2 ^ 64" "\<not> interrupted as" "fit N (words (stream as))"
  shows "bench_with N intern table_size (readbuff_new N (Inr as)) (Inr t) =
    Some (Inr (of_nat (length (words (stream as))), table_size (snd (intern_all intern (words (stream as)) t))))"
proof -
  have r: "remaining (readbuff_new N (Inr as)) = stream as"
    by (simp add: readbuff_new_def remaining_def from_pos_def ahead_def)
  have "all_tokens N (readbuff_new N (Inr as)) [] = Some ([] @ words (stream as), final_errno (readbuff_new N (Inr as)))"
    using all_tokens_words [OF assms(1,2) readbuff_new_inv [OF assms(3)], of "[]"] assms(4) by (simp add: r)
  from bench_loop_tokens [OF this, of intern] show ?thesis by (auto simp: bench_with_def)
qed

lemma fixed_counts_words:
  assumes "fixed_set_new n = Inr t" "n \<noteq> 0"
  shows "str_intern_size (snd (intern_all (fixed_set_intern svh) ws t)) = of_nat (card (set ws))"
proof -
  have t: "t = core_new n" using assms(1) by (simp add: fixed_set_new_def split: if_splits)
  have "core_ok svh t" unfolding t by (rule core_ok_new) (use assms(2) in \<open>simp add: word_neq_0_conv\<close>)
  moreover have "content t = Map.empty" by (simp add: t core_new_def content_def fun_eq_iff)
  ultimately show ?thesis by (rule fixed_counts.counts)
qed

lemma var_counts_words:
  assumes "float_rounding_ones rnd" "intern_var_set_new n k = Inr t" "k \<le> 2 ^ 62" "length ws < 2 ^ 54"
  shows "str_intern_size (snd (intern_all (var_set_intern rnd svh) ws t)) = of_nat (card (set ws))"
proof (rule var_counts.counts)
  have r: "str_intern_room svh (length ws) t \<and> content t = Map.empty"
    by (rule str_intern_new_room [OF _ assms(4)]) (use assms(2) in \<open>simp add: var_set_new_eq\<close>)
  then show "content t = Map.empty" by simp
  show "float_rounding_ones rnd \<and> var_set_room svh (length ws) t"
    using r assms(1-3) by (auto simp: var_set_room_def intern_var_set_new_def hash_core.defs split: if_splits)
qed

lemma str_counts_words:
  assumes "float_rounding rnd" "str_intern_new n k = Inr t" "length ws < 2 ^ 54"
  shows "str_intern_size (snd (intern_all (str_intern_intern rnd svh) ws t)) = of_nat (card (set ws))"
  by (rule str_counts.counts) (use assms(1) str_intern_new_room [OF assms(2,3)] in auto)

lemma bench_constructors:
  "fixed_set_new 131072 = Inr (core_new 131072)" "fixed_set_new 262144 = Inr (core_new 262144)"
  "fixed_set_new 524288 = Inr (core_new 524288)" "fixed_set_new 1048576 = Inr (core_new 1048576)"
  "str_intern_new 4096 (push_bit 23 1) = Inr (interned_new 4096 (push_bit 23 1))"
  "str_intern_new 4096 (push_bit 20 1) = Inr (interned_new 4096 (push_bit 20 1))"
  by (simp_all add: fixed_set_new_def str_intern_new_def push_bit_eq_mult)

lemma bench_run_counts:
  assumes "0 < N" "N < 2 ^ 64" "\<not> interrupted as" "fit N (words (stream as))" "length (words (stream as)) < 2 ^ 54" "float_rounding_ones rnd"
  shows "bench_run N rnd svh (readbuff_new N (Inr as)) impl = Some (Inr (of_nat (length (words (stream as))),
    if impl = Impl_none then 0 else of_nat (card (set (words (stream as))))))"
proof -
  note w = bench_with_words [OF assms(1-4)]
  have fr: "float_rounding rnd" using assms(6) by (simp add: float_rounding_ones_def)
  have k: "(push_bit 23 1 :: size_t) \<le> 2 ^ 62" by (simp add: push_bit_eq_mult)
  have l: "fst (snd (intern_all flist_intern ws (0, []))) = of_nat (card (set ws))" for ws
    by (rule linear_counts.counts) (simp_all add: flist_counted_def flist_content_def fun_eq_iff)
  have s: "set_size (snd (intern_all set_intern ws [])) = of_nat (card (set ws))" for ws
    by (rule std_set.counts) (simp_all add: set_content_def fun_eq_iff)
  note v = var_counts_words [OF assms(6) bench_constructors(5) [folded var_set_new_eq] k assms(5)]
  note u = str_counts_words [OF fr bench_constructors(6) assms(5)]
  note f = bench_constructors(1-4) [THEN fixed_counts_words, simplified]
  show ?thesis
    by (cases impl; simp only: bench_run_def strintern_impl.case strintern_impl.distinct if_True if_False w none_size_def l s f u v
        var_set_new_eq bench_constructors simp_thms)
qed

text \<open>C32: For a file that opens, of which no call of \<open>read\<close> is interrupted and whose words, fewer than \<open>2 ^ 54\<close>, fit the
  buffer, the program prints the number of the words of the file and, whatever table the command line chooses, the
  number of the different ones among them; the choice without a table prints 0 for that.\<close>

theorem bench_main_counts:
  assumes "bench_make_options argv = Inr p" "opened (bn_input p) = Inr as" "\<not> interrupted as" "fit N (words (stream as))"
    "0 < N" "N < 2 ^ 64" "length (words (stream as)) < 2 ^ 54" "float_rounding_ones rnd"
  shows "bench_main N rnd svh opened m stopped argv = Some (Inr (print_stats (bn_mode_s p) m stopped
    (of_nat (length (words (stream as)))) (if bn_mode p = Impl_none then 0 else of_nat (card (set (words (stream as)))))))"
  unfolding bench_main_def using assms bench_run_counts [OF assms(5,6,3,4,7,8)] by simp

theorem bench_main_counts_witness:
  "bench_main 8 id (\<lambda>_. 3) (\<lambda>_. Inr [Data ''a b '', Data ''a'']) no_metrics (busy_measure 2 \<lparr>start_idle = 0, start_proc = 0, start_time = 0\<rparr> \<lparr>start_idle = 0, start_proc = 0, start_time = 5000000\<rparr>)
     [Some ''str_intern'', Some ''-Bset'', Some ''file''] =
   Some (Inr (print_stats ''set'' no_metrics \<lparr>idle_time = 0, busy_time = 10, cpu_time = 0, run_time = 5\<rparr> 3 2))"
proof -
  have o: "bench_make_options [Some ''str_intern'', Some ''-Bset'', Some ''file''] = Inr \<lparr>bn_mode = Impl_set, bn_mode_s = ''set'', bn_input = ''file''\<rparr>"
    by code_simp
  have w: "words (stream [Data ''a b '', Data ''a'']) = [''a'', ''b'', ''a'']" by code_simp
  have c: "card {''a'', ''b'', ''a''} = 2" by (simp add: card_insert_if)
  have "float_rounding_ones id" by (simp add: float_rounding_ones_def float_rounding_def)
  from bench_main_counts [OF o, of "\<lambda>_. Inr [Data ''a b '', Data ''a'']" "[Data ''a b '', Data ''a'']" 8 id "\<lambda>_. 3" no_metrics, OF _ _ _ _ _ _ this] show ?thesis
    unfolding w by (simp add: c fit_def busy_measure_def to_milliseconds_def)
qed

text \<open>A file that cannot be opened is counted like an empty one: the program prints its numbers and succeeds.\<close>

theorem bench_main_no_file:
  assumes "bench_make_options argv = Inr p" "opened (bn_input p) = Inl e"
  shows "bench_main N rnd svh opened m stopped argv = Some (Inr (print_stats (bn_mode_s p) m stopped 0 0))"
proof -
  have "get_token N (readbuff_new N (Inl e)) = Some (Inl EBADF, (readbuff_new N (Inl e))\<lparr>rb_eof := True, rb_errno := EBADF, rb_file := []\<rparr>)"
    by (simp add: get_token_def readbuff_new_def read_buff_def transient_def)
  then have l: "bench_loop N intern (readbuff_new N (Inl e)) t 0 = Some (t, 0)" for intern :: "string \<Rightarrow> 't \<Rightarrow> addr \<times> 't" and t
    by (subst bench_loop.simps) simp
  have w: "bench_with N intern sz (readbuff_new N (Inl e)) (Inr t) = Some (Inr (0, sz t))" for intern :: "string \<Rightarrow> 't \<Rightarrow> addr \<times> 't" and sz t
    by (simp add: bench_with_def l)
  have z: "str_intern_size (core_new n) = 0" "str_intern_size (interned_new n k) = 0" for n k
    by (simp_all add: str_intern_size_def interned_new_def core_new_def hash_core.defs)
  have "bench_run N rnd svh (readbuff_new N (Inl e)) (bn_mode p) = Some (Inr (0, 0))"
    by (cases "bn_mode p"; simp only: bench_run_def strintern_impl.case w none_size_def fst_conv z var_set_new_eq bench_constructors)
      (simp_all add: set_size_def)
  then show ?thesis using assms by (simp add: bench_main_def)
qed

theorem bench_main_no_file_witness:
  "bench_main 8 id (\<lambda>_. 3) (\<lambda>_. Inl 2) no_metrics \<lparr>idle_time = 0, busy_time = 0, cpu_time = 0, run_time = 0\<rparr>
     [Some ''str_intern'', Some ''-Bset'', Some ''file''] =
   Some (Inr (print_stats ''set'' no_metrics \<lparr>idle_time = 0, busy_time = 0, cpu_time = 0, run_time = 0\<rparr> 0 0))"
proof -
  have o: "bench_make_options [Some ''str_intern'', Some ''-Bset'', Some ''file''] = Inr \<lparr>bn_mode = Impl_set, bn_mode_s = ''set'', bn_input = ''file''\<rparr>"
    by code_simp
  show ?thesis using bench_main_no_file [OF o, of "\<lambda>_. Inl 2" 2] by simp
qed

end
