(* ===== verification/IpList.thy ===== *)
theory IpList
  imports SddPayload Table
begin

text \<open>
  The tool \<open>iplist\<close> (iplist.cpp): a line for each address of each interface of the system, in columns.  The interfaces are
  those of \<open>query_net_interfaces\<close> (\<open>NetQuery\<close>), in the order of the map.
\<close>

section \<open>The lines\<close>

abbreviation (input) "wid_type \<equiv> 8 :: int"
abbreviation (input) "wid_mtu \<equiv> 7 :: int"
abbreviation (input) "wid_vlan \<equiv> 4 :: int"
abbreviation (input) "wid_ipv4 \<equiv> 15 :: int"
abbreviation (input) "wid_mac \<equiv> 17 :: int"

abbreviation setw :: "int \<Rightarrow> string \<Rightarrow> string" where
  "setw \<equiv> fill_left CHR '' ''"

definition some_text :: "('a \<Rightarrow> string) \<Rightarrow> 'a option \<Rightarrow> string" where
  "some_text f x = (case x of None \<Rightarrow> [] | Some a \<Rightarrow> f a)"

definition if_details :: "int \<Rightarrow> interface \<Rightarrow> string" where
  "if_details ifwidth i =
     (let ifname = (case if_alias i of Some a \<Rightarrow> a | None \<Rightarrow> if_name i) in
      setw ifwidth ifname @ '' '' @
      setw wid_mac (some_text ether_ntos (if_hwaddr i)) @ '' '' @
      setw wid_mtu (some_text (\<lambda>m. nat_to_string (unat m)) (if_mtu i)) @ '' '' @
      setw wid_vlan (some_text (\<lambda>v. nat_to_string (unat (vl_id v))) (if_vlan_of i)) @ '' '' @
      setw ifwidth (some_text vl_parent (if_vlan_of i)) @ '' '')"

definition ipv4_details :: "(in_addr \<Rightarrow> string option) \<Rightarrow> if_ipv4 option \<Rightarrow> string" where
  "ipv4_details ntop ipv4 = (case ipv4 of
     Some a \<Rightarrow>
       setw wid_type ''AF_INET'' @ '' '' @
       setw wid_ipv4 (inet_ntos_addr ntop (ip_addr a)) @ '' '' @
       setw wid_ipv4 (some_text (inet_ntos_addr ntop) (ip_nmask a)) @ '' '' @
       setw wid_ipv4 (some_text (inet_ntos_addr ntop) (ip_baddr a)) @ '' '' @
       setw wid_ipv4 (some_text (inet_ntos_addr ntop) (ip_daddr a)) @ '' ''
   | None \<Rightarrow>
       setw wid_type [] @ '' '' @ setw wid_ipv4 [] @ '' '' @ setw wid_ipv4 [] @ '' '' @
       setw wid_ipv4 [] @ '' '' @ setw wid_ipv4 [] @ '' '')"

definition has_flag :: "flags \<Rightarrow> if_flag \<Rightarrow> bool" where
  "has_flag f b \<longleftrightarrow> flags_bool (flags_and f (flags_of_bit (if_flags b)))"

definition status_text :: "(if_flag \<Rightarrow> 32 word) \<Rightarrow> interface \<Rightarrow> string" where
  "status_text IFF i =
     (let s = interface_status IFF i in
      [if has_flag s UP then CHR ''U'' else CHR ''-'',
       if has_flag s LOWER_UP then CHR ''u'' else CHR ''-'',
       if has_flag s RUNNING then CHR ''R'' else CHR ''-'',
       if has_flag s LOOPBACK then CHR ''L'' else CHR ''-'',
       if has_flag s MULTICAST then CHR ''M'' else CHR ''-'',
       if has_flag s NOARP then CHR ''-'' else CHR ''A''])"

definition iplist_width :: "(string \<times> interface) list \<Rightarrow> int" where
  "iplist_width ifs = fold (\<lambda>(name, i) w.
     (case if_alias i of Some a \<Rightarrow> max w (int (length a)) | None \<Rightarrow> max w (int (length name)))) ifs 10"

definition iplist_header :: "int \<Rightarrow> string" where
  "iplist_header ifwidth =
     setw (ifwidth + 1) ''Interface'' @ setw (wid_mac + 1) ''HW Address'' @ setw (wid_mtu + 1) ''MTU'' @ setw (wid_vlan + 1) ''VLAN'' @
     setw (ifwidth + 1) ''Parent'' @ setw (wid_type + 1) ''Type'' @ setw (wid_ipv4 + 1) ''Address'' @ setw (wid_ipv4 + 1) ''Net Mask'' @
     setw (wid_ipv4 + 1) ''Broadcast'' @ setw (wid_ipv4 + 1) ''Destination'' @ ''UuRLMA''"

definition iplist_rule :: "int \<Rightarrow> string" where
  "iplist_rule ifwidth =
     concat (map (\<lambda>w. fill_left CHR ''-'' w [] @ '' '')
       [ifwidth, wid_mac, wid_mtu, wid_vlan, ifwidth, wid_type, wid_ipv4, wid_ipv4, wid_ipv4, wid_ipv4]) @ ''------''"

definition interface_lines :: "(in_addr \<Rightarrow> string option) \<Rightarrow> (if_flag \<Rightarrow> 32 word) \<Rightarrow> int \<Rightarrow> interface \<Rightarrow> string list" where
  "interface_lines ntop IFF ifwidth i =
     (if if_inet i \<noteq> [] then map (\<lambda>a. if_details ifwidth i @ ipv4_details ntop (Some a) @ status_text IFF i) (if_inet i)
      else [if_details ifwidth i @ ipv4_details ntop None @ status_text IFF i])"

definition iplist_lines :: "(in_addr \<Rightarrow> string option) \<Rightarrow> (if_flag \<Rightarrow> 32 word) \<Rightarrow> (string \<times> interface) list \<Rightarrow> string list" where
  "iplist_lines ntop IFF ifs =
     (let ifwidth = iplist_width ifs in
      [iplist_header ifwidth, iplist_rule ifwidth] @ concat (map (\<lambda>(name, i). interface_lines ntop IFF ifwidth i) ifs))"

text \<open>\<open>names\<close> are the keys of the map in its order.\<close>

definition iplist_main :: "net_system \<Rightarrow> (if_flag \<Rightarrow> 32 word) \<Rightarrow> ifaddrs list \<Rightarrow> string list \<Rightarrow> bool \<Rightarrow> (in_addr \<Rightarrow> string option) \<Rightarrow> string list" where
  "iplist_main sys IFF l names sock ntop =
     (let ifs = query_net_interfaces sys IFF l names sock in
      iplist_lines ntop IFF (List.map_filter (\<lambda>n. map_option (\<lambda>i. (n, i)) (ifs n)) names))"

section \<open>The columns\<close>

text \<open>The reference: each text in its column, one character apart.\<close>

definition columns :: "nat list \<Rightarrow> string list \<Rightarrow> string" where
  "columns ws ts = concat (map2 (\<lambda>w t. t @ replicate (w + 1 - length t) CHR '' '') ws ts)"

definition iplist_widths :: "nat \<Rightarrow> nat list" where
  "iplist_widths w = [w, 17, 7, 4, w, 8, 15, 15, 15, 15]"

definition row_texts :: "(in_addr \<Rightarrow> string option) \<Rightarrow> interface \<Rightarrow> if_ipv4 option \<Rightarrow> string list" where
  "row_texts ntop i a =
     [case if_alias i of Some n \<Rightarrow> n | None \<Rightarrow> if_name i, some_text ether_ntos (if_hwaddr i),
      some_text (\<lambda>m. nat_to_string (unat m)) (if_mtu i), some_text (\<lambda>v. nat_to_string (unat (vl_id v))) (if_vlan_of i),
      some_text vl_parent (if_vlan_of i)] @
     (case a of None \<Rightarrow> [[], [], [], [], []]
      | Some a \<Rightarrow> [''AF_INET'', inet_ntos_addr ntop (ip_addr a), some_text (inet_ntos_addr ntop) (ip_nmask a),
          some_text (inet_ntos_addr ntop) (ip_baddr a), some_text (inet_ntos_addr ntop) (ip_daddr a)])"

definition addresses :: "interface \<Rightarrow> if_ipv4 option list" where
  "addresses i = (if if_inet i = [] then [None] else map Some (if_inet i))"

text \<open>What fits the columns: texts of addresses, an MTU of seven digits, a number of a VLAN, the name of the parent.\<close>

definition fits_columns :: "nat \<Rightarrow> string \<times> interface \<Rightarrow> bool" where
  "fits_columns w = (\<lambda>(name, i). if_name i = name \<and> (\<forall>m. if_mtu i = Some m \<longrightarrow> unat m < 10 ^ 7) \<and>
     (\<forall>v. if_vlan_of i = Some v \<longrightarrow> vl_id v \<le> 4095 \<and> length (vl_parent v) \<le> w))"

lemma setw_short: "length t \<le> n \<Longrightarrow> setw (int n) t @ '' '' = t @ replicate (n + 1 - length t) CHR '' ''"
  by (simp add: fill_left_def Suc_diff_le replicate_append_same)

lemma columns_Nil [simp]: "columns [] [] = []"
  by (simp add: columns_def)

lemma columns_Cons [simp]: "columns (w # ws) (t # ts) = (t @ replicate (w + 1 - length t) CHR '' '') @ columns ws ts"
  by (simp add: columns_def)

lemma columns_length: "list_all2 (\<lambda>w t. length t \<le> w) ws ts \<Longrightarrow> length (columns ws ts) = sum_list ws + length ws"
  by (induction rule: list_all2_induct) auto

lemma ether_text_length: "length (ether_ntos a) = 17"
  by (cases a) (simp add: ether_ntos_def snprintf_string_def hex2_def)

lemma row_fits:
  assumes "fits_columns w (name, i)" "length (case if_alias i of Some n \<Rightarrow> n | None \<Rightarrow> name) \<le> w" "\<And>b t. ntop b = Some t \<Longrightarrow> length t \<le> 15"
  shows "list_all2 (\<lambda>w t. length t \<le> w) (iplist_widths w) (row_texts ntop i a)"
proof -
  have m: "length (nat_to_string (unat m)) \<le> 7" if "if_mtu i = Some m" for m
    using nat_to_string_length [of "unat m" 6] assms(1) that by (simp add: fits_columns_def)
  have v: "length (nat_to_string (unat (vl_id v))) \<le> 4" if "if_vlan_of i = Some v" for v
  proof -
    have "unat (vl_id v) \<le> unat (4095 :: 16 word)" using assms(1) that by (simp add: fits_columns_def word_le_nat_alt)
    then show ?thesis using nat_to_string_length [of "unat (vl_id v)" 3] by simp
  qed
  have n: "length (inet_ntos_addr ntop b) \<le> 15" for b
    using assms(3) by (auto simp: inet_ntos_addr_def split: option.split)
  have nm: "if_name i = name" using assms(1) by (simp add: fits_columns_def)
  have p: "length (vl_parent v) \<le> w" if "if_vlan_of i = Some v" for v using assms(1) that by (simp add: fits_columns_def)
  show ?thesis using assms(2) m v n p
    by (cases a) (auto simp: iplist_widths_def row_texts_def some_text_def nm ether_text_length split: option.split)
qed

lemma cells_columns:
  "list_all2 (\<lambda>w t. length t \<le> w) ws ts \<Longrightarrow> concat (map2 (\<lambda>w t. setw (int w) t @ '' '') ws ts) = columns ws ts"
  by (induction rule: list_all2_induct) (simp_all add: setw_short del: replicate.simps)

lemma row_cells: "if_details (int w) i @ ipv4_details ntop a = concat (map2 (\<lambda>w t. setw (int w) t @ '' '') (iplist_widths w) (row_texts ntop i a))"
  by (cases a) (simp_all add: if_details_def ipv4_details_def iplist_widths_def row_texts_def Let_def)

text \<open>The widest name.\<close>

lemma iplist_width_covers:
  "10 \<le> iplist_width ifs" "(name, i) \<in> set ifs \<Longrightarrow> int (length (case if_alias i of Some n \<Rightarrow> n | None \<Rightarrow> name)) \<le> iplist_width ifs"
proof -
  let ?f = "\<lambda>(name, i) w. (case if_alias i of Some a \<Rightarrow> max w (int (length a)) | None \<Rightarrow> max w (int (length name)))"
  have f: "?f x w = max w (int (length (case if_alias (snd x) of Some n \<Rightarrow> n | None \<Rightarrow> fst x)))" for x w
    by (cases x) (simp split: option.split)
  have "w \<le> fold ?f ifs w \<and> (\<forall>x \<in> set ifs. int (length (case if_alias (snd x) of Some n \<Rightarrow> n | None \<Rightarrow> fst x)) \<le> fold ?f ifs w)" for w
  proof (induction ifs arbitrary: w)
    case (Cons x ifs)
    note ih = Cons.IH [of "?f x w"]
    have "w \<le> ?f x w" "int (length (case if_alias (snd x) of Some n \<Rightarrow> n | None \<Rightarrow> fst x)) \<le> ?f x w" unfolding f by simp_all
    with ih show ?case by (auto intro: order_trans)
  qed simp
  then have a: "10 \<le> iplist_width ifs" "\<forall>x \<in> set ifs. int (length (case if_alias (snd x) of Some n \<Rightarrow> n | None \<Rightarrow> fst x)) \<le> iplist_width ifs"
    unfolding iplist_width_def by blast+
  show "10 \<le> iplist_width ifs" by (rule a(1))
  show "(name, i) \<in> set ifs \<Longrightarrow> int (length (case if_alias i of Some n \<Rightarrow> n | None \<Rightarrow> name)) \<le> iplist_width ifs"
    by (drule a(2) [THEN bspec]) (simp cong: option.case_cong)
qed

lemma header_length: "10 \<le> w \<Longrightarrow> length (iplist_header (int w)) = 2 * w + 112"
  by (simp add: iplist_header_def fill_left_def nat_add_distrib)

lemma rule_length: "length (iplist_rule (int w)) = 2 * w + 112"
  by (simp add: iplist_rule_def fill_left_def)

lemma status_length: "length (status_text IFF i) = 6"
  by (simp add: status_text_def Let_def)

lemma widths_length: "sum_list (iplist_widths w) + length (iplist_widths w) = 2 * w + 106"
  by (simp add: iplist_widths_def)

text \<open>Unless a text is too long for its column, iplist prints below its two header lines one line for each address of
  each interface, and one for an interface without addresses, in the order of the map: each text begins in its column, the flags
  end the line, and all lines have the same length.\<close>

theorem iplist_rows:
  assumes "list_all (fits_columns (nat (iplist_width ifs))) ifs" "\<And>b t. ntop b = Some t \<Longrightarrow> length t \<le> 15"
  defines "w \<equiv> nat (iplist_width ifs)"
  shows "drop 2 (iplist_lines ntop IFF ifs) =
      concat (map (\<lambda>(name, i). map (\<lambda>a. columns (iplist_widths w) (row_texts ntop i a) @ status_text IFF i) (addresses i)) ifs) \<and>
    list_all (\<lambda>l. length l = 2 * w + 112) (iplist_lines ntop IFF ifs)"
proof -
  have w: "iplist_width ifs = int w" "10 \<le> w" using iplist_width_covers(1) [of ifs] by (simp_all add: w_def)
  have fit: "list_all2 (\<lambda>w t. length t \<le> w) (iplist_widths w) (row_texts ntop i a)" if "(name, i) \<in> set ifs" for name i a
  proof (rule row_fits)
    show "fits_columns w (name, i)" using assms(1) that by (auto simp: list_all_iff w_def)
    show "length (case if_alias i of Some n \<Rightarrow> n | None \<Rightarrow> name) \<le> w" using iplist_width_covers(2) [OF that] w(1) by simp
  qed (rule assms(2))
  have row: "if_details (int w) i @ ipv4_details ntop a @ s = columns (iplist_widths w) (row_texts ntop i a) @ s"
    if "(name, i) \<in> set ifs" for name i a s
    using row_cells [of w i ntop a] cells_columns [OF fit [OF that]] by simp
  have rows: "interface_lines ntop IFF (int w) i = map (\<lambda>a. columns (iplist_widths w) (row_texts ntop i a) @ status_text IFF i) (addresses i)"
    if "(name, i) \<in> set ifs" for name i
    using row [OF that] by (simp add: interface_lines_def addresses_def)
  have all: "map (\<lambda>(name, i). interface_lines ntop IFF (int w) i) ifs =
      map (\<lambda>(name, i). map (\<lambda>a. columns (iplist_widths w) (row_texts ntop i a) @ status_text IFF i) (addresses i)) ifs"
    using rows by auto
  have "length (columns (iplist_widths w) (row_texts ntop i a) @ status_text IFF i) = 2 * w + 112"
    if "(name, i) \<in> set ifs" for name i a
    using columns_length [OF fit [OF that]] widths_length [of w] by (simp add: status_length)
  then show ?thesis unfolding iplist_lines_def w(1) Let_def all
    using header_length [OF w(2)] rule_length [of w] by (auto simp: list_all_iff)
qed

text \<open>The flags read back.\<close>

lemma has_flag_status: "has_flag (interface_status IFF i) f \<longleftrightarrow> if_flagbits i AND IFF f \<noteq> 0"
proof -
  have "flag_mask (interface_status IFF i) AND if_flags f = (if bit (flag_mask (interface_status IFF i)) (flag_bit f) then if_flags f else 0)"
    unfolding if_flags_power by (rule bit_eqI) (auto simp: bit_simps)
  moreover have "if_flags f \<noteq> 0" by (cases f) (simp_all add: if_flags_def)
  ultimately show ?thesis
    by (simp add: has_flag_def flags_bool_def flags_and_def flags_of_bit_def interface_status_bit)
qed

lemma status_reads_back:
  "(status_text IFF i ! 0 = CHR ''U'') = (if_flagbits i AND IFF UP \<noteq> 0)"
  "(status_text IFF i ! 3 = CHR ''L'') = (if_flagbits i AND IFF LOOPBACK \<noteq> 0)"
  "(status_text IFF i ! 5 = CHR ''A'') = (if_flagbits i AND IFF NOARP = 0)"
  by (simp_all add: status_text_def has_flag_status Let_def)

definition vlan_interfaces :: "(string \<times> interface) list" where
  "vlan_interfaces =
     [(''eth0'', (interface_new ''eth0'')\<lparr>if_mtu := Some 1500, if_inet := [if_ipv4_new 1, if_ipv4_new 2], if_flagbits := 1\<rparr>),
      (''vlan7'', (interface_new ''vlan7'')\<lparr>if_vlan_of := Some \<lparr>vl_parent = ''eth0'', vl_id = 7\<rparr>\<rparr>)]"

theorem iplist_rows_witness:
  "map length (iplist_lines (\<lambda>b. Some ''10.0.0.1'') if_flags vlan_interfaces) = [132, 132, 132, 132, 132] \<and>
   drop 2 (iplist_lines (\<lambda>b. Some ''10.0.0.1'') if_flags vlan_interfaces) =
      concat (map (\<lambda>(name, i). map (\<lambda>a. columns (iplist_widths 10) (row_texts (\<lambda>b. Some ''10.0.0.1'') i a) @ status_text if_flags i) (addresses i)) vlan_interfaces)"
proof -
  have w: "iplist_width vlan_interfaces = 10" by (simp add: iplist_width_def vlan_interfaces_def interface_new_def)
  have f: "list_all (fits_columns (nat (iplist_width vlan_interfaces))) vlan_interfaces"
    unfolding w by (simp add: fits_columns_def vlan_interfaces_def interface_new_def)
  have l: "length (iplist_lines (\<lambda>b. Some ''10.0.0.1'') if_flags vlan_interfaces) = 5"
    by (simp add: iplist_lines_def vlan_interfaces_def interface_lines_def interface_new_def Let_def)
  have t: "drop 2 (iplist_lines (\<lambda>b. Some ''10.0.0.1'') if_flags vlan_interfaces) =
      concat (map (\<lambda>(name, i). map (\<lambda>a. columns (iplist_widths (nat (iplist_width vlan_interfaces))) (row_texts (\<lambda>b. Some ''10.0.0.1'') i a) @ status_text if_flags i) (addresses i)) vlan_interfaces) \<and>
    list_all (\<lambda>l. length l = 2 * nat (iplist_width vlan_interfaces) + 112) (iplist_lines (\<lambda>b. Some ''10.0.0.1'') if_flags vlan_interfaces)"
    by (rule iplist_rows [OF f]) simp
  then have "map length (iplist_lines (\<lambda>b. Some ''10.0.0.1'') if_flags vlan_interfaces) = replicate 5 132"
    using l unfolding w by (intro nth_equalityI) (simp_all add: list_all_length)
  then show ?thesis using t unfolding w by (simp add: numeral_eq_Suc)
qed

text \<open>The width of the first column, which the column of the parents shares, counts the alias of an interface in place of its
  name: a parent with an alias can be wider than its column.\<close>

lemma iplist_parent_wider:
  "iplist_width [(''enp0s31f6long'', (interface_new ''enp0s31f6long'')\<lparr>if_alias := Some ''lan''\<rparr>)] = 10"
  by (simp add: iplist_width_def interface_new_def)

end
