(* ===== verification/TimeCompare.thy ===== *)
theory TimeCompare
  imports Strings Table
begin

text \<open>
  The tool \<open>time_compare\<close> (time\_compare.cpp): the clocks of the system side by side, once a second.  A point of time is a
  number of nanoseconds; what the clocks, \<open>ClockCycles()\<close> and the system page say are arguments.
\<close>

section \<open>Times\<close>

text \<open>The count of nanoseconds is signed and is converted to 64 bits without a sign.\<close>

definition print_time :: "int \<Rightarrow> string" where
  "print_time count =
     (let ns = (of_int count :: 64 word) in
      nat_to_string (unat (ns div 1000000000)) @ ''.'' @ fill_right CHR ''0'' 9 (nat_to_string (unat (ns mod 1000000000))))"

text \<open>The cycles as nanoseconds; without a number of cycles per second the division has no value.\<close>

definition qnx_clockcycles :: "64 word \<Rightarrow> 64 word \<Rightarrow> int option" where
  "qnx_clockcycles cycles_per_sec c =
     (if cycles_per_sec = 0 then None
      else
        let cs = c div cycles_per_sec;
            cn = (c mod cycles_per_sec * 1000000000) div cycles_per_sec in
        Some (uint cs * 1000000000 + uint cn))"

text \<open>\<open>clock_gettime\<close> gives the result of the call, the time and the error.\<close>

definition clock_time :: "int \<times> (int \<times> int) \<times> int \<Rightarrow> int + int" where
  "clock_time = (\<lambda>(result, (tv_sec, tv_nsec), errno). if result \<noteq> 0 then Inl errno else Inr (tv_sec * 1000000000 + tv_nsec))"

section \<open>What is printed\<close>

definition print_clock_details :: "string \<Rightarrow> bool \<Rightarrow> int \<times> int \<Rightarrow> string" where
  "print_clock_details name is_steady period =
     fill_left CHR '' '' 25 name @ ''  '' @ fill_left CHR '' '' 6 (if is_steady then ''Yes'' else ''No'') @ ''  '' @
     int_to_string (fst period) @ ''/'' @ int_to_string (snd period)"

text \<open>The entry of the system page; \<open>new\<close> is QNX 8 and later.\<close>

record qtime =
  cycles_per_sec :: int
  nsec_tod_adjust :: int
  qt_nsec :: int
  nsec_inc :: int
  boot_time :: int
  tick_nsec_inc :: int
  tick_count :: int
  qt_intr :: int
  timer_prog_time :: int
  boot_cc :: int
  tick_period_cc :: int
  qt_flags :: "32 word"

definition qtime_flag_string :: "qtime \<Rightarrow> string \<times> 32 word option \<Rightarrow> string list" where
  "qtime_flag_string q = (\<lambda>(name, value). case value of None \<Rightarrow> []
     | Some x \<Rightarrow> [''  ['' @ [if qt_flags q AND x \<noteq> 0 then CHR ''X'' else CHR ''-''] @ ''] '' @ name])"

definition print_qnx_details :: "bool \<Rightarrow> (string \<Rightarrow> 32 word option) \<Rightarrow> qtime \<Rightarrow> string list" where
  "print_qnx_details new have q =
     [''QNX Clock Details (pidin syspage=qtime)'',
      ''- cycles_per_sec:  '' @ int_to_string (cycles_per_sec q),
      ''- nsec_tod_adjust: '' @ int_to_string (nsec_tod_adjust q)] @
     (if new then [] else [''- nsec:            '' @ int_to_string (qt_nsec q)]) @
     [''- nsec_inc:        '' @ int_to_string (nsec_inc q),
      ''- boot_time:       '' @ int_to_string (boot_time q),
      ''- adjust:          tick_nsec_inc='' @ int_to_string (tick_nsec_inc q) @ ''; tick_count='' @ int_to_string (tick_count q),
      ''- interrupt:       '' @ int_to_string (qt_intr q)] @
     (if new then [] else [''- timer_prog_time: '' @ int_to_string (timer_prog_time q)]) @
     (if new then [''- boot_cc:         '' @ int_to_string (boot_cc q), ''- tick_period_cc:  '' @ int_to_string (tick_period_cc q)] else []) @
     [''- Flags''] @
     concat (map (\<lambda>n. qtime_flag_string q (n, have n))
       [''QTIME_FLAG_TIMER_ON_CPU0'', ''QTIME_FLAG_CHECK_STABLE'', ''QTIME_FLAG_TICKLESS'', ''QTIME_FLAG_TIMECC'', ''QTIME_FLAG_GLOBAL_CLOCKCYCLES''])"

text \<open>The values read in one turn of the loop; the last one only on QNX.\<close>

record clock_sample =
  cl_system :: int
  cl_highres :: int
  cl_steady :: int
  cl_monotonic :: "int + int"
  cl_realtime :: "int + int"
  cl_cycles :: "int option"

definition clock_field :: "int + int \<Rightarrow> string" where
  "clock_field r = (case r of Inr t \<Rightarrow> fill_right CHR '' '' 22 (print_time t) @ '' '' | Inl e \<Rightarrow> fill_right CHR '' '' 22 ''Error'' @ '' '')"

definition sample_line :: "clock_sample \<Rightarrow> string" where
  "sample_line s =
     clock_field (Inr (cl_system s)) @ clock_field (Inr (cl_highres s)) @ clock_field (Inr (cl_steady s)) @
     clock_field (cl_monotonic s) @ clock_field (cl_realtime s) @
     (case cl_cycles s of None \<Rightarrow> [] | Some t \<Rightarrow> clock_field (Inr t))"

definition clock_names :: "bool \<Rightarrow> string list" where
  "clock_names qnx = [''System Clock'', ''Highres Clock'', ''Steady Clock'', ''CLOCK_MONOTONIC'', ''CLOCK_REALTIME''] @
     (if qnx then [''ClockCycles()''] else [])"

text \<open>The header lines of the loop and the lines of its first turns; the loop does not end.\<close>

definition clock_lines :: "bool \<Rightarrow> clock_sample list \<Rightarrow> string list" where
  "clock_lines qnx ss =
     [concat (map (\<lambda>n. fill_left CHR '' '' 22 n @ '' '') (clock_names qnx)),
      concat (map (\<lambda>n. fill_left CHR ''-'' 22 [] @ '' '') (clock_names qnx))] @
     map sample_line ss"

section \<open>Times read back\<close>

lemma fill_right_length: "length s \<le> nat w \<Longrightarrow> length (fill_right c w s) = nat w"
  by (simp add: fill_right_def)

lemma dec_value_zeros: "dec_value (replicate n CHR ''0'' @ ds) = dec_value ds"
proof -
  have "foldl (\<lambda>v d. v * 10 + digit_val d) 0 (replicate n CHR ''0'') = 0" by (induction n) (simp_all add: digit_val_def)
  then show ?thesis by (simp add: dec_value_def)
qed

definition nanoseconds :: "int \<Rightarrow> nat" where
  "nanoseconds count = nat (count mod 2 ^ 64)"

lemma print_time_parts:
  "print_time count = nat_to_string (nanoseconds count div 1000000000) @ ''.'' @
     fill_right CHR ''0'' 9 (nat_to_string (nanoseconds count mod 1000000000))"
proof -
  have "unat (of_int count :: 64 word) = nanoseconds count" by (simp add: nanoseconds_def unat_eq_nat_uint uint_word_of_int)
  then show ?thesis by (simp add: print_time_def Let_def unat_div_distrib unat_mod_distrib)
qed

text \<open>A time of the years that a signed count has is read back from its text: the seconds before the point, nine digits of nanoseconds
  behind it.  A time before the epoch is printed as one that lies \<open>2 ^ 64\<close> nanoseconds later.\<close>

theorem print_time_reads_back:
  "(let s = print_time count; secs = takeWhile (\<lambda>c. c \<noteq> CHR ''.'') s; frac = drop (Suc (length secs)) s in
    length frac = 9 \<and> int (dec_value secs * 1000000000 + dec_value frac) = count mod 2 ^ 64)"
proof -
  let ?n = "nanoseconds count"
  have nd: "CHR ''.'' \<notin> set (nat_to_string k)" for k
    using nat_to_string_digits [of k] by (auto simp: is_digit_def)
  have l: "length (nat_to_string (?n mod 1000000000)) \<le> 9" using nat_to_string_length [of _ 8] by simp
  have t: "takeWhile (\<lambda>c. c \<noteq> CHR ''.'') (print_time count) = nat_to_string (?n div 1000000000)"
    unfolding print_time_parts using nd by (subst takeWhile_append2) auto
  have d: "drop (Suc (length (nat_to_string (?n div 1000000000)))) (print_time count) = fill_right CHR ''0'' 9 (nat_to_string (?n mod 1000000000))"
    unfolding print_time_parts by simp
  have "int ?n = count mod 2 ^ 64" by (simp add: nanoseconds_def)
  then have e: "int (?n div 1000000000 * 1000000000 + ?n mod 1000000000) = count mod 2 ^ 64" by simp
  have f: "dec_value (fill_right CHR ''0'' 9 (nat_to_string (?n mod 1000000000))) = ?n mod 1000000000"
    by (simp add: fill_right_def dec_value_zeros)
  have "length (fill_right CHR ''0'' 9 (nat_to_string (?n mod 1000000000))) = 9"
    using l by (intro trans [OF fill_right_length]) simp_all
  then show ?thesis unfolding Let_def t d f dec_value_nat_to_string using e by blast
qed

section \<open>Cycles\<close>

text \<open>The conversion of the cycle counter, which multiplies the rest by \<open>10 ^ 9\<close> in 64 bits, is the exact number of nanoseconds,
  rounded down, for every value of the counter, as long as the frequency is at most 18446744073 Hz.\<close>

theorem qnx_clockcycles_exact:
  assumes "0 < f" "f \<le> 18446744073"
  shows "qnx_clockcycles f c = Some (uint c * 1000000000 div uint f)"
proof -
  have f: "0 < uint f" "uint f \<le> 18446744073" using assms by (simp_all add: word_less_def word_le_def)
  have m: "uint c mod uint f * 1000000000 < 2 ^ 64"
  proof -
    have "uint c mod uint f \<le> 18446744072" using f pos_mod_bound [OF f(1), of "uint c"] by linarith
    then show ?thesis by simp
  qed
  have e: "uint (c mod f * 1000000000) = uint c mod uint f * 1000000000"
    using m f pos_mod_sign [OF f(1), of "uint c"] by (simp add: uint_word_ariths uint_mod_distrib mod_pos_pos_trivial)
  define q r where "q = uint c div uint f" and "r = uint c mod uint f"
  have "uint c = q * uint f + r" by (simp add: q_def r_def)
  then have "uint c * 1000000000 = q * 1000000000 * uint f + r * 1000000000" by (simp add: algebra_simps)
  then have "uint c * 1000000000 div uint f = q * 1000000000 + r * 1000000000 div uint f"
    using f(1) by simp
  moreover have "f \<noteq> 0" using assms(1) by auto
  ultimately show ?thesis by (simp add: qnx_clockcycles_def Let_def e uint_div_distrib q_def r_def)
qed

theorem qnx_clockcycles_exact_witness: "qnx_clockcycles 2600000000 13000000001 = Some 5000000000"
  using qnx_clockcycles_exact [of 2600000000 13000000001] by simp

lemma qnx_clockcycles_wraps: "qnx_clockcycles 0x800000000 0x7FFFFFFFF \<noteq> Some (uint (0x7FFFFFFFF :: 64 word) * 1000000000 div uint (0x800000000 :: 64 word))"
  by (simp add: qnx_clockcycles_def Let_def)

section \<open>The lines\<close>

lemma print_time_length: "length (print_time count) \<le> 22"
proof -
  let ?n = "nanoseconds count"
  have "?n < 2 ^ 64" by (simp add: nanoseconds_def nat_less_iff)
  then have "length (nat_to_string (?n div 1000000000)) \<le> 11" by (intro nat_to_string_length [of _ 10, simplified]) simp
  moreover have "length (fill_right CHR ''0'' 9 (nat_to_string (?n mod 1000000000))) = 9"
    using nat_to_string_length [of "?n mod 1000000000" 8] by (intro trans [OF fill_right_length]) simp_all
  ultimately show ?thesis by (simp add: print_time_parts)
qed

lemma clock_field_length: "length (clock_field r) = 23"
  using print_time_length by (cases r) (simp_all add: clock_field_def fill_right_def)

text \<open>Whatever the clocks say, and whether they fail, all lines of the loop have the length of its header.\<close>

theorem clock_lines_aligned:
  assumes "list_all (\<lambda>s. cl_cycles s \<noteq> None \<longleftrightarrow> qnx) ss"
  shows "list_all (\<lambda>l. length l = 23 * length (clock_names qnx)) (clock_lines qnx ss)"
  using assms by (auto simp: clock_lines_def clock_names_def sample_line_def clock_field_length list_all_iff fill_left_def split: option.split)

theorem clock_lines_aligned_witness:
  "list_all (\<lambda>l. length l = 115) (clock_lines False [\<lparr>cl_system = 5, cl_highres = -1, cl_steady = 0, cl_monotonic = Inl 22, cl_realtime = Inr 7, cl_cycles = None\<rparr>])"
  using clock_lines_aligned [of False "[\<lparr>cl_system = 5, cl_highres = -1, cl_steady = 0, cl_monotonic = Inl 22, cl_realtime = Inr 7, cl_cycles = None\<rparr>]"]
  by (simp add: clock_names_def)

lemma before_epoch: "nanoseconds (-1) = 18446744073709551615"
  by (simp add: nanoseconds_def)

end
