(* ===== verification/Spec2Isabelle.thy ===== *)
theory Spec2Isabelle
  imports JsonClient Strings Options Rcu StrIntern UdpLoadPacket ToolOptions CoreLatency NetQuery SddPayload BpfUdp4 UdpLoad UdpRaw Flags Net UdpSocket Lshmem Lsqf ResmgrDevice CpuidXml MonotonicResource Adder SyncEvent Mallopt BumpAlloc InternBench IpList TimeCompare
begin

text \<open>
  A verification library of the C++ libraries, tools and benchmarks for QNX under \<open>src/qnx\<close>.
  Paths in this development are relative to that directory.  Every definition that models code
  is translated from the source: a class is a record of its members, a method that mutates the object
  and may throw is a computation with a state whose effects before an exception stay (\<open>Prelude\<close>),
  an integer whose width matters is a word, and a loop that the code does not bound is a partial
  function whose value \<open>None\<close> means that the call never returns.

  \<^bold>\<open>The parts and how they interact.\<close>  \<open>lib/libubench\<close> holds the helpers every tool uses: the command line
  parser, the string functions, the intern table, the bit flags, the file descriptor and the RCU
  pointer.  \<open>lib/libunet\<close> lists the network interfaces of the system and wraps UDP sockets.
  \<open>lib/libosqnx\<close> reads the typed memory of the system page and runs resource managers.  The
  tools are built on them: \<open>sdd\<close> opens one UDP socket for each address of an active interface and
  sends on each a JSON text made with \<open>tools/sdd/libsjson\<close>; \<open>udp_load\<close> sends packets at a given
  rate, through sockets or as raw frames it builds itself; \<open>poc/bpf_udp4\<close> sends one datagram as raw
  frames, in fragments where it has to; \<open>lshmem\<close> reads the memory maps of processes and adds up what
  two of them share; \<open>core_latency\<close> measures how long two threads on two cores take to pass
  a value; \<open>benchmarks/devctl\<close> measures calls of a resource manager from several threads;
  and \<open>cpuid-x86\<close> dumps the CPUID registers of a core from the instruction, a device file or a
  captured XML document.

  \<^bold>\<open>The theories.\<close>

\<^item> \<open>Prelude\<close>: computations with state and exceptions, the locale \<open>invariant_of\<close> (an invariant of the
    reachable states of a step function), index scans, decimal numbers.  \<open>Interleaving\<close>: the locale
    \<open>polling\<close>, progress of threads that wait by polling, under any fair schedule; and the runs of a step relation, with
    weakly fair actions and what they lead to.
\<^item> \<open>JsonContext\<close>, \<open>JsonWriter\<close>, \<open>JsonSystem\<close>, \<open>JsonClient\<close>: \<open>tools/sdd/libsjson\<close>.  The context with its
    stack of tokens and the escaping; the methods of the object and array writers; the root
    writer; and every possible client as a sequence of calls \<open>jstep\<close>.  The interface between the writers
    and the context is the locale \<open>nested_stream\<close>.
\<^item> \<open>Strings\<close>, \<open>Options\<close>, \<open>ToolOptions\<close>: \<open>string.h\<close>, \<open>string.cpp\<close>, \<open>string_strlcpy.cpp\<close>; \<open>options.cpp\<close>; and
    \<open>make_options\<close> of each tool.  What the parser promises a handler of options, and what a handler
    promises about the ranges of its values, is the locale \<open>option_handler\<close>, interpreted on every tool.
\<^item> \<open>StrIntern\<close>: \<open>str_intern.cpp\<close> and the alternatives its benchmark compares it with; the contract of all
    of them is the locale \<open>intern_table\<close>.  \<open>MemoryMetrics\<close>: the replaced operators new and delete of that
    benchmark.  \<open>MonotonicResource\<close>: the memory resource behind the tables.  \<open>ReadBuff\<close>: the reader of words
    (\<open>readbuff.cpp\<close>); \<open>Table\<close>: the printer of tables (\<open>measure/print.cpp\<close>); \<open>InternBench\<close>: the benchmark as a program
    on top of them, with the contract \<open>counting_table\<close> for the tables it compares.
\<^item> \<open>Flags\<close>: \<open>flags.h\<close>, as a Boolean algebra of the library.  \<open>Rcu\<close>: \<open>atomics/rcu.h\<close>, one step per
    atomic operation of any number of readers and handles and of the writer.  \<open>SyncEvent\<close>: \<open>sync_event\<close> of
    \<open>thread.h\<close>, one step per point where another thread may run.
\<^item> \<open>Inet\<close>: integers in buffers, the Internet checksum and a receiver of frames, the reference for both
    packet builders, \<open>UdpLoadPacket\<close> (\<open>l2_eth_udp_pkt.cpp\<close>) and \<open>BpfSocket\<close> (\<open>bpf_l2_udp_packet.cpp\<close>,
    \<open>bpf_socket.cpp\<close>).  \<open>BpfUdp4\<close>: the rest of \<open>poc/bpf_udp4\<close>, both sockets and \<open>main\<close>.  \<open>UdpTalker\<close>: the shaping of \<open>udp_talker.cpp\<close>; \<open>UdpSenders\<close> and \<open>UdpRaw\<close>: the senders of
    \<open>udp_load\<close> over sockets and over the raw device, with the memory of its pool; \<open>UdpLoad\<close>: its threads and totals.
\<^item> \<open>Net\<close>, \<open>NetQuery\<close>, \<open>UdpSocket\<close>: \<open>libunet\<close>.  The addresses and interfaces with the list of
    \<open>getifaddrs\<close>; completing them by the requests of each platform; the socket as calls of the system.
    \<open>SddPayload\<close>: \<open>payload.cpp\<close> of \<open>sdd\<close>, on top of these and of the JSON writers.  \<open>IpList\<close>: the tool \<open>iplist\<close>.
\<^item> \<open>TimeCompare\<close>: the tool \<open>time_compare\<close>.
\<^item> \<open>AsInfo\<close>, \<open>PidMapping\<close>, \<open>ShmemMap\<close>, \<open>Lshmem\<close>: \<open>asinfo.cpp\<close>, \<open>pid_mapping.cpp\<close>, \<open>shmem_map.cpp\<close> and
    \<open>lshmem.cpp\<close>, the stages of \<open>lshmem\<close> and its report.  \<open>Pids\<close>: the names of processes (\<open>pids.cpp\<close>); \<open>Lsqf\<close>: the
    tool \<open>lsqf\<close> on top of it.  \<open>ResmgrDevice\<close>: \<open>resmgr/device.cpp\<close>, the setup as calls of the system and
    the loop with concurrent calls of \<open>exit\<close>.
\<^item> \<open>CoreLatency\<close>: options, statistics and the two benchmarks of \<open>core_latency\<close> as interleaved threads.
\<^item> \<open>Adder\<close>: \<open>benchmarks/devctl\<close>, client and server, with the checks of message lengths of
    \<open>resmgr/device.h\<close>.
\<^item> \<open>Mallopt\<close>, \<open>BumpAlloc\<close>: \<open>benchmarks/malloc\<close>, the options it passes to \<open>mallopt()\<close> and its operators new.
\<^item> \<open>CpuidDump\<close>, \<open>CpuidReader\<close>, \<open>CpuidXml\<close>: \<open>libcpuid\<close>.  The dumps over an abstract reader (a record of its
    virtual functions, related by the locale \<open>reader_sim\<close>); the readers over tables, device files and
    the instruction, with the contract \<open>cpu_device\<close>; and the reader of captured documents.

  \<^bold>\<open>What the lemmas show.\<close>

\<^item> Safety and invariants of state machines: RCU counters are exact and no object is used after it is deleted as
    long as no exchange of a reader falls between the two stores by which an update reuses its slot (and a run that
    breaks this is given); no thread that waits for an event misses it; JSON tokens form a chain, and what any client writes is the beginning of a JSON text; sockets, resource
    managers and device readers never lose a descriptor, whatever calls fail; the pieces of memory that the
    allocators give lie in what they own and apart.
\<^item> Functional behaviour against a reference: rendered documents, delivered datagrams and frames with their
    addresses, packets sent by their due time, overlap lengths, completed interfaces, the entries of a CPUID dump,
    interned words and their number, the columns of printed tables, the connections that \<open>lsqf\<close> lists.
\<^item> Round trips: packet headers against the receiver, addresses and their texts, JSON escapes, options, captured
    CPUID tables against the XML reader.  Refinement and equivalence: a memory map against its set of
    pages, the payload's queries against the addresses of the system, dumps through a cache against
    dumps without it.
\<^item> Termination and progress: the benchmarks end under every fair schedule, a requested exit ends the loop of a
    resource manager in every fair run, and a dump
    returns for every table whose counting leaves end; counterexamples where the code may hang.
\<^item> Bounds and errors: ranges of parsed options, no talker sends more than its share, buffers
    of \<open>strlcpy\<close>; misuse gives the error the code has for it.

  \<^bold>\<open>Bounds, fuel and parameters.\<close>

  No fuel is used: loops are structural, have a termination proof, or are partial functions.  Numbers the
  code keeps in a machine word are words, except in \<open>CoreLatency\<close> and \<open>Rcu\<close>, where counters are
  numbers and the guards of the steps (\<open>max_count\<close>, the limit of the loop) keep them below the width.  What is
  not under \<open>src\<close> is an argument of the definitions: what system calls return (as functions of the
  calls before them), the CPUID instruction, \<open>inet_pton\<close> and \<open>inet_ntop\<close>, \<open>strerror\<close>, the hash function, float
  rounding, the C allocator, and the content of files.  The theorems name what they need of them as hypotheses: that a
  descriptor just opened is not open already (\<open>os_fresh\<close>, \<open>raw_fresh\<close>, \<open>fresh_fd\<close>), that a rounding is monotone, that
  an allocator hands out memory that is not in use.  Memory is sequentially consistent.

  \<^bold>\<open>What is not modelled.\<close>

  The output of help texts and messages, the thread and clock glue of each platform (\<open>thread_pin\<close>,
  \<open>idle_clock\<close>, \<open>process_clock\<close>, \<open>os.h\<close>), the assembler variants of the compare and exchange, the
  vendored \<open>stdext/expected.h\<close> (its users return sums here), the benchmarks that only drive a library
  under google-benchmark, tests and build files: they are input and output, or have no logic
  of their own.  A size within 32 bytes of the greatest makes the replaced operators new of \<open>MemoryMetrics\<close> write the
  header behind a block that is too short; the model has the wrapped request, not that write.  The components of the manifest that are marked \<open>partly\<close> say what is missing from them.
\<close>

end
